(* ===== verification/Prelude.thy ===== *)
theory Prelude imports Main "HOL-Library.Sublist" "HOL-Library.List_Lexorder" "HOL-Library.Char_ord" begin

section \<open>Shared vocabulary: errors, effects, JavaScript strings\<close>

text \<open>
  The parts every component uses: thrown errors as values, operations as state passing
  functions that may fail, the string methods the sources call, and the collections of
  facts that carry the proofs of the components.

  JavaScript strings are sequences of code units; here they are HOL strings, so code units
  range over U+0000 to U+00FF.  The order on strings of \<open>List_Lexorder\<close> and \<open>Char_ord\<close> is the
  code unit order of JavaScript's comparison operators and of \<open>Array.prototype.sort\<close>.
\<close>

named_theorems exec_simps \<open>symbolic execution of operations\<close>
named_theorems path_simps \<open>normal forms of paths\<close>
named_theorems keeps_intros \<open>preservation of state predicates by operations\<close>

subsection \<open>Errors\<close>

text \<open>A thrown \<open>Error\<close>: its \<open>name\<close>, its \<open>message\<close> and its optional \<open>code\<close>.\<close>

datatype js_error = JsError (err_name: string) (err_message: string) (err_code: "string option")

type_synonym 'a result = "js_error + 'a"

abbreviation plain_error :: "string \<Rightarrow> js_error" where
  "plain_error m \<equiv> JsError ''Error'' m None"

definition bind_result :: "'a result \<Rightarrow> ('a \<Rightarrow> 'b result) \<Rightarrow> 'b result" where
  "bind_result r f = (case r of Inl e \<Rightarrow> Inl e | Inr x \<Rightarrow> f x)"

definition is_ok :: "'a result \<Rightarrow> bool" where
  "is_ok r = (case r of Inl _ \<Rightarrow> False | Inr _ \<Rightarrow> True)"

lemma bind_result_simps [simp]:
  "bind_result (Inl e) f = Inl e"
  "bind_result (Inr x) f = f x"
  by (simp_all add: bind_result_def)

lemma bind_result_InrE:
  assumes "bind_result r f = Inr y"
  obtains x where "r = Inr x" and "f x = Inr y"
  using assms by (cases r) auto

lemma is_ok_simps [simp]: "is_ok (Inl e) = False" "is_ok (Inr x) = True"
  by (simp_all add: is_ok_def)

lemma is_ok_iff: "is_ok r \<longleftrightarrow> (\<exists>x. r = Inr x)"
  by (cases r) auto

subsection \<open>Operations: state passing with failure\<close>

text \<open>
  An \<open>async\<close> method awaited by its caller is a function from the state before to its outcome
  and the state after; a throw keeps the effects already made.
\<close>

type_synonym ('s, 'a) op = "'s \<Rightarrow> 'a result \<times> 's"

definition ret :: "'a \<Rightarrow> ('s, 'a) op" where
  "ret x s = (Inr x, s)"

definition throw :: "js_error \<Rightarrow> ('s, 'a) op" where
  "throw e s = (Inl e, s)"

definition of_result :: "'a result \<Rightarrow> ('s, 'a) op" where
  "of_result r s = (r, s)"

definition bind_op :: "('s, 'a) op \<Rightarrow> ('a \<Rightarrow> ('s, 'b) op) \<Rightarrow> ('s, 'b) op" where
  "bind_op m f s = (case m s of (Inl e, t) \<Rightarrow> (Inl e, t) | (Inr x, t) \<Rightarrow> f x t)"

definition seq_op :: "('s, 'a) op \<Rightarrow> ('s, 'b) op \<Rightarrow> ('s, 'b) op" where
  "seq_op m n = bind_op m (\<lambda>_. n)"

definition catch_op :: "('s, 'a) op \<Rightarrow> (js_error \<Rightarrow> ('s, 'a) op) \<Rightarrow> ('s, 'a) op" where
  "catch_op m h s = (case m s of (Inl e, t) \<Rightarrow> h e t | (Inr x, t) \<Rightarrow> (Inr x, t))"

definition when_op :: "bool \<Rightarrow> ('s, unit) op \<Rightarrow> ('s, unit) op" where
  "when_op b m = (if b then m else ret ())"

definition gets :: "('s \<Rightarrow> 'a) \<Rightarrow> ('s, 'a) op" where
  "gets f s = (Inr (f s), s)"

definition modify :: "('s \<Rightarrow> 's) \<Rightarrow> ('s, unit) op" where
  "modify f s = (Inr (), f s)"

primrec fold_op :: "('x \<Rightarrow> 'a \<Rightarrow> ('s, 'a) op) \<Rightarrow> 'x list \<Rightarrow> 'a \<Rightarrow> ('s, 'a) op" where
  "fold_op f [] a = ret a"
| "fold_op f (x # xs) a = bind_op (f x a) (fold_op f xs)"

lemma op_simps [simp, exec_simps]:
  "ret x s = (Inr x, s)"
  "throw e s = (Inl e, s)"
  "of_result r s = (r, s)"
  "gets f s = (Inr (f s), s)"
  "modify g s = (Inr (), g s)"
  by (simp_all add: ret_def throw_def of_result_def gets_def modify_def)

lemma bind_op_Inr [exec_simps]: "m s = (Inr x, t) \<Longrightarrow> bind_op m f s = f x t"
  by (simp add: bind_op_def)

lemma bind_op_Inl [exec_simps]: "m s = (Inl e, t) \<Longrightarrow> bind_op m f s = (Inl e, t)"
  by (simp add: bind_op_def)

lemma seq_op_Inr [exec_simps]: "m s = (Inr x, t) \<Longrightarrow> seq_op m n s = n t"
  by (simp add: seq_op_def bind_op_def)

lemma seq_op_Inl [exec_simps]: "m s = (Inl e, t) \<Longrightarrow> seq_op m n s = (Inl e, t)"
  by (simp add: seq_op_def bind_op_def)

lemma catch_op_Inr [exec_simps]: "m s = (Inr x, t) \<Longrightarrow> catch_op m h s = (Inr x, t)"
  by (simp add: catch_op_def)

lemma catch_op_Inl [exec_simps]: "m s = (Inl e, t) \<Longrightarrow> catch_op m h s = h e t"
  by (simp add: catch_op_def)

lemma when_op_simps [simp, exec_simps]: "when_op True m = m" "when_op False m = ret ()"
  by (simp_all add: when_op_def)

lemma bind_op_ret [simp]: "bind_op (ret x) f = f x"
  by (simp add: bind_op_def fun_eq_iff)

lemma bind_op_throw [simp]: "bind_op (throw e) f = throw e"
  by (simp add: bind_op_def fun_eq_iff)

lemma bind_op_assoc: "bind_op (bind_op m f) g = bind_op m (\<lambda>x. bind_op (f x) g)"
  by (auto simp: bind_op_def fun_eq_iff split: prod.splits sum.splits)

lemma bind_op_InrE:
  assumes "bind_op m f s = (Inr y, u)"
  obtains x t where "m s = (Inr x, t)" and "f x t = (Inr y, u)"
  using assms by (auto simp: bind_op_def split: prod.splits sum.splits)

lemma seq_op_InrE:
  assumes "seq_op m n s = (Inr y, u)"
  obtains x t where "m s = (Inr x, t)" and "n t = (Inr y, u)"
  using assms unfolding seq_op_def by (elim bind_op_InrE)

text \<open>\<open>keeps P m\<close>: whether \<open>m\<close> succeeds or throws, it leads from \<open>P\<close> to \<open>P\<close>.\<close>

definition keeps :: "('s \<Rightarrow> bool) \<Rightarrow> ('s, 'a) op \<Rightarrow> bool" where
  "keeps P m \<longleftrightarrow> (\<forall>s. P s \<longrightarrow> P (snd (m s)))"

lemma keepsI: "(\<And>s. P s \<Longrightarrow> P (snd (m s))) \<Longrightarrow> keeps P m"
  by (simp add: keeps_def)

lemma keepsD: "keeps P m \<Longrightarrow> P s \<Longrightarrow> P (snd (m s))"
  by (simp add: keeps_def)

lemma keeps_run: "keeps P m \<Longrightarrow> P s \<Longrightarrow> m s = (r, t) \<Longrightarrow> P t"
  by (metis keepsD snd_conv)

lemma keeps_ret [keeps_intros]: "keeps P (ret x)"
  and keeps_throw [keeps_intros]: "keeps P (throw e)"
  and keeps_of_result [keeps_intros]: "keeps P (of_result r)"
  and keeps_gets [keeps_intros]: "keeps P (gets f)"
  by (simp_all add: keeps_def)

lemma keeps_bind [keeps_intros]:
  assumes "keeps P m" and "\<And>x. keeps P (f x)"
  shows "keeps P (bind_op m f)"
proof (rule keepsI)
  fix s assume "P s"
  obtain r t where m: "m s = (r, t)" by fastforce
  with assms(1) \<open>P s\<close> have "P t" by (metis keepsD snd_conv)
  then show "P (snd (bind_op m f s))"
    using assms(2) m by (cases r) (auto simp: bind_op_def keeps_def)
qed

lemma keeps_seq [keeps_intros]: "keeps P m \<Longrightarrow> keeps P n \<Longrightarrow> keeps P (seq_op m n)"
  unfolding seq_op_def by (intro keeps_bind)

lemma keeps_when [keeps_intros]: "(b \<Longrightarrow> keeps P m) \<Longrightarrow> keeps P (when_op b m)"
  by (cases b) (simp_all add: keeps_ret)

lemma keeps_catch [keeps_intros]:
  assumes "keeps P m" and "\<And>e. keeps P (h e)"
  shows "keeps P (catch_op m h)"
proof (rule keepsI)
  fix s assume "P s"
  obtain r t where m: "m s = (r, t)" by fastforce
  with assms(1) \<open>P s\<close> have "P t" by (metis keepsD snd_conv)
  then show "P (snd (catch_op m h s))"
    using assms(2) m by (cases r) (auto simp: catch_op_def keeps_def)
qed

lemma keeps_fold [keeps_intros]:
  "(\<And>x a. keeps P (f x a)) \<Longrightarrow> keeps P (fold_op f xs a)"
  by (induction xs arbitrary: a) (auto intro!: keeps_intros)

lemma keeps_if [keeps_intros]:
  "(b \<Longrightarrow> keeps P m) \<Longrightarrow> (\<not> b \<Longrightarrow> keeps P n) \<Longrightarrow> keeps P (if b then m else n)"
  by simp

subsection \<open>Insertion ordered sets\<close>

text \<open>\<open>Set.prototype.add\<close> on the list of the elements in insertion order.\<close>

definition push_new :: "'a list \<Rightarrow> 'a \<Rightarrow> 'a list" where
  "push_new xs x = (if x \<in> set xs then xs else xs @ [x])"

lemma push_new_props:
  "distinct xs \<Longrightarrow> distinct (push_new xs x)" "set (push_new xs x) = insert x (set xs)"
  "xs \<noteq> [] \<Longrightarrow> hd (push_new xs x) = hd xs" "push_new xs x \<noteq> []"
  by (auto simp: push_new_def)

end
