(* ===== verification/Strings.thy ===== *)
theory Strings imports Prelude begin

section \<open>The string methods of JavaScript\<close>

text \<open>
  \<open>String.prototype.split\<close> with a one character separator, \<open>Array.prototype.join\<close>,
  \<open>replaceAll\<close>, \<open>slice\<close>, \<open>padStart\<close>, \<open>trim\<close>, \<open>indexOf\<close>, ASCII classes and number formatting in a
  radix, with the laws the components use.
\<close>

subsection \<open>Split and join\<close>

fun split_on :: "char \<Rightarrow> string \<Rightarrow> string list" where
  "split_on c [] = [[]]"
| "split_on c (x # xs) =
     (if x = c then [] # split_on c xs
      else case split_on c xs of [] \<Rightarrow> [[x]] | y # ys \<Rightarrow> (x # y) # ys)"

fun join_with :: "string \<Rightarrow> string list \<Rightarrow> string" where
  "join_with sep [] = []"
| "join_with sep [x] = x"
| "join_with sep (x # y # ys) = x @ sep @ join_with sep (y # ys)"

lemma split_on_not_Nil [simp]: "split_on c s \<noteq> []"
  by (induction s) (auto split: list.splits)

lemma join_with_Cons: "xs \<noteq> [] \<Longrightarrow> join_with sep (x # xs) = x @ sep @ join_with sep xs"
  by (cases xs) simp_all

lemma join_split [simp]: "join_with [c] (split_on c s) = s"
proof (induction s)
  case (Cons x xs)
  show ?case
  proof (cases "split_on c xs")
    case (Cons y ys)
    with Cons.IH show ?thesis by (cases ys) auto
  qed simp
qed simp

lemma split_on_append_sep: "split_on c (xs @ c # ys) = split_on c xs @ split_on c ys"
proof (induction xs)
  case (Cons x xs)
  then show ?case by (cases "split_on c xs") auto
qed simp

lemma split_on_no_sep: "c \<notin> set xs \<Longrightarrow> split_on c xs = [xs]"
  by (induction xs) auto

lemma split_on_join:
  assumes "ss \<noteq> []" and "\<forall>s\<in>set ss. c \<notin> set s"
  shows "split_on c (join_with [c] ss) = ss"
  using assms
proof (induction ss rule: list_nonempty_induct)
  case (cons s ss)
  then have "split_on c (join_with [c] (s # ss)) = split_on c (s @ c # join_with [c] ss)"
    by (simp add: join_with_Cons)
  also have "\<dots> = [s] @ ss"
    using cons by (simp add: split_on_append_sep split_on_no_sep)
  finally show ?case by simp
qed (simp add: split_on_no_sep)

lemma split_on_parts_no_sep: "s \<in> set (split_on c xs) \<Longrightarrow> c \<notin> set s"
proof (induction xs arbitrary: s)
  case (Cons x xs)
  then show ?case by (cases "split_on c xs") (auto split: if_splits)
qed simp

lemma set_split_on: "s \<in> set (split_on c xs) \<Longrightarrow> set s \<subseteq> set xs"
proof (induction xs arbitrary: s)
  case (Cons x xs)
  then show ?case by (cases "split_on c xs") (fastforce split: if_splits)+
qed simp

lemma set_join_with: "set (join_with sep ss) \<subseteq> \<Union> (set ` set ss) \<union> set sep"
  by (induction sep ss rule: join_with.induct) auto

lemma join_with_append:
  "xs \<noteq> [] \<Longrightarrow> ys \<noteq> [] \<Longrightarrow> join_with sep (xs @ ys) = join_with sep xs @ sep @ join_with sep ys"
  by (induction xs rule: list_nonempty_induct) (auto simp: join_with_Cons)

lemma join_with_eq_Nil: "join_with [c] ss = [] \<longleftrightarrow> ss = [] \<or> ss = [[]]"
  by (cases "([c], ss)" rule: join_with.cases) auto

subsection \<open>Other methods\<close>

definition starts_with :: "string \<Rightarrow> string \<Rightarrow> bool" where
  "starts_with p s = (take (length p) s = p)"

definition ends_with :: "string \<Rightarrow> string \<Rightarrow> bool" where
  "ends_with p s = starts_with (rev p) (rev s)"

text \<open>\<open>slice(0, -n)\<close> drops the last \<open>n\<close> units, \<open>slice(-n)\<close> keeps them.\<close>

definition drop_last :: "nat \<Rightarrow> string \<Rightarrow> string" where
  "drop_last n s = take (length s - n) s"

definition take_last :: "nat \<Rightarrow> string \<Rightarrow> string" where
  "take_last n s = drop (length s - n) s"

definition pad_start :: "nat \<Rightarrow> char \<Rightarrow> string \<Rightarrow> string" where
  "pad_start n c s = replicate (n - length s) c @ s"

definition replace_all :: "char \<Rightarrow> string \<Rightarrow> string \<Rightarrow> string" where
  "replace_all c r s = concat (map (\<lambda>x. if x = c then r else [x]) s)"

fun index_of :: "char \<Rightarrow> string \<Rightarrow> nat option" where
  "index_of c [] = None"
| "index_of c (x # xs) = (if x = c then Some 0 else map_option Suc (index_of c xs))"

fun includes_str :: "string \<Rightarrow> string \<Rightarrow> bool" where
  "includes_str p [] = (p = [])"
| "includes_str p (x # xs) = (starts_with p (x # xs) \<or> includes_str p xs)"

definition is_space :: "char \<Rightarrow> bool" where
  "is_space c = (let n = of_char c :: int in n = 32 \<or> n = 160 \<or> (9 \<le> n \<and> n \<le> 13))"

definition trim :: "string \<Rightarrow> string" where
  "trim s = rev (dropWhile is_space (rev (dropWhile is_space s)))"

definition is_digit :: "char \<Rightarrow> bool" where
  "is_digit c = (let n = of_char c :: int in 48 \<le> n \<and> n \<le> 57)"

definition is_lower :: "char \<Rightarrow> bool" where
  "is_lower c = (let n = of_char c :: int in 97 \<le> n \<and> n \<le> 122)"

definition is_upper :: "char \<Rightarrow> bool" where
  "is_upper c = (let n = of_char c :: int in 65 \<le> n \<and> n \<le> 90)"

definition is_letter :: "char \<Rightarrow> bool" where
  "is_letter c = (is_lower c \<or> is_upper c)"

definition is_alnum :: "char \<Rightarrow> bool" where
  "is_alnum c = (is_letter c \<or> is_digit c)"

text \<open>\<open>toUpperCase\<close> and \<open>toLowerCase\<close> on the ASCII identifiers they are applied to.\<close>

definition upper_char :: "char \<Rightarrow> char" where
  "upper_char c = (if is_lower c then char_of (of_char c - 32 :: int) else c)"

definition lower_char :: "char \<Rightarrow> char" where
  "lower_char c = (if is_upper c then char_of (of_char c + 32 :: int) else c)"

definition to_upper :: "string \<Rightarrow> string" where
  "to_upper s = map upper_char s"

definition to_lower :: "string \<Rightarrow> string" where
  "to_lower s = map lower_char s"

lemma starts_with_iff_prefix: "starts_with p s \<longleftrightarrow> prefix p s"
  unfolding starts_with_def by (metis append_eq_conv_conj prefix_def take_is_prefix)

lemma ends_with_iff_suffix: "ends_with p s \<longleftrightarrow> suffix p s"
  by (simp add: ends_with_def starts_with_iff_prefix suffix_to_prefix)

lemma starts_with_simps [simp]:
  "starts_with [] s"
  "\<not> starts_with (x # p) []"
  "starts_with (x # p) (y # s) \<longleftrightarrow> x = y \<and> starts_with p s"
  by (auto simp: starts_with_def)

lemma replace_all_simps [simp]:
  "replace_all c r [] = []"
  "replace_all c r (x # xs) = (if x = c then r else [x]) @ replace_all c r xs"
  "replace_all c r (xs @ ys) = replace_all c r xs @ replace_all c r ys"
  by (simp_all add: replace_all_def)

lemma replace_all_id: "c \<notin> set s \<Longrightarrow> replace_all c r s = s"
  by (induction s) auto

lemma length_pad_start: "length (pad_start n c s) = max n (length s)"
  by (simp add: pad_start_def)

lemma length_take_last: "length (take_last n s) = min n (length s)"
  by (simp add: take_last_def)

lemma index_of_None: "index_of c s = None \<longleftrightarrow> c \<notin> set s"
  by (induction s) auto

lemma index_of_append: "c \<notin> set xs \<Longrightarrow> index_of c (xs @ c # ys) = Some (length xs)"
  by (induction xs) auto

lemma index_of_Some:
  "index_of c s = Some i \<Longrightarrow> i < length s \<and> s ! i = c \<and> c \<notin> set (take i s)"
  by (induction s arbitrary: i) (auto split: if_splits)

subsection \<open>Digits in a radix\<close>

text \<open>\<open>toString(radix)\<close> of a non negative integer: lower case digits, most significant first.\<close>

definition digit_char :: "int \<Rightarrow> char" where
  "digit_char d = char_of (if d < 10 then 48 + d else 87 + d)"

function digits_rev :: "int \<Rightarrow> int \<Rightarrow> string" where
  "digits_rev b n =
     (if b < 2 \<or> n < b then [digit_char n] else digit_char (n mod b) # digits_rev b (n div b))"
  by pat_completeness auto

termination
proof (relation "measure (\<lambda>(b, n). nat n)", goal_cases)
  case (2 b n)
  then have "n div b < n" by (intro int_div_less_self) auto
  with 2 show ?case by simp
qed simp

declare digits_rev.simps [simp del]

definition digits_of :: "int \<Rightarrow> int \<Rightarrow> string" where
  "digits_of b n = rev (digits_rev b n)"

definition digit_value :: "char \<Rightarrow> int option" where
  "digit_value c =
     (if is_digit c then Some (of_char c - 48)
      else if is_lower c then Some (of_char c - 87)
      else if is_upper c then Some (of_char c - 55) else None)"

text \<open>The value of a digit string, as \<open>parseInt(s, radix)\<close> reads it when every unit is a digit.\<close>

definition value_of_digits :: "int \<Rightarrow> string \<Rightarrow> int" where
  "value_of_digits b s =
     foldl (\<lambda>n c. n * b + (case digit_value c of Some d \<Rightarrow> d | None \<Rightarrow> 0)) 0 s"

lemma of_char_bounds: "0 \<le> (of_char c :: int)" "(of_char c :: int) < 256"
proof -
  have "(of_char c :: int) = int (of_char c)" by (rule of_nat_of_char [symmetric])
  then show "0 \<le> (of_char c :: int)" "(of_char c :: int) < 256"
    using nat_of_char_less_256 [of c] by linarith+
qed

lemma of_char_char_of_int: "0 \<le> n \<Longrightarrow> n < 256 \<Longrightarrow> (of_char (char_of (n :: int)) :: int) = n"
  by simp

lemma of_char_digit_char:
  "0 \<le> d \<Longrightarrow> d < 36 \<Longrightarrow> of_char (digit_char d) = (if d < 10 then 48 + d else 87 + d :: int)"
  by (simp add: digit_char_def)

lemma digit_value_digit_char [simp]: "0 \<le> d \<Longrightarrow> d < 36 \<Longrightarrow> digit_value (digit_char d) = Some d"
  by (auto simp: digit_value_def is_digit_def is_lower_def of_char_digit_char Let_def)

lemma value_of_digits_append [simp]:
  "value_of_digits b (s @ [c]) =
     value_of_digits b s * b + (case digit_value c of Some d \<Rightarrow> d | None \<Rightarrow> 0)"
  by (simp add: value_of_digits_def)

lemma value_digits_of: "2 \<le> b \<Longrightarrow> b \<le> 36 \<Longrightarrow> 0 \<le> n \<Longrightarrow> value_of_digits b (digits_of b n) = n"
proof (induction b n rule: digits_rev.induct)
  case (1 b n)
  show ?case
  proof (cases "n < b")
    case True
    with "1.prems" show ?thesis
      by (simp add: digits_of_def digits_rev.simps [of b n] value_of_digits_def)
  next
    case False
    have m: "0 \<le> n mod b" "n mod b < 36"
      using "1.prems" pos_mod_bound [of b n] by (simp, linarith)
    have "value_of_digits b (digits_of b n) = value_of_digits b (digits_of b (n div b)) * b + n mod b"
      using False "1.prems" m by (simp add: digits_of_def digits_rev.simps [of b n])
    also have "\<dots> = n"
      using False 1 by (simp add: pos_imp_zdiv_nonneg_iff)
    finally show ?thesis .
  qed
qed

lemma digits_of_not_Nil [simp]: "digits_of b n \<noteq> []"
  by (subst digits_of_def, subst digits_rev.simps) auto

subsection \<open>UTF-8\<close>

text \<open>
  \<open>TextEncoder\<close> and \<open>TextDecoder\<close> on code units up to U+00FF; bytes are characters too.  What
  decodes to a code unit outside that range, or not at all, becomes the substitute U+001A.
\<close>

type_synonym bytes = string

definition utf8_char :: "char \<Rightarrow> bytes" where
  "utf8_char c = (let n = of_char c :: int in
     if n < 128 then [c] else [char_of (192 + n div 64), char_of (128 + n mod 64)])"

definition utf8_encode :: "string \<Rightarrow> bytes" where
  "utf8_encode s = concat (map utf8_char s)"

fun utf8_decode :: "bytes \<Rightarrow> string" where
  "utf8_decode [] = []"
| "utf8_decode [b] = (if (of_char b :: int) < 128 then [b] else [CHR 0x1A])"
| "utf8_decode (b # c # bs) =
     (let n = of_char b :: int; m = of_char c :: int in
      if n < 128 then b # utf8_decode (c # bs)
      else if (n = 194 \<or> n = 195) \<and> 128 \<le> m \<and> m < 192
        then char_of ((n - 192) * 64 + (m - 128)) # utf8_decode bs
      else CHR 0x1A # utf8_decode (c # bs))"

lemma utf8_decode_encode_append: "utf8_decode (utf8_char c @ bs) = c # utf8_decode bs"
proof (cases "(of_char c :: int) < 128")
  case True
  then show ?thesis by (cases bs) (simp_all add: utf8_char_def Let_def)
next
  case False
  let ?n = "of_char c :: int"
  have n: "128 \<le> ?n" "?n < 256" using False of_char_bounds [of c] by auto
  then have d: "?n div 64 = 2 \<or> ?n div 64 = 3" "0 \<le> ?n mod 64" "?n mod 64 < 64" by (simp_all, linarith)
  then have a: "(of_char (char_of (192 + ?n div 64)) :: int) = 192 + ?n div 64"
    "(of_char (char_of (128 + ?n mod 64)) :: int) = 128 + ?n mod 64"
    by auto
  have b: "?n div 64 * 64 + ?n mod 64 = ?n" by simp
  have "(char_of (?n div 64 * 64 + ?n mod 64) :: char) = c" unfolding b by simp
  with False d a show ?thesis by (auto simp: utf8_char_def Let_def)
qed

lemma utf8_decode_encode_append' [simp]: "utf8_decode (utf8_encode s @ bs) = s @ utf8_decode bs"
  by (induction s) (simp_all add: utf8_encode_def utf8_decode_encode_append)

lemma utf8_decode_encode [simp]: "utf8_decode (utf8_encode s) = s"
  using utf8_decode_encode_append' [of s "[]"] by simp

lemma utf8_encode_append: "utf8_encode (s @ t) = utf8_encode s @ utf8_encode t"
  by (simp add: utf8_encode_def)

definition is_ascii :: "string \<Rightarrow> bool" where
  "is_ascii s = list_all (\<lambda>c. (of_char c :: int) < 128) s"

lemma is_ascii_simps [simp]:
  "is_ascii []" "is_ascii (c # s) \<longleftrightarrow> (of_char c :: int) < 128 \<and> is_ascii s"
  "is_ascii (s @ t) \<longleftrightarrow> is_ascii s \<and> is_ascii t"
  by (simp_all add: is_ascii_def)

lemma utf8_encode_ascii: "is_ascii s \<Longrightarrow> utf8_encode s = s"
  by (induction s) (simp_all add: utf8_encode_def utf8_char_def)

lemma utf8_decode_ascii: "is_ascii s \<Longrightarrow> utf8_decode s = s"
  by (metis utf8_decode_encode utf8_encode_ascii)

end
