(* ===== verification/Base64.thy ===== *)
theory Base64 imports Strings begin

section \<open>Base64 (btoa, atob and the URL form of src/src/security/cipher.js)\<close>

text \<open>
  \<open>btoa\<close> and \<open>atob\<close> of the platform on binary strings, \<open>Cipher.base64Url\<close> and \<open>Cipher.fromBase64Url\<close>, and the
  round trip between bytes and their URL form.
\<close>

subsection \<open>Definitions\<close>

definition b64_char :: "int \<Rightarrow> char" where
  "b64_char n =
     (if n < 26 then char_of (65 + n) else if n < 52 then char_of (71 + n)
      else if n < 62 then char_of (n - 4) else if n = 62 then CHR ''+'' else CHR ''/'')"

definition b64_value :: "char \<Rightarrow> int option" where
  "b64_value c =
     (let n = of_char c :: int in
      if 65 \<le> n \<and> n \<le> 90 then Some (n - 65) else if 97 \<le> n \<and> n \<le> 122 then Some (n - 71)
      else if 48 \<le> n \<and> n \<le> 57 then Some (n + 4) else if c = CHR ''+'' then Some 62
      else if c = CHR ''/'' then Some 63 else None)"

text \<open>The groups of six bits of a sequence of bytes, the last one filled with zero bits.\<close>

fun sextets :: "bytes \<Rightarrow> int list" where
  "sextets [] = []"
| "sextets [a] = [of_char a div 4, of_char a mod 4 * 16]"
| "sextets [a, b] = [of_char a div 4, of_char a mod 4 * 16 + of_char b div 16, of_char b mod 16 * 4]"
| "sextets (a # b # c # bs) =
     [of_char a div 4, of_char a mod 4 * 16 + of_char b div 16,
      of_char b mod 16 * 4 + of_char c div 64, of_char c mod 64] @ sextets bs"

fun unsextets :: "int list \<Rightarrow> bytes" where
  "unsextets [] = []"
| "unsextets [p] = []"
| "unsextets [p, q] = [char_of (p * 4 + q div 16)]"
| "unsextets [p, q, r] = [char_of (p * 4 + q div 16), char_of (q mod 16 * 16 + r div 4)]"
| "unsextets (p # q # r # s # ns) =
     [char_of (p * 4 + q div 16), char_of (q mod 16 * 16 + r div 4), char_of (r mod 4 * 64 + s)] @ unsextets ns"

definition btoa :: "bytes \<Rightarrow> string" where
  "btoa binary = map b64_char (sextets binary) @ replicate ((3 - length binary mod 3) mod 3) CHR ''=''"

definition strip_end :: "char \<Rightarrow> string \<Rightarrow> string" where
  "strip_end c s = rev (dropWhile (\<lambda>d. d = c) (rev s))"

definition invalid_character :: js_error where
  "invalid_character = JsError ''InvalidCharacterError'' ''The string to be decoded is not correctly encoded.'' None"

text \<open>\<open>atob\<close>: ASCII whitespace is dropped, and one or two \<open>=\<close> at the end of a text of full groups.\<close>

definition is_atob_space :: "char \<Rightarrow> bool" where
  "is_atob_space c = (c \<in> {CHR 0x09, CHR 0x0A, CHR 0x0C, CHR 0x0D, CHR 0x20})"

definition atob_unpadded :: "string \<Rightarrow> string" where
  "atob_unpadded s =
     (if length s mod 4 \<noteq> 0 then s
      else if ends_with ''=='' s then drop_last 2 s
      else if ends_with ''='' s then drop_last 1 s else s)"

definition atob :: "string \<Rightarrow> bytes result" where
  "atob data =
     (let s = atob_unpadded (filter (\<lambda>c. \<not> is_atob_space c) data) in
      if length s mod 4 = 1 \<or> None \<in> set (map b64_value s) then Inl invalid_character
      else Inr (unsextets (map (the \<circ> b64_value) s)))"

text \<open>The loop that builds the binary string from slices of \<open>0x8000\<close> bytes.\<close>

function binary_of_slices :: "nat \<Rightarrow> bytes \<Rightarrow> string" where
  "binary_of_slices n bs =
     (if bs = [] \<or> n = 0 then [] else take n bs @ binary_of_slices n (drop n bs))"
  by pat_completeness auto
termination by (relation "measure (\<lambda>(n, bs). length bs)") auto

declare binary_of_slices.simps [simp del]

definition base64Url :: "bytes \<Rightarrow> string" where
  "base64Url bs =
     strip_end CHR ''='' (replace_all CHR ''/'' ''_'' (replace_all CHR ''+'' ''-'' (btoa (binary_of_slices 0x8000 bs))))"

definition fromBase64Url :: "string \<Rightarrow> bytes result" where
  "fromBase64Url encoded =
     (let b64 = replace_all CHR ''_'' ''/'' (replace_all CHR ''-'' ''+'' encoded);
          padded = b64 @ replicate ((4 - length b64 mod 4) mod 4) CHR ''='' in
      atob padded)"

subsection \<open>Groups of bits\<close>

text \<open>The arithmetic of one group, on the high and low bits of numbers below 256.\<close>

lemma glue_bits:
  fixes x y m :: int
  assumes "0 \<le> y" and "y < m"
  shows "(x * m + y) div m = x" "(x * m + y) mod m = y" "x * m div m = x"
  using assms by (simp_all add: div_pos_pos_trivial)

lemma high_bits:
  fixes b :: int
  assumes "0 \<le> b" and "b < 256"
  shows "0 \<le> b div 4" "b div 4 < 64" "0 \<le> b div 16" "b div 16 < 16" "0 \<le> b div 64" "b div 64 < 4"
  using assms by (simp_all add: pos_imp_zdiv_nonneg_iff)

lemma glue_range:
  fixes x y k m :: int
  assumes "0 \<le> y" and "y < m" and "0 < k"
  shows "0 \<le> x mod k * m + y \<and> x mod k * m + y < k * m"
proof -
  have "0 \<le> x mod k" "x mod k \<le> k - 1" using assms(3) by (simp_all add: zle_diff1_eq)
  moreover from this have "x mod k * m \<le> (k - 1) * m" using assms by (intro mult_right_mono) auto
  ultimately show ?thesis using assms by (simp add: left_diff_distrib)
qed

lemmas byte_high = high_bits [OF of_char_bounds]

lemma byte_parts:
  "(x * 16 + of_char b div 16) div 16 = (x::int)" "(x * 16 + of_char b div 16) mod 16 = (of_char b div 16 :: int)"
  "(x * 4 + of_char b div 64) div 4 = (x::int)" "(x * 4 + of_char b div 64) mod 4 = (of_char b div 64 :: int)"
  "x * 16 div 16 = (x::int)" "x * 4 div 4 = (x::int)"
  by (simp_all only: glue_bits byte_high)

lemma byte_range:
  "(0::int) \<le> of_char a div 4 \<and> of_char a div 4 < (64::int)"
  "(0::int) \<le> of_char a mod 4 * 16 \<and> of_char a mod 4 * 16 < (64::int)"
  "(0::int) \<le> of_char a mod 4 * 16 + of_char b div 16 \<and> of_char a mod 4 * 16 + of_char b div 16 < (64::int)"
  "(0::int) \<le> of_char a mod 16 * 4 \<and> of_char a mod 16 * 4 < (64::int)"
  "(0::int) \<le> of_char a mod 16 * 4 + of_char b div 64 \<and> of_char a mod 16 * 4 + of_char b div 64 < (64::int)"
  "(0::int) \<le> of_char a mod 64 \<and> of_char a mod 64 < (64::int)"
proof -
  let ?a = "of_char a :: int" and ?b = "of_char b :: int"
  show "0 \<le> ?a div 4 \<and> ?a div 4 < 64" by (simp only: byte_high simp_thms)
  show "0 \<le> ?a mod 4 * 16 \<and> ?a mod 4 * 16 < 64" using glue_range [of 0 16 4 ?a] by (simp only: add_0_right) simp
  show "0 \<le> ?a mod 4 * 16 + ?b div 16 \<and> ?a mod 4 * 16 + ?b div 16 < 64"
    using glue_range [OF byte_high(3,4), of 4 ?a b] by (simp only:) simp
  show "0 \<le> ?a mod 16 * 4 \<and> ?a mod 16 * 4 < 64" using glue_range [of 0 4 16 ?a] by (simp only: add_0_right) simp
  show "0 \<le> ?a mod 16 * 4 + ?b div 64 \<and> ?a mod 16 * 4 + ?b div 64 < 64"
    using glue_range [OF byte_high(5,6), of 16 ?a b] by (simp only:) simp
  show "0 \<le> ?a mod 64 \<and> ?a mod 64 < 64" by simp
qed

lemma sextets_range: "\<forall>n \<in> set (sextets bs). 0 \<le> n \<and> n < 64"
  by (induction bs rule: sextets.induct)
    (simp_all only: sextets.simps set_append list.set ball_Un ball_simps byte_range simp_thms)

lemma unsextets_sextets [simp]: "unsextets (sextets bs) = bs"
  by (induction bs rule: sextets.induct)
    (simp_all only: sextets.simps unsextets.simps append.simps byte_parts div_mult_mod_eq char_of_char)

subsection \<open>Characters\<close>

definition url_char :: "int \<Rightarrow> char" where
  "url_char n = (if n = 62 then CHR ''-'' else if n = 63 then CHR ''_'' else b64_char n)"

lemma below_64: "(0::int) \<le> n \<Longrightarrow> n < 64 \<Longrightarrow> n \<in> set (upto 0 63)"
  by simp

lemma alphabet:
  assumes "0 \<le> n" and "n < 64"
  shows "b64_value (b64_char n) = Some n" "b64_char n \<noteq> CHR ''=''" "\<not> is_atob_space (b64_char n)"
    "b64_char n \<noteq> CHR ''-''" "b64_char n \<noteq> CHR ''_''" "b64_char n = CHR ''+'' \<longleftrightarrow> n = 62" "b64_char n = CHR ''/'' \<longleftrightarrow> n = 63"
proof -
  have "\<forall>n \<in> set (upto 0 63). b64_value (b64_char n) = Some n \<and> b64_char n \<noteq> CHR ''='' \<and> \<not> is_atob_space (b64_char n) \<and>
      b64_char n \<noteq> CHR ''-'' \<and> b64_char n \<noteq> CHR ''_'' \<and> (b64_char n = CHR ''+'' \<longleftrightarrow> n = 62) \<and> (b64_char n = CHR ''/'' \<longleftrightarrow> n = 63)"
    by code_simp
  with below_64 [OF assms] show
    "b64_value (b64_char n) = Some n" "b64_char n \<noteq> CHR ''=''" "\<not> is_atob_space (b64_char n)"
    "b64_char n \<noteq> CHR ''-''" "b64_char n \<noteq> CHR ''_''" "b64_char n = CHR ''+'' \<longleftrightarrow> n = 62" "b64_char n = CHR ''/'' \<longleftrightarrow> n = 63"
    by blast+
qed

lemma replace_all_map: "replace_all c [d] s = map (\<lambda>x. if x = c then d else x) s"
  by (induction s) auto

lemma strip_end_append: "(\<forall>c\<in>set s. c \<noteq> d) \<Longrightarrow> strip_end d (s @ replicate k d) = s"
proof -
  assume s: "\<forall>c\<in>set s. c \<noteq> d"
  have "dropWhile (\<lambda>c. c = d) (replicate k d @ rev s) = dropWhile (\<lambda>c. c = d) (rev s)"
    by (rule dropWhile_append2) simp
  moreover have "dropWhile (\<lambda>c. c = d) (rev s) = rev s"
    using s by (cases s rule: rev_cases) simp_all
  ultimately show ?thesis by (simp add: strip_end_def)
qed

lemma binary_of_slices_id: "0 < n \<Longrightarrow> binary_of_slices n bs = bs"
  by (induction n bs rule: binary_of_slices.induct) (subst binary_of_slices.simps, simp)

lemma base64Url_sextets: "base64Url bs = map url_char (sextets bs)"
proof -
  let ?url = "\<lambda>n. if (if b64_char n = CHR ''+'' then CHR ''-'' else b64_char n) = CHR ''/'' then CHR ''_''
      else if b64_char n = CHR ''+'' then CHR ''-'' else b64_char n"
  have u: "?url n = url_char n \<and> url_char n \<noteq> CHR ''=''" if "n \<in> set (sextets bs)" for n
    using that sextets_range [of bs] alphabet [of n] by (auto simp: url_char_def)
  then have "map ?url (sextets bs) = map url_char (sextets bs)" by (intro map_cong) auto
  then have "replace_all CHR ''/'' ''_'' (replace_all CHR ''+'' ''-'' (map b64_char (sextets bs))) = map url_char (sextets bs)"
    by (simp add: replace_all_map o_def)
  moreover have "replace_all c [d] (xs @ replicate k CHR ''='') = replace_all c [d] xs @ replicate k CHR ''=''"
    if "c \<noteq> CHR ''=''" for c d xs k using that by (simp add: replace_all_map)
  moreover have "strip_end CHR ''='' (map url_char (sextets bs) @ replicate k CHR ''='') = map url_char (sextets bs)" for k
    using u by (intro strip_end_append) auto
  ultimately show ?thesis
    by (simp add: base64Url_def btoa_def binary_of_slices_id)
qed

lemma length_unpadded: "length (sextets bs) mod 4 \<noteq> 1"
  by (induction bs rule: sextets.induct) simp_all

lemma atob_padded:
  assumes "\<forall>n\<in>set ns. 0 \<le> n \<and> n < 64" and len: "length ns mod 4 \<noteq> 1"
  shows "atob (map b64_char ns @ replicate ((4 - length ns mod 4) mod 4) CHR ''='') = Inr (unsextets ns)"
proof -
  let ?s = "map b64_char ns"
  have clean: "filter (\<lambda>c. \<not> is_atob_space c) (?s @ replicate k CHR ''='') = ?s @ replicate k CHR ''=''" for k
    using assms(1) alphabet(3) by (auto intro!: filter_True simp: is_atob_space_def)
  have no_pad: "\<not> ends_with ''='' ?s"
    using assms(1) alphabet(2) by (cases ns rule: rev_cases) (auto simp: ends_with_iff_suffix, metis)
  then have no_pads: "\<not> ends_with ''=='' ?s" by (auto simp: ends_with_iff_suffix suffix_def)
  have unpad: "atob_unpadded (?s @ replicate ((4 - length ns mod 4) mod 4) CHR ''='') = ?s"
  proof -
    have "length ns mod 4 < 4" by simp
    with len consider "length ns mod 4 = 0" | "length ns mod 4 = 2" | "length ns mod 4 = 3" by linarith
    then show ?thesis
    proof cases
      case 1
      with no_pad no_pads show ?thesis by (simp add: atob_unpadded_def)
    next
      case 2
      then have "(length ns + 2) mod 4 = 0" by presburger
      with 2 show ?thesis by (simp add: atob_unpadded_def ends_with_iff_suffix suffix_def numeral_2_eq_2 drop_last_def)
    next
      case 3
      then have z: "Suc (length ns) mod 4 = 0" by presburger
      have "\<not> ends_with ''=='' (?s @ ''='')"
        using no_pad by (auto simp: ends_with_iff_suffix suffix_def)
      with 3 z show ?thesis by (simp add: atob_unpadded_def ends_with_iff_suffix drop_last_def)
    qed
  qed
  have "map b64_value ?s = map Some ns" using assms(1) alphabet(1) by simp
  moreover have "map (the \<circ> b64_value) ?s = ns" using assms(1) alphabet(1) by (simp add: map_idI)
  ultimately show ?thesis using len by (simp only: atob_def Let_def clean unpad) auto
qed

theorem base64Url_roundtrip: "fromBase64Url (base64Url bs) = Inr bs"
proof -
  let ?std = "\<lambda>n. if (if url_char n = CHR ''-'' then CHR ''+'' else url_char n) = CHR ''_'' then CHR ''/''
      else if url_char n = CHR ''-'' then CHR ''+'' else url_char n"
  have "?std n = b64_char n" if "n \<in> set (sextets bs)" for n
    using that sextets_range [of bs] alphabet(4-7) [of n] by (auto simp: url_char_def)
  then have "map ?std (sextets bs) = map b64_char (sextets bs)" by (intro map_cong) auto
  then have "replace_all CHR ''_'' ''/'' (replace_all CHR ''-'' ''+'' (base64Url bs)) = map b64_char (sextets bs)"
    by (simp add: base64Url_sextets replace_all_map o_def)
  then show ?thesis
    using atob_padded [OF sextets_range length_unpadded, of bs] by (simp add: fromBase64Url_def)
qed

text \<open>The URL form is safe as a segment of a path and as a key of the index.\<close>

lemma base64Url_chars:
  assumes "c \<in> set (base64Url bs)"
  shows "is_alnum c \<or> c = CHR ''-'' \<or> c = CHR ''_''"
proof -
  have "\<forall>n \<in> set (upto 0 63). is_alnum (url_char n) \<or> url_char n = CHR ''-'' \<or> url_char n = CHR ''_''"
    by code_simp
  with assms below_64 sextets_range show ?thesis by (fastforce simp: base64Url_sextets)
qed

end
