(* ===== verification/Paths.thy ===== *)
theory Paths imports Strings begin

section \<open>POSIX paths (src/src/browser/core/path.js)\<close>

text \<open>
  \<open>normalize\<close>, \<open>join\<close>, \<open>dirname\<close>, \<open>basename\<close>, \<open>resolve\<close>, \<open>relative\<close> and \<open>assertPathInside\<close>, and the
  facts the storage components rest on: normalising is idempotent, a normal absolute path has
  no dot segments, and a path that passes \<open>assertPathInside\<close> lies below its parent.
\<close>

subsection \<open>Definitions\<close>

definition isMeaningful :: "string \<Rightarrow> bool" where
  "isMeaningful segment = (segment \<noteq> [] \<and> segment \<noteq> ''.'')"

text \<open>The loop of \<open>normalize\<close>; \<open>out\<close> is kept with its last element first.\<close>

fun normalize_loop :: "bool \<Rightarrow> string list \<Rightarrow> string list \<Rightarrow> string list" where
  "normalize_loop isAbsolute [] out = rev out"
| "normalize_loop isAbsolute (segment # rest) out =
     (if \<not> isMeaningful segment then normalize_loop isAbsolute rest out
      else if segment = ''..'' then
        (if out \<noteq> [] \<and> hd out \<noteq> ''..'' then normalize_loop isAbsolute rest (tl out)
         else if \<not> isAbsolute then normalize_loop isAbsolute rest (''..'' # out)
         else normalize_loop isAbsolute rest out)
      else normalize_loop isAbsolute rest (segment # out))"

definition normalize :: "string \<Rightarrow> string" where
  "normalize value =
     (let isAbsolute = starts_with ''/'' value;
          joined = join_with ''/'' (normalize_loop isAbsolute (split_on CHR ''/'' value) [])
      in if isAbsolute then CHR ''/'' # joined
         else if joined = [] then ''.'' else joined)"

text \<open>Segments that are not strings (\<open>undefined\<close>, \<open>null\<close>) are \<open>None\<close>.\<close>

definition path_join :: "string option list \<Rightarrow> string" where
  "path_join segments =
     (let parts = filter (\<lambda>s. s \<noteq> []) (map the (filter (\<lambda>s. s \<noteq> None) segments))
      in if parts = [] then ''.'' else normalize (join_with ''/'' parts))"

definition last_index_of :: "char \<Rightarrow> string \<Rightarrow> nat option" where
  "last_index_of c s = map_option (\<lambda>i. length s - Suc i) (index_of c (rev s))"

definition dirname :: "string \<Rightarrow> string" where
  "dirname value =
     (let normalised = normalize value
      in if normalised = ''/'' then ''/''
         else case last_index_of CHR ''/'' normalised of
           None \<Rightarrow> ''.''
         | Some index \<Rightarrow> if index = 0 then ''/'' else take index normalised)"

definition basename :: "string \<Rightarrow> string" where
  "basename value =
     (let normalised = normalize value
      in if normalised = ''/'' then []
         else case last_index_of CHR ''/'' normalised of
           None \<Rightarrow> normalised
         | Some index \<Rightarrow> drop (Suc index) normalised)"

definition resolve :: "string \<Rightarrow> string option \<Rightarrow> string" where
  "resolve from value =
     (case value of
        None \<Rightarrow> normalize from
      | Some v \<Rightarrow> if starts_with ''/'' v then normalize v
                  else normalize (from @ ''/'' @ v))"

fun common_length :: "string list \<Rightarrow> string list \<Rightarrow> nat" where
  "common_length (x # xs) (y # ys) = (if x = y then Suc (common_length xs ys) else 0)"
| "common_length _ _ = 0"

definition path_segments :: "string \<Rightarrow> string list" where
  "path_segments p = filter (\<lambda>s. s \<noteq> []) (split_on CHR ''/'' (normalize p))"

definition relative :: "string \<Rightarrow> string \<Rightarrow> string" where
  "relative from to =
     (let fromSegments = path_segments from; toSegments = path_segments to;
          common = common_length fromSegments toSegments
      in join_with ''/'' (replicate (length fromSegments - common) ''..'' @ drop common toSegments))"

definition assertPathInside :: "string \<Rightarrow> string \<Rightarrow> unit result" where
  "assertPathInside parent target =
     (let resolvedParent = normalize parent; resolvedTarget = normalize target
      in if resolvedTarget = resolvedParent then Inr ()
         else let offset = relative resolvedParent resolvedTarget
              in if starts_with ''..'' offset \<or> starts_with ''/'' offset
                 then Inl (plain_error (''Unsafe document path: '' @ target))
                 else Inr ())"

subsection \<open>Normal segment lists\<close>

text \<open>
  What the loop of \<open>normalize\<close> produces: segments without separators, none of them empty or
  a single dot, and \<open>..\<close> only in front, and only in a relative path.
\<close>

definition plain_segment :: "string \<Rightarrow> bool" where
  "plain_segment s \<longleftrightarrow> isMeaningful s \<and> s \<noteq> ''..'' \<and> CHR ''/'' \<notin> set s"

definition normal_segments :: "bool \<Rightarrow> string list \<Rightarrow> bool" where
  "normal_segments isAbsolute ss \<longleftrightarrow>
     (\<exists>n xs. ss = replicate n ''..'' @ xs \<and> (\<forall>s\<in>set xs. plain_segment s) \<and> (isAbsolute \<longrightarrow> n = 0))"

lemma plain_segmentD:
  assumes "plain_segment s"
  shows "s \<noteq> []" "s \<noteq> ''.''" "s \<noteq> ''..''" "CHR ''/'' \<notin> set s"
  using assms by (auto simp: plain_segment_def isMeaningful_def)

lemma dotdot_not_plain [simp]: "\<not> plain_segment ''..''"
  by (simp add: plain_segment_def)

lemma normal_segments_Nil [simp]: "normal_segments a []"
  by (auto simp: normal_segments_def)

lemma normal_segments_abs: "normal_segments True ss \<longleftrightarrow> (\<forall>s\<in>set ss. plain_segment s)"
  by (auto simp: normal_segments_def)

lemma normal_segments_snoc:
  assumes "normal_segments a ss" and "plain_segment s"
  shows "normal_segments a (ss @ [s])"
proof -
  from assms(1) obtain n xs where "ss = replicate n ''..'' @ xs" "\<forall>s\<in>set xs. plain_segment s"
    "a \<longrightarrow> n = 0"
    unfolding normal_segments_def by blast
  with assms(2) show ?thesis
    unfolding normal_segments_def by (intro exI [of _ n] exI [of _ "xs @ [s]"]) auto
qed

lemma normal_segments_butlast:
  assumes "normal_segments a (ss @ [s])"
  shows "normal_segments a ss"
proof -
  from assms obtain n xs where *: "ss @ [s] = replicate n ''..'' @ xs"
    "\<forall>s\<in>set xs. plain_segment s" "a \<longrightarrow> n = 0"
    unfolding normal_segments_def by blast
  show ?thesis
  proof (cases xs rule: rev_cases)
    case Nil
    with * obtain m where m: "n = Suc m" by (cases n) auto
    with * Nil have "ss @ [s] = replicate m ''..'' @ [''..'']"
      by (simp add: replicate_append_same)
    then have "ss = replicate m ''..''" by (metis butlast_snoc)
    with * m show ?thesis
      unfolding normal_segments_def by (intro exI [of _ m] exI [of _ "[]"]) auto
  next
    case (snoc ys y)
    with * show ?thesis
      unfolding normal_segments_def by (intro exI [of _ n] exI [of _ ys]) auto
  qed
qed

lemma normal_segments_dotdot:
  assumes "normal_segments False ss" and "ss = [] \<or> last ss = ''..''"
  shows "normal_segments False (ss @ [''..''])"
proof -
  from assms(1) obtain n xs where ss: "ss = replicate n ''..'' @ xs" "\<forall>s\<in>set xs. plain_segment s"
    unfolding normal_segments_def by blast
  have "xs = []"
  proof (rule ccontr)
    assume "xs \<noteq> []"
    then have "last ss \<in> set xs" using ss by simp
    moreover from \<open>xs \<noteq> []\<close> ss assms(2) have "last ss = ''..''" by auto
    ultimately show False using ss(2) by auto
  qed
  with ss(1) have "ss @ [''..''] = replicate (Suc n) ''..'' @ []"
    by (simp add: replicate_append_same)
  then show ?thesis unfolding normal_segments_def
    by (metis empty_iff empty_set)
qed

lemma normalize_loop_normal:
  assumes "\<forall>s\<in>set ss. CHR ''/'' \<notin> set s" and "normal_segments a (rev out)"
  shows "normal_segments a (normalize_loop a ss out)"
  using assms
proof (induction a ss out rule: normalize_loop.induct)
  case (2 a segment rest out)
  consider "\<not> isMeaningful segment" | (up) "isMeaningful segment" "segment = ''..''"
    | (push) "isMeaningful segment" "segment \<noteq> ''..''" by blast
  then show ?case
  proof cases
    case up
    show ?thesis
    proof (cases "out \<noteq> [] \<and> hd out \<noteq> ''..''")
      case True
      with "2.prems"(2) have "normal_segments a (rev (tl out))"
        by (cases out) (auto intro: normal_segments_butlast)
      with True up 2 show ?thesis by simp
    next
      case False
      then have "\<not> a \<Longrightarrow> normal_segments a (rev (''..'' # out))"
        using "2.prems"(2) normal_segments_dotdot [of "rev out"] by (cases out) auto
      with False up 2 show ?thesis by auto
    qed
  next
    case push
    with "2.prems" have "normal_segments a (rev (segment # out))"
      by (auto intro: normal_segments_snoc simp: plain_segment_def)
    with push 2 show ?thesis by simp
  qed (use 2 in simp)
qed simp

lemma normalize_loop_plain:
  "\<forall>s\<in>set ss. plain_segment s \<Longrightarrow> normalize_loop a ss out = rev out @ ss"
  by (induction ss arbitrary: out) (auto simp: plain_segment_def)

lemma normalize_loop_dotdots:
  "\<forall>s\<in>set out. s = ''..'' \<Longrightarrow>
   normalize_loop False (replicate n ''..'' @ ss) out = normalize_loop False ss (replicate n ''..'' @ out)"
proof (induction n arbitrary: out)
  case (Suc n)
  then have "normalize_loop False (replicate (Suc n) ''..'' @ ss) out =
      normalize_loop False (replicate n ''..'' @ ss) (''..'' # out)"
    by (cases out) (auto simp: isMeaningful_def)
  with Suc show ?case by (simp add: replicate_app_Cons_same)
qed simp

lemma normalize_loop_fixpoint:
  assumes "normal_segments a ss"
  shows "normalize_loop a ss [] = ss"
proof -
  from assms obtain n xs where *: "ss = replicate n ''..'' @ xs" "\<forall>s\<in>set xs. plain_segment s"
    "a \<longrightarrow> n = 0"
    unfolding normal_segments_def by blast
  show ?thesis
    using * by (cases a) (simp_all add: normalize_loop_dotdots normalize_loop_plain)
qed

lemma normalize_loop_skip_empty: "normalize_loop a ([] # ss) out = normalize_loop a ss out"
  by (simp add: isMeaningful_def)

text \<open>The segments of a path after normalising.\<close>

definition segments_of :: "string \<Rightarrow> string list" where
  "segments_of p = normalize_loop (starts_with ''/'' p) (split_on CHR ''/'' p) []"

lemma segments_of_normal: "normal_segments (starts_with ''/'' p) (segments_of p)"
  unfolding segments_of_def
  by (rule normalize_loop_normal) (auto dest: split_on_parts_no_sep)

lemma normal_segments_no_slash: "normal_segments a ss \<Longrightarrow> s \<in> set ss \<Longrightarrow> CHR ''/'' \<notin> set s"
  by (auto simp: normal_segments_def dest: plain_segmentD)

lemma normal_segments_not_empty: "normal_segments a ss \<Longrightarrow> s \<in> set ss \<Longrightarrow> s \<noteq> []"
  by (auto simp: normal_segments_def dest: plain_segmentD)

lemma normal_segments_join_Nil:
  "normal_segments a ss \<Longrightarrow> join_with ''/'' ss = [] \<longleftrightarrow> ss = []"
  by (auto simp: join_with_eq_Nil dest: normal_segments_not_empty)

lemma normalize_abs:
  "starts_with ''/'' p \<Longrightarrow> normalize p = CHR ''/'' # join_with ''/'' (segments_of p)"
  by (simp add: normalize_def segments_of_def)

lemma normalize_rel:
  "\<not> starts_with ''/'' p \<Longrightarrow>
   normalize p = (if segments_of p = [] then ''.'' else join_with ''/'' (segments_of p))"
  using segments_of_normal [of p]
  by (simp add: normalize_def segments_of_def normal_segments_join_Nil)

lemma split_on_join_normal:
  assumes "normal_segments a ss" and "ss \<noteq> []"
  shows "split_on CHR ''/'' (join_with ''/'' ss) = ss"
  using assms by (intro split_on_join) (auto dest: normal_segments_no_slash)

lemma starts_with_slash_join:
  assumes "normal_segments a ss"
  shows "\<not> starts_with ''/'' (join_with ''/'' ss)"
proof (cases ss)
  case (Cons s rest)
  with assms obtain x xs where "s = x # xs" "x \<noteq> CHR ''/''"
    by (metis list.exhaust list.set_intros(1) normal_segments_no_slash normal_segments_not_empty)
  with Cons show ?thesis by (cases rest) auto
qed simp

lemma starts_with_slash_normalize: "starts_with ''/'' (normalize p) = starts_with ''/'' p"
  using segments_of_normal [of p]
  by (cases "starts_with ''/'' p") (simp_all add: normalize_abs normalize_rel starts_with_slash_join)

lemma segments_of_normalize: "segments_of (normalize p) = segments_of p"
proof (cases "starts_with ''/'' p")
  case True
  let ?ss = "segments_of p"
  have n: "normal_segments True ?ss" using segments_of_normal [of p] True by simp
  have "split_on CHR ''/'' (normalize p) = [] # split_on CHR ''/'' (join_with ''/'' ?ss)"
    using True by (simp add: normalize_abs)
  moreover have "normalize_loop True (split_on CHR ''/'' (join_with ''/'' ?ss)) [] = ?ss"
  proof (cases "?ss = []")
    case False
    with n show ?thesis by (simp add: split_on_join_normal normalize_loop_fixpoint)
  qed (simp add: isMeaningful_def)
  ultimately show ?thesis
    using True by (simp add: segments_of_def [of "normalize p"] starts_with_slash_normalize
        normalize_loop_skip_empty del: normalize_loop.simps)
next
  case False
  let ?ss = "segments_of p"
  have n: "normal_segments False ?ss" using segments_of_normal [of p] False by simp
  show ?thesis
  proof (cases "?ss = []")
    case True
    with False show ?thesis
      by (simp add: normalize_rel segments_of_def [of "''.''"] isMeaningful_def)
  next
    case ne: False
    with False n show ?thesis
      by (simp add: normalize_rel segments_of_def [of "join_with ''/'' ?ss"] starts_with_slash_join
          split_on_join_normal normalize_loop_fixpoint)
  qed
qed

lemma normalize_eqI:
  "starts_with ''/'' p = starts_with ''/'' q \<Longrightarrow> segments_of p = segments_of q \<Longrightarrow> normalize p = normalize q"
  by (cases "starts_with ''/'' p") (auto simp: normalize_abs normalize_rel)


subsection \<open>Absolute paths as segment lists\<close>

text \<open>The storage components only build paths of this form, so their proofs work on segments.\<close>

definition abs_path :: "string list \<Rightarrow> string" where
  "abs_path ss = CHR ''/'' # join_with ''/'' ss"

definition plain_segments :: "string list \<Rightarrow> bool" where
  "plain_segments ss \<longleftrightarrow> (\<forall>s\<in>set ss. plain_segment s)"

lemma plain_segments_simps [simp, path_simps]:
  "plain_segments []"
  "plain_segments (s # ss) \<longleftrightarrow> plain_segment s \<and> plain_segments ss"
  "plain_segments (ss @ ts) \<longleftrightarrow> plain_segments ss \<and> plain_segments ts"
  by (auto simp: plain_segments_def)

lemma plain_segments_normal: "plain_segments ss \<Longrightarrow> normal_segments True ss"
  by (simp add: normal_segments_abs plain_segments_def)

lemma starts_with_abs_path [simp, path_simps]: "starts_with ''/'' (abs_path ss)"
  by (simp add: abs_path_def)

lemma normalize_loop_append:
  "normalize_loop a (xs @ ys) out = normalize_loop a ys (rev (normalize_loop a xs out))"
  by (induction a xs out rule: normalize_loop.induct) auto

lemma normalize_loop_split_join:
  "normalize_loop a (split_on CHR ''/'' (join_with ''/'' ss)) out =
     normalize_loop a (concat (map (split_on CHR ''/'') ss)) out"
proof (induction ss arbitrary: out)
  case (Cons s ss)
  show ?case
  proof (cases ss)
    case (Cons t ts)
    then show ?thesis
      using Cons.IH by (simp add: split_on_append_sep normalize_loop_append)
  qed simp
qed (simp add: isMeaningful_def)

lemma concat_split_plain: "plain_segments ss \<Longrightarrow> concat (map (split_on CHR ''/'') ss) = ss"
  by (induction ss) (auto simp: split_on_no_sep dest: plain_segmentD)

lemma segments_of_abs_path [simp, path_simps]:
  "plain_segments ss \<Longrightarrow> segments_of (abs_path ss) = ss"
  by (simp add: segments_of_def abs_path_def normalize_loop_skip_empty normalize_loop_split_join
      concat_split_plain normalize_loop_fixpoint plain_segments_normal del: normalize_loop.simps)

lemma normalize_abs_path [simp, path_simps]: "plain_segments ss \<Longrightarrow> normalize (abs_path ss) = abs_path ss"
  by (simp add: normalize_abs) (simp add: abs_path_def)

lemma normalize_is_abs_path: "starts_with ''/'' p \<Longrightarrow> normalize p = abs_path (segments_of p)"
  by (simp add: normalize_abs abs_path_def)

lemma segments_of_plain: "starts_with ''/'' p \<Longrightarrow> plain_segments (segments_of p)"
  using segments_of_normal [of p] by (simp add: normal_segments_abs plain_segments_def)

lemma abs_path_inject [simp]:
  "plain_segments ss \<Longrightarrow> plain_segments ts \<Longrightarrow> abs_path ss = abs_path ts \<longleftrightarrow> ss = ts"
  by (metis segments_of_abs_path)

lemma path_join_abs [path_simps]:
  assumes "plain_segments ss" and "plain_segments ts"
  shows "path_join (Some (abs_path ss) # map Some ts) = abs_path (ss @ ts)"
proof -
  have f: "filter (\<lambda>s. s \<noteq> []) (map the (filter (\<lambda>s. s \<noteq> None) (Some (abs_path ss) # map Some ts)))
      = abs_path ss # ts"
    using assms(2) by (induction ts) (auto simp: abs_path_def dest: plain_segmentD)
  have abs: "starts_with ''/'' (join_with ''/'' (abs_path ss # ts))"
    by (cases ts) (simp_all add: abs_path_def)
  then have "segments_of (join_with ''/'' (abs_path ss # ts)) =
      normalize_loop True (concat (map (split_on CHR ''/'') (abs_path ss # ts))) []"
    by (simp only: segments_of_def normalize_loop_split_join)
  also have "\<dots> = normalize_loop True ts (rev (normalize_loop True (split_on CHR ''/'' (abs_path ss)) []))"
    using assms(2) by (simp add: normalize_loop_append concat_split_plain)
  also have "\<dots> = ss @ ts"
    using assms segments_of_abs_path [OF assms(1)]
    by (simp add: segments_of_def normalize_loop_plain plain_segments_def)
  finally have "segments_of (join_with ''/'' (abs_path ss # ts)) = ss @ ts" .
  with abs show ?thesis
    by (simp add: path_join_def f [simplified] normalize_is_abs_path)
qed

lemmas path_join_abs1 [path_simps] = path_join_abs [where ts = "[t]" for t, simplified]
lemmas path_join_abs2 [path_simps] = path_join_abs [where ts = "[t, u]" for t u, simplified]

lemma last_index_of_append: "c \<notin> set t \<Longrightarrow> last_index_of c (s @ c # t) = Some (length s)"
  using index_of_append [of c "rev t" "rev s"] by (simp add: last_index_of_def)

lemma abs_path_snoc:
  "abs_path (ss @ [s]) = (if ss = [] then [] else abs_path ss) @ CHR ''/'' # s"
  by (simp add: abs_path_def join_with_append)

lemma abs_path_snoc_last_index:
  assumes "plain_segments (ss @ [s])"
  shows "last_index_of CHR ''/'' (abs_path (ss @ [s])) =
    Some (length (if ss = [] then [] else abs_path ss))"
  using assms by (simp only: abs_path_snoc, intro last_index_of_append) (auto dest: plain_segmentD)

lemma abs_path_snoc_not_root: "plain_segments (ss @ [s]) \<Longrightarrow> abs_path (ss @ [s]) \<noteq> ''/''"
  by (auto simp: abs_path_def join_with_eq_Nil append_eq_Cons_conv dest: plain_segmentD)

lemma dirname_abs_path [path_simps]:
  assumes "plain_segments (ss @ [s])"
  shows "dirname (abs_path (ss @ [s])) = abs_path ss"
proof -
  have "dirname (abs_path (ss @ [s])) =
      (if length (if ss = [] then [] else abs_path ss) = 0 then ''/''
       else take (length (if ss = [] then [] else abs_path ss)) (abs_path (ss @ [s])))"
    using assms abs_path_snoc_not_root [OF assms]
    by (simp only: dirname_def Let_def normalize_abs_path abs_path_snoc_last_index option.case if_False)
  then show ?thesis
    by (cases "ss = []") (simp_all add: abs_path_def [of "[]"] abs_path_def [of ss] abs_path_snoc [of ss])
qed

lemma basename_abs_path [path_simps]:
  assumes "plain_segments (ss @ [s])"
  shows "basename (abs_path (ss @ [s])) = s"
proof -
  have "basename (abs_path (ss @ [s])) =
      drop (Suc (length (if ss = [] then [] else abs_path ss))) (abs_path (ss @ [s]))"
    using assms abs_path_snoc_not_root [OF assms]
    by (simp only: basename_def Let_def normalize_abs_path abs_path_snoc_last_index option.case if_False)
  then show ?thesis by (simp add: abs_path_snoc [of ss])
qed

lemma basename_plain [path_simps]: "plain_segment s \<Longrightarrow> basename s = s"
proof -
  assume s: "plain_segment s"
  then have ns: "\<not> starts_with ''/'' s" by (cases s) (auto dest: plain_segmentD)
  have "normal_segments False [s]"
    unfolding normal_segments_def by (intro exI [of _ 0] exI [of _ "[s]"]) (use s in auto)
  then have "segments_of s = [s]"
    using s ns by (simp add: segments_of_def split_on_no_sep plain_segment_def)
  then have "normalize s = s" using ns by (simp add: normalize_rel)
  moreover have "last_index_of CHR ''/'' s = None"
    using s by (simp add: last_index_of_def index_of_None plain_segmentD)
  ultimately show ?thesis using s ns by (auto simp: basename_def)
qed


subsection \<open>What the operations promise\<close>

lemma common_length_le: "common_length xs ys \<le> length xs" "common_length xs ys \<le> length ys"
  by (induction xs ys rule: common_length.induct) auto

lemma take_common_length: "take (common_length xs ys) xs = take (common_length xs ys) ys"
  by (induction xs ys rule: common_length.induct) auto

lemma common_length_append: "common_length xs (xs @ ys) = length xs"
  by (induction xs) auto

lemma path_segments_abs: "starts_with ''/'' p \<Longrightarrow> path_segments p = segments_of p"
proof -
  assume p: "starts_with ''/'' p"
  let ?ss = "segments_of p"
  have n: "normal_segments True ?ss" using segments_of_normal [of p] p by simp
  have "filter (\<lambda>s. s \<noteq> []) ?ss = ?ss"
    by (rule filter_True) (use n normal_segments_not_empty in blast)
  with n p show ?thesis
    by (cases "?ss = []") (simp_all add: path_segments_def normalize_abs split_on_join_normal)
qed

text \<open>The offset \<open>relative\<close> computes, split at the common prefix of the two paths.\<close>

lemma relative_abs:
  assumes "starts_with ''/'' p" and "starts_with ''/'' q"
  shows "relative p q = join_with ''/''
    (replicate (length (segments_of p) - common_length (segments_of p) (segments_of q)) ''..'' @
     drop (common_length (segments_of p) (segments_of q)) (segments_of q))"
  using assms by (simp add: relative_def path_segments_abs Let_def)

lemma starts_with_join_dotdot:
  assumes "ss \<noteq> []"
  shows "starts_with ''..'' (join_with ''/'' ss) \<longleftrightarrow> starts_with ''..'' (hd ss)"
proof -
  have "starts_with ''..'' (x @ CHR ''/'' # y) \<longleftrightarrow> starts_with ''..'' x" for x y
    by (cases x; cases "tl x") auto
  with assms show ?thesis by (cases ss; cases "tl ss") auto
qed

lemma normalize_idempotent_aux: "normalize (normalize value) = normalize value"
  by (rule normalize_eqI) (simp_all add: starts_with_slash_normalize segments_of_normalize)

text \<open>Normalising a path a second time changes nothing: \<open>normalize\<close> is idempotent on every
  string, absolute or relative, whatever dot segments and repeated separators it holds.\<close>

theorem normalize_idempotent: "normalize (normalize value) = normalize value"
  by (rule normalize_idempotent_aux)

lemma assertPathInside_abs:
  assumes "starts_with ''/'' parent" and "starts_with ''/'' target"
  shows "assertPathInside parent target = Inr () \<longleftrightarrow>
    (\<exists>rest. segments_of target = segments_of parent @ rest \<and>
            (rest = [] \<or> \<not> starts_with ''..'' (hd rest)))"
proof -
  let ?P = "segments_of parent" and ?T = "segments_of target"
  let ?c = "common_length ?P ?T"
  let ?off = "replicate (length ?P - ?c) ''..'' @ drop ?c ?T"
  have nT: "normal_segments True ?T" using segments_of_normal [of target] assms by simp
  have eq: "normalize target = normalize parent \<longleftrightarrow> ?T = ?P"
    using assms by (metis normalize_eqI segments_of_normalize)
  have off: "relative (normalize parent) (normalize target) = join_with ''/'' ?off"
    using assms by (simp add: relative_abs starts_with_slash_normalize segments_of_normalize)
  have P: "?P = take ?c ?T \<longleftrightarrow> length ?P = ?c"
    by (metis common_length_le(1) length_take min.absorb2 order_refl take_all take_common_length common_length_le(2))
  have no_slash: "\<not> starts_with ''/'' (join_with ''/'' ?off)" if "length ?P = ?c"
  proof -
    have "normal_segments True (drop ?c ?T)"
      using nT by (auto simp: normal_segments_abs dest: in_set_dropD)
    then show ?thesis using that starts_with_slash_join by simp
  qed
  have acc: "assertPathInside parent target = Inr () \<longleftrightarrow>
      ?T = ?P \<or> \<not> starts_with ''..'' (join_with ''/'' ?off) \<and> \<not> starts_with ''/'' (join_with ''/'' ?off)"
    using eq off by (auto simp: assertPathInside_def Let_def)
  show ?thesis
  proof (cases "length ?P = ?c")
    case True
    then have T: "?T = ?P @ drop ?c ?T" using P by (metis append_take_drop_id)
    with True no_slash acc show ?thesis
      by (cases "drop ?c ?T = []") (auto simp: starts_with_join_dotdot)
  next
    case False
    then have "?c < length ?P" using common_length_le(1) [of ?P ?T] by linarith
    then have "?off \<noteq> []" "hd ?off = ''..''" by (auto simp: hd_append)
    then have "starts_with ''..'' (join_with ''/'' ?off)" by (simp add: starts_with_join_dotdot)
    moreover have "?T \<noteq> ?P @ rest" for rest
      using False by (metis common_length_append)
    ultimately show ?thesis using acc by (metis append_Nil2)
  qed
qed

text \<open>C11. For absolute paths \<open>assertPathInside\<close> accepts exactly the targets whose normal segments
  extend those of the parent by a remainder that does not begin with two dots: no
  accepted target climbs out of its parent, and nothing else below the parent is refused.\<close>

theorem assertPathInside_iff:
  assumes "starts_with ''/'' parent" and "starts_with ''/'' target"
  shows "assertPathInside parent target = Inr () \<longleftrightarrow>
    (\<exists>rest. segments_of target = segments_of parent @ rest \<and>
            (rest = [] \<or> \<not> starts_with ''..'' (hd rest)))"
  by (rule assertPathInside_abs [OF assms])

theorem assertPathInside_iff_witness:
  "assertPathInside ''/db/docs'' ''/db/docs/../docs/W/1.json'' = Inr () \<and>
   assertPathInside ''/db/docs'' ''/db/docs/../secret'' \<noteq> Inr ()"
proof -
  have "segments_of ''/db/docs'' = [''db'', ''docs'']"
    "segments_of ''/db/docs/../docs/W/1.json'' = [''db'', ''docs'', ''W'', ''1.json'']"
    "segments_of ''/db/docs/../secret'' = [''db'', ''secret'']"
    by code_simp+
  then show ?thesis
    using assertPathInside_iff [of "''/db/docs''" "''/db/docs/../docs/W/1.json''"]
      assertPathInside_iff [of "''/db/docs''" "''/db/docs/../secret''"]
    by simp
qed

lemma normalize_loop_pop:
  "plain_segments (rev out) \<Longrightarrow> n \<le> length out \<Longrightarrow>
   normalize_loop True (replicate n ''..'' @ ss) out = normalize_loop True ss (drop n out)"
proof (induction n arbitrary: out)
  case (Suc n)
  then obtain s rest where "out = s # rest" by (cases out) auto
  with Suc show ?case by (auto simp: isMeaningful_def)
qed simp

text \<open>\<open>relative\<close> and \<open>resolve\<close> invert each other on absolute paths: resolving the relative path
  from one to the other leads there, in normal form.\<close>

theorem resolve_relative:
  assumes "starts_with ''/'' from" and "starts_with ''/'' to"
  shows "resolve from (Some (relative from to)) = normalize to"
proof -
  let ?P = "segments_of from" and ?T = "segments_of to"
  let ?c = "common_length ?P ?T"
  let ?off = "replicate (length ?P - ?c) ''..'' @ drop ?c ?T"
  have pP: "plain_segments ?P" and pT: "plain_segments ?T"
    using assms by (simp_all add: segments_of_plain)
  have no_slash: "\<not> starts_with ''/'' (join_with ''/'' ?off)"
  proof (cases "?off = []")
    case False
    have "hd ?off = ''..'' \<or> (\<exists>x xs. hd ?off = x # xs \<and> x \<noteq> CHR ''/'')"
    proof (cases "length ?P - ?c")
      case 0
      with False have "hd ?off \<in> set ?T" by (auto dest: in_set_dropD intro!: hd_in_set [THEN in_set_dropD])
      with pT have "plain_segment (hd ?off)" by (simp add: plain_segments_def)
      then show ?thesis by (cases "hd ?off") (auto dest: plain_segmentD)
    qed simp
    with False show ?thesis by (cases ?off; cases "tl ?off") auto
  qed simp
  have seg: "segments_of (from @ CHR ''/'' # join_with ''/'' ?off) = ?T"
  proof -
    have abs: "starts_with ''/'' (from @ CHR ''/'' # join_with ''/'' ?off)"
      using assms(1) by (cases "from") auto
    have "segments_of (from @ CHR ''/'' # join_with ''/'' ?off) =
        normalize_loop True (split_on CHR ''/'' (join_with ''/'' ?off)) (rev ?P)"
      using abs assms(1) by (simp add: segments_of_def split_on_append_sep normalize_loop_append)
    also have "\<dots> = normalize_loop True (concat (map (split_on CHR ''/'') ?off)) (rev ?P)"
      by (rule normalize_loop_split_join)
    also have "concat (map (split_on CHR ''/'') ?off) = ?off"
    proof -
      have "concat (map (split_on CHR ''/'') (replicate n ''..'')) = replicate n ''..''" for n
        by (induction n) auto
      moreover have "plain_segments (drop ?c ?T)"
        using pT by (auto simp: plain_segments_def dest: in_set_dropD)
      ultimately show ?thesis by (simp add: concat_split_plain)
    qed
    also have "normalize_loop True ?off (rev ?P) =
        normalize_loop True (drop ?c ?T) (drop (length ?P - ?c) (rev ?P))"
      using pP by (intro normalize_loop_pop) auto
    also have "\<dots> = rev (drop (length ?P - ?c) (rev ?P)) @ drop ?c ?T"
      using pT by (intro normalize_loop_plain) (auto simp: plain_segments_def dest: in_set_dropD)
    also have "rev (drop (length ?P - ?c) (rev ?P)) = take ?c ?P"
      using common_length_le(1) [of ?P ?T] by (simp add: rev_drop)
    also have "take ?c ?P @ drop ?c ?T = ?T"
      by (metis append_take_drop_id take_common_length)
    finally show ?thesis .
  qed
  have "resolve from (Some (relative from to)) = normalize (from @ CHR ''/'' # join_with ''/'' ?off)"
    using assms no_slash by (simp add: resolve_def relative_abs)
  also have "\<dots> = normalize to"
  proof (rule normalize_eqI [OF _ seg])
    show "starts_with ''/'' (from @ CHR ''/'' # join_with ''/'' ?off) = starts_with ''/'' to"
      using assms by (cases "from") auto
  qed
  finally show ?thesis .
qed

theorem resolve_relative_witness:
  "resolve ''/a/b//c'' (Some (relative ''/a/b//c'' ''/a/./d'')) = ''/a/d''"
proof -
  have "normalize ''/a/./d'' = ''/a/d''" by code_simp
  then show ?thesis using resolve_relative [of "''/a/b//c''" "''/a/./d''"] by simp
qed

text \<open>Splitting an absolute path into its directory and its name loses nothing: joining
  \<open>dirname\<close> and \<open>basename\<close> again gives the normal form of the path.\<close>

theorem dirname_basename_join:
  assumes "starts_with ''/'' value"
  shows "path_join [Some (dirname value), Some (basename value)] = normalize value"
proof -
  have n: "dirname (normalize value) = dirname value" "basename (normalize value) = basename value"
    by (simp_all only: dirname_def basename_def normalize_idempotent_aux)
  show ?thesis
  proof (cases "segments_of value" rule: rev_cases)
    case Nil
    with assms have "normalize value = ''/''" by (simp add: normalize_abs)
    then have "dirname value = ''/''" "basename value = []" by (simp_all add: dirname_def basename_def)
    moreover have "path_join [Some ''/'', Some []] = ''/''" by code_simp
    ultimately show ?thesis using \<open>normalize value = ''/''\<close> by simp
  next
    case (snoc ss s)
    then have p: "plain_segments (ss @ [s])" using assms by (metis segments_of_plain)
    have v: "normalize value = abs_path (ss @ [s])"
      using assms snoc by (simp add: normalize_is_abs_path)
    have "dirname value = abs_path ss" "basename value = s"
      using n v dirname_abs_path [OF p] basename_abs_path [OF p] by simp_all
    with p v show ?thesis by (simp add: path_join_abs1)
  qed
qed

theorem dirname_basename_join_witness:
  "path_join [Some (dirname ''/a//b/../c.json''), Some (basename ''/a//b/../c.json'')] = ''/a/c.json''"
proof -
  have "normalize ''/a//b/../c.json'' = ''/a/c.json''" by code_simp
  then show ?thesis using dirname_basename_join [of "''/a//b/../c.json''"] by simp
qed

end
