(* ===== verification/BridgePath.thy ===== *)
theory BridgePath imports Base64 Paths begin

section \<open>Paths across the OPFS bridge (src/src/browser/opfs-bridge.mjs)\<close>

text \<open>
  \<open>relativeBridgePath\<close> of the engine side strips the root an engine was granted, \<open>pathParts\<close> of the
  worker side splits what arrives.  Together they keep every operation of the engine below its root.
\<close>

definition access_error :: "string \<Rightarrow> js_error" where
  "access_error message = JsError ''Error'' message (Some ''EACCES'')"

definition lease_name :: "string \<Rightarrow> string" where
  "lease_name base = CHR ''.'' # base @ ''.fylo-root-owner.lock''"

definition nonempty_parts :: "string \<Rightarrow> string list" where
  "nonempty_parts s = filter (\<lambda>part. part \<noteq> []) (split_on CHR ''/'' s)"

definition has_dots :: "string list \<Rightarrow> bool" where
  "has_dots parts = list_ex (\<lambda>part. part = ''.'' \<or> part = ''..'') parts"

definition bridge_root :: "string \<Rightarrow> string" where
  "bridge_root rootPath = (let root = strip_end CHR ''/'' rootPath in if root = [] then ''/'' else root)"

definition bridge_parent :: "string \<Rightarrow> string" where
  "bridge_parent root =
     (if root = ''/'' then ''/''
      else let up = (case last_index_of CHR ''/'' root of Some i \<Rightarrow> take i root | None \<Rightarrow> butlast root)
           in if up = [] then ''/'' else up)"

definition lease_prefix :: "string \<Rightarrow> string" where
  "lease_prefix root =
     (let rootParts = nonempty_parts root;
          base = (if rootParts = [] then ''root'' else last rootParts);
          up = bridge_parent root
      in (if up = ''/'' then [] else up) @ ''/'' @ lease_name base)"

definition relativeBridgePath :: "string \<Rightarrow> string \<Rightarrow> string result" where
  "relativeBridgePath path rootPath =
     (if \<not> starts_with ''/'' rootPath then Inl (access_error ''bridge paths and roots must be absolute strings'')
      else let root = bridge_root rootPath; leasePrefix = lease_prefix root in
        if path = leasePrefix \<or> path = leasePrefix @ ''.json''
        then Inr (case last_index_of CHR ''/'' path of Some i \<Rightarrow> drop (Suc i) path | None \<Rightarrow> path)
        else let contained = (if root = ''/'' then starts_with ''/'' path
                              else path = root \<or> starts_with (root @ ''/'') path) in
          if \<not> contained then Inl (access_error (''bridge path escapes the granted root: '' @ path))
          else let rest = (if root = ''/'' then drop 1 path
                               else dropWhile (\<lambda>c. c = CHR ''/'') (drop (length root) path));
                   parts = nonempty_parts rest in
            if has_dots parts then Inl (access_error (''bridge path contains a traversal component: '' @ path))
            else Inr (join_with ''/'' parts))"

definition pathParts :: "string \<Rightarrow> string list result" where
  "pathParts path =
     (let parts = nonempty_parts path in
      if has_dots parts then Inl (access_error (''OPFS path contains a traversal component: '' @ path)) else Inr parts)"

subsection \<open>Parts\<close>

lemma nonempty_parts_plain: "\<not> has_dots (nonempty_parts s) \<longleftrightarrow> plain_segments (nonempty_parts s)"
  by (auto simp: has_dots_def nonempty_parts_def plain_segments_def plain_segment_def isMeaningful_def list_ex_iff
      dest: split_on_parts_no_sep)

lemma nonempty_parts_append_sep: "nonempty_parts (s @ CHR ''/'' # t) = nonempty_parts s @ nonempty_parts t"
  by (simp add: nonempty_parts_def split_on_append_sep)

lemma nonempty_parts_sep: "nonempty_parts (CHR ''/'' # t) = nonempty_parts t"
  by (simp add: nonempty_parts_def)

lemma nonempty_parts_Nil [simp]: "nonempty_parts [] = []"
  by (simp add: nonempty_parts_def)

lemma nonempty_parts_strip: "nonempty_parts (dropWhile (\<lambda>c. c = CHR ''/'') s) = nonempty_parts s"
  by (induction s) (simp_all add: nonempty_parts_sep)

lemma nonempty_parts_strip_end: "nonempty_parts (strip_end CHR ''/'' s) = nonempty_parts s"
proof -
  have "nonempty_parts (t @ replicate n CHR ''/'') = nonempty_parts t" for t n
  proof -
    have "nonempty_parts (replicate n CHR ''/'') = []" for n
      by (induction n) (simp_all add: nonempty_parts_sep)
    then show ?thesis by (cases n) (simp_all add: nonempty_parts_append_sep)
  qed
  moreover have "\<exists>n. s = strip_end CHR ''/'' s @ replicate n CHR ''/''"
  proof -
    have "rev s = takeWhile (\<lambda>d. d = CHR ''/'') (rev s) @ dropWhile (\<lambda>d. d = CHR ''/'') (rev s)" by simp
    then have "s = strip_end CHR ''/'' s @ rev (takeWhile (\<lambda>d. d = CHR ''/'') (rev s))"
      unfolding strip_end_def by (metis rev_append rev_rev_ident)
    moreover have "takeWhile (\<lambda>d. d = CHR ''/'') (rev s) = replicate (length (takeWhile (\<lambda>d. d = CHR ''/'') (rev s))) CHR ''/''"
      by (intro replicate_eqI) (auto dest: set_takeWhileD)
    ultimately show ?thesis by (metis rev_replicate)
  qed
  ultimately show ?thesis by metis
qed

lemma normalize_loop_nonempty: "normalize_loop a ss out = normalize_loop a (filter (\<lambda>s. s \<noteq> []) ss) out"
  by (induction a ss out rule: normalize_loop.induct) (auto simp: isMeaningful_def)

lemma segments_of_parts: "starts_with ''/'' p \<Longrightarrow> segments_of p = normalize_loop True (nonempty_parts p) []"
  using normalize_loop_nonempty [of True "split_on CHR ''/'' p" "[]"] by (simp add: segments_of_def nonempty_parts_def)


lemma normalize_loop_then_plain:
  "plain_segments ys \<Longrightarrow> normalize_loop a (xs @ ys) [] = normalize_loop a xs [] @ ys"
  by (simp add: normalize_loop_append normalize_loop_plain plain_segments_def)

lemma bridge_root_props:
  assumes "starts_with ''/'' rootPath"
  shows "starts_with ''/'' (bridge_root rootPath)" "segments_of (bridge_root rootPath) = segments_of rootPath"
proof -
  have "strip_end CHR ''/'' rootPath = [] \<or> starts_with ''/'' (strip_end CHR ''/'' rootPath)"
  proof -
    obtain t where t: "rootPath = CHR ''/'' # t" using assms by (cases rootPath) auto
    have "strip_end CHR ''/'' (CHR ''/'' # t) = [] \<or> hd (strip_end CHR ''/'' (CHR ''/'' # t)) = CHR ''/''"
      by (auto simp: strip_end_def dropWhile_append hd_rev last_rev split: if_splits)
    then show ?thesis unfolding t by (cases "strip_end CHR ''/'' (CHR ''/'' # t)") auto
  qed
  then show s: "starts_with ''/'' (bridge_root rootPath)" by (auto simp: bridge_root_def Let_def)
  have "nonempty_parts (bridge_root rootPath) = nonempty_parts rootPath"
    using nonempty_parts_strip_end [of rootPath]
    by (auto simp: bridge_root_def Let_def nonempty_parts_sep)
  then show "segments_of (bridge_root rootPath) = segments_of rootPath"
    using s assms by (simp add: segments_of_parts)
qed

lemma parts_of_joined: "plain_segments parts \<Longrightarrow> nonempty_parts (join_with ''/'' parts) = parts"
proof (cases "parts = []")
  case False
  assume p: "plain_segments parts"
  with False have "split_on CHR ''/'' (join_with ''/'' parts) = parts"
    by (intro split_on_join_normal [where a = True] plain_segments_normal)
  with p show ?thesis by (auto simp: nonempty_parts_def plain_segments_def intro!: filter_True dest: plain_segmentD)
qed (simp add: nonempty_parts_def)

lemma last_part_no_slash: "parts = nonempty_parts s \<Longrightarrow> parts \<noteq> [] \<Longrightarrow> CHR ''/'' \<notin> set (last parts)"
  using last_in_set [of parts] by (auto simp: nonempty_parts_def dest: split_on_parts_no_sep)

lemma lease_path:
  assumes "path = lease_prefix root @ ext" and "ext = [] \<or> ext = ''.json''"
  shows "\<exists>name. plain_segment name \<and> hd name = CHR ''.'' \<and>
    (case last_index_of CHR ''/'' path of Some i \<Rightarrow> drop (Suc i) path | None \<Rightarrow> path) = name"
proof -
  define base where "base = (if nonempty_parts root = [] then ''root'' else last (nonempty_parts root))"
  define name where "name = lease_name base @ ext"
  obtain up where p: "path = up @ CHR ''/'' # name"
    using assms(1) by (auto simp: lease_prefix_def base_def name_def Let_def)
  have "CHR ''/'' \<notin> set base" using last_part_no_slash by (auto simp: base_def)
  then have "CHR ''/'' \<notin> set name" using assms(2) by (auto simp: name_def lease_name_def)
  moreover from this have "last_index_of CHR ''/'' path = Some (length up)"
    unfolding p by (rule last_index_of_append)
  ultimately show ?thesis
    using p by (auto simp: name_def lease_name_def plain_segment_def isMeaningful_def)
qed

lemma inside_root:
  assumes root: "starts_with ''/'' root"
    and inside: "if root = ''/'' then starts_with ''/'' path else path = root \<or> starts_with (root @ ''/'') path"
    and parts: "parts = nonempty_parts (if root = ''/'' then drop 1 path
                  else dropWhile (\<lambda>c. c = CHR ''/'') (drop (length root) path))"
    and plain: "plain_segments parts"
  shows "starts_with ''/'' path \<and> segments_of path = segments_of root @ parts"
proof -
  have "nonempty_parts path = nonempty_parts root @ parts \<and> starts_with ''/'' path"
  proof (cases "root = ''/''")
    case True
    with inside parts show ?thesis by (cases path) (auto simp: nonempty_parts_sep nonempty_parts_def)
  next
    case False
    with inside consider "path = root" | t where "path = root @ CHR ''/'' # t"
      by (auto simp: starts_with_iff_prefix prefix_def)
    then show ?thesis
    proof cases
      case 1
      with False parts root show ?thesis by (simp add: nonempty_parts_strip)
    next
      case 2
      then have "starts_with ''/'' path" using root by (cases root) auto
      with 2 False parts show ?thesis
        by (simp add: nonempty_parts_strip nonempty_parts_append_sep nonempty_parts_sep)
    qed
  qed
  with root plain show ?thesis by (simp add: segments_of_parts normalize_loop_then_plain)
qed

subsection \<open>Properties\<close>

text \<open>C35. What the engine side sends names a place below the granted root: the worker splits it without an error into
  plain segments, and these are either the ones that lead from the root to the requested path, or the single
  hidden name of the root's own lease.  A path inside the root without dot segments is always sent.\<close>

theorem bridge_stays_inside:
  assumes "starts_with ''/'' rootPath"
  shows "case relativeBridgePath path rootPath of
      Inr sent \<Rightarrow> \<exists>parts. pathParts sent = Inr parts \<and> plain_segments parts \<and>
        (starts_with ''/'' path \<and> segments_of path = segments_of rootPath @ parts \<or>
         (\<exists>ext\<in>{[], ''.json''}. path = lease_prefix (bridge_root rootPath) @ ext) \<and> length parts = 1 \<and> hd (hd parts) = CHR ''.'')
    | Inl e \<Rightarrow> err_code e = Some ''EACCES'' \<and> \<not> (\<exists>parts. plain_segments parts \<and> path = abs_path (segments_of rootPath @ parts) \<and>
        bridge_root rootPath = abs_path (segments_of rootPath))"
proof -
  let ?root = "bridge_root rootPath" and ?lease = "lease_prefix (bridge_root rootPath)"
  note root = bridge_root_props [OF assms]
  show ?thesis
  proof (cases "path = ?lease \<or> path = ?lease @ ''.json''")
    case True
    then obtain ext where s: "path = ?lease @ ext" "ext = [] \<or> ext = ''.json''" by auto
    from lease_path [OF this] obtain name where n: "plain_segment name" "hd name = CHR ''.''"
      "(case last_index_of CHR ''/'' path of Some i \<Rightarrow> drop (Suc i) path | None \<Rightarrow> path) = name" by blast
    have "relativeBridgePath path rootPath = Inr name"
      using True n(3) assms by (simp add: relativeBridgePath_def Let_def)
    moreover have "pathParts name = Inr [name]"
      using parts_of_joined [of "[name]"] n(1) nonempty_parts_plain [of name] by (simp add: pathParts_def)
    ultimately show ?thesis using n s by auto
  next
    case False
    let ?inside = "if ?root = ''/'' then starts_with ''/'' path else path = ?root \<or> starts_with (?root @ ''/'') path"
    let ?parts = "nonempty_parts (if ?root = ''/'' then drop 1 path else dropWhile (\<lambda>c. c = CHR ''/'') (drop (length ?root) path))"
    have result: "relativeBridgePath path rootPath =
        (if \<not> ?inside then Inl (access_error (''bridge path escapes the granted root: '' @ path))
         else if has_dots ?parts then Inl (access_error (''bridge path contains a traversal component: '' @ path))
         else Inr (join_with ''/'' ?parts))"
      using False assms by (simp add: relativeBridgePath_def Let_def)
    have refused: "\<not> (plain_segments parts \<and> path = abs_path (segments_of rootPath @ parts) \<and> ?root = abs_path (segments_of rootPath))"
      if "\<not> ?inside \<or> has_dots ?parts" for parts
    proof
      assume p: "plain_segments parts \<and> path = abs_path (segments_of rootPath @ parts) \<and> ?root = abs_path (segments_of rootPath)"
      let ?ss = "segments_of rootPath"
      have path: "path = (if ?ss = [] then abs_path parts else if parts = [] then ?root else ?root @ CHR ''/'' # join_with ''/'' parts)"
        using p by (auto simp: abs_path_def join_with_append)
      have "?ss = [] \<longleftrightarrow> ?root = ''/''"
        using p segments_of_plain [OF assms] by (auto simp: abs_path_def join_with_eq_Nil plain_segments_def dest: plain_segmentD)
      with path have "?inside \<and> ?parts = parts"
        using p parts_of_joined by (auto simp: abs_path_def nonempty_parts_strip nonempty_parts_sep starts_with_iff_prefix)
      with that p show False using nonempty_parts_plain by metis
    qed
    show ?thesis
    proof (cases "?inside \<and> \<not> has_dots ?parts")
      case True
      then have plain: "plain_segments ?parts" using nonempty_parts_plain by blast
      have "pathParts (join_with ''/'' ?parts) = Inr ?parts"
        using True parts_of_joined [OF plain] by (simp add: pathParts_def)
      with True plain inside_root [OF root(1) _ refl plain] result root(2) show ?thesis by auto
    next
      case False
      with result refused show ?thesis by (auto simp: access_error_def)
    qed
  qed
qed

theorem bridge_stays_inside_witness:
  "case relativeBridgePath ''/data/app//docs/a'' ''/data/app/'' of
      Inr sent \<Rightarrow> \<exists>parts. pathParts sent = Inr parts \<and> plain_segments parts \<and>
        (starts_with ''/'' ''/data/app//docs/a'' \<and> segments_of ''/data/app//docs/a'' = segments_of ''/data/app/'' @ parts \<or>
         (\<exists>ext\<in>{[], ''.json''}. ''/data/app//docs/a'' = lease_prefix (bridge_root ''/data/app/'') @ ext) \<and> length parts = 1 \<and> hd (hd parts) = CHR ''.'')
    | Inl e \<Rightarrow> err_code e = Some ''EACCES'' \<and> \<not> (\<exists>parts. plain_segments parts \<and> ''/data/app//docs/a'' = abs_path (segments_of ''/data/app/'' @ parts) \<and>
        bridge_root ''/data/app/'' = abs_path (segments_of ''/data/app/''))"
  by (rule bridge_stays_inside) simp

end
