(* ===== verification/JsNumber.thy ===== *)
theory JsNumber imports Strings "HOL-Library.Word" begin

section \<open>Numbers: IEEE 754 doubles as 64 bit words\<close>

text \<open>
  A JavaScript number is its 64 bit pattern, since the index encodes values by their bits.
  The comparisons, the rounding of a rational to the nearest double (ties to even), decimal
  parsing and \<open>String(number)\<close> are those of ECMA-262; the program relies on them through
  \<open>Number\<close>, \<open>String\<close>, \<open>JSON\<close>, the comparison operators and \<open>DataView\<close>.
\<close>

type_synonym f64 = "64 word"

subsection \<open>Classification and order\<close>

definition f64_negative :: "f64 \<Rightarrow> bool" where
  "f64_negative x = (uint x \<ge> 2 ^ 63)"

definition f64_magnitude :: "f64 \<Rightarrow> int" where
  "f64_magnitude x = uint x mod 2 ^ 63"

definition f64_infinity_bits :: int where
  "f64_infinity_bits = 2047 * 2 ^ 52"

definition f64_is_nan :: "f64 \<Rightarrow> bool" where
  "f64_is_nan x = (f64_magnitude x > f64_infinity_bits)"

definition f64_is_finite :: "f64 \<Rightarrow> bool" where
  "f64_is_finite x = (f64_magnitude x < f64_infinity_bits)"

definition f64_make :: "bool \<Rightarrow> int \<Rightarrow> f64" where
  "f64_make negative bits = word_of_int (bits + (if negative then 2 ^ 63 else 0))"

definition f64_nan :: f64 where
  "f64_nan = f64_make False (f64_infinity_bits + 2 ^ 51)"

definition f64_infinity :: "bool \<Rightarrow> f64" where
  "f64_infinity negative = f64_make negative f64_infinity_bits"

text \<open>Doubles that are not NaN are ordered by their sign and magnitude; both zeros have key 0.\<close>

definition f64_key :: "f64 \<Rightarrow> int" where
  "f64_key x = (if f64_negative x then - f64_magnitude x else f64_magnitude x)"

definition f64_lt :: "f64 \<Rightarrow> f64 \<Rightarrow> bool" where
  "f64_lt x y = (\<not> f64_is_nan x \<and> \<not> f64_is_nan y \<and> f64_key x < f64_key y)"

definition f64_le :: "f64 \<Rightarrow> f64 \<Rightarrow> bool" where
  "f64_le x y = (\<not> f64_is_nan x \<and> \<not> f64_is_nan y \<and> f64_key x \<le> f64_key y)"

definition f64_eq :: "f64 \<Rightarrow> f64 \<Rightarrow> bool" where
  "f64_eq x y = (\<not> f64_is_nan x \<and> \<not> f64_is_nan y \<and> f64_key x = f64_key y)"

subsection \<open>Rounding a rational\<close>

fun bit_length :: "int \<Rightarrow> int" where
  "bit_length n = (if n \<le> 0 then 0
     else if n \<ge> 2 ^ 64 then 64 + bit_length (n div 2 ^ 64)
     else 1 + bit_length (n div 2))"

declare bit_length.simps [simp del]

text \<open>The fraction \<open>n / (d * 2^e)\<close> as a pair of integers.\<close>

definition scaled :: "int \<Rightarrow> int \<Rightarrow> int \<Rightarrow> int \<times> int" where
  "scaled n d e = (if 0 \<le> e then (n, d * 2 ^ nat e) else (n * 2 ^ nat (- e), d))"

definition round_half_even :: "int \<Rightarrow> int \<Rightarrow> int" where
  "round_half_even a b =
     (let q = a div b; r = a mod b in if b < 2 * r \<or> b = 2 * r \<and> odd q then q + 1 else q)"

text \<open>The magnitude bits of the double nearest to \<open>n / d\<close>, for \<open>n >= 0\<close> and \<open>d > 0\<close>.\<close>

definition round_ratio :: "int \<Rightarrow> int \<Rightarrow> int" where
  "round_ratio n d =
     (if n = 0 then 0
      else let e0 = max (- 1074) (bit_length n - bit_length d - 53);
               (a0, b0) = scaled n d e0;
               e = (if a0 div b0 \<ge> 2 ^ 53 then e0 + 1 else e0);
               (a, b) = scaled n d e
           in min f64_infinity_bits ((e + 1074) * 2 ^ 52 + round_half_even a b))"

definition f64_of_int :: "int \<Rightarrow> f64" where
  "f64_of_int i = f64_make (i < 0) (round_ratio \<bar>i\<bar> 1)"

text \<open>A decimal significand and exponent, rounded.\<close>

definition f64_of_decimal :: "bool \<Rightarrow> int \<Rightarrow> int \<Rightarrow> f64" where
  "f64_of_decimal negative s e =
     f64_make negative (if 0 \<le> e then round_ratio (s * 10 ^ nat e) 1
                        else round_ratio s (10 ^ nat (- e)))"

text \<open>A finite magnitude as the fraction \<open>n / d\<close>.\<close>

definition f64_fraction :: "int \<Rightarrow> int \<times> int" where
  "f64_fraction m =
     (let ex = m div 2 ^ 52; fr = m mod 2 ^ 52
      in if ex = 0 then (fr, 2 ^ 1074)
         else if ex \<ge> 1075 then ((2 ^ 52 + fr) * 2 ^ nat (ex - 1075), 1)
         else (2 ^ 52 + fr, 2 ^ nat (1075 - ex)))"

text \<open>Whether a finite double is an integer, and which one (\<open>Number.isInteger\<close>).\<close>

definition f64_to_int :: "f64 \<Rightarrow> int option" where
  "f64_to_int x =
     (if \<not> f64_is_finite x then None
      else let (n, d) = f64_fraction (f64_magnitude x)
           in if n mod d = 0 then Some ((if f64_negative x then - 1 else 1) * (n div d)) else None)"

subsection \<open>Arithmetic\<close>

text \<open>The sum and \<open>Math.max\<close> of two doubles.\<close>

definition f64_add :: "f64 \<Rightarrow> f64 \<Rightarrow> f64" where
  "f64_add x y =
     (if f64_is_nan x \<or> f64_is_nan y then f64_nan
      else if \<not> f64_is_finite x then (if \<not> f64_is_finite y \<and> x \<noteq> y then f64_nan else x)
      else if \<not> f64_is_finite y then y
      else let (n, d) = f64_fraction (f64_magnitude x); (m, e) = f64_fraction (f64_magnitude y);
               total = (if f64_negative x then - n else n) * e + (if f64_negative y then - m else m) * d
           in if total = 0 then f64_make (f64_negative x \<and> f64_negative y) 0
              else f64_make (total < 0) (round_ratio \<bar>total\<bar> (d * e)))"

definition f64_max :: "f64 \<Rightarrow> f64 \<Rightarrow> f64" where
  "f64_max x y =
     (if f64_is_nan x \<or> f64_is_nan y then f64_nan
      else if f64_lt x y \<or> f64_eq x y \<and> f64_negative x then y else x)"

subsection \<open>Number to string\<close>

text \<open>
  \<open>Number::toString\<close>: the shortest decimal that rounds back, then the nearest to the value.
  Seventeen digits always suffice for a double; should the search end without a result the
  exact decimal expansion is taken, so the result rounds back by construction.
\<close>

function decimal_point :: "nat \<Rightarrow> int \<Rightarrow> int \<Rightarrow> int" where
  "decimal_point fuel n d =
     (if fuel = 0 \<or> n \<ge> d then int (length (digits_of 10 (n div d)))
      else if 10 * n \<ge> d then 0 else decimal_point (fuel - 1) (10 * n) d - 1)"
  by pat_completeness auto

termination by (relation "measure (\<lambda>(f, n, d). f)") auto

declare decimal_point.simps [simp del]

definition decimal_try :: "int \<Rightarrow> int \<Rightarrow> int \<Rightarrow> int \<Rightarrow> nat \<Rightarrow> (int \<times> int) option" where
  "decimal_try m n d p k =
     (let e = p - int k;
          (a, b) = (if e \<ge> 0 then (n, d * 10 ^ nat e) else (n * 10 ^ nat (- e), d));
          s = a div b; r = a mod b;
          near = (if 2 * r < b \<or> 2 * r = b \<and> even s then [s, s + 1] else [s + 1, s]);
          back = (\<lambda>s. f64_of_decimal False s e = f64_make False m)
      in map_option (\<lambda>s. (s, e)) (find back near))"

definition exact_expansion :: "int \<Rightarrow> int \<Rightarrow> int \<times> int" where
  "exact_expansion n d = ((n * 10 ^ 1074) div d, - 1074)"

fun decimal_search :: "int \<Rightarrow> int \<Rightarrow> int \<Rightarrow> int \<Rightarrow> nat list \<Rightarrow> int \<times> int" where
  "decimal_search m n d p [] = exact_expansion n d"
| "decimal_search m n d p (k # ks) =
     (case decimal_try m n d p k of Some r \<Rightarrow> r | None \<Rightarrow> decimal_search m n d p ks)"

definition shortest_decimal :: "int \<Rightarrow> int \<times> int" where
  "shortest_decimal m =
     (let (n, d) = f64_fraction m
      in decimal_search m n d (decimal_point 400 n d) [1..<18])"

definition strip_zeros :: "string \<Rightarrow> string" where
  "strip_zeros s = rev (dropWhile (\<lambda>c. c = CHR ''0'') (rev s))"

definition int_to_string :: "int \<Rightarrow> string" where
  "int_to_string i = (if i < 0 then CHR ''-'' # digits_of 10 (- i) else digits_of 10 i)"

definition format_decimal :: "string \<Rightarrow> int \<Rightarrow> string" where
  "format_decimal ds n =
     (let k = int (length ds) in
      if k \<le> n \<and> n \<le> 21 then ds @ replicate (nat (n - k)) CHR ''0''
      else if 0 < n \<and> n \<le> 21 then take (nat n) ds @ ''.'' @ drop (nat n) ds
      else if - 6 < n \<and> n \<le> 0 then ''0.'' @ replicate (nat (- n)) CHR ''0'' @ ds
      else take 1 ds @ (if k = 1 then [] else CHR ''.'' # drop 1 ds) @ ''e'' @
           (if n - 1 < 0 then ''-'' else ''+'') @ digits_of 10 \<bar>n - 1\<bar>)"

definition num_to_string :: "f64 \<Rightarrow> string" where
  "num_to_string x =
     (if f64_is_nan x then ''NaN''
      else if f64_magnitude x = 0 then ''0''
      else (if f64_negative x then ''-'' else []) @
        (if \<not> f64_is_finite x then ''Infinity''
         else let (s, e) = shortest_decimal (f64_magnitude x); ds = digits_of 10 s
              in format_decimal (strip_zeros ds) (int (length ds) + e)))"

subsection \<open>String to number\<close>

text \<open>The longest prefix of digits, then the optional parts of a decimal literal.\<close>

definition span_digits :: "string \<Rightarrow> string \<times> string" where
  "span_digits s = (takeWhile is_digit s, dropWhile is_digit s)"

text \<open>\<open>digits [. digits] [e sign digits]\<close>, or \<open>. digits ...\<close>: significand, exponent and the rest.\<close>

definition decimal_literal :: "string \<Rightarrow> ((int \<times> int) \<times> string) option" where
  "decimal_literal s =
     (let (ip, r) = span_digits s;
          (fp, r2) = (case r of CHR ''.'' # t \<Rightarrow> span_digits t | _ \<Rightarrow> ([], r));
          sig = value_of_digits 10 (ip @ fp);
          ex = - int (length fp)
      in if ip = [] \<and> fp = [] then None
         else case r2 of
           c # t \<Rightarrow>
             if c = CHR ''e'' \<or> c = CHR ''E'' then
               (let (neg, t') = (case t of CHR ''-'' # u \<Rightarrow> (True, u) | CHR ''+'' # u \<Rightarrow> (False, u)
                                   | _ \<Rightarrow> (False, t));
                    (ep, r3) = span_digits t';
                    ev = value_of_digits 10 ep
                in if ep = [] then Some ((sig, ex), r2)
                   else Some ((sig, ex + (if neg then - ev else ev)), r3))
             else Some ((sig, ex), r2)
         | [] \<Rightarrow> Some ((sig, ex), r2))"

definition radix_literal :: "int \<Rightarrow> string \<Rightarrow> f64" where
  "radix_literal b s =
     (if s \<noteq> [] \<and> list_all (\<lambda>c. case digit_value c of Some v \<Rightarrow> v < b | None \<Rightarrow> False) s
      then f64_of_int (value_of_digits b s) else f64_nan)"

definition unsigned_to_number :: "bool \<Rightarrow> string \<Rightarrow> f64" where
  "unsigned_to_number neg s =
     (if s = ''Infinity'' then f64_infinity neg
      else case decimal_literal s of
        Some ((sig, ex), []) \<Rightarrow> f64_of_decimal neg sig ex
      | _ \<Rightarrow> f64_nan)"

text \<open>\<open>Number(string)\<close>.\<close>

definition string_to_number :: "string \<Rightarrow> f64" where
  "string_to_number str =
     (let s = trim str in
      case s of
        [] \<Rightarrow> 0
      | CHR ''0'' # c # t \<Rightarrow>
          if c = CHR ''x'' \<or> c = CHR ''X'' then radix_literal 16 t
          else if c = CHR ''o'' \<or> c = CHR ''O'' then radix_literal 8 t
          else if c = CHR ''b'' \<or> c = CHR ''B'' then radix_literal 2 t
          else unsigned_to_number False s
      | CHR ''-'' # t \<Rightarrow> unsigned_to_number True t
      | CHR ''+'' # t \<Rightarrow> unsigned_to_number False t
      | _ \<Rightarrow> unsigned_to_number False s)"

subsection \<open>Laws of the order\<close>

lemma uint_f64_make:
  assumes "0 \<le> bits" and "bits < 2 ^ 63"
  shows "uint (f64_make neg bits) = bits + (if neg then 2 ^ 63 else 0)"
  using assms by (simp add: f64_make_def word_of_int_inverse uint_word_of_int take_bit_int_eq_self)

lemma f64_make_parts:
  assumes "0 \<le> bits" and "bits < 2 ^ 63"
  shows "f64_negative (f64_make neg bits) = neg" "f64_magnitude (f64_make neg bits) = bits"
  using assms by (simp_all add: f64_negative_def f64_magnitude_def uint_f64_make)

lemma f64_magnitude_bounds: "0 \<le> f64_magnitude x" "f64_magnitude x < 2 ^ 63"
  by (simp_all add: f64_magnitude_def)

lemma f64_make_magnitude: "f64_make (f64_negative x) (f64_magnitude x) = x"
proof -
  have u: "0 \<le> uint x" "uint x < 2 ^ 64" using uint_bounded [of x] by simp_all
  have "f64_magnitude x + (if f64_negative x then 2 ^ 63 else 0) = uint x"
  proof (cases "f64_negative x")
    case True
    then have "(uint x - 2 ^ 63) mod 2 ^ 63 = uint x - 2 ^ 63"
      using u by (intro mod_pos_pos_trivial) (simp_all add: f64_negative_def)
    with True show ?thesis by (simp add: f64_magnitude_def)
  next
    case False
    with u show ?thesis by (simp add: f64_magnitude_def f64_negative_def)
  qed
  then show ?thesis by (simp add: f64_make_def)
qed

lemma f64_lt_irrefl [simp]: "\<not> f64_lt x x"
  by (simp add: f64_lt_def)

lemma f64_lt_trans: "f64_lt x y \<Longrightarrow> f64_lt y z \<Longrightarrow> f64_lt x z"
  by (auto simp: f64_lt_def)

lemma f64_le_iff: "f64_le x y \<longleftrightarrow> f64_lt x y \<or> f64_eq x y"
  by (auto simp: f64_le_def f64_lt_def f64_eq_def)

end
