(* ===== verification/JsValue.thy ===== *)
theory JsValue imports JsNumber begin

section \<open>JavaScript values\<close>

text \<open>
  The JSON-shaped values documents, queries and messages are made of, with \<open>undefined\<close>.  An
  object is the list of its own enumerable string keys in the order ECMA-262 gives them:
  array-index keys ascending, then the others in order of insertion.  Conversions, truthiness
  and the equality operators follow the standard; two objects are never equal, because the
  program compares values that come from different parses.
\<close>

datatype jsval =
    JUndef
  | JNull
  | JBool bool
  | JNum f64
  | JStr string
  | JArr "jsval list"
  | JObj "(string \<times> jsval) list"

type_synonym record_obj = "(string \<times> jsval) list"

subsection \<open>Own properties\<close>

definition is_index_key :: "string \<Rightarrow> bool" where
  "is_index_key k = (k = ''0'' \<or> (k \<noteq> [] \<and> hd k \<noteq> CHR ''0'' \<and> list_all is_digit k \<and>
     length k \<le> 10 \<and> value_of_digits 10 k < 4294967295))"

definition index_before :: "string \<Rightarrow> string \<Rightarrow> bool" where
  "index_before k l = (is_index_key l \<and> value_of_digits 10 l < value_of_digits 10 k)"

definition obj_get :: "record_obj \<Rightarrow> string \<Rightarrow> jsval" where
  "obj_get ob k = (case map_of ob k of Some v \<Rightarrow> v | None \<Rightarrow> JUndef)"

definition has_own :: "record_obj \<Rightarrow> string \<Rightarrow> bool" where
  "has_own ob k = (map_of ob k \<noteq> None)"

definition obj_keys :: "record_obj \<Rightarrow> string list" where
  "obj_keys ob = map fst ob"

fun obj_update :: "string \<Rightarrow> jsval \<Rightarrow> record_obj \<Rightarrow> record_obj" where
  "obj_update k v [] = []"
| "obj_update k v ((l, w) # ob) = (if l = k then (l, v) # ob else (l, w) # obj_update k v ob)"

definition obj_insert :: "string \<Rightarrow> jsval \<Rightarrow> record_obj \<Rightarrow> record_obj" where
  "obj_insert k v ob =
     (if is_index_key k
      then takeWhile (\<lambda>e. index_before k (fst e)) ob @ (k, v) # dropWhile (\<lambda>e. index_before k (fst e)) ob
      else ob @ [(k, v)])"

definition obj_put :: "record_obj \<Rightarrow> string \<Rightarrow> jsval \<Rightarrow> record_obj" where
  "obj_put ob k v = (if has_own ob k then obj_update k v ob else obj_insert k v ob)"

definition obj_delete :: "record_obj \<Rightarrow> string \<Rightarrow> record_obj" where
  "obj_delete ob k = filter (\<lambda>e. fst e \<noteq> k) ob"

text \<open>\<open>Object.assign\<close> and object spread.\<close>

definition obj_assign :: "record_obj \<Rightarrow> record_obj \<Rightarrow> record_obj" where
  "obj_assign target source = foldl (\<lambda>ob e. obj_put ob (fst e) (snd e)) target source"

definition obj_of :: "record_obj \<Rightarrow> record_obj" where
  "obj_of entries = obj_assign [] entries"

text \<open>Property access on any value: only objects have own properties here.\<close>

definition get_prop :: "jsval \<Rightarrow> string \<Rightarrow> jsval" where
  "get_prop v k = (case v of JObj ob \<Rightarrow> obj_get ob k | _ \<Rightarrow> JUndef)"

lemma obj_get_simps [simp]:
  "obj_get [] k = JUndef"
  "obj_get ((l, v) # ob) k = (if k = l then v else obj_get ob k)"
  by (simp_all add: obj_get_def)

lemma has_own_simps [simp]:
  "\<not> has_own [] k"
  "has_own ((l, v) # ob) k \<longleftrightarrow> k = l \<or> has_own ob k"
  by (auto simp: has_own_def)

lemma has_own_iff_mem: "has_own ob k \<longleftrightarrow> k \<in> set (obj_keys ob)"
  by (induction ob) (auto simp: obj_keys_def)

lemma map_of_obj_update: "map_of (obj_update k v ob) l = (if l = k \<and> has_own ob k then Some v else map_of ob l)"
  by (induction k v ob rule: obj_update.induct) auto

lemma obj_insert_split:
  obtains xs ys where "ob = xs @ ys" and "obj_insert k v ob = xs @ (k, v) # ys"
proof (cases "is_index_key k")
  case True
  then show thesis
    by (intro that [of "takeWhile (\<lambda>e. index_before k (fst e)) ob" "dropWhile (\<lambda>e. index_before k (fst e)) ob"])
      (simp_all add: obj_insert_def)
next
  case False
  then show thesis by (intro that [of ob "[]"]) (simp_all add: obj_insert_def)
qed

lemma map_of_obj_insert:
  assumes "\<not> has_own ob k"
  shows "map_of (obj_insert k v ob) l = (if l = k then Some v else map_of ob l)"
proof -
  obtain xs ys where *: "ob = xs @ ys" "obj_insert k v ob = xs @ (k, v) # ys"
    by (rule obj_insert_split)
  have "map_of xs k = None"
    using assms by (simp add: * has_own_def map_add_def split: option.splits)
  then show ?thesis unfolding *(2) unfolding *(1) by (simp add: map_add_def split: option.splits)
qed

lemma map_of_obj_put: "map_of (obj_put ob k v) l = (if l = k then Some v else map_of ob l)"
  by (simp add: obj_put_def map_of_obj_update map_of_obj_insert)

lemma obj_get_put [simp]: "obj_get (obj_put ob k v) l = (if l = k then v else obj_get ob l)"
  by (simp add: obj_get_def map_of_obj_put)

lemma has_own_put [simp]: "has_own (obj_put ob k v) l \<longleftrightarrow> l = k \<or> has_own ob l"
  by (simp add: has_own_def map_of_obj_put)

lemma map_of_obj_delete: "map_of (obj_delete ob k) l = (if l = k then None else map_of ob l)"
  by (induction ob) (auto simp: obj_delete_def)

lemma obj_get_delete [simp]: "obj_get (obj_delete ob k) l = (if l = k then JUndef else obj_get ob l)"
  by (simp add: obj_get_def map_of_obj_delete)

lemma has_own_delete [simp]: "has_own (obj_delete ob k) l \<longleftrightarrow> l \<noteq> k \<and> has_own ob l"
  by (auto simp: has_own_def map_of_obj_delete)

lemma obj_delete_absent: "\<not> has_own ob k \<Longrightarrow> obj_delete ob k = ob"
  unfolding obj_delete_def by (rule filter_True) (auto simp: has_own_iff_mem obj_keys_def)

lemma distinct_keys_update [simp]: "obj_keys (obj_update k v ob) = obj_keys ob"
  by (induction k v ob rule: obj_update.induct) (auto simp: obj_keys_def)

lemma distinct_keys_put:
  assumes "distinct (obj_keys ob)"
  shows "distinct (obj_keys (obj_put ob k v))"
proof (cases "has_own ob k")
  case False
  obtain xs ys where *: "ob = xs @ ys" "obj_insert k v ob = xs @ (k, v) # ys"
    by (rule obj_insert_split)
  have "distinct (obj_keys (xs @ (k, v) # ys))"
    using False assms unfolding *(1) by (auto simp: has_own_iff_mem obj_keys_def)
  with False show ?thesis by (simp add: obj_put_def flip: *(2))
qed (use assms in \<open>simp add: obj_put_def\<close>)

lemma distinct_keys_assign: "distinct (obj_keys ob) \<Longrightarrow> distinct (obj_keys (obj_assign ob es))"
  unfolding obj_assign_def by (induction es arbitrary: ob) (auto simp: distinct_keys_put)

lemma obj_get_assign:
  "obj_get (obj_assign ob es) k =
     (case map_of (rev es) k of Some v \<Rightarrow> v | None \<Rightarrow> obj_get ob k)"
  unfolding obj_assign_def
  by (induction es arbitrary: ob) (auto split: option.splits simp: map_add_Some_iff)

text \<open>An object in the order the engine keeps it: rebuilding it key by key changes nothing.\<close>

definition canonical_obj :: "record_obj \<Rightarrow> bool" where
  "canonical_obj ob = (obj_of ob = ob)"

subsection \<open>Types and conversions\<close>

definition is_object :: "jsval \<Rightarrow> bool" where
  "is_object v = (case v of JArr _ \<Rightarrow> True | JObj _ \<Rightarrow> True | _ \<Rightarrow> False)"

definition is_array :: "jsval \<Rightarrow> bool" where
  "is_array v = (case v of JArr _ \<Rightarrow> True | _ \<Rightarrow> False)"

definition is_nullish :: "jsval \<Rightarrow> bool" where
  "is_nullish v = (v = JUndef \<or> v = JNull)"

definition is_number :: "jsval \<Rightarrow> bool" where
  "is_number v = (case v of JNum _ \<Rightarrow> True | _ \<Rightarrow> False)"

definition is_string :: "jsval \<Rightarrow> bool" where
  "is_string v = (case v of JStr _ \<Rightarrow> True | _ \<Rightarrow> False)"

definition js_truthy :: "jsval \<Rightarrow> bool" where
  "js_truthy v = (case v of JUndef \<Rightarrow> False | JNull \<Rightarrow> False | JBool b \<Rightarrow> b
     | JNum x \<Rightarrow> \<not> f64_is_nan x \<and> f64_magnitude x \<noteq> 0 | JStr s \<Rightarrow> s \<noteq> [] | _ \<Rightarrow> True)"

text \<open>\<open>String(v)\<close>: an array joins its elements with commas, null and undefined as nothing.\<close>

fun js_to_string :: "jsval \<Rightarrow> string" where
  "js_to_string JUndef = ''undefined''"
| "js_to_string JNull = ''null''"
| "js_to_string (JBool b) = (if b then ''true'' else ''false'')"
| "js_to_string (JNum x) = num_to_string x"
| "js_to_string (JStr s) = s"
| "js_to_string (JArr vs) =
     join_with '','' (map (\<lambda>v. if is_nullish v then [] else js_to_string v) vs)"
| "js_to_string (JObj ob) = ''[object Object]''"

definition to_primitive :: "jsval \<Rightarrow> jsval" where
  "to_primitive v = (if is_object v then JStr (js_to_string v) else v)"

text \<open>\<open>Number(v)\<close>.\<close>

definition prim_to_number :: "jsval \<Rightarrow> f64" where
  "prim_to_number v = (case v of JNull \<Rightarrow> 0 | JBool b \<Rightarrow> f64_of_int (if b then 1 else 0)
     | JNum x \<Rightarrow> x | JStr s \<Rightarrow> string_to_number s | _ \<Rightarrow> f64_nan)"

definition js_to_number :: "jsval \<Rightarrow> f64" where
  "js_to_number v = prim_to_number (to_primitive v)"

definition strict_eq :: "jsval \<Rightarrow> jsval \<Rightarrow> bool" where
  "strict_eq v w = (case (v, w) of
     (JUndef, JUndef) \<Rightarrow> True | (JNull, JNull) \<Rightarrow> True
   | (JBool a, JBool b) \<Rightarrow> a = b | (JNum x, JNum y) \<Rightarrow> f64_eq x y
   | (JStr s, JStr t) \<Rightarrow> s = t | _ \<Rightarrow> False)"

definition loose_eq_prim :: "jsval \<Rightarrow> jsval \<Rightarrow> bool" where
  "loose_eq_prim v w =
     (if is_nullish v \<or> is_nullish w then is_nullish v \<and> is_nullish w
      else case (v, w) of
        (JStr s, JStr t) \<Rightarrow> s = t
      | _ \<Rightarrow> f64_eq (prim_to_number v) (prim_to_number w))"

definition loose_eq :: "jsval \<Rightarrow> jsval \<Rightarrow> bool" where
  "loose_eq v w =
     (if is_object v \<and> is_object w then False
      else if is_nullish v \<or> is_nullish w then is_nullish v \<and> is_nullish w
      else loose_eq_prim (to_primitive v) (to_primitive w))"

text \<open>The relational operators with a number on the left.\<close>

definition num_gt :: "f64 \<Rightarrow> jsval \<Rightarrow> bool" where
  "num_gt x v = f64_lt (js_to_number v) x"

definition num_ge :: "f64 \<Rightarrow> jsval \<Rightarrow> bool" where
  "num_ge x v = f64_le (js_to_number v) x"

definition num_lt :: "f64 \<Rightarrow> jsval \<Rightarrow> bool" where
  "num_lt x v = f64_lt x (js_to_number v)"

definition num_le :: "f64 \<Rightarrow> jsval \<Rightarrow> bool" where
  "num_le x v = f64_le x (js_to_number v)"

end
