(* ===== verification/Json.thy ===== *)
theory Json imports JsValue begin

section \<open>JSON text\<close>

text \<open>
  \<open>JSON.stringify\<close> without indentation and \<open>JSON.parse\<close>, on the values of \<open>JsValue\<close>.  The parser
  is a recursive descent with fuel twice the length of the text, enough because each character
  is the start of at most two calls; that printed values read back is \<open>json_parse_text\<close>.  A
  syntax error carries one fixed message, since engines word it differently.
\<close>

subsection \<open>Printing\<close>

definition json_escape :: "char \<Rightarrow> string" where
  "json_escape c =
     (let n = of_char c :: int in
      if c = CHR 0x22 then [CHR 0x5C, CHR 0x22]
      else if c = CHR 0x5C then [CHR 0x5C, CHR 0x5C]
      else if n = 8 then CHR 0x5C # ''b'' else if n = 12 then CHR 0x5C # ''f''
      else if n = 10 then CHR 0x5C # ''n'' else if n = 13 then CHR 0x5C # ''r''
      else if n = 9 then CHR 0x5C # ''t''
      else if n < 32 then CHR 0x5C # ''u00'' @ [digit_char (n div 16), digit_char (n mod 16)]
      else [c])"

definition json_quote :: "string \<Rightarrow> string" where
  "json_quote s = CHR 0x22 # concat (map json_escape s) @ [CHR 0x22]"

fun json_text :: "jsval \<Rightarrow> string"
  and json_elems :: "jsval list \<Rightarrow> string list"
  and json_members :: "record_obj \<Rightarrow> string list" where
  "json_text JUndef = ''null''"
| "json_text JNull = ''null''"
| "json_text (JBool b) = (if b then ''true'' else ''false'')"
| "json_text (JNum x) = (if f64_is_finite x then num_to_string x else ''null'')"
| "json_text (JStr s) = json_quote s"
| "json_text (JArr vs) = ''['' @ join_with '','' (json_elems vs) @ '']''"
| "json_text (JObj ob) = ''{'' @ join_with '','' (json_members ob) @ ''}''"
| "json_elems [] = []"
| "json_elems (v # vs) = json_text v # json_elems vs"
| "json_members [] = []"
| "json_members ((k, v) # ob) =
     (if v = JUndef then json_members ob
      else (json_quote k @ '':'' @ json_text v) # json_members ob)"

definition json_stringify :: "jsval \<Rightarrow> string option" where
  "json_stringify v = (if v = JUndef then None else Some (json_text v))"

subsection \<open>Parsing\<close>

definition is_json_space :: "char \<Rightarrow> bool" where
  "is_json_space c = (c = CHR '' '' \<or> c = CHR 0x09 \<or> c = CHR 0x0A \<or> c = CHR 0x0D)"

definition skip_space :: "string \<Rightarrow> string" where
  "skip_space s = dropWhile is_json_space s"

definition is_number_char :: "char \<Rightarrow> bool" where
  "is_number_char c = (is_digit c \<or> c \<in> set ''+-.eE'')"

text \<open>\<open>-? (0 | [1-9] digits) (. digits)? ([eE] [+-]? digits)?\<close>\<close>

definition json_exponent_ok :: "string \<Rightarrow> bool" where
  "json_exponent_ok s =
     (case s of [] \<Rightarrow> True
      | c # t \<Rightarrow> (c = CHR ''e'' \<or> c = CHR ''E'') \<and>
          (let u = (case t of d # w \<Rightarrow> if d = CHR ''+'' \<or> d = CHR ''-'' then w else t | [] \<Rightarrow> [])
           in u \<noteq> [] \<and> list_all is_digit u))"

definition json_fraction_ok :: "string \<Rightarrow> bool" where
  "json_fraction_ok s =
     (case s of [] \<Rightarrow> True
      | c # t \<Rightarrow> if c = CHR ''.''
                then takeWhile is_digit t \<noteq> [] \<and> json_exponent_ok (dropWhile is_digit t)
                else json_exponent_ok s)"

definition json_number_ok :: "string \<Rightarrow> bool" where
  "json_number_ok s =
     (let u = (case s of c # t \<Rightarrow> if c = CHR ''-'' then t else s | [] \<Rightarrow> []);
          ip = takeWhile is_digit u
      in ip \<noteq> [] \<and> (hd ip = CHR ''0'' \<longrightarrow> length ip = 1) \<and> json_fraction_ok (dropWhile is_digit u))"

definition json_unicode :: "string \<Rightarrow> char" where
  "json_unicode hex = (let n = value_of_digits 16 hex in if n < 256 then char_of n else CHR 0x1A)"

fun json_string :: "string \<Rightarrow> (string \<times> string) option" where
  "json_string [] = None"
| "json_string (c # s) =
     (if c = CHR 0x22 then Some ([], s)
      else if c = CHR 0x5C then
        (case s of [] \<Rightarrow> None
         | d # t \<Rightarrow>
             if d = CHR ''u'' then
               (case t of h1 # h2 # h3 # h4 # u \<Rightarrow>
                  if list_all (\<lambda>h. is_digit h \<or> (case digit_value h of Some v \<Rightarrow> v < 16 | None \<Rightarrow> False)) [h1, h2, h3, h4]
                  then map_option (apfst (Cons (json_unicode [h1, h2, h3, h4]))) (json_string u)
                  else None
                | _ \<Rightarrow> None)
             else if d \<in> {CHR 0x22, CHR 0x5C, CHR ''/''}
               then map_option (apfst (Cons d)) (json_string t)
             else if d = CHR ''b'' then map_option (apfst (Cons CHR 0x08)) (json_string t)
             else if d = CHR ''f'' then map_option (apfst (Cons CHR 0x0C)) (json_string t)
             else if d = CHR ''n'' then map_option (apfst (Cons CHR 0x0A)) (json_string t)
             else if d = CHR ''r'' then map_option (apfst (Cons CHR 0x0D)) (json_string t)
             else if d = CHR ''t'' then map_option (apfst (Cons CHR 0x09)) (json_string t)
             else None)
      else if (of_char c :: int) < 32 then None
      else map_option (apfst (Cons c)) (json_string s))"

declare json_string.simps(2) [simp del]

definition json_literal :: "string \<Rightarrow> jsval \<Rightarrow> string \<Rightarrow> (jsval \<times> string) option" where
  "json_literal word v s = (if starts_with word s then Some (v, drop (length word) s) else None)"

definition json_number :: "string \<Rightarrow> (jsval \<times> string) option" where
  "json_number s =
     (let token = takeWhile is_number_char s
      in if json_number_ok token then Some (JNum (string_to_number token), dropWhile is_number_char s)
         else None)"

fun json_value :: "nat \<Rightarrow> string \<Rightarrow> (jsval \<times> string) option"
  and json_elements :: "nat \<Rightarrow> string \<Rightarrow> (jsval list \<times> string) option"
  and json_properties :: "nat \<Rightarrow> string \<Rightarrow> record_obj \<Rightarrow> (record_obj \<times> string) option" where
  "json_value 0 s = None"
| "json_value (Suc n) s =
     (case skip_space s of [] \<Rightarrow> None
      | c # t \<Rightarrow>
          if c = CHR 0x22 then map_option (apfst JStr) (json_string t)
          else if c = CHR ''['' then
            (case skip_space t of d # u \<Rightarrow>
               if d = CHR '']'' then Some (JArr [], u)
               else map_option (apfst JArr) (json_elements n (d # u))
             | [] \<Rightarrow> None)
          else if c = CHR ''{'' then
            (case skip_space t of d # u \<Rightarrow>
               if d = CHR ''}'' then Some (JObj [], u)
               else map_option (apfst JObj) (json_properties n (d # u) [])
             | [] \<Rightarrow> None)
          else if c = CHR ''n'' then json_literal ''null'' JNull (c # t)
          else if c = CHR ''t'' then json_literal ''true'' (JBool True) (c # t)
          else if c = CHR ''f'' then json_literal ''false'' (JBool False) (c # t)
          else json_number (c # t))"
| "json_elements 0 s = None"
| "json_elements (Suc n) s =
     (case json_value n s of None \<Rightarrow> None
      | Some (v, t) \<Rightarrow>
          (case skip_space t of [] \<Rightarrow> None
           | d # u \<Rightarrow> if d = CHR '','' then map_option (apfst (Cons v)) (json_elements n u)
                     else if d = CHR '']'' then Some ([v], u) else None))"
| "json_properties 0 s ob = None"
| "json_properties (Suc n) s ob =
     (case skip_space s of [] \<Rightarrow> None
      | c # t \<Rightarrow>
          if c \<noteq> CHR 0x22 then None
          else case json_string t of None \<Rightarrow> None
          | Some (k, u) \<Rightarrow>
              (case skip_space u of [] \<Rightarrow> None
               | d # w \<Rightarrow>
                   if d \<noteq> CHR '':'' then None
                   else case json_value n w of None \<Rightarrow> None
                   | Some (v, x) \<Rightarrow>
                       (case skip_space x of [] \<Rightarrow> None
                        | e # y \<Rightarrow>
                            if e = CHR '','' then json_properties n y (obj_put ob k v)
                            else if e = CHR ''}'' then Some (obj_put ob k v, y) else None)))"

definition syntax_error :: js_error where
  "syntax_error = JsError ''SyntaxError'' ''JSON Parse error'' None"

definition json_parse :: "string \<Rightarrow> jsval result" where
  "json_parse s =
     (case json_value (2 * length s + 2) s of
        Some (v, r) \<Rightarrow> if skip_space r = [] then Inr v else Inl syntax_error
      | None \<Rightarrow> Inl syntax_error)"

subsection \<open>Printed values read back\<close>

text \<open>
  The values that survive: no undefined, objects in engine order, and numbers whose printed
  form is a JSON number token that \<open>Number\<close> reads back (every finite double but minus zero).
\<close>

definition json_safe_number :: "f64 \<Rightarrow> bool" where
  "json_safe_number x =
     (f64_is_finite x \<and> json_number_ok (num_to_string x) \<and>
      list_all is_number_char (num_to_string x) \<and> string_to_number (num_to_string x) = x)"

fun json_safe :: "jsval \<Rightarrow> bool"
  and json_safe_list :: "jsval list \<Rightarrow> bool"
  and json_safe_obj :: "record_obj \<Rightarrow> bool" where
  "json_safe JUndef = False"
| "json_safe JNull = True"
| "json_safe (JBool b) = True"
| "json_safe (JNum x) = json_safe_number x"
| "json_safe (JStr s) = True"
| "json_safe (JArr vs) = json_safe_list vs"
| "json_safe (JObj ob) = (canonical_obj ob \<and> json_safe_obj ob)"
| "json_safe_list [] = True"
| "json_safe_list (v # vs) = (json_safe v \<and> json_safe_list vs)"
| "json_safe_obj [] = True"
| "json_safe_obj ((k, v) # ob) = (json_safe v \<and> json_safe_obj ob)"

lemma json_string_escape: "json_string (json_escape c @ s) = map_option (apfst (Cons c)) (json_string s)"
proof -
  let ?n = "of_char c :: int"
  have bounds: "0 \<le> ?n" "?n < 256" by (rule of_char_bounds)+
  have num: "c = char_of ?n" by simp
  show ?thesis
  proof (cases "?n < 32 \<and> ?n \<notin> {8, 9, 10, 12, 13}")
    case True
    have d: "0 \<le> ?n div 16" "?n div 16 < 36" "0 \<le> ?n mod 16" "?n mod 16 < 36" "?n div 16 < 16" "?n mod 16 < 16"
      using True bounds by auto
    have "json_escape c = CHR 0x5C # ''u00'' @ [digit_char (?n div 16), digit_char (?n mod 16)]"
      using True by (auto simp: json_escape_def Let_def)
    moreover have "json_unicode [CHR ''0'', CHR ''0'', digit_char (?n div 16), digit_char (?n mod 16)] = c"
      using d bounds by (simp add: json_unicode_def value_of_digits_def digit_value_def [of "CHR ''0''"] is_digit_def)
    ultimately show ?thesis
      using d by (simp add: json_string.simps(2) is_digit_def [of "CHR ''0''"])
  next
    case False
    have codes: "?n = of_char d \<longleftrightarrow> c = d" for d by simp
    consider "c = CHR 0x08" | "c = CHR 0x09" | "c = CHR 0x0A" | "c = CHR 0x0C" | "c = CHR 0x0D"
      | (other) "?n \<ge> 32"
      using False codes [of "CHR 0x08"] codes [of "CHR 0x09"] codes [of "CHR 0x0A"]
        codes [of "CHR 0x0C"] codes [of "CHR 0x0D"] by fastforce
    then show ?thesis
    proof cases
      case other
      then show ?thesis
        by (cases "c = CHR 0x22 \<or> c = CHR 0x5C") (auto simp: json_escape_def json_string.simps(2) Let_def)
    qed (simp_all add: json_escape_def json_string.simps(2) Let_def)
  qed
qed

lemma json_string_quoted:
  "json_string (concat (map json_escape s) @ CHR 0x22 # rest) = Some (s, rest)"
  by (induction s) (simp_all add: json_string.simps(2) json_string_escape)

definition number_ends :: "string \<Rightarrow> bool" where
  "number_ends rest = (case rest of [] \<Rightarrow> True | c # _ \<Rightarrow> \<not> is_number_char c)"

lemma number_ends_simps [simp]:
  "number_ends []"
  "number_ends (c # s) \<longleftrightarrow> \<not> is_number_char c"
  by (simp_all add: number_ends_def)

lemma punctuation [simp]:
  "\<not> is_number_char CHR '',''" "\<not> is_number_char CHR '']''" "\<not> is_number_char CHR ''}''"
  "\<not> is_json_space CHR '',''" "\<not> is_json_space CHR '']''" "\<not> is_json_space CHR ''}''"
  "\<not> is_json_space CHR '':''" "\<not> is_json_space CHR 0x22" "\<not> is_json_space CHR ''[''"
  "\<not> is_json_space CHR ''{''" "\<not> is_json_space CHR ''n''" "\<not> is_json_space CHR ''t''"
  "\<not> is_json_space CHR ''f''"
  by (simp_all add: is_number_char_def is_digit_def is_json_space_def)

lemma skip_space_Cons [simp]: "\<not> is_json_space c \<Longrightarrow> skip_space (c # s) = c # s"
  by (simp add: skip_space_def)

lemma skip_space_Nil [simp]: "skip_space [] = []"
  by (simp add: skip_space_def)

lemma json_number_start:
  assumes "json_number_ok s"
  obtains c t where "s = c # t" and "c = CHR ''-'' \<or> is_digit c"
proof (cases s)
  case Nil
  with assms show thesis by (simp add: json_number_ok_def)
next
  case (Cons c t)
  with assms have "c = CHR ''-'' \<or> is_digit c" by (auto simp: json_number_ok_def Let_def split: if_splits)
  with Cons that show thesis by blast
qed

lemma number_charD:
  assumes "is_number_char c"
  shows "\<not> is_json_space c" "c \<noteq> CHR 0x22" "c \<noteq> CHR ''[''" "c \<noteq> CHR ''{''" "c \<noteq> CHR ''n''"
    "c \<noteq> CHR ''t''" "c \<noteq> CHR ''f''" "c \<noteq> CHR '']''"
  using assms by (auto simp: is_number_char_def is_digit_def is_json_space_def)

lemma json_text_start:
  assumes "json_safe v"
  obtains c t where "json_text v = c # t" and "\<not> is_json_space c" and "c \<noteq> CHR '']''"
proof -
  have "\<exists>c t. json_text v = c # t \<and> \<not> is_json_space c \<and> c \<noteq> CHR '']''"
  proof (cases v)
    case (JNum x)
    with assms have "json_text v = num_to_string x" "json_number_ok (num_to_string x)"
      by (simp_all add: json_safe_number_def)
    moreover from this(2) obtain c t where "num_to_string x = c # t" "c = CHR ''-'' \<or> is_digit c"
      by (rule json_number_start)
    moreover from this(2) have "is_number_char c" by (auto simp: is_number_char_def)
    ultimately show ?thesis by (simp add: number_charD)
  qed (use assms in \<open>auto simp: json_quote_def\<close>)
  with that show thesis by blast
qed

lemma json_literal_append: "json_literal word v (word @ rest) = Some (v, rest)"
  by (simp add: json_literal_def starts_with_def)

lemma json_value_number:
  assumes "json_safe_number x" and "number_ends rest" and "0 < n"
  shows "json_value n (num_to_string x @ rest) = Some (JNum x, rest)"
proof -
  let ?t = "num_to_string x"
  have ok: "json_number_ok ?t" "list_all is_number_char ?t" "string_to_number ?t = x"
    using assms(1) by (simp_all add: json_safe_number_def)
  have "takeWhile is_number_char rest = []" "dropWhile is_number_char rest = rest"
    using assms(2) by (cases rest; simp)+
  then have token: "takeWhile is_number_char (?t @ rest) = ?t" "dropWhile is_number_char (?t @ rest) = rest"
    using ok(2) by (simp_all add: list_all_iff takeWhile_append2 dropWhile_append2)
  obtain c t where t: "?t = c # t" and c: "is_number_char c"
    using ok(1,2) by (cases ?t) (auto simp: json_number_ok_def)
  obtain m where "n = Suc m" using assms(3) by (cases n) auto
  moreover have "json_number (?t @ rest) = Some (JNum x, rest)"
    by (simp only: json_number_def token ok Let_def if_True)
  ultimately show ?thesis
    using t number_charD [OF c] by simp
qed

lemma json_text_reads_back:
  "json_safe v \<Longrightarrow> number_ends rest \<Longrightarrow> 2 * length (json_text v) \<le> n \<Longrightarrow>
     json_value n (json_text v @ rest) = Some (v, rest)"
  "json_safe_list vs \<Longrightarrow> vs \<noteq> [] \<Longrightarrow> 2 * length (join_with '','' (json_elems vs)) < n \<Longrightarrow>
     json_elements n (join_with '','' (json_elems vs) @ CHR '']'' # rest) = Some (vs, rest)"
  "json_safe_obj ob \<Longrightarrow> ob \<noteq> [] \<Longrightarrow> 2 * length (join_with '','' (json_members ob)) < n \<Longrightarrow>
     json_properties n (join_with '','' (json_members ob) @ CHR ''}'' # rest) acc =
       Some (obj_assign acc ob, rest)"
proof (induction v and vs and ob arbitrary: n rest and n rest and n rest acc
    rule: json_text_json_elems_json_members.induct)
  case (2 n rest)
  then obtain m where "n = Suc m" by (cases n) auto
  then show ?case using json_literal_append [of "''null''"] by simp
next
  case (3 b n rest)
  then obtain m where "n = Suc m" by (cases n) (auto split: if_splits)
  then show ?case
    using json_literal_append [of "''true''"] json_literal_append [of "''false''"] by simp
next
  case (4 x n rest)
  then have "json_safe_number x" by simp
  moreover from this have "num_to_string x \<noteq> []" "f64_is_finite x"
    by (auto simp: json_safe_number_def json_number_ok_def)
  moreover have "0 < n" using "4.prems"(3) calculation by (cases n) auto
  ultimately show ?case using "4.prems"(2) json_value_number by simp
next
  case (5 s n rest)
  then obtain m where "n = Suc m" by (cases n) (auto simp: json_quote_def)
  then show ?case by (simp add: json_quote_def json_string_quoted)
next
  case (6 vs n rest)
  then obtain m where m: "n = Suc m" by (cases n) auto
  show ?case
  proof (cases vs)
    case (Cons v vs')
    with "6.prems" have "json_safe v" by simp
    then obtain c t where t: "json_text v = c # t" "\<not> is_json_space c" "c \<noteq> CHR '']''"
      by (rule json_text_start)
    then obtain u where u: "join_with '','' (json_elems vs) @ CHR '']'' # rest = c # u"
      using Cons by (cases vs') auto
    have "json_elements m (join_with '','' (json_elems vs) @ CHR '']'' # rest) = Some (vs, rest)"
      using 6 m Cons by auto
    with m t u show ?thesis by simp
  qed (use m in simp)
next
  case (7 ob n rest)
  then obtain m where m: "n = Suc m" by (cases n) auto
  show ?case
  proof (cases ob)
    case (Cons e ob')
    obtain k v where e: "e = (k, v)" by fastforce
    with "7.prems" Cons have "v \<noteq> JUndef" by auto
    then obtain u where u: "join_with '','' (json_members ob) @ CHR ''}'' # rest = CHR 0x22 # u"
      using Cons e by (cases "json_members ob'") (auto simp: json_quote_def)
    have "json_properties m (join_with '','' (json_members ob) @ CHR ''}'' # rest) [] =
        Some (obj_assign [] ob, rest)"
      using 7 m Cons by auto
    moreover have "obj_assign [] ob = ob"
      using "7.prems" by (simp add: canonical_obj_def obj_of_def)
    ultimately show ?thesis using m u by simp
  qed (use m in simp)
next
  case (9 v vs n rest)
  then obtain m where m: "n = Suc m" by (cases n) auto
  show ?case
  proof (cases vs)
    case Nil
    then show ?thesis using 9 m by simp
  next
    case (Cons w ws)
    then have j: "join_with '','' (json_elems (v # vs)) =
        json_text v @ '','' @ join_with '','' (json_elems vs)"
      by simp
    have "json_value m (json_text v @ CHR '','' # join_with '','' (json_elems vs) @ CHR '']'' # rest) =
        Some (v, CHR '','' # join_with '','' (json_elems vs) @ CHR '']'' # rest)"
      using "9.prems" m j by (intro "9.IH"(1)) auto
    moreover have "json_elements m (join_with '','' (json_elems vs) @ CHR '']'' # rest) = Some (vs, rest)"
      using "9.prems" m j Cons by (intro "9.IH"(2)) auto
    ultimately show ?thesis using m j by simp
  qed
next
  case (11 k v ob n rest acc)
  then have v: "v \<noteq> JUndef" and safe: "json_safe v" by auto
  obtain m where m: "n = Suc m" using "11.prems" by (cases n) auto
  have key: "json_string (concat (map json_escape k) @ CHR 0x22 # s) = Some (k, s)" for s
    by (rule json_string_quoted)
  show ?case
  proof (cases ob)
    case Nil
    have "json_value m (json_text v @ CHR ''}'' # rest) = Some (v, CHR ''}'' # rest)"
      using "11.prems" m v Nil by (intro "11.IH"(2)) (auto simp: json_quote_def)
    with Nil v m key show ?thesis by (simp add: json_quote_def obj_assign_def)
  next
    case (Cons e ob')
    obtain l w where e: "e = (l, w)" by fastforce
    with "11.prems" Cons have "w \<noteq> JUndef" by auto
    with v have j: "join_with '','' (json_members ((k, v) # ob)) =
        (json_quote k @ '':'' @ json_text v) @ '','' @ join_with '','' (json_members ob)"
      using Cons e by simp
    have "json_value m (json_text v @ CHR '','' # join_with '','' (json_members ob) @ CHR ''}'' # rest) =
        Some (v, CHR '','' # join_with '','' (json_members ob) @ CHR ''}'' # rest)"
      using "11.prems" m j v by (intro "11.IH"(2)) auto
    moreover have "json_properties m (join_with '','' (json_members ob) @ CHR ''}'' # rest) (obj_put acc k v) =
        Some (obj_assign (obj_put acc k v) ob, rest)"
      using "11.prems" m j Cons v by (intro "11.IH"(3)) auto
    ultimately show ?thesis
      using m key unfolding j by (simp add: json_quote_def obj_assign_def)
  qed
qed simp_all

theorem json_parse_text: "json_safe v \<Longrightarrow> json_parse (json_text v) = Inr v"
  using json_text_reads_back(1) [of v "[]" "2 * length (json_text v) + 2"]
  by (simp add: json_parse_def)

lemma json_parse_stringify: "json_safe v \<Longrightarrow> json_stringify v = Some t \<Longrightarrow> json_parse t = Inr v"
  by (auto simp: json_stringify_def json_parse_text split: if_splits)

end
