(* ===== verification/Bridge.thy ===== *)
theory Bridge imports BridgePath Json "HOL-Library.Word" begin

section \<open>The OPFS bridge (src/src/browser/opfs-bridge.mjs, opfs-bridge-worker.mjs)\<close>

text \<open>
  The engine's Worker and the bridge Worker share five control slots and a byte area.  \<open>call\<close> writes a request, stores
  the state, notifies and sleeps in \<open>Atomics.wait\<close>; the loop of \<open>serve\<close> waits for the state without blocking, performs
  the operation and stores the answer.  Each access to shared memory, each notification and each decision to sleep is
  one step, the steps of the two sides interleave in any order, and a side that sleeps goes on only when it is notified.

  Slots are 32 bit: a store wraps and a load reads the signed value.  \<open>perform\<close>, the operations on OPFS handles, is a
  function of the worker's context, the request and the payload; it touches no shared memory, so it is one step.
\<close>

subsection \<open>Slots and messages\<close>

type_synonym slot = "32 word"

definition STATE_IDLE :: slot where "STATE_IDLE = 0"
definition STATE_REQUEST :: slot where "STATE_REQUEST = 1"
definition STATE_RESPONSE :: slot where "STATE_RESPONSE = 2"
definition BRIDGE_BYTES :: nat where "BRIDGE_BYTES = 64 * 1024 * 1024"

lemma states_distinct [simp]:
  "STATE_IDLE \<noteq> STATE_REQUEST" "STATE_REQUEST \<noteq> STATE_IDLE" "STATE_IDLE \<noteq> STATE_RESPONSE"
  "STATE_RESPONSE \<noteq> STATE_IDLE" "STATE_REQUEST \<noteq> STATE_RESPONSE" "STATE_RESPONSE \<noteq> STATE_REQUEST"
  by (simp_all add: STATE_IDLE_def STATE_REQUEST_def STATE_RESPONSE_def)

abbreviation store_slot :: "int \<Rightarrow> slot" where "store_slot k \<equiv> word_of_int k"
abbreviation load_slot :: "slot \<Rightarrow> int" where "load_slot w \<equiv> sint w"

definition set_bytes :: "bytes \<Rightarrow> bytes \<Rightarrow> nat \<Rightarrow> bytes" where
  "set_bytes area source offset = take offset area @ source @ drop (offset + length source) area"

text \<open>The outcome of \<open>perform\<close>: \<open>result\<close> and \<open>payload\<close> where present, or what it throws.\<close>

type_synonym outcome = "(int option \<times> bytes option) result"

definition bridge_answer :: "nat \<Rightarrow> outcome \<Rightarrow> int \<times> int \<times> bytes" where
  "bridge_answer capacity outcome =
     (let (status, result, answer) =
        (case outcome of
           Inr (r, p) \<Rightarrow> (0, case r of None \<Rightarrow> 0 | Some k \<Rightarrow> k, case p of None \<Rightarrow> [] | Some b \<Rightarrow> b)
         | Inl e \<Rightarrow> (if err_name e = ''NotFoundError'' then -2 else if err_code e = Some ''EEXIST'' then -17 else -5,
                     0, utf8_encode (err_message e)))
      in if capacity < length answer
         then (-5, result, utf8_encode (''bridge response exceeds '' @ int_to_string (int capacity) @ '' bytes''))
         else (status, result, answer))"

definition too_big :: "nat \<Rightarrow> js_error" where
  "too_big capacity = JsError ''Error'' (''bridge request exceeds '' @ int_to_string (int capacity) @ '' bytes'') (Some ''EFBIG'')"

type_synonym reply = "(int \<times> int \<times> bytes) result"

definition engine_reply :: "jsval \<Rightarrow> int \<Rightarrow> int \<Rightarrow> bytes \<Rightarrow> reply" where
  "engine_reply request status result answer =
     (if status \<noteq> 0
      then Inl (JsError ''Error''
             (if utf8_decode answer = [] then ''bridge call failed: '' @ js_to_string (get_prop request ''op'')
              else utf8_decode answer)
             (Some (if status = -2 then ''ENOENT'' else if status = -17 then ''EEXIST'' else ''EIO'')))
      else Inr (status, result, answer))"

subsection \<open>The two sides\<close>

text \<open>Where \<open>call\<close> stands, with its local variables.\<close>

datatype engine_pc =
    E_Ready
  | E_SetRequest bytes bytes
  | E_SetPayload bytes bytes
  | E_StoreRequestLen nat nat
  | E_StorePayloadLen nat
  | E_StoreState
  | E_Notify
  | E_Check
  | E_Wait
  | E_Asleep
  | E_LoadStatus
  | E_LoadResult int
  | E_LoadLength int int
  | E_Slice int int int
  | E_StoreIdle int int bytes

text \<open>Where the loop of \<open>serve\<close> stands; \<open>B_Dead\<close> is a rejected \<open>serve\<close>.\<close>

datatype bridge_pc =
    B_Load
  | B_Test slot
  | B_Asleep
  | B_Poll
  | B_LoadRequestLen
  | B_LoadPayloadLen int
  | B_SliceRequest int int
  | B_SlicePayload jsval int int
  | B_Perform jsval bytes
  | B_SetAnswer int int bytes
  | B_StoreStatus int int nat
  | B_StoreResult int nat
  | B_StoreLength nat
  | B_StoreState
  | B_Notify
  | B_Dead

text \<open>Shared memory, the two sides, the calls the engine has still to make (the one in flight first), the replies it
  has got, and the context of the worker.\<close>

record 'c bridge_system =
  ctl_state :: slot
  ctl_request :: slot
  ctl_payload :: slot
  ctl_status :: slot
  ctl_result :: slot
  area :: bytes
  engine_at :: engine_pc
  calls :: "(jsval \<times> bytes) list"
  returned :: "reply list"
  bridge_at :: bridge_pc
  ctx :: 'c

definition encode_request :: "jsval \<Rightarrow> bytes" where
  "encode_request request = utf8_encode (json_text request)"

definition engine_step :: "'c bridge_system \<Rightarrow> 'c bridge_system option" where
  "engine_step s =
     (case engine_at s of
        E_Ready \<Rightarrow>
          (case calls s of
             [] \<Rightarrow> None
           | (request, payload) # rest \<Rightarrow>
               let encoded = encode_request request in
               if length (area s) < length encoded + length payload
               then Some (s\<lparr> calls := rest, returned := returned s @ [Inl (too_big (length (area s)))] \<rparr>)
               else Some (s\<lparr> engine_at := E_SetRequest encoded payload \<rparr>))
      | E_SetRequest encoded payload \<Rightarrow>
          Some (s\<lparr> area := set_bytes (area s) encoded 0, engine_at := E_SetPayload encoded payload \<rparr>)
      | E_SetPayload encoded payload \<Rightarrow>
          Some (s\<lparr> area := (if payload \<noteq> [] then set_bytes (area s) payload (length encoded) else area s),
                   engine_at := E_StoreRequestLen (length encoded) (length payload) \<rparr>)
      | E_StoreRequestLen n m \<Rightarrow> Some (s\<lparr> ctl_request := store_slot (int n), engine_at := E_StorePayloadLen m \<rparr>)
      | E_StorePayloadLen m \<Rightarrow> Some (s\<lparr> ctl_payload := store_slot (int m), engine_at := E_StoreState \<rparr>)
      | E_StoreState \<Rightarrow> Some (s\<lparr> ctl_state := STATE_REQUEST, engine_at := E_Notify \<rparr>)
      | E_Notify \<Rightarrow>
          Some (s\<lparr> bridge_at := (if bridge_at s = B_Asleep then B_Load else bridge_at s), engine_at := E_Check \<rparr>)
      | E_Check \<Rightarrow> Some (s\<lparr> engine_at := (if ctl_state s \<noteq> STATE_RESPONSE then E_Wait else E_LoadStatus) \<rparr>)
      | E_Wait \<Rightarrow> Some (s\<lparr> engine_at := (if ctl_state s = STATE_REQUEST then E_Asleep else E_Check) \<rparr>)
      | E_Asleep \<Rightarrow> None
      | E_LoadStatus \<Rightarrow> Some (s\<lparr> engine_at := E_LoadResult (load_slot (ctl_status s)) \<rparr>)
      | E_LoadResult status \<Rightarrow> Some (s\<lparr> engine_at := E_LoadLength status (load_slot (ctl_result s)) \<rparr>)
      | E_LoadLength status result \<Rightarrow> Some (s\<lparr> engine_at := E_Slice status result (load_slot (ctl_payload s)) \<rparr>)
      | E_Slice status result n \<Rightarrow>
          Some (s\<lparr> engine_at := E_StoreIdle status result (if 0 < n then take (nat n) (area s) else []) \<rparr>)
      | E_StoreIdle status result answer \<Rightarrow>
          Some (s\<lparr> ctl_state := STATE_IDLE, engine_at := E_Ready, calls := tl (calls s),
                   returned := returned s @ [engine_reply (fst (hd (calls s))) status result answer] \<rparr>))"

text \<open>\<open>wait_async\<close> says whether the platform has \<open>Atomics.waitAsync\<close>; without it the loop polls.\<close>

definition bridge_step ::
  "bool \<Rightarrow> ('c \<Rightarrow> jsval \<Rightarrow> bytes \<Rightarrow> outcome \<times> 'c) \<Rightarrow> 'c bridge_system \<Rightarrow> 'c bridge_system option" where
  "bridge_step wait_async perform s =
     (case bridge_at s of
        B_Load \<Rightarrow> Some (s\<lparr> bridge_at := B_Test (ctl_state s) \<rparr>)
      | B_Test observed \<Rightarrow>
          Some (s\<lparr> bridge_at :=
            (if observed = STATE_REQUEST then B_LoadRequestLen
             else if wait_async \<and> ctl_state s = observed then B_Asleep else B_Poll) \<rparr>)
      | B_Asleep \<Rightarrow> None
      | B_Poll \<Rightarrow> Some (s\<lparr> bridge_at := B_Load \<rparr>)
      | B_LoadRequestLen \<Rightarrow> Some (s\<lparr> bridge_at := B_LoadPayloadLen (load_slot (ctl_request s)) \<rparr>)
      | B_LoadPayloadLen n \<Rightarrow> Some (s\<lparr> bridge_at := B_SliceRequest n (load_slot (ctl_payload s)) \<rparr>)
      | B_SliceRequest n m \<Rightarrow>
          Some (s\<lparr> bridge_at := (case json_parse (utf8_decode (take (nat n) (area s))) of
                      Inl e \<Rightarrow> B_Dead | Inr request \<Rightarrow> B_SlicePayload request n m) \<rparr>)
      | B_SlicePayload request n m \<Rightarrow>
          Some (s\<lparr> bridge_at := B_Perform request (take (nat m) (drop (nat n) (area s))) \<rparr>)
      | B_Perform request payload \<Rightarrow>
          (case perform (ctx s) request payload of (out, c) \<Rightarrow>
           case bridge_answer (length (area s)) out of (status, result, answer) \<Rightarrow>
             Some (s\<lparr> bridge_at := B_SetAnswer status result answer, ctx := c \<rparr>))
      | B_SetAnswer status result answer \<Rightarrow>
          (if length (area s) < length answer then Some (s\<lparr> bridge_at := B_Dead \<rparr>)
           else Some (s\<lparr> area := set_bytes (area s) answer 0, bridge_at := B_StoreStatus status result (length answer) \<rparr>))
      | B_StoreStatus status result n \<Rightarrow> Some (s\<lparr> ctl_status := store_slot status, bridge_at := B_StoreResult result n \<rparr>)
      | B_StoreResult result n \<Rightarrow> Some (s\<lparr> ctl_result := store_slot result, bridge_at := B_StoreLength n \<rparr>)
      | B_StoreLength n \<Rightarrow> Some (s\<lparr> ctl_payload := store_slot (int n), bridge_at := B_StoreState \<rparr>)
      | B_StoreState \<Rightarrow> Some (s\<lparr> ctl_state := STATE_RESPONSE, bridge_at := B_Notify \<rparr>)
      | B_Notify \<Rightarrow>
          Some (s\<lparr> engine_at := (if engine_at s = E_Asleep then E_Check else engine_at s), bridge_at := B_Load \<rparr>)
      | B_Dead \<Rightarrow> None)"

inductive bridge_moves ::
  "bool \<Rightarrow> ('c \<Rightarrow> jsval \<Rightarrow> bytes \<Rightarrow> outcome \<times> 'c) \<Rightarrow> 'c bridge_system \<Rightarrow> 'c bridge_system \<Rightarrow> bool"
  for wait_async perform where
  engine: "engine_step s = Some t \<Longrightarrow> bridge_moves wait_async perform s t"
| bridge: "bridge_step wait_async perform s = Some t \<Longrightarrow> bridge_moves wait_async perform s t"

definition bridge_initial :: "nat \<Rightarrow> 'c \<Rightarrow> (jsval \<times> bytes) list \<Rightarrow> 'c bridge_system" where
  "bridge_initial capacity c cs =
     \<lparr> ctl_state = 0, ctl_request = 0, ctl_payload = 0, ctl_status = 0, ctl_result = 0,
       area = replicate capacity CHR 0x00, engine_at = E_Ready, calls = cs, returned = [], bridge_at = B_Load, ctx = c \<rparr>"

subsection \<open>What the calls mean\<close>

text \<open>The calls one after the other, as if \<open>perform\<close> were called directly.\<close>

fun serial_calls ::
  "('c \<Rightarrow> jsval \<Rightarrow> bytes \<Rightarrow> outcome \<times> 'c) \<Rightarrow> nat \<Rightarrow> 'c \<Rightarrow> (jsval \<times> bytes) list \<Rightarrow> reply list" where
  "serial_calls perform capacity c [] = []"
| "serial_calls perform capacity c ((request, payload) # rest) =
     (if capacity < length (encode_request request) + length payload
      then Inl (too_big capacity) # serial_calls perform capacity c rest
      else case perform c request payload of (out, c') \<Rightarrow>
           case bridge_answer capacity out of (status, result, answer) \<Rightarrow>
             engine_reply request status (load_slot (store_slot result)) answer # serial_calls perform capacity c' rest)"

declare serial_calls.simps [simp del]

text \<open>An area that the code can address and that holds the message about a response that is too long.\<close>

definition bridge_size :: "nat \<Rightarrow> bool" where
  "bridge_size capacity \<longleftrightarrow> capacity < 2 ^ 31 \<and>
     length (utf8_encode (''bridge response exceeds '' @ int_to_string (int capacity) @ '' bytes'')) \<le> capacity"

definition requests_printable :: "(jsval \<times> bytes) list \<Rightarrow> bool" where
  "requests_printable cs = list_all (\<lambda>(request, payload). json_safe request) cs"

subsection \<open>The requests of the host backend\<close>

text \<open>The methods of \<open>createBridgeBackend\<close> that go through \<open>call\<close>: paths are made relative first, which may throw.\<close>

datatype host_op =
    H_open string f64
  | H_close f64
  | H_readAt f64 f64 f64
  | H_writeAt f64 f64 bytes
  | H_truncate f64 f64
  | H_flush f64
  | H_stat string
  | H_mkdir string bool
  | H_unlink string
  | H_rmdir string bool
  | H_rename string string
  | H_readDir string
  | H_readAttrs string
  | H_writeAttrs string bytes

definition path_request :: "string \<Rightarrow> string \<Rightarrow> string \<Rightarrow> record_obj \<Rightarrow> bytes \<Rightarrow> (jsval \<times> bytes) result" where
  "path_request rootPath op path extra payload =
     bind_result (relativeBridgePath path rootPath)
       (\<lambda>rel. Inr (JObj ([(''op'', JStr op), (''path'', JStr rel)] @ extra), payload))"

fun host_request :: "string \<Rightarrow> host_op \<Rightarrow> (jsval \<times> bytes) result" where
  "host_request rootPath (H_open path flags) = path_request rootPath ''open'' path [(''flags'', JNum flags)] []"
| "host_request rootPath (H_close handle) = Inr (JObj [(''op'', JStr ''close''), (''handle'', JNum handle)], [])"
| "host_request rootPath (H_readAt handle offset len) =
     Inr (JObj [(''op'', JStr ''read''), (''handle'', JNum handle), (''offset'', JNum offset), (''length'', JNum len)], [])"
| "host_request rootPath (H_writeAt handle offset from) =
     Inr (JObj [(''op'', JStr ''write''), (''handle'', JNum handle), (''offset'', JNum offset)], from)"
| "host_request rootPath (H_truncate handle len) =
     Inr (JObj [(''op'', JStr ''truncate''), (''handle'', JNum handle), (''length'', JNum len)], [])"
| "host_request rootPath (H_flush handle) = Inr (JObj [(''op'', JStr ''flush''), (''handle'', JNum handle)], [])"
| "host_request rootPath (H_stat path) = path_request rootPath ''stat'' path [] []"
| "host_request rootPath (H_mkdir path rec) = path_request rootPath ''mkdir'' path [(''recursive'', JBool rec)] []"
| "host_request rootPath (H_unlink path) = path_request rootPath ''unlink'' path [] []"
| "host_request rootPath (H_rmdir path rec) = path_request rootPath ''rmdir'' path [(''recursive'', JBool rec)] []"
| "host_request rootPath (H_rename from to) =
     bind_result (relativeBridgePath from rootPath) (\<lambda>f. bind_result (relativeBridgePath to rootPath) (\<lambda>t.
       Inr (JObj [(''op'', JStr ''rename''), (''from'', JStr f), (''to'', JStr t)], [])))"
| "host_request rootPath (H_readDir path) = path_request rootPath ''readDir'' path [] []"
| "host_request rootPath (H_readAttrs path) = path_request rootPath ''readAttrs'' path [] []"
| "host_request rootPath (H_writeAttrs path manifest) = path_request rootPath ''writeAttrs'' path [] manifest"

text \<open>Numbers that JSON carries across: every finite double but minus zero.\<close>

fun host_numbers :: "host_op \<Rightarrow> f64 list" where
  "host_numbers (H_open path flags) = [flags]"
| "host_numbers (H_close handle) = [handle]"
| "host_numbers (H_readAt handle offset len) = [handle, offset, len]"
| "host_numbers (H_writeAt handle offset from) = [handle, offset]"
| "host_numbers (H_truncate handle len) = [handle, len]"
| "host_numbers (H_flush handle) = [handle]"
| "host_numbers _ = []"

lemma host_request_printable:
  assumes "host_request rootPath op = Inr (request, payload)" and "\<forall>x\<in>set (host_numbers op). json_safe_number x"
  shows "json_safe request"
  using assms
  by (cases op) (auto simp: path_request_def canonical_obj_def obj_of_def obj_assign_def obj_put_def obj_insert_def has_own_def
      is_index_key_def is_digit_def elim!: bind_result_InrE)

subsection \<open>Words and bytes\<close>

lemma load_store: "- (2 ^ 31) \<le> k \<Longrightarrow> k < 2 ^ 31 \<Longrightarrow> load_slot (store_slot k) = k"
  by (simp add: sint_sbintrunc' signed_take_bit_int_eq_self)

lemma load_store_nat [simp]: "n < 2 ^ 31 \<Longrightarrow> load_slot (store_slot (int n)) = int n"
  by (rule load_store) auto

lemma load_store_length [simp]: "n < 2147483648 \<Longrightarrow> load_slot (word_of_nat n :: slot) = int n"
  using load_store_nat [of n] by simp

lemma load_store_status: "bridge_answer capacity out = (status, result, answer) \<Longrightarrow> load_slot (store_slot status) = status"
  by (rule load_store) (auto simp: bridge_answer_def split: prod.splits sum.splits if_splits)

lemma bridge_answer_length: "bridge_size capacity \<Longrightarrow> bridge_answer capacity out = (status, result, answer) \<Longrightarrow> length answer \<le> capacity"
  by (auto simp: bridge_answer_def bridge_size_def Let_def split: prod.splits if_splits)

lemma length_set_bytes [simp]: "offset + length source \<le> length a \<Longrightarrow> length (set_bytes a source offset) = length a"
  by (simp add: set_bytes_def)

lemma take_set_bytes [simp]:
  "length source \<le> length a \<Longrightarrow> take (length source) (set_bytes a source 0) = source"
  "n \<le> offset \<Longrightarrow> offset \<le> length a \<Longrightarrow> take n (set_bytes a source offset) = take n a"
  by (simp_all add: set_bytes_def min_def)

lemma drop_set_bytes [simp]:
  "offset + length source \<le> length a \<Longrightarrow> take (length source) (drop offset (set_bytes a source offset)) = source"
  by (simp add: set_bytes_def)

lemma request_reads_back: "json_safe request \<Longrightarrow> json_parse (utf8_decode (encode_request request)) = Inr request"
  by (simp add: encode_request_def json_parse_text)

subsection \<open>The invariant\<close>

text \<open>The control state says who owns the area.  Idle: the engine prepares the next request.  Request: the bridge reads it,
  performs it and prepares the answer.  Response: the engine reads the answer.\<close>

definition framed :: "'c bridge_system \<Rightarrow> bool" where
  "framed s = (case calls s of [] \<Rightarrow> False
     | (request, payload) # rest \<Rightarrow>
         let n = length (encode_request request); m = length payload in
         n + m \<le> length (area s) \<and> take n (area s) = encode_request request \<and> take m (drop n (area s)) = payload)"

definition posted :: "'c bridge_system \<Rightarrow> bool" where
  "posted s \<longleftrightarrow> framed s \<and> ctl_request s = store_slot (int (length (encode_request (fst (hd (calls s)))))) \<and>
     ctl_payload s = store_slot (int (length (snd (hd (calls s)))))"

definition preparing :: "'c bridge_system \<Rightarrow> bool" where
  "preparing s =
     (case engine_at s of
        E_Ready \<Rightarrow> True
      | E_SetRequest e p \<Rightarrow> (\<exists>request rest. calls s = (request, p) # rest \<and> e = encode_request request \<and> length e + length p \<le> length (area s))
      | E_SetPayload e p \<Rightarrow> (\<exists>request rest. calls s = (request, p) # rest \<and> e = encode_request request \<and> length e + length p \<le> length (area s)
          \<and> take (length e) (area s) = e)
      | E_StoreRequestLen n m \<Rightarrow> framed s \<and> n = length (encode_request (fst (hd (calls s)))) \<and> m = length (snd (hd (calls s)))
      | E_StorePayloadLen m \<Rightarrow> framed s \<and> ctl_request s = store_slot (int (length (encode_request (fst (hd (calls s)))))) \<and> m = length (snd (hd (calls s)))
      | E_StoreState \<Rightarrow> posted s
      | _ \<Rightarrow> False)"

definition waiting_for_bridge :: "engine_pc \<Rightarrow> bool" where
  "waiting_for_bridge pc \<longleftrightarrow> pc \<in> {E_Notify, E_Check, E_Wait, E_Asleep}"

definition idling :: "bridge_pc \<Rightarrow> bool" where
  "idling pc = (case pc of B_Load \<Rightarrow> True | B_Asleep \<Rightarrow> True | B_Poll \<Rightarrow> True | B_Notify \<Rightarrow> True
     | B_Test observed \<Rightarrow> observed \<noteq> STATE_REQUEST | _ \<Rightarrow> False)"

text \<open>\<open>answered_with wanted s status result answer\<close>: the reply read off these values is the next one.\<close>

definition answered_with ::
  "('c \<Rightarrow> (jsval \<times> bytes) list \<Rightarrow> reply list) \<Rightarrow> reply list \<Rightarrow> 'c bridge_system \<Rightarrow> int \<Rightarrow> int \<Rightarrow> bytes \<Rightarrow> bool" where
  "answered_with serial wanted s status result answer \<longleftrightarrow> calls s \<noteq> [] \<and>
     returned s @ engine_reply (fst (hd (calls s))) status result answer # serial (ctx s) (tl (calls s)) = wanted"

definition serving ::
  "('c \<Rightarrow> (jsval \<times> bytes) list \<Rightarrow> reply list) \<Rightarrow> reply list \<Rightarrow> 'c bridge_system \<Rightarrow> bool" where
  "serving serial wanted s =
     (let pending = (returned s @ serial (ctx s) (calls s) = wanted);
          n = int (length (encode_request (fst (hd (calls s))))); m = int (length (snd (hd (calls s)))) in
      case bridge_at s of
        B_Load \<Rightarrow> posted s \<and> pending
      | B_Test observed \<Rightarrow> posted s \<and> pending
      | B_Asleep \<Rightarrow> posted s \<and> pending \<and> engine_at s = E_Notify
      | B_Poll \<Rightarrow> posted s \<and> pending
      | B_Notify \<Rightarrow> posted s \<and> pending
      | B_LoadRequestLen \<Rightarrow> posted s \<and> pending
      | B_LoadPayloadLen a \<Rightarrow> posted s \<and> pending \<and> a = n
      | B_SliceRequest a b \<Rightarrow> posted s \<and> pending \<and> a = n \<and> b = m
      | B_SlicePayload request a b \<Rightarrow> posted s \<and> pending \<and> a = n \<and> b = m \<and> request = fst (hd (calls s))
      | B_Perform request payload \<Rightarrow> posted s \<and> pending \<and> hd (calls s) = (request, payload)
      | B_SetAnswer status result answer \<Rightarrow> length answer \<le> length (area s) \<and> load_slot (store_slot status) = status \<and>
          answered_with serial wanted s status (load_slot (store_slot result)) answer
      | B_StoreStatus status result k \<Rightarrow> k \<le> length (area s) \<and> load_slot (store_slot status) = status \<and>
          answered_with serial wanted s status (load_slot (store_slot result)) (take k (area s))
      | B_StoreResult result k \<Rightarrow> k \<le> length (area s) \<and>
          answered_with serial wanted s (load_slot (ctl_status s)) (load_slot (store_slot result)) (take k (area s))
      | B_StoreLength k \<Rightarrow> k \<le> length (area s) \<and>
          answered_with serial wanted s (load_slot (ctl_status s)) (load_slot (ctl_result s)) (take k (area s))
      | B_StoreState \<Rightarrow>
          answered_with serial wanted s (load_slot (ctl_status s)) (load_slot (ctl_result s)) (take (nat (load_slot (ctl_payload s))) (area s))
      | B_Dead \<Rightarrow> False)"

definition reading ::
  "('c \<Rightarrow> (jsval \<times> bytes) list \<Rightarrow> reply list) \<Rightarrow> reply list \<Rightarrow> 'c bridge_system \<Rightarrow> bool" where
  "reading serial wanted s =
     (let done_with = answered_with serial wanted s; status = load_slot (ctl_status s); result = load_slot (ctl_result s);
          answer = take (nat (load_slot (ctl_payload s))) (area s) in
      case engine_at s of
        E_Notify \<Rightarrow> done_with status result answer
      | E_Check \<Rightarrow> done_with status result answer
      | E_Wait \<Rightarrow> done_with status result answer
      | E_Asleep \<Rightarrow> done_with status result answer \<and> bridge_at s = B_Notify
      | E_LoadStatus \<Rightarrow> done_with status result answer
      | E_LoadResult st \<Rightarrow> done_with st result answer
      | E_LoadLength st r \<Rightarrow> done_with st r answer
      | E_Slice st r k \<Rightarrow> done_with st r (take (nat k) (area s))
      | E_StoreIdle st r b \<Rightarrow> done_with st r b
      | _ \<Rightarrow> False)"

definition bridge_invariant ::
  "('c \<Rightarrow> (jsval \<times> bytes) list \<Rightarrow> reply list) \<Rightarrow> reply list \<Rightarrow> nat \<Rightarrow> 'c bridge_system \<Rightarrow> bool" where
  "bridge_invariant serial wanted capacity s \<longleftrightarrow>
     length (area s) = capacity \<and> requests_printable (calls s) \<and>
     (ctl_state s = STATE_IDLE \<and> preparing s \<and> idling (bridge_at s) \<and> returned s @ serial (ctx s) (calls s) = wanted \<or>
      ctl_state s = STATE_REQUEST \<and> waiting_for_bridge (engine_at s) \<and> serving serial wanted s \<or>
      ctl_state s = STATE_RESPONSE \<and> idling (bridge_at s) \<and> reading serial wanted s)"

text \<open>What the fields that a step does not touch keep.\<close>

lemma framed_frame [simp]:
  "framed (s\<lparr> bridge_at := b \<rparr>) = framed s" "framed (s\<lparr> engine_at := e \<rparr>) = framed s"
  "framed (s\<lparr> ctl_request := w \<rparr>) = framed s" "framed (s\<lparr> ctl_payload := w \<rparr>) = framed s" "framed (s\<lparr> ctl_state := w \<rparr>) = framed s"
  by (simp_all add: framed_def split: list.splits)

lemma posted_frame [simp]:
  "posted (s\<lparr> bridge_at := b \<rparr>) = posted s" "posted (s\<lparr> engine_at := e \<rparr>) = posted s" "posted (s\<lparr> ctl_state := w \<rparr>) = posted s"
  by (simp_all add: posted_def)

lemma preparing_frame [simp]: "preparing (s\<lparr> bridge_at := b \<rparr>) = preparing s"
  by (simp add: preparing_def split: engine_pc.splits)

lemma answered_frame [simp]:
  "answered_with f r (s\<lparr> bridge_at := b \<rparr>) = answered_with f r s" "answered_with f r (s\<lparr> engine_at := e \<rparr>) = answered_with f r s"
  "answered_with f r (s\<lparr> area := d \<rparr>) = answered_with f r s" "answered_with f r (s\<lparr> ctl_status := w \<rparr>) = answered_with f r s"
  "answered_with f r (s\<lparr> ctl_result := w \<rparr>) = answered_with f r s" "answered_with f r (s\<lparr> ctl_payload := w \<rparr>) = answered_with f r s"
  "answered_with f r (s\<lparr> ctl_state := w \<rparr>) = answered_with f r s"
  by (simp_all add: answered_with_def fun_eq_iff)

lemma serving_frame [simp]: "waiting_for_bridge e \<Longrightarrow> bridge_at s \<noteq> B_Asleep \<Longrightarrow> serving f r (s\<lparr> engine_at := e \<rparr>) = serving f r s"
  by (simp add: serving_def Let_def split: bridge_pc.splits)

lemma reading_frame [simp]: "engine_at s \<noteq> E_Asleep \<Longrightarrow> reading f r (s\<lparr> bridge_at := b \<rparr>) = reading f r s"
  by (simp add: reading_def Let_def split: engine_pc.splits)

lemma reading_awake: "reading f r s \<Longrightarrow> bridge_at s \<noteq> B_Notify \<Longrightarrow> engine_at s \<noteq> E_Asleep"
  by (auto simp: reading_def)

text \<open>The three phases, told apart by where a side stands.\<close>

lemma engine_preparing:
  assumes "bridge_invariant f r n s" and "\<not> waiting_for_bridge (engine_at s)" and "\<not> reading f r s"
  shows "ctl_state s = STATE_IDLE \<and> preparing s \<and> idling (bridge_at s) \<and> returned s @ f (ctx s) (calls s) = r \<and>
    length (area s) = n \<and> requests_printable (calls s)"
  using assms by (auto simp: bridge_invariant_def)

lemma engine_reading:
  assumes "bridge_invariant f r n s" and "\<not> waiting_for_bridge (engine_at s)" and "\<not> preparing s"
  shows "ctl_state s = STATE_RESPONSE \<and> reading f r s \<and> idling (bridge_at s) \<and> length (area s) = n \<and> requests_printable (calls s)"
  using assms by (auto simp: bridge_invariant_def)

lemma bridge_serving:
  assumes "bridge_invariant f r n s" and "\<not> idling (bridge_at s)"
  shows "ctl_state s = STATE_REQUEST \<and> waiting_for_bridge (engine_at s) \<and> serving f r s \<and> length (area s) = n \<and> requests_printable (calls s)"
  using assms by (auto simp: bridge_invariant_def)

lemmas invariant_defs = bridge_invariant_def preparing_def framed_def posted_def waiting_for_bridge_def idling_def
  serving_def reading_def answered_with_def requests_printable_def

lemma invariant_initial:
  assumes "requests_printable cs"
  shows "bridge_invariant serial (serial c cs) capacity (bridge_initial capacity c cs)"
  using assms by (simp add: bridge_invariant_def bridge_initial_def preparing_def idling_def STATE_IDLE_def)

lemma invariant_engine:
  assumes inv: "bridge_invariant (serial_calls perform capacity) wanted capacity s" and capacity: "bridge_size capacity"
    and step: "engine_step s = Some t"
  shows "bridge_invariant (serial_calls perform capacity) wanted capacity t"
proof (cases "engine_at s")
  case E_Ready
  then have idle: "ctl_state s = STATE_IDLE" "idling (bridge_at s)" "returned s @ serial_calls perform capacity (ctx s) (calls s) = wanted"
      "length (area s) = capacity" "requests_printable (calls s)"
    using inv by (auto simp: bridge_invariant_def waiting_for_bridge_def reading_def)
  from step E_Ready obtain request payload rest where c: "calls s = (request, payload) # rest"
    by (auto simp: engine_step_def split: list.splits)
  show ?thesis
  proof (cases "capacity < length (encode_request request) + length payload")
    case True
    with step E_Ready c idle(4) have "t = s\<lparr> calls := rest, returned := returned s @ [Inl (too_big capacity)] \<rparr>"
      by (simp add: engine_step_def)
    with True E_Ready c idle show ?thesis by (simp add: bridge_invariant_def preparing_def requests_printable_def serial_calls.simps)
  next
    case False
    with step E_Ready c idle(4) have "t = s\<lparr> engine_at := E_SetRequest (encode_request request) payload \<rparr>"
      by (simp add: engine_step_def)
    with False c idle show ?thesis by (simp add: bridge_invariant_def preparing_def)
  qed
next
  case (E_SetRequest e p)
  with inv engine_preparing have "ctl_state s = STATE_IDLE \<and> preparing s \<and> idling (bridge_at s) \<and>
      returned s @ serial_calls perform capacity (ctx s) (calls s) = wanted \<and> length (area s) = capacity \<and> requests_printable (calls s)"
    by (fastforce simp: waiting_for_bridge_def reading_def)
  with E_SetRequest step show ?thesis
    by (auto simp: engine_step_def bridge_invariant_def preparing_def)
next
  case (E_SetPayload e p)
  with inv engine_preparing have "ctl_state s = STATE_IDLE \<and> preparing s \<and> idling (bridge_at s) \<and>
      returned s @ serial_calls perform capacity (ctx s) (calls s) = wanted \<and> length (area s) = capacity \<and> requests_printable (calls s)"
    by (fastforce simp: waiting_for_bridge_def reading_def)
  with E_SetPayload step show ?thesis
    by (cases "p = []") (auto simp: engine_step_def bridge_invariant_def preparing_def framed_def Let_def)
next
  case (E_StoreRequestLen n m)
  with inv engine_preparing have "ctl_state s = STATE_IDLE \<and> preparing s \<and> idling (bridge_at s) \<and>
      returned s @ serial_calls perform capacity (ctx s) (calls s) = wanted \<and> length (area s) = capacity \<and> requests_printable (calls s)"
    by (fastforce simp: waiting_for_bridge_def reading_def)
  with E_StoreRequestLen step show ?thesis
    by (auto simp: engine_step_def bridge_invariant_def preparing_def)
next
  case (E_StorePayloadLen m)
  with inv engine_preparing have "ctl_state s = STATE_IDLE \<and> preparing s \<and> idling (bridge_at s) \<and>
      returned s @ serial_calls perform capacity (ctx s) (calls s) = wanted \<and> length (area s) = capacity \<and> requests_printable (calls s)"
    by (fastforce simp: waiting_for_bridge_def reading_def)
  with E_StorePayloadLen step show ?thesis
    by (auto simp: engine_step_def bridge_invariant_def preparing_def posted_def)
next
  case E_StoreState
  with inv engine_preparing have p: "ctl_state s = STATE_IDLE \<and> preparing s \<and> idling (bridge_at s) \<and>
      returned s @ serial_calls perform capacity (ctx s) (calls s) = wanted \<and> length (area s) = capacity \<and> requests_printable (calls s)"
    by (fastforce simp: waiting_for_bridge_def reading_def)
  let ?t = "s\<lparr> ctl_state := STATE_REQUEST, engine_at := E_Notify \<rparr>"
  have "posted ?t" using p E_StoreState by (simp add: preparing_def)
  with p have "serving (serial_calls perform capacity) wanted ?t"
    by (simp add: serving_def idling_def split: bridge_pc.splits)
  with p E_StoreState step show ?thesis
    by (auto simp: engine_step_def bridge_invariant_def waiting_for_bridge_def)
next
  case E_Notify
  then have np: "\<not> preparing s" by (simp add: preparing_def)
  have t: "t = s\<lparr> bridge_at := (if bridge_at s = B_Asleep then B_Load else bridge_at s), engine_at := E_Check \<rparr>"
    using step E_Notify by (simp add: engine_step_def)
  show ?thesis
  proof (cases "bridge_at s = B_Asleep")
    case True
    with inv np t E_Notify show ?thesis
      by (auto simp: bridge_invariant_def waiting_for_bridge_def serving_def idling_def reading_def)
  next
    case False
    with t have t: "t = s\<lparr> engine_at := E_Check \<rparr>" by simp
    from inv np E_Notify False show ?thesis
      unfolding t by (auto simp: bridge_invariant_def waiting_for_bridge_def reading_def)
  qed
next
  case E_Check
  then have np: "\<not> preparing s" by (simp add: preparing_def)
  show ?thesis
  proof (cases "ctl_state s = STATE_RESPONSE")
    case True
    with step E_Check have t: "t = s\<lparr> engine_at := E_LoadStatus \<rparr>" by (simp add: engine_step_def)
    from inv np E_Check True show ?thesis
      unfolding t by (auto simp: bridge_invariant_def waiting_for_bridge_def reading_def)
  next
    case False
    with step E_Check have t: "t = s\<lparr> engine_at := E_Wait \<rparr>" by (simp add: engine_step_def)
    have "bridge_at s \<noteq> B_Asleep" using inv np E_Check False by (auto simp: bridge_invariant_def serving_def)
    with inv np E_Check False show ?thesis
      unfolding t by (auto simp: bridge_invariant_def waiting_for_bridge_def)
  qed
next
  case E_Wait
  then have np: "\<not> preparing s" by (simp add: preparing_def)
  show ?thesis
  proof (cases "ctl_state s = STATE_REQUEST")
    case True
    with step E_Wait have t: "t = s\<lparr> engine_at := E_Asleep \<rparr>" by (simp add: engine_step_def)
    have "bridge_at s \<noteq> B_Asleep" using inv np E_Wait True by (auto simp: bridge_invariant_def serving_def)
    with inv np E_Wait True show ?thesis
      unfolding t by (auto simp: bridge_invariant_def waiting_for_bridge_def)
  next
    case False
    with step E_Wait have t: "t = s\<lparr> engine_at := E_Check \<rparr>" by (simp add: engine_step_def)
    from inv np E_Wait False show ?thesis
      unfolding t by (auto simp: bridge_invariant_def waiting_for_bridge_def reading_def)
  qed
next
  case E_Asleep
  with step show ?thesis by (simp add: engine_step_def)
next
  case E_LoadStatus
  with engine_reading [OF inv] step show ?thesis
    by (auto simp: engine_step_def bridge_invariant_def waiting_for_bridge_def preparing_def reading_def Let_def)
next
  case (E_LoadResult st)
  with engine_reading [OF inv] step show ?thesis
    by (auto simp: engine_step_def bridge_invariant_def waiting_for_bridge_def preparing_def reading_def Let_def)
next
  case (E_LoadLength st r)
  with engine_reading [OF inv] step show ?thesis
    by (auto simp: engine_step_def bridge_invariant_def waiting_for_bridge_def preparing_def reading_def Let_def)
next
  case (E_Slice st r n)
  have "(if 0 < n then take (nat n) (area s) else []) = take (nat n) (area s)" by simp
  with E_Slice engine_reading [OF inv] step show ?thesis
    by (auto simp: engine_step_def bridge_invariant_def waiting_for_bridge_def preparing_def reading_def Let_def
        simp del: if_split)
next
  case (E_StoreIdle st r b)
  with engine_reading [OF inv] have r: "idling (bridge_at s)" "answered_with (serial_calls perform capacity) wanted s st r b"
      "length (area s) = capacity" "requests_printable (calls s)"
    by (auto simp: waiting_for_bridge_def preparing_def reading_def)
  with E_StoreIdle step show ?thesis
    by (auto simp: engine_step_def bridge_invariant_def preparing_def answered_with_def requests_printable_def neq_Nil_conv)
qed

lemma posted_bounds:
  assumes "bridge_size (length (area s))" and "posted s"
  shows "load_slot (ctl_request s) = int (length (encode_request (fst (hd (calls s)))))"
    "load_slot (ctl_payload s) = int (length (snd (hd (calls s))))"
  using assms by (auto simp: posted_def framed_def bridge_size_def Let_def split: list.splits prod.splits)

lemma posted_request:
  assumes "posted s" and "requests_printable (calls s)"
  shows "json_parse (utf8_decode (take (length (encode_request (fst (hd (calls s))))) (area s))) = Inr (fst (hd (calls s)))"
    "take (length (snd (hd (calls s)))) (drop (length (encode_request (fst (hd (calls s))))) (area s)) = snd (hd (calls s))"
  using assms by (auto simp: posted_def framed_def requests_printable_def request_reads_back Let_def split: list.splits prod.splits)

lemma invariant_bridge:
  assumes inv: "bridge_invariant (serial_calls perform capacity) wanted capacity s" and capacity: "bridge_size capacity"
    and step: "bridge_step wait_async perform s = Some t"
  shows "bridge_invariant (serial_calls perform capacity) wanted capacity t"
proof (cases "bridge_at s")
  case B_Load
  with inv step reading_awake [of "serial_calls perform capacity" wanted s] show ?thesis
    by (auto simp: bridge_step_def bridge_invariant_def idling_def serving_def Let_def)
next
  case (B_Test obs)
  let ?next = "if obs = STATE_REQUEST then B_LoadRequestLen else if wait_async \<and> ctl_state s = obs then B_Asleep else B_Poll"
  have t: "t = s\<lparr> bridge_at := ?next \<rparr>" using step B_Test by (simp add: bridge_step_def)
  note awake = reading_awake [of "serial_calls perform capacity" wanted s]
  consider "obs = STATE_REQUEST" "ctl_state s = STATE_REQUEST" | "obs \<noteq> STATE_REQUEST" "ctl_state s = STATE_REQUEST"
    | "obs \<noteq> STATE_REQUEST" "ctl_state s \<noteq> STATE_REQUEST"
    using inv B_Test by (auto simp: bridge_invariant_def idling_def)
  then show ?thesis
  proof cases
    case 1
    with t B_Test inv show ?thesis by (simp add: bridge_invariant_def idling_def serving_def)
  next
    case 2
    with t B_Test inv show ?thesis by (simp add: bridge_invariant_def idling_def serving_def)
  next
    case 3
    with t B_Test inv awake show ?thesis by (auto simp: bridge_invariant_def idling_def)
  qed
next
  case B_Asleep
  with step show ?thesis by (simp add: bridge_step_def)
next
  case B_Poll
  with inv step reading_awake [of "serial_calls perform capacity" wanted s] show ?thesis
    by (auto simp: bridge_step_def bridge_invariant_def idling_def serving_def Let_def)
next
  case B_LoadRequestLen
  with bridge_serving [OF inv] step posted_bounds [of s] capacity show ?thesis
    by (auto simp: bridge_step_def bridge_invariant_def idling_def serving_def Let_def)
next
  case (B_LoadPayloadLen n)
  with bridge_serving [OF inv] step posted_bounds [of s] capacity show ?thesis
    by (auto simp: bridge_step_def bridge_invariant_def idling_def serving_def Let_def)
next
  case (B_SliceRequest n m)
  with bridge_serving [OF inv] step show ?thesis
    using posted_request [of s]
    by (auto simp: bridge_step_def bridge_invariant_def idling_def serving_def Let_def)
next
  case (B_SlicePayload request n m)
  with bridge_serving [OF inv] step show ?thesis
    using posted_request [of s]
    by (auto simp: bridge_step_def bridge_invariant_def idling_def serving_def Let_def prod_eq_iff)
next
  case (B_Perform request payload)
  with inv have ready: "ctl_state s = STATE_REQUEST" "waiting_for_bridge (engine_at s)" "posted s"
      "returned s @ serial_calls perform capacity (ctx s) (calls s) = wanted" "hd (calls s) = (request, payload)"
      "length (area s) = capacity" "requests_printable (calls s)"
    by (auto simp: bridge_invariant_def idling_def serving_def)
  then obtain rest where c: "calls s = (request, payload) # rest"
    by (cases "calls s") (auto simp: posted_def framed_def)
  obtain out c' where p: "perform (ctx s) request payload = (out, c')" by fastforce
  obtain status result answer where a: "bridge_answer capacity out = (status, result, answer)" by (metis prod_cases3)
  have fits: "\<not> capacity < length (encode_request request) + length payload"
    using ready(3,6) c by (simp add: posted_def framed_def Let_def)
  have "t = s\<lparr> bridge_at := B_SetAnswer status result answer, ctx := c' \<rparr>"
    using step B_Perform p a ready(6) by (simp add: bridge_step_def)
  with ready c p a fits bridge_answer_length [OF capacity a] load_store_status [OF a] show ?thesis
    by (simp add: bridge_invariant_def serving_def answered_with_def serial_calls.simps)
next
  case (B_SetAnswer status result answer)
  with bridge_serving [OF inv] step show ?thesis
    by (auto simp: bridge_step_def bridge_invariant_def idling_def serving_def Let_def)
next
  case (B_StoreStatus status result n)
  with bridge_serving [OF inv] step show ?thesis
    by (auto simp: bridge_step_def bridge_invariant_def idling_def serving_def Let_def)
next
  case (B_StoreResult result n)
  with bridge_serving [OF inv] step show ?thesis
    by (auto simp: bridge_step_def bridge_invariant_def idling_def serving_def Let_def)
next
  case (B_StoreLength n)
  with bridge_serving [OF inv] step capacity show ?thesis
    by (auto simp: bridge_step_def bridge_invariant_def bridge_size_def idling_def serving_def Let_def)
next
  case B_StoreState
  with bridge_serving [OF inv] step show ?thesis
    by (auto simp: bridge_step_def bridge_invariant_def idling_def serving_def reading_def waiting_for_bridge_def Let_def)
next
  case B_Notify
  have t: "t = s\<lparr> engine_at := (if engine_at s = E_Asleep then E_Check else engine_at s), bridge_at := B_Load \<rparr>"
    using step B_Notify by (simp add: bridge_step_def)
  show ?thesis
  proof (cases "engine_at s = E_Asleep")
    case True
    then have "\<not> preparing s" by (simp add: preparing_def)
    with True t B_Notify inv show ?thesis
      by (auto simp: bridge_invariant_def idling_def serving_def waiting_for_bridge_def reading_def)
  next
    case False
    then have "t = s\<lparr> bridge_at := B_Load \<rparr>" using t by simp
    with False B_Notify inv show ?thesis by (auto simp: bridge_invariant_def idling_def serving_def)
  qed
next
  case B_Dead
  with step show ?thesis by (simp add: bridge_step_def)
qed


lemma invariant_run:
  assumes "(bridge_moves wait_async perform ^^ n) (bridge_initial capacity c cs) s"
    and "bridge_size capacity" and "requests_printable cs"
  shows "bridge_invariant (serial_calls perform capacity) (serial_calls perform capacity c cs) capacity s"
  using assms(1)
proof (induction n arbitrary: s)
  case 0
  then show ?case using invariant_initial [OF assms(3)] by auto
next
  case (Suc n)
  then obtain t where "bridge_invariant (serial_calls perform capacity) (serial_calls perform capacity c cs) capacity t"
    "bridge_moves wait_async perform t s" by auto
  then show ?case
    by (auto elim!: bridge_moves.cases intro: invariant_engine [OF _ assms(2)] invariant_bridge [OF _ assms(2)])
qed

text \<open>What has been returned is always an initial part of what the calls mean.\<close>

lemma serving_progress:
  assumes "serving f wanted s"
  shows "returned s @ f (ctx s) (calls s) = wanted \<or> (\<exists>status result answer. answered_with f wanted s status result answer)"
  using assms by (cases "bridge_at s") (auto simp: serving_def)

lemma reading_progress: "reading f wanted s \<Longrightarrow> \<exists>status result answer. answered_with f wanted s status result answer"
  by (cases "engine_at s") (auto simp: reading_def)

lemma returned_prefix:
  assumes "bridge_invariant f wanted capacity s"
  shows "prefix (returned s) wanted"
proof -
  have "returned s @ f (ctx s) (calls s) = wanted \<or> (\<exists>status result answer. answered_with f wanted s status result answer)"
    using assms serving_progress [of f wanted s] reading_progress [of f wanted s] by (auto simp: bridge_invariant_def)
  then show ?thesis by (auto simp: answered_with_def)
qed

text \<open>A side that cannot move is asleep or done, and both asleep are impossible while a call is in flight.\<close>

lemma stuck_done:
  assumes inv: "bridge_invariant f wanted capacity s" and "engine_step s = None" and "bridge_step wait_async perform s = None"
  shows "calls s = [] \<and> engine_at s = E_Ready \<and> bridge_at s = B_Asleep"
proof -
  have b: "bridge_at s = B_Asleep \<or> bridge_at s = B_Dead"
    using assms(3) by (auto simp: bridge_step_def split: bridge_pc.splits prod.splits if_splits)
  have e: "engine_at s = E_Asleep \<or> engine_at s = E_Ready \<and> calls s = []"
    using assms(2) by (auto simp: engine_step_def Let_def split: engine_pc.splits list.splits if_splits prod.splits)
  from inv b e show ?thesis
    by (auto simp: bridge_invariant_def serving_def idling_def reading_def preparing_def waiting_for_bridge_def)
qed


subsection \<open>Progress\<close>

text \<open>
  With \<open>Atomics.waitAsync\<close> every step of either side brings the calls closer to their end.  A call passes three phases; within
  a phase each side has at most twenty steps of work left, and a notification, which wakes the other side, weighs more
  than what the woken side then does.
\<close>

definition phase_work :: "slot \<Rightarrow> nat" where
  "phase_work st = (if st = STATE_IDLE then 100 else if st = STATE_REQUEST then 50 else 0)"

definition engine_work :: "slot \<Rightarrow> engine_pc \<Rightarrow> nat" where
  "engine_work st pc =
     (case pc of E_Ready \<Rightarrow> 8 | E_SetRequest _ _ \<Rightarrow> 7 | E_SetPayload _ _ \<Rightarrow> 6 | E_StoreRequestLen _ _ \<Rightarrow> 5 | E_StorePayloadLen _ \<Rightarrow> 4
      | E_StoreState \<Rightarrow> 3 | E_Notify \<Rightarrow> 20 | E_Check \<Rightarrow> if st = STATE_REQUEST then 2 else 6 | E_Wait \<Rightarrow> if st = STATE_REQUEST then 1 else 7
      | E_Asleep \<Rightarrow> 0 | E_LoadStatus \<Rightarrow> 5 | E_LoadResult _ \<Rightarrow> 4 | E_LoadLength _ _ \<Rightarrow> 3 | E_Slice _ _ _ \<Rightarrow> 2 | E_StoreIdle _ _ _ \<Rightarrow> 1)"

definition bridge_work :: "slot \<Rightarrow> bridge_pc \<Rightarrow> nat" where
  "bridge_work st pc =
     (case pc of B_Asleep \<Rightarrow> 0 | B_Dead \<Rightarrow> 0
      | B_Load \<Rightarrow> if st = STATE_REQUEST then 12 else 2
      | B_Poll \<Rightarrow> if st = STATE_REQUEST then 13 else 3
      | B_Test observed \<Rightarrow> if st = STATE_REQUEST then (if observed = STATE_REQUEST then 11 else 14) else (if observed = st then 1 else 4)
      | B_Notify \<Rightarrow> if st = STATE_REQUEST then 20 else 9
      | B_LoadRequestLen \<Rightarrow> 10 | B_LoadPayloadLen _ \<Rightarrow> 9 | B_SliceRequest _ _ \<Rightarrow> 8 | B_SlicePayload _ _ _ \<Rightarrow> 7 | B_Perform _ _ \<Rightarrow> 6
      | B_SetAnswer _ _ _ \<Rightarrow> 5 | B_StoreStatus _ _ _ \<Rightarrow> 4 | B_StoreResult _ _ \<Rightarrow> 3 | B_StoreLength _ \<Rightarrow> 2 | B_StoreState \<Rightarrow> 1)"

definition bridge_measure :: "'c bridge_system \<Rightarrow> nat" where
  "bridge_measure s = 150 * length (calls s) + phase_work (ctl_state s) + engine_work (ctl_state s) (engine_at s) +
     bridge_work (ctl_state s) (bridge_at s)"

lemmas work_defs = bridge_measure_def phase_work_def engine_work_def

lemma bridge_work_simps [simp]:
  "bridge_work st B_Asleep = 0" "bridge_work st B_Dead = 0" "bridge_work st B_Load = (if st = STATE_REQUEST then 12 else 2)"
  "bridge_work st B_Poll = (if st = STATE_REQUEST then 13 else 3)"
  "bridge_work st (B_Test w) = (if st = STATE_REQUEST then (if w = STATE_REQUEST then 11 else 14) else (if w = st then 1 else 4))"
  "bridge_work st B_Notify = (if st = STATE_REQUEST then 20 else 9)" "bridge_work st B_LoadRequestLen = 10"
  "bridge_work st (B_LoadPayloadLen i) = 9" "bridge_work st (B_SliceRequest i j) = 8" "bridge_work st (B_SlicePayload q i j) = 7"
  "bridge_work st (B_Perform q p) = 6" "bridge_work st (B_SetAnswer i j p) = 5" "bridge_work st (B_StoreStatus i j k) = 4"
  "bridge_work st (B_StoreResult j k) = 3" "bridge_work st (B_StoreLength k) = 2" "bridge_work st B_StoreState = 1"
  by (simp_all add: bridge_work_def)

lemma work_bounds: "engine_work st e \<le> 20" "bridge_work st b \<le> 20"
  by (cases e, simp_all add: engine_work_def) (cases b, simp_all)

lemma engine_step_measure:
  assumes inv: "bridge_invariant f wanted capacity s" and step: "engine_step s = Some t"
  shows "bridge_measure t < bridge_measure s"
proof (cases "engine_at s")
  case E_Ready
  with step show ?thesis
    by (auto simp: engine_step_def work_defs Let_def split: list.splits if_splits)
next
  case E_StoreState
  with engine_preparing [OF inv] have "ctl_state s = STATE_IDLE" by (simp add: waiting_for_bridge_def reading_def)
  with E_StoreState step work_bounds(2) [of STATE_REQUEST "bridge_at s"] show ?thesis
    by (auto simp: engine_step_def work_defs)
next
  case E_Notify
  with step show ?thesis by (auto simp: engine_step_def work_defs)
next
  case E_Check
  then have "ctl_state s \<noteq> STATE_IDLE" using inv by (auto simp: bridge_invariant_def preparing_def)
  moreover have "ctl_state s \<in> {STATE_IDLE, STATE_REQUEST, STATE_RESPONSE}" using inv by (auto simp: bridge_invariant_def)
  ultimately show ?thesis using E_Check step by (auto simp: engine_step_def work_defs)
next
  case E_Wait
  with step show ?thesis by (auto simp: engine_step_def work_defs)
next
  case (E_StoreIdle st r b)
  with engine_reading [OF inv] have r: "ctl_state s = STATE_RESPONSE" "calls s \<noteq> []" "idling (bridge_at s)"
    by (auto simp: waiting_for_bridge_def preparing_def reading_def answered_with_def)
  then obtain c cs where "calls s = c # cs" by (cases "calls s") auto
  with r E_StoreIdle step work_bounds(2) [of STATE_IDLE "bridge_at s"] show ?thesis
    by (auto simp: engine_step_def work_defs)
qed (use step in \<open>auto simp: engine_step_def work_defs\<close>)

lemma bridge_step_measure:
  assumes inv: "bridge_invariant f wanted capacity s" and step: "bridge_step True perform s = Some t"
  shows "bridge_measure t < bridge_measure s"
proof (cases "bridge_at s")
  case (B_Test obs)
  then have "ctl_state s \<noteq> STATE_REQUEST \<Longrightarrow> obs \<noteq> STATE_REQUEST" using inv by (auto simp: bridge_invariant_def idling_def)
  with B_Test step show ?thesis by (auto simp: bridge_step_def bridge_measure_def)
next
  case B_StoreState
  with bridge_serving [OF inv] have "ctl_state s = STATE_REQUEST" "waiting_for_bridge (engine_at s)" by (simp_all add: idling_def)
  with B_StoreState step work_bounds(1) [of STATE_RESPONSE "engine_at s"] show ?thesis
    by (auto simp: bridge_step_def bridge_measure_def phase_work_def)
next
  case B_Notify
  with step show ?thesis by (auto simp: bridge_step_def bridge_measure_def engine_work_def)
next
  case (B_Perform request payload)
  with step show ?thesis by (auto simp: bridge_step_def bridge_measure_def split: prod.splits)
next
  case (B_SliceRequest n m)
  with step show ?thesis by (auto simp: bridge_step_def bridge_measure_def split: sum.splits)
next
  case (B_SetAnswer st r b)
  with step show ?thesis by (auto simp: bridge_step_def bridge_measure_def split: if_splits)
qed (use step in \<open>auto simp: bridge_step_def bridge_measure_def\<close>)

lemma run_measure:
  assumes "(bridge_moves True perform ^^ n) (bridge_initial capacity c cs) s"
    and "bridge_size capacity" and "requests_printable cs"
  shows "n + bridge_measure s \<le> bridge_measure (bridge_initial capacity c cs)"
  using assms(1)
proof (induction n arbitrary: s)
  case (Suc n)
  then obtain t where t: "(bridge_moves True perform ^^ n) (bridge_initial capacity c cs) t" "bridge_moves True perform t s" by auto
  from invariant_run [OF t(1) assms(2,3)] t(2) have "bridge_measure s < bridge_measure t"
    by (auto elim!: bridge_moves.cases intro: engine_step_measure bridge_step_measure)
  with Suc.IH [OF t(1)] show ?case by simp
qed simp

subsection \<open>Properties\<close>

text \<open>A run on a small area: one call that succeeds, one that does not fit.\<close>

definition echo_perform :: "nat \<Rightarrow> jsval \<Rightarrow> bytes \<Rightarrow> outcome \<times> nat" where
  "echo_perform n request payload = (Inr (Some (int n), Some payload), Suc n)"

definition echo_calls :: "(jsval \<times> bytes) list" where
  "echo_calls = [(JStr ''noop'', ''p''), (JNull, replicate 60 CHR ''x'')]"

lemma echo_lawful: "bridge_size 60" "requests_printable echo_calls"
proof -
  have "int_to_string 60 = ''60''" by code_simp
  moreover have "length (utf8_encode ''bridge response exceeds 60 bytes'') = 32" by code_simp
  ultimately show "bridge_size 60" by (simp add: bridge_size_def)
qed (simp add: requests_printable_def echo_calls_def)

text \<open>C32. The bridge is transparent: under every interleaving of the two sides, with or without \<open>Atomics.waitAsync\<close>, the
  replies the engine has got are, in order, those of performing the calls one after the other, an answer that
  does not fit and a request that does not fit included, and the bridge never dies.  As long as a call is in
  flight one of the sides can move, so no wake-up is lost.\<close>

theorem bridge_transparent:
  assumes "bridge_size capacity" and "requests_printable cs"
    and "(bridge_moves wait_async perform ^^ n) (bridge_initial capacity c cs) s"
  shows "prefix (returned s) (serial_calls perform capacity c cs) \<and> bridge_at s \<noteq> B_Dead \<and>
    (engine_at s = E_Ready \<and> calls s = [] \<longrightarrow> returned s = serial_calls perform capacity c cs) \<and>
    (calls s \<noteq> [] \<longrightarrow> (\<exists>t. bridge_moves wait_async perform s t))"
proof -
  note inv = invariant_run [OF assms(3,1,2)]
  have "bridge_at s \<noteq> B_Dead" using inv by (auto simp: bridge_invariant_def idling_def serving_def)
  moreover have "returned s = serial_calls perform capacity c cs" if "engine_at s = E_Ready" "calls s = []"
    using engine_preparing [OF inv] that by (simp add: waiting_for_bridge_def reading_def serial_calls.simps)
  moreover have "\<exists>t. bridge_moves wait_async perform s t" if "calls s \<noteq> []"
    using stuck_done [OF inv] that by (metis bridge_moves.intros not_Some_eq)
  ultimately show ?thesis using returned_prefix [OF inv] by blast
qed

theorem bridge_transparent_witness:
  "\<exists>s. (bridge_moves False echo_perform ^^ 1) (bridge_initial 60 0 echo_calls) s \<and>
     prefix (returned s) (serial_calls echo_perform 60 0 echo_calls) \<and> (\<exists>t. bridge_moves False echo_perform s t)"
proof -
  let ?s = "(bridge_initial 60 0 echo_calls :: nat bridge_system)\<lparr> bridge_at := B_Test 0 \<rparr>"
  have "bridge_moves False echo_perform (bridge_initial 60 0 echo_calls) ?s"
    by (rule bridge_moves.bridge) (simp add: bridge_step_def bridge_initial_def)
  then have run: "(bridge_moves False echo_perform ^^ 1) (bridge_initial 60 0 echo_calls) ?s" by (auto simp: OO_def)
  moreover have "calls ?s \<noteq> []" by (simp add: bridge_initial_def echo_calls_def)
  ultimately show ?thesis using bridge_transparent [OF echo_lawful run] by blast
qed

text \<open>C33. Where the platform has \<open>Atomics.waitAsync\<close> no call hangs and nothing spins: no schedule of the two sides takes more
  than 150 steps for each call and 110 to start, and one that cannot be continued has returned the reply of every call.\<close>

theorem bridge_live:
  assumes "bridge_size capacity" and "requests_printable cs"
    and "(bridge_moves True perform ^^ n) (bridge_initial capacity c cs) s"
  shows "n \<le> 150 * length cs + 110 \<and>
    ((\<exists>t. bridge_moves True perform s t) \<or> returned s = serial_calls perform capacity c cs)"
proof -
  have "bridge_measure (bridge_initial capacity c cs) = 150 * length cs + 110"
    by (simp add: work_defs bridge_initial_def STATE_IDLE_def STATE_REQUEST_def)
  with run_measure [OF assms(3,1,2)] have "n \<le> 150 * length cs + 110" by simp
  moreover have "returned s = serial_calls perform capacity c cs" if "\<nexists>t. bridge_moves True perform s t"
  proof -
    note inv = invariant_run [OF assms(3,1,2)]
    have "engine_step s = None" "bridge_step True perform s = None"
      using that by (metis bridge_moves.intros not_Some_eq)+
    from stuck_done [OF inv this] engine_preparing [OF inv] show ?thesis
      by (simp add: waiting_for_bridge_def reading_def serial_calls.simps)
  qed
  ultimately show ?thesis by blast
qed

lemma bounded_run_ends:
  assumes bound: "\<And>n t. (R ^^ n) s t \<Longrightarrow> n \<le> (b :: nat)"
  shows "\<exists>n t. (R ^^ n) s t \<and> (\<nexists>u. R t u)"
proof -
  define m where "m = Greatest (\<lambda>n. \<exists>t. (R ^^ n) s t)"
  have "\<exists>t. (R ^^ 0) s t" by simp
  then have "\<exists>t. (R ^^ m) s t"
    unfolding m_def by (rule GreatestI_nat [where P = "\<lambda>n. \<exists>t. (R ^^ n) s t"]) (use bound in blast)
  then obtain t where t: "(R ^^ m) s t" by blast
  have "\<not> R t u" for u
  proof
    assume "R t u"
    with t have "\<exists>u. (R ^^ Suc m) s u" by auto
    then have "Suc m \<le> m"
      unfolding m_def by (rule Greatest_le_nat [where P = "\<lambda>n. \<exists>t. (R ^^ n) s t"]) (use bound in blast)
    then show False by simp
  qed
  with t show ?thesis by blast
qed

theorem bridge_live_witness:
  "\<exists>n s. (bridge_moves True echo_perform ^^ n) (bridge_initial 60 0 echo_calls) s \<and>
     returned s = serial_calls echo_perform 60 0 echo_calls"
proof -
  let ?R = "bridge_moves True echo_perform" and ?s = "bridge_initial 60 0 echo_calls :: nat bridge_system"
  note live = bridge_live [OF echo_lawful]
  have "\<exists>n t. (?R ^^ n) ?s t \<and> (\<nexists>u. ?R t u)"
    by (rule bounded_run_ends) (erule conjunct1 [OF live])
  then obtain n s where run: "(?R ^^ n) ?s s" "\<nexists>u. ?R s u" by metis
  with live [OF run(1)] have "returned s = serial_calls echo_perform 60 0 echo_calls" by metis
  with run(1) show ?thesis by metis
qed

end
