(* ===== verification/Like.thy ===== *)
theory Like imports Strings begin

section \<open>SQL LIKE matching (src/src/query/like.js)\<close>

text \<open>
  \<open>matchesLike\<close> is the greedy matcher with one backtracking point.  It is translated with its
  four indices; \<open>like_spec\<close> is the meaning of a LIKE pattern, by recursion on the pattern.
  The matcher is sound for the meaning always, and complete on values without a percent sign.
\<close>

subsection \<open>The matcher\<close>

definition char_at :: "string \<Rightarrow> nat \<Rightarrow> char option" where
  "char_at s i = (if i < length s then Some (s ! i) else None)"

text \<open>
  The loop ends: the newest wildcard only moves forward in the pattern, behind it its value
  position moves forward, and between the moves the value index does.  The first measure is
  the relation between the indices that the first wildcard step establishes.
\<close>

definition like_indices_ok :: "nat \<Rightarrow> nat \<Rightarrow> nat option \<Rightarrow> nat \<Rightarrow> bool" where
  "like_indices_ok vi pi wi wvi = (case wi of None \<Rightarrow> True | Some w \<Rightarrow> w < pi \<and> wvi \<le> vi)"

function like_loop :: "bool \<Rightarrow> string \<Rightarrow> string \<Rightarrow> nat \<Rightarrow> nat \<Rightarrow> nat option \<Rightarrow> nat \<Rightarrow> bool" where
  "like_loop single value pattern valueIndex patternIndex wildcardIndex wildcardValueIndex =
     (if valueIndex < length value then
        (let token = char_at pattern patternIndex
         in if single \<and> token = Some CHR ''_'' \<or> token = Some (value ! valueIndex) then
              like_loop single value pattern (Suc valueIndex) (Suc patternIndex)
                wildcardIndex wildcardValueIndex
            else if token = Some CHR ''%'' then
              like_loop single value pattern valueIndex (Suc patternIndex)
                (Some patternIndex) valueIndex
            else case wildcardIndex of
              Some w \<Rightarrow>
                like_loop single value pattern (Suc wildcardValueIndex) (Suc w)
                  wildcardIndex (Suc wildcardValueIndex)
            | None \<Rightarrow> False)
      else dropWhile (\<lambda>c. c = CHR ''%'') (drop patternIndex pattern) = [])"
  by pat_completeness auto

termination
proof (relation "measures [
    \<lambda>(s, v, p, vi, pi, wi, wvi). if like_indices_ok vi pi wi wvi then 0 else 1,
    \<lambda>(s, v, p, vi, pi, wi, wvi). case wi of None \<Rightarrow> length p + 2 | Some w \<Rightarrow> length p + 1 - w,
    \<lambda>(s, v, p, vi, pi, wi, wvi). length v - wvi,
    \<lambda>(s, v, p, vi, pi, wi, wvi). length v - vi]", goal_cases)
qed (auto simp: like_indices_ok_def char_at_def split: option.splits if_splits)

declare like_loop.simps [simp del]

definition matchesLike :: "bool \<Rightarrow> string \<Rightarrow> string \<Rightarrow> bool" where
  "matchesLike singleCharacterWildcard value pattern =
     like_loop singleCharacterWildcard value pattern 0 0 None 0"

subsection \<open>The meaning of a pattern\<close>

fun like_spec :: "bool \<Rightarrow> string \<Rightarrow> string \<Rightarrow> bool" where
  "like_spec single [] v = (v = [])"
| "like_spec single (p # ps) v =
     (if p = CHR ''%'' then list_ex (\<lambda>k. like_spec single ps (drop k v)) [0..<Suc (length v)]
      else case v of [] \<Rightarrow> False
           | c # cs \<Rightarrow> (single \<and> p = CHR ''_'' \<or> p = c) \<and> like_spec single ps cs)"

lemma like_spec_percent:
  "like_spec s (CHR ''%'' # ps) v \<longleftrightarrow> (\<exists>k\<le>length v. like_spec s ps (drop k v))"
  by (auto simp: list_ex_iff Bex_def less_Suc_eq_le simp del: upt_Suc)

lemma like_spec_percent_drop:
  assumes "like_spec s (CHR ''%'' # ps) (drop m v)" and "n \<le> m"
  shows "like_spec s (CHR ''%'' # ps) (drop n v)"
proof -
  obtain k where "k \<le> length (drop m v)" and k: "like_spec s ps (drop (k + m) v)"
    using assms(1) by (auto simp only: like_spec_percent drop_drop)
  show ?thesis
  proof (cases "m \<le> length v")
    case True
    with k assms(2) \<open>k \<le> length (drop m v)\<close> show ?thesis
      unfolding like_spec_percent
      by (intro exI [of _ "k + m - n"]) simp
  next
    case False
    then have "drop (k + m) v = drop (length (drop n v)) (drop n v)" by simp
    with k show ?thesis unfolding like_spec_percent by (metis order_refl)
  qed
qed

lemma like_spec_percent_skip: "like_spec s ps (drop n v) \<Longrightarrow> like_spec s (CHR ''%'' # ps) (drop n v)"
  unfolding like_spec_percent by (intro exI [of _ 0]) simp

lemma like_spec_Nil: "like_spec s ps [] \<longleftrightarrow> dropWhile (\<lambda>c. c = CHR ''%'') ps = []"
  by (induction ps) (auto simp: like_spec_percent)

lemma drop_char_at: "char_at p i = Some c \<Longrightarrow> drop i p = c # drop (Suc i) p"
  by (auto simp: char_at_def Cons_nth_drop_Suc split: if_splits)

subsection \<open>Soundness\<close>

lemma like_loop_sound:
  "like_loop s v p vi pi wi wvi \<Longrightarrow>
   like_spec s (drop pi p) (drop vi v) \<or>
   (\<exists>w. wi = Some w \<and> like_spec s (CHR ''%'' # drop (Suc w) p) (drop wvi v))"
proof (induction s v p vi pi wi wvi rule: like_loop.induct)
  case (1 s v p vi pi wi wvi)
  let ?token = "char_at p pi"
  let ?hit = "s \<and> ?token = Some CHR ''_'' \<or> ?token = Some (v ! vi)"
  show ?case
  proof (cases "vi < length v")
    case False
    with "1.prems" show ?thesis by (simp add: like_loop.simps like_spec_Nil)
  next
    case vi: True
    then have v: "drop vi v = v ! vi # drop (Suc vi) v" by (simp add: Cons_nth_drop_Suc)
    consider (hit) "?hit" | (star) "\<not> ?hit" "?token = Some CHR ''%''"
      | (retry) "\<not> ?hit" "?token \<noteq> Some CHR ''%''" by blast
    then show ?thesis
    proof cases
      case hit
      with vi "1.prems" have "like_loop s v p (Suc vi) (Suc pi) wi wvi"
        by (simp add: like_loop.simps [of s v p vi])
      from "1.IH"(1) [OF vi refl hit this] show ?thesis
      proof (elim disjE)
        assume rest: "like_spec s (drop (Suc pi) p) (drop (Suc vi) v)"
        obtain c where c: "?token = Some c" using hit by blast
        have "like_spec s (drop pi p) (drop vi v)"
        proof (cases "c = CHR ''%''")
          case True
          with c have "drop pi p = CHR ''%'' # drop (Suc pi) p" by (simp add: drop_char_at)
          with rest show ?thesis
            by (metis like_spec_percent_drop like_spec_percent_skip Suc_n_not_le_n nat_le_linear)
        next
          case False
          with c hit rest v show ?thesis by (auto simp: drop_char_at)
        qed
        then show ?thesis ..
      qed blast
    next
      case star
      with vi "1.prems" have "like_loop s v p vi (Suc pi) (Some pi) vi"
        by (simp add: like_loop.simps [of s v p vi pi])
      from "1.IH"(2) [OF vi refl star(1,2) this]
      have "like_spec s (CHR ''%'' # drop (Suc pi) p) (drop vi v)"
        using like_spec_percent_skip by auto
      with star show ?thesis by (simp add: drop_char_at)
    next
      case retry
      then obtain w where w: "wi = Some w"
        using vi "1.prems" by (auto simp: like_loop.simps [of s v p vi pi] split: option.splits)
      with retry vi "1.prems" have l: "like_loop s v p (Suc wvi) (Suc w) wi (Suc wvi)"
        by (auto simp: like_loop.simps [of s v p vi pi] Let_def split: if_splits)
      have "like_spec s (CHR ''%'' # drop (Suc w) p) (drop (Suc wvi) v)"
        using "1.IH"(3) [OF vi refl retry(1,2) w l] w
        by (auto simp del: like_spec.simps intro: like_spec_percent_skip)
      then have "like_spec s (CHR ''%'' # drop (Suc w) p) (drop wvi v)"
        by (rule like_spec_percent_drop) simp
      with w show ?thesis by blast
    qed
  qed
qed

lemma matchesLike_sound: "matchesLike s v p \<Longrightarrow> like_spec s p v"
  unfolding matchesLike_def by (drule like_loop_sound) simp

subsection \<open>Completeness\<close>

lemma like_spec_literal_length:
  "like_spec s (seg @ ps) v \<Longrightarrow> CHR ''%'' \<notin> set seg \<Longrightarrow>
   length seg \<le> length v \<and> like_spec s ps (drop (length seg) v)"
proof (induction seg arbitrary: v)
  case (Cons c seg)
  then show ?case by (cases v) auto
qed simp

text \<open>
  Between the newest wildcard and the current position the pattern is literal, and as long
  as the part of the value it was matched with.
\<close>

definition like_inv :: "string \<Rightarrow> string \<Rightarrow> nat \<Rightarrow> nat \<Rightarrow> nat option \<Rightarrow> nat \<Rightarrow> bool" where
  "like_inv v p vi pi wi wvi \<longleftrightarrow> vi \<le> length v \<and> pi \<le> length p \<and>
     (\<forall>w. wi = Some w \<longrightarrow> (\<exists>seg. CHR ''%'' \<notin> set seg \<and> drop (Suc w) p = seg @ drop pi p \<and>
        w < pi \<and> vi = wvi + length seg))"

definition later_match :: "bool \<Rightarrow> string \<Rightarrow> string \<Rightarrow> nat option \<Rightarrow> nat \<Rightarrow> bool" where
  "later_match s v p wi wvi \<longleftrightarrow>
     (\<exists>w k. wi = Some w \<and> wvi < k \<and> k \<le> length v \<and> like_spec s (drop (Suc w) p) (drop k v))"

lemma later_match_after_segment:
  assumes "like_inv v p vi pi wi wvi" and "later_match s v p wi wvi"
  obtains m where "vi < m" and "m \<le> length v" and "like_spec s (drop pi p) (drop m v)"
proof -
  from assms obtain w k seg where w: "wi = Some w" "wvi < k" "k \<le> length v"
    "like_spec s (seg @ drop pi p) (drop k v)" "CHR ''%'' \<notin> set seg" "vi = wvi + length seg"
    unfolding like_inv_def later_match_def by force
  then have "length seg \<le> length (drop k v)" "like_spec s (drop pi p) (drop (length seg + k) v)"
    using like_spec_literal_length by fastforce+
  then show thesis using w that [of "length seg + k"] by simp
qed

lemma like_inv_hit:
  assumes "like_inv v p vi pi wi wvi" and "vi < length v" and "char_at p pi = Some c"
    and "c \<noteq> CHR ''%''"
  shows "like_inv v p (Suc vi) (Suc pi) wi wvi"
proof -
  have d: "drop pi p = c # drop (Suc pi) p" and pi: "pi < length p"
    using assms(3) by (auto simp: drop_char_at char_at_def split: if_splits)
  have "\<exists>seg. CHR ''%'' \<notin> set seg \<and> drop (Suc w) p = seg @ drop (Suc pi) p \<and> w < Suc pi \<and>
      Suc vi = wvi + length seg" if w: "wi = Some w" for w
  proof -
    obtain seg where "CHR ''%'' \<notin> set seg" "drop (Suc w) p = seg @ drop pi p" "w < pi"
      "vi = wvi + length seg"
      using assms(1) w unfolding like_inv_def by auto
    with d assms(4) show ?thesis by (intro exI [of _ "seg @ [c]"]) auto
  qed
  with assms(2) pi show ?thesis by (simp add: like_inv_def)
qed

lemma like_loop_complete:
  "CHR ''%'' \<notin> set v \<Longrightarrow> like_inv v p vi pi wi wvi \<Longrightarrow>
   like_spec s (drop pi p) (drop vi v) \<or> later_match s v p wi wvi \<Longrightarrow>
   like_loop s v p vi pi wi wvi"
proof (induction s v p vi pi wi wvi rule: like_loop.induct)
  case (1 s v p vi pi wi wvi)
  note no_percent = "1.prems"(1) and inv = "1.prems"(2) and goal = "1.prems"(3)
  let ?token = "char_at p pi"
  let ?hit = "s \<and> ?token = Some CHR ''_'' \<or> ?token = Some (v ! vi)"
  show ?case
  proof (cases "vi < length v")
    case False
    have "\<not> later_match s v p wi wvi"
      using later_match_after_segment [OF inv] False by (metis leI le_less_trans less_irrefl)
    with goal False show ?thesis by (simp add: like_loop.simps like_spec_Nil)
  next
    case vi: True
    then have v: "drop vi v = v ! vi # drop (Suc vi) v" by (simp add: Cons_nth_drop_Suc)
    have not_percent: "v ! vi \<noteq> CHR ''%''" using vi no_percent by (metis nth_mem)
    consider (hit) "?hit" | (star) "\<not> ?hit" "?token = Some CHR ''%''"
      | (retry) "\<not> ?hit" "?token \<noteq> Some CHR ''%''" by blast
    then show ?thesis
    proof cases
      case hit
      then obtain c where c: "?token = Some c" "c \<noteq> CHR ''%''" using not_percent by auto
      have "like_spec s (drop (Suc pi) p) (drop (Suc vi) v) \<or> later_match s v p wi wvi"
        using goal c v by (auto simp: drop_char_at)
      from "1.IH"(1) [OF vi refl hit no_percent like_inv_hit [OF inv vi c] this] hit vi
      show ?thesis by (simp add: like_loop.simps [of s v p vi pi])
    next
      case star
      then have d: "drop pi p = CHR ''%'' # drop (Suc pi) p" and pi: "pi < length p"
        by (auto simp: drop_char_at char_at_def split: if_splits)
      have inv': "like_inv v p vi (Suc pi) (Some pi) vi"
        using vi pi unfolding like_inv_def by auto
      have "\<exists>m\<ge>vi. m \<le> length v \<and> like_spec s (drop (Suc pi) p) (drop m v)"
      proof -
        obtain n where n: "vi \<le> n" "n \<le> length v" "like_spec s (drop pi p) (drop n v)"
          using goal later_match_after_segment [OF inv] vi by (metis less_imp_le order_refl)
        with d obtain k where "k \<le> length (drop n v)" "like_spec s (drop (Suc pi) p) (drop (k + n) v)"
          by (auto simp only: like_spec_percent drop_drop)
        with n show ?thesis by (intro exI [of _ "k + n"]) auto
      qed
      then have "like_spec s (drop (Suc pi) p) (drop vi v) \<or> later_match s v p (Some pi) vi"
        unfolding later_match_def by (metis le_neq_implies_less)
      from "1.IH"(2) [OF vi refl star no_percent inv' this] star vi
      show ?thesis by (simp add: like_loop.simps [of s v p vi pi])
    next
      case retry
      have "\<not> like_spec s (drop pi p) (drop vi v)"
      proof (cases ?token)
        case None
        then have "drop pi p = []" by (simp add: char_at_def split: if_splits)
        with v show ?thesis by simp
      next
        case (Some c)
        with retry v show ?thesis by (auto simp: drop_char_at)
      qed
      with goal obtain w k where w: "wi = Some w" "wvi < k" "k \<le> length v"
        "like_spec s (drop (Suc w) p) (drop k v)"
        unfolding later_match_def by blast
      have inv': "like_inv v p (Suc wvi) (Suc w) wi (Suc wvi)"
        using w inv unfolding like_inv_def by auto
      have "like_spec s (drop (Suc w) p) (drop (Suc wvi) v) \<or> later_match s v p wi (Suc wvi)"
        using w unfolding later_match_def by (metis Suc_lessI)
      from "1.IH"(3) [OF vi refl retry w(1) no_percent inv' this] retry vi w(1)
      show ?thesis by (subst like_loop.simps) (auto simp: Let_def)
    qed
  qed
qed

lemma matchesLike_complete: "CHR ''%'' \<notin> set v \<Longrightarrow> like_spec s p v \<Longrightarrow> matchesLike s v p"
  unfolding matchesLike_def
  by (rule like_loop_complete) (auto simp: like_inv_def)

subsection \<open>What the matcher promises\<close>

text \<open>C38. On a value without a percent sign the greedy matcher decides exactly the meaning of the
  pattern: percent stands for any run of characters and, when the option is on, underscore
  for exactly one character.\<close>

theorem matchesLike_iff:
  assumes "CHR ''%'' \<notin> set value"
  shows "matchesLike single value pattern \<longleftrightarrow> like_spec single pattern value"
  using assms matchesLike_sound matchesLike_complete by blast

theorem matchesLike_iff_witness:
  "matchesLike True ''banana'' ''b%n_'' \<and> \<not> matchesLike True ''banana'' ''b%n''"
proof -
  have "like_spec True ''b%n_'' ''banana''" "\<not> like_spec True ''b%n'' ''banana''"
    by code_simp+
  then show ?thesis
    using matchesLike_iff [of "''banana''" True "''b%n_''"] matchesLike_iff [of "''banana''" True "''b%n''"]
    by simp
qed

text \<open>A percent sign inside the value defeats the matcher: the pattern \<open>%\<close>, whose meaning is
  every string, does not match the value \<open>%a\<close>, because the wildcard is consumed as a literal.\<close>

lemma matchesLike_percent_literal:
  "like_spec True ''%'' value \<and> \<not> matchesLike True ''%a'' ''%''"
proof
  show "like_spec True ''%'' value"
    by (subst like_spec_percent) (auto intro: exI [of _ "length value"])
  show "\<not> matchesLike True ''%a'' ''%''" by code_simp
qed

end
