(* ===== verification/Shard.thy ===== *)
theory Shard imports Paths JsValue begin

section \<open>Shards and collection names (src/src/core/shard.js, src/src/core/collection.js)\<close>

text \<open>
  The shard directory of a record is derived from the creation segment of its identifier, and
  a collection name is checked before it becomes a path segment.  The lemmas show that both
  yield one plain path segment, and that a record keeps its shard through its life cycle.
\<close>

subsection \<open>Shards\<close>

definition DEFAULT_SHARD_WIDTH :: int where "DEFAULT_SHARD_WIDTH = 1"
definition MIN_SHARD_WIDTH :: int where "MIN_SHARD_WIDTH = 1"
definition MAX_SHARD_WIDTH :: int where "MAX_SHARD_WIDTH = 4"

definition assertShardWidth :: "jsval \<Rightarrow> int result" where
  "assertShardWidth width =
     (case (case width of JNum x \<Rightarrow> f64_to_int x | _ \<Rightarrow> None) of
        Some w \<Rightarrow> if w < MIN_SHARD_WIDTH \<or> w > MAX_SHARD_WIDTH
                  then Inl (plain_error (''Shard width must be an integer from 1 to 4: '' @ js_to_string width))
                  else Inr w
      | None \<Rightarrow> Inl (plain_error (''Shard width must be an integer from 1 to 4: '' @ js_to_string width)))"

definition creationSegment :: "string \<Rightarrow> string result" where
  "creationSegment ident =
     (let created = hd (split_on CHR ''-'' ident)
      in if created = [] \<or> \<not> list_all is_alnum created
         then Inl (plain_error (''Cannot shard a non-identifier: '' @ ident))
         else Inr created)"

text \<open>An omitted width is \<open>JUndef\<close>, which the default parameter replaces.\<close>

definition shardOf :: "string \<Rightarrow> jsval \<Rightarrow> string result" where
  "shardOf ident width =
     bind_result (assertShardWidth (if width = JUndef then JNum (f64_of_int DEFAULT_SHARD_WIDTH) else width))
       (\<lambda>shard. bind_result (creationSegment ident)
         (\<lambda>created. Inr (pad_start (nat shard) CHR ''0'' (take_last (nat shard) created))))"

definition legacyShardOf :: "string \<Rightarrow> string result" where
  "legacyShardOf ident = bind_result (creationSegment ident) (\<lambda>created. Inr (take 2 created))"

fun shard_candidates_loop :: "string \<Rightarrow> jsval list \<Rightarrow> string list \<Rightarrow> string list result" where
  "shard_candidates_loop ident [] candidates = Inr candidates"
| "shard_candidates_loop ident (w # ws) candidates =
     bind_result (shardOf ident w) (\<lambda>shard. shard_candidates_loop ident ws (push_new candidates shard))"

definition shardCandidates :: "string \<Rightarrow> jsval \<Rightarrow> jsval list \<Rightarrow> string list result" where
  "shardCandidates ident width previousWidths =
     bind_result (shard_candidates_loop ident (width # previousWidths) [])
       (\<lambda>candidates. bind_result (legacyShardOf ident) (\<lambda>legacy. Inr (push_new candidates legacy)))"

subsection \<open>Collection names\<close>

definition RESERVED_NAMES :: "string list" where
  "RESERVED_NAMES = [''sql'', ''as'', ''then'', ''db'', ''engine'', ''cache'', ''queue'', ''startup'',
     ''importBulkData'', ''join'', ''ready'', ''close'', ''_sql'']"

definition CollectionNotFoundError :: "string \<Rightarrow> js_error" where
  "CollectionNotFoundError collection =
     JsError ''CollectionNotFoundError'' (''Collection not found: '' @ collection)
       (Some ''FYLO_COLLECTION_NOT_FOUND'')"

definition collection_char :: "char \<Rightarrow> bool" where
  "collection_char c = (is_lower c \<or> is_digit c)"

definition collection_pattern :: "string \<Rightarrow> bool" where
  "collection_pattern s = (2 \<le> length s \<and> collection_char (hd s) \<and> collection_char (last s) \<and>
     list_all (\<lambda>c. collection_char c \<or> c = CHR ''-'') s)"

definition validateCollectionName :: "string \<Rightarrow> unit result" where
  "validateCollectionName collection =
     (if \<not> collection_pattern collection then Inl (plain_error ''Invalid collection name'')
      else if collection \<in> set RESERVED_NAMES
        then Inl (plain_error (CHR 0x27 # collection @ CHR 0x27 # '' is a reserved name and cannot be used as a collection name. Choose a different name.''))
      else Inr ())"

subsection \<open>Plain path segments\<close>

lemma alnum_not_slash_dot: "is_alnum c \<Longrightarrow> c \<noteq> CHR ''/'' \<and> c \<noteq> CHR ''.'' \<and> c \<noteq> CHR ''-''"
  by (auto simp: is_alnum_def is_letter_def is_lower_def is_upper_def is_digit_def)

lemma alnum_plain_segment: "s \<noteq> [] \<Longrightarrow> list_all is_alnum s \<Longrightarrow> plain_segment s"
  by (cases s) (auto simp: plain_segment_def isMeaningful_def list_all_iff dest: alnum_not_slash_dot)

lemma validateCollectionName_plain:
  assumes "validateCollectionName c = Inr ()"
  shows "plain_segment c"
proof -
  have "2 \<le> length c" and *: "collection_char (hd c)" "\<forall>x\<in>set c. collection_char x \<or> x = CHR ''-''"
    using assms by (auto simp: validateCollectionName_def collection_pattern_def list_all_iff split: if_splits)
  have not: "\<not> collection_char CHR ''.''" "\<not> collection_char CHR ''/''"
    by (simp_all add: collection_char_def is_lower_def is_digit_def)
  show ?thesis
    using \<open>2 \<le> length c\<close> * not by (cases c) (auto simp: plain_segment_def isMeaningful_def)
qed

subsection \<open>Laws of the shards\<close>

lemma creationSegment_InrD:
  assumes "creationSegment ident = Inr c"
  shows "c \<noteq> []" "list_all is_alnum c" "c = hd (split_on CHR ''-'' ident)"
  using assms by (auto simp: creationSegment_def Let_def split: if_splits)

lemma take_last_set: "set (take_last n s) \<subseteq> set s"
  by (auto simp: take_last_def dest: in_set_dropD)

lemma is_alnum_zero [simp]: "is_alnum CHR ''0''"
  by (simp add: is_alnum_def is_digit_def)

lemma assertShardWidth_bounds: "assertShardWidth w = Inr n \<Longrightarrow> 1 \<le> n \<and> n \<le> 4"
  by (auto simp: assertShardWidth_def MIN_SHARD_WIDTH_def MAX_SHARD_WIDTH_def
      split: option.splits if_splits)

lemma shardOf_InrD:
  assumes "shardOf ident w = Inr s"
  shows "list_all is_alnum s" "1 \<le> length s" "length s \<le> 4"
proof -
  from assms obtain n c where "assertShardWidth (if w = JUndef then JNum (f64_of_int DEFAULT_SHARD_WIDTH) else w) = Inr n"
    and c: "creationSegment ident = Inr c"
    and s: "s = pad_start (nat n) CHR ''0'' (take_last (nat n) c)"
    by (auto simp: shardOf_def elim!: bind_result_InrE)
  then have n: "1 \<le> n" "n \<le> 4" by (simp_all add: assertShardWidth_bounds)
  have "list_all is_alnum c" using creationSegment_InrD [OF c] by simp
  then show "list_all is_alnum s"
    using s take_last_set [of "nat n" c] by (auto simp: pad_start_def list_all_iff)
  have "length s = nat n" using s by (simp add: length_pad_start length_take_last)
  with n show "1 \<le> length s" "length s \<le> 4" by auto
qed

lemma shardOf_plain: "shardOf ident w = Inr s \<Longrightarrow> plain_segment s"
  using shardOf_InrD [of ident w s] by (intro alnum_plain_segment) auto

lemma legacyShardOf_plain: "legacyShardOf ident = Inr s \<Longrightarrow> plain_segment s"
  using creationSegment_InrD
  by (auto simp: legacyShardOf_def list_all_iff elim!: bind_result_InrE intro!: alnum_plain_segment
      dest!: in_set_takeD)

lemma creationSegment_lifecycle:
  assumes "CHR ''-'' \<notin> set c"
  shows "hd (split_on CHR ''-'' (c @ CHR ''-'' # rest)) = c"
  using assms by (simp add: split_on_append_sep split_on_no_sep)

lemma shard_candidates_loop_Inr:
  "shard_candidates_loop ident ws acc = Inr cs \<Longrightarrow> distinct acc \<Longrightarrow>
   distinct cs \<and> set cs = set acc \<union> {s. \<exists>w\<in>set ws. shardOf ident w = Inr s} \<and>
   (acc \<noteq> [] \<longrightarrow> hd cs = hd acc) \<and> (\<forall>w\<in>set ws. is_ok (shardOf ident w))"
proof (induction ident ws acc rule: shard_candidates_loop.induct)
  case (2 ident w ws acc)
  then obtain s where s: "shardOf ident w = Inr s"
    and rec: "shard_candidates_loop ident ws (push_new acc s) = Inr cs"
    by (auto elim: bind_result_InrE)
  have "distinct cs \<and> set cs = insert s (set acc) \<union> {s. \<exists>w\<in>set ws. shardOf ident w = Inr s} \<and>
      hd cs = hd (push_new acc s) \<and> (\<forall>w\<in>set ws. is_ok (shardOf ident w))"
    using "2.IH" [OF rec] "2.prems"(2) push_new_props [of acc s] by simp
  with s show ?case using push_new_props(3) [of acc s] by auto
qed simp

subsection \<open>What the shards promise\<close>

text \<open>A record never changes its shard directory: for every width, an identifier that carries
  update or deletion segments after its creation segment has the shard of that segment alone.\<close>

theorem shardOf_lifecycle:
  assumes "created \<noteq> []" and "list_all is_alnum created"
  shows "shardOf (created @ CHR ''-'' # rest) width = shardOf created width"
proof -
  have "CHR ''-'' \<notin> set created"
    using assms alnum_not_slash_dot by (auto simp: list_all_iff)
  then have "hd (split_on CHR ''-'' (created @ CHR ''-'' # rest)) = created"
    "hd (split_on CHR ''-'' created) = created"
    by (simp_all add: creationSegment_lifecycle split_on_no_sep)
  with assms show ?thesis by (simp add: shardOf_def creationSegment_def)
qed

theorem shardOf_lifecycle_witness:
  "shardOf ''4VLN5QUCDP0-4VLN5R00001'' JUndef = Inr ''0''"
proof -
  have "shardOf ''4VLN5QUCDP0'' JUndef = Inr ''0''" by code_simp
  then show ?thesis
    using shardOf_lifecycle [of "''4VLN5QUCDP0''" "''4VLN5R00001''" JUndef]
    by (simp add: is_alnum_def is_letter_def is_upper_def is_lower_def is_digit_def)
qed

text \<open>The candidate directories of a record are complete and without repetition: when the
  widths are valid they are exactly the shards of the current and the previous widths and the
  legacy one, the current width first.\<close>

theorem shardCandidates_complete:
  assumes "shardCandidates ident width previousWidths = Inr cs"
  shows "distinct cs \<and> Inr (hd cs) = shardOf ident width \<and>
    Inr ` set cs = insert (legacyShardOf ident) (shardOf ident ` set (width # previousWidths))"
proof -
  from assms obtain ds legacy where loop: "shard_candidates_loop ident (width # previousWidths) [] = Inr ds"
    and legacy: "legacyShardOf ident = Inr legacy" and cs: "cs = push_new ds legacy"
    by (auto simp: shardCandidates_def simp del: shard_candidates_loop.simps elim!: bind_result_InrE)
  have ds: "distinct ds" "set ds = {s. \<exists>w\<in>set (width # previousWidths). shardOf ident w = Inr s}"
    "\<forall>w\<in>set (width # previousWidths). is_ok (shardOf ident w)"
    using shard_candidates_loop_Inr [OF loop] by auto
  from loop obtain s where s: "shardOf ident width = Inr s"
    and rest: "shard_candidates_loop ident previousWidths [s] = Inr ds"
    by (auto simp: push_new_def elim: bind_result_InrE)
  have "hd ds = s" using shard_candidates_loop_Inr [OF rest] by simp
  moreover have "ds \<noteq> []" using ds(2) s by auto
  moreover have "Inr ` set ds = shardOf ident ` set (width # previousWidths)"
    using ds(2,3) by (auto simp: is_ok_iff image_iff) metis+
  ultimately show ?thesis
    using ds(1) cs s legacy push_new_props [of ds legacy] by auto
qed

theorem shardCandidates_complete_witness:
  "shardCandidates ''4VLN5QUCDPZ'' (JNum (f64_of_int 1)) [JNum (f64_of_int 2), JNum (f64_of_int 1)] =
     Inr [''Z'', ''PZ'', ''4V''] \<and>
   Inr ''Z'' = shardOf ''4VLN5QUCDPZ'' (JNum (f64_of_int 1))"
proof -
  have "shardCandidates ''4VLN5QUCDPZ'' (JNum (f64_of_int 1)) [JNum (f64_of_int 2), JNum (f64_of_int 1)] =
     Inr [''Z'', ''PZ'', ''4V'']" by code_simp
  from this shardCandidates_complete [OF this] show ?thesis by simp
qed

end
