(* ===== verification/Ttid.thy ===== *)
theory Ttid imports Shard begin

section \<open>Time-tagged identifiers (src/src/browser/vendor/ttid.mjs)\<close>

text \<open>
  A TTID is one to three base 36 segments: the time of creation, of the last update (or the
  placeholder) and of deletion.  Validation and decoding are translated with the double
  arithmetic of the code: \<open>parseInt\<close> rounds the digits to a double, the division by the precision
  rounds again, \<open>toFixed(0)\<close> takes the nearest integer.  The current time in base 36,
  \<open>timeNow().toString(36)\<close>, comes from the platform clock and is the argument \<open>code\<close> of \<open>generate\<close>.
\<close>

subsection \<open>Decoding\<close>

definition PRECISION :: int where "PRECISION = 10000"
definition PLACEHOLDER :: string where "PLACEHOLDER = ''X''"
definition MIN_TIMESTAMP_MS :: int where "MIN_TIMESTAMP_MS = 1577836800000"
definition MAX_TIMESTAMP_MS :: int where "MAX_TIMESTAMP_MS = 7258118400000"

definition TTID_PATTERN :: "string \<Rightarrow> bool" where
  "TTID_PATTERN s =
     (case split_on CHR ''-'' s of
        created # rest \<Rightarrow> length created = 11 \<and> list_all is_alnum created \<and> length rest \<le> 2 \<and>
          list_all (\<lambda>t. t \<noteq> [] \<and> length t \<le> 11 \<and> list_all is_alnum t) rest
      | [] \<Rightarrow> False)"

definition is_hex_lower_or_upper :: "char \<Rightarrow> bool" where
  "is_hex_lower_or_upper c = (case digit_value c of Some d \<Rightarrow> d < 16 | None \<Rightarrow> False)"

definition UUID_PATTERN :: "string \<Rightarrow> bool" where
  "UUID_PATTERN s = (map length (split_on CHR ''-'' s) = [8, 4, 4, 4, 12] \<and>
     list_all (list_all is_hex_lower_or_upper) (split_on CHR ''-'' s))"

text \<open>\<open>(x / PRECISION).toFixed(0)\<close> of a non negative double \<open>x\<close>, in doubles.\<close>

definition divide_by_precision :: "int \<Rightarrow> int" where
  "divide_by_precision magnitude =
     (let (n, d) = f64_fraction magnitude in round_ratio n (d * PRECISION))"

definition to_fixed_0 :: "int \<Rightarrow> int" where
  "to_fixed_0 magnitude = (let (n, d) = f64_fraction magnitude in (2 * n + d) div (2 * d))"

definition convertToMilliseconds :: "string \<Rightarrow> int result" where
  "convertToMilliseconds timeCode =
     (let ms = to_fixed_0 (divide_by_precision (round_ratio (value_of_digits 36 timeCode) 1))
      in if ms < MIN_TIMESTAMP_MS \<or> ms > MAX_TIMESTAMP_MS
         then Inl (plain_error ''Invalid timestamp encoding'') else Inr ms)"

record timestamps =
  createdAt :: int
  updatedAt :: "int option"
  deletedAt :: "int option"

definition decodeTime :: "string \<Rightarrow> timestamps result" where
  "decodeTime ident =
     (if \<not> TTID_PATTERN ident then Inl (plain_error ''Invalid Format!'')
      else let parts = split_on CHR ''-'' ident; rest = tl parts in
        bind_result (convertToMilliseconds (hd parts)) (\<lambda>c.
        bind_result
          (case rest of u # _ \<Rightarrow> if u \<noteq> [] \<and> u \<noteq> PLACEHOLDER
             then map_sum (\<lambda>e. e) Some (convertToMilliseconds u) else Inr None
           | [] \<Rightarrow> Inr None) (\<lambda>u.
        bind_result
          (case rest of _ # d # _ \<Rightarrow> if d \<noteq> []
             then map_sum (\<lambda>e. e) Some (convertToMilliseconds d) else Inr None
           | _ \<Rightarrow> Inr None) (\<lambda>d.
        Inr \<lparr> createdAt = c, updatedAt = u, deletedAt = d \<rparr>))))"

definition isTTID :: "string \<Rightarrow> bool" where
  "isTTID ident =
     (ident \<noteq> [] \<and> length ident \<le> 36 \<and> TTID_PATTERN ident \<and> is_ok (decodeTime ident))"

definition isUUID :: "string \<Rightarrow> bool" where
  "isUUID ident = UUID_PATTERN ident"

subsection \<open>Generation and the life cycle\<close>

definition generate :: "string option \<Rightarrow> bool \<Rightarrow> string \<Rightarrow> string result" where
  "generate ident del code =
     (let given = (case ident of Some i \<Rightarrow> i | None \<Rightarrow> []);
          valid = given \<noteq> [] \<and> isTTID given;
          parts = split_on CHR ''-'' given
      in if valid \<and> length parts = 3
           then Inl (plain_error ''This identifier can no longer be modified'')
         else if valid \<and> del
           then Inr (to_upper (hd parts @ ''-'' @
                  (case tl parts of u # _ \<Rightarrow> u | [] \<Rightarrow> PLACEHOLDER) @ ''-'' @ code))
         else if valid then Inr (to_upper (hd parts @ ''-'' @ code))
         else if given \<noteq> [] then Inl (plain_error ''Invalid TTID!'')
         else Inr (to_upper code))"

subsection \<open>The characters of an identifier\<close>

lemma TTID_PATTERN_chars: "TTID_PATTERN s \<Longrightarrow> c \<in> set s \<Longrightarrow> is_alnum c \<or> c = CHR ''-''"
proof -
  assume p: "TTID_PATTERN s" and c: "c \<in> set s"
  have "\<forall>t\<in>set (split_on CHR ''-'' s). list_all is_alnum t"
    using p by (auto simp: TTID_PATTERN_def list_all_iff split: list.splits)
  moreover have "c \<in> set (join_with ''-'' (split_on CHR ''-'' s))" using c by simp
  then have "c \<in> \<Union> (set ` set (split_on CHR ''-'' s)) \<union> {CHR ''-''}"
    using subsetD [OF set_join_with, of c "''-''" "split_on CHR ''-'' s"] by simp
  ultimately show ?thesis unfolding list_all_iff by blast
qed

lemma isTTID_chars: "isTTID s \<Longrightarrow> c \<in> set s \<Longrightarrow> is_alnum c \<or> c = CHR ''-''"
  unfolding isTTID_def by (elim conjE) (rule TTID_PATTERN_chars)

lemma isTTID_not_Nil: "isTTID s \<Longrightarrow> s \<noteq> []"
  by (auto simp: isTTID_def)

lemma isTTID_created: "isTTID s \<Longrightarrow> creationSegment s = Inr (hd (split_on CHR ''-'' s))"
  by (auto simp: isTTID_def TTID_PATTERN_def creationSegment_def Let_def split: list.splits)

lemma isTTID_no_slash: "isTTID s \<Longrightarrow> CHR ''/'' \<notin> set s"
  using isTTID_chars [of s "CHR ''/''"] alnum_not_slash_dot [of "CHR ''/''"] by fastforce

lemma isTTID_no_dot: "isTTID s \<Longrightarrow> CHR ''.'' \<notin> set s"
  using isTTID_chars [of s "CHR ''.''"] alnum_not_slash_dot [of "CHR ''.''"] by fastforce

lemma isTTID_file_plain: "isTTID s \<Longrightarrow> plain_segment (s @ ''.json'')"
  using isTTID_no_slash [of s] isTTID_no_dot [of s] isTTID_not_Nil [of s]
  by (cases s) (auto simp: plain_segment_def isMeaningful_def)

lemma isTTID_shard: "isTTID s \<Longrightarrow> \<exists>d. shardOf s JUndef = Inr d"
proof -
  assume "isTTID s"
  moreover have "assertShardWidth (JNum (f64_of_int DEFAULT_SHARD_WIDTH)) = Inr 1" by code_simp
  ultimately show ?thesis by (simp add: shardOf_def isTTID_created)
qed

lemma isTTID_legacy: "isTTID s \<Longrightarrow> \<exists>d. legacyShardOf s = Inr d"
  by (simp add: legacyShardOf_def isTTID_created)

lemma isTTID_decode: "isTTID s \<Longrightarrow> \<exists>t. decodeTime s = Inr t"
  by (auto simp: isTTID_def is_ok_iff)

lemma convertToMilliseconds_bounds:
  "convertToMilliseconds t = Inr ms \<Longrightarrow> MIN_TIMESTAMP_MS \<le> ms \<and> ms \<le> MAX_TIMESTAMP_MS"
  by (auto simp: convertToMilliseconds_def Let_def split: if_splits)

lemma upper_alnum [simp]: "is_alnum (upper_char c) = is_alnum c"
proof (cases "is_lower c")
  case True
  let ?n = "of_char c :: int"
  from True have n: "97 \<le> ?n" "?n \<le> 122" by (auto simp: is_lower_def Let_def)
  then have "(of_char (char_of (?n - 32)) :: int) = ?n - 32" by simp
  with True n show ?thesis
    by (simp add: upper_char_def is_alnum_def is_letter_def is_upper_def is_lower_def is_digit_def Let_def)
qed (simp add: upper_char_def)

lemma digit_value_upper [simp]: "digit_value (upper_char c) = digit_value c"
proof (cases "is_lower c")
  case True
  let ?n = "of_char c :: int"
  from True have n: "97 \<le> ?n" "?n \<le> 122" by (auto simp: is_lower_def Let_def)
  then have "(of_char (char_of (?n - 32)) :: int) = ?n - 32" by simp
  with True n show ?thesis
    by (simp add: upper_char_def digit_value_def is_upper_def is_lower_def is_digit_def Let_def)
qed (simp add: upper_char_def)

lemma value_of_digits_upper [simp]: "value_of_digits b (to_upper s) = value_of_digits b s"
proof (induction s rule: rev_induct)
  case (snoc c s)
  have "to_upper (s @ [c]) = to_upper s @ [upper_char c]" by (simp add: to_upper_def)
  with snoc show ?case by simp
qed (simp add: to_upper_def)

lemma convertToMilliseconds_upper [simp]:
  "convertToMilliseconds (to_upper s) = convertToMilliseconds s"
  by (simp add: convertToMilliseconds_def)

lemma to_upper_simps [simp]:
  "to_upper [] = []" "to_upper (s @ t) = to_upper s @ to_upper t" "length (to_upper s) = length s"
  "to_upper s = [] \<longleftrightarrow> s = []" "list_all is_alnum (to_upper s) = list_all is_alnum s"
  "to_upper (CHR ''-'' # s) = CHR ''-'' # to_upper s"
proof -
  show "list_all is_alnum (to_upper s) = list_all is_alnum s"
    unfolding to_upper_def list_all_iff by simp
qed (simp_all add: to_upper_def upper_char_def is_lower_def)

lemma to_upper_idem [simp]: "to_upper (to_upper s) = to_upper s"
proof -
  have "upper_char (upper_char c) = upper_char c" for c
  proof (cases "is_lower c")
    case True
    then have n: "97 \<le> (of_char c :: int)" "(of_char c :: int) \<le> 122"
      by (auto simp: is_lower_def Let_def)
    then have "(of_char (char_of ((of_char c :: int) - 32)) :: int) = of_char c - 32" by simp
    with n have "\<not> is_lower (upper_char c)" by (simp add: upper_char_def is_lower_def Let_def)
    then show ?thesis by (simp add: upper_char_def)
  qed (simp add: upper_char_def)
  then show ?thesis by (simp add: to_upper_def)
qed

lemma alnum_no_dash: "list_all is_alnum s \<Longrightarrow> CHR ''-'' \<notin> set s"
  using alnum_not_slash_dot by (fastforce simp: list_all_iff)

lemma split_dashes:
  assumes "list_all is_alnum a" and "list_all is_alnum b"
  shows "split_on CHR ''-'' (a @ CHR ''-'' # b) = [a, b]"
    and "list_all is_alnum c \<Longrightarrow> split_on CHR ''-'' (a @ CHR ''-'' # b @ CHR ''-'' # c) = [a, b, c]"
  using assms by (simp_all add: split_on_append_sep split_on_no_sep alnum_no_dash)

text \<open>The parts of a valid identifier that is not final.\<close>

lemma isTTID_parts:
  assumes "isTTID s" and "length (split_on CHR ''-'' s) < 3"
  obtains c us where "split_on CHR ''-'' s = c # us" "length c = 11" "list_all is_alnum c"
    "is_ok (convertToMilliseconds c)"
    "let u = (case us of u # _ \<Rightarrow> u | [] \<Rightarrow> PLACEHOLDER)
     in u \<noteq> [] \<and> length u \<le> 11 \<and> list_all is_alnum u \<and>
        (u = PLACEHOLDER \<or> is_ok (convertToMilliseconds u))"
proof -
  obtain t where p: "TTID_PATTERN s" and t: "decodeTime s = Inr t"
    using assms(1) by (auto simp: isTTID_def is_ok_iff)
  obtain c rest where cr: "split_on CHR ''-'' s = c # rest" by (cases "split_on CHR ''-'' s") auto
  have c: "is_ok (convertToMilliseconds c)"
    using p t cr by (auto simp: decodeTime_def elim!: bind_result_InrE)
  show thesis
  proof (cases rest)
    case Nil
    have "list_all is_alnum PLACEHOLDER"
      by (simp add: PLACEHOLDER_def is_alnum_def is_letter_def is_upper_def)
    with that p cr c Nil show thesis by (simp add: TTID_PATTERN_def PLACEHOLDER_def)
  next
    case (Cons u more)
    with assms(2) cr have more: "more = []" by simp
    have "u \<noteq> PLACEHOLDER \<Longrightarrow> u \<noteq> [] \<Longrightarrow> is_ok (convertToMilliseconds u)"
      using p t cr Cons more
      by (cases "convertToMilliseconds u") (auto simp: decodeTime_def elim!: bind_result_InrE)
    with that p cr c Cons more show thesis by (auto simp: TTID_PATTERN_def)
  qed
qed

lemma placeholder_out_of_range: "\<not> is_ok (convertToMilliseconds PLACEHOLDER)"
  by code_simp

lemma two_segments:
  assumes "length c = 11" "list_all is_alnum c" "convertToMilliseconds c = Inr m"
    and "k \<noteq> []" "length k \<le> 11" "list_all is_alnum k" "convertToMilliseconds k = Inr n"
  shows "isTTID (c @ CHR ''-'' # k)" "length (split_on CHR ''-'' (c @ CHR ''-'' # k)) = 2"
    "decodeTime (c @ CHR ''-'' # k) = Inr \<lparr>createdAt = m, updatedAt = Some n, deletedAt = None\<rparr>"
proof -
  have s: "split_on CHR ''-'' (c @ CHR ''-'' # k) = [c, k]" using assms by (simp add: split_dashes)
  then have p: "TTID_PATTERN (c @ CHR ''-'' # k)" using assms by (simp add: TTID_PATTERN_def)
  have "k \<noteq> PLACEHOLDER" using assms placeholder_out_of_range by auto
  with s p assms
  show d: "decodeTime (c @ CHR ''-'' # k) = Inr \<lparr>createdAt = m, updatedAt = Some n, deletedAt = None\<rparr>"
    by (simp add: decodeTime_def)
  show "isTTID (c @ CHR ''-'' # k)" using p d assms by (simp add: isTTID_def)
  show "length (split_on CHR ''-'' (c @ CHR ''-'' # k)) = 2" using s by simp
qed

lemma three_segments:
  assumes "length c = 11" "list_all is_alnum c" "convertToMilliseconds c = Inr m"
    and "u \<noteq> []" "length u \<le> 11" "list_all is_alnum u"
    and "u = PLACEHOLDER \<or> is_ok (convertToMilliseconds u)"
    and "k \<noteq> []" "length k \<le> 11" "list_all is_alnum k" "convertToMilliseconds k = Inr n"
  defines "s \<equiv> c @ CHR ''-'' # u @ CHR ''-'' # k"
  shows "isTTID s" "length (split_on CHR ''-'' s) = 3"
    "\<exists>t. decodeTime s = Inr t \<and> createdAt t = m \<and> deletedAt t = Some n"
proof -
  have s: "split_on CHR ''-'' s = [c, u, k]" using assms by (simp add: split_dashes)
  then have p: "TTID_PATTERN s" using assms by (simp add: TTID_PATTERN_def)
  show d: "\<exists>t. decodeTime s = Inr t \<and> createdAt t = m \<and> deletedAt t = Some n"
    using s p assms by (cases "u = PLACEHOLDER") (auto simp: decodeTime_def is_ok_iff)
  have "length s \<le> 36" using assms by simp
  then show "isTTID s" using p d assms by (auto simp: isTTID_def)
  show "length (split_on CHR ''-'' s) = 3" using s by simp
qed

text \<open>Advancing an identifier keeps its identity: updating or deleting a valid identifier that
  is not final yields a valid one with the same creation time and, once deleted, the final
  state, which no further call can change.  The clock value must be a code in range.\<close>

theorem generate_lifecycle:
  assumes "isTTID ident" and "length (split_on CHR ''-'' ident) < 3"
    and "code \<noteq> []" and "length code \<le> 11" and "list_all is_alnum code"
    and "is_ok (convertToMilliseconds code)"
  shows "\<exists>s t. generate (Some ident) del code = Inr s \<and> isTTID s \<and>
    decodeTime s = Inr t \<and> map_sum (\<lambda>e. e) createdAt (decodeTime ident) = Inr (createdAt t) \<and>
    (deletedAt t \<noteq> None) = del \<and>
    (del \<longrightarrow> (\<forall>again code'. generate (Some s) again code' =
       Inl (plain_error ''This identifier can no longer be modified'')))"
proof -
  obtain c us where parts: "split_on CHR ''-'' ident = c # us" "length c = 11" "list_all is_alnum c"
      "is_ok (convertToMilliseconds c)" and
    us: "let u = (case us of u # _ \<Rightarrow> u | [] \<Rightarrow> PLACEHOLDER)
     in u \<noteq> [] \<and> length u \<le> 11 \<and> list_all is_alnum u \<and>
        (u = PLACEHOLDER \<or> is_ok (convertToMilliseconds u))"
    using assms(1,2) by (rule isTTID_parts)
  define u where "u = (case us of u # _ \<Rightarrow> u | [] \<Rightarrow> PLACEHOLDER)"
  define s where "s = (if del then to_upper c @ CHR ''-'' # to_upper u @ CHR ''-'' # to_upper code
    else to_upper c @ CHR ''-'' # to_upper code)"
  obtain m n where m: "convertToMilliseconds c = Inr m" and n: "convertToMilliseconds code = Inr n"
    using parts assms by (auto simp: is_ok_iff)
  have upper_u: "to_upper u = PLACEHOLDER \<or> is_ok (convertToMilliseconds (to_upper u))"
  proof (cases "u = PLACEHOLDER")
    case True
    then show ?thesis by (simp add: PLACEHOLDER_def to_upper_def upper_char_def is_lower_def)
  next
    case False
    with us show ?thesis by (simp add: Let_def flip: u_def)
  qed
  have s_ok: "isTTID s" "length (split_on CHR ''-'' s) = (if del then 3 else 2)"
    "\<exists>t. decodeTime s = Inr t \<and> createdAt t = m \<and> (deletedAt t \<noteq> None) = del"
    using parts us m n assms upper_u
      two_segments [of "to_upper c" m "to_upper code" n]
      three_segments [of "to_upper c" m "to_upper u" "to_upper code" n]
    by (auto simp: s_def Let_def simp flip: u_def)
  have "map_sum (\<lambda>e. e) createdAt (decodeTime ident) = Inr m"
    using assms(1) parts m by (auto simp: isTTID_def decodeTime_def Let_def is_ok_iff elim!: bind_result_InrE)
  moreover have "generate (Some ident) del code = Inr s"
    using assms(1,2) parts isTTID_not_Nil [OF assms(1)]
    by (simp add: generate_def Let_def s_def u_def)
  moreover have "generate (Some s) again code' =
      Inl (plain_error ''This identifier can no longer be modified'')" if del for again code'
    using that s_ok isTTID_not_Nil [OF s_ok(1)] by (simp add: generate_def Let_def)
  ultimately show ?thesis using s_ok by auto
qed

theorem generate_lifecycle_witness:
  "\<exists>s. generate (Some ''4VLN5QUCDP0'') True ''4vln5r00001'' = Inr s \<and> isTTID s"
proof -
  have "isTTID ''4VLN5QUCDP0''" "length (split_on CHR ''-'' ''4VLN5QUCDP0'') < 3"
    "list_all is_alnum ''4vln5r00001''" "is_ok (convertToMilliseconds ''4vln5r00001'')"
    by code_simp+
  then show ?thesis
    using generate_lifecycle [of "''4VLN5QUCDP0''" "''4vln5r00001''" True] by auto
qed

end
