(* ===== verification/PrefixCodec.thy ===== *)
theory PrefixCodec imports Json Like Ttid begin

section \<open>Prefix index keys (src/src/browser/core/prefix-index.js, src/src/storage/value-codec.js)\<close>

text \<open>
  A document field value becomes index keys \<open>field/kind/value/document\<close>; a query operand becomes
  key prefixes, with a bound for ranges.  Numbers are encoded so that the order of the strings
  is the order of the numbers.  The digest of Web Crypto is the parameter \<open>digest\<close>, a function on
  bytes; nothing is assumed of it.
\<close>

subsection \<open>Stored values\<close>

definition stringifyStoredValue :: "jsval \<Rightarrow> string" where
  "stringifyStoredValue value = replace_all CHR ''/'' ''%2F'' (js_to_string value)"

definition parseStoredValue :: "string \<Rightarrow> jsval" where
  "parseStoredValue value = (case json_parse value of Inr v \<Rightarrow> v | Inl _ \<Rightarrow> JStr value)"

subsection \<open>Segments\<close>

text \<open>\<open>encodeURIComponent\<close> keeps the unreserved characters and escapes the bytes of the others.\<close>

definition is_unreserved :: "char \<Rightarrow> bool" where
  "is_unreserved c = (is_alnum c \<or> c \<in> set ''-_.!~*()'' \<or> c = CHR 0x27)"

definition upper_hex :: "int \<Rightarrow> char" where
  "upper_hex d = upper_char (digit_char d)"

definition percent_byte :: "char \<Rightarrow> string" where
  "percent_byte b = (let n = of_char b :: int in [CHR ''%'', upper_hex (n div 16), upper_hex (n mod 16)])"

definition encode_char :: "char \<Rightarrow> string" where
  "encode_char c = (if is_unreserved c then [c] else concat (map percent_byte (utf8_char c)))"

definition encodeSegment :: "string \<Rightarrow> string" where
  "encodeSegment value = concat (map encode_char value)"

definition uri_error :: js_error where
  "uri_error = JsError ''URIError'' ''URI malformed'' None"

definition hex_digit :: "char \<Rightarrow> int option" where
  "hex_digit c = (case digit_value c of Some d \<Rightarrow> if d < 16 then Some d else None | None \<Rightarrow> None)"

definition escaped_byte :: "string \<Rightarrow> (int \<times> string) option" where
  "escaped_byte s =
     (case s of p # h # l # t \<Rightarrow>
        if p = CHR ''%'' then
          (case (hex_digit h, hex_digit l) of (Some a, Some b) \<Rightarrow> Some (16 * a + b, t) | _ \<Rightarrow> None)
        else None
      | _ \<Rightarrow> None)"

definition continuation_byte :: "string \<Rightarrow> (int \<times> string) option" where
  "continuation_byte s =
     (case escaped_byte s of Some (b, t) \<Rightarrow> if 128 \<le> b \<and> b < 192 then Some (b - 128, t) else None
      | None \<Rightarrow> None)"

text \<open>
  \<open>decodeURIComponent\<close>: each escaped sequence must be well formed UTF-8.  A code point above
  U+00FF becomes the substitute character, once or, as a surrogate pair, twice.
\<close>

fun decode_loop :: "nat \<Rightarrow> string \<Rightarrow> string result" where
  "decode_loop n [] = Inr []"
| "decode_loop 0 (c # s) = Inl uri_error"
| "decode_loop (Suc n) (c # s) =
     (if c \<noteq> CHR ''%'' then bind_result (decode_loop n s) (\<lambda>r. Inr (c # r))
      else case escaped_byte (c # s) of None \<Rightarrow> Inl uri_error
      | Some (b, t) \<Rightarrow>
          if b < 128 then bind_result (decode_loop n t) (\<lambda>r. Inr (char_of b # r))
          else if 194 \<le> b \<and> b < 224 then
            (case continuation_byte t of None \<Rightarrow> Inl uri_error
             | Some (x, u) \<Rightarrow>
                 let p = (b - 192) * 64 + x
                 in bind_result (decode_loop n u)
                      (\<lambda>r. Inr ((if p < 256 then char_of p else CHR 0x1A) # r)))
          else if 224 \<le> b \<and> b < 240 then
            (case continuation_byte t of None \<Rightarrow> Inl uri_error
             | Some (x, u) \<Rightarrow> (case continuation_byte u of None \<Rightarrow> Inl uri_error
               | Some (y, v) \<Rightarrow>
                   let p = (b - 224) * 4096 + x * 64 + y
                   in if p < 2048 \<or> (55296 \<le> p \<and> p < 57344) then Inl uri_error
                      else bind_result (decode_loop n v) (\<lambda>r. Inr (CHR 0x1A # r))))
          else if 240 \<le> b \<and> b < 245 then
            (case continuation_byte t of None \<Rightarrow> Inl uri_error
             | Some (x, u) \<Rightarrow> (case continuation_byte u of None \<Rightarrow> Inl uri_error
               | Some (y, v) \<Rightarrow> (case continuation_byte v of None \<Rightarrow> Inl uri_error
                 | Some (z, w) \<Rightarrow>
                     let p = (b - 240) * 262144 + x * 4096 + y * 64 + z
                     in if p < 65536 \<or> p > 1114111 then Inl uri_error
                        else bind_result (decode_loop n w) (\<lambda>r. Inr (CHR 0x1A # CHR 0x1A # r)))))
          else Inl uri_error)"

definition decodeSegment :: "string \<Rightarrow> string result" where
  "decodeSegment value = decode_loop (length value) value"

definition bytesToHex :: "bytes \<Rightarrow> string" where
  "bytesToHex bs = concat (map (\<lambda>b. pad_start 2 CHR ''0'' (digits_of 16 (of_char b))) bs)"

definition sha256Hex :: "(bytes \<Rightarrow> bytes) \<Rightarrow> string \<Rightarrow> string" where
  "sha256Hex digest value = bytesToHex (digest (utf8_encode value))"

definition MAX_STRING_PREFIX_BYTES :: nat where "MAX_STRING_PREFIX_BYTES = 180"
definition MAX_NGRAM_SOURCE_CHARS :: nat where "MAX_NGRAM_SOURCE_CHARS = 512"
definition NGRAM_SIZE :: nat where "NGRAM_SIZE = 3"

definition lookupToken :: "(bytes \<Rightarrow> bytes) \<Rightarrow> string \<Rightarrow> string" where
  "lookupToken digest value =
     (let encoded = encodeSegment value
      in if length (utf8_encode encoded) \<le> MAX_STRING_PREFIX_BYTES then encoded
         else ''h_'' @ sha256Hex digest value)"

subsection \<open>Sortable numbers\<close>

definition SIGN_MASK :: "64 word" where "SIGN_MASK = 2 ^ 63"

definition hex16 :: "64 word \<Rightarrow> string" where
  "hex16 w = pad_start 16 CHR ''0'' (digits_of 16 (uint w))"

definition sortableFloat64 :: "f64 \<Rightarrow> string" where
  "sortableFloat64 value =
     (if \<not> f64_is_finite value then []
      else hex16 (if and value SIGN_MASK \<noteq> 0 then not value else xor value SIGN_MASK))"

definition reverseSortable :: "string \<Rightarrow> string" where
  "reverseSortable sortable =
     pad_start 16 CHR ''0'' (digits_of 16 (uint (- 1 :: 64 word) - value_of_digits 16 sortable))"

definition numericValue :: "jsval \<Rightarrow> f64 option" where
  "numericValue value =
     (let numeric = (case value of JNum x \<Rightarrow> x | _ \<Rightarrow> js_to_number value)
      in if f64_is_finite numeric then Some numeric else None)"

definition sortable_value :: "jsval \<Rightarrow> string" where
  "sortable_value raw = (case numericValue raw of None \<Rightarrow> [] | Some x \<Rightarrow> sortableFloat64 x)"

subsection \<open>Reversed strings and trigrams\<close>

definition reverseString :: "string \<Rightarrow> string" where
  "reverseString value = rev value"

definition trigrams :: "string \<Rightarrow> string list" where
  "trigrams value =
     (let chars = take MAX_NGRAM_SOURCE_CHARS value
      in if length chars < NGRAM_SIZE then []
         else foldl push_new [] (map (\<lambda>i. take NGRAM_SIZE (drop i chars)) [0..<Suc (length chars - NGRAM_SIZE)]))"

subsection \<open>Keys and prefixes\<close>

definition encodeFieldPath :: "string \<Rightarrow> string" where
  "encodeFieldPath fieldPath = join_with ''/'' (map encodeSegment (split_on CHR ''/'' fieldPath))"

definition invalid_document_id :: "string \<Rightarrow> js_error" where
  "invalid_document_id docId = plain_error (''Invalid document ID: '' @ docId)"

definition docIdFromKey :: "string \<Rightarrow> string \<Rightarrow> string result" where
  "docIdFromKey pre key =
     bind_result (decodeSegment (last (split_on CHR ''/'' (drop (length pre) key))))
       (\<lambda>docId. if isTTID docId then Inr docId else Inl (invalid_document_id docId))"

definition index_key :: "string \<Rightarrow> string \<Rightarrow> string \<Rightarrow> string \<Rightarrow> string result" where
  "index_key fieldPath kind value docId =
     (if \<not> isTTID docId then Inl (invalid_document_id docId)
      else Inr (join_with ''/'' [encodeFieldPath fieldPath, kind, value, encodeSegment docId]))"

definition index_prefix :: "string \<Rightarrow> string \<Rightarrow> string \<Rightarrow> string" where
  "index_prefix fieldPath kind valuePrefix =
     join_with ''/'' [encodeFieldPath fieldPath, kind, valuePrefix]"

text \<open>The kinds and planned values of one field value: entries first, the exact entry apart.\<close>

definition value_entries :: "jsval \<Rightarrow> (string \<times> string) list" where
  "value_entries raw =
     (let value = stringifyStoredValue raw; sortable = sortable_value raw; encoded = encodeSegment value
      in (if sortable \<noteq> [] then [(''n'', sortable), (''nr'', reverseSortable sortable)] else []) @
         (if \<not> is_string raw then []
          else if length (utf8_encode encoded) > MAX_STRING_PREFIX_BYTES then []
          else [(''f'', encoded), (''r'', encodeSegment (reverseString value))] @
               map (\<lambda>gram. (''g3'', encodeSegment gram)) (trigrams value)))"

fun keys_of :: "string \<Rightarrow> string \<Rightarrow> (string \<times> string) list \<Rightarrow> string list result" where
  "keys_of fieldPath docId [] = Inr []"
| "keys_of fieldPath docId ((kind, value) # rest) =
     bind_result (index_key fieldPath kind value docId)
       (\<lambda>k. bind_result (keys_of fieldPath docId rest) (\<lambda>ks. Inr (k # ks)))"

text \<open>\<open>addValue\<close>: the pair is \<open>entries\<close> and \<open>exactEntries\<close>.\<close>

definition addValue :: "(bytes \<Rightarrow> bytes) \<Rightarrow> string \<Rightarrow> string \<Rightarrow> jsval \<Rightarrow>
    string list \<times> string list \<Rightarrow> (string list \<times> string list) result" where
  "addValue digest docId fieldPath raw acc =
     bind_result (index_key fieldPath ''eq'' (lookupToken digest (stringifyStoredValue raw)) docId)
       (\<lambda>exact. bind_result (keys_of fieldPath docId (value_entries raw))
         (\<lambda>keys. Inr (fst acc @ keys, snd acc @ [exact])))"

definition child_path :: "string \<Rightarrow> string \<Rightarrow> string" where
  "child_path parentField field = (if parentField = [] then field else parentField @ ''/'' @ field)"

text \<open>\<open>walk\<close>: nested records extend the path, arrays contribute their items, an object in an
  array is refused at the point where it is met.\<close>

fun walk :: "(bytes \<Rightarrow> bytes) \<Rightarrow> string \<Rightarrow> string \<Rightarrow> record_obj \<Rightarrow>
    string list \<times> string list \<Rightarrow> (string list \<times> string list) result"
  and walk_value :: "(bytes \<Rightarrow> bytes) \<Rightarrow> string \<Rightarrow> string \<Rightarrow> jsval \<Rightarrow>
    string list \<times> string list \<Rightarrow> (string list \<times> string list) result"
  and walk_items :: "(bytes \<Rightarrow> bytes) \<Rightarrow> string \<Rightarrow> string \<Rightarrow> jsval list \<Rightarrow>
    string list \<times> string list \<Rightarrow> (string list \<times> string list) result" where
  "walk digest docId parentField [] acc = Inr acc"
| "walk digest docId parentField ((field, value) # target) acc =
     bind_result (walk_value digest docId (child_path parentField field) value acc)
       (walk digest docId parentField target)"
| "walk_value digest docId fieldPath (JObj ob) acc = walk digest docId fieldPath ob acc"
| "walk_value digest docId fieldPath (JArr items) acc = walk_items digest docId fieldPath items acc"
| "walk_value digest docId fieldPath value acc = addValue digest docId fieldPath value acc"
| "walk_items digest docId fieldPath [] acc = Inr acc"
| "walk_items digest docId fieldPath (item # items) acc =
     (if is_object item then Inl (plain_error ''Cannot index an array of objects'')
      else bind_result (addValue digest docId fieldPath item acc)
             (walk_items digest docId fieldPath items))"

definition entriesForDocument :: "(bytes \<Rightarrow> bytes) \<Rightarrow> string \<Rightarrow> record_obj \<Rightarrow> string list result" where
  "entriesForDocument digest docId data =
     bind_result (walk digest docId [] data ([], []))
       (\<lambda>(entries, exactEntries). Inr (foldl push_new [] (entries @ exactEntries)))"

subsection \<open>Query prefixes\<close>

datatype range_op = Gt | Gte | Lt | Lte

record range_bound =
  range_op :: range_op
  range_value :: string

record query_prefix =
  kind :: string
  valuePrefix :: string
  range :: "range_bound option"

definition range_key :: "range_op \<Rightarrow> string" where
  "range_key op = (case op of Gt \<Rightarrow> ''$gt'' | Gte \<Rightarrow> ''$gte'' | Lt \<Rightarrow> ''$lt'' | Lte \<Rightarrow> ''$lte'')"

definition type_error :: "string \<Rightarrow> js_error" where
  "type_error m = JsError ''TypeError'' m None"

definition queryLookupValue :: "(bytes \<Rightarrow> bytes) \<Rightarrow> jsval \<Rightarrow> string" where
  "queryLookupValue digest value = lookupToken digest (stringifyStoredValue value)"

definition containsQueryPrefixes :: "string \<Rightarrow> nat \<Rightarrow> query_prefix list option" where
  "containsQueryPrefixes pattern wildcards =
     (if wildcards \<noteq> 2 \<or> \<not> starts_with ''%'' pattern \<or> \<not> ends_with ''%'' pattern then None
      else if length pattern \<le> 2 then None
      else let needle = drop_last 1 (drop 1 pattern)
           in if length needle < NGRAM_SIZE then None
              else Some [\<lparr> kind = ''g3'',
                     valuePrefix = encodeSegment (case trigrams needle of g # _ \<Rightarrow> g | [] \<Rightarrow> take 3 needle) @ ''/'',
                     range = None \<rparr>])"

definition likeQueryPrefixes :: "(bytes \<Rightarrow> bytes) \<Rightarrow> string \<Rightarrow> query_prefix list option" where
  "likeQueryPrefixes digest pattern =
     (if CHR ''_'' \<in> set pattern then None
      else let wildcards = length (filter (\<lambda>c. c = CHR ''%'') pattern) in
        if wildcards = 0
          then Some [\<lparr> kind = ''eq'', valuePrefix = queryLookupValue digest (JStr pattern) @ ''/'', range = None \<rparr>]
        else if wildcards = 1 \<and> ends_with ''%'' pattern
          then Some [\<lparr> kind = ''f'', valuePrefix = encodeSegment (drop_last 1 pattern), range = None \<rparr>]
        else if wildcards = 1 \<and> starts_with ''%'' pattern
          then Some [\<lparr> kind = ''r'', valuePrefix = encodeSegment (reverseString (drop 1 pattern)), range = None \<rparr>]
        else containsQueryPrefixes pattern wildcards)"

fun range_entries :: "jsval \<Rightarrow> range_op list \<Rightarrow> query_prefix list option" where
  "range_entries operand [] = Some []"
| "range_entries operand (op # ops) =
     (let raw = get_prop operand (range_key op) in
      if raw = JUndef then range_entries operand ops
      else let sortable = sortable_value raw; ascending = (op = Gt \<or> op = Gte) in
        if sortable = [] then None
        else map_option (Cons \<lparr> kind = (if ascending then ''n'' else ''nr''), valuePrefix = [],
               range = Some \<lparr> range_op = op,
                 range_value = (if ascending then sortable else reverseSortable sortable) \<rparr> \<rparr>)
             (range_entries operand ops))"

definition rangeQueryPrefixes :: "jsval \<Rightarrow> query_prefix list option" where
  "rangeQueryPrefixes operand =
     (case range_entries operand [Gt, Gte, Lt, Lte] of
        Some es \<Rightarrow> if es \<noteq> [] then Some es else None
      | None \<Rightarrow> None)"

definition queryPrefixes :: "(bytes \<Rightarrow> bytes) \<Rightarrow> jsval \<Rightarrow> query_prefix list option result" where
  "queryPrefixes digest operand =
     (if get_prop operand ''$eq'' \<noteq> JUndef
      then Inr (Some [\<lparr> kind = ''eq'', valuePrefix = queryLookupValue digest (get_prop operand ''$eq'') @ ''/'', range = None \<rparr>])
      else if get_prop operand ''$contains'' \<noteq> JUndef
      then Inr (Some [\<lparr> kind = ''eq'', valuePrefix = queryLookupValue digest (get_prop operand ''$contains'') @ ''/'', range = None \<rparr>])
      else if get_prop operand ''$like'' \<noteq> JUndef
      then (case get_prop operand ''$like'' of
              JStr pattern \<Rightarrow> Inr (likeQueryPrefixes digest pattern)
            | _ \<Rightarrow> Inl (type_error ''pattern.includes is not a function''))
      else Inr (rangeQueryPrefixes operand))"

definition rangeValueFromKey :: "string \<Rightarrow> string" where
  "rangeValueFromKey key =
     (let segments = split_on CHR ''/'' key
      in if 2 \<le> length segments then segments ! (length segments - 2) else [])"

definition includeKeyInRange :: "string \<Rightarrow> range_bound option \<Rightarrow> bool" where
  "includeKeyInRange key bound =
     (case bound of None \<Rightarrow> True
      | Some r \<Rightarrow> let value = rangeValueFromKey key in
          (case range_op r of Gt \<Rightarrow> value > range_value r | Gte \<Rightarrow> value \<ge> range_value r
           | Lt \<Rightarrow> value > range_value r | Lte \<Rightarrow> value \<ge> range_value r))"

subsection \<open>Escaped segments\<close>

lemma encodeSegment_simps [simp]:
  "encodeSegment [] = []" "encodeSegment (c # s) = encode_char c @ encodeSegment s"
  "encodeSegment (s @ t) = encodeSegment s @ encodeSegment t"
  by (simp_all add: encodeSegment_def)

lemma hex_digit_upper_hex: "0 \<le> d \<Longrightarrow> d < 16 \<Longrightarrow> hex_digit (upper_hex d) = Some d"
  by (simp add: hex_digit_def upper_hex_def)

lemma escaped_byte_percent: "escaped_byte (percent_byte b @ s) = Some (of_char b, s)"
proof -
  let ?n = "of_char b :: int"
  have "0 \<le> ?n div 16" "?n div 16 < 16" "0 \<le> ?n mod 16" "?n mod 16 < 16"
    using of_char_bounds [of b] by auto
  then show ?thesis by (simp add: percent_byte_def escaped_byte_def hex_digit_upper_hex Let_def)
qed

lemma percent_byte_Cons: "\<exists>h l. percent_byte b = [CHR ''%'', h, l]"
  by (simp add: percent_byte_def Let_def)

lemma percent_reserved [simp]: "\<not> is_unreserved CHR ''%''"
  by (simp add: is_unreserved_def is_alnum_def is_letter_def is_lower_def is_upper_def is_digit_def)

lemma decode_loop_encode: "length (encodeSegment s) \<le> n \<Longrightarrow> decode_loop n (encodeSegment s) = Inr s"
proof (induction s arbitrary: n)
  case (Cons c s)
  show ?case
  proof (cases "is_unreserved c")
    case True
    with Cons.prems obtain m where n: "n = Suc m" "length (encodeSegment s) \<le> m"
      by (cases n) (auto simp: encode_char_def)
    then show ?thesis
      using True Cons.IH [of m] percent_reserved by (auto simp: encode_char_def)
  next
    case False
    let ?n = "of_char c :: int"
    show ?thesis
    proof (cases "?n < 128")
      case True
      obtain h l where p: "percent_byte c = [CHR ''%'', h, l]" using percent_byte_Cons by blast
      with Cons.prems False True obtain m where n: "n = Suc m" "length (encodeSegment s) \<le> m"
        by (cases n) (auto simp: encode_char_def utf8_char_def)
      have "escaped_byte (CHR ''%'' # h # l # encodeSegment s) = Some (?n, encodeSegment s)"
        using escaped_byte_percent [of c] p by simp
      with n True False p Cons.IH [of m] show ?thesis
        by (simp add: encode_char_def utf8_char_def)
    next
      case big: False
      have b: "128 \<le> ?n" "?n < 256" using big of_char_bounds [of c] by auto
      let ?b1 = "char_of (192 + ?n div 64) :: char" and ?b2 = "char_of (128 + ?n mod 64) :: char"
      have d: "2 \<le> ?n div 64" "?n div 64 \<le> 3" "0 \<le> ?n mod 64" "?n mod 64 < 64" using b by linarith+
      then have o: "(of_char ?b1 :: int) = 192 + ?n div 64" "(of_char ?b2 :: int) = 128 + ?n mod 64" by auto
      obtain h l where p: "percent_byte ?b1 = [CHR ''%'', h, l]" using percent_byte_Cons by blast
      have e: "encode_char c = percent_byte ?b1 @ percent_byte ?b2"
        using False big by (simp add: encode_char_def utf8_char_def Let_def)
      obtain h2 l2 where p2: "percent_byte ?b2 = [CHR ''%'', h2, l2]" using percent_byte_Cons by blast
      from Cons.prems e p p2 obtain m where n: "n = Suc m" "length (encodeSegment s) \<le> m"
        by (cases n) auto
      have e1: "escaped_byte (CHR ''%'' # h # l # t) = Some (192 + ?n div 64, t)" for t
        using escaped_byte_percent [of ?b1 t] p o by simp
      have "continuation_byte (percent_byte ?b2 @ encodeSegment s) = Some (?n mod 64, encodeSegment s)"
        unfolding continuation_byte_def escaped_byte_percent using o d by simp
      moreover have "?n div 64 * 64 + ?n mod 64 = ?n" by simp
      ultimately show ?thesis
        using n e p e1 d b Cons.IH [of m] by (simp add: Let_def)
    qed
  qed
qed simp

lemma decode_encodeSegment: "decodeSegment (encodeSegment s) = Inr s"
  by (simp add: decodeSegment_def decode_loop_encode)

lemma encode_alnum_dash: "\<forall>c\<in>set s. is_alnum c \<or> c = CHR ''-'' \<Longrightarrow> encodeSegment s = s"
  by (induction s) (auto simp: encode_char_def is_unreserved_def)

lemma encode_TTID: "isTTID s \<Longrightarrow> encodeSegment s = s"
  using isTTID_chars by (intro encode_alnum_dash) blast

lemma alnum_ascii: "is_alnum c \<Longrightarrow> (of_char c :: int) < 128"
  by (auto simp: is_alnum_def is_letter_def is_lower_def is_upper_def is_digit_def Let_def)

lemma upper_hex_alnum:
  assumes "0 \<le> d" and "d < 16"
  shows "is_alnum (upper_hex d)"
proof -
  have "is_alnum (digit_char d)"
    using assms by (auto simp: is_alnum_def is_letter_def is_lower_def is_digit_def of_char_digit_char Let_def)
  then show ?thesis by (simp add: upper_hex_def)
qed

lemma encode_char_chars: "d \<in> set (encode_char c) \<Longrightarrow> is_unreserved d \<or> d = CHR ''%''"
proof -
  have p: "d \<in> set (percent_byte b) \<Longrightarrow> is_unreserved d \<or> d = CHR ''%''" for b
  proof -
    have "0 \<le> (of_char b :: int) div 16" "(of_char b :: int) div 16 < 16" "0 \<le> (of_char b :: int) mod 16" "(of_char b :: int) mod 16 < 16"
      using of_char_bounds [of b] by auto
    then show "d \<in> set (percent_byte b) \<Longrightarrow> is_unreserved d \<or> d = CHR ''%''"
      using upper_hex_alnum by (auto simp: percent_byte_def Let_def is_unreserved_def)
  qed
  assume "d \<in> set (encode_char c)"
  then show ?thesis using p by (auto simp: encode_char_def split: if_splits)
qed

lemma encodeSegment_chars: "d \<in> set (encodeSegment s) \<Longrightarrow> is_unreserved d \<or> d = CHR ''%''"
  by (induction s) (auto dest: encode_char_chars)

lemma unreserved_props: "is_unreserved c \<or> c = CHR ''%'' \<Longrightarrow> c \<noteq> CHR ''/'' \<and> (of_char c :: int) < 128 \<and> c \<noteq> CHR 0x0A \<and> c \<noteq> CHR 0x0D \<and> c \<noteq> CHR 0x09"
  using alnum_ascii [of c]
  by (auto simp: is_unreserved_def) (auto simp: is_alnum_def is_letter_def is_lower_def is_upper_def is_digit_def)

lemma encodeSegment_no_slash: "CHR ''/'' \<notin> set (encodeSegment s)"
  using encodeSegment_chars unreserved_props by blast

lemma encodeSegment_ascii: "is_ascii (encodeSegment s)"
  unfolding is_ascii_def list_all_iff using encodeSegment_chars unreserved_props by blast

lemma encodeSegment_utf8 [simp]: "utf8_encode (encodeSegment s) = encodeSegment s"
  by (rule utf8_encode_ascii [OF encodeSegment_ascii])

subsection \<open>The order of sortable numbers\<close>

fun fixed_hex :: "nat \<Rightarrow> int \<Rightarrow> string" where
  "fixed_hex 0 n = []"
| "fixed_hex (Suc k) n = fixed_hex k (n div 16) @ [digit_char (n mod 16)]"

lemma length_fixed_hex [simp]: "length (fixed_hex k n) = k"
  by (induction k arbitrary: n) auto

lemma fixed_hex_zero: "fixed_hex k 0 = replicate k CHR ''0''"
proof (induction k)
  case (Suc k)
  have "digit_char 0 = CHR ''0''" by code_simp
  with Suc show ?case by (simp add: replicate_append_same)
qed simp

lemma digits_of_step:
  "0 \<le> n \<Longrightarrow> digits_of 16 n = (if n < 16 then [digit_char n] else digits_of 16 (n div 16) @ [digit_char (n mod 16)])"
  by (simp add: digits_of_def digits_rev.simps [of 16 n])

lemma pad_digits_fixed:
  "0 < k \<Longrightarrow> 0 \<le> n \<Longrightarrow> n < 16 ^ k \<Longrightarrow> pad_start k CHR ''0'' (digits_of 16 n) = fixed_hex k n"
proof (induction k arbitrary: n)
  case (Suc k)
  show ?case
  proof (cases "n < 16")
    case True
    with Suc.prems have "digits_of 16 n = [digit_char n]" "n div 16 = 0" "n mod 16 = n"
      by (simp_all add: digits_of_step)
    then show ?thesis by (simp add: pad_start_def fixed_hex_zero)
  next
    case False
    with Suc.prems have k: "0 < k" by (cases k) auto
    have "n div 16 < 16 ^ k" using Suc.prems by simp
    with Suc k have "pad_start k CHR ''0'' (digits_of 16 (n div 16)) = fixed_hex k (n div 16)" by simp
    with False Suc.prems show ?thesis by (simp add: digits_of_step [of n] pad_start_def)
  qed
qed simp

lemma list_less_snoc:
  fixes x y :: "'a :: order"
  shows "length xs = length ys \<Longrightarrow> xs @ [x] < ys @ [y] \<longleftrightarrow> xs < ys \<or> xs = ys \<and> x < y"
proof (induction xs ys rule: list_induct2)
  case (Cons a as b bs)
  then show ?case by auto
qed simp

lemma digit_char_less: "0 \<le> a \<Longrightarrow> a < 16 \<Longrightarrow> 0 \<le> b \<Longrightarrow> b < 16 \<Longrightarrow> digit_char a < digit_char b \<longleftrightarrow> a < b"
proof -
  assume ab: "0 \<le> a" "a < 16" "0 \<le> b" "b < 16"
  have "digit_char a < digit_char b \<longleftrightarrow> (of_char (digit_char a) :: nat) < of_char (digit_char b)"
    by (simp add: less_char_def)
  also have "\<dots> \<longleftrightarrow> int (of_char (digit_char a)) < int (of_char (digit_char b))" by linarith
  also have "\<dots> \<longleftrightarrow> (of_char (digit_char a) :: int) < of_char (digit_char b)"
    by (simp only: of_nat_of_char)
  finally show ?thesis using ab by (auto simp: of_char_digit_char)
qed

lemma fixed_hex_less:
  "0 \<le> n \<Longrightarrow> n < 16 ^ k \<Longrightarrow> 0 \<le> m \<Longrightarrow> m < 16 ^ k \<Longrightarrow> fixed_hex k n < fixed_hex k m \<longleftrightarrow> n < m"
proof (induction k arbitrary: n m)
  case (Suc k)
  have b: "n div 16 < 16 ^ k" "m div 16 < 16 ^ k" "0 \<le> n div 16" "0 \<le> m div 16" using Suc.prems by auto
  have IH: "fixed_hex k (n div 16) < fixed_hex k (m div 16) \<longleftrightarrow> n div 16 < m div 16"
    "fixed_hex k (m div 16) < fixed_hex k (n div 16) \<longleftrightarrow> m div 16 < n div 16"
    using b by (simp_all add: Suc.IH)
  have eq: "fixed_hex k (n div 16) = fixed_hex k (m div 16) \<longleftrightarrow> n div 16 = m div 16"
    using IH by (cases "n div 16" "m div 16" rule: linorder_cases) auto
  have "fixed_hex (Suc k) n < fixed_hex (Suc k) m \<longleftrightarrow>
      n div 16 < m div 16 \<or> n div 16 = m div 16 \<and> n mod 16 < m mod 16"
    by (simp add: list_less_snoc IH eq digit_char_less)
  also have "\<dots> \<longleftrightarrow> n < m"
  proof -
    have "n = 16 * (n div 16) + n mod 16" "m = 16 * (m div 16) + m mod 16" by simp_all
    moreover have "0 \<le> n mod 16" "n mod 16 < 16" "0 \<le> m mod 16" "m mod 16 < 16" by simp_all
    ultimately show ?thesis by linarith
  qed
  finally show ?case .
qed simp

lemma fixed_hex_inject:
  "0 \<le> n \<Longrightarrow> n < 16 ^ k \<Longrightarrow> 0 \<le> m \<Longrightarrow> m < 16 ^ k \<Longrightarrow> fixed_hex k n = fixed_hex k m \<longleftrightarrow> n = m"
  using fixed_hex_less [of n k m] fixed_hex_less [of m k n] by (cases n m rule: linorder_cases) auto

lemma hex16_fixed: "hex16 w = fixed_hex 16 (uint w)"
  unfolding hex16_def using uint_bounded [of w] by (intro pad_digits_fixed) auto

lemma hex16_less: "hex16 v < hex16 w \<longleftrightarrow> uint v < uint w"
  unfolding hex16_fixed using uint_bounded [of v] uint_bounded [of w] by (intro fixed_hex_less) auto

text \<open>The position of a double in the order of the encoded strings.\<close>

definition sort_position :: "f64 \<Rightarrow> int" where
  "sort_position x = (if f64_negative x then 2 ^ 63 - 1 - f64_magnitude x else 2 ^ 63 + f64_magnitude x)"

lemma bit63: "bit (x :: 64 word) 63 \<longleftrightarrow> f64_negative x"
proof -
  have u: "0 \<le> uint x" "uint x < 2 ^ 64" using uint_bounded [of x] by simp_all
  have "bit x 63 \<longleftrightarrow> odd (uint x div 2 ^ 63)" 
    by (simp only: bit_iff_odd [of "uint x" 63, symmetric] bit_uint_iff) simp
  also have "\<dots> \<longleftrightarrow> uint x \<ge> 2 ^ 63"
  proof (cases "uint x \<ge> 2 ^ 63")
    case True
    then have "uint x div 2 ^ 63 = 1" using u by (intro div_pos_geq [THEN trans]) auto
    with True show ?thesis by simp
  next
    case False
    then have "uint x div 2 ^ 63 = 0" using u by simp
    with False show ?thesis by simp
  qed
  finally show ?thesis by (simp add: f64_negative_def)
qed

lemma uint_word64: "0 \<le> k \<Longrightarrow> k < 2 ^ 64 \<Longrightarrow> uint (word_of_int k :: 64 word) = k"
  by (simp add: uint_word_of_int take_bit_int_eq_self)

lemma uint_sortable:
  "uint (if and x SIGN_MASK \<noteq> 0 then not x else xor x SIGN_MASK) = sort_position x"
proof -
  have u: "0 \<le> uint x" "uint x < 2 ^ 64" using uint_bounded [of x] by simp_all
  have mag: "uint x = f64_magnitude x + (if f64_negative x then 2 ^ 63 else 0)"
    using f64_make_magnitude [of x] uint_f64_make [OF f64_magnitude_bounds(1,2) [of x], of "f64_negative x"]
    by simp
  have t: "and x SIGN_MASK \<noteq> 0 \<longleftrightarrow> f64_negative x"
    unfolding SIGN_MASK_def using and_exp_eq_0_iff_not_bit [of x 63] bit63 by blast
  show ?thesis
  proof (cases "f64_negative x")
    case True
    have "not x = word_of_int (2 ^ 64 - 1 - uint x)"
      by (simp add: not_eq_complement)
    then have "uint (not x) = 2 ^ 64 - 1 - uint x" using u uint_word64 [of "2 ^ 64 - 1 - uint x"] by (simp only:)
    with t True mag show ?thesis by (simp add: sort_position_def)
  next
    case False
    have "xor x SIGN_MASK = flip_bit 63 x" by (simp add: flip_bit_eq_xor SIGN_MASK_def push_bit_eq_mult)
    also have "\<dots> = x + 2 ^ 63" using False by (simp add: flip_bit_eq_if bit63 set_bit_eq)
    also have "\<dots> = word_of_int (uint x + 2 ^ 63)" by simp
    finally have "xor x SIGN_MASK = word_of_int (uint x + 2 ^ 63)" .
    then have "uint (xor x SIGN_MASK) = uint x + 2 ^ 63"
      using False mag f64_magnitude_bounds [of x] uint_word64 [of "uint x + 2 ^ 63"] by (simp only:) simp
    with t False mag show ?thesis by (simp add: sort_position_def)
  qed
qed

lemma sortableFloat64_position: "f64_is_finite x \<Longrightarrow> sortableFloat64 x = fixed_hex 16 (sort_position x)"
  unfolding sortableFloat64_def hex16_fixed uint_sortable by simp

lemma sort_position_bounds: "0 \<le> sort_position x" "sort_position x < 16 ^ 16"
  using f64_magnitude_bounds [of x] by (auto simp: sort_position_def)

lemma sort_position_less:
  assumes "\<not> (f64_magnitude x = 0 \<and> f64_magnitude y = 0)"
  shows "sort_position x < sort_position y \<longleftrightarrow> f64_key x < f64_key y"
  using assms f64_magnitude_bounds [of x] f64_magnitude_bounds [of y]
  by (auto simp: sort_position_def f64_key_def)

lemma sort_position_inject: "sort_position x = sort_position y \<longleftrightarrow> x = y"
proof
  assume eq: "sort_position x = sort_position y"
  have "f64_negative x = f64_negative y \<and> f64_magnitude x = f64_magnitude y"
    using eq f64_magnitude_bounds [of x] f64_magnitude_bounds [of y]
    unfolding sort_position_def by (cases "f64_negative x"; cases "f64_negative y") simp_all
  then have "f64_make (f64_negative x) (f64_magnitude x) = f64_make (f64_negative y) (f64_magnitude y)"
    by simp
  then show "x = y" by (simp only: f64_make_magnitude)
qed simp

lemma sortable_less:
  "f64_is_finite x \<Longrightarrow> f64_is_finite y \<Longrightarrow>
   sortableFloat64 x < sortableFloat64 y \<longleftrightarrow> sort_position x < sort_position y"
  using fixed_hex_less [OF sort_position_bounds(1,2) sort_position_bounds(1,2), of x y]
  by (simp add: sortableFloat64_position)

lemma finite_not_nan: "f64_is_finite x \<Longrightarrow> \<not> f64_is_nan x"
  by (simp add: f64_is_finite_def f64_is_nan_def)

lemma reverseSortable_fixed:
  assumes "0 \<le> n" and "n < 16 ^ 16"
  shows "reverseSortable (fixed_hex 16 n) = fixed_hex 16 (16 ^ 16 - 1 - n)"
proof -
  have "fixed_hex k n = pad_start k CHR ''0'' (digits_of 16 n)" if "k = 16" for k
    using assms that by (intro pad_digits_fixed [symmetric]) auto
  moreover have "value_of_digits 16 (replicate j CHR ''0'' @ s) = value_of_digits 16 s" for j s
    by (induction j) (simp_all add: value_of_digits_def digit_value_def is_digit_def)
  ultimately have "value_of_digits 16 (fixed_hex 16 n) = n"
    using assms by (simp add: pad_start_def value_digits_of)
  moreover have "uint (- 1 :: 64 word) = 16 ^ 16 - 1" by code_simp
  moreover have "pad_start 16 CHR ''0'' (digits_of 16 (16 ^ 16 - 1 - n)) = fixed_hex 16 (16 ^ 16 - 1 - n)"
    using assms by (intro pad_digits_fixed) auto
  ultimately show ?thesis unfolding reverseSortable_def by simp
qed

lemma reverse_sortable_less:
  "f64_is_finite x \<Longrightarrow> f64_is_finite y \<Longrightarrow>
   reverseSortable (sortableFloat64 x) < reverseSortable (sortableFloat64 y) \<longleftrightarrow> sort_position y < sort_position x"
  using sort_position_bounds [of x] sort_position_bounds [of y]
    fixed_hex_less [of "16 ^ 16 - 1 - sort_position x" 16 "16 ^ 16 - 1 - sort_position y"]
  by (simp add: sortableFloat64_position reverseSortable_fixed)

lemma sortable_no_slash:
  assumes "f64_is_finite x"
  shows "CHR ''/'' \<notin> set (sortableFloat64 x)" "CHR ''/'' \<notin> set (reverseSortable (sortableFloat64 x))"
    "sortableFloat64 x \<noteq> []"
proof -
  have d: "0 \<le> d \<Longrightarrow> d < 16 \<Longrightarrow> digit_char d \<noteq> CHR ''/''" for d
    using of_char_digit_char [of d] by (auto split: if_splits)
  have f: "CHR ''/'' \<notin> set (fixed_hex k n)" for k n
  proof (induction k arbitrary: n)
    case (Suc k)
    then show ?case using d [of "n mod 16"] by auto
  qed simp
  show "CHR ''/'' \<notin> set (sortableFloat64 x)" "CHR ''/'' \<notin> set (reverseSortable (sortableFloat64 x))"
    using f assms sort_position_bounds by (simp_all add: sortableFloat64_position reverseSortable_fixed)
  have "length (sortableFloat64 x) = 16" using assms by (simp add: sortableFloat64_position)
  then show "sortableFloat64 x \<noteq> []" by auto
qed

text \<open>The encoding of numbers keeps their order: for finite doubles that are not both zero, the
  sortable strings compare as the numbers do and the reversed strings the other way round.\<close>

theorem sortable_order:
  assumes "f64_is_finite x" and "f64_is_finite y" and "\<not> (f64_magnitude x = 0 \<and> f64_magnitude y = 0)"
  shows "(sortableFloat64 x < sortableFloat64 y \<longleftrightarrow> f64_lt x y) \<and>
    (reverseSortable (sortableFloat64 x) < reverseSortable (sortableFloat64 y) \<longleftrightarrow> f64_lt y x)"
proof -
  have "\<not> (f64_magnitude y = 0 \<and> f64_magnitude x = 0)" using assms(3) by blast
  from sort_position_less [OF this] sort_position_less [OF assms(3)] assms(1,2) finite_not_nan
  show ?thesis by (simp add: sortable_less reverse_sortable_less f64_lt_def)
qed

theorem sortable_order_witness:
  "sortableFloat64 (f64_of_int (- 5)) < sortableFloat64 (f64_of_int 3) \<and>
   reverseSortable (sortableFloat64 (f64_of_int 3)) < reverseSortable (sortableFloat64 (f64_of_int (- 5)))"
proof -
  have "f64_is_finite (f64_of_int (- 5))" "f64_is_finite (f64_of_int 3)"
    "\<not> (f64_magnitude (f64_of_int (- 5)) = 0 \<and> f64_magnitude (f64_of_int 3) = 0)"
    "f64_lt (f64_of_int (- 5)) (f64_of_int 3)"
    by code_simp+
  then show ?thesis
    using sortable_order [of "f64_of_int (- 5)" "f64_of_int 3"]
      sortable_order [of "f64_of_int 3" "f64_of_int (- 5)"] by blast
qed

end
