(* ===== verification/Filesystem.thy ===== *)
theory Filesystem imports Paths begin

section \<open>The filesystem contract (src/src/browser/core/filesystem.js)\<close>

text \<open>
  Every module that touches storage composes over a \<open>FyloFilesystem\<close>.  The record \<open>fs_ops\<close> holds
  its methods as operations on the host's state; the modules take it as an argument, as the
  code takes \<open>this.fs\<close>.  An operation that stamps times receives the reading of \<open>Date.now()\<close>.

  Four locales state what a host promises: its state stands for a map from paths to bytes and
  a set of directories, reads look at them and change nothing (\<open>fylo_lookup\<close>), writes act on
  them as POSIX would (\<open>fylo_tree\<close>), and so does the removal of a directory (\<open>fylo_filesystem\<close>).
  Hosts differ in what a lookup through a file does, so \<open>fylo_lookup\<close> speaks only of paths none of
  whose ancestors is a file; \<open>fylo_reader\<close> adds that a lookup answers for every path.
\<close>

record 'f fs_ops =
  fs_exists :: "string \<Rightarrow> ('f, bool) op"
  fs_isDirectory :: "string \<Rightarrow> ('f, bool) op"
  fs_mtimeMs :: "string \<Rightarrow> ('f, int) op"
  fs_size :: "string \<Rightarrow> ('f, nat) op"
  fs_mkdir :: "int \<Rightarrow> string \<Rightarrow> bool \<Rightarrow> ('f, unit) op"
  fs_list :: "string \<Rightarrow> ('f, string list) op"
  fs_rmdir :: "int \<Rightarrow> string \<Rightarrow> bool \<Rightarrow> ('f, unit) op"
  fs_readText :: "string \<Rightarrow> ('f, string) op"
  fs_readBytes :: "string \<Rightarrow> ('f, bytes) op"
  fs_writeText :: "int \<Rightarrow> string \<Rightarrow> string \<Rightarrow> ('f, unit) op"
  fs_writeBytes :: "int \<Rightarrow> string \<Rightarrow> bytes \<Rightarrow> ('f, unit) op"
  fs_appendText :: "int \<Rightarrow> string \<Rightarrow> string \<Rightarrow> ('f, unit) op"
  fs_remove :: "string \<Rightarrow> ('f, unit) op"
  fs_move :: "int \<Rightarrow> string \<Rightarrow> string \<Rightarrow> ('f, unit) op"

subsection \<open>The abstract directory tree\<close>

text \<open>Absolute paths in normal form, their ancestors, and where a file may be written.\<close>

definition abs_paths :: "string set" where
  "abs_paths = {abs_path ss | ss. plain_segments ss}"

definition ancestors :: "string \<Rightarrow> string set" where
  "ancestors p = {abs_path (take n (segments_of p)) | n. n < length (segments_of p)}"

definition self_and_ancestors :: "string \<Rightarrow> string set" where
  "self_and_ancestors p = insert p (ancestors p)"

definition below :: "string \<Rightarrow> string set" where
  "below p = {q \<in> abs_paths. p \<in> self_and_ancestors q}"

lemma abs_paths_iff: "p \<in> abs_paths \<longleftrightarrow> starts_with ''/'' p \<and> normalize p = p"
proof
  assume "p \<in> abs_paths"
  then show "starts_with ''/'' p \<and> normalize p = p" by (auto simp: abs_paths_def)
next
  assume "starts_with ''/'' p \<and> normalize p = p"
  then show "p \<in> abs_paths"
    unfolding abs_paths_def using normalize_is_abs_path [of p] segments_of_plain [of p] by auto
qed

lemma abs_path_in [simp]: "plain_segments ss \<Longrightarrow> abs_path ss \<in> abs_paths"
  by (auto simp: abs_paths_def)

lemma plain_segments_take: "plain_segments ss \<Longrightarrow> plain_segments (take n ss)"
  by (auto simp: plain_segments_def dest: in_set_takeD)

lemma ancestors_abs_path:
  "plain_segments ss \<Longrightarrow> ancestors (abs_path ss) = {abs_path (take n ss) | n. n < length ss}"
  by (simp add: ancestors_def)

lemma ancestors_snoc:
  assumes "plain_segments (ss @ [s])"
  shows "ancestors (abs_path (ss @ [s])) = insert (abs_path ss) (ancestors (abs_path ss))"
proof -
  have "(\<lambda>n. abs_path (take n (ss @ [s]))) ` {..<length (ss @ [s])} =
      insert (abs_path ss) ((\<lambda>n. abs_path (take n ss)) ` {..<length ss})"
    by (simp add: lessThan_Suc)
  moreover have "{abs_path (take n ts) | n. n < length ts} = (\<lambda>n. abs_path (take n ts)) ` {..<length ts}" for ts
    by auto
  ultimately show ?thesis using assms by (simp only: ancestors_abs_path plain_segments_simps)
qed

lemma not_own_ancestor: "plain_segments ss \<Longrightarrow> abs_path ss \<notin> ancestors (abs_path ss)"
proof
  assume p: "plain_segments ss" and "abs_path ss \<in> ancestors (abs_path ss)"
  then obtain n where "abs_path ss = abs_path (take n ss)" "n < length ss"
    by (auto simp: ancestors_abs_path)
  then show False using p plain_segments_take by (metis abs_path_inject length_take min.absorb4 less_irrefl)
qed

lemma abs_path_below:
  assumes "plain_segments ss" and "plain_segments ts"
  shows "abs_path ss \<in> self_and_ancestors (abs_path ts) \<longleftrightarrow> prefix ss ts"
proof
  assume "abs_path ss \<in> self_and_ancestors (abs_path ts)"
  then show "prefix ss ts"
    using assms plain_segments_take [OF assms(2)]
    by (auto simp: self_and_ancestors_def ancestors_abs_path take_is_prefix)
next
  assume "prefix ss ts"
  then obtain us where ts: "ts = ss @ us" by (auto simp: prefix_def)
  show "abs_path ss \<in> self_and_ancestors (abs_path ts)"
  proof (cases "us = []")
    case False
    then have "abs_path ss = abs_path (take (length ss) ts)" "length ss < length ts"
      using ts by simp_all
    then show ?thesis using assms(2) by (auto simp: self_and_ancestors_def ancestors_abs_path)
  qed (simp add: ts self_and_ancestors_def)
qed

text \<open>Disjoint directories have no common entries.\<close>

lemma ancestors_subset_abs: "p \<in> abs_paths \<Longrightarrow> ancestors p \<subseteq> abs_paths"
  using plain_segments_take by (fastforce simp: abs_paths_def ancestors_abs_path)

subsection \<open>The contract\<close>

locale fylo_lookup =
  fixes ops :: "'f fs_ops"
    and inv :: "'f \<Rightarrow> bool"
    and afile :: "'f \<Rightarrow> string \<Rightarrow> bytes option"
    and adir :: "'f \<Rightarrow> string set"
  assumes exists_spec:
      "inv f \<Longrightarrow> p \<in> abs_paths \<Longrightarrow> \<forall>q\<in>ancestors p. afile f q = None \<Longrightarrow>
        fs_exists ops p f = (Inr (afile f p \<noteq> None \<or> p \<in> adir f), f)"
    and is_dir_spec:
      "inv f \<Longrightarrow> p \<in> abs_paths \<Longrightarrow> \<forall>q\<in>self_and_ancestors p. afile f q = None \<Longrightarrow>
        fs_isDirectory ops p f = (Inr (p \<in> adir f), f)"
    and mtime_spec:
      "inv f \<Longrightarrow> p \<in> abs_paths \<Longrightarrow> afile f p \<noteq> None \<Longrightarrow> \<exists>t. fs_mtimeMs ops p f = (Inr t, f)"
    and read_bytes_spec:
      "inv f \<Longrightarrow> p \<in> abs_paths \<Longrightarrow> afile f p = Some b \<Longrightarrow> fs_readBytes ops p f = (Inr b, f)"
    and read_text_spec:
      "inv f \<Longrightarrow> p \<in> abs_paths \<Longrightarrow> afile f p = Some b \<Longrightarrow> fs_readText ops p f = (Inr (utf8_decode b), f)"
    and list_spec:
      "inv f \<Longrightarrow> plain_segments ss \<Longrightarrow> abs_path ss \<in> adir f \<Longrightarrow>
        fs_list ops (abs_path ss) f =
          (Inr (sorted_list_of_set {s. plain_segment s \<and>
             (afile f (abs_path (ss @ [s])) \<noteq> None \<or> abs_path (ss @ [s]) \<in> adir f)}), f)"
    and list_absent:
      "inv f \<Longrightarrow> p \<in> abs_paths \<Longrightarrow> p \<notin> adir f \<Longrightarrow>
        \<exists>r. fs_list ops p f = (r, f) \<and> (\<forall>names. r = Inr names \<longrightarrow> names = [])"
    and entries: "inv f \<Longrightarrow> afile f p \<noteq> None \<or> p \<in> adir f \<Longrightarrow> p \<in> abs_paths \<and> ancestors p \<subseteq> adir f"
    and no_both: "inv f \<Longrightarrow> p \<in> adir f \<Longrightarrow> afile f p = None"
    and root_dir: "inv f \<Longrightarrow> ''/'' \<in> adir f"
    and finite_tree: "inv f \<Longrightarrow> finite ({p. afile f p \<noteq> None} \<union> adir f)"
begin

text \<open>A parent that holds an entry is a directory, so writing below it is allowed.\<close>

lemma ancestor_dirs_no_files:
  "inv f \<Longrightarrow> p \<in> adir f \<Longrightarrow> q \<in> self_and_ancestors p \<Longrightarrow> afile f q = None"
  unfolding self_and_ancestors_def using entries [of f p] no_both [of f q] by auto

lemma finite_entries:
  assumes "inv f" and "plain_segments ss"
  shows "finite {s. plain_segment s \<and> (afile f (abs_path (ss @ [s])) \<noteq> None \<or> abs_path (ss @ [s]) \<in> adir f)}"
proof -
  let ?N = "{s. plain_segment s \<and> (afile f (abs_path (ss @ [s])) \<noteq> None \<or> abs_path (ss @ [s]) \<in> adir f)}"
  have "inj_on (\<lambda>s. abs_path (ss @ [s])) ?N" using assms(2) by (auto intro!: inj_onI)
  moreover have "(\<lambda>s. abs_path (ss @ [s])) ` ?N \<subseteq> {p. afile f p \<noteq> None} \<union> adir f" by auto
  then have "finite ((\<lambda>s. abs_path (ss @ [s])) ` ?N)" using finite_tree [OF assms(1)] finite_subset by blast
  ultimately show "finite ?N" using finite_imageD by blast
qed

end

text \<open>A host on which every lookup answers, through a file too.\<close>

locale fylo_reader = fylo_lookup ops inv afile adir
  for ops :: "'f fs_ops" and inv :: "'f \<Rightarrow> bool" and afile :: "'f \<Rightarrow> string \<Rightarrow> bytes option"
    and adir :: "'f \<Rightarrow> string set" +
  assumes exists_any:
      "inv f \<Longrightarrow> p \<in> abs_paths \<Longrightarrow> fs_exists ops p f = (Inr (afile f p \<noteq> None \<or> p \<in> adir f), f)"
    and is_dir_any:
      "inv f \<Longrightarrow> p \<in> abs_paths \<Longrightarrow> fs_isDirectory ops p f = (Inr (p \<in> adir f), f)"
    and mtime_any:
      "inv f \<Longrightarrow> p \<in> abs_paths \<Longrightarrow> afile f p \<noteq> None \<or> p \<in> adir f \<Longrightarrow>
        \<exists>t. fs_mtimeMs ops p f = (Inr t, f)"

text \<open>A host that can be written: each write has exactly the effect POSIX gives it.\<close>

locale fylo_tree = fylo_lookup ops inv afile adir
  for ops :: "'f fs_ops" and inv :: "'f \<Rightarrow> bool" and afile :: "'f \<Rightarrow> string \<Rightarrow> bytes option"
    and adir :: "'f \<Rightarrow> string set" +
  assumes mtime_write:
      "inv f \<Longrightarrow> p \<in> abs_paths \<Longrightarrow> fs_writeText ops now p t f = (Inr (), g) \<Longrightarrow>
        fs_mtimeMs ops p g = (Inr now, g)"
    and write_text_spec:
      "inv f \<Longrightarrow> p \<in> abs_paths \<Longrightarrow> p \<notin> adir f \<Longrightarrow> \<forall>q\<in>ancestors p. afile f q = None \<Longrightarrow>
        \<exists>g. fs_writeText ops now p t f = (Inr (), g) \<and> inv g \<and>
            afile g = (afile f)(p \<mapsto> utf8_encode t) \<and> adir g = adir f \<union> ancestors p"
    and append_text_spec:
      "inv f \<Longrightarrow> p \<in> abs_paths \<Longrightarrow> p \<notin> adir f \<Longrightarrow> \<forall>q\<in>ancestors p. afile f q = None \<Longrightarrow>
        \<exists>g. fs_appendText ops now p t f = (Inr (), g) \<and> inv g \<and>
            afile g = (afile f)(p \<mapsto> (case afile f p of Some b \<Rightarrow> b | None \<Rightarrow> []) @ utf8_encode t) \<and>
            adir g = adir f \<union> ancestors p"
    and remove_spec:
      "inv f \<Longrightarrow> p \<in> abs_paths \<Longrightarrow> afile f p \<noteq> None \<Longrightarrow>
        \<exists>g. fs_remove ops p f = (Inr (), g) \<and> inv g \<and>
            afile g = (afile f)(p := None) \<and> adir g = adir f"
    and mkdir_spec:
      "inv f \<Longrightarrow> p \<in> abs_paths \<Longrightarrow> \<forall>q\<in>self_and_ancestors p. afile f q = None \<Longrightarrow>
        \<exists>g. fs_mkdir ops now p True f = (Inr (), g) \<and> inv g \<and> afile g = afile f \<and>
            adir g = adir f \<union> self_and_ancestors p"
begin

lemma write_then_read:
  assumes "inv f" and "p \<in> abs_paths" and "p \<notin> adir f" and "\<forall>q\<in>ancestors p. afile f q = None"
  shows "\<exists>g. fs_writeText ops now p t f = (Inr (), g) \<and> fs_readText ops p g = (Inr t, g)"
proof -
  obtain g where "fs_writeText ops now p t f = (Inr (), g)" "inv g"
    "afile g = (afile f)(p \<mapsto> utf8_encode t)"
    using write_text_spec [OF assms] by blast
  with assms read_text_spec [of g p "utf8_encode t"] show ?thesis by auto
qed

end

text \<open>
  Removing a directory takes everything below it.  The engine needs this only when it drops a
  collection or an index; a host may keep the rest of the contract without it.
\<close>

locale fylo_filesystem = fylo_tree ops inv afile adir
  for ops :: "'f fs_ops" and inv :: "'f \<Rightarrow> bool" and afile :: "'f \<Rightarrow> string \<Rightarrow> bytes option"
    and adir :: "'f \<Rightarrow> string set" +
  assumes rmdir_spec:
      "inv f \<Longrightarrow> p \<in> abs_paths \<Longrightarrow> p \<noteq> ''/'' \<Longrightarrow> p \<in> adir f \<Longrightarrow>
        \<exists>g. fs_rmdir ops now p True f = (Inr (), g) \<and> inv g \<and>
            afile g = (\<lambda>q. if q \<in> below p then None else afile f q) \<and> adir g = adir f - below p"
begin

lemma below_file_untouched: "q \<notin> below p \<Longrightarrow> inv f \<Longrightarrow> p \<in> abs_paths \<Longrightarrow> p \<noteq> ''/'' \<Longrightarrow>
    p \<in> adir f \<Longrightarrow> fs_rmdir ops now p True f = (Inr (), g) \<Longrightarrow> afile g q = afile f q"
  using rmdir_spec [of f p now] by auto

end

end
