(* ===== verification/World.thy ===== *)
theory World imports PrefixCodec Filesystem begin

section \<open>The state the browser core shares (src/src/browser/core/engine.js)\<close>

text \<open>
  The fields of \<open>BrowserCore\<close> and of the modules it owns: the filesystem host, the caches and the
  acceleration state of the prefix index, and what was dispatched to in-process listeners.
  The readings of \<open>Date.now()\<close> are successive values of a clock the model knows nothing about.
  What the constructor fixes is the record \<open>core\<close>: filesystem methods, root, WORM mode, the digest
  of Web Crypto, the optional scanner factory of the WebAssembly accelerator, and the readings of the
  high resolution clock in base 36 that new identifiers are made of, by the ordinal of the reading.
\<close>

subsection \<open>Configuration\<close>

text \<open>
  An index scanner as the code uses it: it is created, loads a snapshot and then answers a prefix
  query with a range on that snapshot.  Each step may throw.
\<close>

record scanner_factory =
  factory_ready :: "unit result"
  factory_create :: "unit result"
  scanner_load :: "bytes \<Rightarrow> unit result"
  scanner_scan :: "bytes \<Rightarrow> string \<Rightarrow> range_bound option \<Rightarrow> string list result"

record 'f core =
  fs :: "'f fs_ops"
  root :: string
  wormMode :: string
  digest :: "bytes \<Rightarrow> bytes"
  indexScannerFactory :: "scanner_factory option"
  ttid_code :: "nat \<Rightarrow> string"

subsection \<open>State\<close>

record overlay =
  added :: "string list"
  removed :: "string list"

datatype acceleration_state = Loading | Active | Fallback

record index_metrics =
  snapshotReads :: nat
  snapshotBytes :: nat
  walReads :: nat
  walBytes :: nat
  snapshotLoads :: nat
  scans :: nat

record index_state =
  snapshotCache :: "(string \<times> bytes) list"
  scanners :: "string list"
  scannerSnapshots :: "(string \<times> bytes) list"
  walOverlayCache :: "(string \<times> overlay) list"
  accelerationState :: acceleration_state
  accelerationError :: "string option"
  accelerationReasonCode :: "string option"
  accelerationMetrics :: index_metrics

record 'f world =
  disk :: 'f
  clock :: "nat \<Rightarrow> int"
  ticks :: nat
  index :: index_state
  dispatched :: "(string \<times> jsval) list"

definition new_index_state :: index_state where
  "new_index_state = \<lparr> snapshotCache = [], scanners = [], scannerSnapshots = [], walOverlayCache = [],
     accelerationState = Loading, accelerationError = None, accelerationReasonCode = None,
     accelerationMetrics = \<lparr> snapshotReads = 0, snapshotBytes = 0, walReads = 0, walBytes = 0,
       snapshotLoads = 0, scans = 0 \<rparr> \<rparr>"

definition new_world :: "'f \<Rightarrow> (nat \<Rightarrow> int) \<Rightarrow> 'f world" where
  "new_world f c = \<lparr> disk = f, clock = c, ticks = 0, index = new_index_state, dispatched = [] \<rparr>"

subsection \<open>Running operations of the host\<close>

definition on_disk :: "('f, 'a) op \<Rightarrow> ('f world, 'a) op" where
  "on_disk m w = (case m (disk w) of (r, d) \<Rightarrow> (r, w\<lparr> disk := d \<rparr>))"

definition date_now :: "('f world, int) op" where
  "date_now w = (Inr (clock w (ticks w)), w\<lparr> ticks := Suc (ticks w) \<rparr>)"

definition stamped :: "(int \<Rightarrow> ('f, 'a) op) \<Rightarrow> ('f world, 'a) op" where
  "stamped m = bind_op date_now (\<lambda>now. on_disk (m now))"

definition modify_index :: "(index_state \<Rightarrow> index_state) \<Rightarrow> ('f world, unit) op" where
  "modify_index f = modify (\<lambda>w. w\<lparr> index := f (index w) \<rparr>)"

definition w_exists :: "'f core \<Rightarrow> string \<Rightarrow> ('f world, bool) op" where
  "w_exists env p = on_disk (fs_exists (fs env) p)"

definition w_readText :: "'f core \<Rightarrow> string \<Rightarrow> ('f world, string) op" where
  "w_readText env p = on_disk (fs_readText (fs env) p)"

definition w_writeText :: "'f core \<Rightarrow> string \<Rightarrow> string \<Rightarrow> ('f world, unit) op" where
  "w_writeText env p t = stamped (\<lambda>now. fs_writeText (fs env) now p t)"

definition w_appendText :: "'f core \<Rightarrow> string \<Rightarrow> string \<Rightarrow> ('f world, unit) op" where
  "w_appendText env p t = stamped (\<lambda>now. fs_appendText (fs env) now p t)"

definition w_mkdir :: "'f core \<Rightarrow> string \<Rightarrow> ('f world, unit) op" where
  "w_mkdir env p = stamped (\<lambda>now. fs_mkdir (fs env) now p True)"

definition w_rmdir :: "'f core \<Rightarrow> string \<Rightarrow> ('f world, unit) op" where
  "w_rmdir env p = stamped (\<lambda>now. fs_rmdir (fs env) now p True)"

definition w_isDirectory :: "'f core \<Rightarrow> string \<Rightarrow> ('f world, bool) op" where
  "w_isDirectory env p = on_disk (fs_isDirectory (fs env) p)"

definition w_list :: "'f core \<Rightarrow> string \<Rightarrow> ('f world, string list) op" where
  "w_list env p = on_disk (fs_list (fs env) p)"

definition w_mtimeMs :: "'f core \<Rightarrow> string \<Rightarrow> ('f world, int) op" where
  "w_mtimeMs env p = on_disk (fs_mtimeMs (fs env) p)"

definition w_remove :: "'f core \<Rightarrow> string \<Rightarrow> ('f world, unit) op" where
  "w_remove env p = on_disk (fs_remove (fs env) p)"

subsection \<open>Paths of a collection\<close>

definition join2 :: "string \<Rightarrow> string \<Rightarrow> string" where
  "join2 a b = path_join [Some a, Some b]"

definition join3 :: "string \<Rightarrow> string \<Rightarrow> string \<Rightarrow> string" where
  "join3 a b c = path_join [Some a, Some b, Some c]"

definition collectionRoot :: "'f core \<Rightarrow> string \<Rightarrow> string result" where
  "collectionRoot env collection =
     bind_result (validateCollectionName collection)
       (\<lambda>_. Inr (join3 (root env) ''.collections'' collection))"

definition wormEnabled :: "'f core \<Rightarrow> bool" where
  "wormEnabled env = (wormMode env = ''strict'')"

subsection \<open>Execution\<close>

lemma on_disk_run [exec_simps]: "m (disk w) = (r, d) \<Longrightarrow> on_disk m w = (r, w\<lparr> disk := d \<rparr>)"
  by (simp add: on_disk_def)

lemma on_disk_same: "m (disk w) = (r, disk w) \<Longrightarrow> on_disk m w = (r, w)"
  by (simp add: on_disk_def)

lemma stamped_run:
  "m (clock w (ticks w)) (disk w) = (r, d) \<Longrightarrow> stamped m w = (r, w\<lparr> ticks := Suc (ticks w), disk := d \<rparr>)"
  by (simp add: stamped_def date_now_def bind_op_def on_disk_def)

lemma modify_index_run [simp, exec_simps]: "modify_index f w = (Inr (), w\<lparr> index := f (index w) \<rparr>)"
  by (simp add: modify_index_def)

end
