(* ===== verification/PrefixIndex.thy ===== *)
theory PrefixIndex imports World "HOL-Library.AList" begin

section \<open>The prefix index store (src/src/browser/core/prefix-index.js)\<close>

text \<open>
  \<open>BrowserPrefixIndex\<close>: a sorted snapshot of keys, a write-ahead log of mutations, the caches of
  both, compaction, and the search that turns planned prefixes into candidate documents, in
  JavaScript or through the scanner.  Timings are left out of the metrics, counts are kept.
  The snapshot a scanner has loaded is compared by content where the code compares references.
\<close>

subsection \<open>Text formats\<close>

definition LOCAL_FS_FORMAT :: string where "LOCAL_FS_FORMAT = ''fylo.local-fs.index.v1''"
definition LOCAL_FS_MANIFEST :: string where "LOCAL_FS_MANIFEST = ''manifest.json''"
definition LOCAL_FS_SNAPSHOT :: string where "LOCAL_FS_SNAPSHOT = ''keys.snapshot''"
definition LOCAL_FS_WAL :: string where "LOCAL_FS_WAL = ''keys.wal''"
definition LOCAL_FS_WAL_COMPACT_BYTES :: int where "LOCAL_FS_WAL_COMPACT_BYTES = 1048576"

abbreviation newline :: char where "newline \<equiv> CHR 0x0A"

definition stripTrailingCarriageReturn :: "string \<Rightarrow> string" where
  "stripTrailingCarriageReturn line = (if ends_with [CHR 0x0D] line then drop_last 1 line else line)"

definition completeLines :: "string \<Rightarrow> string list" where
  "completeLines txt =
     (if txt = [] then []
      else let complete = (if ends_with [newline] txt then txt
             else take (case last_index_of newline txt of Some i \<Rightarrow> Suc i | None \<Rightarrow> 0) txt)
           in filter (\<lambda>l. l \<noteq> []) (map stripTrailingCarriageReturn (split_on newline complete)))"

definition serializeSnapshot :: "string list \<Rightarrow> string" where
  "serializeSnapshot keys = (if keys \<noteq> [] then join_with [newline] keys @ [newline] else [])"

datatype wal_op = Put | Del

type_synonym mutation = "wal_op \<times> string"

definition wal_sign :: "wal_op \<Rightarrow> char" where
  "wal_sign op = (case op of Put \<Rightarrow> CHR ''+'' | Del \<Rightarrow> CHR ''-'')"

definition serializeWal :: "mutation list \<Rightarrow> string" where
  "serializeWal mutations = concat (map (\<lambda>(op, key). wal_sign op # CHR 0x09 # key @ [newline]) mutations)"

definition parseWalMutation :: "string \<Rightarrow> mutation option" where
  "parseWalMutation line =
     (case line of
        o1 # t # key \<Rightarrow>
          if (o1 = CHR ''+'' \<or> o1 = CHR ''-'') \<and> t = CHR 0x09 \<and> key \<noteq> []
          then Some (if o1 = CHR ''+'' then Put else Del, key) else None
      | _ \<Rightarrow> None)"

definition parse_wal :: "string \<Rightarrow> mutation list" where
  "parse_wal wal = concat (map (\<lambda>line. case parseWalMutation line of Some m \<Rightarrow> [m] | None \<Rightarrow> [])
     (completeLines wal))"

subsection \<open>Key sets and overlays\<close>

definition apply_mutation :: "string list \<Rightarrow> mutation \<Rightarrow> string list" where
  "apply_mutation keys m = (case m of (Put, key) \<Rightarrow> push_new keys key | (Del, key) \<Rightarrow> removeAll key keys)"

definition overlay_mutation :: "overlay \<Rightarrow> mutation \<Rightarrow> overlay" where
  "overlay_mutation ov m =
     (case m of (Put, key) \<Rightarrow> ov\<lparr> added := push_new (added ov) key, removed := removeAll key (removed ov) \<rparr>
      | (Del, key) \<Rightarrow> ov\<lparr> added := removeAll key (added ov), removed := push_new (removed ov) key \<rparr>)"

definition empty_overlay :: overlay where
  "empty_overlay = \<lparr> added = [], removed = [] \<rparr>"

subsection \<open>Binary search in the snapshot\<close>

fun line_start :: "bytes \<Rightarrow> nat \<Rightarrow> nat" where
  "line_start bs 0 = 0"
| "line_start bs (Suc i) = (if bs ! i \<noteq> newline then line_start bs i else Suc i)"

function line_end :: "bytes \<Rightarrow> nat \<Rightarrow> nat" where
  "line_end bs i = (if i < length bs \<and> bs ! i \<noteq> newline then line_end bs (Suc i) else i)"
  by pat_completeness auto

termination by (relation "measure (\<lambda>(bs, i). length bs - i)") auto

declare line_end.simps [simp del]

definition slice :: "nat \<Rightarrow> nat \<Rightarrow> bytes \<Rightarrow> bytes" where
  "slice a b bs = take (b - a) (drop a bs)"

lemma line_start_le: "line_start bs i \<le> i"
  by (induction i) auto

lemma line_end_ge: "i \<le> line_end bs i"
proof (induction bs i rule: line_end.induct)
  case (1 bs i)
  then show ?case by (subst line_end.simps) auto
qed

function search_loop :: "bytes \<Rightarrow> string \<Rightarrow> nat \<Rightarrow> nat \<Rightarrow> nat" where
  "search_loop bs pre lo hi =
     (if lo < hi then
        (let mid = (lo + hi) div 2; st = line_start bs mid; en = line_end bs mid;
             key = utf8_decode (slice st en bs)
         in if key < pre then search_loop bs pre (en + 1) hi else search_loop bs pre lo st)
      else lo)"
  by pat_completeness auto

termination
proof (relation "measure (\<lambda>(bs, pre, lo, hi). hi - lo)", goal_cases)
  case (2 bs pre lo hi mid st en key)
  have "mid \<le> en" using line_end_ge [of mid bs] 2 by simp
  with 2 show ?case by (auto simp: less_Suc_eq_le)
next
  case (3 bs pre lo hi mid st en key)
  have "st \<le> mid" using line_start_le [of bs mid] 3 by simp
  moreover have "mid < hi" using 3 by auto
  ultimately show ?case using 3(1) by auto
qed auto

declare search_loop.simps [simp del]

definition findFirstKeyAtOrAfter :: "bytes \<Rightarrow> string \<Rightarrow> nat" where
  "findFirstKeyAtOrAfter bs pre =
     (if bs = [] then 0
      else let lo = search_loop bs pre 0 (length bs)
           in if lo < length bs then line_start bs lo else lo)"

function streamKeysFrom :: "bytes \<Rightarrow> nat \<Rightarrow> string list" where
  "streamKeysFrom bs cursor =
     (if cursor < length bs then
        (let en = line_end bs cursor; key = utf8_decode (slice cursor en bs)
         in (if key \<noteq> [] then [key] else []) @ streamKeysFrom bs (en + 1))
      else [])"
  by pat_completeness auto

termination
proof (relation "measure (\<lambda>(bs, cursor). length bs - cursor)", goal_cases)
  case (2 bs cursor en key)
  have "cursor \<le> en" using line_end_ge [of cursor bs] 2 by simp
  with 2 show ?case by auto
qed auto

declare streamKeysFrom.simps [simp del]

fun doc_ids_of :: "string \<Rightarrow> string list \<Rightarrow> string list result" where
  "doc_ids_of rootPrefix [] = Inr []"
| "doc_ids_of rootPrefix (key # keys) =
     bind_result (docIdFromKey rootPrefix key)
       (\<lambda>d. bind_result (doc_ids_of rootPrefix keys) (\<lambda>ds. Inr (d # ds)))"

definition scanSnapshotWithJavaScript :: "bytes \<Rightarrow> string \<Rightarrow> string \<Rightarrow> range_bound option \<Rightarrow> string list result" where
  "scanSnapshotWithJavaScript bs fullPrefix rootPrefix bound =
     bind_result (doc_ids_of rootPrefix
        (filter (\<lambda>key. includeKeyInRange key bound)
          (takeWhile (starts_with fullPrefix) (streamKeysFrom bs (findFirstKeyAtOrAfter bs fullPrefix)))))
       (\<lambda>ids. Inr (foldl push_new [] ids))"

definition intersect :: "string list option \<Rightarrow> string list \<Rightarrow> string list" where
  "intersect current next =
     (case current of None \<Rightarrow> next | Some c \<Rightarrow> filter (\<lambda>v. v \<in> set c) next)"

subsection \<open>Paths and files\<close>

definition index_root :: "'f core \<Rightarrow> string \<Rightarrow> string result" where
  "index_root env collection =
     bind_result (collectionRoot env collection) (\<lambda>r. Inr (join2 r ''index''))"

definition manifestPath :: "'f core \<Rightarrow> string \<Rightarrow> string result" where
  "manifestPath env collection =
     bind_result (index_root env collection) (\<lambda>r. Inr (join2 r LOCAL_FS_MANIFEST))"

definition snapshotPath :: "'f core \<Rightarrow> string \<Rightarrow> string result" where
  "snapshotPath env collection =
     bind_result (index_root env collection) (\<lambda>r. Inr (join2 r LOCAL_FS_SNAPSHOT))"

definition walPath :: "'f core \<Rightarrow> string \<Rightarrow> string result" where
  "walPath env collection =
     bind_result (index_root env collection) (\<lambda>r. Inr (join2 r LOCAL_FS_WAL))"

definition readTextIfExists :: "'f core \<Rightarrow> string \<Rightarrow> ('f world, string) op" where
  "readTextIfExists env path =
     bind_op (w_exists env path) (\<lambda>e. if \<not> e then ret [] else w_readText env path)"

definition writeIfMissing :: "'f core \<Rightarrow> string \<Rightarrow> string \<Rightarrow> ('f world, unit) op" where
  "writeIfMissing env path data =
     bind_op (w_exists env path) (\<lambda>e. if e then ret () else w_writeText env path data)"

definition manifest_text :: "int \<Rightarrow> string" where
  "manifest_text now = json_text (JObj [(''format'', JStr LOCAL_FS_FORMAT),
     (''createdAt'', JNum (f64_of_int now))]) @ [newline]"

definition index_ensureCollection :: "'f core \<Rightarrow> string \<Rightarrow> ('f world, unit) op" where
  "index_ensureCollection env collection =
     bind_op (of_result (index_root env collection)) (\<lambda>r.
     seq_op (w_mkdir env r) (
     bind_op (of_result (manifestPath env collection)) (\<lambda>m.
     bind_op date_now (\<lambda>now.
     seq_op (writeIfMissing env m (manifest_text now)) (
     bind_op (of_result (snapshotPath env collection)) (\<lambda>s.
     seq_op (writeIfMissing env s []) (
     bind_op (of_result (walPath env collection)) (\<lambda>w.
     writeIfMissing env w []))))))))"

subsection \<open>Acceleration\<close>

text \<open>\<open>close\<close> forgets the scanners; errors of their own \<open>close\<close> are swallowed.\<close>

definition index_close :: "('f world, unit) op" where
  "index_close = modify_index (\<lambda>i. i\<lparr> scanners := [], scannerSnapshots := [] \<rparr>)"

definition disableAcceleration :: "js_error \<Rightarrow> string \<Rightarrow> ('f world, unit) op" where
  "disableAcceleration error defaultCode =
     seq_op (modify_index (\<lambda>i. i\<lparr> accelerationState := Fallback,
         accelerationError := Some (err_message error),
         accelerationReasonCode := Some (case err_code error of
            Some code \<Rightarrow> if starts_with ''EWASM_'' code then code else defaultCode
          | None \<Rightarrow> defaultCode) \<rparr>))
       index_close"

definition index_ready :: "'f core \<Rightarrow> ('f world, unit) op" where
  "index_ready env w =
     (case indexScannerFactory env of
        None \<Rightarrow> (Inr (), w)
      | Some f \<Rightarrow>
          if accelerationState (index w) = Fallback then (Inr (), w)
          else case factory_ready f of
            Inr _ \<Rightarrow> modify_index (\<lambda>i. i\<lparr> accelerationState := Active \<rparr>) w
          | Inl e \<Rightarrow> disableAcceleration e ''EWASM_INSTANTIATE'' w)"

definition accelerationStatus :: "'f core \<Rightarrow> 'f world \<Rightarrow> jsval" where
  "accelerationStatus env w =
     (case indexScannerFactory env of
        None \<Rightarrow> JObj [(''mode'', JStr ''javascript''), (''state'', JStr ''off'')]
      | Some _ \<Rightarrow>
          let i = index w; m = accelerationMetrics i; num = (\<lambda>n. JNum (f64_of_int (int n)));
              status = [(''mode'', JStr ''wasm''),
                (''state'', JStr (case accelerationState i of Loading \<Rightarrow> ''loading''
                   | Active \<Rightarrow> ''active'' | Fallback \<Rightarrow> ''fallback'')),
                (''metrics'', JObj [(''snapshotReads'', num (snapshotReads m)),
                   (''snapshotBytes'', num (snapshotBytes m)), (''walReads'', num (walReads m)),
                   (''walBytes'', num (walBytes m)), (''snapshotLoads'', num (snapshotLoads m)),
                   (''scans'', num (scans m))])]
          in case accelerationError i of
               Some e \<Rightarrow> if e \<noteq> [] then JObj (status @
                   [(''reasonCode'', JStr (case accelerationReasonCode i of Some c \<Rightarrow> c
                        | None \<Rightarrow> ''EWASM_INSTANTIATE'')), (''error'', JStr e)])
                 else JObj status
             | None \<Rightarrow> JObj status)"

text \<open>The scanner of a collection, when acceleration is active and creation succeeds.\<close>

definition scannerFor :: "'f core \<Rightarrow> string \<Rightarrow> ('f world, scanner_factory option) op" where
  "scannerFor env collection w =
     (case indexScannerFactory env of
        None \<Rightarrow> (Inr None, w)
      | Some f \<Rightarrow>
          if accelerationState (index w) = Fallback then (Inr None, w)
          else bind_op (if accelerationState (index w) \<noteq> Active then index_ready env else ret ())
            (\<lambda>_ v. if accelerationState (index v) \<noteq> Active then (Inr None, v)
               else if collection \<in> set (scanners (index v)) then (Inr (Some f), v)
               else (case factory_create f of
                   Inr _ \<Rightarrow> (Inr (Some f), v\<lparr> index := (index v)\<lparr> scanners := push_new (scanners (index v)) collection \<rparr> \<rparr>)
                 | Inl e \<Rightarrow> bind_op (disableAcceleration e ''EWASM_INSTANTIATE'') (\<lambda>_. ret None) v)) w)"

definition forgetCollection :: "string \<Rightarrow> ('f world, unit) op" where
  "forgetCollection collection =
     modify_index (\<lambda>i. i\<lparr> snapshotCache := AList.delete collection (snapshotCache i),
       scannerSnapshots := AList.delete collection (scannerSnapshots i),
       walOverlayCache := AList.delete collection (walOverlayCache i),
       scanners := removeAll collection (scanners i) \<rparr>)"

definition resetCollection :: "'f core \<Rightarrow> string \<Rightarrow> ('f world, unit) op" where
  "resetCollection env collection =
     seq_op (forgetCollection collection) (
     bind_op (of_result (index_root env collection)) (\<lambda>r.
     seq_op (w_rmdir env r) (index_ensureCollection env collection)))"

subsection \<open>Reading\<close>

definition count_snapshot_read :: "bytes \<Rightarrow> index_metrics \<Rightarrow> index_metrics" where
  "count_snapshot_read b m = m\<lparr> snapshotReads := Suc (snapshotReads m), snapshotBytes := snapshotBytes m + length b \<rparr>"

definition count_wal_read :: "bytes \<Rightarrow> index_metrics \<Rightarrow> index_metrics" where
  "count_wal_read b m = m\<lparr> walReads := Suc (walReads m), walBytes := walBytes m + length b \<rparr>"

definition readSnapshotBytes :: "'f core \<Rightarrow> string \<Rightarrow> ('f world, bytes) op" where
  "readSnapshotBytes env collection w =
     (case map_of (snapshotCache (index w)) collection of
        Some cached \<Rightarrow> (Inr cached, w)
      | None \<Rightarrow>
          bind_op (of_result (snapshotPath env collection)) (\<lambda>path.
          bind_op (w_exists env path) (\<lambda>e.
          bind_op (if e then on_disk (fs_readBytes (fs env) path) else ret []) (\<lambda>b.
          seq_op (modify_index (\<lambda>i. i\<lparr> accelerationMetrics := count_snapshot_read b (accelerationMetrics i),
             snapshotCache := AList.update collection b (snapshotCache i) \<rparr>))
            (ret b)))) w)"

definition loadKeySet :: "'f core \<Rightarrow> string \<Rightarrow> ('f world, string list) op" where
  "loadKeySet env collection =
     seq_op (index_ensureCollection env collection) (
     bind_op (readSnapshotBytes env collection) (\<lambda>b.
     bind_op (of_result (walPath env collection)) (\<lambda>p.
     bind_op (readTextIfExists env p) (\<lambda>wal.
     ret (foldl apply_mutation (foldl push_new [] (completeLines (utf8_decode b))) (parse_wal wal))))))"

definition loadWalOverlay :: "'f core \<Rightarrow> string \<Rightarrow> ('f world, overlay) op" where
  "loadWalOverlay env collection w =
     (case map_of (walOverlayCache (index w)) collection of
        Some cached \<Rightarrow> (Inr cached, w)
      | None \<Rightarrow>
          bind_op (of_result (walPath env collection)) (\<lambda>p.
          bind_op (readTextIfExists env p) (\<lambda>wal.
          (let ov = foldl overlay_mutation empty_overlay (parse_wal wal) in
           seq_op (modify_index (\<lambda>i. i\<lparr> accelerationMetrics := count_wal_read (utf8_encode wal) (accelerationMetrics i),
              walOverlayCache := AList.update collection ov (walOverlayCache i) \<rparr>))
            (ret ov)))) w)"

subsection \<open>Writing\<close>

definition compact :: "'f core \<Rightarrow> string \<Rightarrow> ('f world, unit) op" where
  "compact env collection =
     bind_op (loadKeySet env collection) (\<lambda>ks.
     bind_op (of_result (snapshotPath env collection)) (\<lambda>s.
     seq_op (w_writeText env s (serializeSnapshot (sort ks))) (
     bind_op (of_result (walPath env collection)) (\<lambda>p.
     seq_op (w_writeText env p []) (
     modify_index (\<lambda>i. i\<lparr> snapshotCache := AList.delete collection (snapshotCache i),
       scannerSnapshots := AList.delete collection (scannerSnapshots i),
       walOverlayCache := AList.update collection empty_overlay (walOverlayCache i) \<rparr>))))))"

definition compactIfNeeded :: "'f core \<Rightarrow> string \<Rightarrow> ('f world, unit) op" where
  "compactIfNeeded env collection =
     bind_op (of_result (walPath env collection)) (\<lambda>p.
     bind_op (w_exists env p) (\<lambda>e.
     if \<not> e then ret ()
     else bind_op (w_readText env p) (\<lambda>wal.
       if int (length (utf8_encode wal)) < LOCAL_FS_WAL_COMPACT_BYTES then ret ()
       else compact env collection)))"

definition appendMutations :: "'f core \<Rightarrow> string \<Rightarrow> mutation list \<Rightarrow> ('f world, unit) op" where
  "appendMutations env collection mutations =
     (if mutations = [] then ret ()
      else seq_op (index_ensureCollection env collection) (
        bind_op (of_result (walPath env collection)) (\<lambda>p.
        seq_op (w_appendText env p (serializeWal mutations)) (
        seq_op (modify_index (\<lambda>i.
           case map_of (walOverlayCache i) collection of
             Some ov \<Rightarrow> i\<lparr> walOverlayCache := AList.update collection (foldl overlay_mutation ov mutations) (walOverlayCache i) \<rparr>
           | None \<Rightarrow> i))
        (compactIfNeeded env collection)))))"

definition putDocument :: "'f core \<Rightarrow> string \<Rightarrow> string \<Rightarrow> record_obj \<Rightarrow> ('f world, unit) op" where
  "putDocument env collection docId doc =
     bind_op (of_result (entriesForDocument (digest env) docId doc)) (\<lambda>ks.
     appendMutations env collection (map (\<lambda>k. (Put, k)) ks))"

definition removeDocument :: "'f core \<Rightarrow> string \<Rightarrow> string \<Rightarrow> record_obj \<Rightarrow> ('f world, unit) op" where
  "removeDocument env collection docId doc =
     bind_op (of_result (entriesForDocument (digest env) docId doc)) (\<lambda>ks.
     appendMutations env collection (map (\<lambda>k. (Del, k)) ks))"

definition countDocuments :: "'f core \<Rightarrow> string \<Rightarrow> ('f world, nat) op" where
  "countDocuments env collection =
     bind_op (loadKeySet env collection) (\<lambda>ks.
     ret (length (remdups (map (\<lambda>k. last (split_on CHR ''/'' k))
       (filter (\<lambda>k. 2 \<le> length (split_on CHR ''/'' k)) ks)))))"

subsection \<open>Searching\<close>

fun decode_doc_ids :: "string list \<Rightarrow> string list result" where
  "decode_doc_ids [] = Inr []"
| "decode_doc_ids (e # es) =
     bind_result (decodeSegment e) (\<lambda>d.
       if \<not> isTTID d then Inl (invalid_document_id d)
       else bind_result (decode_doc_ids es) (\<lambda>ds. Inr (d # ds)))"

text \<open>The \<open>try\<close> block: load the snapshot into the scanner unless it holds it, then scan.\<close>

definition scan_accelerated :: "scanner_factory \<Rightarrow> string \<Rightarrow> bytes \<Rightarrow> string \<Rightarrow> range_bound option \<Rightarrow>
    ('f world, string list) op" where
  "scan_accelerated f collection bs fullPrefix bound w =
     (let loaded = map_of (scannerSnapshots (index w)) collection;
          load = (if loaded \<noteq> Some bs then
             bind_op (of_result (scanner_load f bs)) (\<lambda>_.
             modify_index (\<lambda>i. i\<lparr> accelerationMetrics := (accelerationMetrics i)\<lparr> snapshotLoads := Suc (snapshotLoads (accelerationMetrics i)) \<rparr>,
               scannerSnapshots := AList.update collection bs (scannerSnapshots i) \<rparr>))
           else ret ())
      in seq_op load (
         bind_op (of_result (bind_result (scanner_scan f bs fullPrefix bound) decode_doc_ids)) (\<lambda>ids.
         seq_op (modify_index (\<lambda>i. i\<lparr> accelerationMetrics := (accelerationMetrics i)\<lparr> scans := Suc (scans (accelerationMetrics i)) \<rparr> \<rparr>))
           (ret (foldl push_new [] ids)))) w)"

definition scan_snapshot :: "'f core \<Rightarrow> string \<Rightarrow> bytes \<Rightarrow> string \<Rightarrow> string \<Rightarrow> range_bound option \<Rightarrow>
    ('f world, string list) op" where
  "scan_snapshot env collection bs fullPrefix rootPrefix bound =
     bind_op (scannerFor env collection) (\<lambda>scanner.
       case scanner of
         Some f \<Rightarrow> catch_op (scan_accelerated f collection bs fullPrefix bound)
           (\<lambda>e. seq_op (disableAcceleration e ''EWASM_QUERY'')
              (of_result (scanSnapshotWithJavaScript bs fullPrefix rootPrefix bound)))
       | None \<Rightarrow> of_result (scanSnapshotWithJavaScript bs fullPrefix rootPrefix bound))"

text \<open>The mutations after the snapshot: removed keys take their document out, added keys put it in.\<close>

fun overlay_ids :: "string \<Rightarrow> string \<Rightarrow> range_bound option \<Rightarrow> (string list \<Rightarrow> string \<Rightarrow> string list) \<Rightarrow>
    string list \<Rightarrow> string list \<Rightarrow> string list result" where
  "overlay_ids fullPrefix rootPrefix bound upd [] next = Inr next"
| "overlay_ids fullPrefix rootPrefix bound upd (key # keys) next =
     (if \<not> starts_with fullPrefix key \<or> \<not> includeKeyInRange key bound
      then overlay_ids fullPrefix rootPrefix bound upd keys next
      else bind_result (docIdFromKey rootPrefix key)
             (\<lambda>d. overlay_ids fullPrefix rootPrefix bound upd keys (upd next d)))"

definition prefix_ids :: "'f core \<Rightarrow> string \<Rightarrow> string \<Rightarrow> bytes \<Rightarrow> overlay \<Rightarrow> query_prefix \<Rightarrow> ('f world, string list) op" where
  "prefix_ids env collection fieldPath bs ov entry =
     (let rootPrefix = index_prefix fieldPath (kind entry) [];
          fullPrefix = index_prefix fieldPath (kind entry) (valuePrefix entry)
      in bind_op (scan_snapshot env collection bs fullPrefix rootPrefix (range entry)) (\<lambda>next.
         of_result (bind_result
           (overlay_ids fullPrefix rootPrefix (range entry) (\<lambda>ids d. removeAll d ids) (removed ov) next)
           (\<lambda>next'. overlay_ids fullPrefix rootPrefix (range entry) push_new (added ov) next'))))"

definition search_step :: "'f core \<Rightarrow> string \<Rightarrow> string \<Rightarrow> bytes \<Rightarrow> overlay \<Rightarrow> query_prefix \<Rightarrow>
    string list option \<Rightarrow> ('f world, string list option) op" where
  "search_step env collection fieldPath bs ov entry candidates =
     bind_op (prefix_ids env collection fieldPath bs ov entry)
       (\<lambda>next. ret (Some (intersect candidates next)))"

definition candidateDocIds :: "'f core \<Rightarrow> string \<Rightarrow> string \<Rightarrow> jsval \<Rightarrow> ('f world, string list option) op" where
  "candidateDocIds env collection fieldPath operand =
     bind_op (of_result (queryPrefixes (digest env) operand)) (\<lambda>plan.
       case plan of None \<Rightarrow> ret None
       | Some entries \<Rightarrow>
           seq_op (index_ensureCollection env collection) (
           bind_op (loadWalOverlay env collection) (\<lambda>ov.
           bind_op (readSnapshotBytes env collection) (\<lambda>bs.
           fold_op (search_step env collection fieldPath bs ov) entries None))))"

end
