(* ===== verification/Records.thy ===== *)
theory Records imports JsValue begin

section \<open>Dictionaries without a prototype (src/src/query/safe-record.js, src/src/core/extensions.js)\<close>

text \<open>
  Copies of records whose keys come from users, and the merge of query results by group.  The
  model's objects have own properties only, so a null prototype record and a plain one are the
  same list of entries; reading a name inherited from \<open>Object.prototype\<close> is outside the model.
\<close>

definition js_type_error :: "string \<Rightarrow> js_error" where
  "js_type_error m = JsError ''TypeError'' m None"

text \<open>\<open>Object.entries\<close> and \<open>Object.keys\<close> of any value.\<close>

definition object_entries :: "jsval \<Rightarrow> record_obj result" where
  "object_entries v =
     (case v of JObj ob \<Rightarrow> Inr ob
      | JArr vs \<Rightarrow> Inr (map (\<lambda>(i, x). (digits_of 10 (int i), x)) (List.enumerate 0 vs))
      | JStr s \<Rightarrow> Inr (map (\<lambda>(i, c). (digits_of 10 (int i), JStr [c])) (List.enumerate 0 s))
      | JUndef \<Rightarrow> Inl (js_type_error ''Cannot convert undefined or null to object'')
      | JNull \<Rightarrow> Inl (js_type_error ''Cannot convert undefined or null to object'')
      | _ \<Rightarrow> Inr [])"

definition object_keys :: "jsval \<Rightarrow> string list result" where
  "object_keys v = bind_result (object_entries v) (\<lambda>es. Inr (map fst es))"

text \<open>\<open>Object.hasOwn\<close> and the value read there; arrays own their indices and \<open>length\<close>.\<close>

definition own_property :: "jsval \<Rightarrow> string \<Rightarrow> jsval option" where
  "own_property v key =
     (case v of JObj ob \<Rightarrow> map_of ob key
      | JArr vs \<Rightarrow>
          if key = ''length'' then Some (JNum (f64_of_int (int (length vs))))
          else if is_index_key key \<and> value_of_digits 10 key < int (length vs)
          then Some (vs ! nat (value_of_digits 10 key)) else None
      | JStr s \<Rightarrow>
          if key = ''length'' then Some (JNum (f64_of_int (int (length s))))
          else if is_index_key key \<and> value_of_digits 10 key < int (length s)
          then Some (JStr [s ! nat (value_of_digits 10 key)]) else None
      | _ \<Rightarrow> None)"

definition safeRecord :: record_obj where
  "safeRecord = []"

definition copySafeRecord :: "jsval \<Rightarrow> record_obj result" where
  "copySafeRecord source = bind_result (object_entries source) (\<lambda>es. Inr (obj_assign safeRecord es))"

fun copySafeJson :: "jsval \<Rightarrow> jsval" where
  "copySafeJson (JArr vs) = JArr (map copySafeJson vs)"
| "copySafeJson (JObj ob) = JObj (obj_assign safeRecord (map (\<lambda>(k, v). (k, copySafeJson v)) ob))"
| "copySafeJson v = v"

subsection \<open>Merging grouped results\<close>

definition is_record :: "jsval \<Rightarrow> bool" where
  "is_record v = (js_truthy v \<and> is_object v \<and> \<not> is_array v)"

definition group_copy :: "jsval \<Rightarrow> jsval result" where
  "group_copy members =
     (if is_record members then bind_result (copySafeRecord members) (\<lambda>ob. Inr (JObj ob)) else Inr members)"

fun append_groups :: "record_obj \<Rightarrow> record_obj \<Rightarrow> record_obj result" where
  "append_groups acc [] = Inr acc"
| "append_groups acc ((sourceId, sourceGroup) # rest) =
     (if \<not> has_own acc sourceId
      then bind_result (group_copy sourceGroup) (\<lambda>g. append_groups (obj_put acc sourceId g) rest)
      else bind_result (if is_record (obj_get acc sourceId) then copySafeRecord (obj_get acc sourceId) else Inr safeRecord)
        (\<lambda>existing. bind_result (object_entries sourceGroup)
          (\<lambda>es. append_groups (obj_put acc sourceId (JObj (obj_assign existing es))) rest)))"

definition appendGroup :: "jsval \<Rightarrow> jsval \<Rightarrow> record_obj result" where
  "appendGroup target source =
     bind_result (copySafeRecord target)
       (\<lambda>acc. bind_result (object_entries source) (append_groups acc))"

end
