(* ===== verification/Documents.thy ===== *)
theory Documents imports PrefixIndex Records begin

section \<open>Documents on disk (documents.js, metadata.js and event-bus.js under src/src/browser/core)\<close>

text \<open>
  The layout of a collection, the documents and tombstones in it, the metadata beside them and
  the event journal.  Every file of a document is named by its identifier below the shard of
  its creation segment; records of the layout before sharding are found and moved on writing.
  The validating closures that \<open>BrowserCore\<close> hands to \<open>BrowserDocuments\<close> are the path functions.
\<close>

subsection \<open>The layout of a collection (engine.js)\<close>

definition validateDocId :: "string \<Rightarrow> unit result" where
  "validateDocId docId = (if \<not> isTTID docId then Inl (invalid_document_id docId) else Inr ())"

definition docsRoot :: "'f core \<Rightarrow> string \<Rightarrow> string result" where
  "docsRoot env collection = bind_result (collectionRoot env collection) (\<lambda>r. Inr (join2 r ''docs''))"

definition deletedRoot :: "'f core \<Rightarrow> string \<Rightarrow> string result" where
  "deletedRoot env collection = bind_result (collectionRoot env collection) (\<lambda>r. Inr (join2 r ''.deleted''))"

definition metaRoot :: "'f core \<Rightarrow> string \<Rightarrow> string result" where
  "metaRoot env collection = collectionRoot env collection"

definition record_path :: "string result \<Rightarrow> string \<Rightarrow> string result \<Rightarrow> string result" where
  "record_path base docId shard =
     bind_result base (\<lambda>root. bind_result shard (\<lambda>sh.
       let target = join3 root sh (docId @ ''.json'')
       in bind_result (assertPathInside root target) (\<lambda>_. Inr target)))"

definition docPath :: "'f core \<Rightarrow> string \<Rightarrow> string \<Rightarrow> string result" where
  "docPath env collection docId =
     bind_result (validateDocId docId) (\<lambda>_. record_path (docsRoot env collection) docId (shardOf docId JUndef))"

definition deletedPath :: "'f core \<Rightarrow> string \<Rightarrow> string \<Rightarrow> string result" where
  "deletedPath env collection docId =
     bind_result (validateDocId docId) (\<lambda>_. record_path (deletedRoot env collection) docId (shardOf docId JUndef))"

subsection \<open>Records on disk\<close>

record stored_doc =
  stored_id :: string
  stored_created :: int
  stored_updated :: int
  stored_data :: record_obj

record deleted_doc =
  deleted_id :: string
  deleted_created :: int
  deleted_at :: f64
  deleted_data :: record_obj

definition parseJsonDocumentText :: "string \<Rightarrow> record_obj result" where
  "parseJsonDocumentText contents =
     bind_result (json_parse contents) (\<lambda>raw.
       case raw of JObj ob \<Rightarrow> Inr ob
       | _ \<Rightarrow> Inl (plain_error ''FYLO document body must be a JSON object''))"

text \<open>\<open>JSON.parse(undefined)\<close> is a syntax error.\<close>

definition assertJsonDocumentText :: "string option \<Rightarrow> string result" where
  "assertJsonDocumentText contents =
     (case contents of None \<Rightarrow> Inl syntax_error
      | Some t \<Rightarrow> bind_result (parseJsonDocumentText t) (\<lambda>_. Inr t))"

definition stripInternalFields :: "record_obj \<Rightarrow> record_obj" where
  "stripInternalFields raw = obj_delete (obj_delete (obj_of raw) ''_updatedAt'') ''_deletedAt''"

definition legacy_path :: "string \<Rightarrow> string \<Rightarrow> string result" where
  "legacy_path base docId = record_path (Inr base) docId (legacyShardOf docId)"

definition existingPath :: "'f core \<Rightarrow> string \<Rightarrow> string \<Rightarrow> string \<Rightarrow> ('f world, string) op" where
  "existingPath env base canonical docId =
     bind_op (w_exists env canonical) (\<lambda>e.
       if e then ret canonical
       else bind_op (of_result (legacy_path base docId)) (\<lambda>legacy.
         if legacy = canonical then ret canonical
         else bind_op (w_exists env legacy) (\<lambda>found. ret (if found then legacy else canonical))))"

definition removeLegacyCopy :: "'f core \<Rightarrow> string \<Rightarrow> string \<Rightarrow> string \<Rightarrow> ('f world, unit) op" where
  "removeLegacyCopy env base canonical docId =
     bind_op (of_result (legacy_path base docId)) (\<lambda>legacy.
       if legacy = canonical then ret ()
       else bind_op (w_exists env legacy) (\<lambda>found. if found then w_remove env legacy else ret ()))"

text \<open>The existing file of a record, checked against its root.\<close>

definition locate :: "'f core \<Rightarrow> string result \<Rightarrow> string result \<Rightarrow> string \<Rightarrow> ('f world, string) op" where
  "locate env base canonical docId =
     bind_op (of_result base) (\<lambda>root. bind_op (of_result canonical) (\<lambda>path.
     bind_op (existingPath env root path docId) (\<lambda>target.
     bind_op (of_result (assertPathInside root target)) (\<lambda>_. ret target))))"

definition readStoredDoc :: "'f core \<Rightarrow> string \<Rightarrow> string \<Rightarrow> ('f world, stored_doc option) op" where
  "readStoredDoc env collection docId =
     bind_op (of_result (validateDocId docId)) (\<lambda>_.
     bind_op (locate env (docsRoot env collection) (docPath env collection docId) docId) (\<lambda>target.
     bind_op (w_exists env target) (\<lambda>e.
       if \<not> e then ret None
       else bind_op (w_readText env target) (\<lambda>contents.
         bind_op (of_result (parseJsonDocumentText contents)) (\<lambda>raw.
         bind_op (of_result (decodeTime docId)) (\<lambda>ts.
         bind_op (w_mtimeMs env target) (\<lambda>mtime.
         ret (Some \<lparr> stored_id = docId, stored_created = createdAt ts, stored_updated = mtime,
           stored_data = stripInternalFields raw \<rparr>))))))))"

definition readDeletedDoc :: "'f core \<Rightarrow> string \<Rightarrow> string \<Rightarrow> ('f world, deleted_doc option) op" where
  "readDeletedDoc env collection docId =
     bind_op (of_result (validateDocId docId)) (\<lambda>_.
     bind_op (locate env (deletedRoot env collection) (deletedPath env collection docId) docId) (\<lambda>target.
     bind_op (w_exists env target) (\<lambda>e.
       if \<not> e then ret None
       else bind_op (w_readText env target) (\<lambda>contents.
         bind_op (of_result (parseJsonDocumentText contents)) (\<lambda>raw.
         bind_op (of_result (decodeTime docId)) (\<lambda>ts.
         ret (Some \<lparr> deleted_id = docId, deleted_created = createdAt ts,
           deleted_at = (case obj_get raw ''_deletedAt'' of JNum x \<Rightarrow> x | _ \<Rightarrow> f64_of_int (createdAt ts)),
           deleted_data = stripInternalFields raw \<rparr>)))))))"

subsection \<open>Listing\<close>

definition doc_file_id :: "string \<Rightarrow> string option" where
  "doc_file_id file =
     (if \<not> ends_with ''.json'' file then None
      else let docId = drop_last 5 (basename file) in if isTTID docId then Some docId else None)"

definition list_bucket :: "'f core \<Rightarrow> string \<Rightarrow> string \<Rightarrow> string list \<Rightarrow> ('f world, string list) op" where
  "list_bucket env base bucket ids =
     bind_op (w_isDirectory env (join2 base bucket)) (\<lambda>d.
       if \<not> d then ret ids
       else bind_op (w_list env (join2 base bucket)) (\<lambda>names.
         ret (ids @ concat (map (\<lambda>file. case doc_file_id file of Some i \<Rightarrow> [i] | None \<Rightarrow> []) names))))"

definition listBucketedDocIds :: "'f core \<Rightarrow> string \<Rightarrow> ('f world, string list) op" where
  "listBucketedDocIds env base =
     bind_op (w_exists env base) (\<lambda>e.
       if \<not> e then ret []
       else bind_op (w_list env base) (\<lambda>buckets. fold_op (list_bucket env base) buckets []))"

definition listDocIds :: "'f core \<Rightarrow> string \<Rightarrow> ('f world, string list) op" where
  "listDocIds env collection = bind_op (of_result (docsRoot env collection)) (listBucketedDocIds env)"

definition listDeletedDocIds :: "'f core \<Rightarrow> string \<Rightarrow> ('f world, string list) op" where
  "listDeletedDocIds env collection = bind_op (of_result (deletedRoot env collection)) (listBucketedDocIds env)"

subsection \<open>Metadata\<close>

definition MAX_META_VALUE_BYTES :: nat where "MAX_META_VALUE_BYTES = 61440"

definition meta_name_char :: "char \<Rightarrow> bool" where
  "meta_name_char c = (is_alnum c \<or> c = CHR ''.'' \<or> c = CHR ''_'' \<or> c = CHR ''-'')"

definition META_NAME :: "string \<Rightarrow> bool" where
  "META_NAME name = (name \<noteq> [] \<and> length name \<le> 64 \<and> is_alnum (hd name) \<and> list_all meta_name_char (tl name))"

definition meta_name_error :: js_error where
  "meta_name_error = plain_error (''Metadata name must be 1-64 characters: letters, digits, '' @
     [CHR 0x22] @ ''.'' @ [CHR 0x22] @ '', '' @ [CHR 0x22] @ ''_'' @ [CHR 0x22] @ '' or '' @
     [CHR 0x22] @ ''-'' @ [CHR 0x22] @ '', starting with a letter or digit'')"

fun validate_meta_entries :: "record_obj \<Rightarrow> unit result" where
  "validate_meta_entries [] = Inr ()"
| "validate_meta_entries ((name, val) # rest) =
     (if \<not> META_NAME name then Inl meta_name_error
      else if val = JNull then validate_meta_entries rest
      else case json_stringify val of
          None \<Rightarrow> Inl (plain_error ''Metadata values must be JSON-serializable'')
        | Some encoded \<Rightarrow>
            if length (utf8_encode encoded) > MAX_META_VALUE_BYTES
            then Inl (plain_error ''Metadata values must be at most 60 KiB when JSON-encoded'')
            else validate_meta_entries rest)"

definition validateMetadataRecord :: "jsval \<Rightarrow> record_obj result" where
  "validateMetadataRecord record =
     (case record of JObj ob \<Rightarrow> bind_result (validate_meta_entries ob) (\<lambda>_. Inr ob)
      | _ \<Rightarrow> Inl (plain_error ''Metadata must be a plain object of name/value pairs''))"

definition metadata_root :: "'f core \<Rightarrow> string \<Rightarrow> string result" where
  "metadata_root env collection = bind_result (metaRoot env collection) (\<lambda>r. Inr (join2 r ''.metadata''))"

definition metadata_path :: "'f core \<Rightarrow> string \<Rightarrow> string \<Rightarrow> string result" where
  "metadata_path env collection docId =
     bind_result (validateDocId docId) (\<lambda>_. record_path (metadata_root env collection) docId (shardOf docId JUndef))"

definition metadata_existingPath :: "'f core \<Rightarrow> string \<Rightarrow> string \<Rightarrow> ('f world, string) op" where
  "metadata_existingPath env collection docId =
     bind_op (of_result (metadata_path env collection docId)) (\<lambda>canonical.
     bind_op (of_result (metadata_root env collection)) (\<lambda>base.
     existingPath env base canonical docId))"

text \<open>The values, which a damaged file may leave null, and when they were written.\<close>

record doc_metadata =
  meta_values :: jsval
  meta_updated :: f64

definition metadata_of :: "jsval \<Rightarrow> doc_metadata result" where
  "metadata_of parsed = Inr \<lparr>
     meta_values = (case get_prop parsed ''values'' of JObj ob \<Rightarrow> copySafeJson (JObj ob) | JNull \<Rightarrow> JNull | _ \<Rightarrow> JObj safeRecord),
     meta_updated = (case get_prop parsed ''updatedAt'' of JNum x \<Rightarrow> x | _ \<Rightarrow> 0) \<rparr>"

definition metadata_read :: "'f core \<Rightarrow> string \<Rightarrow> string \<Rightarrow> ('f world, doc_metadata) op" where
  "metadata_read env collection docId =
     bind_op (metadata_existingPath env collection docId) (\<lambda>target.
     bind_op (w_exists env target) (\<lambda>e.
       if \<not> e then ret \<lparr> meta_values = JObj safeRecord, meta_updated = 0 \<rparr>
       else bind_op (w_readText env target) (\<lambda>contents.
         of_result (bind_result (json_parse contents) metadata_of))))"

definition metadata_write :: "'f core \<Rightarrow> string \<Rightarrow> string \<Rightarrow> jsval \<Rightarrow> f64 \<Rightarrow> ('f world, doc_metadata) op" where
  "metadata_write env collection docId vals updated =
     bind_op (of_result (metadata_path env collection docId)) (\<lambda>target.
     bind_op (of_result (metadata_root env collection)) (\<lambda>base.
     bind_op (of_result (shardOf docId JUndef)) (\<lambda>sh.
     seq_op (w_mkdir env (join2 base sh)) (
     seq_op (w_writeText env target (json_text (JObj [(''values'', vals), (''updatedAt'', JNum updated)]))) (
     seq_op (removeLegacyCopy env base target docId)
       (ret \<lparr> meta_values = vals, meta_updated = updated \<rparr>))))))"

text \<open>A null value deletes its name; the others replace it.\<close>

fun apply_meta :: "jsval \<Rightarrow> record_obj \<Rightarrow> jsval result" where
  "apply_meta vals [] = Inr vals"
| "apply_meta vals ((name, val) # rest) =
     (case vals of JObj ob \<Rightarrow>
          apply_meta (JObj (if val = JNull then obj_delete ob name else obj_put ob name (copySafeJson val))) rest
      | _ \<Rightarrow> Inl (js_type_error ''Cannot convert undefined or null to object''))"

definition metadata_mutate :: "'f core \<Rightarrow> string \<Rightarrow> string \<Rightarrow> jsval \<Rightarrow> ('f world, doc_metadata) op" where
  "metadata_mutate env collection docId mutations =
     bind_op (of_result (validateMetadataRecord mutations)) (\<lambda>entries.
     bind_op (metadata_read env collection docId) (\<lambda>current.
     bind_op (of_result (apply_meta (copySafeJson (meta_values current)) entries)) (\<lambda>vals.
     bind_op date_now (\<lambda>now.
     metadata_write env collection docId vals
       (f64_max (f64_of_int now) (f64_add (meta_updated current) (f64_of_int 1)))))))"

subsection \<open>Creating the layout (engine.js)\<close>

definition mkdir_at :: "'f core \<Rightarrow> string result \<Rightarrow> ('f world, unit) op" where
  "mkdir_at env path = bind_op (of_result path) (w_mkdir env)"

definition ensureCollection :: "'f core \<Rightarrow> string \<Rightarrow> ('f world, unit) op" where
  "ensureCollection env collection =
     bind_op (of_result (validateCollectionName collection)) (\<lambda>_.
     seq_op (mkdir_at env (collectionRoot env collection)) (
     seq_op (mkdir_at env (docsRoot env collection)) (
     seq_op (mkdir_at env (deletedRoot env collection)) (
     seq_op (mkdir_at env (metadata_root env collection)) (
     seq_op (mkdir_at env (bind_result (collectionRoot env collection) (\<lambda>r. Inr (join2 r ''events'')))) (
     index_ensureCollection env collection))))))"

subsection \<open>Writing documents\<close>

definition removeIfPresent :: "'f core \<Rightarrow> string \<Rightarrow> ('f world, unit) op" where
  "removeIfPresent env path = bind_op (w_exists env path) (\<lambda>e. if e then w_remove env path else ret ())"

definition writeStoredDoc :: "'f core \<Rightarrow> string \<Rightarrow> string \<Rightarrow> jsval \<Rightarrow> ('f world, unit) op" where
  "writeStoredDoc env collection docId data =
     bind_op (of_result (validateDocId docId)) (\<lambda>_.
     seq_op (ensureCollection env collection) (
     bind_op (of_result (docPath env collection docId)) (\<lambda>target.
     bind_op (of_result (docsRoot env collection)) (\<lambda>docs.
     bind_op (of_result (assertPathInside docs target)) (\<lambda>_.
     bind_op (of_result (assertJsonDocumentText (json_stringify data))) (\<lambda>contents.
     seq_op (w_writeText env target contents) (
     seq_op (removeLegacyCopy env docs target docId) (
     bind_op (of_result (deletedPath env collection docId)) (\<lambda>tombstone.
     seq_op (removeIfPresent env tombstone) (
     bind_op (of_result (deletedRoot env collection)) (\<lambda>deleted.
     removeLegacyCopy env deleted tombstone docId)))))))))))"

definition removeStoredDoc :: "'f core \<Rightarrow> string \<Rightarrow> string \<Rightarrow> ('f world, unit) op" where
  "removeStoredDoc env collection docId =
     bind_op (of_result (validateDocId docId)) (\<lambda>_.
     bind_op (locate env (docsRoot env collection) (docPath env collection docId) docId)
       (removeIfPresent env))"

text \<open>Moving a record between the two trees: \<open>source\<close> is found, \<open>target\<close> is checked.\<close>

definition move_ends :: "'f core \<Rightarrow> string result \<Rightarrow> string result \<Rightarrow> string result \<Rightarrow> string result \<Rightarrow> string \<Rightarrow>
    ('f world, string \<times> string) op" where
  "move_ends env sourceRoot sourcePath targetRoot targetPath docId =
     bind_op (of_result sourceRoot) (\<lambda>sroot. bind_op (of_result sourcePath) (\<lambda>spath.
     bind_op (existingPath env sroot spath docId) (\<lambda>source.
     bind_op (of_result targetPath) (\<lambda>target.
     bind_op (of_result (assertPathInside sroot source)) (\<lambda>_.
     bind_op (of_result (bind_result targetRoot (\<lambda>troot. assertPathInside troot target))) (\<lambda>_.
     ret (source, target)))))))"

definition softDeleteStoredDoc :: "'f core \<Rightarrow> string \<Rightarrow> string \<Rightarrow> int \<Rightarrow> ('f world, string) op" where
  "softDeleteStoredDoc env collection docId deletedAt' =
     bind_op (of_result (validateDocId docId)) (\<lambda>_.
     bind_op (move_ends env (docsRoot env collection) (docPath env collection docId)
        (deletedRoot env collection) (deletedPath env collection docId) docId) (\<lambda>(source, target).
     bind_op (w_exists env source) (\<lambda>e.
       if \<not> e then throw (plain_error (''Document not found: '' @ docId))
       else bind_op (w_readText env source) (\<lambda>contents.
         bind_op (of_result (parseJsonDocumentText contents)) (\<lambda>raw.
         bind_op (of_result (assertJsonDocumentText (json_stringify
            (JObj (obj_put (obj_of raw) ''_deletedAt'' (JNum (f64_of_int deletedAt'))))))) (\<lambda>tombstone.
         seq_op (w_writeText env target tombstone) (
         seq_op (w_remove env source) (ret target))))))))"

definition restoreStoredDoc :: "'f core \<Rightarrow> string \<Rightarrow> string \<Rightarrow> ('f world, string) op" where
  "restoreStoredDoc env collection docId =
     bind_op (of_result (validateDocId docId)) (\<lambda>_.
     bind_op (move_ends env (deletedRoot env collection) (deletedPath env collection docId)
        (docsRoot env collection) (docPath env collection docId) docId) (\<lambda>(source, target).
     bind_op (w_exists env source) (\<lambda>e.
       if \<not> e then throw (plain_error (''No tombstone to restore: '' @ docId))
       else bind_op (w_readText env source) (\<lambda>contents.
         bind_op (of_result (parseJsonDocumentText contents)) (\<lambda>raw.
         bind_op (of_result (assertJsonDocumentText (json_stringify (JObj (stripInternalFields raw))))) (\<lambda>restored.
         seq_op (w_writeText env target restored) (
         seq_op (w_remove env source) (ret target))))))))"

subsection \<open>Events\<close>

definition journalPath :: "'f core \<Rightarrow> string \<Rightarrow> string result" where
  "journalPath env collection =
     bind_result (collectionRoot env collection) (\<lambda>r. Inr (join3 r ''events'' (collection @ ''.ndjson'')))"

text \<open>Publishing appends to the journal and then dispatches to the listeners of this process.\<close>

definition publish :: "'f core \<Rightarrow> string \<Rightarrow> jsval \<Rightarrow> ('f world, unit) op" where
  "publish env collection event =
     bind_op (of_result (journalPath env collection)) (\<lambda>path.
     seq_op (w_appendText env path (json_text event @ [newline])) (
     modify (\<lambda>w. w\<lparr> dispatched := dispatched w @ [(collection, event)] \<rparr>)))"

end
