(* ===== verification/QueryEngine.thy ===== *)
theory QueryEngine imports Records Like begin

section \<open>The query evaluator (src/src/browser/core/query.js)\<close>

text \<open>
  \<open>BrowserQueryEngine\<close>: which documents the index may exclude, which of the rest match, and how
  a match is presented.  Queries are values as they come from a parse; a query of the wrong
  shape ends in the \<open>TypeError\<close> the engine would raise.  The prefix index is reached through the
  method the code calls, a field of \<open>index_like\<close>.
\<close>

record 's index_like =
  candidate_ids :: "string \<Rightarrow> string \<Rightarrow> jsval \<Rightarrow> ('s, string list option) op"

subsection \<open>Fields\<close>

definition path_step :: "jsval \<Rightarrow> string \<Rightarrow> jsval" where
  "path_step acc key =
     (if acc = JUndef \<or> acc = JNull \<or> \<not> is_object acc then JUndef
      else case own_property acc key of Some v \<Rightarrow> v | None \<Rightarrow> JUndef)"

definition getValueByPath :: "jsval \<Rightarrow> string \<Rightarrow> jsval" where
  "getValueByPath target fieldPath =
     foldl path_step target (split_on CHR ''.'' (replace_all CHR ''/'' ''.'' fieldPath))"

definition normalizeFieldPath :: "string \<Rightarrow> string" where
  "normalizeFieldPath fieldPath = replace_all CHR ''.'' ''/'' fieldPath"

subsection \<open>Timestamps\<close>

record doc_times =
  created_ms :: f64
  updated_ms :: f64

definition within_range :: "f64 \<Rightarrow> jsval \<Rightarrow> bool" where
  "within_range x bounds =
     (let bound = (\<lambda>op holds. get_prop bounds op = JUndef \<or> holds x (get_prop bounds op))
      in bound ''$gt'' num_gt \<and> bound ''$gte'' num_ge \<and> bound ''$lt'' num_lt \<and> bound ''$lte'' num_le)"

definition match_range :: "f64 \<Rightarrow> jsval \<Rightarrow> bool" where
  "match_range x bounds = (\<not> js_truthy bounds \<or> within_range x bounds)"

definition matchesTimestamp :: "jsval \<Rightarrow> doc_times \<Rightarrow> bool" where
  "matchesTimestamp query ts =
     (if \<not> js_truthy (get_prop query ''$created'') \<and> \<not> js_truthy (get_prop query ''$updated'') then True
      else match_range (created_ms ts) (get_prop query ''$created'') \<and>
           match_range (updated_ms ts) (get_prop query ''$updated''))"

subsection \<open>Operands\<close>

definition matchesNumber :: "jsval \<Rightarrow> string \<Rightarrow> jsval \<Rightarrow> bool" where
  "matchesNumber val op expected =
     (let numeric = js_to_number val
      in if op = ''$gt'' then num_gt numeric expected
         else if op = ''$gte'' then num_ge numeric expected
         else if op = ''$lt'' then num_lt numeric expected
         else num_le numeric expected)"

text \<open>The type of a pattern is a string.  Another value has no code units to match; null and undefined
  cannot be indexed.  (An array of one-unit strings would act as the string; it is not modelled.)\<close>

definition like_value :: "string \<Rightarrow> jsval \<Rightarrow> bool result" where
  "like_value val pattern =
     (case pattern of JStr p \<Rightarrow> Inr (matchesLike True val p)
      | JNull \<Rightarrow> Inl (js_type_error ''Cannot read properties of null'')
      | JUndef \<Rightarrow> Inl (js_type_error ''Cannot read properties of undefined'')
      | _ \<Rightarrow> Inr False)"

definition operand_predicate :: "string \<Rightarrow> jsval \<Rightarrow> jsval \<Rightarrow> bool result" where
  "operand_predicate op val expected =
     (if op = ''$eq'' then Inr (loose_eq val expected)
      else if op = ''$ne'' then Inr (\<not> loose_eq val expected)
      else if op = ''$like'' then (case val of JStr s \<Rightarrow> like_value s expected | _ \<Rightarrow> Inr False)
      else if op = ''$contains'' then Inr (case val of JArr items \<Rightarrow> list_ex (\<lambda>item. loose_eq item expected) items | _ \<Rightarrow> False)
      else Inr (matchesNumber val op expected))"

definition operand_operators :: "string list" where
  "operand_operators = [''$eq'', ''$ne'', ''$gt'', ''$gte'', ''$lt'', ''$lte'', ''$like'', ''$contains'']"

fun match_operators :: "string list \<Rightarrow> jsval \<Rightarrow> jsval \<Rightarrow> bool result" where
  "match_operators [] val operand = Inr True"
| "match_operators (op # ops) val operand =
     (if get_prop operand op = JUndef then match_operators ops val operand
      else bind_result (operand_predicate op val (get_prop operand op))
        (\<lambda>holds. if holds then match_operators ops val operand else Inr False))"

definition matchesOperand :: "jsval \<Rightarrow> jsval \<Rightarrow> bool result" where
  "matchesOperand val operand = match_operators operand_operators val operand"

subsection \<open>Queries\<close>

text \<open>\<open>!query?.$ops || query.$ops.length === 0\<close>, or the operations to run \<open>some\<close> over.\<close>

definition query_ops :: "jsval \<Rightarrow> jsval list option result" where
  "query_ops query =
     (let ops = get_prop query ''$ops'' in
      if \<not> js_truthy ops then Inr None
      else case ops of JArr [] \<Rightarrow> Inr None | JArr operations \<Rightarrow> Inr (Some operations)
        | JObj ob \<Rightarrow> if strict_eq (obj_get ob ''length'') (JNum 0) then Inr None
                      else Inl (js_type_error ''query.$ops.some is not a function'')
        | _ \<Rightarrow> Inl (js_type_error ''query.$ops.some is not a function''))"

fun match_fields :: "record_obj \<Rightarrow> jsval \<Rightarrow> bool result" where
  "match_fields [] doc = Inr True"
| "match_fields ((field, operand) # others) doc =
     (if \<not> js_truthy operand then Inr False
      else bind_result (matchesOperand (getValueByPath doc field) operand)
        (\<lambda>holds. if holds then match_fields others doc else Inr False))"

fun match_some :: "jsval list \<Rightarrow> jsval \<Rightarrow> bool result" where
  "match_some [] doc = Inr False"
| "match_some (operation # operations) doc =
     bind_result (bind_result (object_entries operation) (\<lambda>others. match_fields others doc))
       (\<lambda>holds. if holds then Inr True else match_some operations doc)"

definition matchesQuery :: "jsval \<Rightarrow> jsval \<Rightarrow> doc_times \<Rightarrow> bool result" where
  "matchesQuery doc query ts =
     (if \<not> matchesTimestamp query ts then Inr False
      else bind_result (query_ops query) (\<lambda>ops.
        case ops of None \<Rightarrow> Inr True | Some operations \<Rightarrow> match_some operations doc))"

definition matchesDeletedQuery :: "jsval \<Rightarrow> jsval \<Rightarrow> f64 \<Rightarrow> f64 \<Rightarrow> bool result" where
  "matchesDeletedQuery doc query created deleted =
     (if js_truthy (get_prop query ''$updated'')
      then Inl (plain_error ''Deleted document queries use $deleted instead of $updated'')
      else bind_result (matchesQuery doc query \<lparr> created_ms = created, updated_ms = deleted \<rparr>)
        (\<lambda>holds. Inr (holds \<and> match_range deleted (get_prop query ''$deleted''))))"

subsection \<open>Candidates\<close>

definition intersectDocIds :: "string list option \<Rightarrow> string list \<Rightarrow> string list" where
  "intersectDocIds current next =
     (case current of None \<Rightarrow> next | Some c \<Rightarrow> filter (\<lambda>d. d \<in> set next) c)"

text \<open>The operators the index may serve, in the order of the code; a missing answer means no
  documents for \<open>$eq\<close> and \<open>$contains\<close>, and no restriction at all for the others.\<close>

definition candidate_operators :: "(string \<times> bool) list" where
  "candidate_operators = [(''$eq'', True), (''$gt'', False), (''$gte'', False), (''$lt'', False), (''$lte'', False),
     (''$like'', False), (''$contains'', True)]"

fun operand_candidates :: "'s index_like \<Rightarrow> string \<Rightarrow> string \<Rightarrow> jsval \<Rightarrow> (string \<times> bool) list \<Rightarrow> string list option \<Rightarrow>
    ('s, string list option) op" where
  "operand_candidates index collection fieldPath operand [] candidateIds = ret candidateIds"
| "operand_candidates index collection fieldPath operand ((op, none_is_empty) # ops) candidateIds =
     (if get_prop operand op = JUndef then operand_candidates index collection fieldPath operand ops candidateIds
      else bind_op (candidate_ids index collection fieldPath (JObj [(op, get_prop operand op)])) (\<lambda>found.
        case found of
          Some ids \<Rightarrow> operand_candidates index collection fieldPath operand ops (Some (intersectDocIds candidateIds ids))
        | None \<Rightarrow>
            if none_is_empty
            then operand_candidates index collection fieldPath operand ops (Some (intersectDocIds candidateIds []))
            else ret None))"

definition candidateDocIdsForOperand :: "'s index_like \<Rightarrow> string \<Rightarrow> string \<Rightarrow> jsval \<Rightarrow> ('s, string list option) op" where
  "candidateDocIdsForOperand index collection fieldPath operand =
     operand_candidates index collection fieldPath operand candidate_operators None"

fun field_candidates :: "'s index_like \<Rightarrow> string \<Rightarrow> record_obj \<Rightarrow> string list option \<Rightarrow> ('s, string list option) op" where
  "field_candidates index collection [] candidateIds = ret candidateIds"
| "field_candidates index collection ((field, operand) # others) candidateIds =
     (if \<not> js_truthy operand then field_candidates index collection others candidateIds
      else bind_op (candidateDocIdsForOperand index collection (normalizeFieldPath field) operand) (\<lambda>found.
        case found of None \<Rightarrow> field_candidates index collection others candidateIds
        | Some ids \<Rightarrow> field_candidates index collection others (Some (intersectDocIds candidateIds ids))))"

definition candidateDocIdsForOperation :: "'s index_like \<Rightarrow> string \<Rightarrow> jsval \<Rightarrow> ('s, string list option) op" where
  "candidateDocIdsForOperation index collection operation =
     bind_op (of_result (object_entries operation)) (\<lambda>others. field_candidates index collection others None)"

fun union_candidates :: "'s index_like \<Rightarrow> string \<Rightarrow> jsval list \<Rightarrow> string list \<Rightarrow> ('s, string list option) op" where
  "union_candidates index collection [] acc = ret (Some acc)"
| "union_candidates index collection (operation # operations) acc =
     bind_op (candidateDocIdsForOperation index collection operation) (\<lambda>found.
       case found of None \<Rightarrow> ret None
       | Some ids \<Rightarrow> union_candidates index collection operations (foldl push_new acc ids))"

definition candidateDocIdsForQuery :: "'s index_like \<Rightarrow> string \<Rightarrow> jsval \<Rightarrow> ('s, string list option) op" where
  "candidateDocIdsForQuery index collection query =
     bind_op (of_result (query_ops query)) (\<lambda>ops.
       case ops of None \<Rightarrow> ret None
       | Some operations \<Rightarrow> union_candidates index collection operations [])"

subsection \<open>Presentation\<close>

definition selects :: "jsval \<Rightarrow> string \<Rightarrow> bool result" where
  "selects selection field =
     (case selection of JArr vs \<Rightarrow> Inr (JStr field \<in> set vs)
      | JStr s \<Rightarrow> Inr (includes_str field s)
      | _ \<Rightarrow> Inl (js_type_error ''selection.includes is not a function''))"

fun drop_unselected :: "jsval \<Rightarrow> string list \<Rightarrow> record_obj \<Rightarrow> record_obj result" where
  "drop_unselected selection [] copy = Inr copy"
| "drop_unselected selection (field # others) copy =
     bind_result (selects selection field) (\<lambda>keep.
       drop_unselected selection others (if keep then copy else obj_delete copy field))"

definition selectValues :: "jsval \<Rightarrow> jsval \<Rightarrow> record_obj result" where
  "selectValues selection data =
     bind_result (copySafeRecord data) (\<lambda>copy. drop_unselected selection (obj_keys copy) copy)"

fun rename_loop :: "jsval \<Rightarrow> string list \<Rightarrow> record_obj \<Rightarrow> record_obj" where
  "rename_loop rename [] copy = copy"
| "rename_loop rename (field # others) copy =
     (case own_property rename field of
        Some (JStr target) \<Rightarrow>
          rename_loop rename others (obj_delete (obj_put copy target (obj_get copy field)) field)
      | _ \<Rightarrow> rename_loop rename others copy)"

definition renameFields :: "jsval \<Rightarrow> jsval \<Rightarrow> record_obj result" where
  "renameFields rename data =
     bind_result (copySafeRecord data) (\<lambda>copy. Inr (rename_loop rename (obj_keys copy) copy))"

definition has_length :: "jsval \<Rightarrow> bool" where
  "has_length v = (case v of JObj ob \<Rightarrow> js_truthy (obj_get ob ''length'')
     | _ \<Rightarrow> (case own_property v ''length'' of Some n \<Rightarrow> js_truthy n | None \<Rightarrow> False))"

definition shape_data :: "jsval \<Rightarrow> jsval \<Rightarrow> jsval result" where
  "shape_data query data =
     bind_result (if has_length (get_prop query ''$select'')
         then bind_result (selectValues (get_prop query ''$select'') data) (\<lambda>ob. Inr (JObj ob)) else Inr data)
       (\<lambda>data'. if js_truthy (get_prop query ''$rename'')
         then bind_result (renameFields (get_prop query ''$rename'') data') (\<lambda>ob. Inr (JObj ob)) else Inr data')"

fun shape_entries :: "jsval \<Rightarrow> record_obj \<Rightarrow> record_obj \<Rightarrow> record_obj result" where
  "shape_entries query [] next = Inr next"
| "shape_entries query ((docId, data) # rest) next =
     bind_result (shape_data query data) (\<lambda>data'. shape_entries query rest (obj_put next docId data'))"

fun group_entries :: "string \<Rightarrow> record_obj \<Rightarrow> record_obj \<Rightarrow> record_obj result" where
  "group_entries groupby [] docGroup = Inr docGroup"
| "group_entries groupby ((docId, data) # rest) docGroup =
     (if is_nullish data then Inl (js_type_error ''Cannot read properties of undefined'')
      else let groupValue = (case own_property data groupby of Some v \<Rightarrow> v | None \<Rightarrow> JUndef) in
        if is_nullish groupValue then group_entries groupby rest docGroup
        else bind_result (copySafeRecord data) (\<lambda>groupData.
          group_entries groupby rest (obj_put docGroup (js_to_string groupValue)
            (JObj (obj_put safeRecord docId (JObj (obj_delete groupData groupby)))))))"

definition group_ids :: "record_obj \<Rightarrow> record_obj" where
  "group_ids docGroup =
     obj_assign safeRecord (map (\<lambda>(name, members).
       (name, JArr (case members of JObj ob \<Rightarrow> map JStr (obj_keys ob) | _ \<Rightarrow> []))) docGroup)"

definition processDoc :: "record_obj \<Rightarrow> jsval \<Rightarrow> jsval result" where
  "processDoc doc query =
     (if obj_keys doc = [] then Inr JUndef
      else bind_result (copySafeRecord (JObj doc)) (\<lambda>copy.
        bind_result (shape_entries query copy copy) (\<lambda>next.
          if js_truthy (get_prop query ''$groupby'')
          then bind_result (group_entries (js_to_string (get_prop query ''$groupby'')) next safeRecord) (\<lambda>docGroup.
            Inr (JObj (if js_truthy (get_prop query ''$onlyIds'') then group_ids docGroup else docGroup)))
          else if js_truthy (get_prop query ''$onlyIds'')
          then Inr (case obj_keys next of k # _ \<Rightarrow> JStr k | [] \<Rightarrow> JUndef)
          else Inr (JObj next))))"

end
