(* ===== verification/Engine.thy ===== *)
theory Engine imports Documents QueryEngine begin

section \<open>The browser core (src/src/browser/core/engine.js)\<close>

text \<open>
  \<open>BrowserCore\<close>: collections, the life cycle of documents, queries and joins.  An operation
  runs to its end before the next one of its collection starts (\<open>runInLane\<close>, see \<open>Lanes\<close>), so
  each is a function of the state.  \<open>Promise.all\<close> of reads, which change nothing, is their
  sequence.  \<open>structuredClone\<close> of a JSON-shaped value is the value.
\<close>

subsection \<open>Planning an operation\<close>

datatype browser_operation =
    Noop | PutInsert | PutUpdate | Delete | Restore
  | ErrWormUpdate | ErrWormDelete | ErrWormRestore
  | ErrSoftDeleted | ErrRestoreActiveExists | ErrRestoreMissingTombstone

definition planPutOperation :: "bool \<Rightarrow> bool \<Rightarrow> bool \<Rightarrow> browser_operation" where
  "planPutOperation existing worm deleted =
     (if deleted then ErrSoftDeleted
      else if worm \<and> existing then ErrWormUpdate
      else if existing then PutUpdate else PutInsert)"

definition planDeleteOperation :: "bool \<Rightarrow> bool \<Rightarrow> browser_operation" where
  "planDeleteOperation existing worm =
     (if worm then ErrWormDelete else if existing then Delete else Noop)"

definition planRestoreOperation :: "bool \<Rightarrow> bool \<Rightarrow> bool \<Rightarrow> browser_operation" where
  "planRestoreOperation activeExists deletedExists worm =
     (if worm then ErrWormRestore
      else if activeExists then ErrRestoreActiveExists
      else if \<not> deletedExists then ErrRestoreMissingTombstone else Restore)"

subsection \<open>Collections\<close>

definition createCollection :: "'f core \<Rightarrow> string \<Rightarrow> ('f world, unit) op" where
  "createCollection env collection = ensureCollection env collection"

definition hasCollection :: "'f core \<Rightarrow> string \<Rightarrow> ('f world, bool) op" where
  "hasCollection env collection = bind_op (of_result (collectionRoot env collection)) (w_exists env)"

definition requireCollection :: "'f core \<Rightarrow> string \<Rightarrow> ('f world, unit) op" where
  "requireCollection env collection =
     bind_op (hasCollection env collection) (\<lambda>e.
       if \<not> e then throw (CollectionNotFoundError collection) else ret ())"

definition dropCollection :: "'f core \<Rightarrow> string \<Rightarrow> ('f world, unit) op" where
  "dropCollection env collection =
     bind_op (of_result (validateCollectionName collection)) (\<lambda>_.
     seq_op (requireCollection env collection) (
     bind_op (if wormEnabled env then listDocIds env collection else ret []) (\<lambda>ids.
     if ids \<noteq> [] then throw (plain_error ''Drop is not allowed for a non-empty WORM collection'')
     else seq_op (forgetCollection collection) (
       bind_op (of_result (collectionRoot env collection)) (w_rmdir env)))))"

definition num :: "nat \<Rightarrow> jsval" where
  "num n = JNum (f64_of_int (int n))"

definition inspectCollection :: "'f core \<Rightarrow> string \<Rightarrow> ('f world, jsval) op" where
  "inspectCollection env collection =
     bind_op (hasCollection env collection) (\<lambda>e.
       if \<not> e then gets (\<lambda>w. JObj [(''collection'', JStr collection), (''exists'', JBool False), (''worm'', JBool False),
         (''docsStored'', num 0), (''deletedDocs'', num 0), (''indexedDocs'', num 0),
         (''indexAcceleration'', accelerationStatus env w)])
       else bind_op (listDocIds env collection) (\<lambda>docIds.
         bind_op (listDeletedDocIds env collection) (\<lambda>deletedIds.
         bind_op (countDocuments env collection) (\<lambda>indexed.
         gets (\<lambda>w. JObj [(''collection'', JStr collection), (''exists'', JBool True), (''worm'', JBool (wormEnabled env)),
           (''docsStored'', num (length docIds)), (''deletedDocs'', num (length deletedIds)),
           (''indexedDocs'', num indexed), (''indexAcceleration'', accelerationStatus env w)])))))"

definition reindex_doc :: "'f core \<Rightarrow> string \<Rightarrow> string \<Rightarrow> nat \<Rightarrow> ('f world, nat) op" where
  "reindex_doc env collection docId indexed =
     bind_op (readStoredDoc env collection docId) (\<lambda>stored.
       case stored of None \<Rightarrow> ret indexed
       | Some d \<Rightarrow> seq_op (putDocument env collection docId (stored_data d)) (ret (Suc indexed)))"

definition rebuildCollection :: "'f core \<Rightarrow> string \<Rightarrow> ('f world, jsval) op" where
  "rebuildCollection env collection =
     seq_op (requireCollection env collection) (
     seq_op (ensureCollection env collection) (
     bind_op (listDocIds env collection) (\<lambda>docIds.
     seq_op (resetCollection env collection) (
     bind_op (fold_op (reindex_doc env collection) docIds 0) (\<lambda>indexed.
     ret (JObj [(''collection'', JStr collection), (''worm'', JBool (wormEnabled env)),
       (''docsScanned'', num (length docIds)), (''indexedDocs'', num indexed)]))))))"

subsection \<open>Writing documents\<close>

definition explicitDocumentEntry :: "jsval \<Rightarrow> (string \<times> record_obj) option result" where
  "explicitDocumentEntry val =
     bind_result (object_entries val) (\<lambda>entries.
       case entries of
         [(candidate, doc)] \<Rightarrow>
           if \<not> isTTID candidate then Inr None
           else (case doc of JObj ob \<Rightarrow> Inr (Some (candidate, ob))
             | _ \<Rightarrow> Inl (plain_error ''Explicit TTID document payload must be an object''))
       | _ \<Rightarrow> Inr None)"

definition new_id :: "'f core \<Rightarrow> ('f world, string) op" where
  "new_id env w =
     (generate None False (ttid_code env (ticks w)), w\<lparr> ticks := Suc (ticks w) \<rparr>)"

definition insert_event :: "int \<Rightarrow> string \<Rightarrow> jsval \<Rightarrow> jsval" where
  "insert_event ts docId doc =
     JObj [(''ts'', JNum (f64_of_int ts)), (''action'', JStr ''insert''), (''id'', JStr docId), (''doc'', doc)]"

text \<open>The time of an insert event: the modification time on disk, or now.\<close>

definition event_time :: "stored_doc option \<Rightarrow> ('f world, int) op" where
  "event_time stored = (case stored of Some d \<Rightarrow> ret (stored_updated d) | None \<Rightarrow> date_now)"

definition publish_insert :: "'f core \<Rightarrow> string \<Rightarrow> string \<Rightarrow> jsval \<Rightarrow> ('f world, unit) op" where
  "publish_insert env collection docId doc =
     bind_op (readStoredDoc env collection docId) (\<lambda>stored.
     bind_op (event_time stored) (\<lambda>ts. publish env collection (insert_event ts docId doc)))"

definition fields_of :: "jsval \<Rightarrow> record_obj" where
  "fields_of doc = (case doc of JObj ob \<Rightarrow> ob | _ \<Rightarrow> [])"

text \<open>Undoing a put whose metadata was refused.\<close>

definition undo_put :: "'f core \<Rightarrow> string \<Rightarrow> string \<Rightarrow> stored_doc option \<Rightarrow> ('f world, unit) op" where
  "undo_put env collection docId existing =
     (case existing of
        Some d \<Rightarrow> seq_op (writeStoredDoc env collection docId (JObj (stored_data d)))
                    (putDocument env collection docId (stored_data d))
      | None \<Rightarrow> removeStoredDoc env collection docId)"

definition put_in_lane :: "'f core \<Rightarrow> string \<Rightarrow> string \<Rightarrow> jsval \<Rightarrow> jsval \<Rightarrow> ('f world, string) op" where
  "put_in_lane env collection docId doc meta =
     seq_op (ensureCollection env collection) (
     bind_op (readDeletedDoc env collection docId) (\<lambda>deleted.
     bind_op (readStoredDoc env collection docId) (\<lambda>existing.
     (let operation = planPutOperation (existing \<noteq> None) (wormEnabled env) (deleted \<noteq> None) in
      if operation = ErrSoftDeleted
        then throw (plain_error (''Document is soft-deleted; restore it before writing: '' @ docId))
      else if operation = ErrWormUpdate then throw (plain_error ''Update is not allowed in WORM mode'')
      else
        seq_op (case existing of Some d \<Rightarrow> if operation = PutUpdate
                  then removeDocument env collection docId (stored_data d) else ret () | None \<Rightarrow> ret ()) (
        seq_op (writeStoredDoc env collection docId doc) (
        seq_op (catch_op (if meta = JUndef then ret ()
             else seq_op (metadata_mutate env collection docId meta) (ret ()))
           (\<lambda>e. seq_op (undo_put env collection docId existing) (throw e))) (
        seq_op (putDocument env collection docId (fields_of doc)) (
        seq_op (publish_insert env collection docId doc) (
        ret docId)))))))))"

definition putData :: "'f core \<Rightarrow> string \<Rightarrow> jsval \<Rightarrow> jsval \<Rightarrow> ('f world, string) op" where
  "putData env collection data meta =
     seq_op (if meta = JUndef then ret () else bind_op (of_result (validateMetadataRecord meta)) (\<lambda>_. ret ())) (
     seq_op (requireCollection env collection) (
     bind_op (of_result (explicitDocumentEntry data)) (\<lambda>explicit.
     bind_op (case explicit of Some (docId, _) \<Rightarrow> ret docId | None \<Rightarrow> new_id env) (\<lambda>docId.
     bind_op (of_result (validateDocId docId)) (\<lambda>_.
     put_in_lane env collection docId (case explicit of Some (_, doc) \<Rightarrow> JObj doc | None \<Rightarrow> data) meta)))))"

definition batchPutData :: "'f core \<Rightarrow> string \<Rightarrow> jsval list \<Rightarrow> ('f world, string list) op" where
  "batchPutData env collection batch =
     fold_op (\<lambda>data ids. bind_op (putData env collection data JUndef) (\<lambda>docId. ret (ids @ [docId]))) batch []"

definition document_not_found :: "string \<Rightarrow> js_error" where
  "document_not_found docId = plain_error (''Document not found: '' @ docId)"

definition getDocMeta :: "'f core \<Rightarrow> string \<Rightarrow> string \<Rightarrow> ('f world, jsval) op" where
  "getDocMeta env collection docId =
     bind_op (of_result (validateDocId docId)) (\<lambda>_.
     seq_op (requireCollection env collection) (
     bind_op (readStoredDoc env collection docId) (\<lambda>stored.
       case stored of None \<Rightarrow> throw (document_not_found docId)
       | Some d \<Rightarrow> bind_op (metadata_read env collection docId) (\<lambda>m.
           case copySafeJson (meta_values m) of
             JObj ob \<Rightarrow> ret (JObj (obj_put (obj_put (obj_put (obj_put ob ''id'' (JStr (stored_id d)))
               ''mtime'' (JNum (f64_of_int (stored_updated d)))) ''updatedAt'' (JNum (f64_of_int (stored_updated d))))
               ''createdAt'' (JNum (f64_of_int (stored_created d)))))
           | _ \<Rightarrow> throw (js_type_error ''Cannot set properties of null'')))))"

definition setDocMetaRecord :: "'f core \<Rightarrow> string \<Rightarrow> string \<Rightarrow> jsval \<Rightarrow> ('f world, jsval) op" where
  "setDocMetaRecord env collection docId entries =
     bind_op (of_result (validateDocId docId)) (\<lambda>_.
     seq_op (requireCollection env collection) (
     bind_op (readStoredDoc env collection docId) (\<lambda>stored.
       if stored = None then throw (document_not_found docId)
       else bind_op (metadata_mutate env collection docId entries) (\<lambda>m.
         seq_op (publish env collection (JObj [(''ts'', JNum (meta_updated m)), (''action'', JStr ''meta''),
             (''id'', JStr docId), (''meta'', copySafeJson (meta_values m))]))
           (ret (copySafeJson (meta_values m)))))))"

text \<open>The entries a spread takes from a value; null and undefined have none.\<close>

definition spread_entries :: "jsval \<Rightarrow> record_obj" where
  "spread_entries v = (case object_entries v of Inr es \<Rightarrow> es | Inl _ \<Rightarrow> [])"

definition patchDoc :: "'f core \<Rightarrow> string \<Rightarrow> record_obj \<Rightarrow> record_obj \<Rightarrow> ('f world, string) op" where
  "patchDoc env collection newDoc oldDoc =
     (if wormEnabled env then throw (plain_error ''Update is not allowed in WORM mode'')
      else seq_op (requireCollection env collection) (
        case obj_keys newDoc of
          [] \<Rightarrow> throw (plain_error ''this document does not contain an TTID'')
        | docId # _ \<Rightarrow>
            if docId = [] then throw (plain_error ''this document does not contain an TTID'')
            else bind_op (of_result (validateDocId docId)) (\<lambda>_.
              bind_op (readStoredDoc env collection docId) (\<lambda>stored.
              case stored of None \<Rightarrow> ret docId
              | Some d \<Rightarrow>
                  (let old = obj_get oldDoc docId;
                       previous = (if is_nullish old then JObj (stored_data d) else old)
                   in if \<not> js_truthy previous then ret docId
                      else putData env collection (JObj [(docId,
                          JObj (obj_assign (obj_of (spread_entries previous)) (spread_entries (obj_get newDoc docId))))]) JUndef)))))"

definition delete_event :: "int \<Rightarrow> stored_doc \<Rightarrow> jsval" where
  "delete_event ts d =
     JObj [(''ts'', JNum (f64_of_int ts)), (''action'', JStr ''delete''), (''id'', JStr (stored_id d)),
       (''doc'', JObj (stored_data d)), (''createdAt'', JNum (f64_of_int (stored_created d))),
       (''updatedAt'', JNum (f64_of_int (stored_updated d)))]"

definition delDoc :: "'f core \<Rightarrow> string \<Rightarrow> string \<Rightarrow> ('f world, unit) op" where
  "delDoc env collection docId =
     bind_op (of_result (validateDocId docId)) (\<lambda>_.
     seq_op (requireCollection env collection) (
     bind_op (readStoredDoc env collection docId) (\<lambda>stored.
       (let operation = planDeleteOperation (stored \<noteq> None) (wormEnabled env) in
        if operation = ErrWormDelete then throw (plain_error ''Delete is not allowed in WORM mode'')
        else case stored of None \<Rightarrow> ret ()
        | Some d \<Rightarrow>
            if operation = Noop then ret ()
            else seq_op (removeDocument env collection docId (stored_data d)) (
              bind_op date_now (\<lambda>now.
              seq_op (softDeleteStoredDoc env collection docId now)
                (publish env collection (delete_event now d))))))))"

definition restoreDoc :: "'f core \<Rightarrow> string \<Rightarrow> string \<Rightarrow> ('f world, string) op" where
  "restoreDoc env collection docId =
     bind_op (of_result (validateDocId docId)) (\<lambda>_.
     seq_op (requireCollection env collection) (
     bind_op (readStoredDoc env collection docId) (\<lambda>active.
     bind_op (readDeletedDoc env collection docId) (\<lambda>deleted.
       (let operation = planRestoreOperation (active \<noteq> None) (deleted \<noteq> None) (wormEnabled env) in
        if operation = ErrWormRestore then throw (plain_error ''Restore is not allowed in WORM mode'')
        else if operation = ErrRestoreActiveExists
        then throw (plain_error (''Cannot restore document because it already exists: '' @ docId))
        else case deleted of
          None \<Rightarrow> throw (plain_error (''Deleted document not found: '' @ docId))
        | Some d \<Rightarrow>
            if operation = ErrRestoreMissingTombstone
            then throw (plain_error (''Deleted document not found: '' @ docId))
            else bind_op date_now (\<lambda>_.
              seq_op (restoreStoredDoc env collection docId) (
              seq_op (putDocument env collection docId (deleted_data d)) (
              seq_op (publish_insert env collection docId (JObj (deleted_data d))) (ret docId)))))))))"

subsection \<open>Reading documents\<close>

definition listQueryableDocIds :: "'f core \<Rightarrow> string \<Rightarrow> ('f world, string list) op" where
  "listQueryableDocIds env collection =
     seq_op (requireCollection env collection) (listDocIds env collection)"

definition getLatest :: "'f core \<Rightarrow> string \<Rightarrow> string \<Rightarrow> bool \<Rightarrow> ('f world, jsval) op" where
  "getLatest env collection docId onlyId =
     bind_op (of_result (validateDocId docId)) (\<lambda>_.
     seq_op (requireCollection env collection) (
     bind_op (readStoredDoc env collection docId) (\<lambda>stored.
       ret (case stored of
              None \<Rightarrow> if onlyId then JNull else JObj []
            | Some d \<Rightarrow> if onlyId then JStr (stored_id d) else JObj [(stored_id d, JObj (stored_data d))]))))"

definition prefix_index :: "'f core \<Rightarrow> 'f world index_like" where
  "prefix_index env = \<lparr> candidate_ids = candidateDocIds env \<rparr>"

text \<open>The loop over the candidates: skip what is gone or does not match, stop at the limit.\<close>

definition limit_reached :: "jsval \<Rightarrow> nat \<Rightarrow> bool" where
  "limit_reached limit n = (js_truthy limit \<and> num_ge (f64_of_int (int n)) limit)"

definition stored_times :: "stored_doc \<Rightarrow> doc_times" where
  "stored_times d = \<lparr> created_ms = f64_of_int (stored_created d), updated_ms = f64_of_int (stored_updated d) \<rparr>"

fun collect_results :: "'f core \<Rightarrow> string \<Rightarrow> jsval \<Rightarrow> string list \<Rightarrow> record_obj list \<Rightarrow> ('f world, record_obj list) op" where
  "collect_results env collection query [] results = ret results"
| "collect_results env collection query (docId # ids) results =
     bind_op (readStoredDoc env collection docId) (\<lambda>stored.
       case stored of None \<Rightarrow> collect_results env collection query ids results
       | Some d \<Rightarrow>
           bind_op (of_result (matchesQuery (JObj (stored_data d)) query (stored_times d))) (\<lambda>holds.
             if \<not> holds then collect_results env collection query ids results
             else let results' = results @ [[(docId, JObj (stored_data d))]] in
               if limit_reached (get_prop query ''$limit'') (length results') then ret results'
               else collect_results env collection query ids results'))"

definition default_query :: "jsval \<Rightarrow> jsval" where
  "default_query query = (if query = JUndef then JObj [] else query)"

definition check_query :: "jsval \<Rightarrow> unit result" where
  "check_query query =
     (if query = JNull then Inl (js_type_error ''Cannot read properties of null'') else Inr ())"

definition docResults :: "'f core \<Rightarrow> string \<Rightarrow> jsval \<Rightarrow> ('f world, record_obj list) op" where
  "docResults env collection query0 =
     (let query = default_query query0 in
      seq_op (requireCollection env collection) (
      bind_op (candidateDocIdsForQuery (prefix_index env) collection query) (\<lambda>candidates.
      bind_op (case candidates of Some ids \<Rightarrow> ret ids | None \<Rightarrow> listQueryableDocIds env collection) (\<lambda>ids.
      bind_op (of_result (check_query query)) (\<lambda>_.
      collect_results env collection query ids [])))))"

fun collect_deleted :: "'f core \<Rightarrow> string \<Rightarrow> jsval \<Rightarrow> string list \<Rightarrow> record_obj list \<Rightarrow> ('f world, record_obj list) op" where
  "collect_deleted env collection query [] results = ret results"
| "collect_deleted env collection query (docId # ids) results =
     bind_op (readDeletedDoc env collection docId) (\<lambda>deleted.
       case deleted of None \<Rightarrow> collect_deleted env collection query ids results
       | Some d \<Rightarrow>
           bind_op (of_result (matchesDeletedQuery (JObj (deleted_data d)) query
               (f64_of_int (deleted_created d)) (deleted_at d))) (\<lambda>holds.
             if \<not> holds then collect_deleted env collection query ids results
             else let results' = results @ [[(docId, JObj (deleted_data d))]] in
               if limit_reached (get_prop query ''$limit'') (length results') then ret results'
               else collect_deleted env collection query ids results'))"

definition deletedDocResults :: "'f core \<Rightarrow> string \<Rightarrow> jsval \<Rightarrow> ('f world, record_obj list) op" where
  "deletedDocResults env collection query0 =
     (let query = default_query query0 in
      seq_op (requireCollection env collection) (
      bind_op (listDeletedDocIds env collection) (\<lambda>ids.
      bind_op (of_result (check_query query)) (\<lambda>_.
      collect_deleted env collection query ids []))))"

text \<open>\<open>collect()\<close>: the results are found first; each is presented when it is consumed.\<close>

fun present_each :: "jsval \<Rightarrow> ('a \<Rightarrow> jsval \<Rightarrow> ('s, 'a) op) \<Rightarrow> record_obj list \<Rightarrow> 'a \<Rightarrow> ('s, 'a) op" where
  "present_each query consume [] acc = ret acc"
| "present_each query consume (doc # docs) acc =
     bind_op (of_result (processDoc doc query)) (\<lambda>result.
       if result = JUndef then present_each query consume docs acc
       else bind_op (consume acc result) (present_each query consume docs))"

definition find_each :: "'f core \<Rightarrow> string \<Rightarrow> jsval \<Rightarrow> ('a \<Rightarrow> jsval \<Rightarrow> ('f world, 'a) op) \<Rightarrow> 'a \<Rightarrow> ('f world, 'a) op" where
  "find_each env collection query consume acc =
     bind_op (docResults env collection query) (\<lambda>docs.
     present_each (default_query query) consume docs acc)"

definition findDocs_collect :: "'f core \<Rightarrow> string \<Rightarrow> jsval \<Rightarrow> ('f world, jsval list) op" where
  "findDocs_collect env collection query =
     find_each env collection query (\<lambda>acc result. ret (acc @ [result])) []"

definition findDeletedDocs_collect :: "'f core \<Rightarrow> string \<Rightarrow> jsval \<Rightarrow> ('f world, jsval list) op" where
  "findDeletedDocs_collect env collection query =
     bind_op (deletedDocResults env collection query) (\<lambda>docs.
     present_each (default_query query) (\<lambda>acc result. ret (acc @ [result])) docs [])"

subsection \<open>Changing what a query finds\<close>

definition patch_found :: "'f core \<Rightarrow> string \<Rightarrow> jsval \<Rightarrow> nat \<Rightarrow> jsval \<Rightarrow> ('f world, nat) op" where
  "patch_found env collection patch count val =
     (case val of
        JObj ((docId, current) # _) \<Rightarrow>
          if docId = [] \<or> \<not> js_truthy current then ret count
          else seq_op (patchDoc env collection [(docId, patch)] [(docId, current)]) (ret (Suc count))
      | _ \<Rightarrow> ret count)"

definition patchDocs :: "'f core \<Rightarrow> string \<Rightarrow> jsval \<Rightarrow> ('f world, nat) op" where
  "patchDocs env collection update =
     find_each env collection
       (if is_nullish (get_prop update ''$where'') then JObj [] else get_prop update ''$where'')
       (patch_found env collection (get_prop update ''$set'')) 0"

definition delete_found :: "'f core \<Rightarrow> string \<Rightarrow> nat \<Rightarrow> jsval \<Rightarrow> ('f world, nat) op" where
  "delete_found env collection count val =
     (case val of
        JObj ob \<Rightarrow> (case find isTTID (obj_keys ob) of
            Some docId \<Rightarrow> seq_op (delDoc env collection docId) (ret (Suc count))
          | None \<Rightarrow> ret count)
      | _ \<Rightarrow> ret count)"

definition delDocs :: "'f core \<Rightarrow> string \<Rightarrow> jsval \<Rightarrow> ('f world, nat) op" where
  "delDocs env collection deleteSchema = find_each env collection deleteSchema (delete_found env collection) 0"

subsection \<open>Joins\<close>

definition JOIN_COMPARATORS :: "(string \<times> (jsval \<Rightarrow> jsval \<Rightarrow> bool)) list" where
  "JOIN_COMPARATORS =
     [(''$eq'', strict_eq), (''$ne'', \<lambda>l r. \<not> strict_eq l r),
      (''$gt'', \<lambda>l r. f64_lt (js_to_number r) (js_to_number l)),
      (''$lt'', \<lambda>l r. f64_lt (js_to_number l) (js_to_number r)),
      (''$gte'', \<lambda>l r. f64_le (js_to_number r) (js_to_number l)),
      (''$lte'', \<lambda>l r. f64_le (js_to_number l) (js_to_number r))]"

definition combine_rows :: "jsval \<Rightarrow> jsval \<Rightarrow> jsval \<Rightarrow> jsval" where
  "combine_rows mode leftData rightData =
     (let merged = JObj (obj_assign (obj_assign safeRecord (spread_entries leftData)) (spread_entries rightData)) in
      case mode of JStr m \<Rightarrow>
          if m = ''inner'' \<or> m = ''outer'' then merged
          else if m = ''left'' then leftData else if m = ''right'' then rightData else JUndef
      | _ \<Rightarrow> JUndef)"

definition operand_matches_row :: "string \<Rightarrow> jsval \<Rightarrow> jsval \<Rightarrow> jsval \<Rightarrow> bool" where
  "operand_matches_row field operand leftData rightData =
     list_ex (\<lambda>(opKey, compare).
       js_truthy (get_prop operand opKey) \<and>
       compare (getValueByPath leftData field) (getValueByPath rightData (js_to_string (get_prop operand opKey))))
     JOIN_COMPARATORS"

definition joinRowMatches :: "jsval \<Rightarrow> jsval \<Rightarrow> jsval \<Rightarrow> bool result" where
  "joinRowMatches join leftData rightData =
     bind_result (object_entries (get_prop join ''$on'')) (\<lambda>entries.
     Inr (list_ex (\<lambda>(field, operand). js_truthy operand \<and> operand_matches_row field operand leftData rightData) entries))"

definition projectJoinRow :: "jsval \<Rightarrow> jsval \<Rightarrow> jsval \<Rightarrow> jsval result" where
  "projectJoinRow join leftData rightData =
     shape_data join (combine_rows (get_prop join ''$mode'') leftData rightData)"

fun join_right :: "jsval \<Rightarrow> string \<Rightarrow> jsval \<Rightarrow> record_obj list \<Rightarrow> record_obj \<Rightarrow> record_obj result" where
  "join_right join leftId leftData [] docs = Inr docs"
| "join_right join leftId leftData (rightEntry # rights) docs =
     (case rightEntry of [] \<Rightarrow> Inl (js_type_error ''undefined is not iterable'')
      | (rightId, rightData) # _ \<Rightarrow>
          bind_result (joinRowMatches join leftData rightData) (\<lambda>holds.
            if \<not> holds then join_right join leftId leftData rights docs
            else bind_result (projectJoinRow join leftData rightData) (\<lambda>row.
              let docs' = obj_put docs (leftId @ '', '' @ rightId) row in
              if limit_reached (get_prop join ''$limit'') (length (obj_keys docs')) then Inr docs'
              else join_right join leftId leftData rights docs')))"

fun join_left :: "jsval \<Rightarrow> record_obj list \<Rightarrow> record_obj list \<Rightarrow> record_obj \<Rightarrow> record_obj result" where
  "join_left join [] rights docs = Inr docs"
| "join_left join (leftEntry # lefts) rights docs =
     (case leftEntry of [] \<Rightarrow> Inl (js_type_error ''undefined is not iterable'')
      | (leftId, leftData) # _ \<Rightarrow>
          bind_result (join_right join leftId leftData rights docs) (\<lambda>docs'.
            if limit_reached (get_prop join ''$limit'') (length (obj_keys docs')) then Inr docs'
            else join_left join lefts rights docs'))"

fun group_joined :: "string \<Rightarrow> record_obj \<Rightarrow> record_obj \<Rightarrow> record_obj result" where
  "group_joined groupby [] groupedDocs = Inr groupedDocs"
| "group_joined groupby ((ids, data) # rest) groupedDocs =
     (if is_nullish data then Inl (js_type_error ''Cannot read properties of undefined'')
      else let key = js_to_string (case own_property data groupby of Some v \<Rightarrow> v | None \<Rightarrow> JUndef) in
        group_joined groupby rest
          (obj_put groupedDocs key (JObj (obj_put (fields_of (obj_get groupedDocs key)) ids data))))"

definition groupJoinedDocs :: "jsval \<Rightarrow> record_obj \<Rightarrow> jsval result" where
  "groupJoinedDocs join docs =
     bind_result (group_joined (js_to_string (get_prop join ''$groupby'')) docs safeRecord) (\<lambda>groupedDocs.
     Inr (JObj (if js_truthy (get_prop join ''$onlyIds'') then group_ids groupedDocs else groupedDocs)))"

definition join_docs :: "'f core \<Rightarrow> jsval \<Rightarrow> ('f world, jsval) op" where
  "join_docs env join =
     bind_op (docResults env (js_to_string (get_prop join ''$leftCollection'')) JUndef) (\<lambda>lefts.
     bind_op (docResults env (js_to_string (get_prop join ''$rightCollection'')) JUndef) (\<lambda>rights.
     of_result (bind_result (join_left join lefts rights safeRecord) (\<lambda>docs.
       if js_truthy (get_prop join ''$groupby'') then groupJoinedDocs join docs
       else if js_truthy (get_prop join ''$onlyIds'') then Inr (JArr (map JStr (obj_keys docs)))
       else Inr (JObj docs)))))"

end
