(* ===== verification/PrefixComplete.thy ===== *)
theory PrefixComplete imports PrefixCodec begin

section \<open>The index has no false negatives\<close>

text \<open>
  The keys of a document against the prefixes of a query, both from \<open>PrefixCodec\<close>: every leaf
  value and array item that \<open>walk\<close> reaches has its keys, and a value that satisfies an operand
  the index serves has a key the plan accepts.  Two closed examples show where that fails.
\<close>

subsection \<open>Every indexed value has its keys\<close>

text \<open>A value reached through records only, as \<open>walk\<close> reaches it.\<close>

fun leaf_at :: "record_obj \<Rightarrow> string list \<Rightarrow> jsval option" where
  "leaf_at ob [] = None"
| "leaf_at ob [k] = map_of ob k"
| "leaf_at ob (k # l # ks) =
     (case map_of ob k of Some (JObj ob') \<Rightarrow> leaf_at ob' (l # ks) | _ \<Rightarrow> None)"

definition extends :: "string list \<times> string list \<Rightarrow> string list \<times> string list \<Rightarrow> bool" where
  "extends a b \<longleftrightarrow> set (fst a) \<subseteq> set (fst b) \<and> set (snd a) \<subseteq> set (snd b)"

lemma extends_refl [simp]: "extends a a"
  and extends_trans: "extends a b \<Longrightarrow> extends b c \<Longrightarrow> extends a c"
  by (auto simp: extends_def)

lemma addValue_extends: "addValue digest d p raw a = Inr b \<Longrightarrow> extends a b"
  by (auto simp: addValue_def extends_def elim!: bind_result_InrE)

lemma walk_extends:
  "walk digest d p ob a = Inr b \<Longrightarrow> extends a b"
  "walk_value digest d p v a = Inr b \<Longrightarrow> extends a b"
  "walk_items digest d p vs a = Inr b \<Longrightarrow> extends a b"
proof (induction digest d p ob a and digest d p v a and digest d p vs a arbitrary: b and b and b
    rule: walk_walk_value_walk_items.induct)
  case (2 digest d p field v ob a)
  from "2.prems" obtain c where c: "walk_value digest d (child_path p field) v a = Inr c"
    "walk digest d p ob c = Inr b"
    unfolding walk.simps by (rule bind_result_InrE)
  from extends_trans [OF "2.IH"(1) [OF c(1)] "2.IH"(2) [OF c(2)]] show ?case .
next
  case (7 digest d p item items a)
  then have no: "\<not> is_object item" by (auto split: if_splits)
  with "7.prems" obtain c where c: "addValue digest d p item a = Inr c" "walk_items digest d p items c = Inr b"
    unfolding walk_items.simps if_not_P [OF no] by (elim bind_result_InrE)
  from extends_trans [OF addValue_extends [OF c(1)] "7.IH" [OF no c(2)]] show ?case .
qed (auto intro: addValue_extends)

lemma walk_member:
  "walk digest d p ob a = Inr b \<Longrightarrow> (k, v) \<in> set ob \<Longrightarrow>
   \<exists>x y. walk_value digest d (child_path p k) v x = Inr y \<and> extends y b"
proof (induction ob arbitrary: a)
  case (Cons e ob)
  obtain l w where e: "e = (l, w)" by fastforce
  with Cons.prems obtain c where c: "walk_value digest d (child_path p l) w a = Inr c"
    "walk digest d p ob c = Inr b"
    by (auto elim: bind_result_InrE)
  show ?case
  proof (cases "(k, v) = e")
    case True
    with c e walk_extends(1) show ?thesis by blast
  next
    case False
    with Cons c(2) show ?thesis by auto
  qed
qed simp

lemma walk_items_member:
  "walk_items digest d p vs a = Inr b \<Longrightarrow> v \<in> set vs \<Longrightarrow>
   \<exists>x y. addValue digest d p v x = Inr y \<and> extends y b"
proof (induction vs arbitrary: a)
  case (Cons w vs)
  then obtain c where c: "addValue digest d p w a = Inr c" "walk_items digest d p vs c = Inr b"
    by (auto split: if_splits elim: bind_result_InrE)
  show ?case
  proof (cases "v = w")
    case True
    with c walk_extends(3) [OF c(2)] show ?thesis by blast
  next
    case False
    with Cons c(2) show ?thesis by (metis set_ConsD)
  qed
qed simp

definition path_below :: "string \<Rightarrow> string list \<Rightarrow> string" where
  "path_below parent segs = foldl child_path parent segs"

lemma path_below_join: "segs \<noteq> [] \<Longrightarrow> hd segs \<noteq> [] \<Longrightarrow> path_below [] segs = join_with ''/'' segs"
proof -
  have *: "parent \<noteq> [] \<Longrightarrow> path_below parent ss = join_with ''/'' (parent # ss)" for parent ss
  proof (induction ss arbitrary: parent)
    case (Cons s ss)
    have "path_below parent (s # ss) = path_below (parent @ ''/'' @ s) ss"
      using Cons.prems by (simp add: path_below_def child_path_def)
    also have "\<dots> = join_with ''/'' ((parent @ ''/'' @ s) # ss)" using Cons by simp
    also have "\<dots> = join_with ''/'' (parent # s # ss)" by (cases ss) simp_all
    finally show ?case .
  qed (simp add: path_below_def)
  assume "segs \<noteq> []" "hd segs \<noteq> []"
  then obtain s ss where "segs = s # ss" "s \<noteq> []" by (cases segs) auto
  then show ?thesis using * [of s ss] by (simp add: path_below_def child_path_def)
qed

lemma walk_leaf:
  "walk digest d p ob a = Inr b \<Longrightarrow> leaf_at ob segs = Some v \<Longrightarrow>
   \<exists>x y. walk_value digest d (path_below p segs) v x = Inr y \<and> extends y b"
proof (induction ob segs arbitrary: p a b rule: leaf_at.induct)
  case (2 ob k)
  then show ?case using walk_member [of digest d p ob a b k v] by (auto simp: path_below_def dest: map_of_SomeD)
next
  case (3 ob k l ks)
  then obtain ob' where ob': "map_of ob k = Some (JObj ob')" "leaf_at ob' (l # ks) = Some v"
    by (auto split: option.splits jsval.splits)
  have "\<exists>x y. walk digest d (child_path p k) ob' x = Inr y \<and> extends y b"
    using walk_member [OF 3(2) map_of_SomeD [OF ob'(1)]] by simp
  then obtain x y where y: "walk digest d (child_path p k) ob' x = Inr y" "extends y b" by blast
  from "3.IH" [OF ob'(1) refl y(1) ob'(2)] obtain x' z
    where "walk_value digest d (path_below (child_path p k) (l # ks)) v x' = Inr z" "extends z y" by blast
  with y(2) extends_trans show ?case by (metis path_below_def foldl_Cons)
qed simp

definition index_kinds :: "(bytes \<Rightarrow> bytes) \<Rightarrow> jsval \<Rightarrow> (string \<times> string) list" where
  "index_kinds digest raw =
     (''eq'', lookupToken digest (stringifyStoredValue raw)) # value_entries raw"

definition full_key :: "string \<Rightarrow> string \<Rightarrow> string \<Rightarrow> string \<Rightarrow> string" where
  "full_key p knd value d = join_with ''/'' [encodeFieldPath p, knd, value, d]"

lemma index_key_ok: "isTTID d \<Longrightarrow> index_key p knd value d = Inr (full_key p knd value d)"
  by (simp add: index_key_def full_key_def encode_TTID)

lemma keys_of_ok: "isTTID d \<Longrightarrow> keys_of p d es = Inr (map (\<lambda>(knd, value). full_key p knd value d) es)"
  by (induction es) (auto simp: index_key_ok)

lemma push_new_fold: "set (foldl push_new acc xs) = set acc \<union> set xs"
  by (induction xs arbitrary: acc) (auto simp: push_new_props)

text \<open>The values indexed for a field: the leaf itself, or the items of an array.\<close>

definition indexed_values :: "jsval \<Rightarrow> jsval set" where
  "indexed_values v = (case v of JArr items \<Rightarrow> set items | JObj _ \<Rightarrow> {} | _ \<Rightarrow> {v})"

lemma addValue_keys:
  assumes "isTTID d" and "addValue digest d p raw a = Inr b" and "(knd, value) \<in> set (index_kinds digest raw)"
  shows "full_key p knd value d \<in> set (fst b) \<union> set (snd b)"
  using assms by (auto simp: addValue_def index_key_ok keys_of_ok index_kinds_def)

lemma walk_value_leaf: "\<not> is_object v \<Longrightarrow> walk_value digest d p v = addValue digest d p v"
  by (cases v) (simp_all add: is_object_def fun_eq_iff)

lemma entries_complete:
  assumes "isTTID d" and "entriesForDocument digest d data = Inr keys"
    and "leaf_at data segs = Some v" and "hd segs \<noteq> []" and "raw \<in> indexed_values v"
    and "(knd, value) \<in> set (index_kinds digest raw)"
  shows "full_key (join_with ''/'' segs) knd value d \<in> set keys"
proof -
  obtain b where b: "walk digest d [] data ([], []) = Inr b" "keys = foldl push_new [] (fst b @ snd b)"
    using assms(2) by (auto simp: entriesForDocument_def split: prod.splits elim!: bind_result_InrE)
  have segs: "segs \<noteq> []" using assms(3) by auto
  obtain x y where y: "walk_value digest d (join_with ''/'' segs) v x = Inr y" "extends y b"
    using walk_leaf [OF b(1) assms(3)] path_below_join [OF segs assms(4)] by auto
  have "\<exists>x z. addValue digest d (join_with ''/'' segs) raw x = Inr z \<and> extends z y"
  proof (cases "is_object v")
    case True
    then obtain items where "v = JArr items" using assms(5) by (cases v) (auto simp: is_object_def indexed_values_def)
    with y(1) assms(5) walk_items_member show ?thesis by (simp add: indexed_values_def)
  next
    case False
    then have "raw = v" using assms(5) by (cases v) (auto simp: is_object_def indexed_values_def)
    with y(1) walk_value_leaf [OF False] show ?thesis by (metis extends_refl)
  qed
  then obtain z where "full_key (join_with ''/'' segs) knd value d \<in> set (fst z) \<union> set (snd z)" "extends z y"
    using addValue_keys [OF assms(1) _ assms(6)] by blast
  with y(2) show ?thesis unfolding b(2) extends_def push_new_fold by auto
qed

lemma full_key_parts: "full_key p knd value d = index_prefix p knd [] @ value @ CHR ''/'' # d"
  by (simp add: full_key_def index_prefix_def)

lemma index_prefix_parts: "index_prefix p knd v = index_prefix p knd [] @ v"
  by (simp add: index_prefix_def)

lemma full_key_starts: "starts_with (index_prefix p knd v) (full_key p knd value d) \<longleftrightarrow> prefix v (value @ CHR ''/'' # d)"
  unfolding starts_with_iff_prefix full_key_parts index_prefix_parts [of p knd v] by simp

lemma docIdFromKey_full:
  assumes "isTTID d"
  shows "docIdFromKey (index_prefix p knd []) (full_key p knd value d) = Inr d"
proof -
  have "last (split_on CHR ''/'' (value @ CHR ''/'' # d)) = d"
    using isTTID_no_slash [OF assms] by (simp add: split_on_append_sep split_on_no_sep)
  moreover have "decodeSegment d = Inr d" using decode_encodeSegment [of d] encode_TTID [OF assms] by simp
  ultimately show ?thesis using assms by (simp add: docIdFromKey_def full_key_parts)
qed

lemma rangeValueFromKey_full:
  assumes "isTTID d" and "CHR ''/'' \<notin> set value"
  shows "rangeValueFromKey (full_key p knd value d) = value"
proof -
  have "full_key p knd value d = (encodeFieldPath p @ CHR ''/'' # knd) @ CHR ''/'' # value @ CHR ''/'' # d"
    by (simp add: full_key_def)
  then have "split_on CHR ''/'' (full_key p knd value d) =
      split_on CHR ''/'' (encodeFieldPath p @ CHR ''/'' # knd) @ [value, d]"
    using split_on_no_sep [OF isTTID_no_slash [OF assms(1)]] split_on_no_sep [OF assms(2)]
    by (simp only: split_on_append_sep append.simps append_assoc)
  then show ?thesis by (simp add: rangeValueFromKey_def nth_append)
qed

text \<open>A key answers a query entry: it is in its prefix and range and names the document.\<close>

definition answers :: "string \<Rightarrow> query_prefix \<Rightarrow> string \<Rightarrow> string \<Rightarrow> bool" where
  "answers fieldPath entry key docId =
     (starts_with (index_prefix fieldPath (kind entry) (valuePrefix entry)) key \<and>
      includeKeyInRange key (range entry) \<and>
      docIdFromKey (index_prefix fieldPath (kind entry) []) key = Inr docId)"

lemma answersI:
  assumes "isTTID d" and "prefix v (value @ CHR ''/'' # d)"
    and "includeKeyInRange (full_key p knd value d) r"
  shows "answers p \<lparr> kind = knd, valuePrefix = v, range = r \<rparr> (full_key p knd value d) d"
  using assms by (simp add: answers_def full_key_starts docIdFromKey_full)

fun range_holds :: "range_op \<Rightarrow> f64 \<Rightarrow> f64 \<Rightarrow> bool" where
  "range_holds Gt x y = f64_lt y x"
| "range_holds Gte x y = f64_le y x"
| "range_holds Lt x y = f64_lt x y"
| "range_holds Lte x y = f64_le x y"

lemma f64_le_position:
  assumes "f64_le x y" and "\<not> (f64_magnitude x = 0 \<and> f64_magnitude y = 0 \<and> x \<noteq> y)"
  shows "sort_position x \<le> sort_position y"
proof (cases "x = y")
  case False
  with assms have "\<not> (f64_magnitude x = 0 \<and> f64_magnitude y = 0)" "f64_key x \<le> f64_key y"
    by (auto simp: f64_le_def)
  then show ?thesis using sort_position_less [of y x] by (auto simp: linorder_not_less [symmetric])
qed simp

lemma f64_lt_position: "f64_lt x y \<Longrightarrow> sort_position x < sort_position y"
proof -
  assume l: "f64_lt x y"
  then have "\<not> (f64_magnitude x = 0 \<and> f64_magnitude y = 0)"
    by (auto simp: f64_lt_def f64_key_def split: if_splits)
  with l sort_position_less show ?thesis by (simp add: f64_lt_def)
qed

text \<open>Range queries have no false negatives: when a document is indexed and a leaf value of it
  satisfies one of the bounds, the document has a key that the planned prefix and range of the
  query accept.  The two zeros must not be confused: their encodings differ.\<close>

theorem range_index_complete:
  assumes "isTTID docId" and "entriesForDocument digest docId data = Inr keys"
    and "leaf_at data segs = Some value" and "hd segs \<noteq> []" and "\<not> is_object value"
    and "numericValue value = Some x" and "numericValue bound = Some y"
    and "range_holds op x y" and "f64_magnitude x \<noteq> 0 \<or> f64_magnitude y \<noteq> 0 \<or> x = y"
  shows "\<exists>entry. queryPrefixes digest (JObj [(range_key op, bound)]) = Inr (Some [entry]) \<and>
    (\<exists>key\<in>set keys. answers (join_with ''/'' segs) entry key docId)"
proof -
  have fin: "f64_is_finite x" "f64_is_finite y"
    using assms(6,7) by (auto simp: numericValue_def Let_def split: if_splits)
  have sv: "sortable_value value = sortableFloat64 x" "sortable_value bound = sortableFloat64 y"
    using assms(6,7) by (simp_all add: sortable_value_def)
  note slash = sortable_no_slash [OF fin(1)]
  have bound: "bound \<noteq> JUndef"
    using assms(7) by (auto simp: numericValue_def js_to_number_def to_primitive_def is_object_def
        prim_to_number_def f64_is_finite_def f64_nan_def f64_make_parts f64_infinity_bits_def split: if_splits)
  have raw: "value \<in> indexed_values value"
    using assms(5) by (cases "value") (auto simp: indexed_values_def is_object_def)
  have mem: "(''n'', sortableFloat64 x) \<in> set (index_kinds digest value)"
    "(''nr'', reverseSortable (sortableFloat64 x)) \<in> set (index_kinds digest value)"
    using slash(3) by (auto simp: index_kinds_def value_entries_def sv Let_def)
  define asc where "asc = (op = Gt \<or> op = Gte)"
  define knd where "knd = (if asc then ''n'' else ''nr'')"
  define val where "val = (if asc then sortableFloat64 x else reverseSortable (sortableFloat64 x))"
  define rv where "rv = (if asc then sortableFloat64 y else reverseSortable (sortableFloat64 y))"
  let ?entry = "\<lparr> kind = knd, valuePrefix = [], range = Some \<lparr> range_op = op, range_value = rv \<rparr> \<rparr>"
  have plan: "queryPrefixes digest (JObj [(range_key op, bound)]) = Inr (Some [?entry])"
    using bound sv sortable_no_slash(3) [OF fin(2)]
    by (cases op) (simp_all add: queryPrefixes_def rangeQueryPrefixes_def get_prop_def range_key_def
        knd_def rv_def asc_def Let_def)
  have key: "full_key (join_with ''/'' segs) knd val docId \<in> set keys"
    using entries_complete [OF assms(1-4) raw] mem by (simp add: knd_def val_def)
  have "CHR ''/'' \<notin> set val" using slash by (simp add: val_def)
  then have rvk: "rangeValueFromKey (full_key (join_with ''/'' segs) knd val docId) = val"
    using assms(1) rangeValueFromKey_full by blast
  have "if op = Gt \<or> op = Lt then rv < val else rv \<le> val"
    using assms(8,9) fin f64_lt_position f64_le_position [of x y] f64_le_position [of y x]
    by (cases op) (auto simp: rv_def val_def asc_def sortable_less reverse_sortable_less
        linorder_not_less [symmetric])
  then have "includeKeyInRange (full_key (join_with ''/'' segs) knd val docId) (range ?entry)"
    by (cases op) (simp_all add: includeKeyInRange_def rvk Let_def)
  then have "answers (join_with ''/'' segs) ?entry (full_key (join_with ''/'' segs) knd val docId) docId"
    using answersI [OF assms(1), of "[]"] by simp
  with plan key show ?thesis by blast
qed

theorem range_index_complete_witness:
  "\<exists>keys key. entriesForDocument (\<lambda>b. b) ''4VLN5QUCDP0'' [(''a'', JObj [(''b'', JNum (f64_of_int 7))])] = Inr keys \<and>
     key \<in> set keys \<and>
     answers ''a/b'' \<lparr> kind = ''nr'', valuePrefix = [],
       range = Some \<lparr> range_op = Lt, range_value = reverseSortable (sortableFloat64 (f64_of_int 9)) \<rparr> \<rparr>
       key ''4VLN5QUCDP0''"
proof -
  let ?data = "[(''a'', JObj [(''b'', JNum (f64_of_int 7))])]"
  have "is_ok (entriesForDocument (\<lambda>b. b) ''4VLN5QUCDP0'' ?data)" by code_simp
  then obtain keys where keys: "entriesForDocument (\<lambda>b. b) ''4VLN5QUCDP0'' ?data = Inr keys"
    by (auto simp: is_ok_iff)
  have facts: "isTTID ''4VLN5QUCDP0''" "f64_is_finite (f64_of_int 7)" "f64_is_finite (f64_of_int 9)"
    "f64_lt (f64_of_int 7) (f64_of_int 9)" "f64_magnitude (f64_of_int 7) \<noteq> 0"
    by code_simp+
  have plan: "queryPrefixes (\<lambda>b. b) (JObj [(range_key Lt, JNum (f64_of_int 9))]) =
      Inr (Some [\<lparr> kind = ''nr'', valuePrefix = [],
       range = Some \<lparr> range_op = Lt, range_value = reverseSortable (sortableFloat64 (f64_of_int 9)) \<rparr> \<rparr>])"
    using facts sortable_no_slash(3) [OF facts(3)]
    by (simp add: queryPrefixes_def rangeQueryPrefixes_def get_prop_def range_key_def sortable_value_def
        numericValue_def Let_def)
  from range_index_complete [OF facts(1) keys, of "[''a'', ''b'']" "JNum (f64_of_int 7)" "f64_of_int 7"
      "JNum (f64_of_int 9)" "f64_of_int 9" Lt] facts plan keys
  show ?thesis by (auto simp: is_object_def numericValue_def)
qed

text \<open>Values of the same type that are loosely equal are stored as the same text.\<close>

fun same_type :: "jsval \<Rightarrow> jsval \<Rightarrow> bool" where
  "same_type (JStr s) (JStr t) = True"
| "same_type (JNum x) (JNum y) = True"
| "same_type (JBool a) (JBool b) = True"
| "same_type JNull JNull = True"
| "same_type v w = False"

lemma f64_eq_same: "f64_eq x y \<Longrightarrow> x = y \<or> f64_magnitude x = 0 \<and> f64_magnitude y = 0"
proof -
  assume eq: "f64_eq x y"
  show ?thesis
  proof (cases "f64_magnitude x = 0 \<and> f64_magnitude y = 0")
    case False
    with eq have "f64_negative x = f64_negative y" "f64_magnitude x = f64_magnitude y"
      using f64_magnitude_bounds [of x] f64_magnitude_bounds [of y]
      by (auto simp: f64_eq_def f64_key_def split: if_splits)
    then have "f64_make (f64_negative x) (f64_magnitude x) = f64_make (f64_negative y) (f64_magnitude y)"
      by simp
    then show ?thesis by (simp only: f64_make_magnitude simp_thms)
  qed simp
qed

lemma same_type_stored:
  assumes "same_type v w" and "loose_eq v w"
  shows "stringifyStoredValue v = stringifyStoredValue w"
proof -
  have "num_to_string x = num_to_string y" if "f64_eq x y" for x y
    using f64_eq_same [OF that] that by (auto simp: num_to_string_def f64_eq_def)
  moreover have "a = b" if "f64_eq (f64_of_int (if a then 1 else 0)) (f64_of_int (if b then 1 else 0))" for a b
  proof -
    have "\<not> f64_eq (f64_of_int 1) (f64_of_int 0)" "\<not> f64_eq (f64_of_int 0) (f64_of_int 1)" by code_simp+
    with that show ?thesis by (cases a; cases b) auto
  qed
  ultimately show ?thesis
    using assms
    by (cases "(v, w)" rule: same_type.cases)
      (auto simp: stringifyStoredValue_def loose_eq_def loose_eq_prim_def to_primitive_def is_object_def
        is_nullish_def prim_to_number_def)
qed

lemma eq_indexed:
  assumes "isTTID docId" and "entriesForDocument digest docId data = Inr keys"
    and "leaf_at data segs = Some value" and "hd segs \<noteq> []" and "raw \<in> indexed_values value"
    and "loose_eq raw expected" and "same_type raw expected" and "op = ''$eq'' \<or> op = ''$contains''"
  shows "\<exists>entry. queryPrefixes digest (JObj [(op, expected)]) = Inr (Some [entry]) \<and>
    (\<exists>key\<in>set keys. answers (join_with ''/'' segs) entry key docId)"
proof -
  let ?token = "lookupToken digest (stringifyStoredValue raw)"
  let ?entry = "\<lparr> kind = ''eq'', valuePrefix = ?token @ ''/'', range = None \<rparr>"
  have "expected \<noteq> JUndef" using assms(7) by auto
  then have plan: "queryPrefixes digest (JObj [(op, expected)]) = Inr (Some [?entry])"
    using assms(8) same_type_stored [OF assms(7,6)]
    by (auto simp: queryPrefixes_def get_prop_def queryLookupValue_def)
  have key: "full_key (join_with ''/'' segs) ''eq'' ?token docId \<in> set keys"
    by (rule entries_complete [OF assms(1-5)]) (simp add: index_kinds_def)
  have "answers (join_with ''/'' segs) ?entry (full_key (join_with ''/'' segs) ''eq'' ?token docId) docId"
    by (rule answersI [OF assms(1)]) (simp_all add: includeKeyInRange_def)
  with plan key show ?thesis by blast
qed

text \<open>Equality and containment queries have no false negatives on values of the same type: a
  document whose leaf, or an item of whose array, equals the operand has the key that the
  query looks up.\<close>

theorem eq_index_complete:
  assumes "isTTID docId" and "entriesForDocument digest docId data = Inr keys"
    and "leaf_at data segs = Some value" and "hd segs \<noteq> []" and "raw \<in> indexed_values value"
    and "loose_eq raw expected" and "same_type raw expected" and "op = ''$eq'' \<or> op = ''$contains''"
  shows "\<exists>entry. queryPrefixes digest (JObj [(op, expected)]) = Inr (Some [entry]) \<and>
    (\<exists>key\<in>set keys. answers (join_with ''/'' segs) entry key docId)"
  by (rule eq_indexed [OF assms])

theorem eq_index_complete_witness:
  "\<exists>keys entry key. entriesForDocument (\<lambda>b. b) ''4VLN5QUCDP0'' [(''tags'', JArr [JStr ''a'', JStr ''b/c''])] = Inr keys \<and>
     queryPrefixes (\<lambda>b. b) (JObj [(''$contains'', JStr ''b/c'')]) = Inr (Some [entry]) \<and>
     key \<in> set keys \<and> answers ''tags'' entry key ''4VLN5QUCDP0''"
proof -
  let ?data = "[(''tags'', JArr [JStr ''a'', JStr ''b/c''])]"
  have "is_ok (entriesForDocument (\<lambda>b. b) ''4VLN5QUCDP0'' ?data)" by code_simp
  then obtain keys where keys: "entriesForDocument (\<lambda>b. b) ''4VLN5QUCDP0'' ?data = Inr keys"
    by (auto simp: is_ok_iff)
  have "isTTID ''4VLN5QUCDP0''" by code_simp
  from eq_index_complete [OF this keys, of "[''tags'']" "JArr [JStr ''a'', JStr ''b/c'']" "JStr ''b/c''"
      "JStr ''b/c''" "''$contains''"] keys
  show ?thesis
    by (auto simp: indexed_values_def loose_eq_def loose_eq_prim_def is_object_def is_nullish_def to_primitive_def)
qed

lemma like_spec_literal:
  "CHR ''%'' \<notin> set seg \<Longrightarrow> CHR ''_'' \<notin> set seg \<Longrightarrow>
   like_spec single (seg @ ps) v \<longleftrightarrow> (\<exists>w. v = seg @ w \<and> like_spec single ps w)"
proof (induction seg arbitrary: v)
  case (Cons c seg)
  then show ?case by (cases v) auto
qed simp

lemma stored_string: "stringifyStoredValue (JStr s) = replace_all CHR ''/'' ''%2F'' s"
  by (simp add: stringifyStoredValue_def)

lemma stored_plain: "CHR ''/'' \<notin> set s \<Longrightarrow> stringifyStoredValue (JStr s) = s"
  by (simp add: stored_string replace_all_id)

lemma length_encode: "length s \<le> length (encodeSegment s)"
proof (induction s)
  case (Cons c s)
  have "1 \<le> length (encode_char c)" by (simp add: encode_char_def utf8_char_def percent_byte_def Let_def)
  with Cons show ?case by simp
qed simp

lemma trigrams_set:
  assumes "3 \<le> length s" and "length s \<le> 512"
  shows "set (trigrams s) = (\<lambda>i. take 3 (drop i s)) ` {..length s - 3}"
proof -
  have "take MAX_NGRAM_SOURCE_CHARS s = s" using assms by (simp add: MAX_NGRAM_SOURCE_CHARS_def)
  then show ?thesis
    using assms by (simp add: trigrams_def Let_def NGRAM_SIZE_def push_new_fold atLeast0LessThan
        lessThan_Suc_atMost del: upt_Suc)
qed

lemma gram_in_trigrams:
  assumes "length s \<le> 512" and "s = a @ g @ b" and "length g = 3"
  shows "g \<in> set (trigrams s)"
proof -
  have "g = take 3 (drop (length a) s)" "length a \<le> length s - 3" using assms by simp_all
  moreover have "3 \<le> length s" using assms by simp
  ultimately show ?thesis using trigrams_set [OF _ assms(1)] by blast
qed

lemma trigrams_hd:
  assumes "3 \<le> length s"
  shows "(case trigrams s of g # _ \<Rightarrow> g | [] \<Rightarrow> take 3 s) = take 3 s"
proof -
  have keep: "hd (foldl push_new (x # acc) xs) = x \<and> foldl push_new (x # acc) xs \<noteq> []" for x :: string and acc xs
    by (induction xs arbitrary: acc) (auto simp: push_new_def)
  let ?t = "take MAX_NGRAM_SOURCE_CHARS s"
  have t: "take 3 ?t = take 3 s" "\<not> length ?t < 3" using assms by (simp_all add: MAX_NGRAM_SOURCE_CHARS_def)
  have "map f [0..<Suc n] = f 0 # map f [1..<Suc n]" for f :: "nat \<Rightarrow> string" and n by (simp add: upt_rec del: upt_Suc)
  then have "trigrams s = foldl push_new [] (take 3 (drop 0 ?t) # map (\<lambda>i. take 3 (drop i ?t)) [1..<Suc (length ?t - 3)])"
    using t(2) by (simp only: trigrams_def Let_def NGRAM_SIZE_def if_False)
  then obtain xs where "trigrams s = foldl push_new [take 3 s] xs"
    using t(1) by (simp add: push_new_def del: upt_Suc)
  with keep [of "take 3 s" "[]" xs] obtain rest where "trigrams s = take 3 s # rest"
    by (metis list.collapse)
  then show ?thesis by simp
qed

lemma value_entries_string:
  assumes "length (encodeSegment (stringifyStoredValue (JStr s))) \<le> 180"
  defines "st \<equiv> stringifyStoredValue (JStr s)"
  shows "(''f'', encodeSegment st) \<in> set (index_kinds digest (JStr s))"
    "(''r'', encodeSegment (rev st)) \<in> set (index_kinds digest (JStr s))"
    "st = a @ g @ b \<Longrightarrow> length g = 3 \<Longrightarrow> (''g3'', encodeSegment g) \<in> set (index_kinds digest (JStr s))"
proof -
  have *: "\<not> length (utf8_encode (encodeSegment st)) > MAX_STRING_PREFIX_BYTES"
    using assms by (simp add: MAX_STRING_PREFIX_BYTES_def)
  then show "(''f'', encodeSegment st) \<in> set (index_kinds digest (JStr s))"
    "(''r'', encodeSegment (rev st)) \<in> set (index_kinds digest (JStr s))"
    by (simp_all add: index_kinds_def value_entries_def Let_def is_string_def reverseString_def st_def)
  have "length st \<le> 512" using length_encode [of st] assms by simp
  then have "st = a @ g @ b \<Longrightarrow> length g = 3 \<Longrightarrow> g \<in> set (trigrams st)" by (rule gram_in_trigrams)
  moreover have "(\<lambda>gram. (''g3'', encodeSegment gram)) ` set (trigrams st) \<subseteq> set (index_kinds digest (JStr s))"
    using * by (simp add: index_kinds_def value_entries_def Let_def is_string_def image_subset_iff flip: st_def)
  ultimately show "st = a @ g @ b \<Longrightarrow> length g = 3 \<Longrightarrow> (''g3'', encodeSegment g) \<in> set (index_kinds digest (JStr s))"
    by blast
qed

text \<open>A planned pattern in terms of its literal part.\<close>

lemma wildcard_shapes:
  assumes "length (filter (\<lambda>c. c = CHR ''%'') p) = n"
  shows "n = 0 \<Longrightarrow> CHR ''%'' \<notin> set p"
    and "n = 1 \<Longrightarrow> ends_with ''%'' p \<Longrightarrow> \<exists>q. p = q @ ''%'' \<and> CHR ''%'' \<notin> set q"
    and "n = 1 \<Longrightarrow> starts_with ''%'' p \<Longrightarrow> \<exists>q. p = ''%'' @ q \<and> CHR ''%'' \<notin> set q"
    and "n = 2 \<Longrightarrow> starts_with ''%'' p \<Longrightarrow> ends_with ''%'' p \<Longrightarrow> 2 < length p \<Longrightarrow>
      \<exists>q. p = ''%'' @ q @ ''%'' \<and> CHR ''%'' \<notin> set q"
proof -
  have none: "length (filter (\<lambda>c. c = CHR ''%'') q) = 0 \<Longrightarrow> CHR ''%'' \<notin> set q" for q
    by (auto simp: filter_empty_conv)
  show "n = 0 \<Longrightarrow> CHR ''%'' \<notin> set p" using assms none by blast
  show "n = 1 \<Longrightarrow> ends_with ''%'' p \<Longrightarrow> \<exists>q. p = q @ ''%'' \<and> CHR ''%'' \<notin> set q"
    using assms none by (auto simp: ends_with_iff_suffix suffix_def)
  show "n = 1 \<Longrightarrow> starts_with ''%'' p \<Longrightarrow> \<exists>q. p = ''%'' @ q \<and> CHR ''%'' \<notin> set q"
    using assms none by (auto simp: starts_with_iff_prefix prefix_def)
  assume n: "n = 2" "starts_with ''%'' p" "ends_with ''%'' p" "2 < length p"
  then obtain t where t: "p = CHR ''%'' # t" by (cases p) auto
  moreover obtain q where "p = q @ ''%''" using n(3) by (auto simp: ends_with_iff_suffix suffix_def)
  ultimately obtain r where "p = ''%'' @ r @ ''%''" using n(4) by (cases q) auto
  then show "\<exists>q. p = ''%'' @ q @ ''%'' \<and> CHR ''%'' \<notin> set q" using assms n(1) none by auto
qed

lemma drop_last_append [simp]: "drop_last (Suc 0) (s @ [c]) = s"
  by (simp add: drop_last_def)

lemma replace_all_plain: "CHR ''/'' \<notin> set q \<Longrightarrow>
    replace_all CHR ''/'' r (a @ q @ b) = replace_all CHR ''/'' r a @ q @ replace_all CHR ''/'' r b"
  by (simp add: replace_all_id)

text \<open>LIKE queries the index serves have no false negatives: when a string of at most 180 encoded
  bytes matches a planned pattern without a slash, the document has a key in the planned prefix.\<close>

theorem like_index_complete:
  assumes "isTTID docId" and "entriesForDocument digest docId data = Inr keys"
    and "leaf_at data segs = Some value" and "hd segs \<noteq> []" and "JStr s \<in> indexed_values value"
    and "length (encodeSegment (stringifyStoredValue (JStr s))) \<le> 180"
    and "CHR ''/'' \<notin> set pattern" and "matchesLike True s pattern"
    and "queryPrefixes digest (JObj [(''$like'', JStr pattern)]) = Inr (Some planned)"
  shows "\<exists>entry. planned = [entry] \<and> (\<exists>key\<in>set keys. answers (join_with ''/'' segs) entry key docId)"
proof -
  let ?st = "stringifyStoredValue (JStr s)" and ?R = "replace_all CHR ''/'' ''%2F''"
  let ?n = "length (filter (\<lambda>c. c = CHR ''%'') pattern)"
  have plan: "likeQueryPrefixes digest pattern = Some planned"
    using assms(9) by (simp add: queryPrefixes_def get_prop_def)
  then have us: "CHR ''_'' \<notin> set pattern" by (auto simp: likeQueryPrefixes_def split: if_splits)
  have m: "like_spec True pattern s" using assms(8) by (rule matchesLike_sound)
  have hit: "\<exists>entry. planned = [entry] \<and> (\<exists>key\<in>set keys. answers (join_with ''/'' segs) entry key docId)"
    if "planned = [\<lparr> kind = knd, valuePrefix = v, range = None \<rparr>]"
      "(knd, w) \<in> set (index_kinds digest (JStr s))" "prefix v (w @ CHR ''/'' # docId)" for knd v w
    using that entries_complete [OF assms(1-5) that(2)]
      answersI [OF assms(1) that(3), of "join_with ''/'' segs" knd None]
    by (auto simp: includeKeyInRange_def)
  note entries = value_entries_string [OF assms(6), where digest = digest]
  consider "?n = 0" | "?n = 1" "ends_with ''%'' pattern"
    | "?n = 1" "\<not> ends_with ''%'' pattern" "starts_with ''%'' pattern"
    | "?n = 2" "starts_with ''%'' pattern" "ends_with ''%'' pattern" "2 < length pattern"
      "3 \<le> length (drop_last 1 (drop 1 pattern))"
    using plan us by (auto simp: likeQueryPrefixes_def containsQueryPrefixes_def Let_def NGRAM_SIZE_def split: if_splits)
  then show ?thesis
  proof cases
    case 1
    then have no: "CHR ''%'' \<notin> set pattern" by (rule wildcard_shapes(1) [OF refl])
    then have "s = pattern" using m us like_spec_literal [of pattern True "[]" s] by simp
    moreover have "planned = [\<lparr> kind = ''eq'', valuePrefix = lookupToken digest ?st @ ''/'', range = None \<rparr>]"
      using plan us 1 calculation by (simp add: likeQueryPrefixes_def queryLookupValue_def)
    ultimately show ?thesis by (intro hit) (auto simp: index_kinds_def)
  next
    case 2
    then obtain q where q: "pattern = q @ ''%''" "CHR ''%'' \<notin> set q" using wildcard_shapes(2) [OF refl] by blast
    then obtain w where s: "s = q @ w" using m us like_spec_literal [of q True "''%''" s] by auto
    have "?st = q @ ?R w" using s q assms(7) replace_all_plain [of q "''%2F''" "[]" w] by (simp add: stored_string)
    moreover have "planned = [\<lparr> kind = ''f'', valuePrefix = encodeSegment q, range = None \<rparr>]"
      using plan us 2 q by (simp add: likeQueryPrefixes_def)
    ultimately show ?thesis using entries(1) by (intro hit) auto
  next
    case 3
    then obtain q where q: "pattern = ''%'' @ q" "CHR ''%'' \<notin> set q" using wildcard_shapes(3) [OF refl] by blast
    then obtain k where "like_spec True q (drop k s)" using m by (auto simp only: append.simps like_spec_percent)
    then have "drop k s = q" using q us like_spec_literal [of q True "[]" "drop k s"] by simp
    then have s: "s = take k s @ q" by (metis append_take_drop_id)
    have "?st = ?R (take k s) @ q"
      using q assms(7) replace_all_plain [of q "''%2F''" "take k s" "[]"] s by (simp add: stored_string)
    then have "rev ?st = rev q @ rev (?R (take k s))" by simp
    moreover have "planned = [\<lparr> kind = ''r'', valuePrefix = encodeSegment (rev q), range = None \<rparr>]"
      using plan us 3 q by (simp add: likeQueryPrefixes_def reverseString_def)
    ultimately show ?thesis using entries(2) by (intro hit) auto
  next
    case 4
    then obtain q where q: "pattern = ''%'' @ q @ ''%''" "CHR ''%'' \<notin> set q" using wildcard_shapes(4) [OF refl] by blast
    then obtain k where "like_spec True (q @ ''%'') (drop k s)" using m by (auto simp only: append.simps like_spec_percent)
    then obtain w where "drop k s = q @ w" using q us like_spec_literal [of q True "''%''" "drop k s"] by auto
    then have s: "s = take k s @ q @ w" by (metis append_take_drop_id)
    have len: "3 \<le> length q" using 4 q by simp
    have "?st = ?R (take k s) @ q @ ?R w"
      using q assms(7) replace_all_plain [of q "''%2F''" "take k s" w] s by (simp add: stored_string)
    then have "?st = ?R (take k s) @ take 3 q @ (drop 3 q @ ?R w)" by simp
    from entries(3) [OF this] len have "(''g3'', encodeSegment (take 3 q)) \<in> set (index_kinds digest (JStr s))"
      by simp
    moreover have "planned = [\<lparr> kind = ''g3'', valuePrefix = encodeSegment (take 3 q) @ ''/'', range = None \<rparr>]"
      using plan us 4 q len trigrams_hd [OF len]
      by (simp add: likeQueryPrefixes_def containsQueryPrefixes_def NGRAM_SIZE_def ends_with_iff_suffix suffix_def)
    ultimately show ?thesis by (intro hit) auto
  qed
qed

text \<open>Whether the planned lookups of an operand find a document among its own keys.\<close>

definition index_finds :: "(bytes \<Rightarrow> bytes) \<Rightarrow> string \<Rightarrow> record_obj \<Rightarrow> string \<Rightarrow> jsval \<Rightarrow> bool option" where
  "index_finds digest docId data fieldPath operand =
     (case (entriesForDocument digest docId data, queryPrefixes digest operand) of
        (Inr keys, Inr (Some entries)) \<Rightarrow>
          Some (list_all (\<lambda>e. list_ex (\<lambda>k. answers fieldPath e k docId) keys) entries)
      | _ \<Rightarrow> None)"

theorem like_index_complete_witness:
  "index_finds (\<lambda>b. b) ''4VLN5QUCDP0'' [(''name'', JStr ''banana'')] ''name'' (JObj [(''$like'', JStr ''%nan%'')]) = Some True"
proof -
  let ?data = "[(''name'', JStr ''banana'')]" and ?o = "JObj [(''$like'', JStr ''%nan%'')]"
  have "is_ok (entriesForDocument (\<lambda>b. b) ''4VLN5QUCDP0'' ?data)" by code_simp
  then obtain keys where keys: "entriesForDocument (\<lambda>b. b) ''4VLN5QUCDP0'' ?data = Inr keys"
    by (auto simp: is_ok_iff)
  have "queryPrefixes (\<lambda>b. b) ?o = Inr (Some [\<lparr> kind = ''g3'', valuePrefix = ''nan/'', range = None \<rparr>])" by code_simp
  then obtain e where plan: "queryPrefixes (\<lambda>b. b) ?o = Inr (Some [e])" by blast
  have "isTTID ''4VLN5QUCDP0''" "matchesLike True ''banana'' ''%nan%''"
    "length (encodeSegment (stringifyStoredValue (JStr ''banana''))) \<le> 180" by code_simp+
  with like_index_complete [of "''4VLN5QUCDP0''" "\<lambda>b. b" ?data keys "[''name'']" "JStr ''banana''" "''banana''" "''%nan%''" "[e]"]
    keys plan
  show ?thesis by (auto simp: index_finds_def indexed_values_def list_ex_iff)
qed

text \<open>The index loses LIKE patterns that contain a slash: the stored text escapes slashes and the
  planned prefix does not, so a document that matches the pattern is not among the candidates.\<close>

lemma index_misses_slash_pattern:
  "matchesLike True ''a/b'' ''a/%'' \<and>
   index_finds (\<lambda>b. b) ''4VLN5QUCDP0'' [(''path'', JStr ''a/b'')] ''path'' (JObj [(''$like'', JStr ''a/%'')]) = Some False"
proof
  show "matchesLike True ''a/b'' ''a/%''" by code_simp
  show "index_finds (\<lambda>b. b) ''4VLN5QUCDP0'' [(''path'', JStr ''a/b'')] ''path'' (JObj [(''$like'', JStr ''a/%'')]) = Some False"
    by code_simp
qed

text \<open>The index loses loosely equal values: \<open>$eq\<close> compares with \<open>==\<close>, the documented semantics, under
  which the number 1 equals the string \<open>1.0\<close>, but the lookup compares the stored texts.\<close>

lemma index_misses_loose_equality:
  "loose_eq (JNum (f64_of_int 1)) (JStr ''1.0'') \<and>
   index_finds (\<lambda>b. b) ''4VLN5QUCDP0'' [(''n'', JNum (f64_of_int 1))] ''n'' (JObj [(''$eq'', JStr ''1.0'')]) = Some False"
proof
  show "loose_eq (JNum (f64_of_int 1)) (JStr ''1.0'')" by code_simp
  show "index_finds (\<lambda>b. b) ''4VLN5QUCDP0'' [(''n'', JNum (f64_of_int 1))] ''n'' (JObj [(''$eq'', JStr ''1.0'')]) = Some False"
    by code_simp
qed

end
