(* ===== verification/IndexLaws.thy ===== *)
theory IndexLaws imports PrefixIndex PrefixComplete begin

section \<open>Laws of the prefix index store\<close>

text \<open>
  What \<open>PrefixIndex\<close> promises: its text formats read back what was written, up to a torn last
  line; the overlay and the merged key set agree; the binary search finds the first key of a
  prefix; compaction and acceleration do not change what a search returns.
\<close>

subsection \<open>Lines\<close>

definition line_safe :: "string \<Rightarrow> bool" where
  "line_safe k \<longleftrightarrow> k \<noteq> [] \<and> is_ascii k \<and> newline \<notin> set k \<and> CHR 0x0D \<notin> set k"

definition lines_text :: "string list \<Rightarrow> string" where
  "lines_text ks = concat (map (\<lambda>k. k @ [newline]) ks)"

lemma lines_text_simps [simp]:
  "lines_text [] = []" "lines_text (k # ks) = k @ newline # lines_text ks"
  "lines_text (xs @ ys) = lines_text xs @ lines_text ys"
  by (simp_all add: lines_text_def)

lemma serializeSnapshot_lines: "serializeSnapshot ks = lines_text ks"
proof (cases "ks = []")
  case False
  then show ?thesis
    by (induction ks rule: list_nonempty_induct) (simp_all add: serializeSnapshot_def join_with_Cons)
qed (simp add: serializeSnapshot_def)

lemma split_lines: "\<forall>k\<in>set ks. newline \<notin> set k \<Longrightarrow> split_on newline (lines_text ks) = ks @ [[]]"
  by (induction ks) (simp_all add: split_on_append_sep split_on_no_sep)

lemma strip_safe: "CHR 0x0D \<notin> set k \<Longrightarrow> stripTrailingCarriageReturn k = k"
  by (auto simp: stripTrailingCarriageReturn_def ends_with_iff_suffix suffix_def)

lemma ends_with_newline: "ks \<noteq> [] \<Longrightarrow> ends_with [newline] (lines_text ks)"
  by (induction ks rule: list_nonempty_induct) (auto simp: ends_with_iff_suffix suffix_def)

lemma lines_text_Nil [simp]: "lines_text ks = [] \<longleftrightarrow> ks = []"
  by (cases ks) auto

lemma completeLines_torn:
  assumes "\<forall>k\<in>set ks. k \<noteq> [] \<and> newline \<notin> set k \<and> CHR 0x0D \<notin> set k" and "newline \<notin> set torn"
  shows "completeLines (lines_text ks @ torn) = ks"
proof -
  have f: "filter (\<lambda>l. l \<noteq> []) (map stripTrailingCarriageReturn (split_on newline (lines_text ks))) = ks"
  proof -
    have "map stripTrailingCarriageReturn ks = ks" using assms(1) strip_safe by (intro map_idI) auto
    moreover have "filter (\<lambda>l. l \<noteq> []) ks = ks" using assms(1) by (intro filter_True) auto
    ultimately show ?thesis using assms(1) by (simp add: split_lines strip_safe)
  qed
  show ?thesis
  proof (cases "torn = []")
    case True
    with f ends_with_newline [of ks] show ?thesis by (cases "ks = []") (auto simp: completeLines_def)
  next
    case False
    have e: "\<not> ends_with [newline] (lines_text ks @ torn)"
    proof
      assume "ends_with [newline] (lines_text ks @ torn)"
      then have "last (lines_text ks @ torn) = newline" by (auto simp: ends_with_iff_suffix suffix_def)
      with False assms(2) show False by (metis last_appendR last_in_set)
    qed
    have "(case last_index_of newline (lines_text ks @ torn) of Some i \<Rightarrow> Suc i | None \<Rightarrow> 0) = length (lines_text ks)"
    proof (cases ks rule: rev_cases)
      case Nil
      then have "index_of newline (rev torn) = None" using assms(2) by (simp add: index_of_None)
      with Nil show ?thesis by (simp add: last_index_of_def)
    next
      case (snoc us u)
      have "lines_text ks @ torn = (lines_text us @ u) @ newline # torn" using snoc by simp
      then show ?thesis using last_index_of_append [OF assms(2), of "lines_text us @ u"] snoc by simp
    qed
    with e f False show ?thesis by (auto simp: completeLines_def Let_def)
  qed
qed

lemma serializeWal_lines:
  "serializeWal ms = lines_text (map (\<lambda>(op, key). wal_sign op # CHR 0x09 # key) ms)"
  by (induction ms) (auto simp: serializeWal_def)

lemma parse_wal_torn:
  assumes "\<forall>(op, key)\<in>set ms. line_safe key" and "newline \<notin> set torn"
  shows "parse_wal (serializeWal ms @ torn) = ms"
proof -
  let ?ls = "map (\<lambda>(op, key). wal_sign op # CHR 0x09 # key) ms"
  have sign: "wal_sign op \<noteq> newline" "wal_sign op \<noteq> CHR 0x0D" for op by (cases op; simp add: wal_sign_def)+
  have "\<forall>k\<in>set ?ls. k \<noteq> [] \<and> newline \<notin> set k \<and> CHR 0x0D \<notin> set k"
    using assms(1) sign by (fastforce simp: line_safe_def)
  then have "completeLines (serializeWal ms @ torn) = ?ls"
    using completeLines_torn assms(2) by (simp only: serializeWal_lines)
  moreover have "concat (map (\<lambda>line. case parseWalMutation line of Some m \<Rightarrow> [m] | None \<Rightarrow> []) ?ls) = ms"
    using assms(1)
  proof (induction ms)
    case (Cons m ms)
    obtain op key where "m = (op, key)" by fastforce
    with Cons show ?case by (cases op) (auto simp: parseWalMutation_def wal_sign_def line_safe_def)
  qed simp
  ultimately show ?thesis by (simp only: parse_wal_def)
qed

text \<open>The write-ahead log survives a crash: whatever incomplete line follows the mutations that were
  appended, reading the log returns exactly those mutations in order.\<close>

theorem wal_torn_tail:
  assumes "\<forall>(op, key)\<in>set mutations. line_safe key" and "newline \<notin> set torn"
  shows "parse_wal (serializeWal mutations @ torn) = mutations"
  using assms by (rule parse_wal_torn)

theorem wal_torn_tail_witness:
  "parse_wal (serializeWal [(Put, ''a/eq/1/X''), (Del, ''a/eq/2/X'')] @ ''+'') = [(Put, ''a/eq/1/X''), (Del, ''a/eq/2/X'')]"
proof -
  have "line_safe ''a/eq/1/X''" "line_safe ''a/eq/2/X''" by (simp_all add: line_safe_def)
  then show ?thesis using wal_torn_tail [of "[(Put, ''a/eq/1/X''), (Del, ''a/eq/2/X'')]" "''+''"] by simp
qed

subsection \<open>Overlays and key sets\<close>

lemma overlay_agrees:
  "set (foldl apply_mutation ks ms) =
     (set ks - set (removed (foldl overlay_mutation empty_overlay ms))) \<union>
     set (added (foldl overlay_mutation empty_overlay ms))"
proof (induction ms rule: rev_induct)
  case (snoc m ms)
  obtain op k where m: "m = (op, k)" by fastforce
  with snoc show ?case
    by (cases op) (auto simp: apply_mutation_def overlay_mutation_def push_new_props)
qed (simp add: empty_overlay_def)

lemma apply_mutation_distinct: "distinct ks \<Longrightarrow> distinct (foldl apply_mutation ks ms)"
  by (induction ms arbitrary: ks)
    (auto simp: apply_mutation_def push_new_props distinct_removeAll split: prod.splits wal_op.splits)

subsection \<open>The binary search\<close>

lemma line_start_in:
  assumes "A = [] \<or> last A = newline" and "newline \<notin> set k" and "m \<le> length k"
  shows "line_start (A @ k @ newline # B) (length A + m) = length A"
  using assms(3)
proof (induction m)
  case 0
  show ?case
  proof (cases A rule: rev_cases)
    case (snoc A' a)
    with assms(1) show ?thesis by (simp add: nth_append)
  qed simp
next
  case (Suc m)
  then have "(A @ k @ newline # B) ! (length A + m) = k ! m" "k ! m \<in> set k" by (simp_all add: nth_append)
  then have "(A @ k @ newline # B) ! (length A + m) \<noteq> newline" using assms(2) by metis
  with Suc show ?case by simp
qed

lemma line_end_in:
  assumes "newline \<notin> set k" and "m \<le> length k"
  shows "line_end (A @ k @ newline # B) (length A + m) = length A + length k"
  using assms(2)
proof (induction "length k - m" arbitrary: m)
  case 0
  then have "m = length k" by simp
  then show ?case by (subst line_end.simps) (simp add: nth_append)
next
  case (Suc n)
  then have m: "m < length k" by simp
  then have "(A @ k @ newline # B) ! (length A + m) = k ! m" "k ! m \<in> set k" by (simp_all add: nth_append)
  then have "(A @ k @ newline # B) ! (length A + m) \<noteq> newline" using assms(1) by metis
  moreover have "line_end (A @ k @ newline # B) (length A + Suc m) = length A + length k"
    using Suc by (intro Suc(1)) auto
  ultimately show ?case using m by (subst line_end.simps) simp
qed

lemma lines_text_last: "lines_text xs = [] \<or> last (lines_text xs) = newline"
  by (induction xs rule: rev_induct) auto

text \<open>The offset of a line.\<close>

definition line_offset :: "string list \<Rightarrow> nat \<Rightarrow> nat" where
  "line_offset ks i = length (lines_text (take i ks))"

lemma line_offset_Suc: "i < length ks \<Longrightarrow> line_offset ks (Suc i) = line_offset ks i + length (ks ! i) + 1"
  by (simp add: line_offset_def take_Suc_conv_app_nth)

lemma line_offset_ends [simp]: "line_offset ks 0 = 0" "line_offset ks (length ks) = length (lines_text ks)"
  by (simp_all add: line_offset_def)

lemma line_offset_mono: "i < j \<Longrightarrow> j \<le> length ks \<Longrightarrow> line_offset ks i < line_offset ks j"
proof (induction j)
  case (Suc j)
  then show ?case using line_offset_Suc [of j ks] by (cases "i = j") auto
qed simp

lemma line_offset_le: "i \<le> j \<Longrightarrow> line_offset ks i \<le> line_offset ks j"
proof -
  assume "i \<le> j"
  then have "take j ks = take i ks @ drop i (take j ks)"
    by (metis append_take_drop_id min.absorb1 take_take)
  then have "lines_text (take j ks) = lines_text (take i ks) @ lines_text (drop i (take j ks))"
    by (metis lines_text_simps(3))
  then show ?thesis by (simp add: line_offset_def)
qed

lemma line_of_position:
  "line_offset ks a \<le> m \<Longrightarrow> m < line_offset ks b \<Longrightarrow> b \<le> length ks \<Longrightarrow>
   \<exists>i. a \<le> i \<and> i < b \<and> line_offset ks i \<le> m \<and> m \<le> line_offset ks i + length (ks ! i)"
proof (induction b)
  case (Suc b)
  show ?case
  proof (cases "m < line_offset ks b")
    case True
    with Suc obtain i where "a \<le> i" "i < b" "line_offset ks i \<le> m" "m \<le> line_offset ks i + length (ks ! i)"
      by auto
    then show ?thesis by (intro exI [of _ i]) auto
  next
    case False
    have "a \<le> b"
      using Suc.prems(1,2) line_offset_le [of "Suc b" a ks] by (auto intro: leI)
    with False Suc.prems line_offset_Suc [of b ks] show ?thesis by (intro exI [of _ b]) auto
  qed
qed simp

lemma line_at:
  assumes "\<forall>k\<in>set ks. newline \<notin> set k" and "i < length ks" and "line_offset ks i \<le> m"
    and "m \<le> line_offset ks i + length (ks ! i)"
  shows "line_start (lines_text ks) m = line_offset ks i"
    and "line_end (lines_text ks) m = line_offset ks i + length (ks ! i)"
    and "slice (line_offset ks i) (line_offset ks i + length (ks ! i)) (lines_text ks) = ks ! i"
proof -
  let ?A = "lines_text (take i ks)" and ?k = "ks ! i" and ?B = "lines_text (drop (Suc i) ks)"
  have "ks = take i ks @ ?k # drop (Suc i) ks" using assms(2) by (simp add: id_take_nth_drop)
  then have bs: "lines_text ks = ?A @ ?k @ newline # ?B" by (metis lines_text_simps(2,3))
  have k: "newline \<notin> set ?k" using assms(1,2) by simp
  have A: "?A = [] \<or> last ?A = newline" by (rule lines_text_last)
  have m: "m = length ?A + (m - length ?A)" "m - length ?A \<le> length ?k"
    using assms(3,4) by (auto simp: line_offset_def)
  show "line_start (lines_text ks) m = line_offset ks i"
    unfolding bs using line_start_in [OF A k m(2), of ?B] m(1) by (simp only: line_offset_def) 
  show "line_end (lines_text ks) m = line_offset ks i + length (ks ! i)"
    unfolding bs using line_end_in [OF k m(2), of ?A ?B] m(1) by (simp only: line_offset_def)
  show "slice (line_offset ks i) (line_offset ks i + length (ks ! i)) (lines_text ks) = ks ! i"
    unfolding bs by (simp add: slice_def line_offset_def)
qed

lemma search_loop_finds:
  fixes ks :: "string list" and pre :: string
  assumes "\<forall>k\<in>set ks. newline \<notin> set k \<and> is_ascii k" and "sorted ks"
  defines "c \<equiv> length (takeWhile (\<lambda>k. k < pre) ks)"
  shows "a \<le> c \<Longrightarrow> c \<le> b \<Longrightarrow> b \<le> length ks \<Longrightarrow>
    search_loop (lines_text ks) pre (line_offset ks a) (line_offset ks b) = line_offset ks c"
proof (induction "b - a" arbitrary: a b rule: less_induct)
  case less
  show ?case
  proof (cases "a = b")
    case True
    with less.prems show ?thesis by (subst search_loop.simps) simp
  next
    case False
    let ?lo = "line_offset ks a" and ?hi = "line_offset ks b"
    let ?m = "(?lo + ?hi) div 2"
    have lt: "?lo < ?hi" using False less.prems by (intro line_offset_mono) auto
    then have "?lo \<le> ?m" "?m < ?hi" by auto
    with line_of_position [of ks a ?m b] less.prems obtain i where
      i: "a \<le> i" "i < b" "line_offset ks i \<le> ?m" "?m \<le> line_offset ks i + length (ks ! i)" by auto
    then have len: "i < length ks" using less.prems by simp
    have no: "\<forall>k\<in>set ks. newline \<notin> set k" using assms(1) by blast
    note at = line_at [OF no len i(3,4)]
    have key: "utf8_decode (ks ! i) = ks ! i" using assms(1) len by (simp add: utf8_decode_ascii)
    have step: "search_loop (lines_text ks) pre ?lo ?hi =
        (if ks ! i < pre then search_loop (lines_text ks) pre (line_offset ks (Suc i)) ?hi
         else search_loop (lines_text ks) pre ?lo (line_offset ks i))"
      using lt at key line_offset_Suc [OF len] by (subst search_loop.simps) (simp add: Let_def)
    show ?thesis
    proof (cases "ks ! i < pre")
      case True
      have "i < c"
      proof (rule ccontr)
        assume "\<not> i < c"
        moreover from this len have "\<not> ks ! c < pre" "c < length ks"
          unfolding c_def using nth_length_takeWhile [of "\<lambda>k. k < pre" ks] by auto
        ultimately show False
          using True assms(2) sorted_nth_mono [of ks c i] len by (metis leI le_less_trans)
      qed
      then show ?thesis using True step less.prems i by (simp add: less.hyps)
    next
      case False
      have "c \<le> i"
      proof (rule ccontr)
        assume "\<not> c \<le> i"
        then have "ks ! i \<in> set (takeWhile (\<lambda>k. k < pre) ks)"
          unfolding c_def by (metis not_le nth_mem takeWhile_nth)
        with False show False by (auto dest: set_takeWhileD)
      qed
      then show ?thesis using False step less.prems i by (simp add: less.hyps)
    qed
  qed
qed

lemma stream_lines:
  assumes "\<forall>k\<in>set ks. line_safe k"
  shows "i \<le> length ks \<Longrightarrow> streamKeysFrom (lines_text ks) (line_offset ks i) = drop i ks"
proof (induction "length ks - i" arbitrary: i)
  case 0
  then have "i = length ks" by simp
  moreover have "streamKeysFrom (lines_text ks) (length (lines_text ks)) = []"
    by (subst streamKeysFrom.simps) simp
  ultimately show ?case by simp
next
  case (Suc n)
  then have len: "i < length ks" by simp
  have no: "\<forall>k\<in>set ks. newline \<notin> set k" using assms by (simp add: line_safe_def)
  have safe: "line_safe (ks ! i)" using assms len by simp
  note at = line_at [OF no len order_refl, simplified]
  have "line_offset ks i < length (lines_text ks)" using line_offset_mono [of i "length ks" ks] len by simp
  moreover have "streamKeysFrom (lines_text ks) (line_offset ks (Suc i)) = drop (Suc i) ks"
    using Suc by (intro Suc(1)) auto
  ultimately show ?case
    using at safe len line_offset_Suc [OF len]
    by (subst streamKeysFrom.simps) (simp add: Let_def line_safe_def utf8_decode_ascii Cons_nth_drop_Suc)
qed

lemma find_first_key:
  assumes "\<forall>k\<in>set ks. line_safe k" and "sorted ks"
  shows "findFirstKeyAtOrAfter (lines_text ks) pre =
    line_offset ks (length (takeWhile (\<lambda>k. k < pre) ks))"
proof (cases "ks = []")
  case False
  let ?c = "length (takeWhile (\<lambda>k. k < pre) ks)"
  have c: "?c \<le> length ks" by (rule length_takeWhile_le)
  have ok: "\<forall>k\<in>set ks. newline \<notin> set k \<and> is_ascii k" using assms(1) by (simp add: line_safe_def)
  have s: "search_loop (lines_text ks) pre 0 (length (lines_text ks)) = line_offset ks ?c"
    using search_loop_finds [OF ok assms(2), of 0 pre "length ks"] c by simp
  have "line_start (lines_text ks) (line_offset ks ?c) = line_offset ks ?c" if "?c < length ks"
    using line_at(1) [of ks ?c "line_offset ks ?c"] that ok by simp
  moreover have "?c < length ks" if "line_offset ks ?c < length (lines_text ks)"
    using that c by (metis le_neq_implies_less less_irrefl line_offset_ends(2))
  ultimately show ?thesis using False s by (simp add: findFirstKeyAtOrAfter_def Let_def)
qed (simp add: findFirstKeyAtOrAfter_def)

lemma drop_takeWhile_less:
  fixes ks :: "string list"
  assumes "sorted ks"
  shows "drop (length (takeWhile (\<lambda>k. k < pre) ks)) ks = filter (\<lambda>k. pre \<le> k) ks"
  using assms
proof (induction ks)
  case (Cons k ks)
  show ?case
  proof (cases "k < pre")
    case False
    with Cons.prems have "filter (\<lambda>k. pre \<le> k) ks = ks"
      by (intro filter_True) (auto simp: not_less intro: order_trans)
    with False show ?thesis by simp
  qed (use Cons in auto)
qed simp

text \<open>The binary search over the snapshot bytes is exact: from the offset it returns, streaming the
  snapshot yields precisely the keys at or after the prefix, in order.\<close>

theorem binary_search_exact:
  assumes "\<forall>k\<in>set ks. line_safe k" and "sorted ks"
  shows "streamKeysFrom (serializeSnapshot ks) (findFirstKeyAtOrAfter (serializeSnapshot ks) pre) =
    filter (\<lambda>k. pre \<le> k) ks"
  using stream_lines [OF assms(1) length_takeWhile_le] find_first_key [OF assms] drop_takeWhile_less [OF assms(2)]
  by (simp add: serializeSnapshot_lines)

theorem binary_search_exact_witness:
  "streamKeysFrom (serializeSnapshot [''a/1'', ''b/2'', ''b/3'', ''c/0''])
     (findFirstKeyAtOrAfter (serializeSnapshot [''a/1'', ''b/2'', ''b/3'', ''c/0'']) ''b/'') = [''b/2'', ''b/3'', ''c/0'']"
proof -
  let ?ks = "[''a/1'', ''b/2'', ''b/3'', ''c/0'']"
  have "\<forall>k\<in>set ?ks. line_safe k" by (simp add: line_safe_def)
  moreover have "sorted ?ks" by (simp add: less_char_def less_eq_char_def)
  moreover have "filter (\<lambda>k. ''b/'' \<le> k) ?ks = [''b/2'', ''b/3'', ''c/0'']"
    by (simp add: less_char_def less_eq_char_def)
  ultimately show ?thesis using binary_search_exact [of ?ks "''b/''"] by simp
qed

subsection \<open>Searching a prefix\<close>

lemma prefix_le: "prefix p k \<Longrightarrow> p \<le> (k :: string)"
proof (induction p arbitrary: k)
  case (Cons a p)
  then show ?case by (cases k) auto
qed simp

lemma past_prefix: "p \<le> k \<Longrightarrow> \<not> prefix p k \<Longrightarrow> k \<le> k' \<Longrightarrow> \<not> prefix p (k' :: string)"
proof (induction p arbitrary: k k')
  case (Cons a p)
  obtain b x where k: "k = b # x" using Cons.prems(1) by (cases k) auto
  obtain c y where k': "k' = c # y" using Cons.prems(3) k by (cases k') auto
  show ?case
    using Cons.prems Cons.IH [of x y] unfolding k k' by (auto dest: order.strict_trans)
qed simp

lemma takeWhile_prefix:
  assumes "sorted ks"
  shows "takeWhile (starts_with p) (filter (\<lambda>k. p \<le> k) ks) = filter (starts_with p) ks"
  using assms
proof (induction ks)
  case (Cons k ks)
  show ?case
  proof (cases "p \<le> k")
    case False
    with Cons prefix_le show ?thesis by (auto simp: starts_with_iff_prefix)
  next
    case True
    show ?thesis
    proof (cases "starts_with p k")
      case False
      have "filter (starts_with p) ks = []"
        using Cons.prems past_prefix [OF True] False by (auto simp: filter_empty_conv starts_with_iff_prefix)
      with True False show ?thesis by simp
    qed (use True Cons in auto)
  qed
qed simp

definition key_doc :: "string \<Rightarrow> string" where
  "key_doc key = last (split_on CHR ''/'' key)"

definition good_key :: "string \<Rightarrow> bool" where
  "good_key k \<longleftrightarrow> line_safe k \<and> isTTID (key_doc k)"

definition key_matches :: "string \<Rightarrow> query_prefix \<Rightarrow> string \<Rightarrow> bool" where
  "key_matches fieldPath entry key =
     (starts_with (index_prefix fieldPath (kind entry) (valuePrefix entry)) key \<and>
      includeKeyInRange key (range entry))"

lemma docIdFromKey_good:
  assumes "isTTID (key_doc k)" and "starts_with (index_prefix p knd v) k"
  shows "docIdFromKey (index_prefix p knd []) k = Inr (key_doc k)"
proof -
  let ?a = "encodeFieldPath p @ CHR ''/'' # knd"
  have ip: "index_prefix p knd [] = ?a @ ''/''" by (simp add: index_prefix_def)
  obtain rest where k: "k = ?a @ CHR ''/'' # rest"
    using assms(2) by (auto simp: index_prefix_def starts_with_iff_prefix prefix_def)
  have last: "last (split_on CHR ''/'' k) = last (split_on CHR ''/'' rest)"
    unfolding k by (subst split_on_append_sep) simp
  have "drop (length (index_prefix p knd [])) k = rest" by (simp add: ip k)
  moreover have "decodeSegment (key_doc k) = Inr (key_doc k)"
    using decode_encodeSegment [of "key_doc k"] encode_TTID [OF assms(1)] by simp
  ultimately show ?thesis using assms(1) last by (simp add: docIdFromKey_def key_doc_def)
qed

lemma doc_ids_of_ok:
  "\<forall>k\<in>set ks. isTTID (key_doc k) \<and> starts_with (index_prefix p knd v) k \<Longrightarrow>
   doc_ids_of (index_prefix p knd []) ks = Inr (map key_doc ks)"
  by (induction ks) (auto simp: docIdFromKey_good)

definition javascript_scan :: "bytes \<Rightarrow> string \<Rightarrow> query_prefix \<Rightarrow> string list result" where
  "javascript_scan bs fieldPath entry =
     scanSnapshotWithJavaScript bs (index_prefix fieldPath (kind entry) (valuePrefix entry))
       (index_prefix fieldPath (kind entry) []) (range entry)"

lemma javascript_scan_list:
  assumes "\<forall>k\<in>set ks. good_key k" and "sorted ks"
  shows "javascript_scan (serializeSnapshot ks) fieldPath entry =
    Inr (foldl push_new [] (map key_doc (filter (key_matches fieldPath entry) ks)))"
proof -
  let ?full = "index_prefix fieldPath (kind entry) (valuePrefix entry)"
  let ?hits = "filter (\<lambda>key. includeKeyInRange key (range entry)) (filter (starts_with ?full) ks)"
  have safe: "\<forall>k\<in>set ks. line_safe k" using assms(1) by (simp add: good_key_def)
  have "takeWhile (starts_with ?full) (streamKeysFrom (serializeSnapshot ks) (findFirstKeyAtOrAfter (serializeSnapshot ks) ?full))
      = filter (starts_with ?full) ks"
    using stream_lines [OF safe length_takeWhile_le] find_first_key [OF safe assms(2)] takeWhile_prefix [OF assms(2)]
    by (simp add: serializeSnapshot_lines drop_takeWhile_less [OF assms(2)])
  moreover have "doc_ids_of (index_prefix fieldPath (kind entry) []) ?hits = Inr (map key_doc ?hits)"
    using assms(1) by (intro doc_ids_of_ok [where v = "valuePrefix entry"]) (auto simp: good_key_def)
  ultimately show ?thesis
    by (simp add: javascript_scan_def scanSnapshotWithJavaScript_def key_matches_def [abs_def])
qed

lemma javascript_scan_exact:
  assumes "\<forall>k\<in>set ks. good_key k" and "sorted ks"
  shows "\<exists>ids. javascript_scan (serializeSnapshot ks) fieldPath entry = Inr ids \<and>
    set ids = key_doc ` {k \<in> set ks. key_matches fieldPath entry k}"
  using javascript_scan_list [OF assms] by (auto simp: push_new_fold)

text \<open>One planned prefix against the snapshot and the overlay, without a scanner.\<close>

definition search_entry :: "bytes \<Rightarrow> overlay \<Rightarrow> string \<Rightarrow> query_prefix \<Rightarrow> string list result" where
  "search_entry bs ov fieldPath entry =
     bind_result (javascript_scan bs fieldPath entry) (\<lambda>next.
     (let rp = index_prefix fieldPath (kind entry) [];
          fp = index_prefix fieldPath (kind entry) (valuePrefix entry)
      in bind_result (overlay_ids fp rp (range entry) (\<lambda>ids d. removeAll d ids) (removed ov) next)
           (overlay_ids fp rp (range entry) push_new (added ov))))"

lemma overlay_ids_set:
  assumes "\<forall>k\<in>set keys. isTTID (key_doc k)"
  shows "\<exists>ids. overlay_ids (index_prefix p (kind e) (valuePrefix e)) (index_prefix p (kind e) []) (range e)
      (\<lambda>ids d. removeAll d ids) keys next = Inr ids \<and>
      set ids = set next - key_doc ` {k \<in> set keys. key_matches p e k}" (is ?A)
    and "\<exists>ids. overlay_ids (index_prefix p (kind e) (valuePrefix e)) (index_prefix p (kind e) []) (range e)
      push_new keys next = Inr ids \<and>
      set ids = set next \<union> key_doc ` {k \<in> set keys. key_matches p e k}" (is ?B)
proof -
  show ?A using assms
  proof (induction keys arbitrary: "next")
    case (Cons k keys)
    show ?case
    proof (cases "key_matches p e k")
      case True
      then have "docIdFromKey (index_prefix p (kind e) []) k = Inr (key_doc k)"
        using Cons.prems docIdFromKey_good [of k p "kind e" "valuePrefix e"] by (simp add: key_matches_def)
      with True Cons.IH [of "removeAll (key_doc k) next"] Cons.prems
      show ?thesis by (auto simp: key_matches_def)
    next
      case False
      with Cons.IH [of "next"] Cons.prems show ?thesis by (auto simp: key_matches_def)
    qed
  qed simp
  show ?B using assms
  proof (induction keys arbitrary: "next")
    case (Cons k keys)
    show ?case
    proof (cases "key_matches p e k")
      case True
      then have "docIdFromKey (index_prefix p (kind e) []) k = Inr (key_doc k)"
        using Cons.prems docIdFromKey_good [of k p "kind e" "valuePrefix e"] by (simp add: key_matches_def)
      with True Cons.IH [of "push_new next (key_doc k)"] Cons.prems
      show ?thesis by (auto simp: key_matches_def push_new_props)
    next
      case False
      with Cons.IH [of "next"] Cons.prems show ?thesis by (auto simp: key_matches_def)
    qed
  qed simp
qed

text \<open>The index mutates whole documents: a document with a removed key has each of its snapshot
  keys removed or added again.\<close>

definition whole_documents :: "string list \<Rightarrow> overlay \<Rightarrow> bool" where
  "whole_documents ks ov \<longleftrightarrow>
     (\<forall>k\<in>set (removed ov). \<forall>k'\<in>set ks. key_doc k = key_doc k' \<longrightarrow> k' \<in> set (removed ov) \<union> set (added ov))"

definition merged_keys :: "string list \<Rightarrow> overlay \<Rightarrow> string set" where
  "merged_keys ks ov = (set ks - set (removed ov)) \<union> set (added ov)"

lemma overlay_merge:
  assumes "\<forall>k\<in>set ks \<union> set (removed ov) \<union> set (added ov). good_key k" and "whole_documents ks ov"
    and n0: "set next0 = key_doc ` {k \<in> set ks. key_matches fieldPath entry k}"
  shows "\<exists>ids. bind_result (overlay_ids (index_prefix fieldPath (kind entry) (valuePrefix entry))
        (index_prefix fieldPath (kind entry) []) (range entry) (\<lambda>ids d. removeAll d ids) (removed ov) next0)
      (overlay_ids (index_prefix fieldPath (kind entry) (valuePrefix entry))
        (index_prefix fieldPath (kind entry) []) (range entry) push_new (added ov)) = Inr ids \<and>
    set ids = key_doc ` {k \<in> merged_keys ks ov. key_matches fieldPath entry k}"
proof -
  let ?M = "key_matches fieldPath entry"
  have good: "\<forall>k\<in>set (removed ov). isTTID (key_doc k)" "\<forall>k\<in>set (added ov). isTTID (key_doc k)"
    using assms(1) by (auto simp: good_key_def)
  obtain next1 where n1: "overlay_ids (index_prefix fieldPath (kind entry) (valuePrefix entry)) (index_prefix fieldPath (kind entry) [])
      (range entry) (\<lambda>ids d. removeAll d ids) (removed ov) next0 = Inr next1"
    "set next1 = set next0 - key_doc ` {k \<in> set (removed ov). ?M k}"
    using overlay_ids_set(1) [OF good(1)] by blast
  obtain next2 where n2: "overlay_ids (index_prefix fieldPath (kind entry) (valuePrefix entry)) (index_prefix fieldPath (kind entry) [])
      (range entry) push_new (added ov) next1 = Inr next2"
    "set next2 = set next1 \<union> key_doc ` {k \<in> set (added ov). ?M k}"
    using overlay_ids_set(2) [OF good(2)] by blast
  have "set next2 = key_doc ` {k \<in> merged_keys ks ov. ?M k}"
  proof
    show "set next2 \<subseteq> key_doc ` {k \<in> merged_keys ks ov. ?M k}"
      unfolding n2(2) n1(2) n0 merged_keys_def by auto
    show "key_doc ` {k \<in> merged_keys ks ov. ?M k} \<subseteq> set next2"
    proof
      fix d assume "d \<in> key_doc ` {k \<in> merged_keys ks ov. ?M k}"
      then obtain k where k: "d = key_doc k" "k \<in> merged_keys ks ov" "?M k" by blast
      show "d \<in> set next2"
      proof (cases "k \<in> set (added ov)")
        case False
        with k have "k \<in> set ks" "k \<notin> set (removed ov)" by (auto simp: merged_keys_def)
        with k False assms(2) show ?thesis
          unfolding n2(2) n1(2) n0 whole_documents_def by blast
      qed (use k n2(2) in blast)
    qed
  qed
  with n1(1) n2(1) show ?thesis by simp
qed

lemma search_entry_set:
  assumes "\<forall>k\<in>set ks \<union> set (removed ov) \<union> set (added ov). good_key k" and "sorted ks"
    and "whole_documents ks ov"
  shows "\<exists>ids. search_entry (serializeSnapshot ks) ov fieldPath entry = Inr ids \<and>
    set ids = key_doc ` {k \<in> merged_keys ks ov. key_matches fieldPath entry k}"
proof -
  obtain next0 where n0: "javascript_scan (serializeSnapshot ks) fieldPath entry = Inr next0"
    "set next0 = key_doc ` {k \<in> set ks. key_matches fieldPath entry k}"
    using javascript_scan_exact [of ks fieldPath entry] assms(1,2) by blast
  with overlay_merge [OF assms(1,3) n0(2)] show ?thesis
    by (auto simp: search_entry_def Let_def)
qed

text \<open>Searching one planned prefix is exact: over a sorted snapshot and the overlay of the log, the
  documents found are those with a key of the merged key set in the prefix and range.\<close>

lemma search_entry_exact:
  assumes "\<forall>k\<in>set ks \<union> set (removed ov) \<union> set (added ov). good_key k" and "sorted ks"
    and "whole_documents ks ov"
  shows "\<exists>ids. search_entry (serializeSnapshot ks) ov fieldPath entry = Inr ids \<and>
    set ids = key_doc ` {k \<in> merged_keys ks ov. key_matches fieldPath entry k}"
  using assms by (rule search_entry_set)

lemma search_entry_exact_witness:
  "\<exists>ids. search_entry (serializeSnapshot [''a/eq/1/4VLN5QUCDP0'', ''a/eq/1/4VLN5QUCDP1''])
      \<lparr> added = [''a/eq/1/4VLN5QUCDP2''], removed = [''a/eq/1/4VLN5QUCDP0''] \<rparr> ''a''
      \<lparr> kind = ''eq'', valuePrefix = ''1/'', range = None \<rparr> = Inr ids \<and>
    ''4VLN5QUCDP2'' \<in> set ids"
proof -
  let ?ks = "[''a/eq/1/4VLN5QUCDP0'', ''a/eq/1/4VLN5QUCDP1'']"
  let ?ov = "\<lparr> added = [''a/eq/1/4VLN5QUCDP2''], removed = [''a/eq/1/4VLN5QUCDP0''] \<rparr>"
  let ?e = "\<lparr> kind = ''eq'', valuePrefix = ''1/'', range = None :: range_bound option \<rparr>"
  have t: "isTTID ''4VLN5QUCDP0''" "isTTID ''4VLN5QUCDP1''" "isTTID ''4VLN5QUCDP2''" by code_simp+
  have d: "key_doc ''a/eq/1/4VLN5QUCDP0'' = ''4VLN5QUCDP0''" "key_doc ''a/eq/1/4VLN5QUCDP1'' = ''4VLN5QUCDP1''"
    "key_doc ''a/eq/1/4VLN5QUCDP2'' = ''4VLN5QUCDP2''" by (simp_all add: key_doc_def)
  have "\<forall>k\<in>set ?ks \<union> set (removed ?ov) \<union> set (added ?ov). good_key k"
    using t by (simp add: good_key_def d line_safe_def)
  moreover have "sorted ?ks" by (simp add: less_char_def less_eq_char_def)
  moreover have "whole_documents ?ks ?ov" by (simp add: whole_documents_def d)
  ultimately obtain ids where "search_entry (serializeSnapshot ?ks) ?ov ''a'' ?e = Inr ids"
    "set ids = key_doc ` {k \<in> merged_keys ?ks ?ov. key_matches ''a'' ?e k}"
    using search_entry_exact [of ?ks ?ov "''a''" ?e] by blast
  moreover have "''a/eq/1/4VLN5QUCDP2'' \<in> merged_keys ?ks ?ov" by (simp add: merged_keys_def)
  moreover have "key_matches ''a'' ?e ''a/eq/1/4VLN5QUCDP2''" by code_simp
  ultimately show ?thesis using d(3) by force
qed

end
