(* ===== verification/MemoryFs.thy ===== *)
theory MemoryFs imports Filesystem "HOL-Library.AList" begin

section \<open>The in-memory filesystem (src/src/browser/core/memory-filesystem.js)\<close>

text \<open>
  The three containers of \<open>MemoryFilesystem\<close>, maps and sets as lists in insertion order, and its
  methods.  A method reads \<open>Date.now()\<close> at one instant, its argument \<open>now\<close>.  The theory ends
  with the proof that the methods honour the filesystem contract.
\<close>

subsection \<open>State and errors\<close>

record memory_fs =
  files :: "(string \<times> bytes) list"
  mtimes :: "(string \<times> int) list"
  dirs :: "string list"

definition MemoryFilesystemError :: "string \<Rightarrow> string \<Rightarrow> js_error" where
  "MemoryFilesystemError code message = JsError ''MemoryFilesystemError'' message (Some code)"

definition notFound :: "string \<Rightarrow> js_error" where
  "notFound path = MemoryFilesystemError ''ENOENT'' (''No such file or directory: '' @ path)"

definition notDirectory :: "string \<Rightarrow> js_error" where
  "notDirectory path = MemoryFilesystemError ''ENOTDIR'' (''Not a directory: '' @ path)"

definition new_memory_fs :: "int \<Rightarrow> memory_fs" where
  "new_memory_fs now = \<lparr> files = [], mtimes = [(''/'', now)], dirs = [''/''] \<rparr>"

definition mem_key :: "string \<Rightarrow> string" where
  "mem_key path =
     (let normalised = normalize path
      in if \<not> starts_with ''/'' normalised
         then CHR ''/'' # (if normalised = ''.'' then [] else normalised) else normalised)"

definition has_file :: "memory_fs \<Rightarrow> string \<Rightarrow> bool" where
  "has_file fs key = (map_of (files fs) key \<noteq> None)"

definition has_dir :: "memory_fs \<Rightarrow> string \<Rightarrow> bool" where
  "has_dir fs key = (key \<in> set (dirs fs))"

definition set_file :: "int \<Rightarrow> string \<Rightarrow> bytes \<Rightarrow> memory_fs \<Rightarrow> memory_fs" where
  "set_file now key data fs =
     fs\<lparr> files := AList.update key data (files fs), mtimes := AList.update key now (mtimes fs) \<rparr>"

definition delete_file :: "string \<Rightarrow> memory_fs \<Rightarrow> memory_fs" where
  "delete_file key fs = fs\<lparr> files := AList.delete key (files fs), mtimes := AList.delete key (mtimes fs) \<rparr>"

definition add_dir :: "int \<Rightarrow> string \<Rightarrow> memory_fs \<Rightarrow> memory_fs" where
  "add_dir now key fs = fs\<lparr> dirs := push_new (dirs fs) key, mtimes := AList.update key now (mtimes fs) \<rparr>"

definition delete_dir :: "string \<Rightarrow> memory_fs \<Rightarrow> memory_fs" where
  "delete_dir key fs = fs\<lparr> dirs := removeAll key (dirs fs), mtimes := AList.delete key (mtimes fs) \<rparr>"

subsection \<open>Reading\<close>

definition mem_exists :: "string \<Rightarrow> (memory_fs, bool) op" where
  "mem_exists path = gets (\<lambda>fs. has_file fs (mem_key path) \<or> has_dir fs (mem_key path))"

definition mem_isDirectory :: "string \<Rightarrow> (memory_fs, bool) op" where
  "mem_isDirectory path = gets (\<lambda>fs. has_dir fs (mem_key path))"

definition mem_mtimeMs :: "string \<Rightarrow> (memory_fs, int) op" where
  "mem_mtimeMs path fs =
     (let key = mem_key path
      in if \<not> has_file fs key \<and> \<not> has_dir fs key then (Inl (notFound path), fs)
         else (Inr (case map_of (mtimes fs) key of Some t \<Rightarrow> t | None \<Rightarrow> 0), fs))"

definition mem_readBytes :: "string \<Rightarrow> (memory_fs, bytes) op" where
  "mem_readBytes path fs =
     (case map_of (files fs) (mem_key path) of None \<Rightarrow> (Inl (notFound path), fs) | Some b \<Rightarrow> (Inr b, fs))"

definition mem_readText :: "string \<Rightarrow> (memory_fs, string) op" where
  "mem_readText path = bind_op (mem_readBytes path) (\<lambda>b. ret (utf8_decode b))"

definition mem_size :: "string \<Rightarrow> (memory_fs, nat) op" where
  "mem_size path fs =
     (case map_of (files fs) (mem_key path) of None \<Rightarrow> (Inl (notFound path), fs)
      | Some b \<Rightarrow> (Inr (length b), fs))"

text \<open>The name of the entry below \<open>prefix\<close> that a key belongs to.\<close>

definition child_name :: "string \<Rightarrow> string \<Rightarrow> string" where
  "child_name pre key =
     (let remainder = drop (length pre) key
      in case index_of CHR ''/'' remainder of None \<Rightarrow> remainder | Some slash \<Rightarrow> take slash remainder)"

definition dir_prefix :: "string \<Rightarrow> string" where
  "dir_prefix key = (if key = ''/'' then ''/'' else key @ ''/'')"

definition mem_list :: "string \<Rightarrow> (memory_fs, string list) op" where
  "mem_list path fs =
     (let key = mem_key path; pre = dir_prefix key in
      if \<not> has_dir fs key then (Inl (notFound path), fs)
      else let fromFiles = map (child_name pre) (filter (starts_with pre) (map fst (files fs)));
               fromDirs = map (child_name pre) (filter (\<lambda>d. d \<noteq> key \<and> starts_with pre d) (dirs fs))
           in (Inr (sort (remdups (fromFiles @ fromDirs))), fs))"

subsection \<open>Writing\<close>

text \<open>The loop that \<open>mkdir\<close> and \<open>ensureParents\<close> share: create every prefix of a path.\<close>

fun make_dirs :: "int \<Rightarrow> string list \<Rightarrow> string \<Rightarrow> (memory_fs, unit) op" where
  "make_dirs now [] cursor fs = (Inr (), fs)"
| "make_dirs now (segment # segments) cursor fs =
     (let cursor' = cursor @ CHR ''/'' # segment
      in if has_file fs cursor' then (Inl (notDirectory cursor'), fs)
         else make_dirs now segments cursor' (add_dir now cursor' fs))"

definition non_empty_segments :: "string \<Rightarrow> string list" where
  "non_empty_segments key = filter (\<lambda>s. s \<noteq> []) (split_on CHR ''/'' key)"

definition mem_mkdir :: "int \<Rightarrow> string \<Rightarrow> bool \<Rightarrow> (memory_fs, unit) op" where
  "mem_mkdir now path recursive fs =
     (let key = mem_key path in
      if has_file fs key then (Inl (notDirectory path), fs)
      else if has_dir fs key then (Inr (), fs)
      else if recursive then make_dirs now (non_empty_segments key) [] fs
      else let parent = dirname key
           in if \<not> has_dir fs parent then (Inl (notFound parent), fs)
              else (Inr (), add_dir now key fs))"

definition covered :: "string \<Rightarrow> string \<Rightarrow> bool" where
  "covered key entry = (entry = key \<or> starts_with (dir_prefix key) entry)"

definition removeSubtree :: "int \<Rightarrow> string \<Rightarrow> memory_fs \<Rightarrow> memory_fs" where
  "removeSubtree now key fs =
     (let fs1 = foldl (\<lambda>g file. if covered key file then delete_file file g else g) fs (map fst (files fs));
          fs2 = foldl (\<lambda>g dir. if covered key dir then delete_dir dir g else g) fs1 (dirs fs1)
      in add_dir now ''/'' fs2)"

definition mem_rmdir :: "int \<Rightarrow> string \<Rightarrow> bool \<Rightarrow> (memory_fs, unit) op" where
  "mem_rmdir now path recursive fs =
     (let key = mem_key path in
      if \<not> has_dir fs key then
        (if has_file fs key then (Inl (notDirectory path), fs) else (Inr (), fs))
      else if recursive then (Inr (), removeSubtree now key fs)
      else bind_op (mem_list path)
        (\<lambda>children. if children \<noteq> []
            then throw (MemoryFilesystemError ''ENOTEMPTY'' (''Directory not empty: '' @ path))
            else when_op (key \<noteq> ''/'') (modify (delete_dir key))) fs)"

definition ensureParents :: "int \<Rightarrow> string \<Rightarrow> (memory_fs, unit) op" where
  "ensureParents now key fs =
     (let parent = dirname key in
      if has_file fs parent then (Inl (notDirectory parent), fs)
      else if has_dir fs parent then (Inr (), fs)
      else make_dirs now (non_empty_segments parent) [] fs)"

definition mem_writeBytes :: "int \<Rightarrow> string \<Rightarrow> bytes \<Rightarrow> (memory_fs, unit) op" where
  "mem_writeBytes now path data fs =
     (let key = mem_key path in
      if has_dir fs key then (Inl (notDirectory path), fs)
      else seq_op (ensureParents now key) (modify (set_file now key data)) fs)"

definition mem_writeText :: "int \<Rightarrow> string \<Rightarrow> string \<Rightarrow> (memory_fs, unit) op" where
  "mem_writeText now path data = mem_writeBytes now path (utf8_encode data)"

definition mem_appendText :: "int \<Rightarrow> string \<Rightarrow> string \<Rightarrow> (memory_fs, unit) op" where
  "mem_appendText now path data fs =
     (let key = mem_key path in
      if has_dir fs key then (Inl (notDirectory path), fs)
      else seq_op (ensureParents now key)
        (\<lambda>g. let existing = (case map_of (files g) key of Some b \<Rightarrow> b | None \<Rightarrow> [])
             in (Inr (), set_file now key (existing @ utf8_encode data) g)) fs)"

definition mem_remove :: "string \<Rightarrow> (memory_fs, unit) op" where
  "mem_remove path fs =
     (let key = mem_key path in
      if has_file fs key then (Inr (), delete_file key fs)
      else if has_dir fs key then (Inl (MemoryFilesystemError ''EISDIR'' (''Is a directory: '' @ path)), fs)
      else (Inr (), fs))"

definition mem_move :: "int \<Rightarrow> string \<Rightarrow> string \<Rightarrow> (memory_fs, unit) op" where
  "mem_move now source target fs =
     (let sourceKey = mem_key source; targetKey = mem_key target in
      case map_of (files fs) sourceKey of None \<Rightarrow> (Inl (notFound source), fs)
      | Some data \<Rightarrow>
          if has_dir fs targetKey then (Inl (notDirectory target), fs)
          else seq_op (ensureParents now targetKey)
            (modify (\<lambda>g. delete_file sourceKey (set_file now targetKey data g))) fs)"

definition peekBytes :: "memory_fs \<Rightarrow> string \<Rightarrow> bytes option" where
  "peekBytes fs path = map_of (files fs) (mem_key path)"

fun seed_loop :: "int \<Rightarrow> (string \<times> string) list \<Rightarrow> (memory_fs, unit) op" where
  "seed_loop now [] fs = (Inr (), fs)"
| "seed_loop now ((path, data) # seed) fs =
     seq_op (ensureParents now (mem_key path))
       (seq_op (modify (set_file now (mem_key path) (utf8_encode data))) (seed_loop now seed)) fs"

definition createMemoryFilesystem :: "int \<Rightarrow> (string \<times> string) list \<Rightarrow> unit result \<times> memory_fs" where
  "createMemoryFilesystem now seed = seed_loop now seed (new_memory_fs now)"

definition memory_ops :: "memory_fs fs_ops" where
  "memory_ops = \<lparr> fs_exists = mem_exists, fs_isDirectory = mem_isDirectory, fs_mtimeMs = mem_mtimeMs,
     fs_size = mem_size, fs_mkdir = mem_mkdir, fs_list = mem_list, fs_rmdir = mem_rmdir,
     fs_readText = mem_readText, fs_readBytes = mem_readBytes, fs_writeText = mem_writeText,
     fs_writeBytes = mem_writeBytes, fs_appendText = mem_appendText, fs_remove = mem_remove,
     fs_move = mem_move \<rparr>"

subsection \<open>Paths below a directory\<close>

lemma mem_key_abs [simp]: "p \<in> abs_paths \<Longrightarrow> mem_key p = p"
  by (simp add: abs_paths_iff mem_key_def Let_def)

lemma mem_key_abs_path: "plain_segments ss \<Longrightarrow> mem_key (abs_path ss) = abs_path ss"
  by simp

lemma dir_prefix_append:
  assumes "plain_segments ss"
  shows "abs_path (ss @ s # us) = dir_prefix (abs_path ss) @ join_with ''/'' (s # us)"
proof (cases "ss = []")
  case True
  then show ?thesis by (simp add: abs_path_def dir_prefix_def)
next
  case False
  then have "abs_path ss \<noteq> ''/''"
    using assms by (metis abs_path_inject abs_path_def join_with.simps(1) plain_segments_simps(1))
  with False show ?thesis
    by (simp add: abs_path_def dir_prefix_def join_with_append)
qed

lemma split_abs_path: "plain_segments ss \<Longrightarrow> ss \<noteq> [] \<Longrightarrow> split_on CHR ''/'' (abs_path ss) = [] # ss"
  by (auto simp: abs_path_def split_on_join plain_segments_def plain_segment_def)

lemma starts_with_dir_prefix:
  assumes "plain_segments ss" and "plain_segments ts" and "ts \<noteq> ss"
  shows "starts_with (dir_prefix (abs_path ss)) (abs_path ts) \<longleftrightarrow> (\<exists>s us. ts = ss @ s # us)"
proof
  assume "\<exists>s us. ts = ss @ s # us"
  then show "starts_with (dir_prefix (abs_path ss)) (abs_path ts)"
    using assms(1) by (auto simp: dir_prefix_append starts_with_def)
next
  assume pre: "starts_with (dir_prefix (abs_path ss)) (abs_path ts)"
  show "\<exists>s us. ts = ss @ s # us"
  proof (cases "ss = []")
    case True
    with assms(3) show ?thesis by (cases ts) auto
  next
    case False
    then have "abs_path ss \<noteq> ''/''"
      using assms(1) by (metis abs_path_inject abs_path_def join_with.simps(1) plain_segments_simps(1))
    with pre obtain rest where r: "abs_path ts = abs_path ss @ CHR ''/'' # rest"
      by (auto simp: dir_prefix_def starts_with_iff_prefix prefix_def)
    have "ts \<noteq> []" using r False assms(1) by (cases ss) (auto simp: abs_path_def join_with_eq_Nil)
    then have "[] # ts = [] # ss @ split_on CHR ''/'' rest"
      using r False assms by (metis split_abs_path split_on_append_sep append_Cons)
    then show ?thesis by (cases "split_on CHR ''/'' rest") auto
  qed
qed

lemma child_name_abs_path:
  assumes "plain_segments ss" and "plain_segment s"
  shows "child_name (dir_prefix (abs_path ss)) (abs_path (ss @ s # us)) = s"
proof -
  have "CHR ''/'' \<notin> set s" using assms(2) by (simp add: plain_segmentD)
  then have "index_of CHR ''/'' s = None" by (simp add: index_of_None)
  with \<open>CHR ''/'' \<notin> set s\<close> assms(1) show ?thesis
    by (cases us) (simp_all add: child_name_def dir_prefix_append index_of_append)
qed

lemma covered_iff_below:
  assumes "plain_segments ss" and "q \<in> abs_paths"
  shows "covered (abs_path ss) q \<longleftrightarrow> q \<in> below (abs_path ss)"
proof -
  obtain ts where ts: "q = abs_path ts" "plain_segments ts" using assms(2) by (auto simp: abs_paths_def)
  have "covered (abs_path ss) q \<longleftrightarrow> ts = ss \<or> (\<exists>s us. ts = ss @ s # us)"
    using assms ts starts_with_dir_prefix [OF assms(1) ts(2)] by (auto simp: covered_def)
  also have "\<dots> \<longleftrightarrow> prefix ss ts"
    unfolding prefix_def by (metis append_Nil2 list.exhaust)
  also have "\<dots> \<longleftrightarrow> q \<in> below (abs_path ss)"
    using assms ts by (simp add: below_def abs_path_below)
  finally show ?thesis .
qed

subsection \<open>The methods on the abstract tree\<close>

definition mem_file :: "memory_fs \<Rightarrow> string \<Rightarrow> bytes option" where
  "mem_file fs = map_of (files fs)"

definition mem_dirs :: "memory_fs \<Rightarrow> string set" where
  "mem_dirs fs = set (dirs fs)"

definition mem_inv :: "memory_fs \<Rightarrow> bool" where
  "mem_inv fs \<longleftrightarrow> ''/'' \<in> mem_dirs fs \<and>
     (\<forall>p. mem_file fs p \<noteq> None \<or> p \<in> mem_dirs fs \<longrightarrow> p \<in> abs_paths \<and> ancestors p \<subseteq> mem_dirs fs) \<and>
     (\<forall>p\<in>mem_dirs fs. mem_file fs p = None)"

lemma has_file_iff: "has_file fs p \<longleftrightarrow> mem_file fs p \<noteq> None"
  by (simp add: has_file_def mem_file_def)

lemma has_dir_iff: "has_dir fs p \<longleftrightarrow> p \<in> mem_dirs fs"
  by (simp add: has_dir_def mem_dirs_def)

lemma mem_file_updates [simp]:
  "mem_file (set_file now p b fs) = (mem_file fs)(p \<mapsto> b)"
  "mem_file (delete_file p fs) = (mem_file fs)(p := None)"
  "mem_file (add_dir now p fs) = mem_file fs"
  "mem_file (delete_dir p fs) = mem_file fs"
  by (simp_all add: mem_file_def set_file_def delete_file_def add_dir_def delete_dir_def
      update_conv' delete_conv' fun_eq_iff)

lemma mem_dirs_updates [simp]:
  "mem_dirs (set_file now p b fs) = mem_dirs fs"
  "mem_dirs (delete_file p fs) = mem_dirs fs"
  "mem_dirs (add_dir now p fs) = insert p (mem_dirs fs)"
  "mem_dirs (delete_dir p fs) = mem_dirs fs - {p}"
  by (auto simp: mem_dirs_def set_file_def delete_file_def add_dir_def delete_dir_def push_new_props)

lemma mem_invD:
  assumes "mem_inv fs"
  shows "''/'' \<in> mem_dirs fs"
    and "mem_file fs p \<noteq> None \<or> p \<in> mem_dirs fs \<Longrightarrow> p \<in> abs_paths \<and> ancestors p \<subseteq> mem_dirs fs"
    and "p \<in> mem_dirs fs \<Longrightarrow> mem_file fs p = None"
  using assms unfolding mem_inv_def by blast+

lemma mem_inv_new: "mem_inv (new_memory_fs now)"
proof -
  have "''/'' = abs_path []" by (simp add: abs_path_def)
  moreover have "ancestors (abs_path []) = {}" by (simp add: ancestors_abs_path)
  moreover have "abs_path [] \<in> abs_paths" by simp
  ultimately show ?thesis
    by (simp add: mem_inv_def new_memory_fs_def mem_file_def mem_dirs_def)
qed

lemma make_dirs_effect:
  assumes "plain_segments (us @ ss)" and "cursor = (if us = [] then [] else abs_path us)"
    and "\<forall>k<length ss. mem_file fs (abs_path (us @ take (Suc k) ss)) = None"
  shows "\<exists>g. make_dirs now ss cursor fs = (Inr (), g) \<and> mem_file g = mem_file fs \<and>
    mem_dirs g = mem_dirs fs \<union> (\<lambda>k. abs_path (us @ take (Suc k) ss)) ` {..<length ss}"
  using assms
proof (induction ss arbitrary: us cursor fs)
  case (Cons s ss)
  have c: "cursor @ CHR ''/'' # s = abs_path (us @ [s])"
    using Cons.prems(2) by (simp add: abs_path_snoc)
  have "mem_file fs (abs_path (us @ [s])) = None" using Cons.prems(3) by (auto dest: spec [of _ 0])
  then have run: "make_dirs now (s # ss) cursor fs = make_dirs now ss (abs_path (us @ [s])) (add_dir now (abs_path (us @ [s])) fs)"
    by (simp add: c Let_def has_file_iff)
  have "\<exists>g. make_dirs now ss (abs_path (us @ [s])) (add_dir now (abs_path (us @ [s])) fs) = (Inr (), g) \<and>
      mem_file g = mem_file (add_dir now (abs_path (us @ [s])) fs) \<and>
      mem_dirs g = mem_dirs (add_dir now (abs_path (us @ [s])) fs) \<union>
        (\<lambda>k. abs_path ((us @ [s]) @ take (Suc k) ss)) ` {..<length ss}"
    using Cons.prems by (intro Cons.IH) auto
  moreover have "(\<lambda>k. abs_path (us @ take (Suc k) (s # ss))) ` {..<length (s # ss)} =
      insert (abs_path (us @ [s])) ((\<lambda>k. abs_path ((us @ [s]) @ take (Suc k) ss)) ` {..<length ss})"
    by (simp add: lessThan_Suc_eq_insert_0 image_image)
  ultimately show ?case unfolding run by auto
qed simp

lemma ancestors_image:
  "plain_segments ss \<Longrightarrow> ancestors (abs_path ss) = (\<lambda>n. abs_path (take n ss)) ` {..<length ss}"
  by (auto simp: ancestors_abs_path)

lemma self_and_ancestors_image:
  assumes "plain_segments ss"
  shows "self_and_ancestors (abs_path ss) = insert ''/'' ((\<lambda>k. abs_path (take (Suc k) ss)) ` {..<length ss})"
proof -
  have "self_and_ancestors (abs_path ss) = (\<lambda>n. abs_path (take n ss)) ` {..<Suc (length ss)}"
    using assms by (simp add: self_and_ancestors_def ancestors_image lessThan_Suc)
  also have "\<dots> = insert (abs_path []) ((\<lambda>k. abs_path (take (Suc k) ss)) ` {..<length ss})"
    by (simp only: lessThan_Suc_eq_insert_0 image_insert take_0 image_image)
  finally show ?thesis by (simp add: abs_path_def)
qed

lemma non_empty_segments_abs_path: "plain_segments ss \<Longrightarrow> non_empty_segments (abs_path ss) = ss"
proof (cases "ss = []")
  case False
  assume p: "plain_segments ss"
  then have "filter (\<lambda>s. s \<noteq> []) ss = ss"
    by (intro filter_True) (auto simp: plain_segments_def dest: plain_segmentD)
  with p False show ?thesis by (simp add: non_empty_segments_def split_abs_path)
qed (simp add: non_empty_segments_def abs_path_def)

text \<open>\<open>mkdir\<close> and \<open>ensureParents\<close> create a directory with all its ancestors.\<close>

lemma make_all_dirs:
  assumes "mem_inv fs" and "plain_segments ss" and "\<forall>q\<in>self_and_ancestors (abs_path ss). mem_file fs q = None"
  shows "\<exists>g. make_dirs now (non_empty_segments (abs_path ss)) [] fs = (Inr (), g) \<and>
    mem_file g = mem_file fs \<and> mem_dirs g = mem_dirs fs \<union> self_and_ancestors (abs_path ss)"
proof -
  have "\<forall>k<length ss. mem_file fs (abs_path ([] @ take (Suc k) ss)) = None"
    using assms self_and_ancestors_image [of ss] by auto
  from make_dirs_effect [of "[]" ss "[]" fs now, OF _ _ this] assms(2)
  obtain g where g: "make_dirs now ss [] fs = (Inr (), g)" "mem_file g = mem_file fs"
    "mem_dirs g = mem_dirs fs \<union> (\<lambda>k. abs_path (take (Suc k) ss)) ` {..<length ss}"
    by auto
  moreover have "mem_dirs fs \<union> (\<lambda>k. abs_path (take (Suc k) ss)) ` {..<length ss} =
      mem_dirs fs \<union> self_and_ancestors (abs_path ss)"
    using assms mem_invD(1) [OF assms(1)] by (auto simp: self_and_ancestors_image)
  ultimately show ?thesis using assms(2) by (simp add: non_empty_segments_abs_path)
qed

lemma mem_inv_add:
  assumes "mem_inv fs" and "p \<in> abs_paths" and "\<forall>q\<in>self_and_ancestors p. mem_file fs q = None"
    and "mem_file g = mem_file fs" and "mem_dirs g = mem_dirs fs \<union> self_and_ancestors p"
  shows "mem_inv g"
proof -
  obtain ss where ss: "p = abs_path ss" "plain_segments ss" using assms(2) by (auto simp: abs_paths_def)
  have up: "q \<in> abs_paths \<and> ancestors q \<subseteq> self_and_ancestors p" if q: "q \<in> self_and_ancestors p" for q
  proof -
    obtain n where n: "q = abs_path (take n ss)"
      using q ss by (auto simp: self_and_ancestors_def ancestors_abs_path intro: that [of "length ss"])
    have "ancestors (abs_path (take n ss)) \<subseteq> self_and_ancestors (abs_path ss)"
      using ss(2) plain_segments_take [OF ss(2), of n]
      by (auto simp: self_and_ancestors_def ancestors_abs_path)
    with n ss plain_segments_take [OF ss(2), of n] show ?thesis by simp
  qed
  show ?thesis
    unfolding mem_inv_def assms(4,5)
    using mem_invD [OF assms(1)] up assms(3) by blast
qed

lemma ensureParents_effect:
  assumes "mem_inv fs" and "p \<in> abs_paths" and "p \<noteq> ''/''" and "\<forall>q\<in>ancestors p. mem_file fs q = None"
  shows "\<exists>g. ensureParents now p fs = (Inr (), g) \<and> mem_inv g \<and> mem_file g = mem_file fs \<and>
    mem_dirs g = mem_dirs fs \<union> ancestors p"
proof -
  obtain ts where ts: "p = abs_path ts" "plain_segments ts" using assms(2) by (auto simp: abs_paths_def)
  then have "ts \<noteq> []" using assms(3) by (auto simp: abs_path_def)
  with ts obtain ss s where p: "p = abs_path (ss @ [s])" "plain_segments (ss @ [s])"
    by (metis rev_exhaust)
  have anc: "ancestors p = self_and_ancestors (abs_path ss)"
    using p ancestors_snoc by (simp only: self_and_ancestors_def)
  have dn: "dirname p = abs_path ss" using p by (simp only: dirname_abs_path)
  have nofile: "mem_file fs (abs_path ss) = None" using assms(4) anc by (simp add: self_and_ancestors_def)
  show ?thesis
  proof (cases "abs_path ss \<in> mem_dirs fs")
    case True
    then have "mem_dirs fs \<union> ancestors p = mem_dirs fs"
      using mem_invD(2) [OF assms(1), of "abs_path ss"] anc by (auto simp: self_and_ancestors_def)
    with True nofile dn assms(1) show ?thesis by (simp add: ensureParents_def Let_def has_file_iff has_dir_iff)
  next
    case False
    obtain g where g: "make_dirs now (non_empty_segments (abs_path ss)) [] fs = (Inr (), g)"
      "mem_file g = mem_file fs" "mem_dirs g = mem_dirs fs \<union> self_and_ancestors (abs_path ss)"
      using make_all_dirs [OF assms(1), of ss now] p assms(4) anc by auto
    have "mem_inv g" using p assms(1,4) anc g by (intro mem_inv_add [of fs "abs_path ss" g]) auto
    with g False nofile dn anc show ?thesis
      by (simp add: ensureParents_def Let_def has_file_iff has_dir_iff)
  qed
qed

lemma mem_write_file:
  assumes "mem_inv fs" and "p \<in> abs_paths" and "p \<notin> mem_dirs fs" and "\<forall>q\<in>ancestors p. mem_file fs q = None"
  obtains g where "ensureParents now p fs = (Inr (), g)" and "mem_inv (set_file now p b g)"
    and "mem_file g = mem_file fs" and "mem_dirs g = mem_dirs fs \<union> ancestors p"
proof -
  have "p \<noteq> ''/''" using assms(1,3) mem_invD(1) by metis
  with assms obtain g where g: "ensureParents now p fs = (Inr (), g)" "mem_inv g"
    "mem_file g = mem_file fs" "mem_dirs g = mem_dirs fs \<union> ancestors p"
    using ensureParents_effect by blast
  obtain ss where ss: "p = abs_path ss" "plain_segments ss" using assms(2) by (auto simp: abs_paths_def)
  then have "p \<notin> ancestors p" using not_own_ancestor by simp
  then have "mem_inv (set_file now p b g)"
    using mem_invD [OF g(2)] assms(2,3) g(3,4) by (auto simp: mem_inv_def)
  with that g show thesis by blast
qed

lemma map_of_foldl_delete:
  "mem_file (foldl (\<lambda>g x. if P x then delete_file x g else g) fs xs) q =
     (if P q \<and> q \<in> set xs then None else mem_file fs q)"
  "mem_dirs (foldl (\<lambda>g x. if P x then delete_file x g else g) fs xs) = mem_dirs fs"
  by (induction xs arbitrary: fs) auto

lemma foldl_delete_dirs:
  "mem_dirs (foldl (\<lambda>g x. if P x then delete_dir x g else g) fs xs) =
     mem_dirs fs - {x. P x \<and> x \<in> set xs}"
  "mem_file (foldl (\<lambda>g x. if P x then delete_dir x g else g) fs xs) = mem_file fs"
  by (induction xs arbitrary: fs) auto

lemma removeSubtree_effect:
  "mem_file (removeSubtree now key fs) q = (if covered key q then None else mem_file fs q)"
  "mem_dirs (removeSubtree now key fs) = insert ''/'' (mem_dirs fs - Collect (covered key))"
proof -
  let ?fs1 = "foldl (\<lambda>g x. if covered key x then delete_file x g else g) fs (map fst (files fs))"
  have "q \<notin> set (map fst (files fs)) \<Longrightarrow> mem_file fs q = None"
    by (simp add: mem_file_def map_of_eq_None_iff)
  then show "mem_file (removeSubtree now key fs) q = (if covered key q then None else mem_file fs q)"
    by (auto simp: removeSubtree_def Let_def foldl_delete_dirs map_of_foldl_delete simp del: set_map)
  have "set (dirs ?fs1) = mem_dirs fs" using map_of_foldl_delete(2) unfolding mem_dirs_def by metis
  then show "mem_dirs (removeSubtree now key fs) = insert ''/'' (mem_dirs fs - Collect (covered key))"
    by (auto simp: removeSubtree_def Let_def foldl_delete_dirs map_of_foldl_delete)
qed

lemma removeSubtree_inv:
  assumes "mem_inv fs" and "p \<in> abs_paths" and "p \<noteq> ''/''"
  shows "mem_inv (removeSubtree now p fs) \<and>
    mem_file (removeSubtree now p fs) = (\<lambda>q. if q \<in> below p then None else mem_file fs q) \<and>
    mem_dirs (removeSubtree now p fs) = mem_dirs fs - below p"
proof -
  obtain ss where ss: "p = abs_path ss" "plain_segments ss" using assms(2) by (auto simp: abs_paths_def)
  have cov: "q \<in> abs_paths \<Longrightarrow> covered p q \<longleftrightarrow> q \<in> below p" for q
    using ss covered_iff_below by simp
  have root: "''/'' \<notin> below p"
  proof -
    have "''/'' = abs_path []" by (simp add: abs_path_def)
    then show ?thesis
      using ss assms(3) abs_path_below [OF ss(2), of "[]"] by (auto simp: below_def)
  qed
  have f: "mem_file (removeSubtree now p fs) = (\<lambda>q. if q \<in> below p then None else mem_file fs q)"
  proof
    fix q show "mem_file (removeSubtree now p fs) q = (if q \<in> below p then None else mem_file fs q)"
      using cov [of q] mem_invD(2) [OF assms(1), of q]
      by (cases "mem_file fs q = None") (auto simp: removeSubtree_effect)
  qed
  have d: "mem_dirs (removeSubtree now p fs) = mem_dirs fs - below p"
    using cov root mem_invD [OF assms(1)] by (auto simp: removeSubtree_effect)
  have down: "r \<in> below p" if r: "r \<in> abs_paths" "q \<in> ancestors r" "q \<in> below p" for q r
  proof -
    obtain ts n where "r = abs_path ts" "plain_segments ts" "q = abs_path (take n ts)"
      using r by (auto simp: abs_paths_def ancestors_abs_path)
    then show ?thesis
      using r ss plain_segments_take abs_path_below
      by (auto simp: below_def) (meson prefix_order.trans take_is_prefix)
  qed
  show ?thesis
    unfolding mem_inv_def f d using mem_invD [OF assms(1)] root down by (auto split: if_splits)
qed

lemma mem_list_names:
  assumes "mem_inv fs" and "plain_segments ss" and "abs_path ss \<in> mem_dirs fs"
  shows "mem_list (abs_path ss) fs =
    (Inr (sorted_list_of_set {s. plain_segment s \<and>
       (mem_file fs (abs_path (ss @ [s])) \<noteq> None \<or> abs_path (ss @ [s]) \<in> mem_dirs fs)}), fs)"
proof -
  let ?key = "abs_path ss" and ?pre = "dir_prefix (abs_path ss)"
  let ?names = "map (child_name ?pre) (filter (starts_with ?pre) (map fst (files fs))) @
    map (child_name ?pre) (filter (\<lambda>d. d \<noteq> ?key \<and> starts_with ?pre d) (dirs fs))"
  have entry: "q \<in> set (map fst (files fs)) \<longleftrightarrow> mem_file fs q \<noteq> None" for q
    by (simp add: mem_file_def map_of_eq_None_iff)
  have not_key: "mem_file fs ?key = None" using assms mem_invD(3) by blast
  have sub: "\<exists>s us. q = abs_path (ss @ s # us) \<and> plain_segments (ss @ s # us)"
    if q: "mem_file fs q \<noteq> None \<or> q \<in> mem_dirs fs" "q \<noteq> ?key" "starts_with ?pre q" for q
  proof -
    obtain ts where ts: "q = abs_path ts" "plain_segments ts"
      using mem_invD(2) [OF assms(1) q(1)] by (auto simp: abs_paths_def)
    then obtain s us where "ts = ss @ s # us"
      using q starts_with_dir_prefix [OF assms(2), of ts] by auto
    with ts show ?thesis by blast
  qed
  have child: "s = child_name ?pre (abs_path (ss @ s # us))" if "plain_segment s" for s us
    using that assms(2) child_name_abs_path by simp
  have "set ?names = {s. plain_segment s \<and>
      (mem_file fs (abs_path (ss @ [s])) \<noteq> None \<or> abs_path (ss @ [s]) \<in> mem_dirs fs)}" (is "_ = ?S")
  proof
    show "set ?names \<subseteq> ?S"
    proof
      fix x assume "x \<in> set ?names"
      then obtain q where q': "x = child_name ?pre q" "starts_with ?pre q"
        "q \<in> set (map fst (files fs)) \<or> q \<noteq> ?key \<and> q \<in> set (dirs fs)"
        by auto
      then have q: "x = child_name ?pre q" "starts_with ?pre q" "q \<noteq> ?key"
        "mem_file fs q \<noteq> None \<or> q \<in> mem_dirs fs"
        using entry [of q] not_key unfolding mem_dirs_def by (blast, blast, metis, blast)
      then obtain s us where s: "q = abs_path (ss @ s # us)" "plain_segments (ss @ s # us)" using sub by blast
      then have x: "x = s" using q(1) child by simp
      show "x \<in> ?S"
      proof (cases "us = []")
        case False
        then have "abs_path (ss @ [s]) \<in> ancestors q"
          using s abs_path_below [of "ss @ [s]" "ss @ s # us"]
          by (auto simp: self_and_ancestors_def prefix_def)
        with q(4) x s mem_invD(2) [OF assms(1), of q] show ?thesis by auto
      qed (use q(4) x s in auto)
    qed
    show "?S \<subseteq> set ?names"
    proof
      fix s assume s: "s \<in> ?S"
      then have c: "s = child_name ?pre (abs_path (ss @ [s]))" "starts_with ?pre (abs_path (ss @ [s]))"
        using child [of s "[]"] assms(2) starts_with_dir_prefix [of ss "ss @ [s]"] by auto
      have "abs_path (ss @ [s]) \<noteq> ?key"
        using s assms(2) abs_path_inject [of "ss @ [s]" ss] by auto
      then have "abs_path (ss @ [s]) \<in> set (filter (starts_with ?pre) (map fst (files fs))) \<or>
          abs_path (ss @ [s]) \<in> set (filter (\<lambda>d. d \<noteq> ?key \<and> starts_with ?pre d) (dirs fs))"
        using s c(2) entry [of "abs_path (ss @ [s])"] unfolding mem_dirs_def by auto
      with c(1) show "s \<in> set ?names" by (auto intro: image_eqI [of s])
    qed
  qed
  note this [symmetric]
  then have "sort (remdups ?names) = sorted_list_of_set {s. plain_segment s \<and>
      (mem_file fs (abs_path (ss @ [s])) \<noteq> None \<or> abs_path (ss @ [s]) \<in> mem_dirs fs)}"
    by (simp only: sorted_list_of_set_sort_remdups)
  with assms show ?thesis by (simp add: mem_list_def Let_def has_dir_iff)
qed

lemma mem_remove_run:
  assumes "mem_inv f" and "p \<in> abs_paths" and "p \<notin> mem_dirs f"
  shows "\<exists>g. mem_remove p f = (Inr (), g) \<and> mem_inv g \<and> mem_file g = (mem_file f)(p := None) \<and> mem_dirs g = mem_dirs f"
proof -
  have "mem_inv (delete_file p f)" using mem_invD [OF assms(1)] by (auto simp: mem_inv_def)
  moreover have "(mem_file f)(p := None) = mem_file f" if "mem_file f p = None" using that by auto
  ultimately show ?thesis
    using assms by (auto simp: mem_remove_def Let_def has_dir_iff has_file_iff)
qed

interpretation mem: fylo_filesystem memory_ops mem_inv mem_file mem_dirs
proof (unfold_locales, goal_cases)
  case (1 f p) then show ?case by (simp add: memory_ops_def mem_exists_def has_file_iff has_dir_iff)
next
  case (2 f p) then show ?case by (simp add: memory_ops_def mem_isDirectory_def has_dir_iff)
next
  case (3 f p) then show ?case by (auto simp: memory_ops_def mem_mtimeMs_def has_file_iff has_dir_iff Let_def)
next
  case (4 f p b) then show ?case by (simp add: memory_ops_def mem_readBytes_def mem_file_def)
next
  case (5 f p b)
  then show ?case by (simp add: memory_ops_def mem_readText_def mem_readBytes_def mem_file_def bind_op_def)
next
  case (6 f ss)
  then show ?case using mem_list_names by (simp add: memory_ops_def)
next
  case (7 f p) then show ?case by (simp add: memory_ops_def mem_list_def has_dir_iff)
next
  case (8 f p) then show ?case using mem_invD(2) by simp
next
  case (9 f p) then show ?case using mem_invD(3) by simp
next
  case (10 f) then show ?case using mem_invD(1) by simp
next
  case (11 f) show ?case
    using finite_dom_map_of [of "files f"] by (simp add: mem_file_def mem_dirs_def dom_def)
next
  case (12 f p now t g)
  then show ?case
    by (auto simp: memory_ops_def mem_mtimeMs_def mem_writeText_def mem_writeBytes_def Let_def
        set_file_def has_file_def update_conv' split: if_splits elim!: seq_op_InrE)
next
  case (13 f p now t)
  then obtain g where "ensureParents now p f = (Inr (), g)" "mem_inv (set_file now p (utf8_encode t) g)"
    "mem_file g = mem_file f" "mem_dirs g = mem_dirs f \<union> ancestors p"
    by (rule mem_write_file)
  with 13 show ?case
    by (simp add: memory_ops_def mem_writeText_def mem_writeBytes_def Let_def has_dir_iff seq_op_Inr)
next
  case (14 f p now t)
  let ?b = "(case mem_file f p of Some b \<Rightarrow> b | None \<Rightarrow> []) @ utf8_encode t"
  from 14 obtain g where "ensureParents now p f = (Inr (), g)" "mem_inv (set_file now p ?b g)"
    "mem_file g = mem_file f" "mem_dirs g = mem_dirs f \<union> ancestors p"
    by (rule mem_write_file)
  with 14 show ?case
    by (simp add: memory_ops_def mem_appendText_def Let_def has_dir_iff seq_op_Inr flip: mem_file_def)
next
  case (15 f p)
  then show ?case using mem_remove_run mem_invD(3) [OF 15(1)] by (metis fs_ops.select_convs(13) memory_ops_def)
next
  case (16 f p now)
  obtain ss where ss: "p = abs_path ss" "plain_segments ss" using 16(2) by (auto simp: abs_paths_def)
  have np: "mem_file f p = None" using 16(3) by (simp add: self_and_ancestors_def)
  show ?case
  proof (cases "p \<in> mem_dirs f")
    case True
    then have "mem_dirs f \<union> self_and_ancestors p = mem_dirs f"
      using mem_invD(2) [OF 16(1), of p] by (auto simp: self_and_ancestors_def)
    with True np 16 show ?thesis by (simp add: memory_ops_def mem_mkdir_def Let_def has_dir_iff has_file_iff)
  next
    case False
    obtain g where g: "make_dirs now (non_empty_segments p) [] f = (Inr (), g)"
      "mem_file g = mem_file f" "mem_dirs g = mem_dirs f \<union> self_and_ancestors p"
      using make_all_dirs [OF 16(1) ss(2), of now] 16(3) ss(1) by auto
    have "mem_inv g" using 16 g by (intro mem_inv_add [of f p g]) auto
    with g False np 16 show ?thesis by (simp add: memory_ops_def mem_mkdir_def Let_def has_dir_iff has_file_iff)
  qed
next
  case (17 f p now)
  then show ?case
    using removeSubtree_inv [of f p now]
    by (simp add: memory_ops_def mem_rmdir_def Let_def has_dir_iff)
qed

interpretation mem_reads: fylo_reader memory_ops mem_inv mem_file mem_dirs
proof (unfold_locales, goal_cases)
  case (1 f p) then show ?case by (simp add: memory_ops_def mem_exists_def has_file_iff has_dir_iff)
next
  case (2 f p) then show ?case by (simp add: memory_ops_def mem_isDirectory_def has_dir_iff)
next
  case (3 f p) then show ?case by (auto simp: memory_ops_def mem_mtimeMs_def has_file_iff has_dir_iff Let_def)
qed

subsection \<open>What the in-memory filesystem promises\<close>

lemma mem_key_abs_paths: "starts_with ''/'' p \<Longrightarrow> mem_key p \<in> abs_paths"
  by (simp add: abs_paths_iff mem_key_def Let_def starts_with_slash_normalize normalize_idempotent_aux)

lemma mem_inv_add_dir:
  assumes "mem_inv fs" and "p \<in> abs_paths" and "ancestors p \<subseteq> mem_dirs fs" and "mem_file fs p = None"
  shows "mem_inv (add_dir now p fs)"
  using assms mem_invD [OF assms(1)] by (auto simp: mem_inv_def)

lemma make_dirs_inv:
  "mem_inv fs \<Longrightarrow> plain_segments (us @ ss) \<Longrightarrow> cursor = (if us = [] then [] else abs_path us) \<Longrightarrow>
   abs_path us \<in> mem_dirs fs \<Longrightarrow> mem_inv (snd (make_dirs now ss cursor fs))"
proof (induction ss arbitrary: us cursor fs)
  case (Cons s ss)
  let ?p = "abs_path (us @ [s])"
  have c: "cursor @ CHR ''/'' # s = ?p" using Cons.prems(3) by (simp add: abs_path_snoc)
  show ?case
  proof (cases "mem_file fs ?p = None")
    case True
    have "ancestors ?p \<subseteq> mem_dirs fs"
      using Cons.prems mem_invD(2) [OF Cons.prems(1), of "abs_path us"]
      by (subst ancestors_snoc) auto
    then have "mem_inv (add_dir now ?p fs)"
      using Cons.prems True by (intro mem_inv_add_dir) auto
    then have "mem_inv (snd (make_dirs now ss ?p (add_dir now ?p fs)))"
      using Cons.prems by (intro Cons.IH [where us = "us @ [s]"]) auto
    with c True show ?thesis by (simp add: Let_def has_file_iff)
  qed (use Cons.prems c in \<open>simp add: Let_def has_file_iff\<close>)
qed simp

lemma make_dirs_root_inv:
  "mem_inv fs \<Longrightarrow> plain_segments ss \<Longrightarrow> mem_inv (snd (make_dirs now (non_empty_segments (abs_path ss)) [] fs))"
  using make_dirs_inv [of fs "[]" ss "[]" now] mem_invD(1) [of fs]
  by (simp add: non_empty_segments_abs_path abs_path_def [of "[]"])

lemma make_dirs_files: "mem_file (snd (make_dirs now ss cursor fs)) = mem_file fs"
  by (induction ss arbitrary: cursor fs) (simp_all add: Let_def)

lemma make_dirs_dirs: "mem_dirs fs \<subseteq> mem_dirs (snd (make_dirs now ss cursor fs))"
proof (induction ss arbitrary: cursor fs)
  case (Cons s ss)
  have "mem_dirs fs \<subseteq> mem_dirs (snd (make_dirs now ss c (add_dir now c fs)))" for c
    using Cons [of "add_dir now c fs" c] by auto
  then show ?case by (simp add: Let_def)
qed simp

lemma make_dirs_new:
  "plain_segments (us @ ss) \<Longrightarrow> cursor = (if us = [] then [] else abs_path us) \<Longrightarrow>
   make_dirs now ss cursor fs = (Inr (), g) \<Longrightarrow>
   mem_dirs g = mem_dirs fs \<union> (\<lambda>k. abs_path (us @ take (Suc k) ss)) ` {..<length ss}"
proof (induction ss arbitrary: us cursor fs)
  case (Cons s ss)
  have c: "cursor @ CHR ''/'' # s = abs_path (us @ [s])" using Cons.prems(2) by (simp add: abs_path_snoc)
  have "make_dirs now ss (abs_path (us @ [s])) (add_dir now (abs_path (us @ [s])) fs) = (Inr (), g)"
    using Cons.prems(3) c by (simp add: Let_def split: if_splits)
  then have "mem_dirs g = mem_dirs (add_dir now (abs_path (us @ [s])) fs) \<union>
      (\<lambda>k. abs_path ((us @ [s]) @ take (Suc k) ss)) ` {..<length ss}"
    using Cons.prems by (intro Cons.IH) auto
  then show ?case by (simp add: lessThan_Suc_eq_insert_0 image_image)
qed simp

lemma ensureParents_inv:
  assumes "mem_inv fs" and "p \<in> abs_paths" and "p \<noteq> ''/''"
  shows "mem_inv (snd (ensureParents now p fs))"
    and "mem_file (snd (ensureParents now p fs)) = mem_file fs"
    and "ensureParents now p fs = (Inr (), g) \<Longrightarrow> mem_dirs g = mem_dirs fs \<union> ancestors p"
proof -
  obtain ts where ts: "p = abs_path ts" "plain_segments ts" using assms(2) by (auto simp: abs_paths_def)
  then have "ts \<noteq> []" using assms(3) by (auto simp: abs_path_def)
  with ts obtain ss s where p: "p = abs_path (ss @ [s])" "plain_segments (ss @ [s])"
    by (metis rev_exhaust)
  then have dn: "dirname p = abs_path ss" by (simp only: dirname_abs_path)
  have anc: "ancestors p = self_and_ancestors (abs_path ss)"
    using p ancestors_snoc by (simp only: self_and_ancestors_def)
  show "mem_inv (snd (ensureParents now p fs))" "mem_file (snd (ensureParents now p fs)) = mem_file fs"
    using assms(1) p(2) make_dirs_root_inv [of fs ss now]
    by (simp_all add: ensureParents_def dn Let_def make_dirs_files)
  assume g: "ensureParents now p fs = (Inr (), g)"
  show "mem_dirs g = mem_dirs fs \<union> ancestors p"
  proof (cases "has_dir fs (abs_path ss)")
    case True
    then have "ancestors p \<subseteq> mem_dirs fs"
      using mem_invD(2) [OF assms(1), of "abs_path ss"] anc by (simp add: has_dir_iff self_and_ancestors_def)
    with True g dn show ?thesis by (auto simp: ensureParents_def Let_def split: if_splits)
  next
    case False
    with g dn p have "make_dirs now ss [] fs = (Inr (), g)"
      by (simp add: ensureParents_def Let_def non_empty_segments_abs_path split: if_splits)
    then have "mem_dirs g = mem_dirs fs \<union> (\<lambda>k. abs_path (take (Suc k) ss)) ` {..<length ss}"
      using make_dirs_new [of "[]" ss "[]" now fs g] p by simp
    then show ?thesis
      using anc p mem_invD(1) [OF assms(1)] by (auto simp: self_and_ancestors_image)
  qed
qed

lemma mem_inv_set_file:
  assumes "mem_inv g" and "p \<in> abs_paths" and "p \<notin> mem_dirs g" and "ancestors p \<subseteq> mem_dirs g"
  shows "mem_inv (set_file now p b g)"
  using assms mem_invD [OF assms(1)] by (auto simp: mem_inv_def)

lemma mem_inv_delete_file: "mem_inv g \<Longrightarrow> mem_inv (delete_file p g)"
  unfolding mem_inv_def by (auto split: if_splits)

lemma after_parents_inv:
  assumes "mem_inv fs" and "p \<in> abs_paths" and "p \<notin> mem_dirs fs"
    and "\<And>g. mem_inv g \<Longrightarrow> p \<notin> mem_dirs g \<Longrightarrow> ancestors p \<subseteq> mem_dirs g \<Longrightarrow> mem_inv (h g)"
  shows "mem_inv (snd (seq_op (ensureParents now p) (\<lambda>g. (Inr (), h g)) fs))"
proof -
  have "p \<noteq> ''/''" using assms(1,3) mem_invD(1) by metis
  note parents = ensureParents_inv [OF assms(1,2) this, of now]
  obtain ss where ss: "p = abs_path ss" "plain_segments ss" using assms(2) by (auto simp: abs_paths_def)
  then have self: "p \<notin> ancestors p" using not_own_ancestor by simp
  obtain r g where rg: "ensureParents now p fs = (r, g)" by fastforce
  show ?thesis
  proof (cases r)
    case (Inl e)
    with rg parents(1) show ?thesis by (simp add: seq_op_Inl)
  next
    case (Inr u)
    with rg have run: "ensureParents now p fs = (Inr (), g)" by simp
    have "mem_inv (h g)"
      using parents(1) run parents(3) [OF run] assms(3) self by (intro assms(4)) auto
    with run show ?thesis by (simp add: seq_op_Inr)
  qed
qed

text \<open>The calls a client makes, and the states they lead to.\<close>

datatype fs_call = Mkdir string bool | Rmdir string bool | WriteText string string
  | WriteBytes string bytes | AppendText string string | Remove string | Move string string

fun run_fs_call :: "int \<Rightarrow> fs_call \<Rightarrow> (memory_fs, unit) op" where
  "run_fs_call now (Mkdir p r) = mem_mkdir now p r"
| "run_fs_call now (Rmdir p r) = mem_rmdir now p r"
| "run_fs_call now (WriteText p t) = mem_writeText now p t"
| "run_fs_call now (WriteBytes p b) = mem_writeBytes now p b"
| "run_fs_call now (AppendText p t) = mem_appendText now p t"
| "run_fs_call now (Remove p) = mem_remove p"
| "run_fs_call now (Move p q) = mem_move now p q"

fun call_paths :: "fs_call \<Rightarrow> string list" where
  "call_paths (Mkdir p r) = [p]"
| "call_paths (Rmdir p r) = [p]"
| "call_paths (WriteText p t) = [p]"
| "call_paths (WriteBytes p b) = [p]"
| "call_paths (AppendText p t) = [p]"
| "call_paths (Remove p) = [p]"
| "call_paths (Move p q) = [p, q]"

inductive mem_reachable :: "memory_fs \<Rightarrow> bool" where
  start: "mem_reachable (new_memory_fs now)"
| call: "mem_reachable fs \<Longrightarrow> list_all (starts_with ''/'') (call_paths c) \<Longrightarrow>
         run_fs_call now c fs = (r, g) \<Longrightarrow> mem_reachable g"

lemma delete_dir_inv:
  assumes "mem_inv fs" and "plain_segments ss" and "abs_path ss \<noteq> ''/''"
    and "{s. plain_segment s \<and> (mem_file fs (abs_path (ss @ [s])) \<noteq> None \<or> abs_path (ss @ [s]) \<in> mem_dirs fs)} = {}"
  shows "mem_inv (delete_dir (abs_path ss) fs)"
proof -
  have no: "abs_path ss \<notin> ancestors q" if q: "mem_file fs q \<noteq> None \<or> q \<in> mem_dirs fs" for q
  proof
    assume anc: "abs_path ss \<in> ancestors q"
    obtain ts where ts: "q = abs_path ts" "plain_segments ts"
      using mem_invD(2) [OF assms(1) q] by (auto simp: abs_paths_def)
    then have "prefix ss ts" "ts \<noteq> ss"
      using anc assms(2) abs_path_below [of ss ts] not_own_ancestor [of ss] by (auto simp: self_and_ancestors_def)
    then obtain s us where s: "ts = ss @ s # us" by (metis prefixE append_Nil2 list.exhaust)
    have "abs_path (ss @ [s]) \<in> self_and_ancestors q"
      using ts s abs_path_below [of "ss @ [s]" ts] by (auto simp: prefix_def)
    then have "abs_path (ss @ [s]) \<in> mem_dirs fs \<or> mem_file fs (abs_path (ss @ [s])) \<noteq> None"
      using mem_invD(2) [OF assms(1) q] q by (auto simp: self_and_ancestors_def)
    with assms(4) ts s show False by auto
  qed
  show ?thesis using mem_invD [OF assms(1)] no assms(3) by (auto simp: mem_inv_def)
qed

lemma finite_children:
  assumes "plain_segments ss"
  shows "finite {s. plain_segment s \<and>
    (mem_file fs (abs_path (ss @ [s])) \<noteq> None \<or> abs_path (ss @ [s]) \<in> mem_dirs fs)}" (is "finite ?S")
proof (rule finite_subset)
  show "?S \<subseteq> basename ` (set (map fst (files fs)) \<union> mem_dirs fs)"
  proof
    fix s assume s: "s \<in> ?S"
    then have "basename (abs_path (ss @ [s])) = s" using assms by (intro basename_abs_path) simp
    moreover have "abs_path (ss @ [s]) \<in> set (map fst (files fs)) \<union> mem_dirs fs"
      using s by (auto simp: mem_file_def map_of_eq_None_iff dest: weak_map_of_SomeI)
    ultimately show "s \<in> basename ` (set (map fst (files fs)) \<union> mem_dirs fs)" by force
  qed
qed (simp add: mem_dirs_def)

lemma removeSubtree_root:
  assumes "mem_inv fs"
  shows "mem_inv (removeSubtree now ''/'' fs)"
proof -
  have root: "''/'' = abs_path []" by (simp add: abs_path_def)
  have cov: "covered ''/'' q" if "q \<in> abs_paths" for q
    using that covered_iff_below [of "[]" q] abs_path_below [of "[]"] unfolding root
    by (auto simp: below_def abs_paths_def)
  have "mem_file (removeSubtree now ''/'' fs) q = None" for q
    using cov [of q] mem_invD(2) [OF assms, of q] by (cases "mem_file fs q") (auto simp: removeSubtree_effect)
  moreover have "mem_dirs (removeSubtree now ''/'' fs) = {''/''}"
    using cov mem_invD(2) [OF assms] by (auto simp: removeSubtree_effect)
  moreover have "''/'' \<in> abs_paths" "ancestors ''/'' = {}"
    unfolding root by (simp_all add: ancestors_abs_path)
  ultimately show ?thesis by (simp add: mem_inv_def)
qed

lemma mem_mkdir_inv:
  assumes "mem_inv fs" and "starts_with ''/'' p"
  shows "mem_inv (snd (mem_mkdir now p r fs))"
proof -
  obtain ss where ss: "mem_key p = abs_path ss" "plain_segments ss"
    using mem_key_abs_paths [OF assms(2)] by (auto simp: abs_paths_def)
  show ?thesis
  proof (cases "mem_key p \<in> mem_dirs fs \<or> r")
    case True
    with assms(1) ss(2) make_dirs_root_inv show ?thesis
      by (auto simp: mem_mkdir_def Let_def has_dir_iff ss(1))
  next
    case False
    then have "ss \<noteq> []" using mem_invD(1) [OF assms(1)] ss by (auto simp: abs_path_def)
    then obtain us s where us: "ss = us @ [s]" by (metis rev_exhaust)
    have "dirname (abs_path ss) = abs_path us" using us ss(2) by (simp only: dirname_abs_path)
    moreover have "ancestors (abs_path ss) \<subseteq> mem_dirs fs" if "abs_path us \<in> mem_dirs fs"
      using that us ss(2) ancestors_snoc [of us s] mem_invD(2) [OF assms(1), of "abs_path us"] by auto
    ultimately show ?thesis
      using False assms(1) ss(2) mem_inv_add_dir [OF assms(1), of "abs_path ss" now]
      by (auto simp: mem_mkdir_def Let_def has_dir_iff has_file_iff ss(1))
  qed
qed

lemma mem_rmdir_inv:
  assumes "mem_inv fs" and "starts_with ''/'' p"
  shows "mem_inv (snd (mem_rmdir now p r fs))"
proof -
  obtain ss where ss: "mem_key p = abs_path ss" "plain_segments ss"
    using mem_key_abs_paths [OF assms(2)] by (auto simp: abs_paths_def)
  have same: "mem_list p fs = mem_list (abs_path ss) fs" if "mem_key p \<in> mem_dirs fs"
    using that ss by (simp add: mem_list_def Let_def has_dir_iff)
  show ?thesis
  proof (cases "mem_key p \<in> mem_dirs fs")
    case dir: True
    show ?thesis
    proof (cases r)
      case True
      have "mem_inv (removeSubtree now (mem_key p) fs)"
        using assms removeSubtree_root removeSubtree_inv mem_key_abs_paths by metis
      with dir True show ?thesis by (simp add: mem_rmdir_def Let_def has_dir_iff)
    next
      case False
      let ?S = "{s. plain_segment s \<and> (mem_file fs (abs_path (ss @ [s])) \<noteq> None \<or> abs_path (ss @ [s]) \<in> mem_dirs fs)}"
      have names: "mem_list (abs_path ss) fs = (Inr (sorted_list_of_set ?S), fs)"
        using mem_list_names [OF assms(1) ss(2)] dir ss(1) by simp
      have fin: "finite ?S" by (rule finite_children [OF ss(2)])
      have "mem_inv (delete_dir (abs_path ss) fs)" if "sorted_list_of_set ?S = []" "abs_path ss \<noteq> ''/''"
        using that fin assms(1) ss(2) delete_dir_inv by simp
      then show ?thesis
        using dir False assms(1) names
        by (simp add: mem_rmdir_def Let_def has_dir_iff ss(1) same bind_op_def when_op_def
            flip: ss(1))
    qed
  qed (use assms in \<open>simp add: mem_rmdir_def Let_def has_dir_iff\<close>)
qed

lemma mem_write_inv:
  assumes "mem_inv fs" and "starts_with ''/'' p"
  shows "mem_inv (snd (mem_writeBytes now p b fs))"
proof (cases "mem_key p \<in> mem_dirs fs")
  case False
  have "mem_inv (snd (seq_op (ensureParents now (mem_key p)) (\<lambda>g. (Inr (), set_file now (mem_key p) b g)) fs))"
    using assms False mem_key_abs_paths by (intro after_parents_inv mem_inv_set_file) auto
  with False show ?thesis by (simp add: mem_writeBytes_def Let_def has_dir_iff modify_def [abs_def])
qed (use assms in \<open>simp add: mem_writeBytes_def Let_def has_dir_iff\<close>)

lemma mem_append_inv:
  assumes "mem_inv fs" and "starts_with ''/'' p"
  shows "mem_inv (snd (mem_appendText now p t fs))"
proof (cases "mem_key p \<in> mem_dirs fs")
  case False
  have "mem_inv (snd (seq_op (ensureParents now (mem_key p))
     (\<lambda>g. (Inr (), set_file now (mem_key p)
        ((case map_of (files g) (mem_key p) of Some b \<Rightarrow> b | None \<Rightarrow> []) @ utf8_encode t) g)) fs))"
    using assms False mem_key_abs_paths by (intro after_parents_inv mem_inv_set_file) auto
  with False show ?thesis by (simp add: mem_appendText_def Let_def has_dir_iff)
qed (use assms in \<open>simp add: mem_appendText_def Let_def has_dir_iff\<close>)

lemma mem_move_inv:
  assumes "mem_inv fs" and "starts_with ''/'' q"
  shows "mem_inv (snd (mem_move now p q fs))"
proof (cases "map_of (files fs) (mem_key p)")
  case (Some data)
  show ?thesis
  proof (cases "mem_key q \<in> mem_dirs fs")
    case False
    have "mem_inv (snd (seq_op (ensureParents now (mem_key q))
       (\<lambda>g. (Inr (), delete_file (mem_key p) (set_file now (mem_key q) data g))) fs))"
      using assms False mem_key_abs_paths
      by (intro after_parents_inv mem_inv_delete_file mem_inv_set_file) auto
    with False Some show ?thesis by (simp add: mem_move_def Let_def has_dir_iff modify_def [abs_def])
  qed (use assms Some in \<open>simp add: mem_move_def Let_def has_dir_iff\<close>)
qed (use assms in \<open>simp add: mem_move_def Let_def\<close>)

lemma mem_call_inv:
  assumes "mem_inv fs" and "list_all (starts_with ''/'') (call_paths c)"
  shows "mem_inv (snd (run_fs_call now c fs))"
  using assms mem_inv_delete_file [OF assms(1)]
  by (cases c) (simp_all add: mem_mkdir_inv mem_rmdir_inv mem_writeText_def mem_write_inv
      mem_append_inv mem_move_inv mem_remove_def Let_def)

lemma mem_reachable_inv: "mem_reachable fs \<Longrightarrow> mem_inv fs"
proof (induction rule: mem_reachable.induct)
  case (call fs c now r g)
  then show ?case using mem_call_inv [of fs c now] by simp
qed (rule mem_inv_new)

text \<open>C10. The in-memory directory tree stays a tree: after any sequence of calls with absolute paths,
  failed ones included, the root exists, every entry is a normal absolute path all of whose
  ancestors are directories, and no path is both a file and a directory.\<close>

theorem memory_tree_invariant:
  assumes "mem_reachable fs"
  shows "''/'' \<in> mem_dirs fs \<and> (\<forall>p. mem_file fs p \<noteq> None \<longrightarrow> p \<notin> mem_dirs fs) \<and>
    (\<forall>p. mem_file fs p \<noteq> None \<or> p \<in> mem_dirs fs \<longrightarrow> p \<in> abs_paths \<and> ancestors p \<subseteq> mem_dirs fs)"
  using mem_invD [OF mem_reachable_inv [OF assms]] by fastforce

theorem memory_tree_invariant_witness:
  "''/db'' \<in> mem_dirs (snd (mem_writeText 7 ''/db//x.json'' ''{}'' (new_memory_fs 5)))"
proof -
  let ?g = "snd (mem_writeText 7 ''/db//x.json'' ''{}'' (new_memory_fs 5))"
  have "run_fs_call 7 (WriteText ''/db//x.json'' ''{}'') (new_memory_fs 5) =
      (fst (mem_writeText 7 ''/db//x.json'' ''{}'' (new_memory_fs 5)), ?g)" by simp
  from mem_reachable.call [OF mem_reachable.start _ this] have r: "mem_reachable ?g" by simp
  have "map_of (files ?g) ''/db/x.json'' = Some ''{}''" by code_simp
  then have f: "mem_file ?g ''/db/x.json'' \<noteq> None" by (simp add: mem_file_def)
  have p: "''/db/x.json'' = abs_path ([''db''] @ [''x.json''])" "''/db'' = abs_path [''db'']"
    by (simp_all add: abs_path_def)
  have "plain_segments ([''db''] @ [''x.json''])" by (simp add: plain_segment_def isMeaningful_def)
  then have "''/db'' \<in> ancestors ''/db/x.json''" unfolding p by (simp only: ancestors_snoc insertI1)
  with memory_tree_invariant [OF r] f show ?thesis by blast
qed

text \<open>\<open>list\<close> returns exactly the names of the entries directly below a directory, sorted and
  without repetition, whether they are files or directories, and changes nothing.\<close>

theorem list_direct_children:
  assumes "mem_reachable fs" and "plain_segments ss" and "abs_path ss \<in> mem_dirs fs"
  shows "\<exists>names. mem_list (abs_path ss) fs = (Inr names, fs) \<and> sorted names \<and> distinct names \<and>
    (\<forall>s. s \<in> set names \<longleftrightarrow> plain_segment s \<and>
       (mem_file fs (abs_path (ss @ [s])) \<noteq> None \<or> abs_path (ss @ [s]) \<in> mem_dirs fs))"
  using mem_list_names [OF mem_reachable_inv [OF assms(1)] assms(2,3)] finite_children [OF assms(2), of fs]
  by simp

theorem list_direct_children_witness:
  "\<exists>names. mem_list ''/'' (new_memory_fs 5) = (Inr names, new_memory_fs 5) \<and> sorted names"
proof -
  have "''/'' = abs_path []" by (simp add: abs_path_def)
  then show ?thesis
    using list_direct_children [OF mem_reachable.start, of "[]" 5] mem_invD(1) [OF mem_inv_new, of 5] by auto
qed

text \<open>What is written is read back, under every spelling of the path, and no other file is
  touched: after a successful write a read of a path with the same normal form returns the
  text, and the content of every path with another normal form is what it was.\<close>

theorem write_read_frame:
  assumes "mem_writeText now path text fs = (Inr (), g)"
  shows "(mem_key path' = mem_key path \<longrightarrow> mem_readText path' g = (Inr text, g)) \<and>
    (mem_key path' \<noteq> mem_key path \<longrightarrow> fst (mem_readBytes path' g) = fst (mem_readBytes path' fs))"
proof -
  from assms obtain h where h: "ensureParents now (mem_key path) fs = (Inr (), h)"
    and g: "g = set_file now (mem_key path) (utf8_encode text) h"
    by (auto simp: mem_writeText_def mem_writeBytes_def Let_def split: if_splits elim!: seq_op_InrE)
  have "mem_file h = mem_file fs"
    using h make_dirs_files [of now "non_empty_segments (dirname (mem_key path))" "[]" fs]
    by (auto simp: ensureParents_def Let_def split: if_splits)
  then have f: "mem_file g = (mem_file fs)(mem_key path \<mapsto> utf8_encode text)" using g by simp
  show ?thesis
    using fun_cong [OF f, of "mem_key path'"]
    by (auto simp: mem_readText_def mem_readBytes_def bind_op_def mem_file_def split: option.splits)
qed

theorem write_read_frame_witness:
  "fst (mem_readText ''/a/../b.txt'' (snd (mem_writeText 3 ''/b.txt'' ''hello'' (new_memory_fs 1)))) = Inr ''hello''"
proof -
  let ?g = "snd (mem_writeText 3 ''/b.txt'' ''hello'' (new_memory_fs 1))"
  have "fst (mem_writeText 3 ''/b.txt'' ''hello'' (new_memory_fs 1)) = Inr ()" by code_simp
  then have "mem_writeText 3 ''/b.txt'' ''hello'' (new_memory_fs 1) = (Inr (), ?g)"
    by (metis prod.collapse)
  moreover have "mem_key ''/a/../b.txt'' = mem_key ''/b.txt''" by code_simp
  ultimately show ?thesis
    using write_read_frame [of 3 "''/b.txt''" "''hello''" "new_memory_fs 1" ?g "''/a/../b.txt''"] by simp
qed

text \<open>Moving a file onto itself deletes it: \<open>move(p, p)\<close> succeeds and the file is gone, where POSIX
  leaves it in place.\<close>

lemma move_onto_itself_deletes:
  assumes "mem_move now p p fs = (Inr (), g)"
  shows "mem_file g (mem_key p) = None \<and> fst (mem_readBytes p g) = Inl (notFound p)"
proof -
  from assms obtain h where "g = delete_file (mem_key p) h"
    by (auto simp: mem_move_def Let_def split: option.splits if_splits elim!: seq_op_InrE)
  then have "mem_file g (mem_key p) = None" by simp
  then show ?thesis by (simp add: mem_readBytes_def mem_file_def)
qed

lemma move_onto_itself_deletes_witness:
  "peekBytes (snd (mem_writeText 3 ''/b.txt'' ''hello'' (new_memory_fs 1))) ''/b.txt'' = Some ''hello'' \<and>
   mem_file (snd (mem_move 4 ''/b.txt'' ''/b.txt'' (snd (mem_writeText 3 ''/b.txt'' ''hello'' (new_memory_fs 1)))))
     (mem_key ''/b.txt'') = None"
proof -
  let ?fs = "snd (mem_writeText 3 ''/b.txt'' ''hello'' (new_memory_fs 1))"
  let ?g = "snd (mem_move 4 ''/b.txt'' ''/b.txt'' ?fs)"
  have "fst (mem_move 4 ''/b.txt'' ''/b.txt'' ?fs) = Inr ()" by code_simp
  then have "mem_move 4 ''/b.txt'' ''/b.txt'' ?fs = (Inr (), ?g)" by (metis prod.collapse)
  from move_onto_itself_deletes [OF this] have "mem_file ?g (mem_key ''/b.txt'') = None" ..
  moreover have "peekBytes ?fs ''/b.txt'' = Some ''hello''" by code_simp
  ultimately show ?thesis by blast
qed

end
