(* ===== verification/IndexStore.thy ===== *)
theory IndexStore imports IndexLaws MemoryFs begin

section \<open>The index as a store of keys\<close>

text \<open>
  The files and caches of a collection's index stand for one set of keys.  The laws say what each
  operation does to that set, that the caches stay coherent with the files, that the scanner never
  changes an answer, and that a search returns what the set contains.
\<close>

subsection \<open>Acceleration is transparent\<close>

definition scanner_agrees :: "'f core \<Rightarrow> bytes \<Rightarrow> string \<Rightarrow> string \<Rightarrow> range_bound option \<Rightarrow> bool" where
  "scanner_agrees env bs full rp bound \<longleftrightarrow>
     (\<forall>f ids. indexScannerFactory env = Some f \<longrightarrow>
        bind_result (scanner_scan f bs full bound) decode_doc_ids = Inr ids \<longrightarrow>
        (\<exists>js. scanSnapshotWithJavaScript bs full rp bound = Inr js \<and> set js = set ids))"

definition same_state :: "'f world \<Rightarrow> 'f world \<Rightarrow> bool" where
  "same_state v w \<longleftrightarrow> disk v = disk w \<and> clock v = clock w \<and> ticks v = ticks w \<and> dispatched v = dispatched w \<and>
     snapshotCache (index v) = snapshotCache (index w) \<and> walOverlayCache (index v) = walOverlayCache (index w)"

lemma same_state_refl [simp]: "same_state w w"
  by (simp add: same_state_def)

lemma same_state_trans: "same_state u v \<Longrightarrow> same_state v w \<Longrightarrow> same_state u w"
  by (simp add: same_state_def)

lemma disableAcceleration_run:
  "\<exists>v. disableAcceleration e code w = (Inr (), v) \<and> same_state v w"
  by (auto simp: disableAcceleration_def index_close_def seq_op_def bind_op_def same_state_def)

lemma index_ready_run: "\<exists>v. index_ready env w = (Inr (), v) \<and> same_state v w"
  using disableAcceleration_run
  by (auto simp: index_ready_def same_state_def split: option.splits sum.splits)

lemma scannerFor_run:
  "\<exists>s v. scannerFor env collection w = (Inr s, v) \<and> same_state v w \<and> (s = None \<or> s = indexScannerFactory env)"
proof (cases "indexScannerFactory env")
  case (Some f)
  obtain v where v: "(if accelerationState (index w) \<noteq> Active then index_ready env else ret ()) w = (Inr (), v)"
    "same_state v w"
    using index_ready_run [of env w] by (cases "accelerationState (index w) = Active") auto
  define u where "u e = snd (disableAcceleration e ''EWASM_INSTANTIATE'' v)" for e
  have u: "disableAcceleration e ''EWASM_INSTANTIATE'' v = (Inr (), u e)" "same_state (u e) v" for e
    using disableAcceleration_run [of e "''EWASM_INSTANTIATE''" v] by (auto simp: u_def)
  show ?thesis
  proof (cases "accelerationState (index w) = Fallback \<or> accelerationState (index v) \<noteq> Active \<or> collection \<in> set (scanners (index v))")
    case True
    then show ?thesis using v Some by (auto simp: scannerFor_def bind_op_def)
  next
    case False
    then have f: "scannerFor env collection w = (case factory_create f of
         Inr _ \<Rightarrow> (Inr (Some f), v\<lparr> index := (index v)\<lparr> scanners := push_new (scanners (index v)) collection \<rparr> \<rparr>)
       | Inl e \<Rightarrow> (Inr None, u e))"
      using v(1) Some u(1) by (simp add: scannerFor_def bind_op_def split: sum.split)
    show ?thesis
    proof (cases "factory_create f")
      case (Inl e)
      then show ?thesis using f same_state_trans [OF u(2) v(2)] by simp
    next
      case (Inr x)
      have "same_state (v\<lparr> index := (index v)\<lparr> scanners := push_new (scanners (index v)) collection \<rparr> \<rparr>) w"
        using v(2) by (simp add: same_state_def)
      then show ?thesis using f Inr Some by simp
    qed
  qed
qed (simp add: scannerFor_def)

lemma scan_accelerated_state: "same_state (snd (scan_accelerated f c bs full bound w)) w"
  by (auto simp: scan_accelerated_def Let_def seq_op_def bind_op_def same_state_def split: prod.splits sum.splits if_splits)

lemma scan_accelerated_result:
  "fst (scan_accelerated f c bs full bound w) = Inr ids \<Longrightarrow>
   \<exists>raw. bind_result (scanner_scan f bs full bound) decode_doc_ids = Inr raw \<and> ids = foldl push_new [] raw"
  by (auto simp: scan_accelerated_def Let_def seq_op_def bind_op_def split: prod.splits sum.splits if_splits)

lemma scan_snapshot_run:
  assumes "scanner_agrees env bs full rp bound"
  shows "map_sum (\<lambda>e. e) set (fst (scan_snapshot env c bs full rp bound w)) =
      map_sum (\<lambda>e. e) set (scanSnapshotWithJavaScript bs full rp bound) \<and>
    same_state (snd (scan_snapshot env c bs full rp bound w)) w"
proof -
  let ?js = "scanSnapshotWithJavaScript bs full rp bound"
  obtain s v where s: "scannerFor env c w = (Inr s, v)" "same_state v w"
    "s = None \<or> s = indexScannerFactory env"
    using scannerFor_run by blast
  show ?thesis
  proof (cases s)
    case None
    with s show ?thesis by (simp add: scan_snapshot_def bind_op_def)
  next
    case (Some f)
    then have env: "indexScannerFactory env = Some f" using s(3) by auto
    obtain r u where acc: "scan_accelerated f c bs full bound v = (r, u)" by fastforce
    have u: "same_state u v" using scan_accelerated_state [of f c bs full bound v] acc by simp
    show ?thesis
    proof (cases r)
      case (Inl e)
      obtain x where "disableAcceleration e ''EWASM_QUERY'' u = (Inr (), x)" "same_state x u"
        using disableAcceleration_run by blast
      then show ?thesis
        using s(1,2) Some acc Inl same_state_trans [OF _ same_state_trans [OF u s(2)]]
        by (simp add: scan_snapshot_def bind_op_def catch_op_def seq_op_def)
    next
      case (Inr ids)
      then obtain raw where raw: "bind_result (scanner_scan f bs full bound) decode_doc_ids = Inr raw"
        "ids = foldl push_new [] raw"
        using scan_accelerated_result [of f c bs full bound v ids] acc by auto
      then obtain js where "?js = Inr js" "set js = set raw"
        using assms env unfolding scanner_agrees_def by blast
      then show ?thesis
        using s(1,2) Some acc Inr raw same_state_trans [OF u s(2)]
        by (simp add: scan_snapshot_def bind_op_def catch_op_def push_new_fold)
    qed
  qed
qed

text \<open>The WebAssembly scanner is transparent: whatever its state, and whether it cannot be created,
  throws while loading or scanning, or returns invalid identifiers, a search returns the documents
  (or the error) of the JavaScript search and changes no file and no cache of it, provided that the
  answers the scanner does give are those of the JavaScript search.\<close>

theorem acceleration_transparent:
  assumes "scanner_agrees env bs full rp bound"
  shows "map_sum (\<lambda>e. e) set (fst (scan_snapshot env c bs full rp bound w)) =
      map_sum (\<lambda>e. e) set (scanSnapshotWithJavaScript bs full rp bound) \<and>
    same_state (snd (scan_snapshot env c bs full rp bound w)) w"
  using scan_snapshot_run [OF assms] .

text \<open>The scanner of the witness loads but fails every scan with an error that carries a code.\<close>

definition failing_scanner :: scanner_factory where
  "failing_scanner = \<lparr> factory_ready = Inr (), factory_create = Inr (), scanner_load = (\<lambda>_. Inr ()),
     scanner_scan = (\<lambda>_ _ _. Inl (JsError ''Error'' ''unreachable'' (Some ''EWASM_TRAP''))) \<rparr>"

theorem acceleration_transparent_witness:
  "map_sum (\<lambda>e. e) set (fst (scan_snapshot \<lparr> fs = memory_ops, root = ''/db'', wormMode = ''off'',
       digest = (\<lambda>b. b), indexScannerFactory = Some failing_scanner, ttid_code = (\<lambda>_. []) \<rparr> ''users'' [] ''a/eq/1/'' ''a/eq/'' None
       (new_world (new_memory_fs 0) (\<lambda>_. 0)))) = Inr {}"
proof -
  let ?env = "\<lparr> fs = memory_ops, root = ''/db'', wormMode = ''off'', digest = (\<lambda>b. b),
    indexScannerFactory = Some failing_scanner, ttid_code = (\<lambda>_. []) \<rparr>"
  have js: "scanSnapshotWithJavaScript [] ''a/eq/1/'' ''a/eq/'' None = Inr []" by code_simp
  have "scanner_agrees ?env [] ''a/eq/1/'' ''a/eq/'' None"
    by (simp add: scanner_agrees_def failing_scanner_def)
  from acceleration_transparent [OF this, of "''users''" "new_world (new_memory_fs 0) (\<lambda>_. 0)"] js
  show ?thesis by simp
qed

subsection \<open>The files of an index\<close>

definition index_dir :: "string list \<Rightarrow> string \<Rightarrow> string list" where
  "index_dir rs c = rs @ [''.collections'', c, ''index'']"

definition index_path :: "string list \<Rightarrow> string \<Rightarrow> string \<Rightarrow> string" where
  "index_path rs c name = abs_path (index_dir rs c @ [name])"

definition index_env :: "'f core \<Rightarrow> string list \<Rightarrow> string \<Rightarrow> bool" where
  "index_env env rs c \<longleftrightarrow> root env = abs_path rs \<and> plain_segments rs \<and> validateCollectionName c = Inr ()"

definition only_disk :: "'f world \<Rightarrow> 'f world \<Rightarrow> bool" where
  "only_disk w v \<longleftrightarrow> clock v = clock w \<and> index v = index w \<and> dispatched v = dispatched w"

lemma only_disk_refl [simp]: "only_disk w w"
  and only_disk_trans: "only_disk u v \<Longrightarrow> only_disk v w \<Longrightarrow> only_disk u w"
  by (simp_all add: only_disk_def)

lemma plain_index_names [simp]:
  "plain_segment ''index''" "plain_segment ''.collections''" "plain_segment LOCAL_FS_MANIFEST"
  "plain_segment LOCAL_FS_SNAPSHOT" "plain_segment LOCAL_FS_WAL"
  by (simp_all add: plain_segment_def isMeaningful_def LOCAL_FS_MANIFEST_def LOCAL_FS_SNAPSHOT_def LOCAL_FS_WAL_def)

lemma index_names_distinct [simp]:
  "LOCAL_FS_MANIFEST \<noteq> LOCAL_FS_SNAPSHOT" "LOCAL_FS_SNAPSHOT \<noteq> LOCAL_FS_MANIFEST"
  "LOCAL_FS_MANIFEST \<noteq> LOCAL_FS_WAL" "LOCAL_FS_WAL \<noteq> LOCAL_FS_MANIFEST"
  "LOCAL_FS_SNAPSHOT \<noteq> LOCAL_FS_WAL" "LOCAL_FS_WAL \<noteq> LOCAL_FS_SNAPSHOT"
  by (simp_all add: LOCAL_FS_MANIFEST_def LOCAL_FS_SNAPSHOT_def LOCAL_FS_WAL_def)

lemma index_env_plain:
  assumes "index_env env rs c"
  shows "plain_segments rs" "plain_segment c" "plain_segments (index_dir rs c)"
  using assms validateCollectionName_plain by (auto simp: index_env_def index_dir_def)

lemma collectionRoot_abs: "index_env env rs c \<Longrightarrow> collectionRoot env c = Inr (abs_path (rs @ [''.collections'', c]))"
  using index_env_plain [of env rs c] path_join_abs2 [of rs "''.collections''" c]
  by (simp add: index_env_def collectionRoot_def join3_def)

lemma index_paths:
  assumes "index_env env rs c"
  shows "index_root env c = Inr (abs_path (index_dir rs c))"
    "manifestPath env c = Inr (index_path rs c LOCAL_FS_MANIFEST)"
    "snapshotPath env c = Inr (index_path rs c LOCAL_FS_SNAPSHOT)"
    "walPath env c = Inr (index_path rs c LOCAL_FS_WAL)"
proof -
  show r: "index_root env c = Inr (abs_path (index_dir rs c))"
    using index_env_plain [OF assms] collectionRoot_abs [OF assms]
    by (simp add: index_root_def join2_def index_dir_def path_join_abs1)
  show "manifestPath env c = Inr (index_path rs c LOCAL_FS_MANIFEST)"
    "snapshotPath env c = Inr (index_path rs c LOCAL_FS_SNAPSHOT)"
    "walPath env c = Inr (index_path rs c LOCAL_FS_WAL)"
    using index_env_plain [OF assms] r
    by (simp_all add: manifestPath_def snapshotPath_def walPath_def join2_def index_path_def path_join_abs1)
qed

lemma index_path_abs: "index_env env rs c \<Longrightarrow> plain_segment n \<Longrightarrow> index_path rs c n \<in> abs_paths"
  using index_env_plain(3) [of env rs c] by (simp add: index_path_def)

lemma index_path_ancestors:
  "index_env env rs c \<Longrightarrow> plain_segment n \<Longrightarrow>
   ancestors (index_path rs c n) = self_and_ancestors (abs_path (index_dir rs c))"
  using index_env_plain(3) [of env rs c] by (simp add: index_path_def ancestors_snoc self_and_ancestors_def)

lemma index_path_not_above:
  assumes "index_env env rs c" and "plain_segment n"
  shows "index_path rs c n \<notin> self_and_ancestors (abs_path (index_dir rs c))"
proof -
  have "plain_segments (index_dir rs c @ [n])" using index_env_plain(3) [OF assms(1)] assms(2) by simp
  from not_own_ancestor [OF this] show ?thesis
    using index_path_ancestors [OF assms] by (simp add: index_path_def)
qed

lemma index_path_inject:
  "index_env env rs c \<Longrightarrow> plain_segment m \<Longrightarrow> plain_segment n \<Longrightarrow> index_path rs c m = index_path rs c n \<longleftrightarrow> m = n"
  using index_env_plain(3) [of env rs c] by (simp add: index_path_def)

definition index_room :: "(string \<Rightarrow> bytes option) \<Rightarrow> string set \<Rightarrow> string list \<Rightarrow> string \<Rightarrow> bool" where
  "index_room fm ds rs c \<longleftrightarrow>
     (\<forall>q\<in>self_and_ancestors (abs_path (index_dir rs c)). fm q = None) \<and>
     (\<forall>n\<in>{LOCAL_FS_MANIFEST, LOCAL_FS_SNAPSHOT, LOCAL_FS_WAL}. index_path rs c n \<notin> ds)"

definition old_bytes :: "(string \<Rightarrow> bytes option) \<Rightarrow> string \<Rightarrow> bytes" where
  "old_bytes fm p = (case fm p of Some b \<Rightarrow> b | None \<Rightarrow> [])"

text \<open>\<open>snapshot_of\<close> and \<open>wal_of\<close> read a missing file as empty, as the code does.\<close>

abbreviation snapshot_of :: "(string \<Rightarrow> bytes option) \<Rightarrow> string list \<Rightarrow> string \<Rightarrow> bytes" where
  "snapshot_of fm rs c \<equiv> old_bytes fm (index_path rs c LOCAL_FS_SNAPSHOT)"

abbreviation wal_of :: "(string \<Rightarrow> bytes option) \<Rightarrow> string list \<Rightarrow> string \<Rightarrow> bytes" where
  "wal_of fm rs c \<equiv> old_bytes fm (index_path rs c LOCAL_FS_WAL)"

definition index_files :: "string list \<Rightarrow> string \<Rightarrow> string set" where
  "index_files rs c = index_path rs c ` {LOCAL_FS_MANIFEST, LOCAL_FS_SNAPSHOT, LOCAL_FS_WAL}"

text \<open>\<open>index_kept\<close>: nothing outside the index files changed, and only the index directory came to be.\<close>

definition index_kept :: "(string \<Rightarrow> bytes option) \<Rightarrow> string set \<Rightarrow> (string \<Rightarrow> bytes option) \<Rightarrow> string set \<Rightarrow>
    string list \<Rightarrow> string \<Rightarrow> bool" where
  "index_kept fm ds fm' ds' rs c \<longleftrightarrow>
     (\<forall>q. q \<notin> index_files rs c \<longrightarrow> fm' q = fm q) \<and>
     ds' = ds \<union> self_and_ancestors (abs_path (index_dir rs c))"

context fylo_tree
begin

lemma writeIfMissing_run:
  assumes "fs env = ops" "inv (disk w)" "p \<in> abs_paths" "p \<notin> adir (disk w)"
    "\<forall>q\<in>ancestors p. afile (disk w) q = None" "ancestors p \<subseteq> adir (disk w)"
  shows "\<exists>v. writeIfMissing env p t w = (Inr (), v) \<and> only_disk w v \<and> inv (disk v) \<and>
    adir (disk v) = adir (disk w) \<and>
    afile (disk v) = (if afile (disk w) p = None then (afile (disk w))(p \<mapsto> utf8_encode t) else afile (disk w))"
proof -
  have e: "w_exists env p w = (Inr (afile (disk w) p \<noteq> None), w)"
    using exists_spec [OF assms(2,3,5)] assms(1,4) by (simp add: w_exists_def on_disk_def)
  obtain g where g: "fs_writeText ops (clock w (ticks w)) p t (disk w) = (Inr (), g)" "inv g"
    "afile g = (afile (disk w))(p \<mapsto> utf8_encode t)" "adir g = adir (disk w) \<union> ancestors p"
    using write_text_spec [OF assms(2-5)] by blast
  have "w_writeText env p t w = (Inr (), w\<lparr> ticks := Suc (ticks w), disk := g \<rparr>)"
    using g(1) assms(1) by (simp add: w_writeText_def stamped_run)
  with e g assms(2,6) show ?thesis
    by (auto simp: writeIfMissing_def bind_op_def only_disk_def)
qed

lemma ensure_run:
  assumes env: "index_env env rs c" "fs env = ops" and i: "inv (disk w)"
    and room: "index_room (afile (disk w)) (adir (disk w)) rs c"
  shows "\<exists>v. index_ensureCollection env c w = (Inr (), v) \<and> only_disk w v \<and> inv (disk v) \<and>
    index_kept (afile (disk w)) (adir (disk w)) (afile (disk v)) (adir (disk v)) rs c \<and>
    afile (disk v) (index_path rs c LOCAL_FS_MANIFEST) \<noteq> None \<and>
    afile (disk v) (index_path rs c LOCAL_FS_SNAPSHOT) = Some (snapshot_of (afile (disk w)) rs c) \<and>
    afile (disk v) (index_path rs c LOCAL_FS_WAL) = Some (wal_of (afile (disk w)) rs c)"
proof -
  let ?d = "abs_path (index_dir rs c)"
  let ?m = "index_path rs c LOCAL_FS_MANIFEST" and ?s = "index_path rs c LOCAL_FS_SNAPSHOT"
    and ?l = "index_path rs c LOCAL_FS_WAL"
  note paths = index_paths [OF env(1)]
  have d: "?d \<in> abs_paths" using index_env_plain(3) [OF env(1)] by simp
  have abs: "?m \<in> abs_paths" "?s \<in> abs_paths" "?l \<in> abs_paths" by (simp_all add: index_path_abs [OF env(1)])
  have anc: "ancestors ?m = self_and_ancestors ?d" "ancestors ?s = self_and_ancestors ?d" "ancestors ?l = self_and_ancestors ?d"
    by (simp_all add: index_path_ancestors [OF env(1)])
  have neq: "?m \<noteq> ?s" "?m \<noteq> ?l" "?s \<noteq> ?l" by (simp_all add: index_path_inject [OF env(1)])
  have nofile: "\<forall>q\<in>self_and_ancestors ?d. afile (disk w) q = None" using room by (simp add: index_room_def)
  have nodir: "?m \<notin> adir (disk w)" "?s \<notin> adir (disk w)" "?l \<notin> adir (disk w)" using room by (auto simp: index_room_def)
  have notin: "?m \<notin> self_and_ancestors ?d" "?s \<notin> self_and_ancestors ?d" "?l \<notin> self_and_ancestors ?d"
    using index_path_not_above [OF env(1)] by simp_all
  obtain g where g: "fs_mkdir ops (clock w (ticks w)) ?d True (disk w) = (Inr (), g)" "inv g"
    "afile g = afile (disk w)" "adir g = adir (disk w) \<union> self_and_ancestors ?d"
    using mkdir_spec [OF i d nofile] by blast
  define w1 where "w1 = w\<lparr> disk := g, ticks := Suc (Suc (ticks w)) \<rparr>"
  define t where "t = manifest_text (clock w (Suc (ticks w)))"
  have od: "only_disk w w1" "disk w1 = g" by (simp_all add: w1_def only_disk_def)
  obtain w2 where w2: "writeIfMissing env ?m t w1 = (Inr (), w2)" "only_disk w1 w2" "inv (disk w2)"
    "adir (disk w2) = adir g"
    "afile (disk w2) = (if afile g ?m = None then (afile g)(?m \<mapsto> utf8_encode t) else afile g)"
    using writeIfMissing_run [OF env(2), of w1 ?m t] od g nofile nodir abs anc notin by auto
  have nofile2: "\<forall>q\<in>self_and_ancestors ?d. afile (disk w2) q = None"
    using w2(5) nofile notin g(3) by auto
  obtain w3 where w3: "writeIfMissing env ?s [] w2 = (Inr (), w3)" "only_disk w2 w3" "inv (disk w3)"
    "adir (disk w3) = adir g"
    "afile (disk w3) = (if afile (disk w2) ?s = None then (afile (disk w2))(?s \<mapsto> utf8_encode []) else afile (disk w2))"
    using writeIfMissing_run [OF env(2), of w2 ?s "[]"] w2 g nofile2 nodir abs anc notin by auto
  have nofile3: "\<forall>q\<in>self_and_ancestors ?d. afile (disk w3) q = None"
    using w3(5) nofile2 notin by auto
  obtain w4 where w4: "writeIfMissing env ?l [] w3 = (Inr (), w4)" "only_disk w3 w4" "inv (disk w4)"
    "adir (disk w4) = adir g"
    "afile (disk w4) = (if afile (disk w3) ?l = None then (afile (disk w3))(?l \<mapsto> utf8_encode []) else afile (disk w3))"
    using writeIfMissing_run [OF env(2), of w3 ?l "[]"] w3 g nofile3 nodir abs anc notin by auto
  have "index_ensureCollection env c w = (Inr (), w4)"
    using paths g(1) w2(1) w3(1) w4(1) env(2)
    by (simp add: index_ensureCollection_def seq_op_def bind_op_def w_mkdir_def stamped_run date_now_def w1_def t_def)
  moreover have "only_disk w w4"
    using only_disk_trans od(1) w2(2) w3(2) w4(2) by blast
  moreover have "index_kept (afile (disk w)) (adir (disk w)) (afile (disk w4)) (adir (disk w4)) rs c"
    using w4(4,5) w3(5) w2(5) g(3,4) by (auto simp: index_kept_def index_files_def)
  moreover have "afile (disk w4) ?m \<noteq> None" using w4(5) w3(5) w2(5) neq by auto
  moreover have "afile (disk w4) ?s = Some (snapshot_of (afile (disk w)) rs c)"
    using w4(5) w3(5) w2(5) neq g(3) by (auto simp: old_bytes_def utf8_encode_def)
  moreover have "afile (disk w4) ?l = Some (wal_of (afile (disk w)) rs c)"
    using w4(5) w3(5) w2(5) neq g(3) by (auto simp: old_bytes_def utf8_encode_def)
  ultimately show ?thesis using w4(3) by blast
qed

end


subsection \<open>What the files and caches stand for\<close>

definition index_holds :: "(string \<Rightarrow> bytes option) \<Rightarrow> string list \<Rightarrow> string \<Rightarrow> string list \<Rightarrow> mutation list \<Rightarrow> bool" where
  "index_holds fm rs c ks ms \<longleftrightarrow>
     snapshot_of fm rs c = serializeSnapshot ks \<and> wal_of fm rs c = serializeWal ms \<and>
     sorted ks \<and> distinct ks \<and> (\<forall>k\<in>set ks. good_key k) \<and> (\<forall>(op, k)\<in>set ms. good_key k)"

definition index_coherent :: "index_state \<Rightarrow> string \<Rightarrow> string list \<Rightarrow> mutation list \<Rightarrow> bool" where
  "index_coherent i c ks ms \<longleftrightarrow>
     (\<forall>b. map_of (snapshotCache i) c = Some b \<longrightarrow> b = serializeSnapshot ks) \<and>
     (\<forall>ov. map_of (walOverlayCache i) c = Some ov \<longrightarrow> ov = foldl overlay_mutation empty_overlay ms)"

definition index_at :: "('f \<Rightarrow> bool) \<Rightarrow> ('f \<Rightarrow> string \<Rightarrow> bytes option) \<Rightarrow> ('f \<Rightarrow> string set) \<Rightarrow> string list \<Rightarrow> string \<Rightarrow>
    string list \<Rightarrow> mutation list \<Rightarrow> 'f world \<Rightarrow> bool" where
  "index_at iv afile adir rs c ks ms w \<longleftrightarrow>
     iv (disk w) \<and> index_room (afile (disk w)) (adir (disk w)) rs c \<and>
     index_holds (afile (disk w)) rs c ks ms \<and> index_coherent (index w) c ks ms"

definition index_frame :: "('f \<Rightarrow> string \<Rightarrow> bytes option) \<Rightarrow> ('f \<Rightarrow> string set) \<Rightarrow> string list \<Rightarrow> string \<Rightarrow>
    'f world \<Rightarrow> 'f world \<Rightarrow> bool" where
  "index_frame afile adir rs c w v \<longleftrightarrow>
     (\<forall>q. q \<notin> index_files rs c \<longrightarrow> afile (disk v) q = afile (disk w) q) \<and>
     adir (disk w) \<subseteq> adir (disk v) \<and>
     adir (disk v) \<subseteq> adir (disk w) \<union> self_and_ancestors (abs_path (index_dir rs c)) \<and>
     clock v = clock w \<and> dispatched v = dispatched w \<and>
     (\<forall>c'. c' \<noteq> c \<longrightarrow> map_of (snapshotCache (index v)) c' = map_of (snapshotCache (index w)) c' \<and>
        map_of (walOverlayCache (index v)) c' = map_of (walOverlayCache (index w)) c')"

lemma index_frame_refl [simp]: "index_frame afile adir rs c w w"
  by (simp add: index_frame_def)

lemma index_frame_trans:
  "index_frame afile adir rs c w v \<Longrightarrow> index_frame afile adir rs c v u \<Longrightarrow> index_frame afile adir rs c w u"
  by (auto simp: index_frame_def)

lemma good_line: "good_key k \<Longrightarrow> line_safe k"
  by (simp add: good_key_def)

lemma lines_ascii: "\<forall>k\<in>set ks. line_safe k \<Longrightarrow> is_ascii (lines_text ks)"
  by (induction ks) (auto simp: line_safe_def is_ascii_def)

lemma snapshot_ascii: "\<forall>k\<in>set ks. good_key k \<Longrightarrow> is_ascii (serializeSnapshot ks)"
  by (simp add: serializeSnapshot_lines lines_ascii good_line)

lemma wal_ascii: "\<forall>(op, k)\<in>set ms. good_key k \<Longrightarrow> is_ascii (serializeWal ms)"
proof (induction ms)
  case (Cons m ms)
  obtain op k where m: "m = (op, k)" by fastforce
  with Cons show ?case
    by (cases op) (auto simp: serializeWal_def wal_sign_def is_ascii_def dest!: good_line simp: line_safe_def)
qed (simp add: serializeWal_def is_ascii_def)

lemma complete_snapshot: "\<forall>k\<in>set ks. good_key k \<Longrightarrow> completeLines (utf8_decode (serializeSnapshot ks)) = ks"
  using completeLines_torn [of ks "[]"] snapshot_ascii [of ks]
  by (auto simp: utf8_decode_ascii serializeSnapshot_lines good_key_def line_safe_def)

lemma parse_wal_good: "\<forall>(op, k)\<in>set ms. good_key k \<Longrightarrow> parse_wal (utf8_decode (serializeWal ms)) = ms"
  using parse_wal_torn [of ms "[]"] wal_ascii [of ms] by (auto simp: utf8_decode_ascii good_key_def)

lemma push_new_distinct: "distinct (acc @ ks) \<Longrightarrow> foldl push_new acc ks = acc @ ks"
  by (induction ks arbitrary: acc) (auto simp: push_new_def)

lemma apply_mutation_set: "set (foldl apply_mutation ks ms) \<subseteq> set ks \<union> snd ` set ms"
proof (induction ms arbitrary: ks)
  case (Cons m ms)
  have "set (apply_mutation ks m) \<subseteq> set ks \<union> {snd m}"
    by (cases m; cases "fst m") (auto simp: apply_mutation_def push_new_props)
  with Cons [of "apply_mutation ks m"] show ?case by auto
qed simp

lemma apply_mutation_good:
  "\<forall>k\<in>set ks. good_key k \<Longrightarrow> \<forall>(op, k)\<in>set ms. good_key k \<Longrightarrow> \<forall>k\<in>set (foldl apply_mutation ks ms). good_key k"
  using apply_mutation_set [of ks ms] by fastforce

lemma serializeWal_append: "serializeWal (ms @ ns) = serializeWal ms @ serializeWal ns"
  by (simp add: serializeWal_def)

lemma map_of_delete: "map_of (AList.delete c xs) c' = (if c' = c then None else map_of xs c')"
  by (simp add: delete_conv)

lemma map_of_update: "map_of (AList.update c x xs) c' = (if c' = c then Some x else map_of xs c')"
  by (simp add: update_conv')


context fylo_tree
begin

abbreviation at :: "string list \<Rightarrow> string \<Rightarrow> string list \<Rightarrow> mutation list \<Rightarrow> 'f world \<Rightarrow> bool" where
  "at \<equiv> index_at inv afile adir"

abbreviation frame :: "string list \<Rightarrow> string \<Rightarrow> 'f world \<Rightarrow> 'f world \<Rightarrow> bool" where
  "frame \<equiv> index_frame afile adir"

lemma index_ancestors_free:
  assumes "index_env env rs c" and "index_at inv afile adir rs c ks ms w"
    and "n \<in> {LOCAL_FS_MANIFEST, LOCAL_FS_SNAPSHOT, LOCAL_FS_WAL}"
  shows "\<forall>q\<in>ancestors (index_path rs c n). afile (disk w) q = None"
  using assms(2,3) index_path_ancestors [OF assms(1), of n] by (auto simp: index_at_def index_room_def)

lemma index_file_written:
  assumes env: "index_env env rs c" and w: "inv (disk w)" "index_room (afile (disk w)) (adir (disk w)) rs c"
    and n: "n \<in> {LOCAL_FS_MANIFEST, LOCAL_FS_SNAPSHOT, LOCAL_FS_WAL}"
    and g: "inv g" "afile g = (afile (disk w))(index_path rs c n \<mapsto> b)"
      "adir g = adir (disk w) \<union> ancestors (index_path rs c n)"
    and v: "disk v = g" "clock v = clock w" "dispatched v = dispatched w" "index v = index w"
  shows "index_room (afile g) (adir g) rs c" and "frame rs c w v"
    and "old_bytes (afile g) (index_path rs c n) = b"
    and "m \<noteq> n \<Longrightarrow> m \<in> {LOCAL_FS_MANIFEST, LOCAL_FS_SNAPSHOT, LOCAL_FS_WAL} \<Longrightarrow>
      old_bytes (afile g) (index_path rs c m) = old_bytes (afile (disk w)) (index_path rs c m)"
proof -
  let ?N = "{LOCAL_FS_MANIFEST, LOCAL_FS_SNAPSHOT, LOCAL_FS_WAL}"
  have plain: "plain_segment x" if "x \<in> ?N" for x using that by auto
  have anc: "ancestors (index_path rs c n) = self_and_ancestors (abs_path (index_dir rs c))"
    by (rule index_path_ancestors [OF env plain [OF n]])
  have above: "index_path rs c x \<notin> self_and_ancestors (abs_path (index_dir rs c))" if "x \<in> ?N" for x
    by (rule index_path_not_above [OF env plain [OF that]])
  have inj: "index_path rs c x = index_path rs c y \<longleftrightarrow> x = y" if "x \<in> ?N" "y \<in> ?N" for x y
    by (rule index_path_inject [OF env plain [OF that(1)] plain [OF that(2)]])
  show "index_room (afile g) (adir g) rs c"
    unfolding index_room_def
  proof (intro conjI ballI)
    fix q assume q: "q \<in> self_and_ancestors (abs_path (index_dir rs c))"
    with above [OF n] have "q \<noteq> index_path rs c n" by blast
    with q g(2) w(2) show "afile g q = None" by (simp add: index_room_def)
  next
    fix x assume x: "x \<in> ?N"
    with above [OF x] g(3) anc w(2) show "index_path rs c x \<notin> adir g" by (auto simp: index_room_def)
  qed
  have "index_path rs c n \<in> index_files rs c" using n by (auto simp: index_files_def)
  then show "frame rs c w v" using g v anc by (auto simp: index_frame_def)
  show "old_bytes (afile g) (index_path rs c n) = b" using g(2) by (simp add: old_bytes_def)
  show "old_bytes (afile g) (index_path rs c m) = old_bytes (afile (disk w)) (index_path rs c m)"
    if "m \<noteq> n" "m \<in> ?N" using inj [OF that(2) n] that g(2) by (simp add: old_bytes_def)
qed

lemma ensure_at:
  assumes env: "index_env env rs c" "fs env = ops" and at: "at rs c ks ms w"
  shows "\<exists>v. index_ensureCollection env c w = (Inr (), v) \<and> at rs c ks ms v \<and> frame rs c w v \<and> index v = index w \<and>
    afile (disk v) (index_path rs c LOCAL_FS_SNAPSHOT) = Some (serializeSnapshot ks) \<and>
    afile (disk v) (index_path rs c LOCAL_FS_WAL) = Some (serializeWal ms)"
proof -
  have w: "inv (disk w)" "index_room (afile (disk w)) (adir (disk w)) rs c" and h: "index_holds (afile (disk w)) rs c ks ms"
    using at by (simp_all add: index_at_def)
  obtain v where v: "index_ensureCollection env c w = (Inr (), v)" "only_disk w v" "inv (disk v)"
    "index_kept (afile (disk w)) (adir (disk w)) (afile (disk v)) (adir (disk v)) rs c"
    "afile (disk v) (index_path rs c LOCAL_FS_SNAPSHOT) = Some (snapshot_of (afile (disk w)) rs c)"
    "afile (disk v) (index_path rs c LOCAL_FS_WAL) = Some (wal_of (afile (disk w)) rs c)"
    using ensure_run [OF env w] by blast
  have keep: "\<And>q. q \<notin> index_files rs c \<Longrightarrow> afile (disk v) q = afile (disk w) q"
    and dirs: "adir (disk v) = adir (disk w) \<union> self_and_ancestors (abs_path (index_dir rs c))"
    using v(4) by (auto simp: index_kept_def)
  have above: "index_path rs c x \<notin> self_and_ancestors (abs_path (index_dir rs c))"
    if "x \<in> {LOCAL_FS_MANIFEST, LOCAL_FS_SNAPSHOT, LOCAL_FS_WAL}" for x
    using that index_path_not_above [OF env(1), of x] by auto
  then have sep: "q \<in> self_and_ancestors (abs_path (index_dir rs c)) \<Longrightarrow> q \<notin> index_files rs c" for q
    by (auto simp: index_files_def)
  have "index_room (afile (disk v)) (adir (disk v)) rs c"
    unfolding index_room_def
  proof (intro conjI ballI)
    fix q assume q: "q \<in> self_and_ancestors (abs_path (index_dir rs c))"
    then show "afile (disk v) q = None" using keep [OF sep [OF q]] w(2) by (simp add: index_room_def)
  next
    fix x assume x: "x \<in> {LOCAL_FS_MANIFEST, LOCAL_FS_SNAPSHOT, LOCAL_FS_WAL}"
    then show "index_path rs c x \<notin> adir (disk v)" using dirs above [OF x] w(2) by (auto simp: index_room_def)
  qed
  moreover have "index_holds (afile (disk v)) rs c ks ms"
    using h v(5,6) by (simp add: index_holds_def old_bytes_def)
  ultimately have "at rs c ks ms v"
    using at v(2,3) by (simp add: index_at_def only_disk_def)
  moreover have "frame rs c w v" using keep dirs v(2) by (auto simp: index_frame_def only_disk_def)
  moreover have "index v = index w" using v(2) by (simp add: only_disk_def)
  ultimately show ?thesis using v(1,5,6) h by (auto simp: index_holds_def)
qed

lemma readSnapshot_at:
  assumes env: "index_env env rs c" "fs env = ops" and at: "at rs c ks ms w"
  shows "\<exists>v. readSnapshotBytes env c w = (Inr (serializeSnapshot ks), v) \<and> at rs c ks ms v \<and> frame rs c w v \<and> disk v = disk w"
proof (cases "map_of (snapshotCache (index w)) c")
  case None
  let ?s = "index_path rs c LOCAL_FS_SNAPSHOT"
  have w: "inv (disk w)" "?s \<notin> adir (disk w)" "old_bytes (afile (disk w)) ?s = serializeSnapshot ks"
    using at by (auto simp: index_at_def index_room_def index_holds_def)
  have abs: "?s \<in> abs_paths" by (simp add: index_path_abs [OF env(1)])
  have e: "w_exists env ?s w = (Inr (afile (disk w) ?s \<noteq> None), w)"
    using exists_spec [OF w(1) abs index_ancestors_free [OF env(1) at]] w(2) env(2) by (simp add: w_exists_def on_disk_def)
  have r: "(if afile (disk w) ?s \<noteq> None then on_disk (fs_readBytes (fs env) ?s) else ret []) w = (Inr (serializeSnapshot ks), w)"
    using read_bytes_spec [OF w(1) abs] w(3) env(2) by (auto simp: on_disk_def old_bytes_def)
  define v where "v = w\<lparr> index := (index w)\<lparr> accelerationMetrics := count_snapshot_read (serializeSnapshot ks) (accelerationMetrics (index w)),
     snapshotCache := AList.update c (serializeSnapshot ks) (snapshotCache (index w)) \<rparr> \<rparr>"
  have "readSnapshotBytes env c w = (Inr (serializeSnapshot ks), v)"
    unfolding readSnapshotBytes_def None using index_paths(3) [OF env(1)] e r
    by (simp add: bind_op_def seq_op_def v_def)
  moreover have "at rs c ks ms v" using at by (auto simp: index_at_def v_def index_coherent_def map_of_update)
  moreover have "frame rs c w v" by (simp add: index_frame_def v_def map_of_update)
  moreover have "disk v = disk w" by (simp add: v_def)
  ultimately show ?thesis by blast
next
  case (Some b)
  then have "b = serializeSnapshot ks" using at by (simp add: index_at_def index_coherent_def)
  with Some at show ?thesis by (simp add: readSnapshotBytes_def)
qed

lemma readWal_at:
  assumes env: "index_env env rs c" "fs env = ops" and at: "at rs c ks ms w"
  shows "readTextIfExists env (index_path rs c LOCAL_FS_WAL) w = (Inr (serializeWal ms), w)"
proof -
  let ?l = "index_path rs c LOCAL_FS_WAL"
  have w: "inv (disk w)" "?l \<notin> adir (disk w)" "old_bytes (afile (disk w)) ?l = serializeWal ms"
    and good: "\<forall>(op, k)\<in>set ms. good_key k"
    using at by (auto simp: index_at_def index_room_def index_holds_def)
  have abs: "?l \<in> abs_paths" by (simp add: index_path_abs [OF env(1)])
  have e: "w_exists env ?l w = (Inr (afile (disk w) ?l \<noteq> None), w)"
    using exists_spec [OF w(1) abs index_ancestors_free [OF env(1) at]] w(2) env(2) by (simp add: w_exists_def on_disk_def)
  show ?thesis
  proof (cases "afile (disk w) ?l")
    case None
    with e w(3) show ?thesis by (simp add: readTextIfExists_def bind_op_def old_bytes_def)
  next
    case (Some b)
    then have "b = serializeWal ms" using w(3) by (simp add: old_bytes_def)
    then have "fs_readText ops ?l (disk w) = (Inr (serializeWal ms), disk w)"
      using read_text_spec [OF w(1) abs Some] wal_ascii [OF good] by (simp add: utf8_decode_ascii)
    with e Some env(2) show ?thesis by (simp add: readTextIfExists_def bind_op_def w_readText_def on_disk_def)
  qed
qed

lemma loadWalOverlay_at:
  assumes env: "index_env env rs c" "fs env = ops" and at: "at rs c ks ms w"
  shows "\<exists>v. loadWalOverlay env c w = (Inr (foldl overlay_mutation empty_overlay ms), v) \<and> at rs c ks ms v \<and> frame rs c w v \<and> disk v = disk w"
proof (cases "map_of (walOverlayCache (index w)) c")
  case None
  have good: "\<forall>(op, k)\<in>set ms. good_key k" using at by (simp add: index_at_def index_holds_def)
  have p: "parse_wal (serializeWal ms) = ms"
    using parse_wal_good [OF good] wal_ascii [OF good] by (simp add: utf8_decode_ascii)
  define v where "v = w\<lparr> index := (index w)\<lparr> accelerationMetrics := count_wal_read (utf8_encode (serializeWal ms)) (accelerationMetrics (index w)),
     walOverlayCache := AList.update c (foldl overlay_mutation empty_overlay ms) (walOverlayCache (index w)) \<rparr> \<rparr>"
  have "loadWalOverlay env c w = (Inr (foldl overlay_mutation empty_overlay ms), v)"
    unfolding loadWalOverlay_def None using index_paths(4) [OF env(1)] readWal_at [OF env at] p
    by (simp add: bind_op_def seq_op_def v_def Let_def)
  moreover have "at rs c ks ms v" using at by (auto simp: index_at_def v_def index_coherent_def map_of_update)
  moreover have "frame rs c w v" by (simp add: index_frame_def v_def map_of_update)
  moreover have "disk v = disk w" by (simp add: v_def)
  ultimately show ?thesis by blast
next
  case (Some ov)
  then have "ov = foldl overlay_mutation empty_overlay ms" using at by (simp add: index_at_def index_coherent_def)
  with Some at show ?thesis by (simp add: loadWalOverlay_def)
qed

lemma loadKeySet_at:
  assumes env: "index_env env rs c" "fs env = ops" and at: "at rs c ks ms w"
  shows "\<exists>v. loadKeySet env c w = (Inr (foldl apply_mutation ks ms), v) \<and> at rs c ks ms v \<and> frame rs c w v"
proof -
  obtain w1 where w1: "index_ensureCollection env c w = (Inr (), w1)" "at rs c ks ms w1" "frame rs c w w1"
    using ensure_at [OF assms] by blast
  obtain w2 where w2: "readSnapshotBytes env c w1 = (Inr (serializeSnapshot ks), w2)" "at rs c ks ms w2" "frame rs c w1 w2"
    using readSnapshot_at [OF env w1(2)] by blast
  have good: "\<forall>k\<in>set ks. good_key k" "\<forall>(op, k)\<in>set ms. good_key k" "distinct ks"
    using at by (simp_all add: index_at_def index_holds_def)
  have "parse_wal (serializeWal ms) = ms"
    using parse_wal_good [OF good(2)] wal_ascii [OF good(2)] by (simp add: utf8_decode_ascii)
  then have "loadKeySet env c w = (Inr (foldl apply_mutation ks ms), w2)"
    using w1(1) w2(1) readWal_at [OF env w2(2)] complete_snapshot [OF good(1)] index_paths(4) [OF env(1)]
      push_new_distinct [of "[]" ks] good(3)
    by (simp add: loadKeySet_def seq_op_def bind_op_def)
  with w2 index_frame_trans [OF w1(3) w2(3)] show ?thesis by blast
qed

end

subsection \<open>Writing the index\<close>

context fylo_tree
begin

lemma write_index_file:
  assumes env: "index_env env rs c" "fs env = ops" and w: "inv (disk w)" "index_room (afile (disk w)) (adir (disk w)) rs c"
    and n: "n \<in> {LOCAL_FS_SNAPSHOT, LOCAL_FS_WAL}" and t: "is_ascii t"
  shows "\<exists>v. w_writeText env (index_path rs c n) t w = (Inr (), v) \<and> inv (disk v) \<and>
    index_room (afile (disk v)) (adir (disk v)) rs c \<and> frame rs c w v \<and> index v = index w \<and>
    old_bytes (afile (disk v)) (index_path rs c n) = t \<and>
    (\<forall>m\<in>{LOCAL_FS_SNAPSHOT, LOCAL_FS_WAL}. m \<noteq> n \<longrightarrow>
       old_bytes (afile (disk v)) (index_path rs c m) = old_bytes (afile (disk w)) (index_path rs c m))"
    and "\<exists>v. w_appendText env (index_path rs c n) t w = (Inr (), v) \<and> inv (disk v) \<and>
    index_room (afile (disk v)) (adir (disk v)) rs c \<and> frame rs c w v \<and> index v = index w \<and>
    old_bytes (afile (disk v)) (index_path rs c n) = old_bytes (afile (disk w)) (index_path rs c n) @ t \<and>
    (\<forall>m\<in>{LOCAL_FS_SNAPSHOT, LOCAL_FS_WAL}. m \<noteq> n \<longrightarrow>
       old_bytes (afile (disk v)) (index_path rs c m) = old_bytes (afile (disk w)) (index_path rs c m))"
proof -
  let ?p = "index_path rs c n"
  have n3: "n \<in> {LOCAL_FS_MANIFEST, LOCAL_FS_SNAPSHOT, LOCAL_FS_WAL}" "plain_segment n" using n by auto
  have abs: "?p \<in> abs_paths" by (rule index_path_abs [OF env(1) n3(2)])
  have nodir: "?p \<notin> adir (disk w)" using w(2) n3(1) by (auto simp: index_room_def)
  have nofile: "\<forall>q\<in>ancestors ?p. afile (disk w) q = None"
    using w(2) index_path_ancestors [OF env(1) n3(2)] by (simp add: index_room_def)
  have u: "utf8_encode t = t" using t by (rule utf8_encode_ascii)
  obtain g where g: "fs_writeText ops (clock w (ticks w)) ?p t (disk w) = (Inr (), g)" "inv g"
    "afile g = (afile (disk w))(?p \<mapsto> t)" "adir g = adir (disk w) \<union> ancestors ?p"
    using write_text_spec [OF w(1) abs nodir nofile] u by metis
  note gw = index_file_written [OF env(1) w n3(1) g(2-4)]
  show "\<exists>v. w_writeText env ?p t w = (Inr (), v) \<and> inv (disk v) \<and>
    index_room (afile (disk v)) (adir (disk v)) rs c \<and> frame rs c w v \<and> index v = index w \<and>
    old_bytes (afile (disk v)) ?p = t \<and>
    (\<forall>m\<in>{LOCAL_FS_SNAPSHOT, LOCAL_FS_WAL}. m \<noteq> n \<longrightarrow>
       old_bytes (afile (disk v)) (index_path rs c m) = old_bytes (afile (disk w)) (index_path rs c m))"
    using g(1,2) gw [of "w\<lparr> ticks := Suc (ticks w), disk := g \<rparr>"] env(2)
    by (intro exI [of _ "w\<lparr> ticks := Suc (ticks w), disk := g \<rparr>"]) (simp add: w_writeText_def stamped_run)
  obtain h where h: "fs_appendText ops (clock w (ticks w)) ?p t (disk w) = (Inr (), h)" "inv h"
    "afile h = (afile (disk w))(?p \<mapsto> old_bytes (afile (disk w)) ?p @ t)" "adir h = adir (disk w) \<union> ancestors ?p"
    using append_text_spec [OF w(1) abs nodir nofile] u unfolding old_bytes_def by metis
  note hw = index_file_written [OF env(1) w n3(1) h(2-4)]
  show "\<exists>v. w_appendText env ?p t w = (Inr (), v) \<and> inv (disk v) \<and>
    index_room (afile (disk v)) (adir (disk v)) rs c \<and> frame rs c w v \<and> index v = index w \<and>
    old_bytes (afile (disk v)) ?p = old_bytes (afile (disk w)) ?p @ t \<and>
    (\<forall>m\<in>{LOCAL_FS_SNAPSHOT, LOCAL_FS_WAL}. m \<noteq> n \<longrightarrow>
       old_bytes (afile (disk v)) (index_path rs c m) = old_bytes (afile (disk w)) (index_path rs c m))"
    using h(1,2) hw [of "w\<lparr> ticks := Suc (ticks w), disk := h \<rparr>"] env(2)
    by (intro exI [of _ "w\<lparr> ticks := Suc (ticks w), disk := h \<rparr>"]) (simp add: w_appendText_def stamped_run)
qed

lemma compact_at:
  assumes env: "index_env env rs c" "fs env = ops" and at: "at rs c ks ms w"
  shows "\<exists>v. compact env c w = (Inr (), v) \<and> at rs c (sort (foldl apply_mutation ks ms)) [] v \<and> frame rs c w v"
proof -
  let ?ks = "sort (foldl apply_mutation ks ms)"
  obtain w1 where w1: "loadKeySet env c w = (Inr (foldl apply_mutation ks ms), w1)" "at rs c ks ms w1" "frame rs c w w1"
    using loadKeySet_at [OF assms] by blast
  have good: "\<forall>k\<in>set ks. good_key k" "\<forall>(op, k)\<in>set ms. good_key k" "distinct ks"
    using at by (simp_all add: index_at_def index_holds_def)
  have gks: "\<forall>k\<in>set ?ks. good_key k" using apply_mutation_good [OF good(1,2)] by simp
  have i1: "inv (disk w1)" "index_room (afile (disk w1)) (adir (disk w1)) rs c" using w1(2) by (simp_all add: index_at_def)
  obtain w2 where w2: "w_writeText env (index_path rs c LOCAL_FS_SNAPSHOT) (serializeSnapshot ?ks) w1 = (Inr (), w2)"
    "inv (disk w2)" "index_room (afile (disk w2)) (adir (disk w2)) rs c" "frame rs c w1 w2" "index w2 = index w1"
    "snapshot_of (afile (disk w2)) rs c = serializeSnapshot ?ks"
    using write_index_file(1) [OF env i1, of LOCAL_FS_SNAPSHOT] snapshot_ascii [OF gks] by blast
  obtain w3 where w3: "w_writeText env (index_path rs c LOCAL_FS_WAL) [] w2 = (Inr (), w3)"
    "inv (disk w3)" "index_room (afile (disk w3)) (adir (disk w3)) rs c" "frame rs c w2 w3" "index w3 = index w2"
    "wal_of (afile (disk w3)) rs c = []" "snapshot_of (afile (disk w3)) rs c = snapshot_of (afile (disk w2)) rs c"
    using write_index_file(1) [OF env w2(2,3), of LOCAL_FS_WAL "[]"] by (auto simp: is_ascii_def)
  define v where "v = w3\<lparr> index := (index w3)\<lparr> snapshotCache := AList.delete c (snapshotCache (index w3)),
       scannerSnapshots := AList.delete c (scannerSnapshots (index w3)),
       walOverlayCache := AList.update c empty_overlay (walOverlayCache (index w3)) \<rparr> \<rparr>"
  have "compact env c w = (Inr (), v)"
    using w1(1) w2(1) w3(1) index_paths [OF env(1)]
    by (simp add: compact_def bind_op_def seq_op_def v_def)
  moreover have "at rs c ?ks [] v"
    using w3 w2(6) gks good(3)
    by (auto simp: index_at_def index_holds_def index_coherent_def v_def serializeWal_def map_of_delete map_of_update
        apply_mutation_distinct)
  moreover have "frame rs c w3 v"
    by (simp add: index_frame_def v_def map_of_delete map_of_update)
  ultimately show ?thesis
    using index_frame_trans [OF w1(3) index_frame_trans [OF w2(4) index_frame_trans [OF w3(4)]]] by blast
qed

lemma compactIfNeeded_at:
  assumes env: "index_env env rs c" "fs env = ops" and at: "at rs c ks ms w"
  shows "\<exists>v. compactIfNeeded env c w = (Inr (), v) \<and> frame rs c w v \<and>
    (at rs c ks ms v \<or> at rs c (sort (foldl apply_mutation ks ms)) [] v)"
proof -
  let ?l = "index_path rs c LOCAL_FS_WAL"
  have w: "inv (disk w)" "?l \<notin> adir (disk w)"
    using at by (auto simp: index_at_def index_room_def)
  have abs: "?l \<in> abs_paths" by (simp add: index_path_abs [OF env(1)])
  have e: "w_exists env ?l w = (Inr (afile (disk w) ?l \<noteq> None), w)"
    using exists_spec [OF w(1) abs index_ancestors_free [OF env(1) at]] w(2) env(2) by (simp add: w_exists_def on_disk_def)
  obtain v where v: "compact env c w = (Inr (), v)" "at rs c (sort (foldl apply_mutation ks ms)) [] v" "frame rs c w v"
    using compact_at [OF assms] by blast
  show ?thesis
  proof (cases "afile (disk w) ?l")
    case None
    with e at index_paths(4) [OF env(1)] show ?thesis by (auto simp: compactIfNeeded_def bind_op_def)
  next
    case (Some b)
    then have "w_readText env ?l w = (Inr (utf8_decode b), w)"
      using read_text_spec [OF w(1) abs] env(2) by (simp add: w_readText_def on_disk_def)
    with e Some v at index_paths(4) [OF env(1)] show ?thesis
      by (cases "int (length (utf8_encode (utf8_decode b))) < LOCAL_FS_WAL_COMPACT_BYTES")
        (auto simp: compactIfNeeded_def bind_op_def)
  qed
qed

lemma appendMutations_at:
  assumes env: "index_env env rs c" "fs env = ops" and at: "at rs c ks ms w"
    and new: "\<forall>(op, k)\<in>set ns. good_key k"
  shows "\<exists>v. appendMutations env c ns w = (Inr (), v) \<and> frame rs c w v \<and>
    (at rs c ks (ms @ ns) v \<or> at rs c (sort (foldl apply_mutation ks (ms @ ns))) [] v)"
proof (cases "ns = []")
  case False
  obtain w1 where w1: "index_ensureCollection env c w = (Inr (), w1)" "at rs c ks ms w1" "frame rs c w w1"
    using ensure_at [OF env at] by blast
  have i1: "inv (disk w1)" "index_room (afile (disk w1)) (adir (disk w1)) rs c" using w1(2) by (simp_all add: index_at_def)
  obtain w2 where w2: "w_appendText env (index_path rs c LOCAL_FS_WAL) (serializeWal ns) w1 = (Inr (), w2)"
    "inv (disk w2)" "index_room (afile (disk w2)) (adir (disk w2)) rs c" "frame rs c w1 w2" "index w2 = index w1"
    "wal_of (afile (disk w2)) rs c = wal_of (afile (disk w1)) rs c @ serializeWal ns"
    "snapshot_of (afile (disk w2)) rs c = snapshot_of (afile (disk w1)) rs c"
    using write_index_file(2) [OF env i1, of LOCAL_FS_WAL] wal_ascii [OF new] by auto
  define f where "f i = (case map_of (walOverlayCache i) c of
             Some ov \<Rightarrow> i\<lparr> walOverlayCache := AList.update c (foldl overlay_mutation ov ns) (walOverlayCache i) \<rparr>
           | None \<Rightarrow> i)" for i :: index_state
  define w3 where "w3 = w2\<lparr> index := f (index w2) \<rparr>"
  have "at rs c ks (ms @ ns) w3"
    using w1(2) w2 new
    by (auto simp: index_at_def index_holds_def index_coherent_def w3_def f_def serializeWal_append map_of_update
        split: option.splits)
  moreover have f3: "frame rs c w2 w3"
    by (auto simp: index_frame_def w3_def f_def map_of_update split: option.splits)
  ultimately obtain v where v: "compactIfNeeded env c w3 = (Inr (), v)" "frame rs c w3 v"
    "at rs c ks (ms @ ns) v \<or> at rs c (sort (foldl apply_mutation ks (ms @ ns))) [] v"
    using compactIfNeeded_at [OF env] by blast
  have "appendMutations env c ns w = (Inr (), v)"
    using w1(1) w2(1) v(1) index_paths(4) [OF env(1)] False
    by (simp add: appendMutations_def seq_op_def bind_op_def w3_def f_def [abs_def])
  with v index_frame_trans [OF w1(3) index_frame_trans [OF w2(4) index_frame_trans [OF f3 v(2)]]] show ?thesis by blast
qed (use at in \<open>simp add: appendMutations_def\<close>)

end

subsection \<open>The keys of a document are well formed\<close>

definition clean :: "string \<Rightarrow> bool" where
  "clean s \<longleftrightarrow> (\<forall>c\<in>set s. is_unreserved c \<or> c = CHR ''%'')"

lemma clean_encode: "clean (encodeSegment s)"
  using encodeSegment_chars by (auto simp: clean_def)

lemma clean_alnum: "(\<And>c. c \<in> set s \<Longrightarrow> is_alnum c) \<Longrightarrow> clean s"
  by (auto simp: clean_def is_unreserved_def)

lemma clean_append: "clean (s @ t) \<longleftrightarrow> clean s \<and> clean t"
  by (auto simp: clean_def)

lemma fixed_hex_alnum: "c \<in> set (fixed_hex k n) \<Longrightarrow> is_alnum c"
proof (induction k arbitrary: n)
  case (Suc k)
  have "is_alnum (digit_char d)" if "0 \<le> d" "d < 16" for d
    using that by (auto simp: is_alnum_def is_letter_def is_lower_def is_digit_def of_char_digit_char Let_def)
  with Suc show ?case by auto
qed simp

lemma clean_sortable: "clean (sortable_value raw)"
  unfolding sortable_value_def
  by (auto simp: clean_def sortableFloat64_def hex16_fixed is_unreserved_def dest: fixed_hex_alnum split: option.split)

lemma clean_reverse:
  assumes "sortable_value raw \<noteq> []"
  shows "clean (reverseSortable (sortable_value raw))"
proof -
  obtain x where x: "numericValue raw = Some x" "sortable_value raw = sortableFloat64 x"
    using assms by (auto simp: sortable_value_def split: option.splits)
  then have "f64_is_finite x" by (auto simp: numericValue_def Let_def split: if_splits)
  then obtain k n where "reverseSortable (sortable_value raw) = fixed_hex k n"
    using x(2) sortableFloat64_position reverseSortable_fixed sort_position_bounds by metis
  then show ?thesis by (auto intro!: clean_alnum dest: fixed_hex_alnum)
qed

lemma clean_hex: "clean (bytesToHex bs)"
proof (rule clean_alnum)
  fix c assume "c \<in> set (bytesToHex bs)"
  then obtain b where "c \<in> set (pad_start 2 CHR ''0'' (digits_of 16 (of_char b)))" by (auto simp: bytesToHex_def)
  moreover have "pad_start 2 CHR ''0'' (digits_of 16 (of_char b)) = fixed_hex 2 (of_char b)"
    using pad_digits_fixed [of 2 "of_char b"] of_char_bounds [of b] by simp
  ultimately show "is_alnum c" using fixed_hex_alnum by simp
qed

lemma clean_token: "clean (lookupToken h s)"
proof -
  have "clean ''h_''" by (simp add: clean_def is_unreserved_def is_alnum_def is_letter_def is_lower_def is_digit_def Let_def)
  then have "clean (''h_'' @ sha256Hex h s)"
    unfolding clean_append sha256Hex_def using clean_hex by blast
  then show ?thesis unfolding lookupToken_def Let_def using clean_encode by (simp split: if_split)
qed

lemma clean_kinds: "(knd, value) \<in> set (index_kinds h raw) \<Longrightarrow> clean knd \<and> clean value"
proof -
  have names: "clean ''eq''" "clean ''n''" "clean ''nr''" "clean ''f''" "clean ''r''" "clean ''g3''"
    by (auto intro!: clean_alnum simp: is_alnum_def is_letter_def is_lower_def is_digit_def Let_def)
  assume "(knd, value) \<in> set (index_kinds h raw)"
  then show ?thesis
    using names clean_encode clean_token clean_sortable clean_reverse
    by (auto simp: index_kinds_def value_entries_def Let_def split: if_splits)
qed

definition doc_key :: "string \<Rightarrow> string \<Rightarrow> bool" where
  "doc_key d k \<longleftrightarrow> (\<exists>p knd value. k = full_key p knd value d \<and> clean knd \<and> clean value)"

definition doc_keys :: "string \<Rightarrow> string list \<times> string list \<Rightarrow> bool" where
  "doc_keys d a \<longleftrightarrow> (\<forall>k\<in>set (fst a) \<union> set (snd a). doc_key d k)"

lemma addValue_doc_keys:
  assumes "isTTID d" and "addValue h d p raw a = Inr b" and "doc_keys d a"
  shows "doc_keys d b"
proof -
  have "doc_key d (full_key p knd value d)" if "(knd, value) \<in> set (index_kinds h raw)" for knd "value"
    using clean_kinds [OF that] by (auto simp: doc_key_def)
  then have "doc_key d (full_key p ''eq'' (lookupToken h (stringifyStoredValue raw)) d)"
    "\<forall>(knd, value)\<in>set (value_entries raw). doc_key d (full_key p knd value d)"
    by (auto simp: index_kinds_def)
  with assms show ?thesis
    by (auto simp: addValue_def index_key_ok keys_of_ok doc_keys_def)
qed

lemma walk_doc_keys:
  "walk h d p ob a = Inr b \<Longrightarrow> isTTID d \<Longrightarrow> doc_keys d a \<Longrightarrow> doc_keys d b"
  "walk_value h d p v a = Inr b \<Longrightarrow> isTTID d \<Longrightarrow> doc_keys d a \<Longrightarrow> doc_keys d b"
  "walk_items h d p vs a = Inr b \<Longrightarrow> isTTID d \<Longrightarrow> doc_keys d a \<Longrightarrow> doc_keys d b"
proof (induction h d p ob a and h d p v a and h d p vs a arbitrary: b and b and b
    rule: walk_walk_value_walk_items.induct)
  case (2 h d p field v ob a)
  from "2.prems"(1) obtain c where c: "walk_value h d (child_path p field) v a = Inr c"
    "walk h d p ob c = Inr b"
    unfolding walk.simps by (rule bind_result_InrE)
  show ?case by (rule "2.IH"(2) [OF c(2) "2.prems"(2) "2.IH"(1) [OF c(1) "2.prems"(2,3)]])
next
  case (7 h d p item items a)
  then have no: "\<not> is_object item" by (auto split: if_splits)
  with "7.prems"(1) obtain c where c: "addValue h d p item a = Inr c" "walk_items h d p items c = Inr b"
    unfolding walk_items.simps if_not_P [OF no] by (elim bind_result_InrE)
  show ?case by (rule "7.IH" [OF no c(2) "7.prems"(2) addValue_doc_keys [OF "7.prems"(2) c(1) "7.prems"(3)]])
qed (auto intro: addValue_doc_keys)

lemma doc_key_good:
  assumes "isTTID d" and "doc_key d k"
  shows "good_key k" and "key_doc k = d"
proof -
  obtain p knd "value" where k: "k = full_key p knd value d" and cl: "clean knd" "clean value"
    using assms(2) by (auto simp: doc_key_def)
  have clean_d: "clean d" using clean_encode [of d] encode_TTID [OF assms(1)] by simp
  have parts: "set (encodeFieldPath p) \<subseteq> {c. is_unreserved c \<or> c = CHR ''%'' \<or> c = CHR ''/''}"
    unfolding encodeFieldPath_def using set_join_with [of "''/''" "map encodeSegment (split_on CHR ''/'' p)"] encodeSegment_chars
    by fastforce
  have ch: "is_unreserved c \<or> c = CHR ''%'' \<or> c = CHR ''/''" if "c \<in> set k" for c
    using that parts cl clean_d unfolding k full_key_def clean_def by auto
  have "(of_char c :: int) < 128 \<and> c \<noteq> CHR 0x0A \<and> c \<noteq> CHR 0x0D" if "c \<in> set k" for c
    using ch [OF that] unreserved_props [of c] by auto
  moreover have "k \<noteq> []" by (simp add: k full_key_def)
  ultimately have safe: "line_safe k" by (auto simp: line_safe_def is_ascii_def list_all_iff)
  have "split_on CHR ''/'' k = split_on CHR ''/'' (encodeFieldPath p @ CHR ''/'' # knd @ CHR ''/'' # value) @ [d]"
    using split_on_no_sep [OF isTTID_no_slash [OF assms(1)]]
      split_on_append_sep [of "CHR ''/''" "encodeFieldPath p @ CHR ''/'' # knd @ CHR ''/'' # value" d]
    by (simp add: k full_key_def)
  then show d: "key_doc k = d" by (simp add: key_doc_def)
  show "good_key k" using safe d assms(1) by (simp add: good_key_def)
qed

lemma entries_good:
  assumes "isTTID d" and "entriesForDocument h d data = Inr keys"
  shows "\<forall>k\<in>set keys. good_key k \<and> key_doc k = d"
proof -
  obtain b where b: "walk h d [] data ([], []) = Inr b" "keys = foldl push_new [] (fst b @ snd b)"
    using assms(2) by (auto simp: entriesForDocument_def split: prod.splits elim!: bind_result_InrE)
  have "doc_keys d b" using walk_doc_keys(1) [OF b(1) assms(1)] by (simp add: doc_keys_def)
  then show ?thesis
    using doc_key_good [OF assms(1)] unfolding b(2) push_new_fold doc_keys_def by auto
qed


subsection \<open>Searching the index\<close>

text \<open>The documents the planned prefixes select from a set of keys.\<close>

definition selected :: "string \<Rightarrow> query_prefix list \<Rightarrow> string set \<Rightarrow> string set" where
  "selected fieldPath entries keys =
     {d. \<forall>e\<in>set entries. \<exists>k\<in>keys. key_matches fieldPath e k \<and> key_doc k = d}"

definition plan_agrees :: "'f core \<Rightarrow> bytes \<Rightarrow> string \<Rightarrow> query_prefix list \<Rightarrow> bool" where
  "plan_agrees env bs fieldPath entries \<longleftrightarrow>
     (\<forall>e\<in>set entries. scanner_agrees env bs (index_prefix fieldPath (kind e) (valuePrefix e))
        (index_prefix fieldPath (kind e) []) (range e))"

lemma intersect_set: "set (intersect current next) = (case current of None \<Rightarrow> set next | Some c \<Rightarrow> set c \<inter> set next)"
  by (auto simp: intersect_def split: option.split)

lemma map_sum_set_Inr:
  "map_sum (\<lambda>e. e) set r = map_sum (\<lambda>e. e) set (Inr js) \<Longrightarrow> \<exists>ids. r = Inr ids \<and> set ids = set js"
  by (cases r) auto

lemma overlay_sets:
  "set (added (foldl overlay_mutation empty_overlay ms)) \<subseteq> snd ` set ms"
  "set (removed (foldl overlay_mutation empty_overlay ms)) \<subseteq> snd ` set ms"
proof (induction ms rule: rev_induct)
  case (snoc m ms)
  { case 1 with snoc show ?case
      by (cases m; cases "fst m") (auto simp: overlay_mutation_def push_new_props) }
  { case 2 with snoc show ?case
      by (cases m; cases "fst m") (auto simp: overlay_mutation_def push_new_props) }
qed (simp_all add: empty_overlay_def)

lemma merged_apply: "merged_keys ks (foldl overlay_mutation empty_overlay ms) = set (foldl apply_mutation ks ms)"
  by (simp add: merged_keys_def overlay_agrees)

lemma prefix_ids_run:
  assumes "\<forall>k\<in>set ks. good_key k" and "\<forall>(op, k)\<in>set ms. good_key k" and "sorted ks"
    and "whole_documents ks (foldl overlay_mutation empty_overlay ms)"
    and agrees: "scanner_agrees env (serializeSnapshot ks) (index_prefix fp (kind e) (valuePrefix e))
        (index_prefix fp (kind e) []) (range e)"
  shows "\<exists>ids v. prefix_ids env c fp (serializeSnapshot ks) (foldl overlay_mutation empty_overlay ms) e w = (Inr ids, v) \<and>
    same_state v w \<and> set ids = key_doc ` {k \<in> set (foldl apply_mutation ks ms). key_matches fp e k}"
proof -
  let ?ov = "foldl overlay_mutation empty_overlay ms"
  have good: "\<forall>k\<in>set ks \<union> set (removed ?ov) \<union> set (added ?ov). good_key k"
    using assms(1,2) overlay_sets [of ms] by fastforce
  obtain js where js: "scanSnapshotWithJavaScript (serializeSnapshot ks) (index_prefix fp (kind e) (valuePrefix e))
      (index_prefix fp (kind e) []) (range e) = Inr js" "set js = key_doc ` {k \<in> set ks. key_matches fp e k}"
    using javascript_scan_exact [OF assms(1,3), of fp e] by (auto simp: javascript_scan_def)
  obtain r v where rv: "scan_snapshot env c (serializeSnapshot ks) (index_prefix fp (kind e) (valuePrefix e))
      (index_prefix fp (kind e) []) (range e) w = (r, v)" by fastforce
  have sv: "same_state v w" and "map_sum (\<lambda>e. e) set r = map_sum (\<lambda>e. e) set (Inr js)"
    using scan_snapshot_run [OF agrees, of c w] rv js(1) by simp_all
  then obtain next0 where r: "r = Inr next0" "set next0 = key_doc ` {k \<in> set ks. key_matches fp e k}"
    using map_sum_set_Inr js(2) by metis
  from overlay_merge [OF good assms(4) r(2)] obtain ids where
    ids: "bind_result (overlay_ids (index_prefix fp (kind e) (valuePrefix e))
        (index_prefix fp (kind e) []) (range e) (\<lambda>ids d. removeAll d ids) (removed ?ov) next0)
      (overlay_ids (index_prefix fp (kind e) (valuePrefix e))
        (index_prefix fp (kind e) []) (range e) push_new (added ?ov)) = Inr ids"
    "set ids = key_doc ` {k \<in> merged_keys ks ?ov. key_matches fp e k}" by blast
  have "prefix_ids env c fp (serializeSnapshot ks) ?ov e w = (Inr ids, v)"
    using rv r(1) ids(1) by (simp add: prefix_ids_def Let_def bind_op_def)
  with sv ids(2) show ?thesis by (auto simp: merged_apply)
qed

lemma search_fold:
  assumes "\<forall>k\<in>set ks. good_key k" and "\<forall>(op, k)\<in>set ms. good_key k" and "sorted ks"
    and "whole_documents ks (foldl overlay_mutation empty_overlay ms)"
  shows "plan_agrees env (serializeSnapshot ks) fp entries \<Longrightarrow>
    \<exists>res v. fold_op (search_step env c fp (serializeSnapshot ks) (foldl overlay_mutation empty_overlay ms)) entries cands w = (Inr res, v) \<and> same_state v w \<and>
      (case res of None \<Rightarrow> entries = [] \<and> cands = None
       | Some ids \<Rightarrow> set ids = (case cands of None \<Rightarrow> UNIV | Some ds \<Rightarrow> set ds) \<inter>
           selected fp entries (set (foldl apply_mutation ks ms)) \<and> (entries = [] \<longrightarrow> cands \<noteq> None))"
proof (induction entries arbitrary: cands w)
  case Nil
  then show ?case by (auto simp: selected_def split: option.split)
next
  case (Cons e entries)
  have a: "scanner_agrees env (serializeSnapshot ks) (index_prefix fp (kind e) (valuePrefix e))
        (index_prefix fp (kind e) []) (range e)" "plan_agrees env (serializeSnapshot ks) fp entries"
    using Cons.prems by (simp_all add: plan_agrees_def)
  obtain ids v where v: "prefix_ids env c fp (serializeSnapshot ks) (foldl overlay_mutation empty_overlay ms) e w = (Inr ids, v)"
    "same_state v w" "set ids = key_doc ` {k \<in> set (foldl apply_mutation ks ms). key_matches fp e k}"
    using prefix_ids_run [OF assms a(1)] by blast
  from Cons.IH [OF a(2), of "Some (intersect cands ids)" v] obtain res u where
    u: "fold_op (search_step env c fp (serializeSnapshot ks) (foldl overlay_mutation empty_overlay ms)) entries (Some (intersect cands ids)) v = (Inr (Some res), u)"
    "same_state u v" "set res = set (intersect cands ids) \<inter> selected fp entries (set (foldl apply_mutation ks ms))"
    by (auto split: option.splits)
  have "set res = (case cands of None \<Rightarrow> UNIV | Some ds \<Rightarrow> set ds) \<inter>
      selected fp (e # entries) (set (foldl apply_mutation ks ms))"
    unfolding u(3) intersect_set v(3) by (auto simp: selected_def split: option.split)
  moreover have "search_step env c fp (serializeSnapshot ks) (foldl overlay_mutation empty_overlay ms) e cands w =
      (Inr (Some (intersect cands ids)), v)"
    using v(1) by (simp add: search_step_def bind_op_def)
  ultimately show ?case using u(1,2) v(2) same_state_trans [OF u(2) v(2)] by (auto simp: bind_op_def)
qed

lemma index_at_same:
  assumes "index_at iv af ad rs c ks ms w" and "same_state v w"
  shows "index_at iv af ad rs c ks ms v" and "index_frame af ad rs c w v"
  using assms by (simp_all add: index_at_def same_state_def index_coherent_def index_frame_def)

context fylo_tree
begin

lemma candidates_at:
  assumes env: "index_env env rs c" "fs env = ops" and at: "at rs c ks ms w"
    and whole: "whole_documents ks (foldl overlay_mutation empty_overlay ms)"
    and plan: "queryPrefixes (digest env) operand = Inr (Some entries)"
    and agrees: "plan_agrees env (serializeSnapshot ks) fp entries"
  shows "\<exists>res v. candidateDocIds env c fp operand w = (Inr res, v) \<and> at rs c ks ms v \<and> frame rs c w v \<and>
    (case res of None \<Rightarrow> entries = [] | Some ids \<Rightarrow> set ids = selected fp entries (set (foldl apply_mutation ks ms)))"
proof -
  obtain w1 where w1: "index_ensureCollection env c w = (Inr (), w1)" "at rs c ks ms w1" "frame rs c w w1"
    using ensure_at [OF env at] by blast
  obtain w2 where w2: "loadWalOverlay env c w1 = (Inr (foldl overlay_mutation empty_overlay ms), w2)" "at rs c ks ms w2" "frame rs c w1 w2"
    using loadWalOverlay_at [OF env w1(2)] by blast
  obtain w3 where w3: "readSnapshotBytes env c w2 = (Inr (serializeSnapshot ks), w3)" "at rs c ks ms w3" "frame rs c w2 w3"
    using readSnapshot_at [OF env w2(2)] by blast
  have good: "\<forall>k\<in>set ks. good_key k" "\<forall>(op, k)\<in>set ms. good_key k" "sorted ks"
    using at by (simp_all add: index_at_def index_holds_def)
  from search_fold [OF good whole agrees, of c None w3] obtain res v where
    v: "fold_op (search_step env c fp (serializeSnapshot ks) (foldl overlay_mutation empty_overlay ms)) entries None w3 = (Inr res, v)" "same_state v w3"
    "case res of None \<Rightarrow> entries = []
       | Some ids \<Rightarrow> set ids = selected fp entries (set (foldl apply_mutation ks ms))"
    by (auto split: option.splits)
  have "candidateDocIds env c fp operand w = (Inr res, v)"
    using plan w1(1) w2(1) w3(1) v(1) by (simp add: candidateDocIds_def bind_op_def seq_op_def)
  with v(3) index_at_same [OF w3(2) v(2)] index_frame_trans [OF w1(3) index_frame_trans [OF w2(3) w3(3)]]
    index_frame_trans show ?thesis by blast
qed

end


subsection \<open>The properties of the store\<close>

text \<open>C6. Appending to the index is exact: whatever the snapshot, the log and the caches hold, appending
  mutations succeeds, leaves every other file alone, and the files and caches then stand for the
  key set with the mutations applied in order, whether or not the log was compacted meanwhile.\<close>

theorem index_append_exact:
  assumes "index_env env rs c" and "fs env = memory_ops" and "index_at mem_inv mem_file mem_dirs rs c ks ms w"
    and "\<forall>(op, k)\<in>set ns. good_key k"
  shows "\<exists>v ks' ms'. appendMutations env c ns w = (Inr (), v) \<and> index_frame mem_file mem_dirs rs c w v \<and>
    index_at mem_inv mem_file mem_dirs rs c ks' ms' v \<and>
    set (foldl apply_mutation ks' ms') = set (foldl apply_mutation (foldl apply_mutation ks ms) ns)"
proof -
  obtain v where v: "appendMutations env c ns w = (Inr (), v)" "index_frame mem_file mem_dirs rs c w v"
    "index_at mem_inv mem_file mem_dirs rs c ks (ms @ ns) v \<or>
     index_at mem_inv mem_file mem_dirs rs c (sort (foldl apply_mutation ks (ms @ ns))) [] v"
    using mem.appendMutations_at [OF assms] by blast
  from v(3) show ?thesis
  proof
    assume "index_at mem_inv mem_file mem_dirs rs c ks (ms @ ns) v"
    with v(1,2) show ?thesis by (intro exI [of _ v] exI [of _ ks] exI [of _ "ms @ ns"]) simp
  next
    assume "index_at mem_inv mem_file mem_dirs rs c (sort (foldl apply_mutation ks (ms @ ns))) [] v"
    with v(1,2) show ?thesis
      by (intro exI [of _ v] exI [of _ "sort (foldl apply_mutation ks (ms @ ns))"] exI [of _ "[]"]) simp
  qed
qed

text \<open>The world of the witnesses: an empty filesystem, before the first use of the index.\<close>

definition demo_core :: "memory_fs core" where
  "demo_core = \<lparr> fs = memory_ops, root = ''/db'', wormMode = ''off'', digest = (\<lambda>b. b), indexScannerFactory = None,
     ttid_code = (\<lambda>_. ''4VLN5QUCDP0'') \<rparr>"

definition demo_world :: "memory_fs world" where
  "demo_world = new_world (new_memory_fs 0) (\<lambda>_. 0)"

lemma demo_env: "index_env demo_core [''db''] ''users''" "fs demo_core = memory_ops"
proof -
  have "plain_segment ''db''" by (simp add: plain_segment_def isMeaningful_def)
  moreover have "validateCollectionName ''users'' = Inr ()" by code_simp
  ultimately show "index_env demo_core [''db''] ''users''" "fs demo_core = memory_ops"
    by (simp_all add: index_env_def demo_core_def abs_path_def)
qed

lemma demo_at: "index_at mem_inv mem_file mem_dirs [''db''] ''users'' [] [] demo_world"
proof -
  have i: "mem_inv (new_memory_fs 0)" by (rule mem_inv_new)
  have f: "mem_file (new_memory_fs 0) q = None" for q by (simp add: mem_file_def new_memory_fs_def)
  have d: "mem_dirs (new_memory_fs 0) = {''/''}" by (simp add: mem_dirs_def new_memory_fs_def)
  have "index_path [''db''] ''users'' n \<noteq> ''/''" for n
    by (auto simp: index_path_def index_dir_def abs_path_def)
  with i f d show ?thesis
    by (simp add: index_at_def demo_world_def new_world_def index_room_def index_holds_def old_bytes_def
        serializeSnapshot_def serializeWal_def index_coherent_def new_index_state_def)
qed

theorem index_append_exact_witness:
  "\<exists>v ks ms. appendMutations demo_core ''users'' [(Put, ''a/eq/1/4VLN5QUCDP0'')] demo_world = (Inr (), v) \<and>
    index_at mem_inv mem_file mem_dirs [''db''] ''users'' ks ms v \<and>
    set (foldl apply_mutation ks ms) = {''a/eq/1/4VLN5QUCDP0''}"
proof -
  have "isTTID ''4VLN5QUCDP0''" by code_simp
  then have "good_key ''a/eq/1/4VLN5QUCDP0''" by (simp add: good_key_def key_doc_def line_safe_def)
  then have "\<forall>(op, k)\<in>set [(Put, ''a/eq/1/4VLN5QUCDP0'')]. good_key k" by simp
  from index_append_exact [OF demo_env demo_at this] show ?thesis
    by (auto simp: apply_mutation_def push_new_def)
qed

text \<open>Compaction changes no answer: it succeeds, leaves every other file alone, empties the log, and
  the new sorted snapshot alone stands for the same keys.\<close>

theorem index_compaction_exact:
  assumes "index_env env rs c" and "fs env = memory_ops" and "index_at mem_inv mem_file mem_dirs rs c ks ms w"
  shows "\<exists>v ks'. compact env c w = (Inr (), v) \<and> index_frame mem_file mem_dirs rs c w v \<and>
    index_at mem_inv mem_file mem_dirs rs c ks' [] v \<and> set ks' = set (foldl apply_mutation ks ms)"
  using mem.compact_at [OF assms] by (metis set_sort)

theorem index_compaction_exact_witness:
  "\<exists>v ks. compact demo_core ''users'' demo_world = (Inr (), v) \<and>
    index_at mem_inv mem_file mem_dirs [''db''] ''users'' ks [] v \<and> set ks = {}"
  using index_compaction_exact [OF demo_env demo_at] by auto

lemma query_plan_nonempty: "queryPrefixes h operand = Inr (Some entries) \<Longrightarrow> entries \<noteq> []"
  by (auto simp: queryPrefixes_def likeQueryPrefixes_def containsQueryPrefixes_def rangeQueryPrefixes_def Let_def
      split: if_splits option.splits jsval.splits)

text \<open>A document that was put is found: from any state of the index that stands for a key set, after
  \<open>putDocument\<close> has indexed a document, a search whose planned prefixes the document's own keys
  answer returns the document among its candidates, and the state still stands for a key set.\<close>

theorem put_then_candidate:
  assumes "index_env env rs c" and "fs env = memory_ops" and "index_at mem_inv mem_file mem_dirs rs c ks ms w"
    and "whole_documents ks (foldl overlay_mutation empty_overlay ms)"
    and "isTTID docId" and "index_finds (digest env) docId doc fieldPath operand = Some True"
    and "indexScannerFactory env = None"
  shows "\<exists>v u ids. putDocument env c docId doc w = (Inr (), v) \<and>
    candidateDocIds env c fieldPath operand v = (Inr (Some ids), u) \<and> docId \<in> set ids"
proof -
  obtain keys entries where ke: "entriesForDocument (digest env) docId doc = Inr keys"
    "queryPrefixes (digest env) operand = Inr (Some entries)"
    "\<forall>e\<in>set entries. \<exists>k\<in>set keys. answers fieldPath e k docId"
    using assms(6) by (auto simp: index_finds_def list_all_iff list_ex_iff split: sum.splits option.splits)
  let ?ns = "map (\<lambda>k. (Put, k)) keys"
  have good: "\<forall>k\<in>set keys. good_key k \<and> key_doc k = docId" by (rule entries_good [OF assms(5) ke(1)])
  then have "\<forall>(op, k)\<in>set ?ns. good_key k" by auto
  from mem.appendMutations_at [OF assms(1-3) this] obtain v where
    v: "appendMutations env c ?ns w = (Inr (), v)"
      "index_at mem_inv mem_file mem_dirs rs c ks (ms @ ?ns) v \<or>
       index_at mem_inv mem_file mem_dirs rs c (sort (foldl apply_mutation ks (ms @ ?ns))) [] v" by blast
  have put: "putDocument env c docId doc w = (Inr (), v)" using ke(1) v(1) by (simp add: putDocument_def bind_op_def)
  have grows: "set (removed (foldl overlay_mutation ov ?ns)) = set (removed ov) - set keys \<and>
     set (added (foldl overlay_mutation ov ?ns)) = set (added ov) \<union> set keys" for ov
    by (induction keys arbitrary: ov) (auto simp: overlay_mutation_def push_new_props)
  have whole: "whole_documents ks (foldl overlay_mutation empty_overlay (ms @ ?ns))"
    using assms(4) grows [of "foldl overlay_mutation empty_overlay ms"] by (auto simp: whole_documents_def)
  have whole0: "whole_documents ks' (foldl overlay_mutation empty_overlay [])" for ks'
    by (simp add: whole_documents_def empty_overlay_def)
  have plan: "plan_agrees env bs fieldPath entries" for bs
    using assms(7) by (simp add: plan_agrees_def scanner_agrees_def)
  have puts: "set keys \<subseteq> set (foldl apply_mutation ks' ?ns)" for ks'
    using push_new_fold [of ks' keys] by (simp add: foldl_map apply_mutation_def)
  have sel: "docId \<in> selected fieldPath entries K" if "set keys \<subseteq> K" for K
    using that ke(3) good unfolding selected_def answers_def key_matches_def by fastforce
  have "\<exists>res u. candidateDocIds env c fieldPath operand v = (Inr res, u) \<and>
      (case res of None \<Rightarrow> False | Some ids \<Rightarrow> docId \<in> set ids)"
    using v(2)
  proof
    assume at: "index_at mem_inv mem_file mem_dirs rs c ks (ms @ ?ns) v"
    from mem.candidates_at [OF assms(1,2) at whole ke(2) plan] sel puts [of "foldl apply_mutation ks ms"] query_plan_nonempty [OF ke(2)]
    show ?thesis by (fastforce split: option.splits)
  next
    assume at: "index_at mem_inv mem_file mem_dirs rs c (sort (foldl apply_mutation ks (ms @ ?ns))) [] v"
    from mem.candidates_at [OF assms(1,2) at whole0 ke(2) plan] sel puts [of "foldl apply_mutation ks ms"] query_plan_nonempty [OF ke(2)]
    show ?thesis by (fastforce split: option.splits)
  qed
  then obtain res u where "candidateDocIds env c fieldPath operand v = (Inr res, u)"
    "case res of None \<Rightarrow> False | Some ids \<Rightarrow> docId \<in> set ids" by blast
  with put show ?thesis by (cases res) auto
qed

theorem put_then_candidate_witness:
  "\<exists>v u ids. putDocument demo_core ''users'' ''4VLN5QUCDP0'' [(''a'', JStr ''x'')] demo_world = (Inr (), v) \<and>
    candidateDocIds demo_core ''users'' ''a'' (JObj [(''$eq'', JStr ''x'')]) v = (Inr (Some ids), u) \<and>
    ''4VLN5QUCDP0'' \<in> set ids"
proof -
  have t: "isTTID ''4VLN5QUCDP0''" by code_simp
  have "index_finds (\<lambda>b. b) ''4VLN5QUCDP0'' [(''a'', JStr ''x'')] ''a'' (JObj [(''$eq'', JStr ''x'')]) = Some True"
    by code_simp
  then have f: "index_finds (digest demo_core) ''4VLN5QUCDP0'' [(''a'', JStr ''x'')] ''a'' (JObj [(''$eq'', JStr ''x'')]) = Some True"
    by (simp add: demo_core_def)
  have "whole_documents [] (foldl overlay_mutation empty_overlay [])" by (simp add: whole_documents_def)
  from put_then_candidate [OF demo_env demo_at this t f] show ?thesis by (simp add: demo_core_def)
qed

text \<open>A torn log swallows the next mutation: when the last line of the log was left incomplete, the
  first mutation appended after the restart continues that line and is never read back; the
  mutations after it are.\<close>

theorem torn_log_swallows_next:
  assumes "\<forall>(op, k)\<in>set (ms @ (op, key) # ns). line_safe k" and "torn \<noteq> []" and "newline \<notin> set torn"
    and "CHR 0x0D \<notin> set torn"
  shows "\<exists>glued. parse_wal ((serializeWal ms @ torn) @ serializeWal ((op, key) # ns)) = ms @ glued @ ns \<and>
    (op, key) \<notin> set glued"
proof -
  let ?lines = "\<lambda>ms. map (\<lambda>(op, key). wal_sign op # CHR 0x09 # key) ms"
  let ?g = "torn @ wal_sign op # CHR 0x09 # key"
  have sign: "wal_sign x \<noteq> newline" "wal_sign x \<noteq> CHR 0x0D" "wal_sign x \<noteq> CHR 0x09" for x
    by (cases x; simp add: wal_sign_def)+
  have safe: "\<forall>l\<in>set (?lines ms @ ?g # ?lines ns). l \<noteq> [] \<and> newline \<notin> set l \<and> CHR 0x0D \<notin> set l"
    using assms(1,3,4) sign by (fastforce simp: line_safe_def)
  have tx: "(serializeWal ms @ torn) @ serializeWal ((op, key) # ns) = lines_text (?lines ms @ ?g # ?lines ns) @ []"
    by (simp add: serializeWal_lines)
  have cl: "completeLines ((serializeWal ms @ torn) @ serializeWal ((op, key) # ns)) = ?lines ms @ ?g # ?lines ns"
    unfolding tx by (rule completeLines_torn [OF safe]) simp
  have reads: "concat (map (\<lambda>line. case parseWalMutation line of Some m \<Rightarrow> [m] | None \<Rightarrow> []) (?lines xs)) = xs"
    if "\<forall>(op, k)\<in>set xs. line_safe k" for xs
    using that
  proof (induction xs)
    case (Cons m xs)
    obtain o1 k where "m = (o1, k)" by fastforce
    with Cons show ?case by (cases o1) (auto simp: parseWalMutation_def wal_sign_def line_safe_def)
  qed simp
  have glued: "parseWalMutation ?g \<noteq> Some (op, key)"
  proof (cases torn)
    case (Cons a t)
    show ?thesis
    proof (cases t)
      case Nil
      with Cons sign show ?thesis by (auto simp: parseWalMutation_def)
    next
      case (Cons b t')
      have "length (t' @ wal_sign op # CHR 0x09 # key) \<noteq> length key" by simp
      then have "t' @ wal_sign op # CHR 0x09 # key \<noteq> key" by metis
      with Cons \<open>torn = a # t\<close> show ?thesis by (auto simp: parseWalMutation_def)
    qed
  qed (use assms(2) in simp)
  have "parse_wal ((serializeWal ms @ torn) @ serializeWal ((op, key) # ns)) =
      ms @ (case parseWalMutation ?g of Some m \<Rightarrow> [m] | None \<Rightarrow> []) @ ns"
    unfolding parse_wal_def cl using reads [of ms] reads [of ns] assms(1) by simp
  with glued show ?thesis by (auto split: option.splits)
qed

theorem torn_log_swallows_next_witness:
  "parse_wal ((serializeWal [] @ ''+'') @ serializeWal [(Put, ''b/eq/2/Y''), (Put, ''c/eq/3/Z'')]) = [(Put, ''c/eq/3/Z'')]"
proof -
  have "\<forall>(op, k)\<in>set ([] @ (Put, ''b/eq/2/Y'') # [(Put, ''c/eq/3/Z'')]). line_safe k" by (simp add: line_safe_def)
  from torn_log_swallows_next [OF this, of "''+''"] have "\<exists>glued. parse_wal ((serializeWal [] @ ''+'') @
      serializeWal ((Put, ''b/eq/2/Y'') # [(Put, ''c/eq/3/Z'')])) = [] @ glued @ [(Put, ''c/eq/3/Z'')]" by auto
  moreover have "length (parse_wal ((serializeWal [] @ ''+'') @ serializeWal [(Put, ''b/eq/2/Y''), (Put, ''c/eq/3/Z'')])) = 1"
    by code_simp
  ultimately show ?thesis by auto
qed

end
