(* ===== verification/DocStore.thy ===== *)
theory DocStore imports Engine IndexStore begin

section \<open>The store of a collection\<close>

text \<open>
  What a collection promises its callers, stated on an abstract view: a map of live documents, a
  map of tombstones, and an index that stands for exactly the keys of the live documents.  First
  the positions of the layout: where directories are and where files are.  Then the lemmas that
  run each operation of \<open>BrowserDocuments\<close> and \<open>BrowserCore\<close> on that view.
\<close>

subsection \<open>Positions\<close>

definition coll_dir :: "string list \<Rightarrow> string \<Rightarrow> string list" where
  "coll_dir rs c = rs @ [''.collections'', c]"

definition tree_names :: "string set" where
  "tree_names = {''docs'', ''.deleted'', ''.metadata''}"

definition journal_name :: "string \<Rightarrow> string" where
  "journal_name c = c @ ''.ndjson''"

text \<open>The deepest directories, and the files with the directory they are in.\<close>

definition dir_tops :: "string list \<Rightarrow> string \<Rightarrow> string list set" where
  "dir_tops rs c = {coll_dir rs c @ [''events''], coll_dir rs c @ [''index'']} \<union>
     {coll_dir rs c @ [t, s] | t s. t \<in> tree_names \<and> plain_segment s}"

definition dir_positions :: "string list \<Rightarrow> string \<Rightarrow> string set" where
  "dir_positions rs c = {abs_path ss | ss t. t \<in> dir_tops rs c \<and> prefix ss t}"

definition file_tops :: "string list \<Rightarrow> string \<Rightarrow> (string list \<times> string) set" where
  "file_tops rs c = {(coll_dir rs c @ [t, s], f) | t s f. t \<in> tree_names \<and> plain_segment s \<and> plain_segment f} \<union>
     {(coll_dir rs c @ [''events''], journal_name c)} \<union>
     {(coll_dir rs c @ [''index''], n) | n. n \<in> {LOCAL_FS_MANIFEST, LOCAL_FS_SNAPSHOT, LOCAL_FS_WAL}}"

definition file_positions :: "string list \<Rightarrow> string \<Rightarrow> string set" where
  "file_positions rs c = {abs_path (d @ [f]) | d f. (d, f) \<in> file_tops rs c}"

definition layout :: "string set \<Rightarrow> string set \<Rightarrow> bool" where
  "layout DP FP \<longleftrightarrow> DP \<inter> FP = {} \<and> DP \<union> FP \<subseteq> abs_paths \<and> (\<forall>p\<in>DP \<union> FP. ancestors p \<subseteq> DP)"

lemma plain_tree_names [simp]:
  "plain_segment ''docs''" "plain_segment ''.deleted''" "plain_segment ''.metadata''" "plain_segment ''events''"
  by (simp_all add: plain_segment_def isMeaningful_def)

lemma plain_tree_name: "t \<in> tree_names \<Longrightarrow> plain_segment t"
  by (auto simp: tree_names_def)

lemma plain_journal_name: "plain_segment c \<Longrightarrow> plain_segment (journal_name c)"
  by (cases c; cases "tl c") (auto simp: plain_segment_def isMeaningful_def journal_name_def)

lemma coll_dir_plain: "index_env env rs c \<Longrightarrow> plain_segments (coll_dir rs c)"
  using index_env_plain [of env rs c] by (simp add: coll_dir_def)

lemma dir_tops_plain: "index_env env rs c \<Longrightarrow> t \<in> dir_tops rs c \<Longrightarrow> plain_segments t"
  using coll_dir_plain [of env rs c] by (auto simp: dir_tops_def dest: plain_tree_name)

lemma file_tops_plain:
  "index_env env rs c \<Longrightarrow> (d, f) \<in> file_tops rs c \<Longrightarrow> d \<in> dir_tops rs c \<and> plain_segment f"
  using index_env_plain(2) [of env rs c]
  by (auto simp: file_tops_def dir_tops_def plain_journal_name)

lemma file_top_no_prefix: "(d, f) \<in> file_tops rs c \<Longrightarrow> t \<in> dir_tops rs c \<Longrightarrow> \<not> prefix (d @ [f]) t"
  by (auto simp: file_tops_def dir_tops_def tree_names_def)

lemma collection_layout:
  assumes env: "index_env env rs c"
  shows "layout (dir_positions rs c) (file_positions rs c)"
proof -
  note pl = dir_tops_plain [OF env] file_tops_plain [OF env]
  have pp: "plain_segments ss" if "prefix ss t" "t \<in> dir_tops rs c" for ss t
    using pl(1) [OF that(2)] that(1) by (auto simp: prefix_def plain_segments_def)
  have 1: "dir_positions rs c \<inter> file_positions rs c = {}"
  proof (rule ccontr)
    assume "dir_positions rs c \<inter> file_positions rs c \<noteq> {}"
    then obtain ss t d f where *: "t \<in> dir_tops rs c" "prefix ss t" "(d, f) \<in> file_tops rs c"
      "abs_path ss = abs_path (d @ [f])"
      by (auto simp: dir_positions_def file_positions_def)
    moreover have "plain_segments (d @ [f])" using pl(2) [OF *(3)] pl(1) [of d] by simp
    ultimately have "ss = d @ [f]" using pp by simp
    with * file_top_no_prefix show False by blast
  qed
  have 2: "dir_positions rs c \<union> file_positions rs c \<subseteq> abs_paths"
  proof -
    have "plain_segments (d @ [f])" if "(d, f) \<in> file_tops rs c" for d f
      using pl(2) [OF that] pl(1) [of d] by simp
    then show ?thesis using pp by (force simp: dir_positions_def file_positions_def)
  qed
  have anc: "ancestors (abs_path ss) \<subseteq> dir_positions rs c" if "prefix ss t" "t \<in> dir_tops rs c" for ss t
  proof -
    have "prefix (take n ss) t" for n using that(1) take_is_prefix [of n ss] prefix_order.trans by blast
    then show ?thesis using that pp [OF that] by (auto simp: ancestors_abs_path dir_positions_def)
  qed
  have "ancestors p \<subseteq> dir_positions rs c" if p: "p \<in> dir_positions rs c \<union> file_positions rs c" for p
  proof (cases "p \<in> dir_positions rs c")
    case True
    then show ?thesis using anc by (auto simp: dir_positions_def)
  next
    case False
    with p obtain d f where *: "p = abs_path (d @ [f])" "(d, f) \<in> file_tops rs c" by (auto simp: file_positions_def)
    have d: "d \<in> dir_tops rs c" "plain_segments (d @ [f])" using pl(2) [OF *(2)] pl(1) [of d] by simp_all
    show ?thesis
      using ancestors_snoc [OF d(2)] anc [of d d] d(1) *(1) by (auto simp: dir_positions_def)
  qed
  with 1 2 show ?thesis by (simp add: layout_def)
qed

lemma layoutD:
  assumes "layout DP FP"
  shows "p \<in> FP \<Longrightarrow> p \<in> abs_paths \<and> p \<notin> DP \<and> ancestors p \<subseteq> DP \<and> ancestors p \<inter> FP = {}"
    and "p \<in> DP \<Longrightarrow> p \<in> abs_paths \<and> self_and_ancestors p \<subseteq> DP \<and> self_and_ancestors p \<inter> FP = {}"
  using assms unfolding layout_def self_and_ancestors_def by blast+

subsection \<open>Running the host on a layout\<close>

text \<open>No file stands where the layout has a directory, and no directory where it has a file.\<close>

definition tree_at :: "('f \<Rightarrow> bool) \<Rightarrow> ('f \<Rightarrow> string \<Rightarrow> bytes option) \<Rightarrow> ('f \<Rightarrow> string set) \<Rightarrow>
    string set \<Rightarrow> string set \<Rightarrow> 'f world \<Rightarrow> bool" where
  "tree_at iv afile adir DP FP w \<longleftrightarrow>
     iv (disk w) \<and> (\<forall>p\<in>DP. afile (disk w) p = None) \<and> (\<forall>p\<in>FP. p \<notin> adir (disk w))"

context fylo_tree
begin

abbreviation tree :: "string set \<Rightarrow> string set \<Rightarrow> 'f world \<Rightarrow> bool" where
  "tree DP FP w \<equiv> tree_at inv afile adir DP FP w"

abbreviation content :: "'f world \<Rightarrow> string \<Rightarrow> bytes option" where
  "content w \<equiv> afile (disk w)"

abbreviation dirs :: "'f world \<Rightarrow> string set" where
  "dirs w \<equiv> adir (disk w)"

lemma tree_exists:
  assumes "layout DP FP" "tree DP FP w" "fs env = ops" "p \<in> FP"
  shows "w_exists env p w = (Inr (content w p \<noteq> None), w)"
proof -
  have p: "p \<in> abs_paths" "p \<notin> dirs w" "inv (disk w)" using assms by (auto simp: layout_def tree_at_def)
  have "\<forall>q\<in>ancestors p. content w q = None"
    using layoutD(1) [OF assms(1,4)] assms(2) by (auto simp: tree_at_def)
  with p assms(3) exists_spec [of "disk w" p] show ?thesis by (simp add: w_exists_def on_disk_same)
qed

lemma tree_read:
  assumes "layout DP FP" "tree DP FP w" "fs env = ops" "p \<in> FP" "content w p = Some (utf8_encode t)"
  shows "w_readText env p w = (Inr t, w)"
proof -
  have "p \<in> abs_paths" "inv (disk w)" using assms by (auto simp: layout_def tree_at_def)
  with assms(3,5) read_text_spec [of "disk w" p "utf8_encode t"] show ?thesis
    by (simp add: w_readText_def on_disk_same)
qed

lemma tree_mtime:
  assumes "layout DP FP" "tree DP FP w" "fs env = ops" "p \<in> FP" "content w p \<noteq> None"
  shows "\<exists>t. w_mtimeMs env p w = (Inr t, w)"
proof -
  have p: "p \<in> abs_paths" "inv (disk w)" using assms by (auto simp: layout_def tree_at_def)
  obtain t where "fs_mtimeMs ops p (disk w) = (Inr t, disk w)"
    using mtime_spec [OF p(2,1)] assms(5) by blast
  with assms(3) show ?thesis by (auto simp: w_mtimeMs_def on_disk_same)
qed

lemma tree_mkdir:
  assumes "layout DP FP" "tree DP FP w" "fs env = ops" "p \<in> DP"
  shows "\<exists>v. w_mkdir env p w = (Inr (), v) \<and> tree DP FP v \<and> only_disk w v \<and>
    content v = content w \<and> dirs v = dirs w \<union> self_and_ancestors p"
proof -
  have p: "p \<in> abs_paths" "inv (disk w)" "self_and_ancestors p \<subseteq> DP" "self_and_ancestors p \<inter> FP = {}"
    using layoutD(2) [OF assms(1,4)] assms(2) by (simp_all add: tree_at_def)
  then have "\<forall>q\<in>self_and_ancestors p. content w q = None" using assms(2) by (auto simp: tree_at_def)
  from mkdir_spec [OF p(2,1) this] obtain g where g: "fs_mkdir ops (clock w (ticks w)) p True (disk w) = (Inr (), g)"
    "inv g" "afile g = content w" "adir g = dirs w \<union> self_and_ancestors p" by blast
  then have "w_mkdir env p w = (Inr (), w\<lparr> ticks := Suc (ticks w), disk := g \<rparr>)"
    using assms(3) by (simp add: w_mkdir_def stamped_run)
  with g p assms(2) show ?thesis by (auto simp: tree_at_def only_disk_def)
qed

lemma tree_write:
  assumes "layout DP FP" "tree DP FP w" "fs env = ops" "p \<in> FP"
  shows "\<exists>v. w_writeText env p t w = (Inr (), v) \<and> tree DP FP v \<and> only_disk w v \<and>
    content v = (content w)(p \<mapsto> utf8_encode t) \<and> dirs v = dirs w \<union> ancestors p"
proof -
  have p: "p \<in> abs_paths" "inv (disk w)" "p \<notin> dirs w" "ancestors p \<subseteq> DP" "ancestors p \<inter> FP = {}" "p \<notin> DP"
    using layoutD(1) [OF assms(1,4)] assms(2,4) by (simp_all add: tree_at_def)
  then have "\<forall>q\<in>ancestors p. content w q = None" using assms(2) by (auto simp: tree_at_def)
  from write_text_spec [OF p(2,1,3) this] obtain g where g: "fs_writeText ops (clock w (ticks w)) p t (disk w) = (Inr (), g)"
    "inv g" "afile g = (content w)(p \<mapsto> utf8_encode t)" "adir g = dirs w \<union> ancestors p" by blast
  then have "w_writeText env p t w = (Inr (), w\<lparr> ticks := Suc (ticks w), disk := g \<rparr>)"
    using assms(3) by (simp add: w_writeText_def stamped_run)
  with g p assms(2) show ?thesis by (auto simp: tree_at_def only_disk_def)
qed

lemma tree_append:
  assumes "layout DP FP" "tree DP FP w" "fs env = ops" "p \<in> FP"
  shows "\<exists>v. w_appendText env p t w = (Inr (), v) \<and> tree DP FP v \<and> only_disk w v \<and>
    content v = (content w)(p \<mapsto> old_bytes (content w) p @ utf8_encode t) \<and> dirs v = dirs w \<union> ancestors p"
proof -
  have p: "p \<in> abs_paths" "inv (disk w)" "p \<notin> dirs w" "ancestors p \<subseteq> DP" "ancestors p \<inter> FP = {}" "p \<notin> DP"
    using layoutD(1) [OF assms(1,4)] assms(2,4) by (simp_all add: tree_at_def)
  then have "\<forall>q\<in>ancestors p. content w q = None" using assms(2) by (auto simp: tree_at_def)
  from append_text_spec [OF p(2,1,3) this] obtain g where g: "fs_appendText ops (clock w (ticks w)) p t (disk w) = (Inr (), g)"
    "inv g" "afile g = (content w)(p \<mapsto> old_bytes (content w) p @ utf8_encode t)" "adir g = dirs w \<union> ancestors p"
    unfolding old_bytes_def by blast
  then have "w_appendText env p t w = (Inr (), w\<lparr> ticks := Suc (ticks w), disk := g \<rparr>)"
    using assms(3) by (simp add: w_appendText_def stamped_run)
  with g p assms(2) show ?thesis by (auto simp: tree_at_def only_disk_def)
qed

lemma tree_remove:
  assumes "layout DP FP" "tree DP FP w" "fs env = ops" "p \<in> FP" "content w p \<noteq> None"
  shows "\<exists>v. w_remove env p w = (Inr (), v) \<and> tree DP FP v \<and> only_disk w v \<and>
    content v = (content w)(p := None) \<and> dirs v = dirs w"
proof -
  have p: "p \<in> abs_paths" "inv (disk w)" "p \<notin> dirs w" using assms by (auto simp: layout_def tree_at_def)
  from remove_spec [OF p(2,1) assms(5)] obtain g where g: "fs_remove ops p (disk w) = (Inr (), g)"
    "inv g" "afile g = (content w)(p := None)" "adir g = dirs w" by blast
  then have "w_remove env p w = (Inr (), w\<lparr> disk := g \<rparr>)"
    using assms(3) by (simp add: w_remove_def on_disk_run)
  with g p assms(2) show ?thesis by (auto simp: tree_at_def only_disk_def)
qed

end

subsection \<open>Places of documents\<close>

text \<open>\<open>place\<close> is where a record is, \<open>legacy_place\<close> where the layout before sharding had it.\<close>

definition doc_shard :: "string \<Rightarrow> string" where
  "doc_shard d = (case shardOf d JUndef of Inr s \<Rightarrow> s | Inl _ \<Rightarrow> [])"

definition legacy_shard :: "string \<Rightarrow> string" where
  "legacy_shard d = (case legacyShardOf d of Inr s \<Rightarrow> s | Inl _ \<Rightarrow> [])"

definition place :: "string list \<Rightarrow> string \<Rightarrow> string \<Rightarrow> string \<Rightarrow> string" where
  "place rs c t d = abs_path (coll_dir rs c @ [t, doc_shard d, d @ ''.json''])"

definition legacy_place :: "string list \<Rightarrow> string \<Rightarrow> string \<Rightarrow> string \<Rightarrow> string" where
  "legacy_place rs c t d = abs_path (coll_dir rs c @ [t, legacy_shard d, d @ ''.json''])"

lemma alnum_no_dots: "list_all is_alnum s \<Longrightarrow> \<not> starts_with ''..'' s"
  by (cases s) (auto dest: alnum_not_slash_dot)

lemma doc_shards:
  assumes "isTTID d"
  shows "shardOf d JUndef = Inr (doc_shard d)" "legacyShardOf d = Inr (legacy_shard d)"
    "plain_segment (doc_shard d)" "plain_segment (legacy_shard d)"
    "\<not> starts_with ''..'' (doc_shard d)" "\<not> starts_with ''..'' (legacy_shard d)"
proof -
  obtain s where s: "shardOf d JUndef = Inr s" using isTTID_shard [OF assms] by blast
  obtain l where l: "legacyShardOf d = Inr l" using isTTID_legacy [OF assms] by blast
  have la: "list_all is_alnum l"
    using l creationSegment_InrD(2) by (auto simp: legacyShardOf_def list_all_iff elim!: bind_result_InrE dest: in_set_takeD)
  show "shardOf d JUndef = Inr (doc_shard d)" "legacyShardOf d = Inr (legacy_shard d)"
    using s l by (simp_all add: doc_shard_def legacy_shard_def)
  show "plain_segment (doc_shard d)" "plain_segment (legacy_shard d)"
    using s l shardOf_plain legacyShardOf_plain by (simp_all add: doc_shard_def legacy_shard_def)
  show "\<not> starts_with ''..'' (doc_shard d)" "\<not> starts_with ''..'' (legacy_shard d)"
    using s l alnum_no_dots [OF shardOf_InrD(1) [OF s]] alnum_no_dots [OF la]
    by (simp_all add: doc_shard_def legacy_shard_def)
qed

lemma abs_path_starts: "starts_with ''/'' (abs_path ss)"
  by (simp add: abs_path_def)

lemma record_path_run:
  assumes ss: "plain_segments ss" and sh: "plain_segment sh" "\<not> starts_with ''..'' sh" and d: "isTTID d"
  shows "record_path (Inr (abs_path ss)) d (Inr sh) = Inr (abs_path (ss @ [sh, d @ ''.json'']))"
    and "assertPathInside (abs_path ss) (abs_path (ss @ [sh, d @ ''.json''])) = Inr ()"
proof -
  have f: "plain_segment (d @ ''.json'')" by (rule isTTID_file_plain [OF d])
  have j: "join3 (abs_path ss) sh (d @ ''.json'') = abs_path (ss @ [sh, d @ ''.json''])"
    using path_join_abs [of ss "[sh, d @ ''.json'']"] ss sh f by (simp add: join3_def)
  have "segments_of (abs_path ss) = ss" "segments_of (abs_path (ss @ [sh, d @ ''.json''])) = ss @ [sh, d @ ''.json'']"
    using ss sh f by (simp_all add: path_simps)
  then show i: "assertPathInside (abs_path ss) (abs_path (ss @ [sh, d @ ''.json''])) = Inr ()"
    using assertPathInside_abs [OF abs_path_starts abs_path_starts, of ss "ss @ [sh, d @ ''.json'']"] sh by auto
  show "record_path (Inr (abs_path ss)) d (Inr sh) = Inr (abs_path (ss @ [sh, d @ ''.json'']))"
    using i by (simp add: record_path_def j)
qed

lemma collection_roots:
  assumes env: "index_env env rs c"
  shows "collectionRoot env c = Inr (abs_path (coll_dir rs c))"
    "docsRoot env c = Inr (abs_path (coll_dir rs c @ [''docs'']))"
    "deletedRoot env c = Inr (abs_path (coll_dir rs c @ [''.deleted'']))"
    "metadata_root env c = Inr (abs_path (coll_dir rs c @ [''.metadata'']))"
    "journalPath env c = Inr (abs_path (coll_dir rs c @ [''events'', journal_name c]))"
proof -
  note p = coll_dir_plain [OF env]
  show r: "collectionRoot env c = Inr (abs_path (coll_dir rs c))"
    using collectionRoot_abs [OF env] by (simp add: coll_dir_def)
  show "docsRoot env c = Inr (abs_path (coll_dir rs c @ [''docs'']))"
    "deletedRoot env c = Inr (abs_path (coll_dir rs c @ [''.deleted'']))"
    "metadata_root env c = Inr (abs_path (coll_dir rs c @ [''.metadata'']))"
    using p r path_join_abs [OF p]
    by (simp_all add: docsRoot_def deletedRoot_def metadata_root_def metaRoot_def join2_def path_join_abs1)
  have "plain_segments [''events'', journal_name c]"
    using index_env_plain(2) [OF env] by (simp add: plain_journal_name)
  then show "journalPath env c = Inr (abs_path (coll_dir rs c @ [''events'', journal_name c]))"
    using r path_join_abs [OF p, of "[''events'', journal_name c]"] by (simp add: journalPath_def join3_def journal_name_def)
qed

lemma doc_paths:
  assumes env: "index_env env rs c" and d: "isTTID d"
  shows "docPath env c d = Inr (place rs c ''docs'' d)" "deletedPath env c d = Inr (place rs c ''.deleted'' d)"
    "t \<in> tree_names \<Longrightarrow> legacy_path (abs_path (coll_dir rs c @ [t])) d = Inr (legacy_place rs c t d)"
    "t \<in> tree_names \<Longrightarrow> assertPathInside (abs_path (coll_dir rs c @ [t])) (place rs c t d) = Inr ()"
    "t \<in> tree_names \<Longrightarrow> assertPathInside (abs_path (coll_dir rs c @ [t])) (legacy_place rs c t d) = Inr ()"
proof -
  note sh = doc_shards [OF d] and p = coll_dir_plain [OF env]
  have r: "record_path (Inr (abs_path (coll_dir rs c @ [t]))) d (Inr s) = Inr (abs_path (coll_dir rs c @ [t, s, d @ ''.json'']))"
    "assertPathInside (abs_path (coll_dir rs c @ [t])) (abs_path (coll_dir rs c @ [t, s, d @ ''.json''])) = Inr ()"
    if "t \<in> tree_names" "plain_segment s" "\<not> starts_with ''..'' s" for t s
    using record_path_run [OF _ that(2,3) d, of "coll_dir rs c @ [t]"] p plain_tree_name [OF that(1)] by simp_all
  show "docPath env c d = Inr (place rs c ''docs'' d)" "deletedPath env c d = Inr (place rs c ''.deleted'' d)"
    using r sh d by (simp_all add: docPath_def deletedPath_def validateDocId_def collection_roots [OF env] place_def tree_names_def)
  show "t \<in> tree_names \<Longrightarrow> legacy_path (abs_path (coll_dir rs c @ [t])) d = Inr (legacy_place rs c t d)"
    using r sh by (simp add: legacy_path_def legacy_place_def)
  show "t \<in> tree_names \<Longrightarrow> assertPathInside (abs_path (coll_dir rs c @ [t])) (place rs c t d) = Inr ()"
    "t \<in> tree_names \<Longrightarrow> assertPathInside (abs_path (coll_dir rs c @ [t])) (legacy_place rs c t d) = Inr ()"
    using r sh by (simp_all add: place_def legacy_place_def)
qed

lemma place_position:
  assumes "t \<in> tree_names" and "isTTID d"
  shows "place rs c t d \<in> file_positions rs c" "legacy_place rs c t d \<in> file_positions rs c"
proof -
  have "(coll_dir rs c @ [t, s], d @ ''.json'') \<in> file_tops rs c" if "plain_segment s" for s
    using assms(1) that isTTID_file_plain [OF assms(2)] by (auto simp: file_tops_def)
  then show "place rs c t d \<in> file_positions rs c" "legacy_place rs c t d \<in> file_positions rs c"
    using doc_shards [OF assms(2)] by (force simp: place_def legacy_place_def file_positions_def)+
qed

lemma place_eq:
  assumes env: "index_env env rs c" and "t \<in> tree_names" "t' \<in> tree_names" "isTTID d" "isTTID e"
  shows "place rs c t d = place rs c t' e \<longleftrightarrow> t = t' \<and> d = e"
    "legacy_place rs c t d = place rs c t' e \<longleftrightarrow> t = t' \<and> d = e \<and> legacy_shard d = doc_shard d"
    "legacy_place rs c t d = legacy_place rs c t' e \<longleftrightarrow> t = t' \<and> d = e"
  using doc_shards [OF assms(4)] doc_shards [OF assms(5)] coll_dir_plain [OF env] plain_tree_name assms(2,3)
    isTTID_file_plain [OF assms(4)] isTTID_file_plain [OF assms(5)]
  by (auto simp: place_def legacy_place_def)

subsection \<open>The abstract view\<close>

type_synonym live_map = "string \<Rightarrow> record_obj option"
type_synonym tomb_map = "string \<Rightarrow> (f64 \<times> record_obj) option"

definition doc_bytes :: "record_obj \<Rightarrow> bytes" where
  "doc_bytes ob = utf8_encode (json_text (JObj ob))"

definition tombstone :: "f64 \<Rightarrow> record_obj \<Rightarrow> record_obj" where
  "tombstone at ob = obj_put ob ''_deletedAt'' (JNum at)"

definition tomb_bytes :: "f64 \<times> record_obj \<Rightarrow> bytes" where
  "tomb_bytes t = doc_bytes (tombstone (fst t) (snd t))"

text \<open>A document that survives storage: it prints and reads back, and has no internal field.\<close>

definition doc_ok :: "record_obj \<Rightarrow> bool" where
  "doc_ok ob \<longleftrightarrow> json_safe (JObj ob) \<and> \<not> has_own ob ''_updatedAt'' \<and> \<not> has_own ob ''_deletedAt''"

definition docs_hold :: "string list \<Rightarrow> string \<Rightarrow> (string \<Rightarrow> bytes option) \<Rightarrow> live_map \<Rightarrow> tomb_map \<Rightarrow> bool" where
  "docs_hold rs c fm D T \<longleftrightarrow> (\<forall>d. isTTID d \<longrightarrow>
     fm (place rs c ''docs'' d) = map_option doc_bytes (D d) \<and>
     fm (place rs c ''.deleted'' d) = map_option tomb_bytes (T d) \<and>
     (legacy_shard d \<noteq> doc_shard d \<longrightarrow>
        fm (legacy_place rs c ''docs'' d) = None \<and> fm (legacy_place rs c ''.deleted'' d) = None))"

text \<open>Neither the clock nor the listeners notice.\<close>

definition quiet :: "'f world \<Rightarrow> 'f world \<Rightarrow> bool" where
  "quiet w v \<longleftrightarrow> clock v = clock w \<and> dispatched v = dispatched w"

lemma quiet_refl [simp]: "quiet w w"
  and quiet_trans [trans]: "quiet u v \<Longrightarrow> quiet v w \<Longrightarrow> quiet u w"
  by (simp_all add: quiet_def)

text \<open>The log removes documents as a whole: the condition under which searches are exact.\<close>

definition whole_log :: "string list \<Rightarrow> mutation list \<Rightarrow> bool" where
  "whole_log ks ms \<longleftrightarrow> whole_documents ks (foldl overlay_mutation empty_overlay ms)"

lemma whole_log_Nil [simp]: "whole_log ks []"
  by (simp add: whole_log_def whole_documents_def empty_overlay_def)

lemma overlay_puts:
  "set (removed (foldl overlay_mutation ov (map (\<lambda>k. (Put, k)) keys))) = set (removed ov) - set keys"
  "set (added (foldl overlay_mutation ov (map (\<lambda>k. (Put, k)) keys))) = set (added ov) \<union> set keys"
  by (induction keys arbitrary: ov) (auto simp: overlay_mutation_def push_new_props)

lemma overlay_dels:
  "set (removed (foldl overlay_mutation ov (map (\<lambda>k. (Del, k)) keys))) = set (removed ov) \<union> set keys"
  "set (added (foldl overlay_mutation ov (map (\<lambda>k. (Del, k)) keys))) = set (added ov) - set keys"
  by (induction keys arbitrary: ov) (auto simp: overlay_mutation_def push_new_props)

lemma whole_log_puts: "whole_log ks ms \<Longrightarrow> whole_log ks (ms @ map (\<lambda>k. (Put, k)) keys)"
  unfolding whole_log_def whole_documents_def foldl_append overlay_puts by blast

lemma whole_log_dels:
  assumes "whole_log ks ms" and own: "\<forall>k\<in>set keys. key_doc k = d"
    and all: "{k \<in> set (foldl apply_mutation ks ms). key_doc k = d} \<subseteq> set keys"
  shows "whole_log ks (ms @ map (\<lambda>k. (Del, k)) keys)"
proof -
  let ?ov = "foldl overlay_mutation empty_overlay ms"
  have K: "set (foldl apply_mutation ks ms) = (set ks - set (removed ?ov)) \<union> set (added ?ov)"
    by (simp add: merged_apply [symmetric] merged_keys_def)
  have w: "k' \<in> set (removed ?ov) \<union> set (added ?ov)"
    if "k \<in> set (removed ?ov)" "k' \<in> set ks" "key_doc k = key_doc k'" for k k'
    using assms(1) that by (auto simp: whole_log_def whole_documents_def)
  have "k' \<in> (set (removed ?ov) \<union> set keys) \<union> (set (added ?ov) - set keys)"
    if k: "k \<in> set (removed ?ov) \<union> set keys" "k' \<in> set ks" "key_doc k = key_doc k'" for k k'
  proof (cases "key_doc k' = d")
    case True
    then show ?thesis using all K k(2) by auto
  next
    case False
    then have "k \<notin> set keys" using own k(3) by auto
    with k w show ?thesis by auto
  qed
  then show ?thesis unfolding whole_log_def whole_documents_def foldl_append overlay_dels by blast
qed

definition base_at :: "('f \<Rightarrow> bool) \<Rightarrow> ('f \<Rightarrow> string \<Rightarrow> bytes option) \<Rightarrow> ('f \<Rightarrow> string set) \<Rightarrow> string list \<Rightarrow> string \<Rightarrow>
    live_map \<Rightarrow> tomb_map \<Rightarrow> string set \<Rightarrow> 'f world \<Rightarrow> bool" where
  "base_at iv afile adir rs c D T K w \<longleftrightarrow>
     tree_at iv afile adir (dir_positions rs c) (file_positions rs c) w \<and>
     docs_hold rs c (afile (disk w)) D T \<and> abs_path (coll_dir rs c) \<in> adir (disk w) \<and>
     (\<exists>ks ms. index_at iv afile adir rs c ks ms w \<and> whole_log ks ms \<and> set (foldl apply_mutation ks ms) = K)"

lemma canonical_snoc: "canonical_obj ob \<Longrightarrow> \<not> has_own ob k \<Longrightarrow> \<not> is_index_key k \<Longrightarrow> canonical_obj (ob @ [(k, v)])"
  by (simp add: canonical_obj_def obj_of_def obj_assign_def obj_put_def obj_insert_def)

lemma json_safe_obj_append: "json_safe_obj (xs @ ys) \<longleftrightarrow> json_safe_obj xs \<and> json_safe_obj ys"
  by (induction xs) auto

lemma internal_names [simp]: "\<not> is_index_key ''_deletedAt''" "\<not> is_index_key ''_updatedAt''"
  by (simp_all add: is_index_key_def is_digit_def Let_def)

lemma tombstone_append: "doc_ok ob \<Longrightarrow> tombstone at ob = ob @ [(''_deletedAt'', JNum at)]"
  by (simp add: tombstone_def doc_ok_def obj_put_def obj_insert_def)

lemma tombstone_safe: "doc_ok ob \<Longrightarrow> json_safe_number at \<Longrightarrow> json_safe (JObj (tombstone at ob))"
  by (simp add: tombstone_append) (simp add: doc_ok_def canonical_snoc json_safe_obj_append)

lemma strip_doc: "doc_ok ob \<Longrightarrow> stripInternalFields ob = ob"
  by (simp add: stripInternalFields_def doc_ok_def canonical_obj_def obj_delete_absent)

lemma strip_tombstone:
  assumes "doc_ok ob"
  shows "stripInternalFields (tombstone at ob) = ob"
proof -
  have "canonical_obj (tombstone at ob)"
    using assms canonical_snoc by (simp add: tombstone_append) (simp add: doc_ok_def)
  moreover have "\<not> has_own (tombstone at ob) ''_updatedAt''"
    using assms by (simp add: tombstone_def doc_ok_def)
  moreover have "obj_delete (tombstone at ob) ''_deletedAt'' = ob"
    using assms obj_delete_absent [of ob "''_deletedAt''"]
    by (simp add: tombstone_append) (simp add: doc_ok_def obj_delete_def)
  ultimately show ?thesis by (simp add: stripInternalFields_def canonical_obj_def obj_delete_absent)
qed

lemma parse_doc: "json_safe (JObj ob) \<Longrightarrow> parseJsonDocumentText (json_text (JObj ob)) = Inr ob"
  by (simp add: parseJsonDocumentText_def json_parse_text del: json_text.simps json_safe.simps)

lemma assert_doc: "json_safe (JObj ob) \<Longrightarrow> assertJsonDocumentText (json_stringify (JObj ob)) = Inr (json_text (JObj ob))"
  by (simp add: assertJsonDocumentText_def json_stringify_def parse_doc del: json_text.simps json_safe.simps)

lemma tree_name_in [simp]: "''docs'' \<in> tree_names" "''.deleted'' \<in> tree_names"
  by (simp_all add: tree_names_def)

lemma docs_holdD:
  assumes "docs_hold rs c fm D T" and "isTTID d"
  shows "fm (place rs c ''docs'' d) = map_option doc_bytes (D d)"
    "fm (place rs c ''.deleted'' d) = map_option tomb_bytes (T d)"
    "legacy_place rs c ''docs'' d \<noteq> place rs c ''docs'' d \<Longrightarrow> fm (legacy_place rs c ''docs'' d) = None"
    "legacy_place rs c ''.deleted'' d \<noteq> place rs c ''.deleted'' d \<Longrightarrow> fm (legacy_place rs c ''.deleted'' d) = None"
  using assms by (auto simp: docs_hold_def place_def legacy_place_def)

text \<open>Index files and the journal are no records.\<close>

lemma index_not_place:
  assumes env: "index_env env rs c" and t: "t \<in> tree_names" and d: "isTTID d"
  shows "place rs c t d \<notin> index_files rs c" "legacy_place rs c t d \<notin> index_files rs c"
    "place rs c t d \<noteq> abs_path (coll_dir rs c @ [''events'', journal_name c])"
    "legacy_place rs c t d \<noteq> abs_path (coll_dir rs c @ [''events'', journal_name c])"
    "abs_path (coll_dir rs c @ [''events'', journal_name c]) \<notin> index_files rs c"
    "abs_path (coll_dir rs c @ [''events'', journal_name c]) \<in> file_positions rs c"
    "index_files rs c \<subseteq> file_positions rs c"
proof -
  have c: "plain_segment (journal_name c)" using index_env_plain(2) [OF env] by (rule plain_journal_name)
  have ix: "index_path rs c n = abs_path (coll_dir rs c @ [''index'', n])" for n
    by (simp add: index_path_def index_dir_def coll_dir_def)
  have ne: "abs_path (coll_dir rs c @ [t, s, f]) \<noteq> abs_path (coll_dir rs c @ [x, y])"
    if "plain_segment s" "plain_segment f" "plain_segment x" "plain_segment y" for s f x y
    using that coll_dir_plain [OF env] plain_tree_name [OF t] by simp
  show "place rs c t d \<notin> index_files rs c" "legacy_place rs c t d \<notin> index_files rs c"
    "place rs c t d \<noteq> abs_path (coll_dir rs c @ [''events'', journal_name c])"
    "legacy_place rs c t d \<noteq> abs_path (coll_dir rs c @ [''events'', journal_name c])"
    using ne doc_shards [OF d] isTTID_file_plain [OF d] c
    by (auto simp: index_files_def ix place_def legacy_place_def)
  show "abs_path (coll_dir rs c @ [''events'', journal_name c]) \<notin> index_files rs c"
    using coll_dir_plain [OF env] c by (auto simp: index_files_def ix)
  show "abs_path (coll_dir rs c @ [''events'', journal_name c]) \<in> file_positions rs c" "index_files rs c \<subseteq> file_positions rs c"
  proof -
    have fp: "abs_path (d @ [f]) \<in> file_positions rs c" if "(d, f) \<in> file_tops rs c" for d f
      using that by (auto simp: file_positions_def)
    show "abs_path (coll_dir rs c @ [''events'', journal_name c]) \<in> file_positions rs c"
      using fp [of "coll_dir rs c @ [''events'']" "journal_name c"] by (simp add: file_tops_def)
    have "index_path rs c n \<in> file_positions rs c" if "n \<in> {LOCAL_FS_MANIFEST, LOCAL_FS_SNAPSHOT, LOCAL_FS_WAL}" for n
      using fp [of "coll_dir rs c @ [''index'']" n] that unfolding ix by (simp add: file_tops_def)
    then show "index_files rs c \<subseteq> file_positions rs c" unfolding index_files_def by blast
  qed
qed

text \<open>Changing one record changes the view there and nowhere else.\<close>

lemma docs_hold_update:
  assumes env: "index_env env rs c" and h: "docs_hold rs c fm D T" and d: "isTTID d"
  shows "docs_hold rs c (fm(place rs c ''docs'' d := map_option doc_bytes x)) (D(d := x)) T"
    "docs_hold rs c (fm(place rs c ''.deleted'' d := map_option tomb_bytes y)) D (T(d := y))"
proof -
  have eq: "place rs c t e = place rs c t' d \<longleftrightarrow> t = t' \<and> e = d"
    "legacy_place rs c t e = place rs c t' d \<longleftrightarrow> t = t' \<and> e = d \<and> legacy_shard e = doc_shard e"
    if "isTTID e" "t \<in> tree_names" "t' \<in> tree_names" for e t t'
    using place_eq(1,2) [OF env that(2,3,1) d] by blast+
  show "docs_hold rs c (fm(place rs c ''docs'' d := map_option doc_bytes x)) (D(d := x)) T"
    unfolding docs_hold_def
  proof (intro allI impI)
    fix e assume e: "isTTID e"
    note h = h [unfolded docs_hold_def, rule_format, OF e]
    show "(fm(place rs c ''docs'' d := map_option doc_bytes x)) (place rs c ''docs'' e) = map_option doc_bytes ((D(d := x)) e) \<and>
      (fm(place rs c ''docs'' d := map_option doc_bytes x)) (place rs c ''.deleted'' e) = map_option tomb_bytes (T e) \<and>
      (legacy_shard e \<noteq> doc_shard e \<longrightarrow>
        (fm(place rs c ''docs'' d := map_option doc_bytes x)) (legacy_place rs c ''docs'' e) = None \<and>
        (fm(place rs c ''docs'' d := map_option doc_bytes x)) (legacy_place rs c ''.deleted'' e) = None)"
      using h by (simp add: eq [OF e])
  qed
  show "docs_hold rs c (fm(place rs c ''.deleted'' d := map_option tomb_bytes y)) D (T(d := y))"
    unfolding docs_hold_def
  proof (intro allI impI)
    fix e assume e: "isTTID e"
    note h = h [unfolded docs_hold_def, rule_format, OF e]
    show "(fm(place rs c ''.deleted'' d := map_option tomb_bytes y)) (place rs c ''docs'' e) = map_option doc_bytes (D e) \<and>
      (fm(place rs c ''.deleted'' d := map_option tomb_bytes y)) (place rs c ''.deleted'' e) = map_option tomb_bytes ((T(d := y)) e) \<and>
      (legacy_shard e \<noteq> doc_shard e \<longrightarrow>
        (fm(place rs c ''.deleted'' d := map_option tomb_bytes y)) (legacy_place rs c ''docs'' e) = None \<and>
        (fm(place rs c ''.deleted'' d := map_option tomb_bytes y)) (legacy_place rs c ''.deleted'' e) = None)"
      using h by (simp add: eq [OF e])
  qed
qed

lemma docs_hold_cong:
  assumes env: "index_env env rs c" and "docs_hold rs c fm D T"
    and "\<And>q. q \<notin> index_files rs c \<Longrightarrow> q \<noteq> abs_path (coll_dir rs c @ [''events'', journal_name c]) \<Longrightarrow> fm' q = fm q"
  shows "docs_hold rs c fm' D T"
  using assms(2) index_not_place [OF env tree_name_in(1)] index_not_place [OF env tree_name_in(2)]
  by (simp add: docs_hold_def assms(3))

lemma index_dir_position: "abs_path (index_dir rs c) \<in> dir_positions rs c"
proof -
  have "coll_dir rs c @ [''index''] \<in> dir_tops rs c" by (simp add: dir_tops_def)
  then show ?thesis unfolding dir_positions_def by (force simp: index_dir_def coll_dir_def)
qed

lemma bucket_position:
  "t \<in> tree_names \<Longrightarrow> plain_segment s \<Longrightarrow> abs_path (coll_dir rs c @ [t, s]) \<in> dir_positions rs c"
  unfolding dir_positions_def dir_tops_def by blast

lemma coll_position: "abs_path (coll_dir rs c) \<in> dir_positions rs c"
  and tree_dir_position: "t \<in> tree_names \<Longrightarrow> abs_path (coll_dir rs c @ [t]) \<in> dir_positions rs c"
  and events_position: "abs_path (coll_dir rs c @ [''events'']) \<in> dir_positions rs c"
proof -
  have top: "coll_dir rs c @ [t, ''x''] \<in> dir_tops rs c" if "t \<in> tree_names" for t
    using that by (simp add: dir_tops_def plain_segment_def isMeaningful_def)
  have ev: "coll_dir rs c @ [''events''] \<in> dir_tops rs c" by (simp add: dir_tops_def)
  show "abs_path (coll_dir rs c) \<in> dir_positions rs c"
    unfolding dir_positions_def using ev by force
  show "abs_path (coll_dir rs c @ [''events'']) \<in> dir_positions rs c"
    unfolding dir_positions_def using ev by force
  assume t: "t \<in> tree_names"
  have "prefix (coll_dir rs c @ [t]) (coll_dir rs c @ [t, ''x''])" by simp
  then show "abs_path (coll_dir rs c @ [t]) \<in> dir_positions rs c"
    unfolding dir_positions_def using top [OF t] by blast
qed

context fylo_tree
begin

abbreviation base :: "string list \<Rightarrow> string \<Rightarrow> live_map \<Rightarrow> tomb_map \<Rightarrow> string set \<Rightarrow> 'f world \<Rightarrow> bool" where
  "base rs c D T K w \<equiv> base_at inv afile adir rs c D T K w"

lemma base_tree: "base rs c D T K w \<Longrightarrow> tree (dir_positions rs c) (file_positions rs c) w"
  and base_docs: "base rs c D T K w \<Longrightarrow> docs_hold rs c (content w) D T"
  and base_dir: "base rs c D T K w \<Longrightarrow> abs_path (coll_dir rs c) \<in> dirs w"
  by (simp_all add: base_at_def)

lemma tree_index_room:
  assumes env: "index_env env rs c" and t: "tree (dir_positions rs c) (file_positions rs c) w"
  shows "index_room (content w) (dirs w) rs c"
proof -
  note l = collection_layout [OF env]
  have "self_and_ancestors (abs_path (index_dir rs c)) \<subseteq> dir_positions rs c"
    using layoutD(2) [OF l index_dir_position] by blast
  moreover have "index_files rs c \<subseteq> file_positions rs c"
  proof -
    obtain d where "isTTID d" using that by (intro that [of "''4VLN5QUCDP0''"]) code_simp
    then show ?thesis using index_not_place(7) [OF env tree_name_in(1)] by blast
  qed
  ultimately show ?thesis using t by (auto simp: index_room_def tree_at_def index_files_def)
qed

lemma base_transfer:
  assumes env: "index_env env rs c" and b: "base rs c D T K w"
    and "tree (dir_positions rs c) (file_positions rs c) v" and "docs_hold rs c (content v) D' T'"
    and same: "\<And>q. q \<in> index_files rs c \<Longrightarrow> content v q = content w q" and "dirs w \<subseteq> dirs v" and "index v = index w"
  shows "base rs c D' T' K v"
proof -
  have "old_bytes (content v) (index_path rs c n) = old_bytes (content w) (index_path rs c n)"
    if "n \<in> {LOCAL_FS_SNAPSHOT, LOCAL_FS_WAL}" for n
    using same [of "index_path rs c n"] that by (auto simp: old_bytes_def index_files_def)
  then have "index_at inv afile adir rs c ks ms v" if "index_at inv afile adir rs c ks ms w" for ks ms
    using that tree_index_room [OF env assms(3)] assms(3,7)
    by (simp add: index_at_def index_holds_def tree_at_def)
  with b assms(3,4,6) show ?thesis unfolding base_at_def by blast
qed

lemma base_index:
  assumes env: "index_env env rs c" and b: "base rs c D T K w"
    and f: "index_frame afile adir rs c w v" and at: "index_at inv afile adir rs c ks ms v" and whole: "whole_log ks ms"
  shows "base rs c D T (set (foldl apply_mutation ks ms)) v"
proof -
  note l = collection_layout [OF env]
  have t: "isTTID ''4VLN5QUCDP0''" by code_simp
  have files: "index_files rs c \<subseteq> file_positions rs c"
    by (rule index_not_place(7) [OF env tree_name_in(1) t])
  have idx: "self_and_ancestors (abs_path (index_dir rs c)) \<inter> file_positions rs c = {}"
    using layoutD(2) [OF l index_dir_position] by blast
  have same: "content v q = content w q" if "q \<notin> index_files rs c" for q using f that by (simp add: index_frame_def)
  have "content v p = None" if "p \<in> dir_positions rs c" for p
  proof -
    have "p \<notin> index_files rs c" using files that l unfolding layout_def by blast
    with same base_tree [OF b] that show ?thesis by (simp add: tree_at_def)
  qed
  moreover have "p \<notin> dirs v" if "p \<in> file_positions rs c" for p
    using that idx f base_tree [OF b] unfolding index_frame_def tree_at_def by blast
  ultimately have "tree (dir_positions rs c) (file_positions rs c) v"
    using at by (simp add: tree_at_def index_at_def)
  moreover have "docs_hold rs c (content v) D T"
    by (rule docs_hold_cong [OF env base_docs [OF b]]) (rule same)
  moreover have "abs_path (coll_dir rs c) \<in> dirs v"
    using base_dir [OF b] f by (auto simp: index_frame_def)
  ultimately show ?thesis using at whole unfolding base_at_def by blast
qed

subsubsection \<open>Reading\<close>

lemma existingPath_run:
  assumes env: "index_env env rs c" "fs env = ops" and w: "tree (dir_positions rs c) (file_positions rs c) w"
    and t: "t \<in> tree_names" and d: "isTTID d"
    and old: "legacy_place rs c t d \<noteq> place rs c t d \<Longrightarrow> content w (legacy_place rs c t d) = None"
  shows "existingPath env (abs_path (coll_dir rs c @ [t])) (place rs c t d) d w = (Inr (place rs c t d), w)"
    and "removeLegacyCopy env (abs_path (coll_dir rs c @ [t])) (place rs c t d) d w = (Inr (), w)"
proof -
  note l = collection_layout [OF env(1)]
  have e: "w_exists env p w = (Inr (content w p \<noteq> None), w)" if "p \<in> file_positions rs c" for p
    by (rule tree_exists [OF l w env(2) that])
  show "existingPath env (abs_path (coll_dir rs c @ [t])) (place rs c t d) d w = (Inr (place rs c t d), w)"
    "removeLegacyCopy env (abs_path (coll_dir rs c @ [t])) (place rs c t d) d w = (Inr (), w)"
    using old e [OF place_position(1) [OF t d]] e [OF place_position(2) [OF t d]] doc_paths(3) [OF env(1) d t]
    by (auto simp: existingPath_def removeLegacyCopy_def bind_op_def)
qed

lemma locate_run:
  assumes env: "index_env env rs c" "fs env = ops" and b: "base rs c D T K w" and d: "isTTID d"
  shows "locate env (docsRoot env c) (docPath env c d) d w = (Inr (place rs c ''docs'' d), w)"
    "locate env (deletedRoot env c) (deletedPath env c d) d w = (Inr (place rs c ''.deleted'' d), w)"
  using existingPath_run(1) [OF env base_tree [OF b] tree_name_in(1) d docs_holdD(3) [OF base_docs [OF b] d]]
    existingPath_run(1) [OF env base_tree [OF b] tree_name_in(2) d docs_holdD(4) [OF base_docs [OF b] d]]
    collection_roots [OF env(1)] doc_paths [OF env(1) d]
  by (simp_all add: locate_def bind_op_def)

lemma readStoredDoc_run:
  assumes env: "index_env env rs c" "fs env = ops" and b: "base rs c D T K w" and d: "isTTID d"
    and ok: "\<And>ob. D d = Some ob \<Longrightarrow> doc_ok ob"
  shows "\<exists>r. readStoredDoc env c d w = (Inr r, w) \<and> map_option stored_data r = D d \<and>
    (\<forall>s. r = Some s \<longrightarrow> stored_id s = d)"
proof -
  note l = collection_layout [OF env(1)]
  let ?p = "place rs c ''docs'' d"
  have p: "?p \<in> file_positions rs c" by (rule place_position(1) [OF tree_name_in(1) d])
  have e: "w_exists env ?p w = (Inr (D d \<noteq> None), w)"
    using tree_exists [OF l base_tree [OF b] env(2) p] docs_holdD(1) [OF base_docs [OF b] d] by simp
  show ?thesis
  proof (cases "D d")
    case None
    then show ?thesis
      using e locate_run(1) [OF env b d] d by (simp add: readStoredDoc_def bind_op_def validateDocId_def)
  next
    case (Some ob)
    then have f: "content w ?p = Some (doc_bytes ob)" using docs_holdD(1) [OF base_docs [OF b] d] by simp
    then have r: "w_readText env ?p w = (Inr (json_text (JObj ob)), w)"
      using tree_read [OF l base_tree [OF b] env(2) p] by (simp add: doc_bytes_def)
    obtain m where m: "w_mtimeMs env ?p w = (Inr m, w)"
      using tree_mtime [OF l base_tree [OF b] env(2) p] f by auto
    obtain ts where ts: "decodeTime d = Inr ts" using isTTID_decode [OF d] by blast
    have "parseJsonDocumentText (json_text (JObj ob)) = Inr ob" "stripInternalFields ob = ob"
      using ok [OF Some] parse_doc strip_doc by (simp_all add: doc_ok_def)
    then show ?thesis
      using e r m ts locate_run(1) [OF env b d] d Some
      by (simp add: readStoredDoc_def bind_op_def validateDocId_def del: json_text.simps)
  qed
qed

lemma readDeletedDoc_run:
  assumes env: "index_env env rs c" "fs env = ops" and b: "base rs c D T K w" and d: "isTTID d"
    and ok: "\<And>at ob. T d = Some (at, ob) \<Longrightarrow> doc_ok ob \<and> json_safe_number at"
  shows "\<exists>r. readDeletedDoc env c d w = (Inr r, w) \<and>
    map_option (\<lambda>s. (deleted_at s, deleted_data s)) r = T d"
proof -
  note l = collection_layout [OF env(1)]
  let ?p = "place rs c ''.deleted'' d"
  have p: "?p \<in> file_positions rs c" by (rule place_position(1) [OF tree_name_in(2) d])
  have e: "w_exists env ?p w = (Inr (T d \<noteq> None), w)"
    using tree_exists [OF l base_tree [OF b] env(2) p] docs_holdD(2) [OF base_docs [OF b] d] by simp
  show ?thesis
  proof (cases "T d")
    case None
    then show ?thesis
      using e locate_run(2) [OF env b d] d by (simp add: readDeletedDoc_def bind_op_def validateDocId_def)
  next
    case (Some t)
    obtain at ob where t: "t = (at, ob)" by fastforce
    have ok': "doc_ok ob" "json_safe_number at" using ok Some t by auto
    have "content w ?p = Some (utf8_encode (json_text (JObj (tombstone at ob))))"
      using docs_holdD(2) [OF base_docs [OF b] d] Some t by (simp add: tomb_bytes_def doc_bytes_def)
    then have r: "w_readText env ?p w = (Inr (json_text (JObj (tombstone at ob))), w)"
      by (rule tree_read [OF l base_tree [OF b] env(2) p])
    obtain ts where ts: "decodeTime d = Inr ts" using isTTID_decode [OF d] by blast
    have "parseJsonDocumentText (json_text (JObj (tombstone at ob))) = Inr (tombstone at ob)"
      "stripInternalFields (tombstone at ob) = ob" "obj_get (tombstone at ob) ''_deletedAt'' = JNum at"
      using parse_doc [OF tombstone_safe [OF ok']] strip_tombstone [OF ok'(1)] by (simp_all add: tombstone_def)
    then show ?thesis
      using e r ts locate_run(2) [OF env b d] d Some t
      by (simp add: readDeletedDoc_def bind_op_def validateDocId_def del: json_text.simps)
  qed
qed

subsubsection \<open>Writing\<close>

lemma base_same [simp]:
  "base rs c D T K (w\<lparr> ticks := n \<rparr>) = base rs c D T K w"
  "base rs c D T K (w\<lparr> dispatched := x \<rparr>) = base rs c D T K w"
  by (simp_all add: base_at_def tree_at_def index_at_def)

lemma base_mkdir:
  assumes env: "index_env env rs c" "fs env = ops" and b: "base rs c D T K w" and p: "p \<in> dir_positions rs c"
  shows "\<exists>v. w_mkdir env p w = (Inr (), v) \<and> base rs c D T K v \<and> quiet w v"
proof -
  obtain v where v: "w_mkdir env p w = (Inr (), v)" "tree (dir_positions rs c) (file_positions rs c) v" "only_disk w v"
    "content v = content w" "dirs v = dirs w \<union> self_and_ancestors p"
    using tree_mkdir [OF collection_layout [OF env(1)] base_tree [OF b] env(2) p] by blast
  then have "base rs c D T K v"
    using base_docs [OF b] by (intro base_transfer [OF env(1) b]) (auto simp: only_disk_def quiet_def)
  with v show ?thesis by (auto simp: only_disk_def quiet_def)
qed

lemma base_write:
  assumes env: "index_env env rs c" "fs env = ops" and b: "base rs c D T K w" and d: "isTTID d"
  shows "\<exists>v. w_writeText env (place rs c ''docs'' d) (json_text (JObj ob)) w = (Inr (), v) \<and>
      base rs c (D(d \<mapsto> ob)) T K v \<and> quiet w v"
    and "\<exists>v. w_writeText env (place rs c ''.deleted'' d) (json_text (JObj (tombstone del_at ob))) w = (Inr (), v) \<and>
      base rs c D (T(d \<mapsto> (del_at, ob))) K v \<and> quiet w v"
proof -
  note l = collection_layout [OF env(1)] and h = docs_hold_update [OF env(1) base_docs [OF b] d]
  have *: "\<exists>v. w_writeText env p t w = (Inr (), v) \<and> base rs c D' T' K v \<and> quiet w v"
    if "p \<in> file_positions rs c" "p \<notin> index_files rs c" "docs_hold rs c ((content w)(p \<mapsto> utf8_encode t)) D' T'" for p t D' T'
  proof -
    note p = that
    obtain v where v: "w_writeText env p t w = (Inr (), v)" "tree (dir_positions rs c) (file_positions rs c) v" "only_disk w v"
      "content v = (content w)(p \<mapsto> utf8_encode t)" "dirs v = dirs w \<union> ancestors p"
      using tree_write [OF l base_tree [OF b] env(2) p(1)] by blast
    then have "base rs c D' T' K v"
      using p by (intro base_transfer [OF env(1) b]) (auto simp: only_disk_def quiet_def)
    with v show ?thesis by (auto simp: only_disk_def quiet_def)
  qed
  show "\<exists>v. w_writeText env (place rs c ''docs'' d) (json_text (JObj ob)) w = (Inr (), v) \<and>
      base rs c (D(d \<mapsto> ob)) T K v \<and> quiet w v"
    using h(1) [of "Some ob"] place_position(1) [OF tree_name_in(1) d] index_not_place(1) [OF env(1) tree_name_in(1) d]
    by (intro *) (simp_all add: doc_bytes_def)
  show "\<exists>v. w_writeText env (place rs c ''.deleted'' d) (json_text (JObj (tombstone del_at ob))) w = (Inr (), v) \<and>
      base rs c D (T(d \<mapsto> (del_at, ob))) K v \<and> quiet w v"
    using h(2) [of "Some (del_at, ob)"] place_position(1) [OF tree_name_in(2) d] index_not_place(1) [OF env(1) tree_name_in(2) d]
    by (intro *) (simp_all add: doc_bytes_def tomb_bytes_def)
qed

lemma base_remove:
  assumes env: "index_env env rs c" "fs env = ops" and b: "base rs c D T K w" and d: "isTTID d"
  shows "D d \<noteq> None \<Longrightarrow> \<exists>v. w_remove env (place rs c ''docs'' d) w = (Inr (), v) \<and> base rs c (D(d := None)) T K v \<and> quiet w v"
    and "T d \<noteq> None \<Longrightarrow> \<exists>v. w_remove env (place rs c ''.deleted'' d) w = (Inr (), v) \<and> base rs c D (T(d := None)) K v \<and> quiet w v"
proof -
  note l = collection_layout [OF env(1)] and h = docs_hold_update [OF env(1) base_docs [OF b] d, of None]
  have *: "\<exists>v. w_remove env p w = (Inr (), v) \<and> base rs c D' T' K v \<and> quiet w v"
    if "p \<in> file_positions rs c" "p \<notin> index_files rs c" "docs_hold rs c ((content w)(p := None)) D' T'"
      "content w p \<noteq> None" for p D' T'
  proof -
    note p = that
    obtain v where v: "w_remove env p w = (Inr (), v)" "tree (dir_positions rs c) (file_positions rs c) v" "only_disk w v"
      "content v = (content w)(p := None)" "dirs v = dirs w"
      using tree_remove [OF l base_tree [OF b] env(2) p(1,4)] by blast
    then have "base rs c D' T' K v"
      using p by (intro base_transfer [OF env(1) b]) (auto simp: only_disk_def quiet_def)
    with v show ?thesis by (auto simp: only_disk_def quiet_def)
  qed
  show "\<exists>v. w_remove env (place rs c ''docs'' d) w = (Inr (), v) \<and> base rs c (D(d := None)) T K v \<and> quiet w v"
    if "D d \<noteq> None"
    using that docs_holdD(1) [OF base_docs [OF b] d] h(1) place_position(1) [OF tree_name_in(1) d] index_not_place(1) [OF env(1) tree_name_in(1) d]
    by (intro *) simp_all
  show "\<exists>v. w_remove env (place rs c ''.deleted'' d) w = (Inr (), v) \<and> base rs c D (T(d := None)) K v \<and> quiet w v"
    if "T d \<noteq> None"
    using that docs_holdD(2) [OF base_docs [OF b] d] h(2) place_position(1) [OF tree_name_in(2) d] index_not_place(1) [OF env(1) tree_name_in(2) d]
    by (intro *) simp_all
qed

lemma base_removeIfPresent:
  assumes env: "index_env env rs c" "fs env = ops" and b: "base rs c D T K w" and d: "isTTID d"
  shows "\<exists>v. removeIfPresent env (place rs c ''.deleted'' d) w = (Inr (), v) \<and> base rs c D (T(d := None)) K v \<and> quiet w v"
proof -
  have e: "w_exists env (place rs c ''.deleted'' d) w = (Inr (T d \<noteq> None), w)"
    using tree_exists [OF collection_layout [OF env(1)] base_tree [OF b] env(2) place_position(1) [OF tree_name_in(2) d]]
      docs_holdD(2) [OF base_docs [OF b] d] by simp
  show ?thesis
  proof (cases "T d")
    case None
    then have "T(d := None) = T" by (simp add: fun_upd_idem)
    with None e b show ?thesis by (simp add: removeIfPresent_def bind_op_def)
  next
    case (Some t)
    with e base_remove(2) [OF env b d] show ?thesis by (simp add: removeIfPresent_def bind_op_def)
  qed
qed

lemma ensureCollection_run:
  assumes env: "index_env env rs c" "fs env = ops" and t: "tree (dir_positions rs c) (file_positions rs c) w"
    and h: "docs_hold rs c (content w) D T" and at: "index_at inv afile adir rs c ks ms w" and whole: "whole_log ks ms"
  shows "\<exists>v. ensureCollection env c w = (Inr (), v) \<and> base rs c D T (set (foldl apply_mutation ks ms)) v \<and> quiet w v"
proof -
  let ?K = "set (foldl apply_mutation ks ms)" and ?d = "\<lambda>t. abs_path (coll_dir rs c @ [t])"
  note r = collection_roots [OF env(1)]
  have ev: "join2 (abs_path (coll_dir rs c)) ''events'' = ?d ''events''"
    using path_join_abs [OF coll_dir_plain [OF env(1)], of "[''events'']"] by (simp add: join2_def)
  obtain w1 where w1: "w_mkdir env (abs_path (coll_dir rs c)) w = (Inr (), w1)"
    "tree (dir_positions rs c) (file_positions rs c) w1" "only_disk w w1" "content w1 = content w"
    "dirs w1 = dirs w \<union> self_and_ancestors (abs_path (coll_dir rs c))"
    using tree_mkdir [OF collection_layout [OF env(1)] t env(2) coll_position] by blast
  have "index_at inv afile adir rs c ks ms w1"
    using at w1(2,3,4) tree_index_room [OF env(1) w1(2)] by (simp add: index_at_def tree_at_def only_disk_def)
  then have b1: "base rs c D T ?K w1"
    using w1 h whole unfolding base_at_def self_and_ancestors_def by auto
  obtain w2 where w2: "w_mkdir env (?d ''docs'') w1 = (Inr (), w2)" "base rs c D T ?K w2" "quiet w1 w2"
    using base_mkdir [OF env b1 tree_dir_position [OF tree_name_in(1)]] by blast
  obtain w3 where w3: "w_mkdir env (?d ''.deleted'') w2 = (Inr (), w3)" "base rs c D T ?K w3" "quiet w2 w3"
    using base_mkdir [OF env w2(2) tree_dir_position [OF tree_name_in(2)]] by blast
  obtain w4 where w4: "w_mkdir env (?d ''.metadata'') w3 = (Inr (), w4)" "base rs c D T ?K w4" "quiet w3 w4"
    using base_mkdir [OF env w3(2) tree_dir_position [of "''.metadata''"]] by (auto simp: tree_names_def)
  obtain w5 where w5: "w_mkdir env (?d ''events'') w4 = (Inr (), w5)" "base rs c D T ?K w5" "quiet w4 w5"
    using base_mkdir [OF env w4(2) events_position] by blast
  obtain ks' ms' where at5: "index_at inv afile adir rs c ks' ms' w5" "set (foldl apply_mutation ks' ms') = ?K" "whole_log ks' ms'"
    using w5(2) unfolding base_at_def by blast
  obtain v where v: "index_ensureCollection env c w5 = (Inr (), v)" "index_at inv afile adir rs c ks' ms' v"
    "index_frame afile adir rs c w5 v"
    using ensure_at [OF env at5(1)] by blast
  have "base rs c D T ?K v" using base_index [OF env(1) w5(2) v(3,2) at5(3)] at5(2) by simp
  moreover have "ensureCollection env c w = (Inr (), v)"
    using w1(1) w2(1) w3(1) w4(1) w5(1) v(1) r ev env(1)
    by (simp add: ensureCollection_def mkdir_at_def bind_op_def seq_op_def index_env_def)
  moreover have "quiet w v"
    using v(3) w5(3) w4(3) w3(3) w2(3) w1(3) by (simp add: index_frame_def only_disk_def quiet_def)
  ultimately show ?thesis by blast
qed

lemma base_ensure:
  assumes env: "index_env env rs c" "fs env = ops" and b: "base rs c D T K w"
  shows "\<exists>v. ensureCollection env c w = (Inr (), v) \<and> base rs c D T K v \<and> quiet w v"
proof -
  obtain ks ms where at: "index_at inv afile adir rs c ks ms w" "set (foldl apply_mutation ks ms) = K" "whole_log ks ms"
    using b unfolding base_at_def by blast
  show ?thesis using ensureCollection_run [OF env base_tree [OF b] base_docs [OF b] at(1,3)] at(2) by simp
qed

lemma writeStoredDoc_run:
  assumes env: "index_env env rs c" "fs env = ops" and b: "base rs c D T K w" and d: "isTTID d" and ob: "json_safe (JObj ob)"
  shows "\<exists>v. writeStoredDoc env c d (JObj ob) w = (Inr (), v) \<and> base rs c (D(d \<mapsto> ob)) (T(d := None)) K v \<and> quiet w v"
proof -
  let ?docs = "abs_path (coll_dir rs c @ [''docs''])" and ?del = "abs_path (coll_dir rs c @ [''.deleted''])"
  obtain w1 where w1: "ensureCollection env c w = (Inr (), w1)" "base rs c D T K w1" "quiet w w1"
    using base_ensure [OF env b] by blast
  obtain w2 where w2: "w_writeText env (place rs c ''docs'' d) (json_text (JObj ob)) w1 = (Inr (), w2)"
    "base rs c (D(d \<mapsto> ob)) T K w2" "quiet w1 w2"
    using base_write(1) [OF env w1(2) d] by blast
  have l2: "removeLegacyCopy env ?docs (place rs c ''docs'' d) d w2 = (Inr (), w2)"
    by (rule existingPath_run(2) [OF env base_tree [OF w2(2)] tree_name_in(1) d docs_holdD(3) [OF base_docs [OF w2(2)] d]])
  obtain w3 where w3: "removeIfPresent env (place rs c ''.deleted'' d) w2 = (Inr (), w3)"
    "base rs c (D(d \<mapsto> ob)) (T(d := None)) K w3" "quiet w2 w3"
    using base_removeIfPresent [OF env w2(2) d] by blast
  have l3: "removeLegacyCopy env ?del (place rs c ''.deleted'' d) d w3 = (Inr (), w3)"
    by (rule existingPath_run(2) [OF env base_tree [OF w3(2)] tree_name_in(2) d docs_holdD(4) [OF base_docs [OF w3(2)] d]])
  have "writeStoredDoc env c d (JObj ob) w = (Inr (), w3)"
    using w1(1) w2(1) l2 w3(1) l3 d assert_doc [OF ob] collection_roots [OF env(1)] doc_paths [OF env(1) d]
    by (simp add: writeStoredDoc_def bind_op_def seq_op_def validateDocId_def del: json_text.simps)
  with w3 w2(3) w1(3) show ?thesis by (auto simp: quiet_def)
qed

subsubsection \<open>The index and the journal\<close>

lemma base_append:
  assumes env: "index_env env rs c" "fs env = ops" and b: "base rs c D T K w" and good: "\<forall>(op, k)\<in>set ns. good_key k"
    and keep: "\<And>ks ms. set (foldl apply_mutation ks ms) = K \<Longrightarrow> whole_log ks ms \<Longrightarrow> whole_log ks (ms @ ns)"
  shows "\<exists>v ks. appendMutations env c ns w = (Inr (), v) \<and> set ks = K \<and>
    base rs c D T (set (foldl apply_mutation ks ns)) v \<and> quiet w v"
proof -
  obtain ks ms where at: "index_at inv afile adir rs c ks ms w" "set (foldl apply_mutation ks ms) = K" "whole_log ks ms"
    using b unfolding base_at_def by blast
  obtain v where v: "appendMutations env c ns w = (Inr (), v)" "index_frame afile adir rs c w v"
    "index_at inv afile adir rs c ks (ms @ ns) v \<or> index_at inv afile adir rs c (sort (foldl apply_mutation ks (ms @ ns))) [] v"
    using appendMutations_at [OF env at(1) good] by blast
  have "base rs c D T (set (foldl apply_mutation ks (ms @ ns))) v"
    using v(3)
  proof
    assume "index_at inv afile adir rs c ks (ms @ ns) v"
    from base_index [OF env(1) b v(2) this keep [OF at(2,3)]] show ?thesis .
  next
    assume "index_at inv afile adir rs c (sort (foldl apply_mutation ks (ms @ ns))) [] v"
    from base_index [OF env(1) b v(2) this] show ?thesis by simp
  qed
  with v(1,2) at(2) show ?thesis
    by (intro exI [of _ v] exI [of _ "foldl apply_mutation ks ms"]) (simp add: index_frame_def quiet_def)
qed

lemma apply_puts: "set (foldl apply_mutation ks (map (\<lambda>k. (Put, k)) keys)) = set ks \<union> set keys"
  and apply_dels: "set (foldl apply_mutation ks (map (\<lambda>k. (Del, k)) keys)) = set ks - set keys"
proof -
  show "set (foldl apply_mutation ks (map (\<lambda>k. (Put, k)) keys)) = set ks \<union> set keys"
    by (induction keys arbitrary: ks) (auto simp: apply_mutation_def push_new_props)
  show "set (foldl apply_mutation ks (map (\<lambda>k. (Del, k)) keys)) = set ks - set keys"
    by (induction keys arbitrary: ks) (auto simp: apply_mutation_def)
qed

lemma base_putDocument:
  assumes env: "index_env env rs c" "fs env = ops" and b: "base rs c D T K w" and d: "isTTID d"
    and keys: "entriesForDocument (digest env) d ob = Inr keys"
  shows "\<exists>v. putDocument env c d ob w = (Inr (), v) \<and> base rs c D T (K \<union> set keys) v \<and> quiet w v"
    and "{k \<in> K. key_doc k = d} \<subseteq> set keys \<Longrightarrow>
      \<exists>v. removeDocument env c d ob w = (Inr (), v) \<and> base rs c D T (K - set keys) v \<and> quiet w v"
proof -
  note g = entries_good [OF d keys]
  have good: "\<forall>(op, k)\<in>set (map (\<lambda>k. (o', k)) keys). good_key k" for o'
    using g by auto
  show "\<exists>v. putDocument env c d ob w = (Inr (), v) \<and> base rs c D T (K \<union> set keys) v \<and> quiet w v"
    using base_append [OF env b good [of Put] whole_log_puts] keys apply_puts
    by (fastforce simp: putDocument_def bind_op_def)
  assume all: "{k \<in> K. key_doc k = d} \<subseteq> set keys"
  have "whole_log ks (ms @ map (\<lambda>k. (Del, k)) keys)" if "set (foldl apply_mutation ks ms) = K" "whole_log ks ms" for ks ms
    by (rule whole_log_dels [OF that(2), of keys d]) (use g all that(1) in auto)
  from base_append [OF env b good [of Del] this]
  show "\<exists>v. removeDocument env c d ob w = (Inr (), v) \<and> base rs c D T (K - set keys) v \<and> quiet w v"
    using keys apply_dels by (fastforce simp: removeDocument_def bind_op_def)
qed

lemma base_publish:
  assumes env: "index_env env rs c" "fs env = ops" and b: "base rs c D T K w"
  shows "\<exists>v. publish env c event w = (Inr (), v) \<and> base rs c D T K v \<and> clock v = clock w \<and>
    dispatched v = dispatched w @ [(c, event)]"
proof -
  let ?j = "abs_path (coll_dir rs c @ [''events'', journal_name c])"
  have t: "isTTID ''4VLN5QUCDP0''" by code_simp
  note nj = index_not_place [OF env(1) tree_name_in(1) t]
  obtain v where v: "w_appendText env ?j (json_text event @ [newline]) w = (Inr (), v)"
    "tree (dir_positions rs c) (file_positions rs c) v" "only_disk w v"
    "content v = (content w)(?j \<mapsto> old_bytes (content w) ?j @ utf8_encode (json_text event @ [newline]))"
    "dirs v = dirs w \<union> ancestors ?j"
    using tree_append [OF collection_layout [OF env(1)] base_tree [OF b] env(2) nj(6)] by blast
  have "docs_hold rs c (content v) D T"
    by (rule docs_hold_cong [OF env(1) base_docs [OF b]]) (simp add: v(4))
  then have "base rs c D T K v"
    using v nj(5) by (intro base_transfer [OF env(1) b]) (auto simp: only_disk_def)
  then show ?thesis
    using v(1,3) collection_roots(5) [OF env(1)]
    by (simp add: publish_def bind_op_def seq_op_def only_disk_def)
qed

end

end
