(* ===== verification/EngineStore.thy ===== *)
theory EngineStore imports DocStore begin

section \<open>What the engine promises of a collection\<close>

text \<open>
  The operations of \<open>BrowserCore\<close> on the abstract view of \<open>DocStore\<close>: a put, a deletion, a
  restoration and a read each do on the maps of live documents and tombstones what their names
  say, the index always stands for exactly the keys of the live documents, and an operation that
  is refused changes neither.
\<close>

subsection \<open>The invariant\<close>

text \<open>A document that can be indexed, so that no write fails half way.\<close>

definition storable :: "(bytes \<Rightarrow> bytes) \<Rightarrow> string \<Rightarrow> record_obj \<Rightarrow> bool" where
  "storable h d ob \<longleftrightarrow> isTTID d \<and> doc_ok ob \<and> is_ok (entriesForDocument h d ob)"

definition maps_ok :: "(bytes \<Rightarrow> bytes) \<Rightarrow> live_map \<Rightarrow> tomb_map \<Rightarrow> bool" where
  "maps_ok h D T \<longleftrightarrow>
     (\<forall>d ob. D d = Some ob \<longrightarrow> storable h d ob) \<and>
     (\<forall>d t. T d = Some t \<longrightarrow> storable h d (snd t) \<and> json_safe_number (fst t)) \<and>
     (\<forall>d. D d = None \<or> T d = None)"

definition doc_index :: "(bytes \<Rightarrow> bytes) \<Rightarrow> string \<Rightarrow> record_obj \<Rightarrow> string set" where
  "doc_index h d ob = (case entriesForDocument h d ob of Inr keys \<Rightarrow> set keys | Inl _ \<Rightarrow> {})"

definition indexed_keys :: "(bytes \<Rightarrow> bytes) \<Rightarrow> live_map \<Rightarrow> string set" where
  "indexed_keys h D = {k. \<exists>d ob. D d = Some ob \<and> k \<in> doc_index h d ob}"

definition store_at :: "('f \<Rightarrow> bool) \<Rightarrow> ('f \<Rightarrow> string \<Rightarrow> bytes option) \<Rightarrow> ('f \<Rightarrow> string set) \<Rightarrow> 'f core \<Rightarrow> string list \<Rightarrow>
    string \<Rightarrow> live_map \<Rightarrow> tomb_map \<Rightarrow> 'f world \<Rightarrow> bool" where
  "store_at iv afile adir env rs c D T w \<longleftrightarrow>
     base_at iv afile adir rs c D T (indexed_keys (digest env) D) w \<and> maps_ok (digest env) D T"

lemma doc_index_doc: "storable h d ob \<Longrightarrow> k \<in> doc_index h d ob \<Longrightarrow> key_doc k = d"
  using entries_good [of d h ob] by (auto simp: storable_def doc_index_def is_ok_iff)

lemma indexed_split:
  "k \<in> indexed_keys h D \<longleftrightarrow>
    (\<exists>ob. D d = Some ob \<and> k \<in> doc_index h d ob) \<or> (\<exists>e ob. e \<noteq> d \<and> D e = Some ob \<and> k \<in> doc_index h e ob)"
proof
  assume "k \<in> indexed_keys h D"
  then obtain e ob where *: "D e = Some ob" "k \<in> doc_index h e ob" by (auto simp: indexed_keys_def)
  show "(\<exists>ob. D d = Some ob \<and> k \<in> doc_index h d ob) \<or> (\<exists>e ob. e \<noteq> d \<and> D e = Some ob \<and> k \<in> doc_index h e ob)"
  proof (cases "e = d")
    case True
    with * show ?thesis by auto
  next
    case False
    with * show ?thesis by blast
  qed
qed (auto simp: indexed_keys_def)

lemma indexed_update:
  "k \<in> indexed_keys h (D(d := x)) \<longleftrightarrow>
    (\<exists>ob. x = Some ob \<and> k \<in> doc_index h d ob) \<or> (\<exists>e ob. e \<noteq> d \<and> D e = Some ob \<and> k \<in> doc_index h e ob)"
proof -
  have "(\<exists>e ob. e \<noteq> d \<and> (D(d := x)) e = Some ob \<and> k \<in> doc_index h e ob) \<longleftrightarrow>
      (\<exists>e ob. e \<noteq> d \<and> D e = Some ob \<and> k \<in> doc_index h e ob)" by (metis fun_upd_other)
  then show ?thesis unfolding indexed_split [of k h "D(d := x)" d] by simp
qed

lemma indexed_remove:
  assumes "maps_ok h D T" and "D d = Some ob"
  shows "indexed_keys h D - doc_index h d ob = indexed_keys h (D(d := None))"
proof (rule set_eqI)
  fix k
  have "k \<notin> doc_index h d ob" if "D e = Some x" "k \<in> doc_index h e x" "e \<noteq> d" for e x
    using that assms doc_index_doc [of h e x k] doc_index_doc [of h d ob k] by (auto simp: maps_ok_def)
  with assms(2) show "k \<in> indexed_keys h D - doc_index h d ob \<longleftrightarrow> k \<in> indexed_keys h (D(d := None))"
    unfolding indexed_update indexed_split [of k h D d] Diff_iff by auto
qed

lemma indexed_insert: "D d = None \<Longrightarrow> indexed_keys h D \<union> doc_index h d ob = indexed_keys h (D(d \<mapsto> ob))"
proof (rule set_eqI)
  fix k assume "D d = None"
  then show "k \<in> indexed_keys h D \<union> doc_index h d ob \<longleftrightarrow> k \<in> indexed_keys h (D(d \<mapsto> ob))"
    unfolding indexed_update indexed_split [of k h D d] Un_iff by auto
qed

lemma indexed_owned:
  assumes "maps_ok h D T" and "D d = Some ob"
  shows "{k \<in> indexed_keys h D. key_doc k = d} \<subseteq> doc_index h d ob"
proof
  fix k assume "k \<in> {k \<in> indexed_keys h D. key_doc k = d}"
  then obtain e x where "D e = Some x" "k \<in> doc_index h e x" "key_doc k = d" by (auto simp: indexed_keys_def)
  with assms doc_index_doc [of h e x k] show "k \<in> doc_index h d ob" by (auto simp: maps_ok_def)
qed

lemma maps_ok_put: "maps_ok h D T \<Longrightarrow> storable h d ob \<Longrightarrow> T d = None \<Longrightarrow> maps_ok h (D(d \<mapsto> ob)) T"
  by (auto simp: maps_ok_def)

lemma maps_ok_delete:
  "maps_ok h D T \<Longrightarrow> D d = Some ob \<Longrightarrow> json_safe_number at \<Longrightarrow> maps_ok h (D(d := None)) (T(d \<mapsto> (at, ob)))"
  by (auto simp: maps_ok_def)

lemma maps_ok_restore: "maps_ok h D T \<Longrightarrow> T d = Some (at, ob) \<Longrightarrow> maps_ok h (D(d \<mapsto> ob)) (T(d := None))"
  by (auto simp: maps_ok_def)

lemma maps_ok_live: "maps_ok h D T \<Longrightarrow> D d = Some ob \<Longrightarrow> storable h d ob"
  and maps_ok_tomb: "maps_ok h D T \<Longrightarrow> T d = Some (at, ob) \<Longrightarrow> storable h d ob \<and> json_safe_number at"
  by (auto simp: maps_ok_def)

definition clock_safe :: "'f world \<Rightarrow> bool" where
  "clock_safe w \<longleftrightarrow> (\<forall>n. json_safe_number (f64_of_int (clock w n)))"

context fylo_tree
begin

abbreviation store :: "'f core \<Rightarrow> string list \<Rightarrow> string \<Rightarrow> live_map \<Rightarrow> tomb_map \<Rightarrow> 'f world \<Rightarrow> bool" where
  "store env rs c D T w \<equiv> store_at inv afile adir env rs c D T w"

lemma store_base: "store env rs c D T w \<Longrightarrow> base rs c D T (indexed_keys (digest env) D) w"
  and store_maps: "store env rs c D T w \<Longrightarrow> maps_ok (digest env) D T"
  by (simp_all add: store_at_def)

subsubsection \<open>Reading\<close>

lemma base_requireCollection:
  assumes env: "index_env env rs c" "fs env = ops" and b: "base rs c D T K w"
  shows "requireCollection env c w = (Inr (), w)"
proof -
  have p: "abs_path (coll_dir rs c) \<in> abs_paths" "inv (disk w)"
    using coll_dir_plain [OF env(1)] base_tree [OF b] by (simp_all add: tree_at_def)
  have free: "\<forall>q\<in>ancestors (abs_path (coll_dir rs c)). content w q = None"
    using ancestor_dirs_no_files [OF p(2) base_dir [OF b]] by (simp add: self_and_ancestors_def)
  have "w_exists env (abs_path (coll_dir rs c)) w = (Inr True, w)"
    using exists_spec [OF p(2,1)] base_dir [OF b] free env(2) by (simp add: w_exists_def on_disk_same)
  then show ?thesis
    using collection_roots(1) [OF env(1)] by (simp add: requireCollection_def hasCollection_def bind_op_def)
qed

lemma read_live:
  assumes env: "index_env env rs c" "fs env = ops" and b: "base rs c D T K w" and d: "isTTID d" and m: "maps_ok (digest env) D T"
  obtains r where "readStoredDoc env c d w = (Inr r, w)" "map_option stored_data r = D d" "\<forall>s. r = Some s \<longrightarrow> stored_id s = d"
proof -
  have "doc_ok ob" if "D d = Some ob" for ob using maps_ok_live [OF m that] by (simp add: storable_def)
  then show thesis using readStoredDoc_run [OF env b d] that by blast
qed

lemma read_tomb:
  assumes env: "index_env env rs c" "fs env = ops" and b: "base rs c D T K w" and d: "isTTID d" and m: "maps_ok (digest env) D T"
  obtains r where "readDeletedDoc env c d w = (Inr r, w)" "map_option (\<lambda>s. (deleted_at s, deleted_data s)) r = T d"
proof -
  have "doc_ok ob \<and> json_safe_number a" if "T d = Some (a, ob)" for a ob
    using maps_ok_tomb [OF m that] by (simp add: storable_def)
  then show thesis using readDeletedDoc_run [OF env b d] that by blast
qed

lemma getLatest_run:
  assumes env: "index_env env rs c" "fs env = ops" and w: "store env rs c D T w" and d: "isTTID d"
  shows "getLatest env c d onlyId w =
    (Inr (case D d of None \<Rightarrow> if onlyId then JNull else JObj []
          | Some ob \<Rightarrow> if onlyId then JStr d else JObj [(d, JObj ob)]), w)"
proof -
  obtain r where r: "readStoredDoc env c d w = (Inr r, w)" "map_option stored_data r = D d"
    "\<forall>s. r = Some s \<longrightarrow> stored_id s = d"
    using read_live [OF env store_base [OF w] d store_maps [OF w]] .
  show ?thesis
  proof (cases r)
    case (Some s)
    with r have "D d = Some (stored_data s)" "stored_id s = d" by auto
    with Some r(1) base_requireCollection [OF env store_base [OF w]] d show ?thesis
      by (auto simp: getLatest_def bind_op_def seq_op_def validateDocId_def)
  qed (use r base_requireCollection [OF env store_base [OF w]] d in
    \<open>auto simp: getLatest_def bind_op_def seq_op_def validateDocId_def\<close>)
qed

subsubsection \<open>Publishing an insert\<close>

lemma publish_insert_run:
  assumes env: "index_env env rs c" "fs env = ops" and b: "base rs c D T K w" and d: "isTTID d" and m: "maps_ok (digest env) D T"
  shows "\<exists>v ts. publish_insert env c d doc w = (Inr (), v) \<and> base rs c D T K v \<and> clock v = clock w \<and>
    dispatched v = dispatched w @ [(c, insert_event ts d doc)]"
proof -
  obtain r where r: "readStoredDoc env c d w = (Inr r, w)" using read_live [OF env b d m] .
  obtain ts n where ts: "event_time r w = (Inr ts, w\<lparr> ticks := n \<rparr>)"
  proof (cases r)
    case None
    then show thesis using that [of "clock w (ticks w)" "Suc (ticks w)"] by (simp add: event_time_def date_now_def)
  next
    case (Some s)
    then show thesis using that [of "stored_updated s" "ticks w"] by (simp add: event_time_def)
  qed
  have "base rs c D T K (w\<lparr> ticks := n \<rparr>)" using b by simp
  from base_publish [OF env this, of "insert_event ts d doc"] r ts show ?thesis
    by (auto simp: publish_insert_def bind_op_def)
qed

subsubsection \<open>Putting\<close>

lemma doc_index_keys: "storable h d ob \<Longrightarrow> \<exists>keys. entriesForDocument h d ob = Inr keys \<and> set keys = doc_index h d ob"
  by (auto simp: storable_def doc_index_def is_ok_iff)

text \<open>The keys of the document a put replaces are removed first.\<close>

lemma put_unindex:
  assumes env: "index_env env rs c" "fs env = ops" and b: "base rs c D T (indexed_keys (digest env) D) w"
    and m: "maps_ok (digest env) D T" and r: "map_option stored_data r = D d" and worm: "D d = None \<or> \<not> wormEnabled env"
  shows "\<exists>v. (case r of Some s \<Rightarrow> if planPutOperation (r \<noteq> None) (wormEnabled env) False = PutUpdate
                then removeDocument env c d (stored_data s) else ret () | None \<Rightarrow> ret ()) w = (Inr (), v) \<and>
    base rs c D T (indexed_keys (digest env) (D(d := None))) v \<and> quiet w v"
proof (cases r)
  case None
  with r have "D(d := None) = D" by (simp add: fun_upd_idem)
  with None b show ?thesis by auto
next
  case (Some s)
  with r have D: "D d = Some (stored_data s)" by simp
  from doc_index_keys [OF maps_ok_live [OF m D]] obtain keys where
    keys: "entriesForDocument (digest env) d (stored_data s) = Inr keys" "set keys = doc_index (digest env) d (stored_data s)" by blast
  have "isTTID d" using maps_ok_live [OF m D] by (simp add: storable_def)
  from base_putDocument(2) [OF env b this keys(1)] indexed_owned [OF m D] worm D Some show ?thesis
    by (auto simp: planPutOperation_def keys(2) indexed_remove [OF m D])
qed

lemma put_accepted:
  assumes env: "index_env env rs c" "fs env = ops" and w: "store env rs c D T w" and ob: "storable (digest env) d ob"
    and free: "T d = None" "D d = None \<or> \<not> wormEnabled env"
  shows "\<exists>v ts. put_in_lane env c d (JObj ob) JUndef w = (Inr d, v) \<and> store env rs c (D(d \<mapsto> ob)) T v \<and>
    clock v = clock w \<and> dispatched v = dispatched w @ [(c, insert_event ts d (JObj ob))]"
proof -
  let ?h = "digest env" and ?D = "D(d \<mapsto> ob)"
  note b = store_base [OF w] and m = store_maps [OF w]
  have d: "isTTID d" and safe: "json_safe (JObj ob)" using ob by (auto simp: storable_def doc_ok_def)
  have m': "maps_ok ?h ?D T" by (rule maps_ok_put [OF m ob free(1)])
  obtain w1 where w1: "ensureCollection env c w = (Inr (), w1)" "base rs c D T (indexed_keys ?h D) w1" "quiet w w1"
    using base_ensure [OF env b] by blast
  have "readDeletedDoc env c d w1 = (Inr None, w1)"
    using read_tomb [OF env w1(2) d m] free(1) by (metis map_option_is_None)
  moreover obtain r where r: "readStoredDoc env c d w1 = (Inr r, w1)" "map_option stored_data r = D d"
    using read_live [OF env w1(2) d m] .
  moreover obtain w2 where w2: "(case r of Some s \<Rightarrow> if planPutOperation (r \<noteq> None) (wormEnabled env) False = PutUpdate
                then removeDocument env c d (stored_data s) else ret () | None \<Rightarrow> ret ()) w1 = (Inr (), w2)"
    "base rs c D T (indexed_keys ?h (D(d := None))) w2" "quiet w1 w2"
    using put_unindex [OF env w1(2) m r(2) free(2)] by blast
  moreover obtain w3 where w3: "writeStoredDoc env c d (JObj ob) w2 = (Inr (), w3)"
    "base rs c ?D T (indexed_keys ?h (D(d := None))) w3" "quiet w2 w3"
    using writeStoredDoc_run [OF env w2(2) d safe] free(1) by (auto simp: fun_upd_idem)
  moreover obtain w4 where w4: "putDocument env c d ob w3 = (Inr (), w4)" "base rs c ?D T (indexed_keys ?h ?D) w4" "quiet w3 w4"
  proof -
    obtain keys where k: "entriesForDocument ?h d ob = Inr keys" "set keys = doc_index ?h d ob"
      using doc_index_keys [OF ob] by blast
    have "indexed_keys ?h (D(d := None)) \<union> set keys = indexed_keys ?h ?D"
      using indexed_insert [of "D(d := None)" d ?h ob] k(2) by simp
    with base_putDocument(1) [OF env w3(2) d k(1)] that show thesis by auto
  qed
  moreover obtain v ts where v: "publish_insert env c d (JObj ob) w4 = (Inr (), v)" "base rs c ?D T (indexed_keys ?h ?D) v"
    "clock v = clock w4" "dispatched v = dispatched w4 @ [(c, insert_event ts d (JObj ob))]"
    using publish_insert_run [OF env w4(2) d m'] by blast
  moreover have "planPutOperation (r \<noteq> None) (wormEnabled env) False \<notin> {ErrSoftDeleted, ErrWormUpdate}"
    using free(2) r(2) by (auto simp: planPutOperation_def)
  ultimately have "put_in_lane env c d (JObj ob) JUndef w = (Inr d, v)"
    using w1(1) by (cases r) (simp_all add: put_in_lane_def bind_op_def seq_op_def catch_op_def fields_of_def Let_def)
  moreover have "quiet w w4" using w1(3) w2(3) w3(3) w4(3) quiet_trans by blast
  ultimately show ?thesis using v m' by (auto simp: store_at_def quiet_def)
qed

text \<open>A put that is refused leaves the collection as it was.\<close>

lemma put_refused:
  assumes env: "index_env env rs c" "fs env = ops" and w: "store env rs c D T w" and d: "isTTID d"
    and no: "T d \<noteq> None \<or> D d \<noteq> None \<and> wormEnabled env"
  shows "\<exists>e v. put_in_lane env c d doc meta w = (Inl e, v) \<and> store env rs c D T v \<and> quiet w v \<and>
    err_message e = (if T d \<noteq> None then ''Document is soft-deleted; restore it before writing: '' @ d
                     else ''Update is not allowed in WORM mode'')"
proof -
  let ?h = "digest env"
  note m = store_maps [OF w]
  obtain w1 where w1: "ensureCollection env c w = (Inr (), w1)" "base rs c D T (indexed_keys ?h D) w1" "quiet w w1"
    using base_ensure [OF env store_base [OF w]] by blast
  obtain t where t: "readDeletedDoc env c d w1 = (Inr t, w1)" "map_option (\<lambda>s. (deleted_at s, deleted_data s)) t = T d"
    using read_tomb [OF env w1(2) d m] .
  obtain r where r: "readStoredDoc env c d w1 = (Inr r, w1)" "map_option stored_data r = D d"
    using read_live [OF env w1(2) d m] .
  have "(t \<noteq> None) = (T d \<noteq> None)" "(r \<noteq> None) = (D d \<noteq> None)" using t(2) r(2) by (metis option.map_disc_iff)+
  with no have "put_in_lane env c d doc meta w =
      (Inl (plain_error (if T d \<noteq> None then ''Document is soft-deleted; restore it before writing: '' @ d
                     else ''Update is not allowed in WORM mode'')), w1)"
    using w1(1) t(1) r(1) by (auto simp: put_in_lane_def bind_op_def seq_op_def Let_def planPutOperation_def)
  with w1 m show ?thesis by (auto simp: store_at_def)
qed

subsubsection \<open>Deleting and restoring\<close>

lemma softDelete_run:
  assumes env: "index_env env rs c" "fs env = ops" and b: "base rs c D T K w" and d: "isTTID d"
    and ob: "D d = Some ob" "doc_ok ob" and now: "json_safe_number (f64_of_int now)"
  shows "\<exists>v target. softDeleteStoredDoc env c d now w = (Inr target, v) \<and>
    base rs c (D(d := None)) (T(d \<mapsto> (f64_of_int now, ob))) K v \<and> quiet w v"
proof -
  let ?p = "place rs c ''docs'' d" and ?t = "tombstone (f64_of_int now) ob"
  note l = collection_layout [OF env(1)]
  have p: "?p \<in> file_positions rs c" by (rule place_position(1) [OF tree_name_in(1) d])
  have f: "content w ?p = Some (utf8_encode (json_text (JObj ob)))"
    using docs_holdD(1) [OF base_docs [OF b] d] ob(1) by (simp add: doc_bytes_def)
  have e: "w_exists env ?p w = (Inr True, w)" using tree_exists [OF l base_tree [OF b] env(2) p] f by simp
  have r: "w_readText env ?p w = (Inr (json_text (JObj ob)), w)" by (rule tree_read [OF l base_tree [OF b] env(2) p f])
  have safe: "json_safe (JObj ob)" "obj_of ob = ob" using ob(2) by (simp_all add: doc_ok_def canonical_obj_def)
  note parse = parse_doc [OF safe(1)] and tomb = assert_doc [OF tombstone_safe [OF ob(2) now]]
  obtain w1 where w1: "w_writeText env (place rs c ''.deleted'' d) (json_text (JObj ?t)) w = (Inr (), w1)"
    "base rs c D (T(d \<mapsto> (f64_of_int now, ob))) K w1" "quiet w w1"
    using base_write(2) [OF env b d] by blast
  obtain v where v: "w_remove env ?p w1 = (Inr (), v)" "base rs c (D(d := None)) (T(d \<mapsto> (f64_of_int now, ob))) K v" "quiet w1 v"
    using base_remove(1) [OF env w1(2) d] ob(1) by blast
  have "softDeleteStoredDoc env c d now w = (Inr (place rs c ''.deleted'' d), v)"
    using e r w1(1) v(1) d parse tomb safe(2) collection_roots [OF env(1)] doc_paths [OF env(1) d]
      existingPath_run(1) [OF env base_tree [OF b] tree_name_in(1) d docs_holdD(3) [OF base_docs [OF b] d]]
    by (simp add: softDeleteStoredDoc_def move_ends_def bind_op_def seq_op_def validateDocId_def tombstone_def del: json_text.simps)
  with v w1(3) quiet_trans show ?thesis by blast
qed

lemma restoreStored_run:
  assumes env: "index_env env rs c" "fs env = ops" and b: "base rs c D T K w" and d: "isTTID d"
    and ob: "T d = Some (deleted, ob)" "doc_ok ob" "json_safe_number deleted"
  shows "\<exists>v target. restoreStoredDoc env c d w = (Inr target, v) \<and>
    base rs c (D(d \<mapsto> ob)) (T(d := None)) K v \<and> quiet w v"
proof -
  let ?p = "place rs c ''.deleted'' d" and ?t = "tombstone deleted ob"
  note l = collection_layout [OF env(1)]
  have p: "?p \<in> file_positions rs c" by (rule place_position(1) [OF tree_name_in(2) d])
  have f: "content w ?p = Some (utf8_encode (json_text (JObj ?t)))"
    using docs_holdD(2) [OF base_docs [OF b] d] ob(1) by (simp add: doc_bytes_def tomb_bytes_def)
  have e: "w_exists env ?p w = (Inr True, w)" using tree_exists [OF l base_tree [OF b] env(2) p] f by simp
  have r: "w_readText env ?p w = (Inr (json_text (JObj ?t)), w)" by (rule tree_read [OF l base_tree [OF b] env(2) p f])
  have safe: "json_safe (JObj ob)" using ob(2) by (simp add: doc_ok_def)
  note parse = parse_doc [OF tombstone_safe [OF ob(2,3)]] and strip = strip_tombstone [OF ob(2), of deleted]
  obtain w1 where w1: "w_writeText env (place rs c ''docs'' d) (json_text (JObj ob)) w = (Inr (), w1)"
    "base rs c (D(d \<mapsto> ob)) T K w1" "quiet w w1"
    using base_write(1) [OF env b d] by blast
  obtain v where v: "w_remove env ?p w1 = (Inr (), v)" "base rs c (D(d \<mapsto> ob)) (T(d := None)) K v" "quiet w1 v"
    using base_remove(2) [OF env w1(2) d] ob(1) by blast
  have "restoreStoredDoc env c d w = (Inr (place rs c ''docs'' d), v)"
    using e r w1(1) v(1) d parse assert_doc [OF safe] strip collection_roots [OF env(1)] doc_paths [OF env(1) d]
      existingPath_run(1) [OF env base_tree [OF b] tree_name_in(2) d docs_holdD(4) [OF base_docs [OF b] d]]
    by (simp add: restoreStoredDoc_def move_ends_def bind_op_def seq_op_def validateDocId_def del: json_text.simps)
  with v w1(3) quiet_trans show ?thesis by blast
qed

lemma delDoc_run:
  assumes env: "index_env env rs c" "fs env = ops" and w: "store env rs c D T w" and d: "isTTID d"
    and ob: "D d = Some ob" and worm: "\<not> wormEnabled env" and now: "clock_safe w"
  shows "\<exists>v n. delDoc env c d w = (Inr (), v) \<and> clock v = clock w \<and>
    store env rs c (D(d := None)) (T(d \<mapsto> (f64_of_int (clock w n), ob))) v"
proof -
  let ?h = "digest env"
  note b = store_base [OF w] and m = store_maps [OF w]
  have st: "storable ?h d ob" by (rule maps_ok_live [OF m ob])
  obtain r where r: "readStoredDoc env c d w = (Inr r, w)" "map_option stored_data r = D d"
    using read_live [OF env b d m] .
  then obtain s where s: "r = Some s" "stored_data s = ob" using ob by (cases r) auto
  obtain keys where k: "entriesForDocument ?h d ob = Inr keys" "set keys = doc_index ?h d ob"
    using doc_index_keys [OF st] by blast
  obtain w1 where w1: "removeDocument env c d ob w = (Inr (), w1)" "base rs c D T (indexed_keys ?h (D(d := None))) w1" "quiet w w1"
    using base_putDocument(2) [OF env b d k(1)] k(2) indexed_remove [OF m ob] indexed_owned [OF m ob] by auto
  let ?n = "ticks w1" and ?w2 = "w1\<lparr> ticks := Suc (ticks w1) \<rparr>"
  let ?now = "clock w1 ?n"
  have safe: "json_safe_number (f64_of_int ?now)" using now w1(3) by (simp add: clock_safe_def quiet_def)
  have b2: "base rs c D T (indexed_keys ?h (D(d := None))) ?w2" using w1(2) by simp
  have "doc_ok ob" using st by (simp add: storable_def)
  then obtain w3 target where w3: "softDeleteStoredDoc env c d ?now ?w2 = (Inr target, w3)"
    "base rs c (D(d := None)) (T(d \<mapsto> (f64_of_int ?now, ob))) (indexed_keys ?h (D(d := None))) w3" "quiet ?w2 w3"
    using softDelete_run [OF env b2 d ob _ safe] by blast
  obtain v where v: "publish env c (delete_event ?now s) w3 = (Inr (), v)" "clock v = clock w3"
    "base rs c (D(d := None)) (T(d \<mapsto> (f64_of_int ?now, ob))) (indexed_keys ?h (D(d := None))) v"
    using base_publish [OF env w3(2)] by blast
  have "delDoc env c d w = (Inr (), v)"
    using base_requireCollection [OF env b] r(1) s w1(1) w3(1) v(1) d worm
    by (simp add: delDoc_def bind_op_def seq_op_def validateDocId_def planDeleteOperation_def date_now_def)
  moreover have "maps_ok ?h (D(d := None)) (T(d \<mapsto> (f64_of_int ?now, ob)))" by (rule maps_ok_delete [OF m ob safe])
  moreover have "clock v = clock w" "?now = clock w ?n" using v(2) w3(3) w1(3) by (simp_all add: quiet_def)
  ultimately show ?thesis using v(3) unfolding store_at_def by metis
qed

lemma delDoc_other:
  assumes env: "index_env env rs c" "fs env = ops" and w: "store env rs c D T w" and d: "isTTID d"
    and "D d = None \<or> wormEnabled env"
  shows "delDoc env c d w =
    (if wormEnabled env then Inl (plain_error ''Delete is not allowed in WORM mode'') else Inr (), w)"
proof -
  obtain r where r: "readStoredDoc env c d w = (Inr r, w)" "map_option stored_data r = D d"
    using read_live [OF env store_base [OF w] d store_maps [OF w]] .
  then show ?thesis
    using base_requireCollection [OF env store_base [OF w]] d assms(5)
    by (cases r) (auto simp: delDoc_def bind_op_def seq_op_def validateDocId_def planDeleteOperation_def)
qed

lemma restoreDoc_run:
  assumes env: "index_env env rs c" "fs env = ops" and w: "store env rs c D T w" and d: "isTTID d"
    and ob: "T d = Some (deleted, ob)" and worm: "\<not> wormEnabled env"
  shows "\<exists>v. restoreDoc env c d w = (Inr d, v) \<and> clock v = clock w \<and> store env rs c (D(d \<mapsto> ob)) (T(d := None)) v"
proof -
  let ?h = "digest env" and ?D = "D(d \<mapsto> ob)" and ?T = "T(d := None)"
  note b = store_base [OF w] and m = store_maps [OF w]
  have st: "storable ?h d ob" "json_safe_number deleted" using maps_ok_tomb [OF m ob] by auto
  have D: "D d = None" using m ob unfolding maps_ok_def by (metis option.distinct(1))
  have m': "maps_ok ?h ?D ?T" by (rule maps_ok_restore [OF m ob])
  have r: "readStoredDoc env c d w = (Inr None, w)"
    using read_live [OF env b d m] D by (metis map_option_is_None)
  obtain t where t: "readDeletedDoc env c d w = (Inr t, w)" "map_option (\<lambda>s. (deleted_at s, deleted_data s)) t = T d"
    using read_tomb [OF env b d m] .
  obtain s where s: "t = Some s" "deleted_data s = ob" using t(2) ob by (cases t) auto
  let ?w1 = "w\<lparr> ticks := Suc (ticks w) \<rparr>"
  have b1: "base rs c D T (indexed_keys ?h D) ?w1" using b by simp
  have okd: "doc_ok ob" using st by (simp add: storable_def)
  obtain w2 target where w2: "restoreStoredDoc env c d ?w1 = (Inr target, w2)"
    "base rs c ?D ?T (indexed_keys ?h D) w2" "quiet ?w1 w2"
    using restoreStored_run [OF env b1 d ob okd st(2)] by blast
  obtain keys where k: "entriesForDocument ?h d ob = Inr keys" "set keys = doc_index ?h d ob"
    using doc_index_keys [OF st(1)] by blast
  obtain w3 where w3: "putDocument env c d ob w2 = (Inr (), w3)" "base rs c ?D ?T (indexed_keys ?h ?D) w3" "quiet w2 w3"
    using base_putDocument(1) [OF env w2(2) d k(1)] k(2) indexed_insert [of D d ?h ob] D by auto
  obtain v ts where v: "publish_insert env c d (JObj ob) w3 = (Inr (), v)" "base rs c ?D ?T (indexed_keys ?h ?D) v"
    "clock v = clock w3"
    using publish_insert_run [OF env w3(2) d m'] by blast
  have "restoreDoc env c d w = (Inr d, v)"
    using base_requireCollection [OF env b] r t(1) s w2(1) w3(1) v(1) d worm
    by (simp add: restoreDoc_def bind_op_def seq_op_def validateDocId_def planRestoreOperation_def date_now_def)
  moreover have "clock v = clock w" using v(3) w3(3) w2(3) by (simp add: quiet_def)
  ultimately show ?thesis using v(2) m' unfolding store_at_def by blast
qed

lemma restoreDoc_refused:
  assumes env: "index_env env rs c" "fs env = ops" and w: "store env rs c D T w" and d: "isTTID d"
    and "wormEnabled env \<or> T d = None"
  shows "restoreDoc env c d w = (Inl (plain_error
    (if wormEnabled env then ''Restore is not allowed in WORM mode''
     else if D d \<noteq> None then ''Cannot restore document because it already exists: '' @ d
     else ''Deleted document not found: '' @ d)), w)"
proof -
  obtain r where r: "readStoredDoc env c d w = (Inr r, w)" "map_option stored_data r = D d"
    using read_live [OF env store_base [OF w] d store_maps [OF w]] .
  obtain t where t: "readDeletedDoc env c d w = (Inr t, w)" "map_option (\<lambda>s. (deleted_at s, deleted_data s)) t = T d"
    using read_tomb [OF env store_base [OF w] d store_maps [OF w]] .
  have "(t \<noteq> None) = (T d \<noteq> None)" "(r \<noteq> None) = (D d \<noteq> None)" using t(2) r(2) by (metis option.map_disc_iff)+
  then show ?thesis
    using base_requireCollection [OF env store_base [OF w]] d assms(5) r(1) t(1)
    by (cases r; cases t) (auto simp: restoreDoc_def bind_op_def seq_op_def validateDocId_def planRestoreOperation_def)
qed

end

subsection \<open>Calls and their specification\<close>

datatype call = PutCall string record_obj | DeleteCall string | RestoreCall string

definition call_ok :: "(bytes \<Rightarrow> bytes) \<Rightarrow> call \<Rightarrow> bool" where
  "call_ok h cl = (case cl of PutCall d ob \<Rightarrow> storable h d ob | DeleteCall d \<Rightarrow> isTTID d | RestoreCall d \<Rightarrow> isTTID d)"

definition run_call :: "'f core \<Rightarrow> string \<Rightarrow> call \<Rightarrow> ('f world, unit) op" where
  "run_call env c cl =
     (case cl of
        PutCall d ob \<Rightarrow> seq_op (putData env c (JObj [(d, JObj ob)]) JUndef) (ret ())
      | DeleteCall d \<Rightarrow> delDoc env c d
      | RestoreCall d \<Rightarrow> seq_op (restoreDoc env c d) (ret ()))"

text \<open>What a call does to the maps, and whether it is accepted; \<open>now\<close> is the time of a deletion.\<close>

definition spec_call :: "bool \<Rightarrow> f64 \<Rightarrow> call \<Rightarrow> live_map \<times> tomb_map \<Rightarrow> bool \<times> live_map \<times> tomb_map" where
  "spec_call worm now cl = (\<lambda>(D, T).
     case cl of
       PutCall d ob \<Rightarrow> if T d \<noteq> None \<or> D d \<noteq> None \<and> worm then (False, D, T) else (True, D(d \<mapsto> ob), T)
     | DeleteCall d \<Rightarrow>
         if worm then (False, D, T)
         else (case D d of None \<Rightarrow> (True, D, T) | Some ob \<Rightarrow> (True, D(d := None), T(d \<mapsto> (now, ob))))
     | RestoreCall d \<Rightarrow>
         if worm then (False, D, T)
         else (case T d of None \<Rightarrow> (False, D, T) | Some (_, ob) \<Rightarrow> (True, D(d \<mapsto> ob), T(d := None))))"

context fylo_tree
begin

lemma putData_explicit:
  assumes env: "index_env env rs c" "fs env = ops" and w: "store env rs c D T w" and d: "isTTID d"
  shows "putData env c (JObj [(d, JObj ob)]) JUndef w = put_in_lane env c d (JObj ob) JUndef w"
  using base_requireCollection [OF env store_base [OF w]] d
  by (simp add: putData_def bind_op_def seq_op_def explicitDocumentEntry_def object_entries_def validateDocId_def)

lemma call_refines:
  assumes env: "index_env env rs c" "fs env = ops" and w: "store env rs c D T w" and now: "clock_safe w"
    and ok: "call_ok (digest env) cl"
  shows "\<exists>r v n ok D' T'. run_call env c cl w = (r, v) \<and> clock v = clock w \<and>
    spec_call (wormEnabled env) (f64_of_int (clock w n)) cl (D, T) = (ok, D', T') \<and> is_ok r = ok \<and> store env rs c D' T' v"
proof (cases cl)
  case (PutCall d ob)
  then have st: "storable (digest env) d ob" and d: "isTTID d" using ok by (auto simp: call_ok_def storable_def)
  note e = putData_explicit [OF env w d, of ob]
  show ?thesis
  proof (cases "T d \<noteq> None \<or> D d \<noteq> None \<and> wormEnabled env")
    case True
    from put_refused [OF env w d this, of "JObj ob" JUndef] True PutCall e show ?thesis
      by (auto simp: run_call_def spec_call_def seq_op_def bind_op_def quiet_def)
  next
    case False
    with put_accepted [OF env w st] PutCall e show ?thesis
      by (fastforce simp: run_call_def spec_call_def seq_op_def bind_op_def)
  qed
next
  case (DeleteCall d)
  then have d: "isTTID d" using ok by (simp add: call_ok_def)
  show ?thesis
  proof (cases "D d = None \<or> wormEnabled env")
    case True
    with delDoc_other [OF env w d] DeleteCall w show ?thesis
      by (auto simp: run_call_def spec_call_def)
  next
    case False
    with delDoc_run [OF env w d _ _ now] DeleteCall show ?thesis
      by (fastforce simp: run_call_def spec_call_def)
  qed
next
  case (RestoreCall d)
  then have d: "isTTID d" using ok by (simp add: call_ok_def)
  show ?thesis
  proof (cases "wormEnabled env \<or> T d = None")
    case True
    with restoreDoc_refused [OF env w d] RestoreCall w show ?thesis
      by (auto simp: run_call_def spec_call_def seq_op_def bind_op_def)
  next
    case False
    then obtain deleted ob where "T d = Some (deleted, ob)" "\<not> wormEnabled env" by auto
    with restoreDoc_run [OF env w d] RestoreCall show ?thesis
      by (fastforce simp: run_call_def spec_call_def seq_op_def bind_op_def)
  qed
qed

end

text \<open>A sequence of calls, each awaited and its error caught by the caller.\<close>

fun run_calls :: "'f core \<Rightarrow> string \<Rightarrow> call list \<Rightarrow> ('f world, unit) op" where
  "run_calls env c [] = ret ()"
| "run_calls env c (cl # cls) = seq_op (catch_op (run_call env c cl) (\<lambda>_. ret ())) (run_calls env c cls)"

definition spec_calls :: "bool \<Rightarrow> (f64 \<times> call) list \<Rightarrow> live_map \<times> tomb_map \<Rightarrow> live_map \<times> tomb_map" where
  "spec_calls worm steps maps = foldl (\<lambda>m (now, cl). snd (spec_call worm now cl m)) maps steps"

lemma spec_calls_simps [simp]:
  "spec_calls worm [] maps = maps"
  "spec_calls worm ((now, cl) # steps) maps = spec_calls worm steps (snd (spec_call worm now cl maps))"
  by (simp_all add: spec_calls_def)

lemma spec_worm_keeps: "D d = Some ob \<Longrightarrow> fst (snd (spec_call True now cl (D, T))) d = Some ob"
  by (auto simp: spec_call_def split: call.split)

lemma spec_calls_worm: "D d = Some ob \<Longrightarrow> fst (spec_calls True steps (D, T)) d = Some ob"
proof (induction steps arbitrary: D T)
  case (Cons step steps)
  obtain now cl where step: "step = (now, cl)" by fastforce
  obtain ok D' T' where sp: "spec_call True now cl (D, T) = (ok, D', T')" by (metis prod_cases3)
  with spec_worm_keeps [of D d ob now cl T] Cons.prems have "D' d = Some ob" by simp
  with Cons.IH [of D' T'] sp step show ?case by simp
qed simp

context fylo_tree
begin

lemma calls_refine:
  assumes env: "index_env env rs c" "fs env = ops"
  shows "store env rs c D T w \<Longrightarrow> clock_safe w \<Longrightarrow> list_all (call_ok (digest env)) cls \<Longrightarrow>
    \<exists>v nows. run_calls env c cls w = (Inr (), v) \<and> length nows = length cls \<and>
      (\<exists>D' T'. spec_calls (wormEnabled env) (zip nows cls) (D, T) = (D', T') \<and> store env rs c D' T' v)"
proof (induction cls arbitrary: D T w)
  case (Cons cl cls)
  from Cons.prems(3) have ok: "call_ok (digest env) cl" "list_all (call_ok (digest env)) cls" by simp_all
  obtain r v n acc D1 T1 where 1: "run_call env c cl w = (r, v)" "clock v = clock w"
    "spec_call (wormEnabled env) (f64_of_int (clock w n)) cl (D, T) = (acc, D1, T1)" "store env rs c D1 T1 v"
    using call_refines [OF env Cons.prems(1,2) ok(1)] by blast
  have "clock_safe v" using Cons.prems(2) 1(2) by (simp add: clock_safe_def)
  from Cons.IH [OF 1(4) this ok(2)] obtain u nows D' T' where 2: "run_calls env c cls v = (Inr (), u)"
    "length nows = length cls" "spec_calls (wormEnabled env) (zip nows cls) (D1, T1) = (D', T')" "store env rs c D' T' u"
    by blast
  have "run_calls env c (cl # cls) w = (Inr (), u)"
    using 1(1) 2(1) by (cases r) (simp_all add: seq_op_def bind_op_def catch_op_def)
  with 1(3) 2(2-4) show ?case
    by (intro exI [of _ u] exI [of _ "f64_of_int (clock w n) # nows"]) simp
qed simp

text \<open>A document whose indexing fails is written before the put throws.\<close>

lemma put_half_done:
  assumes env: "index_env env rs c" "fs env = ops" and w: "store env rs c D T w" and d: "isTTID d" and ob: "doc_ok ob"
    and bad: "entriesForDocument (digest env) d ob = Inl e" and free: "T d = None" "D d = None"
  shows "\<exists>v. putData env c (JObj [(d, JObj ob)]) JUndef w = (Inl e, v) \<and>
    base rs c (D(d \<mapsto> ob)) T (indexed_keys (digest env) D) v"
proof -
  let ?h = "digest env"
  note b = store_base [OF w] and m = store_maps [OF w]
  have safe: "json_safe (JObj ob)" using ob by (simp add: doc_ok_def)
  obtain w1 where w1: "ensureCollection env c w = (Inr (), w1)" "base rs c D T (indexed_keys ?h D) w1"
    using base_ensure [OF env b] by blast
  have "readDeletedDoc env c d w1 = (Inr None, w1)" "readStoredDoc env c d w1 = (Inr None, w1)"
    using read_tomb [OF env w1(2) d m] read_live [OF env w1(2) d m] free by (metis map_option_is_None)+
  moreover obtain w3 where "writeStoredDoc env c d (JObj ob) w1 = (Inr (), w3)"
    "base rs c (D(d \<mapsto> ob)) T (indexed_keys ?h D) w3"
    using writeStoredDoc_run [OF env w1(2) d safe] free(1) by (auto simp: fun_upd_idem)
  ultimately show ?thesis
    using w1(1) putData_explicit [OF env w d] bad
    by (simp add: put_in_lane_def bind_op_def seq_op_def catch_op_def fields_of_def Let_def planPutOperation_def putDocument_def)
qed

lemma delete_stuck:
  assumes env: "index_env env rs c" "fs env = ops" and b: "base rs c D T K w" and d: "isTTID d"
    and ob: "D d = Some ob" "doc_ok ob" and bad: "entriesForDocument (digest env) d ob = Inl e" and worm: "\<not> wormEnabled env"
  shows "delDoc env c d w = (Inl e, w) \<and> getLatest env c d False w = (Inr (JObj [(d, JObj ob)]), w)"
proof -
  obtain r where r: "readStoredDoc env c d w = (Inr r, w)" "map_option stored_data r = D d"
    "\<forall>s. r = Some s \<longrightarrow> stored_id s = d"
    using readStoredDoc_run [OF env b d] ob by auto
  then obtain s where "r = Some s" "stored_data s = ob" "stored_id s = d" using ob(1) by (cases r) auto
  with r(1) base_requireCollection [OF env b] d worm bad show ?thesis
    by (simp add: delDoc_def getLatest_def removeDocument_def bind_op_def seq_op_def validateDocId_def planDeleteOperation_def)
qed

end

subsection \<open>The world of the witnesses\<close>

abbreviation store_on_memory :: "memory_fs core \<Rightarrow> string list \<Rightarrow> string \<Rightarrow> live_map \<Rightarrow> tomb_map \<Rightarrow> memory_fs world \<Rightarrow> bool" where
  "store_on_memory \<equiv> store_at mem_inv mem_file mem_dirs"

lemma root_no_file:
  assumes "index_env env rs c"
  shows "''/'' \<notin> file_positions rs c"
proof -
  have "coll_dir rs c @ [''index''] \<in> dir_tops rs c" by (simp add: dir_tops_def)
  then have "abs_path [] \<in> dir_positions rs c" unfolding dir_positions_def by force
  then show ?thesis using collection_layout [OF assms] by (auto simp: layout_def abs_path_def)
qed

text \<open>An empty filesystem holds an empty collection once it is created.\<close>

context fylo_tree
begin

lemma created_empty:
  assumes env: "index_env env rs c" "fs env = ops" and f: "inv f" "\<And>q. afile f q = None" "adir f = {''/''}"
  shows "\<exists>v. createCollection env c (new_world f readings) = (Inr (), v) \<and> store env rs c Map.empty Map.empty v \<and> clock v = readings"
proof -
  let ?wd = "new_world f readings"
  have t: "tree (dir_positions rs c) (file_positions rs c) ?wd"
    using f root_no_file [OF env(1)] by (auto simp: tree_at_def new_world_def)
  have h: "docs_hold rs c (content ?wd) Map.empty Map.empty" by (simp add: docs_hold_def new_world_def f(2))
  have at: "at rs c [] [] ?wd"
    using tree_index_room [OF env(1) t] f
    by (simp add: index_at_def new_world_def index_holds_def old_bytes_def serializeSnapshot_def serializeWal_def
        index_coherent_def new_index_state_def)
  from ensureCollection_run [OF env t h at whole_log_Nil] show ?thesis
    by (auto simp: createCollection_def store_at_def indexed_keys_def maps_ok_def quiet_def new_world_def)
qed

end

lemma created_store:
  assumes env: "index_env env rs c" "fs env = memory_ops" and "wd = new_world (new_memory_fs now) readings"
  shows "\<exists>v. createCollection env c wd = (Inr (), v) \<and> store_on_memory env rs c Map.empty Map.empty v \<and> clock v = readings"
  unfolding assms(3) using mem_inv_new by (intro mem.created_empty [OF env]) (simp_all add: mem_file_def mem_dirs_def new_memory_fs_def)

lemma mem_getLatest:
  "index_env env rs c \<Longrightarrow> fs env = memory_ops \<Longrightarrow> store_on_memory env rs c D T w \<Longrightarrow> isTTID d \<Longrightarrow>
   getLatest env c d False w = (Inr (case D d of None \<Rightarrow> JObj [] | Some ob \<Rightarrow> JObj [(d, JObj ob)]), w)"
  using mem.getLatest_run [of env rs c D T w d False] by (simp cong: option.case_cong)

definition demo_doc :: record_obj where
  "demo_doc = [(''a'', JStr ''x'')]"

lemma demo_storable: "isTTID ''4VLN5QUCDP0''" "storable (digest demo_core) ''4VLN5QUCDP0'' demo_doc"
proof -
  show t: "isTTID ''4VLN5QUCDP0''" by code_simp
  have "is_ok (entriesForDocument (\<lambda>b. b) ''4VLN5QUCDP0'' demo_doc)" "doc_ok demo_doc"
    unfolding doc_ok_def by code_simp+
  with t show "storable (digest demo_core) ''4VLN5QUCDP0'' demo_doc" by (simp add: storable_def demo_core_def)
qed

lemma demo_store:
  obtains v where "createCollection demo_core ''users'' demo_world = (Inr (), v)"
    "store_on_memory demo_core [''db''] ''users'' Map.empty Map.empty v" "clock_safe v"
proof -
  have "json_safe_number (f64_of_int 0)" by code_simp
  moreover obtain v where "createCollection demo_core ''users'' demo_world = (Inr (), v)"
    "store_on_memory demo_core [''db''] ''users'' Map.empty Map.empty v" "clock v = (\<lambda>_. 0)"
    using created_store [OF demo_env demo_world_def] by blast
  ultimately show thesis using that by (simp add: clock_safe_def)
qed

lemma demo_off: "\<not> wormEnabled demo_core"
  by (simp add: wormEnabled_def demo_core_def)

definition strict_core :: "memory_fs core" where
  "strict_core = demo_core\<lparr> wormMode := ''strict'' \<rparr>"

lemma strict_env: "index_env strict_core [''db''] ''users''" "fs strict_core = memory_ops" "wormEnabled strict_core"
  "digest strict_core = digest demo_core"
  using demo_env by (simp_all add: strict_core_def index_env_def wormEnabled_def)

lemma strict_store:
  obtains v where "createCollection strict_core ''users'' demo_world = (Inr (), v)"
    "store_on_memory strict_core [''db''] ''users'' Map.empty Map.empty v" "clock_safe v"
proof -
  have "json_safe_number (f64_of_int 0)" by code_simp
  moreover obtain v where "createCollection strict_core ''users'' demo_world = (Inr (), v)"
    "store_on_memory strict_core [''db''] ''users'' Map.empty Map.empty v" "clock v = (\<lambda>_. 0)"
    using created_store [OF strict_env(1,2) demo_world_def] by blast
  ultimately show thesis using that by (simp add: clock_safe_def)
qed

subsection \<open>The properties of the engine\<close>

text \<open>C1. The engine refines a map of live documents and a map of tombstones: from any state that stands
  for two such maps, after any sequence of puts, deletions and restorations, each awaited and some of them
  refused, the state stands for the maps the specification computes, the index holds exactly the keys of
  the live documents, and every read returns what the maps hold.\<close>

theorem engine_refines:
  assumes "index_env env rs c" and "fs env = memory_ops" and "store_on_memory env rs c D T w" and "clock_safe w"
    and "list_all (call_ok (digest env)) cls"
  shows "\<exists>v nows D' T'. run_calls env c cls w = (Inr (), v) \<and> length nows = length cls \<and>
    spec_calls (wormEnabled env) (zip nows cls) (D, T) = (D', T') \<and> store_on_memory env rs c D' T' v \<and>
    (\<forall>d. isTTID d \<longrightarrow> getLatest env c d False v =
       (Inr (case D' d of None \<Rightarrow> JObj [] | Some ob \<Rightarrow> JObj [(d, JObj ob)]), v))"
  using mem.calls_refine [OF assms] mem_getLatest [OF assms(1,2)] by blast

theorem engine_refines_witness:
  "\<exists>w v D T. createCollection demo_core ''users'' demo_world = (Inr (), w) \<and>
    run_calls demo_core ''users'' [PutCall ''4VLN5QUCDP0'' demo_doc, DeleteCall ''4VLN5QUCDP0'',
      RestoreCall ''4VLN5QUCDP0'', PutCall ''4VLN5QUCDP0'' demo_doc] w = (Inr (), v) \<and>
    store_on_memory demo_core [''db''] ''users'' D T v \<and> D ''4VLN5QUCDP0'' = Some demo_doc"
proof -
  let ?cls = "[PutCall ''4VLN5QUCDP0'' demo_doc, DeleteCall ''4VLN5QUCDP0'', RestoreCall ''4VLN5QUCDP0'',
    PutCall ''4VLN5QUCDP0'' demo_doc]"
  obtain w where w: "createCollection demo_core ''users'' demo_world = (Inr (), w)"
    "store_on_memory demo_core [''db''] ''users'' Map.empty Map.empty w" "clock_safe w" using demo_store .
  have "list_all (call_ok (digest demo_core)) ?cls" using demo_storable by (simp add: call_ok_def)
  from engine_refines [OF demo_env w(2,3) this] obtain v nows D T where
    v: "run_calls demo_core ''users'' ?cls w = (Inr (), v)" "length nows = length ?cls"
    "spec_calls (wormEnabled demo_core) (zip nows ?cls) (Map.empty, Map.empty) = (D, T)"
    "store_on_memory demo_core [''db''] ''users'' D T v" by blast
  then obtain t1 t2 t3 t4 where "nows = [t1, t2, t3, t4]"
    by (auto simp: length_Suc_conv)
  with v(3) demo_off have "D ''4VLN5QUCDP0'' = Some demo_doc" by (auto simp: spec_call_def)
  with v w(1) show ?thesis by blast
qed

text \<open>C5. Deleting and restoring a document is a round trip: a deleted document reads as absent, and its
  restoration brings back the same two maps, so the document reads as before.\<close>

theorem delete_restore_roundtrip:
  assumes "index_env env rs c" and "fs env = memory_ops" and "store_on_memory env rs c D T w" and "clock_safe w"
    and "isTTID d" and "D d = Some ob" and "\<not> wormEnabled env"
  shows "\<exists>v u. delDoc env c d w = (Inr (), v) \<and> getLatest env c d False v = (Inr (JObj []), v) \<and>
    restoreDoc env c d v = (Inr d, u) \<and> store_on_memory env rs c D T u \<and>
    getLatest env c d False u = (Inr (JObj [(d, JObj ob)]), u)"
proof -
  have T: "T d = None" using mem.store_maps [OF assms(3)] assms(6) unfolding maps_ok_def by (metis option.distinct(1))
  obtain v n where v: "delDoc env c d w = (Inr (), v)"
    "store_on_memory env rs c (D(d := None)) (T(d \<mapsto> (f64_of_int (clock w n), ob))) v"
    using mem.delDoc_run [OF assms(1-3,5-7,4)] by blast
  obtain u where u: "restoreDoc env c d v = (Inr d, u)"
    "store_on_memory env rs c (D(d := None, d \<mapsto> ob)) (T(d \<mapsto> (f64_of_int (clock w n), ob), d := None)) u"
    using mem.restoreDoc_run [OF assms(1,2) v(2) assms(5)] assms(7) by fastforce
  have "D(d := None, d \<mapsto> ob) = D" "T(d \<mapsto> (f64_of_int (clock w n), ob), d := None) = T"
    using assms(6) T by (auto simp: fun_eq_iff)
  with u v mem_getLatest [OF assms(1,2) v(2) assms(5)] mem_getLatest [OF assms(1,2) u(2) assms(5)] assms(6)
  show ?thesis by auto
qed

theorem delete_restore_roundtrip_witness:
  "\<exists>w v u. delDoc demo_core ''users'' ''4VLN5QUCDP0'' w = (Inr (), v) \<and>
    restoreDoc demo_core ''users'' ''4VLN5QUCDP0'' v = (Inr ''4VLN5QUCDP0'', u) \<and>
    getLatest demo_core ''users'' ''4VLN5QUCDP0'' False u = (Inr (JObj [(''4VLN5QUCDP0'', JObj demo_doc)]), u)"
proof -
  obtain w where w: "store_on_memory demo_core [''db''] ''users'' Map.empty Map.empty w" "clock_safe w" using demo_store .
  obtain v where "store_on_memory demo_core [''db''] ''users'' [''4VLN5QUCDP0'' \<mapsto> demo_doc] Map.empty v" "clock v = clock w"
    using mem.put_accepted [OF demo_env w(1) demo_storable(2)] by auto
  moreover from this(2) w(2) have "clock_safe v" by (simp add: clock_safe_def)
  ultimately show ?thesis
    using delete_restore_roundtrip [OF demo_env, of _ Map.empty v "''4VLN5QUCDP0''" demo_doc] demo_storable(1) demo_off by fastforce
qed

text \<open>C4. In strict WORM mode a document is written once: no sequence of puts, deletions and restorations changes
  or removes it, and it reads the same ever after.\<close>

theorem worm_write_once:
  assumes "index_env env rs c" and "fs env = memory_ops" and "store_on_memory env rs c D T w" and "clock_safe w"
    and "list_all (call_ok (digest env)) cls" and "wormEnabled env" and "isTTID d" and "D d = Some ob"
  shows "\<exists>v. run_calls env c cls w = (Inr (), v) \<and> getLatest env c d False v = (Inr (JObj [(d, JObj ob)]), v)"
proof -
  obtain v nows D' T' where v: "run_calls env c cls w = (Inr (), v)"
    "spec_calls (wormEnabled env) (zip nows cls) (D, T) = (D', T')" "store_on_memory env rs c D' T' v"
    using mem.calls_refine [OF assms(1-5)] by blast
  have "D' d = Some ob" using spec_calls_worm [of D d ob "zip nows cls" T] v(2) assms(6,8) by simp
  with mem_getLatest [OF assms(1,2) v(3) assms(7)] v(1) show ?thesis by simp
qed

theorem worm_write_once_witness:
  "\<exists>w v. run_calls strict_core ''users'' [DeleteCall ''4VLN5QUCDP0'', PutCall ''4VLN5QUCDP0'' [(''b'', JNull)]] w = (Inr (), v) \<and>
    getLatest strict_core ''users'' ''4VLN5QUCDP0'' False v = (Inr (JObj [(''4VLN5QUCDP0'', JObj demo_doc)]), v)"
proof -
  obtain w where w: "store_on_memory strict_core [''db''] ''users'' Map.empty Map.empty w" "clock_safe w" using strict_store .
  obtain v where v: "store_on_memory strict_core [''db''] ''users'' [''4VLN5QUCDP0'' \<mapsto> demo_doc] Map.empty v" "clock v = clock w"
    using mem.put_accepted [OF strict_env(1,2) w(1), of "''4VLN5QUCDP0''" demo_doc] demo_storable(2) strict_env(4) by auto
  have "is_ok (entriesForDocument (\<lambda>b. b) ''4VLN5QUCDP0'' [(''b'', JNull)])" "doc_ok [(''b'', JNull)]"
    unfolding doc_ok_def by code_simp+
  then have "list_all (call_ok (digest strict_core)) [DeleteCall ''4VLN5QUCDP0'', PutCall ''4VLN5QUCDP0'' [(''b'', JNull)]]"
    using demo_storable(1) strict_env(4) by (simp add: call_ok_def storable_def demo_core_def)
  moreover have "clock_safe v" using v(2) w(2) by (simp add: clock_safe_def)
  ultimately show ?thesis
    using worm_write_once [OF strict_env(1,2) v(1) _ _ strict_env(3) demo_storable(1), of _ demo_doc] by fastforce
qed

text \<open>C26. A refused write changes nothing: a put of a soft-deleted document, or of an existing one in strict
  WORM mode, ends in the error the code names, and the collection still stands for the same maps, with no
  event dispatched.\<close>

theorem refused_put_changes_nothing:
  assumes "index_env env rs c" and "fs env = memory_ops" and "store_on_memory env rs c D T w" and "isTTID d"
    and "T d \<noteq> None \<or> D d \<noteq> None \<and> wormEnabled env"
  shows "\<exists>e v. putData env c (JObj [(d, JObj ob)]) JUndef w = (Inl e, v) \<and>
    err_message e = (if T d \<noteq> None then ''Document is soft-deleted; restore it before writing: '' @ d
                     else ''Update is not allowed in WORM mode'') \<and>
    store_on_memory env rs c D T v \<and> dispatched v = dispatched w"
  using mem.put_refused [OF assms, of "JObj ob" JUndef] unfolding mem.putData_explicit [OF assms(1-4)] quiet_def by blast

theorem refused_put_changes_nothing_witness:
  "\<exists>w e v. putData demo_core ''users'' (JObj [(''4VLN5QUCDP0'', JObj demo_doc)]) JUndef w = (Inl e, v) \<and>
    err_message e = ''Document is soft-deleted; restore it before writing: 4VLN5QUCDP0'' \<and> dispatched v = dispatched w"
proof -
  obtain w where w: "store_on_memory demo_core [''db''] ''users'' Map.empty Map.empty w" "clock_safe w" using demo_store .
  obtain v where v: "store_on_memory demo_core [''db''] ''users'' [''4VLN5QUCDP0'' \<mapsto> demo_doc] Map.empty v" "clock v = clock w"
    using mem.put_accepted [OF demo_env w(1) demo_storable(2)] by auto
  then have "clock_safe v" using w(2) by (simp add: clock_safe_def)
  then obtain u t where "store_on_memory demo_core [''db''] ''users'' ([''4VLN5QUCDP0'' \<mapsto> demo_doc](''4VLN5QUCDP0'' := None))
      [''4VLN5QUCDP0'' \<mapsto> (t, demo_doc)] u"
    using mem.delDoc_run [OF demo_env v(1) demo_storable(1), of demo_doc] demo_off by auto
  from refused_put_changes_nothing [OF demo_env this demo_storable(1), of demo_doc] show ?thesis by auto
qed

text \<open>C39. A put is not atomic: when the keys of a new document cannot be computed, as for an array of objects,
  the put throws after the document was written; the document is read from then on, and deleting it
  throws the same error.\<close>

theorem put_not_atomic:
  assumes "index_env env rs c" and "fs env = memory_ops" and "store_on_memory env rs c D T w" and "isTTID d"
    and "doc_ok ob" and "entriesForDocument (digest env) d ob = Inl e" and "T d = None" and "D d = None" and "\<not> wormEnabled env"
  shows "\<exists>v. putData env c (JObj [(d, JObj ob)]) JUndef w = (Inl e, v) \<and>
    getLatest env c d False v = (Inr (JObj [(d, JObj ob)]), v) \<and> delDoc env c d v = (Inl e, v)"
proof -
  obtain v where v: "putData env c (JObj [(d, JObj ob)]) JUndef w = (Inl e, v)"
    "base_at mem_inv mem_file mem_dirs rs c (D(d \<mapsto> ob)) T (indexed_keys (digest env) D) v"
    using mem.put_half_done [OF assms(1-8)] by blast
  with mem.delete_stuck [OF assms(1,2) v(2) assms(4) _ assms(5,6,9)] show ?thesis by auto
qed

theorem put_not_atomic_witness:
  "\<exists>w e v. putData demo_core ''users'' (JObj [(''4VLN5QUCDP0'', JObj [(''a'', JArr [JObj []])])]) JUndef w = (Inl e, v) \<and>
    delDoc demo_core ''users'' ''4VLN5QUCDP0'' v = (Inl e, v)"
proof -
  obtain w where w: "store_on_memory demo_core [''db''] ''users'' Map.empty Map.empty w" using demo_store .
  have "\<not> is_ok (entriesForDocument (\<lambda>b. b) ''4VLN5QUCDP0'' [(''a'', JArr [JObj []])])"
    and ok: "doc_ok [(''a'', JArr [JObj []])]" unfolding doc_ok_def by code_simp+
  then obtain e where "entriesForDocument (digest demo_core) ''4VLN5QUCDP0'' [(''a'', JArr [JObj []])] = Inl e"
    by (cases "entriesForDocument (\<lambda>b. b) ''4VLN5QUCDP0'' [(''a'', JArr [JObj []])]") (auto simp: demo_core_def)
  from put_not_atomic [OF demo_env w demo_storable(1) ok this _ _ demo_off] show ?thesis by auto
qed

end
