(* ===== verification/OverlayFs.thy ===== *)
theory OverlayFs imports MemoryFs begin

section \<open>The copy-on-write overlay (src/src/browser/fsa-filesystem.js)\<close>

text \<open>
  \<open>createOverlayFilesystem\<close> puts an in-memory filesystem over a base that is only read, such as a
  directory the user picked.  The state is the base, the layer, and the base paths that were
  removed.  The theory ends with the proof that an overlay over any readable base honours the
  contract of a host that can be written, and never changes the base.
\<close>

subsection \<open>State and operations\<close>

record 'b overlay_fs =
  ovBase :: 'b
  ovLayer :: memory_fs
  ovRemoved :: "string list"

definition new_overlay :: "int \<Rightarrow> 'b \<Rightarrow> 'b overlay_fs" where
  "new_overlay now b = \<lparr> ovBase = b, ovLayer = snd (createMemoryFilesystem now []), ovRemoved = [] \<rparr>"

definition on_base :: "('b, 'a) op \<Rightarrow> ('b overlay_fs, 'a) op" where
  "on_base m ov = (case m (ovBase ov) of (r, b) \<Rightarrow> (r, ov\<lparr> ovBase := b \<rparr>))"

definition on_layer :: "(memory_fs, 'a) op \<Rightarrow> ('b overlay_fs, 'a) op" where
  "on_layer m ov = (case m (ovLayer ov) of (r, l) \<Rightarrow> (r, ov\<lparr> ovLayer := l \<rparr>))"

definition ov_removed :: "string \<Rightarrow> ('b overlay_fs, bool) op" where
  "ov_removed path = gets (\<lambda>ov. normalize path \<in> set (ovRemoved ov))"

definition removed_add :: "string \<Rightarrow> ('b overlay_fs, unit) op" where
  "removed_add path = modify (\<lambda>ov. ov\<lparr> ovRemoved := push_new (ovRemoved ov) (normalize path) \<rparr>)"

definition removed_delete :: "string \<Rightarrow> ('b overlay_fs, unit) op" where
  "removed_delete path = modify (\<lambda>ov. ov\<lparr> ovRemoved := removeAll (normalize path) (ovRemoved ov) \<rparr>)"

definition ov_inBase :: "'b fs_ops \<Rightarrow> string \<Rightarrow> ('b overlay_fs, bool) op" where
  "ov_inBase base path =
     bind_op (ov_removed path) (\<lambda>gone. if gone then ret False else on_base (fs_exists base path))"

definition copyUp :: "'b fs_ops \<Rightarrow> int \<Rightarrow> string \<Rightarrow> ('b overlay_fs, unit) op" where
  "copyUp base now path =
     bind_op (on_layer (mem_exists path)) (\<lambda>here.
       if here then ret ()
       else bind_op (ov_inBase base path) (\<lambda>there.
         if there then bind_op (on_base (fs_readBytes base path)) (\<lambda>data. on_layer (mem_writeBytes now path data))
         else ret ()))"

definition ov_exists :: "'b fs_ops \<Rightarrow> string \<Rightarrow> ('b overlay_fs, bool) op" where
  "ov_exists base path =
     bind_op (on_layer (mem_exists path)) (\<lambda>here. if here then ret True else ov_inBase base path)"

definition ov_isDirectory :: "'b fs_ops \<Rightarrow> string \<Rightarrow> ('b overlay_fs, bool) op" where
  "ov_isDirectory base path =
     bind_op (on_layer (mem_exists path)) (\<lambda>here.
       if here then on_layer (mem_isDirectory path)
       else bind_op (ov_removed path) (\<lambda>gone.
         if gone then ret False else on_base (fs_isDirectory base path)))"

text \<open>Four reads go to the layer when it has the path, and to the base otherwise.\<close>

definition layer_or_base :: "string \<Rightarrow> (memory_fs, 'a) op \<Rightarrow> ('b, 'a) op \<Rightarrow> ('b overlay_fs, 'a) op" where
  "layer_or_base path upper lower =
     bind_op (on_layer (mem_exists path)) (\<lambda>here. if here then on_layer upper else on_base lower)"

definition ov_mtimeMs :: "'b fs_ops \<Rightarrow> string \<Rightarrow> ('b overlay_fs, int) op" where
  "ov_mtimeMs base path = layer_or_base path (mem_mtimeMs path) (fs_mtimeMs base path)"

definition ov_size :: "'b fs_ops \<Rightarrow> string \<Rightarrow> ('b overlay_fs, nat) op" where
  "ov_size base path = layer_or_base path (mem_size path) (fs_size base path)"

definition ov_readText :: "'b fs_ops \<Rightarrow> string \<Rightarrow> ('b overlay_fs, string) op" where
  "ov_readText base path = layer_or_base path (mem_readText path) (fs_readText base path)"

definition ov_readBytes :: "'b fs_ops \<Rightarrow> string \<Rightarrow> ('b overlay_fs, bytes) op" where
  "ov_readBytes base path = layer_or_base path (mem_readBytes path) (fs_readBytes base path)"

definition ov_mkdir :: "int \<Rightarrow> string \<Rightarrow> bool \<Rightarrow> ('b overlay_fs, unit) op" where
  "ov_mkdir now path recursive = on_layer (mem_mkdir now path recursive)"

text \<open>The names of both sides; a side that cannot be listed has none.\<close>

definition ov_base_names :: "'b fs_ops \<Rightarrow> string \<Rightarrow> ('b overlay_fs, string list) op" where
  "ov_base_names base path =
     bind_op (ov_removed path) (\<lambda>gone.
       if gone then ret []
       else catch_op
         (bind_op (on_base (fs_list base path)) (\<lambda>names.
            gets (\<lambda>ov. foldl push_new []
              (filter (\<lambda>name. normalize (path @ ''/'' @ name) \<notin> set (ovRemoved ov)) names))))
         (\<lambda>_. ret []))"

definition ov_list :: "'b fs_ops \<Rightarrow> string \<Rightarrow> ('b overlay_fs, string list) op" where
  "ov_list base path =
     bind_op (ov_base_names base path) (\<lambda>lower.
     bind_op (catch_op (on_layer (mem_list path)) (\<lambda>_. ret [])) (\<lambda>upper.
       ret (sort (foldl push_new lower upper))))"

definition ov_rmdir :: "int \<Rightarrow> string \<Rightarrow> bool \<Rightarrow> ('b overlay_fs, unit) op" where
  "ov_rmdir now path recursive =
     seq_op (removed_add path) (catch_op (on_layer (mem_rmdir now path recursive)) (\<lambda>_. ret ()))"

definition ov_writeText :: "int \<Rightarrow> string \<Rightarrow> string \<Rightarrow> ('b overlay_fs, unit) op" where
  "ov_writeText now path data = seq_op (removed_delete path) (on_layer (mem_writeText now path data))"

definition ov_writeBytes :: "int \<Rightarrow> string \<Rightarrow> bytes \<Rightarrow> ('b overlay_fs, unit) op" where
  "ov_writeBytes now path data = seq_op (removed_delete path) (on_layer (mem_writeBytes now path data))"

definition ov_appendText :: "'b fs_ops \<Rightarrow> int \<Rightarrow> string \<Rightarrow> string \<Rightarrow> ('b overlay_fs, unit) op" where
  "ov_appendText base now path data =
     seq_op (copyUp base now path)
       (seq_op (removed_delete path) (on_layer (mem_appendText now path data)))"

definition ov_remove :: "string \<Rightarrow> ('b overlay_fs, unit) op" where
  "ov_remove path = seq_op (removed_add path) (catch_op (on_layer (mem_remove path)) (\<lambda>_. ret ()))"

definition ov_move :: "'b fs_ops \<Rightarrow> int \<Rightarrow> string \<Rightarrow> string \<Rightarrow> ('b overlay_fs, unit) op" where
  "ov_move base now source target =
     seq_op (copyUp base now source)
       (seq_op (on_layer (mem_move now source target))
         (seq_op (removed_add source) (removed_delete target)))"

definition createOverlayFilesystem :: "'b fs_ops \<Rightarrow> 'b overlay_fs fs_ops" where
  "createOverlayFilesystem base = \<lparr> fs_exists = ov_exists base, fs_isDirectory = ov_isDirectory base,
     fs_mtimeMs = ov_mtimeMs base, fs_size = ov_size base, fs_mkdir = ov_mkdir, fs_list = ov_list base,
     fs_rmdir = ov_rmdir, fs_readText = ov_readText base, fs_readBytes = ov_readBytes base,
     fs_writeText = ov_writeText, fs_writeBytes = ov_writeBytes, fs_appendText = ov_appendText base,
     fs_remove = ov_remove, fs_move = ov_move base \<rparr>"

subsection \<open>The tree an overlay shows\<close>

definition ov_file :: "('b \<Rightarrow> string \<Rightarrow> bytes option) \<Rightarrow> 'b overlay_fs \<Rightarrow> string \<Rightarrow> bytes option" where
  "ov_file bfile ov p =
     (case mem_file (ovLayer ov) p of Some b \<Rightarrow> Some b
      | None \<Rightarrow> if p \<in> mem_dirs (ovLayer ov) \<or> p \<in> set (ovRemoved ov) then None else bfile (ovBase ov) p)"

definition ov_dirs :: "('b \<Rightarrow> string set) \<Rightarrow> 'b overlay_fs \<Rightarrow> string set" where
  "ov_dirs bdir ov = mem_dirs (ovLayer ov) \<union> bdir (ovBase ov)"

text \<open>The base is the one the overlay was made over; no directory of it is removed or hidden by a file.\<close>

definition ov_inv :: "('b \<Rightarrow> bool) \<Rightarrow> ('b \<Rightarrow> string set) \<Rightarrow> 'b \<Rightarrow> 'b overlay_fs \<Rightarrow> bool" where
  "ov_inv binv bdir b ov \<longleftrightarrow> ovBase ov = b \<and> binv b \<and> mem_inv (ovLayer ov) \<and>
     (\<forall>p\<in>bdir b. p \<notin> set (ovRemoved ov) \<and> mem_file (ovLayer ov) p = None)"

lemma ov_invD:
  assumes "ov_inv binv bdir b ov"
  shows "ovBase ov = b" "binv b" "mem_inv (ovLayer ov)"
    and "p \<in> bdir b \<Longrightarrow> p \<notin> set (ovRemoved ov) \<and> mem_file (ovLayer ov) p = None"
  using assms by (auto simp: ov_inv_def)

lemma on_layer_run [exec_simps]: "m (ovLayer ov) = (r, l) \<Longrightarrow> on_layer m ov = (r, ov\<lparr> ovLayer := l \<rparr>)"
  by (simp add: on_layer_def)

lemma on_base_same: "m (ovBase ov) = (r, ovBase ov) \<Longrightarrow> on_base m ov = (r, ov)"
  by (simp add: on_base_def)

lemma layer_exists [simp]:
  "p \<in> abs_paths \<Longrightarrow>
   on_layer (mem_exists p) ov = (Inr (mem_file (ovLayer ov) p \<noteq> None \<or> p \<in> mem_dirs (ovLayer ov)), ov)"
  by (simp add: on_layer_def mem_exists_def has_file_iff has_dir_iff)

lemma layer_reads [simp]:
  assumes "p \<in> abs_paths"
  shows "on_layer (mem_isDirectory p) ov = (Inr (p \<in> mem_dirs (ovLayer ov)), ov)"
    and "mem_file (ovLayer ov) p \<noteq> None \<or> p \<in> mem_dirs (ovLayer ov) \<Longrightarrow>
      on_layer (mem_mtimeMs p) ov = (Inr (case map_of (mtimes (ovLayer ov)) p of Some t \<Rightarrow> t | None \<Rightarrow> 0), ov)"
    and "mem_file (ovLayer ov) p = Some data \<Longrightarrow> on_layer (mem_readBytes p) ov = (Inr data, ov)"
    and "mem_file (ovLayer ov) p = Some data \<Longrightarrow> on_layer (mem_readText p) ov = (Inr (utf8_decode data), ov)"
  using assms
  by (auto simp: on_layer_def mem_isDirectory_def mem_mtimeMs_def mem_readBytes_def mem_readText_def bind_op_def
      has_file_iff has_dir_iff Let_def mem_file_def)

lemma abs_normal [simp]: "p \<in> abs_paths \<Longrightarrow> normalize p = p"
  by (simp add: abs_paths_iff)

lemma removed_run [simp]:
  "p \<in> abs_paths \<Longrightarrow> ov_removed p ov = (Inr (p \<in> set (ovRemoved ov)), ov)"
  "p \<in> abs_paths \<Longrightarrow> removed_add p ov = (Inr (), ov\<lparr> ovRemoved := push_new (ovRemoved ov) p \<rparr>)"
  "p \<in> abs_paths \<Longrightarrow> removed_delete p ov = (Inr (), ov\<lparr> ovRemoved := removeAll p (ovRemoved ov) \<rparr>)"
  by (simp_all add: ov_removed_def removed_add_def removed_delete_def)

lemma set_push_new [simp]: "set (push_new xs x) = insert x (set xs)"
  by (simp add: push_new_props)

lemma foldl_push_new: "distinct xs \<Longrightarrow> distinct (foldl push_new xs ys) \<and> set (foldl push_new xs ys) = set xs \<union> set ys"
  by (induction ys arbitrary: xs) (auto simp: push_new_props)

subsection \<open>An overlay honours the contract\<close>

lemma normalize_child:
  assumes "plain_segments ss" and "plain_segment s"
  shows "normalize (abs_path ss @ ''/'' @ s) = abs_path (ss @ [s])"
proof (cases "ss = []")
  case True
  have "split_on CHR ''/'' (''/'' @ ''/'' @ s) = [[], [], s]"
    using plain_segmentD [OF assms(2)] split_on_no_sep [of "CHR ''/''" s] by simp
  then have "segments_of (''/'' @ ''/'' @ s) = [s]"
    using assms(2) by (simp add: segments_of_def normalize_loop_skip_empty normalize_loop_plain plain_segment_def del: normalize_loop.simps)
  with True show ?thesis by (simp add: abs_path_def normalize_abs)
next
  case False
  then have "abs_path ss @ ''/'' @ s = abs_path (ss @ [s])" by (simp add: abs_path_def join_with_append)
  with assms show ?thesis by simp
qed

lemma ov_file_layer: "mem_file (ovLayer ov) p = Some b \<Longrightarrow> ov_file bfile ov p = Some b"
  by (simp add: ov_file_def)

lemma ov_inv_layer:
  "ov_inv binv bdir b ov \<Longrightarrow> mem_inv l \<Longrightarrow> \<forall>p\<in>bdir b. mem_file l p = None \<Longrightarrow>
   ov_inv binv bdir b (ov\<lparr> ovLayer := l \<rparr>)"
  by (auto simp: ov_inv_def)

lemma ov_inv_removed:
  "ov_inv binv bdir b ov \<Longrightarrow> set rs \<inter> bdir b = {} \<Longrightarrow> ov_inv binv bdir b (ov\<lparr> ovRemoved := rs \<rparr>)"
  by (auto simp: ov_inv_def)

text \<open>A file goes to the layer; nothing else of the view changes.\<close>

lemma ov_layer_write:
  assumes inv: "ov_inv binv bdir b ov" and p: "p \<in> abs_paths" "p \<notin> ov_dirs bdir ov"
    and anc: "\<forall>q\<in>ancestors p. ov_file bfile ov q = None"
    and w: "\<And>g. ensureParents now p (ovLayer ov) = (Inr (), g) \<Longrightarrow> mem_file g = mem_file (ovLayer ov) \<Longrightarrow>
      \<not> has_dir (ovLayer ov) p \<Longrightarrow> m (ovLayer ov) = (Inr (), set_file now p data g)"
  shows "\<exists>g. seq_op (removed_delete p) (on_layer m) ov = (Inr (), g) \<and> ov_inv binv bdir b g \<and>
    ov_file bfile g = (ov_file bfile ov)(p \<mapsto> data) \<and> ov_dirs bdir g = ov_dirs bdir ov \<union> ancestors p"
proof -
  let ?l = "ovLayer ov"
  have i: "mem_inv ?l" using ov_invD(3) [OF inv] .
  have d: "p \<notin> mem_dirs ?l" using p(2) by (simp add: ov_dirs_def)
  have a: "\<forall>q\<in>ancestors p. mem_file ?l q = None"
    using anc by (auto simp: ov_file_def split: option.splits)
  obtain g where g: "ensureParents now p ?l = (Inr (), g)" "mem_inv (set_file now p data g)"
    "mem_file g = mem_file ?l" "mem_dirs g = mem_dirs ?l \<union> ancestors p"
    using mem_write_file [OF i p(1) d a] .
  let ?g = "ov\<lparr> ovRemoved := removeAll p (ovRemoved ov), ovLayer := set_file now p data g \<rparr>"
  have "m ?l = (Inr (), set_file now p data g)"
    using w [OF g(1,3)] d by (simp add: has_dir_iff)
  then have "seq_op (removed_delete p) (on_layer m) ov = (Inr (), ?g)"
    using p(1) by (simp add: seq_op_def bind_op_def on_layer_def)
  moreover have "ov_inv binv bdir b ?g"
    using inv g(2,3) p(2) by (auto simp: ov_inv_def ov_dirs_def)
  moreover have "ov_file bfile ?g = (ov_file bfile ov)(p \<mapsto> data)"
  proof
    fix q show "ov_file bfile ?g q = ((ov_file bfile ov)(p \<mapsto> data)) q"
      using anc g(3,4) by (cases "q \<in> ancestors p") (auto simp: ov_file_def split: option.splits)
  qed
  moreover have "ov_dirs bdir ?g = ov_dirs bdir ov \<union> ancestors p" using g(4) by (auto simp: ov_dirs_def)
  ultimately show ?thesis by blast
qed

context fylo_reader
begin

abbreviation over_inv :: "'f \<Rightarrow> 'f overlay_fs \<Rightarrow> bool" where
  "over_inv \<equiv> ov_inv inv adir"

lemma ov_entry:
  assumes "over_inv b ov" and "ov_file afile ov p \<noteq> None \<or> p \<in> ov_dirs adir ov"
  shows "p \<in> abs_paths \<and> ancestors p \<subseteq> ov_dirs adir ov"
proof -
  consider "mem_file (ovLayer ov) p \<noteq> None \<or> p \<in> mem_dirs (ovLayer ov)" | "afile (ovBase ov) p \<noteq> None \<or> p \<in> adir (ovBase ov)"
    using assms(2) by (auto simp: ov_file_def ov_dirs_def split: option.splits if_splits)
  then show ?thesis
  proof cases
    case 1
    then show ?thesis using mem_invD(2) [OF ov_invD(3) [OF assms(1)], of p] by (auto simp: ov_dirs_def)
  next
    case 2
    then show ?thesis using entries [of b p] ov_invD(1,2) [OF assms(1)] by (auto simp: ov_dirs_def)
  qed
qed

lemma ov_no_both: "over_inv b ov \<Longrightarrow> p \<in> ov_dirs adir ov \<Longrightarrow> ov_file afile ov p = None"
  using mem_invD(3) [of "ovLayer ov" p] no_both [of b p]
  by (auto simp: ov_inv_def ov_dirs_def ov_file_def)

lemma ov_exists_run:
  assumes "over_inv b ov" and "p \<in> abs_paths"
  shows "ov_exists ops p ov = (Inr (ov_file afile ov p \<noteq> None \<or> p \<in> ov_dirs adir ov), ov)"
  using assms(2) exists_any [of b p] ov_invD [OF assms(1)]
  by (auto simp: ov_exists_def ov_inBase_def bind_op_def on_base_def ov_file_def ov_dirs_def split: option.splits)

lemma ov_isDirectory_run:
  assumes "over_inv b ov" and "p \<in> abs_paths"
  shows "ov_isDirectory ops p ov = (Inr (p \<in> ov_dirs adir ov), ov)"
  using assms(2) is_dir_any [of b p] ov_invD [OF assms(1)] mem_invD(3) [of "ovLayer ov" p]
  by (auto simp: ov_isDirectory_def bind_op_def on_base_def ov_dirs_def)

lemma ov_read_run:
  assumes "over_inv b ov" and "p \<in> abs_paths" and "ov_file afile ov p = Some data"
  shows "ov_readBytes ops p ov = (Inr data, ov)" and "ov_readText ops p ov = (Inr (utf8_decode data), ov)"
proof -
  have "mem_file (ovLayer ov) p = Some data \<or>
      mem_file (ovLayer ov) p = None \<and> p \<notin> mem_dirs (ovLayer ov) \<and> afile b p = Some data"
    using assms(3) ov_invD(1) [OF assms(1)] by (auto simp: ov_file_def split: option.splits if_splits)
  then show "ov_readBytes ops p ov = (Inr data, ov)" "ov_readText ops p ov = (Inr (utf8_decode data), ov)"
    using assms(2) read_bytes_spec [of b p data] read_text_spec [of b p data] ov_invD(1,2) [OF assms(1)]
    by (auto simp: ov_readBytes_def ov_readText_def layer_or_base_def bind_op_def on_base_def)
qed

lemma ov_mtime_run:
  assumes "over_inv b ov" and "p \<in> abs_paths" and "ov_file afile ov p \<noteq> None \<or> p \<in> ov_dirs adir ov"
  shows "\<exists>t. ov_mtimeMs ops p ov = (Inr t, ov)"
proof (cases "mem_file (ovLayer ov) p \<noteq> None \<or> p \<in> mem_dirs (ovLayer ov)")
  case True
  then show ?thesis using assms(2)
    by (auto simp: ov_mtimeMs_def layer_or_base_def bind_op_def)
next
  case False
  then have "afile b p \<noteq> None \<or> p \<in> adir b"
    using assms(3) ov_invD(1) [OF assms(1)] by (auto simp: ov_file_def ov_dirs_def split: if_splits)
  then show ?thesis using False assms(2) mtime_any [of b p] ov_invD(1,2) [OF assms(1)]
    by (auto simp: ov_mtimeMs_def layer_or_base_def bind_op_def on_base_def)
qed

lemma ov_shown:
  assumes "over_inv b ov"
  shows "ov_file afile ov q \<noteq> None \<or> q \<in> ov_dirs adir ov \<longleftrightarrow>
    mem_file (ovLayer ov) q \<noteq> None \<or> q \<in> mem_dirs (ovLayer ov) \<or>
    (afile b q \<noteq> None \<or> q \<in> adir b) \<and> q \<notin> set (ovRemoved ov)"
  using ov_invD(1) [OF assms] ov_invD(4) [OF assms, of q]
  by (cases "mem_file (ovLayer ov) q") (auto simp: ov_file_def ov_dirs_def)

lemma ov_list_run:
  assumes i: "over_inv b ov" and ss: "plain_segments ss" and p: "abs_path ss \<in> abs_paths"
  shows "\<exists>names. ov_list ops (abs_path ss) ov = (Inr names, ov) \<and> sorted names \<and> distinct names \<and>
    (abs_path ss \<in> ov_dirs adir ov \<longrightarrow> set names = {s. plain_segment s \<and>
      (ov_file afile ov (abs_path (ss @ [s])) \<noteq> None \<or> abs_path (ss @ [s]) \<in> ov_dirs adir ov)}) \<and>
    (abs_path ss \<notin> ov_dirs adir ov \<longrightarrow> names = [])"
proof -
  let ?p = "abs_path ss" and ?l = "ovLayer ov"
  let ?B = "{s. plain_segment s \<and> (afile b (abs_path (ss @ [s])) \<noteq> None \<or> abs_path (ss @ [s]) \<in> adir b)}"
  let ?L = "{s. plain_segment s \<and> (mem_file ?l (abs_path (ss @ [s])) \<noteq> None \<or> abs_path (ss @ [s]) \<in> mem_dirs ?l)}"
  let ?K = "{s \<in> ?B. abs_path (ss @ [s]) \<notin> set (ovRemoved ov)}"
  note d = ov_invD [OF i]
  have bn: "\<exists>names. ov_base_names ops ?p ov = (Inr names, ov) \<and> distinct names \<and>
      set names = (if ?p \<in> adir b then ?K else {})"
  proof (cases "?p \<in> adir b")
    case True
    let ?ns = "sorted_list_of_set ?B"
    have ns: "set ?ns = ?B" using finite_entries [OF d(2) ss] by simp
    have "filter (\<lambda>n. normalize (?p @ ''/'' @ n) \<notin> set (ovRemoved ov)) ?ns =
        filter (\<lambda>n. abs_path (ss @ [n]) \<notin> set (ovRemoved ov)) ?ns"
      using ns normalize_child [OF ss] by (intro filter_cong) auto
    moreover have "on_base (fs_list ops ?p) ov = (Inr ?ns, ov)"
      using list_spec [OF d(2) ss True] d(1) by (simp add: on_base_same)
    ultimately show ?thesis
      using True d(4) [of ?p] p ns foldl_push_new [of "[]" "filter (\<lambda>n. abs_path (ss @ [n]) \<notin> set (ovRemoved ov)) ?ns"]
      by (auto simp: ov_base_names_def bind_op_def catch_op_def)
  next
    case False
    obtain r where r: "fs_list ops ?p b = (r, b)" "\<forall>names. r = Inr names \<longrightarrow> names = []"
      using list_absent [OF d(2) p False] by blast
    then have "on_base (fs_list ops ?p) ov = (r, ov)" using d(1) by (simp add: on_base_same)
    then show ?thesis using False p r(2) by (cases r) (auto simp: ov_base_names_def bind_op_def catch_op_def)
  qed
  have ln: "\<exists>names. catch_op (on_layer (mem_list ?p)) (\<lambda>_. ret []) ov = (Inr names, ov) \<and>
      set names = (if ?p \<in> mem_dirs ?l then ?L else {})"
  proof (cases "?p \<in> mem_dirs ?l")
    case True
    then have "on_layer (mem_list ?p) ov = (Inr (sorted_list_of_set ?L), ov)"
      using mem_list_names [OF d(3) ss] by (simp add: on_layer_def)
    then show ?thesis using True finite_children [OF ss, of ?l] by (simp add: catch_op_def)
  next
    case False
    then have "on_layer (mem_list ?p) ov = (Inl (notFound ?p), ov)"
      using p by (simp add: on_layer_def mem_list_def has_dir_iff)
    then show ?thesis using False by (simp add: catch_op_def)
  qed
  obtain ls us where l: "ov_base_names ops ?p ov = (Inr ls, ov)" "distinct ls" "set ls = (if ?p \<in> adir b then ?K else {})"
    using bn by blast
  obtain us where u: "catch_op (on_layer (mem_list ?p)) (\<lambda>_. ret []) ov = (Inr us, ov)"
    "set us = (if ?p \<in> mem_dirs ?l then ?L else {})" using ln by blast
  let ?names = "sort (foldl push_new ls us)"
  have run: "ov_list ops ?p ov = (Inr ?names, ov)" using l(1) u(1) by (simp add: ov_list_def bind_op_def)
  have n: "distinct ?names" "set ?names = set ls \<union> set us" using foldl_push_new [OF l(2), of us] by simp_all
  have up: "?p \<in> mem_dirs ?l" if "s \<in> ?L" for s
  proof -
    have "ancestors (abs_path (ss @ [s])) \<subseteq> mem_dirs ?l" using that mem_invD(2) [OF d(3)] by blast
    then show ?thesis using ancestors_snoc [of ss s] ss that by simp
  qed
  have low: "?p \<in> adir b" if "s \<in> ?B" for s
  proof -
    have "ancestors (abs_path (ss @ [s])) \<subseteq> adir b" using that entries [OF d(2)] by blast
    then show ?thesis using ancestors_snoc [of ss s] ss that by simp
  qed
  have "set ls \<union> set us = {s. plain_segment s \<and>
      (ov_file afile ov (abs_path (ss @ [s])) \<noteq> None \<or> abs_path (ss @ [s]) \<in> ov_dirs adir ov)}"
  proof -
    have "?K = {}" if "?p \<notin> adir b" using that low by blast
    then have ls: "set ls = ?K" using l(3) by presburger
    have "?L = {}" if "?p \<notin> mem_dirs ?l" using that up by blast
    then have us: "set us = ?L" using u(2) by presburger
    have "set ls \<union> set us = ?K \<union> ?L" by (simp only: ls us)
    moreover have "?K \<union> ?L = {s. plain_segment s \<and>
        (ov_file afile ov (abs_path (ss @ [s])) \<noteq> None \<or> abs_path (ss @ [s]) \<in> ov_dirs adir ov)}"
      unfolding ov_shown [OF i] by blast
    ultimately show ?thesis by simp
  qed
  moreover have "?names = []" if "?p \<notin> ov_dirs adir ov"
    using that l(3) u(2) n(2) d(1) by (auto simp: ov_dirs_def)
  ultimately show ?thesis using run n by (intro exI [of _ ?names]) simp
qed

lemma ov_remove_run:
  assumes i: "over_inv b ov" and p: "p \<in> abs_paths" "p \<notin> ov_dirs adir ov"
  shows "\<exists>g. ov_remove p ov = (Inr (), g) \<and> over_inv b g \<and>
    ov_file afile g = (ov_file afile ov)(p := None) \<and> ov_dirs adir g = ov_dirs adir ov"
proof -
  let ?o = "ov\<lparr> ovRemoved := push_new (ovRemoved ov) p \<rparr>"
  note d = ov_invD [OF i]
  have nd: "p \<notin> mem_dirs (ovLayer ov)" "p \<notin> adir b" using p(2) d(1) by (auto simp: ov_dirs_def)
  obtain l where l: "mem_remove p (ovLayer ov) = (Inr (), l)" "mem_inv l" "mem_file l = (mem_file (ovLayer ov))(p := None)"
    "mem_dirs l = mem_dirs (ovLayer ov)"
    using mem_remove_run [OF d(3) p(1) nd(1)] by blast
  let ?g = "ov\<lparr> ovRemoved := push_new (ovRemoved ov) p, ovLayer := l \<rparr>"
  have "ov_remove p ov = (Inr (), ?g)"
    using p(1) l(1) by (simp add: ov_remove_def seq_op_def bind_op_def catch_op_def on_layer_def)
  moreover have "over_inv b ?g" using i nd(2) l(2,3) by (auto simp: ov_inv_def)
  moreover have "ov_file afile ?g = (ov_file afile ov)(p := None)"
    using l(3,4) by (simp add: fun_eq_iff ov_file_def split: option.split)
  moreover have "ov_dirs adir ?g = ov_dirs adir ov" using l(4) by (simp add: ov_dirs_def)
  ultimately show ?thesis by blast
qed

lemma ov_mkdir_run:
  assumes i: "over_inv b ov" and p: "p \<in> abs_paths" and free: "\<forall>q\<in>self_and_ancestors p. ov_file afile ov q = None"
  shows "\<exists>g. ov_mkdir now p True ov = (Inr (), g) \<and> over_inv b g \<and>
    ov_file afile g = ov_file afile ov \<and> ov_dirs adir g = ov_dirs adir ov \<union> self_and_ancestors p"
proof -
  note d = ov_invD [OF i]
  have "\<forall>q\<in>self_and_ancestors p. mem_file (ovLayer ov) q = None"
    using free by (auto simp: ov_file_def split: option.splits)
  then obtain l where l: "mem_mkdir now p True (ovLayer ov) = (Inr (), l)" "mem_inv l" "mem_file l = mem_file (ovLayer ov)"
    "mem_dirs l = mem_dirs (ovLayer ov) \<union> self_and_ancestors p"
    using mem.mkdir_spec [OF d(3) p, of now] by (auto simp: memory_ops_def)
  let ?g = "ov\<lparr> ovLayer := l \<rparr>"
  have "ov_mkdir now p True ov = (Inr (), ?g)" using l(1) by (simp add: ov_mkdir_def on_layer_def)
  moreover have "over_inv b ?g" using ov_inv_layer [OF i l(2)] d(4) l(3) by simp
  moreover have "ov_file afile ?g = ov_file afile ov"
  proof
    fix q show "ov_file afile ?g q = ov_file afile ov q"
      using free l(3,4) by (cases "q \<in> self_and_ancestors p") (auto simp: ov_file_def split: option.splits)
  qed
  moreover have "ov_dirs adir ?g = ov_dirs adir ov \<union> self_and_ancestors p" using l(4) by (auto simp: ov_dirs_def)
  ultimately show ?thesis by blast
qed

lemma ov_writeText_run:
  assumes "over_inv b ov" and "p \<in> abs_paths" and "p \<notin> ov_dirs adir ov" and "\<forall>q\<in>ancestors p. ov_file afile ov q = None"
  shows "\<exists>g. ov_writeText now p t ov = (Inr (), g) \<and> over_inv b g \<and>
    ov_file afile g = (ov_file afile ov)(p \<mapsto> utf8_encode t) \<and> ov_dirs adir g = ov_dirs adir ov \<union> ancestors p"
  unfolding ov_writeText_def using assms(2)
  by (intro ov_layer_write [OF assms, where now = now]) (simp add: mem_writeText_def mem_writeBytes_def Let_def seq_op_Inr)

lemma copyUp_run:
  assumes i: "over_inv b ov" and p: "p \<in> abs_paths" "p \<notin> ov_dirs adir ov"
    and anc: "\<forall>q\<in>ancestors p. ov_file afile ov q = None"
  shows "\<exists>g. copyUp ops now p ov = (Inr (), g) \<and> over_inv b g \<and> ov_file afile g = ov_file afile ov \<and>
    ov_dirs adir g = ov_dirs adir ov \<and> mem_file (ovLayer g) p = ov_file afile ov p"
proof -
  note d = ov_invD [OF i]
  have nd: "p \<notin> mem_dirs (ovLayer ov)" "p \<notin> adir b" using p(2) d(1) by (auto simp: ov_dirs_def)
  consider (layer) "mem_file (ovLayer ov) p \<noteq> None"
    | (absent) "mem_file (ovLayer ov) p = None" "ov_file afile ov p = None"
    | (base) data where "mem_file (ovLayer ov) p = None" "ov_file afile ov p = Some data" by blast
  then show ?thesis
  proof cases
    case layer
    then show ?thesis using i p(1) by (auto simp: copyUp_def bind_op_def ov_file_def)
  next
    case absent
    then have "p \<in> set (ovRemoved ov) \<or> afile b p = None"
      using nd d(1) by (auto simp: ov_file_def split: if_splits)
    then show ?thesis
      using absent i p(1) nd exists_any [OF d(2) p(1)] d(1)
      by (intro exI [of _ ov]) (auto simp: copyUp_def ov_inBase_def bind_op_def on_base_def)
  next
    case (base data)
    have vis: "p \<notin> set (ovRemoved ov)" "afile b p = Some data"
      using base nd d(1) by (auto simp: ov_file_def split: if_splits)
    obtain g where g: "seq_op (removed_delete p) (on_layer (mem_writeBytes now p data)) ov = (Inr (), g)"
      "over_inv b g" "ov_file afile g = (ov_file afile ov)(p \<mapsto> data)" "ov_dirs adir g = ov_dirs adir ov \<union> ancestors p"
      using ov_layer_write [OF i p anc, of now "mem_writeBytes now p data" data] p(1)
      by (auto simp: mem_writeBytes_def Let_def seq_op_Inr)
    have "on_layer (mem_writeBytes now p data) ov = (Inr (), g)"
      using g(1) vis(1) p(1) by (simp add: seq_op_def bind_op_def)
    then have "copyUp ops now p ov = (Inr (), g)"
      using base(1) nd vis p(1) exists_any [OF d(2) p(1)] read_bytes_spec [OF d(2) p(1) vis(2)] d(1)
      by (simp add: copyUp_def ov_inBase_def bind_op_def on_base_same)
    moreover have "ov_file afile g = ov_file afile ov" using g(3) base(2) by auto
    moreover have "ancestors p \<subseteq> ov_dirs adir ov" using ov_entry [OF i, of p] base(2) by simp
    moreover have "mem_file (ovLayer g) p = Some data"
    proof -
      obtain r l where "mem_writeBytes now p data (ovLayer ov) = (r, l)" by fastforce
      with \<open>on_layer _ ov = _\<close> have "mem_writeBytes now p data (ovLayer ov) = (Inr (), ovLayer g)"
        by (auto simp: on_layer_def)
      then show ?thesis
        using p(1) by (auto simp: mem_writeBytes_def Let_def elim!: seq_op_InrE split: if_splits dest!: sym [of _ "ovLayer g"])
    qed
    ultimately show ?thesis using g(2,4) base(2) by (intro exI [of _ g]) auto
  qed
qed

lemma ov_appendText_run:
  assumes i: "over_inv b ov" and p: "p \<in> abs_paths" "p \<notin> ov_dirs adir ov"
    and anc: "\<forall>q\<in>ancestors p. ov_file afile ov q = None"
  shows "\<exists>g. ov_appendText ops now p t ov = (Inr (), g) \<and> over_inv b g \<and>
    ov_file afile g = (ov_file afile ov)(p \<mapsto> (case ov_file afile ov p of Some b \<Rightarrow> b | None \<Rightarrow> []) @ utf8_encode t) \<and>
    ov_dirs adir g = ov_dirs adir ov \<union> ancestors p"
proof -
  let ?b = "(case ov_file afile ov p of Some b \<Rightarrow> b | None \<Rightarrow> []) @ utf8_encode t"
  obtain u where u: "copyUp ops now p ov = (Inr (), u)" "over_inv b u" "ov_file afile u = ov_file afile ov"
    "ov_dirs adir u = ov_dirs adir ov" "mem_file (ovLayer u) p = ov_file afile ov p"
    using copyUp_run [OF assms] by blast
  have p2: "p \<notin> ov_dirs adir u" "\<forall>q\<in>ancestors p. ov_file afile u q = None" using p(2) anc u(3,4) by simp_all
  obtain g where "seq_op (removed_delete p) (on_layer (mem_appendText now p t)) u = (Inr (), g)" "over_inv b g"
    "ov_file afile g = (ov_file afile u)(p \<mapsto> ?b)" "ov_dirs adir g = ov_dirs adir u \<union> ancestors p"
    using ov_layer_write [OF u(2) p(1) p2, of now "mem_appendText now p t" ?b] p(1) u(5)
    by (auto simp: mem_appendText_def Let_def seq_op_Inr simp flip: mem_file_def)
  then show ?thesis using u(1,3,4) by (simp add: ov_appendText_def seq_op_Inr)
qed

text \<open>The view of an overlay over a readable base keeps the whole contract of a host that can be written.\<close>

lemma overlay_contract:
  "fylo_tree (createOverlayFilesystem ops) (over_inv b) (ov_file afile) (ov_dirs adir)"
proof (unfold_locales, goal_cases)
  case (1 f p) then show ?case by (simp add: createOverlayFilesystem_def ov_exists_run)
next
  case (2 f p) then show ?case by (simp add: createOverlayFilesystem_def ov_isDirectory_run)
next
  case (3 f p) then show ?case by (simp add: createOverlayFilesystem_def ov_mtime_run)
next
  case (4 f p d) then show ?case by (simp add: createOverlayFilesystem_def ov_read_run(1))
next
  case (5 f p d) then show ?case by (simp add: createOverlayFilesystem_def ov_read_run(2))
next
  case (6 f ss)
  with ov_list_run [OF 6(1,2)] obtain names where
    "ov_list ops (abs_path ss) f = (Inr names, f)" "sorted names" "distinct names" "set names = {s. plain_segment s \<and>
       (ov_file afile f (abs_path (ss @ [s])) \<noteq> None \<or> abs_path (ss @ [s]) \<in> ov_dirs adir f)}" by auto
  then show ?case by (metis (no_types, lifting) createOverlayFilesystem_def fs_ops.select_convs(6)
      sorted_list_of_set.idem_if_sorted_distinct)
next
  case (7 f p)
  then obtain ss where "p = abs_path ss" "plain_segments ss" by (auto simp: abs_paths_def)
  with ov_list_run [OF 7(1), of ss] 7 show ?case by (auto simp: createOverlayFilesystem_def)
next
  case (8 f p) then show ?case using ov_entry by blast
next
  case (9 f p) then show ?case using ov_no_both by blast
next
  case (10 f) then show ?case using mem_invD(1) [OF ov_invD(3)] by (auto simp: ov_dirs_def)
next
  case (11 f)
  have "{p. ov_file afile f p \<noteq> None} \<union> ov_dirs adir f \<subseteq>
      {p. mem_file (ovLayer f) p \<noteq> None} \<union> mem_dirs (ovLayer f) \<union> ({p. afile b p \<noteq> None} \<union> adir b)"
    using ov_shown [OF 11] by blast
  moreover have "finite ({p. mem_file (ovLayer f) p \<noteq> None} \<union> mem_dirs (ovLayer f))"
    using mem.finite_tree [OF ov_invD(3) [OF 11]] .
  ultimately show ?case using finite_tree [OF ov_invD(2) [OF 11]] by (meson finite_UnI finite_subset)
next
  case (12 f p now t g)
  then show ?case
    by (auto simp: createOverlayFilesystem_def ov_writeText_def ov_mtimeMs_def layer_or_base_def seq_op_def bind_op_def
        on_layer_def mem_exists_def mem_mtimeMs_def mem_writeText_def mem_writeBytes_def Let_def
        set_file_def has_file_def update_conv' split: if_splits prod.splits sum.splits)
next
  case (13 f p now t) then show ?case by (simp add: createOverlayFilesystem_def ov_writeText_run)
next
  case (14 f p now t) then show ?case by (simp add: createOverlayFilesystem_def ov_appendText_run)
next
  case (15 f p) then show ?case using ov_no_both by (auto simp: createOverlayFilesystem_def intro!: ov_remove_run)
next
  case (16 f p now) then show ?case by (simp add: createOverlayFilesystem_def ov_mkdir_run)
qed

end

interpretation over_memory: fylo_tree "createOverlayFilesystem memory_ops" "ov_inv mem_inv mem_dirs b"
    "ov_file mem_file" "ov_dirs mem_dirs" for b
  by (rule mem_reads.overlay_contract)

subsection \<open>The base is never written\<close>

text \<open>A base whose reads leave it alone is left alone by every method, whether it succeeds or throws.\<close>

definition reads_keep :: "('b \<Rightarrow> bool) \<Rightarrow> 'b fs_ops \<Rightarrow> bool" where
  "reads_keep P base \<longleftrightarrow> (\<forall>p. keeps P (fs_exists base p) \<and> keeps P (fs_isDirectory base p) \<and> keeps P (fs_mtimeMs base p) \<and>
     keeps P (fs_size base p) \<and> keeps P (fs_list base p) \<and> keeps P (fs_readText base p) \<and> keeps P (fs_readBytes base p))"

definition all_keep :: "('f \<Rightarrow> bool) \<Rightarrow> 'f fs_ops \<Rightarrow> bool" where
  "all_keep P ops \<longleftrightarrow> reads_keep P ops \<and>
     (\<forall>now p q r t b. keeps P (fs_mkdir ops now p r) \<and> keeps P (fs_rmdir ops now p r) \<and> keeps P (fs_writeText ops now p t) \<and>
        keeps P (fs_writeBytes ops now p b) \<and> keeps P (fs_appendText ops now p t) \<and> keeps P (fs_remove ops p) \<and>
        keeps P (fs_move ops now p q))"

lemma keeps_on_base: "keeps P m \<Longrightarrow> keeps (\<lambda>ov. P (ovBase ov)) (on_base m)"
  by (auto simp: keeps_def on_base_def split: prod.split)

lemma keeps_on_layer [keeps_intros]: "keeps (\<lambda>ov. P (ovBase ov)) (on_layer m)"
  by (auto simp: keeps_def on_layer_def split: prod.split)

lemma keeps_removed [keeps_intros]:
  "keeps (\<lambda>ov. P (ovBase ov)) (ov_removed p)" "keeps (\<lambda>ov. P (ovBase ov)) (removed_add p)"
  "keeps (\<lambda>ov. P (ovBase ov)) (removed_delete p)"
  by (simp_all add: keeps_def ov_removed_def removed_add_def removed_delete_def)

lemma keeps_inBase: "reads_keep P base \<Longrightarrow> keeps (\<lambda>ov. P (ovBase ov)) (ov_inBase base p)"
  unfolding ov_inBase_def by (intro keeps_intros keeps_on_base) (simp add: reads_keep_def)

lemma keeps_copyUp: "reads_keep P base \<Longrightarrow> keeps (\<lambda>ov. P (ovBase ov)) (copyUp base now p)"
  unfolding copyUp_def by (intro keeps_intros keeps_on_base keeps_inBase) (simp_all add: reads_keep_def)

lemma overlay_keeps_base:
  assumes "reads_keep P base"
  shows "all_keep (\<lambda>ov. P (ovBase ov)) (createOverlayFilesystem base)"
  unfolding all_keep_def reads_keep_def createOverlayFilesystem_def fs_ops.simps ov_exists_def ov_isDirectory_def
    ov_mtimeMs_def ov_size_def ov_readText_def ov_readBytes_def layer_or_base_def ov_mkdir_def ov_list_def
    ov_base_names_def ov_rmdir_def ov_writeText_def ov_writeBytes_def ov_appendText_def ov_remove_def ov_move_def
  using assms [unfolded reads_keep_def]
  by (intro conjI allI keeps_intros keeps_on_base keeps_copyUp keeps_inBase assms) blast+

lemma memory_reads_keep: "reads_keep (\<lambda>f. f = b) memory_ops"
  by (auto simp: reads_keep_def keeps_def memory_ops_def mem_exists_def mem_isDirectory_def mem_mtimeMs_def mem_size_def
      mem_list_def mem_readText_def mem_readBytes_def bind_op_def Let_def split: option.splits)

text \<open>
  A removed file of the base no longer exists, but it is still read: the reads do not look at the
  set of removed paths.
\<close>

lemma removed_file_still_read:
  assumes "p \<in> abs_paths" and "mem_file (ovLayer ov) p = None" and "p \<notin> mem_dirs (ovLayer ov)"
    and "fs_readText base p (ovBase ov) = (Inr t, ovBase ov)"
  shows "\<exists>g. ov_remove p ov = (Inr (), g) \<and> ov_exists base p g = (Inr False, g) \<and> ov_readText base p g = (Inr t, g)"
proof -
  let ?g = "ov\<lparr> ovRemoved := push_new (ovRemoved ov) p \<rparr>"
  have "mem_remove p (ovLayer ov) = (Inr (), ovLayer ov)"
    using assms(1-3) by (simp add: mem_remove_def has_file_iff has_dir_iff Let_def)
  then have "ov_remove p ov = (Inr (), ?g)"
    using assms(1) by (simp add: ov_remove_def seq_op_def bind_op_def catch_op_def on_layer_def)
  then show ?thesis
    using assms by (simp add: ov_exists_def ov_inBase_def ov_readText_def layer_or_base_def bind_op_def on_base_def)
qed

end
