(* ===== verification/OverlayStore.thy ===== *)
theory OverlayStore imports EngineStore OverlayFs begin

section \<open>A collection opened through an overlay (src/src/browser/storage.js)\<close>

text \<open>
  How the runtime chooses its filesystem, and what the engine does on a picked directory it may
  only read: the collection found there is the starting point, every call acts on it as on a
  writable disk, and the directory stays as it was.
\<close>

subsection \<open>The storage option\<close>

datatype fsa_access = Readwrite | Overlay

datatype browser_storage = MemoryStorage | OpfsStorage | FsaStorage jsval fsa_access

definition normalizeBrowserStorage :: "jsval \<Rightarrow> browser_storage result" where
  "normalizeBrowserStorage storage =
     (let v = (case storage of JStr t \<Rightarrow> JObj [(''type'', JStr t)] | _ \<Rightarrow> storage);
          kind = get_prop v ''type'' in
      if \<not> is_object v then Inl (plain_error ''Invalid browser storage configuration'')
      else if kind = JStr ''memory'' then Inr MemoryStorage
      else if kind = JStr ''opfs'' then Inr OpfsStorage
      else if kind \<noteq> JStr ''fsa'' then Inl (plain_error (''Unsupported browser storage type: '' @ js_to_string kind))
      else let handle = get_prop v ''handle'' in
        if \<not> js_truthy handle \<or> get_prop handle ''kind'' \<noteq> JStr ''directory''
        then Inl (plain_error ''File System Access storage requires a directory handle'')
        else let mode = (if is_nullish (get_prop v ''access'') then JStr ''overlay'' else get_prop v ''access'') in
          if mode = JStr ''overlay'' then Inr (FsaStorage handle Overlay)
          else if mode = JStr ''readwrite'' then Inr (FsaStorage handle Readwrite)
          else Inl (plain_error (''Unsupported File System Access mode: '' @ js_to_string mode)))"

text \<open>The filesystem made of a storage: the backends over platform handles are arguments.\<close>

datatype ('o, 'h) host_fs = MemoryHost "memory_fs fs_ops" | OpfsHost "'o fs_ops"
  | DirectHost "'h fs_ops" | OverlayHost "'h overlay_fs fs_ops"

definition createBrowserFilesystem ::
    "(string \<Rightarrow> 'o fs_ops) \<Rightarrow> (jsval \<Rightarrow> 'h fs_ops) \<Rightarrow> browser_storage \<Rightarrow> string \<Rightarrow> ('o, 'h) host_fs" where
  "createBrowserFilesystem opfs fsa storage namespace =
     (case storage of
        MemoryStorage \<Rightarrow> MemoryHost memory_ops
      | OpfsStorage \<Rightarrow> OpfsHost (opfs namespace)
      | FsaStorage handle access \<Rightarrow>
          (case access of Readwrite \<Rightarrow> DirectHost (fsa handle)
           | Overlay \<Rightarrow> OverlayHost (createOverlayFilesystem (fsa handle))))"

text \<open>A picked directory is written to only when the caller asks for it by name.\<close>

lemma fsa_defaults_to_overlay:
  assumes "normalizeBrowserStorage v = Inr (FsaStorage h Readwrite)"
  shows "get_prop v ''access'' = JStr ''readwrite''"
  using assms by (auto simp: normalizeBrowserStorage_def Let_def get_prop_def js_truthy_def split: if_splits jsval.splits)

subsection \<open>Opening a collection\<close>

lemma new_overlay_view:
  "ovLayer (new_overlay now b) = new_memory_fs now" "ovBase (new_overlay now b) = b" "ovRemoved (new_overlay now b) = []"
  "mem_file (new_memory_fs now) p = None" "mem_dirs (new_memory_fs now) = {''/''}"
  by (simp_all add: new_overlay_def createMemoryFilesystem_def mem_file_def mem_dirs_def new_memory_fs_def)

context fylo_reader
begin

lemma fresh_overlay:
  assumes "inv b"
  shows "over_inv b (new_overlay now b)" "ov_file afile (new_overlay now b) = afile b"
    "ov_dirs adir (new_overlay now b) = adir b"
proof -
  note r = root_dir [OF assms] no_both [OF assms root_dir [OF assms]]
  show "over_inv b (new_overlay now b)" using assms mem_inv_new by (simp add: ov_inv_def new_overlay_view)
  show "ov_file afile (new_overlay now b) = afile b"
    using r(2) by (auto simp: fun_eq_iff ov_file_def new_overlay_view)
  show "ov_dirs adir (new_overlay now b) = adir b" using r(1) by (auto simp: ov_dirs_def new_overlay_view)
qed

lemma overlay_opens:
  assumes "base_at inv afile adir rs c D T K w"
  shows "base_at (over_inv (disk w)) (ov_file afile) (ov_dirs adir) rs c D T K
    (new_world (new_overlay now (disk w)) readings)"
proof -
  have "inv (disk w)" using assms by (auto simp: base_at_def tree_at_def)
  note f = fresh_overlay [OF this, of now]
  obtain ks ms where at: "index_at inv afile adir rs c ks ms w" "whole_log ks ms" "set (foldl apply_mutation ks ms) = K"
    using assms unfolding base_at_def by blast
  then have "index_at (over_inv (disk w)) (ov_file afile) (ov_dirs adir) rs c ks ms
      (new_world (new_overlay now (disk w)) readings)"
    using f by (simp add: index_at_def new_world_def index_coherent_def new_index_state_def)
  moreover have "tree_at (over_inv (disk w)) (ov_file afile) (ov_dirs adir) (dir_positions rs c) (file_positions rs c)
      (new_world (new_overlay now (disk w)) readings)"
    using assms f by (simp add: base_at_def tree_at_def new_world_def)
  ultimately show ?thesis
    using assms at(2,3) f by (auto simp: base_at_def new_world_def)
qed

end

subsection \<open>Copy on write\<close>


definition overlay_core :: "memory_fs overlay_fs core" where
  "overlay_core = \<lparr> fs = createOverlayFilesystem memory_ops, root = root demo_core, wormMode = wormMode demo_core,
     digest = digest demo_core, indexScannerFactory = None, ttid_code = ttid_code demo_core \<rparr>"


end
