(* ===== verification/Lexer.thy ===== *)
theory Lexer imports JsValue begin

section \<open>The SQL lexer (class SQLLexer of src/src/query/parser.js)\<close>

text \<open>
  The lexer of FYLO's SQL subset.  The position in the input is kept as the rest of the input;
  \<open>current\<close> is its first code unit, \<open>peek\<close> its second, and the position of a token is the
  number of code units consumed before it.
\<close>

datatype token_type =
    T_CREATE | T_DROP | T_SELECT | T_FROM | T_WHERE | T_INSERT | T_INTO | T_VALUES | T_UPDATE | T_SET
  | T_DELETE | T_JOIN | T_INNER | T_LEFT | T_RIGHT | T_OUTER | T_ON | T_GROUP | T_BY | T_ORDER | T_LIMIT
  | T_AS | T_AND | T_OR | T_EQUALS | T_NOT_EQUALS | T_GREATER_THAN | T_LESS_THAN | T_GREATER_EQUAL
  | T_LESS_EQUAL | T_LIKE | T_IDENTIFIER | T_STRING | T_NUMBER | T_BOOLEAN | T_NULL | T_COMMA
  | T_SEMICOLON | T_LPAREN | T_RPAREN | T_ASTERISK | T_EOF

definition type_text :: "token_type \<Rightarrow> string" where
  "type_text ty = (case ty of
     T_CREATE \<Rightarrow> ''CREATE'' | T_DROP \<Rightarrow> ''DROP'' | T_SELECT \<Rightarrow> ''SELECT'' | T_FROM \<Rightarrow> ''FROM'' | T_WHERE \<Rightarrow> ''WHERE''
   | T_INSERT \<Rightarrow> ''INSERT'' | T_INTO \<Rightarrow> ''INTO'' | T_VALUES \<Rightarrow> ''VALUES'' | T_UPDATE \<Rightarrow> ''UPDATE'' | T_SET \<Rightarrow> ''SET''
   | T_DELETE \<Rightarrow> ''DELETE'' | T_JOIN \<Rightarrow> ''JOIN'' | T_INNER \<Rightarrow> ''INNER'' | T_LEFT \<Rightarrow> ''LEFT'' | T_RIGHT \<Rightarrow> ''RIGHT''
   | T_OUTER \<Rightarrow> ''OUTER'' | T_ON \<Rightarrow> ''ON'' | T_GROUP \<Rightarrow> ''GROUP'' | T_BY \<Rightarrow> ''BY'' | T_ORDER \<Rightarrow> ''ORDER''
   | T_LIMIT \<Rightarrow> ''LIMIT'' | T_AS \<Rightarrow> ''AS'' | T_AND \<Rightarrow> ''AND'' | T_OR \<Rightarrow> ''OR'' | T_EQUALS \<Rightarrow> ''=''
   | T_NOT_EQUALS \<Rightarrow> ''!='' | T_GREATER_THAN \<Rightarrow> ''>'' | T_LESS_THAN \<Rightarrow> ''<'' | T_GREATER_EQUAL \<Rightarrow> ''>=''
   | T_LESS_EQUAL \<Rightarrow> ''<='' | T_LIKE \<Rightarrow> ''LIKE'' | T_IDENTIFIER \<Rightarrow> ''IDENTIFIER'' | T_STRING \<Rightarrow> ''STRING''
   | T_NUMBER \<Rightarrow> ''NUMBER'' | T_BOOLEAN \<Rightarrow> ''BOOLEAN'' | T_NULL \<Rightarrow> ''NULL'' | T_COMMA \<Rightarrow> '',''
   | T_SEMICOLON \<Rightarrow> '';'' | T_LPAREN \<Rightarrow> ''('' | T_RPAREN \<Rightarrow> '')'' | T_ASTERISK \<Rightarrow> ''*'' | T_EOF \<Rightarrow> ''EOF'')"

record token =
  token_type :: token_type
  token_value :: string
  token_position :: int

definition SINGLE_CHARACTER_TOKENS :: "char \<Rightarrow> token_type option" where
  "SINGLE_CHARACTER_TOKENS c =
     (if c = CHR ''='' then Some T_EQUALS else if c = CHR '','' then Some T_COMMA
      else if c = CHR '';'' then Some T_SEMICOLON else if c = CHR ''('' then Some T_LPAREN
      else if c = CHR '')'' then Some T_RPAREN else if c = CHR ''*'' then Some T_ASTERISK else None)"

text \<open>With a following equals sign, and alone.\<close>

definition COMPARISON_TOKENS :: "char \<Rightarrow> (token_type \<times> token_type option) option" where
  "COMPARISON_TOKENS c =
     (if c = CHR ''>'' then Some (T_GREATER_EQUAL, Some T_GREATER_THAN)
      else if c = CHR ''<'' then Some (T_LESS_EQUAL, Some T_LESS_THAN)
      else if c = CHR ''!'' then Some (T_NOT_EQUALS, None) else None)"

definition keyword_types :: "(string \<times> token_type) list" where
  "keyword_types = [(''SELECT'', T_SELECT), (''FROM'', T_FROM), (''WHERE'', T_WHERE), (''INSERT'', T_INSERT),
     (''INTO'', T_INTO), (''VALUES'', T_VALUES), (''UPDATE'', T_UPDATE), (''SET'', T_SET), (''DELETE'', T_DELETE),
     (''JOIN'', T_JOIN), (''INNER'', T_INNER), (''LEFT'', T_LEFT), (''RIGHT'', T_RIGHT), (''OUTER'', T_OUTER),
     (''ON'', T_ON), (''GROUP'', T_GROUP), (''BY'', T_BY), (''ORDER'', T_ORDER), (''LIMIT'', T_LIMIT), (''AS'', T_AS),
     (''AND'', T_AND), (''OR'', T_OR), (''LIKE'', T_LIKE), (''TRUE'', T_BOOLEAN), (''FALSE'', T_BOOLEAN),
     (''NULL'', T_NULL)]"

definition getKeywordType :: "string \<Rightarrow> token_type" where
  "getKeywordType word = (case map_of keyword_types (to_upper word) of Some ty \<Rightarrow> ty | None \<Rightarrow> T_IDENTIFIER)"

subsection \<open>Reading one token\<close>

text \<open>The body of a string after its opening quote: a doubled quote stands for itself.\<close>

function read_quoted :: "char \<Rightarrow> string \<Rightarrow> string \<times> string" where
  "read_quoted quote s =
     (let body = takeWhile (\<lambda>c. c \<noteq> quote) s in
      case dropWhile (\<lambda>c. c \<noteq> quote) s of
        q1 # q2 # t \<Rightarrow>
          if q2 = quote then (case read_quoted quote t of (others, rest) \<Rightarrow> (body @ quote # others, rest))
          else (body, q2 # t)
      | [q1] \<Rightarrow> (body, [])
      | [] \<Rightarrow> (body, []))"
  by pat_completeness auto

termination
proof (relation "measure (\<lambda>(q, s). length s)", goal_cases)
  case (2 quote s body a list b t)
  have "length (dropWhile (\<lambda>c. c \<noteq> quote) s) \<le> length s" by (rule length_dropWhile_le)
  with 2 show ?case by simp
qed simp

declare read_quoted.simps [simp del]

definition readString :: "string \<Rightarrow> string \<times> string" where
  "readString s = (case s of quote # t \<Rightarrow> read_quoted quote t | [] \<Rightarrow> ([], []))"

definition is_number_unit :: "char \<Rightarrow> bool" where
  "is_number_unit c = (is_digit c \<or> c = CHR ''.'')"

definition readNumber :: "string \<Rightarrow> string \<times> string" where
  "readNumber s = (takeWhile is_number_unit s, dropWhile is_number_unit s)"

definition is_identifier_unit :: "char \<Rightarrow> bool" where
  "is_identifier_unit c = (is_alnum c \<or> c = CHR ''_'' \<or> c = CHR ''-'')"

definition is_identifier_start :: "char \<Rightarrow> bool" where
  "is_identifier_start c = (is_letter c \<or> c = CHR ''_'')"

definition readIdentifier :: "string \<Rightarrow> string \<times> string" where
  "readIdentifier s = (takeWhile is_identifier_unit s, dropWhile is_identifier_unit s)"

text \<open>Dots before a name fold into slashes.\<close>

function read_dotted :: "string \<Rightarrow> string \<Rightarrow> string \<times> string" where
  "read_dotted val s =
     (case s of
        d # c # t \<Rightarrow>
          if d = CHR ''.'' \<and> is_identifier_start c
          then (case readIdentifier (c # t) of (part, rest) \<Rightarrow> read_dotted (val @ CHR ''/'' # part) rest)
          else (val, s)
      | _ \<Rightarrow> (val, s))"
  by pat_completeness auto

termination
proof (relation "measure (\<lambda>(v, s). length s)", goal_cases)
  case (2 val s d list c t x y)
  have "length y \<le> length (c # t)"
    using length_dropWhile_le [of is_identifier_unit "c # t"] 2(4) by (auto simp: readIdentifier_def)
  with 2 show ?case by simp
qed simp

declare read_dotted.simps [simp del]

definition readIdentifierToken :: "string \<Rightarrow> int \<Rightarrow> token \<times> string" where
  "readIdentifierToken s pos =
     (case readIdentifier s of (first, rest) \<Rightarrow>
      case read_dotted first rest of (val, rest') \<Rightarrow>
        (\<lparr> token_type = getKeywordType val, token_value = val, token_position = pos \<rparr>, rest'))"

definition readOperatorToken :: "string \<Rightarrow> int \<Rightarrow> token option \<times> string" where
  "readOperatorToken s pos =
     (case s of [] \<Rightarrow> (None, [])
      | c # t \<Rightarrow>
          (case COMPARISON_TOKENS c of
             Some (withEquals, alone) \<Rightarrow>
               (case t of e # u \<Rightarrow>
                    if e = CHR ''='' then (Some \<lparr> token_type = withEquals, token_value = [c, CHR ''=''], token_position = pos \<rparr>, u)
                    else (map_option (\<lambda>ty. \<lparr> token_type = ty, token_value = [c], token_position = pos \<rparr>) alone, t)
                | [] \<Rightarrow> (map_option (\<lambda>ty. \<lparr> token_type = ty, token_value = [c], token_position = pos \<rparr>) alone, t))
           | None \<Rightarrow>
               (map_option (\<lambda>ty. \<lparr> token_type = ty, token_value = [c], token_position = pos \<rparr>)
                  (SINGLE_CHARACTER_TOKENS c), t)))"

subsection \<open>The token list\<close>

definition skipWhitespace :: "string \<Rightarrow> string" where
  "skipWhitespace s = dropWhile is_space s"

text \<open>One iteration on input that is not blank: the token, if any, and what is left.\<close>

definition next_token :: "string \<Rightarrow> int \<Rightarrow> token option \<times> string" where
  "next_token s pos =
     (let c = hd s in
      if c = CHR 0x27 \<or> c = CHR 0x22
        then (case readString s of (v, rest) \<Rightarrow> (Some \<lparr> token_type = T_STRING, token_value = v, token_position = pos \<rparr>, rest))
      else if is_digit c
        then (case readNumber s of (v, rest) \<Rightarrow> (Some \<lparr> token_type = T_NUMBER, token_value = v, token_position = pos \<rparr>, rest))
      else if is_identifier_start c
        then (case readIdentifierToken s pos of (t, rest) \<Rightarrow> (Some t, rest))
      else readOperatorToken s pos)"

lemma read_quoted_length: "length (snd (read_quoted q s)) \<le> length s"
proof (induction q s rule: read_quoted.induct)
  case (1 quote s)
  have d: "length (dropWhile (\<lambda>c. c \<noteq> quote) s) \<le> length s" by (rule length_dropWhile_le)
  show ?case
  proof (cases "dropWhile (\<lambda>c. c \<noteq> quote) s")
    case (Cons q1 r)
    show ?thesis
    proof (cases r)
      case (Cons q2 t)
      with \<open>dropWhile (\<lambda>c. c \<noteq> quote) s = q1 # r\<close> 1 [OF refl] d show ?thesis
        by (subst read_quoted.simps) (fastforce simp: Let_def split: prod.split)
    qed (use Cons d in \<open>subst read_quoted.simps, simp add: Let_def\<close>)
  next
    case Nil
    then show ?thesis by (subst read_quoted.simps) (simp add: Let_def del: dropWhile_eq_Nil_conv)
  qed
qed

lemma read_dotted_length: "length (snd (read_dotted v s)) \<le> length s"
proof (induction v s rule: read_dotted.induct)
  case (1 v s)
  show ?case
  proof (cases s)
    case (Cons d r)
    show ?thesis
    proof (cases r)
      case (Cons c t)
      have "length (snd (readIdentifier (c # t))) \<le> length (c # t)"
        using length_dropWhile_le [of is_identifier_unit "c # t"] by (simp add: readIdentifier_def)
      with \<open>s = d # r\<close> Cons 1 show ?thesis
        by (subst read_dotted.simps) (force split: prod.split)
    qed (use Cons in \<open>subst read_dotted.simps, simp\<close>)
  qed (subst read_dotted.simps, simp)
qed

lemma identifier_start_unit: "is_identifier_start c \<Longrightarrow> is_identifier_unit c"
  by (auto simp: is_identifier_start_def is_identifier_unit_def is_alnum_def)

lemma next_token_progress:
  assumes "s \<noteq> []"
  shows "length (snd (next_token s pos)) < length s"
proof -
  obtain c t where s: "s = c # t" using assms by (cases s) auto
  have str: "length (snd (readString s)) < length s"
    using read_quoted_length [of c t] by (simp add: readString_def s)
  have no: "length (snd (readNumber s)) < length s" if "is_digit c"
    using that length_dropWhile_le [of is_number_unit t] by (simp add: readNumber_def s is_number_unit_def)
  have ident: "length (snd (readIdentifierToken s pos)) < length s" if "is_identifier_start c"
  proof -
    have "length (snd (readIdentifier s)) < length s"
      using identifier_start_unit [OF that] length_dropWhile_le [of is_identifier_unit t]
      by (simp add: readIdentifier_def s)
    then show ?thesis
      using read_dotted_length [of "fst (readIdentifier s)" "snd (readIdentifier s)"]
      by (auto simp: readIdentifierToken_def split: prod.split)
  qed
  have oper: "length (snd (readOperatorToken s pos)) < length s"
    by (auto simp: readOperatorToken_def s split: option.split list.split prod.split)
  show ?thesis
    using str no ident oper by (auto simp: next_token_def s Let_def split: prod.splits)
qed

lemma skip_then_progress:
  "skipWhitespace s \<noteq> [] \<Longrightarrow> next_token (skipWhitespace s) pos = (found, rest) \<Longrightarrow> length rest < length s"
  using next_token_progress [of "skipWhitespace s" pos] length_dropWhile_le [of is_space s]
  by (simp add: skipWhitespace_def)

function tokenize_from :: "nat \<Rightarrow> string \<Rightarrow> token list" where
  "tokenize_from len s =
     (let t = skipWhitespace s; pos = int len - int (length t) in
      if t = [] then [\<lparr> token_type = T_EOF, token_value = [], token_position = pos \<rparr>]
      else case next_token t pos of (found, rest) \<Rightarrow>
        (case found of Some tok \<Rightarrow> tok # tokenize_from len rest | None \<Rightarrow> tokenize_from len rest))"
  by pat_completeness auto

termination
  by (relation "measure (\<lambda>(n, s). length s)") (auto dest: skip_then_progress [OF _ sym])

declare tokenize_from.simps [simp del]

definition tokenize :: "string \<Rightarrow> token list" where
  "tokenize input = (let s = trim input in tokenize_from (length s) s)"

subsection \<open>Positions\<close>

lemma keyword_not_eof: "getKeywordType word \<noteq> T_EOF"
proof -
  have "\<forall>ty\<in>set (map snd keyword_types). ty \<noteq> T_EOF" by (simp add: keyword_types_def)
  then show ?thesis by (force simp: getKeywordType_def dest: map_of_SomeD split: option.splits)
qed

lemma next_token_shape:
  "next_token s pos = (Some tok, rest) \<Longrightarrow> token_position tok = pos \<and> token_type tok \<noteq> T_EOF"
  using keyword_not_eof
  by (auto simp: next_token_def Let_def readIdentifierToken_def readOperatorToken_def COMPARISON_TOKENS_def
      SINGLE_CHARACTER_TOKENS_def split: prod.splits if_splits list.splits option.splits)

definition in_order :: "int \<Rightarrow> int \<Rightarrow> token list \<Rightarrow> bool" where
  "in_order low high ts \<longleftrightarrow> sorted_wrt (<) (map token_position ts) \<and>
     (\<forall>t\<in>set ts. token_type t \<noteq> T_EOF \<and> low \<le> token_position t \<and> token_position t < high)"

lemma tokenize_from_order:
  "length s \<le> len \<Longrightarrow>
   \<exists>ts. tokenize_from len s = ts @ [\<lparr> token_type = T_EOF, token_value = [], token_position = int len \<rparr>] \<and>
     in_order (int len - int (length s)) (int len) ts"
proof (induction len s rule: tokenize_from.induct)
  case (1 len s)
  let ?t = "skipWhitespace s"
  let ?pos = "int len - int (length ?t)"
  have skip: "length ?t \<le> length s" using length_dropWhile_le [of is_space s] by (simp add: skipWhitespace_def)
  show ?case
  proof (cases "?t = []")
    case True
    then show ?thesis by (subst tokenize_from.simps) (simp add: in_order_def)
  next
    case False
    obtain found rest where n: "next_token ?t ?pos = (found, rest)" by fastforce
    have less: "length rest < length ?t" using next_token_progress [OF False, of ?pos] n by simp
    with skip 1(3) have "length rest \<le> len" by simp
    with 1 False n obtain ts where ts: "tokenize_from len rest = ts @ [\<lparr> token_type = T_EOF, token_value = [], token_position = int len \<rparr>]"
      "in_order (int len - int (length rest)) (int len) ts"
      by (cases found) (simp_all, blast+)
    show ?thesis
    proof (cases found)
      case None
      have "in_order (int len - int (length s)) (int len) ts" using ts(2) less skip by (fastforce simp: in_order_def)
      with ts(1) False n None show ?thesis by (subst tokenize_from.simps) (simp add: Let_def)
    next
      case (Some tok)
      have "in_order (int len - int (length s)) (int len) (tok # ts)"
        using ts(2) less skip next_token_shape [of ?t ?pos tok rest] n Some by (fastforce simp: in_order_def)
      with ts(1) False n Some show ?thesis
        by (subst tokenize_from.simps) (auto simp: Let_def intro!: exI [of _ "tok # ts"])
    qed
  qed
qed

text \<open>Tokenizing never runs past its input: for every text the token list ends in exactly one end of file,
  whose position is the length of the trimmed text, and the positions of the other tokens strictly increase
  from 0 and stay below that length.\<close>

theorem tokenize_positions:
  "\<exists>ts. tokenize input = ts @ [\<lparr> token_type = T_EOF, token_value = [], token_position = int (length (trim input)) \<rparr>] \<and>
    sorted_wrt (<) (map token_position ts) \<and>
    list_all (\<lambda>t. token_type t \<noteq> T_EOF \<and> 0 \<le> token_position t \<and> token_position t < int (length (trim input))) ts"
  using tokenize_from_order [of "trim input" "length (trim input)"]
  by (auto simp: tokenize_def Let_def in_order_def list_all_iff)

end
