(* ===== verification/SqlParser.thy ===== *)
theory SqlParser imports Lexer Records begin

section \<open>The SQL parser (class SQLParser and Parser of src/src/query/parser.js)\<close>

text \<open>
  A recursive descent parser.  Its state is the list of the tokens from the current one on; past
  the end every token is the end of file.  A throw ends the parse.  Queries are the plain objects
  the code builds, with their keys in order of assignment.
\<close>

type_synonym 'a parser = "(token list, 'a) op"

definition eof_token :: token where
  "eof_token = \<lparr> token_type = T_EOF, token_value = [], token_position = - 1 \<rparr>"

definition current_token :: "token list \<Rightarrow> token" where
  "current_token ts = (case ts of t # _ \<Rightarrow> t | [] \<Rightarrow> eof_token)"

abbreviation current_type :: "token list \<Rightarrow> token_type" where
  "current_type ts \<equiv> token_type (current_token ts)"

definition advance :: "unit parser" where
  "advance = modify tl"

definition expect :: "token_type \<Rightarrow> string parser" where
  "expect ty = bind_op (gets current_token) (\<lambda>t.
     if token_type t \<noteq> ty then throw (plain_error ''Invalid SQL syntax'')
     else seq_op advance (ret (token_value t)))"

definition match_types :: "token_type list \<Rightarrow> token list \<Rightarrow> bool" where
  "match_types types ts = (current_type ts \<in> set types)"

subsection \<open>Conditions\<close>

text \<open>\<open>parseFloat\<close> and \<open>parseInt\<close> of a number token: the longest prefix that is a number.\<close>

definition parse_float :: "string \<Rightarrow> f64" where
  "parse_float s = (case decimal_literal s of Some ((sig, ex), _) \<Rightarrow> f64_of_decimal False sig ex | None \<Rightarrow> f64_nan)"

definition parse_int :: "string \<Rightarrow> f64" where
  "parse_int s = (case takeWhile is_digit s of [] \<Rightarrow> f64_nan | ds \<Rightarrow> f64_of_int (value_of_digits 10 ds))"

definition parseValue :: "jsval parser" where
  "parseValue = bind_op (gets current_token) (\<lambda>t.
     if token_type t = T_STRING then seq_op advance (ret (JStr (token_value t)))
     else if token_type t = T_NUMBER then seq_op advance (ret (JNum (parse_float (token_value t))))
     else if token_type t = T_BOOLEAN then seq_op advance (ret (JBool (to_lower (token_value t) = ''true'')))
     else if token_type t = T_NULL then seq_op advance (ret JNull)
     else throw (plain_error (''Unexpected value type: '' @ type_text (token_type t))))"

definition operator_map :: "token_type \<Rightarrow> string option" where
  "operator_map ty = (case ty of T_EQUALS \<Rightarrow> Some ''$eq'' | T_NOT_EQUALS \<Rightarrow> Some ''$ne''
     | T_GREATER_THAN \<Rightarrow> Some ''$gt'' | T_LESS_THAN \<Rightarrow> Some ''$lt'' | T_GREATER_EQUAL \<Rightarrow> Some ''$gte''
     | T_LESS_EQUAL \<Rightarrow> Some ''$lte'' | T_LIKE \<Rightarrow> Some ''$like'' | _ \<Rightarrow> None)"

definition parseOperator :: "string parser" where
  "parseOperator = bind_op (gets current_token) (\<lambda>t.
     case operator_map (token_type t) of
       Some operator \<Rightarrow> seq_op advance (ret operator)
     | None \<Rightarrow> throw (plain_error (''Unknown operator: '' @ type_text (token_type t))))"

definition parseCondition :: "(string \<times> string \<times> jsval) parser" where
  "parseCondition =
     bind_op (expect T_IDENTIFIER) (\<lambda>column. bind_op parseOperator (\<lambda>operator.
     bind_op parseValue (\<lambda>val. ret (column, operator, val))))"

text \<open>What the parser functions have in common: they drop tokens from the front.\<close>

definition drops :: "nat \<Rightarrow> 'a parser \<Rightarrow> bool" where
  "drops n p \<longleftrightarrow> (\<forall>ts r ts'. p ts = (r, ts') \<longrightarrow> suffix ts' ts \<and> (is_ok r \<longrightarrow> length ts' + n \<le> length ts))"

named_theorems drops_intros \<open>parser functions drop tokens\<close>

lemma dropsD: "drops n p \<Longrightarrow> p ts = (r, ts') \<Longrightarrow> suffix ts' ts \<and> (is_ok r \<longrightarrow> length ts' + n \<le> length ts)"
  by (simp add: drops_def)

lemma drops_le: "drops n p \<Longrightarrow> m \<le> n \<Longrightarrow> drops m p"
  unfolding drops_def by fastforce

lemma drops_ret [drops_intros]: "drops 0 (ret x)"
  and drops_throw [drops_intros]: "drops n (throw e)"
  and drops_gets [drops_intros]: "drops 0 (gets f)"
  by (simp_all add: drops_def)

lemma drops_advance [drops_intros]: "drops 0 advance"
  by (simp add: drops_def advance_def suffix_tl)

lemma drops_bind:
  assumes "drops m p" and "\<And>x. drops n (f x)"
  shows "drops (m + n) (bind_op p f)"
  unfolding drops_def
proof (intro allI impI)
  fix ts r ts' assume run: "bind_op p f ts = (r, ts')"
  obtain q us where p: "p ts = (q, us)" by fastforce
  have pd: "suffix us ts" "is_ok q \<Longrightarrow> length us + m \<le> length ts" using dropsD [OF assms(1) p] by auto
  show "suffix ts' ts \<and> (is_ok r \<longrightarrow> length ts' + (m + n) \<le> length ts)"
  proof (cases q)
    case (Inl e)
    with run p pd show ?thesis by (auto simp: bind_op_def)
  next
    case (Inr x)
    with run p have "f x us = (r, ts')" by (simp add: bind_op_def)
    from dropsD [OF assms(2) this] pd Inr show ?thesis
      by (auto intro: suffix_order.trans)
  qed
qed

lemma drops_bind0 [drops_intros]: "drops n p \<Longrightarrow> (\<And>x. drops 0 (f x)) \<Longrightarrow> drops n (bind_op p f)"
  using drops_bind [of n p 0 f] by simp

lemma drops_seq0 [drops_intros]: "drops n p \<Longrightarrow> drops 0 q \<Longrightarrow> drops n (seq_op p q)"
  unfolding seq_op_def by (rule drops_bind0)

lemma drops_if [drops_intros]: "(b \<Longrightarrow> drops n p) \<Longrightarrow> (\<not> b \<Longrightarrow> drops n q) \<Longrightarrow> drops n (if b then p else q)"
  by simp

lemma drops_expect [drops_intros]:
  assumes "ty \<noteq> T_EOF"
  shows "drops 1 (expect ty)"
  using assms
  by (auto simp: drops_def expect_def advance_def current_token_def bind_op_def seq_op_def eof_token_def
      suffix_tl split: list.splits)

lemma drops_parseValue [drops_intros]: "drops 1 parseValue"
  by (auto simp: drops_def parseValue_def advance_def current_token_def bind_op_def seq_op_def eof_token_def
      suffix_tl split: list.splits if_splits)

lemma drops_parseOperator [drops_intros]: "drops 1 parseOperator"
  by (auto simp: drops_def parseOperator_def advance_def current_token_def bind_op_def seq_op_def eof_token_def
      suffix_tl suffix_ConsI split: list.splits option.splits) (simp add: operator_map_def)

lemma drops_parseCondition: "drops 3 parseCondition"
proof -
  have "drops (1 + (1 + (1 + 0))) parseCondition"
    unfolding parseCondition_def by (intro drops_bind) (auto simp del: One_nat_def intro: drops_intros)
  then show ?thesis by (simp add: numeral_eq_Suc)
qed

text \<open>One conjunction gathers the operators of a column; \<open>OR\<close> starts the next one.\<close>

definition object_fields :: "jsval \<Rightarrow> record_obj" where
  "object_fields v = (case v of JObj ob \<Rightarrow> ob | _ \<Rightarrow> safeRecord)"

definition add_condition :: "record_obj \<Rightarrow> string \<times> string \<times> jsval \<Rightarrow> record_obj" where
  "add_condition conjunction = (\<lambda>(column, operator, val).
     obj_put conjunction column (JObj (obj_put (object_fields (obj_get conjunction column)) operator val)))"

lemma parseCondition_shrinks: "parseCondition ts = (Inr c, ts') \<Longrightarrow> length ts' < length ts"
  using dropsD [OF drops_parseCondition, of ts "Inr c" ts'] by simp

function where_loop :: "record_obj list \<Rightarrow> record_obj \<Rightarrow> token list \<Rightarrow> record_obj list result \<times> token list" where
  "where_loop conditions conjunction ts =
     (case parseCondition ts of
        (Inl e, ts') \<Rightarrow> (Inl e, ts')
      | (Inr condition, ts') \<Rightarrow>
          (let conjunction' = add_condition conjunction condition in
           if match_types [T_AND] ts' then where_loop conditions conjunction' (tl ts')
           else if match_types [T_OR] ts' then where_loop (conditions @ [conjunction']) safeRecord (tl ts')
           else (Inr (conditions @ [conjunction']), ts')))"
  by pat_completeness auto

termination
  by (relation "measure (\<lambda>(cs, c, ts). length ts)") (auto dest: parseCondition_shrinks [OF sym])

declare where_loop.simps [simp del]

definition parseWhereClause :: "record_obj list parser" where
  "parseWhereClause = seq_op (expect T_WHERE) (where_loop [] safeRecord)"

subsection \<open>Column lists\<close>

lemma expect_shrinks: "expect ty ts = (Inr c, ts') \<Longrightarrow> ty \<noteq> T_EOF \<Longrightarrow> length ts' < length ts"
  using dropsD [OF drops_expect, of ty ts "Inr c" ts'] by simp

function column_loop :: "string list \<Rightarrow> token list \<Rightarrow> string list result \<times> token list" where
  "column_loop columns ts =
     (case expect T_IDENTIFIER ts of
        (Inl e, ts') \<Rightarrow> (Inl e, ts')
      | (Inr column, ts') \<Rightarrow>
          if match_types [T_COMMA] ts' then column_loop (columns @ [column]) (tl ts')
          else (Inr (columns @ [column]), ts'))"
  by pat_completeness auto

termination
  by (relation "measure (\<lambda>(cs, ts). length ts)") (auto dest: expect_shrinks [OF sym])

declare column_loop.simps [simp del]

definition parseSelectClause :: "string list parser" where
  "parseSelectClause = seq_op (expect T_SELECT) (bind_op (gets (match_types [T_ASTERISK])) (\<lambda>star.
     if star then seq_op advance (ret [''*'']) else column_loop []))"

subsection \<open>SELECT\<close>

definition select_value :: "string list \<Rightarrow> jsval" where
  "select_value select = (if ''*'' \<in> set select then JUndef else JArr (map JStr select))"

definition ops_value :: "record_obj list \<Rightarrow> jsval" where
  "ops_value ops = JArr (map JObj ops)"

text \<open>An optional clause: \<open>p\<close> runs when the current token is of the given type.\<close>

definition optional_clause :: "token_type \<Rightarrow> (record_obj \<Rightarrow> record_obj parser) \<Rightarrow> record_obj \<Rightarrow> record_obj parser" where
  "optional_clause ty p query = bind_op (gets (match_types [ty])) (\<lambda>b. if b then p query else ret query)"

definition where_clause :: "record_obj \<Rightarrow> record_obj parser" where
  "where_clause = optional_clause T_WHERE (\<lambda>query.
     bind_op parseWhereClause (\<lambda>ops. ret (obj_put query ''$ops'' (ops_value ops))))"

definition ignored_where_clause :: "record_obj \<Rightarrow> record_obj parser" where
  "ignored_where_clause = optional_clause T_WHERE (\<lambda>query. bind_op parseWhereClause (\<lambda>ops. ret query))"

definition group_clause :: "record_obj \<Rightarrow> record_obj parser" where
  "group_clause = optional_clause T_GROUP (\<lambda>query.
     seq_op advance (seq_op (expect T_BY)
       (bind_op (expect T_IDENTIFIER) (\<lambda>column. ret (obj_put query ''$groupby'' (JStr column))))))"

definition limit_clause :: "record_obj \<Rightarrow> record_obj parser" where
  "limit_clause = optional_clause T_LIMIT (\<lambda>query.
     seq_op advance (bind_op (expect T_NUMBER) (\<lambda>n. ret (obj_put query ''$limit'' (JNum (parse_int n))))))"

definition join_mode_of :: "token_type \<Rightarrow> string option" where
  "join_mode_of ty = (if ty = T_INNER then Some ''inner'' else if ty = T_LEFT then Some ''left''
     else if ty = T_RIGHT then Some ''right'' else if ty = T_OUTER then Some ''outer'' else None)"

definition parseJoinMode :: "string parser" where
  "parseJoinMode = bind_op (gets current_token) (\<lambda>t.
     case join_mode_of (token_type t) of Some m \<Rightarrow> seq_op advance (ret m) | None \<Rightarrow> ret ''inner'')"

definition parseJoinColumn :: "string parser" where
  "parseJoinColumn = expect T_IDENTIFIER"

definition parseJoinOperator :: "string parser" where
  "parseJoinOperator = bind_op (gets current_token) (\<lambda>t.
     case (if token_type t = T_LIKE then None else operator_map (token_type t)) of
       Some operator \<Rightarrow> seq_op advance (ret operator)
     | None \<Rightarrow> throw (plain_error (''Unknown join operator: '' @ type_text (token_type t))))"

definition parseJoinCondition :: "(string \<times> string \<times> jsval) parser" where
  "parseJoinCondition =
     bind_op parseJoinColumn (\<lambda>leftColumn. bind_op parseJoinOperator (\<lambda>operator.
     bind_op parseJoinColumn (\<lambda>rightColumn. ret (leftColumn, operator, JStr rightColumn))))"

lemma drops_parseJoinOperator [drops_intros]: "drops 0 parseJoinOperator"
  unfolding parseJoinOperator_def by (intro drops_intros) (auto split: option.split intro: drops_intros drops_seq0)

lemma parseJoinCondition_shrinks: "parseJoinCondition ts = (Inr c, ts') \<Longrightarrow> length ts' < length ts"
proof -
  assume run: "parseJoinCondition ts = (Inr c, ts')"
  have "drops 1 parseJoinCondition"
    unfolding parseJoinCondition_def parseJoinColumn_def
    by (auto simp del: One_nat_def intro!: drops_intros intro: drops_le [OF drops_expect])
  from dropsD [OF this run] show ?thesis by simp
qed

function join_loop :: "record_obj \<Rightarrow> token list \<Rightarrow> record_obj result \<times> token list" where
  "join_loop conditions ts =
     (case parseJoinCondition ts of
        (Inl e, ts') \<Rightarrow> (Inl e, ts')
      | (Inr condition, ts') \<Rightarrow>
          if match_types [T_AND] ts' then join_loop (add_condition conditions condition) (tl ts')
          else (Inr (add_condition conditions condition), ts'))"
  by pat_completeness auto

termination
  by (relation "measure (\<lambda>(cs, ts). length ts)") (auto dest: parseJoinCondition_shrinks [OF sym])

declare join_loop.simps [simp del]

definition parseJoinConditions :: "record_obj parser" where
  "parseJoinConditions = join_loop safeRecord"

definition parseJoinQuery :: "string list \<Rightarrow> string \<Rightarrow> record_obj parser" where
  "parseJoinQuery select leftCollection =
     bind_op parseJoinMode (\<lambda>joinMode.
     seq_op (expect T_JOIN) (
     bind_op (expect T_IDENTIFIER) (\<lambda>rightCollection.
     seq_op (expect T_ON) (
     bind_op parseJoinConditions (\<lambda>onConditions.
     bind_op (ignored_where_clause
       [(''$leftCollection'', JStr leftCollection), (''$rightCollection'', JStr rightCollection),
        (''$mode'', JStr joinMode), (''$on'', JObj onConditions), (''$select'', select_value select)]) (\<lambda>query.
     bind_op (group_clause query) limit_clause))))))"

definition parseSelect :: "record_obj parser" where
  "parseSelect =
     bind_op parseSelectClause (\<lambda>select.
     seq_op (expect T_FROM) (
     bind_op (expect T_IDENTIFIER) (\<lambda>collection.
     bind_op (gets (match_types [T_JOIN, T_INNER, T_LEFT, T_RIGHT, T_OUTER])) (\<lambda>joins.
       if joins then parseJoinQuery select collection
       else bind_op (where_clause
              [(''$collection'', JStr collection), (''$select'', select_value select),
               (''$onlyIds'', JBool (''_id'' \<in> set select))]) (\<lambda>query.
            bind_op (group_clause query) limit_clause)))))"

subsection \<open>INSERT, UPDATE, DELETE\<close>

definition column_name :: "string list \<Rightarrow> nat \<Rightarrow> string" where
  "column_name columns i =
     (if i < length columns \<and> columns ! i \<noteq> [] then columns ! i else ''col'' @ digits_of 10 (int i))"

lemma parseValue_shrinks: "parseValue ts = (Inr c, ts') \<Longrightarrow> length ts' < length ts"
  using dropsD [OF drops_parseValue, of ts "Inr c" ts'] by simp

function value_loop :: "string list \<Rightarrow> nat \<Rightarrow> record_obj \<Rightarrow> token list \<Rightarrow> record_obj result \<times> token list" where
  "value_loop columns valueIndex vals ts =
     (case parseValue ts of
        (Inl e, ts') \<Rightarrow> (Inl e, ts')
      | (Inr val, ts') \<Rightarrow>
          (let vals' = obj_put vals (column_name columns valueIndex) val in
           if match_types [T_COMMA] ts' then value_loop columns (Suc valueIndex) vals' (tl ts')
           else (Inr vals', ts')))"
  by pat_completeness auto

termination
  by (relation "measure (\<lambda>(cs, i, vs, ts). length ts)") (auto dest: parseValue_shrinks [OF sym])

declare value_loop.simps [simp del]

definition parseColumns :: "string list parser" where
  "parseColumns = bind_op (gets (match_types [T_LPAREN])) (\<lambda>listed.
     if listed then seq_op advance (bind_op (column_loop []) (\<lambda>columns.
            seq_op (expect T_RPAREN) (ret columns)))
     else ret [])"

definition parseInsert :: "record_obj parser" where
  "parseInsert =
     seq_op (expect T_INSERT) (seq_op (expect T_INTO) (
     bind_op (expect T_IDENTIFIER) (\<lambda>collection.
     bind_op parseColumns (\<lambda>columns.
     seq_op (expect T_VALUES) (seq_op (expect T_LPAREN) (
     bind_op (value_loop columns 0 safeRecord) (\<lambda>vals.
     seq_op (expect T_RPAREN) (
     ret [(''$collection'', JStr collection), (''$values'', JObj vals)]))))))))"

definition parseAssignment :: "(string \<times> jsval) parser" where
  "parseAssignment =
     bind_op (expect T_IDENTIFIER) (\<lambda>column. seq_op (expect T_EQUALS) (
     bind_op parseValue (\<lambda>val. ret (column, val))))"

lemma parseAssignment_shrinks: "parseAssignment ts = (Inr c, ts') \<Longrightarrow> length ts' < length ts"
proof -
  assume run: "parseAssignment ts = (Inr c, ts')"
  have "drops 1 parseAssignment"
    unfolding parseAssignment_def
    by (auto simp del: One_nat_def intro!: drops_intros intro: drops_le [OF drops_expect] drops_le [OF drops_parseValue])
  from dropsD [OF this run] show ?thesis by simp
qed

function set_loop :: "record_obj \<Rightarrow> token list \<Rightarrow> record_obj result \<times> token list" where
  "set_loop vals ts =
     (case parseAssignment ts of
        (Inl e, ts') \<Rightarrow> (Inl e, ts')
      | (Inr (column, val), ts') \<Rightarrow>
          if match_types [T_COMMA] ts' then set_loop (obj_put vals column val) (tl ts')
          else (Inr (obj_put vals column val), ts'))"
  by pat_completeness auto

termination
  by (relation "measure (\<lambda>(vs, ts). length ts)") (auto dest: parseAssignment_shrinks [OF sym])

declare set_loop.simps [simp del]

definition parseUpdate :: "record_obj parser" where
  "parseUpdate =
     seq_op (expect T_UPDATE) (
     bind_op (expect T_IDENTIFIER) (\<lambda>collection.
     seq_op (expect T_SET) (
     bind_op (set_loop safeRecord) (\<lambda>vals.
     optional_clause T_WHERE (\<lambda>update.
       bind_op parseWhereClause (\<lambda>ops. ret (obj_put update ''$where''
         (JObj [(''$collection'', JStr collection), (''$ops'', ops_value ops)]))))
       [(''$collection'', JStr collection), (''$set'', JObj vals)]))))"

definition parseDelete :: "record_obj parser" where
  "parseDelete =
     seq_op (expect T_DELETE) (seq_op (expect T_FROM) (
     bind_op (expect T_IDENTIFIER) (\<lambda>collection. where_clause [(''$collection'', JStr collection)])))"

subsection \<open>Statements\<close>

definition named_collection :: "token list \<Rightarrow> record_obj result" where
  "named_collection tokens =
     (if 2 < length tokens then Inr [(''$collection'', JStr (token_value (tokens ! 2)))]
      else Inl (js_type_error ''Cannot read properties of undefined''))"

definition parse_sql :: "string \<Rightarrow> record_obj result" where
  "parse_sql sql =
     (let tokens = tokenize sql; first = token_value (current_token tokens) in
      if first = ''CREATE'' then named_collection tokens
      else if first = ''SELECT'' then fst (parseSelect tokens)
      else if first = ''INSERT'' then fst (parseInsert tokens)
      else if first = ''UPDATE'' then fst (parseUpdate tokens)
      else if first = ''DELETE'' then fst (parseDelete tokens)
      else if first = ''DROP'' then named_collection tokens
      else Inl (plain_error (''Unsupported SQL statement type: '' @ first)))"

subsection \<open>Query builders\<close>

text \<open>
  The fluent builders hold the query object they assign to; \<open>this\<close> is returned by every setter.
  A builder of a SELECT also keeps its collection for the SQL text.
\<close>

record query_builder =
  qb_collection :: string
  queryAst :: record_obj

definition qb_put :: "string \<Rightarrow> jsval \<Rightarrow> query_builder \<Rightarrow> query_builder" where
  "qb_put key val b = b\<lparr> queryAst := obj_put (queryAst b) key val \<rparr>"

definition QueryBuilder :: "string \<Rightarrow> query_builder" where
  "QueryBuilder collection = \<lparr> qb_collection = collection, queryAst = [(''$collection'', JStr collection)] \<rparr>"

definition qb_select :: "string list \<Rightarrow> query_builder \<Rightarrow> query_builder" where
  "qb_select columns = qb_put ''$select'' (JArr (map JStr columns))"

definition qb_where :: "jsval list \<Rightarrow> query_builder \<Rightarrow> query_builder" where
  "qb_where conditions = qb_put ''$ops'' (JArr conditions)"

definition qb_limit :: "f64 \<Rightarrow> query_builder \<Rightarrow> query_builder" where
  "qb_limit count = qb_put ''$limit'' (JNum count)"

definition qb_groupBy :: "string \<Rightarrow> query_builder \<Rightarrow> query_builder" where
  "qb_groupBy column = qb_put ''$groupby'' (JStr column)"

definition qb_onlyIds :: "query_builder \<Rightarrow> query_builder" where
  "qb_onlyIds = qb_put ''$onlyIds'' (JBool True)"

definition qb_build :: "query_builder \<Rightarrow> record_obj" where
  "qb_build b = queryAst b"

definition sql_operators :: "(string \<times> string) list" where
  "sql_operators = [(''$eq'', ''=''), (''$ne'', ''!=''), (''$gt'', ''>''), (''$lt'', ''<''),
     (''$gte'', ''>=''), (''$lte'', ''<='')]"

definition operatorToSQL :: "string \<Rightarrow> string" where
  "operatorToSQL operator =
     (case map_of (sql_operators @ [(''$like'', ''LIKE'')]) operator of Some t \<Rightarrow> t | None \<Rightarrow> ''='')"

definition quote_text :: "string \<Rightarrow> string" where
  "quote_text s = CHR 0x27 # s @ [CHR 0x27]"

definition sql_value :: "jsval \<Rightarrow> string" where
  "sql_value v = (case v of JStr s \<Rightarrow> quote_text s | _ \<Rightarrow> js_to_string v)"

definition operand_entries :: "jsval \<Rightarrow> record_obj result" where
  "operand_entries operand = object_entries (if is_nullish operand then JObj [] else operand)"

fun map_result :: "('a \<Rightarrow> 'b result) \<Rightarrow> 'a list \<Rightarrow> 'b list result" where
  "map_result f [] = Inr []"
| "map_result f (x # xs) = bind_result (f x) (\<lambda>y. bind_result (map_result f xs) (\<lambda>ys. Inr (y # ys)))"

definition condition_texts :: "string \<times> jsval \<Rightarrow> string result" where
  "condition_texts = (\<lambda>(column, operand). bind_result (operand_entries operand) (\<lambda>es.
     Inr (join_with '' AND '' (map (\<lambda>(operator, val). column @ '' '' @ operatorToSQL operator @ '' '' @ sql_value val) es))))"

definition conjunction_text :: "jsval \<Rightarrow> string result" where
  "conjunction_text conjunct = bind_result (object_entries conjunct) (\<lambda>es.
     bind_result (map_result condition_texts es) (\<lambda>texts. Inr (join_with '' AND '' texts)))"

definition select_text :: "jsval \<Rightarrow> string" where
  "select_text columns = (case columns of JArr vs \<Rightarrow>
       join_with '', '' (map (\<lambda>v. if is_nullish v then [] else js_to_string v) vs) | _ \<Rightarrow> ''*'')"

definition tail_text :: "record_obj \<Rightarrow> string" where
  "tail_text ast =
     (if js_truthy (obj_get ast ''$groupby'') then '' GROUP BY '' @ js_to_string (obj_get ast ''$groupby'') else []) @
     (if js_truthy (obj_get ast ''$limit'') then '' LIMIT '' @ js_to_string (obj_get ast ''$limit'') else [])"

definition where_text :: "jsval \<Rightarrow> string result" where
  "where_text ops = (case ops of
     JArr (c # cs) \<Rightarrow> bind_result (map_result conjunction_text (c # cs)) (\<lambda>texts.
        Inr ('' WHERE '' @ join_with '' AND '' texts))
   | _ \<Rightarrow> Inr [])"

definition qb_toSQL :: "query_builder \<Rightarrow> string result" where
  "qb_toSQL b =
     bind_result (where_text (obj_get (queryAst b) ''$ops'')) (\<lambda>conditions.
     Inr (''SELECT '' @ select_text (obj_get (queryAst b) ''$select'') @ '' FROM '' @ qb_collection b @
       conditions @ tail_text (queryAst b)))"

definition JoinBuilder :: "string \<Rightarrow> string \<Rightarrow> record_obj" where
  "JoinBuilder leftCollection rightCollection =
     [(''$leftCollection'', JStr leftCollection), (''$rightCollection'', JStr rightCollection), (''$mode'', JStr ''inner'')]"

definition jb_select :: "string list \<Rightarrow> record_obj \<Rightarrow> record_obj" where
  "jb_select columns ast = obj_put ast ''$select'' (JArr (map JStr columns))"

text \<open>\<open>innerJoin\<close>, \<open>leftJoin\<close>, \<open>rightJoin\<close> and \<open>outerJoin\<close>.\<close>

definition jb_mode :: "string \<Rightarrow> record_obj \<Rightarrow> record_obj" where
  "jb_mode mode ast = obj_put ast ''$mode'' (JStr mode)"

definition jb_on :: "record_obj \<Rightarrow> record_obj \<Rightarrow> record_obj" where
  "jb_on conditions ast = obj_put ast ''$on'' (JObj conditions)"

definition jb_limit :: "f64 \<Rightarrow> record_obj \<Rightarrow> record_obj" where
  "jb_limit count ast = obj_put ast ''$limit'' (JNum count)"

definition jb_groupBy :: "string \<Rightarrow> record_obj \<Rightarrow> record_obj" where
  "jb_groupBy column ast = obj_put ast ''$groupby'' (JStr column)"

definition jb_onlyIds :: "record_obj \<Rightarrow> record_obj" where
  "jb_onlyIds ast = obj_put ast ''$onlyIds'' (JBool True)"

definition jb_rename :: "record_obj \<Rightarrow> record_obj \<Rightarrow> record_obj" where
  "jb_rename mapping ast = obj_put ast ''$rename'' (JObj mapping)"

definition jb_build :: "record_obj \<Rightarrow> record_obj result" where
  "jb_build ast =
     (if \<not> js_truthy (obj_get ast ''$on'') then Inl (plain_error ''JOIN query must have ON conditions'') else Inr ast)"

definition join_operatorToSQL :: "string \<Rightarrow> string" where
  "join_operatorToSQL operator = (case map_of sql_operators operator of Some t \<Rightarrow> t | None \<Rightarrow> ''='')"

definition on_texts :: "record_obj \<Rightarrow> string \<times> jsval \<Rightarrow> string result" where
  "on_texts ast = (\<lambda>(leftCol, operand). bind_result (operand_entries operand) (\<lambda>es.
     Inr (join_with '' AND '' (map (\<lambda>(operator, rightCol).
        js_to_string (obj_get ast ''$leftCollection'') @ ''.'' @ leftCol @ '' '' @ join_operatorToSQL operator @ '' '' @
        js_to_string (obj_get ast ''$rightCollection'') @ ''.'' @ js_to_string rightCol) es))))"

definition on_text :: "record_obj \<Rightarrow> string result" where
  "on_text ast =
     (if js_truthy (obj_get ast ''$on'')
      then bind_result (object_entries (obj_get ast ''$on'')) (\<lambda>es.
        bind_result (map_result (on_texts ast) es) (\<lambda>texts. Inr ('' ON '' @ join_with '' AND '' texts)))
      else Inr [])"

definition join_type_text :: "jsval \<Rightarrow> string" where
  "join_type_text mode = (case mode of JStr m \<Rightarrow> (if m = [] then ''INNER'' else to_upper m) | _ \<Rightarrow> ''INNER'')"

definition jb_toSQL :: "record_obj \<Rightarrow> string result" where
  "jb_toSQL ast =
     bind_result (on_text ast) (\<lambda>conditions.
     Inr (''SELECT '' @ select_text (obj_get ast ''$select'') @ '' FROM '' @ js_to_string (obj_get ast ''$leftCollection'') @
       '' '' @ join_type_text (obj_get ast ''$mode'') @ '' JOIN '' @ js_to_string (obj_get ast ''$rightCollection'') @
       conditions @ tail_text ast))"

subsection \<open>How far a WHERE clause can run\<close>

lemma match_nonempty: "match_types tys ts \<Longrightarrow> T_EOF \<notin> set tys \<Longrightarrow> ts \<noteq> []"
  by (auto simp: match_types_def current_token_def eof_token_def)

lemma where_loop_run:
  "where_loop conditions conjunction ts = (r, rest) \<Longrightarrow> suffix rest ts \<and>
    (\<forall>ops. r = Inr ops \<longrightarrow> length conditions < length ops \<and>
      4 * length ops + length rest \<le> length ts + 4 * length conditions + 1)"
proof (induction conditions conjunction ts rule: where_loop.induct)
  case (1 conditions conjunction ts)
  obtain q ts' where q: "parseCondition ts = (q, ts')" by fastforce
  have d: "suffix ts' ts" "is_ok q \<Longrightarrow> length ts' + 3 \<le> length ts" using dropsD [OF drops_parseCondition q] by auto
  show ?case
  proof (cases q)
    case (Inl e)
    with 1(3) q d show ?thesis by (subst (asm) where_loop.simps) auto
  next
    case (Inr c)
    have tl: "suffix (tl ts') ts" by (rule suffix_order.trans [OF suffix_tl d(1)])
    consider "match_types [T_AND] ts'" | "\<not> match_types [T_AND] ts'" "match_types [T_OR] ts'"
      | "\<not> match_types [T_AND] ts'" "\<not> match_types [T_OR] ts'" by blast
    then show ?thesis
    proof cases
      case 1
      then have "where_loop conditions (add_condition conjunction c) (tl ts') = (r, rest)"
        using "1.prems" q Inr by (subst (asm) where_loop.simps) (simp add: Let_def)
      with "1.IH"(1) [OF q [symmetric] Inr refl 1] tl d(2) Inr show ?thesis by (fastforce intro: suffix_order.trans)
    next
      case 2
      then have "where_loop (conditions @ [add_condition conjunction c]) safeRecord (tl ts') = (r, rest)"
        using "1.prems" q Inr by (subst (asm) where_loop.simps) (simp add: Let_def)
      with "1.IH"(2) [OF q [symmetric] Inr refl 2] tl d(2) Inr match_nonempty [OF 2(2)] show ?thesis
        by (fastforce intro: suffix_order.trans)
    next
      case 3
      then have "r = Inr (conditions @ [add_condition conjunction c])" "rest = ts'"
        using "1.prems" q Inr by (subst (asm) where_loop.simps, simp add: Let_def)+
      with d Inr show ?thesis by simp
    qed
  qed
qed

text \<open>C40. Parsing a WHERE clause always ends: on every token list it returns, with an error or with the operations
  it read; what is left is a suffix of the input, and each operation took at least four of its tokens.\<close>

theorem where_clause_terminates:
  "\<exists>r rest. parseWhereClause ts = (r, rest) \<and> suffix rest ts \<and>
    (case r of Inl e \<Rightarrow> True | Inr ops \<Rightarrow> ops \<noteq> [] \<and> 4 * length ops + length rest \<le> length ts)"
proof -
  obtain q us where e: "expect T_WHERE ts = (q, us)" by fastforce
  have d: "suffix us ts" "is_ok q \<Longrightarrow> length us + 1 \<le> length ts" using dropsD [OF drops_expect e] by auto
  show ?thesis
  proof (cases q)
    case (Inl x)
    with e d show ?thesis by (simp add: parseWhereClause_def seq_op_def bind_op_def)
  next
    case (Inr x)
    obtain r rest where w: "where_loop [] safeRecord us = (r, rest)" by fastforce
    with e Inr have "parseWhereClause ts = (r, rest)" by (simp add: parseWhereClause_def seq_op_def bind_op_def)
    with where_loop_run [OF w] d Inr show ?thesis by (cases r) (auto intro: suffix_order.trans)
  qed
qed

end
