(* ===== verification/SqlRoundTrip.thy ===== *)
theory SqlRoundTrip imports SqlParser begin

section \<open>Printing and parsing SQL\<close>

text \<open>
  A query made by the builder, printed by \<open>toSQL\<close> and parsed again, is the query.  Tokens are compared
  by type and text, since positions do not reach the parser's results.
\<close>

subsection \<open>Lexing a printed text\<close>

definition kind_text :: "token \<Rightarrow> token_type \<times> string" where
  "kind_text t = (token_type t, token_value t)"

definition lexes :: "string \<Rightarrow> (token_type \<times> string) list \<Rightarrow> bool" where
  "lexes s kts \<longleftrightarrow> (\<forall>len. map kind_text (tokenize_from len s) = kts @ [(T_EOF, [])])"

definition breaks :: "string \<Rightarrow> bool" where
  "breaks s \<longleftrightarrow> s = [] \<or> hd s = CHR '' '' \<or> hd s = CHR '',''"

named_theorems lexing \<open>what a printed piece is lexed to\<close>

lemma breaks_simps [simp]: "breaks []" "breaks (CHR '' '' # s)" "breaks (CHR '','' # s)"
  by (simp_all add: breaks_def)

lemma break_char: "breaks (c # s) \<Longrightarrow> c = CHR '' '' \<or> c = CHR '',''"
  by (simp add: breaks_def)

lemma lexes_Nil [lexing]: "lexes [] []"
  by (simp add: lexes_def tokenize_from.simps skipWhitespace_def kind_text_def)

lemma lexes_space [lexing]: "lexes s kts \<Longrightarrow> lexes (CHR '' '' # s) kts"
proof -
  have "tokenize_from len (CHR '' '' # s) = tokenize_from len s" for len
    by (subst (1 2) tokenize_from.simps) (simp add: skipWhitespace_def is_space_def)
  then show "lexes s kts \<Longrightarrow> lexes (CHR '' '' # s) kts" by (simp add: lexes_def)
qed

lemma lexes_token:
  assumes "s \<noteq> []" and "\<not> is_space (hd s)"
    and "\<And>pos. \<exists>tok. next_token s pos = (Some tok, rest) \<and> kind_text tok = kt" and "lexes rest kts"
  shows "lexes s (kt # kts)"
  unfolding lexes_def
proof
  fix len
  have "skipWhitespace s = s" using assms(1,2) by (cases s) (simp_all add: skipWhitespace_def)
  moreover obtain tok where "next_token s (int len - int (length s)) = (Some tok, rest)" "kind_text tok = kt"
    using assms(3) by blast
  ultimately show "map kind_text (tokenize_from len s) = (kt # kts) @ [(T_EOF, [])]"
    using assms(1,4) by (subst tokenize_from.simps) (simp add: Let_def lexes_def)
qed

text \<open>The classes of code units a token can start with exclude each other.\<close>

lemma start_classes:
  "is_identifier_start c \<Longrightarrow> c \<noteq> CHR 0x27 \<and> c \<noteq> CHR 0x22 \<and> \<not> is_digit c \<and> \<not> is_space c"
  "is_digit c \<Longrightarrow> c \<noteq> CHR 0x27 \<and> c \<noteq> CHR 0x22 \<and> \<not> is_space c"
  by (auto simp: is_identifier_start_def is_letter_def is_lower_def is_upper_def is_digit_def is_space_def Let_def)

lemma takeWhile_break: "list_all P w \<Longrightarrow> breaks rest \<Longrightarrow> \<not> P CHR '' '' \<Longrightarrow> \<not> P CHR '','' \<Longrightarrow>
    takeWhile P (w @ rest) = w \<and> dropWhile P (w @ rest) = rest"
  by (cases rest) (auto simp: list_all_iff dest: break_char)

definition plain_word :: "string \<Rightarrow> bool" where
  "plain_word w \<longleftrightarrow> w \<noteq> [] \<and> is_identifier_start (hd w) \<and> list_all is_identifier_unit w"

lemma lexes_word:
  assumes w: "plain_word w" and rest: "breaks rest" and kts: "lexes rest kts"
  shows "lexes (w @ rest) ((getKeywordType w, w) # kts)"
proof (rule lexes_token [where rest = rest])
  obtain c t where c: "w = c # t" using w by (cases w) (auto simp: plain_word_def)
  note st = start_classes(1) [of c]
  show "w @ rest \<noteq> []" using c by simp
  show "\<not> is_space (hd (w @ rest))" using w c st by (simp add: plain_word_def)
  have "\<not> is_identifier_unit CHR '' ''" "\<not> is_identifier_unit CHR '',''" by code_simp+
  then have id: "readIdentifier (w @ rest) = (w, rest)"
    using takeWhile_break [of is_identifier_unit w rest] w rest by (simp add: readIdentifier_def plain_word_def)
  have dot: "read_dotted w rest = (w, rest)"
    using rest by (cases rest) (auto simp: read_dotted.simps [of w] dest: break_char split: list.split)
  show "\<exists>tok. next_token (w @ rest) pos = (Some tok, rest) \<and> kind_text tok = (getKeywordType w, w)" for pos
    using w c st id dot by (simp add: next_token_def plain_word_def readIdentifierToken_def kind_text_def)
qed (rule kts)

lemma lexes_quoted:
  assumes "CHR 0x27 \<notin> set v" and "breaks rest" and "lexes rest kts"
  shows "lexes (quote_text v @ rest) ((T_STRING, v) # kts)"
proof (rule lexes_token [where rest = rest])
  have all: "\<forall>c\<in>set v. c \<noteq> CHR 0x27" using assms(1) by auto
  then have "takeWhile (\<lambda>c. c \<noteq> CHR 0x27) (v @ CHR 0x27 # rest) = v"
    "dropWhile (\<lambda>c. c \<noteq> CHR 0x27) (v @ CHR 0x27 # rest) = CHR 0x27 # rest"
    by (simp_all add: takeWhile_append2 dropWhile_append2)
  then have "read_quoted CHR 0x27 (v @ CHR 0x27 # rest) = (v, rest)"
    using assms(2) by (cases rest) (auto simp: read_quoted.simps [of _ "v @ _"] Let_def dest: break_char)
  then show "\<exists>tok. next_token (quote_text v @ rest) pos = (Some tok, rest) \<and> kind_text tok = (T_STRING, v)" for pos
    by (simp add: next_token_def quote_text_def readString_def kind_text_def)
qed (use assms(3) in \<open>simp_all add: quote_text_def is_space_def\<close>)

lemma lexes_number:
  assumes "t \<noteq> []" and "is_digit (hd t)" and "list_all is_number_unit t" and "breaks rest" and "lexes rest kts"
  shows "lexes (t @ rest) ((T_NUMBER, t) # kts)"
proof (rule lexes_token [where rest = rest])
  obtain c u where c: "t = c # u" using assms(1) by (cases t) auto
  have "\<not> is_number_unit CHR '' ''" "\<not> is_number_unit CHR '',''" by code_simp+
  then have "readNumber (t @ rest) = (t, rest)"
    using takeWhile_break [of is_number_unit t rest] assms(3,4) by (simp add: readNumber_def)
  then show "\<exists>tok. next_token (t @ rest) pos = (Some tok, rest) \<and> kind_text tok = (T_NUMBER, t)" for pos
    using c assms(2) start_classes(2) [of c] by (simp add: next_token_def kind_text_def)
  show "\<not> is_space (hd (t @ rest))" using c assms(2) start_classes(2) [of c] by simp
qed (use assms in simp_all)

lemma lexes_comma [lexing]: "lexes rest kts \<Longrightarrow> lexes (CHR '','' # rest) ((T_COMMA, '','') # kts)"
  and lexes_star [lexing]: "lexes rest kts \<Longrightarrow> lexes (CHR ''*'' # rest) ((T_ASTERISK, ''*'') # kts)"
  by (rule lexes_token [where rest = rest];
      simp add: next_token_def is_identifier_start_def is_letter_def is_lower_def is_upper_def is_digit_def is_space_def Let_def
        readOperatorToken_def COMPARISON_TOKENS_def SINGLE_CHARACTER_TOKENS_def kind_text_def)+

subsection \<open>Names, values and operators\<close>

definition plain_name :: "string \<Rightarrow> bool" where
  "plain_name w \<longleftrightarrow> plain_word w \<and> getKeywordType w = T_IDENTIFIER"

text \<open>A number whose text is lexed as one number and read back as itself.\<close>

definition sql_number :: "f64 \<Rightarrow> bool" where
  "sql_number x \<longleftrightarrow> (let t = num_to_string x in
     t \<noteq> [] \<and> is_digit (hd t) \<and> list_all is_number_unit t \<and> parse_float t = x)"

definition sql_literal :: "jsval \<Rightarrow> bool" where
  "sql_literal v \<longleftrightarrow> (case v of JStr s \<Rightarrow> CHR 0x27 \<notin> set s | JBool _ \<Rightarrow> True | JNull \<Rightarrow> True | JNum x \<Rightarrow> sql_number x | _ \<Rightarrow> False)"

definition literal_token :: "jsval \<Rightarrow> token_type \<times> string" where
  "literal_token v = (case v of JStr s \<Rightarrow> (T_STRING, s) | JNum x \<Rightarrow> (T_NUMBER, num_to_string x)
     | JBool b \<Rightarrow> (T_BOOLEAN, js_to_string v) | _ \<Rightarrow> (T_NULL, js_to_string v))"

definition operator_tokens :: "(string \<times> (token_type \<times> string)) list" where
  "operator_tokens = [(''$eq'', (T_EQUALS, ''='')), (''$ne'', (T_NOT_EQUALS, ''!='')), (''$gt'', (T_GREATER_THAN, ''>'')),
     (''$lt'', (T_LESS_THAN, ''<'')), (''$gte'', (T_GREATER_EQUAL, ''>='')), (''$lte'', (T_LESS_EQUAL, ''<='')),
     (''$like'', (T_LIKE, ''LIKE''))]"

lemma word_tokens [lexing]:
  assumes "breaks rest" and "lexes rest kts"
  shows "lexes (''SELECT'' @ rest) ((T_SELECT, ''SELECT'') # kts)" and "lexes (''FROM'' @ rest) ((T_FROM, ''FROM'') # kts)"
    and "lexes (''WHERE'' @ rest) ((T_WHERE, ''WHERE'') # kts)" and "lexes (''AND'' @ rest) ((T_AND, ''AND'') # kts)"
    and "lexes (''GROUP'' @ rest) ((T_GROUP, ''GROUP'') # kts)" and "lexes (''BY'' @ rest) ((T_BY, ''BY'') # kts)"
    and "lexes (''LIMIT'' @ rest) ((T_LIMIT, ''LIMIT'') # kts)" and "lexes (''LIKE'' @ rest) ((T_LIKE, ''LIKE'') # kts)"
    and "lexes (''true'' @ rest) ((T_BOOLEAN, ''true'') # kts)" and "lexes (''false'' @ rest) ((T_BOOLEAN, ''false'') # kts)"
    and "lexes (''null'' @ rest) ((T_NULL, ''null'') # kts)"
proof -
  have key: "lexes (w @ rest) ((ty, w) # kts)" if "plain_word w" "getKeywordType w = ty" for w ty
    using lexes_word [OF that(1) assms] that(2) by simp
  show "lexes (''SELECT'' @ rest) ((T_SELECT, ''SELECT'') # kts)" by (rule key) code_simp+
  show "lexes (''FROM'' @ rest) ((T_FROM, ''FROM'') # kts)" by (rule key) code_simp+
  show "lexes (''WHERE'' @ rest) ((T_WHERE, ''WHERE'') # kts)" by (rule key) code_simp+
  show "lexes (''AND'' @ rest) ((T_AND, ''AND'') # kts)" by (rule key) code_simp+
  show "lexes (''GROUP'' @ rest) ((T_GROUP, ''GROUP'') # kts)" by (rule key) code_simp+
  show "lexes (''BY'' @ rest) ((T_BY, ''BY'') # kts)" by (rule key) code_simp+
  show "lexes (''LIMIT'' @ rest) ((T_LIMIT, ''LIMIT'') # kts)" by (rule key) code_simp+
  show "lexes (''LIKE'' @ rest) ((T_LIKE, ''LIKE'') # kts)" by (rule key) code_simp+
  show "lexes (''true'' @ rest) ((T_BOOLEAN, ''true'') # kts)" by (rule key) code_simp+
  show "lexes (''false'' @ rest) ((T_BOOLEAN, ''false'') # kts)" by (rule key) code_simp+
  show "lexes (''null'' @ rest) ((T_NULL, ''null'') # kts)" by (rule key) code_simp+
qed

lemma lexes_name [lexing]: "plain_name w \<Longrightarrow> breaks rest \<Longrightarrow> lexes rest kts \<Longrightarrow> lexes (w @ rest) ((T_IDENTIFIER, w) # kts)"
  using lexes_word [of w rest kts] by (simp add: plain_name_def)

lemma lexes_value [lexing]:
  assumes "sql_literal v" and "breaks rest" and "lexes rest kts"
  shows "lexes (sql_value v @ rest) (literal_token v # kts)"
  using assms lexes_quoted [of _ rest kts] lexes_number [of _ rest kts] word_tokens(9-11) [of rest kts]
  by (cases v) (auto simp: sql_literal_def sql_value_def literal_token_def sql_number_def Let_def)

lemma lexes_operator [lexing]:
  assumes "map_of operator_tokens op = Some kt" and "lexes rest kts"
  shows "lexes (operatorToSQL op @ CHR '' '' # rest) (kt # kts)"
proof -
  have simple: "lexes (t @ CHR '' '' # rest) ((ty, t) # kts)"
    if "t \<in> {''='', ''!='', ''>'', ''<'', ''>='', ''<=''}" "\<And>pos. fst (readOperatorToken (t @ CHR '' '' # rest) pos) = Some \<lparr> token_type = ty, token_value = t, token_position = pos \<rparr>" for t ty
  proof (rule lexes_token [where rest = "CHR '' '' # rest"])
    have p: "next_token (t @ CHR '' '' # rest) pos = readOperatorToken (t @ CHR '' '' # rest) pos" for pos
      using that(1) by (auto simp: next_token_def is_identifier_start_def is_letter_def is_lower_def is_upper_def is_digit_def Let_def)
    have "snd (readOperatorToken (t @ CHR '' '' # rest) pos) = CHR '' '' # rest" for pos
      using that(1) by (auto simp: readOperatorToken_def COMPARISON_TOKENS_def)
    then have "next_token (t @ CHR '' '' # rest) pos = (Some \<lparr> token_type = ty, token_value = t, token_position = pos \<rparr>, CHR '' '' # rest)" for pos
      unfolding p using that(2) by (metis prod.collapse)
    then show "\<exists>tok. next_token (t @ CHR '' '' # rest) pos = (Some tok, CHR '' '' # rest) \<and> kind_text tok = (ty, t)" for pos
      by (simp add: kind_text_def)
  qed (use that(1) assms(2) lexes_space in \<open>auto simp: is_space_def\<close>)
  consider "op = ''$like''" | "op \<in> {''$eq'', ''$ne'', ''$gt'', ''$lt'', ''$gte'', ''$lte''}"
    using assms(1) by (auto simp: operator_tokens_def split: if_splits)
  then show ?thesis
  proof cases
    case 1
    then show ?thesis using assms word_tokens(8) [of "CHR '' '' # rest"] lexes_space
      by (auto simp: operator_tokens_def operatorToSQL_def sql_operators_def)
  next
    case 2
    then have t: "operatorToSQL op \<in> {''='', ''!='', ''>'', ''<'', ''>='', ''<=''} \<and> kt = (fst kt, operatorToSQL op) \<and>
        fst (readOperatorToken (operatorToSQL op @ CHR '' '' # rest) pos) =
          Some \<lparr> token_type = fst kt, token_value = operatorToSQL op, token_position = pos \<rparr>" for pos
      using assms(1)
      by (elim insertE emptyE; clarsimp simp: operator_tokens_def operatorToSQL_def sql_operators_def readOperatorToken_def
          COMPARISON_TOKENS_def SINGLE_CHARACTER_TOKENS_def)
    show ?thesis using simple [of "operatorToSQL op" "fst kt"] t by metis
  qed
qed

subsection \<open>Printed lists and conditions\<close>

fun separated :: "token_type \<times> string \<Rightarrow> (token_type \<times> string) list list \<Rightarrow> (token_type \<times> string) list" where
  "separated sep [] = []"
| "separated sep [x] = x"
| "separated sep (x # y # ys) = x @ sep # separated sep (y # ys)"

lemma lexes_separated:
  assumes "\<And>x rest kts. x \<in> set xs \<Longrightarrow> breaks rest \<Longrightarrow> lexes rest kts \<Longrightarrow> lexes (tx x @ rest) (toks x @ kts)"
    and "breaks sep" and "\<And>rest kts. lexes rest kts \<Longrightarrow> lexes (sep @ rest) (kt # kts)" and "sep \<noteq> []"
  shows "breaks rest \<Longrightarrow> lexes rest kts \<Longrightarrow> lexes (join_with sep (map tx xs) @ rest) (separated kt (map toks xs) @ kts)"
  using assms(1)
proof (induction xs rule: induct_list012)
  case (3 x y xs)
  have "lexes (sep @ (join_with sep (map tx (y # xs)) @ rest)) (kt # separated kt (map toks (y # xs)) @ kts)"
    using "3.IH"(2) "3.prems" assms(3) by simp
  moreover have "breaks (sep @ s)" for s using assms(2,4) by (cases sep) (auto simp: breaks_def)
  ultimately show ?case using "3.prems"(3) [of x] by simp
qed (use assms(1) in simp_all)

lemma lexes_columns:
  assumes "list_all plain_name cols" and "breaks rest" and "lexes rest kts"
  shows "lexes (join_with '', '' cols @ rest) (separated (T_COMMA, '','') (map (\<lambda>c. [(T_IDENTIFIER, c)]) cols) @ kts)"
  using lexes_separated [where tx = "\<lambda>c. c" and toks = "\<lambda>c. [(T_IDENTIFIER, c)]" and sep = "'', ''"
      and kt = "(T_COMMA, '','')" and xs = cols and rest = rest and kts = kts]
    assms lexes_name lexes_comma lexes_space by (simp add: list_all_iff)

type_synonym atom = "string \<times> string \<times> jsval"

definition atom_ok :: "atom \<Rightarrow> bool" where
  "atom_ok = (\<lambda>(column, operator, v). plain_name column \<and> map_of operator_tokens operator \<noteq> None \<and> sql_literal v)"

definition atom_text :: "atom \<Rightarrow> string" where
  "atom_text = (\<lambda>(column, operator, v). column @ '' '' @ operatorToSQL operator @ '' '' @ sql_value v)"

definition atom_tokens :: "atom \<Rightarrow> (token_type \<times> string) list" where
  "atom_tokens = (\<lambda>(column, operator, v).
     [(T_IDENTIFIER, column), the (map_of operator_tokens operator), literal_token v])"

lemma lexes_atom: "atom_ok a \<Longrightarrow> breaks rest \<Longrightarrow> lexes rest kts \<Longrightarrow> lexes (atom_text a @ rest) (atom_tokens a @ kts)"
  using lexes_name lexes_space lexes_operator lexes_value
  by (cases a) (fastforce simp: atom_ok_def atom_text_def atom_tokens_def)

definition and_tokens :: "atom list \<Rightarrow> (token_type \<times> string) list" where
  "and_tokens atoms = separated (T_AND, ''AND'') (map atom_tokens atoms)"

lemma lexes_atoms:
  assumes "list_all atom_ok atoms" and "breaks rest" and "lexes rest kts"
  shows "lexes (join_with '' AND '' (map atom_text atoms) @ rest) (and_tokens atoms @ kts)"
proof -
  have "lexes ('' AND '' @ r) ((T_AND, ''AND'') # ks)" if "lexes r ks" for r ks
    using lexes_space [OF word_tokens(4) [OF _ lexes_space [OF that]]] by simp
  then show ?thesis
    using lexes_separated [where tx = atom_text and toks = atom_tokens and sep = "'' AND ''"
        and kt = "(T_AND, ''AND'')" and xs = atoms and rest = rest and kts = kts] assms lexes_atom
    by (simp add: list_all_iff and_tokens_def)
qed

text \<open>The conditions of one operation of a query, in the order they are printed.\<close>

definition atoms_of :: "record_obj \<Rightarrow> atom list" where
  "atoms_of members = concat (map (\<lambda>(column, operand). map (\<lambda>(operator, v). (column, operator, v)) (object_fields operand)) members)"

definition operand_ok :: "jsval \<Rightarrow> bool" where
  "operand_ok operand \<longleftrightarrow> (case operand of
     JObj es \<Rightarrow> es \<noteq> [] \<and> distinct (map fst es) \<and> list_all (\<lambda>(operator, v). map_of operator_tokens operator \<noteq> None \<and> sql_literal v) es
   | _ \<Rightarrow> False)"

definition conjunction_ok :: "record_obj \<Rightarrow> bool" where
  "conjunction_ok members \<longleftrightarrow> members \<noteq> [] \<and> distinct (map fst members) \<and>
     list_all (\<lambda>(column, operand). plain_name column \<and> operand_ok operand) members"

lemma member_operand:
  assumes "conjunction_ok members" and "(column, operand) \<in> set members"
  obtains es where "plain_name column" "operand = JObj es" "es \<noteq> []" "distinct (map fst es)"
    "\<forall>(operator, v)\<in>set es. map_of operator_tokens operator \<noteq> None \<and> sql_literal v"
proof -
  have "plain_name column" "operand_ok operand" using assms by (auto simp: conjunction_ok_def list_all_iff)
  then show thesis using that by (cases operand) (auto simp: operand_ok_def list_all_iff)
qed

lemma atoms_ok:
  assumes "conjunction_ok members"
  shows "list_all atom_ok (atoms_of members)"
  unfolding list_all_iff
proof
  fix a assume "a \<in> set (atoms_of members)"
  then obtain column operand operator v where a: "(column, operand) \<in> set members" "(operator, v) \<in> set (object_fields operand)"
    "a = (column, operator, v)" by (auto simp: atoms_of_def)
  obtain es where "plain_name column" "operand = JObj es"
    "\<forall>(operator, v)\<in>set es. map_of operator_tokens operator \<noteq> None \<and> sql_literal v"
    by (rule member_operand [OF assms a(1)])
  with a(2,3) show "atom_ok a" by (auto simp: atom_ok_def object_fields_def)
qed

lemma join_concat:
  "\<forall>xs\<in>set xss. xs \<noteq> [] \<Longrightarrow> join_with sep (map (join_with sep) xss) = join_with sep (concat xss)"
proof (induction xss rule: induct_list012)
  case (3 xs ys xss)
  then have "concat (ys # xss) \<noteq> []" by auto
  with 3 show ?case by (simp add: join_with_append)
qed simp_all

lemma map_result_Inr: "\<forall>x\<in>set xs. f x = Inr (g x) \<Longrightarrow> map_result f xs = Inr (map g xs)"
  by (induction xs) simp_all

lemma conjunction_printed:
  assumes "conjunction_ok members"
  shows "conjunction_text (JObj members) = Inr (join_with '' AND '' (map atom_text (atoms_of members)))"
proof -
  let ?texts = "\<lambda>(column, operand). map (\<lambda>(operator, v). atom_text (column, operator, v)) (object_fields operand)"
  have "condition_texts x = Inr (join_with '' AND '' (?texts x)) \<and> ?texts x \<noteq> []" if "x \<in> set members" for x
  proof -
    obtain column operand where x: "x = (column, operand)" by fastforce
    have "(column, operand) \<in> set members" using that x by simp
    then obtain es where "operand = JObj es" "es \<noteq> []" by (rule member_operand [OF assms])
    with x show ?thesis
      by (simp add: condition_texts_def operand_entries_def is_nullish_def object_entries_def object_fields_def atom_text_def)
  qed
  then have "map_result condition_texts members = Inr (map (join_with '' AND '') (map ?texts members))"
    "\<forall>xs\<in>set (map ?texts members). xs \<noteq> []"
    using map_result_Inr [of members condition_texts "\<lambda>x. join_with '' AND '' (?texts x)"] by (auto simp: comp_def)
  then have "conjunction_text (JObj members) = Inr (join_with '' AND '' (concat (map ?texts members)))"
    by (simp only: conjunction_text_def object_entries_def jsval.case bind_result_simps join_concat)
  moreover have "concat (map ?texts members) = map atom_text (atoms_of members)"
    by (auto simp: atoms_of_def map_concat comp_def intro!: arg_cong [where f = concat] map_cong)
  ultimately show ?thesis by simp
qed

subsection \<open>Parsing the tokens\<close>

definition yields :: "'a parser \<Rightarrow> (token_type \<times> string) list \<Rightarrow> 'a \<Rightarrow> (token_type \<times> string) list \<Rightarrow> bool" where
  "yields p kts x kts' \<longleftrightarrow> (\<forall>ts. map kind_text ts = kts \<longrightarrow> (\<exists>ts'. p ts = (Inr x, ts') \<and> map kind_text ts' = kts'))"

named_theorems parsing \<open>what a parser makes of tokens\<close>

lemma yieldsD: "yields p kts x kts' \<Longrightarrow> map kind_text ts = kts \<Longrightarrow> \<exists>ts'. p ts = (Inr x, ts') \<and> map kind_text ts' = kts'"
  by (simp add: yields_def)

lemma yields_bind: "yields p a x b \<Longrightarrow> yields (f x) b y c \<Longrightarrow> yields (bind_op p f) a y c"
  unfolding yields_def by (metis bind_op_Inr)

lemma yields_seq: "yields p a x b \<Longrightarrow> yields q b y c \<Longrightarrow> yields (seq_op p q) a y c"
  unfolding seq_op_def by (rule yields_bind)

lemma yields_ret: "yields (ret x) a x a"
  by (simp add: yields_def)

lemma current_kind: "map kind_text ts = (ty, t) # kts \<Longrightarrow> current_token ts = hd ts \<and> token_type (hd ts) = ty \<and> token_value (hd ts) = t \<and> map kind_text (tl ts) = kts"
  by (cases ts) (auto simp: current_token_def kind_text_def)

lemma tail_kinds: "map kind_text ts = kt # kts \<Longrightarrow> map kind_text (tl ts) = kts"
  by (cases ts) auto

lemma yields_types: "yields (gets (match_types tys)) ((ty, t) # kts) (ty \<in> set tys) ((ty, t) # kts)"
  using current_kind by (fastforce simp: yields_def match_types_def)

lemma yields_advance: "yields advance (kt # kts) () kts"
  by (cases kt) (use current_kind in \<open>fastforce simp: yields_def advance_def\<close>)

lemma yields_expect: "yields (expect ty) ((ty, t) # kts) t kts"
  unfolding yields_def
proof (intro allI impI)
  fix ts assume ts: "map kind_text ts = (ty, t) # kts"
  from current_kind [OF this] show "\<exists>ts'. expect ty ts = (Inr t, ts') \<and> map kind_text ts' = kts"
    by (simp add: expect_def bind_op_def seq_op_def advance_def)
qed

lemma yields_operator:
  assumes "map_of operator_tokens op = Some kt"
  shows "yields parseOperator (kt # kts) op kts"
  unfolding yields_def
proof (intro allI impI)
  fix ts assume ts: "map kind_text ts = kt # kts"
  have "operator_map (fst kt) = Some op" using assms by (auto simp: operator_tokens_def operator_map_def split: if_splits)
  with current_kind [of ts "fst kt" "snd kt" kts] ts show "\<exists>ts'. parseOperator ts = (Inr op, ts') \<and> map kind_text ts' = kts"
    by (simp add: parseOperator_def bind_op_def seq_op_def advance_def)
qed

lemma lower_bool: "to_lower (js_to_string (JBool b)) = ''true'' \<longleftrightarrow> b"
proof -
  have "to_lower ''true'' = ''true''" "to_lower ''false'' = ''false''" by code_simp+
  then show ?thesis by (cases b) simp_all
qed

lemma yields_value:
  assumes "sql_literal v"
  shows "yields parseValue (literal_token v # kts) v kts"
  unfolding yields_def
proof (intro allI impI)
  fix ts assume ts: "map kind_text ts = literal_token v # kts"
  from current_kind [of ts "fst (literal_token v)" "snd (literal_token v)" kts] ts assms lower_bool
  show "\<exists>ts'. parseValue ts = (Inr v, ts') \<and> map kind_text ts' = kts"
    by (cases v) (simp_all add: parseValue_def bind_op_def seq_op_def advance_def literal_token_def sql_literal_def sql_number_def Let_def
        del: js_to_string.simps)
qed

lemma yields_condition: "atom_ok a \<Longrightarrow> yields parseCondition (atom_tokens a @ kts) a kts"
  by (cases a) (auto simp: atom_ok_def atom_tokens_def parseCondition_def
      intro!: yields_bind [OF yields_expect] yields_bind [OF yields_operator] yields_bind [OF yields_value] yields_ret)

definition not_next :: "token_type set \<Rightarrow> (token_type \<times> string) list \<Rightarrow> bool" where
  "not_next tys kts \<longleftrightarrow> kts \<noteq> [] \<and> fst (hd kts) \<notin> tys"

lemma match_next: "map kind_text ts = (ty, t) # kts \<Longrightarrow> match_types tys ts \<longleftrightarrow> ty \<in> set tys"
  using current_kind by (simp add: match_types_def)

lemma yields_where_loop:
  assumes "not_next {T_AND, T_OR} kts"
  shows "list_all atom_ok atoms \<Longrightarrow> atoms \<noteq> [] \<Longrightarrow>
    yields (where_loop [] members) (and_tokens atoms @ kts) [foldl add_condition members atoms] kts"
proof (induction atoms arbitrary: members rule: induct_list012)
  case (2 a)
  obtain ty t r where k: "kts = (ty, t) # r" "ty \<noteq> T_AND" "ty \<noteq> T_OR" using assms by (cases kts) (auto simp: not_next_def)
  show ?case unfolding yields_def
  proof (intro allI impI)
    fix ts assume "map kind_text ts = and_tokens [a] @ kts"
    then have "map kind_text ts = atom_tokens a @ kts" by (simp add: and_tokens_def)
    from yieldsD [OF yields_condition this] 2 obtain ts' where ts': "parseCondition ts = (Inr a, ts')" "map kind_text ts' = kts"
      by auto
    then show "\<exists>ts'. where_loop [] members ts = (Inr [foldl add_condition members [a]], ts') \<and> map kind_text ts' = kts"
      using match_next [of ts' ty t r] k by (subst where_loop.simps) (simp add: Let_def)
  qed
next
  case (3 a b atoms)
  show ?case unfolding yields_def
  proof (intro allI impI)
    fix ts assume "map kind_text ts = and_tokens (a # b # atoms) @ kts"
    then have "map kind_text ts = atom_tokens a @ (T_AND, ''AND'') # and_tokens (b # atoms) @ kts" by (simp add: and_tokens_def)
    from yieldsD [OF yields_condition this] "3.prems" obtain ts' where
      ts': "parseCondition ts = (Inr a, ts')" "map kind_text ts' = (T_AND, ''AND'') # and_tokens (b # atoms) @ kts"
      by auto
    have "map kind_text (tl ts') = and_tokens (b # atoms) @ kts" by (rule tail_kinds [OF ts'(2)])
    from yieldsD [OF "3.IH"(2) this, of "add_condition members a"] "3.prems" obtain ts'' where
      u: "where_loop [] (add_condition members a) (tl ts') = (Inr [foldl add_condition members (a # b # atoms)], ts'')"
      "map kind_text ts'' = kts" by auto
    show "\<exists>ts'. where_loop [] members ts = (Inr [foldl add_condition members (a # b # atoms)], ts') \<and> map kind_text ts' = kts"
      by (intro exI [of _ ts''] conjI u(2), subst where_loop.simps)
        (simp add: Let_def ts'(1) match_next [OF ts'(2)] u(1) [simplified])
  qed
qed simp

lemma yields_column_loop:
  assumes "not_next {T_COMMA} kts"
  shows "cols \<noteq> [] \<Longrightarrow>
    yields (column_loop acc) (separated (T_COMMA, '','') (map (\<lambda>c. [(T_IDENTIFIER, c)]) cols) @ kts) (acc @ cols) kts"
proof (induction cols arbitrary: acc rule: induct_list012)
  case (2 c)
  obtain ty t r where k: "kts = (ty, t) # r" "ty \<noteq> T_COMMA" using assms by (cases kts) (auto simp: not_next_def)
  show ?case unfolding yields_def
  proof (intro allI impI)
    fix ts assume "map kind_text ts = separated (T_COMMA, '','') (map (\<lambda>c. [(T_IDENTIFIER, c)]) [c]) @ kts"
    then have "map kind_text ts = (T_IDENTIFIER, c) # kts" by simp
    from yieldsD [OF yields_expect this] obtain ts' where ts': "expect T_IDENTIFIER ts = (Inr c, ts')" "map kind_text ts' = kts"
      by blast
    then show "\<exists>ts'. column_loop acc ts = (Inr (acc @ [c]), ts') \<and> map kind_text ts' = kts"
      using match_next [of ts' ty t r] k by (subst column_loop.simps) simp
  qed
next
  case (3 c d cols)
  let ?rest = "separated (T_COMMA, '','') (map (\<lambda>c. [(T_IDENTIFIER, c)]) (d # cols)) @ kts"
  show ?case unfolding yields_def
  proof (intro allI impI)
    fix ts assume "map kind_text ts = separated (T_COMMA, '','') (map (\<lambda>c. [(T_IDENTIFIER, c)]) (c # d # cols)) @ kts"
    then have "map kind_text ts = (T_IDENTIFIER, c) # (T_COMMA, '','') # ?rest" by simp
    from yieldsD [OF yields_expect this] obtain ts' where
      ts': "expect T_IDENTIFIER ts = (Inr c, ts')" "map kind_text ts' = (T_COMMA, '','') # ?rest"
      by (elim exE conjE) (rule that)
    have "map kind_text (tl ts') = ?rest" by (rule tail_kinds [OF ts'(2)])
    from yieldsD [OF "3.IH"(2) this, of "acc @ [c]"] obtain ts'' where
      u: "column_loop (acc @ [c]) (tl ts') = (Inr (acc @ c # d # cols), ts'')" "map kind_text ts'' = kts" by auto
    show "\<exists>ts'. column_loop acc ts = (Inr (acc @ c # d # cols), ts') \<and> map kind_text ts' = kts"
      by (intro exI [of _ ts''] conjI u(2), subst column_loop.simps) (simp add: ts'(1) match_next [OF ts'(2)] u(1))
  qed
qed simp

subsection \<open>Gathering the conditions again\<close>

lemma not_index: "k \<noteq> [] \<Longrightarrow> \<not> is_digit (hd k) \<Longrightarrow> \<not> is_index_key k"
  by (cases k) (auto simp: is_index_key_def is_digit_def Let_def)

lemma plain_not_index: "plain_name k \<Longrightarrow> \<not> is_index_key k"
  using not_index start_classes(1) by (auto simp: plain_name_def plain_word_def)

lemma operator_not_index: "map_of operator_tokens k \<noteq> None \<Longrightarrow> \<not> is_index_key k"
  by (rule not_index) (auto simp: operator_tokens_def is_digit_def Let_def split: if_splits)

lemma put_last: "\<not> has_own ob k \<Longrightarrow> \<not> is_index_key k \<Longrightarrow> obj_put ob k v = ob @ [(k, v)]"
  by (simp add: obj_put_def obj_insert_def)

lemma update_last: "\<not> has_own ob k \<Longrightarrow> obj_update k v (ob @ [(k, u)]) = ob @ [(k, v)]"
  by (induction ob) (auto simp: has_own_def split: if_splits)

lemma has_own_keys: "has_own ob k \<longleftrightarrow> k \<in> fst ` set ob"
  by (simp add: has_own_def map_of_eq_None_iff)

lemma gather_member:
  assumes "\<not> has_own acc column" and "\<not> is_index_key column"
  shows "distinct (map fst (es0 @ es)) \<Longrightarrow> \<forall>(operator, v)\<in>set es. map_of operator_tokens operator \<noteq> None \<Longrightarrow>
    foldl add_condition (acc @ [(column, JObj es0)]) (map (\<lambda>(operator, v). (column, operator, v)) es) =
      acc @ [(column, JObj (es0 @ es))]"
proof (induction es arbitrary: es0)
  case (Cons e es)
  obtain op v where e: "e = (op, v)" by fastforce
  have "map_of acc column = None" using assms(1) by (simp add: has_own_def)
  then have g: "obj_get (acc @ [(column, JObj es0)]) column = JObj es0" "has_own (acc @ [(column, JObj es0)]) column"
    by (simp_all add: obj_get_def has_own_def map_add_def)
  have c: "obj_put (acc @ [(column, JObj es0)]) column x = acc @ [(column, x)]" for x
    using g(2) update_last [OF assms(1)] by (simp add: obj_put_def)
  have "obj_put es0 op v = es0 @ [(op, v)]"
    using Cons.prems e operator_not_index by (intro put_last) (auto simp: has_own_keys)
  then have "add_condition (acc @ [(column, JObj es0)]) (column, e) = acc @ [(column, JObj (es0 @ [e]))]"
    using g(1) c by (simp add: add_condition_def object_fields_def e)
  with Cons.IH [of "es0 @ [e]"] Cons.prems e show ?case by simp
qed simp

lemma gather_conjunction:
  assumes "conjunction_ok members"
  shows "foldl add_condition [] (atoms_of members) = members"
proof -
  have "foldl add_condition acc (atoms_of ms) = acc @ ms"
    if "\<forall>m\<in>set ms. m \<in> set members" "distinct (map fst (acc @ ms))" for acc ms
    using that
  proof (induction ms arbitrary: acc)
    case (Cons m ms)
    obtain column operand where m: "m = (column, operand)" by fastforce
    then have "(column, operand) \<in> set members" using Cons.prems(1) by simp
    then obtain es where es: "plain_name column" "operand = JObj es" "es \<noteq> []" "distinct (map fst es)"
      "\<forall>(operator, v)\<in>set es. map_of operator_tokens operator \<noteq> None \<and> sql_literal v"
      by (rule member_operand [OF assms])
    obtain op v rest where e: "es = (op, v) # rest" using es(3) by (cases es) auto
    have no: "\<not> has_own acc column" using Cons.prems(2) m by (auto simp: has_own_keys)
    have "add_condition acc (column, op, v) = acc @ [(column, JObj [(op, v)])]"
      using put_last [OF no plain_not_index [OF es(1)]] no put_last [of "[]" op] es(5) e operator_not_index
      by (simp add: add_condition_def object_fields_def obj_get_def has_own_def safeRecord_def)
    moreover have "foldl add_condition (acc @ [(column, JObj [(op, v)])]) (map (\<lambda>(operator, v). (column, operator, v)) rest) =
        acc @ [(column, JObj ([(op, v)] @ rest))]"
      by (rule gather_member [OF no plain_not_index [OF es(1)]]) (use es(4,5) e in auto)
    ultimately have "foldl add_condition acc (map (\<lambda>(operator, v). (column, operator, v)) es) = acc @ [m]"
      using e es(2) m by simp
    moreover have "atoms_of (m # ms) = map (\<lambda>(operator, v). (column, operator, v)) es @ atoms_of ms"
      using m es(2) by (simp add: atoms_of_def object_fields_def)
    ultimately show ?case using Cons.IH [of "acc @ [m]"] Cons.prems by simp
  qed (simp add: atoms_of_def)
  from this [of members "[]"] assms show ?thesis by (simp add: conjunction_ok_def)
qed

lemma atoms_not_Nil: "conjunction_ok members \<Longrightarrow> atoms_of members \<noteq> []"
  using gather_conjunction [of members] by (auto simp: conjunction_ok_def)

subsection \<open>Whole queries\<close>

text \<open>The builder after the setters of the clauses a query has.\<close>

definition built :: "string \<Rightarrow> string list option \<Rightarrow> record_obj option \<Rightarrow> string option \<Rightarrow> f64 option \<Rightarrow> query_builder" where
  "built collection columns members group_column limit =
     (let b0 = QueryBuilder collection;
          b1 = (case columns of None \<Rightarrow> b0 | Some cs \<Rightarrow> qb_select cs b0);
          b2 = (case members of None \<Rightarrow> b1 | Some m \<Rightarrow> qb_where [JObj m] b1);
          b3 = (case group_column of None \<Rightarrow> b2 | Some g \<Rightarrow> qb_groupBy g b2)
      in case limit of None \<Rightarrow> b3 | Some l \<Rightarrow> qb_limit l b3)"

definition sql_limit :: "f64 \<Rightarrow> bool" where
  "sql_limit l \<longleftrightarrow> js_truthy (JNum l) \<and> (let t = num_to_string l in t \<noteq> [] \<and> list_all is_digit t \<and> parse_int t = l)"

definition buildable :: "string \<Rightarrow> string list option \<Rightarrow> record_obj option \<Rightarrow> string option \<Rightarrow> f64 option \<Rightarrow> bool" where
  "buildable collection columns members group_column limit \<longleftrightarrow>
     plain_name collection \<and> pred_option (\<lambda>cs. cs \<noteq> [] \<and> list_all plain_name cs) columns \<and>
     pred_option conjunction_ok members \<and> pred_option plain_name group_column \<and> pred_option sql_limit limit"

text \<open>The clauses from the last on: text and tokens.\<close>

definition limit_text :: "f64 option \<Rightarrow> string" where
  "limit_text limit = (case limit of None \<Rightarrow> [] | Some l \<Rightarrow> '' LIMIT '' @ num_to_string l)"

definition limit_tokens :: "f64 option \<Rightarrow> (token_type \<times> string) list" where
  "limit_tokens limit = (case limit of None \<Rightarrow> [] | Some l \<Rightarrow> [(T_LIMIT, ''LIMIT''), (T_NUMBER, num_to_string l)])"

definition group_text :: "string option \<Rightarrow> string" where
  "group_text column = (case column of None \<Rightarrow> [] | Some g \<Rightarrow> '' GROUP BY '' @ g)"

definition group_tokens :: "string option \<Rightarrow> (token_type \<times> string) list" where
  "group_tokens column = (case column of None \<Rightarrow> [] | Some g \<Rightarrow> [(T_GROUP, ''GROUP''), (T_BY, ''BY''), (T_IDENTIFIER, g)])"

definition conditions_text :: "record_obj option \<Rightarrow> string" where
  "conditions_text members =
     (case members of None \<Rightarrow> [] | Some m \<Rightarrow> '' WHERE '' @ join_with '' AND '' (map atom_text (atoms_of m)))"

definition conditions_tokens :: "record_obj option \<Rightarrow> (token_type \<times> string) list" where
  "conditions_tokens members = (case members of None \<Rightarrow> [] | Some m \<Rightarrow> (T_WHERE, ''WHERE'') # and_tokens (atoms_of m))"

definition columns_text :: "string list option \<Rightarrow> string" where
  "columns_text columns = (case columns of None \<Rightarrow> ''*'' | Some cs \<Rightarrow> join_with '', '' cs)"

definition columns_tokens :: "string list option \<Rightarrow> (token_type \<times> string) list" where
  "columns_tokens columns = (case columns of None \<Rightarrow> [(T_ASTERISK, ''*'')]
     | Some cs \<Rightarrow> separated (T_COMMA, '','') (map (\<lambda>c. [(T_IDENTIFIER, c)]) cs))"

lemma sql_limit_number: "sql_limit l \<Longrightarrow> num_to_string l \<noteq> [] \<and> is_digit (hd (num_to_string l)) \<and> list_all is_number_unit (num_to_string l)"
  by (cases "num_to_string l") (auto simp: sql_limit_def Let_def is_number_unit_def list_all_iff)

lemma lexes_limit: "pred_option sql_limit limit \<Longrightarrow> lexes (limit_text limit) (limit_tokens limit)"
proof (cases limit)
  case (Some l)
  assume "pred_option sql_limit limit"
  with Some lexes_number [of "num_to_string l" "[]" "[]"] sql_limit_number [of l]
  have "lexes (num_to_string l) [(T_NUMBER, num_to_string l)]" by (simp add: lexes_Nil)
  from lexes_space [OF word_tokens(7) [OF _ lexes_space [OF this]]] Some show ?thesis
    by (simp add: limit_text_def limit_tokens_def)
qed (simp add: limit_text_def limit_tokens_def lexes_Nil)

lemma lexes_group:
  assumes "pred_option plain_name column" and "breaks rest" and "lexes rest kts"
  shows "lexes (group_text column @ rest) (group_tokens column @ kts)"
proof (cases column)
  case (Some g)
  with assms have "lexes (g @ rest) ((T_IDENTIFIER, g) # kts)" by (simp add: lexes_name)
  from lexes_space [OF word_tokens(5) [OF _ lexes_space [OF word_tokens(6) [OF _ lexes_space [OF this]]]]] Some
  show ?thesis by (simp add: group_text_def group_tokens_def)
qed (use assms in \<open>simp add: group_text_def group_tokens_def\<close>)

lemma lexes_conditions:
  assumes "pred_option conjunction_ok members" and "breaks rest" and "lexes rest kts"
  shows "lexes (conditions_text members @ rest) (conditions_tokens members @ kts)"
proof (cases members)
  case (Some m)
  with assms atoms_ok have "lexes (join_with '' AND '' (map atom_text (atoms_of m)) @ rest) (and_tokens (atoms_of m) @ kts)"
    by (intro lexes_atoms) simp_all
  from lexes_space [OF word_tokens(3) [OF _ lexes_space [OF this]]] Some
  show ?thesis by (simp add: conditions_text_def conditions_tokens_def)
qed (use assms in \<open>simp add: conditions_text_def conditions_tokens_def\<close>)

lemma breaks_clauses:
  "breaks (limit_text limit)" "breaks rest \<Longrightarrow> breaks (group_text column @ rest)" "breaks rest \<Longrightarrow> breaks (conditions_text members @ rest)"
  by (simp_all add: limit_text_def group_text_def conditions_text_def split: option.split)

definition query_text :: "string \<Rightarrow> string list option \<Rightarrow> record_obj option \<Rightarrow> string option \<Rightarrow> f64 option \<Rightarrow> string" where
  "query_text collection columns members group_column limit =
     ''SELECT '' @ columns_text columns @ '' FROM '' @ collection @ conditions_text members @ group_text group_column @ limit_text limit"

definition query_tokens :: "string \<Rightarrow> string list option \<Rightarrow> record_obj option \<Rightarrow> string option \<Rightarrow> f64 option \<Rightarrow> (token_type \<times> string) list" where
  "query_tokens collection columns members group_column limit =
     (T_SELECT, ''SELECT'') # columns_tokens columns @ (T_FROM, ''FROM'') # (T_IDENTIFIER, collection) #
       conditions_tokens members @ group_tokens group_column @ limit_tokens limit"

lemma lexes_query:
  assumes "buildable collection columns members group_column limit"
  shows "lexes (query_text collection columns members group_column limit) (query_tokens collection columns members group_column limit)"
proof -
  let ?tail = "conditions_text members @ group_text group_column @ limit_text limit"
  let ?toks = "conditions_tokens members @ group_tokens group_column @ limit_tokens limit"
  have "lexes ?tail ?toks"
    using assms by (intro lexes_conditions lexes_group lexes_limit breaks_clauses) (simp_all add: buildable_def)
  then have "lexes (collection @ ?tail) ((T_IDENTIFIER, collection) # ?toks)"
    using assms by (intro lexes_name breaks_clauses) (simp_all add: buildable_def)
  from lexes_space [OF word_tokens(2) [OF _ lexes_space [OF this]]]
  have f: "lexes ('' FROM '' @ collection @ ?tail) ((T_FROM, ''FROM'') # (T_IDENTIFIER, collection) # ?toks)" by simp
  have "lexes (columns_text columns @ '' FROM '' @ collection @ ?tail) (columns_tokens columns @ (T_FROM, ''FROM'') # (T_IDENTIFIER, collection) # ?toks)"
  proof (cases columns)
    case None
    from lexes_star [OF f] None show ?thesis by (simp add: columns_text_def columns_tokens_def)
  next
    case (Some cs)
    with assms lexes_columns [of cs, OF _ _ f] show ?thesis by (simp add: columns_text_def columns_tokens_def buildable_def)
  qed
  from word_tokens(1) [OF _ lexes_space [OF this]] show ?thesis by (simp add: query_text_def query_tokens_def)
qed

lemma built_fields:
  "qb_collection (built collection columns members group_column limit) = collection"
  "obj_get (queryAst (built collection columns members group_column limit)) ''$collection'' = JStr collection"
  "obj_get (queryAst (built collection columns members group_column limit)) ''$select'' =
     (case columns of None \<Rightarrow> JUndef | Some cs \<Rightarrow> JArr (map JStr cs))"
  "obj_get (queryAst (built collection columns members group_column limit)) ''$ops'' =
     (case members of None \<Rightarrow> JUndef | Some m \<Rightarrow> JArr [JObj m])"
  "obj_get (queryAst (built collection columns members group_column limit)) ''$groupby'' =
     (case group_column of None \<Rightarrow> JUndef | Some g \<Rightarrow> JStr g)"
  "obj_get (queryAst (built collection columns members group_column limit)) ''$limit'' =
     (case limit of None \<Rightarrow> JUndef | Some l \<Rightarrow> JNum l)"
  by (simp_all add: built_def Let_def QueryBuilder_def qb_select_def qb_where_def qb_groupBy_def qb_limit_def qb_put_def
      split: option.split)

lemma printed_query:
  assumes "buildable collection columns members group_column limit"
  shows "qb_toSQL (built collection columns members group_column limit) = Inr (query_text collection columns members group_column limit)"
proof -
  have w: "where_text (case members of None \<Rightarrow> JUndef | Some m \<Rightarrow> JArr [JObj m]) = Inr (conditions_text members)"
    using assms conjunction_printed by (cases members) (simp_all add: where_text_def conditions_text_def buildable_def)
  have c: "select_text (case columns of None \<Rightarrow> JUndef | Some cs \<Rightarrow> JArr (map JStr cs)) = columns_text columns"
    by (cases columns) (simp_all add: select_text_def columns_text_def is_nullish_def comp_def)
  have t: "tail_text (queryAst (built collection columns members group_column limit)) = group_text group_column @ limit_text limit"
    using assms by (cases group_column; cases limit)
      (auto simp: tail_text_def built_fields group_text_def limit_text_def buildable_def sql_limit_def plain_name_def plain_word_def js_truthy_def)
  show ?thesis by (simp add: qb_toSQL_def built_fields(1,3,4) w c t query_text_def)
qed

subsubsection \<open>No blanks at the ends\<close>

definition solid_end :: "string \<Rightarrow> bool" where
  "solid_end s \<longleftrightarrow> s \<noteq> [] \<and> \<not> is_space (last s)"

lemma solid_end_append: "solid_end t \<Longrightarrow> solid_end (s @ t)"
  by (simp add: solid_end_def)

lemma trim_solid: "s \<noteq> [] \<Longrightarrow> \<not> is_space (hd s) \<Longrightarrow> solid_end s \<Longrightarrow> trim s = s"
proof -
  assume a: "s \<noteq> []" "\<not> is_space (hd s)" "solid_end s"
  then have "dropWhile is_space s = s" "dropWhile is_space (rev s) = rev s"
    by (cases s, simp_all) (cases "rev s", simp_all add: solid_end_def last_rev flip: hd_rev)
  then show ?thesis by (simp add: trim_def)
qed

lemma unit_solid: "is_identifier_unit c \<Longrightarrow> \<not> is_space c" "is_number_unit c \<Longrightarrow> \<not> is_space c"
  by (auto simp: is_identifier_unit_def is_number_unit_def is_alnum_def is_letter_def is_lower_def is_upper_def is_digit_def
      is_space_def Let_def)

lemma name_solid: "plain_name w \<Longrightarrow> solid_end w"
  using unit_solid(1) by (auto simp: plain_name_def plain_word_def solid_end_def list_all_iff)

lemma value_solid: "sql_literal v \<Longrightarrow> solid_end (sql_value v)"
proof -
  have "\<not> is_space CHR 0x27" "solid_end ''true''" "solid_end ''false''" "solid_end ''null''" unfolding solid_end_def by code_simp+
  moreover have "solid_end (num_to_string x)" if "sql_number x" for x
    using that unit_solid(2) by (auto simp: sql_number_def Let_def solid_end_def list_all_iff)
  ultimately show "sql_literal v \<Longrightarrow> solid_end (sql_value v)"
    by (cases v) (auto simp: sql_literal_def sql_value_def quote_text_def solid_end_def)
qed

lemma conditions_solid:
  assumes "conjunction_ok m"
  shows "solid_end (conditions_text (Some m))"
proof -
  have "solid_end (join_with '' AND '' (map atom_text as))" if "list_all atom_ok as" "as \<noteq> []" for as
    using that
  proof (induction as rule: induct_list012)
    case (2 a)
    obtain column operator v where a: "a = (column, operator, v)" by (cases a)
    have "solid_end ((column @ '' '' @ operatorToSQL operator @ '' '') @ sql_value v)"
      using 2 value_solid a by (intro solid_end_append) (simp add: atom_ok_def)
    then show ?case by (simp add: a atom_text_def)
  next
    case (3 a b as)
    have "solid_end (atom_text a @ '' AND '' @ join_with '' AND '' (map atom_text (b # as)))"
      using 3 by (intro solid_end_append) simp
    then show ?case by simp
  qed simp
  then show ?thesis
    using atoms_ok [OF assms] atoms_not_Nil [OF assms] unfolding conditions_text_def by (simp only: option.case) (intro solid_end_append)
qed

lemma query_solid:
  assumes "buildable collection columns members group_column limit"
  shows "trim (query_text collection columns members group_column limit) = query_text collection columns members group_column limit"
proof (rule trim_solid)
  have l: "solid_end (limit_text (Some l))" if "sql_limit l" for l
    using sql_limit_number [OF that] unit_solid(2) by (auto simp: limit_text_def solid_end_def list_all_iff)
  have g: "solid_end (group_text (Some g))" if "plain_name g" for g
    using name_solid [OF that] by (simp add: group_text_def solid_end_def)
  have "solid_end (collection @ conditions_text members @ group_text group_column @ limit_text limit)"
  proof (cases limit)
    case (Some l)
    then show ?thesis using assms l by (intro solid_end_append) (simp add: buildable_def)
  next
    case no_limit: None
    show ?thesis
    proof (cases group_column)
      case (Some g')
      then show ?thesis using assms g no_limit
        by (simp add: limit_text_def buildable_def) (intro solid_end_append, simp)
    next
      case None
      then show ?thesis using assms no_limit name_solid conditions_solid
        by (cases members) (auto simp: limit_text_def group_text_def buildable_def conditions_text_def [of None] intro!: solid_end_append)
    qed
  qed
  then show "solid_end (query_text collection columns members group_column limit)"
    unfolding query_text_def
    using solid_end_append [of _ "''SELECT '' @ columns_text columns @ '' FROM ''"] by simp
qed (simp_all add: query_text_def is_space_def)

subsubsection \<open>The parse of a printed query\<close>

lemma yields_skip: "not_next {ty} kts \<Longrightarrow> yields (optional_clause ty p q) kts q kts"
  using yields_types [of "[ty]"]
  by (cases kts) (auto simp: not_next_def optional_clause_def intro!: yields_bind yields_ret split: if_splits)

lemma yields_clause: "yields (p q) ((ty, t) # kts) q' kts' \<Longrightarrow> yields (optional_clause ty p q) ((ty, t) # kts) q' kts'"
  unfolding optional_clause_def using yields_types [of "[ty]" ty t kts] by (auto intro: yields_bind)

lemma not_next_clauses:
  assumes "tys \<inter> {T_LIMIT, T_EOF} = {}"
  shows "not_next tys (limit_tokens limit @ [(T_EOF, [])])"
    and "T_GROUP \<notin> tys \<Longrightarrow> not_next tys (group_tokens column @ limit_tokens limit @ [(T_EOF, [])])"
    and "T_GROUP \<notin> tys \<Longrightarrow> T_WHERE \<notin> tys \<Longrightarrow> not_next tys (conditions_tokens members @ group_tokens column @ limit_tokens limit @ [(T_EOF, [])])"
  using assms by (auto simp: not_next_def limit_tokens_def group_tokens_def conditions_tokens_def split: option.split)

definition put_option :: "string \<Rightarrow> jsval option \<Rightarrow> record_obj \<Rightarrow> record_obj" where
  "put_option key v ob = (case v of None \<Rightarrow> ob | Some x \<Rightarrow> obj_put ob key x)"

lemma yields_limit:
  assumes "pred_option sql_limit limit"
  shows "yields (limit_clause query) (limit_tokens limit @ [(T_EOF, [])]) (put_option ''$limit'' (map_option JNum limit) query) [(T_EOF, [])]"
proof (cases limit)
  case None
  then show ?thesis by (auto simp: limit_tokens_def limit_clause_def put_option_def not_next_def intro: yields_skip)
next
  case (Some l)
  then have "parse_int (num_to_string l) = l" using assms by (simp add: sql_limit_def Let_def)
  with Some show ?thesis
    by (auto simp: limit_tokens_def limit_clause_def put_option_def
        intro!: yields_clause yields_seq [OF yields_advance] yields_bind [OF yields_expect])
      (simp add: yields_def)
qed

lemma yields_group:
  assumes "not_next {T_GROUP} kts"
  shows "yields (group_clause query) (group_tokens column @ kts) (put_option ''$groupby'' (map_option JStr column) query) kts"
proof (cases column)
  case None
  with assms show ?thesis by (simp add: group_tokens_def group_clause_def put_option_def yields_skip)
next
  case (Some g)
  then show ?thesis
    by (auto simp: group_tokens_def group_clause_def put_option_def
        intro!: yields_clause yields_seq [OF yields_advance] yields_seq [OF yields_expect] yields_bind [OF yields_expect] yields_ret)
qed

lemma yields_where:
  assumes "pred_option conjunction_ok members" and "not_next {T_WHERE} kts" and "not_next {T_AND, T_OR} kts"
  shows "yields (where_clause query) (conditions_tokens members @ kts)
    (put_option ''$ops'' (map_option (\<lambda>m. JArr [JObj m]) members) query) kts"
proof (cases members)
  case None
  with assms(2) show ?thesis by (simp add: conditions_tokens_def where_clause_def put_option_def yields_skip)
next
  case (Some m)
  then have m: "conjunction_ok m" using assms(1) by simp
  have "yields (where_loop [] safeRecord) (and_tokens (atoms_of m) @ kts) [foldl add_condition safeRecord (atoms_of m)] kts"
    by (rule yields_where_loop [OF assms(3) atoms_ok [OF m] atoms_not_Nil [OF m]])
  then have "yields (where_loop [] safeRecord) (and_tokens (atoms_of m) @ kts) [m] kts"
    using gather_conjunction [OF m] by (simp add: safeRecord_def)
  then have "yields parseWhereClause ((T_WHERE, ''WHERE'') # and_tokens (atoms_of m) @ kts) [m] kts"
    unfolding parseWhereClause_def by (rule yields_seq [OF yields_expect])
  then have "yields (where_clause query) ((T_WHERE, ''WHERE'') # and_tokens (atoms_of m) @ kts) (obj_put query ''$ops'' (ops_value [m])) kts"
    unfolding where_clause_def by (intro yields_clause yields_bind [OF _ yields_ret])
  with Some show ?thesis by (simp add: conditions_tokens_def put_option_def ops_value_def)
qed

lemma yields_columns:
  assumes "pred_option (\<lambda>cs. cs \<noteq> [] \<and> list_all plain_name cs) columns" and "not_next {T_COMMA} kts"
  shows "yields parseSelectClause ((T_SELECT, ''SELECT'') # columns_tokens columns @ kts) (case columns of None \<Rightarrow> [''*''] | Some cs \<Rightarrow> cs) kts"
proof (cases columns)
  case None
  have "yields (bind_op (gets (match_types [T_ASTERISK])) (\<lambda>star. if star then seq_op advance (ret [''*'']) else column_loop []))
      ((T_ASTERISK, ''*'') # kts) [''*''] kts"
    by (rule yields_bind [OF yields_types]) (auto intro!: yields_seq [OF yields_advance] yields_ret)
  with None show ?thesis unfolding parseSelectClause_def by (simp add: columns_tokens_def yields_seq [OF yields_expect])
next
  case (Some cs)
  let ?toks = "separated (T_COMMA, '','') (map (\<lambda>c. [(T_IDENTIFIER, c)]) cs) @ kts"
  obtain c r where first: "?toks = (T_IDENTIFIER, c) # r" using assms(1) Some by (cases cs; cases "tl cs") auto
  have "yields (column_loop []) ?toks ([] @ cs) kts" by (rule yields_column_loop [OF assms(2)]) (use assms(1) Some in simp)
  then have "yields (bind_op (gets (match_types [T_ASTERISK])) (\<lambda>star. if star then seq_op advance (ret [''*'']) else column_loop [])) ?toks cs kts"
    unfolding first by (intro yields_bind [OF yields_types]) simp
  with Some show ?thesis unfolding parseSelectClause_def by (simp add: columns_tokens_def yields_seq [OF yields_expect])
qed

definition parsed_query :: "string \<Rightarrow> string list option \<Rightarrow> record_obj option \<Rightarrow> string option \<Rightarrow> f64 option \<Rightarrow> record_obj" where
  "parsed_query collection columns members group_column limit =
     (let cs = (case columns of None \<Rightarrow> [''*''] | Some cs \<Rightarrow> cs) in
      put_option ''$limit'' (map_option JNum limit) (put_option ''$groupby'' (map_option JStr group_column)
        (put_option ''$ops'' (map_option (\<lambda>m. JArr [JObj m]) members)
          [(''$collection'', JStr collection), (''$select'', select_value cs), (''$onlyIds'', JBool (''_id'' \<in> set cs))])))"

lemma yields_query:
  assumes "buildable collection columns members group_column limit"
  shows "yields parseSelect (query_tokens collection columns members group_column limit @ [(T_EOF, [])])
    (parsed_query collection columns members group_column limit) [(T_EOF, [])]"
proof -
  let ?eof = "[(T_EOF, [])]"
  let ?cs = "case columns of None \<Rightarrow> [''*''] | Some cs \<Rightarrow> cs"
  let ?tail = "conditions_tokens members @ group_tokens group_column @ limit_tokens limit @ ?eof"
  have "not_next (set [T_JOIN, T_INNER, T_LEFT, T_RIGHT, T_OUTER]) ?tail" by (rule not_next_clauses) simp_all
  then obtain kt r where kt: "?tail = kt # r" "fst kt \<notin> set [T_JOIN, T_INNER, T_LEFT, T_RIGHT, T_OUTER]"
    unfolding not_next_def by (cases ?tail) auto
  have joins: "yields (gets (match_types [T_JOIN, T_INNER, T_LEFT, T_RIGHT, T_OUTER])) ?tail False ?tail"
    using yields_types [of "[T_JOIN, T_INNER, T_LEFT, T_RIGHT, T_OUTER]" "fst kt" "snd kt" r] kt by simp
  have w: "yields (where_clause q) ?tail (put_option ''$ops'' (map_option (\<lambda>m. JArr [JObj m]) members) q)
      (group_tokens group_column @ limit_tokens limit @ ?eof)" for q
    using assms by (intro yields_where not_next_clauses) (simp_all add: buildable_def)
  have g: "yields (group_clause q) (group_tokens group_column @ limit_tokens limit @ ?eof)
      (put_option ''$groupby'' (map_option JStr group_column) q) (limit_tokens limit @ ?eof)" for q
    by (intro yields_group not_next_clauses) simp
  have l: "yields (limit_clause q) (limit_tokens limit @ ?eof) (put_option ''$limit'' (map_option JNum limit) q) ?eof" for q
    using assms by (intro yields_limit) (simp add: buildable_def)
  have c: "yields parseSelectClause ((T_SELECT, ''SELECT'') # columns_tokens columns @ (T_FROM, ''FROM'') # (T_IDENTIFIER, collection) # ?tail)
      ?cs ((T_FROM, ''FROM'') # (T_IDENTIFIER, collection) # ?tail)"
    using assms by (intro yields_columns) (simp_all add: buildable_def not_next_def)
  have "yields parseSelect ((T_SELECT, ''SELECT'') # columns_tokens columns @ (T_FROM, ''FROM'') # (T_IDENTIFIER, collection) # ?tail)
      (parsed_query collection columns members group_column limit) ?eof"
    unfolding parseSelect_def parsed_query_def Let_def
    by (rule yields_bind [OF c], rule yields_seq [OF yields_expect], rule yields_bind [OF yields_expect], rule yields_bind [OF joins])
      (simp only: if_False, rule yields_bind [OF w], rule yields_bind [OF g], rule l)
  then show ?thesis by (simp add: query_tokens_def)
qed

lemma parse_printed:
  assumes "buildable collection columns members group_column limit"
  shows "parse_sql (query_text collection columns members group_column limit) = Inr (parsed_query collection columns members group_column limit)"
proof -
  let ?s = "query_text collection columns members group_column limit"
  have "map kind_text (tokenize ?s) = query_tokens collection columns members group_column limit @ [(T_EOF, [])]"
    using lexes_query [OF assms] query_solid [OF assms] by (simp add: tokenize_def Let_def lexes_def)
  with yieldsD [OF yields_query [OF assms]] obtain ts' where
    t: "map kind_text (tokenize ?s) = query_tokens collection columns members group_column limit @ [(T_EOF, [])]"
    "parseSelect (tokenize ?s) = (Inr (parsed_query collection columns members group_column limit), ts')" by blast
  then have "token_value (current_token (tokenize ?s)) = ''SELECT''"
    using current_kind [of "tokenize ?s" T_SELECT "''SELECT''"] by (simp add: query_tokens_def)
  with t(2) show ?thesis by (simp add: parse_sql_def Let_def)
qed

text \<open>Alternatives are lost: the text of two operations, which the query means as alternatives, is the text of
  the single operation that demands both.\<close>

lemma alternatives_printed_as_one:
  assumes "conjunction_ok m" and "conjunction_ok n" and "conjunction_ok (m @ n)"
  shows "qb_toSQL (qb_where [JObj m, JObj n] b) = qb_toSQL (qb_where [JObj (m @ n)] b)"
proof -
  have "atoms_of (m @ n) = atoms_of m @ atoms_of n" by (simp add: atoms_of_def)
  moreover have "obj_get (queryAst (qb_where ops b)) ''$ops'' = JArr ops" for ops by (simp add: qb_where_def qb_put_def)
  moreover have "obj_get (queryAst (qb_where ops b)) k = obj_get (queryAst b) k" if "k \<noteq> ''$ops''" for k ops
    using that by (simp add: qb_where_def qb_put_def)
  moreover have "qb_collection (qb_where ops b) = qb_collection b" for ops by (simp add: qb_where_def qb_put_def)
  ultimately show ?thesis
    using assms conjunction_printed atoms_not_Nil
    by (simp add: qb_toSQL_def where_text_def tail_text_def join_with_append)
qed



end
