(* ===== verification/SqlTag.thy ===== *)
theory SqlTag imports SqlRoundTrip begin

section \<open>The SQL template tag (createSqlTag and sqlValue of src/src/browser/fylo.js)\<close>

text \<open>
  \<open>db.sql\<close> builds a statement from the literal pieces of a template and the values between them.
  The theory shows that a string value is always lexed as one string literal that holds it, so no
  value can change the shape of a statement.
\<close>

definition sqlValue :: "jsval \<Rightarrow> string result" where
  "sqlValue v =
     (case v of
        JUndef \<Rightarrow> Inr ''NULL''
      | JNull \<Rightarrow> Inr ''NULL''
      | JNum x \<Rightarrow> if f64_is_finite x then Inr (num_to_string x) else Inl (plain_error ''SQL parameter must be a finite number'')
      | JBool b \<Rightarrow> Inr (if b then ''true'' else ''false'')
      | JStr s \<Rightarrow> Inr (CHR 0x27 # replace_all CHR 0x27 [CHR 0x27, CHR 0x27] s @ [CHR 0x27])
      | _ \<Rightarrow> Inl (plain_error ''SQL parameters must be scalar values''))"

text \<open>The loop over the values; \<open>pieces\<close> is what follows the first piece.\<close>

fun splice_values :: "string list \<Rightarrow> jsval list \<Rightarrow> string \<Rightarrow> string result" where
  "splice_values pieces [] statement = Inr statement"
| "splice_values pieces (v # vs) statement =
     bind_result (sqlValue v) (\<lambda>t.
       splice_values (tl pieces) vs (statement @ t @ (case pieces of p # _ \<Rightarrow> p | [] \<Rightarrow> [])))"

definition sql_template :: "string list \<Rightarrow> jsval list \<Rightarrow> string result" where
  "sql_template strings values =
     splice_values (tl strings) values (case strings of p # _ \<Rightarrow> p | [] \<Rightarrow> [])"

subsection \<open>Kinds of tokens\<close>

definition kinds :: "string \<Rightarrow> (token_type \<times> string) list" where
  "kinds s = map kind_text (tokenize_from 0 s)"

definition found_kinds :: "token option \<Rightarrow> (token_type \<times> string) list" where
  "found_kinds found = (case found of Some tok \<Rightarrow> [kind_text tok] | None \<Rightarrow> [])"

text \<open>The position given to a token changes neither its kind nor what is left.\<close>

lemma next_token_position:
  "found_kinds (fst (next_token s p)) = found_kinds (fst (next_token s q)) \<and> snd (next_token s p) = snd (next_token s q)"
  by (auto simp: next_token_def readIdentifierToken_def readOperatorToken_def found_kinds_def kind_text_def Let_def
      split: prod.split option.split list.split)

lemma kinds_from: "map kind_text (tokenize_from len s) =
   (let t = skipWhitespace s in if t = [] then [(T_EOF, [])]
    else found_kinds (fst (next_token t 0)) @ map kind_text (tokenize_from len (snd (next_token t 0))))"
proof (cases "skipWhitespace s = []")
  case True
  then show ?thesis by (subst tokenize_from.simps) (simp add: kind_text_def)
next
  case False
  let ?t = "skipWhitespace s" and ?pos = "int len - int (length (skipWhitespace s))"
  obtain found rest where n: "next_token ?t ?pos = (found, rest)" by fastforce
  then have "found_kinds (fst (next_token ?t 0)) = found_kinds found" "snd (next_token ?t 0) = rest"
    using next_token_position [of ?t ?pos 0] by simp_all
  with False n show ?thesis
    by (subst tokenize_from.simps) (simp add: Let_def found_kinds_def split: option.split)
qed

lemma kinds_len: "map kind_text (tokenize_from len s) = kinds s"
proof (induction s rule: measure_induct_rule [where f = length])
  case (less s)
  then show ?case
    unfolding kinds_def
    by (subst (1 2) kinds_from) (use skip_then_progress [OF _ surjective_pairing, of s 0] in \<open>auto simp: Let_def kinds_def\<close>)
qed

lemma kinds_step: "kinds s = (let t = skipWhitespace s in if t = [] then [(T_EOF, [])]
    else found_kinds (fst (next_token t 0)) @ kinds (snd (next_token t 0)))"
  using kinds_from [of 0 s] unfolding kinds_len .

lemma kinds_progress: "skipWhitespace s \<noteq> [] \<Longrightarrow> length (snd (next_token (skipWhitespace s) 0)) < length s"
  using skip_then_progress [of s 0] by (metis prod.collapse)

lemma lexes_kinds: "lexes s kts \<longleftrightarrow> kinds s = kts @ [(T_EOF, [])]"
  by (simp add: lexes_def kinds_len)

subsection \<open>Pieces without quotes\<close>

definition quote_free :: "string \<Rightarrow> bool" where
  "quote_free s \<longleftrightarrow> CHR 0x27 \<notin> set s \<and> CHR 0x22 \<notin> set s"

text \<open>What may follow a piece without continuing its last token.\<close>

definition stops :: "string \<Rightarrow> bool" where
  "stops s \<longleftrightarrow> s = [] \<or> is_space (hd s) \<or> hd s = CHR 0x27"

lemma stop_classes:
  assumes "is_space c \<or> c = CHR 0x27"
  shows "\<not> is_identifier_unit c" "\<not> is_identifier_start c" "\<not> is_number_unit c" "c \<noteq> CHR ''=''" "c \<noteq> CHR ''.''"
  using assms
  by (auto simp: is_identifier_unit_def is_identifier_start_def is_alnum_def is_number_unit_def is_letter_def is_lower_def
      is_upper_def is_digit_def is_space_def Let_def)

lemma while_stops:
  assumes "X = [] \<or> \<not> P (hd X)"
  shows "takeWhile P (t @ X) = takeWhile P t" and "dropWhile P (t @ X) = dropWhile P t @ X"
  using assms by (induction t; cases X; auto)+

lemma stops_identifier: "stops X \<Longrightarrow> readIdentifier (t @ X) = (fst (readIdentifier t), snd (readIdentifier t) @ X)"
  and stops_number: "stops X \<Longrightarrow> readNumber (t @ X) = (fst (readNumber t), snd (readNumber t) @ X)"
  using stop_classes [of "hd X"] while_stops [of X is_identifier_unit t] while_stops [of X is_number_unit t]
  by (auto simp: stops_def readIdentifier_def readNumber_def)

lemma stops_dotted: "stops X \<Longrightarrow> read_dotted v (t @ X) = (fst (read_dotted v t), snd (read_dotted v t) @ X)"
proof (induction v t rule: read_dotted.induct)
  case (1 v s)
  consider "s = []" | d where "s = [d]" | d c t where "s = d # c # t" by (metis list.exhaust)
  then show ?case
  proof cases
    case 1
    with \<open>stops X\<close> stop_classes(5) [of "hd X"] show ?thesis
      by (cases X) (auto simp: stops_def read_dotted.simps [of v] split: list.split)
  next
    case (2 d)
    with \<open>stops X\<close> stop_classes(2) [of "hd X"] show ?thesis
      by (cases X) (auto simp: stops_def read_dotted.simps [of v] split: list.split)
  next
    case (3 d c t)
    with 1 stops_identifier [of X "c # t"] show ?thesis
      by (subst (1 2 3) read_dotted.simps) (auto split: prod.split)
  qed
qed

lemma stops_operator:
  assumes "stops X" and "t \<noteq> []"
  shows "readOperatorToken (t @ X) pos = (fst (readOperatorToken t pos), snd (readOperatorToken t pos) @ X)"
  using assms stop_classes(4) [of "hd X"]
  by (cases t; cases "tl t"; cases X) (auto simp: stops_def readOperatorToken_def split: option.split prod.split)

lemma next_token_stops:
  assumes "stops X" and "t \<noteq> []" and "quote_free t"
  shows "next_token (t @ X) pos = (fst (next_token t pos), snd (next_token t pos) @ X)"
proof -
  have q: "hd t \<noteq> CHR 0x27 \<and> hd t \<noteq> CHR 0x22" using assms(2,3) by (cases t) (auto simp: quote_free_def)
  obtain a b where id: "readIdentifier t = (a, b)" by fastforce
  have "readIdentifierToken (t @ X) pos = (fst (readIdentifierToken t pos), snd (readIdentifierToken t pos) @ X)"
    using stops_identifier [OF assms(1), of t] stops_dotted [OF assms(1), of a b] id
    by (simp add: readIdentifierToken_def split: prod.split)
  moreover have "readOperatorToken (t @ X) pos = (fst (readOperatorToken t pos), snd (readOperatorToken t pos) @ X)"
    by (rule stops_operator [OF assms(1,2)])
  ultimately show ?thesis
    using q assms(2) stops_number [OF assms(1), of t] by (simp add: next_token_def Let_def split: prod.split)
qed

lemma dotted_rest: "set (snd (read_dotted v t)) \<subseteq> set t"
proof (induction t arbitrary: v rule: measure_induct_rule [where f = length])
  case (less s)
  consider "s = []" | d where "s = [d]" | d c t where "s = d # c # t" by (metis list.exhaust)
  then show ?case
  proof cases
    case (3 d c t)
    obtain a r where r: "readIdentifier (c # t) = (a, r)" by fastforce
    then have "r = dropWhile is_identifier_unit (c # t)" by (simp add: readIdentifier_def)
    then have sub: "set r \<subseteq> set (c # t)" "length r \<le> length (c # t)"
      using length_dropWhile_le [of is_identifier_unit "c # t"] set_dropWhileD [of _ is_identifier_unit "c # t"] by blast+
    then have "set (snd (read_dotted w r)) \<subseteq> set (c # t)" for w using less [of r w] 3 by fastforce
    then show ?thesis using 3 r by (subst read_dotted.simps) (simp add: subset_insertI2)
  qed (simp_all add: read_dotted.simps [of v])
qed

lemma quote_free_rest:
  assumes "t \<noteq> []" and "quote_free t"
  shows "quote_free (snd (next_token t pos))"
proof -
  have "set (snd (readIdentifier t)) \<subseteq> set t" "set (snd (readNumber t)) \<subseteq> set t"
    by (auto simp: readIdentifier_def readNumber_def dest: set_dropWhileD)
  moreover have "set (snd (readIdentifierToken t pos)) \<subseteq> set t"
    using dotted_rest [of "fst (readIdentifier t)" "snd (readIdentifier t)"] calculation(1)
    by (auto simp: readIdentifierToken_def split: prod.splits)
  moreover have "set (snd (readOperatorToken t pos)) \<subseteq> set t"
    by (auto simp: readOperatorToken_def split: list.split option.split)
  moreover have "hd t \<noteq> CHR 0x27 \<and> hd t \<noteq> CHR 0x22" using assms by (cases t) (auto simp: quote_free_def)
  ultimately have "set (snd (next_token t pos)) \<subseteq> set t"
    by (auto simp: next_token_def Let_def split: prod.splits)
  with assms(2) show ?thesis by (auto simp: quote_free_def)
qed

definition piece_kinds :: "string \<Rightarrow> (token_type \<times> string) list" where
  "piece_kinds s = butlast (kinds s)"

lemma kinds_end: "kinds s \<noteq> [] \<and> last (kinds s) = (T_EOF, [])"
proof (induction s rule: measure_induct_rule [where f = length])
  case (less s)
  then show ?case using kinds_progress [of s] by (subst (1 2) kinds_step) (simp add: Let_def)
qed

lemma kinds_piece: "kinds s = piece_kinds s @ [(T_EOF, [])]"
  using kinds_end [of s] append_butlast_last_id [of "kinds s"] by (simp add: piece_kinds_def)

lemma piece_kinds_step: "piece_kinds s = (let t = skipWhitespace s in if t = [] then []
    else found_kinds (fst (next_token t 0)) @ piece_kinds (snd (next_token t 0)))"
  using kinds_step [of s] kinds_end [of "snd (next_token (skipWhitespace s) 0)"]
  by (simp add: piece_kinds_def Let_def butlast_append)

text \<open>A piece without quotes keeps its tokens in front of anything that does not continue its last one.\<close>

lemma skip_append: "skipWhitespace (p @ X) = (if skipWhitespace p = [] then skipWhitespace X else skipWhitespace p @ X)"
  by (induction p) (simp_all add: skipWhitespace_def)

lemma skip_skip: "kinds (skipWhitespace s) = kinds s"
  by (subst (1 2) kinds_step) (simp add: skipWhitespace_def)

lemma quote_free_skip: "quote_free s \<Longrightarrow> quote_free (skipWhitespace s)"
  by (auto simp: quote_free_def skipWhitespace_def dest: set_dropWhileD)

lemma kinds_append: "quote_free p \<Longrightarrow> stops X \<Longrightarrow> kinds (p @ X) = piece_kinds p @ kinds X"
proof (induction p rule: measure_induct_rule [where f = length])
  case (less p)
  let ?t = "skipWhitespace p"
  show ?case
  proof (cases "?t = []")
    case True
    then have "kinds (p @ X) = kinds X" using skip_skip [of "p @ X"] skip_skip [of X] by (simp add: skip_append)
    moreover have "piece_kinds p = []" using True by (subst piece_kinds_step) simp
    ultimately show ?thesis by simp
  next
    case False
    let ?r = "snd (next_token ?t 0)"
    have "kinds (p @ X) = found_kinds (fst (next_token ?t 0)) @ kinds (?r @ X)"
      using False next_token_stops [OF less.prems(2) False quote_free_skip [OF less.prems(1)], of 0]
      by (subst kinds_step) (simp add: skip_append)
    also have "kinds (?r @ X) = piece_kinds ?r @ kinds X"
      using less kinds_progress [OF False] quote_free_rest [OF False quote_free_skip [OF less.prems(1)]] by blast
    finally show ?thesis using False by (subst piece_kinds_step) (simp add: Let_def)
  qed
qed

lemma piece_kinds_append: "quote_free p \<Longrightarrow> stops X \<Longrightarrow> piece_kinds (p @ X) = piece_kinds p @ piece_kinds X"
  using kinds_append [of p X] kinds_end [of X] by (simp add: piece_kinds_def butlast_append)

subsection \<open>A string value is one token\<close>

lemma replace_all_split: "replace_all c r (s @ c # t) = replace_all c r s @ r @ replace_all c r t"
  by (simp add: replace_all_def)

lemma before_quote:
  assumes "CHR 0x27 \<notin> set b"
  shows "takeWhile (\<lambda>c. c \<noteq> CHR 0x27) (b @ CHR 0x27 # s) = b"
    and "dropWhile (\<lambda>c. c \<noteq> CHR 0x27) (b @ CHR 0x27 # s) = CHR 0x27 # s"
  using assms by (induction b) auto

lemma read_doubled:
  assumes "rest = [] \<or> hd rest \<noteq> CHR 0x27"
  shows "read_quoted CHR 0x27 (replace_all CHR 0x27 [CHR 0x27, CHR 0x27] v @ CHR 0x27 # rest) = (v, rest)"
proof (induction "length v" arbitrary: v rule: less_induct)
  case less
  let ?d = "replace_all CHR 0x27 [CHR 0x27, CHR 0x27]"
  let ?b = "takeWhile (\<lambda>c. c \<noteq> CHR 0x27) v"
  have b: "?d w = w" if "CHR 0x27 \<notin> set w" for w using that by (rule replace_all_id)
  have nb: "CHR 0x27 \<notin> set ?b" by (auto dest: set_takeWhileD)
  note body = before_quote [OF nb]
  show ?case
  proof (cases "dropWhile (\<lambda>c. c \<noteq> CHR 0x27) v")
    case Nil
    then have "v = ?b" by (metis append_Nil2 takeWhile_dropWhile_id)
    then have d: "?d v = v" using b [OF nb] by metis
    from nb \<open>v = ?b\<close> have "CHR 0x27 \<notin> set v" by metis
    note body = before_quote [OF this, of rest]
    show ?thesis unfolding d using assms body
      by (cases rest) (subst read_quoted.simps, simp add: Let_def)+
  next
    case (Cons q u)
    then have q: "q = CHR 0x27" using hd_dropWhile [of "\<lambda>c. c \<noteq> CHR 0x27" v] by simp
    then have v: "v = ?b @ CHR 0x27 # u" using Cons takeWhile_dropWhile_id [of "\<lambda>c. c \<noteq> CHR 0x27" v] by metis
    have "?d (?b @ CHR 0x27 # u) = ?b @ CHR 0x27 # CHR 0x27 # ?d u"
      unfolding replace_all_split b [OF nb] by simp
    then have "?d v = ?b @ CHR 0x27 # CHR 0x27 # ?d u" using v by argo
    have "length u < length v" using v by (metis add_Suc_right length_Cons length_append less_add_Suc2)
    then have ih: "read_quoted CHR 0x27 (?d u @ CHR 0x27 # rest) = (u, rest)" by (rule less)
    have "read_quoted CHR 0x27 (?b @ CHR 0x27 # CHR 0x27 # ?d u @ CHR 0x27 # rest) = (?b @ CHR 0x27 # u, rest)"
      by (subst read_quoted.simps) (simp only: Let_def body list.case ih refl if_True prod.case)
    then show ?thesis using \<open>?d v = _\<close> v by (metis append.assoc append_Cons)
  qed
qed

lemma kinds_string:
  assumes "sqlValue (JStr v) = Inr t" and "rest = [] \<or> hd rest \<noteq> CHR 0x27"
  shows "kinds (t @ rest) = (T_STRING, v) # kinds rest"
  using assms(1) read_doubled [OF assms(2), of v]
  by (subst kinds_step) (auto simp: sqlValue_def skipWhitespace_def is_space_def next_token_def readString_def found_kinds_def
      kind_text_def Let_def)


subsection \<open>No value changes the shape of a statement\<close>

fun weave :: "'a list list \<Rightarrow> 'a list \<Rightarrow> 'a list" where
  "weave (p # ps) (v # vs) = p @ v # weave ps vs"
| "weave ps [] = concat ps"
| "weave [] vs = vs"

lemma string_value: "\<exists>t. sqlValue (JStr v) = Inr (CHR 0x27 # t) \<and> last t = CHR 0x27 \<and> t \<noteq> []"
  by (simp add: sqlValue_def)

text \<open>The statement as its first piece and the rest, which begins with a quote when there is a value.\<close>

fun spliced :: "string list \<Rightarrow> string list \<Rightarrow> string" where
  "spliced ps [] = []"
| "spliced ps (v # vs) = CHR 0x27 # replace_all CHR 0x27 [CHR 0x27, CHR 0x27] v @ CHR 0x27 #
     (case ps of p # _ \<Rightarrow> p | [] \<Rightarrow> []) @ spliced (tl ps) vs"

lemma splice_spliced: "splice_values ps (map JStr vs) s = Inr (s @ spliced ps vs)"
  by (induction vs arbitrary: ps s) (simp_all add: sqlValue_def)

lemma spliced_stops: "stops (spliced ps vs)"
  by (cases vs) (simp_all add: stops_def)

text \<open>Two values with nothing between them would print as one literal with a doubled quote.\<close>

definition sql_pieces :: "string list \<Rightarrow> bool" where
  "sql_pieces strings \<longleftrightarrow> strings \<noteq> [] \<and> list_all quote_free strings \<and> [] \<notin> set (butlast (tl strings))"

lemma kinds_spliced:
  "sql_pieces (p # ps) \<Longrightarrow> length ps = length vs \<Longrightarrow>
   kinds (p @ spliced ps vs) = weave (map piece_kinds (p # ps)) (map (\<lambda>v. (T_STRING, v)) vs) @ [(T_EOF, [])]"
proof (induction vs arbitrary: p ps)
  case Nil
  then show ?case using kinds_piece [of p] by simp
next
  case (Cons v vs)
  then obtain q qs where ps: "ps = q # qs" "length qs = length vs" by (cases ps) auto
  let ?X = "q @ spliced qs vs"
  have q: "quote_free p" "quote_free q" and sub: "sql_pieces (q # qs)"
    using Cons.prems(1) ps(1) by (cases "qs = []"; simp add: sql_pieces_def)+
  have "?X = [] \<or> hd ?X \<noteq> CHR 0x27"
  proof (cases q)
    case Nil
    then have "qs = []" using Cons.prems(1) ps(1) by (auto simp: sql_pieces_def split: if_splits)
    with Nil ps(2) show ?thesis by simp
  qed (use q(2) in \<open>auto simp: quote_free_def\<close>)
  then have "kinds (spliced ps (v # vs)) = (T_STRING, v) # kinds ?X"
    using kinds_string [of v "CHR 0x27 # replace_all CHR 0x27 [CHR 0x27, CHR 0x27] v @ [CHR 0x27]" ?X] ps(1)
    by (simp add: sqlValue_def)
  then show ?case
    using kinds_append [OF q(1) spliced_stops, of ps "v # vs"] Cons.IH [OF sub ps(2)] ps(1) by simp
qed

text \<open>Trimming a statement takes nothing from its tokens.\<close>

lemma kinds_ltrim: "kinds (dropWhile is_space s) = kinds s"
  using skip_skip [of s] by (simp add: skipWhitespace_def)

lemma piece_kinds_space: "list_all is_space ws \<Longrightarrow> piece_kinds ws = []"
  by (subst piece_kinds_step) (simp add: skipWhitespace_def list_all_iff)

definition rtrim :: "string \<Rightarrow> string" where
  "rtrim s = rev (dropWhile is_space (rev s))"

lemma rtrim_split: "\<exists>ws. s = rtrim s @ ws \<and> list_all is_space ws"
  by (rule exI [of _ "rev (takeWhile is_space (rev s))"])
    (metis (no_types, lifting) list_all_iff rev_append rev_rev_ident rtrim_def set_rev set_takeWhileD takeWhile_dropWhile_id)

lemma piece_kinds_rtrim: "quote_free p \<Longrightarrow> piece_kinds (rtrim p) = piece_kinds p"
proof -
  assume q: "quote_free p"
  obtain ws where ws: "p = rtrim p @ ws" "list_all is_space ws" using rtrim_split by blast
  have "stops ws" using ws(2) by (cases ws) (simp_all add: stops_def)
  moreover have "quote_free (rtrim p)" using q ws(1) by (metis Un_iff quote_free_def set_append)
  ultimately show ?thesis using piece_kinds_append [of "rtrim p" ws] ws piece_kinds_space by simp
qed

lemma rtrim_append: "rtrim (s @ p) = (if rtrim p = [] then rtrim s else s @ rtrim p)"
  by (auto simp: rtrim_def dropWhile_append)

lemma rtrim_spliced:
  "length ps = length vs \<Longrightarrow> vs \<noteq> [] \<Longrightarrow>
   rtrim (s @ spliced ps vs) = s @ spliced (butlast ps @ [rtrim (last ps)]) vs"
proof (induction vs arbitrary: s ps)
  case (Cons v vs)
  then obtain q qs where ps: "ps = q # qs" "length qs = length vs" by (cases ps) auto
  let ?lit = "CHR 0x27 # replace_all CHR 0x27 [CHR 0x27, CHR 0x27] v @ [CHR 0x27]"
  have lit: "rtrim (s @ ?lit) = s @ ?lit" by (simp add: rtrim_def is_space_def)
  show ?case
  proof (cases "vs = []")
    case True
    with ps have "qs = []" by simp
    have "rtrim (s @ ?lit @ q) = s @ ?lit @ rtrim q"
      using lit rtrim_append [of "s @ ?lit" q] by auto
    with True ps(1) \<open>qs = []\<close> show ?thesis by simp
  next
    case False
    then have "qs \<noteq> []" using ps(2) by auto
    with Cons.IH [OF ps(2) False, of "s @ ?lit @ q"] ps(1) show ?thesis by simp
  qed
qed simp

lemma kinds_trimmed:
  assumes "sql_pieces (p # ps)" and "length ps = length vs"
  shows "kinds (trim (p @ spliced ps vs)) = weave (map piece_kinds (p # ps)) (map (\<lambda>v. (T_STRING, v)) vs) @ [(T_EOF, [])]"
proof (cases "vs = []")
  case True
  have q: "quote_free p" using assms(1) by (simp add: sql_pieces_def)
  have "quote_free (dropWhile is_space p)" using q quote_free_skip by (simp add: skipWhitespace_def)
  then have "piece_kinds (trim p) = piece_kinds p"
    using piece_kinds_rtrim kinds_ltrim [of p] by (simp add: trim_def rtrim_def piece_kinds_def)
  with True assms(2) show ?thesis using kinds_piece [of "trim p"] by simp
next
  case False
  let ?p = "dropWhile is_space p" and ?ps = "butlast ps @ [rtrim (last ps)]"
  have ne: "ps \<noteq> []" using False assms(2) by auto
  have "dropWhile is_space (p @ spliced ps vs) = ?p @ spliced ps vs"
    using False by (cases vs) (simp_all add: dropWhile_append is_space_def)
  then have t: "trim (p @ spliced ps vs) = ?p @ spliced ?ps vs"
    using rtrim_spliced [OF assms(2) False, of ?p] by (simp add: trim_def rtrim_def)
  have q: "quote_free p" "list_all quote_free ps" using assms(1) by (simp_all add: sql_pieces_def)
  have last: "quote_free (last ps)" using q(2) ne by (auto simp: list_all_iff)
  then have "quote_free (rtrim (last ps))" using rtrim_split [of "last ps"] by (metis Un_iff quote_free_def set_append)
  then have "sql_pieces (?p # ?ps)"
    using assms(1) q quote_free_skip [OF q(1)] ne
    by (auto simp: sql_pieces_def list_all_iff skipWhitespace_def dest: in_set_butlastD)
  moreover have "length ?ps = length vs" using assms(2) ne by (cases ps) auto
  moreover have "map piece_kinds (?p # ?ps) = map piece_kinds (p # ps)"
  proof -
    have "piece_kinds ?p = piece_kinds p" using kinds_ltrim [of p] by (simp add: piece_kinds_def)
    moreover have "map piece_kinds ?ps = map piece_kinds ps"
      using piece_kinds_rtrim [OF last] append_butlast_last_id [OF ne]
      by (metis (no_types, lifting) list.simps(8) list.simps(9) map_append)
    ultimately show ?thesis by simp
  qed
  ultimately show ?thesis using kinds_spliced [of ?p ?ps vs] t by simp
qed

lemma sql_tag_tokens:
  assumes "sql_pieces strings" and "length strings = Suc (length vs)"
  shows "\<exists>statement. sql_template strings (map JStr vs) = Inr statement \<and>
    map kind_text (tokenize statement) =
      weave (map piece_kinds strings) (map (\<lambda>v. (T_STRING, v)) vs) @ [(T_EOF, [])]"
proof -
  obtain p ps where s: "strings = p # ps" "length ps = length vs" using assms(2) by (cases strings) auto
  have "sql_template strings (map JStr vs) = Inr (p @ spliced ps vs)"
    using splice_spliced [of ps vs p] s(1) by (simp add: sql_template_def)
  then show ?thesis
    using kinds_trimmed [of p ps vs] assms(1) s by (simp add: tokenize_def kinds_len Let_def)
qed



text \<open>
  Numbers are not as safe: the lexer skips a minus sign, so a template means the same statement for a
  negative number as for its absolute value.
\<close>

lemma negative_number_loses_sign:
  "kinds (CHR ''-'' # t) = kinds t"
  by (subst kinds_step) (simp add: skipWhitespace_def is_space_def next_token_def is_digit_def is_identifier_start_def
      is_letter_def is_lower_def is_upper_def Let_def readOperatorToken_def COMPARISON_TOKENS_def SINGLE_CHARACTER_TOKENS_def
      found_kinds_def)

end
