(* ===== verification/Planner.thy ===== *)
theory Planner imports SqlParser Engine begin

section \<open>SQL plans and their execution (planner.js; executeSQL in engine.js)\<close>

text \<open>
  A statement is trimmed, its \<open>EXPLAIN\<close> prefix taken off, parsed and given the description of
  its access paths; the core then runs the plan.  Freezing and cloning the plan have no effect on
  values.  The elapsed time an analysed statement reports is a reading of the performance clock,
  which is an argument.
\<close>

subsection \<open>Access paths\<close>

definition indexable_operators :: "string list" where
  "indexable_operators = [''$eq'', ''$gt'', ''$gte'', ''$lt'', ''$lte'', ''$like'', ''$contains'']"

definition access_step :: "string \<Rightarrow> string list \<Rightarrow> record_obj" where
  "access_step field operators =
     [(''kind'', JStr (if list_ex (\<lambda>operator. operator \<in> set indexable_operators) operators
                      then ''prefix-index'' else ''document-filter'')),
      (''field'', JStr field), (''operators'', JArr (map JStr operators))]"

definition document_scan :: "record_obj list" where
  "document_scan = [[(''kind'', JStr ''document-scan'')]]"

fun field_steps :: "record_obj \<Rightarrow> record_obj list result" where
  "field_steps [] = Inr []"
| "field_steps ((field, operand) # rest) =
     bind_result (if is_object operand
         then bind_result (object_keys operand) (\<lambda>operators. Inr [access_step field operators]) else Inr [])
       (\<lambda>xs. bind_result (field_steps rest) (\<lambda>ys. Inr (xs @ ys)))"

fun operation_steps :: "jsval list \<Rightarrow> record_obj list result" where
  "operation_steps [] = Inr []"
| "operation_steps (operation # rest) =
     bind_result (bind_result (object_entries operation) field_steps)
       (\<lambda>xs. bind_result (operation_steps rest) (\<lambda>ys. Inr (xs @ ys)))"

definition accessPaths :: "jsval \<Rightarrow> record_obj list result" where
  "accessPaths query =
     (case get_prop query ''$ops'' of
        JArr (o1 # os) \<Rightarrow> bind_result (operation_steps (o1 # os)) (\<lambda>access.
          Inr (if access = [] then document_scan else access))
      | _ \<Rightarrow> Inr document_scan)"

subsection \<open>Preparing a statement\<close>

record query_plan =
  plan_sql :: string
  plan_operation :: string
  plan_collection :: string
  plan_ast :: record_obj
  plan_explain :: bool
  plan_analyze :: bool
  plan_access :: "record_obj list"

definition has_keyword :: "string \<Rightarrow> string \<Rightarrow> bool" where
  "has_keyword word s = (to_upper (take (length word) s) = word)"

text \<open>The match of \<open>/^EXPLAIN(?:\s+(ANALYZE))?\s+/i\<close>: whether \<open>ANALYZE\<close> is there, and the rest.\<close>

definition explain_match :: "string \<Rightarrow> (bool \<times> string) option" where
  "explain_match sql =
     (let rest = drop 7 sql in
      if has_keyword ''EXPLAIN'' sql \<and> rest \<noteq> [] \<and> is_space (hd rest)
      then let t = dropWhile is_space rest; u = drop 7 t in
        if has_keyword ''ANALYZE'' t \<and> u \<noteq> [] \<and> is_space (hd u) then Some (True, dropWhile is_space u)
        else Some (False, t)
      else None)"

definition word_char :: "char \<Rightarrow> bool" where
  "word_char c = (is_alnum c \<or> c = CHR ''_'')"

definition statement_operation :: "string \<Rightarrow> string option" where
  "statement_operation sql =
     find (\<lambda>word. has_keyword word sql \<and> (case drop (length word) sql of [] \<Rightarrow> True | c # _ \<Rightarrow> \<not> word_char c))
       [''SELECT'', ''INSERT'', ''UPDATE'', ''DELETE'', ''CREATE'', ''DROP'']"

definition plan_target :: "record_obj \<Rightarrow> string" where
  "plan_target ast = js_to_string
     (if \<not> is_nullish (obj_get ast ''$collection'') then obj_get ast ''$collection''
      else if \<not> is_nullish (obj_get ast ''$leftCollection'') then obj_get ast ''$leftCollection'' else JStr [])"

definition prepare :: "string \<Rightarrow> query_plan result" where
  "prepare input =
     (if trim input = [] then Inl (plain_error ''SQL statement must be a non-empty string'')
      else let (explained, analyzed, sql) = (case explain_match (trim input) of
                 Some (a, rest) \<Rightarrow> (True, a, trim rest) | None \<Rightarrow> (False, False, trim input)) in
        case statement_operation sql of
          None \<Rightarrow> Inl (plain_error ''Missing SQL Operation'')
        | Some operation \<Rightarrow>
            bind_result (parse_sql sql) (\<lambda>ast.
            bind_result (accessPaths (if operation = ''UPDATE'' then obj_get ast ''$where'' else JObj ast)) (\<lambda>access.
            Inr \<lparr> plan_sql = sql, plan_operation = operation, plan_collection = plan_target ast, plan_ast = ast,
              plan_explain = explained, plan_analyze = analyzed, plan_access = access \<rparr>)))"

definition describe :: "query_plan \<Rightarrow> record_obj" where
  "describe plan =
     [(''operation'', JStr (plan_operation plan)), (''collection'', JStr (plan_collection plan)),
      (''access'', JArr (map JObj (plan_access plan))), (''executed'', JBool False)]"

subsection \<open>Executing a plan\<close>

text \<open>Grouped and keyed results merge into a record; identifiers are pushed while the result is a list.\<close>

definition append_result :: "jsval \<Rightarrow> jsval \<Rightarrow> jsval result" where
  "append_result docs data =
     (if is_object data then bind_result (appendGroup docs data) (\<lambda>ob. Inr (JObj ob))
      else case docs of JArr vs \<Rightarrow> Inr (JArr (vs @ [JStr (js_to_string data)])) | _ \<Rightarrow> Inr docs)"

definition execute_select :: "'f core \<Rightarrow> record_obj \<Rightarrow> ('f world, jsval) op" where
  "execute_select env query =
     find_each env (js_to_string (obj_get query ''$collection'')) (JObj (obj_delete query ''$collection''))
       (\<lambda>docs data. of_result (append_result docs data))
       (if js_truthy (obj_get query ''$onlyIds'') then JArr [] else JObj [])"

definition executeSqlPlan :: "'f core \<Rightarrow> query_plan \<Rightarrow> ('f world, jsval) op" where
  "executeSqlPlan env plan =
     (let parsed = plan_ast plan; operation = plan_operation plan;
          collection = js_to_string (obj_get parsed ''$collection''); rest = JObj (obj_delete parsed ''$collection'') in
      if operation = ''CREATE'' then seq_op (createCollection env collection) (ret JUndef)
      else if operation = ''DROP'' then seq_op (dropCollection env collection) (ret JUndef)
      else if operation = ''SELECT'' then
        (if includes_str ''JOIN'' (plan_sql plan) then join_docs env (JObj parsed) else execute_select env parsed)
      else if operation = ''INSERT'' then
        bind_op (putData env collection (obj_get parsed ''$values'') JUndef) (\<lambda>docId. ret (JStr docId))
      else if operation = ''UPDATE'' then bind_op (patchDocs env collection rest) (\<lambda>n. ret (num n))
      else if operation = ''DELETE'' then bind_op (delDocs env collection rest) (\<lambda>n. ret (num n))
      else throw (plain_error ''Invalid Operation''))"

definition executeSQL :: "'f core \<Rightarrow> f64 \<Rightarrow> string \<Rightarrow> ('f world, jsval) op" where
  "executeSQL env elapsed sql =
     bind_op (of_result (prepare sql)) (\<lambda>plan.
       if plan_explain plan \<and> \<not> plan_analyze plan then ret (JObj (describe plan))
       else bind_op (executeSqlPlan env plan) (\<lambda>result.
         if \<not> plan_explain plan then ret result
         else ret (JObj (obj_assign (describe plan)
           [(''executed'', JBool True), (''elapsedMs'', JNum elapsed), (''result'', result)]))))"

subsection \<open>Prepared statements\<close>

text \<open>A prepared statement keeps its plan and the function that executes plans.\<close>

record 'w prepared_statement =
  ps_plan :: query_plan
  ps_executePlan :: "query_plan \<Rightarrow> ('w, jsval) op"

definition ps_explain :: "'w prepared_statement \<Rightarrow> record_obj" where
  "ps_explain st = describe (ps_plan st)"

definition ps_execute :: "'w prepared_statement \<Rightarrow> ('w, jsval) op" where
  "ps_execute st = ps_executePlan st (ps_plan st)"

end
