(* ===== verification/Protocol.thy ===== *)
theory Protocol imports Planner begin

section \<open>The request protocol of the browser runtime (src/src/browser/core/protocol.js)\<close>

text \<open>
  One handler per operation, with its validation of the request; \<open>runBrowserRequest\<close> turns every
  outcome into a response.  Operation names inherited from \<open>Object.prototype\<close> are outside the model.
\<close>

definition FYLO_BROWSER_PROTOCOL_VERSION :: nat where "FYLO_BROWSER_PROTOCOL_VERSION = 1"

definition isRecord :: "jsval \<Rightarrow> bool" where
  "isRecord val = (is_object val \<and> \<not> is_array val)"

definition field_error :: "string \<Rightarrow> string \<Rightarrow> js_error" where
  "field_error field what =
     plain_error (''FYLO browser request field '' @ [CHR 0x22] @ field @ [CHR 0x22] @ '' must be '' @ what)"

definition requireString :: "record_obj \<Rightarrow> string \<Rightarrow> string result" where
  "requireString request field =
     (case obj_get request field of
        JStr s \<Rightarrow> if trim s = [] then Inl (field_error field ''a non-empty string'') else Inr s
      | _ \<Rightarrow> Inl (field_error field ''a non-empty string''))"

definition requireObject :: "record_obj \<Rightarrow> string \<Rightarrow> record_obj result" where
  "requireObject request field =
     (case obj_get request field of JObj ob \<Rightarrow> Inr ob | _ \<Rightarrow> Inl (field_error field ''an object''))"

definition requireObjectArray :: "record_obj \<Rightarrow> string \<Rightarrow> jsval list result" where
  "requireObjectArray request field =
     (case obj_get request field of
        JArr vs \<Rightarrow> if list_ex (\<lambda>item. \<not> isRecord item) vs then Inl (field_error field ''an array of objects'') else Inr vs
      | _ \<Rightarrow> Inl (field_error field ''an array of objects''))"

definition isBrowserRequest :: "jsval \<Rightarrow> bool" where
  "isBrowserRequest val = (isRecord val \<and> is_string (get_prop val ''op''))"

subsection \<open>The method surface\<close>

text \<open>
  The handlers run against any object with these methods: the core itself, or the facade that forwards
  to it.  \<open>findDocs(...).collect()\<close> is consumed value by value, so its field takes the consumer and what it has so far.
\<close>

record 'w fylo_api =
  api_executeSQL :: "string \<Rightarrow> ('w, jsval) op"
  api_createCollection :: "string \<Rightarrow> ('w, unit) op"
  api_dropCollection :: "string \<Rightarrow> ('w, unit) op"
  api_inspectCollection :: "string \<Rightarrow> ('w, jsval) op"
  api_rebuildCollection :: "string \<Rightarrow> ('w, jsval) op"
  api_getDoc_once :: "string \<Rightarrow> string \<Rightarrow> bool \<Rightarrow> ('w, jsval) op"
  api_getLatest :: "string \<Rightarrow> string \<Rightarrow> bool \<Rightarrow> ('w, jsval) op"
  api_getDocMeta :: "string \<Rightarrow> string \<Rightarrow> ('w, jsval) op"
  api_setDocMetaRecord :: "string \<Rightarrow> string \<Rightarrow> jsval \<Rightarrow> ('w, jsval) op"
  api_findDocs :: "string \<Rightarrow> jsval \<Rightarrow> (jsval \<Rightarrow> jsval \<Rightarrow> ('w, jsval) op) \<Rightarrow> jsval \<Rightarrow> ('w, jsval) op"
  api_findDeletedDocs :: "string \<Rightarrow> jsval \<Rightarrow> (jsval \<Rightarrow> jsval \<Rightarrow> ('w, jsval) op) \<Rightarrow> jsval \<Rightarrow> ('w, jsval) op"
  api_join :: "jsval \<Rightarrow> ('w, jsval) op"
  api_putData :: "string \<Rightarrow> jsval \<Rightarrow> jsval option \<Rightarrow> ('w, jsval) op"
  api_batchPutData :: "string \<Rightarrow> jsval list \<Rightarrow> ('w, jsval) op"
  api_patchDoc :: "string \<Rightarrow> record_obj \<Rightarrow> record_obj \<Rightarrow> ('w, jsval) op"
  api_patchDocs :: "string \<Rightarrow> jsval \<Rightarrow> ('w, jsval) op"
  api_delDoc :: "string \<Rightarrow> string \<Rightarrow> ('w, unit) op"
  api_restoreDoc :: "string \<Rightarrow> string \<Rightarrow> ('w, string) op"
  api_delDocs :: "string \<Rightarrow> jsval \<Rightarrow> ('w, jsval) op"

definition core_api :: "'f core \<Rightarrow> f64 \<Rightarrow> 'f world fylo_api" where
  "core_api env elapsed = \<lparr>
     api_executeSQL = executeSQL env elapsed,
     api_createCollection = createCollection env,
     api_dropCollection = dropCollection env,
     api_inspectCollection = inspectCollection env,
     api_rebuildCollection = rebuildCollection env,
     api_getDoc_once = getLatest env,
     api_getLatest = getLatest env,
     api_getDocMeta = getDocMeta env,
     api_setDocMetaRecord = setDocMetaRecord env,
     api_findDocs = find_each env,
     api_findDeletedDocs = (\<lambda>collection query consume acc.
       bind_op (deletedDocResults env collection query) (\<lambda>docs. present_each (default_query query) consume docs acc)),
     api_join = join_docs env,
     api_putData = (\<lambda>collection data meta.
       bind_op (putData env collection data (case meta of Some m \<Rightarrow> m | None \<Rightarrow> JUndef)) (\<lambda>docId. ret (JStr docId))),
     api_batchPutData = (\<lambda>collection batch. bind_op (batchPutData env collection batch) (\<lambda>ids. ret (JArr (map JStr ids)))),
     api_patchDoc = (\<lambda>collection newDoc oldDoc. bind_op (patchDoc env collection newDoc oldDoc) (\<lambda>docId. ret (JStr docId))),
     api_patchDocs = (\<lambda>collection update. bind_op (patchDocs env collection update) (\<lambda>n. ret (num n))),
     api_delDoc = delDoc env,
     api_restoreDoc = restoreDoc env,
     api_delDocs = (\<lambda>collection schema. bind_op (delDocs env collection schema) (\<lambda>n. ret (num n))) \<rparr>"

subsection \<open>Collecting results\<close>

definition empty_results :: "jsval \<Rightarrow> jsval" where
  "empty_results query = (if js_truthy (get_prop query ''$onlyIds'') then JArr [] else JObj safeRecord)"

definition collectFindDocs :: "'w fylo_api \<Rightarrow> string \<Rightarrow> jsval \<Rightarrow> ('w, jsval) op" where
  "collectFindDocs fylo collection query =
     api_findDocs fylo collection query (\<lambda>docs val. of_result (append_result docs val)) (empty_results query)"

definition collectDeletedDocs :: "'w fylo_api \<Rightarrow> string \<Rightarrow> jsval \<Rightarrow> ('w, jsval) op" where
  "collectDeletedDocs fylo collection query =
     api_findDeletedDocs fylo collection query (\<lambda>docs val. of_result (append_result docs val)) (empty_results query)"

subsection \<open>Handlers\<close>

text \<open>The handlers that name a collection, and those that also name a document.\<close>

definition on_collection :: "record_obj \<Rightarrow> (string \<Rightarrow> ('w, jsval) op) \<Rightarrow> ('w, jsval) op" where
  "on_collection request f = bind_op (of_result (requireString request ''collection'')) f"

definition on_document :: "record_obj \<Rightarrow> (string \<Rightarrow> string \<Rightarrow> ('w, jsval) op) \<Rightarrow> ('w, jsval) op" where
  "on_document request f =
     on_collection request (\<lambda>collection. bind_op (of_result (requireString request ''id'')) (f collection))"

definition named_result :: "string \<Rightarrow> jsval" where
  "named_result collection = JObj [(''collection'', JStr collection)]"

definition run_createCollection :: "'w fylo_api \<Rightarrow> record_obj \<Rightarrow> ('w, jsval) op" where
  "run_createCollection fylo request =
     on_collection request (\<lambda>collection. seq_op (api_createCollection fylo collection) (ret (named_result collection)))"

definition run_dropCollection :: "'w fylo_api \<Rightarrow> record_obj \<Rightarrow> ('w, jsval) op" where
  "run_dropCollection fylo request =
     on_collection request (\<lambda>collection. seq_op (api_dropCollection fylo collection) (ret (named_result collection)))"

definition run_getDoc :: "'w fylo_api \<Rightarrow> record_obj \<Rightarrow> ('w, jsval) op" where
  "run_getDoc fylo request =
     on_document request (\<lambda>collection docId. api_getDoc_once fylo collection docId (obj_get request ''onlyId'' = JBool True))"

definition run_getLatest :: "'w fylo_api \<Rightarrow> record_obj \<Rightarrow> ('w, jsval) op" where
  "run_getLatest fylo request =
     on_document request (\<lambda>collection docId. api_getLatest fylo collection docId (obj_get request ''onlyId'' = JBool True))"

definition run_setMeta :: "'w fylo_api \<Rightarrow> record_obj \<Rightarrow> ('w, jsval) op" where
  "run_setMeta fylo request =
     on_document request (\<lambda>collection docId. bind_op (of_result (requireObject request ''meta'')) (\<lambda>meta.
       api_setDocMetaRecord fylo collection docId (JObj meta)))"

definition request_query :: "record_obj \<Rightarrow> jsval" where
  "request_query request = (if isRecord (obj_get request ''query'') then obj_get request ''query'' else JObj [])"

definition run_findDocs :: "'w fylo_api \<Rightarrow> record_obj \<Rightarrow> ('w, jsval) op" where
  "run_findDocs fylo request =
     on_collection request (\<lambda>collection. collectFindDocs fylo collection (request_query request))"

definition run_findDeletedDocs :: "'w fylo_api \<Rightarrow> record_obj \<Rightarrow> ('w, jsval) op" where
  "run_findDeletedDocs fylo request =
     on_collection request (\<lambda>collection. collectDeletedDocs fylo collection (request_query request))"

definition run_joinDocs :: "'w fylo_api \<Rightarrow> record_obj \<Rightarrow> ('w, jsval) op" where
  "run_joinDocs fylo request =
     bind_op (of_result (requireObject request ''join'')) (\<lambda>join. api_join fylo (JObj join))"

definition request_meta :: "record_obj \<Rightarrow> jsval option result" where
  "request_meta request =
     (if has_own request ''meta'' then bind_result (requireObject request ''meta'') (\<lambda>m. Inr (Some (JObj m))) else Inr None)"

definition run_putData :: "'w fylo_api \<Rightarrow> record_obj \<Rightarrow> ('w, jsval) op" where
  "run_putData fylo request =
     on_collection request (\<lambda>collection.
     bind_op (of_result (requireObject request ''data'')) (\<lambda>data.
     bind_op (of_result (request_meta request)) (\<lambda>meta. api_putData fylo collection (JObj data) meta)))"

definition run_batchPutData :: "'w fylo_api \<Rightarrow> record_obj \<Rightarrow> ('w, jsval) op" where
  "run_batchPutData fylo request =
     on_collection request (\<lambda>collection. bind_op (of_result (requireObjectArray request ''batch''))
       (api_batchPutData fylo collection))"

definition run_patchDoc :: "'w fylo_api \<Rightarrow> record_obj \<Rightarrow> ('w, jsval) op" where
  "run_patchDoc fylo request =
     on_collection request (\<lambda>collection. bind_op (of_result (requireObject request ''newDoc'')) (\<lambda>newDoc.
       api_patchDoc fylo collection newDoc (fields_of (obj_get request ''oldDoc''))))"

definition run_patchDocs :: "'w fylo_api \<Rightarrow> record_obj \<Rightarrow> ('w, jsval) op" where
  "run_patchDocs fylo request =
     on_collection request (\<lambda>collection. bind_op (of_result (requireObject request ''update'')) (\<lambda>update.
       api_patchDocs fylo collection (JObj update)))"

definition run_delDoc :: "'w fylo_api \<Rightarrow> record_obj \<Rightarrow> ('w, jsval) op" where
  "run_delDoc fylo request =
     on_document request (\<lambda>collection docId.
       seq_op (api_delDoc fylo collection docId) (ret (JObj [(''deleted'', JBool True)])))"

definition run_restoreDoc :: "'w fylo_api \<Rightarrow> record_obj \<Rightarrow> ('w, jsval) op" where
  "run_restoreDoc fylo request =
     on_document request (\<lambda>collection docId. bind_op (api_restoreDoc fylo collection docId) (\<lambda>restored.
       ret (JObj [(''restored'', JBool True), (''id'', JStr restored)])))"

definition run_delDocs :: "'w fylo_api \<Rightarrow> record_obj \<Rightarrow> ('w, jsval) op" where
  "run_delDocs fylo request =
     on_collection request (\<lambda>collection. bind_op (of_result (requireObject request ''delete'')) (\<lambda>schema.
       api_delDocs fylo collection (JObj schema)))"

definition BROWSER_OPERATIONS :: "'w fylo_api \<Rightarrow> (string \<times> (record_obj \<Rightarrow> ('w, jsval) op)) list" where
  "BROWSER_OPERATIONS fylo =
     [(''executeSQL'', \<lambda>request. bind_op (of_result (requireString request ''sql'')) (api_executeSQL fylo)),
      (''createCollection'', run_createCollection fylo),
      (''dropCollection'', run_dropCollection fylo),
      (''inspectCollection'', \<lambda>request. on_collection request (api_inspectCollection fylo)),
      (''rebuildCollection'', \<lambda>request. on_collection request (api_rebuildCollection fylo)),
      (''getDoc'', run_getDoc fylo),
      (''getLatest'', run_getLatest fylo),
      (''getMeta'', \<lambda>request. on_document request (api_getDocMeta fylo)),
      (''setMeta'', run_setMeta fylo),
      (''findDocs'', run_findDocs fylo),
      (''findDeletedDocs'', run_findDeletedDocs fylo),
      (''joinDocs'', run_joinDocs fylo),
      (''putData'', run_putData fylo),
      (''batchPutData'', run_batchPutData fylo),
      (''patchDoc'', run_patchDoc fylo),
      (''patchDocs'', run_patchDocs fylo),
      (''delDoc'', run_delDoc fylo),
      (''restoreDoc'', run_restoreDoc fylo),
      (''delDocs'', run_delDocs fylo)]"

subsection \<open>Requests and responses\<close>

definition executeBrowserOperation :: "'w fylo_api \<Rightarrow> jsval \<Rightarrow> ('w, jsval) op" where
  "executeBrowserOperation fylo request =
     (if \<not> isBrowserRequest request then throw (plain_error ''FYLO browser request body must be an object'')
      else let name = js_to_string (get_prop request ''op'') in
        case map_of (BROWSER_OPERATIONS fylo) name of
          Some operation \<Rightarrow> operation (fields_of request)
        | None \<Rightarrow> throw (plain_error (''Unsupported FYLO browser operation: '' @ name)))"

definition response_head :: "bool \<Rightarrow> jsval \<Rightarrow> record_obj \<Rightarrow> int \<Rightarrow> record_obj" where
  "response_head ok operation request duration =
     [(''protocolVersion'', num FYLO_BROWSER_PROTOCOL_VERSION), (''ok'', JBool ok), (''op'', operation),
      (''requestId'', case obj_get request ''requestId'' of JStr s \<Rightarrow> JStr s | _ \<Rightarrow> JNull),
      (''durationMs'', JNum (f64_of_int duration))]"

definition error_body :: "js_error \<Rightarrow> record_obj" where
  "error_body failure =
     [(''name'', JStr (if err_name failure = [] then ''Error'' else err_name failure)),
      (''message'', JStr (if err_message failure = [] then ''Unknown error'' else err_message failure))] @
     (case err_code failure of Some c \<Rightarrow> [(''code'', JStr c)] | None \<Rightarrow> [])"

definition failed_op :: "record_obj \<Rightarrow> jsval" where
  "failed_op request = (case obj_get request ''op'' of JStr s \<Rightarrow> JStr s | _ \<Rightarrow> JNull)"

definition runBrowserRequest :: "'f world fylo_api \<Rightarrow> jsval \<Rightarrow> ('f world, jsval) op" where
  "runBrowserRequest fylo request =
     bind_op date_now (\<lambda>startedAt.
       let safeRequest = fields_of request in
       catch_op
         (bind_op (executeBrowserOperation fylo request) (\<lambda>result.
          bind_op date_now (\<lambda>now.
          ret (JObj (response_head True (obj_get safeRequest ''op'') safeRequest (now - startedAt) @
            [(''result'', result)])))))
         (\<lambda>failure. bind_op date_now (\<lambda>now.
          ret (JObj (response_head False (failed_op safeRequest) safeRequest (now - startedAt) @
            [(''error'', JObj (error_body failure))])))))"

subsection \<open>Every request is answered\<close>

lemma isBrowserRequest_op: "isBrowserRequest request \<Longrightarrow> \<exists>ob. request = JObj ob \<and> is_string (obj_get ob ''op'')"
  by (auto simp: isBrowserRequest_def isRecord_def is_object_def is_array_def get_prop_def split: jsval.splits)

lemma executed_op:
  "executeBrowserOperation fylo request w = (Inr result, v) \<Longrightarrow> isBrowserRequest request"
  by (auto simp: executeBrowserOperation_def split: if_splits)

lemma error_body_texts:
  "\<exists>name message. obj_get (error_body e) ''name'' = JStr name \<and> name \<noteq> [] \<and>
     obj_get (error_body e) ''message'' = JStr message \<and> message \<noteq> []"
  by (simp add: error_body_def)

text \<open>C24. Whatever value arrives as a request, the runtime answers with one response object of the protocol:
  its version, the request's identifier or null, and a duration; after a success the operation's name and its
  result and no error, after a failure no result and an error with a name and a message that are not empty.
  The state is the one the operation left.\<close>

theorem runBrowserRequest_answers:
  "\<exists>resp. fst (runBrowserRequest fylo request w) = Inr (JObj resp) \<and>
    obj_get resp ''protocolVersion'' = num FYLO_BROWSER_PROTOCOL_VERSION \<and>
    obj_get resp ''requestId'' = (case get_prop request ''requestId'' of JStr s \<Rightarrow> JStr s | _ \<Rightarrow> JNull) \<and>
    (\<exists>ms. obj_get resp ''durationMs'' = JNum ms) \<and>
    (case executeBrowserOperation fylo request (w\<lparr> ticks := Suc (ticks w) \<rparr>) of
       (outcome, v) \<Rightarrow> snd (runBrowserRequest fylo request w) = v\<lparr> ticks := Suc (ticks v) \<rparr> \<and>
         (case outcome of
            Inr result \<Rightarrow> obj_get resp ''ok'' = JBool True \<and> obj_get resp ''op'' = get_prop request ''op'' \<and>
              is_string (obj_get resp ''op'') \<and> obj_get resp ''result'' = result \<and> \<not> has_own resp ''error''
          | Inl e \<Rightarrow> obj_get resp ''ok'' = JBool False \<and> \<not> has_own resp ''result'' \<and>
              (\<exists>body name message. obj_get resp ''error'' = JObj body \<and> obj_get body ''name'' = JStr name \<and> name \<noteq> [] \<and>
                 obj_get body ''message'' = JStr message \<and> message \<noteq> [])))"
proof -
  let ?w = "w\<lparr> ticks := Suc (ticks w) \<rparr>"
  have request_fields: "obj_get (fields_of request) k = get_prop request k" for k
    by (simp add: fields_of_def get_prop_def split: jsval.split)
  obtain outcome v where run: "executeBrowserOperation fylo request ?w = (outcome, v)" by fastforce
  show ?thesis
  proof (cases outcome)
    case (Inl e)
    with run show ?thesis using error_body_texts [of e]
      by (simp add: runBrowserRequest_def bind_op_def catch_op_def date_now_def Let_def response_head_def request_fields has_own_def)
  next
    case (Inr result)
    with run executed_op isBrowserRequest_op have "is_string (get_prop request ''op'')"
      by (fastforce simp: get_prop_def)
    with run Inr show ?thesis
      by (simp add: runBrowserRequest_def bind_op_def catch_op_def date_now_def Let_def response_head_def request_fields has_own_def)
  qed
qed

end
