(* ===== verification/QueryLaws.thy ===== *)
theory QueryLaws imports QueryEngine begin

section \<open>What the query engine relies on, and what follows\<close>

text \<open>
  The contract between the query engine and the index it asks for candidates: a planned lookup
  succeeds, keeps the index usable and returns the documents the index holds an answer for.  From it
  alone follows that the candidates of a query contain every document whose operands the index
  answers, whatever order and repetition the answers come in.
\<close>

subsection \<open>Answers\<close>

type_synonym answer_map = "string \<Rightarrow> jsval \<Rightarrow> string set option"

definition asked :: "string \<Rightarrow> jsval \<Rightarrow> jsval" where
  "asked op operand = JObj [(op, get_prop operand op)]"

definition operator_finds :: "answer_map \<Rightarrow> string \<Rightarrow> jsval \<Rightarrow> string \<Rightarrow> string \<times> bool \<Rightarrow> bool" where
  "operator_finds answer fp operand d = (\<lambda>(op, none_is_empty).
     get_prop operand op \<noteq> JUndef \<longrightarrow>
       (case answer fp (asked op operand) of Some S \<Rightarrow> d \<in> S | None \<Rightarrow> \<not> none_is_empty))"

definition operator_planned :: "(jsval \<Rightarrow> bool) \<Rightarrow> jsval \<Rightarrow> string \<times> bool \<Rightarrow> bool" where
  "operator_planned plannable operand = (\<lambda>(op, _). get_prop operand op \<noteq> JUndef \<longrightarrow> plannable (asked op operand))"

definition operation_finds :: "answer_map \<Rightarrow> record_obj \<Rightarrow> string \<Rightarrow> bool" where
  "operation_finds answer operation d \<longleftrightarrow>
     (\<forall>(field, operand)\<in>set operation. js_truthy operand \<longrightarrow>
        list_all (operator_finds answer (normalizeFieldPath field) operand d) candidate_operators)"

definition operation_planned :: "(jsval \<Rightarrow> bool) \<Rightarrow> record_obj \<Rightarrow> bool" where
  "operation_planned plannable operation \<longleftrightarrow>
     (\<forall>(field, operand)\<in>set operation. js_truthy operand \<longrightarrow> list_all (operator_planned plannable operand) candidate_operators)"

lemma set_intersectDocIds:
  "d \<in> set (intersectDocIds current next) \<longleftrightarrow> d \<in> set next \<and> (\<forall>c. current = Some c \<longrightarrow> d \<in> set c)"
  by (cases current) (auto simp: intersectDocIds_def)

text \<open>A list of candidates \<open>r\<close>, narrowed from \<open>cand\<close>, keeps every document that is found, and only valid ones.\<close>

definition covers :: "(string \<Rightarrow> bool) \<Rightarrow> string list option \<Rightarrow> string list option \<Rightarrow> (string \<Rightarrow> bool) \<Rightarrow> bool" where
  "covers valid cand r finds \<longleftrightarrow> (case r of None \<Rightarrow> True | Some ids \<Rightarrow>
     (\<forall>d. (case cand of None \<Rightarrow> True | Some cs \<Rightarrow> d \<in> set cs) \<longrightarrow> finds d \<longrightarrow> d \<in> set ids) \<and>
     ((case cand of None \<Rightarrow> True | Some cs \<Rightarrow> (\<forall>d\<in>set cs. valid d)) \<longrightarrow> (\<forall>d\<in>set ids. valid d)))"

lemma covers_None [simp]: "covers valid cand None finds"
  by (simp add: covers_def)

lemma covers_cong: "(\<And>d. f d = g d) \<Longrightarrow> covers valid cand r f = covers valid cand r g"
  by (rule arg_cong [of f g]) (simp add: fun_eq_iff)

lemma covers_same [simp]: "covers valid cand cand f"
  by (simp add: covers_def split: option.split)

lemma covers_narrow:
  assumes "covers valid (Some (intersectDocIds cand ids)) r g"
    and "\<And>d. f d \<Longrightarrow> d \<in> set ids" and "\<And>d. f d \<Longrightarrow> g d" and "\<And>d. d \<in> set ids \<Longrightarrow> valid d"
  shows "covers valid cand r f"
  using assms by (cases r; cases cand) (auto simp: covers_def set_intersectDocIds)

subsection \<open>The contract\<close>

locale candidate_index =
  fixes index :: "'s index_like" and collection :: string and ready :: "'s \<Rightarrow> bool"
    and plannable :: "jsval \<Rightarrow> bool" and answer :: answer_map and valid :: "string \<Rightarrow> bool"
  assumes lookup: "ready s \<Longrightarrow> plannable operand \<Longrightarrow>
      \<exists>res t. candidate_ids index collection fp operand s = (Inr res, t) \<and> ready t \<and>
        map_option set res = answer fp operand"
    and answers_valid: "answer fp operand = Some S \<Longrightarrow> d \<in> S \<Longrightarrow> valid d"
begin

lemma operand_run:
  "ready s \<Longrightarrow> list_all (operator_planned plannable operand) ops \<Longrightarrow>
   \<exists>r t. operand_candidates index collection fp operand ops cand s = (Inr r, t) \<and> ready t \<and>
     covers valid cand r (\<lambda>d. list_all (operator_finds answer fp operand d) ops)"
proof (induction ops arbitrary: cand s)
  case (Cons p ops)
  obtain op ne where p: "p = (op, ne)" by fastforce
  show ?case
  proof (cases "get_prop operand op = JUndef")
    case True
    have "list_all (operator_finds answer fp operand d) (p # ops) = list_all (operator_finds answer fp operand d) ops" for d
      using True p by (simp add: operator_finds_def)
    note cong = covers_cong [of "\<lambda>d. list_all (operator_finds answer fp operand d) (p # ops)", OF this]
    from Cons.IH [OF Cons.prems(1), of cand] Cons.prems(2) True p show ?thesis
      unfolding cong by simp
  next
    case False
    then have "plannable (asked op operand)" using Cons.prems(2) p by (simp add: operator_planned_def)
    from lookup [OF Cons.prems(1) this, of fp] obtain res t where
      l: "candidate_ids index collection fp (JObj [(op, get_prop operand op)]) s = (Inr res, t)" "ready t"
        "map_option set res = answer fp (asked op operand)" by (auto simp: asked_def)
    have rest: "list_all (operator_planned plannable operand) ops" using Cons.prems(2) by simp
    let ?ids = "case res of Some ids \<Rightarrow> ids | None \<Rightarrow> []"
    obtain r u where ih: "operand_candidates index collection fp operand ops (Some (intersectDocIds cand ?ids)) t = (Inr r, u)"
      "ready u" "covers valid (Some (intersectDocIds cand ?ids)) r (\<lambda>d. list_all (operator_finds answer fp operand d) ops)"
      using Cons.IH [OF l(2) rest] by blast
    show ?thesis
    proof (cases "res = None \<and> \<not> ne")
      case True
      with l(1,2) False p show ?thesis by (auto simp: bind_op_def)
    next
      case nn: False
      have "d \<in> set ?ids" if "operator_finds answer fp operand d p" for d
        using that False l(3) nn p by (auto simp: operator_finds_def split: option.splits)
      moreover have "valid d" if "d \<in> set ?ids" for d
        using answers_valid [of fp "asked op operand" "set ?ids" d] l(3) [symmetric] that by (cases res) auto
      ultimately have "covers valid cand r (\<lambda>d. list_all (operator_finds answer fp operand d) (p # ops))"
        by (intro covers_narrow [OF ih(3)]) auto
      with ih(1,2) l(1) False nn p show ?thesis by (cases res) (auto simp: bind_op_def)
    qed
  qed
qed simp

lemma field_run:
  "ready s \<Longrightarrow> operation_planned plannable members \<Longrightarrow>
   \<exists>r t. field_candidates index collection members cand s = (Inr r, t) \<and> ready t \<and>
     covers valid cand r (operation_finds answer members)"
proof (induction members arbitrary: cand s)
  case Nil
  then show ?case by simp
next
  case (Cons p members)
  obtain field operand where p: "p = (field, operand)" by fastforce
  have rest: "operation_planned plannable members" using Cons.prems(2) by (simp add: operation_planned_def)
  show ?case
  proof (cases "js_truthy operand")
    case False
    have "operation_finds answer (p # members) d = operation_finds answer members d" for d
      using False p by (simp add: operation_finds_def)
    note cong = covers_cong [of "operation_finds answer (p # members)", OF this]
    from Cons.IH [OF Cons.prems(1) rest, of cand] False p show ?thesis unfolding cong by simp
  next
    case True
    then have "list_all (operator_planned plannable operand) candidate_operators"
      using Cons.prems(2) p by (simp add: operation_planned_def)
    from operand_run [OF Cons.prems(1) this, of "normalizeFieldPath field" None] obtain r t where
      r: "candidateDocIdsForOperand index collection (normalizeFieldPath field) operand s = (Inr r, t)" "ready t"
        "covers valid None r (\<lambda>d. list_all (operator_finds answer (normalizeFieldPath field) operand d) candidate_operators)"
      unfolding candidateDocIdsForOperand_def by blast
    have fd: "operation_finds answer (p # members) d \<longleftrightarrow>
        list_all (operator_finds answer (normalizeFieldPath field) operand d) candidate_operators \<and> operation_finds answer members d" for d
      using True p by (simp add: operation_finds_def)
    show ?thesis
    proof (cases r)
      case None
      obtain r' u where i: "field_candidates index collection members cand t = (Inr r', u)" "ready u"
        "covers valid cand r' (operation_finds answer members)"
        using Cons.IH [OF r(2) rest] by blast
      have "covers valid cand r' (operation_finds answer (p # members))"
        using i(3) by (simp add: covers_def fd split: option.splits)
      with i(1,2) r(1) None True p show ?thesis by (simp add: bind_op_def)
    next
      case (Some ids)
      obtain r' u where i: "field_candidates index collection members (Some (intersectDocIds cand ids)) t = (Inr r', u)" "ready u"
        "covers valid (Some (intersectDocIds cand ids)) r' (operation_finds answer members)"
        using Cons.IH [OF r(2) rest] by blast
      have "covers valid cand r' (operation_finds answer (p # members))"
        by (rule covers_narrow [OF i(3)]) (use r(3) Some fd in \<open>auto simp: covers_def\<close>)
      with i(1,2) r(1) Some True p show ?thesis by (simp add: bind_op_def)
    qed
  qed
qed

lemma union_run:
  "ready s \<Longrightarrow> list_all (operation_planned plannable) operations \<Longrightarrow> \<forall>d\<in>set acc. valid d \<Longrightarrow>
   \<exists>r t. union_candidates index collection (map JObj operations) acc s = (Inr r, t) \<and> ready t \<and>
     (\<forall>ids. r = Some ids \<longrightarrow> (\<forall>d\<in>set ids. valid d) \<and> set acc \<subseteq> set ids \<and>
       (\<forall>d. list_ex (\<lambda>operation. operation_finds answer operation d) operations \<longrightarrow> d \<in> set ids))"
proof (induction operations arbitrary: acc s)
  case (Cons operation operations)
  from Cons.prems(2) have pl: "operation_planned plannable operation" "list_all (operation_planned plannable) operations" by simp_all
  obtain r t where r: "candidateDocIdsForOperation index collection (JObj operation) s = (Inr r, t)" "ready t"
    "covers valid None r (operation_finds answer operation)"
    using field_run [OF Cons.prems(1) pl(1), of None]
    by (auto simp: candidateDocIdsForOperation_def object_entries_def bind_op_def)
  show ?case
  proof (cases r)
    case None
    with r(1,2) show ?thesis by (simp add: bind_op_def)
  next
    case (Some ids)
    have sets: "set (foldl push_new acc ids) = set acc \<union> set ids"
      by (induction ids arbitrary: acc) (auto simp: push_new_props)
    have "\<forall>d\<in>set (foldl push_new acc ids). valid d" using r(3) Some Cons.prems(3) sets by (auto simp: covers_def)
    from Cons.IH [OF r(2) pl(2) this] obtain r' t' where i: "union_candidates index collection (map JObj operations) (foldl push_new acc ids) t = (Inr r', t')"
      "ready t'" "\<forall>ids'. r' = Some ids' \<longrightarrow> (\<forall>d\<in>set ids'. valid d) \<and> set acc \<union> set ids \<subseteq> set ids' \<and>
        (\<forall>d. list_ex (\<lambda>operation. operation_finds answer operation d) operations \<longrightarrow> d \<in> set ids')"
      unfolding sets by blast
    have "\<forall>d. operation_finds answer operation d \<longrightarrow> d \<in> set ids" using r(3) Some by (simp add: covers_def)
    with i r(1) Some show ?thesis by (fastforce simp: bind_op_def)
  qed
qed simp

text \<open>The candidates of a query contain every document that the index finds for one of its operations.\<close>

lemma query_run:
  assumes "ready s" and "list_all (operation_planned plannable) operations" and "query_ops query = Inr (Some (map JObj operations))"
  shows "\<exists>r t. candidateDocIdsForQuery index collection query s = (Inr r, t) \<and> ready t \<and>
    (\<forall>ids. r = Some ids \<longrightarrow> (\<forall>d\<in>set ids. valid d) \<and>
      (\<forall>d. list_ex (\<lambda>operation. operation_finds answer operation d) operations \<longrightarrow> d \<in> set ids))"
  using union_run [OF assms(1,2), of "[]"] assms(3) by (auto simp: candidateDocIdsForQuery_def bind_op_def)

end

end
