(* ===== verification/SafeIntegers.thy ===== *)
theory SafeIntegers imports JsValue begin

section \<open>Integers as doubles\<close>

text \<open>
  The doubles of the integers below \<open>2^53\<close>: their bits, and the order they keep.  Limits, counts
  and clock readings of the program are such integers.
\<close>

lemma bit_length_nonneg: "0 \<le> bit_length n"
proof (induction n rule: bit_length.induct)
  case (1 n)
  then show ?case by (subst bit_length.simps) auto
qed

lemma div_bounds:
  fixes a m :: int
  assumes "0 < a"
  shows "a * (m div a) \<le> m" and "m < a * (m div a + 1)"
proof -
  have "m = a * (m div a) + m mod a" by (rule mult_div_mod_eq [symmetric])
  then show "a * (m div a) \<le> m" "m < a * (m div a + 1)"
    using pos_mod_sign [OF assms, of m] pos_mod_bound [OF assms, of m]
    unfolding distrib_left mult_1_right by linarith+
qed

lemma bit_length_bounds: "0 < n \<Longrightarrow> 0 < bit_length n \<and> 2 ^ nat (bit_length n - 1) \<le> n \<and> n < 2 ^ nat (bit_length n)"
proof (induction n rule: bit_length.induct)
  case (1 n)
  have step: "0 < s + b \<and> 2 ^ nat (s + b - 1) \<le> n \<and> n < 2 ^ nat (s + b)"
    if s: "0 < s" and b: "0 < b" "2 ^ nat (b - 1) \<le> n div 2 ^ nat s" "n div 2 ^ nat s < 2 ^ nat b" for s b :: int
  proof -
    have "nat (s + b - 1) = nat s + nat (b - 1)" "nat (s + b) = nat s + nat b" using s b(1) by auto
    then have e: "(2::int) ^ nat (s + b - 1) = 2 ^ nat s * 2 ^ nat (b - 1)" "(2::int) ^ nat (s + b) = 2 ^ nat s * 2 ^ nat b"
      by (simp_all add: power_add)
    have "2 ^ nat s * 2 ^ nat (b - 1) \<le> 2 ^ nat s * (n div 2 ^ nat s)" using b(2) by (intro mult_left_mono) simp_all
    also have "\<dots> \<le> n" using div_bounds [of "2 ^ nat s" n] by simp
    finally have low: "2 ^ nat s * 2 ^ nat (b - 1) \<le> n" .
    have "n < 2 ^ nat s * (n div 2 ^ nat s + 1)" using div_bounds [of "2 ^ nat s" n] by simp
    also have "\<dots> \<le> 2 ^ nat s * 2 ^ nat b" using b(3) by (intro mult_left_mono) simp_all
    finally show ?thesis using low s b(1) unfolding e by simp
  qed
  show ?case
  proof (cases "n \<ge> 2 ^ 64")
    case True
    have "0 < n div 2 ^ 64" using True by (simp add: pos_imp_zdiv_pos_iff)
    with 1 True have "0 < bit_length (n div 2 ^ 64) \<and> 2 ^ nat (bit_length (n div 2 ^ 64) - 1) \<le> n div 2 ^ 64 \<and>
        n div 2 ^ 64 < 2 ^ nat (bit_length (n div 2 ^ 64))" by simp
    with step [of 64 "bit_length (n div 2 ^ 64)"] True show ?thesis by (subst (1 2 3) bit_length.simps) simp
  next
    case small: False
    show ?thesis
    proof (cases "n = 1")
      case True
      have "bit_length 1 = 1" by (simp add: bit_length.simps)
      with True show ?thesis by simp
    next
      case False
      with 1(3) have "0 < n div 2" by simp
      with 1 small have "0 < bit_length (n div 2) \<and> 2 ^ nat (bit_length (n div 2) - 1) \<le> n div 2 \<and>
          n div 2 < 2 ^ nat (bit_length (n div 2))" by simp
      with step [of 1 "bit_length (n div 2)"] small 1(3) show ?thesis by (subst (1 2 3) bit_length.simps) simp
    qed
  qed
qed

definition safe_int :: "int \<Rightarrow> bool" where
  "safe_int n \<longleftrightarrow> 0 \<le> n \<and> n < 2 ^ 53"

text \<open>The magnitude bits of a positive safe integer of \<open>k\<close> bits.\<close>

lemma round_ratio_int:
  assumes "0 < n" and "n < 2 ^ 53"
  defines "k \<equiv> bit_length n"
  shows "k \<le> 53" and "2 ^ 52 \<le> n * 2 ^ nat (53 - k)" and "n * 2 ^ nat (53 - k) < 2 ^ 53"
    and "round_ratio n 1 = (k + 1021) * 2 ^ 52 + n * 2 ^ nat (53 - k)"
proof -
  have b: "0 < k" "2 ^ nat (k - 1) \<le> n" "n < 2 ^ nat k" using bit_length_bounds [OF assms(1)] by (simp_all add: k_def)
  show k: "k \<le> 53"
  proof (rule ccontr)
    assume "\<not> k \<le> 53"
    then have "(2::int) ^ 53 \<le> 2 ^ nat (k - 1)" by (intro power_increasing) simp_all
    with b(2) assms(2) show False by simp
  qed
  have "(2::int) ^ 52 = 2 ^ nat (k - 1) * 2 ^ nat (53 - k)"
    using b(1) k by (simp flip: power_add nat_add_distrib)
  also have "\<dots> \<le> n * 2 ^ nat (53 - k)" using b(2) by (intro mult_right_mono) simp_all
  finally show lo: "2 ^ 52 \<le> n * 2 ^ nat (53 - k)" .
  have "n * 2 ^ nat (53 - k) < 2 ^ nat k * 2 ^ nat (53 - k)" using b(3) by simp
  also have "\<dots> = 2 ^ 53" using b(1) k by (simp flip: power_add nat_add_distrib)
  finally show hi: "n * 2 ^ nat (53 - k) < 2 ^ 53" .
  have one: "bit_length 1 = 1" by (simp add: bit_length.simps)
  have e0: "max (- 1074) (bit_length n - bit_length 1 - 53) = k - 54" using b(1) one by (simp add: k_def)
  have "(2::int) ^ nat (54 - k) = 2 * 2 ^ nat (53 - k)"
    using k power_Suc [of "2::int" "nat (53 - k)"] by (simp add: Suc_nat_eq_nat_zadd1 del: power_Suc)
  then have a0: "scaled n 1 (k - 54) = (2 * (n * 2 ^ nat (53 - k)), 1)" using k by (simp add: scaled_def)
  have a: "scaled n 1 (k - 53) = (n * 2 ^ nat (53 - k), 1)" using k by (cases "k = 53") (simp_all add: scaled_def)
  have "(k + 1021) * 2 ^ 52 + n * 2 ^ nat (53 - k) \<le> f64_infinity_bits"
  proof -
    have "(k + 1021) * 2 ^ 52 + n * 2 ^ nat (53 - k) \<le> (53 + 1021) * 2 ^ 52 + 2 ^ 53" using k hi by simp
    then show ?thesis by (simp add: f64_infinity_bits_def)
  qed
  moreover have "round_half_even x 1 = x" for x by (simp add: round_half_even_def)
  moreover have "2 ^ 53 \<le> 2 * (n * 2 ^ nat (53 - k)) div 1" "k - 54 + 1 = k - 53" "k - 53 + 1074 = k + 1021" using lo by simp_all
  ultimately show "round_ratio n 1 = (k + 1021) * 2 ^ 52 + n * 2 ^ nat (53 - k)"
    using assms(1) unfolding round_ratio_def Let_def e0 a0 prod.case by (simp only: if_True if_False a prod.case) auto
qed

lemma bit_length_less: "0 < m \<Longrightarrow> m \<le> n \<Longrightarrow> bit_length m \<le> bit_length n"
proof (rule ccontr)
  assume "0 < m" "m \<le> n" "\<not> bit_length m \<le> bit_length n"
  then have "(2::int) ^ nat (bit_length n) \<le> 2 ^ nat (bit_length m - 1)"
    using bit_length_nonneg by (intro power_increasing) simp_all
  with bit_length_bounds [of m] bit_length_bounds [of n] \<open>0 < m\<close> \<open>m \<le> n\<close> show False by linarith
qed

lemma round_ratio_mono:
  assumes "0 \<le> m" and "m < n" and "n < 2 ^ 53"
  shows "0 \<le> round_ratio m 1" and "round_ratio m 1 < round_ratio n 1" and "round_ratio n 1 < f64_infinity_bits"
proof -
  note rn = round_ratio_int [of n]
  have n: "0 < n" using assms by simp
  show "round_ratio n 1 < f64_infinity_bits" using rn [OF n assms(3)] by (simp add: f64_infinity_bits_def)
  have "0 \<le> round_ratio m 1 \<and> round_ratio m 1 < round_ratio n 1"
  proof (cases "m = 0")
    case True
    then show ?thesis using rn [OF n assms(3)] bit_length_nonneg [of n] by (simp add: round_ratio_def)
  next
    case False
    with assms have m: "0 < m" "m < 2 ^ 53" by simp_all
    note rm = round_ratio_int [OF m]
    have "bit_length m \<le> bit_length n" by (rule bit_length_less [OF m(1)]) (use assms in simp)
    then consider "bit_length m = bit_length n" | "bit_length m + 1 \<le> bit_length n" by linarith
    then have "round_ratio m 1 < round_ratio n 1"
    proof cases
      case 1
      then have "m * 2 ^ nat (53 - bit_length m) < n * 2 ^ nat (53 - bit_length n)" using assms(2) by simp
      then show ?thesis unfolding rm(4) rn(4) [OF n assms(3)] using 1 by simp
    next
      case 2
      then show ?thesis unfolding rm(4) rn(4) [OF n assms(3)] using rm(3) rn(2) [OF n assms(3)] by simp
    qed
    with rm bit_length_nonneg [of m] show ?thesis by simp
  qed
  then show "0 \<le> round_ratio m 1" "round_ratio m 1 < round_ratio n 1" by simp_all
qed

lemma f64_int_magnitude:
  assumes "safe_int n"
  shows "\<not> f64_negative (f64_of_int n)" and "f64_magnitude (f64_of_int n) = round_ratio n 1"
    and "\<not> f64_is_nan (f64_of_int n)"
proof -
  have "0 \<le> round_ratio n 1 \<and> round_ratio n 1 < f64_infinity_bits"
    using assms round_ratio_mono [of 0 n] by (cases "n = 0") (auto simp: safe_int_def round_ratio_def f64_infinity_bits_def)
  then have r: "0 \<le> round_ratio n 1" "round_ratio n 1 < 2047 * 2 ^ 52" by (simp_all add: f64_infinity_bits_def)
  have "f64_of_int n = word_of_int (round_ratio n 1)" using assms by (simp add: f64_of_int_def f64_make_def safe_int_def)
  then have u: "uint (f64_of_int n) = round_ratio n 1" using r by (simp add: uint_word_of_int_eq take_bit_eq_mod)
  show "\<not> f64_negative (f64_of_int n)" using r by (simp add: f64_negative_def u)
  show m: "f64_magnitude (f64_of_int n) = round_ratio n 1" using r by (simp add: f64_magnitude_def u)
  show "\<not> f64_is_nan (f64_of_int n)" using r by (simp add: f64_is_nan_def m f64_infinity_bits_def)
qed

lemma f64_key_int: "safe_int n \<Longrightarrow> f64_key (f64_of_int n) = round_ratio n 1"
  by (simp add: f64_key_def f64_int_magnitude)

lemma f64_int_le: "safe_int m \<Longrightarrow> safe_int n \<Longrightarrow> f64_le (f64_of_int m) (f64_of_int n) \<longleftrightarrow> m \<le> n"
  using round_ratio_mono [of m n] round_ratio_mono [of n m]
  by (cases m n rule: linorder_cases) (simp_all add: f64_le_def f64_int_magnitude f64_key_int safe_int_def)

lemma f64_int_truthy: "safe_int n \<Longrightarrow> js_truthy (JNum (f64_of_int n)) \<longleftrightarrow> n \<noteq> 0"
  using round_ratio_mono [of 0 n] by (cases "n = 0") (simp_all add: js_truthy_def f64_int_magnitude safe_int_def round_ratio_def)

end
