(* ===== verification/Search.thy ===== *)
theory Search imports EngineStore QueryLaws SafeIntegers begin

section \<open>Finding documents\<close>

text \<open>
  \<open>docResults\<close> takes its candidates from the index, or lists the directories when the index cannot
  narrow the query, and matches each of them.  Here the contract of \<open>QueryLaws\<close> is shown to hold of
  the prefix index on the store of a collection, and a search is shown to return the live documents
  that match.
\<close>

subsection \<open>Listing\<close>

lemma doc_file_id_place: "isTTID d \<Longrightarrow> doc_file_id (d @ ''.json'') = Some d"
proof -
  assume d: "isTTID d"
  have "basename (d @ ''.json'') = d @ ''.json''" by (rule basename_plain [OF isTTID_file_plain [OF d]])
  moreover have "ends_with ''.json'' (d @ ''.json'')" by (simp add: ends_with_iff_suffix suffix_def)
  ultimately show ?thesis using d by (simp add: doc_file_id_def drop_last_def)
qed

lemma doc_file_id_TTID: "doc_file_id file = Some d \<Longrightarrow> isTTID d"
  by (auto simp: doc_file_id_def Let_def split: if_splits)

lemma place_in_bucket:
  "place rs c t d = abs_path ((coll_dir rs c @ [t, doc_shard d]) @ [d @ ''.json''])"
  by (simp add: place_def)

context fylo_tree
begin

lemma list_names:
  assumes "inv f" and ss: "plain_segments ss" and dir: "abs_path ss \<in> adir f"
  shows "\<exists>names. fs_list ops (abs_path ss) f = (Inr names, f) \<and>
    set names = {s. plain_segment s \<and> (afile f (abs_path (ss @ [s])) \<noteq> None \<or> abs_path (ss @ [s]) \<in> adir f)}"
  using list_spec [OF assms] finite_entries [OF assms(1,2)]
  by (intro exI [of _ "sorted_list_of_set {s. plain_segment s \<and>
    (afile f (abs_path (ss @ [s])) \<noteq> None \<or> abs_path (ss @ [s]) \<in> adir f)}"]) simp

lemma join_name: "plain_segments ss \<Longrightarrow> plain_segment s \<Longrightarrow> join2 (abs_path ss) s = abs_path (ss @ [s])"
  using path_join_abs [of ss "[s]"] by (simp add: join2_def)

lemma buckets_run:
  assumes env: "fs env = ops" and i: "inv (disk w)" and ss: "plain_segments ss"
    and names: "\<forall>s\<in>set names. plain_segment s"
    and free: "\<And>s q. plain_segment s \<Longrightarrow> q \<in> self_and_ancestors (abs_path (ss @ [s])) \<Longrightarrow> content w q = None"
  shows "\<exists>ids. fold_op (list_bucket env (abs_path ss)) names acc w = (Inr ids, w) \<and> set acc \<subseteq> set ids \<and>
    (\<forall>d\<in>set ids - set acc. isTTID d) \<and>
    (\<forall>s\<in>set names. \<forall>d. isTTID d \<longrightarrow> content w (abs_path ((ss @ [s]) @ [d @ ''.json''])) \<noteq> None \<longrightarrow> d \<in> set ids)"
  using names
proof (induction names arbitrary: acc)
  case (Cons s names)
  then have s: "plain_segment s" by simp
  let ?b = "abs_path (ss @ [s])"
  have p: "plain_segments (ss @ [s])" using ss s by simp
  have j: "join2 (abs_path ss) s = ?b" by (rule join_name [OF ss s])
  have d: "w_isDirectory env ?b w = (Inr (?b \<in> dirs w), w)"
    using is_dir_spec [OF i, of ?b] free [OF s] p env by (simp add: w_isDirectory_def on_disk_same)
  obtain acc' where acc': "list_bucket env (abs_path ss) s acc w = (Inr acc', w)" "set acc \<subseteq> set acc'"
    "\<forall>d\<in>set acc' - set acc. isTTID d"
    "\<forall>d. isTTID d \<longrightarrow> content w (abs_path ((ss @ [s]) @ [d @ ''.json''])) \<noteq> None \<longrightarrow> d \<in> set acc'"
  proof (cases "?b \<in> dirs w")
    case False
    have "content w (abs_path ((ss @ [s]) @ [x])) = None" if "plain_segment x" for x
    proof (rule ccontr)
      assume "content w (abs_path ((ss @ [s]) @ [x])) \<noteq> None"
      then have "ancestors (abs_path ((ss @ [s]) @ [x])) \<subseteq> dirs w" using entries [OF i] by blast
      then show False using False ancestors_snoc [of "ss @ [s]" x] p that by auto
    qed
    then show thesis using False d j isTTID_file_plain by (intro that [of acc]) (auto simp: list_bucket_def bind_op_def)
  next
    case True
    obtain fnames where l: "fs_list ops ?b (disk w) = (Inr fnames, disk w)"
      "set fnames = {x. plain_segment x \<and> (content w (abs_path ((ss @ [s]) @ [x])) \<noteq> None \<or> abs_path ((ss @ [s]) @ [x]) \<in> dirs w)}"
      using list_names [OF i p True] by auto
    let ?new = "concat (map (\<lambda>file. case doc_file_id file of Some i \<Rightarrow> [i] | None \<Rightarrow> []) fnames)"
    have "d \<in> set ?new" if "isTTID d" "content w (abs_path ((ss @ [s]) @ [d @ ''.json''])) \<noteq> None" for d
    proof -
      have "d @ ''.json'' \<in> set fnames" using that isTTID_file_plain [OF that(1)] l(2) by simp
      then show ?thesis using doc_file_id_place [OF that(1)] by force
    qed
    moreover have "\<forall>d\<in>set ?new. isTTID d" using doc_file_id_TTID by (fastforce split: option.splits)
    moreover have "w_list env ?b w = (Inr fnames, w)" using l(1) env by (simp add: w_list_def on_disk_same)
    ultimately show thesis using True d j by (intro that [of "acc @ ?new"]) (auto simp: list_bucket_def bind_op_def)
  qed
  obtain ids where ids: "fold_op (list_bucket env (abs_path ss)) names acc' w = (Inr ids, w)" "set acc' \<subseteq> set ids"
    "\<forall>d\<in>set ids - set acc'. isTTID d"
    "\<forall>s\<in>set names. \<forall>d. isTTID d \<longrightarrow> content w (abs_path ((ss @ [s]) @ [d @ ''.json''])) \<noteq> None \<longrightarrow> d \<in> set ids"
    using Cons.IH Cons.prems by (metis list.set_intros(2))
  show ?case
  proof (intro exI conjI)
    show "fold_op (list_bucket env (abs_path ss)) (s # names) acc w = (Inr ids, w)"
      using acc'(1) ids(1) by (simp add: bind_op_def)
    show "set acc \<subseteq> set ids" using acc'(2) ids(2) by blast
    show "\<forall>d\<in>set ids - set acc. isTTID d" using acc'(3) ids(3) by blast
    show "\<forall>s'\<in>set (s # names). \<forall>d. isTTID d \<longrightarrow> content w (abs_path ((ss @ [s']) @ [d @ ''.json''])) \<noteq> None \<longrightarrow> d \<in> set ids"
    proof
      fix s' assume "s' \<in> set (s # names)"
      then consider "s' = s" | "s' \<in> set names" by auto
      then show "\<forall>d. isTTID d \<longrightarrow> content w (abs_path ((ss @ [s']) @ [d @ ''.json''])) \<noteq> None \<longrightarrow> d \<in> set ids"
      proof cases
        case 1
        with acc'(4) ids(2) show ?thesis by blast
      next
        case 2
        with ids(4) show ?thesis by blast
      qed
    qed
  qed
qed simp

lemma listDocIds_run:
  assumes env: "index_env env rs c" "fs env = ops" and w: "store env rs c D T w"
  shows "\<exists>ids. listDocIds env c w = (Inr ids, w) \<and> (\<forall>d\<in>set ids. isTTID d) \<and> (\<forall>d. D d \<noteq> None \<longrightarrow> d \<in> set ids)"
proof -
  note b = store_base [OF w] and m = store_maps [OF w]
  let ?ss = "coll_dir rs c @ [''docs'']"
  have i: "inv (disk w)" using base_tree [OF b] by (simp add: tree_at_def)
  have p: "plain_segments ?ss" using coll_dir_plain [OF env(1)] by simp
  have nofile: "content w (abs_path ?ss) = None"
    using base_tree [OF b] tree_dir_position [OF tree_name_in(1)] by (simp add: tree_at_def)
  have bucket_free: "content w q = None" if "plain_segment s" "q \<in> self_and_ancestors (abs_path (?ss @ [s]))" for s q
    using that(2) layoutD(2) [OF collection_layout [OF env(1)] bucket_position [OF tree_name_in(1) that(1)]] base_tree [OF b]
    by (auto simp: tree_at_def)
  have free: "content w q = None" if "q \<in> ancestors (abs_path ?ss)" for q
    using that layoutD(2) [OF collection_layout [OF env(1)] tree_dir_position [OF tree_name_in(1)]] base_tree [OF b]
    by (auto simp: tree_at_def self_and_ancestors_def)
  have e: "w_exists env (abs_path ?ss) w = (Inr (abs_path ?ss \<in> dirs w), w)"
    using exists_spec [OF i, of "abs_path ?ss"] p env(2) nofile free by (simp add: w_exists_def on_disk_same)
  have live: "isTTID d \<and> content w (abs_path ((?ss @ [doc_shard d]) @ [d @ ''.json''])) \<noteq> None" if "D d \<noteq> None" for d
  proof -
    have d: "isTTID d" using that maps_ok_live [OF m] by (auto simp: storable_def)
    with docs_holdD(1) [OF base_docs [OF b] d] that show ?thesis by (simp add: place_def)
  qed
  have bucket: "abs_path ?ss \<in> dirs w \<and> abs_path (?ss @ [doc_shard d]) \<in> dirs w" if "D d \<noteq> None" for d
  proof -
    have sh: "plain_segment (doc_shard d)" "plain_segment (d @ ''.json'')"
      using live [OF that] doc_shards isTTID_file_plain by blast+
    have p2: "plain_segments (?ss @ [doc_shard d])" "plain_segments ((?ss @ [doc_shard d]) @ [d @ ''.json''])"
      using p sh by simp_all
    have "ancestors (abs_path ((?ss @ [doc_shard d]) @ [d @ ''.json''])) \<subseteq> dirs w"
      using entries [OF i] live [OF that] by blast
    then show ?thesis using ancestors_snoc [OF p2(2)] ancestors_snoc [OF p2(1)] by simp
  qed
  show ?thesis
  proof (cases "abs_path ?ss \<in> dirs w")
    case False
    with bucket have "\<forall>d. D d = None" by blast
    with False e collection_roots [OF env(1)] show ?thesis
      by (simp add: listDocIds_def listBucketedDocIds_def bind_op_def)
  next
    case True
    obtain names where n: "fs_list ops (abs_path ?ss) (disk w) = (Inr names, disk w)"
      "set names = {s. plain_segment s \<and> (content w (abs_path (?ss @ [s])) \<noteq> None \<or> abs_path (?ss @ [s]) \<in> dirs w)}"
      using list_names [OF i p True] by blast
    have "w_list env (abs_path ?ss) w = (Inr names, w)" using n(1) env(2) by (simp add: w_list_def on_disk_same)
    moreover obtain ids where ids: "fold_op (list_bucket env (abs_path ?ss)) names [] w = (Inr ids, w)"
      "\<forall>d\<in>set ids. isTTID d"
      "\<forall>s\<in>set names. \<forall>d. isTTID d \<longrightarrow> content w (abs_path ((?ss @ [s]) @ [d @ ''.json''])) \<noteq> None \<longrightarrow> d \<in> set ids"
      using buckets_run [OF env(2) i p, of names "[]"] n(2) bucket_free by auto
    moreover have "d \<in> set ids" if "D d \<noteq> None" for d
    proof -
      have "doc_shard d \<in> set names" using bucket [OF that] n(2) doc_shards(3) live [OF that] by auto
      with ids(3) live [OF that] show ?thesis by blast
    qed
    ultimately show ?thesis
      using True e collection_roots [OF env(1)]
      by (intro exI [of _ ids]) (simp add: listDocIds_def listBucketedDocIds_def bind_op_def)
  qed
qed

end

subsection \<open>The index keeps the contract\<close>

definition searchable :: "memory_fs core \<Rightarrow> string list \<Rightarrow> string \<Rightarrow> live_map \<Rightarrow> tomb_map \<Rightarrow> memory_fs world \<Rightarrow> bool" where
  "searchable env rs c D T w \<longleftrightarrow>
     index_env env rs c \<and> fs env = memory_ops \<and> indexScannerFactory env = None \<and> store_on_memory env rs c D T w"

definition planned :: "(bytes \<Rightarrow> bytes) \<Rightarrow> jsval \<Rightarrow> bool" where
  "planned h operand = is_ok (queryPrefixes h operand)"

text \<open>The documents whose keys answer a lookup; none is given when the operand has no plan.\<close>

definition index_answer :: "(bytes \<Rightarrow> bytes) \<Rightarrow> live_map \<Rightarrow> answer_map" where
  "index_answer h D fp operand =
     (case queryPrefixes h operand of
        Inr (Some plan) \<Rightarrow> Some (selected fp plan (indexed_keys h D)) | _ \<Rightarrow> None)"

lemma indexed_valid: "maps_ok h D T \<Longrightarrow> k \<in> indexed_keys h D \<Longrightarrow> isTTID (key_doc k)"
proof -
  assume m: "maps_ok h D T" and "k \<in> indexed_keys h D"
  then obtain d ob where d: "D d = Some ob" "k \<in> doc_index h d ob" by (auto simp: indexed_keys_def)
  have "storable h d ob" by (rule maps_ok_live [OF m d(1)])
  with doc_index_doc [OF this d(2)] show ?thesis by (simp add: storable_def)
qed

lemma index_lookup:
  assumes w: "searchable env rs c D T w" and "planned (digest env) operand"
  shows "\<exists>res v. candidateDocIds env c fp operand w = (Inr res, v) \<and> searchable env rs c D T v \<and>
    map_option set res = index_answer (digest env) D fp operand"
proof -
  let ?h = "digest env"
  have env: "index_env env rs c" "fs env = memory_ops" "indexScannerFactory env = None" "store_on_memory env rs c D T w"
    using w by (simp_all add: searchable_def)
  obtain plan where plan: "queryPrefixes ?h operand = Inr plan" using assms(2) by (auto simp: planned_def is_ok_iff)
  show ?thesis
  proof (cases plan)
    case None
    with plan w show ?thesis by (simp add: candidateDocIds_def bind_op_def index_answer_def)
  next
    case (Some prefixes)
    note b = mem.store_base [OF env(4)]
    obtain ks ms where at: "index_at mem_inv mem_file mem_dirs rs c ks ms w" "whole_log ks ms"
      "set (foldl apply_mutation ks ms) = indexed_keys ?h D"
      using b unfolding base_at_def by blast
    have agrees: "plan_agrees env (serializeSnapshot ks) fp prefixes"
      using env(3) by (simp add: plan_agrees_def scanner_agrees_def)
    obtain res v where v: "candidateDocIds env c fp operand w = (Inr res, v)"
      "index_at mem_inv mem_file mem_dirs rs c ks ms v" "index_frame mem_file mem_dirs rs c w v"
      "case res of None \<Rightarrow> prefixes = [] | Some ids \<Rightarrow> set ids = selected fp prefixes (indexed_keys ?h D)"
      using mem.candidates_at [OF env(1,2) at(1) at(2) [unfolded whole_log_def] plan [unfolded Some] agrees]
      unfolding at(3) by blast
    have "base_at mem_inv mem_file mem_dirs rs c D T (indexed_keys ?h D) v"
      using mem.base_index [OF env(1) b v(3,2) at(2)] at(3) by simp
    then have "searchable env rs c D T v"
      using w mem.store_maps [OF env(4)] by (simp add: searchable_def store_at_def)
    moreover have "prefixes \<noteq> []" using plan Some query_plan_nonempty by blast
    ultimately show ?thesis
      using v(1,4) plan Some by (cases res) (auto simp: index_answer_def)
  qed
qed

interpretation idx: candidate_index "prefix_index env" c "\<lambda>w. searchable env rs c D T w \<and> maps_ok (digest env) D T"
    "planned (digest env)" "\<lambda>fp operand. if maps_ok (digest env) D T then index_answer (digest env) D fp operand else None" isTTID
  for env :: "memory_fs core" and rs :: "string list" and c :: string and D :: live_map and T :: tomb_map
proof (unfold_locales, goal_cases)
  case (1 s operand fp)
  then show ?case using index_lookup [of env rs c D T s operand fp] by (auto simp: prefix_index_def)
next
  case (2 fp operand S d)
  then have m: "maps_ok (digest env) D T" and S: "index_answer (digest env) D fp operand = Some S" by (auto split: if_splits)
  from S obtain plan where plan: "queryPrefixes (digest env) operand = Inr (Some plan)"
    "S = selected fp plan (indexed_keys (digest env) D)"
    by (auto simp: index_answer_def split: sum.splits option.splits)
  then have "plan \<noteq> []" using query_plan_nonempty by blast
  with 2(2) plan(2) obtain k where "k \<in> indexed_keys (digest env) D" "key_doc k = d"
    by (cases plan) (auto simp: selected_def)
  with indexed_valid [OF m] show ?case by auto
qed

subsection \<open>Collecting the matches\<close>

text \<open>The results for a list of candidates, of a query that decides \<open>matches\<close> on the live documents.\<close>

definition found_docs :: "live_map \<Rightarrow> (record_obj \<Rightarrow> bool) \<Rightarrow> string list \<Rightarrow> record_obj list" where
  "found_docs D matches ids =
     concat (map (\<lambda>d. case D d of Some ob \<Rightarrow> if matches ob then [[(d, JObj ob)]] else [] | None \<Rightarrow> []) ids)"

definition decides :: "jsval \<Rightarrow> (record_obj \<Rightarrow> bool) \<Rightarrow> live_map \<Rightarrow> bool" where
  "decides query matches D \<longleftrightarrow> (\<forall>d ob ts. D d = Some ob \<longrightarrow> matchesQuery (JObj ob) query ts = Inr (matches ob))"

text \<open>How many results a query lets through: all of them, or the first \<open>n\<close>.\<close>

definition limit_of :: "jsval \<Rightarrow> nat option \<Rightarrow> bool" where
  "limit_of query lim \<longleftrightarrow> (case lim of None \<Rightarrow> \<not> js_truthy (get_prop query ''$limit'')
     | Some n \<Rightarrow> n \<noteq> 0 \<and> safe_int (int n) \<and> get_prop query ''$limit'' = JNum (f64_of_int (int n)))"

definition cut :: "nat option \<Rightarrow> 'a list \<Rightarrow> 'a list" where
  "cut lim xs = (case lim of None \<Rightarrow> xs | Some n \<Rightarrow> take n xs)"

lemma limit_reached_at:
  assumes "limit_of query lim" and "\<forall>n. lim = Some n \<longrightarrow> m \<le> n"
  shows "limit_reached (get_prop query ''$limit'') m \<longleftrightarrow> lim = Some m"
proof (cases lim)
  case None
  with assms show ?thesis by (simp add: limit_reached_def limit_of_def)
next
  case (Some n)
  with assms have n: "n \<noteq> 0" "safe_int (int n)" "safe_int (int m)" "m \<le> n" "get_prop query ''$limit'' = JNum (f64_of_int (int n))"
    by (auto simp: limit_of_def safe_int_def)
  have "js_to_number (JNum x) = x" for x by (simp add: js_to_number_def to_primitive_def prim_to_number_def is_object_def)
  with n Some show ?thesis by (auto simp: limit_reached_def num_ge_def f64_int_le f64_int_truthy)
qed

lemma found_docs_simps [simp]:
  "found_docs D M [] = []"
  "found_docs D M (d # ids) = (case D d of Some ob \<Rightarrow> if M ob then [[(d, JObj ob)]] else [] | None \<Rightarrow> []) @ found_docs D M ids"
  by (simp_all add: found_docs_def)

lemma set_found_docs: "set (found_docs D M ids) = {[(d, JObj ob)] | d ob. d \<in> set ids \<and> D d = Some ob \<and> M ob}"
  by (induction ids) (auto split: option.splits)

context fylo_tree
begin

lemma collect_run:
  assumes env: "index_env env rs c" "fs env = ops" and w: "store env rs c D T w" and q: "decides query M D" "limit_of query lim"
  shows "\<forall>d\<in>set ids. isTTID d \<Longrightarrow> (\<forall>n. lim = Some n \<longrightarrow> length results < n) \<Longrightarrow>
    collect_results env c query ids results w = (Inr (cut lim (results @ found_docs D M ids)), w)"
proof (induction ids arbitrary: results)
  case Nil
  then show ?case by (auto simp: cut_def split: option.split)
next
  case (Cons d ids)
  have d: "isTTID d" using Cons.prems(1) by simp
  obtain r where r: "readStoredDoc env c d w = (Inr r, w)" "map_option stored_data r = D d"
    by (rule read_live [OF env store_base [OF w] d store_maps [OF w]]) blast
  show ?case
  proof (cases r)
    case None
    with r Cons show ?thesis by (simp add: bind_op_def)
  next
    case (Some s)
    with r have D: "D d = Some (stored_data s)" by simp
    then have mt: "matchesQuery (JObj (stored_data s)) query (stored_times s) = Inr (M (stored_data s))"
      using q(1) by (simp add: decides_def)
    show ?thesis
    proof (cases "M (stored_data s)")
      case False
      with r Some mt D Cons show ?thesis by (simp add: bind_op_def)
    next
      case True
      have room: "\<forall>n. lim = Some n \<longrightarrow> Suc (length results) \<le> n" using Cons.prems(2) by (simp add: Suc_le_eq)
      note stop = limit_reached_at [OF q(2) room]
      show ?thesis
      proof (cases "lim = Some (Suc (length results))")
        case True
        with r Some mt D \<open>M (stored_data s)\<close> stop show ?thesis by (simp add: bind_op_def cut_def)
      next
        case False
        then have "\<forall>n. lim = Some n \<longrightarrow> Suc (length results) < n" using room by (auto simp: le_less)
        with Cons.IH [of "results @ [[(d, JObj (stored_data s))]]"] Cons.prems(1) False r Some mt D \<open>M (stored_data s)\<close> stop
        show ?thesis by (simp add: bind_op_def)
      qed
    qed
  qed
qed

end

text \<open>The index serves a query when its lookups are planned and find every live document that matches.\<close>

definition index_serves :: "(bytes \<Rightarrow> bytes) \<Rightarrow> live_map \<Rightarrow> (record_obj \<Rightarrow> bool) \<Rightarrow> jsval \<Rightarrow> bool" where
  "index_serves h D matches query \<longleftrightarrow> (case query_ops query of
     Inr None \<Rightarrow> True
   | Inr (Some operations) \<Rightarrow> (\<exists>obs. operations = map JObj obs \<and> list_all (operation_planned (planned h)) obs \<and>
       (\<forall>d ob. D d = Some ob \<longrightarrow> matches ob \<longrightarrow> list_ex (\<lambda>ob. operation_finds (index_answer h D) ob d) obs))
   | Inl _ \<Rightarrow> False)"

lemma candidates_run:
  assumes w: "searchable env rs c D T w" and serves: "index_serves (digest env) D M query"
  obtains r v where "candidateDocIdsForQuery (prefix_index env) c query w = (Inr r, v)" "searchable env rs c D T v"
    "\<forall>ids. r = Some ids \<longrightarrow> (\<forall>d\<in>set ids. isTTID d) \<and> (\<forall>d ob. D d = Some ob \<longrightarrow> M ob \<longrightarrow> d \<in> set ids)"
proof -
  have m: "maps_ok (digest env) D T" using w mem.store_maps by (auto simp: searchable_def)
  obtain ops where ops: "query_ops query = Inr ops" using serves by (auto simp: index_serves_def split: sum.splits)
  show thesis
  proof (cases ops)
    case None
    with ops that [of None w] w show thesis by (simp add: candidateDocIdsForQuery_def bind_op_def)
  next
    case (Some operations)
    with serves ops obtain obs where obs: "operations = map JObj obs" "list_all (operation_planned (planned (digest env))) obs"
      "\<forall>d ob. D d = Some ob \<longrightarrow> M ob \<longrightarrow> list_ex (\<lambda>ob. operation_finds (index_answer (digest env) D) ob d) obs"
      by (auto simp: index_serves_def)
    from idx.query_run [of env rs c D T w obs query] w m obs(1,2) ops Some
    obtain r v where "candidateDocIdsForQuery (prefix_index env) c query w = (Inr r, v)" "searchable env rs c D T v"
      "\<forall>ids. r = Some ids \<longrightarrow> (\<forall>d\<in>set ids. isTTID d) \<and>
        (\<forall>d. list_ex (\<lambda>ob. operation_finds (index_answer (digest env) D) ob d) obs \<longrightarrow> d \<in> set ids)"
      by auto
    with obs(3) show thesis by (intro that [of r v]) blast+
  qed
qed

lemma search_run:
  assumes w: "searchable env rs c D T w" and q: "is_object query" "decides query M D" "limit_of query lim"
    and serves: "index_serves (digest env) D M query"
  obtains ids v where "docResults env c query w = (Inr (cut lim (found_docs D M ids)), v)" "searchable env rs c D T v"
    "\<forall>d ob. D d = Some ob \<longrightarrow> M ob \<longrightarrow> d \<in> set ids"
proof -
  obtain r v where r: "candidateDocIdsForQuery (prefix_index env) c query w = (Inr r, v)" "searchable env rs c D T v"
    "\<forall>ids. r = Some ids \<longrightarrow> (\<forall>d\<in>set ids. isTTID d) \<and> (\<forall>d ob. D d = Some ob \<longrightarrow> M ob \<longrightarrow> d \<in> set ids)"
    by (rule candidates_run [OF w serves]) blast
  have env: "index_env env rs c" "fs env = memory_ops" and st: "store_on_memory env rs c D T w" "store_on_memory env rs c D T v"
    using w r(2) by (simp_all add: searchable_def)
  obtain ids where ids: "(case r of Some ids \<Rightarrow> ret ids | None \<Rightarrow> listQueryableDocIds env c) v = (Inr ids, v)"
    "\<forall>d\<in>set ids. isTTID d" "\<forall>d ob. D d = Some ob \<longrightarrow> M ob \<longrightarrow> d \<in> set ids"
  proof (cases r)
    case None
    from mem.listDocIds_run [OF env st(2)] obtain ids where "listDocIds env c v = (Inr ids, v)"
      "\<forall>d\<in>set ids. isTTID d" "\<forall>d. D d \<noteq> None \<longrightarrow> d \<in> set ids" by blast
    with None mem.base_requireCollection [OF env mem.store_base [OF st(2)]] that show thesis
      by (auto simp: listQueryableDocIds_def seq_op_def bind_op_def)
  qed (use r(3) that in auto)
  have "\<forall>n. lim = Some n \<longrightarrow> length [] < n" using q(3) by (auto simp: limit_of_def)
  from mem.collect_run [OF env st(2) q(2,3) ids(2) this]
  have "collect_results env c query ids [] v = (Inr (cut lim (found_docs D M ids)), v)" by simp
  moreover have "default_query query = query" "check_query query = Inr ()"
    using q(1) by (auto simp: default_query_def check_query_def is_object_def)
  ultimately have "docResults env c query w = (Inr (cut lim (found_docs D M ids)), v)"
    using r(1) ids(1) mem.base_requireCollection [OF env mem.store_base [OF st(1)]]
    by (simp add: docResults_def seq_op_def bind_op_def)
  with r(2) ids(3) show thesis by (intro that)
qed

subsection \<open>Searching for a string\<close>

definition eq_operation :: "string list \<Rightarrow> string \<Rightarrow> record_obj" where
  "eq_operation segs s = [(join_with ''/'' segs, JObj [(''$eq'', JStr s)])]"

definition eq_query :: "string list \<Rightarrow> string \<Rightarrow> jsval" where
  "eq_query segs s = JObj [(''$ops'', JArr [JObj (eq_operation segs s)])]"

definition field_names :: "string list \<Rightarrow> bool" where
  "field_names segs \<longleftrightarrow> segs \<noteq> [] \<and> hd segs \<noteq> [] \<and> (\<forall>s\<in>set segs. CHR ''/'' \<notin> set s \<and> CHR ''.'' \<notin> set s)"

lemma dotted_path:
  "\<forall>s\<in>set segs. CHR ''/'' \<notin> set s \<Longrightarrow> replace_all CHR ''/'' ''.'' (join_with ''/'' segs) = join_with ''.'' segs"
  by (induction "''/''" segs rule: join_with.induct) (simp_all add: replace_all_id)

lemma slashed_path: "field_names segs \<Longrightarrow> normalizeFieldPath (join_with ''/'' segs) = join_with ''/'' segs"
proof -
  assume "field_names segs"
  then have "CHR ''.'' \<notin> set (join_with ''/'' segs)"
    using set_join_with [of "''/''" segs] by (auto simp: field_names_def)
  then show ?thesis by (simp add: normalizeFieldPath_def replace_all_id)
qed

lemma walk_to_leaf: "leaf_at ob segs = Some v \<Longrightarrow> foldl path_step (JObj ob) segs = v"
  by (induction ob segs rule: leaf_at.induct)
    (auto simp: path_step_def own_property_def is_object_def split: option.splits jsval.splits)

lemma value_at_leaf: "field_names segs \<Longrightarrow> leaf_at ob segs = Some v \<Longrightarrow> getValueByPath (JObj ob) (join_with ''/'' segs) = v"
  using walk_to_leaf [of ob segs v] by (simp add: getValueByPath_def dotted_path split_on_join field_names_def)

lemma loose_eq_self: "loose_eq (JStr s) (JStr s)"
  by (simp add: loose_eq_def loose_eq_prim_def is_object_def is_nullish_def to_primitive_def)

lemma eq_decides: "decides (eq_query segs s) (\<lambda>ob. loose_eq (getValueByPath (JObj ob) (join_with ''/'' segs)) (JStr s)) D"
  by (simp add: decides_def matchesQuery_def matchesTimestamp_def eq_query_def eq_operation_def get_prop_def obj_get_def
      query_ops_def js_truthy_def object_entries_def matchesOperand_def operand_operators_def operand_predicate_def)

lemma eq_found:
  assumes "maps_ok h D T" and "D d = Some ob" and "leaf_at ob segs = Some (JStr s)" and "field_names segs"
  shows "operation_finds (index_answer h D) (eq_operation segs s) d"
proof -
  have st: "storable h d ob" by (rule maps_ok_live [OF assms(1,2)])
  then obtain keys where keys: "entriesForDocument h d ob = Inr keys" by (auto simp: storable_def is_ok_iff)
  have "JStr s \<in> indexed_values (JStr s)" by (simp add: indexed_values_def)
  moreover have "isTTID d" "hd segs \<noteq> []" using st assms(4) by (simp_all add: storable_def field_names_def)
  ultimately obtain entry key where e: "queryPrefixes h (JObj [(''$eq'', JStr s)]) = Inr (Some [entry])"
    "key \<in> set keys" "answers (join_with ''/'' segs) entry key d"
    using eq_indexed [OF _ keys assms(3), of "JStr s" "JStr s" "''$eq''"] loose_eq_self by auto
  have "key \<in> indexed_keys h D"
    unfolding indexed_keys_def using e(2) keys assms(2) by (intro CollectI exI [of _ d] exI [of _ ob]) (simp add: doc_index_def)
  then have "d \<in> selected (join_with ''/'' segs) [entry] (indexed_keys h D)"
    using e(3) doc_index_doc [OF st] e(2) keys
    by (auto simp: selected_def answers_def key_matches_def doc_index_def)
  with e(1) show ?thesis
    by (simp add: operation_finds_def eq_operation_def candidate_operators_def operator_finds_def get_prop_def obj_get_def
        asked_def index_answer_def slashed_path [OF assms(4)])
qed

lemma eq_planned: "operation_planned (planned h) (eq_operation segs s)"
  by (simp add: operation_planned_def eq_operation_def candidate_operators_def operator_planned_def get_prop_def obj_get_def
      asked_def planned_def queryPrefixes_def)

lemma eq_serves:
  assumes "maps_ok h D T" and "field_names segs"
    and "\<forall>d ob. D d = Some ob \<longrightarrow> loose_eq (getValueByPath (JObj ob) (join_with ''/'' segs)) (JStr s) \<longrightarrow>
           leaf_at ob segs = Some (JStr s)"
  shows "index_serves h D (\<lambda>ob. loose_eq (getValueByPath (JObj ob) (join_with ''/'' segs)) (JStr s)) (eq_query segs s)"
proof -
  let ?M = "\<lambda>ob. loose_eq (getValueByPath (JObj ob) (join_with ''/'' segs)) (JStr s)"
  have "query_ops (eq_query segs s) = Inr (Some (map JObj [eq_operation segs s]))"
    by (simp add: query_ops_def eq_query_def get_prop_def obj_get_def js_truthy_def)
  moreover have "\<forall>d ob. D d = Some ob \<longrightarrow> ?M ob \<longrightarrow>
      list_ex (\<lambda>ob. operation_finds (index_answer h D) ob d) [eq_operation segs s]"
    using eq_found [OF assms(1) _ _ assms(2)] assms(3) by (simp add: list_ex_iff)
  moreover have "list_all (operation_planned (planned h)) [eq_operation segs s]" by (simp add: eq_planned)
  ultimately show ?thesis
    unfolding index_serves_def by (simp only: sum.case option.case) blast
qed

text \<open>A collection with one document, and the search for its value.\<close>

lemma demo_searchable:
  obtains w where "searchable demo_core [''db''] ''users'' [''4VLN5QUCDP0'' \<mapsto> demo_doc] Map.empty w"
proof -
  obtain w where w: "store_on_memory demo_core [''db''] ''users'' Map.empty Map.empty w" using demo_store .
  obtain v where "store_on_memory demo_core [''db''] ''users'' [''4VLN5QUCDP0'' \<mapsto> demo_doc] Map.empty v"
    using mem.put_accepted [OF demo_env w demo_storable(2)] by auto
  then show thesis using that demo_env by (simp add: searchable_def demo_core_def)
qed

lemma demo_eq:
  "field_names [''a'']"
  "\<forall>d ob. [''4VLN5QUCDP0'' \<mapsto> demo_doc] d = Some ob \<longrightarrow>
     loose_eq (getValueByPath (JObj ob) (join_with ''/'' [''a''])) (JStr ''x'') \<longrightarrow> leaf_at ob [''a''] = Some (JStr ''x'')"
  by (simp_all add: field_names_def demo_doc_def)

lemma demo_serves:
  "index_serves (digest demo_core) [''4VLN5QUCDP0'' \<mapsto> demo_doc]
     (\<lambda>ob. loose_eq (getValueByPath (JObj ob) (join_with ''/'' [''a''])) (JStr ''x'')) (eq_query [''a''] ''x'')"
proof -
  obtain w where "searchable demo_core [''db''] ''users'' [''4VLN5QUCDP0'' \<mapsto> demo_doc] Map.empty w" using demo_searchable .
  then have "maps_ok (digest demo_core) [''4VLN5QUCDP0'' \<mapsto> demo_doc] Map.empty" using mem.store_maps by (auto simp: searchable_def)
  from eq_serves [OF this demo_eq] show ?thesis .
qed

lemma demo_value: "getValueByPath (JObj demo_doc) (join_with ''/'' [''a'']) = JStr ''x''"
  by (rule value_at_leaf) (simp_all add: field_names_def demo_doc_def)

subsection \<open>The properties of a search\<close>

text \<open>C2. A search is complete and exact: when the index serves a query, \<open>docResults\<close> succeeds on a collection
  with any live documents, returns those that match and no others, and leaves the collection as it was.\<close>

theorem find_complete:
  assumes "searchable env rs c D T w" and "is_object query" and "decides query matches D"
    and "index_serves (digest env) D matches query" and "\<not> js_truthy (get_prop query ''$limit'')"
  shows "\<exists>docs v. docResults env c query w = (Inr docs, v) \<and> searchable env rs c D T v \<and>
    set docs = {[(d, JObj ob)] | d ob. D d = Some ob \<and> matches ob}"
proof -
  have "limit_of query None" using assms(5) by (simp add: limit_of_def)
  then obtain ids v where "docResults env c query w = (Inr (found_docs D matches ids), v)" "searchable env rs c D T v"
    "\<forall>d ob. D d = Some ob \<longrightarrow> matches ob \<longrightarrow> d \<in> set ids"
    using search_run [OF assms(1-3) _ assms(4), of None] by (auto simp: cut_def)
  then show ?thesis by (intro exI [of _ "found_docs D matches ids"] exI [of _ v]) (auto simp: set_found_docs)
qed

theorem find_complete_witness:
  "\<exists>w docs v. docResults demo_core ''users'' (eq_query [''a''] ''x'') w = (Inr docs, v) \<and>
    set docs = {[(''4VLN5QUCDP0'', JObj demo_doc)]}"
proof -
  obtain w where w: "searchable demo_core [''db''] ''users'' [''4VLN5QUCDP0'' \<mapsto> demo_doc] Map.empty w" using demo_searchable .
  have "is_object (eq_query [''a''] ''x'')" "\<not> js_truthy (get_prop (eq_query [''a''] ''x'') ''$limit'')"
    by (simp_all add: eq_query_def is_object_def get_prop_def obj_get_def js_truthy_def)
  from find_complete [OF w this(1) eq_decides demo_serves this(2)] obtain docs v where
    v: "docResults demo_core ''users'' (eq_query [''a''] ''x'') w = (Inr docs, v)"
    "set docs = {[(d, JObj ob)] | d ob. [''4VLN5QUCDP0'' \<mapsto> demo_doc] d = Some ob \<and>
       loose_eq (getValueByPath (JObj ob) (join_with ''/'' [''a''])) (JStr ''x'')}" by blast
  have "set docs = {[(''4VLN5QUCDP0'', JObj demo_doc)]}"
    unfolding v(2) using demo_value loose_eq_self by (auto split: if_splits)
  with v(1) show ?thesis by blast
qed





end
