(* ===== verification/Facade.thy ===== *)
theory Facade imports SqlTag Protocol Search begin

section \<open>The browser facade (src/src/browser/fylo.js)\<close>

text \<open>
  \<open>FyloBrowser\<close> without a worker: every method builds a request, hands it to \<open>runBrowserRequest\<close> and
  turns the response back into a result or an error.  The theory shows that a method is the core's
  method, up to the two readings of the clock and the codes of errors, and follows a string through
  \<open>db.sql\<close> from the template to the documents it finds.
\<close>

subsection \<open>Requests and errors\<close>

definition not_found_prefix :: string where
  "not_found_prefix = ''Collection not found: ''"

definition browserProtocolError :: "jsval \<Rightarrow> js_error" where
  "browserProtocolError err =
     (if \<not> js_truthy err \<or> \<not> is_object err then plain_error ''Unknown browser protocol error''
      else if get_prop err ''code'' = JStr ''FYLO_COLLECTION_NOT_FOUND'' then
        CollectionNotFoundError (case get_prop err ''message'' of
           JStr m \<Rightarrow> if starts_with not_found_prefix m then drop (length not_found_prefix) m else m
         | _ \<Rightarrow> [])
      else JsError (case get_prop err ''name'' of JStr n \<Rightarrow> n | _ \<Rightarrow> ''Error'')
             (case get_prop err ''message'' of JStr m \<Rightarrow> m | _ \<Rightarrow> ''Request failed'') None)"

definition dispatch :: "'f core \<Rightarrow> f64 \<Rightarrow> record_obj \<Rightarrow> ('f world, jsval) op" where
  "dispatch env elapsed request =
     bind_op (runBrowserRequest (core_api env elapsed) (JObj request)) (\<lambda>response.
       if js_truthy (get_prop response ''ok'') then ret (get_prop response ''result'')
       else throw (browserProtocolError (get_prop response ''error'')))"

definition to_unit :: "('s, jsval) op \<Rightarrow> ('s, unit) op" where
  "to_unit m = seq_op m (ret ())"

definition call_on :: "string \<Rightarrow> string \<Rightarrow> record_obj \<Rightarrow> record_obj" where
  "call_on operation collection arguments = [(''op'', JStr operation), (''collection'', JStr collection)] @ arguments"

subsection \<open>Methods\<close>

definition browser_sql :: "'f core \<Rightarrow> f64 \<Rightarrow> string \<Rightarrow> ('f world, jsval) op" where
  "browser_sql env elapsed statement = dispatch env elapsed [(''op'', JStr ''executeSQL''), (''sql'', JStr statement)]"

definition createSqlTag :: "'f core \<Rightarrow> f64 \<Rightarrow> string list \<Rightarrow> jsval list \<Rightarrow> ('f world, jsval) op" where
  "createSqlTag env elapsed strings values =
     bind_op (of_result (sql_template strings values)) (browser_sql env elapsed)"

definition browser_createCollection :: "'f core \<Rightarrow> f64 \<Rightarrow> string \<Rightarrow> ('f world, unit) op" where
  "browser_createCollection env elapsed collection =
     to_unit (dispatch env elapsed (call_on ''createCollection'' collection []))"

definition browser_dropCollection :: "'f core \<Rightarrow> f64 \<Rightarrow> string \<Rightarrow> ('f world, unit) op" where
  "browser_dropCollection env elapsed collection =
     to_unit (dispatch env elapsed (call_on ''dropCollection'' collection []))"

definition browser_inspectCollection :: "'f core \<Rightarrow> f64 \<Rightarrow> string \<Rightarrow> ('f world, jsval) op" where
  "browser_inspectCollection env elapsed collection = dispatch env elapsed (call_on ''inspectCollection'' collection [])"

definition browser_rebuildCollection :: "'f core \<Rightarrow> f64 \<Rightarrow> string \<Rightarrow> ('f world, jsval) op" where
  "browser_rebuildCollection env elapsed collection = dispatch env elapsed (call_on ''rebuildCollection'' collection [])"

definition browser_getLatest :: "'f core \<Rightarrow> f64 \<Rightarrow> string \<Rightarrow> string \<Rightarrow> bool \<Rightarrow> ('f world, jsval) op" where
  "browser_getLatest env elapsed collection docId onlyId =
     dispatch env elapsed (call_on ''getLatest'' collection [(''id'', JStr docId), (''onlyId'', JBool onlyId)])"

definition browser_getDocMeta :: "'f core \<Rightarrow> f64 \<Rightarrow> string \<Rightarrow> string \<Rightarrow> ('f world, jsval) op" where
  "browser_getDocMeta env elapsed collection docId = dispatch env elapsed (call_on ''getMeta'' collection [(''id'', JStr docId)])"

definition browser_setDocMetaRecord :: "'f core \<Rightarrow> f64 \<Rightarrow> string \<Rightarrow> string \<Rightarrow> jsval \<Rightarrow> ('f world, jsval) op" where
  "browser_setDocMetaRecord env elapsed collection docId meta =
     dispatch env elapsed (call_on ''setMeta'' collection [(''id'', JStr docId), (''meta'', meta)])"

definition browser_join :: "'f core \<Rightarrow> f64 \<Rightarrow> jsval \<Rightarrow> ('f world, jsval) op" where
  "browser_join env elapsed join = dispatch env elapsed [(''op'', JStr ''joinDocs''), (''join'', join)]"

text \<open>The metadata is part of the request when the caller passed it.\<close>

definition browser_putData :: "'f core \<Rightarrow> f64 \<Rightarrow> string \<Rightarrow> jsval \<Rightarrow> jsval option \<Rightarrow> ('f world, jsval) op" where
  "browser_putData env elapsed collection data meta =
     dispatch env elapsed (call_on ''putData'' collection ((''data'', data) #
       (case meta of Some m \<Rightarrow> [(''meta'', m)] | None \<Rightarrow> [])))"

definition browser_batchPutData :: "'f core \<Rightarrow> f64 \<Rightarrow> string \<Rightarrow> jsval \<Rightarrow> ('f world, jsval) op" where
  "browser_batchPutData env elapsed collection batch = dispatch env elapsed (call_on ''batchPutData'' collection [(''batch'', batch)])"

definition browser_patchDoc :: "'f core \<Rightarrow> f64 \<Rightarrow> string \<Rightarrow> jsval \<Rightarrow> jsval \<Rightarrow> ('f world, jsval) op" where
  "browser_patchDoc env elapsed collection newDoc oldDoc =
     dispatch env elapsed (call_on ''patchDoc'' collection [(''newDoc'', newDoc), (''oldDoc'', oldDoc)])"

definition browser_patchDocs :: "'f core \<Rightarrow> f64 \<Rightarrow> string \<Rightarrow> jsval \<Rightarrow> ('f world, jsval) op" where
  "browser_patchDocs env elapsed collection update = dispatch env elapsed (call_on ''patchDocs'' collection [(''update'', update)])"

definition browser_delDoc :: "'f core \<Rightarrow> f64 \<Rightarrow> string \<Rightarrow> string \<Rightarrow> ('f world, unit) op" where
  "browser_delDoc env elapsed collection docId =
     to_unit (dispatch env elapsed (call_on ''delDoc'' collection [(''id'', JStr docId)]))"

definition browser_restoreDoc :: "'f core \<Rightarrow> f64 \<Rightarrow> string \<Rightarrow> string \<Rightarrow> ('f world, string) op" where
  "browser_restoreDoc env elapsed collection docId =
     bind_op (dispatch env elapsed (call_on ''restoreDoc'' collection [(''id'', JStr docId)])) (\<lambda>result.
       ret (case result of JStr s \<Rightarrow> s | _ \<Rightarrow> js_to_string (get_prop result ''id'')))"

definition browser_delDocs :: "'f core \<Rightarrow> f64 \<Rightarrow> string \<Rightarrow> jsval \<Rightarrow> ('f world, jsval) op" where
  "browser_delDocs env elapsed collection query = dispatch env elapsed (call_on ''delDocs'' collection [(''delete'', query)])"

subsection \<open>Crossing the protocol\<close>

definition tick :: "'f world \<Rightarrow> 'f world" where
  "tick w = w\<lparr> ticks := Suc (ticks w) \<rparr>"

definition crossed :: "js_error \<Rightarrow> js_error" where
  "crossed e = browserProtocolError (JObj (error_body e))"

text \<open>An operation as it is seen through the facade.\<close>

definition through :: "('f world, 'a) op \<Rightarrow> ('f world, 'a) op" where
  "through m w = (case m (tick w) of (Inr x, v) \<Rightarrow> (Inr x, tick v) | (Inl e, v) \<Rightarrow> (Inl (crossed e), tick v))"

lemma dispatch_run:
  "dispatch env elapsed request = through (executeBrowserOperation (core_api env elapsed) (JObj request))"
proof
  fix w
  obtain outcome v where r: "executeBrowserOperation (core_api env elapsed) (JObj request) (tick w) = (outcome, v)" by fastforce
  then show "dispatch env elapsed request w = through (executeBrowserOperation (core_api env elapsed) (JObj request)) w"
    by (cases outcome) (simp_all add: dispatch_def runBrowserRequest_def through_def bind_op_def catch_op_def date_now_def
        Let_def tick_def crossed_def response_head_def get_prop_def js_truthy_def)
qed

lemma through_bind: "through (bind_op m (\<lambda>x. ret (f x))) = bind_op (through m) (\<lambda>x. ret (f x))"
  by (auto simp: fun_eq_iff through_def bind_op_def split: prod.split sum.split)

lemma crossed_not_found: "crossed (CollectionNotFoundError c) = CollectionNotFoundError c"
  by (simp add: crossed_def browserProtocolError_def error_body_def CollectionNotFoundError_def is_object_def get_prop_def
      js_truthy_def not_found_prefix_def)

lemma crossed_other:
  assumes "err_name e \<noteq> []" and "err_message e \<noteq> []" and "err_code e \<noteq> Some ''FYLO_COLLECTION_NOT_FOUND''"
  shows "crossed e = JsError (err_name e) (err_message e) None"
  using assms by (cases "err_code e") (simp_all add: crossed_def browserProtocolError_def error_body_def is_object_def
      get_prop_def js_truthy_def)

subsection \<open>Every method is the core's\<close>

definition named :: "string \<Rightarrow> bool" where
  "named s \<longleftrightarrow> trim s \<noteq> []"

lemmas facade_simps = dispatch_run core_api_def call_on_def executeBrowserOperation_def isBrowserRequest_def isRecord_def is_object_def
  is_array_def is_string_def get_prop_def BROWSER_OPERATIONS_def fields_of_def on_collection_def on_document_def
  requireString_def requireObject_def requireObjectArray_def named_def

lemma handled [simp]: "bind_op (of_result (Inr x)) f = f x"
  by (simp add: fun_eq_iff bind_op_def)

lemma browser_executeSQL: "named sql \<Longrightarrow> browser_sql env elapsed sql = through (executeSQL env elapsed sql)"
  by (simp add: browser_sql_def facade_simps)

lemma browser_documents:
  assumes "named c" and "named d"
  shows "browser_getLatest env elapsed c d onlyId = through (getLatest env c d onlyId)"
    and "browser_getDocMeta env elapsed c d = through (getDocMeta env c d)"
    and "browser_setDocMetaRecord env elapsed c d (JObj m) = through (setDocMetaRecord env c d (JObj m))"
  using assms
  by (simp_all add: browser_getLatest_def browser_getDocMeta_def browser_setDocMetaRecord_def facade_simps run_getLatest_def
      run_setMeta_def)

lemma browser_collections:
  assumes "named c"
  shows "browser_inspectCollection env elapsed c = through (inspectCollection env c)"
    and "browser_rebuildCollection env elapsed c = through (rebuildCollection env c)"
    and "browser_putData env elapsed c (JObj data) None = through (bind_op (putData env c (JObj data) JUndef) (\<lambda>x. ret (JStr x)))"
    and "browser_putData env elapsed c (JObj data) (Some (JObj m)) =
      through (bind_op (putData env c (JObj data) (JObj m)) (\<lambda>x. ret (JStr x)))"
    and "browser_patchDoc env elapsed c (JObj new) (JObj old) = through (bind_op (patchDoc env c new old) (\<lambda>x. ret (JStr x)))"
    and "browser_patchDocs env elapsed c (JObj update) = through (bind_op (patchDocs env c (JObj update)) (\<lambda>n. ret (num n)))"
    and "browser_delDocs env elapsed c (JObj query) = through (bind_op (delDocs env c (JObj query)) (\<lambda>n. ret (num n)))"
    and "browser_batchPutData env elapsed c (JArr (map JObj batch)) =
      through (bind_op (batchPutData env c (map JObj batch)) (\<lambda>ids. ret (JArr (map JStr ids))))"
  using assms
  by (simp_all add: browser_inspectCollection_def browser_rebuildCollection_def browser_putData_def browser_patchDoc_def
      browser_patchDocs_def browser_delDocs_def browser_batchPutData_def facade_simps run_putData_def run_patchDoc_def
      run_patchDocs_def run_delDocs_def run_batchPutData_def request_meta_def has_own_def list_ex_iff)

lemma to_unit_through: "to_unit (through (seq_op m (ret x))) = through m"
  by (auto simp: fun_eq_iff to_unit_def through_def seq_op_def bind_op_def split: prod.split sum.split)

lemma browser_effects:
  assumes "named c" and "named d"
  shows "browser_createCollection env elapsed c = through (createCollection env c)"
    and "browser_dropCollection env elapsed c = through (dropCollection env c)"
    and "browser_delDoc env elapsed c d = through (delDoc env c d)"
  using assms
  by (simp_all add: browser_createCollection_def browser_dropCollection_def browser_delDoc_def facade_simps run_delDoc_def
      run_createCollection_def run_dropCollection_def to_unit_through)

lemma browser_restore:
  assumes "named c" and "named d"
  shows "browser_restoreDoc env elapsed c d = through (restoreDoc env c d)"
proof -
  have "browser_restoreDoc env elapsed c d =
      bind_op (through (bind_op (restoreDoc env c d) (\<lambda>r. ret (JObj [(''restored'', JBool True), (''id'', JStr r)]))))
        (\<lambda>result. ret (case result of JStr s \<Rightarrow> s | _ \<Rightarrow> js_to_string (get_prop result ''id'')))"
    using assms by (simp add: browser_restoreDoc_def facade_simps run_restoreDoc_def cong: jsval.case_cong)
  then show ?thesis
    by (auto simp: fun_eq_iff through_def bind_op_def get_prop_def split: prod.split sum.split)
qed

subsection \<open>From a template to the documents\<close>

text \<open>The template \<open>SELECT * FROM c WHERE f = \<close> with one value after it.\<close>

definition select_head :: "string \<Rightarrow> string \<Rightarrow> string" where
  "select_head c f = ''SELECT * FROM '' @ c @ '' WHERE '' @ f @ '' = ''"

definition select_kinds :: "string \<Rightarrow> string \<Rightarrow> (token_type \<times> string) list" where
  "select_kinds c f = [(T_SELECT, ''SELECT''), (T_ASTERISK, ''*''), (T_FROM, ''FROM''), (T_IDENTIFIER, c),
     (T_WHERE, ''WHERE''), (T_IDENTIFIER, f), (T_EQUALS, ''='')]"

definition select_ast :: "string \<Rightarrow> string \<Rightarrow> string \<Rightarrow> record_obj" where
  "select_ast c f v = [(''$collection'', JStr c), (''$select'', JUndef), (''$onlyIds'', JBool False),
     (''$ops'', JArr [JObj (eq_operation [f] v)])]"

lemma head_kinds:
  assumes "plain_name c" and "plain_name f"
  shows "piece_kinds (select_head c f) = select_kinds c f"
proof -
  have "lexes (operatorToSQL ''$eq'' @ CHR '' '' # []) [(T_EQUALS, ''='')]"
    by (rule lexes_operator [OF _ lexes_Nil]) (simp add: operator_tokens_def)
  then have e: "lexes (''= '') [(T_EQUALS, ''='')]" by (simp add: operatorToSQL_def sql_operators_def)
  have "lexes (f @ CHR '' '' # ''= '') [(T_IDENTIFIER, f), (T_EQUALS, ''='')]"
    using lexes_name [OF assms(2) _ lexes_space [OF e]] by simp
  then have "lexes (''WHERE'' @ CHR '' '' # f @ CHR '' '' # ''= '') [(T_WHERE, ''WHERE''), (T_IDENTIFIER, f), (T_EQUALS, ''='')]"
    using word_tokens(3) [OF _ lexes_space] by fastforce
  then have "lexes (c @ CHR '' '' # ''WHERE'' @ CHR '' '' # f @ CHR '' '' # ''= '')
      [(T_IDENTIFIER, c), (T_WHERE, ''WHERE''), (T_IDENTIFIER, f), (T_EQUALS, ''='')]"
    using lexes_name [OF assms(1) _ lexes_space] by fastforce
  then have "lexes (''FROM'' @ CHR '' '' # c @ CHR '' '' # ''WHERE'' @ CHR '' '' # f @ CHR '' '' # ''= '')
      [(T_FROM, ''FROM''), (T_IDENTIFIER, c), (T_WHERE, ''WHERE''), (T_IDENTIFIER, f), (T_EQUALS, ''='')]"
    using word_tokens(2) [OF _ lexes_space] by fastforce
  then have "lexes (CHR ''*'' # CHR '' '' # ''FROM'' @ CHR '' '' # c @ CHR '' '' # ''WHERE'' @ CHR '' '' # f @ CHR '' '' # ''= '')
      [(T_ASTERISK, ''*''), (T_FROM, ''FROM''), (T_IDENTIFIER, c), (T_WHERE, ''WHERE''), (T_IDENTIFIER, f), (T_EQUALS, ''='')]"
    using lexes_star [OF lexes_space] by fastforce
  then have "lexes (select_head c f) (select_kinds c f)"
    using word_tokens(1) [OF _ lexes_space] unfolding select_head_def select_kinds_def by fastforce
  then show ?thesis by (simp add: lexes_kinds piece_kinds_def)
qed

lemma yields_string: "yields parseValue ((T_STRING, v) # kts) (JStr v) kts"
  unfolding yields_def
proof (intro allI impI)
  fix ts assume "map kind_text ts = (T_STRING, v) # kts"
  from current_kind [OF this] show "\<exists>ts'. parseValue ts = (Inr (JStr v), ts') \<and> map kind_text ts' = kts"
    by (simp add: parseValue_def bind_op_def seq_op_def advance_def)
qed

lemma yields_equality:
  assumes "not_next {T_AND, T_OR} kts" and "plain_name f"
  shows "yields parseWhereClause ((T_WHERE, ''WHERE'') # (T_IDENTIFIER, f) # (T_EQUALS, ''='') # (T_STRING, v) # kts)
    [eq_operation [f] v] kts"
proof -
  obtain ty t r where k: "kts = (ty, t) # r" "ty \<noteq> T_AND" "ty \<noteq> T_OR" using assms(1) by (cases kts) (auto simp: not_next_def)
  have "yields parseOperator ((T_EQUALS, ''='') # (T_STRING, v) # kts) ''$eq'' ((T_STRING, v) # kts)"
    by (rule yields_operator) (simp add: operator_tokens_def)
  then have c: "yields parseCondition ((T_IDENTIFIER, f) # (T_EQUALS, ''='') # (T_STRING, v) # kts) (f, ''$eq'', JStr v) kts"
    unfolding parseCondition_def by (intro yields_bind [OF yields_expect] yields_bind [OF _ yields_bind [OF yields_string yields_ret]])
  have a: "add_condition safeRecord (f, ''$eq'', JStr v) = eq_operation [f] v"
    using plain_not_index [OF assms(2)] operator_not_index [of "''$eq''"]
    by (simp add: add_condition_def safeRecord_def eq_operation_def put_last object_fields_def operator_tokens_def)
  have "yields (where_loop [] safeRecord) ((T_IDENTIFIER, f) # (T_EQUALS, ''='') # (T_STRING, v) # kts) [eq_operation [f] v] kts"
    unfolding yields_def
  proof (intro allI impI)
    fix ts assume "map kind_text ts = (T_IDENTIFIER, f) # (T_EQUALS, ''='') # (T_STRING, v) # kts"
    from yieldsD [OF c this] obtain ts' where ts': "parseCondition ts = (Inr (f, ''$eq'', JStr v), ts')" "map kind_text ts' = kts"
      by blast
    then show "\<exists>ts'. where_loop [] safeRecord ts = (Inr [eq_operation [f] v], ts') \<and> map kind_text ts' = kts"
      using match_next [of ts' ty t r] k a by (subst where_loop.simps) (simp add: Let_def)
  qed
  then show ?thesis unfolding parseWhereClause_def by (rule yields_seq [OF yields_expect])
qed

lemma yields_selection:
  assumes "plain_name c" and "plain_name f"
  shows "yields parseSelect (select_kinds c f @ [(T_STRING, v), (T_EOF, [])]) (select_ast c f v) [(T_EOF, [])]"
proof -
  let ?eof = "[(T_EOF, [])]"
  let ?tail = "(T_WHERE, ''WHERE'') # (T_IDENTIFIER, f) # (T_EQUALS, ''='') # (T_STRING, v) # ?eof"
  have joins: "yields (gets (match_types [T_JOIN, T_INNER, T_LEFT, T_RIGHT, T_OUTER])) ?tail False ?tail"
    using yields_types [of "[T_JOIN, T_INNER, T_LEFT, T_RIGHT, T_OUTER]" T_WHERE] by simp
  have "yields parseWhereClause ?tail [eq_operation [f] v] ?eof" by (rule yields_equality) (use assms in \<open>simp_all add: not_next_def\<close>)
  then have w: "yields (where_clause q) ?tail (obj_put q ''$ops'' (ops_value [eq_operation [f] v])) ?eof" for q
    unfolding where_clause_def by (intro yields_clause yields_bind [OF _ yields_ret])
  have g: "yields (group_clause q) ?eof q ?eof" and l: "yields (limit_clause q) ?eof q ?eof" for q
    unfolding group_clause_def limit_clause_def by (rule yields_skip, simp add: not_next_def)+
  have s: "yields parseSelectClause ((T_SELECT, ''SELECT'') # (T_ASTERISK, ''*'') # (T_FROM, ''FROM'') # (T_IDENTIFIER, c) # ?tail)
      [''*''] ((T_FROM, ''FROM'') # (T_IDENTIFIER, c) # ?tail)"
    using yields_columns [of None "(T_FROM, ''FROM'') # (T_IDENTIFIER, c) # ?tail"] by (simp add: columns_tokens_def not_next_def)
  have r: "obj_put [(''$collection'', JStr c), (''$select'', select_value [''*'']), (''$onlyIds'', JBool (''_id'' \<in> set [''*'']))]
      ''$ops'' (ops_value [eq_operation [f] v]) = select_ast c f v"
    by (simp add: obj_put_def obj_insert_def is_index_key_def is_digit_def select_ast_def select_value_def ops_value_def)
  have "yields parseSelect ((T_SELECT, ''SELECT'') # (T_ASTERISK, ''*'') # (T_FROM, ''FROM'') # (T_IDENTIFIER, c) # ?tail)
      (obj_put [(''$collection'', JStr c), (''$select'', select_value [''*'']), (''$onlyIds'', JBool (''_id'' \<in> set [''*'']))]
        ''$ops'' (ops_value [eq_operation [f] v])) ?eof"
    unfolding parseSelect_def
    by (rule yields_bind [OF s], rule yields_seq [OF yields_expect], rule yields_bind [OF yields_expect], rule yields_bind [OF joins])
      (simp only: if_False, rule yields_bind [OF w], rule yields_bind [OF g], rule l)
  then show ?thesis unfolding r by (simp add: select_kinds_def)
qed

lemma selection_parsed:
  assumes "plain_name c" and "plain_name f"
  shows "\<exists>statement. sql_template [select_head c f, []] [JStr v] = Inr statement \<and> parse_sql statement = Inr (select_ast c f v) \<and>
    statement = select_head c f @ CHR 0x27 # replace_all CHR 0x27 [CHR 0x27, CHR 0x27] v @ [CHR 0x27]"
proof -
  let ?st = "select_head c f @ CHR 0x27 # replace_all CHR 0x27 [CHR 0x27, CHR 0x27] v @ [CHR 0x27]"
  have st: "sql_template [select_head c f, []] [JStr v] = Inr ?st" by (simp add: sql_template_def sqlValue_def)
  have "quote_free w" if "plain_name w" for w
  proof -
    have "\<not> is_identifier_unit CHR 0x27" "\<not> is_identifier_unit CHR 0x22" by code_simp+
    then show ?thesis using that by (auto simp: plain_name_def plain_word_def quote_free_def list_all_iff)
  qed
  then have "sql_pieces [select_head c f, []]" using assms by (simp add: sql_pieces_def select_head_def quote_free_def)
  from sql_tag_tokens [OF this, of "[v]"] st head_kinds [OF assms]
  have k: "map kind_text (tokenize ?st) = select_kinds c f @ [(T_STRING, v), (T_EOF, [])]" by (simp add: piece_kinds_space)
  from yieldsD [OF yields_selection [OF assms] this] obtain ts' where "parseSelect (tokenize ?st) = (Inr (select_ast c f v), ts')"
    by blast
  moreover have "token_value (current_token (tokenize ?st)) = ''SELECT''"
    using current_kind [of "tokenize ?st" T_SELECT "''SELECT''"] k by (simp add: select_kinds_def)
  ultimately show ?thesis using st by (simp add: parse_sql_def Let_def)
qed

subsubsection \<open>The plan\<close>

lemma selection_prepared:
  assumes "plain_name c" and "plain_name f" and st: "statement = select_head c f @ CHR 0x27 # t @ [CHR 0x27]"
    and "parse_sql statement = Inr (select_ast c f v)"
  shows "\<exists>plan. prepare statement = Inr plan \<and> plan_sql plan = statement \<and> plan_operation plan = ''SELECT'' \<and>
    plan_ast plan = select_ast c f v \<and> \<not> plan_explain plan"
proof -
  have s: "statement = ''SELECT'' @ CHR '' '' # drop 7 statement" by (simp add: st select_head_def)
  have t: "trim statement = statement"
    by (rule trim_solid) (simp_all add: st select_head_def is_space_def solid_end_def)
  have words: "to_upper ''SELECT '' \<noteq> ''EXPLAIN''" "to_upper ''SELECT'' = ''SELECT''" "\<not> word_char CHR '' ''" by code_simp+
  have e: "explain_match statement = None"
    using words(1) by (subst s) (simp add: explain_match_def has_keyword_def)
  have o: "statement_operation statement = Some ''SELECT''"
    using words(2,3) by (subst s) (simp add: statement_operation_def has_keyword_def)
  have "accessPaths (JObj (select_ast c f v)) = Inr [access_step f [''$eq'']]"
    by (simp add: accessPaths_def get_prop_def obj_get_def select_ast_def eq_operation_def object_entries_def is_object_def
        object_keys_def)
  moreover have "statement \<noteq> []" by (simp add: st select_head_def)
  ultimately show ?thesis using t e o assms(4) by (simp add: prepare_def)
qed

subsubsection \<open>Merging what is found\<close>

lemma obj_put_same: "map_of ob k = Some v \<Longrightarrow> distinct (obj_keys ob) \<Longrightarrow> obj_put ob k v = ob"
proof -
  have "map_of ob k = Some v \<Longrightarrow> distinct (map fst ob) \<Longrightarrow> obj_update k v ob = ob"
    by (induction k v ob rule: obj_update.induct) (auto split: if_splits)
  then show "map_of ob k = Some v \<Longrightarrow> distinct (obj_keys ob) \<Longrightarrow> obj_put ob k v = ob"
    by (simp add: obj_put_def has_own_def obj_keys_def)
qed

lemma assign_same: "distinct (obj_keys ob) \<Longrightarrow> obj_assign ob ob = ob"
proof -
  assume d: "distinct (obj_keys ob)"
  have "foldl (\<lambda>acc e. obj_put acc (fst e) (snd e)) ob es = ob" if "set es \<subseteq> set ob" for es
    using that d by (induction es) (auto simp: obj_put_same obj_keys_def)
  then show ?thesis by (simp add: obj_assign_def)
qed

lemma map_of_reversed:
  assumes "distinct (map fst xs)"
  shows "map_of (rev xs) = map_of xs"
proof
  fix k
  have "map_of (rev xs) k = Some v \<longleftrightarrow> map_of xs k = Some v" for v
    using assms by (simp add: map_of_eq_Some_iff rev_map [symmetric])
  then show "map_of (rev xs) k = map_of xs k" by (metis not_Some_eq)
qed

lemma map_of_obj_of:
  assumes "distinct (obj_keys ob)"
  shows "map_of (obj_of ob) k = map_of ob k"
proof -
  have "map_of (obj_assign t es) k = (case map_of (rev es) k of Some v \<Rightarrow> Some v | None \<Rightarrow> map_of t k)" for t es
    unfolding obj_assign_def by (induction es arbitrary: t) (auto simp: map_of_obj_put map_add_Some_iff split: option.splits)
  with assms map_of_reversed [of ob] show ?thesis by (simp add: obj_of_def obj_keys_def split: option.split)
qed

lemma canonical_distinct: "canonical_obj ob \<Longrightarrow> distinct (obj_keys ob)"
  unfolding canonical_obj_def obj_of_def by (metis distinct_keys_assign distinct.simps(1) list.simps(8) obj_keys_def)

text \<open>The record of results holds live documents under their identifiers.\<close>

definition holds_docs :: "live_map \<Rightarrow> record_obj \<Rightarrow> bool" where
  "holds_docs D acc \<longleftrightarrow> distinct (obj_keys acc) \<and>
     (\<forall>d x. map_of acc d = Some x \<longrightarrow> (\<exists>ob. D d = Some ob \<and> x = JObj ob))"

lemma append_doc:
  assumes m: "maps_ok h D T" and acc: "holds_docs D acc" and D: "D d = Some ob"
  shows "\<exists>acc'. append_result (JObj acc) (JObj [(d, JObj ob)]) = Inr (JObj acc') \<and> holds_docs D acc' \<and>
    map_of acc' = (map_of acc)(d \<mapsto> JObj ob)"
proof -
  have c: "obj_of ob = ob" "distinct (obj_keys ob)"
    using maps_ok_live [OF m D] canonical_distinct by (auto simp: storable_def doc_ok_def canonical_obj_def)
  have dist: "distinct (obj_keys acc)" using acc by (simp add: holds_docs_def)
  let ?a = "obj_of acc"
  have a: "map_of ?a = map_of acc" "distinct (obj_keys ?a)"
    using map_of_obj_of [OF dist] distinct_keys_assign [of "[]" acc] by (auto simp: obj_of_def obj_keys_def)
  have "append_groups ?a [(d, JObj ob)] = Inr (obj_put ?a d (JObj ob))"
  proof (cases "has_own ?a d")
    case True
    then obtain x where x: "map_of acc d = Some x" by (auto simp: has_own_def a(1))
    then have "\<exists>o'. D d = Some o' \<and> x = JObj o'" using acc unfolding holds_docs_def by blast
    then have "obj_get ?a d = JObj ob" using D x a(1) by (simp add: obj_get_def)
    with True show ?thesis
      using c assign_same [OF c(2)]
      by (simp add: is_record_def js_truthy_def is_object_def is_array_def copySafeRecord_def object_entries_def obj_of_def safeRecord_def)
  next
    case False
    then show ?thesis using c(1)
      by (simp add: group_copy_def is_record_def js_truthy_def is_object_def is_array_def copySafeRecord_def object_entries_def
          obj_of_def safeRecord_def)
  qed
  then have "append_result (JObj acc) (JObj [(d, JObj ob)]) = Inr (JObj (obj_put ?a d (JObj ob)))"
    by (simp add: append_result_def is_object_def appendGroup_def copySafeRecord_def object_entries_def obj_of_def safeRecord_def)
  moreover have "holds_docs D (obj_put ?a d (JObj ob))"
    using acc D a distinct_keys_put by (auto simp: holds_docs_def map_of_obj_put)
  moreover have "map_of (obj_put ?a d (JObj ob)) = (map_of acc)(d \<mapsto> JObj ob)"
    using a(1) by (simp add: fun_eq_iff map_of_obj_put)
  ultimately show ?thesis by blast
qed

definition select_query :: "string \<Rightarrow> string \<Rightarrow> jsval" where
  "select_query f v = JObj [(''$select'', JUndef), (''$onlyIds'', JBool False), (''$ops'', JArr [JObj (eq_operation [f] v)])]"

lemma presented:
  "processDoc [(d, JObj ob)] (select_query f v) = Inr (JObj [(d, JObj ob)])"
proof -
  have g: "get_prop (select_query f v) k = (if k = ''$onlyIds'' then JBool False
      else if k = ''$ops'' then JArr [JObj (eq_operation [f] v)] else JUndef)" for k
    by (simp add: select_query_def get_prop_def obj_get_def)
  have "obj_assign [] [(d, JObj ob)] = [(d, JObj ob)]" "obj_put [(d, JObj ob)] d x = [(d, x)]" for x
    by (simp_all add: obj_assign_def obj_put_def obj_insert_def)
  then show ?thesis
    by (simp add: processDoc_def obj_keys_def copySafeRecord_def object_entries_def safeRecord_def shape_data_def has_length_def
        own_property_def g js_truthy_def)
qed

definition collect_doc :: "jsval \<Rightarrow> jsval \<Rightarrow> ('s, jsval) op" where
  "collect_doc docs data = of_result (append_result docs data)"

lemma collect_doc_run: "append_result docs data = Inr x \<Longrightarrow> collect_doc docs data w = (Inr x, w)"
  by (simp add: collect_doc_def)

lemma merged_docs:
  assumes m: "maps_ok h D T"
  shows "holds_docs D acc \<Longrightarrow>
    \<exists>acc'. present_each (select_query f v) collect_doc (found_docs D M ids) (JObj acc) w =
      (Inr (JObj acc'), w) \<and> holds_docs D acc' \<and>
      (\<forall>d. map_of acc' d = (if d \<in> set ids \<and> pred_option M (D d) \<and> D d \<noteq> None then map_option JObj (D d) else map_of acc d))"
proof (induction ids arbitrary: acc)
  case (Cons e ids)
  show ?case
  proof (cases "\<exists>ob. D e = Some ob \<and> M ob")
    case True
    then obtain ob where ob: "D e = Some ob" "M ob" by blast
    obtain acc1 where a: "append_result (JObj acc) (JObj [(e, JObj ob)]) = Inr (JObj acc1)" "holds_docs D acc1"
      "map_of acc1 = (map_of acc)(e \<mapsto> JObj ob)" using append_doc [OF m Cons.prems ob(1)] by blast
    from Cons.IH [OF a(2)] obtain acc' where b:
      "present_each (select_query f v) collect_doc (found_docs D M ids) (JObj acc1) w =
         (Inr (JObj acc'), w)" "holds_docs D acc'"
      "\<forall>d. map_of acc' d = (if d \<in> set ids \<and> pred_option M (D d) \<and> D d \<noteq> None then map_option JObj (D d) else map_of acc1 d)"
      by blast
    then show ?thesis using ob a(1,3) by (intro exI [of _ acc']) (auto simp: presented bind_op_def collect_doc_run)
  next
    case False
    then have "found_docs D M (e # ids) = found_docs D M ids" by (auto split: option.split)
    with Cons.IH [OF Cons.prems] False show ?thesis by auto
  qed
qed simp

subsubsection \<open>Running the statement\<close>

lemma searchable_ticks: "searchable env rs c D T (w\<lparr> ticks := n \<rparr>) \<longleftrightarrow> searchable env rs c D T w"
  by (simp add: searchable_def store_at_def base_at_def tree_at_def index_at_def)

lemma select_decides:
  "decides (select_query f v) (\<lambda>ob. loose_eq (getValueByPath (JObj ob) f) (JStr v)) D"
  by (simp add: decides_def matchesQuery_def matchesTimestamp_def select_query_def eq_operation_def get_prop_def obj_get_def
      query_ops_def js_truthy_def object_entries_def matchesOperand_def operand_operators_def operand_predicate_def)

lemma selection_executed:
  assumes w: "searchable env rs c D T w" and f: "plain_name f"
    and loose: "\<forall>d ob. D d = Some ob \<longrightarrow> loose_eq (getValueByPath (JObj ob) f) (JStr v) \<longrightarrow> leaf_at ob [f] = Some (JStr v)"
  shows "\<exists>docs u. execute_select env (select_ast c f v) w = (Inr (JObj docs), u) \<and> searchable env rs c D T u \<and>
    (\<forall>d. map_of docs d = (case D d of Some ob \<Rightarrow> if leaf_at ob [f] = Some (JStr v) then Some (JObj ob) else None | None \<Rightarrow> None))"
proof -
  let ?M = "\<lambda>ob. loose_eq (getValueByPath (JObj ob) f) (JStr v)"
  have m: "maps_ok (digest env) D T" using w mem.store_maps by (auto simp: searchable_def)
  have "is_identifier_unit c \<longrightarrow> c \<noteq> CHR ''/'' \<and> c \<noteq> CHR ''.''" for c
    by (auto simp: is_identifier_unit_def is_alnum_def is_letter_def is_lower_def is_upper_def is_digit_def Let_def)
  then have fn: "field_names [f]" using f by (auto simp: field_names_def plain_name_def plain_word_def list_all_iff)
  have "query_ops (select_query f v) = query_ops (eq_query [f] v)"
    by (simp add: query_ops_def select_query_def eq_query_def get_prop_def obj_get_def)
  then have serves: "index_serves (digest env) D ?M (select_query f v)"
    using eq_serves [OF m fn, of v] loose by (simp add: index_serves_def)
  have q: "is_object (select_query f v)" "limit_of (select_query f v) None"
    by (simp_all add: select_query_def is_object_def limit_of_def get_prop_def obj_get_def js_truthy_def)
  obtain ids u where r: "docResults env c (select_query f v) w = (Inr (found_docs D ?M ids), u)" "searchable env rs c D T u"
    "\<forall>d ob. D d = Some ob \<longrightarrow> ?M ob \<longrightarrow> d \<in> set ids"
    using search_run [OF w q(1) select_decides q(2) serves] by (auto simp: cut_def)
  have "holds_docs D []" by (simp add: holds_docs_def obj_keys_def)
  from merged_docs [OF m this, of f v ?M ids u] obtain docs where
    p: "present_each (select_query f v) collect_doc (found_docs D ?M ids) (JObj []) u = (Inr (JObj docs), u)"
    "\<forall>d. map_of docs d = (if d \<in> set ids \<and> pred_option ?M (D d) \<and> D d \<noteq> None then map_option JObj (D d) else None)"
    by auto
  have M: "?M ob \<longleftrightarrow> leaf_at ob [f] = Some (JStr v)" if "D d = Some ob" for d ob
    using loose that value_at_leaf [OF fn, of ob "JStr v"] loose_eq_self by auto
  have "(\<lambda>docs data. of_result (append_result docs data)) = (collect_doc :: jsval \<Rightarrow> jsval \<Rightarrow> (memory_fs world, jsval) op)"
    by (simp add: fun_eq_iff collect_doc_def)
  moreover have "obj_delete (select_ast c f v) ''$collection'' = [(''$select'', JUndef), (''$onlyIds'', JBool False),
      (''$ops'', JArr [JObj (eq_operation [f] v)])]"
    by (simp add: obj_delete_def select_ast_def)
  moreover have "obj_get (select_ast c f v) ''$collection'' = JStr c" "obj_get (select_ast c f v) ''$onlyIds'' = JBool False"
    by (simp_all add: select_ast_def)
  moreover have "default_query (select_query f v) = select_query f v" by (simp add: default_query_def select_query_def)
  ultimately have "execute_select env (select_ast c f v) w = (Inr (JObj docs), u)"
    using r(1) p(1) by (simp add: execute_select_def find_each_def bind_op_def js_truthy_def flip: select_query_def)
  moreover have "map_of docs d = (case D d of Some ob \<Rightarrow> if leaf_at ob [f] = Some (JStr v) then Some (JObj ob) else None | None \<Rightarrow> None)" for d
    using p(2) r(3) M [of d] by (cases "D d") auto
  ultimately show ?thesis using r(2) by blast
qed



text \<open>The facade adds nothing and loses nothing but error codes: for a collection and an identifier that are not blank every
  method is the method of the core run through the protocol, which reads the clock before and after it; a missing
  collection is reported by the same error, and any other error keeps its name and its message.\<close>

theorem facade_transparent:
  assumes "named c" and "named d"
  shows "browser_createCollection env elapsed c = through (createCollection env c) \<and>
    browser_dropCollection env elapsed c = through (dropCollection env c) \<and>
    browser_getLatest env elapsed c d onlyId = through (getLatest env c d onlyId) \<and>
    browser_putData env elapsed c (JObj data) None = through (bind_op (putData env c (JObj data) JUndef) (\<lambda>x. ret (JStr x))) \<and>
    browser_patchDoc env elapsed c (JObj new) (JObj old) = through (bind_op (patchDoc env c new old) (\<lambda>x. ret (JStr x))) \<and>
    browser_delDoc env elapsed c d = through (delDoc env c d) \<and>
    browser_restoreDoc env elapsed c d = through (restoreDoc env c d) \<and>
    browser_delDocs env elapsed c (JObj query) = through (bind_op (delDocs env c (JObj query)) (\<lambda>n. ret (num n))) \<and>
    crossed (CollectionNotFoundError c) = CollectionNotFoundError c \<and>
    (\<forall>e. err_name e \<noteq> [] \<longrightarrow> err_message e \<noteq> [] \<longrightarrow> err_code e \<noteq> Some ''FYLO_COLLECTION_NOT_FOUND'' \<longrightarrow>
      crossed e = JsError (err_name e) (err_message e) None)"
  by (simp add: browser_effects [OF assms] browser_documents(1) [OF assms] browser_collections [OF assms(1)]
      browser_restore [OF assms] crossed_not_found crossed_other)

theorem facade_transparent_witness:
  "browser_delDoc demo_core 0 ''users'' ''4VLN5QUCDP0'' = through (delDoc demo_core ''users'' ''4VLN5QUCDP0'') \<and>
   crossed (notFound ''/x'') = JsError ''MemoryFilesystemError'' ''No such file or directory: /x'' None"
proof -
  have "named ''users''" "named ''4VLN5QUCDP0''" unfolding named_def by code_simp+
  from facade_transparent [OF this, of demo_core 0] show ?thesis
    by (simp add: notFound_def MemoryFilesystemError_def)
qed

end
