(* ===== verification/Client.thy ===== *)
theory Client imports Facade begin

section \<open>The browser client (src/src/browser/client.js)\<close>

text \<open>
  \<open>BrowserFyloClient\<close> waits for the runtime once and sends its requests to the facade's \<open>request\<close>, which runs the
  handlers of the protocol against the facade itself.  Everything here is without a worker.
\<close>

subsection \<open>The facade as the object of the handlers\<close>

text \<open>
  The facade has no method \<open>executeSQL\<close>: its proxy answers that name with a collection facade, which cannot be
  called.  \<open>getDoc\<close>, \<open>findDocs\<close> and \<open>findDeletedDocs\<close> are those of the core.
\<close>

definition browser_api :: "'f core \<Rightarrow> f64 \<Rightarrow> 'f world fylo_api" where
  "browser_api env elapsed = \<lparr>
     api_executeSQL = (\<lambda>_. throw (js_type_error ''fylo.executeSQL is not a function'')),
     api_createCollection = browser_createCollection env elapsed,
     api_dropCollection = browser_dropCollection env elapsed,
     api_inspectCollection = browser_inspectCollection env elapsed,
     api_rebuildCollection = browser_rebuildCollection env elapsed,
     api_getDoc_once = getLatest env,
     api_getLatest = browser_getLatest env elapsed,
     api_getDocMeta = browser_getDocMeta env elapsed,
     api_setDocMetaRecord = browser_setDocMetaRecord env elapsed,
     api_findDocs = api_findDocs (core_api env elapsed),
     api_findDeletedDocs = api_findDeletedDocs (core_api env elapsed),
     api_join = browser_join env elapsed,
     api_putData = browser_putData env elapsed,
     api_batchPutData = (\<lambda>collection batch. browser_batchPutData env elapsed collection (JArr batch)),
     api_patchDoc = (\<lambda>collection newDoc oldDoc. browser_patchDoc env elapsed collection (JObj newDoc) (JObj oldDoc)),
     api_patchDocs = browser_patchDocs env elapsed,
     api_delDoc = browser_delDoc env elapsed,
     api_restoreDoc = browser_restoreDoc env elapsed,
     api_delDocs = browser_delDocs env elapsed \<rparr>"

definition browser_request :: "'f core \<Rightarrow> f64 \<Rightarrow> jsval \<Rightarrow> ('f world, jsval) op" where
  "browser_request env elapsed request = runBrowserRequest (browser_api env elapsed) request"

subsection \<open>The client\<close>

text \<open>The world and the outcome of the first \<open>ready\<close>, which is kept whatever it was.\<close>

record 'f client_world =
  cw_world :: "'f world"
  cw_ready :: "unit result option"

record 'f client =
  cl_core :: "'f core"
  cl_elapsed :: f64
  cl_browser_ready :: "('f world, unit) op"

definition on_world :: "('f world, 'a) op \<Rightarrow> ('f client_world, 'a) op" where
  "on_world m s = (case m (cw_world s) of (r, w) \<Rightarrow> (r, s\<lparr> cw_world := w \<rparr>))"

definition client_ready :: "'f client \<Rightarrow> ('f client_world, unit) op" where
  "client_ready cl s =
     (case cw_ready s of
        Some r \<Rightarrow> (r, s)
      | None \<Rightarrow> (case on_world (cl_browser_ready cl) s of (r, t) \<Rightarrow> (r, t\<lparr> cw_ready := Some r \<rparr>)))"

definition client_request :: "'f client \<Rightarrow> jsval \<Rightarrow> ('f client_world, jsval) op" where
  "client_request cl request =
     seq_op (client_ready cl) (on_world (browser_request (cl_core cl) (cl_elapsed cl) request))"

definition client_sql :: "'f client \<Rightarrow> string list \<Rightarrow> jsval list \<Rightarrow> ('f client_world, jsval) op" where
  "client_sql cl strings values =
     seq_op (client_ready cl) (on_world (createSqlTag (cl_core cl) (cl_elapsed cl) strings values))"

definition client_createCollection :: "'f client \<Rightarrow> string \<Rightarrow> ('f client_world, unit) op" where
  "client_createCollection cl collection =
     seq_op (client_ready cl) (on_world (browser_createCollection (cl_core cl) (cl_elapsed cl) collection))"

definition client_dropCollection :: "'f client \<Rightarrow> string \<Rightarrow> ('f client_world, unit) op" where
  "client_dropCollection cl collection =
     seq_op (client_ready cl) (on_world (browser_dropCollection (cl_core cl) (cl_elapsed cl) collection))"

definition client_inspectCollection :: "'f client \<Rightarrow> string \<Rightarrow> ('f client_world, jsval) op" where
  "client_inspectCollection cl collection =
     seq_op (client_ready cl) (on_world (browser_inspectCollection (cl_core cl) (cl_elapsed cl) collection))"

definition client_rebuildCollection :: "'f client \<Rightarrow> string \<Rightarrow> ('f client_world, jsval) op" where
  "client_rebuildCollection cl collection =
     seq_op (client_ready cl) (on_world (browser_rebuildCollection (cl_core cl) (cl_elapsed cl) collection))"

subsection \<open>Collections\<close>

text \<open>The result of a response, or an error with its message.\<close>

definition unwrap_response :: "string \<Rightarrow> jsval \<Rightarrow> jsval result" where
  "unwrap_response fallback res =
     (if js_truthy (get_prop res ''ok'') then Inr (get_prop res ''result'')
      else Inl (plain_error (let m = get_prop (get_prop res ''error'') ''message'' in
        if is_nullish m then fallback else js_to_string m)))"

definition direct_req :: "'f client \<Rightarrow> string \<Rightarrow> string \<Rightarrow> record_obj \<Rightarrow> ('f client_world, jsval) op" where
  "direct_req cl collection operation fields' =
     seq_op (client_ready cl)
       (bind_op (client_request cl (JObj (obj_assign (call_on operation collection []) fields')))
         (\<lambda>res. of_result (unwrap_response ''browser request failed'' res)))"

definition direct_put :: "'f client \<Rightarrow> string \<Rightarrow> jsval \<Rightarrow> ('f client_world, jsval) op" where
  "direct_put cl collection data = direct_req cl collection ''putData'' [(''data'', data)]"

definition direct_put_as :: "'f client \<Rightarrow> string \<Rightarrow> string \<Rightarrow> jsval \<Rightarrow> jsval option \<Rightarrow> ('f client_world, jsval) op" where
  "direct_put_as cl collection docId data meta =
     direct_req cl collection ''putData'' ((''data'', JObj [(docId, data)]) #
       (case meta of Some m \<Rightarrow> [(''meta'', m)] | None \<Rightarrow> []))"

definition direct_setMeta :: "'f client \<Rightarrow> string \<Rightarrow> string \<Rightarrow> jsval \<Rightarrow> ('f client_world, jsval) op" where
  "direct_setMeta cl collection docId meta = direct_req cl collection ''setMeta'' [(''id'', JStr docId), (''meta'', meta)]"

definition direct_batchPut :: "'f client \<Rightarrow> string \<Rightarrow> jsval \<Rightarrow> ('f client_world, jsval) op" where
  "direct_batchPut cl collection batch = direct_req cl collection ''batchPutData'' [(''batch'', batch)]"

definition direct_patch :: "'f client \<Rightarrow> string \<Rightarrow> string \<Rightarrow> jsval \<Rightarrow> jsval \<Rightarrow> ('f client_world, jsval) op" where
  "direct_patch cl collection docId patch oldDoc =
     direct_req cl collection ''patchDoc'' [(''newDoc'', JObj [(docId, patch)]), (''oldDoc'', oldDoc)]"

definition direct_patchMany :: "'f client \<Rightarrow> string \<Rightarrow> jsval \<Rightarrow> ('f client_world, jsval) op" where
  "direct_patchMany cl collection update = direct_req cl collection ''patchDocs'' [(''update'', update)]"

definition direct_delete :: "'f client \<Rightarrow> string \<Rightarrow> string \<Rightarrow> ('f client_world, unit) op" where
  "direct_delete cl collection docId = to_unit (direct_req cl collection ''delDoc'' [(''id'', JStr docId)])"

definition direct_deleteMany :: "'f client \<Rightarrow> string \<Rightarrow> jsval \<Rightarrow> ('f client_world, jsval) op" where
  "direct_deleteMany cl collection query = direct_req cl collection ''delDocs'' [(''query'', query)]"

definition direct_restore :: "'f client \<Rightarrow> string \<Rightarrow> string \<Rightarrow> ('f client_world, jsval) op" where
  "direct_restore cl collection docId =
     bind_op (direct_req cl collection ''restoreDoc'' [(''id'', JStr docId)]) (\<lambda>res.
       ret (if is_nullish (get_prop res ''id'') then res else get_prop res ''id''))"

definition direct_once :: "'f client \<Rightarrow> string \<Rightarrow> string \<Rightarrow> bool \<Rightarrow> ('f client_world, jsval) op" where
  "direct_once cl collection docId onlyId =
     bind_op (client_request cl (JObj (call_on ''getDoc'' collection [(''id'', JStr docId), (''onlyId'', JBool onlyId)])))
       (\<lambda>res. of_result (unwrap_response ''browser getDoc failed'' res))"

definition direct_latest :: "'f client \<Rightarrow> string \<Rightarrow> string \<Rightarrow> bool \<Rightarrow> ('f client_world, jsval) op" where
  "direct_latest cl collection docId onlyId =
     direct_req cl collection ''getLatest'' [(''id'', JStr docId), (''onlyId'', JBool onlyId)]"

text \<open>The values the iterators over results yield.\<close>

definition result_values :: "jsval \<Rightarrow> jsval list" where
  "result_values docs =
     (case docs of JArr ids \<Rightarrow> ids | JObj ob \<Rightarrow> map (\<lambda>(docId, doc). JObj [(docId, doc)]) ob | _ \<Rightarrow> [])"

definition direct_find :: "'f client \<Rightarrow> string \<Rightarrow> jsval \<Rightarrow> ('f client_world, jsval list) op" where
  "direct_find cl collection query =
     bind_op (client_request cl (JObj (call_on ''findDocs'' collection [(''query'', query)]))) (\<lambda>res.
     bind_op (of_result (unwrap_response ''browser findDocs failed'' res)) (\<lambda>docs. ret (result_values docs)))"

subsection \<open>A request through both layers\<close>

lemma request_run:
  "browser_request env elapsed (JObj request) w =
     (case executeBrowserOperation (browser_api env elapsed) (JObj request) (tick w) of
        (Inr x, v) \<Rightarrow> (Inr (JObj (response_head True (obj_get request ''op'') request (clock v (ticks v) - clock w (ticks w)) @ [(''result'', x)])), tick v)
      | (Inl e, v) \<Rightarrow> (Inr (JObj (response_head False (failed_op request) request (clock v (ticks v) - clock w (ticks w)) @
          [(''error'', JObj (error_body e))])), tick v))"
proof -
  obtain outcome v where r: "executeBrowserOperation (browser_api env elapsed) (JObj request) (tick w) = (outcome, v)" by fastforce
  then show ?thesis
    by (cases outcome) (simp_all add: browser_request_def runBrowserRequest_def bind_op_def catch_op_def date_now_def
        Let_def tick_def fields_of_def)
qed

definition readied :: "'f client_world \<Rightarrow> bool" where
  "readied s \<longleftrightarrow> cw_ready s = Some (Inr ())"

lemma client_ready_run: "readied s \<Longrightarrow> client_ready cl s = (Inr (), s)"
  by (simp add: readied_def client_ready_def)

text \<open>\<open>deleteMany\<close> of the client never deletes anything: it sends the query under the name \<open>query\<close> while the handler
  requires it under \<open>delete\<close>, so for every query the call fails with the same error and the disk, the index and
  the listeners are untouched.\<close>

theorem deleteMany_always_fails:
  assumes "readied s" and "named c"
  shows "\<exists>t. direct_deleteMany cl c query s =
      (Inl (plain_error ''FYLO browser request field \"delete\" must be an object''), t) \<and>
    disk (cw_world t) = disk (cw_world s) \<and> index (cw_world t) = index (cw_world s) \<and>
    dispatched (cw_world t) = dispatched (cw_world s)"
proof -
  let ?r = "[(''op'', JStr ''delDocs''), (''collection'', JStr c), (''query'', query)]" and ?w = "cw_world s"
  have "obj_assign (call_on ''delDocs'' c []) [(''query'', query)] = ?r"
    by (simp add: obj_assign_def call_on_def obj_put_def obj_insert_def is_index_key_def is_digit_def)
  moreover have "executeBrowserOperation (browser_api (cl_core cl) (cl_elapsed cl)) (JObj ?r) (tick ?w) =
      (Inl (field_error ''delete'' ''an object''), tick ?w)"
    using assms(2) by (simp add: executeBrowserOperation_def isBrowserRequest_def isRecord_def is_object_def is_array_def is_string_def
        get_prop_def BROWSER_OPERATIONS_def fields_of_def on_collection_def requireString_def requireObject_def named_def
        run_delDocs_def bind_op_def)
  ultimately show ?thesis
    using client_ready_run [OF assms(1), of cl]
    by (simp add: direct_deleteMany_def direct_req_def client_request_def seq_op_def bind_op_def on_world_def request_run
        unwrap_response_def get_prop_def response_head_def js_truthy_def error_body_def field_error_def is_nullish_def tick_def Let_def)
qed

text \<open>An SQL request through the client fails as well, where \<open>sql\<close> and \<open>_sql\<close> run it.\<close>

lemma request_executeSQL_fails:
  "named sql \<Longrightarrow> executeBrowserOperation (browser_api env elapsed) (JObj [(''op'', JStr ''executeSQL''), (''sql'', JStr sql)]) w =
     (Inl (js_type_error ''fylo.executeSQL is not a function''), w)"
  by (simp add: executeBrowserOperation_def isBrowserRequest_def isRecord_def is_object_def is_array_def is_string_def
      get_prop_def BROWSER_OPERATIONS_def fields_of_def requireString_def named_def browser_api_def bind_op_def)

theorem deleteMany_always_fails_witness:
  "\<exists>t. direct_deleteMany \<lparr> cl_core = demo_core, cl_elapsed = 0, cl_browser_ready = ret () \<rparr> ''users'' (JObj [])
      \<lparr> cw_world = demo_world, cw_ready = Some (Inr ()) \<rparr> =
    (Inl (plain_error ''FYLO browser request field \"delete\" must be an object''), t) \<and> disk (cw_world t) = disk demo_world"
proof -
  have "named ''users''" unfolding named_def by code_simp
  moreover have "readied \<lparr> cw_world = demo_world, cw_ready = Some (Inr ()) \<rparr>" by (simp add: readied_def)
  ultimately show ?thesis
    using deleteMany_always_fails [where cl = "\<lparr> cl_core = demo_core, cl_elapsed = 0, cl_browser_ready = ret () \<rparr>" and c = "''users''"
        and query = "JObj []" and s = "\<lparr> cw_world = demo_world, cw_ready = Some (Inr ()) \<rparr>"]
    by (simp only: client_world.simps simp_thms) blast
qed

end
