(* ===== verification/Kernel.thy ===== *)
theory Kernel imports IndexLaws begin

section \<open>The portable scanner (src/crates/fylo-query/src/lib.rs)\<close>

text \<open>
  The part of the crate the WebAssembly scanner runs: the validation of a snapshot, the binary search,
  the scan of one constraint, the intersection of several and the encoding of the result.  A Rust
  \<open>String\<close> is the list of its bytes.  Errors are their codes; the messages are left out.  The JSON decoder of
  \<open>serde\<close> is the argument \<open>from_slice\<close>.
\<close>

subsection \<open>Limits, queries and errors\<close>

datatype query_error_code =
  InputTooLarge | InvalidQuery | EmptyQuery | TooManyQueries | TermTooLarge | SnapshotTooLarge | KeyTooLarge
| InvalidSnapshot | UnsortedSnapshot | TooManyMatches | OutputTooLarge

record query_limits =
  max_snapshot_bytes :: nat
  max_key_bytes :: nat
  max_queries :: nat
  max_term_bytes :: nat
  max_input_bytes :: nat
  max_matches :: nat
  max_output_bytes :: nat

definition default_limits :: query_limits where
  "default_limits = \<lparr> max_snapshot_bytes = 256 * 1024 * 1024, max_key_bytes = 8 * 1024, max_queries = 64,
     max_term_bytes = 8 * 1024, max_input_bytes = 1024 * 1024, max_matches = 1000000, max_output_bytes = 64 * 1024 * 1024 \<rparr>"

datatype range_operator = GreaterThan | GreaterThanOrEqual | LessThan | LessThanOrEqual

record scan_query =
  scan_prefix :: bytes
  scan_range :: "(range_operator \<times> bytes) option"

subsection \<open>Snapshots\<close>

fun check_keys :: "query_limits \<Rightarrow> bytes option \<Rightarrow> bytes list \<Rightarrow> query_error_code + unit" where
  "check_keys limits previous [] = Inr ()"
| "check_keys limits previous (key # keys) =
     (if key = [] then check_keys limits previous keys
      else if length key > max_key_bytes limits then Inl KeyTooLarge
      else if CHR 0x00 \<in> set key \<or> CHR 0x0D \<in> set key then Inl InvalidSnapshot
      else if (case previous of None \<Rightarrow> False | Some prior \<Rightarrow> prior \<ge> key) then Inl UnsortedSnapshot
      else check_keys limits (Some key) keys)"

definition from_bytes :: "query_limits \<Rightarrow> bytes \<Rightarrow> query_error_code + bytes" where
  "from_bytes limits bs =
     (if length bs > max_snapshot_bytes limits then Inl SnapshotTooLarge
      else case check_keys limits None (split_on newline bs) of Inl e \<Rightarrow> Inl e | Inr _ \<Rightarrow> Inr bs)"

function seek :: "bytes \<Rightarrow> bytes \<Rightarrow> nat \<Rightarrow> nat \<Rightarrow> nat" where
  "seek snap pre low high =
     (if low < high then
        (let middle = (low + high) div 2; st = line_start snap middle; en = line_end snap middle
         in if slice st en snap < pre then seek snap pre (en + 1) high else seek snap pre low st)
      else low)"
  by pat_completeness auto

termination
proof (relation "measure (\<lambda>(snap, pre, low, high). high - low)", goal_cases)
  case (2 snap pre low high middle st en)
  have "middle \<le> en" using line_end_ge [of middle snap] 2 by simp
  with 2 show ?case by (auto simp: less_Suc_eq_le)
next
  case (3 snap pre low high middle st en)
  have "st \<le> middle" using line_start_le [of snap middle] 3 by simp
  moreover have "middle < high" using 3 by auto
  ultimately show ?case using 3(1) by auto
qed auto

declare seek.simps [simp del]

definition find_first_key_at_or_after :: "bytes \<Rightarrow> bytes \<Rightarrow> nat" where
  "find_first_key_at_or_after snap pre =
     (if snap = [] then 0
      else let low = seek snap pre 0 (length snap)
           in if low < length snap then line_start snap low else low)"

definition include_key_in_range :: "bytes \<Rightarrow> (range_operator \<times> bytes) option \<Rightarrow> bool" where
  "include_key_in_range key bound =
     (case bound of None \<Rightarrow> True
      | Some (operator, threshold) \<Rightarrow>
         (case last_index_of CHR ''/'' key of None \<Rightarrow> False
          | Some at \<Rightarrow>
             (case last_index_of CHR ''/'' (take at key) of None \<Rightarrow> False
              | Some previous \<Rightarrow> let value = slice (previous + 1) at key
                 in (case operator of GreaterThan \<Rightarrow> value > threshold | LessThan \<Rightarrow> value > threshold
                     | GreaterThanOrEqual \<Rightarrow> value \<ge> threshold | LessThanOrEqual \<Rightarrow> value \<ge> threshold))))"

subsection \<open>Scanning\<close>

text \<open>\<open>matches\<close> and \<open>seen\<close> hold the same identifiers, so one list stands for both.\<close>

function scan_from :: "bytes \<Rightarrow> scan_query \<Rightarrow> query_limits \<Rightarrow> nat \<Rightarrow> bytes list \<Rightarrow> query_error_code + bytes list" where
  "scan_from snap query limits cursor found =
     (if cursor < length snap then
        (let en = line_end snap cursor; key = slice cursor en snap
         in if \<not> starts_with (scan_prefix query) key then Inr found
            else (case (if include_key_in_range key (scan_range query) then last_index_of CHR ''/'' key else None) of
                Some separator \<Rightarrow>
                  (let docId = drop (separator + 1) key
                   in if docId \<noteq> [] \<and> docId \<notin> set found then
                        (if length found \<ge> max_matches limits then Inl TooManyMatches
                         else scan_from snap query limits (en + 1) (found @ [docId]))
                      else scan_from snap query limits (en + 1) found)
              | None \<Rightarrow> scan_from snap query limits (en + 1) found))
      else Inr found)"
  by pat_completeness auto

termination
proof -
  have less: "c < Suc (line_end b c)" for b c using line_end_ge [of c b] by simp
  show ?thesis by (relation "measure (\<lambda>(snap, query, limits, cursor, found). length snap - cursor)") (auto intro!: diff_less_mono2 less)
qed

declare scan_from.simps [simp del]

definition scan_one :: "bytes \<Rightarrow> scan_query \<Rightarrow> query_limits \<Rightarrow> query_error_code + bytes list" where
  "scan_one snap query limits = scan_from snap query limits (find_first_key_at_or_after snap (scan_prefix query)) []"

fun check_terms :: "query_limits \<Rightarrow> scan_query list \<Rightarrow> query_error_code + unit" where
  "check_terms limits [] = Inr ()"
| "check_terms limits (query # queries) =
     (if length (scan_prefix query) > max_term_bytes limits then Inl TermTooLarge
      else if (case scan_range query of None \<Rightarrow> False | Some (_, value) \<Rightarrow> length value > max_term_bytes limits) then Inl TermTooLarge
      else check_terms limits queries)"

definition validate_queries :: "query_limits \<Rightarrow> scan_query list \<Rightarrow> query_error_code + unit" where
  "validate_queries limits queries =
     (if queries = [] then Inl EmptyQuery
      else if length queries > max_queries limits then Inl TooManyQueries
      else check_terms limits queries)"

fun scan_all :: "bytes \<Rightarrow> query_limits \<Rightarrow> scan_query list \<Rightarrow> bytes list option \<Rightarrow> query_error_code + bytes list" where
  "scan_all snap limits [] candidates = Inr (case candidates of None \<Rightarrow> [] | Some ids \<Rightarrow> ids)"
| "scan_all snap limits (query # queries) candidates =
     (case scan_one snap query limits of
        Inl e \<Rightarrow> Inl e
      | Inr next \<Rightarrow> scan_all snap limits queries (Some (case candidates of
            None \<Rightarrow> next | Some current \<Rightarrow> filter (\<lambda>docId. docId \<in> set next) current)))"

definition snapshot_scan :: "bytes \<Rightarrow> scan_query list \<Rightarrow> query_limits \<Rightarrow> query_error_code + bytes list" where
  "snapshot_scan snap queries limits =
     (case validate_queries limits queries of Inl e \<Rightarrow> Inl e | Inr _ \<Rightarrow> scan_all snap limits queries None)"

definition scan_encoded :: "bytes \<Rightarrow> scan_query list \<Rightarrow> query_limits \<Rightarrow> query_error_code + bytes" where
  "scan_encoded snap queries limits =
     (case snapshot_scan snap queries limits of
        Inl e \<Rightarrow> Inl e
      | Inr found \<Rightarrow>
          (let required = sum_list (map (\<lambda>docId. length docId + 1) found)
           in if required > max_output_bytes limits then Inl OutputTooLarge
              else Inr (concat (map (\<lambda>docId. docId @ [newline]) found))))"

definition parse_queries :: "(bytes \<Rightarrow> scan_query list option) \<Rightarrow> query_limits \<Rightarrow> bytes \<Rightarrow> query_error_code + scan_query list" where
  "parse_queries from_slice limits input =
     (if length input > max_input_bytes limits then Inl InputTooLarge
      else case from_slice input of
        None \<Rightarrow> Inl InvalidQuery
      | Some queries \<Rightarrow> (case validate_queries limits queries of Inl e \<Rightarrow> Inl e | Inr _ \<Rightarrow> Inr queries))"

subsection \<open>The kernel and the search in JavaScript\<close>

lemma last_index_of_cases:
  obtains "last_index_of c s = None" "c \<notin> set s"
  | a b where "s = a @ c # b" "c \<notin> set b" "last_index_of c s = Some (length a)"
proof (cases "c \<in> set s")
  case True
  then obtain a b where "s = a @ c # b" "c \<notin> set b" by (meson split_list_last)
  then show ?thesis using last_index_of_append that(2) by blast
next
  case False
  then have "last_index_of c s = None"
    by (metis (no_types, lifting) index_of_None last_index_of_def option.map_disc_iff set_rev)
  with False show ?thesis using that(1) by blast
qed

lemma split_on_last: "c \<notin> set b \<Longrightarrow> split_on c (a @ c # b) = split_on c a @ [b]"
  by (simp add: split_on_append_sep split_on_no_sep)

lemma key_doc_separator: "last_index_of CHR ''/'' k = Some i \<Longrightarrow> drop (i + 1) k = key_doc k"
  by (rule last_index_of_cases [of "CHR ''/''" k]) (auto simp: key_doc_def split_on_last)

definition kernel_operator :: "range_op \<Rightarrow> range_operator" where
  "kernel_operator op = (case op of Gt \<Rightarrow> GreaterThan | Gte \<Rightarrow> GreaterThanOrEqual | Lt \<Rightarrow> LessThan | Lte \<Rightarrow> LessThanOrEqual)"

definition kernel_bound :: "range_bound option \<Rightarrow> (range_operator \<times> bytes) option" where
  "kernel_bound = map_option (\<lambda>r. (kernel_operator (range_op r), utf8_encode (range_value r)))"

definition kernel_query :: "string \<Rightarrow> range_bound option \<Rightarrow> scan_query" where
  "kernel_query full bound = \<lparr> scan_prefix = utf8_encode full, scan_range = kernel_bound bound \<rparr>"

definition ascii_bound :: "range_bound option \<Rightarrow> bool" where
  "ascii_bound bound \<longleftrightarrow> (case bound of None \<Rightarrow> True | Some r \<Rightarrow> is_ascii (range_value r))"

lemma include_agrees:
  assumes "k = a @ CHR ''/'' # v @ CHR ''/'' # d" "CHR ''/'' \<notin> set v" "CHR ''/'' \<notin> set d" "ascii_bound bound"
  shows "include_key_in_range k (kernel_bound bound) = includeKeyInRange k bound"
proof (cases bound)
  case (Some r)
  have k: "k = (a @ CHR ''/'' # v) @ CHR ''/'' # d" using assms(1) by simp
  have last: "last_index_of CHR ''/'' k = Some (length (a @ CHR ''/'' # v))"
    unfolding k using assms(3) by (rule last_index_of_append)
  have prev: "last_index_of CHR ''/'' (a @ CHR ''/'' # v) = Some (length a)" using assms(2) by (rule last_index_of_append)
  have split: "split_on CHR ''/'' k = split_on CHR ''/'' a @ [v, d]"
    unfolding k using assms(2,3) by (simp add: split_on_last split_on_append_sep split_on_no_sep)
  have "rangeValueFromKey k = v" by (simp add: rangeValueFromKey_def split Let_def nth_append)
  moreover have "slice (length a + 1) (length (a @ CHR ''/'' # v)) k = v" by (simp add: k slice_def)
  moreover have "take (length (a @ CHR ''/'' # v)) k = a @ CHR ''/'' # v" by (simp add: k)
  ultimately show ?thesis
    using last prev assms(4) Some
    by (cases "range_op r") (simp_all add: include_key_in_range_def includeKeyInRange_def kernel_bound_def kernel_operator_def
        ascii_bound_def utf8_encode_ascii Let_def)
qed (simp add: include_key_in_range_def includeKeyInRange_def kernel_bound_def)

lemma key_parts:
  assumes "starts_with (index_prefix p knd v) k"
  obtains a u d where "k = a @ CHR ''/'' # u @ CHR ''/'' # d" "CHR ''/'' \<notin> set u" "CHR ''/'' \<notin> set d"
proof -
  obtain x y z where k: "k = x @ CHR ''/'' # y @ CHR ''/'' # z"
    using assms by (auto simp: index_prefix_def starts_with_iff_prefix prefix_def)
  from k have "CHR ''/'' \<in> set k" by simp
  then obtain b d where bd: "k = b @ CHR ''/'' # d" "CHR ''/'' \<notin> set d" by (meson split_list_last)
  have "CHR ''/'' \<in> set b"
  proof (rule ccontr)
    assume "CHR ''/'' \<notin> set b"
    then have "count_list k CHR ''/'' = 1" using bd by (simp add: count_list_append count_list_0_iff)
    with k show False by (simp add: count_list_append)
  qed
  then obtain a u where "b = a @ CHR ''/'' # u" "CHR ''/'' \<notin> set u" by (meson split_list_last)
  with bd that show ?thesis by simp
qed

text \<open>On ASCII text the search over bytes is the search over decoded keys.\<close>

lemma is_ascii_slice: "is_ascii bs \<Longrightarrow> is_ascii (slice a b bs)"
  unfolding slice_def is_ascii_def list_all_iff by (meson in_set_dropD in_set_takeD)

lemma seek_search: "is_ascii bs \<Longrightarrow> seek bs pre lo hi = search_loop bs pre lo hi"
proof (induction bs pre lo hi rule: seek.induct)
  case (1 bs pre lo hi)
  then show ?case
    by (subst seek.simps, subst search_loop.simps) (simp add: Let_def is_ascii_slice utf8_decode_ascii)
qed

lemma is_ascii_lines: "\<forall>k\<in>set ks. line_safe k \<Longrightarrow> is_ascii (lines_text ks)"
  by (induction ks) (auto simp: line_safe_def)

lemma find_first_agrees:
  "\<forall>k\<in>set ks. line_safe k \<Longrightarrow> find_first_key_at_or_after (lines_text ks) pre = findFirstKeyAtOrAfter (lines_text ks) pre"
  by (simp add: find_first_key_at_or_after_def findFirstKeyAtOrAfter_def seek_search is_ascii_lines)

text \<open>The scan, over the list of keys.\<close>

fun scan_keys :: "scan_query \<Rightarrow> query_limits \<Rightarrow> string list \<Rightarrow> bytes list \<Rightarrow> query_error_code + bytes list" where
  "scan_keys query limits [] found = Inr found"
| "scan_keys query limits (key # keys) found =
     (if \<not> starts_with (scan_prefix query) key then Inr found
      else case (if include_key_in_range key (scan_range query) then last_index_of CHR ''/'' key else None) of
          Some separator \<Rightarrow>
            (let docId = drop (separator + 1) key
             in if docId \<noteq> [] \<and> docId \<notin> set found then
                  (if length found \<ge> max_matches limits then Inl TooManyMatches
                   else scan_keys query limits keys (found @ [docId]))
                else scan_keys query limits keys found)
        | None \<Rightarrow> scan_keys query limits keys found)"

lemma scan_from_lines:
  assumes "\<forall>k\<in>set ks. line_safe k"
  shows "i \<le> length ks \<Longrightarrow>
    scan_from (lines_text ks) query limits (line_offset ks i) found = scan_keys query limits (drop i ks) found"
proof (induction "length ks - i" arbitrary: i found)
  case 0
  then have "i = length ks" by simp
  moreover have "scan_from (lines_text ks) query limits (length (lines_text ks)) found = Inr found"
    by (subst scan_from.simps) simp
  ultimately show ?case by simp
next
  case (Suc n)
  then have len: "i < length ks" by simp
  have no: "\<forall>k\<in>set ks. newline \<notin> set k" using assms by (simp add: line_safe_def)
  note at = line_at [OF no len order_refl, simplified]
  have "line_offset ks i < length (lines_text ks)" using line_offset_mono [of i "length ks" ks] len by simp
  moreover have "scan_from (lines_text ks) query limits (line_offset ks (Suc i)) f = scan_keys query limits (drop (Suc i) ks) f" for f
    using Suc by (intro Suc(1)) auto
  moreover have "drop i ks = ks ! i # drop (Suc i) ks" using len by (simp add: Cons_nth_drop_Suc)
  ultimately show ?case
    using at line_offset_Suc [OF len]
    by (subst scan_from.simps) (simp add: Let_def split: option.split)
qed

lemma foldl_push_new_length: "length xs \<le> length (foldl push_new xs ys)"
proof (induction ys arbitrary: xs)
  case (Cons y ys)
  have "length xs \<le> length (push_new xs y)" by (simp add: push_new_def)
  with Cons [of "push_new xs y"] show ?case by simp
qed simp

lemma push_new_cases: "x \<in> set xs \<Longrightarrow> push_new xs x = xs" "x \<notin> set xs \<Longrightarrow> push_new xs x = xs @ [x]"
  by (simp_all add: push_new_def)

lemma scan_keys_found:
  assumes "\<forall>k\<in>set keys. starts_with (index_prefix p knd v) k \<longrightarrow> good_key k"
    and "scan_prefix query = index_prefix p knd v" "scan_range query = kernel_bound bound" "ascii_bound bound"
  shows "length found \<le> max_matches limits \<Longrightarrow> scan_keys query limits keys found =
    (let ids = foldl push_new found (map key_doc (filter (\<lambda>k. includeKeyInRange k bound)
        (takeWhile (starts_with (index_prefix p knd v)) keys)))
     in if length ids \<le> max_matches limits then Inr ids else Inl TooManyMatches)"
  using assms(1)
proof (induction keys arbitrary: found)
  case (Cons k ks)
  show ?case
  proof (cases "starts_with (index_prefix p knd v) k")
    case True
    obtain a u d where k: "k = a @ CHR ''/'' # u @ CHR ''/'' # d" "CHR ''/'' \<notin> set u" "CHR ''/'' \<notin> set d"
      using key_parts [OF True] by blast
    have "k = (a @ CHR ''/'' # u) @ CHR ''/'' # d" using k(1) by simp
    then have at: "last_index_of CHR ''/'' k = Some (length (a @ CHR ''/'' # u))"
      using last_index_of_append [OF k(3), of "a @ CHR ''/'' # u"] by simp
    have doc: "key_doc k \<noteq> []" "drop (length (a @ CHR ''/'' # u) + 1) k = key_doc k"
      using Cons.prems(2) True key_doc_separator [OF at] by (auto simp: good_key_def isTTID_def)
    have inc: "include_key_in_range k (kernel_bound bound) = includeKeyInRange k bound"
      by (rule include_agrees [OF k assms(4)])
    have ih: "scan_keys query limits ks f = (let ids = foldl push_new f (map key_doc (filter (\<lambda>k. includeKeyInRange k bound)
        (takeWhile (starts_with (index_prefix p knd v)) ks)))
     in if length ids \<le> max_matches limits then Inr ids else Inl TooManyMatches)" if "length f \<le> max_matches limits" for f
      using Cons.IH [OF that] Cons.prems(2) by simp
    show ?thesis
    proof (cases "includeKeyInRange k bound \<and> key_doc k \<notin> set found")
      case False
      then show ?thesis
        using True at doc inc ih [OF Cons.prems(1)] assms(2,3)
        by (cases "includeKeyInRange k bound") (simp_all add: Let_def push_new_cases)
    next
      case new: True
      show ?thesis
      proof (cases "length found < max_matches limits")
        case True
        then have "length (found @ [key_doc k]) \<le> max_matches limits" by simp
        with ih True new show ?thesis
          using \<open>starts_with _ k\<close> at doc inc assms(2,3) by (simp add: Let_def push_new_cases)
      next
        case False
        have "\<not> length (foldl push_new (found @ [key_doc k]) ys) \<le> max_matches limits" for ys
          using foldl_push_new_length [of "found @ [key_doc k]" ys] False by simp
        with new False show ?thesis
          using \<open>starts_with _ k\<close> at doc inc assms(2,3) by (simp add: Let_def push_new_cases)
      qed
    qed
  qed (simp add: assms(2) Cons.prems)
qed simp

lemma scan_one_agrees:
  assumes "\<forall>k\<in>set ks. good_key k" "sorted ks" "is_ascii (index_prefix p knd v)" "ascii_bound bound"
  shows "scan_one (serializeSnapshot ks) (kernel_query (index_prefix p knd v) bound) limits =
    (let ids = foldl push_new [] (map key_doc (filter (key_matches p \<lparr> kind = knd, valuePrefix = v, range = bound \<rparr>) ks))
     in if length ids \<le> max_matches limits then Inr ids else Inl TooManyMatches)"
proof -
  let ?full = "index_prefix p knd v" and ?c = "length (takeWhile (\<lambda>k. k < index_prefix p knd v) ks)"
  have safe: "\<forall>k\<in>set ks. line_safe k" using assms(1) by (simp add: good_key_def)
  have q: "kernel_query ?full bound = \<lparr> scan_prefix = ?full, scan_range = kernel_bound bound \<rparr>"
    using assms(3) by (simp add: kernel_query_def utf8_encode_ascii)
  have "scan_one (serializeSnapshot ks) (kernel_query ?full bound) limits =
      scan_keys (kernel_query ?full bound) limits (filter (\<lambda>k. ?full \<le> k) ks) []"
    using scan_from_lines [OF safe length_takeWhile_le]
    by (simp add: scan_one_def serializeSnapshot_lines find_first_agrees [OF safe] find_first_key [OF safe assms(2)] q
        drop_takeWhile_less [OF assms(2)])
  also have "\<dots> = (let ids = foldl push_new [] (map key_doc (filter (\<lambda>k. includeKeyInRange k bound)
        (takeWhile (starts_with ?full) (filter (\<lambda>k. ?full \<le> k) ks))))
     in if length ids \<le> max_matches limits then Inr ids else Inl TooManyMatches)"
    using assms(1,4) by (intro scan_keys_found) (auto simp: q)
  finally show ?thesis
    by (simp add: takeWhile_prefix [OF assms(2)] key_matches_def [abs_def])
qed

lemma concat_lines: "concat (map (\<lambda>d. d @ [newline]) ids) = lines_text ids"
  "sum_list (map (\<lambda>d. Suc (length d)) ids) = length (lines_text ids)"
  by (induction ids) simp_all

lemma key_matches_entry [simp]:
  "key_matches p \<lparr> kind = kind entry, valuePrefix = valuePrefix entry, range = range entry \<rparr> = key_matches p entry"
  by (simp add: key_matches_def [abs_def])

lemma scan_encoded_agrees:
  assumes "\<forall>k\<in>set ks. good_key k" "sorted ks" "is_ascii (index_prefix p (kind entry) (valuePrefix entry))" "ascii_bound (range entry)"
    and "scan_encoded (serializeSnapshot ks) [kernel_query (index_prefix p (kind entry) (valuePrefix entry)) (range entry)] limits = Inr out"
  shows "\<exists>ids. javascript_scan (serializeSnapshot ks) p entry = Inr ids \<and> out = lines_text ids"
  using assms(5) javascript_scan_list [OF assms(1,2), of p entry] scan_one_agrees [OF assms(1-4), of limits]
  by (auto simp: scan_encoded_def snapshot_scan_def Let_def concat_lines split: sum.splits if_splits)

lemma scan_encoded_total:
  assumes "\<forall>k\<in>set ks. good_key k" "sorted ks" "is_ascii (index_prefix p (kind entry) (valuePrefix entry))" "ascii_bound (range entry)"
    and "javascript_scan (serializeSnapshot ks) p entry = Inr ids" "length ids \<le> max_matches limits"
    and "length (lines_text ids) \<le> max_output_bytes limits"
    and "validate_queries limits [kernel_query (index_prefix p (kind entry) (valuePrefix entry)) (range entry)] = Inr ()"
  shows "scan_encoded (serializeSnapshot ks) [kernel_query (index_prefix p (kind entry) (valuePrefix entry)) (range entry)] limits =
    Inr (lines_text ids)"
  using assms(5-8) javascript_scan_list [OF assms(1,2), of p entry] scan_one_agrees [OF assms(1-4), of limits]
  by (auto simp: scan_encoded_def snapshot_scan_def Let_def concat_lines)

text \<open>A snapshot the index writes is accepted.\<close>

lemma check_keys_sorted:
  "sorted_wrt (<) ks \<Longrightarrow> \<forall>k\<in>set ks. line_safe k \<and> CHR 0x00 \<notin> set k \<and> length k \<le> max_key_bytes limits \<Longrightarrow>
   \<forall>p. previous = Some p \<longrightarrow> (\<forall>k\<in>set ks. p < k) \<Longrightarrow> check_keys limits previous (ks @ [[]]) = Inr ()"
proof (induction ks arbitrary: previous)
  case (Cons k ks)
  then show ?case by (cases previous) (auto simp: line_safe_def)
qed simp

lemma from_bytes_lines:
  assumes "sorted_wrt (<) ks" "\<forall>k\<in>set ks. line_safe k \<and> CHR 0x00 \<notin> set k \<and> length k \<le> max_key_bytes limits"
    and "length (serializeSnapshot ks) \<le> max_snapshot_bytes limits"
  shows "from_bytes limits (serializeSnapshot ks) = Inr (serializeSnapshot ks)"
proof -
  have "\<forall>k\<in>set ks. newline \<notin> set k" using assms(2) by (simp add: line_safe_def)
  then show ?thesis
    using assms check_keys_sorted [OF assms(1,2), of None] by (simp add: from_bytes_def serializeSnapshot_lines split_lines)
qed

lemma from_bytes_Inr: "from_bytes limits bs = Inr b \<Longrightarrow> b = bs"
  by (auto simp: from_bytes_def split: sum.splits if_splits)

end
