(* ===== verification/Scanner.thy ===== *)
theory Scanner imports Kernel IndexStore begin

section \<open>The WebAssembly scanner (src/src/browser/wasm)\<close>

text \<open>
  \<open>lib.rs\<close>, the exports of the module over its linear memory, and \<open>index-scanner.js\<close>, the host that copies bytes
  in and out of it.  The allocator of the Rust runtime is an argument: \<open>vec_with_capacity\<close> and \<open>drop_vec\<close> for the
  regions handed to the host, and \<open>own_work\<close> for what the kernel allocates for itself during a call.  \<open>None\<close> is a
  trap, which the host sees as a thrown \<open>RuntimeError\<close> and which leaves the instance as it was.
\<close>

subsection \<open>Linear memory\<close>

definition region :: "nat \<Rightarrow> nat \<Rightarrow> bytes \<Rightarrow> bytes" where
  "region pointer len mem = take len (drop pointer mem)"

definition overwrite :: "nat \<Rightarrow> bytes \<Rightarrow> bytes \<Rightarrow> bytes" where
  "overwrite pointer bs mem = take pointer mem @ bs @ drop (pointer + length bs) mem"

lemma overwrite_length [simp]: "pointer + length bs \<le> length mem \<Longrightarrow> length (overwrite pointer bs mem) = length mem"
  by (simp add: overwrite_def)

lemma region_overwrite: "pointer + length bs \<le> length mem \<Longrightarrow> region pointer (length bs) (overwrite pointer bs mem) = bs"
  by (simp add: region_def overwrite_def)

lemma region_overwrite_other:
  assumes "pointer + length bs \<le> length mem" "q + k \<le> length mem" "q + k \<le> pointer \<or> pointer + n \<le> q" "length bs \<le> n"
  shows "region q k (overwrite pointer bs mem) = region q k mem"
  using assms by (intro nth_equalityI) (auto simp: region_def overwrite_def nth_append)

subsection \<open>The exports of the module (src/src/browser/wasm/src/lib.rs)\<close>

record 'a wasm_runtime =
  vec_with_capacity :: "nat \<Rightarrow> 'a \<Rightarrow> bytes \<Rightarrow> (nat \<times> 'a \<times> bytes) option"
  drop_vec :: "nat \<Rightarrow> nat \<Rightarrow> 'a \<Rightarrow> bytes \<Rightarrow> 'a \<times> bytes"
  own_work :: "bytes \<Rightarrow> 'a \<Rightarrow> bytes \<Rightarrow> ('a \<times> bytes) option"
  from_slice :: "bytes \<Rightarrow> scan_query list option"

record 'a guest =
  memory :: bytes
  allocator :: 'a
  SNAPSHOT :: "bytes option"

definition wasm_trap :: js_error where
  "wasm_trap = JsError ''RuntimeError'' ''unreachable'' None"

definition wasm_allocate :: "'a wasm_runtime \<Rightarrow> nat \<Rightarrow> ('a guest, nat) op" where
  "wasm_allocate rt len g =
     (case vec_with_capacity rt len (allocator g) (memory g) of
        None \<Rightarrow> (Inl wasm_trap, g)
      | Some (pointer, a, mem) \<Rightarrow> (Inr pointer, g\<lparr> memory := mem, allocator := a \<rparr>))"

definition wasm_deallocate :: "'a wasm_runtime \<Rightarrow> nat \<Rightarrow> nat \<Rightarrow> 'a guest \<Rightarrow> 'a guest" where
  "wasm_deallocate rt pointer capacity g =
     (if pointer = 0 \<or> capacity = 0 then g
      else case drop_vec rt pointer capacity (allocator g) (memory g) of
        (a, mem) \<Rightarrow> g\<lparr> memory := mem, allocator := a \<rparr>)"

definition wasm_load_snapshot :: "'a wasm_runtime \<Rightarrow> nat \<Rightarrow> nat \<Rightarrow> ('a guest, int) op" where
  "wasm_load_snapshot rt pointer len g =
     (if pointer = 0 \<and> len > 0 then (Inr (- 1), g)
      else let source = (if len = 0 then [] else region pointer len (memory g))
           in case own_work rt source (allocator g) (memory g) of
                None \<Rightarrow> (Inl wasm_trap, g)
              | Some (a, mem) \<Rightarrow> let g' = g\<lparr> memory := mem, allocator := a \<rparr>
                  in (case from_bytes default_limits source of
                        Inl _ \<Rightarrow> (Inr (- 1), g')
                      | Inr snap \<Rightarrow> (Inr 0, g'\<lparr> SNAPSHOT := Some snap \<rparr>)))"

definition wasm_scan_queries :: "'a wasm_runtime \<Rightarrow> nat \<Rightarrow> nat \<Rightarrow> nat \<Rightarrow> nat \<Rightarrow> ('a guest, int) op" where
  "wasm_scan_queries rt query_pointer query_length output_pointer output_capacity g =
     (if query_pointer = 0 then (Inr (- 1), g)
      else let input = region query_pointer query_length (memory g)
           in case own_work rt input (allocator g) (memory g) of
                None \<Rightarrow> (Inl wasm_trap, g)
              | Some (a, mem) \<Rightarrow> let g' = g\<lparr> memory := mem, allocator := a \<rparr>
                  in (case parse_queries (from_slice rt) default_limits input of
                        Inl _ \<Rightarrow> (Inr (- 1), g')
                      | Inr queries \<Rightarrow>
                         (case SNAPSHOT g of
                            None \<Rightarrow> (Inr (- 1), g')
                          | Some snap \<Rightarrow>
                             (case scan_encoded snap queries default_limits of
                                Inl _ \<Rightarrow> (Inr (- 1), g')
                              | Inr encoded \<Rightarrow>
                                 let required = length encoded
                                 in if required \<ge> 2 ^ 31 then (Inr (- 1), g')
                                    else if required > output_capacity \<or> required > 0 \<and> output_pointer = 0 then (Inr (int required), g')
                                    else (Inr (int required), if required > 0 then g'\<lparr> memory := overwrite output_pointer encoded mem \<rparr> else g')))))"

subsection \<open>The host (src/src/browser/wasm/index-scanner.js)\<close>

definition INITIAL_OUTPUT_CAPACITY :: nat where "INITIAL_OUTPUT_CAPACITY = 64 * 1024"
definition MAX_SNAPSHOT_BYTES :: nat where "MAX_SNAPSHOT_BYTES = 256 * 1024 * 1024"
definition MAX_QUERY_BYTES :: nat where "MAX_QUERY_BYTES = 1024 * 1024"
definition MAX_OUTPUT_BYTES :: nat where "MAX_OUTPUT_BYTES = 64 * 1024 * 1024"

definition FyloWasmError :: "string \<Rightarrow> string \<Rightarrow> js_error" where
  "FyloWasmError code m = JsError ''FyloWasmError'' (''['' @ code @ ''] '' @ m) (Some code)"

record 'a wasm_scanner =
  outputPointer :: nat
  outputCapacity :: nat
  guest :: "'a guest"

text \<open>What the constructor checks of the exports of an instance.\<close>

record wasm_exports =
  exports_memory :: bool
  exports_functions :: "string list"
  exports_abi :: int

definition WASM_ABI_VERSION :: int where "WASM_ABI_VERSION = 1"

definition required_exports :: "string list" where
  "required_exports = [''abi_version'', ''allocate'', ''deallocate'', ''load_snapshot'', ''scan_queries'']"

definition new_scanner :: "wasm_exports \<Rightarrow> 'a guest \<Rightarrow> 'a wasm_scanner result" where
  "new_scanner ex g =
     (if \<not> exports_memory ex then Inl (FyloWasmError ''EWASM_ABI'' ''FYLO Wasm index scanner did not export memory'')
      else case filter (\<lambda>name. name \<notin> set (exports_functions ex)) required_exports of
        name # _ \<Rightarrow> Inl (FyloWasmError ''EWASM_ABI'' (''FYLO Wasm index scanner did not export '' @ name))
      | [] \<Rightarrow> if exports_abi ex \<noteq> WASM_ABI_VERSION
              then Inl (FyloWasmError ''EWASM_ABI'' (''Unsupported FYLO Wasm index ABI '' @ int_to_string (exports_abi ex) @ ''; expected '' @
                int_to_string WASM_ABI_VERSION))
              else Inr \<lparr> outputPointer = 0, outputCapacity = 0, guest = g \<rparr>)"

text \<open>The module hands a pointer over as a signed 32 bit integer.\<close>

definition as_i32 :: "nat \<Rightarrow> int" where
  "as_i32 n = (let k = int n mod 2 ^ 32 in if k < 2 ^ 31 then k else k - 2 ^ 32)"

definition on_guest :: "('a guest, 'b) op \<Rightarrow> ('a wasm_scanner, 'b) op" where
  "on_guest m s = (case m (guest s) of (r, g) \<Rightarrow> (r, s\<lparr> guest := g \<rparr>))"

definition deallocate :: "'a wasm_runtime \<Rightarrow> nat \<Rightarrow> nat \<Rightarrow> 'a wasm_scanner \<Rightarrow> 'a wasm_scanner" where
  "deallocate rt pointer len s = s\<lparr> guest := wasm_deallocate rt pointer len (guest s) \<rparr>"

definition finally_op :: "('s, 'b) op \<Rightarrow> ('s \<Rightarrow> 's) \<Rightarrow> ('s, 'b) op" where
  "finally_op m cleanup s = (case m s of (r, t) \<Rightarrow> (r, cleanup t))"

definition allocateRegion :: "'a wasm_runtime \<Rightarrow> nat \<Rightarrow> string \<Rightarrow> ('a wasm_scanner, nat) op" where
  "allocateRegion rt len purpose s =
     (let failure = FyloWasmError ''EWASM_MEMORY'' (''Unable to allocate Wasm memory for the FYLO '' @ purpose)
      in case on_guest (wasm_allocate rt len) s of
           (Inl _, t) \<Rightarrow> (Inl failure, t)
         | (Inr pointer, t) \<Rightarrow>
             if as_i32 pointer < 0 \<or> as_i32 pointer + int len > int (length (memory (guest t))) then (Inl failure, t)
             else (Inr (nat (as_i32 pointer)), t))"

text \<open>\<open>new Uint8Array(buffer, pointer, length).set(bytes)\<close>, which throws when the view does not fit.\<close>

definition copy_in :: "nat \<Rightarrow> bytes \<Rightarrow> js_error \<Rightarrow> ('a wasm_scanner, unit) op" where
  "copy_in pointer bs failure s =
     (if pointer + length bs \<le> length (memory (guest s))
      then (Inr (), s\<lparr> guest := (guest s)\<lparr> memory := overwrite pointer bs (memory (guest s)) \<rparr> \<rparr>)
      else (Inl failure, s))"

definition loadSnapshot :: "'a wasm_runtime \<Rightarrow> bytes \<Rightarrow> ('a wasm_scanner, unit) op" where
  "loadSnapshot rt bs =
     (if length bs > MAX_SNAPSHOT_BYTES
      then throw (FyloWasmError ''EWASM_SNAPSHOT'' (''FYLO Wasm snapshot exceeds '' @ int_to_string (int MAX_SNAPSHOT_BYTES) @ '' bytes''))
      else bind_op (allocateRegion rt (length bs) ''snapshot'') (\<lambda>pointer.
        finally_op
          (seq_op (if bs = [] then ret ()
                   else copy_in pointer bs (FyloWasmError ''EWASM_MEMORY'' ''Unable to copy the FYLO index snapshot into Wasm memory''))
            (bind_op (on_guest (wasm_load_snapshot rt pointer (length bs))) (\<lambda>code.
               if code = - 1 then throw (FyloWasmError ''EWASM_SNAPSHOT'' ''FYLO Wasm index scanner rejected the snapshot'') else ret ())))
          (deallocate rt pointer (length bs))))"

definition ensureOutput :: "'a wasm_runtime \<Rightarrow> nat \<Rightarrow> ('a wasm_scanner, unit) op" where
  "ensureOutput rt capacity s =
     (if capacity \<le> outputCapacity s then (Inr (), s)
      else if capacity > MAX_OUTPUT_BYTES
      then (Inl (FyloWasmError ''EWASM_MEMORY'' (''FYLO Wasm output allocation exceeds '' @ int_to_string (int MAX_OUTPUT_BYTES) @ '' bytes'')), s)
      else bind_op (allocateRegion rt capacity ''output'') (\<lambda>pointer t.
        (Inr (), (if outputPointer t \<noteq> 0 then deallocate rt (outputPointer t) (outputCapacity t) t else t)
           \<lparr> outputCapacity := capacity, outputPointer := pointer \<rparr>)) s)"

definition scan_export :: "'a wasm_runtime \<Rightarrow> nat \<Rightarrow> nat \<Rightarrow> ('a wasm_scanner, int) op" where
  "scan_export rt inputPointer len s =
     on_guest (wasm_scan_queries rt inputPointer len (outputPointer s) (outputCapacity s)) s"

definition scan_failed :: js_error where
  "scan_failed = FyloWasmError ''EWASM_MEMORY'' ''FYLO Wasm index scan failed after resizing its output buffer''"

text \<open>The \<open>try\<close> block: scan, scan again with a larger output when the first answer did not fit, and read the lines.\<close>

definition read_output :: "int \<Rightarrow> ('a wasm_scanner, string list) op" where
  "read_output required s =
     (if required = - 1 \<or> required > int (outputCapacity s) then (Inl scan_failed, s)
      else (Inr (filter (\<lambda>l. l \<noteq> [])
              (split_on newline (utf8_decode (region (outputPointer s) (nat required) (memory (guest s)))))), s))"

definition scan_and_read :: "'a wasm_runtime \<Rightarrow> nat \<Rightarrow> nat \<Rightarrow> ('a wasm_scanner, string list) op" where
  "scan_and_read rt inputPointer len =
     bind_op (scan_export rt inputPointer len) (\<lambda>required.
       if required = - 1 then throw (FyloWasmError ''EWASM_QUERY'' ''FYLO Wasm index scanner rejected the query'')
       else bind_op (gets outputCapacity) (\<lambda>capacity.
         if required > int capacity then
           (if required > int MAX_OUTPUT_BYTES
            then throw (FyloWasmError ''EWASM_MEMORY'' (''FYLO Wasm scan output exceeds '' @ int_to_string (int MAX_OUTPUT_BYTES) @ '' bytes''))
            else seq_op (ensureOutput rt (nat required)) (bind_op (scan_export rt inputPointer len) read_output))
         else read_output required))"

definition scanQueries :: "'a wasm_runtime \<Rightarrow> jsval list \<Rightarrow> ('a wasm_scanner, string list) op" where
  "scanQueries rt queries =
     (let input = utf8_encode (json_text (JArr queries))
      in if length input > MAX_QUERY_BYTES
         then throw (FyloWasmError ''EWASM_QUERY'' (''FYLO Wasm query exceeds '' @ int_to_string (int MAX_QUERY_BYTES) @ '' bytes''))
         else bind_op (allocateRegion rt (length input) ''query'') (\<lambda>inputPointer.
           seq_op (\<lambda>s. case copy_in inputPointer input (FyloWasmError ''EWASM_MEMORY'' ''Unable to copy the FYLO query into Wasm memory'') s of
                     (Inl e, t) \<Rightarrow> (Inl e, deallocate rt inputPointer (length input) t)
                   | (Inr u, t) \<Rightarrow> (Inr u, t))
             (seq_op (\<lambda>s. ensureOutput rt (max (outputCapacity s) INITIAL_OUTPUT_CAPACITY) s)
               (finally_op (scan_and_read rt inputPointer (length input)) (deallocate rt inputPointer (length input))))))"

definition scanner_close :: "'a wasm_runtime \<Rightarrow> 'a wasm_scanner \<Rightarrow> 'a wasm_scanner" where
  "scanner_close rt s =
     (if outputPointer s \<noteq> 0 then deallocate rt (outputPointer s) (outputCapacity s) s else s)
       \<lparr> outputPointer := 0, outputCapacity := 0 \<rparr>"

text \<open>The request of the index: one prefix and its range.\<close>

definition scan_request :: "string \<Rightarrow> range_bound option \<Rightarrow> jsval" where
  "scan_request fullPrefix bound = JObj ((''prefix'', JStr fullPrefix) #
     (case bound of None \<Rightarrow> []
      | Some r \<Rightarrow> [(''range'', JObj [(''op'', JStr (range_key (range_op r))), (''value'', JStr (range_value r))])]))"

subsection \<open>What the host relies on\<close>

text \<open>
  The documented behaviour of \<open>Vec\<close> and of the allocator behind it: \<open>live\<close> are the regions handed out and not yet
  released, which are apart from each other and inside the memory; allocating adds a region, releasing takes it
  away, and neither, nor the kernel's own work, touches the bytes of another live region.  Writing inside a live
  region does not disturb the allocator.
\<close>

definition undisturbed :: "(nat \<times> nat) set \<Rightarrow> bytes \<Rightarrow> bytes \<Rightarrow> bool" where
  "undisturbed R mem mem' \<longleftrightarrow> length mem \<le> length mem' \<and> (\<forall>(p, n) \<in> R. region p n mem' = region p n mem)"

definition heap_contract :: "'a wasm_runtime \<Rightarrow> ('a \<Rightarrow> (nat \<times> nat) set) \<Rightarrow> ('a \<Rightarrow> bytes \<Rightarrow> bool) \<Rightarrow> bool" where
  "heap_contract rt live good \<longleftrightarrow>
     (\<forall>a mem. good a mem \<longrightarrow>
        (\<forall>(p, n) \<in> live a. 0 < p \<and> 0 < n \<and> p + n \<le> length mem) \<and>
        (\<forall>(p, n) \<in> live a. \<forall>(q, k) \<in> live a. (p, n) \<noteq> (q, k) \<longrightarrow> p + n \<le> q \<or> q + k \<le> p) \<and>
        (\<forall>n p a' mem'. vec_with_capacity rt n a mem = Some (p, a', mem') \<longrightarrow>
           good a' mem' \<and> undisturbed (live a) mem mem' \<and> 0 < p \<and> p < 2 ^ 32 \<and>
           (if n = 0 then live a' = live a else (p, n) \<notin> live a \<and> live a' = insert (p, n) (live a))) \<and>
        (\<forall>p n a' mem'. (p, n) \<in> live a \<longrightarrow> drop_vec rt p n a mem = (a', mem') \<longrightarrow>
           good a' mem' \<and> live a' = live a - {(p, n)} \<and> undisturbed (live a') mem mem') \<and>
        (\<forall>bs a' mem'. own_work rt bs a mem = Some (a', mem') \<longrightarrow>
           good a' mem' \<and> live a' = live a \<and> undisturbed (live a) mem mem') \<and>
        (\<forall>p n bs. (p, n) \<in> live a \<longrightarrow> length bs \<le> n \<longrightarrow> good a (overwrite p bs mem)))"

definition serde_reads :: "'a wasm_runtime \<Rightarrow> bool" where
  "serde_reads rt \<longleftrightarrow> (\<forall>full bound. from_slice rt (utf8_encode (json_text (JArr [scan_request full bound]))) = Some [kernel_query full bound])"

text \<open>The states of the host: its output region, if any, is live; \<open>balanced\<close> when it is the only one.\<close>

definition live_in :: "('a \<Rightarrow> (nat \<times> nat) set) \<Rightarrow> 'a wasm_scanner \<Rightarrow> (nat \<times> nat) set" where
  "live_in live s = live (allocator (guest s))"

definition held :: "'a wasm_scanner \<Rightarrow> (nat \<times> nat) set" where
  "held s = (if outputPointer s = 0 then {} else {(outputPointer s, outputCapacity s)})"

definition sound :: "('a \<Rightarrow> (nat \<times> nat) set) \<Rightarrow> ('a \<Rightarrow> bytes \<Rightarrow> bool) \<Rightarrow> 'a wasm_scanner \<Rightarrow> bool" where
  "sound live good s \<longleftrightarrow> good (allocator (guest s)) (memory (guest s)) \<and> held s \<subseteq> live_in live s \<and>
     (outputPointer s = 0 \<longrightarrow> outputCapacity s = 0)"

definition balanced :: "('a \<Rightarrow> (nat \<times> nat) set) \<Rightarrow> ('a \<Rightarrow> bytes \<Rightarrow> bool) \<Rightarrow> 'a wasm_scanner \<Rightarrow> bool" where
  "balanced live good s \<longleftrightarrow> sound live good s \<and> live_in live s = held s"

definition frame :: "('a \<Rightarrow> (nat \<times> nat) set) \<Rightarrow> 'a wasm_scanner \<Rightarrow> 'a wasm_scanner \<Rightarrow> bool" where
  "frame live s t \<longleftrightarrow> outputPointer t = outputPointer s \<and> outputCapacity t = outputCapacity s \<and>
     SNAPSHOT (guest t) = SNAPSHOT (guest s) \<and> live_in live s \<subseteq> live_in live t \<and>
     undisturbed (live_in live s) (memory (guest s)) (memory (guest t))"

lemma undisturbed_refl [simp]: "undisturbed R mem mem"
  by (auto simp: undisturbed_def)

lemma undisturbed_mono: "undisturbed R mem mem' \<Longrightarrow> S \<subseteq> R \<Longrightarrow> undisturbed S mem mem'"
  by (auto simp: undisturbed_def)

lemma undisturbed_trans: "undisturbed R m1 m2 \<Longrightarrow> undisturbed R m2 m3 \<Longrightarrow> undisturbed R m1 m3"
  by (fastforce simp: undisturbed_def)

lemma frame_refl [simp]: "frame live s s"
  by (simp add: frame_def)

lemma frame_trans: "frame live s t \<Longrightarrow> frame live t u \<Longrightarrow> frame live s u"
  unfolding frame_def by (auto intro: undisturbed_trans undisturbed_mono)

lemma as_i32_nonneg: "0 \<le> as_i32 p \<Longrightarrow> p < 2 ^ 32 \<Longrightarrow> nat (as_i32 p) = p"
  by (auto simp: as_i32_def Let_def split: if_splits)

lemma heap_contractD:
  assumes "heap_contract rt live good" "good a mem"
  shows "(p, n) \<in> live a \<Longrightarrow> 0 < p \<and> 0 < n \<and> p + n \<le> length mem"
    and "(p, n) \<in> live a \<Longrightarrow> (q, k) \<in> live a \<Longrightarrow> (p, n) \<noteq> (q, k) \<Longrightarrow> p + n \<le> q \<or> q + k \<le> p"
    and "vec_with_capacity rt n a mem = Some (p, a', mem') \<Longrightarrow>
           good a' mem' \<and> undisturbed (live a) mem mem' \<and> 0 < p \<and> p < 2 ^ 32 \<and>
           (if n = 0 then live a' = live a else (p, n) \<notin> live a \<and> live a' = insert (p, n) (live a))"
    and "(p, n) \<in> live a \<Longrightarrow> drop_vec rt p n a mem = (a', mem') \<Longrightarrow>
           good a' mem' \<and> live a' = live a - {(p, n)} \<and> undisturbed (live a') mem mem'"
    and "own_work rt bs a mem = Some (a', mem') \<Longrightarrow> good a' mem' \<and> live a' = live a \<and> undisturbed (live a) mem mem'"
    and "(p, n) \<in> live a \<Longrightarrow> length bs \<le> n \<Longrightarrow> good a (overwrite p bs mem)"
proof -
  note c = assms(1) [unfolded heap_contract_def, THEN spec, THEN spec, THEN mp, OF assms(2)]
  note c1 = c [THEN conjunct1] and c' = c [THEN conjunct2]
  note c2 = c' [THEN conjunct1] and c'' = c' [THEN conjunct2]
  note c3 = c'' [THEN conjunct1] and d = c'' [THEN conjunct2]
  note c4 = d [THEN conjunct1] and d' = d [THEN conjunct2]
  note c5 = d' [THEN conjunct1] and c6 = d' [THEN conjunct2]
  show "(p, n) \<in> live a \<Longrightarrow> 0 < p \<and> 0 < n \<and> p + n \<le> length mem" using c1 by fast
  show "(p, n) \<in> live a \<Longrightarrow> (q, k) \<in> live a \<Longrightarrow> (p, n) \<noteq> (q, k) \<Longrightarrow> p + n \<le> q \<or> q + k \<le> p" using c2 by fast
  show "vec_with_capacity rt n a mem = Some (p, a', mem') \<Longrightarrow>
           good a' mem' \<and> undisturbed (live a) mem mem' \<and> 0 < p \<and> p < 2 ^ 32 \<and>
           (if n = 0 then live a' = live a else (p, n) \<notin> live a \<and> live a' = insert (p, n) (live a))"
    by (rule c3 [rule_format])
  show "(p, n) \<in> live a \<Longrightarrow> drop_vec rt p n a mem = (a', mem') \<Longrightarrow>
           good a' mem' \<and> live a' = live a - {(p, n)} \<and> undisturbed (live a') mem mem'"
    by (rule c4 [rule_format])
  show "own_work rt bs a mem = Some (a', mem') \<Longrightarrow> good a' mem' \<and> live a' = live a \<and> undisturbed (live a) mem mem'"
    by (rule c5 [rule_format])
  show "(p, n) \<in> live a \<Longrightarrow> length bs \<le> n \<Longrightarrow> good a (overwrite p bs mem)" by (rule c6 [rule_format])
qed

lemma allocateRegion_run:
  assumes "heap_contract rt live good" "sound live good s" "allocateRegion rt n purpose s = (r, t)"
  shows "sound live good t" "frame live s t"
    and "r = Inr p \<Longrightarrow> 0 < p \<and> p + n \<le> length (memory (guest t)) \<and>
        (if n = 0 then live_in live t = live_in live s else (p, n) \<notin> live_in live s \<and> live_in live t = insert (p, n) (live_in live s))"
    and "r = Inl e \<Longrightarrow> err_code e = Some ''EWASM_MEMORY''"
proof -
  let ?a = "allocator (guest s)" and ?m = "memory (guest s)"
  have good: "good ?a ?m" using assms(2) by (simp add: sound_def)
  have "sound live good t \<and> frame live s t \<and>
    (\<forall>p. r = Inr p \<longrightarrow> 0 < p \<and> p + n \<le> length (memory (guest t)) \<and>
        (if n = 0 then live_in live t = live_in live s else (p, n) \<notin> live_in live s \<and> live_in live t = insert (p, n) (live_in live s))) \<and>
    (\<forall>e. r = Inl e \<longrightarrow> err_code e = Some ''EWASM_MEMORY'')"
  proof (cases "vec_with_capacity rt n ?a ?m")
    case None
    then show ?thesis using assms(2,3)
      by (auto simp: allocateRegion_def on_guest_def wasm_allocate_def Let_def FyloWasmError_def)
  next
    case (Some x)
    obtain p a' mem' where x: "x = (p, a', mem')" by (cases x) auto
    have c: "good a' mem' \<and> undisturbed (live ?a) ?m mem' \<and> 0 < p \<and> p < 2 ^ 32 \<and>
        (if n = 0 then live a' = live ?a else (p, n) \<notin> live ?a \<and> live a' = insert (p, n) (live ?a))"
      using heap_contractD(3) [OF assms(1) good] Some x by blast
    then have sub: "live ?a \<subseteq> live a'" by (auto split: if_splits)
    let ?t = "s\<lparr> guest := (guest s)\<lparr> memory := mem', allocator := a' \<rparr> \<rparr>"
    have run: "(r, t) = (if as_i32 p < 0 \<or> as_i32 p + int n > int (length mem')
        then (Inl (FyloWasmError ''EWASM_MEMORY'' (''Unable to allocate Wasm memory for the FYLO '' @ purpose)), ?t)
        else (Inr (nat (as_i32 p)), ?t))"
      unfolding assms(3) [symmetric] using Some x by (simp add: allocateRegion_def on_guest_def wasm_allocate_def Let_def)
    then have t: "t = ?t" by (cases "as_i32 p < 0 \<or> as_i32 p + int n > int (length mem')") simp_all
    have "sound live good ?t" "frame live s ?t"
      using assms(2) c sub by (auto simp: sound_def frame_def held_def live_in_def)
    moreover have "0 < q \<and> q + n \<le> length mem' \<and> q = p" if "r = Inr q" for q
      using run that c as_i32_nonneg [of p] by (auto simp del: power_numeral split: if_splits)
    moreover have "err_code e = Some ''EWASM_MEMORY''" if "r = Inl e" for e
      using run that by (auto simp: FyloWasmError_def split: if_splits)
    ultimately show ?thesis unfolding t using c by (auto simp: live_in_def simp del: power_numeral)
  qed
  then show "sound live good t" "frame live s t"
    and "r = Inr p \<Longrightarrow> 0 < p \<and> p + n \<le> length (memory (guest t)) \<and>
        (if n = 0 then live_in live t = live_in live s else (p, n) \<notin> live_in live s \<and> live_in live t = insert (p, n) (live_in live s))"
    and "r = Inl e \<Longrightarrow> err_code e = Some ''EWASM_MEMORY''" by blast+
qed

lemma deallocate_run:
  assumes "heap_contract rt live good" "good (allocator (guest s)) (memory (guest s))" "n = 0 \<or> (p, n) \<in> live_in live s"
  defines "t \<equiv> deallocate rt p n s"
  shows "good (allocator (guest t)) (memory (guest t))"
    and "live_in live t = (if n = 0 then live_in live s else live_in live s - {(p, n)})"
    and "outputPointer t = outputPointer s" "outputCapacity t = outputCapacity s" "SNAPSHOT (guest t) = SNAPSHOT (guest s)"
    and "undisturbed (live_in live t) (memory (guest s)) (memory (guest t))"
proof -
  let ?a = "allocator (guest s)" and ?m = "memory (guest s)"
  have "good (allocator (guest t)) (memory (guest t)) \<and> live_in live t = (if n = 0 then live_in live s else live_in live s - {(p, n)}) \<and>
    outputPointer t = outputPointer s \<and> outputCapacity t = outputCapacity s \<and>
    SNAPSHOT (guest t) = SNAPSHOT (guest s) \<and> undisturbed (live_in live t) ?m (memory (guest t))"
  proof (cases "n = 0")
    case True
    then show ?thesis using assms(2) by (simp add: t_def deallocate_def wasm_deallocate_def)
  next
    case False
    obtain a' mem' where d: "drop_vec rt p n ?a ?m = (a', mem')" by fastforce
    have l: "(p, n) \<in> live ?a" using assms(3) False by (auto simp: live_in_def)
    have "0 < p" using heap_contractD(1) [OF assms(1,2) l] by simp
    then have t: "t = s\<lparr> guest := (guest s)\<lparr> memory := mem', allocator := a' \<rparr> \<rparr>"
      using False d by (simp add: t_def deallocate_def wasm_deallocate_def)
    note f = heap_contractD(4) [OF assms(1,2) l d]
    from f have "live a' = live ?a - {(p, n)}" by blast
    with f False show ?thesis by (simp add: t live_in_def)
  qed
  then show "good (allocator (guest t)) (memory (guest t))"
    and "live_in live t = (if n = 0 then live_in live s else live_in live s - {(p, n)})"
    and "outputPointer t = outputPointer s" "outputCapacity t = outputCapacity s" "SNAPSHOT (guest t) = SNAPSHOT (guest s)"
    and "undisturbed (live_in live t) ?m (memory (guest t))" by blast+
qed

text \<open>The regions that are live beside the output.\<close>

definition extra :: "('a \<Rightarrow> (nat \<times> nat) set) \<Rightarrow> 'a wasm_scanner \<Rightarrow> (nat \<times> nat) set" where
  "extra live s = live_in live s - held s"

lemma extra_cong:
  "live_in live t = live_in live s \<Longrightarrow> outputPointer t = outputPointer s \<Longrightarrow> outputCapacity t = outputCapacity s \<Longrightarrow>
   extra live t = extra live s"
  by (simp add: extra_def held_def)

lemma balanced_extra: "balanced live good s \<longleftrightarrow> sound live good s \<and> extra live s = {}"
  by (auto simp: balanced_def extra_def sound_def)

lemma deallocate_extra:
  assumes "heap_contract rt live good" "sound live good s" "n = 0 \<or> (p, n) \<in> extra live s"
  defines "t \<equiv> deallocate rt p n s"
  shows "sound live good t" "extra live t = (if n = 0 then extra live s else extra live s - {(p, n)})"
    and "SNAPSHOT (guest t) = SNAPSHOT (guest s)"
proof -
  have "good (allocator (guest s)) (memory (guest s))" "n = 0 \<or> (p, n) \<in> live_in live s"
    using assms(2,3) by (auto simp: sound_def extra_def)
  note d = deallocate_run [OF assms(1) this, folded t_def]
  show "sound live good t" "extra live t = (if n = 0 then extra live s else extra live s - {(p, n)})"
    and "SNAPSHOT (guest t) = SNAPSHOT (guest s)"
    using d(1-5) assms(2,3) by (auto simp: sound_def held_def extra_def split: if_splits)
qed

lemma allocate_extra:
  assumes "heap_contract rt live good" "sound live good s" "allocateRegion rt n purpose s = (r, t)"
  shows "sound live good t" "SNAPSHOT (guest t) = SNAPSHOT (guest s)" "outputPointer t = outputPointer s" "outputCapacity t = outputCapacity s"
    and "extra live s \<subseteq> extra live t" "undisturbed (live_in live s) (memory (guest s)) (memory (guest t))"
    and "r = Inr p \<Longrightarrow> 0 < p \<and> p + n \<le> length (memory (guest t)) \<and>
        (if n = 0 then extra live t = extra live s else (p, n) \<notin> live_in live s \<and> extra live t = insert (p, n) (extra live s))"
    and "r = Inl e \<Longrightarrow> err_code e = Some ''EWASM_MEMORY''"
proof -
  note a = allocateRegion_run [OF assms]
  have h: "held t = held s" using a(2) by (simp add: frame_def held_def)
  show "sound live good t" by (rule a)
  show "SNAPSHOT (guest t) = SNAPSHOT (guest s)" "outputPointer t = outputPointer s" "outputCapacity t = outputCapacity s"
    "undisturbed (live_in live s) (memory (guest s)) (memory (guest t))" using a(2) by (simp_all add: frame_def)
  show "extra live s \<subseteq> extra live t" using a(2) h by (auto simp: extra_def frame_def)
  show "r = Inr p \<Longrightarrow> 0 < p \<and> p + n \<le> length (memory (guest t)) \<and>
        (if n = 0 then extra live t = extra live s else (p, n) \<notin> live_in live s \<and> extra live t = insert (p, n) (extra live s))"
    using a(3) h assms(2) by (auto simp: extra_def sound_def split: if_splits)
  show "r = Inl e \<Longrightarrow> err_code e = Some ''EWASM_MEMORY''" by (rule a)
qed

lemma overwrite_undisturbed:
  assumes "heap_contract rt live good" "good a mem" "(p, n) \<in> live a" "length bs \<le> n"
  shows "undisturbed (live a - {(p, n)}) mem (overwrite p bs mem)"
  unfolding undisturbed_def
proof (intro conjI ballI)
  have p: "p + n \<le> length mem" using heap_contractD(1) [OF assms(1-3)] by simp
  then show "length mem \<le> length (overwrite p bs mem)" using assms(4) by simp
  fix x assume x: "x \<in> live a - {(p, n)}"
  obtain q k where [simp]: "x = (q, k)" by fastforce
  have "q + k \<le> length mem" using heap_contractD(1) [OF assms(1,2)] x by simp
  moreover have "q + k \<le> p \<or> p + n \<le> q" using heap_contractD(2) [OF assms(1,2), of q k p n] x assms(3) by auto
  ultimately show "case x of (q, k) \<Rightarrow> region q k (overwrite p bs mem) = region q k mem"
    using region_overwrite_other [of p bs mem q k n] p assms(4) by simp
qed

lemma copy_in_run:
  assumes "heap_contract rt live good" "sound live good s" "(p, length bs) \<in> live_in live s"
  obtains t where "copy_in p bs e s = (Inr (), t)" "sound live good t" "live_in live t = live_in live s"
    "outputPointer t = outputPointer s" "outputCapacity t = outputCapacity s" "SNAPSHOT (guest t) = SNAPSHOT (guest s)"
    "region p (length bs) (memory (guest t)) = bs"
    "undisturbed (live_in live s - {(p, length bs)}) (memory (guest s)) (memory (guest t))"
proof -
  let ?a = "allocator (guest s)" and ?m = "memory (guest s)"
  have good: "good ?a ?m" and l: "(p, length bs) \<in> live ?a" using assms(2,3) by (auto simp: sound_def live_in_def)
  have p: "p + length bs \<le> length ?m" using heap_contractD(1) [OF assms(1) good l] by simp
  let ?t = "s\<lparr> guest := (guest s)\<lparr> memory := overwrite p bs ?m \<rparr> \<rparr>"
  have "copy_in p bs e s = (Inr (), ?t)" using p by (simp add: copy_in_def)
  moreover have "sound live good ?t"
    using assms(2) heap_contractD(6) [OF assms(1) good l order_refl] by (auto simp: sound_def held_def live_in_def split: if_splits)
  moreover have "region p (length bs) (memory (guest ?t)) = bs" using p by (simp add: region_overwrite)
  moreover have "undisturbed (live_in live s - {(p, length bs)}) ?m (memory (guest ?t))"
    using overwrite_undisturbed [OF assms(1) good l order_refl] by (simp add: live_in_def)
  ultimately show ?thesis by (intro that [of ?t]) (simp_all add: live_in_def)
qed

lemma load_export_run:
  assumes "heap_contract rt live good" "sound live good s" "0 < p" "on_guest (wasm_load_snapshot rt p n) s = (r, t)"
    and "bs = (if n = 0 then [] else region p n (memory (guest s)))"
  shows "sound live good t" "live_in live t = live_in live s" "outputPointer t = outputPointer s" "outputCapacity t = outputCapacity s"
    and "undisturbed (live_in live s) (memory (guest s)) (memory (guest t))"
    and "r = Inr 0 \<and> SNAPSHOT (guest t) = Some bs \<or>
       SNAPSHOT (guest t) = SNAPSHOT (guest s) \<and> (r = Inl wasm_trap \<or> r = Inr (- 1) \<and> (\<exists>e. from_bytes default_limits bs = Inl e))"
proof -
  let ?a = "allocator (guest s)" and ?m = "memory (guest s)"
  have good: "good ?a ?m" using assms(2) by (simp add: sound_def)
  have run: "wasm_load_snapshot rt p n (guest s) = (case own_work rt bs ?a ?m of
        None \<Rightarrow> (Inl wasm_trap, guest s)
      | Some (a, mem) \<Rightarrow> (case from_bytes default_limits bs of
            Inl _ \<Rightarrow> (Inr (- 1), (guest s)\<lparr> memory := mem, allocator := a \<rparr>)
          | Inr snap \<Rightarrow> (Inr 0, (guest s)\<lparr> memory := mem, allocator := a, SNAPSHOT := Some bs \<rparr>)))"
    using assms(3,5) by (auto simp: wasm_load_snapshot_def Let_def split: option.split sum.split dest: from_bytes_Inr)
  have "sound live good t \<and> live_in live t = live_in live s \<and> outputPointer t = outputPointer s \<and> outputCapacity t = outputCapacity s \<and>
    undisturbed (live_in live s) ?m (memory (guest t)) \<and> (r = Inr 0 \<and> SNAPSHOT (guest t) = Some bs \<or>
       SNAPSHOT (guest t) = SNAPSHOT (guest s) \<and> (r = Inl wasm_trap \<or> r = Inr (- 1) \<and> (\<exists>e. from_bytes default_limits bs = Inl e)))"
  proof (cases "own_work rt bs ?a ?m")
    case None
    then show ?thesis using assms(2,4) by (auto simp: on_guest_def run)
  next
    case (Some x)
    obtain a mem where x: "x = (a, mem)" by fastforce
    have c: "good a mem" "live a = live ?a" "undisturbed (live ?a) ?m mem"
      using heap_contractD(5) [OF assms(1) good Some [unfolded x]] by auto
    show ?thesis using assms(2,4) Some x c
      by (cases "from_bytes default_limits bs") (auto simp: on_guest_def run sound_def held_def live_in_def)
  qed
  then show "sound live good t" "live_in live t = live_in live s" "outputPointer t = outputPointer s" "outputCapacity t = outputCapacity s"
    and "undisturbed (live_in live s) ?m (memory (guest t))"
    and "r = Inr 0 \<and> SNAPSHOT (guest t) = Some bs \<or>
       SNAPSHOT (guest t) = SNAPSHOT (guest s) \<and> (r = Inl wasm_trap \<or> r = Inr (- 1) \<and> (\<exists>e. from_bytes default_limits bs = Inl e))"
    by blast+
qed

lemma loadSnapshot_run:
  assumes "heap_contract rt live good" "sound live good s" "loadSnapshot rt bs s = (r, t)"
  shows "sound live good t \<and> extra live s \<subseteq> extra live t \<and>
    (r = Inr () \<and> SNAPSHOT (guest t) = Some bs \<and> extra live t = extra live s \<or>
     (\<exists>e. r = Inl e \<and> SNAPSHOT (guest t) = SNAPSHOT (guest s) \<and>
        (err_code e = Some ''EWASM_MEMORY'' \<or>
         extra live t = extra live s \<and> (e = wasm_trap \<or> err_code e = Some ''EWASM_SNAPSHOT'' \<and>
           (length bs > MAX_SNAPSHOT_BYTES \<or> (\<exists>c. from_bytes default_limits bs = Inl c))))))"
proof (cases "length bs > MAX_SNAPSHOT_BYTES")
  case True
  then show ?thesis using assms(2,3) by (auto simp: loadSnapshot_def FyloWasmError_def)
next
  case False
  obtain q u where q: "allocateRegion rt (length bs) ''snapshot'' s = (q, u)" by fastforce
  note a = allocate_extra [OF assms(1,2) q]
  show ?thesis
  proof (cases q)
    case (Inl e)
    then show ?thesis using False assms(3) q a by (auto simp: loadSnapshot_def bind_op_def)
  next
    case (Inr p)
    note ap = a(7) [OF Inr]
    obtain v where v: "(if bs = [] then ret () else copy_in p bs (FyloWasmError ''EWASM_MEMORY'' ''Unable to copy the FYLO index snapshot into Wasm memory'')) u = (Inr (), v)"
      and v': "sound live good v" "extra live v = extra live u" "SNAPSHOT (guest v) = SNAPSHOT (guest u)"
        "bs = (if length bs = 0 then [] else region p (length bs) (memory (guest v)))"
    proof (cases "bs = []")
      case True
      then show ?thesis using that [of u] a(1) by simp
    next
      case False
      then have "(p, length bs) \<in> live_in live u" using ap by (auto simp: extra_def)
      from copy_in_run [OF assms(1) a(1) this] obtain v where "copy_in p bs (FyloWasmError ''EWASM_MEMORY'' ''Unable to copy the FYLO index snapshot into Wasm memory'') u = (Inr (), v)"
        "sound live good v" "live_in live v = live_in live u" "outputPointer v = outputPointer u" "outputCapacity v = outputCapacity u"
        "SNAPSHOT (guest v) = SNAPSHOT (guest u)" "region p (length bs) (memory (guest v)) = bs"
        by blast
      then show ?thesis using False by (intro that [of v]) (simp_all add: extra_def held_def)
    qed
    obtain c x where x: "on_guest (wasm_load_snapshot rt p (length bs)) v = (c, x)" by fastforce
    note l = load_export_run [OF assms(1) v'(1) _ x v'(4)]
    have p: "0 < p" using ap by simp
    have ex: "extra live x = extra live u" using extra_cong [OF l(2-4) [OF p]] v'(2) by simp
    have "length bs = 0 \<or> (p, length bs) \<in> extra live x" using ap ex by (cases "bs = []") simp_all
    note d = deallocate_extra [OF assms(1) l(1) [OF p] this]
    have run: "loadSnapshot rt bs s = (case c of
        Inl e \<Rightarrow> Inl e
      | Inr code \<Rightarrow> if code = - 1 then Inl (FyloWasmError ''EWASM_SNAPSHOT'' ''FYLO Wasm index scanner rejected the snapshot'') else Inr (),
        deallocate rt p (length bs) x)"
      using False q Inr v x by (simp add: loadSnapshot_def finally_op_def seq_op_def bind_op_def split: sum.split)
    have "(p, length bs) \<notin> extra live s" if "bs \<noteq> []" using ap that by (auto simp: extra_def)
    then have "extra live (deallocate rt p (length bs) x) = extra live s"
      using d(2) ex ap by (cases "bs = []") simp_all
    moreover have "c = Inr 0 \<and> SNAPSHOT (guest (deallocate rt p (length bs) x)) = Some bs \<or>
        SNAPSHOT (guest (deallocate rt p (length bs) x)) = SNAPSHOT (guest s) \<and>
        (c = Inl wasm_trap \<or> c = Inr (- 1) \<and> (\<exists>e. from_bytes default_limits bs = Inl e))"
      using l(6) [OF p] v'(3) a(2) d(3) by simp
    moreover have t: "t = deallocate rt p (length bs) x" using run assms(3) by simp
    ultimately show ?thesis
      using run assms(3) d(1) unfolding t
      by (elim disjE conjE) (simp_all add: FyloWasmError_def)
  qed
qed

text \<open>What the kernel answers on an input, \<open>None\<close> for an error.\<close>

definition kernel_answer :: "'a wasm_runtime \<Rightarrow> bytes \<Rightarrow> bytes option \<Rightarrow> bytes option" where
  "kernel_answer rt input snapshot =
     (case parse_queries (from_slice rt) default_limits input of
        Inl _ \<Rightarrow> None
      | Inr queries \<Rightarrow> (case snapshot of
          None \<Rightarrow> None
        | Some snap \<Rightarrow> (case scan_encoded snap queries default_limits of
            Inl _ \<Rightarrow> None | Inr encoded \<Rightarrow> if length encoded \<ge> 2 ^ 31 then None else Some encoded)))"

lemma wasm_scan_eq:
  assumes "0 < ip"
  shows "wasm_scan_queries rt ip len outp cap g =
     (let input = region ip len (memory g)
      in case own_work rt input (allocator g) (memory g) of
           None \<Rightarrow> (Inl wasm_trap, g)
         | Some (a, mem) \<Rightarrow> (case kernel_answer rt input (SNAPSHOT g) of
             None \<Rightarrow> (Inr (- 1), g\<lparr> memory := mem, allocator := a \<rparr>)
           | Some out \<Rightarrow> (Inr (int (length out)),
               if length out \<le> cap \<and> 0 < length out \<and> 0 < outp
               then g\<lparr> memory := overwrite outp out mem, allocator := a \<rparr> else g\<lparr> memory := mem, allocator := a \<rparr>)))"
proof (cases "own_work rt (region ip len (memory g)) (allocator g) (memory g)")
  case None
  then show ?thesis using assms by (simp add: wasm_scan_queries_def Let_def)
next
  case (Some x)
  obtain a mem where x: "x = (a, mem)" by fastforce
  show ?thesis
  proof (cases "kernel_answer rt (region ip len (memory g)) (SNAPSHOT g)")
    case None
    then show ?thesis using assms Some x
      by (auto simp: wasm_scan_queries_def kernel_answer_def Let_def split: option.splits sum.splits if_splits)
  next
    case (Some out)
    then show ?thesis using assms \<open>own_work _ _ _ _ = _\<close> x
      by (auto simp: wasm_scan_queries_def kernel_answer_def Let_def split: option.splits sum.splits if_splits)
  qed
qed

lemma scan_export_run:
  assumes "heap_contract rt live good" "sound live good s" "0 < ip" "scan_export rt ip len s = (r, t)"
    and "region ip len (memory (guest s)) = input"
  shows "sound live good t" "extra live t = extra live s" "SNAPSHOT (guest t) = SNAPSHOT (guest s)" "outputCapacity t = outputCapacity s"
    and "undisturbed (extra live s) (memory (guest s)) (memory (guest t))"
    and "r = Inl wasm_trap \<or> r = Inr (- 1) \<and> kernel_answer rt input (SNAPSHOT (guest s)) = None \<or>
      (\<exists>out. kernel_answer rt input (SNAPSHOT (guest s)) = Some out \<and> r = Inr (int (length out)) \<and>
         (length out \<le> outputCapacity t \<longrightarrow> region (outputPointer t) (length out) (memory (guest t)) = out))"
proof -
  let ?a = "allocator (guest s)" and ?m = "memory (guest s)" and ?P = "outputPointer s" and ?C = "outputCapacity s"
  have good: "good ?a ?m" using assms(2) by (simp add: sound_def)
  have "sound live good t \<and> extra live t = extra live s \<and> SNAPSHOT (guest t) = SNAPSHOT (guest s) \<and> outputCapacity t = ?C \<and>
    undisturbed (extra live s) ?m (memory (guest t)) \<and> (r = Inl wasm_trap \<or> r = Inr (- 1) \<and> kernel_answer rt input (SNAPSHOT (guest s)) = None \<or>
      (\<exists>out. kernel_answer rt input (SNAPSHOT (guest s)) = Some out \<and> r = Inr (int (length out)) \<and>
         (length out \<le> outputCapacity t \<longrightarrow> region (outputPointer t) (length out) (memory (guest t)) = out)))"
  proof (cases "own_work rt input ?a ?m")
    case None
    then show ?thesis using assms(2,4,5) by (auto simp: scan_export_def on_guest_def wasm_scan_eq [OF assms(3)] Let_def)
  next
    case (Some x)
    obtain a mem where x: "x = (a, mem)" by fastforce
    have c: "good a mem" "live a = live ?a" "undisturbed (live ?a) ?m mem"
      using heap_contractD(5) [OF assms(1) good Some [unfolded x]] by auto
    have u: "undisturbed (extra live s) ?m mem" by (rule undisturbed_mono [OF c(3)]) (auto simp: extra_def live_in_def)
    define u where "u = s\<lparr> guest := (guest s)\<lparr> memory := mem, allocator := a \<rparr> \<rparr>"
    have su: "sound live good u" "extra live u = extra live s" using assms(2) c
      by (auto simp: u_def sound_def held_def live_in_def extra_def split: if_splits)
    show ?thesis
    proof (cases "kernel_answer rt input (SNAPSHOT (guest s))")
      case None
      then have "r = Inr (- 1)" "t = u" using assms(4,5) Some x
        by (simp_all add: u_def scan_export_def on_guest_def wasm_scan_eq [OF assms(3)] Let_def)
      then show ?thesis using None su u by (simp add: u_def)
    next
      case (Some out)
      have rt: "r = Inr (int (length out))" "t = (if length out \<le> ?C \<and> 0 < length out \<and> 0 < ?P
          then s\<lparr> guest := (guest s)\<lparr> memory := overwrite ?P out mem, allocator := a \<rparr> \<rparr> else u)"
        using assms(4,5) Some \<open>own_work rt input ?a ?m = Some x\<close> x
        by (auto simp: u_def scan_export_def on_guest_def wasm_scan_eq [OF assms(3)] Let_def)
      show ?thesis
      proof (cases "length out \<le> ?C \<and> 0 < length out \<and> 0 < ?P")
        case False
        then have "length out \<le> ?C \<Longrightarrow> out = []" using assms(2) by (auto simp: sound_def)
        then show ?thesis using False rt su u Some by (auto simp: u_def region_def)
      next
        case True
        then have t: "t = s\<lparr> guest := (guest s)\<lparr> memory := overwrite ?P out mem, allocator := a \<rparr> \<rparr>" using rt by simp
        have l: "(?P, ?C) \<in> live a" using assms(2) True c(2) by (auto simp: sound_def held_def live_in_def)
        have o: "undisturbed (live a - {(?P, ?C)}) mem (overwrite ?P out mem)"
          using overwrite_undisturbed [OF assms(1) c(1) l] True by simp
        have e: "extra live s = live a - {(?P, ?C)}" using True c(2) by (simp add: extra_def held_def live_in_def)
        have "?P + length out \<le> length mem" using heap_contractD(1) [OF assms(1) c(1) l] True by simp
        then have "region ?P (length out) (overwrite ?P out mem) = out" by (rule region_overwrite)
        moreover have "good a (overwrite ?P out mem)" using heap_contractD(6) [OF assms(1) c(1) l] True by simp
        ultimately show ?thesis
          using True rt Some assms(2) c(2) undisturbed_trans [OF u o [folded e]]
          by (auto simp: t sound_def held_def live_in_def extra_def split: if_splits)
      qed
    qed
  qed
  then show "sound live good t" "extra live t = extra live s" "SNAPSHOT (guest t) = SNAPSHOT (guest s)" "outputCapacity t = ?C"
    and "undisturbed (extra live s) ?m (memory (guest t))"
    and "r = Inl wasm_trap \<or> r = Inr (- 1) \<and> kernel_answer rt input (SNAPSHOT (guest s)) = None \<or>
      (\<exists>out. kernel_answer rt input (SNAPSHOT (guest s)) = Some out \<and> r = Inr (int (length out)) \<and>
         (length out \<le> outputCapacity t \<longrightarrow> region (outputPointer t) (length out) (memory (guest t)) = out))"
    by blast+
qed

lemma ensureOutput_run:
  assumes "heap_contract rt live good" "sound live good s" "ensureOutput rt capacity s = (r, t)"
  shows "sound live good t" "SNAPSHOT (guest t) = SNAPSHOT (guest s)" "undisturbed (extra live s) (memory (guest s)) (memory (guest t))"
    and "extra live s \<subseteq> extra live t" "r = Inr () \<Longrightarrow> extra live t = extra live s \<and> capacity \<le> outputCapacity t"
    and "r = Inl e \<Longrightarrow> err_code e = Some ''EWASM_MEMORY''"
proof -
  have "sound live good t \<and> SNAPSHOT (guest t) = SNAPSHOT (guest s) \<and> undisturbed (extra live s) (memory (guest s)) (memory (guest t)) \<and>
    extra live s \<subseteq> extra live t \<and> (r = Inr () \<and> extra live t = extra live s \<and> capacity \<le> outputCapacity t \<or>
      (\<exists>e. r = Inl e \<and> err_code e = Some ''EWASM_MEMORY''))"
  proof (cases "capacity \<le> outputCapacity s \<or> capacity > MAX_OUTPUT_BYTES")
    case True
    then show ?thesis using assms(2,3) by (auto simp: ensureOutput_def FyloWasmError_def split: if_splits)
  next
    case False
    obtain q u where q: "allocateRegion rt capacity ''output'' s = (q, u)" by fastforce
    note a = allocate_extra [OF assms(1,2) q]
    have w: "undisturbed (extra live s) (memory (guest s)) (memory (guest u))"
      by (rule undisturbed_mono [OF a(6)]) (auto simp: extra_def)
    show ?thesis
    proof (cases q)
      case (Inl e)
      then show ?thesis using False q assms(3) a w by (auto simp: ensureOutput_def bind_op_def)
    next
      case (Inr p)
      have pos: "0 < capacity" using False by simp
      note ap = a(7) [OF Inr]
      have good: "good (allocator (guest u)) (memory (guest u))" using a(1) by (simp add: sound_def)
      define v where "v = (if outputPointer u \<noteq> 0 then deallocate rt (outputPointer u) (outputCapacity u) u else u)"
      have "outputPointer u \<noteq> 0 \<Longrightarrow> outputCapacity u = 0 \<or> (outputPointer u, outputCapacity u) \<in> live_in live u"
        using a(1) by (auto simp: sound_def held_def)
      then have v: "good (allocator (guest v)) (memory (guest v))" "live_in live v = live_in live u - held u"
        "SNAPSHOT (guest v) = SNAPSHOT (guest u)" "undisturbed (live_in live v) (memory (guest u)) (memory (guest v))"
        using deallocate_run [OF assms(1) good, of "outputCapacity u" "outputPointer u"] good a(1)
          heap_contractD(1) [OF assms(1) good, of "outputPointer u" "outputCapacity u"]
        by (auto simp: v_def held_def sound_def live_in_def split: if_splits)
      have t: "r = Inr ()" "t = v\<lparr> outputCapacity := capacity, outputPointer := p \<rparr>"
        using False q Inr assms(3) by (simp_all add: ensureOutput_def bind_op_def v_def)
      have l: "live_in live v = insert (p, capacity) (extra live s)" using v(2) ap pos by (simp add: extra_def)
      have n: "(p, capacity) \<notin> extra live s" using ap pos by (simp add: extra_def)
      have "undisturbed (extra live s) (memory (guest u)) (memory (guest v))"
        by (rule undisturbed_mono [OF v(4)]) (auto simp: l)
      then show ?thesis
        using t v(1,3) l n ap a(2) undisturbed_trans [OF w]
        by (auto simp: sound_def held_def live_in_def extra_def)
    qed
  qed
  then show "sound live good t" "SNAPSHOT (guest t) = SNAPSHOT (guest s)" "undisturbed (extra live s) (memory (guest s)) (memory (guest t))"
    and "extra live s \<subseteq> extra live t" "r = Inr () \<Longrightarrow> extra live t = extra live s \<and> capacity \<le> outputCapacity t"
    and "r = Inl e \<Longrightarrow> err_code e = Some ''EWASM_MEMORY''" by auto
qed

definition output_lines :: "bytes \<Rightarrow> string list" where
  "output_lines out = filter (\<lambda>l. l \<noteq> []) (split_on newline (utf8_decode out))"

lemma region_undisturbed: "undisturbed R mem mem' \<Longrightarrow> (p, n) \<in> R \<Longrightarrow> region p n mem' = region p n mem"
  by (auto simp: undisturbed_def)

lemma scan_and_read_run:
  assumes "heap_contract rt live good" "sound live good s" "0 < ip" "(ip, len) \<in> extra live s"
    and "region ip len (memory (guest s)) = input" "scan_and_read rt ip len s = (r, t)"
  shows "sound live good t \<and> SNAPSHOT (guest t) = SNAPSHOT (guest s) \<and> extra live s \<subseteq> extra live t \<and>
    ((\<exists>out. r = Inr (output_lines out) \<and> kernel_answer rt input (SNAPSHOT (guest s)) = Some out \<and> extra live t = extra live s) \<or>
     (\<exists>e. r = Inl e \<and> (err_code e = Some ''EWASM_MEMORY'' \<or> extra live t = extra live s \<and>
        (e = wasm_trap \<or> err_code e = Some ''EWASM_QUERY'' \<and> kernel_answer rt input (SNAPSHOT (guest s)) = None))))"
proof -
  obtain r1 u where u: "scan_export rt ip len s = (r1, u)" by fastforce
  note e1 = scan_export_run [OF assms(1,2,3) u assms(5)]
  consider "r1 = Inl wasm_trap" | "r1 = Inr (- 1)" "kernel_answer rt input (SNAPSHOT (guest s)) = None"
    | out where "kernel_answer rt input (SNAPSHOT (guest s)) = Some out" "r1 = Inr (int (length out))"
      "length out \<le> outputCapacity u \<Longrightarrow> region (outputPointer u) (length out) (memory (guest u)) = out"
    using e1(6)
  proof (elim disjE exE conjE)
    assume "r1 = Inl wasm_trap"
    then show thesis by (rule that(1))
  next
    assume "r1 = Inr (- 1)" "kernel_answer rt input (SNAPSHOT (guest s)) = None"
    then show thesis by (rule that(2))
  next
    fix out assume "kernel_answer rt input (SNAPSHOT (guest s)) = Some out" "r1 = Inr (int (length out))"
      and "length out \<le> outputCapacity u \<longrightarrow> region (outputPointer u) (length out) (memory (guest u)) = out"
    then show thesis using that(3) by simp
  qed
  then show ?thesis
  proof cases
    case 1
    then show ?thesis using u e1(1-3) assms(6) by (auto simp: scan_and_read_def bind_op_def)
  next
    case 2
    then show ?thesis using u e1(1-3) assms(6) by (auto simp: scan_and_read_def bind_op_def FyloWasmError_def)
  next
    case 3
    consider "length out \<le> outputCapacity u" | "length out > outputCapacity u" "length out > MAX_OUTPUT_BYTES"
      | "length out > outputCapacity u" "length out \<le> MAX_OUTPUT_BYTES" by linarith
    then show ?thesis
    proof cases
      case 1
      then show ?thesis using u e1(1-3) 3 assms(6) by (auto simp: scan_and_read_def bind_op_def read_output_def output_lines_def)
    next
      case 2
      then show ?thesis using u e1(1-3) 3 assms(6) by (auto simp: scan_and_read_def bind_op_def FyloWasmError_def)
    next
      case big: 3
      obtain r2 v where v: "ensureOutput rt (length out) u = (r2, v)" by fastforce
      note e2 = ensureOutput_run [OF assms(1) e1(1) v]
      have run: "scan_and_read rt ip len s = (case r2 of Inl e \<Rightarrow> (Inl e, v) | Inr _ \<Rightarrow> bind_op (scan_export rt ip len) read_output v)"
        using u 3 big v by (simp add: scan_and_read_def bind_op_def seq_op_def split: sum.split)
      show ?thesis
      proof (cases r2)
        case (Inl e)
        then show ?thesis using run assms(6) e1(2,3) e2(1,2,4) e2(6) [OF Inl] by simp
      next
        case (Inr x)
        then have ok: "r2 = Inr ()" by simp
        note e2' = e2(5) [OF ok]
        have rv: "region ip len (memory (guest v)) = input"
          using region_undisturbed [OF e2(3)] region_undisturbed [OF e1(5)] assms(4,5) e1(2) by simp
        obtain r3 x where x: "scan_export rt ip len v = (r3, x)" by fastforce
        note e3 = scan_export_run [OF assms(1) e2(1) assms(3) x rv]
        have "kernel_answer rt input (SNAPSHOT (guest v)) = Some out" using 3(1) e1(3) e2(2) by simp
        with e3(4,6) e2' have "r3 = Inl wasm_trap \<or> r3 = Inr (int (length out)) \<and> region (outputPointer x) (length out) (memory (guest x)) = out"
          by auto
        then have "r = Inl wasm_trap \<and> t = x \<or> r = Inr (output_lines out) \<and> t = x"
          using run ok x assms(6) e3(4) e2' by (auto simp: bind_op_def read_output_def output_lines_def)
        moreover have "extra live x = extra live s" "SNAPSHOT (guest x) = SNAPSHOT (guest s)"
          using e3(2,3) e2' e2(2) e1(2,3) by simp_all
        ultimately show ?thesis using e3(1) 3(1) by auto
      qed
    qed
  qed
qed

lemma scanQueries_run:
  assumes "heap_contract rt live good" "sound live good s" "scanQueries rt queries s = (r, t)"
    and "input = utf8_encode (json_text (JArr queries))"
  shows "sound live good t \<and> SNAPSHOT (guest t) = SNAPSHOT (guest s) \<and> extra live s \<subseteq> extra live t \<and>
    ((\<exists>out. r = Inr (output_lines out) \<and> kernel_answer rt input (SNAPSHOT (guest s)) = Some out \<and> extra live t = extra live s) \<or>
     (\<exists>e. r = Inl e \<and> (err_code e = Some ''EWASM_MEMORY'' \<or> extra live t = extra live s \<and>
        (e = wasm_trap \<or> err_code e = Some ''EWASM_QUERY'' \<and>
          (length input > MAX_QUERY_BYTES \<or> kernel_answer rt input (SNAPSHOT (guest s)) = None)))))"
proof (cases "length input > MAX_QUERY_BYTES")
  case True
  then show ?thesis using assms(2-4) by (auto simp: scanQueries_def Let_def FyloWasmError_def)
next
  case False
  obtain q u where q: "allocateRegion rt (length input) ''query'' s = (q, u)" by fastforce
  note a = allocate_extra [OF assms(1,2) q]
  show ?thesis
  proof (cases q)
    case (Inl e)
    then show ?thesis using False q a assms(3,4) by (auto simp: scanQueries_def Let_def bind_op_def)
  next
    case (Inr ip)
    have pos: "0 < length input" by (simp add: assms(4) utf8_encode_def utf8_char_def)
    note ai = a(7) [OF Inr]
    then have ip: "0 < ip" and ui: "extra live u = insert (ip, length input) (extra live s)" "(ip, length input) \<notin> extra live s"
      using pos by (auto simp: extra_def)
    have "(ip, length input) \<in> live_in live u" using ui by (auto simp: extra_def)
    from copy_in_run [OF assms(1) a(1) this, of "FyloWasmError ''EWASM_MEMORY'' ''Unable to copy the FYLO query into Wasm memory''"]
    obtain v where v: "copy_in ip input (FyloWasmError ''EWASM_MEMORY'' ''Unable to copy the FYLO query into Wasm memory'') u = (Inr (), v)"
      "sound live good v" "live_in live v = live_in live u" "outputPointer v = outputPointer u" "outputCapacity v = outputCapacity u"
      "SNAPSHOT (guest v) = SNAPSHOT (guest u)" "region ip (length input) (memory (guest v)) = input" by blast
    have vx: "extra live v = extra live u" by (rule extra_cong [OF v(3-5)])
    obtain r1 x where x: "ensureOutput rt (max (outputCapacity v) INITIAL_OUTPUT_CAPACITY) v = (r1, x)" by fastforce
    note e = ensureOutput_run [OF assms(1) v(2) x]
    obtain r2 y where y: "scan_and_read rt ip (length input) x = (r2, y)" by fastforce
    have run: "scanQueries rt queries s = (case r1 of Inl e \<Rightarrow> (Inl e, x) | Inr _ \<Rightarrow> (r2, deallocate rt ip (length input) y))"
      using False q Inr v(1) x y assms(4)
      by (simp add: scanQueries_def Let_def bind_op_def seq_op_def finally_op_def split: sum.split)
    show ?thesis
    proof (cases r1)
      case (Inl err)
      then show ?thesis using run assms(3) e(1,2,4) e(6) [OF Inl] v(6) a(2) vx ui by auto
    next
      case (Inr z)
      then have ok: "r1 = Inr ()" by simp
      have ex: "extra live x = extra live v" using e(5) [OF ok] by simp
      have i: "(ip, length input) \<in> extra live x" using ex vx ui by simp
      have "region ip (length input) (memory (guest x)) = input"
        using region_undisturbed [OF e(3)] i ex v(7) by simp
      note s = scan_and_read_run [OF assms(1) e(1) ip i this y]
      then have sy: "sound live good y" "(ip, length input) \<in> extra live y" using i by auto
      note d = deallocate_extra [OF assms(1) sy(1) disjI2 [OF sy(2)]]
      have "extra live s \<subseteq> extra live y - {(ip, length input)}" using s ex vx ui by auto
      moreover have "extra live y = extra live x \<Longrightarrow> extra live y - {(ip, length input)} = extra live s" using ex vx ui by auto
      moreover have "SNAPSHOT (guest x) = SNAPSHOT (guest s)" using e(2) v(6) a(2) by simp
      ultimately show ?thesis
        using run assms(3) ok s d pos by auto
    qed
  qed
qed

subsection \<open>Sessions\<close>

definition request_of :: "string \<times> query_prefix \<Rightarrow> jsval" where
  "request_of x = (case x of (p, entry) \<Rightarrow> scan_request (index_prefix p (kind entry) (valuePrefix entry)) (range entry))"

definition query_of :: "string \<times> query_prefix \<Rightarrow> scan_query" where
  "query_of x = (case x of (p, entry) \<Rightarrow> kernel_query (index_prefix p (kind entry) (valuePrefix entry)) (range entry))"

fun scan_session :: "'a wasm_runtime \<Rightarrow> (string \<times> query_prefix) list \<Rightarrow> 'a wasm_scanner \<Rightarrow> string list result list" where
  "scan_session rt [] s = []"
| "scan_session rt (x # xs) s = (case scanQueries rt [request_of x] s of (r, t) \<Rightarrow> r # scan_session rt xs t)"

definition ascii_entry :: "string \<times> query_prefix \<Rightarrow> bool" where
  "ascii_entry x \<longleftrightarrow> (case x of (p, entry) \<Rightarrow> is_ascii (index_prefix p (kind entry) (valuePrefix entry)) \<and> ascii_bound (range entry))"

text \<open>The limits of the host and of the kernel on one request.\<close>

definition over_limits :: "string list \<Rightarrow> string \<times> query_prefix \<Rightarrow> bool" where
  "over_limits ks x \<longleftrightarrow> length (utf8_encode (json_text (JArr [request_of x]))) > MAX_QUERY_BYTES \<or>
     validate_queries default_limits [query_of x] \<noteq> Inr () \<or>
     (case javascript_scan (serializeSnapshot ks) (fst x) (snd x) of
        Inl _ \<Rightarrow> False
      | Inr ids \<Rightarrow> length ids > max_matches default_limits \<or> length (lines_text ids) > max_output_bytes default_limits)"

text \<open>An answer is the one of the search in JavaScript; anything else is a trap, a failed allocation or a limit.\<close>

definition answers_as_javascript :: "string list \<Rightarrow> string \<times> query_prefix \<Rightarrow> string list result \<Rightarrow> bool" where
  "answers_as_javascript ks x r \<longleftrightarrow>
     (case r of
        Inr ids \<Rightarrow> javascript_scan (serializeSnapshot ks) (fst x) (snd x) = Inr ids
      | Inl e \<Rightarrow> e = wasm_trap \<or> err_code e = Some ''EWASM_MEMORY'' \<or> err_code e = Some ''EWASM_QUERY'' \<and> over_limits ks x)"

lemma output_lines_text: "\<forall>d\<in>set ids. d \<noteq> [] \<and> newline \<notin> set d \<and> is_ascii d \<Longrightarrow> output_lines (lines_text ids) = ids"
proof -
  assume ids: "\<forall>d\<in>set ids. d \<noteq> [] \<and> newline \<notin> set d \<and> is_ascii d"
  then have "is_ascii (lines_text ids)" by (induction ids) auto
  moreover have "filter (\<lambda>l. l \<noteq> []) ids = ids" using ids by (simp add: filter_id_conv)
  ultimately show ?thesis using ids by (simp add: output_lines_def utf8_decode_ascii split_lines)
qed

lemma good_key_doc: "good_key k \<Longrightarrow> key_doc k \<noteq> [] \<and> newline \<notin> set (key_doc k) \<and> is_ascii (key_doc k)"
proof -
  assume k: "good_key k"
  have "set (key_doc k) \<subseteq> set k" using set_split_on [of "last (split_on CHR ''/'' k)" "CHR ''/''" k] by (simp add: key_doc_def)
  moreover have "key_doc k \<noteq> []" using k by (auto simp: good_key_def isTTID_def)
  ultimately show ?thesis using k by (auto simp: good_key_def line_safe_def is_ascii_def list_all_iff)
qed

lemma scan_answer:
  assumes "heap_contract rt live good" "serde_reads rt" "sound live good s" "SNAPSHOT (guest s) = Some (serializeSnapshot ks)"
    and "\<forall>k\<in>set ks. good_key k" "sorted ks" "ascii_entry x" "scanQueries rt [request_of x] s = (r, t)"
  shows "answers_as_javascript ks x r" "sound live good t" "SNAPSHOT (guest t) = Some (serializeSnapshot ks)"
proof -
  obtain p entry where x: "x = (p, entry)" by fastforce
  let ?input = "utf8_encode (json_text (JArr [request_of x]))"
  note run = scanQueries_run [OF assms(1,3,8) refl]
  show "sound live good t" "SNAPSHOT (guest t) = Some (serializeSnapshot ks)" using run assms(4) by simp_all
  have slice: "from_slice rt ?input = Some [query_of x]"
    using assms(2) by (simp add: serde_reads_def request_of_def query_of_def x)
  have asc: "is_ascii (index_prefix p (kind entry) (valuePrefix entry))" "ascii_bound (range entry)"
    using assms(7) by (simp_all add: ascii_entry_def x)
  note agrees = scan_encoded_agrees [OF assms(5,6) asc, of default_limits]
  let ?ids = "foldl push_new [] (map key_doc (filter (key_matches p entry) ks))"
  have js: "javascript_scan (serializeSnapshot ks) p entry = Inr ?ids" by (rule javascript_scan_list [OF assms(5,6)])
  have ids: "output_lines (lines_text ?ids) = ?ids"
    using assms(5) good_key_doc by (intro output_lines_text) (auto simp: push_new_fold)
  have some: "out = lines_text ?ids" if "kernel_answer rt ?input (Some (serializeSnapshot ks)) = Some out" for out
    using that agrees js slice
    by (auto simp: kernel_answer_def parse_queries_def query_of_def x split: sum.splits if_splits)
  have none: "over_limits ks x" if "kernel_answer rt ?input (Some (serializeSnapshot ks)) = None"
  proof (rule ccontr)
    assume no: "\<not> over_limits ks x"
    then have lim: "length ?input \<le> max_input_bytes default_limits" "validate_queries default_limits [query_of x] = Inr ()"
      "length ?ids \<le> max_matches default_limits" "length (lines_text ?ids) \<le> max_output_bytes default_limits"
      using js by (simp_all add: over_limits_def x MAX_QUERY_BYTES_def default_limits_def)
    from scan_encoded_total [OF assms(5,6) asc js lim(3,4)] lim(2)
    have "scan_encoded (serializeSnapshot ks) [query_of x] default_limits = Inr (lines_text ?ids)" by (simp add: query_of_def x)
    moreover have "length (lines_text ?ids) < 2 ^ 31" using lim(4) by (simp add: default_limits_def)
    ultimately show False
      using that slice lim(1,2) by (simp add: kernel_answer_def parse_queries_def)
  qed
  show "answers_as_javascript ks x r"
    using run some none ids js assms(4)
    by (auto simp: answers_as_javascript_def x over_limits_def)
qed

text \<open>C8. The WebAssembly scanner is the search in JavaScript: once a scanner in any sound state has taken a snapshot the
  index wrote, whatever its allocator does, every answer it gives to the requests that follow is the list of the search
  in JavaScript, in the same order; it refuses only by a trap of the module, a failed allocation or a limit.\<close>

theorem wasm_session_agrees:
  assumes "heap_contract rt live good" "serde_reads rt" "sound live good s" "loadSnapshot rt (serializeSnapshot ks) s = (Inr (), t)"
    and "\<forall>k\<in>set ks. good_key k" "sorted ks" "\<forall>x\<in>set xs. ascii_entry x"
  shows "list_all2 (answers_as_javascript ks) xs (scan_session rt xs t)"
proof -
  have "sound live good t" "SNAPSHOT (guest t) = Some (serializeSnapshot ks)"
    using loadSnapshot_run [OF assms(1,3,4)] by auto
  with assms(7) show ?thesis
  proof (induction xs arbitrary: t)
    case (Cons x xs)
    obtain r u where u: "scanQueries rt [request_of x] t = (r, u)" by fastforce
    have "ascii_entry x" using Cons.prems(1) by simp
    note a = scan_answer [OF assms(1,2) Cons.prems(2,3) assms(5,6) this u]
    show ?case using Cons.IH [OF _ a(2,3)] Cons.prems(1) a(1) by (simp add: u)
  qed simp
qed

subsection \<open>Searching through the scanner\<close>

text \<open>
  The scanner the index creates.  The index asks a scanner that has taken its snapshot; here every request starts from the
  same sound state and takes the snapshot first, which \<open>wasm_session_agrees\<close> shows to give the same answers.
\<close>

definition wasm_factory :: "'a wasm_runtime \<Rightarrow> 'a wasm_scanner \<Rightarrow> scanner_factory" where
  "wasm_factory rt s = \<lparr> factory_ready = Inr (), factory_create = Inr (), scanner_load = (\<lambda>bs. fst (loadSnapshot rt bs s)),
     scanner_scan = (\<lambda>bs full bound. fst (seq_op (loadSnapshot rt bs) (scanQueries rt [scan_request full bound]) s)) \<rparr>"

lemma decode_doc_ids_TTID: "\<forall>d\<in>set ids. isTTID d \<Longrightarrow> decode_doc_ids ids = Inr ids"
proof (induction ids)
  case (Cons d ids)
  have "decodeSegment d = Inr d" using decode_encodeSegment [of d] encode_TTID Cons.prems by simp
  with Cons show ?case by simp
qed simp

lemma wasm_factory_agrees:
  assumes "heap_contract rt live good" "serde_reads rt" "sound live good s" "indexScannerFactory env = Some (wasm_factory rt s)"
    and "\<forall>k\<in>set ks. good_key k" "sorted ks" "ascii_entry (p, entry)"
  shows "scanner_agrees env (serializeSnapshot ks) (index_prefix p (kind entry) (valuePrefix entry)) (index_prefix p (kind entry) []) (range entry)"
  unfolding scanner_agrees_def
proof (intro allI impI)
  fix f ids
  let ?full = "index_prefix p (kind entry) (valuePrefix entry)"
  assume "indexScannerFactory env = Some f" and r: "bind_result (scanner_scan f (serializeSnapshot ks) ?full (range entry)) decode_doc_ids = Inr ids"
  then have f: "f = wasm_factory rt s" using assms(4) by simp
  obtain raw where raw: "fst (seq_op (loadSnapshot rt (serializeSnapshot ks)) (scanQueries rt [request_of (p, entry)]) s) = Inr raw"
    "decode_doc_ids raw = Inr ids"
    using r by (auto simp: f wasm_factory_def request_of_def elim: bind_result_InrE)
  obtain x t where t: "loadSnapshot rt (serializeSnapshot ks) s = (x, t)" by fastforce
  then have x: "x = Inr ()" using raw(1) by (cases x) (simp_all add: seq_op_def bind_op_def)
  have st: "sound live good t" "SNAPSHOT (guest t) = Some (serializeSnapshot ks)"
    using loadSnapshot_run [OF assms(1,3) t] x by auto
  obtain u where "scanQueries rt [request_of (p, entry)] t = (Inr raw, u)"
    using raw(1) t x by (cases "scanQueries rt [request_of (p, entry)] t") (simp add: seq_op_def bind_op_def)
  from scan_answer(1) [OF assms(1,2) st assms(5-7) this]
  have js: "javascript_scan (serializeSnapshot ks) p entry = Inr raw" by (simp add: answers_as_javascript_def)
  then have "set raw \<subseteq> key_doc ` set ks" using javascript_scan_exact [OF assms(5,6), of p entry] by auto
  then have "\<forall>d\<in>set raw. isTTID d" using assms(5) by (auto simp: good_key_def)
  then have "ids = raw" using raw(2) decode_doc_ids_TTID by simp
  with js show "\<exists>js. scanSnapshotWithJavaScript (serializeSnapshot ks) ?full (index_prefix p (kind entry) []) (range entry) = Inr js \<and> set js = set ids"
    by (simp add: javascript_scan_def)
qed


subsection \<open>The balance of allocations\<close>

datatype scanner_call = Load bytes | Scan "jsval list" | Close

definition scanner_run :: "'a wasm_runtime \<Rightarrow> scanner_call \<Rightarrow> 'a wasm_scanner \<Rightarrow> js_error option \<times> 'a wasm_scanner" where
  "scanner_run rt call s =
     (case call of
        Load bs \<Rightarrow> (case loadSnapshot rt bs s of (Inl e, t) \<Rightarrow> (Some e, t) | (Inr _, t) \<Rightarrow> (None, t))
      | Scan queries \<Rightarrow> (case scanQueries rt queries s of (Inl e, t) \<Rightarrow> (Some e, t) | (Inr _, t) \<Rightarrow> (None, t))
      | Close \<Rightarrow> (None, scanner_close rt s))"

fun scanner_runs :: "'a wasm_runtime \<Rightarrow> scanner_call list \<Rightarrow> 'a wasm_scanner \<Rightarrow> js_error option list \<times> 'a wasm_scanner" where
  "scanner_runs rt [] s = ([], s)"
| "scanner_runs rt (call # calls) s =
     (case scanner_run rt call s of (e, t) \<Rightarrow> (case scanner_runs rt calls t of (es, u) \<Rightarrow> (e # es, u)))"

definition out_of_memory :: "js_error option \<Rightarrow> bool" where
  "out_of_memory e \<longleftrightarrow> (case e of None \<Rightarrow> False | Some e \<Rightarrow> err_code e = Some ''EWASM_MEMORY'')"

lemma scanner_close_run:
  assumes "heap_contract rt live good" "sound live good s"
  shows "sound live good (scanner_close rt s)" "live_in live (scanner_close rt s) = extra live s" "extra live (scanner_close rt s) = extra live s"
proof -
  define t where "t = (if outputPointer s \<noteq> 0 then deallocate rt (outputPointer s) (outputCapacity s) s else s)"
  have good: "good (allocator (guest s)) (memory (guest s))" using assms(2) by (simp add: sound_def)
  have "good (allocator (guest t)) (memory (guest t)) \<and> live_in live t = extra live s"
  proof (cases "outputPointer s = 0")
    case True
    then show ?thesis using good by (simp add: t_def extra_def held_def)
  next
    case False
    then have l: "(outputPointer s, outputCapacity s) \<in> live_in live s" using assms(2) by (simp add: sound_def held_def)
    then have "0 < outputCapacity s" using heap_contractD(1) [OF assms(1) good] by (simp add: live_in_def)
    then show ?thesis using False deallocate_run(1,2) [OF assms(1) good disjI2 [OF l]] by (simp add: t_def extra_def held_def)
  qed
  moreover have c: "scanner_close rt s = t\<lparr> outputPointer := 0, outputCapacity := 0 \<rparr>" by (simp add: scanner_close_def t_def)
  ultimately show "sound live good (scanner_close rt s)" "live_in live (scanner_close rt s) = extra live s" "extra live (scanner_close rt s) = extra live s"
    by (simp_all add: c sound_def held_def live_in_def extra_def)
qed

lemma scanner_run_extra:
  assumes "heap_contract rt live good" "sound live good s" "scanner_run rt call s = (e, t)"
  shows "sound live good t \<and> (\<not> out_of_memory e \<longrightarrow> extra live t = extra live s)"
proof (cases call)
  case (Load bs)
  obtain r u where "loadSnapshot rt bs s = (r, u)" by fastforce
  with loadSnapshot_run [OF assms(1,2) this] assms(3) Load show ?thesis
    by (auto simp: scanner_run_def out_of_memory_def)
next
  case (Scan queries)
  obtain r u where "scanQueries rt queries s = (r, u)" by fastforce
  with scanQueries_run [OF assms(1,2) this refl] assms(3) Scan show ?thesis
    by (auto simp: scanner_run_def out_of_memory_def)
next
  case Close
  with scanner_close_run [OF assms(1,2)] assms(3) show ?thesis by (auto simp: scanner_run_def)
qed

text \<open>C9. The host returns what it borrows: over any sequence of loads, scans and closes of which none reports a failed
  allocation, whatever else fails, the only region it still holds at the end is its output buffer, and after a close none.\<close>

theorem wasm_memory_balanced:
  assumes "heap_contract rt live good" "balanced live good s" "scanner_runs rt calls s = (es, t)" "\<forall>e\<in>set es. \<not> out_of_memory e"
  shows "balanced live good t \<and> live_in live (scanner_close rt t) = {}"
proof -
  have "sound live good t \<and> extra live t = {}"
    using assms(2-4)
  proof (induction calls arbitrary: s es)
    case (Cons call calls)
    obtain e u where u: "scanner_run rt call s = (e, u)" by fastforce
    obtain fs where es: "scanner_runs rt calls u = (fs, t)" "es = e # fs"
      using Cons.prems(2) u by (auto split: prod.splits)
    have "sound live good s" using Cons.prems(1) by (simp add: balanced_def)
    from scanner_run_extra [OF assms(1) this u] Cons.prems(1,3) es(2) have "balanced live good u" by (simp add: balanced_extra)
    with Cons.IH [OF _ es(1)] Cons.prems(3) es(2) show ?case by simp
  qed (simp add: balanced_extra)
  then show ?thesis using scanner_close_run(2) [OF assms(1), of t] by (simp add: balanced_extra)
qed

subsection \<open>A runtime\<close>

text \<open>A runtime for the witnesses: an allocator that only moves forward and the JSON parser of the model.\<close>

definition bump_alloc :: "nat \<Rightarrow> nat \<times> (nat \<times> nat) list \<Rightarrow> bytes \<Rightarrow> (nat \<times> (nat \<times> (nat \<times> nat) list) \<times> bytes) option" where
  "bump_alloc n a mem =
     (if n = 0 then Some (1, a, mem)
      else if fst a + n \<ge> 2 ^ 31 then None
      else Some (fst a, (fst a + n, (fst a, n) # snd a), mem @ replicate (fst a + n - length mem) CHR 0x00))"

definition bump_free :: "nat \<Rightarrow> nat \<Rightarrow> nat \<times> (nat \<times> nat) list \<Rightarrow> bytes \<Rightarrow> (nat \<times> (nat \<times> nat) list) \<times> bytes" where
  "bump_free p n a mem = ((fst a, removeAll (p, n) (snd a)), mem)"

definition bump_live :: "nat \<times> (nat \<times> nat) list \<Rightarrow> (nat \<times> nat) set" where
  "bump_live a = set (snd a)"

definition bump_good :: "nat \<times> (nat \<times> nat) list \<Rightarrow> bytes \<Rightarrow> bool" where
  "bump_good a mem \<longleftrightarrow> 0 < fst a \<and> fst a \<le> length mem \<and> fst a < 2 ^ 32 \<and>
     (\<forall>(p, n) \<in> bump_live a. 0 < p \<and> 0 < n \<and> p + n \<le> fst a) \<and>
     (\<forall>(p, n) \<in> bump_live a. \<forall>(q, k) \<in> bump_live a. (p, n) \<noteq> (q, k) \<longrightarrow> p + n \<le> q \<or> q + k \<le> p)"

definition serde_operator :: "string \<Rightarrow> range_operator option" where
  "serde_operator s = (if s = ''$gt'' then Some GreaterThan else if s = ''$gte'' then Some GreaterThanOrEqual
     else if s = ''$lt'' then Some LessThan else if s = ''$lte'' then Some LessThanOrEqual else None)"

definition serde_range :: "jsval \<Rightarrow> (range_operator \<times> bytes) option option" where
  "serde_range v =
     (case v of
        JObj ob \<Rightarrow> (case (obj_get ob ''op'', obj_get ob ''value'') of
            (JStr operator, JStr value) \<Rightarrow> map_option (\<lambda>k. Some (k, utf8_encode value)) (serde_operator operator)
          | _ \<Rightarrow> None)
      | JUndef \<Rightarrow> Some None | JNull \<Rightarrow> Some None | _ \<Rightarrow> None)"

definition serde_query :: "jsval \<Rightarrow> scan_query option" where
  "serde_query v =
     (case v of
        JObj ob \<Rightarrow> (case obj_get ob ''prefix'' of
            JStr full \<Rightarrow> map_option (\<lambda>r. \<lparr> scan_prefix = utf8_encode full, scan_range = r \<rparr>) (serde_range (obj_get ob ''range''))
          | _ \<Rightarrow> None)
      | _ \<Rightarrow> None)"

definition serde_queries :: "bytes \<Rightarrow> scan_query list option" where
  "serde_queries input =
     (case json_parse (utf8_decode input) of Inr (JArr vs) \<Rightarrow> those (map serde_query vs) | _ \<Rightarrow> None)"

definition bump_runtime :: "(nat \<times> (nat \<times> nat) list) wasm_runtime" where
  "bump_runtime = \<lparr> vec_with_capacity = bump_alloc, drop_vec = bump_free, own_work = (\<lambda>bs a mem. Some (a, mem)), from_slice = serde_queries \<rparr>"

lemma undisturbed_append [simp]: "(\<forall>(p, n) \<in> R. p + n \<le> length mem) \<Longrightarrow> undisturbed R mem (mem @ xs)"
  by (auto simp: undisturbed_def region_def)

lemma bump_contract: "heap_contract bump_runtime bump_live bump_good"
  unfolding heap_contract_def
proof (intro allI impI conjI)
  fix a mem assume good: "bump_good a mem"
  show "\<forall>(p, n)\<in>bump_live a. 0 < p \<and> 0 < n \<and> p + n \<le> length mem" using good by (fastforce simp: bump_good_def)
  show "\<forall>(p, n)\<in>bump_live a. \<forall>(q, k)\<in>bump_live a. (p, n) \<noteq> (q, k) \<longrightarrow> p + n \<le> q \<or> q + k \<le> p"
    using good unfolding bump_good_def by blast
next
  fix a mem n p a' mem' assume good: "bump_good a mem" and alloc: "vec_with_capacity bump_runtime n a mem = Some (p, a', mem')"
  show "bump_good a' mem'" using good alloc
    by (fastforce simp: bump_runtime_def bump_alloc_def bump_good_def bump_live_def split: if_splits)
  show "undisturbed (bump_live a) mem mem'" using good alloc
    by (fastforce simp: bump_runtime_def bump_alloc_def bump_good_def split: if_splits intro!: undisturbed_append)
  show "0 < p" "p < 2 ^ 32" using good alloc
    by (auto simp: bump_runtime_def bump_alloc_def bump_good_def split: if_splits)
  show "if n = 0 then bump_live a' = bump_live a else (p, n) \<notin> bump_live a \<and> bump_live a' = insert (p, n) (bump_live a)"
    using good alloc by (fastforce simp: bump_runtime_def bump_alloc_def bump_good_def bump_live_def split: if_splits)
next
  fix a mem p n a' mem' assume good: "bump_good a mem" and l: "(p, n) \<in> bump_live a" and d: "drop_vec bump_runtime p n a mem = (a', mem')"
  have d': "a' = (fst a, removeAll (p, n) (snd a))" "mem' = mem" using d by (simp_all add: bump_runtime_def bump_free_def)
  then show "bump_live a' = bump_live a - {(p, n)}" by (simp add: bump_live_def)
  show "bump_good a' mem'" using good unfolding d' bump_good_def bump_live_def by (auto simp: fst_def)
  show "undisturbed (bump_live a') mem mem'" by (simp add: d'(2))
next
  fix a mem p n bs assume good: "bump_good a mem" and l: "(p, n) \<in> bump_live a" and len: "length (bs :: bytes) \<le> (n :: nat)"
  have "p + n \<le> length mem" using good l by (fastforce simp: bump_good_def)
  then show "bump_good a (overwrite p bs mem)" using good len by (simp add: bump_good_def)
qed (auto simp: bump_runtime_def)

lemma bump_serde: "serde_reads bump_runtime"
  unfolding serde_reads_def
proof (intro allI)
  fix full bound
  have "json_safe (JArr [scan_request full bound])"
    by (cases bound) (simp_all add: scan_request_def canonical_obj_def obj_of_def obj_assign_def obj_put_def obj_insert_def is_index_key_def is_digit_def)
  then have "json_parse (utf8_decode (utf8_encode (json_text (JArr [scan_request full bound])))) = Inr (JArr [scan_request full bound])"
    by (simp only: utf8_decode_encode json_parse_text)
  moreover have "serde_query (scan_request full bound) = Some (kernel_query full bound)"
  proof (cases bound)
    case (Some r)
    then show ?thesis
      by (cases "range_op r") (simp_all add: serde_query_def serde_range_def serde_operator_def scan_request_def obj_get_def range_key_def
          kernel_query_def kernel_bound_def kernel_operator_def)
  qed (simp add: serde_query_def serde_range_def scan_request_def obj_get_def kernel_query_def kernel_bound_def)
  ultimately show "from_slice bump_runtime (utf8_encode (json_text (JArr [scan_request full bound]))) = Some [kernel_query full bound]"
    by (simp only: bump_runtime_def serde_queries_def wasm_runtime.simps sum.case jsval.case) simp
qed

definition bump_scanner :: "(nat \<times> (nat \<times> nat) list) wasm_scanner" where
  "bump_scanner = \<lparr> outputPointer = 0, outputCapacity = 0,
     guest = \<lparr> memory = replicate 16 CHR 0x00, allocator = (16, []), SNAPSHOT = None \<rparr> \<rparr>"

lemma bump_balanced: "balanced bump_live bump_good bump_scanner"
  by (simp add: balanced_def sound_def held_def live_in_def bump_scanner_def bump_live_def bump_good_def)

definition demo_keys :: "string list" where
  "demo_keys = [''a/eq/1/4VLN5QUCDP0'', ''a/eq/1/4VLN5QUCDP1'']"

definition demo_entry :: "string \<times> query_prefix" where
  "demo_entry = (''a'', \<lparr> kind = ''eq'', valuePrefix = ''1/'', range = None \<rparr>)"

lemma demo_keys_good: "\<forall>k\<in>set demo_keys. good_key k" "sorted demo_keys" "\<forall>x\<in>set [demo_entry]. ascii_entry x"
proof -
  have t: "isTTID ''4VLN5QUCDP0''" "isTTID ''4VLN5QUCDP1''" by code_simp+
  have d: "key_doc ''a/eq/1/4VLN5QUCDP0'' = ''4VLN5QUCDP0''" "key_doc ''a/eq/1/4VLN5QUCDP1'' = ''4VLN5QUCDP1''"
    by (simp_all add: key_doc_def)
  show "\<forall>k\<in>set demo_keys. good_key k" using t by (simp add: demo_keys_def good_key_def d line_safe_def)
  show "sorted demo_keys" by (simp add: demo_keys_def less_char_def less_eq_char_def)
  have "ascii_entry demo_entry" by code_simp
  then show "\<forall>x\<in>set [demo_entry]. ascii_entry x" by simp
qed

lemma demo_load: "\<exists>t. loadSnapshot bump_runtime (serializeSnapshot demo_keys) bump_scanner = (Inr (), t) \<and>
  memory (guest t) = replicate 16 CHR 0x00 @ serializeSnapshot demo_keys \<and> allocator (guest t) = (54, []) \<and> outputPointer t = 0 \<and> outputCapacity t = 0"
proof -
  have k: "serializeSnapshot demo_keys = ''a/eq/1/4VLN5QUCDP0'' @ newline # ''a/eq/1/4VLN5QUCDP1'' @ [newline]"
    by (simp add: serializeSnapshot_def demo_keys_def)
  have len: "length (serializeSnapshot demo_keys) = 38" by (simp add: k)
  have ne: "serializeSnapshot demo_keys \<noteq> []" by (simp add: k)
  have acc: "from_bytes default_limits (serializeSnapshot demo_keys) = Inr (serializeSnapshot demo_keys)"
    using demo_keys_good(1) by (intro from_bytes_lines)
      (auto simp: demo_keys_def default_limits_def good_key_def serializeSnapshot_def less_char_def)
  show ?thesis
    by (simp add: loadSnapshot_def len ne acc MAX_SNAPSHOT_BYTES_def allocateRegion_def on_guest_def wasm_allocate_def bump_runtime_def bump_alloc_def
        bump_scanner_def as_i32_def Let_def bind_op_def finally_op_def seq_op_def copy_in_def overwrite_def wasm_load_snapshot_def region_def
        deallocate_def wasm_deallocate_def bump_free_def)
qed

lemma demo_answer:
  "kernel_answer bump_runtime (utf8_encode (json_text (JArr [request_of demo_entry]))) (Some (serializeSnapshot demo_keys)) =
     Some (lines_text [''4VLN5QUCDP0'', ''4VLN5QUCDP1''])"
proof -
  let ?e = "snd demo_entry"
  have slice: "from_slice bump_runtime (utf8_encode (json_text (JArr [request_of demo_entry]))) = Some [query_of demo_entry]"
    using bump_serde by (simp add: serde_reads_def request_of_def query_of_def demo_entry_def)
  have js: "javascript_scan (serializeSnapshot demo_keys) ''a'' ?e = Inr [''4VLN5QUCDP0'', ''4VLN5QUCDP1'']" by code_simp
  have full: "index_prefix ''a'' (kind ?e) (valuePrefix ?e) = ''a/eq/1/''" by code_simp
  have req: "request_of demo_entry = JObj [(''prefix'', JStr ''a/eq/1/'')]"
    using full by (simp add: request_of_def demo_entry_def scan_request_def)
  have input: "utf8_encode (json_text (JArr [request_of demo_entry])) = CHR ''['' # CHR ''{'' # CHR 0x22 # ''prefix'' @ [CHR 0x22, CHR '':'', CHR 0x22] @ ''a/eq/1/'' @ [CHR 0x22, CHR ''}'', CHR '']'']"
    unfolding req by code_simp
  have q: "query_of demo_entry = \<lparr> scan_prefix = ''a/eq/1/'', scan_range = None \<rparr>"
    using full by (simp add: query_of_def demo_entry_def kernel_query_def kernel_bound_def utf8_encode_def utf8_char_def)
  have v: "validate_queries default_limits [query_of demo_entry] = Inr ()"
    by (simp add: q validate_queries_def default_limits_def)
  have "scan_encoded (serializeSnapshot demo_keys) [query_of demo_entry] default_limits = Inr (lines_text [''4VLN5QUCDP0'', ''4VLN5QUCDP1''])"
    using scan_encoded_total [OF demo_keys_good(1,2) _ _ js, of default_limits] v full demo_keys_good(3)
    by (simp add: query_of_def demo_entry_def ascii_entry_def default_limits_def)
  then show ?thesis
    using slice v unfolding input by (simp add: kernel_answer_def parse_queries_def default_limits_def)
qed

lemma demo_scan:
  assumes "memory (guest t) = replicate 16 CHR 0x00 @ serializeSnapshot demo_keys" "allocator (guest t) = (54, [])"
    and "outputPointer t = 0" "outputCapacity t = 0" "SNAPSHOT (guest t) = Some (serializeSnapshot demo_keys)"
  shows "\<exists>u. scanQueries bump_runtime [request_of demo_entry] t = (Inr [''4VLN5QUCDP0'', ''4VLN5QUCDP1''], u)"
proof -
  define input where "input = utf8_encode (json_text (JArr [request_of demo_entry]))"
  define out where "out = lines_text [''4VLN5QUCDP0'', ''4VLN5QUCDP1'']"
  have "index_prefix ''a'' ''eq'' ''1/'' = ''a/eq/1/''" by code_simp
  then have len: "length input = 22"
    by (simp add: input_def request_of_def demo_entry_def scan_request_def utf8_encode_def utf8_char_def json_quote_def json_escape_def)
  have olen: "length out = 24" by (simp add: out_def)
  have ans: "kernel_answer bump_runtime input (Some (serializeSnapshot demo_keys)) = Some out"
    unfolding input_def out_def by (rule demo_answer)
  have lines: "output_lines out = [''4VLN5QUCDP0'', ''4VLN5QUCDP1'']" unfolding out_def by code_simp
  have lm: "length (memory (guest t)) = 54" by (simp add: assms(1) serializeSnapshot_def demo_keys_def)
  have scan: "\<exists>u. scan_and_read bump_runtime 54 22 s = (Inr (output_lines out), u)"
    if "outputCapacity s = 65536" "outputPointer s = 76" "region 54 22 (memory (guest s)) = input" 
      "SNAPSHOT (guest s) = Some (serializeSnapshot demo_keys)" "length (memory (guest s)) = 65612" for s
  proof -
    have r: "region 76 24 (overwrite 76 out (memory (guest s))) = out"
      using region_overwrite [of 76 out "memory (guest s)"] that(5) olen by simp
    have e: "scan_export bump_runtime 54 22 s = (Inr 24, s\<lparr> guest := (guest s)\<lparr> memory := overwrite 76 out (memory (guest s)) \<rparr> \<rparr>)"
      using ans that olen by (simp add: scan_export_def on_guest_def wasm_scan_eq Let_def bump_runtime_def)
    show ?thesis using that r by (simp add: scan_and_read_def bind_op_def e read_output_def output_lines_def)
  qed
  let ?mem = "overwrite 54 input (memory (guest t) @ replicate 22 CHR 0x00)"
  let ?s = "t\<lparr> guest := (guest t)\<lparr> memory := ?mem @ replicate 65536 CHR 0x00, allocator := (65612, [(76, 65536), (54, 22)]) \<rparr>,
     outputCapacity := 65536, outputPointer := 76 \<rparr>"
  have lmem: "length ?mem = 76" using lm len by simp
  have r1: "allocateRegion bump_runtime 22 ''query'' t =
      (Inr 54, t\<lparr> guest := (guest t)\<lparr> memory := memory (guest t) @ replicate 22 CHR 0x00, allocator := (76, [(54, 22)]) \<rparr> \<rparr>)"
    using lm assms(2) by (simp add: allocateRegion_def on_guest_def wasm_allocate_def bump_runtime_def bump_alloc_def as_i32_def Let_def)
  have r2: "copy_in 54 input e (t\<lparr> guest := (guest t)\<lparr> memory := memory (guest t) @ replicate 22 CHR 0x00, allocator := (76, [(54, 22)]) \<rparr> \<rparr>) =
      (Inr (), t\<lparr> guest := (guest t)\<lparr> memory := ?mem, allocator := (76, [(54, 22)]) \<rparr> \<rparr>)" for e
    using lm len by (simp add: copy_in_def)
  have r3: "ensureOutput bump_runtime 65536 (t\<lparr> guest := (guest t)\<lparr> memory := ?mem, allocator := (76, [(54, 22)]) \<rparr> \<rparr>) = (Inr (), ?s)"
    using lmem assms(3,4) by (simp add: ensureOutput_def MAX_OUTPUT_BYTES_def bind_op_def allocateRegion_def on_guest_def wasm_allocate_def bump_runtime_def
        bump_alloc_def as_i32_def Let_def)
  have "region 54 22 (memory (guest ?s)) = input"
    using region_overwrite [of 54 input "memory (guest t) @ replicate 22 CHR 0x00"] lm len lmem by (simp add: region_def)
  then obtain u where "scan_and_read bump_runtime 54 22 ?s = (Inr (output_lines out), u)"
    using scan [of ?s] lmem assms(5) by auto
  then show ?thesis
    unfolding scanQueries_def input_def [symmetric] Let_def
    using r1 r2 r3 len assms(4) lines
    by (simp add: MAX_QUERY_BYTES_def INITIAL_OUTPUT_CAPACITY_def bind_op_def seq_op_def finally_op_def)
qed

text \<open>The session of the demonstration answers.\<close>

theorem wasm_session_agrees_witness:
  "\<exists>t. loadSnapshot bump_runtime (serializeSnapshot demo_keys) bump_scanner = (Inr (), t) \<and>
     scan_session bump_runtime [demo_entry] t = [Inr [''4VLN5QUCDP0'', ''4VLN5QUCDP1'']] \<and>
     list_all2 (answers_as_javascript demo_keys) [demo_entry] (scan_session bump_runtime [demo_entry] t)"
proof -
  obtain t where t: "loadSnapshot bump_runtime (serializeSnapshot demo_keys) bump_scanner = (Inr (), t)"
    "memory (guest t) = replicate 16 CHR 0x00 @ serializeSnapshot demo_keys" "allocator (guest t) = (54, [])"
    "outputPointer t = 0" "outputCapacity t = 0" using demo_load by blast
  have sound: "sound bump_live bump_good bump_scanner" using bump_balanced by (simp add: balanced_def)
  have "SNAPSHOT (guest t) = Some (serializeSnapshot demo_keys)"
    using loadSnapshot_run [OF bump_contract sound t(1)] by simp
  from demo_scan [OF t(2-5) this] have "scan_session bump_runtime [demo_entry] t = [Inr [''4VLN5QUCDP0'', ''4VLN5QUCDP1'']]" by auto
  with t(1) wasm_session_agrees [OF bump_contract bump_serde sound t(1) demo_keys_good] show ?thesis by blast
qed

theorem wasm_memory_balanced_witness:
  "\<exists>es t. scanner_runs bump_runtime [Load (serializeSnapshot demo_keys), Close] bump_scanner = (es, t) \<and> balanced bump_live bump_good t"
proof -
  obtain t where "loadSnapshot bump_runtime (serializeSnapshot demo_keys) bump_scanner = (Inr (), t)" using demo_load by blast
  then have "scanner_runs bump_runtime [Load (serializeSnapshot demo_keys), Close] bump_scanner = ([None, None], scanner_close bump_runtime t)"
    by (simp add: scanner_run_def)
  with wasm_memory_balanced [OF bump_contract bump_balanced this] show ?thesis by (simp add: out_of_memory_def)
qed


end
