(* ===== verification/Postgrest.thy ===== *)
theory Postgrest imports Records begin

section \<open>The PostgREST style filter grammar (src/src/query/postgrest.js)\<close>

text \<open>
  \<open>queryFromSearch\<close> reads the entries of the search string in order.  Splitting and percent
  decoding the string is \<open>URLSearchParams\<close> of the Web platform, so the decoded entries are the
  argument.  Operator names inherited from \<open>Object.prototype\<close> are outside the model.
\<close>

subsection \<open>Operands\<close>

definition numeric_tail :: "string \<Rightarrow> bool" where
  "numeric_tail s =
     (let rest = dropWhile is_digit s in
      takeWhile is_digit s \<noteq> [] \<and>
      (rest = [] \<or> hd rest = CHR ''.'' \<and> tl rest \<noteq> [] \<and> list_all is_digit (tl rest)))"

definition is_decimal :: "string \<Rightarrow> bool" where
  "is_decimal s = numeric_tail (case s of c # t \<Rightarrow> if c = CHR ''-'' then t else s | [] \<Rightarrow> s)"

definition coerceValue :: "string \<Rightarrow> jsval" where
  "coerceValue s =
     (if s = ''true'' then JBool True else if s = ''false'' then JBool False
      else if s = ''null'' then JNull
      else if is_decimal s then JNum (string_to_number s) else JStr s)"

definition filter_operators :: "(string \<times> string) list" where
  "filter_operators = [(''eq'', ''$eq''), (''ne'', ''$ne''), (''gt'', ''$gt''), (''gte'', ''$gte''),
     (''lt'', ''$lt''), (''lte'', ''$lte''), (''like'', ''$like''), (''contains'', ''$contains'')]"

definition parseFilterOperand :: "string \<Rightarrow> record_obj" where
  "parseFilterOperand s =
     (case index_of CHR ''.'' s of
        None \<Rightarrow> [(''$eq'', coerceValue s)]
      | Some dot \<Rightarrow>
          (case map_of filter_operators (take dot s) of
             None \<Rightarrow> [(''$eq'', coerceValue s)]
           | Some mapped \<Rightarrow>
               (let raw = drop (Suc dot) s in
                [(mapped, if mapped = ''$like'' then JStr raw else coerceValue raw)])))"

subsection \<open>The query\<close>

record search_state =
  search_query :: record_obj
  filters :: record_obj
  hasFilters :: bool

definition filter_fields :: "jsval \<Rightarrow> record_obj" where
  "filter_fields v = (case v of JObj ob \<Rightarrow> ob | _ \<Rightarrow> safeRecord)"

definition add_filter :: "string \<Rightarrow> string \<Rightarrow> search_state \<Rightarrow> search_state" where
  "add_filter key val st = st\<lparr>
     filters := obj_put (filters st) key
       (JObj (obj_assign (filter_fields (obj_get (filters st) key)) (parseFilterOperand val))),
     hasFilters := True \<rparr>"

definition select_items :: "string \<Rightarrow> jsval" where
  "select_items val = JArr (map JStr (filter (\<lambda>item. item \<noteq> []) (map trim (split_on CHR '','' val))))"

definition search_limit :: "string \<Rightarrow> f64 result" where
  "search_limit val =
     (let limit = string_to_number val in
      case f64_to_int limit of
        Some n \<Rightarrow> if n < 0 then Inl (plain_error ''Invalid limit'') else Inr limit
      | None \<Rightarrow> Inl (plain_error ''Invalid limit''))"

fun search_entries :: "(string \<times> string) list \<Rightarrow> search_state \<Rightarrow> search_state result" where
  "search_entries [] st = Inr st"
| "search_entries ((key, val) # rest) st =
     (if key = ''limit'' then bind_result (search_limit val) (\<lambda>limit.
        search_entries rest (st\<lparr> search_query := obj_put (search_query st) ''$limit'' (JNum limit) \<rparr>))
      else if key = ''select'' then
        search_entries rest (st\<lparr> search_query := obj_put (search_query st) ''$select'' (select_items val) \<rparr>)
      else if key = ''onlyIds'' then
        search_entries rest (st\<lparr> search_query := obj_put (search_query st) ''$onlyIds'' (JBool (val = ''true'')) \<rparr>)
      else search_entries rest (add_filter key val st))"

definition queryFromSearch :: "(string \<times> string) list \<Rightarrow> record_obj result" where
  "queryFromSearch entries =
     bind_result (search_entries entries \<lparr> search_query = [], filters = safeRecord, hasFilters = False \<rparr>) (\<lambda>st.
     Inr (if hasFilters st then obj_put (search_query st) ''$ops'' (JArr [JObj (filters st)]) else search_query st))"

end
