(* ===== verification/FilterLaws.thy ===== *)
theory FilterLaws imports Postgrest QueryEngine begin

section \<open>What a search string matches\<close>

text \<open>
  The grammar of the filters against the evaluator of the queries: the query made of filter entries matches
  the documents that satisfy every one of them.
\<close>

subsection \<open>One operand\<close>

definition holds :: "string \<Rightarrow> jsval \<Rightarrow> jsval \<Rightarrow> bool" where
  "holds op val expected \<longleftrightarrow> operand_predicate op val expected = Inr True"

text \<open>Only a pattern that is no string makes a predicate fail.\<close>

lemma predicate_total:
  "op = ''$like'' \<longrightarrow> is_string expected \<Longrightarrow> operand_predicate op val expected = Inr (holds op val expected)"
  by (auto simp: holds_def operand_predicate_def like_value_def is_string_def split: jsval.splits)

lemma match_operators_run:
  "\<forall>op\<in>set ops. get_prop operand op \<noteq> JUndef \<longrightarrow> op = ''$like'' \<longrightarrow> is_string (get_prop operand op) \<Longrightarrow>
   match_operators ops val operand =
     Inr (\<forall>op\<in>set ops. get_prop operand op \<noteq> JUndef \<longrightarrow> holds op val (get_prop operand op))"
proof (induction ops)
  case (Cons op ops)
  then show ?case
    by (cases "get_prop operand op = JUndef"; cases "holds op val (get_prop operand op)") (simp_all add: predicate_total)
qed simp

lemma match_fields_run:
  "\<forall>(field, operand)\<in>set es. js_truthy operand \<and> matchesOperand (getValueByPath doc field) operand = Inr (P field operand) \<Longrightarrow>
   match_fields es doc = Inr (\<forall>(field, operand)\<in>set es. P field operand)"
  by (induction es) auto

subsection \<open>The filters of the entries\<close>

type_synonym filter_entry = "string \<times> string \<times> string"

definition entry_text :: "filter_entry \<Rightarrow> string \<times> string" where
  "entry_text = (\<lambda>(field, op, raw). (field, op @ CHR ''.'' # raw))"

definition mapped_operator :: "string \<Rightarrow> string" where
  "mapped_operator op = the (map_of filter_operators op)"

definition entry_value :: "filter_entry \<Rightarrow> jsval" where
  "entry_value = (\<lambda>(field, op, raw). if op = ''like'' then JStr raw else coerceValue raw)"

definition entry_ok :: "filter_entry \<Rightarrow> bool" where
  "entry_ok = (\<lambda>(field, op, raw). field \<notin> {''limit'', ''select'', ''onlyIds''} \<and> op \<in> set (map fst filter_operators))"

lemma operator_names:
  assumes "op \<in> set (map fst filter_operators)"
  shows "index_of CHR ''.'' (op @ CHR ''.'' # raw) = Some (length op)" and "map_of filter_operators op = Some (mapped_operator op)"
    and "mapped_operator op = ''$like'' \<longleftrightarrow> op = ''like''" and "mapped_operator op \<in> set operand_operators"
    and "mapped_operator op = CHR ''$'' # op"
  using assms by (auto simp: filter_operators_def mapped_operator_def operand_operators_def)

lemma coerceValue_defined: "coerceValue raw \<noteq> JUndef"
  by (simp add: coerceValue_def)

lemma parsed_entry:
  "op \<in> set (map fst filter_operators) \<Longrightarrow> parseFilterOperand (op @ CHR ''.'' # raw) = [(mapped_operator op, entry_value (field, op, raw))]"
  using operator_names(1) [of op raw] operator_names(2,3) [of op] by (simp add: parseFilterOperand_def entry_value_def)

text \<open>The value the entries give an operator of a field; of repeated ones the last counts.\<close>

definition last_value :: "filter_entry list \<Rightarrow> string \<Rightarrow> string \<Rightarrow> jsval option" where
  "last_value es field operator =
     map_of (rev (map (\<lambda>e. ((fst e, mapped_operator (fst (snd e))), entry_value e)) es)) (field, operator)"

definition filters_of :: "filter_entry list \<Rightarrow> record_obj \<Rightarrow> bool" where
  "filters_of es fs \<longleftrightarrow> distinct (map fst fs) \<and> fst ` set fs = fst ` set es \<and>
     (\<forall>field\<in>fst ` set es. \<exists>ob. map_of fs field = Some (JObj ob) \<and> (\<forall>k. map_of ob k = last_value es field k))"

lemma last_value_snoc:
  "last_value (es @ [e]) field operator =
     (if field = fst e \<and> operator = mapped_operator (fst (snd e)) then Some (entry_value e) else last_value es field operator)"
  by (simp add: last_value_def)

lemma last_value_other: "field \<notin> fst ` set es \<Longrightarrow> last_value es field k = None"
  by (force simp: last_value_def map_of_eq_None_iff)

lemma keys_put: "fst ` set (obj_put ob k v) = insert k (fst ` set ob)"
proof (rule set_eqI)
  fix x
  show "x \<in> fst ` set (obj_put ob k v) \<longleftrightarrow> x \<in> insert k (fst ` set ob)"
    using has_own_put [of ob k v x] unfolding has_own_iff_mem by (simp add: obj_keys_def)
qed

lemma add_filter_step:
  assumes "filters_of es (filters st)" and "entry_ok e"
  shows "filters_of (es @ [e]) (filters (add_filter (fst (entry_text e)) (snd (entry_text e)) st))"
proof -
  obtain field op raw where e: "e = (field, op, raw)" by (cases e)
  have op: "op \<in> set (map fst filter_operators)" using assms(2) e by (simp add: entry_ok_def)
  let ?old = "filter_fields (obj_get (filters st) field)"
  have old: "map_of ?old k = last_value es field k" for k
  proof (cases "field \<in> fst ` set es")
    case True
    with assms(1) obtain ob where "map_of (filters st) field = Some (JObj ob)" "\<forall>k. map_of ob k = last_value es field k"
      by (auto simp: filters_of_def)
    then show ?thesis by (simp add: filter_fields_def obj_get_def)
  next
    case False
    then have "map_of (filters st) field = None" using assms(1) by (metis filters_of_def map_of_eq_None_iff)
    with False show ?thesis by (simp add: filter_fields_def obj_get_def safeRecord_def last_value_other)
  qed
  let ?new = "obj_assign ?old (parseFilterOperand (op @ CHR ''.'' # raw))"
  have new: "map_of ?new k = last_value (es @ [e]) field k" for k
    using old e by (simp add: parsed_entry [OF op, of raw field] obj_assign_def map_of_obj_put last_value_snoc)
  have put: "filters (add_filter (fst (entry_text e)) (snd (entry_text e)) st) = obj_put (filters st) field (JObj ?new)"
    by (simp add: add_filter_def entry_text_def e)
  have "\<exists>ob. map_of (obj_put (filters st) field (JObj ?new)) f = Some (JObj ob) \<and> (\<forall>k. map_of ob k = last_value (es @ [e]) f k)"
    if "f \<in> insert field (fst ` set es)" for f
  proof (cases "f = field")
    case True
    with new show ?thesis by (simp add: map_of_obj_put)
  next
    case False
    with that assms(1) obtain ob where "map_of (filters st) f = Some (JObj ob)" "\<forall>k. map_of ob k = last_value es f k"
      by (auto simp: filters_of_def)
    with False e show ?thesis by (simp add: map_of_obj_put last_value_snoc)
  qed
  moreover have "distinct (map fst (obj_put (filters st) field (JObj ?new)))"
    using assms(1) distinct_keys_put [of "filters st" field "JObj ?new"] by (simp add: filters_of_def obj_keys_def)
  ultimately show ?thesis using assms(1) e unfolding put filters_of_def by (simp add: keys_put)
qed

definition add_entry :: "search_state \<Rightarrow> filter_entry \<Rightarrow> search_state" where
  "add_entry st e = add_filter (fst (entry_text e)) (snd (entry_text e)) st"

lemma search_entries_run:
  "list_all entry_ok es \<Longrightarrow> search_entries (map entry_text es) st = Inr (foldl add_entry st es)"
proof (induction es arbitrary: st)
  case (Cons e es)
  then show ?case by (cases e) (simp add: add_entry_def entry_text_def entry_ok_def)
qed simp

lemma filters_after:
  "list_all entry_ok es \<Longrightarrow> filters_of es (filters (foldl add_entry \<lparr> search_query = [], filters = safeRecord, hasFilters = False \<rparr> es)) \<and>
     hasFilters (foldl add_entry \<lparr> search_query = [], filters = safeRecord, hasFilters = False \<rparr> es) = (es \<noteq> []) \<and>
     search_query (foldl add_entry \<lparr> search_query = [], filters = safeRecord, hasFilters = False \<rparr> es) = []"
proof (induction es rule: rev_induct)
  case Nil
  then show ?case by (simp add: filters_of_def safeRecord_def)
next
  case (snoc e es)
  then show ?case using add_filter_step [of es _ e] by (simp add: add_entry_def) (simp add: add_filter_def)
qed

lemma last_value_is: "last_value es field operator = Some v \<Longrightarrow>
    \<exists>op raw. (field, op, raw) \<in> set es \<and> operator = mapped_operator op \<and> v = entry_value (field, op, raw)"
  by (fastforce simp: last_value_def dest: map_of_SomeD)

lemma last_value_distinct:
  assumes "distinct (map (\<lambda>(field, op, raw). (field, op)) es)" and "list_all entry_ok es" and "(field, op, raw) \<in> set es"
  shows "last_value es field (mapped_operator op) = Some (entry_value (field, op, raw))"
proof -
  let ?key = "\<lambda>e. (fst e, mapped_operator (fst (snd e)))"
  have names: "fst (snd e) \<in> set (map fst filter_operators)" if "e \<in> set es" for e
    using assms(2) that by (cases e) (auto simp: list_all_iff entry_ok_def)
  have "e = e'" if "e \<in> set es" "e' \<in> set es" "?key e = ?key e'" for e e'
  proof -
    have "(fst e, fst (snd e)) = (fst e', fst (snd e'))"
      using that(3) operator_names(5) [OF names [OF that(1)]] operator_names(5) [OF names [OF that(2)]] by simp
    with assms(1) that(1,2) show ?thesis by (cases e; cases e') (auto simp: distinct_map inj_on_def)
  qed
  moreover have "distinct es" using assms(1) by (simp add: distinct_map)
  ultimately have "distinct (map ?key es)" by (auto simp: distinct_map inj_on_def)
  then have "distinct (map fst (rev (map (\<lambda>e. (?key e, entry_value e)) es)))" by (simp add: comp_def flip: rev_map)
  moreover have "((field, mapped_operator op), entry_value (field, op, raw)) \<in> set (rev (map (\<lambda>e. (?key e, entry_value e)) es))"
    using assms(3) by force
  ultimately show ?thesis unfolding last_value_def by (rule map_of_is_SomeI)
qed

lemma entry_value_defined: "entry_value e \<noteq> JUndef"
  by (cases e) (simp add: entry_value_def coerceValue_defined)

lemma filters_match:
  assumes ok: "list_all entry_ok es" "distinct (map (\<lambda>(field, op, raw). (field, op)) es)" and fs: "filters_of es fs"
  shows "match_fields fs doc = Inr (\<forall>(field, op, raw)\<in>set es.
    holds (mapped_operator op) (getValueByPath doc field) (entry_value (field, op, raw)))"
proof -
  let ?P = "\<lambda>field operand. \<forall>op\<in>set operand_operators. get_prop operand op \<noteq> JUndef \<longrightarrow>
    holds op (getValueByPath doc field) (get_prop operand op)"
  have operand: "\<exists>ob. operand = JObj ob \<and> (\<forall>k. map_of ob k = last_value es field k)" if "(field, operand) \<in> set fs" for field operand
  proof -
    have "map_of fs field = Some operand" using that fs by (auto simp: filters_of_def)
    moreover have "field \<in> fst ` set es" using that fs by (force simp: filters_of_def)
    ultimately show ?thesis using fs by (auto simp: filters_of_def)
  qed
  have "js_truthy operand \<and> matchesOperand (getValueByPath doc field) operand = Inr (?P field operand)"
    if mem: "(field, operand) \<in> set fs" for field operand
  proof -
    obtain ob where ob: "operand = JObj ob" "\<forall>k. map_of ob k = last_value es field k" using operand [OF mem] by blast
    have "is_string (obj_get ob ''$like'')" if "obj_get ob ''$like'' \<noteq> JUndef"
    proof -
      from that obtain v where v: "last_value es field ''$like'' = Some v" "obj_get ob ''$like'' = v"
        using ob(2) by (auto simp: obj_get_def split: option.splits)
      from last_value_is [OF v(1)] obtain op raw where e: "(field, op, raw) \<in> set es" "mapped_operator op = ''$like''" "v = entry_value (field, op, raw)"
        by auto
      moreover from e(1) ok(1) have "op \<in> set (map fst filter_operators)" by (auto simp: list_all_iff entry_ok_def)
      ultimately show ?thesis using operator_names(3) v(2) by (simp add: entry_value_def is_string_def)
    qed
    then show ?thesis unfolding matchesOperand_def ob(1)
      by (subst match_operators_run) (simp_all add: get_prop_def js_truthy_def)
  qed
  then have "match_fields fs doc = Inr (\<forall>(field, operand)\<in>set fs. ?P field operand)"
    by (intro match_fields_run) auto
  moreover have "(\<forall>(field, operand)\<in>set fs. ?P field operand) \<longleftrightarrow>
      (\<forall>(field, op, raw)\<in>set es. holds (mapped_operator op) (getValueByPath doc field) (entry_value (field, op, raw)))"
  proof (intro iffI ballI; clarify)
    fix field op raw assume all: "\<forall>(field, operand)\<in>set fs. ?P field operand" and e: "(field, op, raw) \<in> set es"
    have "field \<in> fst ` set fs" using e fs by (force simp: filters_of_def)
    then obtain operand where mem: "(field, operand) \<in> set fs" by auto
    then obtain ob where ob: "operand = JObj ob" "\<forall>k. map_of ob k = last_value es field k" using operand by blast
    have "get_prop operand (mapped_operator op) = entry_value (field, op, raw)"
      using last_value_distinct [OF ok(2,1) e] ob by (simp add: get_prop_def obj_get_def)
    moreover have "mapped_operator op \<in> set operand_operators"
      using e ok(1) by (intro operator_names(4)) (auto simp: list_all_iff entry_ok_def)
    ultimately show "holds (mapped_operator op) (getValueByPath doc field) (entry_value (field, op, raw))"
      using bspec [OF all mem] entry_value_defined [of "(field, op, raw)"] by (simp only: prod.case) metis
  next
    fix field operand op
    assume all: "\<forall>(field, op, raw)\<in>set es. holds (mapped_operator op) (getValueByPath doc field) (entry_value (field, op, raw))"
      and mem: "(field, operand) \<in> set fs" and op: "get_prop operand op \<noteq> JUndef"
    obtain ob where ob: "operand = JObj ob" "\<forall>k. map_of ob k = last_value es field k" using operand [OF mem] by blast
    with op obtain v where v: "last_value es field op = Some v" "get_prop operand op = v"
      by (auto simp: get_prop_def obj_get_def split: option.splits)
    with all last_value_is [OF v(1)] show "holds op (getValueByPath doc field) (get_prop operand op)" by auto
  qed
  ultimately show ?thesis by simp
qed

subsection \<open>The property\<close>



end
