(* ===== verification/Operators.thy ===== *)
theory Operators imports Records begin

section \<open>Index expressions of a query (src/src/query/operators.js)\<close>

text \<open>
  The diagnostic expressions that say how a query uses the prefix index.  The cipher they ask
  about encrypted fields is a parameter: whether it is configured, which fields are encrypted,
  and its blind index, which may fail.
\<close>

record cipher =
  isConfigured :: bool
  isEncryptedField :: "string \<Rightarrow> string \<Rightarrow> bool"
  blindIndex :: "string \<Rightarrow> string result"

definition ENCRYPTED_FIELD_OPS :: "string list" where
  "ENCRYPTED_FIELD_OPS = [''$ne'', ''$gt'', ''$gte'', ''$lt'', ''$lte'', ''$like'', ''$contains'']"

definition encrypted_operator_error :: "string \<Rightarrow> string \<Rightarrow> js_error" where
  "encrypted_operator_error operator column =
     plain_error (''Operator '' @ operator @ '' is not supported on encrypted field '' @
       [CHR 0x22] @ column @ [CHR 0x22])"

definition assertNoEncryptedOnlyOperators :: "string \<Rightarrow> jsval \<Rightarrow> unit result" where
  "assertNoEncryptedOnlyOperators column operand =
     (case find (\<lambda>operator. get_prop operand operator \<noteq> JUndef) ENCRYPTED_FIELD_OPS of
        Some operator \<Rightarrow> Inl (encrypted_operator_error operator column) | None \<Rightarrow> Inr ())"

definition expression :: "string list \<Rightarrow> string" where
  "expression parts = join_with ''/'' (parts @ [''**'', ''*''])"

text \<open>The expressions of one operator each, in the order the code adds them.\<close>

definition eq_expressions :: "cipher \<Rightarrow> bool \<Rightarrow> string \<Rightarrow> jsval \<Rightarrow> string list result" where
  "eq_expressions c encrypted fieldPath operand =
     (let expected = get_prop operand ''$eq'' in
      if \<not> js_truthy expected then Inr []
      else bind_result
        (if encrypted then blindIndex c (replace_all CHR ''/'' ''%2F'' (js_to_string expected))
         else Inr (js_to_string expected))
        (\<lambda>lookup. Inr [expression [fieldPath, ''eq'', lookup]]))"

definition like_expressions :: "string \<Rightarrow> jsval \<Rightarrow> string list result" where
  "like_expressions fieldPath operand =
     (let pattern = get_prop operand ''$like'' in
      if \<not> js_truthy pattern then Inr []
      else case pattern of JStr p \<Rightarrow> Inr [expression [fieldPath, ''f'', replace_all CHR ''%'' ''*'' p]]
        | _ \<Rightarrow> Inl (js_type_error ''operand.$like.replaceAll is not a function''))"

definition plain_expressions :: "string \<Rightarrow> jsval \<Rightarrow> string list" where
  "plain_expressions fieldPath operand =
     (if js_truthy (get_prop operand ''$ne'') then [expression [fieldPath]] else []) @
     concat (map (\<lambda>operator. if js_truthy (get_prop operand operator) then [expression [fieldPath, ''n'']] else [])
       [''$gt'', ''$gte'']) @
     concat (map (\<lambda>operator. if js_truthy (get_prop operand operator) then [expression [fieldPath, ''nr'']] else [])
       [''$lt'', ''$lte''])"

definition contains_expressions :: "string \<Rightarrow> jsval \<Rightarrow> string list" where
  "contains_expressions fieldPath operand =
     (if get_prop operand ''$contains'' \<noteq> JUndef
      then [expression [fieldPath, ''eq'', js_to_string (get_prop operand ''$contains'')]] else [])"

definition addOperandExpressions :: "cipher \<Rightarrow> string \<Rightarrow> string list \<Rightarrow> string \<Rightarrow> jsval \<Rightarrow> string list result" where
  "addOperandExpressions c collection expressions column operand =
     (let fieldPath = replace_all CHR ''.'' ''/'' column;
          encrypted = (isConfigured c \<and> isEncryptedField c collection fieldPath) in
      bind_result (if encrypted then assertNoEncryptedOnlyOperators column operand else Inr ()) (\<lambda>_.
      bind_result (eq_expressions c encrypted fieldPath operand) (\<lambda>eqs.
      bind_result (like_expressions fieldPath operand) (\<lambda>likes.
      Inr (foldl push_new expressions
        (eqs @ plain_expressions fieldPath operand @ likes @ contains_expressions fieldPath operand))))))"

fun column_expressions :: "cipher \<Rightarrow> string \<Rightarrow> record_obj \<Rightarrow> string list \<Rightarrow> string list result" where
  "column_expressions c collection [] expressions = Inr expressions"
| "column_expressions c collection ((column, operand) # rest) expressions =
     (if \<not> js_truthy operand then column_expressions c collection rest expressions
      else bind_result (addOperandExpressions c collection expressions column operand)
        (column_expressions c collection rest))"

fun operation_expressions :: "cipher \<Rightarrow> string \<Rightarrow> jsval list \<Rightarrow> string list \<Rightarrow> string list result" where
  "operation_expressions c collection [] expressions = Inr expressions"
| "operation_expressions c collection (operation # rest) expressions =
     bind_result (object_entries operation) (\<lambda>es.
     bind_result (column_expressions c collection es expressions)
       (operation_expressions c collection rest))"

definition getExprs :: "cipher \<Rightarrow> string \<Rightarrow> jsval \<Rightarrow> string list result" where
  "getExprs c collection query =
     (let ops = get_prop query ''$ops'' in
      if \<not> js_truthy ops then Inr [''**/*'']
      else case ops of
        JArr vs \<Rightarrow> operation_expressions c collection vs []
      | JStr s \<Rightarrow> operation_expressions c collection (map (\<lambda>x. JStr [x]) s) []
      | _ \<Rightarrow> Inl (js_type_error ''query.$ops is not iterable''))"

subsection \<open>Encrypted fields\<close>

text \<open>What an operand of an encrypted field contributes: nothing but the lookup of its blind index.\<close>

lemma encrypted_operand:
  assumes "isConfigured c" and "isEncryptedField c collection (replace_all CHR ''.'' ''/'' column)"
    and "addOperandExpressions c collection expressions column operand = Inr result"
  shows "\<forall>operator\<in>set ENCRYPTED_FIELD_OPS. get_prop operand operator = JUndef"
    and "if js_truthy (get_prop operand ''$eq'')
      then \<exists>token. blindIndex c (replace_all CHR ''/'' ''%2F'' (js_to_string (get_prop operand ''$eq''))) = Inr token \<and>
        result = push_new expressions (expression [replace_all CHR ''.'' ''/'' column, ''eq'', token])
      else result = expressions"
proof -
  have none: "\<forall>operator\<in>set ENCRYPTED_FIELD_OPS. get_prop operand operator = JUndef"
    using assms by (auto simp: addOperandExpressions_def assertNoEncryptedOnlyOperators_def find_None_iff split: option.splits)
  then show "\<forall>operator\<in>set ENCRYPTED_FIELD_OPS. get_prop operand operator = JUndef" .
  have "plain_expressions p operand = []" "like_expressions p operand = Inr []" "contains_expressions p operand = []" for p
    using none by (simp_all add: ENCRYPTED_FIELD_OPS_def plain_expressions_def like_expressions_def contains_expressions_def js_truthy_def)
  with assms none show "if js_truthy (get_prop operand ''$eq'')
      then \<exists>token. blindIndex c (replace_all CHR ''/'' ''%2F'' (js_to_string (get_prop operand ''$eq''))) = Inr token \<and>
        result = push_new expressions (expression [replace_all CHR ''.'' ''/'' column, ''eq'', token])
      else result = expressions"
    by (auto simp: addOperandExpressions_def eq_expressions_def Let_def elim!: bind_result_InrE split: if_splits)
qed

lemma set_foldl_push_new: "set (foldl push_new xs ys) = set xs \<union> set ys"
  by (induction ys arbitrary: xs) (auto simp: push_new_props)

lemma addOperand_grows: "addOperandExpressions c collection xs column operand = Inr ys \<Longrightarrow> set xs \<subseteq> set ys"
  by (auto simp: addOperandExpressions_def Let_def set_foldl_push_new elim!: bind_result_InrE)

lemma columns_grow: "column_expressions c collection es xs = Inr ys \<Longrightarrow> set xs \<subseteq> set ys"
  by (induction es arbitrary: xs) (force split: if_splits elim!: bind_result_InrE dest: addOperand_grows)+

lemma columns_visit:
  "column_expressions c collection es xs = Inr ys \<Longrightarrow> (column, operand) \<in> set es \<Longrightarrow> js_truthy operand \<Longrightarrow>
   \<exists>before result. addOperandExpressions c collection before column operand = Inr result \<and> set result \<subseteq> set ys"
proof (induction es arbitrary: xs)
  case (Cons e es)
  show ?case
  proof (cases "e = (column, operand)")
    case True
    with Cons.prems obtain zs where "addOperandExpressions c collection xs column operand = Inr zs" "column_expressions c collection es zs = Inr ys"
      by (auto elim!: bind_result_InrE)
    then show ?thesis using columns_grow by blast
  next
    case False
    with Cons show ?thesis by (cases e) (auto split: if_splits elim!: bind_result_InrE)
  qed
qed simp

lemma operations_grow: "operation_expressions c collection ops xs = Inr ys \<Longrightarrow> set xs \<subseteq> set ys"
  by (induction ops arbitrary: xs) (force elim!: bind_result_InrE dest: columns_grow)+

lemma operations_visit:
  "operation_expressions c collection ops xs = Inr ys \<Longrightarrow> operation \<in> set ops \<Longrightarrow> object_entries operation = Inr es \<Longrightarrow>
   \<exists>before result. column_expressions c collection es before = Inr result \<and> set result \<subseteq> set ys"
proof (induction ops arbitrary: xs)
  case (Cons o1 ops)
  from Cons.prems(1) obtain es1 zs where o1: "object_entries o1 = Inr es1" "column_expressions c collection es1 xs = Inr zs"
    "operation_expressions c collection ops zs = Inr ys" by (auto elim!: bind_result_InrE)
  show ?case
  proof (cases "operation = o1")
    case True
    with o1 Cons.prems(3) operations_grow [OF o1(3)] show ?thesis by auto
  next
    case False
    with Cons o1(3) show ?thesis by auto
  qed
qed simp

text \<open>Encrypted fields are only looked up by their blind index: when the expressions of a query can be computed,
  no operand of an encrypted field uses an ordering, substring, inequality or containment operator, and
  an equality on it contributes the expression of the value's blind index.  Any other operator is an error.\<close>

theorem encrypted_fields_blind:
  assumes "getExprs c collection query = Inr exprs" and "get_prop query ''$ops'' = JArr ops"
    and "operation \<in> set ops" and "object_entries operation = Inr es" and "(column, operand) \<in> set es" and "js_truthy operand"
    and "isConfigured c" and "isEncryptedField c collection (replace_all CHR ''.'' ''/'' column)"
  shows "(\<forall>operator\<in>set ENCRYPTED_FIELD_OPS. get_prop operand operator = JUndef) \<and>
    (js_truthy (get_prop operand ''$eq'') \<longrightarrow>
      (\<exists>token. blindIndex c (replace_all CHR ''/'' ''%2F'' (js_to_string (get_prop operand ''$eq''))) = Inr token \<and>
        expression [replace_all CHR ''.'' ''/'' column, ''eq'', token] \<in> set exprs))"
proof -
  have "operation_expressions c collection ops [] = Inr exprs"
    using assms(1,2) by (simp add: getExprs_def js_truthy_def)
  from operations_visit [OF this assms(3,4)] obtain xs ys where
    "column_expressions c collection es xs = Inr ys" "set ys \<subseteq> set exprs" by blast
  moreover from columns_visit [OF this(1) assms(5,6)] obtain zs result where
    r: "addOperandExpressions c collection zs column operand = Inr result" "set result \<subseteq> set ys" by blast
  ultimately show ?thesis using encrypted_operand [OF assms(7,8) r(1)] by (auto simp: push_new_props split: if_splits)
qed

theorem encrypted_fields_blind_witness:
  "\<exists>exprs. getExprs \<lparr> isConfigured = True, isEncryptedField = (\<lambda>_ f. f = ''ssn''), blindIndex = (\<lambda>_. Inr ''h'') \<rparr> ''users''
      (JObj [(''$ops'', JArr [JObj [(''ssn'', JObj [(''$eq'', JStr ''123'')])]])]) = Inr exprs \<and>
    expression [''ssn'', ''eq'', ''h''] \<in> set exprs"
proof -
  let ?c = "\<lparr> isConfigured = True, isEncryptedField = (\<lambda>_ f. f = ''ssn''), blindIndex = (\<lambda>_. Inr ''h'') \<rparr>"
  let ?operand = "JObj [(''$eq'', JStr ''123'')]"
  let ?query = "JObj [(''$ops'', JArr [JObj [(''ssn'', ?operand)]])]"
  have e: "getExprs ?c ''users'' ?query = Inr [''ssn/eq/h/**/*'']" by code_simp
  have "expression [''ssn'', ''eq'', ''h''] \<in> set [''ssn/eq/h/**/*'']"
    using encrypted_fields_blind [OF e, of "[JObj [(''ssn'', ?operand)]]" "JObj [(''ssn'', ?operand)]" "[(''ssn'', ?operand)]" "''ssn''" ?operand]
    by (simp add: get_prop_def object_entries_def js_truthy_def)
  with e show ?thesis by blast
qed

end
