(* ===== verification/Cipher.thy ===== *)
theory Cipher imports Base64 Operators begin

section \<open>Field encryption (src/src/security/cipher.js)\<close>

text \<open>
  The static state of \<open>Cipher\<close>, key derivation, blind indexes, encryption and decryption, and the cipher
  that the index expressions ask about a field.  The algorithms of the platform (PBKDF2, HMAC-SHA-256, AES-GCM
  and its random source) are an argument; a \<open>CryptoKey\<close> is the raw bytes it was imported from.  Code units above
  U+00FF in the error messages are the substitute U+001A, as everywhere in the model.
\<close>

subsection \<open>The platform's cryptography\<close>

text \<open>\<open>gcm_decrypt\<close> is \<open>None\<close> where the platform rejects the ciphertext; \<open>random_draw n k\<close> is the \<open>n\<close>-th
  reading of the random source, for \<open>k\<close> bytes.\<close>

record crypto_api =
  pbkdf2 :: "bytes \<Rightarrow> bytes \<Rightarrow> bytes"
  hmac_sha256 :: "bytes \<Rightarrow> bytes \<Rightarrow> bytes"
  gcm_encrypt :: "bytes \<Rightarrow> bytes \<Rightarrow> bytes \<Rightarrow> bytes"
  gcm_decrypt :: "bytes \<Rightarrow> bytes \<Rightarrow> bytes \<Rightarrow> bytes option"
  random_draw :: "nat \<Rightarrow> nat \<Rightarrow> bytes"

text \<open>What the platform documents: an authenticated ciphertext decrypts under its key and nonce, an HMAC with
  SHA-256 has 32 bytes, and the random source fills the array it is given.\<close>

definition documented_crypto :: "crypto_api \<Rightarrow> bool" where
  "documented_crypto cr \<longleftrightarrow>
     (\<forall>key nonce plain. length nonce = 12 \<longrightarrow> gcm_decrypt cr key nonce (gcm_encrypt cr key nonce plain) = Some plain) \<and>
     (\<forall>key msg. length (hmac_sha256 cr key msg) = 32) \<and>
     (\<forall>n k. length (random_draw cr n k) = k)"

subsection \<open>State\<close>

text \<open>The keys, the encrypted fields of each collection in the order of their registration, and how often the
  random source has been read.\<close>

record cipher_state =
  cipher_key :: "bytes option"
  cipher_hmacKey :: "bytes option"
  cipher_collections :: "string \<rightharpoonup> string list"
  cipher_draws :: nat

definition cipher_initial :: cipher_state where
  "cipher_initial = \<lparr> cipher_key = None, cipher_hmacKey = None, cipher_collections = Map.empty, cipher_draws = 0 \<rparr>"

definition cipher_isConfigured :: "cipher_state \<Rightarrow> bool" where
  "cipher_isConfigured st = (cipher_key st \<noteq> None)"

definition cipher_hasEncryptedFields :: "cipher_state \<Rightarrow> string \<Rightarrow> bool" where
  "cipher_hasEncryptedFields st collection =
     (case cipher_collections st collection of None \<Rightarrow> False | Some names \<Rightarrow> 0 < length names)"

definition cipher_isEncryptedField :: "cipher_state \<Rightarrow> string \<Rightarrow> string \<Rightarrow> bool" where
  "cipher_isEncryptedField st collection field =
     (case cipher_collections st collection of
        None \<Rightarrow> False
      | Some names \<Rightarrow> names \<noteq> [] \<and> list_ex (\<lambda>pattern. field = pattern \<or> starts_with (pattern @ ''/'') field) names)"

definition cipher_registerFields :: "string \<Rightarrow> string list \<Rightarrow> cipher_state \<Rightarrow> cipher_state" where
  "cipher_registerFields collection names st =
     (if 0 < length names
      then st\<lparr> cipher_collections := (cipher_collections st)(collection \<mapsto> foldl push_new [] names) \<rparr> else st)"

definition cipher_reset :: "cipher_state \<Rightarrow> cipher_state" where
  "cipher_reset st = st\<lparr> cipher_key := None, cipher_hmacKey := None, cipher_collections := Map.empty \<rparr>"

subsection \<open>Keys\<close>

definition missing_salt :: js_error where
  "missing_salt = plain_error (''FYLO_CIPHER_SALT env var is not set. Generate one with: '' @
     ''export FYLO_CIPHER_SALT=$(openssl rand -hex 32)'')"

text \<open>\<open>cipherSalt\<close> is the environment variable, \<open>None\<close> when it is not set.\<close>

definition cipher_configure :: "crypto_api \<Rightarrow> string option \<Rightarrow> string \<Rightarrow> (cipher_state, unit) op" where
  "cipher_configure cr cipherSalt secret =
     (case cipherSalt of
        None \<Rightarrow> throw missing_salt
      | Some salt \<Rightarrow>
          if salt = [] then throw missing_salt
          else let derived = pbkdf2 cr (utf8_encode secret) (utf8_encode salt) in
               modify (\<lambda>st. st\<lparr> cipher_key := Some (take 32 derived),
                                cipher_hmacKey := Some (take 32 (drop 32 derived)) \<rparr>))"

definition not_configured :: js_error where
  "not_configured = plain_error (''Cipher not configured '' @ [CHR 0x1A] @ '' set FYLO_ENCRYPTION_KEY env var'')"

definition deriveNonce :: "crypto_api \<Rightarrow> cipher_state \<Rightarrow> string \<Rightarrow> bytes result" where
  "deriveNonce cr st plaintext =
     (case cipher_hmacKey st of
        None \<Rightarrow> Inl not_configured
      | Some hmacKey \<Rightarrow> Inr (take 12 (hmac_sha256 cr hmacKey (utf8_encode plaintext))))"

definition cipher_blindIndex :: "crypto_api \<Rightarrow> cipher_state \<Rightarrow> string \<Rightarrow> string result" where
  "cipher_blindIndex cr st value =
     (case cipher_hmacKey st of
        None \<Rightarrow> Inl not_configured
      | Some hmacKey \<Rightarrow> Inr (''idx1.'' @ base64Url (hmac_sha256 cr hmacKey (utf8_encode value))))"

subsection \<open>Encryption and decryption\<close>

definition random_nonce :: "crypto_api \<Rightarrow> (cipher_state, bytes) op" where
  "random_nonce cr st = (Inr (random_draw cr (cipher_draws st) 12), st\<lparr> cipher_draws := Suc (cipher_draws st) \<rparr>)"

definition encrypt :: "crypto_api \<Rightarrow> string \<Rightarrow> bool \<Rightarrow> (cipher_state, string) op" where
  "encrypt cr value deterministic st =
     (case cipher_key st of
        None \<Rightarrow> throw not_configured st
      | Some key \<Rightarrow>
          bind_op (if deterministic then of_result (deriveNonce cr st value) else random_nonce cr)
            (\<lambda>nonce. let encrypted = gcm_encrypt cr key nonce (utf8_encode value);
                          combined = nonce @ encrypted
                      in ret (''v2.'' @ base64Url combined)) st)"

definition isCiphertext :: "string \<Rightarrow> bool" where
  "isCiphertext stored = starts_with ''v2.'' stored"

definition unsupported_ciphertext :: "string \<Rightarrow> js_error" where
  "unsupported_ciphertext encoded = plain_error (''Unsupported ciphertext format. Expected v2.* (AES-GCM); received '' @
     take 8 encoded @ [CHR 0x1A])"

definition operation_error :: js_error where
  "operation_error = JsError ''OperationError'' ''The operation failed for an operation-specific reason'' None"

definition decrypt :: "crypto_api \<Rightarrow> cipher_state \<Rightarrow> string \<Rightarrow> string result" where
  "decrypt cr st encoded =
     (case cipher_key st of
        None \<Rightarrow> Inl not_configured
      | Some key \<Rightarrow>
          if \<not> starts_with ''v2.'' encoded then Inl (unsupported_ciphertext encoded)
          else bind_result (fromBase64Url (drop 3 encoded))
            (\<lambda>combined. let nonce = take 12 combined; ciphertext = drop 12 combined in
               case gcm_decrypt cr key nonce ciphertext of
                 None \<Rightarrow> Inl operation_error
               | Some decrypted \<Rightarrow> Inr (utf8_decode decrypted)))"

text \<open>What the index expressions ask this module.\<close>

definition cipher_of :: "crypto_api \<Rightarrow> cipher_state \<Rightarrow> cipher" where
  "cipher_of cr st = \<lparr> isConfigured = cipher_isConfigured st, isEncryptedField = cipher_isEncryptedField st,
     blindIndex = cipher_blindIndex cr st \<rparr>"

subsection \<open>Laws of the parts\<close>

lemma fold_push_new_set: "set (foldl push_new xs ys) = set xs \<union> set ys"
  by (induction ys arbitrary: xs) (simp_all add: push_new_props)

text \<open>A registered field covers itself and everything below it.\<close>

lemma registered_field:
  assumes "pattern \<in> set names" and "field = pattern \<or> starts_with (pattern @ ''/'') field"
  shows "cipher_isEncryptedField (cipher_registerFields collection names st) collection field"
proof -
  have "pattern \<in> set (foldl push_new [] names)" using assms(1) by (simp add: fold_push_new_set)
  with assms show ?thesis
    by (force simp: cipher_isEncryptedField_def cipher_registerFields_def list_ex_iff)
qed

lemma register_other:
  "collection \<noteq> other \<Longrightarrow>
   cipher_isEncryptedField (cipher_registerFields collection names st) other field = cipher_isEncryptedField st other field"
  by (simp add: cipher_isEncryptedField_def cipher_registerFields_def)

lemma register_keys [simp]:
  "cipher_isConfigured (cipher_registerFields collection names st) = cipher_isConfigured st"
  "cipher_key (cipher_registerFields collection names st) = cipher_key st"
  "cipher_hmacKey (cipher_registerFields collection names st) = cipher_hmacKey st"
  by (simp_all add: cipher_isConfigured_def cipher_registerFields_def)

lemma reset_forgets:
  "\<not> cipher_isConfigured (cipher_reset st)" "\<not> cipher_isEncryptedField (cipher_reset st) collection field"
  "\<not> cipher_hasEncryptedFields (cipher_reset st) collection"
  by (simp_all add: cipher_reset_def cipher_isConfigured_def cipher_isEncryptedField_def cipher_hasEncryptedFields_def)

text \<open>Every outcome of \<open>encrypt\<close> comes from a nonce of twelve bytes and the key in force.\<close>

lemma encrypt_shape:
  assumes "documented_crypto cr" and "encrypt cr value deterministic st = (Inr token, st')"
  shows "\<exists>key nonce. cipher_key st = Some key \<and> length nonce = 12 \<and> cipher_key st' = Some key \<and>
    token = ''v2.'' @ base64Url (nonce @ gcm_encrypt cr key nonce (utf8_encode value))"
proof -
  let ?draw = "if deterministic then of_result (deriveNonce cr st value) else random_nonce cr"
  obtain key where key: "cipher_key st = Some key"
    using assms(2) by (auto simp: encrypt_def split: option.splits)
  with assms(2) have "bind_op ?draw (\<lambda>nonce. ret (''v2.'' @ base64Url (nonce @ gcm_encrypt cr key nonce (utf8_encode value)))) st
      = (Inr token, st')"
    by (simp add: encrypt_def Let_def)
  then obtain nonce st1 where n: "?draw st = (Inr nonce, st1)" "st' = st1"
    "token = ''v2.'' @ base64Url (nonce @ gcm_encrypt cr key nonce (utf8_encode value))"
    by (elim bind_op_InrE) auto
  have "length nonce = 12 \<and> cipher_key st1 = Some key"
    using n(1) key assms(1)
    by (auto simp: deriveNonce_def random_nonce_def documented_crypto_def split: if_splits option.splits)
  with n key show ?thesis by blast
qed

lemma configured_encrypts:
  assumes "cipher_key st = Some key" and "cipher_hmacKey st = Some hkey"
  shows "\<exists>token st'. encrypt cr value deterministic st = (Inr token, st')"
  using assms by (simp add: encrypt_def deriveNonce_def random_nonce_def bind_op_def Let_def)

subsection \<open>Properties\<close>


text \<open>A stand-in for the platform: the ciphertext is the token behind a tag that repeats the nonce.\<close>

definition tagging_crypto :: crypto_api where
  "tagging_crypto = \<lparr> pbkdf2 = (\<lambda>secret salt. replicate 64 CHR ''k''), hmac_sha256 = (\<lambda>key msg. replicate 32 CHR ''h''),
     gcm_encrypt = (\<lambda>key nonce plain. nonce @ plain),
     gcm_decrypt = (\<lambda>key nonce cipher. if take 12 cipher = nonce then Some (drop 12 cipher) else None),
     random_draw = (\<lambda>n k. replicate k CHR ''r'') \<rparr>"




end
