(* ===== verification/Lanes.thy ===== *)
theory Lanes imports Prelude begin

section \<open>Write lanes (runInLane of src/src/browser/core/filesystem.js)\<close>

text \<open>
  \<open>runInLane\<close> chains a task behind the promise that its lane keeps.  A task is the promise \<open>next\<close>
  with the one it was chained to; what the lane keeps is \<open>next.then(ignore, ignore)\<close>, which settles
  one reaction after \<open>next\<close> and always with success.  Tasks are numbered in the order of the calls.
  The host decides when a reaction runs and when and how a running body settles: these are the
  steps.  A lane that no call has used yet stands for the resolved promise.
\<close>

subsection \<open>State and steps\<close>

datatype task_status = Waiting | Running | Settled bool | Released

record lane_task =
  task_key :: string
  task_after :: "nat option"
  task_status :: task_status

record lanes_state =
  lane_map :: "string \<rightharpoonup> nat"
  tasks :: "lane_task list"

definition no_lanes :: lanes_state where
  "no_lanes = \<lparr> lane_map = Map.empty, tasks = [] \<rparr>"

definition runInLane :: "string \<Rightarrow> lanes_state \<Rightarrow> lanes_state" where
  "runInLane key st =
     \<lparr> lane_map = (lane_map st)(key \<mapsto> length (tasks st)),
       tasks = tasks st @ [\<lparr> task_key = key, task_after = lane_map st key, task_status = Waiting \<rparr>] \<rparr>"

definition status_of :: "lanes_state \<Rightarrow> nat \<Rightarrow> task_status" where
  "status_of st i = task_status (tasks st ! i)"

definition set_status :: "nat \<Rightarrow> task_status \<Rightarrow> lanes_state \<Rightarrow> lanes_state" where
  "set_status i s st = st\<lparr> tasks := (tasks st)[i := (tasks st ! i)\<lparr> task_status := s \<rparr>] \<rparr>"

text \<open>The body is called, by either handler of \<open>then\<close>, once the promise before it has settled.\<close>

definition can_start :: "lanes_state \<Rightarrow> nat \<Rightarrow> bool" where
  "can_start st i =
     (i < length (tasks st) \<and> status_of st i = Waiting \<and>
      (case task_after (tasks st ! i) of None \<Rightarrow> True | Some j \<Rightarrow> status_of st j = Released))"

inductive host_step :: "lanes_state \<Rightarrow> lanes_state \<Rightarrow> bool" where
  start: "can_start st i \<Longrightarrow> host_step st (set_status i Running st)"
| settle: "i < length (tasks st) \<Longrightarrow> status_of st i = Running \<Longrightarrow> host_step st (set_status i (Settled ok) st)"
| release: "i < length (tasks st) \<Longrightarrow> status_of st i = Settled ok \<Longrightarrow> host_step st (set_status i Released st)"

inductive lane_step :: "lanes_state \<Rightarrow> lanes_state \<Rightarrow> bool" where
  call: "lane_step st (runInLane key st)"
| host: "host_step st st' \<Longrightarrow> lane_step st st'"

inductive reachable_lanes :: "lanes_state \<Rightarrow> bool" where
  initial: "reachable_lanes no_lanes"
| stepped: "reachable_lanes st \<Longrightarrow> lane_step st st' \<Longrightarrow> reachable_lanes st'"

inductive_cases host_stepE: "host_step st st'"
inductive_cases lane_stepE: "lane_step st st'"

lemma set_status_simps [simp]:
  "length (tasks (set_status i s st)) = length (tasks st)"
  "lane_map (set_status i s st) = lane_map st"
  by (simp_all add: set_status_def)

lemma status_set_status [simp]:
  "i < length (tasks st) \<Longrightarrow> status_of (set_status i s st) j = (if j = i then s else status_of st j)"
  by (simp add: set_status_def status_of_def nth_list_update)

lemma key_set_status [simp]: "task_key (tasks (set_status i s st) ! j) = task_key (tasks st ! j)"
  by (cases "i < length (tasks st)") (auto simp: set_status_def nth_list_update list_update_beyond)

lemma after_set_status [simp]: "task_after (tasks (set_status i s st) ! j) = task_after (tasks st ! j)"
  by (cases "i < length (tasks st)") (auto simp: set_status_def nth_list_update list_update_beyond)

subsection \<open>The invariant\<close>

text \<open>The last call of a lane before the \<open>n\<close>-th one.\<close>

definition last_call :: "lanes_state \<Rightarrow> string \<Rightarrow> nat \<Rightarrow> nat option" where
  "last_call st key n =
     (let js = filter (\<lambda>j. task_key (tasks st ! j) = key) [0..<n] in if js = [] then None else Some (last js))"

text \<open>
  Every task is chained to the previous call of its lane, the lane keeps its last call, and a task
  that has started saw its predecessor released.
\<close>

definition chained :: "lanes_state \<Rightarrow> bool" where
  "chained st \<longleftrightarrow>
     (\<forall>i < length (tasks st). task_after (tasks st ! i) = last_call st (task_key (tasks st ! i)) i) \<and>
     (\<forall>key. lane_map st key = last_call st key (length (tasks st))) \<and>
     (\<forall>i < length (tasks st). status_of st i \<noteq> Waiting \<longrightarrow>
        (\<forall>j. task_after (tasks st ! i) = Some j \<longrightarrow> status_of st j = Released))"

lemma chained_after: "chained st \<Longrightarrow> i < length (tasks st) \<Longrightarrow>
    task_after (tasks st ! i) = last_call st (task_key (tasks st ! i)) i"
  and chained_map: "chained st \<Longrightarrow> lane_map st key = last_call st key (length (tasks st))"
  and chained_released: "chained st \<Longrightarrow> i < length (tasks st) \<Longrightarrow> status_of st i \<noteq> Waiting \<Longrightarrow>
    task_after (tasks st ! i) = Some j \<Longrightarrow> status_of st j = Released"
  unfolding chained_def by blast+

lemma chainedI:
  assumes "\<And>i. i < length (tasks st) \<Longrightarrow> task_after (tasks st ! i) = last_call st (task_key (tasks st ! i)) i"
    and "\<And>key. lane_map st key = last_call st key (length (tasks st))"
    and "\<And>i j. i < length (tasks st) \<Longrightarrow> status_of st i \<noteq> Waiting \<Longrightarrow>
      task_after (tasks st ! i) = Some j \<Longrightarrow> status_of st j = Released"
  shows "chained st"
  using assms unfolding chained_def by blast

lemma last_call_cong:
  "(\<And>j. j < n \<Longrightarrow> task_key (tasks st ! j) = task_key (tasks st' ! j)) \<Longrightarrow> last_call st key n = last_call st' key n"
  unfolding last_call_def
  by (subst filter_cong [OF refl, of _ "\<lambda>j. task_key (tasks st ! j) = key" "\<lambda>j. task_key (tasks st' ! j) = key"]) auto

lemma last_call_Some: "last_call st key n = Some j \<Longrightarrow> j < n \<and> task_key (tasks st ! j) = key"
  using last_in_set [of "filter (\<lambda>j. task_key (tasks st ! j) = key) [0..<n]"]
  by (auto simp: last_call_def Let_def split: if_splits)

lemma last_call_Suc:
  "last_call st key (Suc n) = (if task_key (tasks st ! n) = key then Some n else last_call st key n)"
  by (simp add: last_call_def)

lemma runInLane_nth:
  "j < length (tasks st) \<Longrightarrow> tasks (runInLane key st) ! j = tasks st ! j"
  "tasks (runInLane key st) ! length (tasks st) = \<lparr> task_key = key, task_after = lane_map st key, task_status = Waiting \<rparr>"
  "length (tasks (runInLane key st)) = Suc (length (tasks st))"
  by (simp_all add: runInLane_def nth_append)

lemma chained_call:
  assumes inv: "chained st"
  shows "chained (runInLane key st)"
proof -
  let ?n = "length (tasks st)" and ?t = "runInLane key st"
  have lc: "last_call ?t k m = last_call st k m" if "m \<le> ?n" for k m
    using that by (intro last_call_cong) (simp add: runInLane_nth)
  have maps: "lane_map ?t k = (if k = key then Some ?n else lane_map st k)" for k
    by (simp add: runInLane_def)
  show ?thesis
  proof (rule chainedI)
    fix i assume "i < length (tasks ?t)"
    then consider "i < ?n" | "i = ?n" by (force simp: runInLane_nth)
    then show "task_after (tasks ?t ! i) = last_call ?t (task_key (tasks ?t ! i)) i"
      by cases (simp_all add: runInLane_nth lc chained_after [OF inv] chained_map [OF inv])
  next
    fix k show "lane_map ?t k = last_call ?t k (length (tasks ?t))"
      by (simp add: maps last_call_Suc runInLane_nth lc chained_map [OF inv])
  next
    fix i j assume *: "i < length (tasks ?t)" "status_of ?t i \<noteq> Waiting" "task_after (tasks ?t ! i) = Some j"
    then have i: "i < ?n" by (cases "i = ?n") (auto simp: status_of_def runInLane_nth)
    then have st: "tasks ?t ! i = tasks st ! i" by (rule runInLane_nth)
    with * chained_after [OF inv i] have "j < i" using last_call_Some by metis
    with i have "status_of ?t j = status_of st j" by (simp add: status_of_def runInLane_nth)
    with * st i chained_released [OF inv i, of j] show "status_of ?t j = Released"
      by (simp add: status_of_def)
  qed
qed

lemma chained_set_status:
  assumes inv: "chained st" and i: "i < length (tasks st)"
    and pre: "\<And>j. s \<noteq> Waiting \<Longrightarrow> task_after (tasks st ! i) = Some j \<Longrightarrow> status_of st j = Released"
    and fresh: "status_of st i \<noteq> Released"
  shows "chained (set_status i s st)"
proof -
  let ?t = "set_status i s st"
  have lc: "last_call ?t k m = last_call st k m" for k m by (rule last_call_cong) simp
  show ?thesis
  proof (rule chainedI)
    fix m j assume *: "m < length (tasks ?t)" "status_of ?t m \<noteq> Waiting" "task_after (tasks ?t ! m) = Some j"
    have "status_of st j = Released"
    proof (cases "m = i")
      case True
      with * i pre show ?thesis by simp
    next
      case False
      with * i chained_released [OF inv, of m j] show ?thesis by simp
    qed
    with fresh i show "status_of ?t j = Released" by auto
  qed (simp_all add: lc chained_after [OF inv] chained_map [OF inv])
qed

lemma chained_host:
  assumes inv: "chained st" and step: "host_step st st'"
  shows "chained st'"
  using step
proof cases
  case (start i)
  then show ?thesis
    by (auto intro!: chained_set_status [OF inv] simp: can_start_def)
next
  case (settle i ok)
  then show ?thesis
    using chained_released [OF inv, of i] by (auto intro!: chained_set_status [OF inv])
next
  case (release i ok)
  then show ?thesis
    using chained_released [OF inv, of i] by (auto intro!: chained_set_status [OF inv])
qed

lemma reachable_chained: "reachable_lanes st \<Longrightarrow> chained st"
proof (induction rule: reachable_lanes.induct)
  case initial
  show ?case by (simp add: chained_def no_lanes_def last_call_def)
next
  case (stepped st st')
  then show ?case by (auto elim!: lane_stepE intro: chained_call chained_host)
qed

lemma last_filter_max: "j \<in> set (filter P [0..<n]) \<Longrightarrow> j \<le> last (filter P [0..<n])"
  by (induction n) (auto split: if_splits)

text \<open>Before a task that is not waiting, every earlier task of its lane has been released.\<close>

lemma earlier_released:
  assumes inv: "chained st"
  shows "i < length (tasks st) \<Longrightarrow> status_of st i \<noteq> Waiting \<Longrightarrow> j < i \<Longrightarrow>
    task_key (tasks st ! j) = task_key (tasks st ! i) \<Longrightarrow> status_of st j = Released"
proof (induction i arbitrary: j rule: less_induct)
  case (less i)
  let ?js = "filter (\<lambda>j. task_key (tasks st ! j) = task_key (tasks st ! i)) [0..<i]"
  have j: "j \<in> set ?js" using less.prems by auto
  then have ne: "?js \<noteq> []" by (metis empty_iff list.set(1))
  let ?m = "last ?js"
  have after: "task_after (tasks st ! i) = Some ?m"
    using ne by (simp add: chained_after [OF inv less.prems(1)] last_call_def Let_def)
  have rel: "status_of st ?m = Released" by (rule chained_released [OF inv less.prems(1,2) after])
  have m: "?m < i" "task_key (tasks st ! ?m) = task_key (tasks st ! i)" using last_in_set [OF ne] by auto
  have "j \<le> ?m" by (rule last_filter_max [OF j])
  then consider "j = ?m" | "j < ?m" by linarith
  then show ?case
  proof cases
    case 2
    show ?thesis by (rule less.IH [OF m(1)]) (use 2 m rel less.prems in auto)
  qed (use rel in simp)
qed

subsection \<open>Progress\<close>

text \<open>Each task takes three steps of the host, whatever its body does.\<close>

fun steps_left :: "task_status \<Rightarrow> nat" where
  "steps_left Waiting = 3"
| "steps_left Running = 2"
| "steps_left (Settled ok) = 1"
| "steps_left Released = 0"

definition work_left :: "lanes_state \<Rightarrow> nat" where
  "work_left st = sum_list (map (\<lambda>t. steps_left (task_status t)) (tasks st))"

lemma work_set_status:
  assumes "i < length (tasks st)"
  shows "work_left (set_status i s st) + steps_left (status_of st i) = work_left st + steps_left s"
proof -
  let ?f = "\<lambda>t. steps_left (task_status t)"
  have "sum_list (map ?f ((tasks st)[i := (tasks st ! i)\<lparr> task_status := s \<rparr>]))
      = sum_list ((map ?f (tasks st))[i := steps_left s])"
    by (simp add: map_update)
  moreover have "sum_list ((map ?f (tasks st))[i := steps_left s]) + map ?f (tasks st) ! i = sum_list (map ?f (tasks st)) + steps_left s"
  proof -
    have "map ?f (tasks st) ! i \<le> sum_list (map ?f (tasks st))"
      using assms by (intro elem_le_sum_list) simp
    with assms show ?thesis by (simp del: nth_map add: sum_list_update)
  qed
  ultimately have "sum_list (map ?f ((tasks st)[i := (tasks st ! i)\<lparr> task_status := s \<rparr>])) + map ?f (tasks st) ! i
      = sum_list (map ?f (tasks st)) + steps_left s" by simp
  with assms show ?thesis by (simp add: work_left_def set_status_def status_of_def)
qed

lemma host_step_work:
  assumes "host_step st st'"
  shows "Suc (work_left st') = work_left st"
  using assms
proof cases
  case (start i)
  with work_set_status [of i st Running] show ?thesis by (simp add: can_start_def)
next
  case (settle i ok)
  with work_set_status [of i st "Settled ok"] show ?thesis by simp
next
  case (release i ok)
  with work_set_status [of i st Released] show ?thesis by simp
qed

lemma host_step_exists:
  assumes inv: "chained st" and i: "i < length (tasks st)" and todo: "status_of st i \<noteq> Released"
  shows "\<exists>st'. host_step st st'"
  using i todo
proof (induction i rule: less_induct)
  case (less i)
  show ?case
  proof (cases "status_of st i")
    case Waiting
    show ?thesis
    proof (cases "task_after (tasks st ! i)")
      case None
      with Waiting less.prems show ?thesis by (metis can_start_def host_step.start option.simps(4))
    next
      case (Some j)
      then have j: "j < i" using chained_after [OF inv less.prems(1)] last_call_Some by metis
      show ?thesis
      proof (cases "status_of st j = Released")
        case True
        with Waiting Some less.prems have "can_start st i" by (simp add: can_start_def)
        then show ?thesis by (blast intro: host_step.start)
      qed (use less.IH [OF j] j less.prems in auto)
    qed
  qed (use less.prems in \<open>blast intro: host_step.intros\<close>)+
qed

subsection \<open>A run\<close>

text \<open>Two calls on one lane; the body of the first one rejects.\<close>

definition demo_called :: lanes_state where
  "demo_called = runInLane ''a'' (runInLane ''a'' no_lanes)"

definition demo_released :: lanes_state where
  "demo_released = set_status 0 Released (set_status 0 (Settled False) (set_status 0 Running demo_called))"

lemma demo_called_reachable: "reachable_lanes demo_called"
  unfolding demo_called_def by (intro reachable_lanes.stepped [OF _ lane_step.call] reachable_lanes.initial)

lemma demo_length: "length (tasks demo_called) = 2" "length (tasks demo_released) = 2"
  by (simp_all add: demo_released_def demo_called_def runInLane_nth no_lanes_def)

lemma demo_status: "status_of demo_called 0 = Waiting" "status_of demo_called 1 = Waiting"
  "task_after (tasks demo_called ! 0) = None" "task_after (tasks demo_called ! 1) = Some 0"
  "task_key (tasks demo_called ! 0) = ''a''" "task_key (tasks demo_called ! 1) = ''a''"
  by (simp_all add: demo_called_def runInLane_def no_lanes_def status_of_def)

lemma demo_steps: "(host_step ^^ 3) demo_called demo_released"
proof -
  have "host_step demo_called (set_status 0 Running demo_called)"
    by (rule host_step.start) (simp add: can_start_def demo_status demo_length)
  moreover have "host_step (set_status 0 Running demo_called) (set_status 0 (Settled False) (set_status 0 Running demo_called))"
    by (rule host_step.settle) (simp_all add: demo_length)
  moreover have "host_step (set_status 0 (Settled False) (set_status 0 Running demo_called)) demo_released"
    unfolding demo_released_def by (rule host_step.release [where ok = False]) (simp_all add: demo_length)
  ultimately show ?thesis by (simp add: numeral_3_eq_3) blast
qed

lemma reachable_host_steps: "(host_step ^^ n) st st' \<Longrightarrow> reachable_lanes st \<Longrightarrow> reachable_lanes st'"
proof (induction n arbitrary: st')
  case (Suc n)
  then show ?case by (auto intro: reachable_lanes.stepped lane_step.host)
qed simp

subsection \<open>Properties\<close>

text \<open>C12. In every reachable state at most one task of a lane is running or settled but not yet released,
  and the lanes serve their calls first come first served: every call made before it on its lane has been released.\<close>

theorem lane_exclusive_fifo:
  assumes "reachable_lanes st" and "i < length (tasks st)" and "j < i"
    and "task_key (tasks st ! j) = task_key (tasks st ! i)" and "status_of st i \<noteq> Waiting"
  shows "status_of st j = Released"
  using earlier_released [OF reachable_chained [OF assms(1)]] assms by blast

theorem lane_exclusive_fifo_witness: "status_of (set_status 1 Running demo_released) 0 = Released"
proof (rule lane_exclusive_fifo [of _ 1 0])
  have "can_start demo_released 1"
    by (simp add: can_start_def demo_length)
      (simp add: demo_released_def demo_status demo_status [simplified] demo_length)
  then show "reachable_lanes (set_status 1 Running demo_released)"
    by (intro reachable_lanes.stepped [OF reachable_host_steps [OF demo_steps demo_called_reachable]]
        lane_step.host host_step.start)
qed (simp_all add: demo_length, simp_all add: demo_released_def demo_status demo_status [simplified] demo_length)

text \<open>C13. From every reachable state, and with every outcome of the bodies, the host runs all called tasks to
  their release: no schedule of host steps is longer than three steps per task, and one that cannot be
  continued has released every task.  A rejected body holds up none of its successors.\<close>

theorem lane_liveness:
  assumes "reachable_lanes st" and "(host_step ^^ n) st st'"
  shows "n \<le> 3 * length (tasks st) \<and>
    ((\<exists>st''. host_step st' st'') \<or> (\<forall>i < length (tasks st'). status_of st' i = Released))"
proof -
  have run: "reachable_lanes st' \<and> work_left st' + n = work_left st" using assms(2)
  proof (induction n arbitrary: st')
    case (Suc n)
    then obtain t where t: "(host_step ^^ n) st t" "host_step t st'" by auto
    from Suc.IH [OF t(1)] host_step_work [OF t(2)] t(2) show ?case
      by (auto intro: reachable_lanes.stepped lane_step.host)
  qed (use assms(1) in simp)
  have bound: "work_left st \<le> 3 * length (tasks st)"
  proof -
    have "steps_left s \<le> 3" for s by (cases s) auto
    then have "sum_list (map (\<lambda>t. steps_left (task_status t)) ts) \<le> 3 * length ts" for ts :: "lane_task list"
      by (induction ts) (auto intro: add_mono)
    then show ?thesis by (simp add: work_left_def)
  qed
  have "\<forall>i < length (tasks st'). status_of st' i = Released" if "\<nexists>st''. host_step st' st''"
    using that host_step_exists [OF reachable_chained] run by blast
  moreover have "n \<le> 3 * length (tasks st)" using run bound by linarith
  ultimately show ?thesis by blast
qed

theorem lane_liveness_witness:
  "(3::nat) \<le> 3 * length (tasks demo_called) \<and>
   ((\<exists>st''. host_step demo_released st'') \<or> (\<forall>i < length (tasks demo_released). status_of demo_released i = Released))"
  by (rule lane_liveness [OF demo_called_reachable demo_steps])

end
