(* ===== verification/Opfs.thy ===== *)
theory Opfs imports Filesystem "HOL-Library.AList" begin

section \<open>The filesystem over browser handles (src/src/browser/opfs-filesystem.js)\<close>

text \<open>
  \<open>OpfsFilesystem\<close> and its subclass \<open>FsaFilesystem\<close> (src/src/browser/fsa-filesystem.js) reach files
  through the handles of the File System standard.  A handle is its locator, the names on the way
  from the root of the storage, as in the standard: it names a place and stays valid only as long
  as something is there.  The methods of the handles are a parameter, the record \<open>opfs_api\<close>; what the
  standard documents of them is the locale \<open>opfs_platform\<close>.

  The adapter remembers the handle of every directory it has reached.  What is remembered is right
  as long as it names an existing directory (\<open>cache_ok\<close>); the lemmas here say what each method does
  to the storage in such a state.
\<close>

subsection \<open>The platform\<close>

type_synonym handle = "string list"

record js_file =
  file_bytes :: bytes
  lastModified :: int

record 'p opfs_api =
  api_hasOpfs :: bool
  api_document :: bool
  api_syncAccess :: bool
  api_getDirectory :: "('p, handle) op"
  api_getDirectoryHandle :: "handle \<Rightarrow> string \<Rightarrow> bool \<Rightarrow> ('p, handle) op"
  api_getFileHandle :: "handle \<Rightarrow> string \<Rightarrow> bool \<Rightarrow> ('p, handle) op"
  api_getFile :: "handle \<Rightarrow> ('p, js_file) op"
  api_removeEntry :: "handle \<Rightarrow> string \<Rightarrow> bool \<Rightarrow> ('p, unit) op"
  api_keys :: "handle \<Rightarrow> ('p, string list) op"
  api_createWritable :: "handle \<Rightarrow> ('p, nat) op"
  api_write :: "nat \<Rightarrow> bytes \<Rightarrow> ('p, unit) op"
  api_close :: "int \<Rightarrow> nat \<Rightarrow> ('p, unit) op"
  api_createSyncAccessHandle :: "handle \<Rightarrow> ('p, nat) op"
  api_getSize :: "nat \<Rightarrow> ('p, nat) op"
  api_writeAt :: "nat \<Rightarrow> bytes \<Rightarrow> nat \<Rightarrow> ('p, nat) op"
  api_flush :: "int \<Rightarrow> nat \<Rightarrow> ('p, unit) op"
  api_closeAccess :: "nat \<Rightarrow> ('p, unit) op"

subsection \<open>The adapter\<close>

text \<open>The fields of \<open>OpfsFilesystem\<close>, and the platform it works on.\<close>

record 'p opfs_state =
  platform :: 'p
  rootPromise :: "handle result option"
  dirCache :: "(string \<times> handle) list"

definition new_opfs :: "'p \<Rightarrow> 'p opfs_state" where
  "new_opfs p = \<lparr> platform = p, rootPromise = None, dirCache = [] \<rparr>"

definition on_platform :: "('p, 'a) op \<Rightarrow> ('p opfs_state, 'a) op" where
  "on_platform m s = (case m (platform s) of (r, p) \<Rightarrow> (r, s\<lparr> platform := p \<rparr>))"

definition always_after :: "('s, 'a) op \<Rightarrow> ('s, unit) op \<Rightarrow> ('s, 'a) op" where
  "always_after m f s = (case m s of (r, t) \<Rightarrow> (case f t of (Inl e, u) \<Rightarrow> (Inl e, u) | (Inr _, u) \<Rightarrow> (r, u)))"

definition isNotFound :: "js_error \<Rightarrow> bool" where
  "isNotFound error = (err_name error = ''NotFoundError'')"

definition opfs_key :: "string \<Rightarrow> string" where
  "opfs_key path =
     (let normalised = normalize path
      in if starts_with ''/'' normalised then drop 1 normalised else normalised)"

text \<open>The root: the namespace of the origin's private storage, or a directory the user picked.\<close>

datatype root_kind = Namespace string | Picked handle

definition opfs_root :: "'p opfs_api \<Rightarrow> string \<Rightarrow> ('p opfs_state, handle) op" where
  "opfs_root api namespace s =
     (case rootPromise s of
        Some r \<Rightarrow> (r, s)
      | None \<Rightarrow>
          if \<not> api_hasOpfs api then (Inl (plain_error ''OPFS is not available in this browser context''), s)
          else (case bind_op (api_getDirectory api) (\<lambda>root. api_getDirectoryHandle api root namespace True) (platform s) of
                  (r, p) \<Rightarrow> (r, s\<lparr> platform := p, rootPromise := Some r \<rparr>)))"

definition fsa_root :: "handle \<Rightarrow> ('p opfs_state, handle) op" where
  "fsa_root rootHandle = ret rootHandle"

definition this_root :: "'p opfs_api \<Rightarrow> root_kind \<Rightarrow> ('p opfs_state, handle) op" where
  "this_root api kind = (case kind of Namespace n \<Rightarrow> opfs_root api n | Picked h \<Rightarrow> fsa_root h)"

definition key_segments :: "string \<Rightarrow> string list" where
  "key_segments key = filter (\<lambda>s. s \<noteq> []) (split_on CHR ''/'' key)"

definition walk_handles :: "'p opfs_api \<Rightarrow> bool \<Rightarrow> string list \<Rightarrow> handle \<Rightarrow> ('p, handle) op" where
  "walk_handles api create segments handle =
     fold_op (\<lambda>segment h. api_getDirectoryHandle api h segment create) segments handle"

definition directoryHandle :: "'p opfs_api \<Rightarrow> root_kind \<Rightarrow> string \<Rightarrow> bool \<Rightarrow> ('p opfs_state, handle) op" where
  "directoryHandle api kind path create s =
     (let key = opfs_key path; cacheKey = (if key = [] then ''/'' else key) in
      case map_of (dirCache s) cacheKey of
        Some cached \<Rightarrow> (Inr cached, s)
      | None \<Rightarrow>
          bind_op (this_root api kind) (\<lambda>handle.
            if key = [] \<or> key = ''.'' then ret handle
            else bind_op (on_platform (walk_handles api create (key_segments key) handle)) (\<lambda>h.
              seq_op (modify (\<lambda>s. s\<lparr> dirCache := AList.update cacheKey h (dirCache s) \<rparr>)) (ret h))) s)"

definition opfs_basename :: "string \<Rightarrow> string" where
  "opfs_basename path =
     (let key = opfs_key path in case last_index_of CHR ''/'' key of None \<Rightarrow> key | Some index \<Rightarrow> drop (Suc index) key)"

definition fileHandle :: "'p opfs_api \<Rightarrow> root_kind \<Rightarrow> string \<Rightarrow> bool \<Rightarrow> ('p opfs_state, handle) op" where
  "fileHandle api kind path create =
     bind_op (directoryHandle api kind (dirname path) create)
       (\<lambda>dir. on_platform (api_getFileHandle api dir (opfs_basename path) create))"

definition opfs_exists :: "'p opfs_api \<Rightarrow> root_kind \<Rightarrow> string \<Rightarrow> ('p opfs_state, bool) op" where
  "opfs_exists api kind path =
     catch_op (seq_op (fileHandle api kind path False) (ret True))
       (\<lambda>err. if \<not> isNotFound err
          then catch_op (seq_op (directoryHandle api kind path False) (ret True))
                 (\<lambda>directoryErr. if \<not> isNotFound directoryErr then throw directoryErr else ret False)
          else ret False)"

definition opfs_isDirectory :: "'p opfs_api \<Rightarrow> root_kind \<Rightarrow> string \<Rightarrow> ('p opfs_state, bool) op" where
  "opfs_isDirectory api kind path =
     catch_op (seq_op (directoryHandle api kind path False) (ret True))
       (\<lambda>err. if isNotFound err then ret False else throw err)"

definition get_file :: "'p opfs_api \<Rightarrow> root_kind \<Rightarrow> string \<Rightarrow> ('p opfs_state, js_file) op" where
  "get_file api kind path = bind_op (fileHandle api kind path False) (\<lambda>h. on_platform (api_getFile api h))"

definition opfs_mtimeMs :: "'p opfs_api \<Rightarrow> root_kind \<Rightarrow> string \<Rightarrow> ('p opfs_state, int) op" where
  "opfs_mtimeMs api kind path = bind_op (get_file api kind path) (\<lambda>file. ret (lastModified file))"

definition opfs_size :: "'p opfs_api \<Rightarrow> root_kind \<Rightarrow> string \<Rightarrow> ('p opfs_state, nat) op" where
  "opfs_size api kind path = bind_op (get_file api kind path) (\<lambda>file. ret (length (file_bytes file)))"

definition opfs_mkdir :: "'p opfs_api \<Rightarrow> root_kind \<Rightarrow> string \<Rightarrow> bool \<Rightarrow> ('p opfs_state, unit) op" where
  "opfs_mkdir api kind path recursive = seq_op (directoryHandle api kind path recursive) (ret ())"

definition opfs_list :: "'p opfs_api \<Rightarrow> root_kind \<Rightarrow> string \<Rightarrow> ('p opfs_state, string list) op" where
  "opfs_list api kind path =
     bind_op (directoryHandle api kind path False) (\<lambda>dir.
     bind_op (on_platform (api_keys api dir)) (\<lambda>names. ret (sort names)))"

definition remove_entry :: "'p opfs_api \<Rightarrow> root_kind \<Rightarrow> string \<Rightarrow> bool \<Rightarrow> ('p opfs_state, unit) op" where
  "remove_entry api kind path recursive =
     bind_op (directoryHandle api kind (dirname path) False) (\<lambda>parent.
     catch_op (on_platform (api_removeEntry api parent (opfs_basename path) recursive))
       (\<lambda>err. if \<not> isNotFound err then throw err else ret ()))"

definition opfs_rmdir :: "'p opfs_api \<Rightarrow> root_kind \<Rightarrow> string \<Rightarrow> bool \<Rightarrow> ('p opfs_state, unit) op" where
  "opfs_rmdir api kind path recursive = remove_entry api kind path recursive"

definition opfs_readBytes :: "'p opfs_api \<Rightarrow> root_kind \<Rightarrow> string \<Rightarrow> ('p opfs_state, bytes) op" where
  "opfs_readBytes api kind path = bind_op (get_file api kind path) (\<lambda>file. ret (file_bytes file))"

definition opfs_readText :: "'p opfs_api \<Rightarrow> root_kind \<Rightarrow> string \<Rightarrow> ('p opfs_state, string) op" where
  "opfs_readText api kind path = bind_op (opfs_readBytes api kind path) (\<lambda>b. ret (utf8_decode b))"

definition opfs_writeBytes :: "'p opfs_api \<Rightarrow> root_kind \<Rightarrow> int \<Rightarrow> string \<Rightarrow> bytes \<Rightarrow> ('p opfs_state, unit) op" where
  "opfs_writeBytes api kind now path data =
     bind_op (fileHandle api kind path True) (\<lambda>handle.
     bind_op (on_platform (api_createWritable api handle)) (\<lambda>writable.
     always_after (on_platform (api_write api writable data)) (on_platform (api_close api now writable))))"

definition opfs_writeText :: "'p opfs_api \<Rightarrow> root_kind \<Rightarrow> int \<Rightarrow> string \<Rightarrow> string \<Rightarrow> ('p opfs_state, unit) op" where
  "opfs_writeText api kind now path data = opfs_writeBytes api kind now path (utf8_encode data)"

definition sync_append :: "'p opfs_api \<Rightarrow> int \<Rightarrow> handle \<Rightarrow> bytes \<Rightarrow> ('p opfs_state, unit) op" where
  "sync_append api now handle data =
     bind_op (on_platform (api_createSyncAccessHandle api handle)) (\<lambda>access.
     always_after
       (bind_op (on_platform (api_getSize api access)) (\<lambda>at.
        seq_op (on_platform (api_writeAt api access data at)) (on_platform (api_flush api now access))))
       (on_platform (api_closeAccess api access)))"

definition opfs_appendText :: "'p opfs_api \<Rightarrow> root_kind \<Rightarrow> int \<Rightarrow> string \<Rightarrow> string \<Rightarrow> ('p opfs_state, unit) op" where
  "opfs_appendText api kind now path data =
     bind_op (fileHandle api kind path True) (\<lambda>handle.
       if \<not> api_document api \<and> api_syncAccess api then sync_append api now handle (utf8_encode data)
       else bind_op (opfs_exists api kind path) (\<lambda>present.
            bind_op (if present then opfs_readBytes api kind path else ret []) (\<lambda>existing.
            opfs_writeBytes api kind now path (existing @ utf8_encode data))))"

definition opfs_remove :: "'p opfs_api \<Rightarrow> root_kind \<Rightarrow> string \<Rightarrow> ('p opfs_state, unit) op" where
  "opfs_remove api kind path = remove_entry api kind path False"

definition opfs_move :: "'p opfs_api \<Rightarrow> root_kind \<Rightarrow> int \<Rightarrow> string \<Rightarrow> string \<Rightarrow> ('p opfs_state, unit) op" where
  "opfs_move api kind now source target =
     bind_op (opfs_readBytes api kind source) (\<lambda>data.
     seq_op (opfs_writeBytes api kind now target data) (opfs_remove api kind source))"

definition opfs_ops :: "'p opfs_api \<Rightarrow> root_kind \<Rightarrow> 'p opfs_state fs_ops" where
  "opfs_ops api kind = \<lparr> fs_exists = opfs_exists api kind, fs_isDirectory = opfs_isDirectory api kind,
     fs_mtimeMs = opfs_mtimeMs api kind, fs_size = opfs_size api kind, fs_mkdir = (\<lambda>now. opfs_mkdir api kind),
     fs_list = opfs_list api kind, fs_rmdir = (\<lambda>now. opfs_rmdir api kind), fs_readText = opfs_readText api kind,
     fs_readBytes = opfs_readBytes api kind, fs_writeText = opfs_writeText api kind,
     fs_writeBytes = opfs_writeBytes api kind, fs_appendText = opfs_appendText api kind,
     fs_remove = opfs_remove api kind, fs_move = opfs_move api kind \<rparr>"

text \<open>The adapter as it would be without its memory: every call starts from an empty one.\<close>

definition forgetful :: "('p opfs_state, 'a) op \<Rightarrow> ('p opfs_state, 'a) op" where
  "forgetful m s = (case m (s\<lparr> dirCache := [] \<rparr>) of (r, t) \<Rightarrow> (r, t\<lparr> dirCache := [] \<rparr>))"

definition forgetful_ops :: "'p opfs_api \<Rightarrow> root_kind \<Rightarrow> 'p opfs_state fs_ops" where
  "forgetful_ops api kind = (let ops = opfs_ops api kind in
     \<lparr> fs_exists = (\<lambda>p. forgetful (fs_exists ops p)), fs_isDirectory = (\<lambda>p. forgetful (fs_isDirectory ops p)),
     fs_mtimeMs = (\<lambda>p. forgetful (fs_mtimeMs ops p)), fs_size = (\<lambda>p. forgetful (fs_size ops p)),
     fs_mkdir = (\<lambda>now p r. forgetful (fs_mkdir ops now p r)), fs_list = (\<lambda>p. forgetful (fs_list ops p)),
     fs_rmdir = (\<lambda>now p r. forgetful (fs_rmdir ops now p r)), fs_readText = (\<lambda>p. forgetful (fs_readText ops p)),
     fs_readBytes = (\<lambda>p. forgetful (fs_readBytes ops p)), fs_writeText = (\<lambda>now p t. forgetful (fs_writeText ops now p t)),
     fs_writeBytes = (\<lambda>now p b. forgetful (fs_writeBytes ops now p b)),
     fs_appendText = (\<lambda>now p t. forgetful (fs_appendText ops now p t)),
     fs_remove = (\<lambda>p. forgetful (fs_remove ops p)), fs_move = (\<lambda>now p q. forgetful (fs_move ops now p q)) \<rparr>)"

subsection \<open>The abstract view of an adapter\<close>

definition path_segs :: "string \<Rightarrow> string list" where
  "path_segs path = (let key = opfs_key path in if key = ''.'' then [] else key_segments key)"

definition opened :: "root_kind \<Rightarrow> handle \<Rightarrow> 'p opfs_state \<Rightarrow> bool" where
  "opened kind base s = (case kind of Namespace n \<Rightarrow> rootPromise s = Some (Inr base) | Picked h \<Rightarrow> h = base)"

text \<open>What is remembered is true: every handle is that of an existing directory.\<close>

definition cache_ok :: "handle set \<Rightarrow> handle \<Rightarrow> (string \<times> handle) list \<Rightarrow> bool" where
  "cache_ok ds base cache \<longleftrightarrow> (\<forall>k h. map_of cache k = Some h \<longrightarrow> h = base @ key_segments k \<and> h \<in> ds)"

definition opfs_inv :: "('p \<Rightarrow> bool) \<Rightarrow> ('p \<Rightarrow> handle set) \<Rightarrow> root_kind \<Rightarrow> handle \<Rightarrow> 'p opfs_state \<Rightarrow> bool" where
  "opfs_inv pinv pdirs kind base s \<longleftrightarrow> pinv (platform s) \<and> base \<in> pdirs (platform s) \<and> opened kind base s \<and>
     cache_ok (pdirs (platform s)) base (dirCache s)"

definition opfs_file :: "('p \<Rightarrow> handle \<Rightarrow> bytes option) \<Rightarrow> handle \<Rightarrow> 'p opfs_state \<Rightarrow> string \<Rightarrow> bytes option" where
  "opfs_file pfile base s p = (if p \<in> abs_paths then pfile (platform s) (base @ segments_of p) else None)"

definition opfs_dirs :: "('p \<Rightarrow> handle set) \<Rightarrow> handle \<Rightarrow> 'p opfs_state \<Rightarrow> string set" where
  "opfs_dirs pdirs base s = {p \<in> abs_paths. base @ segments_of p \<in> pdirs (platform s)}"

lemma opfs_view [simp]:
  "plain_segments ss \<Longrightarrow> opfs_file pfile base s (abs_path ss) = pfile (platform s) (base @ ss)"
  "plain_segments ss \<Longrightarrow> abs_path ss \<in> opfs_dirs pdirs base s \<longleftrightarrow> base @ ss \<in> pdirs (platform s)"
  by (simp_all add: opfs_file_def opfs_dirs_def path_simps)

lemma opfs_file_outside [simp]: "p \<notin> abs_paths \<Longrightarrow> opfs_file pfile base s p = None"
  and opfs_dirs_abs: "p \<in> opfs_dirs pdirs base s \<Longrightarrow> p \<in> abs_paths"
  by (simp_all add: opfs_file_def opfs_dirs_def)

lemma opfs_key_abs_path [simp]: "plain_segments ss \<Longrightarrow> opfs_key (abs_path ss) = join_with ''/'' ss"
  using abs_path_in [of ss] by (simp add: opfs_key_def abs_paths_iff Let_def) (simp add: abs_path_def)

lemma key_segments_join [simp]: "plain_segments ss \<Longrightarrow> key_segments (join_with ''/'' ss) = ss"
proof (cases "ss = []")
  case False
  assume p: "plain_segments ss"
  have "split_on CHR ''/'' (join_with ''/'' ss) = ss"
    using False p by (intro split_on_join_normal [of True]) (auto simp: plain_segments_normal)
  moreover have "filter (\<lambda>s. s \<noteq> []) ss = ss"
    using p by (auto simp: plain_segments_def filter_id_conv dest: plain_segmentD)
  ultimately show ?thesis by (simp add: key_segments_def)
qed (simp add: key_segments_def)

lemma path_segs_abs_path [simp]: "plain_segments ss \<Longrightarrow> path_segs (abs_path ss) = ss"
proof -
  assume p: "plain_segments ss"
  have "join_with ''/'' ss \<noteq> ''.''"
  proof
    assume "join_with ''/'' ss = ''.''"
    then have "key_segments ''.'' = ss" using key_segments_join [OF p] by simp
    then have "ss = [''.'']" by (simp add: key_segments_def)
    with p show False by (simp add: plain_segment_def isMeaningful_def)
  qed
  with p show ?thesis by (simp add: path_segs_def)
qed

lemma opfs_basename_abs_path [simp]:
  assumes "plain_segments (ss @ [n])"
  shows "opfs_basename (abs_path (ss @ [n])) = n"
proof -
  have n: "CHR ''/'' \<notin> set (rev n)" using assms by (auto dest: plain_segmentD)
  then have none: "index_of CHR ''/'' (rev n) = None" by (simp add: index_of_None)
  have k: "opfs_key (abs_path (ss @ [n])) = join_with ''/'' (ss @ [n])" by (rule opfs_key_abs_path [OF assms])
  show ?thesis
  proof (cases "ss = []")
    case True
    with k none show ?thesis by (simp add: opfs_basename_def Let_def last_index_of_def)
  next
    case False
    then have j: "join_with ''/'' (ss @ [n]) = join_with ''/'' ss @ CHR ''/'' # n" by (simp add: join_with_append)
    have "index_of CHR ''/'' (rev n @ CHR ''/'' # rev (join_with ''/'' ss)) = Some (length n)"
      using index_of_append [OF n, of "rev (join_with ''/'' ss)"] by simp
    then show ?thesis using k j by (simp add: opfs_basename_def Let_def last_index_of_def)
  qed
qed

lemma opfs_basename_root [simp]: "opfs_basename (abs_path []) = []"
  by (simp add: opfs_basename_def Let_def opfs_key_abs_path [of "[]"] last_index_of_def del: opfs_key_abs_path)

lemma dirname_root: "dirname (abs_path []) = abs_path []"
  by (simp add: abs_path_def dirname_def Let_def normalize_def isMeaningful_def)

subsection \<open>What the standard says of the handles\<close>

definition rejects :: "string \<Rightarrow> 'a result \<Rightarrow> bool" where
  "rejects name r \<longleftrightarrow> (\<exists>e. r = Inl e \<and> err_name e = name)"

lemma rejects_Inr [simp]: "\<not> rejects n (Inr x)"
  and rejects_Inl [simp]: "rejects n (Inl e) \<longleftrightarrow> err_name e = n"
  by (auto simp: rejects_def)

text \<open>An operation that neither adds nor removes directories and removes no file.\<close>

definition keeps_entries :: "('p \<Rightarrow> bool) \<Rightarrow> ('p \<Rightarrow> handle set) \<Rightarrow> ('p \<Rightarrow> handle \<Rightarrow> bytes option) \<Rightarrow> ('p, 'a) op \<Rightarrow> bool" where
  "keeps_entries iv ds fm m \<longleftrightarrow> (\<forall>p. iv p \<longrightarrow>
     iv (snd (m p)) \<and> ds (snd (m p)) = ds p \<and> (\<forall>h. fm p h \<noteq> None \<longrightarrow> fm (snd (m p)) h \<noteq> None))"

text \<open>
  The storage is a tree of directories and files with contents and times.  A name is one that is
  neither empty nor a dot name and has no separator (on a platform whose only separator is the slash).
  Handles of directories that are gone reject every call.
\<close>

locale opfs_platform =
  fixes api :: "'p opfs_api"
    and pinv :: "'p \<Rightarrow> bool"
    and pdirs :: "'p \<Rightarrow> handle set"
    and pfile :: "'p \<Rightarrow> handle \<Rightarrow> bytes option"
    and ptime :: "'p \<Rightarrow> handle \<Rightarrow> int"
  assumes root_exists: "pinv p \<Longrightarrow> [] \<in> pdirs p"
    and entry_in_dir: "pinv p \<Longrightarrow> h @ [n] \<in> pdirs p \<or> pfile p (h @ [n]) \<noteq> None \<Longrightarrow> plain_segment n \<and> h \<in> pdirs p"
    and dir_no_file: "pinv p \<Longrightarrow> h \<in> pdirs p \<Longrightarrow> pfile p h = None"
    and finite_storage: "pinv p \<Longrightarrow> finite (pdirs p \<union> {h. pfile p h \<noteq> None})"
    and get_directory: "pinv p \<Longrightarrow> api_hasOpfs api \<Longrightarrow> api_getDirectory api p = (Inr [], p)"
    and dir_name: "pinv p \<Longrightarrow> \<not> plain_segment n \<Longrightarrow>
        \<exists>r. api_getDirectoryHandle api h n c p = (r, p) \<and> rejects ''TypeError'' r"
    and dir_gone: "pinv p \<Longrightarrow> plain_segment n \<Longrightarrow> h \<notin> pdirs p \<Longrightarrow>
        \<exists>r. api_getDirectoryHandle api h n c p = (r, p) \<and> rejects ''NotFoundError'' r"
    and dir_is_file: "pinv p \<Longrightarrow> h \<in> pdirs p \<Longrightarrow> pfile p (h @ [n]) \<noteq> None \<Longrightarrow>
        \<exists>r. api_getDirectoryHandle api h n c p = (r, p) \<and> rejects ''TypeMismatchError'' r"
    and dir_found: "pinv p \<Longrightarrow> h \<in> pdirs p \<Longrightarrow> h @ [n] \<in> pdirs p \<Longrightarrow>
        api_getDirectoryHandle api h n c p = (Inr (h @ [n]), p)"
    and dir_absent: "pinv p \<Longrightarrow> plain_segment n \<Longrightarrow> h \<in> pdirs p \<Longrightarrow> h @ [n] \<notin> pdirs p \<Longrightarrow> pfile p (h @ [n]) = None \<Longrightarrow>
        \<exists>r. api_getDirectoryHandle api h n False p = (r, p) \<and> rejects ''NotFoundError'' r"
    and dir_created: "pinv p \<Longrightarrow> plain_segment n \<Longrightarrow> h \<in> pdirs p \<Longrightarrow> h @ [n] \<notin> pdirs p \<Longrightarrow> pfile p (h @ [n]) = None \<Longrightarrow>
        \<exists>q. api_getDirectoryHandle api h n True p = (Inr (h @ [n]), q) \<and> pinv q \<and>
            pdirs q = insert (h @ [n]) (pdirs p) \<and> pfile q = pfile p"
    and file_name: "pinv p \<Longrightarrow> \<not> plain_segment n \<Longrightarrow>
        \<exists>r. api_getFileHandle api h n c p = (r, p) \<and> rejects ''TypeError'' r"
    and file_gone: "pinv p \<Longrightarrow> plain_segment n \<Longrightarrow> h \<notin> pdirs p \<Longrightarrow>
        \<exists>r. api_getFileHandle api h n c p = (r, p) \<and> rejects ''NotFoundError'' r"
    and file_is_dir: "pinv p \<Longrightarrow> h \<in> pdirs p \<Longrightarrow> h @ [n] \<in> pdirs p \<Longrightarrow>
        \<exists>r. api_getFileHandle api h n c p = (r, p) \<and> rejects ''TypeMismatchError'' r"
    and file_found: "pinv p \<Longrightarrow> h \<in> pdirs p \<Longrightarrow> pfile p (h @ [n]) \<noteq> None \<Longrightarrow>
        api_getFileHandle api h n c p = (Inr (h @ [n]), p)"
    and file_absent: "pinv p \<Longrightarrow> plain_segment n \<Longrightarrow> h \<in> pdirs p \<Longrightarrow> h @ [n] \<notin> pdirs p \<Longrightarrow> pfile p (h @ [n]) = None \<Longrightarrow>
        \<exists>r. api_getFileHandle api h n False p = (r, p) \<and> rejects ''NotFoundError'' r"
    and file_created: "pinv p \<Longrightarrow> plain_segment n \<Longrightarrow> h \<in> pdirs p \<Longrightarrow> h @ [n] \<notin> pdirs p \<Longrightarrow> pfile p (h @ [n]) = None \<Longrightarrow>
        \<exists>q. api_getFileHandle api h n True p = (Inr (h @ [n]), q) \<and> pinv q \<and> pdirs q = pdirs p \<and>
            pfile q = (pfile p)(h @ [n] \<mapsto> [])"
    and file_read: "pinv p \<Longrightarrow> pfile p h = Some b \<Longrightarrow>
        api_getFile api h p = (Inr \<lparr> file_bytes = b, lastModified = ptime p h \<rparr>, p)"
    and file_read_gone: "pinv p \<Longrightarrow> pfile p h = None \<Longrightarrow>
        \<exists>r. api_getFile api h p = (r, p) \<and> rejects ''NotFoundError'' r"
    and removed_name: "pinv p \<Longrightarrow> \<not> plain_segment n \<Longrightarrow>
        \<exists>r. api_removeEntry api h n c p = (r, p) \<and> rejects ''TypeError'' r"
    and removed_gone: "pinv p \<Longrightarrow> plain_segment n \<Longrightarrow> h \<notin> pdirs p \<or> h @ [n] \<notin> pdirs p \<and> pfile p (h @ [n]) = None \<Longrightarrow>
        \<exists>r. api_removeEntry api h n c p = (r, p) \<and> rejects ''NotFoundError'' r"
    and removed_file: "pinv p \<Longrightarrow> h \<in> pdirs p \<Longrightarrow> pfile p (h @ [n]) \<noteq> None \<Longrightarrow>
        \<exists>q. api_removeEntry api h n c p = (Inr (), q) \<and> pinv q \<and> pdirs q = pdirs p \<and> pfile q = (pfile p)(h @ [n] := None)"
    and removed_tree: "pinv p \<Longrightarrow> h \<in> pdirs p \<Longrightarrow> h @ [n] \<in> pdirs p \<Longrightarrow>
        \<exists>q. api_removeEntry api h n True p = (Inr (), q) \<and> pinv q \<and>
            pdirs q = {d \<in> pdirs p. \<not> prefix (h @ [n]) d} \<and>
            pfile q = (\<lambda>d. if prefix (h @ [n]) d then None else pfile p d)"
    and keys_read: "pinv p \<Longrightarrow> h \<in> pdirs p \<Longrightarrow>
        \<exists>names. api_keys api h p = (Inr names, p) \<and> distinct names \<and>
          set names = {n. h @ [n] \<in> pdirs p \<or> pfile p (h @ [n]) \<noteq> None}"
    and keys_gone: "pinv p \<Longrightarrow> h \<notin> pdirs p \<Longrightarrow> \<exists>r. api_keys api h p = (r, p) \<and> rejects ''NotFoundError'' r"
    and written: "pinv p \<Longrightarrow> pfile p h \<noteq> None \<Longrightarrow>
        \<exists>w p1 p2 q. api_createWritable api h p = (Inr w, p1) \<and> api_write api w b p1 = (Inr (), p2) \<and>
          api_close api now w p2 = (Inr (), q) \<and> pinv q \<and> pdirs q = pdirs p \<and>
          pfile q = (pfile p)(h \<mapsto> b) \<and> ptime q h = now"
    and appended: "pinv p \<Longrightarrow> pfile p h = Some b \<Longrightarrow> api_syncAccess api \<Longrightarrow> \<not> api_document api \<Longrightarrow>
        \<exists>a p1 p2 n p3 p4 q. api_createSyncAccessHandle api h p = (Inr a, p1) \<and>
          api_getSize api a p1 = (Inr (length b), p2) \<and> api_writeAt api a d (length b) p2 = (Inr n, p3) \<and>
          api_flush api now a p3 = (Inr (), p4) \<and> api_closeAccess api a p4 = (Inr (), q) \<and>
          pinv q \<and> pdirs q = pdirs p \<and> pfile q = (pfile p)(h \<mapsto> b @ d)"
    and stream_opened: "keeps_entries pinv pdirs pfile (api_createWritable api h)"
    and stream_written: "keeps_entries pinv pdirs pfile (api_write api w b)"
    and stream_closed: "keeps_entries pinv pdirs pfile (api_close api now w)"
    and access_opened: "keeps_entries pinv pdirs pfile (api_createSyncAccessHandle api h)"
    and access_measured: "keeps_entries pinv pdirs pfile (api_getSize api a)"
    and access_written: "keeps_entries pinv pdirs pfile (api_writeAt api a d k)"
    and access_flushed: "keeps_entries pinv pdirs pfile (api_flush api now a)"
    and access_closed: "keeps_entries pinv pdirs pfile (api_closeAccess api a)"
begin

text \<open>Every place on the way to something that exists is a directory.\<close>

lemma prefix_dirs: "pinv p \<Longrightarrow> h @ ss \<in> pdirs p \<or> pfile p (h @ ss) \<noteq> None \<and> ss \<noteq> [] \<Longrightarrow> h \<in> pdirs p"
proof (induction ss rule: rev_induct)
  case (snoc n ss)
  then have "(h @ ss) \<in> pdirs p" using entry_in_dir [of p "h @ ss" n] by simp
  with snoc show ?case by blast
qed simp

lemma entry_plain: "pinv p \<Longrightarrow> h @ ss \<in> pdirs p \<or> pfile p (h @ ss) \<noteq> None \<Longrightarrow> plain_segments ss"
proof (induction ss rule: rev_induct)
  case (snoc n ss)
  then show ?case using entry_in_dir [of p "h @ ss" n] by auto
qed simp

subsubsection \<open>Walking to a directory\<close>

lemma walk_Nil [simp]: "walk_handles api c [] h p = (Inr h, p)"
  by (simp add: walk_handles_def)

lemma walk_Cons: "walk_handles api c (n # ns) h = bind_op (api_getDirectoryHandle api h n c) (walk_handles api c ns)"
  by (simp add: walk_handles_def [abs_def])

lemma walk_found: "pinv p \<Longrightarrow> h @ ss \<in> pdirs p \<Longrightarrow> walk_handles api c ss h p = (Inr (h @ ss), p)"
proof (induction ss arbitrary: h)
  case (Cons n ss)
  have d: "h @ [n] \<in> pdirs p" "h \<in> pdirs p"
    using prefix_dirs [of p "h @ [n]" ss] prefix_dirs [of p h "n # ss"] Cons.prems by auto
  show ?case using Cons.IH [of "h @ [n]"] dir_found [OF Cons.prems(1) d(2,1)] Cons.prems
    by (simp add: walk_Cons bind_op_Inr)
qed simp

text \<open>What a walk can lead to, whatever it meets.\<close>

lemma step_dir:
  assumes p: "pinv p" and m: "api_getDirectoryHandle api h n c p = (r, q)"
  shows "pinv q \<and> pdirs p \<subseteq> pdirs q \<and> pfile q = pfile p \<and> (\<forall>d. r = Inr d \<longrightarrow> d = h @ [n] \<and> d \<in> pdirs q) \<and> (\<not> c \<longrightarrow> q = p)"
proof -
  consider "\<not> plain_segment n" | "plain_segment n" "h \<notin> pdirs p" | "h \<in> pdirs p" "pfile p (h @ [n]) \<noteq> None"
    | "h \<in> pdirs p" "h @ [n] \<in> pdirs p"
    | (new) "plain_segment n" "h \<in> pdirs p" "h @ [n] \<notin> pdirs p" "pfile p (h @ [n]) = None" by blast
  then show ?thesis
  proof cases
    case new
    show ?thesis
    proof (cases c)
      case True
      with dir_created [OF p new] m p show ?thesis by auto
    next
      case False
      with dir_absent [OF p new] m p show ?thesis by auto
    qed
  qed (use dir_name [OF p, of n h c] dir_gone [OF p, of n h c] dir_is_file [OF p, of h n c] dir_found [OF p, of h n c] m p in auto)
qed

lemma walk_any:
  assumes "pinv p" and "h \<in> pdirs p" and "walk_handles api c ss h p = (r, q)"
  shows "pinv q \<and> pdirs p \<subseteq> pdirs q \<and> pfile q = pfile p \<and> (\<forall>d. r = Inr d \<longrightarrow> d = h @ ss \<and> d \<in> pdirs q) \<and> (\<not> c \<longrightarrow> q = p)"
  using assms
proof (induction ss arbitrary: h p)
  case (Cons n ss)
  obtain r1 q1 where m: "api_getDirectoryHandle api h n c p = (r1, q1)" by fastforce
  note s = step_dir [OF Cons.prems(1) m]
  show ?case
  proof (cases r1)
    case (Inl e)
    with m s Cons.prems(3) show ?thesis by (auto simp: walk_Cons bind_op_Inl)
  next
    case (Inr d)
    then have "walk_handles api c ss (h @ [n]) q1 = (r, q)" using m s Cons.prems(3) by (simp add: walk_Cons bind_op_Inr)
    with Cons.IH [of q1 "h @ [n]"] s Inr show ?thesis by auto
  qed
qed auto

lemma walk_created:
  assumes "pinv p" and "h \<in> pdirs p" and "plain_segments ss" and "\<forall>n\<le>length ss. pfile p (h @ take n ss) = None"
  shows "\<exists>q. walk_handles api True ss h p = (Inr (h @ ss), q) \<and> pinv q \<and> pfile q = pfile p \<and>
    pdirs q = pdirs p \<union> {h @ take n ss | n. n \<le> length ss}"
  using assms
proof (induction ss arbitrary: h p)
  case Nil
  then show ?case by auto
next
  case (Cons n ss)
  have free: "pfile p (h @ [n]) = None" using Cons.prems(4) [rule_format, of 1] by simp
  have "\<exists>q. api_getDirectoryHandle api h n True p = (Inr (h @ [n]), q) \<and> pinv q \<and>
      pdirs q = insert (h @ [n]) (pdirs p) \<and> pfile q = pfile p"
  proof (cases "h @ [n] \<in> pdirs p")
    case True
    then show ?thesis using dir_found [OF Cons.prems(1,2) True] Cons.prems(1) by auto
  qed (use dir_created [OF Cons.prems(1), of n h] Cons.prems free in auto)
  then obtain q where q: "api_getDirectoryHandle api h n True p = (Inr (h @ [n]), q)" "pinv q"
    "pdirs q = insert (h @ [n]) (pdirs p)" "pfile q = pfile p" by blast
  have "\<forall>k\<le>length ss. pfile q ((h @ [n]) @ take k ss) = None"
    using Cons.prems(4) [rule_format, of "Suc _"] q(4) by simp
  then obtain u where u: "walk_handles api True ss (h @ [n]) q = (Inr ((h @ [n]) @ ss), u)" "pinv u" "pfile u = pfile q"
    "pdirs u = pdirs q \<union> {(h @ [n]) @ take k ss | k. k \<le> length ss}"
    using Cons.IH [of q "h @ [n]"] Cons.prems q by auto
  have "{h @ take k (n # ss) | k. k \<le> length (n # ss)} = insert h {(h @ [n]) @ take k ss | k. k \<le> length ss}"
    (is "?A = ?B")
  proof
    show "?A \<subseteq> ?B"
    proof
      fix x assume "x \<in> ?A"
      then obtain k where "x = h @ take k (n # ss)" "k \<le> Suc (length ss)" by auto
      then show "x \<in> ?B" by (cases k) auto
    qed
    have "h \<in> ?A" by (intro CollectI exI [of _ 0]) simp
    moreover have "(h @ [n]) @ take k ss \<in> ?A" if "k \<le> length ss" for k
      using that by (intro CollectI exI [of _ "Suc k"]) simp
    ultimately show "?B \<subseteq> ?A" by auto
  qed
  moreover have "h @ [n] \<in> {(h @ [n]) @ take k ss | k. k \<le> length ss}" by (intro CollectI exI [of _ 0]) simp
  ultimately have "pdirs u = pdirs p \<union> {h @ take k (n # ss) | k. k \<le> length (n # ss)}"
    using u(4) q(3) Cons.prems(2) by auto
  with u q show ?case by (simp add: walk_Cons bind_op_Inr)
qed

lemma walk_absent:
  assumes "pinv p" and "h \<in> pdirs p" and "plain_segments ss" and "\<forall>n\<le>length ss. pfile p (h @ take n ss) = None"
    and "h @ ss \<notin> pdirs p"
  shows "\<exists>r. walk_handles api False ss h p = (r, p) \<and> rejects ''NotFoundError'' r"
  using assms
proof (induction ss arbitrary: h)
  case (Cons n ss)
  have free: "pfile p (h @ [n]) = None" using Cons.prems(4) [rule_format, of 1] by simp
  show ?case
  proof (cases "h @ [n] \<in> pdirs p")
    case True
    have "\<forall>k\<le>length ss. pfile p ((h @ [n]) @ take k ss) = None"
      using Cons.prems(4) [rule_format, of "Suc _"] by simp
    with Cons.IH [of "h @ [n]"] Cons.prems True dir_found [OF Cons.prems(1,2) True] show ?thesis
      by (simp add: walk_Cons bind_op_Inr)
  next
    case False
    then obtain r where "api_getDirectoryHandle api h n False p = (r, p)" "rejects ''NotFoundError'' r"
      using dir_absent [OF Cons.prems(1), of n h] Cons.prems free by auto
    then show ?thesis by (auto simp: walk_Cons rejects_def bind_op_Inl)
  qed
qed simp

end

subsection \<open>Reading through the handles\<close>

context opfs_platform
begin

abbreviation oinv :: "root_kind \<Rightarrow> handle \<Rightarrow> 'p opfs_state \<Rightarrow> bool" where
  "oinv \<equiv> opfs_inv pinv pdirs"

abbreviation ofile :: "handle \<Rightarrow> 'p opfs_state \<Rightarrow> string \<Rightarrow> bytes option" where
  "ofile \<equiv> opfs_file pfile"

abbreviation odirs :: "handle \<Rightarrow> 'p opfs_state \<Rightarrow> string set" where
  "odirs \<equiv> opfs_dirs pdirs"

lemma oinvD:
  assumes "oinv kind base s"
  shows "pinv (platform s)" "base \<in> pdirs (platform s)" "opened kind base s" "cache_ok (pdirs (platform s)) base (dirCache s)"
  using assms by (simp_all add: opfs_inv_def)

lemma this_root_run: "oinv kind base s \<Longrightarrow> this_root api kind s = (Inr base, s)"
  by (auto simp: opfs_inv_def opened_def this_root_def opfs_root_def fsa_root_def split: root_kind.splits)

lemma oinv_grow:
  assumes "oinv kind base s" and "pinv q" and "pdirs (platform s) \<subseteq> pdirs q"
  shows "oinv kind base (s\<lparr> platform := q \<rparr>)"
  using assms unfolding opfs_inv_def opened_def cache_ok_def
  by (auto split: root_kind.splits)

text \<open>Whatever is remembered, \<open>directoryHandle\<close> gives what the walk from the root gives.\<close>

lemma directoryHandle_any:
  assumes s: "oinv kind base s" and w: "walk_handles api c (path_segs path) base (platform s) = (r, q)"
  shows "\<exists>cc. directoryHandle api kind path c s = (r, s\<lparr> platform := q, dirCache := cc \<rparr>) \<and>
    oinv kind base (s\<lparr> platform := q, dirCache := cc \<rparr>)"
proof -
  note d = oinvD [OF s]
  let ?key = "opfs_key path"
  let ?ck = "if ?key = [] then ''/'' else ?key"
  have ks: "key_segments ''/'' = []" "key_segments [] = []" "key_segments ''.'' = [''.'']"
    by (simp_all add: key_segments_def)
  show ?thesis
  proof (cases "map_of (dirCache s) ?ck")
    case (Some h)
    then have h: "h = base @ key_segments ?ck" "h \<in> pdirs (platform s)" using d(4) by (auto simp: cache_ok_def)
    have "?key \<noteq> ''.''"
    proof
      assume "?key = ''.''"
      with h ks have "base @ [''.''] \<in> pdirs (platform s)" by simp
      from entry_plain [OF d(1), of base "[''.'']"] this show False by (simp add: plain_segment_def isMeaningful_def)
    qed
    then have "path_segs path = key_segments ?ck" using ks by (simp add: path_segs_def Let_def)
    then have "(r, q) = (Inr h, platform s)" using w h walk_found [OF d(1)] by simp
    with Some s show ?thesis
      by (intro exI [of _ "dirCache s"]) (simp add: directoryHandle_def Let_def)
  next
    case None
    note wa = walk_any [OF d(1,2) w]
    have g: "oinv kind base (s\<lparr> platform := q \<rparr>)" by (rule oinv_grow [OF s]) (use wa in simp_all)
    show ?thesis
    proof (cases "?key = [] \<or> ?key = ''.''")
      case True
      then have "path_segs path = []" using ks by (auto simp: path_segs_def Let_def)
      then have "r = Inr base" "q = platform s" using w by simp_all
      with None True s this_root_run [OF s] show ?thesis
        by (intro exI [of _ "dirCache s"]) (auto simp: directoryHandle_def Let_def bind_op_def)
    next
      case False
      then have k: "path_segs path = key_segments ?key" "?ck = ?key" by (simp_all add: path_segs_def Let_def)
      show ?thesis
      proof (cases r)
        case (Inl e)
        with None False k w g this_root_run [OF s] show ?thesis
          by (intro exI [of _ "dirCache s"]) (simp add: directoryHandle_def Let_def bind_op_def on_platform_def)
      next
        case (Inr h)
        let ?cc = "AList.update ?key h (dirCache s)"
        have "directoryHandle api kind path c s = (r, s\<lparr> platform := q, dirCache := ?cc \<rparr>)"
          using None False k w this_root_run [OF s] Inr
          by (simp add: directoryHandle_def Let_def bind_op_def seq_op_def on_platform_def)
        moreover have "cache_ok (pdirs q) base ?cc"
          using d(4) wa Inr k by (auto simp: cache_ok_def update_conv')
        ultimately show ?thesis using g Inr
          by (intro exI [of _ ?cc]) (auto simp: opfs_inv_def opened_def split: root_kind.splits)
      qed
    qed
  qed
qed

text \<open>An operation that reads: its outcome, and a state that differs in what is remembered only.\<close>

definition reads :: "root_kind \<Rightarrow> handle \<Rightarrow> ('p opfs_state, 'a) op \<Rightarrow> 'p opfs_state \<Rightarrow> 'a result \<Rightarrow> bool" where
  "reads kind base m s r \<longleftrightarrow> (\<exists>cc. m s = (r, s\<lparr> dirCache := cc \<rparr>) \<and> oinv kind base (s\<lparr> dirCache := cc \<rparr>))"

lemma readsI: "m s = (r, s) \<Longrightarrow> oinv kind base s \<Longrightarrow> reads kind base m s r"
  unfolding reads_def by (intro exI [of _ "dirCache s"]) simp

lemma reads_ret: "oinv kind base s \<Longrightarrow> reads kind base (ret x) s (Inr x)"
  by (rule readsI) simp_all

lemma reads_bind:
  assumes "reads kind base m s (Inr x)"
    and "\<And>cc. oinv kind base (s\<lparr> dirCache := cc \<rparr>) \<Longrightarrow> reads kind base (f x) (s\<lparr> dirCache := cc \<rparr>) r"
  shows "reads kind base (bind_op m f) s r"
proof -
  obtain cc where m: "m s = (Inr x, s\<lparr> dirCache := cc \<rparr>)" "oinv kind base (s\<lparr> dirCache := cc \<rparr>)"
    using assms(1) by (auto simp: reads_def)
  from assms(2) [OF m(2)] m(1) show ?thesis by (auto simp: reads_def bind_op_Inr)
qed

lemma reads_bind_error: "reads kind base m s (Inl e) \<Longrightarrow> reads kind base (bind_op m f) s (Inl e)"
  by (auto simp: reads_def bind_op_Inl)

lemma reads_catch:
  assumes "reads kind base m s (Inl e)"
    and "\<And>cc. oinv kind base (s\<lparr> dirCache := cc \<rparr>) \<Longrightarrow> reads kind base (h e) (s\<lparr> dirCache := cc \<rparr>) r"
  shows "reads kind base (catch_op m h) s r"
proof -
  obtain cc where m: "m s = (Inl e, s\<lparr> dirCache := cc \<rparr>)" "oinv kind base (s\<lparr> dirCache := cc \<rparr>)"
    using assms(1) by (auto simp: reads_def)
  from assms(2) [OF m(2)] m(1) show ?thesis by (auto simp: reads_def catch_op_Inl)
qed

lemma reads_catch_ok: "reads kind base m s (Inr x) \<Longrightarrow> reads kind base (catch_op m h) s (Inr x)"
  by (auto simp: reads_def catch_op_Inr)

lemma reads_platform:
  "m (platform s) = (r, platform s) \<Longrightarrow> oinv kind base s \<Longrightarrow> reads kind base (on_platform m) s r"
  by (rule readsI) (simp_all add: on_platform_def)

subsubsection \<open>Directories and files\<close>

lemma directoryHandle_found:
  assumes s: "oinv kind base s" and ss: "plain_segments ss" and d: "base @ ss \<in> pdirs (platform s)"
  shows "reads kind base (directoryHandle api kind (abs_path ss) c) s (Inr (base @ ss))"
  using directoryHandle_any [OF s, of c "abs_path ss"] walk_found [OF oinvD(1) [OF s] d, of c] ss
  by (fastforce simp: reads_def)

text \<open>No file is on the way to a place, the place itself included.\<close>

definition clear_way :: "'p opfs_state \<Rightarrow> handle \<Rightarrow> string list \<Rightarrow> bool" where
  "clear_way s base ss \<longleftrightarrow> (\<forall>n\<le>length ss. pfile (platform s) (base @ take n ss) = None)"

lemma clear_way_dir: "oinv kind base s \<Longrightarrow> base @ ss \<in> pdirs (platform s) \<Longrightarrow> clear_way s base ss"
  unfolding clear_way_def
  by (metis append.assoc append_take_drop_id dir_no_file oinvD(1) prefix_dirs)

lemma clear_way_cache [simp]: "clear_way (s\<lparr> dirCache := cc \<rparr>) base ss = clear_way s base ss"
  by (simp add: clear_way_def)

lemma directoryHandle_absent:
  assumes s: "oinv kind base s" and ss: "plain_segments ss" and d: "base @ ss \<notin> pdirs (platform s)"
    and free: "clear_way s base ss"
  shows "\<exists>e. reads kind base (directoryHandle api kind (abs_path ss) False) s (Inl e) \<and> isNotFound e"
proof -
  obtain r where r: "walk_handles api False ss base (platform s) = (r, platform s)" "rejects ''NotFoundError'' r"
    using walk_absent [OF oinvD(1,2) [OF s] ss _ d] free by (auto simp: clear_way_def)
  with directoryHandle_any [OF s, of False "abs_path ss"] ss show ?thesis
    by (fastforce simp: reads_def rejects_def isNotFound_def)
qed

lemma fileHandle_split:
  "plain_segments (ss @ [n]) \<Longrightarrow> fileHandle api kind (abs_path (ss @ [n])) c =
     bind_op (directoryHandle api kind (abs_path ss) c) (\<lambda>dir. on_platform (api_getFileHandle api dir n c))"
  using dirname_abs_path [of ss n] by (simp add: fileHandle_def del: plain_segments_simps)

lemma fileHandle_found:
  assumes s: "oinv kind base s" and ss: "plain_segments (ss @ [n])" and f: "pfile (platform s) (base @ ss @ [n]) \<noteq> None"
  shows "reads kind base (fileHandle api kind (abs_path (ss @ [n])) c) s (Inr (base @ ss @ [n]))"
proof -
  note p = oinvD(1) [OF s]
  have d: "base @ ss \<in> pdirs (platform s)" using prefix_dirs [OF p, of "base @ ss" "[n]"] f by simp
  show ?thesis unfolding fileHandle_split [OF ss]
    using ss d f file_found [OF p d, of n c] p
    by (intro reads_bind [OF directoryHandle_found [OF s]] reads_platform) auto
qed

lemma fileHandle_directory:
  assumes s: "oinv kind base s" and ss: "plain_segments (ss @ [n])" and f: "base @ ss @ [n] \<in> pdirs (platform s)"
  shows "\<exists>e. reads kind base (fileHandle api kind (abs_path (ss @ [n])) c) s (Inl e) \<and> \<not> isNotFound e"
proof -
  note p = oinvD(1) [OF s]
  have d: "base @ ss \<in> pdirs (platform s)" using prefix_dirs [OF p, of "base @ ss" "[n]"] f by simp
  obtain e where e: "api_getFileHandle api (base @ ss) n c (platform s) = (Inl e, platform s)" "err_name e = ''TypeMismatchError''"
    using file_is_dir [OF p d, of n c] f by (auto simp: rejects_def)
  have "reads kind base (fileHandle api kind (abs_path (ss @ [n])) c) s (Inl e)" unfolding fileHandle_split [OF ss]
    using ss d e by (intro reads_bind [OF directoryHandle_found [OF s]] reads_platform) auto
  with e(2) show ?thesis by (auto simp: isNotFound_def)
qed

lemma fileHandle_absent:
  assumes s: "oinv kind base s" and ss: "plain_segments (ss @ [n])" and free: "clear_way s base ss"
    and f: "base @ ss @ [n] \<notin> pdirs (platform s)" "pfile (platform s) (base @ ss @ [n]) = None"
  shows "\<exists>e. reads kind base (fileHandle api kind (abs_path (ss @ [n])) False) s (Inl e) \<and> isNotFound e"
proof (cases "base @ ss \<in> pdirs (platform s)")
  case False
  with directoryHandle_absent [OF s _ False free] ss show ?thesis
    unfolding fileHandle_split [OF ss] by (auto intro: reads_bind_error)
next
  case True
  obtain e where e: "api_getFileHandle api (base @ ss) n False (platform s) = (Inl e, platform s)" "err_name e = ''NotFoundError''"
    using file_absent [OF oinvD(1) [OF s] _ True, of n] f ss by (auto simp: rejects_def)
  have "reads kind base (fileHandle api kind (abs_path (ss @ [n])) False) s (Inl e)" unfolding fileHandle_split [OF ss]
    using ss True e by (intro reads_bind [OF directoryHandle_found [OF s]] reads_platform) auto
  with e(2) show ?thesis by (auto simp: isNotFound_def)
qed

lemma fileHandle_root:
  assumes s: "oinv kind base s"
  shows "\<exists>e. reads kind base (fileHandle api kind (abs_path []) c) s (Inl e) \<and> \<not> isNotFound e"
proof -
  have r: "base @ [] \<in> pdirs (platform s)" using oinvD(2) [OF s] by simp
  have "\<not> plain_segment []" by (simp add: plain_segment_def isMeaningful_def)
  then obtain e where e: "api_getFileHandle api base [] c (platform s) = (Inl e, platform s)" "err_name e = ''TypeError''"
    using file_name [OF oinvD(1) [OF s], of "[]" base c] by (auto simp: rejects_def)
  have "reads kind base (fileHandle api kind (abs_path []) c) s (Inl e)"
    unfolding fileHandle_def dirname_root opfs_basename_root
    using e by (intro reads_bind [OF directoryHandle_found [OF s _ r]] reads_platform) auto
  with e(2) show ?thesis by (auto simp: isNotFound_def)
qed

subsubsection \<open>The reading methods\<close>

lemma plain_segments_cases:
  assumes "plain_segments ss"
  obtains "ss = []" | us n where "ss = us @ [n]" "plain_segments (us @ [n])"
  using assms by (metis rev_exhaust)

lemma exists_run:
  assumes s: "oinv kind base s" and ss: "plain_segments ss" and free: "ss = [] \<or> clear_way s base (butlast ss)"
  shows "reads kind base (opfs_exists api kind (abs_path ss)) s
    (Inr (pfile (platform s) (base @ ss) \<noteq> None \<or> base @ ss \<in> pdirs (platform s)))"
proof -
  have dir: "reads kind base (opfs_exists api kind (abs_path ss)) s (Inr True)"
    if at: "base @ ss \<in> pdirs (platform s)"
      and fh: "\<exists>e. reads kind base (fileHandle api kind (abs_path ss) False) s (Inl e) \<and> \<not> isNotFound e"
  proof -
    obtain e where e: "reads kind base (fileHandle api kind (abs_path ss) False) s (Inl e)" "\<not> isNotFound e" using fh by blast
    have d: "reads kind base (directoryHandle api kind (abs_path ss) False) (s\<lparr> dirCache := cc \<rparr>) (Inr (base @ ss))"
      if "oinv kind base (s\<lparr> dirCache := cc \<rparr>)" for cc
      using that at ss by (intro directoryHandle_found) simp_all
    show ?thesis unfolding opfs_exists_def
      by (rule reads_catch [where e = e]) (use e d in
          \<open>auto simp: seq_op_def intro!: reads_bind_error reads_catch_ok intro: reads_bind reads_ret\<close>)
  qed
  show ?thesis
  proof (cases rule: plain_segments_cases [OF ss])
    case 1
    with dir fileHandle_root [OF s, of False] oinvD(2) [OF s] show ?thesis by simp
  next
    case (2 us n)
    consider "pfile (platform s) (base @ ss) \<noteq> None" | "base @ ss \<in> pdirs (platform s)"
      | (none) "pfile (platform s) (base @ ss) = None" "base @ ss \<notin> pdirs (platform s)" by blast
    then show ?thesis
    proof cases
      case 1
      then have f: "reads kind base (fileHandle api kind (abs_path ss) False) s (Inr (base @ ss))"
        using fileHandle_found [OF s 2(2), of False] 2(1) by simp
      have "reads kind base (opfs_exists api kind (abs_path ss)) s (Inr True)"
        unfolding opfs_exists_def seq_op_def by (rule reads_catch_ok) (rule reads_bind [OF f reads_ret])
      with 1 show ?thesis by simp
    next
      case dirs: 2
      with dir fileHandle_directory [OF s 2(2), of False] 2(1) show ?thesis by simp
    next
      case none
      then obtain e where e: "reads kind base (fileHandle api kind (abs_path ss) False) s (Inl e)" "isNotFound e"
        using fileHandle_absent [OF s 2(2)] free 2(1) by auto
      have "reads kind base (opfs_exists api kind (abs_path ss)) s (Inr False)"
        unfolding opfs_exists_def
        by (rule reads_catch [where e = e]) (use e in \<open>auto simp: seq_op_def intro!: reads_bind_error reads_ret\<close>)
      with none show ?thesis by simp
    qed
  qed
qed

lemma isDirectory_run:
  assumes s: "oinv kind base s" and ss: "plain_segments ss" and free: "clear_way s base ss"
  shows "reads kind base (opfs_isDirectory api kind (abs_path ss)) s (Inr (base @ ss \<in> pdirs (platform s)))"
proof (cases "base @ ss \<in> pdirs (platform s)")
  case True
  have "reads kind base (opfs_isDirectory api kind (abs_path ss)) s (Inr True)"
    unfolding opfs_isDirectory_def seq_op_def
    by (rule reads_catch_ok) (rule reads_bind [OF directoryHandle_found [OF s ss True] reads_ret])
  with True show ?thesis by simp
next
  case False
  then obtain e where e: "reads kind base (directoryHandle api kind (abs_path ss) False) s (Inl e)" "isNotFound e"
    using directoryHandle_absent [OF s ss _ free] by blast
  have "reads kind base (opfs_isDirectory api kind (abs_path ss)) s (Inr False)"
    unfolding opfs_isDirectory_def
    by (rule reads_catch [where e = e]) (use e in \<open>auto simp: seq_op_def intro!: reads_bind_error reads_ret\<close>)
  with False show ?thesis by simp
qed

lemma get_file_run:
  assumes s: "oinv kind base s" and ss: "plain_segments ss" and f: "pfile (platform s) (base @ ss) = Some b"
  shows "reads kind base (get_file api kind (abs_path ss)) s
    (Inr \<lparr> file_bytes = b, lastModified = ptime (platform s) (base @ ss) \<rparr>)"
proof -
  have "ss \<noteq> []" using f dir_no_file [OF oinvD(1,2) [OF s]] by auto
  then obtain us n where us: "ss = us @ [n]" by (metis rev_exhaust)
  have "reads kind base (fileHandle api kind (abs_path ss) False) s (Inr (base @ ss))"
    using fileHandle_found [OF s, of us n False] ss us f by simp
  then show ?thesis unfolding get_file_def
    using file_read [OF oinvD(1) [OF s] f] by (intro reads_bind reads_platform) auto
qed

lemma list_run:
  assumes s: "oinv kind base s" and ss: "plain_segments ss" and d: "base @ ss \<in> pdirs (platform s)"
  shows "reads kind base (opfs_list api kind (abs_path ss)) s (Inr (sorted_list_of_set {n. plain_segment n \<and>
     (pfile (platform s) (base @ ss @ [n]) \<noteq> None \<or> base @ ss @ [n] \<in> pdirs (platform s))}))"
proof -
  note p = oinvD(1) [OF s]
  obtain names where n: "api_keys api (base @ ss) (platform s) = (Inr names, platform s)" "distinct names"
    "set names = {n. (base @ ss) @ [n] \<in> pdirs (platform s) \<or> pfile (platform s) ((base @ ss) @ [n]) \<noteq> None}"
    using keys_read [OF p d] by blast
  have "set names = {n. plain_segment n \<and>
     (pfile (platform s) (base @ ss @ [n]) \<noteq> None \<or> base @ ss @ [n] \<in> pdirs (platform s))}"
    using n(3) entry_in_dir [OF p, of "base @ ss"] by auto
  then have *: "sort names = sorted_list_of_set {n. plain_segment n \<and>
     (pfile (platform s) (base @ ss @ [n]) \<noteq> None \<or> base @ ss @ [n] \<in> pdirs (platform s))}"
    using n(2) by (metis distinct_remdups_id sorted_list_of_set_sort_remdups)
  show ?thesis unfolding opfs_list_def
  proof (rule reads_bind [OF directoryHandle_found [OF s ss d]])
    fix cc assume i: "oinv kind base (s\<lparr> dirCache := cc \<rparr>)"
    have k: "reads kind base (on_platform (api_keys api (base @ ss))) (s\<lparr> dirCache := cc \<rparr>) (Inr names)"
      using n(1) i by (intro reads_platform) simp_all
    show "reads kind base (bind_op (on_platform (api_keys api (base @ ss))) (\<lambda>names. ret (sort names))) (s\<lparr> dirCache := cc \<rparr>)
      (Inr (sorted_list_of_set {n. plain_segment n \<and>
       (pfile (platform s) (base @ ss @ [n]) \<noteq> None \<or> base @ ss @ [n] \<in> pdirs (platform s))}))"
      unfolding * [symmetric] by (rule reads_bind [OF k reads_ret])
  qed
qed

lemma list_absent_run:
  assumes s: "oinv kind base s" and ss: "plain_segments ss" and d: "base @ ss \<notin> pdirs (platform s)"
  shows "\<exists>e. reads kind base (opfs_list api kind (abs_path ss)) s (Inl e)"
proof -
  obtain r q where w: "walk_handles api False ss base (platform s) = (r, q)" by fastforce
  note wa = walk_any [OF oinvD(1,2) [OF s] w]
  then obtain e where "r = Inl e" "q = platform s" using d by (cases r) auto
  with directoryHandle_any [OF s, of False "abs_path ss"] w ss
  have "reads kind base (directoryHandle api kind (abs_path ss) False) s (Inl e)" by (fastforce simp: reads_def)
  then show ?thesis unfolding opfs_list_def by (auto intro: reads_bind_error)
qed

subsubsection \<open>The writing methods\<close>

lemma directoryHandle_created:
  assumes s: "oinv kind base s" and ss: "plain_segments ss" and free: "clear_way s base ss"
  shows "\<exists>t. directoryHandle api kind (abs_path ss) True s = (Inr (base @ ss), t) \<and> oinv kind base t \<and>
    pfile (platform t) = pfile (platform s) \<and>
    pdirs (platform t) = pdirs (platform s) \<union> {base @ take n ss | n. n \<le> length ss}"
proof -
  obtain q where q: "walk_handles api True ss base (platform s) = (Inr (base @ ss), q)" "pfile q = pfile (platform s)"
    "pdirs q = pdirs (platform s) \<union> {base @ take n ss | n. n \<le> length ss}"
    using walk_created [OF oinvD(1,2) [OF s] ss] free by (auto simp: clear_way_def)
  have "walk_handles api True (path_segs (abs_path ss)) base (platform s) = (Inr (base @ ss), q)" using q(1) ss by simp
  from directoryHandle_any [OF s this] obtain cc where
    "directoryHandle api kind (abs_path ss) True s = (Inr (base @ ss), s\<lparr> platform := q, dirCache := cc \<rparr>)"
    "oinv kind base (s\<lparr> platform := q, dirCache := cc \<rparr>)" by blast
  with q(2,3) show ?thesis by (intro exI [of _ "s\<lparr> platform := q, dirCache := cc \<rparr>"]) simp
qed

lemma fileHandle_created:
  assumes s: "oinv kind base s" and ss: "plain_segments (us @ [n])" and free: "clear_way s base us"
    and nd: "base @ us @ [n] \<notin> pdirs (platform s)"
  shows "\<exists>t. fileHandle api kind (abs_path (us @ [n])) True s = (Inr (base @ us @ [n]), t) \<and> oinv kind base t \<and>
    pfile (platform t) = (pfile (platform s))(base @ us @ [n] \<mapsto>
      (case pfile (platform s) (base @ us @ [n]) of Some b \<Rightarrow> b | None \<Rightarrow> [])) \<and>
    pdirs (platform t) = pdirs (platform s) \<union> {base @ take k us | k. k \<le> length us}"
proof -
  let ?x = "base @ us @ [n]"
  obtain t where t: "directoryHandle api kind (abs_path us) True s = (Inr (base @ us), t)" "oinv kind base t"
    "pfile (platform t) = pfile (platform s)"
    "pdirs (platform t) = pdirs (platform s) \<union> {base @ take k us | k. k \<le> length us}"
    using directoryHandle_created [OF s _ free] ss by auto
  note p = oinvD(1) [OF t(2)]
  have d: "base @ us \<in> pdirs (platform t)" unfolding t(4) by (intro UnI2 CollectI exI [of _ "length us"]) simp
  have x: "(base @ us) @ [n] \<notin> pdirs (platform t)" using nd t(4) by (auto dest: arg_cong [where f = length])
  show ?thesis
  proof (cases "pfile (platform s) ?x")
    case None
    obtain q where q: "api_getFileHandle api (base @ us) n True (platform t) = (Inr ?x, q)" "pinv q"
      "pdirs q = pdirs (platform t)" "pfile q = (pfile (platform t))(?x \<mapsto> [])"
      using file_created [OF p _ d x] ss None t(3) by auto
    have "oinv kind base (t\<lparr> platform := q \<rparr>)" by (rule oinv_grow [OF t(2)]) (use q in simp_all)
    with q t None show ?thesis unfolding fileHandle_split [OF ss]
      by (intro exI [of _ "t\<lparr> platform := q \<rparr>"]) (simp add: bind_op_def on_platform_def)
  next
    case (Some b)
    then have "api_getFileHandle api (base @ us) n True (platform t) = (Inr ?x, platform t)"
      using file_found [OF p d, of n True] t(3) by simp
    with t Some show ?thesis unfolding fileHandle_split [OF ss]
      by (intro exI [of _ t]) (auto simp: bind_op_def on_platform_def)
  qed
qed

lemma write_session:
  assumes t: "oinv kind base t" and f: "pfile (platform t) h \<noteq> None"
  shows "\<exists>u. bind_op (on_platform (api_createWritable api h)) (\<lambda>w.
      always_after (on_platform (api_write api w b)) (on_platform (api_close api now w))) t = (Inr (), u) \<and>
    oinv kind base u \<and> pfile (platform u) = (pfile (platform t))(h \<mapsto> b) \<and> pdirs (platform u) = pdirs (platform t) \<and>
    ptime (platform u) h = now"
proof -
  obtain w p1 p2 q where q: "api_createWritable api h (platform t) = (Inr w, p1)" "api_write api w b p1 = (Inr (), p2)"
    "api_close api now w p2 = (Inr (), q)" "pinv q" "pdirs q = pdirs (platform t)"
    "pfile q = (pfile (platform t))(h \<mapsto> b)" "ptime q h = now"
    using written [OF oinvD(1) [OF t] f, of b now] by blast
  have "oinv kind base (t\<lparr> platform := q \<rparr>)" by (rule oinv_grow [OF t]) (use q in simp_all)
  with q show ?thesis
    by (intro exI [of _ "t\<lparr> platform := q \<rparr>"]) (simp add: bind_op_def always_after_def on_platform_def)
qed

lemma sync_session:
  assumes t: "oinv kind base t" and f: "pfile (platform t) h = Some b" and m: "api_syncAccess api" "\<not> api_document api"
  shows "\<exists>u. sync_append api now h d t = (Inr (), u) \<and>
    oinv kind base u \<and> pfile (platform u) = (pfile (platform t))(h \<mapsto> b @ d) \<and> pdirs (platform u) = pdirs (platform t)"
proof -
  obtain a p1 p2 n p3 p4 q where q: "api_createSyncAccessHandle api h (platform t) = (Inr a, p1)"
    "api_getSize api a p1 = (Inr (length b), p2)" "api_writeAt api a d (length b) p2 = (Inr n, p3)"
    "api_flush api now a p3 = (Inr (), p4)" "api_closeAccess api a p4 = (Inr (), q)" "pinv q" "pdirs q = pdirs (platform t)"
    "pfile q = (pfile (platform t))(h \<mapsto> b @ d)"
    using appended [OF oinvD(1) [OF t] f m, of d now] by metis
  have "oinv kind base (t\<lparr> platform := q \<rparr>)" by (rule oinv_grow [OF t]) (use q in simp_all)
  with q show ?thesis
    by (intro exI [of _ "t\<lparr> platform := q \<rparr>"])
      (simp add: sync_append_def bind_op_def seq_op_def always_after_def on_platform_def)
qed

lemma writeBytes_run:
  assumes s: "oinv kind base s" and ss: "plain_segments (us @ [n])" and free: "clear_way s base us"
    and nd: "base @ us @ [n] \<notin> pdirs (platform s)"
  shows "\<exists>t. opfs_writeBytes api kind now (abs_path (us @ [n])) b s = (Inr (), t) \<and> oinv kind base t \<and>
    pfile (platform t) = (pfile (platform s))(base @ us @ [n] \<mapsto> b) \<and>
    pdirs (platform t) = pdirs (platform s) \<union> {base @ take k us | k. k \<le> length us}"
proof -
  obtain t where t: "fileHandle api kind (abs_path (us @ [n])) True s = (Inr (base @ us @ [n]), t)" "oinv kind base t"
    "pfile (platform t) = (pfile (platform s))(base @ us @ [n] \<mapsto>
      (case pfile (platform s) (base @ us @ [n]) of Some b \<Rightarrow> b | None \<Rightarrow> []))"
    "pdirs (platform t) = pdirs (platform s) \<union> {base @ take k us | k. k \<le> length us}"
    using fileHandle_created [OF assms] by blast
  with write_session [OF t(2), of "base @ us @ [n]" b now] show ?thesis
    by (auto simp: opfs_writeBytes_def bind_op_Inr)
qed

lemma appendText_run:
  assumes s: "oinv kind base s" and ss: "plain_segments (us @ [n])" and free: "clear_way s base us"
    and nd: "base @ us @ [n] \<notin> pdirs (platform s)"
  shows "\<exists>t. opfs_appendText api kind now (abs_path (us @ [n])) d s = (Inr (), t) \<and> oinv kind base t \<and>
    pfile (platform t) = (pfile (platform s))(base @ us @ [n] \<mapsto>
      (case pfile (platform s) (base @ us @ [n]) of Some b \<Rightarrow> b | None \<Rightarrow> []) @ utf8_encode d) \<and>
    pdirs (platform t) = pdirs (platform s) \<union> {base @ take k us | k. k \<le> length us}"
proof -
  let ?x = "base @ us @ [n]" and ?p = "abs_path (us @ [n])"
  let ?b = "case pfile (platform s) ?x of Some b \<Rightarrow> b | None \<Rightarrow> []"
  obtain t where t: "fileHandle api kind ?p True s = (Inr ?x, t)" "oinv kind base t"
    "pfile (platform t) = (pfile (platform s))(?x \<mapsto> ?b)"
    "pdirs (platform t) = pdirs (platform s) \<union> {base @ take k us | k. k \<le> length us}"
    using fileHandle_created [OF assms] by blast
  have x: "?x \<notin> pdirs (platform t)" using nd t(4) by (auto dest: arg_cong [where f = length])
  show ?thesis
  proof (cases "\<not> api_document api \<and> api_syncAccess api")
    case True
    with sync_session [OF t(2), of ?x ?b now "utf8_encode d"] t show ?thesis
      by (auto simp: opfs_appendText_def bind_op_Inr)
  next
    case False
    have f: "pfile (platform t) ?x = Some ?b" using t(3) by simp
    have d: "base @ us \<in> pdirs (platform t)" unfolding t(4) by (intro UnI2 CollectI exI [of _ "length us"]) simp
    note way = clear_way_dir [OF t(2) d]
    have e: "reads kind base (opfs_exists api kind ?p) t (Inr True)"
      using exists_run [OF t(2) ss] way f by simp
    have r: "reads kind base (opfs_readBytes api kind ?p) (t\<lparr> dirCache := cc \<rparr>) (Inr ?b)"
      if "oinv kind base (t\<lparr> dirCache := cc \<rparr>)" for cc
      unfolding opfs_readBytes_def using that f ss
      by (intro reads_bind [OF get_file_run [OF that ss, of ?b]]) (simp_all add: reads_ret)
    obtain c1 where c1: "opfs_exists api kind ?p t = (Inr True, t\<lparr> dirCache := c1 \<rparr>)" "oinv kind base (t\<lparr> dirCache := c1 \<rparr>)"
      using e by (auto simp: reads_def)
    obtain c2 where c2: "opfs_readBytes api kind ?p (t\<lparr> dirCache := c1 \<rparr>) = (Inr ?b, t\<lparr> dirCache := c2 \<rparr>)"
      "oinv kind base (t\<lparr> dirCache := c2 \<rparr>)"
      using r [OF c1(2)] by (auto simp: reads_def)
    obtain u where u: "opfs_writeBytes api kind now ?p (?b @ utf8_encode d) (t\<lparr> dirCache := c2 \<rparr>) = (Inr (), u)"
      "oinv kind base u" "pfile (platform u) = (pfile (platform t))(?x \<mapsto> ?b @ utf8_encode d)"
      "pdirs (platform u) = pdirs (platform t) \<union> {base @ take k us | k. k \<le> length us}"
      using writeBytes_run [OF c2(2) ss, of now "?b @ utf8_encode d"] way x by auto
    have "opfs_appendText api kind now ?p d s = (Inr (), u)"
      using t(1) c1(1) c2(1) u(1) False by (auto simp: opfs_appendText_def bind_op_Inr)
    with u t(3,4) show ?thesis by auto
  qed
qed

lemma remove_entry_run:
  assumes s: "oinv kind base s" and ss: "plain_segments (us @ [n])" and d: "base @ us \<in> pdirs (platform s)"
    and q: "api_removeEntry api (base @ us) n c (platform s) = (Inr (), q)"
  shows "\<exists>cc. remove_entry api kind (abs_path (us @ [n])) c s = (Inr (), s\<lparr> dirCache := cc, platform := q \<rparr>) \<and>
    oinv kind base (s\<lparr> dirCache := cc \<rparr>)"
proof -
  obtain cc where "directoryHandle api kind (abs_path us) False s = (Inr (base @ us), s\<lparr> dirCache := cc \<rparr>)"
    "oinv kind base (s\<lparr> dirCache := cc \<rparr>)"
    using directoryHandle_found [OF s _ d, of False] ss by (auto simp: reads_def)
  moreover have "dirname (abs_path (us @ [n])) = abs_path us" using ss by (intro dirname_abs_path)
  ultimately show ?thesis using q ss
    by (intro exI [of _ cc]) (simp add: remove_entry_def bind_op_def catch_op_def on_platform_def del: plain_segments_simps)
qed

lemma remove_run:
  assumes s: "oinv kind base s" and ss: "plain_segments (us @ [n])" and f: "pfile (platform s) (base @ us @ [n]) \<noteq> None"
  shows "\<exists>t. opfs_remove api kind (abs_path (us @ [n])) s = (Inr (), t) \<and> oinv kind base t \<and>
    pfile (platform t) = (pfile (platform s))(base @ us @ [n] := None) \<and> pdirs (platform t) = pdirs (platform s)"
proof -
  note p = oinvD(1) [OF s]
  have d: "base @ us \<in> pdirs (platform s)" using prefix_dirs [OF p, of "base @ us" "[n]"] f by simp
  obtain q where q: "api_removeEntry api (base @ us) n False (platform s) = (Inr (), q)" "pinv q"
    "pdirs q = pdirs (platform s)" "pfile q = (pfile (platform s))(base @ us @ [n] := None)"
    using removed_file [OF p d, of n False] f by auto
  obtain cc where cc: "remove_entry api kind (abs_path (us @ [n])) False s = (Inr (), s\<lparr> dirCache := cc, platform := q \<rparr>)"
    "oinv kind base (s\<lparr> dirCache := cc \<rparr>)"
    using remove_entry_run [OF s ss d q(1)] by blast
  have "oinv kind base ((s\<lparr> dirCache := cc \<rparr>)\<lparr> platform := q \<rparr>)" by (rule oinv_grow [OF cc(2)]) (use q in simp_all)
  with cc(1) q show ?thesis
    by (intro exI [of _ "s\<lparr> dirCache := cc, platform := q \<rparr>"]) (simp add: opfs_remove_def)
qed

text \<open>A directory is removed with everything below it; what is remembered is not touched.\<close>

lemma rmdir_run:
  assumes s: "oinv kind base s" and ss: "plain_segments (us @ [n])" and d: "base @ us @ [n] \<in> pdirs (platform s)"
  shows "\<exists>q cc. opfs_rmdir api kind (abs_path (us @ [n])) True s = (Inr (), s\<lparr> dirCache := cc, platform := q \<rparr>) \<and>
    pinv q \<and> base \<in> pdirs q \<and> pdirs q = {d \<in> pdirs (platform s). \<not> prefix (base @ us @ [n]) d} \<and>
    pfile q = (\<lambda>d. if prefix (base @ us @ [n]) d then None else pfile (platform s) d)"
proof -
  note p = oinvD [OF s]
  have up: "base @ us \<in> pdirs (platform s)" using prefix_dirs [OF p(1), of "base @ us" "[n]"] d by simp
  have dd: "(base @ us) @ [n] \<in> pdirs (platform s)" using d by simp
  obtain q where q: "api_removeEntry api (base @ us) n True (platform s) = (Inr (), q)" "pinv q"
    "pdirs q = {d \<in> pdirs (platform s). \<not> prefix (base @ us @ [n]) d}"
    "pfile q = (\<lambda>d. if prefix (base @ us @ [n]) d then None else pfile (platform s) d)"
    using removed_tree [OF p(1) up dd] by auto
  have "\<not> prefix (base @ us @ [n]) base" by (auto simp: prefix_def)
  with remove_entry_run [OF s ss up q(1)] q p(2) show ?thesis by (auto simp: opfs_rmdir_def)
qed

end

end
