(* ===== verification/OpfsContract.thy ===== *)
theory OpfsContract imports Opfs begin

section \<open>The adapter keeps the filesystem contract\<close>

text \<open>
  On every platform that behaves as the standard says, the adapter of \<open>Opfs\<close> with its memory emptied
  before each call satisfies \<open>fylo_filesystem\<close>: lookups tell the truth where no file is on the way, writes
  and removals have the effect POSIX gives them.
\<close>

subsection \<open>The contract\<close>

definition forgetful_inv :: "('p \<Rightarrow> bool) \<Rightarrow> ('p \<Rightarrow> handle set) \<Rightarrow> root_kind \<Rightarrow> handle \<Rightarrow> 'p opfs_state \<Rightarrow> bool" where
  "forgetful_inv pinv pdirs kind base s \<longleftrightarrow> opfs_inv pinv pdirs kind base s \<and> dirCache s = []"

context opfs_platform
begin

abbreviation finv :: "root_kind \<Rightarrow> handle \<Rightarrow> 'p opfs_state \<Rightarrow> bool" where
  "finv \<equiv> forgetful_inv pinv pdirs"

lemma finvD:
  assumes "finv kind base s"
  shows "oinv kind base s" "s\<lparr> dirCache := [] \<rparr> = s"
  using assms by (simp add: forgetful_inv_def) (cases s, use assms in \<open>simp add: forgetful_inv_def\<close>)

lemma forget: "oinv kind base t \<Longrightarrow> finv kind base (t\<lparr> dirCache := [] \<rparr>)"
  by (auto simp: forgetful_inv_def opfs_inv_def opened_def cache_ok_def split: root_kind.splits)

lemma forgetful_reads:
  assumes "finv kind base s" and "reads kind base m s r"
  shows "forgetful m s = (r, s)"
proof -
  obtain cc where cc: "m s = (r, s\<lparr> dirCache := cc \<rparr>)" using assms(2) by (auto simp: reads_def)
  have "forgetful m s = (case m s of (r, t) \<Rightarrow> (r, t\<lparr> dirCache := [] \<rparr>))"
    by (simp only: forgetful_def finvD(2) [OF assms(1)])
  also have "\<dots> = (r, s\<lparr> dirCache := [] \<rparr>)" by (simp add: cc)
  finally show ?thesis by (simp only: finvD(2) [OF assms(1)])
qed

lemma view_cache [simp]: "ofile base (t\<lparr> dirCache := cc \<rparr>) = ofile base t" "odirs base (t\<lparr> dirCache := cc \<rparr>) = odirs base t"
proof -
  show "ofile base (t\<lparr> dirCache := cc \<rparr>) = ofile base t" by (rule ext) (simp add: opfs_file_def)
  show "odirs base (t\<lparr> dirCache := cc \<rparr>) = odirs base t" unfolding opfs_dirs_def by simp
qed

lemma forgetful_writes:
  assumes "finv kind base s" and "\<exists>t. m s = (Inr (), t) \<and> oinv kind base t \<and> ofile base t = F \<and> odirs base t = D"
  shows "\<exists>g. forgetful m s = (Inr (), g) \<and> finv kind base g \<and> ofile base g = F \<and> odirs base g = D"
proof -
  obtain t where t: "m s = (Inr (), t)" "oinv kind base t" "ofile base t = F" "odirs base t = D" using assms(2) by blast
  then have "forgetful m s = (Inr (), t\<lparr> dirCache := [] \<rparr>)"
    by (simp only: forgetful_def finvD(2) [OF assms(1)] prod.case)
  with t forget [OF t(2)] show ?thesis by (intro exI [of _ "t\<lparr> dirCache := [] \<rparr>"]) simp
qed

text \<open>From segments to paths.\<close>

lemma view_file:
  assumes ss: "plain_segments ss" and f: "pfile (platform t) = (pfile (platform s))(base @ ss := v)"
  shows "ofile base t = (ofile base s)(abs_path ss := v)"
proof
  fix p show "ofile base t p = ((ofile base s)(abs_path ss := v)) p"
  proof (cases "p \<in> abs_paths")
    case True
    then obtain vs where "p = abs_path vs" "plain_segments vs" by (auto simp: abs_paths_def)
    with ss f show ?thesis by simp
  qed (use ss in auto)
qed

lemma view_dirs:
  assumes ss: "plain_segments ss" and d: "pdirs (platform t) = pdirs (platform s) \<union> {base @ take k ss | k. k \<le> length ss}"
  shows "odirs base t = odirs base s \<union> self_and_ancestors (abs_path ss)"
proof (rule set_eqI)
  fix p
  show "p \<in> odirs base t \<longleftrightarrow> p \<in> odirs base s \<union> self_and_ancestors (abs_path ss)"
  proof (cases "p \<in> abs_paths")
    case True
    then obtain vs where vs: "p = abs_path vs" "plain_segments vs" by (auto simp: abs_paths_def)
    have "(\<exists>k\<le>length ss. vs = take k ss) \<longleftrightarrow> prefix vs ss" by (metis append_eq_conv_conj nat_le_linear prefix_def take_all take_is_prefix)
    with vs ss d show ?thesis using abs_path_below [OF vs(2) ss] by auto
  next
    case False
    moreover have "self_and_ancestors (abs_path ss) \<subseteq> abs_paths"
      using ancestors_subset_abs [OF abs_path_in [OF ss]] ss by (auto simp: self_and_ancestors_def)
    ultimately show ?thesis using opfs_dirs_abs by blast
  qed
qed

lemma way_clear:
  assumes ss: "plain_segments ss" and "\<forall>q\<in>self_and_ancestors (abs_path ss). ofile base s q = None"
  shows "clear_way s base ss"
  unfolding clear_way_def
proof (intro allI impI)
  fix n
  have p: "plain_segments (take n ss)" by (rule plain_segments_take [OF ss])
  have "abs_path (take n ss) \<in> self_and_ancestors (abs_path ss)"
    using abs_path_below [OF p ss] by (simp add: take_is_prefix)
  with assms(2) p show "pfile (platform s) (base @ take n ss) = None" by fastforce
qed

lemma ancestors_way:
  assumes "plain_segments (us @ [n])" and "\<forall>q\<in>ancestors (abs_path (us @ [n])). ofile base s q = None"
  shows "clear_way s base us"
  using assms ancestors_snoc [OF assms(1)] by (intro way_clear) (auto simp: self_and_ancestors_def)

lemma not_root:
  assumes i: "oinv kind base s" and p: "p \<in> abs_paths" and nd: "p \<notin> odirs base s"
  obtains us n where "p = abs_path (us @ [n])" "plain_segments (us @ [n])" "base @ us @ [n] \<notin> pdirs (platform s)"
proof -
  obtain ss where ss: "p = abs_path ss" "plain_segments ss" using p by (auto simp: abs_paths_def)
  then have "ss \<noteq> []" using nd oinvD(2) [OF i] by auto
  then obtain us n where "ss = us @ [n]" by (metis rev_exhaust)
  with that ss nd show thesis by simp
qed

lemma forgetful_select [simp]:
  "fs_exists (forgetful_ops a kind) p = forgetful (opfs_exists a kind p)"
  "fs_isDirectory (forgetful_ops a kind) p = forgetful (opfs_isDirectory a kind p)"
  "fs_mtimeMs (forgetful_ops a kind) p = forgetful (opfs_mtimeMs a kind p)"
  "fs_readBytes (forgetful_ops a kind) p = forgetful (opfs_readBytes a kind p)"
  "fs_readText (forgetful_ops a kind) p = forgetful (opfs_readText a kind p)"
  "fs_list (forgetful_ops a kind) p = forgetful (opfs_list a kind p)"
  "fs_mkdir (forgetful_ops a kind) now p r = forgetful (opfs_mkdir a kind p r)"
  "fs_rmdir (forgetful_ops a kind) now p r = forgetful (opfs_rmdir a kind p r)"
  "fs_writeText (forgetful_ops a kind) now p t = forgetful (opfs_writeText a kind now p t)"
  "fs_appendText (forgetful_ops a kind) now p t = forgetful (opfs_appendText a kind now p t)"
  "fs_remove (forgetful_ops a kind) p = forgetful (opfs_remove a kind p)"
  by (simp_all add: forgetful_ops_def opfs_ops_def Let_def)

text \<open>A write that succeeds gives the file the time of the write, and the file is there.\<close>

lemma write_time:
  assumes s: "oinv kind base s" and p: "p \<in> abs_paths" and w: "opfs_writeBytes api kind now p b s = (Inr (), t)"
  shows "\<exists>ss. p = abs_path ss \<and> plain_segments ss \<and> oinv kind base t \<and>
    pfile (platform t) (base @ ss) = Some b \<and> ptime (platform t) (base @ ss) = now"
proof -
  obtain ss where ss: "p = abs_path ss" "plain_segments ss" using p by (auto simp: abs_paths_def)
  obtain h u where h: "fileHandle api kind p True s = (Inr h, u)" using w
    by (auto simp: opfs_writeBytes_def elim!: bind_op_InrE)
  have "ss \<noteq> []"
  proof
    assume "ss = []"
    with fileHandle_root [OF s, of True] h ss(1) show False by (auto simp: reads_def)
  qed
  then obtain us n where us: "ss = us @ [n]" by (metis rev_exhaust)
  then have pl: "plain_segments (us @ [n])" using ss by simp
  obtain r q where wk: "walk_handles api True us base (platform s) = (r, q)" by fastforce
  note wa = walk_any [OF oinvD(1,2) [OF s] wk]
  have "walk_handles api True (path_segs (abs_path us)) base (platform s) = (r, q)" using wk pl by simp
  from directoryHandle_any [OF s this] obtain cc where
    cc: "directoryHandle api kind (abs_path us) True s = (r, s\<lparr> platform := q, dirCache := cc \<rparr>)"
    "oinv kind base (s\<lparr> platform := q, dirCache := cc \<rparr>)" by blast
  have fh: "bind_op (directoryHandle api kind (abs_path us) True)
      (\<lambda>dir. on_platform (api_getFileHandle api dir n True)) s = (Inr h, u)"
    using h unfolding ss us fileHandle_split [OF pl] .
  then obtain d where d: "r = Inr d" using cc(1) by (cases r) (auto simp: bind_op_def)
  then have dd: "d = base @ us" "base @ us \<in> pdirs q" using wa by auto
  have gf: "on_platform (api_getFileHandle api (base @ us) n True) (s\<lparr> platform := q, dirCache := cc \<rparr>) = (Inr h, u)"
    using fh cc(1) d dd(1) by (simp add: bind_op_Inr)
  have u: "oinv kind base u \<and> h = base @ us @ [n] \<and> pfile (platform u) h \<noteq> None"
  proof -
    have pn: "plain_segment n" using pl by simp
    have pq: "pinv q" using wa by simp
    consider "(base @ us) @ [n] \<in> pdirs q" | "pfile q ((base @ us) @ [n]) \<noteq> None"
      | "(base @ us) @ [n] \<notin> pdirs q" "pfile q ((base @ us) @ [n]) = None" by blast
    then show ?thesis
    proof cases
      case 1
      with file_is_dir [OF pq dd(2) 1, of True] gf show ?thesis by (auto simp: on_platform_def)
    next
      case 2
      have "oinv kind base ((s\<lparr> platform := q, dirCache := cc \<rparr>)\<lparr> platform := q \<rparr>)"
        by (rule oinv_grow [OF cc(2)]) (use pq in simp_all)
      with file_found [OF pq dd(2) 2, of True] gf 2 show ?thesis by (auto simp: on_platform_def)
    next
      case 3
      obtain q2 where q2: "api_getFileHandle api (base @ us) n True q = (Inr ((base @ us) @ [n]), q2)" "pinv q2"
        "pdirs q2 = pdirs q" "pfile q2 = (pfile q)((base @ us) @ [n] \<mapsto> [])"
        using file_created [OF pq pn dd(2) 3] by blast
      have "oinv kind base ((s\<lparr> platform := q, dirCache := cc \<rparr>)\<lparr> platform := q2 \<rparr>)"
        by (rule oinv_grow [OF cc(2)]) (use q2 in simp_all)
      with q2 gf show ?thesis by (auto simp: on_platform_def)
    qed
  qed
  then obtain v where v: "oinv kind base v" "pfile (platform v) h = Some b" "ptime (platform v) h = now"
    "opfs_writeBytes api kind now p b s = (Inr (), v)"
    using write_session [of kind base u h b now] h by (auto simp: opfs_writeBytes_def bind_op_Inr)
  then have "t = v" using w by simp
  with v u us ss show ?thesis by (intro exI [of _ ss]) auto
qed

lemma opfs_contract:
  "fylo_filesystem (forgetful_ops api kind) (finv kind base) (ofile base) (odirs base)"
proof (unfold_locales, goal_cases)
  case (1 f p)
  note i = finvD(1) [OF 1(1)]
  obtain ss where ss: "p = abs_path ss" "plain_segments ss" using 1(2) by (auto simp: abs_paths_def)
  have "ss = [] \<or> clear_way f base (butlast ss)"
    using 1(3) ss ancestors_way by (cases ss rule: rev_cases) auto
  with forgetful_reads [OF 1(1) exists_run [OF i ss(2)]] ss show ?case by simp
next
  case (2 f p)
  note i = finvD(1) [OF 2(1)]
  obtain ss where ss: "p = abs_path ss" "plain_segments ss" using 2(2) by (auto simp: abs_paths_def)
  with forgetful_reads [OF 2(1) isDirectory_run [OF i ss(2)]] way_clear [OF ss(2)] 2(3) show ?case by simp
next
  case (3 f p)
  note i = finvD(1) [OF 3(1)]
  obtain ss b where ss: "p = abs_path ss" "plain_segments ss" "pfile (platform f) (base @ ss) = Some b"
    using 3(2,3) by (auto simp: abs_paths_def)
  have "reads kind base (opfs_mtimeMs api kind p) f (Inr (ptime (platform f) (base @ ss)))"
    unfolding opfs_mtimeMs_def ss(1) by (intro reads_bind [OF get_file_run [OF i ss(2,3)]]) (simp_all add: reads_ret)
  with forgetful_reads [OF 3(1)] show ?case by auto
next
  case (4 f p b)
  note i = finvD(1) [OF 4(1)]
  obtain ss where ss: "p = abs_path ss" "plain_segments ss" "pfile (platform f) (base @ ss) = Some b"
    using 4(2,3) by (auto simp: abs_paths_def)
  have "reads kind base (opfs_readBytes api kind p) f (Inr b)"
    unfolding opfs_readBytes_def ss(1) by (intro reads_bind [OF get_file_run [OF i ss(2,3)]]) (simp_all add: reads_ret)
  with forgetful_reads [OF 4(1)] show ?case by auto
next
  case (5 f p b)
  note i = finvD(1) [OF 5(1)]
  obtain ss where ss: "p = abs_path ss" "plain_segments ss" "pfile (platform f) (base @ ss) = Some b"
    using 5(2,3) by (auto simp: abs_paths_def)
  have "reads kind base (opfs_readBytes api kind p) f (Inr b)"
    unfolding opfs_readBytes_def ss(1) by (intro reads_bind [OF get_file_run [OF i ss(2,3)]]) (simp_all add: reads_ret)
  then have "reads kind base (opfs_readText api kind p) f (Inr (utf8_decode b))"
    unfolding opfs_readText_def by (rule reads_bind [OF _ reads_ret])
  with forgetful_reads [OF 5(1)] show ?case by auto
next
  case (6 f ss)
  have "plain_segment s \<and> (pfile (platform f) (base @ ss @ [s]) \<noteq> None \<or> base @ ss @ [s] \<in> pdirs (platform f)) \<longleftrightarrow>
      plain_segment s \<and> (ofile base f (abs_path (ss @ [s])) \<noteq> None \<or> abs_path (ss @ [s]) \<in> odirs base f)" for s
    using 6(2) by (intro conj_cong refl) simp
  moreover have "base @ ss \<in> pdirs (platform f)" using 6(2,3) by simp
  ultimately show ?case using forgetful_reads [OF 6(1) list_run [OF finvD(1) [OF 6(1)] 6(2)]]
    unfolding forgetful_select by presburger
next
  case (7 f p)
  obtain ss where ss: "p = abs_path ss" "plain_segments ss" using 7(2) by (auto simp: abs_paths_def)
  then obtain e where "reads kind base (opfs_list api kind p) f (Inl e)"
    using list_absent_run [OF finvD(1) [OF 7(1)] ss(2)] 7(3) by auto
  with forgetful_reads [OF 7(1)] show ?case by auto
next
  case (8 f p)
  have p: "p \<in> abs_paths" using 8(2) opfs_dirs_abs by (cases "p \<in> abs_paths") auto
  then obtain ss where ss: "p = abs_path ss" "plain_segments ss" by (auto simp: abs_paths_def)
  have "base @ take k ss \<in> pdirs (platform f)" if "k < length ss" for k
    using prefix_dirs [OF oinvD(1) [OF finvD(1) [OF 8(1)]], of "base @ take k ss" "drop k ss"] 8(2) ss that by auto
  with p ss plain_segments_take [OF ss(2)] show ?case by (auto simp: ancestors_abs_path)
next
  case (9 f p)
  then obtain ss where ss: "p = abs_path ss" "plain_segments ss" using opfs_dirs_abs [OF 9(2)] by (auto simp: abs_paths_def)
  with 9 dir_no_file [OF oinvD(1) [OF finvD(1) [OF 9(1)]]] show ?case by auto
next
  case (10 f)
  have "abs_path [] \<in> odirs base f" using oinvD(2) [OF finvD(1) [OF 10]] by (subst opfs_view) simp_all
  then show ?case by (simp add: abs_path_def)
next
  case (11 f)
  let ?S = "{p. ofile base f p \<noteq> None} \<union> odirs base f"
  have "(\<lambda>p. base @ segments_of p) ` ?S \<subseteq> pdirs (platform f) \<union> {h. pfile (platform f) h \<noteq> None}"
    by (auto simp: opfs_file_def opfs_dirs_def split: if_splits)
  then have "finite ((\<lambda>p. base @ segments_of p) ` ?S)"
    using finite_storage [OF oinvD(1) [OF finvD(1) [OF 11]]] finite_subset by blast
  moreover have "inj_on (\<lambda>p. base @ segments_of p) ?S"
  proof (rule inj_onI)
    fix p q assume *: "p \<in> ?S" "q \<in> ?S" "base @ segments_of p = base @ segments_of q"
    then have "p \<in> abs_paths" "q \<in> abs_paths" by (auto simp: opfs_file_def opfs_dirs_def split: if_splits)
    then obtain ss ts where "p = abs_path ss" "plain_segments ss" "q = abs_path ts" "plain_segments ts"
      by (auto simp: abs_paths_def)
    with *(3) show "p = q" by (simp add: path_simps)
  qed
  ultimately show ?case by (rule finite_imageD)
next
  case (12 f p now t g)
  note i = finvD [OF 12(1)]
  obtain g' where g': "opfs_writeBytes api kind now p (utf8_encode t) f = (Inr (), g')" "g = g'\<lparr> dirCache := [] \<rparr>"
    using 12(3) unfolding forgetful_select opfs_writeText_def forgetful_def i(2) by (auto split: prod.splits)
  obtain ss where ss: "p = abs_path ss" "plain_segments ss" "oinv kind base g'"
    "pfile (platform g') (base @ ss) = Some (utf8_encode t)" "ptime (platform g') (base @ ss) = now"
    using write_time [OF i(1) 12(2) g'(1)] by blast
  have g: "finv kind base g" unfolding g'(2) by (rule forget [OF ss(3)])
  have "pfile (platform g) (base @ ss) = Some (utf8_encode t)" "ptime (platform g) (base @ ss) = now"
    using ss(4,5) g'(2) by simp_all
  then have "reads kind base (opfs_mtimeMs api kind p) g (Inr now)"
    unfolding opfs_mtimeMs_def ss(1) using finvD(1) [OF g] ss(2)
    by (intro reads_bind [OF get_file_run]) (auto simp: reads_ret)
  with forgetful_reads [OF g] show ?case by auto
next
  case (13 f p now t)
  note i = finvD(1) [OF 13(1)]
  obtain us n where us: "p = abs_path (us @ [n])" "plain_segments (us @ [n])" "base @ us @ [n] \<notin> pdirs (platform f)"
    using not_root [OF i 13(2,3)] by blast
  obtain g where g: "opfs_writeBytes api kind now p (utf8_encode t) f = (Inr (), g)" "oinv kind base g"
    "pfile (platform g) = (pfile (platform f))(base @ us @ [n] \<mapsto> utf8_encode t)"
    "pdirs (platform g) = pdirs (platform f) \<union> {base @ take k us | k. k \<le> length us}"
    using writeBytes_run [OF i us(2) ancestors_way us(3)] 13(4) us(1,2) by blast
  have "ofile base g = (ofile base f)(p \<mapsto> utf8_encode t)" "odirs base g = odirs base f \<union> ancestors p"
    using view_file [OF us(2) g(3)] view_dirs [OF _ g(4)] us(1,2) ancestors_snoc [OF us(2)]
    by (auto simp: self_and_ancestors_def)
  then show ?case using g(1,2) unfolding forgetful_select opfs_writeText_def
    by (intro forgetful_writes [OF 13(1)]) blast
next
  case (14 f p now t)
  note i = finvD(1) [OF 14(1)]
  obtain us n where us: "p = abs_path (us @ [n])" "plain_segments (us @ [n])" "base @ us @ [n] \<notin> pdirs (platform f)"
    using not_root [OF i 14(2,3)] by blast
  have way: "clear_way f base us" using ancestors_way [OF us(2)] 14(4) us(1) by simp
  let ?b = "(case ofile base f p of Some b \<Rightarrow> b | None \<Rightarrow> []) @ utf8_encode t"
  obtain g where g: "opfs_appendText api kind now p t f = (Inr (), g)" "oinv kind base g"
    "pfile (platform g) = (pfile (platform f))(base @ us @ [n] \<mapsto> ?b)"
    "pdirs (platform g) = pdirs (platform f) \<union> {base @ take k us | k. k \<le> length us}"
    using appendText_run [where now = now and d = t, OF i us(2) way us(3)] us(1,2) by auto
  have "ofile base g = (ofile base f)(p \<mapsto> ?b)" "odirs base g = odirs base f \<union> ancestors p"
    using view_file [OF us(2) g(3)] view_dirs [OF _ g(4)] us(1,2) ancestors_snoc [OF us(2)]
    by (auto simp: self_and_ancestors_def)
  then show ?case using g(1,2) unfolding forgetful_select
    by (intro forgetful_writes [OF 14(1)]) blast
next
  case (15 f p)
  note i = finvD(1) [OF 15(1)]
  have "p \<notin> odirs base f"
    using 15(2,3) dir_no_file [OF oinvD(1) [OF i]] by (auto simp: opfs_file_def opfs_dirs_def)
  then obtain us n where us: "p = abs_path (us @ [n])" "plain_segments (us @ [n])"
    using not_root [OF i 15(2)] by blast
  obtain g where g: "opfs_remove api kind p f = (Inr (), g)" "oinv kind base g"
    "pfile (platform g) = (pfile (platform f))(base @ us @ [n] := None)" "pdirs (platform g) = pdirs (platform f)"
    using remove_run [OF i us(2)] 15(3) us by auto
  have "ofile base g = (ofile base f)(p := None)" "odirs base g = odirs base f"
    using view_file [OF us(2) g(3)] g(4) us(1) by (simp_all add: opfs_dirs_def)
  then show ?case using g(1,2) unfolding forgetful_select
    by (intro forgetful_writes [OF 15(1)]) blast
next
  case (16 f p now)
  note i = finvD(1) [OF 16(1)]
  obtain ss where ss: "p = abs_path ss" "plain_segments ss" using 16(2) by (auto simp: abs_paths_def)
  obtain g where g: "directoryHandle api kind p True f = (Inr (base @ ss), g)" "oinv kind base g"
    "pfile (platform g) = pfile (platform f)"
    "pdirs (platform g) = pdirs (platform f) \<union> {base @ take k ss | k. k \<le> length ss}"
    using directoryHandle_created [OF i ss(2) way_clear [OF ss(2)]] 16(3) ss(1) by auto
  have "opfs_mkdir api kind p True f = (Inr (), g)" using g(1) by (simp add: opfs_mkdir_def seq_op_Inr)
  moreover have "ofile base g = ofile base f" by (rule ext) (simp add: opfs_file_def g(3))
  moreover have "odirs base g = odirs base f \<union> self_and_ancestors p" using view_dirs [OF ss(2) g(4)] ss(1) by simp
  ultimately show ?case using g(2) unfolding forgetful_select
    by (intro forgetful_writes [OF 16(1)]) blast
next
  case (17 f p now)
  note i = finvD [OF 17(1)]
  obtain ss where ss: "p = abs_path ss" "plain_segments ss" using 17(2) by (auto simp: abs_paths_def)
  with 17(3) have "ss \<noteq> []" by (auto simp: abs_path_def)
  then obtain us n where us: "ss = us @ [n]" by (metis rev_exhaust)
  with ss 17(4) have d: "plain_segments (us @ [n])" "base @ us @ [n] \<in> pdirs (platform f)" by simp_all
  obtain q cc where q: "opfs_rmdir api kind p True f = (Inr (), f\<lparr> dirCache := cc, platform := q \<rparr>)"
    "pinv q" "base \<in> pdirs q" "pdirs q = {d \<in> pdirs (platform f). \<not> prefix (base @ us @ [n]) d}"
    "pfile q = (\<lambda>d. if prefix (base @ us @ [n]) d then None else pfile (platform f) d)"
    using rmdir_run [OF i(1) d] ss(1) us by blast
  let ?g = "f\<lparr> dirCache := [], platform := q \<rparr>"
  have "forgetful (opfs_rmdir api kind p True) f = (case opfs_rmdir api kind p True f of (r, t) \<Rightarrow> (r, t\<lparr> dirCache := [] \<rparr>))"
    by (simp only: forgetful_def i(2))
  also have "\<dots> = (Inr (), ?g)" by (simp add: q(1))
  finally have run: "forgetful (opfs_rmdir api kind p True) f = (Inr (), ?g)" .
  have g: "finv kind base ?g"
    using oinvD(3) [OF i(1)] q(2,3)
    by (auto simp: forgetful_inv_def opfs_inv_def cache_ok_def opened_def split: root_kind.splits)
  have b: "v \<in> below p \<longleftrightarrow> prefix (base @ us @ [n]) (base @ segments_of v)" if v: "v \<in> abs_paths" for v
  proof -
    obtain vs where vs: "v = abs_path vs" "plain_segments vs" using v by (auto simp: abs_paths_def)
    then show ?thesis using abs_path_below [OF ss(2) vs(2)] ss us by (simp add: below_def path_simps)
  qed
  have "below p \<subseteq> abs_paths" by (auto simp: below_def)
  then have "ofile base ?g = (\<lambda>v. if v \<in> below p then None else ofile base f v)" "odirs base ?g = odirs base f - below p"
    using b q(4,5) by (auto simp: opfs_file_def opfs_dirs_def fun_eq_iff)
  with run g show ?case unfolding forgetful_select by blast
qed

end

end
