(* ===== verification/OpfsTree.thy ===== *)
theory OpfsTree imports OpfsContract begin

section \<open>A storage in memory that behaves as the File System standard says\<close>

text \<open>
  The state of a storage as the standard describes it: directories and files by their locators, and
  the open streams.  It interprets the laws the adapter relies on, so they can hold together, and it
  is the platform on which the concrete runs of the adapter are evaluated.
\<close>

record opfs_tree =
  tr_dirs :: "handle list"
  tr_files :: "(handle \<times> js_file) list"
  tr_streams :: "(handle \<times> bytes) list"

definition new_tree :: opfs_tree where
  "new_tree = \<lparr> tr_dirs = [[]], tr_files = [], tr_streams = [] \<rparr>"

definition dom_error :: "string \<Rightarrow> js_error" where
  "dom_error name = JsError name [] None"

definition tree_getDirectoryHandle :: "handle \<Rightarrow> string \<Rightarrow> bool \<Rightarrow> (opfs_tree, handle) op" where
  "tree_getDirectoryHandle h n create t =
     (if \<not> plain_segment n then (Inl (dom_error ''TypeError''), t)
      else if h \<notin> set (tr_dirs t) then (Inl (dom_error ''NotFoundError''), t)
      else if map_of (tr_files t) (h @ [n]) \<noteq> None then (Inl (dom_error ''TypeMismatchError''), t)
      else if h @ [n] \<in> set (tr_dirs t) then (Inr (h @ [n]), t)
      else if create then (Inr (h @ [n]), t\<lparr> tr_dirs := (h @ [n]) # tr_dirs t \<rparr>)
      else (Inl (dom_error ''NotFoundError''), t))"

definition tree_getFileHandle :: "handle \<Rightarrow> string \<Rightarrow> bool \<Rightarrow> (opfs_tree, handle) op" where
  "tree_getFileHandle h n create t =
     (if \<not> plain_segment n then (Inl (dom_error ''TypeError''), t)
      else if h \<notin> set (tr_dirs t) then (Inl (dom_error ''NotFoundError''), t)
      else if h @ [n] \<in> set (tr_dirs t) then (Inl (dom_error ''TypeMismatchError''), t)
      else if map_of (tr_files t) (h @ [n]) \<noteq> None then (Inr (h @ [n]), t)
      else if create then (Inr (h @ [n]), t\<lparr> tr_files := (h @ [n], \<lparr> file_bytes = [], lastModified = 0 \<rparr>) # tr_files t \<rparr>)
      else (Inl (dom_error ''NotFoundError''), t))"

definition tree_getFile :: "handle \<Rightarrow> (opfs_tree, js_file) op" where
  "tree_getFile h t = (case map_of (tr_files t) h of None \<Rightarrow> (Inl (dom_error ''NotFoundError''), t) | Some f \<Rightarrow> (Inr f, t))"

definition tree_removeEntry :: "handle \<Rightarrow> string \<Rightarrow> bool \<Rightarrow> (opfs_tree, unit) op" where
  "tree_removeEntry h n recursive t =
     (let x = h @ [n] in
      if \<not> plain_segment n then (Inl (dom_error ''TypeError''), t)
      else if h \<notin> set (tr_dirs t) \<or> x \<notin> set (tr_dirs t) \<and> map_of (tr_files t) x = None
        then (Inl (dom_error ''NotFoundError''), t)
      else if \<not> recursive \<and> (\<exists>d\<in>set (tr_dirs t @ map fst (tr_files t)). strict_prefix x d)
        then (Inl (dom_error ''InvalidModificationError''), t)
      else (Inr (), t\<lparr> tr_dirs := filter (\<lambda>d. \<not> prefix x d) (tr_dirs t),
             tr_files := filter (\<lambda>(d, _). \<not> prefix x d) (tr_files t) \<rparr>))"

definition tree_keys :: "handle \<Rightarrow> (opfs_tree, string list) op" where
  "tree_keys h t =
     (if h \<notin> set (tr_dirs t) then (Inl (dom_error ''NotFoundError''), t)
      else (Inr (remdups (map last (filter (\<lambda>d. d \<noteq> [] \<and> butlast d = h) (map fst (tr_files t) @ tr_dirs t)))), t))"

definition tree_open :: "handle \<Rightarrow> (opfs_tree, nat) op" where
  "tree_open h t = (Inr (length (tr_streams t)), t\<lparr> tr_streams := tr_streams t @ [(h, [])] \<rparr>)"

definition tree_send :: "nat \<Rightarrow> bytes \<Rightarrow> (opfs_tree, unit) op" where
  "tree_send w b t =
     (if w < length (tr_streams t)
      then (Inr (), t\<lparr> tr_streams := (tr_streams t)[w := (fst (tr_streams t ! w), snd (tr_streams t ! w) @ b)] \<rparr>)
      else (Inl (dom_error ''TypeError''), t))"

definition put_file :: "handle \<Rightarrow> bytes \<Rightarrow> int \<Rightarrow> opfs_tree \<Rightarrow> opfs_tree" where
  "put_file h b now t =
     (if map_of (tr_files t) h = None then t
      else t\<lparr> tr_files := AList.update h \<lparr> file_bytes = b, lastModified = now \<rparr> (tr_files t) \<rparr>)"

definition tree_close :: "int \<Rightarrow> nat \<Rightarrow> (opfs_tree, unit) op" where
  "tree_close now w t =
     (if w < length (tr_streams t) then (Inr (), put_file (fst (tr_streams t ! w)) (snd (tr_streams t ! w)) now t)
      else (Inl (dom_error ''TypeError''), t))"

definition stream_file :: "opfs_tree \<Rightarrow> nat \<Rightarrow> bytes" where
  "stream_file t a = (case map_of (tr_files t) (fst (tr_streams t ! a)) of Some f \<Rightarrow> file_bytes f | None \<Rightarrow> [])"

definition tree_getSize :: "nat \<Rightarrow> (opfs_tree, nat) op" where
  "tree_getSize a t =
     (if a < length (tr_streams t) then (Inr (length (stream_file t a)), t) else (Inl (dom_error ''InvalidStateError''), t))"

definition tree_writeAt :: "nat \<Rightarrow> bytes \<Rightarrow> nat \<Rightarrow> (opfs_tree, nat) op" where
  "tree_writeAt a b at t =
     (if a < length (tr_streams t)
      then (Inr (length b), put_file (fst (tr_streams t ! a)) (take at (stream_file t a) @ b @ drop (at + length b) (stream_file t a)) 0 t)
      else (Inl (dom_error ''InvalidStateError''), t))"

definition tree_flush :: "int \<Rightarrow> nat \<Rightarrow> (opfs_tree, unit) op" where
  "tree_flush now a t =
     (if a < length (tr_streams t) then (Inr (), put_file (fst (tr_streams t ! a)) (stream_file t a) now t)
      else (Inl (dom_error ''InvalidStateError''), t))"

definition tree_api :: "bool \<Rightarrow> bool \<Rightarrow> opfs_tree opfs_api" where
  "tree_api document sync = \<lparr> api_hasOpfs = True, api_document = document, api_syncAccess = sync,
     api_getDirectory = ret [], api_getDirectoryHandle = tree_getDirectoryHandle, api_getFileHandle = tree_getFileHandle,
     api_getFile = tree_getFile, api_removeEntry = tree_removeEntry, api_keys = tree_keys,
     api_createWritable = tree_open, api_write = tree_send, api_close = tree_close,
     api_createSyncAccessHandle = tree_open, api_getSize = tree_getSize, api_writeAt = tree_writeAt,
     api_flush = tree_flush, api_closeAccess = (\<lambda>a. ret ()) \<rparr>"

subsection \<open>The laws\<close>

definition tree_dirs :: "opfs_tree \<Rightarrow> handle set" where
  "tree_dirs t = set (tr_dirs t)"

definition tree_file :: "opfs_tree \<Rightarrow> handle \<Rightarrow> bytes option" where
  "tree_file t h = map_option file_bytes (map_of (tr_files t) h)"

definition tree_time :: "opfs_tree \<Rightarrow> handle \<Rightarrow> int" where
  "tree_time t h = (case map_of (tr_files t) h of Some f \<Rightarrow> lastModified f | None \<Rightarrow> 0)"

definition tree_inv :: "opfs_tree \<Rightarrow> bool" where
  "tree_inv t \<longleftrightarrow> [] \<in> tree_dirs t \<and>
     (\<forall>h n. h @ [n] \<in> tree_dirs t \<or> tree_file t (h @ [n]) \<noteq> None \<longrightarrow> plain_segment n \<and> h \<in> tree_dirs t) \<and>
     (\<forall>h\<in>tree_dirs t. tree_file t h = None)"

lemma tree_invD:
  assumes "tree_inv t"
  shows "[] \<in> tree_dirs t" "h @ [n] \<in> tree_dirs t \<or> tree_file t (h @ [n]) \<noteq> None \<Longrightarrow> plain_segment n \<and> h \<in> tree_dirs t"
    "h \<in> tree_dirs t \<Longrightarrow> tree_file t h = None"
  using assms unfolding tree_inv_def by blast+

lemma tree_file_None: "map_of (tr_files t) h = None \<longleftrightarrow> tree_file t h = None"
  by (simp add: tree_file_def)

lemma tree_select [simp]:
  "set (tr_dirs t) = tree_dirs t"
  "tree_dirs (tr_files_update f t) = tree_dirs t" "tree_dirs (tr_streams_update g t) = tree_dirs t"
  "tree_file (tr_dirs_update d t) = tree_file t" "tree_file (tr_streams_update g t) = tree_file t"
  "tree_time (tr_streams_update g t) = tree_time t"
  by (simp_all add: tree_dirs_def tree_file_def [abs_def] tree_time_def [abs_def])

lemma tree_inv_view: "tree_inv t \<Longrightarrow> tree_dirs u = tree_dirs t \<Longrightarrow> (\<And>h. tree_file u h = None \<longleftrightarrow> tree_file t h = None) \<Longrightarrow> tree_inv u"
  unfolding tree_inv_def by metis

lemma put_file_effect:
  assumes "tree_file t h \<noteq> None"
  shows "tree_dirs (put_file h b now t) = tree_dirs t" "tree_file (put_file h b now t) = (tree_file t)(h \<mapsto> b)"
    "tree_time (put_file h b now t) h = now" "tr_streams (put_file h b now t) = tr_streams t"
    "tree_inv t \<Longrightarrow> tree_inv (put_file h b now t)"
proof -
  show d: "tree_dirs (put_file h b now t) = tree_dirs t" by (simp add: put_file_def)
  show f: "tree_file (put_file h b now t) = (tree_file t)(h \<mapsto> b)"
    using assms by (auto simp: put_file_def tree_file_def fun_eq_iff update_conv')
  show "tree_time (put_file h b now t) h = now" "tr_streams (put_file h b now t) = tr_streams t"
    using assms by (auto simp: put_file_def tree_time_def update_conv' tree_file_None)
  show "tree_inv t \<Longrightarrow> tree_inv (put_file h b now t)"
    using assms by (elim tree_inv_view [OF _ d]) (simp add: f)
qed

lemma tree_below:
  assumes "tree_inv t"
  shows "us @ vs \<in> tree_dirs t \<or> tree_file t (us @ vs) \<noteq> None \<Longrightarrow> vs \<noteq> [] \<Longrightarrow> us \<in> tree_dirs t"
proof (induction vs rule: rev_induct)
  case (snoc m vs)
  then have "us @ vs \<in> tree_dirs t" using tree_invD(2) [OF assms, of "us @ vs" m] by simp
  with snoc.IH show ?case by (cases "vs = []") auto
qed simp

lemma tree_inv_dir:
  assumes "tree_inv t" and "plain_segment n" and "h \<in> tree_dirs t" and "tree_file t (h @ [n]) = None"
    and u: "tree_dirs u = insert (h @ [n]) (tree_dirs t)" "tree_file u = tree_file t"
  shows "tree_inv u"
proof -
  have "plain_segment m \<and> us \<in> tree_dirs u" if "us @ [m] \<in> tree_dirs u \<or> tree_file u (us @ [m]) \<noteq> None" for us m
  proof (cases "us @ [m] = h @ [n]")
    case True
    then show ?thesis using assms(2,3) u(1) by simp
  next
    case False
    then have "us @ [m] \<in> tree_dirs t \<or> tree_file t (us @ [m]) \<noteq> None" using that u by auto
    from tree_invD(2) [OF assms(1) this] show ?thesis using u(1) by simp
  qed
  moreover have "[] \<in> tree_dirs u" "\<forall>us\<in>tree_dirs u. tree_file u us = None"
    using tree_invD(1,3) [OF assms(1)] assms(4) u by auto
  ultimately show ?thesis unfolding tree_inv_def by blast
qed

lemma tree_inv_file:
  assumes "tree_inv t" and "plain_segment n" and "h \<in> tree_dirs t" and "h @ [n] \<notin> tree_dirs t"
    and u: "tree_dirs u = tree_dirs t" "tree_file u = (tree_file t)(h @ [n] \<mapsto> b)"
  shows "tree_inv u"
proof -
  have "plain_segment m \<and> us \<in> tree_dirs u" if "us @ [m] \<in> tree_dirs u \<or> tree_file u (us @ [m]) \<noteq> None" for us m
  proof (cases "us @ [m] = h @ [n]")
    case True
    then show ?thesis using assms(2,3) u(1) by simp
  next
    case False
    then have "us @ [m] \<in> tree_dirs t \<or> tree_file t (us @ [m]) \<noteq> None" using that u by auto
    from tree_invD(2) [OF assms(1) this] show ?thesis using u(1) by simp
  qed
  moreover have "[] \<in> tree_dirs u" "\<forall>us\<in>tree_dirs u. tree_file u us = None"
    using tree_invD(1,3) [OF assms(1)] assms(4) u by auto
  ultimately show ?thesis unfolding tree_inv_def by blast
qed

lemma removed_effect:
  assumes "tree_inv t" and "h \<in> tree_dirs t" and "h @ [n] \<in> tree_dirs t \<or> tree_file t (h @ [n]) \<noteq> None"
    and "c \<or> tree_file t (h @ [n]) \<noteq> None"
  shows "\<exists>q. tree_removeEntry h n c t = (Inr (), q) \<and> tree_inv q \<and>
    tree_dirs q = {d \<in> tree_dirs t. \<not> prefix (h @ [n]) d} \<and>
    tree_file q = (\<lambda>d. if prefix (h @ [n]) d then None else tree_file t d)"
proof -
  let ?x = "h @ [n]"
  let ?q = "t\<lparr> tr_dirs := filter (\<lambda>d. \<not> prefix ?x d) (tr_dirs t), tr_files := filter (\<lambda>(d, _). \<not> prefix ?x d) (tr_files t) \<rparr>"
  have up: "us @ [m] \<in> tree_dirs t \<or> tree_file t (us @ [m]) \<noteq> None \<Longrightarrow> us \<in> tree_dirs t" for us m
    using tree_invD(2) [OF assms(1)] by blast
  note below = tree_below [OF assms(1)]
  have free: "\<not> (\<exists>d\<in>set (tr_dirs t @ map fst (tr_files t)). strict_prefix ?x d)" if "tree_file t ?x \<noteq> None"
  proof
    assume "\<exists>d\<in>set (tr_dirs t @ map fst (tr_files t)). strict_prefix ?x d"
    then obtain d where d: "d \<in> set (tr_dirs t @ map fst (tr_files t))" "strict_prefix ?x d" by blast
    then obtain vs where vs: "d = ?x @ vs" "vs \<noteq> []" by (auto simp: strict_prefix_def prefix_def)
    have "map_of (tr_files t) d \<noteq> None" if "d \<in> fst ` set (tr_files t)"
      using that by (simp add: map_of_eq_None_iff)
    then have "d \<in> tree_dirs t \<or> tree_file t d \<noteq> None"
      using d(1) unfolding tree_file_None [symmetric] by auto
    then have "?x \<in> tree_dirs t" using below [of ?x vs] vs by simp
    then have "tree_file t ?x = None" by (rule tree_invD(3) [OF assms(1)])
    with that show False by simp
  qed
  have "plain_segment n" using tree_invD(2) [OF assms(1) assms(3)] by simp
  then have "tree_removeEntry h n c t = (Inr (), ?q)"
    using assms free by (auto simp: tree_removeEntry_def Let_def tree_file_None)
  moreover have d: "tree_dirs ?q = {d \<in> tree_dirs t. \<not> prefix ?x d}" by (simp add: tree_dirs_def del: tree_select(1))
  moreover have f: "tree_file ?q = (\<lambda>d. if prefix ?x d then None else tree_file t d)"
  proof
    fix d
    have "map_of (filter (\<lambda>(d, _). \<not> prefix ?x d) xs) d = (if prefix ?x d then None else map_of xs d)" for xs :: "(handle \<times> js_file) list"
      by (induction xs) auto
    then show "tree_file ?q d = (if prefix ?x d then None else tree_file t d)" by (simp add: tree_file_def)
  qed
  moreover have "tree_inv ?q"
  proof -
    have "us \<in> tree_dirs ?q" if "us @ [m] \<in> tree_dirs ?q \<or> tree_file ?q (us @ [m]) \<noteq> None" for us m
    proof -
      have "\<not> prefix ?x (us @ [m])" using that unfolding d f by (auto split: if_splits)
      then have "\<not> prefix ?x us" by (auto simp: prefix_def)
      moreover have "us \<in> tree_dirs t" using that up [of us m] unfolding d f by (auto split: if_splits)
      ultimately show ?thesis unfolding d by simp
    qed
    moreover have "plain_segment m" if "us @ [m] \<in> tree_dirs ?q \<or> tree_file ?q (us @ [m]) \<noteq> None" for us m
      using that tree_invD(2) [OF assms(1), of us m] unfolding d f by (auto split: if_splits)
    moreover have "[] \<in> tree_dirs ?q" unfolding d using tree_invD(1) [OF assms(1)] by simp
    moreover have "tree_file ?q us = None" if "us \<in> tree_dirs ?q" for us
      using that tree_invD(3) [OF assms(1)] unfolding d f by auto
    ultimately show ?thesis unfolding tree_inv_def by blast
  qed
  ultimately show ?thesis by blast
qed

lemma tree_children:
  assumes "tree_inv t" and "h \<in> tree_dirs t"
  shows "\<exists>names. tree_keys h t = (Inr names, t) \<and> distinct names \<and>
    set names = {n. h @ [n] \<in> tree_dirs t \<or> tree_file t (h @ [n]) \<noteq> None}"
proof -
  have mem: "d \<in> fst ` set (tr_files t) \<longleftrightarrow> tree_file t d \<noteq> None" for d
    unfolding tree_file_None [symmetric] map_of_eq_None_iff by simp
  have "n \<in> last ` {d \<in> fst ` set (tr_files t) \<union> tree_dirs t. d \<noteq> [] \<and> butlast d = h} \<longleftrightarrow>
      h @ [n] \<in> tree_dirs t \<or> tree_file t (h @ [n]) \<noteq> None" for n
  proof
    assume "n \<in> last ` {d \<in> fst ` set (tr_files t) \<union> tree_dirs t. d \<noteq> [] \<and> butlast d = h}"
    then obtain d where d: "d \<in> fst ` set (tr_files t) \<union> tree_dirs t" "d \<noteq> []" "butlast d = h" "n = last d" by blast
    then have "d = h @ [n]" by (metis append_butlast_last_id)
    with d(1) mem [of d] show "h @ [n] \<in> tree_dirs t \<or> tree_file t (h @ [n]) \<noteq> None" by auto
  next
    assume "h @ [n] \<in> tree_dirs t \<or> tree_file t (h @ [n]) \<noteq> None"
    then have "h @ [n] \<in> {d \<in> fst ` set (tr_files t) \<union> tree_dirs t. d \<noteq> [] \<and> butlast d = h}"
      using mem [of "h @ [n]"] by auto
    then show "n \<in> last ` {d \<in> fst ` set (tr_files t) \<union> tree_dirs t. d \<noteq> [] \<and> butlast d = h}"
      by (rule image_eqI [rotated]) simp
  qed
  then have L: "last ` {d \<in> fst ` set (tr_files t) \<union> tree_dirs t. d \<noteq> [] \<and> butlast d = h} =
      {n. h @ [n] \<in> tree_dirs t \<or> tree_file t (h @ [n]) \<noteq> None}" by blast
  let ?names = "remdups (map last (filter (\<lambda>d. d \<noteq> [] \<and> butlast d = h) (map fst (tr_files t) @ tr_dirs t)))"
  have "set ?names = last ` {d \<in> fst ` set (tr_files t) \<union> tree_dirs t. d \<noteq> [] \<and> butlast d = h}"
    unfolding set_remdups set_map set_filter set_append tree_select ..
  then have "set ?names = {n. h @ [n] \<in> tree_dirs t \<or> tree_file t (h @ [n]) \<noteq> None}" by (simp only: L)
  moreover have "tree_keys h t = (Inr ?names, t)" using assms(2) by (simp add: tree_keys_def)
  ultimately show ?thesis using distinct_remdups by (intro exI conjI)
qed

lemma tree_written:
  assumes "tree_inv t" and "tree_file t h \<noteq> None"
  shows "\<exists>w p1 p2 q. tree_open h t = (Inr w, p1) \<and> tree_send w b p1 = (Inr (), p2) \<and> tree_close now w p2 = (Inr (), q) \<and>
    tree_inv q \<and> tree_dirs q = tree_dirs t \<and> tree_file q = (tree_file t)(h \<mapsto> b) \<and> tree_time q h = now"
proof -
  let ?w = "length (tr_streams t)"
  define p2 where "p2 = t\<lparr> tr_streams := tr_streams t @ [(h, b)] \<rparr>"
  have o: "tree_open h t = (Inr ?w, t\<lparr> tr_streams := tr_streams t @ [(h, [])] \<rparr>)"
    "tree_send ?w b (t\<lparr> tr_streams := tr_streams t @ [(h, [])] \<rparr>) = (Inr (), p2)"
    "tree_close now ?w p2 = (Inr (), put_file h b now p2)"
    by (simp_all add: tree_open_def tree_send_def tree_close_def p2_def)
  have "tree_dirs p2 = tree_dirs t" "tree_file p2 = tree_file t" by (simp_all add: p2_def)
  moreover from this assms(1) have "tree_inv p2" by (auto intro: tree_inv_view)
  ultimately show ?thesis using o put_file_effect [of p2 h b now] assms(2) by (intro exI) auto
qed

lemma tree_appended:
  assumes "tree_inv t" and "tree_file t h = Some b"
  shows "\<exists>a p1 p2 n p3 p4 q. tree_open h t = (Inr a, p1) \<and> tree_getSize a p1 = (Inr (length b), p2) \<and>
    tree_writeAt a d (length b) p2 = (Inr n, p3) \<and> tree_flush now a p3 = (Inr (), p4) \<and> ret () p4 = (Inr (), q) \<and>
    tree_inv q \<and> tree_dirs q = tree_dirs t \<and> tree_file q = (tree_file t)(h \<mapsto> b @ d)"
proof -
  let ?a = "length (tr_streams t)"
  define p1 where "p1 = t\<lparr> tr_streams := tr_streams t @ [(h, [])] \<rparr>"
  define p3 where "p3 = put_file h (b @ d) 0 p1"
  define p4 where "p4 = put_file h (b @ d) now p3"
  have v1: "tree_dirs p1 = tree_dirs t" "tree_file p1 = tree_file t" by (simp_all add: p1_def)
  have s1: "tr_streams p1 = tr_streams t @ [(h, [])]" by (simp add: p1_def)
  have i1: "tree_inv p1" using v1 assms(1) by (auto intro: tree_inv_view)
  note e3 = put_file_effect [of p1 h "b @ d" 0, folded p3_def] and e4 = put_file_effect [of p3 h "b @ d" now, folded p4_def]
  have f1: "tree_file p1 h = Some b" using v1 assms(2) by simp
  have f3: "tree_file p3 h = Some (b @ d)" using e3(2) f1 by simp
  have sf: "stream_file p ?a = c" if "tree_file p h = Some c" "tr_streams p = tr_streams p1" for p c
    using that s1 by (auto simp: stream_file_def tree_file_def)
  have r: "tree_open h t = (Inr ?a, p1)" "tree_getSize ?a p1 = (Inr (length b), p1)"
    "tree_writeAt ?a d (length b) p1 = (Inr (length d), p3)" "tree_flush now ?a p3 = (Inr (), p4)"
    using s1 e3(4) f1 sf [OF f1] sf [OF f3]
    by (simp_all add: tree_open_def p1_def [symmetric] tree_getSize_def tree_writeAt_def tree_flush_def p3_def [symmetric] p4_def [symmetric])
  show ?thesis using r e3 e4 f1 f3 v1 i1 by (intro exI conjI) (assumption | simp)+
qed

lemma put_file_keeps: "tree_dirs (put_file h b now t) = tree_dirs t"
  "tree_file (put_file h b now t) x = None \<longleftrightarrow> tree_file t x = None" "tree_inv t \<Longrightarrow> tree_inv (put_file h b now t)"
proof -
  have "put_file h b now t = t" if "tree_file t h = None" using that by (simp add: put_file_def tree_file_None)
  then show "tree_dirs (put_file h b now t) = tree_dirs t" "tree_file (put_file h b now t) x = None \<longleftrightarrow> tree_file t x = None"
    "tree_inv t \<Longrightarrow> tree_inv (put_file h b now t)"
    using put_file_effect [of t h b now] by (cases "tree_file t h = None"; simp)+
qed

lemma streams_inv: "tree_inv t \<Longrightarrow> tree_inv (tr_streams_update g t)"
  by (rule tree_inv_view) simp_all

lemmas stream_simps = keeps_entries_def tree_api_def tree_open_def tree_send_def tree_close_def tree_getSize_def
  tree_writeAt_def tree_flush_def put_file_keeps streams_inv

lemma tree_streams_keep:
  "keeps_entries tree_inv tree_dirs tree_file (tree_open h)"
  "keeps_entries tree_inv tree_dirs tree_file (tree_send w b)"
  "keeps_entries tree_inv tree_dirs tree_file (tree_close now w)"
  "keeps_entries tree_inv tree_dirs tree_file (tree_getSize a)"
  "keeps_entries tree_inv tree_dirs tree_file (tree_writeAt a b n)"
  "keeps_entries tree_inv tree_dirs tree_file (tree_flush now a)"
  "keeps_entries tree_inv tree_dirs tree_file (ret ())"
  by (simp_all add: stream_simps del: not_None_eq)

interpretation tree: opfs_platform "tree_api document sync" tree_inv tree_dirs tree_file tree_time
  for document sync
proof (unfold_locales, goal_cases)
  case (1 p) then show ?case by (rule tree_invD(1))
next
  case (2 p h n) then show ?case by (rule tree_invD(2))
next
  case (3 p h) then show ?case by (rule tree_invD(3))
next
  case (4 p)
  have "{h. tree_file p h \<noteq> None} = dom (map_of (tr_files p))" by (auto simp: tree_file_def)
  then show ?case using finite_dom_map_of [of "tr_files p"] by (simp flip: tree_select(1))
next
  case (5 p) then show ?case by (simp add: tree_api_def)
next
  case (6 p n h c) then show ?case by (simp add: tree_api_def tree_getDirectoryHandle_def dom_error_def)
next
  case (7 p n h c) then show ?case by (simp add: tree_api_def tree_getDirectoryHandle_def dom_error_def)
next
  case (8 p h n c)
  then have "plain_segment n" using tree_invD(2) [OF 8(1), of h n] by simp
  with 8 show ?case by (simp add: tree_api_def tree_getDirectoryHandle_def dom_error_def tree_file_def)
next
  case (9 p h n c)
  then have "plain_segment n" "tree_file p (h @ [n]) = None"
    using tree_invD(2) [OF 9(1), of h n] tree_invD(3) [OF 9(1)] by simp_all
  with 9 show ?case by (simp add: tree_api_def tree_getDirectoryHandle_def tree_file_def)
next
  case (10 p n h) then show ?case by (simp add: tree_api_def tree_getDirectoryHandle_def dom_error_def tree_file_def)
next
  case (11 p n h)
  let ?q = "p\<lparr> tr_dirs := (h @ [n]) # tr_dirs p \<rparr>"
  have q: "tree_dirs ?q = insert (h @ [n]) (tree_dirs p)" by (simp add: tree_dirs_def del: tree_select(1))
  have "tree_inv ?q" by (rule tree_inv_dir [OF 11(1,2,3,5) q]) simp
  with q 11 show ?case by (simp add: tree_api_def tree_getDirectoryHandle_def tree_file_def)
next
  case (12 p n h c) then show ?case by (simp add: tree_api_def tree_getFileHandle_def dom_error_def)
next
  case (13 p n h c) then show ?case by (simp add: tree_api_def tree_getFileHandle_def dom_error_def)
next
  case (14 p h n c)
  then have "plain_segment n" using tree_invD(2) [OF 14(1), of h n] by simp
  with 14 show ?case by (simp add: tree_api_def tree_getFileHandle_def dom_error_def)
next
  case (15 p h n c)
  then have "plain_segment n" "h @ [n] \<notin> tree_dirs p"
    using tree_invD(2) [OF 15(1), of h n] tree_invD(3) [OF 15(1), of "h @ [n]"] by auto
  with 15 show ?case by (auto simp: tree_api_def tree_getFileHandle_def tree_file_def)
next
  case (16 p n h) then show ?case by (simp add: tree_api_def tree_getFileHandle_def dom_error_def tree_file_def)
next
  case (17 p n h)
  let ?q = "p\<lparr> tr_files := (h @ [n], \<lparr> file_bytes = [], lastModified = 0 \<rparr>) # tr_files p \<rparr>"
  have f: "tree_file ?q = (tree_file p)(h @ [n] \<mapsto> [])" by (auto simp: tree_file_def)
  have "tree_inv ?q" by (rule tree_inv_file [OF 17(1,2,3,4) _ f]) simp
  with f 17 show ?case by (simp add: tree_api_def tree_getFileHandle_def tree_file_None)
next
  case (18 p h b)
  then obtain x where "map_of (tr_files p) h = Some x" "file_bytes x = b" by (auto simp: tree_file_def)
  then show ?case by (simp add: tree_api_def tree_getFile_def tree_time_def)
next
  case (19 p h) then show ?case by (simp add: tree_api_def tree_getFile_def dom_error_def tree_file_def)
next
  case (20 p n h c) then show ?case by (simp add: tree_api_def tree_removeEntry_def dom_error_def Let_def)
next
  case (21 p n h c) then show ?case
    by (auto simp: tree_api_def tree_removeEntry_def dom_error_def Let_def tree_file_None)
next
  case (22 p h n c)
  have nf: "h @ [n] \<notin> tree_dirs p" using tree_invD(3) [OF 22(1), of "h @ [n]"] 22(3) by auto
  have nb: "prefix (h @ [n]) d \<longleftrightarrow> d = h @ [n]" if "d \<in> tree_dirs p \<or> tree_file p d \<noteq> None" for d
  proof
    assume "prefix (h @ [n]) d"
    then obtain vs where "d = (h @ [n]) @ vs" by (auto simp: prefix_def)
    with that tree_below [OF 22(1), of "h @ [n]" vs] nf show "d = h @ [n]" by auto
  qed simp
  obtain q where q: "tree_removeEntry h n c p = (Inr (), q)" "tree_inv q"
    "tree_dirs q = {d \<in> tree_dirs p. \<not> prefix (h @ [n]) d}"
    "tree_file q = (\<lambda>d. if prefix (h @ [n]) d then None else tree_file p d)"
    using removed_effect [OF 22(1,2), of n c] 22(3) by blast
  have "tree_dirs q = tree_dirs p" using q(3) nb nf by auto
  moreover have "tree_file q = (tree_file p)(h @ [n] := None)"
  proof
    fix d show "tree_file q d = ((tree_file p)(h @ [n] := None)) d"
      using nb [of d] by (cases "tree_file p d") (simp_all add: q(4))
  qed
  ultimately show ?case using q(1,2) by (simp add: tree_api_def)
next
  case (23 p h n)
  with removed_effect [OF 23(1,2), of n True] show ?case by (simp add: tree_api_def)
next
  case (24 p h) then show ?case using tree_children [of p h] by (simp add: tree_api_def)
next
  case (25 p h) then show ?case by (simp add: tree_api_def tree_keys_def dom_error_def)
next
  case (26 p h b now) then show ?case using tree_written [of p h b now] by (simp add: tree_api_def)
next
  case (27 p h b d now) then show ?case using tree_appended [of p h b d now] by (simp add: tree_api_def)
qed (simp_all add: tree_api_def tree_streams_keep)

interpretation tree_host: fylo_filesystem "forgetful_ops (tree_api document sync) kind" "forgetful_inv tree_inv tree_dirs kind base"
    "opfs_file tree_file base" "opfs_dirs tree_dirs base" for document sync kind base
  by (rule tree.opfs_contract)

end
