(* ===== verification/OpfsStore.thy ===== *)
theory OpfsStore imports OpfsTree EngineStore Engine begin

section \<open>The engine on browser storage\<close>

text \<open>
  The engine on \<open>OpfsFilesystem\<close> and \<open>FsaFilesystem\<close>: with the memory of directory handles left out it
  keeps the specification on every platform that behaves as the standard says; the memory changes no
  outcome as long as no directory is removed; and once one is, it makes the adapter fail.
\<close>

subsection \<open>Any sequence of calls\<close>

text \<open>The calls of a client of a filesystem, with the values they return.\<close>

datatype host_call = HExists string | HIsDirectory string | HMtimeMs string | HSize string | HMkdir string bool
  | HList string | HRmdir string bool | HReadText string | HReadBytes string | HWriteText string string
  | HWriteBytes string bytes | HAppendText string string | HRemove string | HMove string string

datatype host_value = VUnit | VBool bool | VInt int | VNat nat | VNames "string list" | VText string

definition giving :: "('a \<Rightarrow> host_value) \<Rightarrow> ('f, 'a) op \<Rightarrow> ('f, host_value) op" where
  "giving g m = bind_op m (\<lambda>x. ret (g x))"

fun run_host :: "'f fs_ops \<Rightarrow> int \<Rightarrow> host_call \<Rightarrow> ('f, host_value) op" where
  "run_host ops now (HExists p) = giving VBool (fs_exists ops p)"
| "run_host ops now (HIsDirectory p) = giving VBool (fs_isDirectory ops p)"
| "run_host ops now (HMtimeMs p) = giving VInt (fs_mtimeMs ops p)"
| "run_host ops now (HSize p) = giving VNat (fs_size ops p)"
| "run_host ops now (HMkdir p r) = giving (\<lambda>_. VUnit) (fs_mkdir ops now p r)"
| "run_host ops now (HList p) = giving VNames (fs_list ops p)"
| "run_host ops now (HRmdir p r) = giving (\<lambda>_. VUnit) (fs_rmdir ops now p r)"
| "run_host ops now (HReadText p) = giving VText (fs_readText ops p)"
| "run_host ops now (HReadBytes p) = giving VText (fs_readBytes ops p)"
| "run_host ops now (HWriteText p t) = giving (\<lambda>_. VUnit) (fs_writeText ops now p t)"
| "run_host ops now (HWriteBytes p b) = giving (\<lambda>_. VUnit) (fs_writeBytes ops now p b)"
| "run_host ops now (HAppendText p t) = giving (\<lambda>_. VUnit) (fs_appendText ops now p t)"
| "run_host ops now (HRemove p) = giving (\<lambda>_. VUnit) (fs_remove ops p)"
| "run_host ops now (HMove p q) = giving (\<lambda>_. VUnit) (fs_move ops now p q)"

text \<open>Every call is made, whatever the calls before it returned or threw.\<close>

fun run_all :: "'f fs_ops \<Rightarrow> (int \<times> host_call) list \<Rightarrow> 'f \<Rightarrow> host_value result list \<times> 'f" where
  "run_all ops [] f = ([], f)"
| "run_all ops ((now, call) # calls) f =
     (case run_host ops now call f of (r, g) \<Rightarrow> case run_all ops calls g of (rs, h) \<Rightarrow> (r # rs, h))"

text \<open>A call that removes no directory: not \<open>rmdir\<close>, and \<open>remove\<close> not of a path that names one.\<close>

definition names_dir :: "handle set \<Rightarrow> handle \<Rightarrow> string \<Rightarrow> bool" where
  "names_dir ds base path \<longleftrightarrow> base @ path_segs (dirname path) @ [opfs_basename path] \<in> ds"

definition gentle :: "handle set \<Rightarrow> handle \<Rightarrow> host_call \<Rightarrow> bool" where
  "gentle ds base call = (case call of HRmdir p r \<Rightarrow> False | HRemove p \<Rightarrow> \<not> names_dir ds base p | _ \<Rightarrow> True)"

fun all_gentle :: "('p \<Rightarrow> handle set) \<Rightarrow> handle \<Rightarrow> 'p opfs_state fs_ops \<Rightarrow> (int \<times> host_call) list \<Rightarrow> 'p opfs_state \<Rightarrow> bool" where
  "all_gentle ds base ops [] s = True"
| "all_gentle ds base ops ((now, call) # calls) s =
     (gentle (ds (platform s)) base call \<and> all_gentle ds base ops calls (snd (run_host ops now call s)))"

subsection \<open>The memory of handles is transparent\<close>

context opfs_platform
begin

text \<open>Two states of the adapter that differ in what is remembered, and in nothing else.\<close>

definition alike :: "root_kind \<Rightarrow> handle \<Rightarrow> 'p opfs_state \<Rightarrow> 'p opfs_state \<Rightarrow> bool" where
  "alike rk base s s' \<longleftrightarrow> oinv rk base s \<and> oinv rk base s' \<and> platform s' = platform s \<and> rootPromise s' = rootPromise s"

definition agree :: "root_kind \<Rightarrow> handle \<Rightarrow> ('p opfs_state, 'a) op \<Rightarrow> ('p opfs_state, 'a) op \<Rightarrow> 'p opfs_state \<Rightarrow> 'p opfs_state \<Rightarrow> bool" where
  "agree rk base m m' s s' \<longleftrightarrow>
     (\<exists>r t t'. m s = (r, t) \<and> m' s' = (r, t') \<and> alike rk base t t' \<and> pdirs (platform s) \<subseteq> pdirs (platform t) \<and>
        (\<forall>h. pfile (platform s) h \<noteq> None \<longrightarrow> pfile (platform t) h \<noteq> None))"

lemma agreeI:
  "m s = (r, t) \<Longrightarrow> m' s' = (r, t') \<Longrightarrow> alike rk base t t' \<Longrightarrow> pdirs (platform s) \<subseteq> pdirs (platform t) \<Longrightarrow>
   (\<And>h. pfile (platform s) h \<noteq> None \<Longrightarrow> pfile (platform t) h \<noteq> None) \<Longrightarrow> agree rk base m m' s s'"
  unfolding agree_def by blast

lemma agree_ret: "alike rk base s s' \<Longrightarrow> agree rk base (ret x) (ret x) s s'"
  and agree_throw: "alike rk base s s' \<Longrightarrow> agree rk base (throw e) (throw e) s s'"
  by (rule agreeI; simp)+

lemma agree_bind:
  assumes "agree rk base m m' s s'"
    and "\<And>x t t'. m s = (Inr x, t) \<Longrightarrow> alike rk base t t' \<Longrightarrow> pdirs (platform s) \<subseteq> pdirs (platform t) \<Longrightarrow>
      (\<And>h. pfile (platform s) h \<noteq> None \<Longrightarrow> pfile (platform t) h \<noteq> None) \<Longrightarrow> agree rk base (f x) (f' x) t t'"
  shows "agree rk base (bind_op m f) (bind_op m' f') s s'"
proof -
  obtain r t t' where m: "m s = (r, t)" "m' s' = (r, t')" "alike rk base t t'" "pdirs (platform s) \<subseteq> pdirs (platform t)"
    "\<forall>h. pfile (platform s) h \<noteq> None \<longrightarrow> pfile (platform t) h \<noteq> None"
    using assms(1) unfolding agree_def by blast
  show ?thesis
  proof (cases r)
    case (Inl e)
    show ?thesis by (rule agreeI [of _ _ "Inl e" t _ _ t']) (use m Inl in \<open>simp_all add: bind_op_Inl\<close>)
  next
    case (Inr x)
    have "agree rk base (f x) (f' x) t t'" using assms(2) [OF _ m(3,4)] m(1,5) Inr by blast
    then obtain r2 u u' where u: "f x t = (r2, u)" "f' x t' = (r2, u')" "alike rk base u u'"
      "pdirs (platform t) \<subseteq> pdirs (platform u)" "\<forall>h. pfile (platform t) h \<noteq> None \<longrightarrow> pfile (platform u) h \<noteq> None"
      unfolding agree_def by blast
    show ?thesis
    proof (rule agreeI [of _ _ r2 u _ _ u'])
      show "bind_op m f s = (r2, u)" "bind_op m' f' s' = (r2, u')" using m u Inr by (simp_all add: bind_op_Inr)
      show "alike rk base u u'" by (rule u(3))
      show "pdirs (platform s) \<subseteq> pdirs (platform u)" using m(4) u(4) by blast
    qed (use m(5) u(5) in blast)
  qed
qed

lemma agree_seq:
  "agree rk base m m' s s' \<Longrightarrow> (\<And>t t'. alike rk base t t' \<Longrightarrow> agree rk base n n' t t') \<Longrightarrow>
   agree rk base (seq_op m n) (seq_op m' n') s s'"
  unfolding seq_op_def by (rule agree_bind)

lemma agree_catch:
  assumes "agree rk base m m' s s'" and "\<And>e t t'. alike rk base t t' \<Longrightarrow> agree rk base (h e) (h' e) t t'"
  shows "agree rk base (catch_op m h) (catch_op m' h') s s'"
proof -
  obtain r t t' where m: "m s = (r, t)" "m' s' = (r, t')" "alike rk base t t'" "pdirs (platform s) \<subseteq> pdirs (platform t)"
    "\<forall>h. pfile (platform s) h \<noteq> None \<longrightarrow> pfile (platform t) h \<noteq> None"
    using assms(1) unfolding agree_def by blast
  show ?thesis
  proof (cases r)
    case (Inr x)
    show ?thesis by (rule agreeI [of _ _ "Inr x" t _ _ t']) (use m Inr in \<open>simp_all add: catch_op_Inr\<close>)
  next
    case (Inl e)
    obtain r2 u u' where u: "h e t = (r2, u)" "h' e t' = (r2, u')" "alike rk base u u'"
      "pdirs (platform t) \<subseteq> pdirs (platform u)" "\<forall>h. pfile (platform t) h \<noteq> None \<longrightarrow> pfile (platform u) h \<noteq> None"
      using assms(2) [OF m(3), of e] unfolding agree_def by blast
    show ?thesis
    proof (rule agreeI [of _ _ r2 u _ _ u'])
      show "catch_op m h s = (r2, u)" "catch_op m' h' s' = (r2, u')" using m u Inl by (simp_all add: catch_op_Inl)
      show "alike rk base u u'" by (rule u(3))
      show "pdirs (platform s) \<subseteq> pdirs (platform u)" using m(4) u(4) by blast
    qed (use m(5) u(5) in blast)
  qed
qed

lemma agree_finally:
  assumes "agree rk base m m' s s'" and "\<And>t t'. alike rk base t t' \<Longrightarrow> agree rk base f f' t t'"
  shows "agree rk base (always_after m f) (always_after m' f') s s'"
proof -
  obtain r t t' where m: "m s = (r, t)" "m' s' = (r, t')" "alike rk base t t'" "pdirs (platform s) \<subseteq> pdirs (platform t)"
    "\<forall>h. pfile (platform s) h \<noteq> None \<longrightarrow> pfile (platform t) h \<noteq> None"
    using assms(1) unfolding agree_def by blast
  obtain r2 u u' where u: "f t = (r2, u)" "f' t' = (r2, u')" "alike rk base u u'"
    "pdirs (platform t) \<subseteq> pdirs (platform u)" "\<forall>h. pfile (platform t) h \<noteq> None \<longrightarrow> pfile (platform u) h \<noteq> None"
    using assms(2) [OF m(3)] unfolding agree_def by blast
  show ?thesis
  proof (rule agreeI [of _ _ "case r2 of Inl e \<Rightarrow> Inl e | Inr _ \<Rightarrow> r" u _ _ u'])
    show "always_after m f s = (case r2 of Inl e \<Rightarrow> Inl e | Inr _ \<Rightarrow> r, u)"
      "always_after m' f' s' = (case r2 of Inl e \<Rightarrow> Inl e | Inr _ \<Rightarrow> r, u')"
      using m u by (simp_all add: always_after_def split: sum.split)
    show "alike rk base u u'" by (rule u(3))
    show "pdirs (platform s) \<subseteq> pdirs (platform u)" using m(4) u(4) by blast
  qed (use m(5) u(5) in blast)
qed

text \<open>A call of the platform that takes no directory and no file away.\<close>

definition mild :: "('p, 'a) op \<Rightarrow> bool" where
  "mild m \<longleftrightarrow> (\<forall>p. pinv p \<longrightarrow> pinv (snd (m p)) \<and> pdirs p \<subseteq> pdirs (snd (m p)) \<and>
     (\<forall>h. pfile p h \<noteq> None \<longrightarrow> pfile (snd (m p)) h \<noteq> None))"

lemma alike_grow:
  assumes "alike rk base s s'" and "pinv q" and "pdirs (platform s) \<subseteq> pdirs q"
  shows "alike rk base (s\<lparr> platform := q \<rparr>) (s'\<lparr> platform := q \<rparr>)"
  using assms by (simp add: alike_def oinv_grow)

lemma agree_platform_at:
  assumes "alike rk base s s'" and "m (platform s) = (r, q)" and "pinv q" and "pdirs (platform s) \<subseteq> pdirs q"
    and "\<And>h. pfile (platform s) h \<noteq> None \<Longrightarrow> pfile q h \<noteq> None"
  shows "agree rk base (on_platform m) (on_platform m) s s'"
proof (rule agreeI [of _ _ r "s\<lparr> platform := q \<rparr>" _ _ "s'\<lparr> platform := q \<rparr>"])
  show "on_platform m s = (r, s\<lparr> platform := q \<rparr>)" "on_platform m s' = (r, s'\<lparr> platform := q \<rparr>)"
    using assms(1,2) by (simp_all add: on_platform_def alike_def)
qed (use assms alike_grow in auto)

lemma agree_platform:
  assumes "alike rk base s s'" and "mild m"
  shows "agree rk base (on_platform m) (on_platform m) s s'"
proof -
  obtain r q where m: "m (platform s) = (r, q)" by fastforce
  have "pinv (platform s)" using assms(1) by (simp add: alike_def opfs_inv_def)
  with assms(2) m have "pinv q" "pdirs (platform s) \<subseteq> pdirs q" "\<And>h. pfile (platform s) h \<noteq> None \<Longrightarrow> pfile q h \<noteq> None"
    unfolding mild_def by (metis snd_conv)+
  then show ?thesis by (intro agree_platform_at [where m = m, OF assms(1) m])
qed

lemma agree_directoryHandle:
  assumes "alike rk base s s'"
  shows "agree rk base (directoryHandle api rk path c) (directoryHandle api rk path c) s s'"
proof -
  have s: "oinv rk base s" "oinv rk base s'" "platform s' = platform s" "rootPromise s' = rootPromise s"
    using assms by (simp_all add: alike_def)
  obtain r q where w: "walk_handles api c (path_segs path) base (platform s) = (r, q)" by fastforce
  note wa = walk_any [OF oinvD(1,2) [OF s(1)] w]
  obtain cc where cc: "directoryHandle api rk path c s = (r, s\<lparr> platform := q, dirCache := cc \<rparr>)"
    "oinv rk base (s\<lparr> platform := q, dirCache := cc \<rparr>)" using directoryHandle_any [OF s(1) w] by blast
  obtain cd where cd: "directoryHandle api rk path c s' = (r, s'\<lparr> platform := q, dirCache := cd \<rparr>)"
    "oinv rk base (s'\<lparr> platform := q, dirCache := cd \<rparr>)" using directoryHandle_any [OF s(2), of c path r q] w s(3) by auto
  show ?thesis by (rule agreeI [where m = "directoryHandle api rk path c" and m' = "directoryHandle api rk path c", OF cc(1) cd(1)]) (use cc(2) cd(2) s wa in \<open>simp_all add: alike_def\<close>)
qed

subsubsection \<open>The calls of the platform that take nothing away\<close>

lemma mild_same: "(\<And>p. pinv p \<Longrightarrow> \<exists>r. m p = (r, p)) \<Longrightarrow> mild m"
  unfolding mild_def by (metis order_refl snd_conv)

lemma mild_stream: "keeps_entries pinv pdirs pfile m \<Longrightarrow> mild m"
  by (simp add: mild_def keeps_entries_def)

lemmas mild_streams = stream_opened stream_written stream_closed access_opened access_measured access_written
  access_flushed access_closed

lemma mild_getFileHandle: "mild (api_getFileHandle api h n c)"
  unfolding mild_def
proof (intro allI impI)
  fix p assume p: "pinv p"
  let ?q = "snd (api_getFileHandle api h n c p)"
  consider "\<not> plain_segment n" | "plain_segment n" "h \<notin> pdirs p" | "h \<in> pdirs p" "h @ [n] \<in> pdirs p"
    | "h \<in> pdirs p" "pfile p (h @ [n]) \<noteq> None"
    | (new) "plain_segment n" "h \<in> pdirs p" "h @ [n] \<notin> pdirs p" "pfile p (h @ [n]) = None" by blast
  then show "pinv ?q \<and> pdirs p \<subseteq> pdirs ?q \<and> (\<forall>x. pfile p x \<noteq> None \<longrightarrow> pfile ?q x \<noteq> None)"
  proof cases
    case new
    show ?thesis
    proof (cases c)
      case True
      with file_created [OF p new] p show ?thesis by auto
    next
      case False
      with file_absent [OF p new] p show ?thesis by auto
    qed
  qed (use file_name [OF p, of n h c] file_gone [OF p, of n h c] file_is_dir [OF p, of h n c] file_found [OF p, of h n c] p in auto)
qed

lemma mild_getFile: "mild (api_getFile api h)"
proof (rule mild_same)
  fix p assume "pinv p"
  with file_read [of p h] file_read_gone [of p h] show "\<exists>r. api_getFile api h p = (r, p)" by (cases "pfile p h") auto
qed

lemma mild_keys: "mild (api_keys api h)"
  using keys_read keys_gone by (intro mild_same) blast

lemmas agree_mild = agree_platform [OF _ mild_getFileHandle] agree_platform [OF _ mild_getFile] agree_platform [OF _ mild_keys]
  agree_platform [OF _ mild_stream [OF stream_opened]] agree_platform [OF _ mild_stream [OF stream_written]]
  agree_platform [OF _ mild_stream [OF stream_closed]] agree_platform [OF _ mild_stream [OF access_opened]]
  agree_platform [OF _ mild_stream [OF access_measured]] agree_platform [OF _ mild_stream [OF access_written]]
  agree_platform [OF _ mild_stream [OF access_flushed]] agree_platform [OF _ mild_stream [OF access_closed]]

lemmas agree_intros = agree_ret agree_throw agree_bind agree_seq agree_catch agree_finally agree_directoryHandle agree_mild

subsubsection \<open>The methods\<close>

lemma agree_fileHandle: "alike rk base s s' \<Longrightarrow> agree rk base (fileHandle api rk p c) (fileHandle api rk p c) s s'"
  unfolding fileHandle_def by (intro agree_intros)

lemma agree_exists: "alike rk base s s' \<Longrightarrow> agree rk base (opfs_exists api rk p) (opfs_exists api rk p) s s'"
  unfolding opfs_exists_def
  by (intro agree_catch agree_seq agree_fileHandle agree_directoryHandle agree_ret) (auto intro!: agree_intros)

lemma agree_isDirectory: "alike rk base s s' \<Longrightarrow> agree rk base (opfs_isDirectory api rk p) (opfs_isDirectory api rk p) s s'"
  unfolding opfs_isDirectory_def
  by (intro agree_catch agree_seq agree_directoryHandle agree_ret) (auto intro!: agree_intros)

lemma agree_get_file: "alike rk base s s' \<Longrightarrow> agree rk base (get_file api rk p) (get_file api rk p) s s'"
  unfolding get_file_def by (intro agree_bind agree_fileHandle agree_mild)

lemma agree_reads:
  assumes "alike rk base s s'"
  shows "agree rk base (opfs_mtimeMs api rk p) (opfs_mtimeMs api rk p) s s'"
    "agree rk base (opfs_size api rk p) (opfs_size api rk p) s s'"
    "agree rk base (opfs_readBytes api rk p) (opfs_readBytes api rk p) s s'"
    "agree rk base (opfs_readText api rk p) (opfs_readText api rk p) s s'"
    "agree rk base (opfs_list api rk p) (opfs_list api rk p) s s'"
    "agree rk base (opfs_mkdir api rk p c) (opfs_mkdir api rk p c) s s'"
  unfolding opfs_mtimeMs_def opfs_size_def opfs_readBytes_def opfs_readText_def opfs_list_def opfs_mkdir_def
  using assms by - (intro agree_intros agree_get_file; assumption)+

lemma agree_writeBytes:
  "alike rk base s s' \<Longrightarrow> agree rk base (opfs_writeBytes api rk now p b) (opfs_writeBytes api rk now p b) s s'"
  unfolding opfs_writeBytes_def by (intro agree_bind agree_finally agree_fileHandle agree_mild)

lemma agree_appendText:
  assumes "alike rk base s s'"
  shows "agree rk base (opfs_appendText api rk now p t) (opfs_appendText api rk now p t) s s'"
  unfolding opfs_appendText_def sync_append_def
proof (rule agree_bind [OF agree_fileHandle [OF assms]], goal_cases)
  case (1 h u u')
  show ?case
  proof (cases "\<not> api_document api \<and> api_syncAccess api")
    case True
    with 1(2) show ?thesis by (auto intro!: agree_bind agree_seq agree_finally agree_mild)
  next
    case False
    have "agree rk base (if b then opfs_readBytes api rk p else ret []) (if b then opfs_readBytes api rk p else ret []) v v'"
      if "alike rk base v v'" for b v v'
      using that by (cases b) (simp_all add: agree_reads(3) agree_ret)
    with False 1(2) show ?thesis by (auto intro!: agree_bind agree_exists agree_writeBytes)
  qed
qed

text \<open>A removal agrees on its outcome; it keeps all directories when the path names none.\<close>

definition same :: "root_kind \<Rightarrow> handle \<Rightarrow> ('p opfs_state, 'a) op \<Rightarrow> 'p opfs_state \<Rightarrow> 'p opfs_state \<Rightarrow> bool" where
  "same rk base m s s' \<longleftrightarrow> (\<exists>r t t'. m s = (r, t) \<and> m s' = (r, t') \<and> alike rk base t t')"

lemma agree_same: "agree rk base m m s s' \<Longrightarrow> same rk base m s s'"
  unfolding agree_def same_def by blast

lemma same_bind:
  assumes "agree rk base m m s s'"
    and "\<And>x t t'. m s = (Inr x, t) \<Longrightarrow> alike rk base t t' \<Longrightarrow>
      (\<And>h. pfile (platform s) h \<noteq> None \<Longrightarrow> pfile (platform t) h \<noteq> None) \<Longrightarrow> same rk base (f x) t t'"
  shows "same rk base (bind_op m f) s s'"
proof -
  obtain r t t' where m: "m s = (r, t)" "m s' = (r, t')" "alike rk base t t'"
    "\<forall>h. pfile (platform s) h \<noteq> None \<longrightarrow> pfile (platform t) h \<noteq> None"
    using assms(1) unfolding agree_def by blast
  show ?thesis
  proof (cases r)
    case (Inl e)
    with m show ?thesis by (auto simp: same_def bind_op_def)
  next
    case (Inr x)
    have "same rk base (f x) t t'" using assms(2) [OF _ m(3)] m(1,4) Inr by blast
    with m Inr show ?thesis by (auto simp: same_def bind_op_def)
  qed
qed

lemma same_remove:
  assumes a: "alike rk base s s'" and nd: "\<not> names_dir (pdirs (platform s)) base p"
  shows "same rk base (opfs_remove api rk p) s s'"
proof -
  have s: "oinv rk base s" using a by (simp add: alike_def)
  let ?ss = "path_segs (dirname p)" and ?n = "opfs_basename p"
  obtain r q where w: "walk_handles api False ?ss base (platform s) = (r, q)" by fastforce
  note wa = walk_any [OF oinvD(1,2) [OF s] w]
  show ?thesis unfolding opfs_remove_def remove_entry_def
  proof (rule same_bind [OF agree_directoryHandle [OF a]], goal_cases)
    case (1 h t t')
    have h: "h = base @ ?ss" "platform t = platform s"
      using 1(1) wa directoryHandle_any [OF s w] by auto
    have nf: "h @ [?n] \<notin> pdirs (platform t)" using nd h by (simp add: names_dir_def)
    obtain e v where m: "api_removeEntry api h ?n False (platform t) = (e, v)" by fastforce
    have pt: "pinv (platform t)" "platform t' = platform t" using 1(2) by (simp_all add: alike_def opfs_inv_def)
    consider "\<not> plain_segment ?n" | "plain_segment ?n" "h \<notin> pdirs (platform t) \<or> pfile (platform t) (h @ [?n]) = None"
      | "h \<in> pdirs (platform t)" "pfile (platform t) (h @ [?n]) \<noteq> None" by blast
    then have keep: "pinv v \<and> pdirs v = pdirs (platform t)"
    proof cases
      case 1
      with removed_name [OF pt(1), of ?n h False] m pt show ?thesis by auto
    next
      case 2
      with removed_gone [OF pt(1), of ?n h False] nf m pt show ?thesis by auto
    next
      case 3
      with removed_file [OF pt(1), of h ?n False] m show ?thesis by auto
    qed
    have "alike rk base (t\<lparr> platform := v \<rparr>) (t'\<lparr> platform := v \<rparr>)"
      by (rule alike_grow [OF 1(2)]) (use keep in simp_all)
    with m pt(2) show ?case
      by (cases e) (auto simp: same_def catch_op_def on_platform_def)
  qed
qed

lemma read_means_file:
  assumes s: "oinv rk base s" and r: "opfs_readBytes api rk p s = (Inr b, t)"
  shows "pfile (platform t) (base @ path_segs (dirname p) @ [opfs_basename p]) \<noteq> None"
proof -
  let ?ss = "path_segs (dirname p)" and ?n = "opfs_basename p"
  obtain rw q where w: "walk_handles api False ?ss base (platform s) = (rw, q)" by fastforce
  note wa = walk_any [OF oinvD(1,2) [OF s] w]
  obtain cc where cc: "directoryHandle api rk (dirname p) False s = (rw, s\<lparr> platform := q, dirCache := cc \<rparr>)"
    using directoryHandle_any [OF s w] by blast
  obtain d u h v f where 1: "directoryHandle api rk (dirname p) False s = (Inr d, u)"
    "on_platform (api_getFileHandle api d ?n False) u = (Inr h, v)" "on_platform (api_getFile api h) v = (Inr f, t)"
    using r unfolding opfs_readBytes_def get_file_def fileHandle_def by (auto elim!: bind_op_InrE)
  have d: "d = base @ ?ss" "d \<in> pdirs (platform s)" "platform u = platform s" "pinv (platform s)"
    using 1(1) cc wa oinvD(1) [OF s] by auto
  have h: "pfile (platform s) (d @ [?n]) \<noteq> None \<and> h = d @ [?n] \<and> platform v = platform s"
  proof -
    consider "\<not> plain_segment ?n" | "d @ [?n] \<in> pdirs (platform s)" | "pfile (platform s) (d @ [?n]) \<noteq> None"
      | (none) "plain_segment ?n" "d @ [?n] \<notin> pdirs (platform s)" "pfile (platform s) (d @ [?n]) = None" by blast
    then show ?thesis
    proof cases
      case none
      with file_absent [OF d(4) none(1) d(2) none(2,3)] 1(2) d(3) show ?thesis by (auto simp: on_platform_def)
    qed (use file_name [OF d(4), of ?n d False] file_is_dir [OF d(4,2), of ?n False] file_found [OF d(4,2), of ?n False] 1(2) d(3)
        in \<open>auto simp: on_platform_def\<close>)
  qed
  then obtain b' where "pfile (platform s) h = Some b'" by auto
  from file_read [OF d(4) this] 1(3) h have "platform t = platform s" by (auto simp: on_platform_def)
  with h d(1) show ?thesis by simp
qed

lemma same_move:
  assumes a: "alike rk base s s'"
  shows "same rk base (opfs_move api rk now p q) s s'"
  unfolding opfs_move_def
proof (rule same_bind [OF agree_reads(3) [OF a]], goal_cases)
  case (1 b t t')
  have f: "pfile (platform t) (base @ path_segs (dirname p) @ [opfs_basename p]) \<noteq> None"
    using read_means_file [OF _ 1(1)] a by (simp add: alike_def)
  show ?case unfolding seq_op_def
  proof (rule same_bind [OF agree_writeBytes [OF 1(2)]], goal_cases)
    case (1 x u u')
    have "\<not> names_dir (pdirs (platform u)) base p"
    proof
      assume "names_dir (pdirs (platform u)) base p"
      then have "pfile (platform u) (base @ path_segs (dirname p) @ [opfs_basename p]) = None"
        using 1(2) by (auto simp: names_dir_def alike_def opfs_inv_def intro: dir_no_file)
      with 1(3) [OF f] show False by simp
    qed
    with 1(2) show ?case by (rule same_remove)
  qed
qed

text \<open>One call, with the memory and without it.\<close>

lemma same_giving: "same rk base m s s' \<Longrightarrow> same rk base (giving g m) s s'"
  unfolding same_def giving_def by (auto simp: bind_op_def split: sum.split)

lemma same_call:
  assumes "alike rk base s s'" and "gentle (pdirs (platform s)) base call"
  shows "same rk base (run_host (opfs_ops api rk) now call) s s'"
  using assms same_remove [of rk base s s'] same_move [of rk base s s']
  by (cases call) (auto simp: opfs_ops_def gentle_def opfs_writeText_def intro!: same_giving
      intro: agree_same agree_exists agree_isDirectory agree_reads agree_writeBytes agree_appendText)

lemma run_forgetful:
  "run_host (forgetful_ops api rk) now call = forgetful (run_host (opfs_ops api rk) now call)"
  by (cases call) (simp_all add: forgetful_ops_def Let_def giving_def forgetful_def [abs_def] bind_op_def fun_eq_iff
      split: prod.split sum.split)

lemma transparent_calls:
  "alike rk base s s' \<Longrightarrow> dirCache s' = [] \<Longrightarrow> all_gentle pdirs base (forgetful_ops api rk) calls s' \<Longrightarrow>
   \<exists>rs t t'. run_all (opfs_ops api rk) calls s = (rs, t) \<and> run_all (forgetful_ops api rk) calls s' = (rs, t') \<and>
     alike rk base t t'"
proof (induction calls arbitrary: s s')
  case Nil
  then show ?case by simp
next
  case (Cons c calls)
  obtain now call where c: "c = (now, call)" by fastforce
  have eq: "platform s' = platform s" using Cons.prems(1) by (simp add: alike_def)
  have g: "gentle (pdirs (platform s)) base call" using Cons.prems(3) c eq by simp
  obtain r t u where 1: "run_host (opfs_ops api rk) now call s = (r, t)" "run_host (opfs_ops api rk) now call s' = (r, u)"
    "alike rk base t u"
    using same_call [OF Cons.prems(1) g] unfolding same_def by blast
  have "s'\<lparr> dirCache := [] \<rparr> = s'" using Cons.prems(2) by (cases s') simp
  then have f: "run_host (forgetful_ops api rk) now call s' = (r, u\<lparr> dirCache := [] \<rparr>)"
    using 1(2) by (simp only: run_forgetful forgetful_def prod.case)
  have "alike rk base t (u\<lparr> dirCache := [] \<rparr>)"
    using 1(3) by (auto simp: alike_def opfs_inv_def opened_def cache_ok_def split: root_kind.splits)
  moreover have "all_gentle pdirs base (forgetful_ops api rk) calls (u\<lparr> dirCache := [] \<rparr>)"
    using Cons.prems(3) c f by simp
  ultimately obtain rs v v' where "run_all (opfs_ops api rk) calls t = (rs, v)"
    "run_all (forgetful_ops api rk) calls (u\<lparr> dirCache := [] \<rparr>) = (rs, v')" "alike rk base v v'"
    using Cons.IH by force
  with 1(1) f c show ?case by simp
qed

subsection \<open>What is remembered outlives the directory\<close>

definition remembered :: "string \<Rightarrow> handle \<Rightarrow> 'p opfs_state \<Rightarrow> bool" where
  "remembered k h s \<longleftrightarrow> map_of (dirCache s) k = Some h"

lemma keeps_agree: "(\<And>s. oinv rk base s \<Longrightarrow> agree rk base m m s s) \<Longrightarrow> keeps (oinv rk base) m"
  unfolding agree_def alike_def keeps_def by (metis snd_conv)

lemma alike_refl: "oinv rk base s \<Longrightarrow> alike rk base s s"
  by (simp add: alike_def)

lemma keeps_remembered_platform: "keeps (remembered k h) (on_platform m)"
  by (rule keepsI) (simp add: remembered_def on_platform_def split: prod.split)

lemma keeps_remembered_root: "keeps (remembered k h) (this_root api rk)"
  by (rule keepsI) (simp add: remembered_def this_root_def opfs_root_def fsa_root_def split: root_kind.split option.split prod.split)

lemma keeps_remembered_handle: "keeps (remembered k h) (directoryHandle api rk path c)"
proof (rule keepsI)
  fix s assume r: "remembered k h s"
  let ?ck = "if opfs_key path = [] then ''/'' else opfs_key path"
  let ?m = "\<lambda>handle. if opfs_key path = [] \<or> opfs_key path = ''.'' then ret handle
     else bind_op (on_platform (walk_handles api c (key_segments (opfs_key path)) handle)) (\<lambda>h.
       seq_op (modify (\<lambda>s. s\<lparr> dirCache := AList.update ?ck h (dirCache s) \<rparr>)) (ret h))"
  have d: "directoryHandle api rk path c s =
      (case map_of (dirCache s) ?ck of Some cached \<Rightarrow> (Inr cached, s) | None \<Rightarrow> bind_op (this_root api rk) ?m s)"
    by (simp only: directoryHandle_def Let_def)
  show "remembered k h (snd (directoryHandle api rk path c s))"
  proof (cases "map_of (dirCache s) ?ck")
    case None
    then have ne: "?ck \<noteq> k" using r by (auto simp: remembered_def)
    have "keeps (remembered k h) (modify (\<lambda>s. s\<lparr> dirCache := AList.update ?ck x (dirCache s) \<rparr>))" for x :: handle
      using ne by (intro keepsI) (simp add: remembered_def update_conv')
    then have "keeps (remembered k h) (bind_op (this_root api rk) ?m)"
      by (intro keeps_intros keeps_remembered_root keeps_remembered_platform)
    from keepsD [OF this r] None show ?thesis unfolding d by simp
  next
    case (Some x)
    with r show ?thesis unfolding d by simp
  qed
qed

lemma keeps_finally:
  assumes "keeps P m" and "keeps P f"
  shows "keeps P (always_after m f)"
proof (rule keepsI)
  fix s assume "P s"
  then have "P (snd (f (snd (m s))))" using assms by (simp add: keepsD)
  then show "P (snd (always_after m f s))" by (auto simp: always_after_def split: prod.split sum.split)
qed

lemmas remembers = keeps_intros keeps_finally keeps_remembered_platform keeps_remembered_handle

lemma keeps_remembered_file: "keeps (remembered k h) (fileHandle api rk p c)"
  unfolding fileHandle_def by (intro remembers)

lemma keeps_remembered:
  "keeps (remembered k h) (opfs_exists api rk p)" "keeps (remembered k h) (opfs_isDirectory api rk p)"
  "keeps (remembered k h) (opfs_list api rk p)" "keeps (remembered k h) (opfs_mkdir api rk p c)"
  "keeps (remembered k h) (opfs_writeText api rk now p t)"
  unfolding opfs_exists_def opfs_isDirectory_def opfs_list_def opfs_mkdir_def opfs_writeText_def opfs_writeBytes_def
  by (intro remembers keeps_remembered_file)+

lemma keeps_oinv:
  "keeps (oinv rk base) (opfs_exists api rk p)" "keeps (oinv rk base) (opfs_isDirectory api rk p)"
  "keeps (oinv rk base) (opfs_list api rk p)" "keeps (oinv rk base) (opfs_mkdir api rk p c)"
  "keeps (oinv rk base) (opfs_writeText api rk now p t)"
  unfolding opfs_writeText_def
  by (intro keeps_agree agree_exists agree_isDirectory agree_reads agree_writeBytes alike_refl; assumption)+

text \<open>The handle of a directory that is gone is still handed out, and leads nowhere.\<close>

lemma stale_file:
  assumes p: "pinv (platform t)" and ss: "plain_segments (ss @ [n])" "ss \<noteq> []"
    and k: "remembered (join_with ''/'' ss) h t" and gone: "h \<notin> pdirs (platform t)"
  shows "\<exists>e. fileHandle api rk (abs_path (ss @ [n])) c t = (Inl e, t) \<and> isNotFound e"
proof -
  have j: "join_with ''/'' ss \<noteq> []" using key_segments_join [of ss] ss by (auto simp: key_segments_def)
  have d: "directoryHandle api rk (abs_path ss) c t = (Inr h, t)"
    using k j ss by (simp add: directoryHandle_def Let_def remembered_def)
  have "plain_segment n" using ss by simp
  then obtain e where "api_getFileHandle api h n c (platform t) = (Inl e, platform t)" "err_name e = ''NotFoundError''"
    using file_gone [OF p _ gone, of n c] by (auto simp: rejects_def)
  with d show ?thesis unfolding fileHandle_split [OF ss(1)]
    by (auto simp: bind_op_def on_platform_def isNotFound_def)
qed

lemma removed_and_remembered:
  assumes s: "oinv rk base s" and ss: "plain_segments ss" "ss \<noteq> []" and k: "remembered (join_with ''/'' ss) h s"
  shows "\<exists>t. opfs_rmdir api rk (abs_path ss) True s = (Inr (), t) \<and> pinv (platform t) \<and> h = base @ ss \<and>
    remembered (join_with ''/'' ss) h t \<and> h \<notin> pdirs (platform t) \<and> (\<forall>us. pfile (platform t) (h @ us) = None)"
proof -
  obtain us n where us: "ss = us @ [n]" using ss(2) by (metis rev_exhaust)
  have "h = base @ key_segments (join_with ''/'' ss) \<and> h \<in> pdirs (platform s)"
    using oinvD(4) [OF s] k unfolding cache_ok_def remembered_def by blast
  then have hd: "h = base @ ss" "base @ ss \<in> pdirs (platform s)" using key_segments_join [OF ss(1)] by auto
  obtain q cc where r: "opfs_rmdir api rk (abs_path ss) True s = (Inr (), s\<lparr> dirCache := cc, platform := q \<rparr>)"
    "pinv q" "pdirs q = {d \<in> pdirs (platform s). \<not> prefix (base @ ss) d}"
    "pfile q = (\<lambda>d. if prefix (base @ ss) d then None else pfile (platform s) d)"
    using rmdir_run [OF s, of us n] ss us hd by auto
  have "keeps (remembered (join_with ''/'' ss) h) (opfs_rmdir api rk (abs_path ss) True)"
    unfolding opfs_rmdir_def remove_entry_def by (intro remembers)
  from keepsD [OF this k] r(1) have "remembered (join_with ''/'' ss) h (s\<lparr> dirCache := cc, platform := q \<rparr>)" by simp
  with r hd show ?thesis by (intro exI [of _ "s\<lparr> dirCache := cc, platform := q \<rparr>"]) simp
qed

lemma remade:
  assumes "plain_segments ss" and "ss \<noteq> []" and "remembered (join_with ''/'' ss) h t"
  shows "opfs_mkdir api rk (abs_path ss) c t = (Inr (), t)"
proof -
  have j: "join_with ''/'' ss \<noteq> []" using key_segments_join [of ss] assms by (auto simp: key_segments_def)
  have "directoryHandle api rk (abs_path ss) c t = (Inr h, t)"
    using assms j by (simp add: directoryHandle_def Let_def remembered_def)
  then show ?thesis by (simp add: opfs_mkdir_def seq_op_Inr)
qed

lemma mkdir_remembers:
  assumes ss: "plain_segments ss" "ss \<noteq> []" and m: "opfs_mkdir api rk (abs_path ss) c s = (Inr (), t)"
  shows "\<exists>h. remembered (join_with ''/'' ss) h t"
proof -
  let ?k = "join_with ''/'' ss"
  have j: "?k \<noteq> []" using key_segments_join [of ss] ss by (auto simp: key_segments_def)
  have dot: "?k \<noteq> ''.''"
  proof
    assume "?k = ''.''"
    then have "ss = [''.'']" using key_segments_join [OF ss(1)] by (simp add: key_segments_def)
    with ss(1) show False by (simp add: plain_segment_def isMeaningful_def)
  qed
  obtain h where h: "directoryHandle api rk (abs_path ss) c s = (Inr h, t)"
    using m by (auto simp: opfs_mkdir_def elim!: seq_op_InrE)
  show ?thesis
  proof (cases "map_of (dirCache s) ?k")
    case (Some x)
    then show ?thesis using h j ss(1) by (auto simp: directoryHandle_def Let_def remembered_def)
  next
    case None
    have "bind_op (this_root api rk) (\<lambda>handle. bind_op (on_platform (walk_handles api c ss handle)) (\<lambda>h.
        seq_op (modify (\<lambda>s. s\<lparr> dirCache := AList.update ?k h (dirCache s) \<rparr>)) (ret h))) s = (Inr h, t)"
      using h None j dot ss(1) by (simp add: directoryHandle_def Let_def)
    then have "remembered ?k h t" by (auto simp: remembered_def update_conv' elim!: bind_op_InrE seq_op_InrE)
    then show ?thesis ..
  qed
qed

end

subsection \<open>Rebuilding an index\<close>

lemma keeps_on_disk: "keeps P m \<Longrightarrow> keeps (\<lambda>w. P (disk w)) (on_disk m)"
  by (auto simp: keeps_def on_disk_def split: prod.split)

lemma keeps_stamped: "(\<And>now. keeps P (m now)) \<Longrightarrow> keeps (\<lambda>w. P (disk w)) (stamped m)"
  unfolding stamped_def by (intro keeps_bind keeps_on_disk) (simp add: keeps_def date_now_def)

lemma keeps_off_disk: "keeps (\<lambda>w. P (disk w)) date_now" "keeps (\<lambda>w. P (disk w)) (modify_index g)"
  by (simp_all add: keeps_def date_now_def)

context opfs_platform
begin

text \<open>The operations of the engine that remove nothing keep what is remembered.\<close>

definition safe_disk :: "root_kind \<Rightarrow> handle \<Rightarrow> ('p opfs_state \<Rightarrow> bool) \<Rightarrow> bool" where
  "safe_disk rk base P \<longleftrightarrow> P = oinv rk base \<or> (\<exists>k h. P = remembered k h)"

lemma safe_disk_keeps:
  assumes "safe_disk rk base P" and "fs env = opfs_ops api rk"
  shows "keeps (\<lambda>w. P (disk w)) (w_exists env p)" "keeps (\<lambda>w. P (disk w)) (w_isDirectory env p)"
    "keeps (\<lambda>w. P (disk w)) (w_list env p)" "keeps (\<lambda>w. P (disk w)) (w_mkdir env p)"
    "keeps (\<lambda>w. P (disk w)) (w_writeText env p t)"
proof -
  have k: "keeps P (opfs_exists api rk p)" "keeps P (opfs_isDirectory api rk p)" "keeps P (opfs_list api rk p)"
    "keeps P (opfs_mkdir api rk p True)" "keeps P (opfs_writeText api rk now p t)" for now
    using assms(1) keeps_oinv keeps_remembered by (auto simp: safe_disk_def)
  show "keeps (\<lambda>w. P (disk w)) (w_exists env p)" "keeps (\<lambda>w. P (disk w)) (w_isDirectory env p)"
    "keeps (\<lambda>w. P (disk w)) (w_list env p)" "keeps (\<lambda>w. P (disk w)) (w_mkdir env p)"
    "keeps (\<lambda>w. P (disk w)) (w_writeText env p t)"
    unfolding w_exists_def w_isDirectory_def w_list_def w_mkdir_def w_writeText_def assms(2)
    using k by (auto simp: opfs_ops_def intro!: keeps_on_disk keeps_stamped)
qed

lemmas safe_intros = keeps_intros keeps_off_disk

lemma safe_engine:
  assumes "safe_disk rk base P" and "fs env = opfs_ops api rk"
  shows "keeps (\<lambda>w. P (disk w)) (writeIfMissing env p t)" "keeps (\<lambda>w. P (disk w)) (mkdir_at env r)"
    "keeps (\<lambda>w. P (disk w)) (index_ensureCollection env c)" "keeps (\<lambda>w. P (disk w)) (requireCollection env c)"
    "keeps (\<lambda>w. P (disk w)) (listDocIds env c)"
proof -
  note sd = safe_disk_keeps [OF assms]
  show wm: "keeps (\<lambda>w. P (disk w)) (writeIfMissing env p t)" for p t
    unfolding writeIfMissing_def by (intro safe_intros sd)
  show "keeps (\<lambda>w. P (disk w)) (mkdir_at env r)" unfolding mkdir_at_def by (intro safe_intros sd)
  show "keeps (\<lambda>w. P (disk w)) (index_ensureCollection env c)"
    unfolding index_ensureCollection_def by (intro safe_intros wm sd)
  show "keeps (\<lambda>w. P (disk w)) (requireCollection env c)"
    unfolding requireCollection_def hasCollection_def by (intro safe_intros sd)
  have lb: "keeps (\<lambda>w. P (disk w)) (list_bucket env b s acc)" for b s acc
    unfolding list_bucket_def by (intro safe_intros sd)
  show "keeps (\<lambda>w. P (disk w)) (listDocIds env c)"
    unfolding listDocIds_def listBucketedDocIds_def by (intro safe_intros lb sd)
qed

lemma index_made:
  assumes env: "index_env env rs c" "fs env = opfs_ops api rk" and e: "index_ensureCollection env c w = (Inr (), v)"
  shows "\<exists>h. remembered (join_with ''/'' (index_dir rs c)) h (disk v)"
proof -
  let ?k = "join_with ''/'' (index_dir rs c)"
  define rest where "rest = bind_op (of_result (manifestPath env c)) (\<lambda>m. bind_op date_now (\<lambda>now.
     seq_op (writeIfMissing env m (manifest_text now)) (bind_op (of_result (snapshotPath env c)) (\<lambda>s.
     seq_op (writeIfMissing env s []) (bind_op (of_result (walPath env c)) (\<lambda>w. writeIfMissing env w []))))))"
  have i: "index_root env c = Inr (abs_path (index_dir rs c))" by (rule index_paths(1) [OF env(1)])
  have "index_ensureCollection env c = bind_op (of_result (index_root env c)) (\<lambda>r. seq_op (w_mkdir env r) rest)"
    by (simp only: index_ensureCollection_def rest_def)
  then have "seq_op (w_mkdir env (abs_path (index_dir rs c))) rest w = (Inr (), v)" using e i by (simp add: bind_op_def)
  then obtain u where u: "w_mkdir env (abs_path (index_dir rs c)) w = (Inr (), u)" "rest u = (Inr (), v)"
    by (elim seq_op_InrE) simp
  obtain d where d: "opfs_mkdir api rk (abs_path (index_dir rs c)) True (disk w) = (Inr (), d)" "disk u = d"
    using u(1) env(2) by (auto simp: w_mkdir_def stamped_def date_now_def bind_op_def on_disk_def opfs_ops_def split: prod.splits)
  have pl: "plain_segments (index_dir rs c)" by (rule index_env_plain(3) [OF env(1)])
  have ne: "index_dir rs c \<noteq> []" by (simp add: index_dir_def)
  obtain h where h: "remembered ?k h (disk u)" using mkdir_remembers [OF pl ne d(1)] d(2) by blast
  have s: "safe_disk rk [] (remembered ?k h)" by (auto simp: safe_disk_def)
  have "keeps (\<lambda>w. remembered ?k h (disk w)) rest"
    unfolding rest_def by (intro safe_intros safe_engine [OF s env(2)])
  from keepsD [OF this h] u(2) show ?thesis by auto
qed

lemma reset_fails:
  assumes env: "index_env env rs c" "fs env = opfs_ops api rk" and i: "oinv rk base (disk w)"
    and k: "remembered (join_with ''/'' (index_dir rs c)) h (disk w)"
  shows "\<exists>e v. resetCollection env c w = (Inl e, v) \<and> isNotFound e \<and>
    abs_path (index_dir rs c) \<notin> odirs base (disk v) \<and> (\<forall>n. plain_segment n \<longrightarrow> ofile base (disk v) (index_path rs c n) = None)"
proof -
  let ?d = "index_dir rs c"
  have pl: "plain_segments ?d" by (rule index_env_plain(3) [OF env(1)])
  have ne: "?d \<noteq> []" by (simp add: index_dir_def)
  note ip = index_paths [OF env(1)]
  obtain t where t: "opfs_rmdir api rk (abs_path ?d) True (disk w) = (Inr (), t)" "pinv (platform t)" "h = base @ ?d"
    "remembered (join_with ''/'' ?d) h t" "h \<notin> pdirs (platform t)" "\<forall>us. pfile (platform t) (h @ us) = None"
    using removed_and_remembered [OF i pl ne k] by blast
  define w1 where "w1 = snd (forgetCollection c w)"
  have w1: "forgetCollection c w = (Inr (), w1)" "disk w1 = disk w" by (simp_all add: w1_def forgetCollection_def)
  define w2 where "w2 = w1\<lparr> ticks := Suc (ticks w1), disk := t \<rparr>"
  have r: "w_rmdir env (abs_path ?d) w1 = (Inr (), w2)"
    using t(1) w1(2) env(2) by (simp add: w_rmdir_def stamped_run w2_def opfs_ops_def)
  define w3 where "w3 = w2\<lparr> ticks := Suc (ticks w2) \<rparr>"
  have m: "w_mkdir env (abs_path ?d) w2 = (Inr (), w3)"
  proof -
    have "opfs_mkdir api rk (abs_path ?d) True t = (Inr (), t)" by (rule remade [OF pl ne t(4)])
    then show ?thesis using env(2) by (simp add: w_mkdir_def stamped_run w2_def w3_def opfs_ops_def)
  qed
  define w4 where "w4 = w3\<lparr> ticks := Suc (ticks w3) \<rparr>"
  have n: "date_now w3 = (Inr (clock w3 (ticks w3)), w4)" by (simp add: date_now_def w4_def)
  have d4: "disk w4 = t" by (simp add: w4_def w3_def w2_def)
  have pm: "plain_segments (?d @ [LOCAL_FS_MANIFEST])" using pl by (simp add: plain_segment_def isMeaningful_def LOCAL_FS_MANIFEST_def)
  obtain e1 where e1: "fileHandle api rk (abs_path (?d @ [LOCAL_FS_MANIFEST])) False t = (Inl e1, t)" "isNotFound e1"
    using stale_file [OF t(2) pm ne t(4,5)] by blast
  obtain e2 where e2: "fileHandle api rk (abs_path (?d @ [LOCAL_FS_MANIFEST])) True t = (Inl e2, t)" "isNotFound e2"
    using stale_file [OF t(2) pm ne t(4,5)] by blast
  have ex: "w_exists env (index_path rs c LOCAL_FS_MANIFEST) w4 = (Inr False, w4)"
    using e1 env(2) d4 by (simp add: w_exists_def on_disk_same opfs_ops_def opfs_exists_def index_path_def catch_op_def seq_op_def bind_op_def)
  have "fs_writeText (fs env) now (index_path rs c LOCAL_FS_MANIFEST) x (disk w4) = (Inl e2, t)" for now x
    using e2 env(2) d4 by (simp add: opfs_ops_def opfs_writeText_def opfs_writeBytes_def index_path_def bind_op_def)
  then have wr: "w_writeText env (index_path rs c LOCAL_FS_MANIFEST) x w4 = (Inl e2, w4\<lparr> ticks := Suc (ticks w4), disk := t \<rparr>)" for x
    unfolding w_writeText_def by (rule stamped_run)
  have "resetCollection env c w = (Inl e2, w4\<lparr> ticks := Suc (ticks w4), disk := t \<rparr>)"
    using w1(1) r m n ex wr ip
    by (simp add: resetCollection_def index_ensureCollection_def writeIfMissing_def bind_op_def seq_op_def)
  then show ?thesis using e2(2) t(3,5,6) pl by (auto simp: index_path_def)
qed

lemma rebuild_fails:
  assumes env: "index_env env rs c" "fs env = opfs_ops api rk" and i: "oinv rk base (disk w)"
  shows "\<exists>e v. rebuildCollection env c w = (Inl e, v)"
proof (rule ccontr)
  assume "\<not> ?thesis"
  then obtain x v where "rebuildCollection env c w = (Inr x, v)" by (metis old.sum.exhaust surj_pair)
  then obtain w1 w2 ids w3 v' where r: "requireCollection env c w = (Inr (), w1)" "ensureCollection env c w1 = (Inr (), w2)"
    "listDocIds env c w2 = (Inr ids, w3)" "resetCollection env c w3 = (Inr (), v')"
    unfolding rebuildCollection_def by (auto elim!: bind_op_InrE seq_op_InrE)
  have so: "safe_disk rk base (oinv rk base)" by (simp add: safe_disk_def)
  note ko = safe_engine [OF so env(2)]
  have o1: "oinv rk base (disk w1)" by (rule keeps_run [OF ko(4) i r(1)])
  obtain u1 u2 u3 u4 u where u: "mkdir_at env (collectionRoot env c) w1 = (Inr (), u1)"
    "mkdir_at env (docsRoot env c) u1 = (Inr (), u2)" "mkdir_at env (deletedRoot env c) u2 = (Inr (), u3)"
    "mkdir_at env (metadata_root env c) u3 = (Inr (), u4)"
    "mkdir_at env (bind_result (collectionRoot env c) (\<lambda>r. Inr (join2 r ''events''))) u4 = (Inr (), u)"
    "index_ensureCollection env c u = (Inr (), w2)"
    using r(2) unfolding ensureCollection_def by (elim bind_op_InrE seq_op_InrE) auto
  have ou: "oinv rk base (disk u)"
    using keeps_run [OF ko(2) _ u(5)] keeps_run [OF ko(2) _ u(4)] keeps_run [OF ko(2) _ u(3)]
      keeps_run [OF ko(2) _ u(2)] keeps_run [OF ko(2) o1 u(1)] by blast
  obtain h where h: "remembered (join_with ''/'' (index_dir rs c)) h (disk w2)" using index_made [OF env u(6)] by blast
  have o2: "oinv rk base (disk w2)" using keeps_run [OF ko(3) ou u(6)] .
  have sr: "safe_disk rk base (remembered (join_with ''/'' (index_dir rs c)) h)" by (auto simp: safe_disk_def)
  have "oinv rk base (disk w3)" using keeps_run [OF ko(5) o2 r(3)] .
  moreover have "remembered (join_with ''/'' (index_dir rs c)) h (disk w3)"
    using keeps_run [OF safe_engine(5) [OF sr env(2)] h r(3)] .
  ultimately obtain e v where "resetCollection env c w3 = (Inl e, v)" using reset_fails [OF env] by blast
  with r(4) show False by simp
qed

text \<open>Opening the namespace creates its directory once.\<close>

lemma opened_root:
  assumes p: "pinv p" and a: "api_hasOpfs api" and ns: "plain_segment ns" "pfile p [ns] = None"
  shows "\<exists>s. opfs_root api ns (new_opfs p) = (Inr [ns], s) \<and> finv (Namespace ns) [ns] s \<and>
    pdirs (platform s) = insert [ns] (pdirs p) \<and> pfile (platform s) = pfile p"
proof -
  have r: "[] \<in> pdirs p" by (rule root_exists [OF p])
  have "\<exists>q. api_getDirectoryHandle api [] ns True p = (Inr [ns], q) \<and> pinv q \<and>
      pdirs q = insert [ns] (pdirs p) \<and> pfile q = pfile p"
  proof (cases "[ns] \<in> pdirs p")
    case True
    then show ?thesis using dir_found [OF p r, of ns True] p by auto
  qed (use dir_created [OF p ns(1) r] ns(2) in auto)
  then obtain q where q: "api_getDirectoryHandle api [] ns True p = (Inr [ns], q)" "pinv q"
    "pdirs q = insert [ns] (pdirs p)" "pfile q = pfile p" by blast
  let ?s = "\<lparr> platform = q, rootPromise = Some (Inr [ns]), dirCache = [] \<rparr>"
  have "opfs_root api ns (new_opfs p) = (Inr [ns], ?s)"
    using q(1) get_directory [OF p a] a by (simp add: opfs_root_def new_opfs_def bind_op_def)
  moreover have "finv (Namespace ns) [ns] ?s"
    using q by (simp add: forgetful_inv_def opfs_inv_def opened_def cache_ok_def)
  ultimately show ?thesis using q by (intro exI [of _ ?s]) simp
qed

lemma engine_on_storage:
  assumes env: "index_env env rs c" "fs env = forgetful_ops api rk" and s: "finv rk base s"
    and empty: "\<And>ss. ss \<noteq> [] \<Longrightarrow> base @ ss \<notin> pdirs (platform s)" "\<And>ss. pfile (platform s) (base @ ss) = None"
    and now: "\<forall>n. json_safe_number (f64_of_int (readings n))" and ok: "list_all (call_ok (digest env)) cls"
  shows "\<exists>w v nows D T. createCollection env c (new_world s readings) = (Inr (), w) \<and>
    run_calls env c cls w = (Inr (), v) \<and> length nows = length cls \<and>
    spec_calls (wormEnabled env) (zip nows cls) (Map.empty, Map.empty) = (D, T) \<and>
    (\<forall>d. isTTID d \<longrightarrow> getLatest env c d False v =
       (Inr (case D d of None \<Rightarrow> JObj [] | Some ob \<Rightarrow> JObj [(d, JObj ob)]), v))"
proof -
  note c = opfs_contract [of rk base]
  note tree = fylo_filesystem.axioms(1) [OF c]
  have "ofile base s q = None" for q using empty(2) by (simp add: opfs_file_def)
  moreover have "odirs base s = {''/''}"
  proof (rule set_eqI)
    fix q
    have r: "base \<in> pdirs (platform s)" using oinvD(2) [OF finvD(1) [OF s]] .
    have root: "abs_path [] = ''/''" by (simp add: abs_path_def)
    show "q \<in> odirs base s \<longleftrightarrow> q \<in> {''/''}"
    proof (cases "q \<in> abs_paths")
      case True
      then obtain ss where ss: "q = abs_path ss" "plain_segments ss" by (auto simp: abs_paths_def)
      have "base @ ss \<in> pdirs (platform s) \<longleftrightarrow> ss = []" using r empty(1) by auto
      with ss show ?thesis using abs_path_inject [OF ss(2), of "[]"] by (simp add: root)
    next
      case False
      moreover have "''/'' \<in> abs_paths" using abs_path_in [of "[]"] by (simp add: root)
      ultimately show ?thesis using opfs_dirs_abs by auto
    qed
  qed
  ultimately obtain w where w: "createCollection env c (new_world s readings) = (Inr (), w)"
    "store_at (finv rk base) (ofile base) (odirs base) env rs c Map.empty Map.empty w" "clock w = readings"
    using fylo_tree.created_empty [OF tree env s] by blast
  have "clock_safe w" using now w(3) by (simp add: clock_safe_def)
  from fylo_tree.calls_refine [OF tree env w(2) this ok] obtain v nows D T where v:
    "run_calls env c cls w = (Inr (), v)" "length nows = length cls"
    "spec_calls (wormEnabled env) (zip nows cls) (Map.empty, Map.empty) = (D, T)"
    "store_at (finv rk base) (ofile base) (odirs base) env rs c D T v" by blast
  have "getLatest env c d False v = (Inr (case D d of None \<Rightarrow> JObj [] | Some ob \<Rightarrow> JObj [(d, JObj ob)]), v)" if "isTTID d" for d
    using fylo_tree.getLatest_run [OF tree env v(4) that, of False] by (simp cong: option.case_cong)
  with w(1) v(1-3) show ?thesis by blast
qed

end

subsection \<open>The world of the witnesses\<close>

definition opfs_core :: "opfs_tree opfs_state fs_ops \<Rightarrow> opfs_tree opfs_state core" where
  "opfs_core ops = \<lparr> fs = ops, root = ''/db'', wormMode = ''off'', digest = (\<lambda>b. b), indexScannerFactory = None,
     ttid_code = (\<lambda>_. ''4VLN5QUCDP0'') \<rparr>"

abbreviation demo_api :: "opfs_tree opfs_api" where
  "demo_api \<equiv> tree_api False False"

lemma opfs_env: "index_env (opfs_core ops) [''db''] ''users''" "fs (opfs_core ops) = ops"
  "digest (opfs_core ops) = digest demo_core" "\<not> wormEnabled (opfs_core ops)"
  using demo_env(1) by (simp_all add: opfs_core_def index_env_def demo_core_def wormEnabled_def)

lemma demo_tree: "tree_inv new_tree" "api_hasOpfs demo_api" "plain_segment ''fylo''" "tree_dirs new_tree = {[]}"
  "\<forall>h. tree_file new_tree h = None"
  by (simp_all add: tree_inv_def tree_dirs_def tree_file_def new_tree_def tree_api_def plain_segment_def isMeaningful_def
      del: tree_select)

lemma demo_opened:
  obtains s where "opfs_root demo_api ''fylo'' (new_opfs new_tree) = (Inr [''fylo''], s)"
    "opfs_inv tree_inv tree_dirs (Namespace ''fylo'') [''fylo''] s" "dirCache s = []"
  using opfs_platform.opened_root [OF tree.opfs_platform_axioms demo_tree(1-3) demo_tree(5) [rule_format]]
  by (auto simp: forgetful_inv_def)

subsection \<open>The properties\<close>

text \<open>C29. The engine works on the browser's private storage: on any platform that behaves as the File System standard
  says, starting from an empty origin, opening the namespace succeeds, the collection is created, and after any
  sequence of puts, deletions and restorations every document reads as the specification computes it, when the
  adapter does not reuse remembered directory handles from one call to the next.\<close>

theorem opfs_engine_refines:
  assumes "opfs_platform api pinv pdirs pfile ptime" and "pinv p" and "api_hasOpfs api" and "plain_segment ns"
    and "pdirs p = {[]}" and "\<forall>h. pfile p h = None"
    and "index_env env rs c" and "fs env = forgetful_ops api (Namespace ns)"
    and "\<forall>n. json_safe_number (f64_of_int (readings n))" and "list_all (call_ok (digest env)) cls"
  shows "\<exists>s w v nows D T. opfs_root api ns (new_opfs p) = (Inr [ns], s) \<and>
    createCollection env c (new_world s readings) = (Inr (), w) \<and>
    run_calls env c cls w = (Inr (), v) \<and> length nows = length cls \<and>
    spec_calls (wormEnabled env) (zip nows cls) (Map.empty, Map.empty) = (D, T) \<and>
    (\<forall>d. isTTID d \<longrightarrow> getLatest env c d False v =
       (Inr (case D d of None \<Rightarrow> JObj [] | Some ob \<Rightarrow> JObj [(d, JObj ob)]), v))"
proof -
  obtain s where s: "opfs_root api ns (new_opfs p) = (Inr [ns], s)" "forgetful_inv pinv pdirs (Namespace ns) [ns] s"
    "pdirs (platform s) = insert [ns] (pdirs p)" "pfile (platform s) = pfile p"
    using opfs_platform.opened_root [OF assms(1-4) assms(6) [rule_format]] by blast
  have "[ns] @ ss \<notin> pdirs (platform s)" if "ss \<noteq> []" for ss using that s(3) assms(5) by simp
  with opfs_platform.engine_on_storage [OF assms(1,7,8) s(2) _ _ assms(9,10)] s(1,4) assms(6) show ?thesis by metis
qed

theorem opfs_engine_refines_witness:
  "\<exists>s w v D T. opfs_root demo_api ''fylo'' (new_opfs new_tree) = (Inr [''fylo''], s) \<and>
    createCollection (opfs_core (forgetful_ops demo_api (Namespace ''fylo''))) ''users'' (new_world s (\<lambda>_. 0)) = (Inr (), w) \<and>
    run_calls (opfs_core (forgetful_ops demo_api (Namespace ''fylo''))) ''users''
      [PutCall ''4VLN5QUCDP0'' demo_doc, DeleteCall ''4VLN5QUCDP0'', RestoreCall ''4VLN5QUCDP0''] w = (Inr (), v) \<and>
    getLatest (opfs_core (forgetful_ops demo_api (Namespace ''fylo''))) ''users'' ''4VLN5QUCDP0'' False v =
      (Inr (JObj [(''4VLN5QUCDP0'', JObj demo_doc)]), v)"
proof -
  let ?env = "opfs_core (forgetful_ops demo_api (Namespace ''fylo''))"
  let ?cls = "[PutCall ''4VLN5QUCDP0'' demo_doc, DeleteCall ''4VLN5QUCDP0'', RestoreCall ''4VLN5QUCDP0'']"
  have "json_safe_number (f64_of_int 0)" by code_simp
  then have now: "\<forall>n. json_safe_number (f64_of_int ((\<lambda>_::nat. 0) n))" by simp
  have ok: "list_all (call_ok (digest ?env)) ?cls" using demo_storable opfs_env(3) by (simp add: call_ok_def)
  from opfs_engine_refines [OF tree.opfs_platform_axioms demo_tree opfs_env(1,2) now ok]
  obtain s w v nows D T where v: "opfs_root demo_api ''fylo'' (new_opfs new_tree) = (Inr [''fylo''], s)"
    "createCollection ?env ''users'' (new_world s (\<lambda>_. 0)) = (Inr (), w)" "run_calls ?env ''users'' ?cls w = (Inr (), v)"
    "length nows = length ?cls" "spec_calls (wormEnabled ?env) (zip nows ?cls) (Map.empty, Map.empty) = (D, T)"
    "\<forall>d. isTTID d \<longrightarrow> getLatest ?env ''users'' d False v =
       (Inr (case D d of None \<Rightarrow> JObj [] | Some ob \<Rightarrow> JObj [(d, JObj ob)]), v)" by blast
  from v(4) obtain t1 t2 t3 where "nows = [t1, t2, t3]" by (auto simp: length_Suc_conv)
  with v(5) opfs_env(4) have "D ''4VLN5QUCDP0'' = Some demo_doc" by (auto simp: spec_call_def)
  with v(1-3,6) demo_storable(1) show ?thesis by fastforce
qed

text \<open>C30. Remembering directory handles changes nothing a client can see while no directory is removed: whatever
  is remembered, the same sequence of calls, failing ones included, gives the same values and errors and the same
  storage as an adapter that forgets every handle after each call.\<close>

theorem handle_memory_transparent:
  assumes "opfs_platform api pinv pdirs pfile ptime" and "opfs_inv pinv pdirs rk base s"
    and "all_gentle pdirs base (forgetful_ops api rk) calls (s\<lparr> dirCache := [] \<rparr>)"
  shows "\<exists>rs t t'. run_all (opfs_ops api rk) calls s = (rs, t) \<and>
    run_all (forgetful_ops api rk) calls (s\<lparr> dirCache := [] \<rparr>) = (rs, t') \<and> platform t = platform t'"
proof -
  have "opfs_platform.alike pinv pdirs rk base s (s\<lparr> dirCache := [] \<rparr>)"
    unfolding opfs_platform.alike_def [OF assms(1)] using assms(2)
    by (auto simp: opfs_inv_def opened_def cache_ok_def split: root_kind.splits)
  from opfs_platform.transparent_calls [OF assms(1) this _ assms(3)] show ?thesis
    by (fastforce simp: opfs_platform.alike_def [OF assms(1)])
qed

theorem handle_memory_transparent_witness:
  "\<exists>s rs t t'. opfs_root demo_api ''fylo'' (new_opfs new_tree) = (Inr [''fylo''], s) \<and>
    run_all (opfs_ops demo_api (Namespace ''fylo''))
      [(1, HMkdir ''/db/a'' True), (2, HWriteText ''/db/a/x.txt'' ''hi''), (3, HReadText ''/db/none''),
       (4, HMove ''/db/a/x.txt'' ''/db/b/y.txt''), (5, HList ''/db/b'')] s = (rs, t) \<and>
    run_all (forgetful_ops demo_api (Namespace ''fylo''))
      [(1, HMkdir ''/db/a'' True), (2, HWriteText ''/db/a/x.txt'' ''hi''), (3, HReadText ''/db/none''),
       (4, HMove ''/db/a/x.txt'' ''/db/b/y.txt''), (5, HList ''/db/b'')] (s\<lparr> dirCache := [] \<rparr>) = (rs, t') \<and> platform t = platform t'"
proof -
  let ?calls = "[(1, HMkdir ''/db/a'' True), (2, HWriteText ''/db/a/x.txt'' ''hi''), (3, HReadText ''/db/none''),
       (4, HMove ''/db/a/x.txt'' ''/db/b/y.txt''), (5, HList ''/db/b'')] :: (int \<times> host_call) list"
  obtain s where s: "opfs_root demo_api ''fylo'' (new_opfs new_tree) = (Inr [''fylo''], s)"
    "opfs_inv tree_inv tree_dirs (Namespace ''fylo'') [''fylo''] s" "dirCache s = []" using demo_opened .
  have "all_gentle tree_dirs [''fylo''] (forgetful_ops demo_api (Namespace ''fylo'')) ?calls (s\<lparr> dirCache := [] \<rparr>)"
    by (simp add: gentle_def del: run_host.simps)
  from handle_memory_transparent [OF tree.opfs_platform_axioms s(2) this] s(1) show ?thesis by blast
qed

text \<open>C31. On browser storage an index can be dropped but not made again: \<open>rebuildCollection\<close> ends in an error from every
  state of the adapter, because the handle of the removed index directory is still remembered; the reset it makes
  throws \<open>NotFoundError\<close> and leaves the collection without manifest, snapshot and log.\<close>

theorem opfs_rebuild_fails:
  assumes "opfs_platform api pinv pdirs pfile ptime" and "index_env env rs c" and "fs env = opfs_ops api rk"
    and "opfs_inv pinv pdirs rk base (disk w)"
  shows "(\<exists>e v. rebuildCollection env c w = (Inl e, v)) \<and>
    (map_of (dirCache (disk w)) (join_with ''/'' (index_dir rs c)) = Some h \<longrightarrow>
       (\<exists>e v. resetCollection env c w = (Inl e, v) \<and> isNotFound e \<and>
         (\<forall>n\<in>{LOCAL_FS_MANIFEST, LOCAL_FS_SNAPSHOT, LOCAL_FS_WAL}. opfs_file pfile base (disk v) (index_path rs c n) = None)))"
proof -
  have "plain_segment n" if "n \<in> {LOCAL_FS_MANIFEST, LOCAL_FS_SNAPSHOT, LOCAL_FS_WAL}" for n
    using that by (auto simp: plain_segment_def isMeaningful_def LOCAL_FS_MANIFEST_def LOCAL_FS_SNAPSHOT_def LOCAL_FS_WAL_def)
  then show ?thesis
    using opfs_platform.rebuild_fails [OF assms] opfs_platform.reset_fails [OF assms, of h]
    unfolding opfs_platform.remembered_def [OF assms(1)] by metis
qed

theorem opfs_rebuild_fails_witness:
  "\<exists>s w e v. opfs_root demo_api ''fylo'' (new_opfs new_tree) = (Inr [''fylo''], s) \<and>
    createCollection (opfs_core (opfs_ops demo_api (Namespace ''fylo''))) ''users'' (new_world s (\<lambda>_. 0)) = (Inr (), w) \<and>
    rebuildCollection (opfs_core (opfs_ops demo_api (Namespace ''fylo''))) ''users'' w = (Inl e, v)"
proof -
  let ?env = "opfs_core (opfs_ops demo_api (Namespace ''fylo''))"
  obtain s where s: "opfs_root demo_api ''fylo'' (new_opfs new_tree) = (Inr [''fylo''], s)"
    "opfs_inv tree_inv tree_dirs (Namespace ''fylo'') [''fylo''] s" using demo_opened .
  have "fst (createCollection ?env ''users'' (new_world (snd (opfs_root demo_api ''fylo'' (new_opfs new_tree))) (\<lambda>_. 0))) = Inr ()"
    by code_simp
  then obtain w where w: "createCollection ?env ''users'' (new_world s (\<lambda>_. 0)) = (Inr (), w)"
    using s(1) by (metis prod.collapse snd_conv)
  have sd: "tree.safe_disk (Namespace ''fylo'') [''fylo''] (opfs_inv tree_inv tree_dirs (Namespace ''fylo'') [''fylo''])"
    by (simp add: opfs_platform.safe_disk_def [OF tree.opfs_platform_axioms])
  have "keeps (\<lambda>w. opfs_inv tree_inv tree_dirs (Namespace ''fylo'') [''fylo''] (disk w)) (ensureCollection ?env ''users'')"
    unfolding ensureCollection_def by (intro keeps_intros tree.safe_engine(2,3) [OF sd opfs_env(2)])
  moreover have "opfs_inv tree_inv tree_dirs (Namespace ''fylo'') [''fylo''] (disk (new_world s (\<lambda>_. 0)))"
    using s(2) by (simp add: new_world_def)
  ultimately have "opfs_inv tree_inv tree_dirs (Namespace ''fylo'') [''fylo''] (disk w)"
    using w unfolding createCollection_def by (rule keeps_run)
  from opfs_rebuild_fails [OF tree.opfs_platform_axioms opfs_env(1,2) this] s(1) w show ?thesis by blast
qed

text \<open>A dropped collection cannot be created again by the same adapter.\<close>

lemma opfs_drop_then_create:
  "case createCollection (opfs_core (opfs_ops demo_api (Namespace ''fylo''))) ''users''
      (new_world (snd (opfs_root demo_api ''fylo'' (new_opfs new_tree))) (\<lambda>_. 0)) of (_, w) \<Rightarrow>
   case dropCollection (opfs_core (opfs_ops demo_api (Namespace ''fylo''))) ''users'' w of (dropped, v) \<Rightarrow>
   dropped = Inr () \<and> fst (createCollection (opfs_core (opfs_ops demo_api (Namespace ''fylo''))) ''users'' v) =
     Inl (dom_error ''NotFoundError'')"
  by code_simp

end
