(* ===== verification/Events.thy ===== *)
theory Events imports EngineStore begin

section \<open>Listening to events (src/src/browser/core/event-bus.js)\<close>

text \<open>
  \<open>listen\<close> is an asynchronous generator: it adds a handler to the event target when its body starts, at the first
  \<open>next()\<close>, and yields what the handler queued.  The calls of its consumer wait in a queue of the language and
  are answered in their order; a call made while the body is suspended resumes it at once, and promises that settled
  resume it later, when the host runs their reactions: these are the ticks.  The record of a listener holds the
  position of the generator, the queue of the source, the calls that wait, the answers so far, and for the
  statements the calls ever made and the number of events dispatched before the handler was added.
\<close>

subsection \<open>State\<close>

datatype gen_call = Next_Call | Return_Call

datatype gen_answer = Yields jsval | Finished

text \<open>
  The body awaits the wake-up, was woken and waits for its reaction, awaits the operand of \<open>yield\<close>, is suspended at a
  \<open>yield\<close>, awaits the operand of the return, or is over.
\<close>

datatype gen_phase = Not_Started | Awaiting | Woken | Yielding jsval | At_Yield | Returning | Completed

record listener =
  channel :: string
  phase :: gen_phase
  queued :: "jsval list"
  calls :: "gen_call list"
  answers :: "gen_answer list"
  asked :: "gen_call list"
  opened_at :: nat

definition listen :: "string \<Rightarrow> listener" where
  "listen collection = \<lparr> channel = collection, phase = Not_Started, queued = [], calls = [], answers = [],
     asked = [], opened_at = 0 \<rparr>"

definition listening :: "listener \<Rightarrow> bool" where
  "listening l = (phase l \<noteq> Not_Started \<and> phase l \<noteq> Completed)"

subsection \<open>Steps\<close>

text \<open>The loop from its head: await when the queue is empty, else shift and yield.\<close>

definition listen_loop :: "listener \<Rightarrow> listener" where
  "listen_loop l = (case queued l of [] \<Rightarrow> l\<lparr> phase := Awaiting \<rparr>
     | e # rest \<Rightarrow> l\<lparr> queued := rest, phase := Yielding e \<rparr>)"

text \<open>The end of the body: \<open>finally\<close> removes the handler, and the calls that wait are answered.\<close>

definition listen_end :: "listener \<Rightarrow> listener" where
  "listen_end l = l\<lparr> phase := Completed, answers := answers l @ map (\<lambda>_. Finished) (calls l), calls := [] \<rparr>"

text \<open>A call resumes the body from a \<open>yield\<close>, by the first of the calls that wait.\<close>

definition resume_yield :: "listener \<Rightarrow> listener" where
  "resume_yield l = (case calls l of [] \<Rightarrow> l\<lparr> phase := At_Yield \<rparr>
     | Next_Call # _ \<Rightarrow> listen_loop l
     | Return_Call # _ \<Rightarrow> l\<lparr> phase := Returning \<rparr>)"

definition call_listener :: "nat \<Rightarrow> gen_call \<Rightarrow> listener \<Rightarrow> listener" where
  "call_listener now r l0 =
     (let l = l0\<lparr> asked := asked l0 @ [r], calls := calls l0 @ [r] \<rparr> in
      case phase l0 of
        Not_Started \<Rightarrow> (case r of Next_Call \<Rightarrow> listen_loop (l\<lparr> opened_at := now \<rparr>) | Return_Call \<Rightarrow> listen_end l)
      | At_Yield \<Rightarrow> resume_yield l
      | Completed \<Rightarrow> listen_end l
      | _ \<Rightarrow> l)"

text \<open>The handler: push, and wake the body if it waits.\<close>

definition notify :: "string \<Rightarrow> jsval \<Rightarrow> listener \<Rightarrow> listener" where
  "notify collection e l =
     (if listening l \<and> channel l = collection
      then l\<lparr> queued := queued l @ [e], phase := (if phase l = Awaiting then Woken else phase l) \<rparr>
      else l)"

text \<open>A reaction of the host.  The answer to a yield goes to the first call that waits.\<close>

definition can_tick :: "listener \<Rightarrow> bool" where
  "can_tick l = (case phase l of Woken \<Rightarrow> True | Yielding e \<Rightarrow> True | Returning \<Rightarrow> True | _ \<Rightarrow> False)"

definition tick :: "listener \<Rightarrow> listener" where
  "tick l = (case phase l of
      Woken \<Rightarrow> listen_loop l
    | Yielding e \<Rightarrow> resume_yield (l\<lparr> answers := answers l @ [Yields e], calls := tl (calls l) \<rparr>)
    | Returning \<Rightarrow> listen_end l
    | _ \<Rightarrow> l)"

subsection \<open>The bus\<close>

record bus =
  event_log :: "(string \<times> jsval) list"
  listeners :: "listener list"

definition new_bus :: bus where
  "new_bus = \<lparr> event_log = [], listeners = [] \<rparr>"

definition dispatch_event :: "string \<Rightarrow> jsval \<Rightarrow> bus \<Rightarrow> bus" where
  "dispatch_event collection e b =
     \<lparr> event_log = event_log b @ [(collection, e)], listeners = map (notify collection e) (listeners b) \<rparr>"

definition at_listener :: "nat \<Rightarrow> (listener \<Rightarrow> listener) \<Rightarrow> bus \<Rightarrow> bus" where
  "at_listener i f b = b\<lparr> listeners := (listeners b)[i := f (listeners b ! i)] \<rparr>"

inductive bus_step :: "bus \<Rightarrow> bus \<Rightarrow> bool" where
  listen: "bus_step b (b\<lparr> listeners := listeners b @ [listen c] \<rparr>)"
| call: "i < length (listeners b) \<Longrightarrow> bus_step b (at_listener i (call_listener (length (event_log b)) r) b)"
| tick: "i < length (listeners b) \<Longrightarrow> can_tick (listeners b ! i) \<Longrightarrow> bus_step b (at_listener i tick b)"
| dispatch: "bus_step b (dispatch_event c e b)"

inductive reachable_bus :: "bus \<Rightarrow> bool" where
  initial: "reachable_bus new_bus"
| stepped: "reachable_bus b \<Longrightarrow> bus_step b b' \<Longrightarrow> reachable_bus b'"

subsection \<open>The invariant\<close>

definition events_of :: "string \<Rightarrow> (string \<times> jsval) list \<Rightarrow> jsval list" where
  "events_of c evs = map snd (filter (\<lambda>p. fst p = c) evs)"

definition heard :: "(string \<times> jsval) list \<Rightarrow> listener \<Rightarrow> jsval list" where
  "heard evs l = events_of (channel l) (drop (opened_at l) evs)"

definition yielded :: "listener \<Rightarrow> jsval list" where
  "yielded l = concat (map (\<lambda>a. case a of Yields e \<Rightarrow> [e] | Finished \<Rightarrow> []) (answers l))"

definition in_hand :: "listener \<Rightarrow> jsval list" where
  "in_hand l = (case phase l of Yielding e \<Rightarrow> [e] | _ \<Rightarrow> [])"

text \<open>
  What was yielded, what is being yielded and what is queued are the events of the channel since the handler was
  added; every call has one answer or waits; the body waits for an event only with an empty queue and a call.
\<close>

definition event_kept :: "(string \<times> jsval) list \<Rightarrow> listener \<Rightarrow> bool" where
  "event_kept evs l \<longleftrightarrow>
     (listening l \<longrightarrow> opened_at l \<le> length evs \<and> yielded l @ in_hand l @ queued l = heard evs l)"

definition calls_kept :: "listener \<Rightarrow> bool" where
  "calls_kept l \<longleftrightarrow> length (answers l) + length (calls l) = length (asked l) \<and> (\<exists>done. asked l = done @ calls l) \<and>
     (phase l \<noteq> Completed \<longrightarrow> Finished \<notin> set (answers l)) \<and>
     (case phase l of
        Not_Started \<Rightarrow> asked l = [] \<and> answers l = [] \<and> queued l = []
      | Awaiting \<Rightarrow> queued l = [] \<and> hd (calls l) = Next_Call \<and> calls l \<noteq> []
      | Woken \<Rightarrow> queued l \<noteq> [] \<and> hd (calls l) = Next_Call \<and> calls l \<noteq> []
      | Yielding e \<Rightarrow> hd (calls l) = Next_Call \<and> calls l \<noteq> []
      | At_Yield \<Rightarrow> calls l = [] \<and> answers l \<noteq> []
      | Returning \<Rightarrow> hd (calls l) = Return_Call \<and> calls l \<noteq> []
      | Completed \<Rightarrow> calls l = [] \<and> Return_Call \<in> set (asked l))"

definition completed_kept :: "(string \<times> jsval) list \<Rightarrow> listener \<Rightarrow> bool" where
  "completed_kept evs l \<longleftrightarrow> (phase l = Completed \<longrightarrow> (\<exists>rest. yielded l @ rest = heard evs l))"

definition sound :: "(string \<times> jsval) list \<Rightarrow> listener \<Rightarrow> bool" where
  "sound evs l \<longleftrightarrow> event_kept evs l \<and> calls_kept l \<and> completed_kept evs l"

lemmas listener_defs = listen_loop_def listen_end_def resume_yield_def listening_def in_hand_def yielded_def heard_def

lemma events_of_simps [simp]:
  "events_of c [] = []"
  "events_of c (evs @ later) = events_of c evs @ events_of c later"
  "events_of c (p # evs) = (if fst p = c then snd p # events_of c evs else events_of c evs)"
  by (simp_all add: events_of_def)


lemma notify_simps [simp]:
  "channel (notify c e l) = channel l" "opened_at (notify c e l) = opened_at l" "answers (notify c e l) = answers l"
  "calls (notify c e l) = calls l" "asked (notify c e l) = asked l"
  by (simp_all add: notify_def)

lemma listening_notify [simp]: "listening (notify c e l) = listening l"
  by (auto simp: notify_def listening_def)

lemma heard_later: "opened_at l \<le> length evs \<Longrightarrow>
    heard (evs @ later) l = heard evs l @ events_of (channel l) later"
  by (simp add: heard_def)

lemma heard_prefix: "\<exists>rest. heard (evs @ later) l = heard evs l @ rest"
  by (simp add: heard_def)

lemma event_kept_notify:
  assumes "event_kept evs l"
  shows "event_kept (evs @ [(c, e)]) (notify c e l)"
proof (cases "listening l")
  case True
  then have k: "opened_at l \<le> length evs" "yielded l @ in_hand l @ queued l = heard evs l"
    using assms by (simp_all add: event_kept_def)
  have "yielded (notify c e l) = yielded l" by (simp add: yielded_def)
  moreover have "in_hand (notify c e l) = in_hand l" by (auto simp: notify_def in_hand_def)
  moreover have "queued (notify c e l) = queued l @ events_of (channel l) [(c, e)]"
    using True by (auto simp: notify_def)
  moreover have "heard (evs @ [(c, e)]) (notify c e l) = heard evs l @ events_of (channel l) [(c, e)]"
    using heard_later [OF k(1), of "[(c, e)]"] by (simp add: heard_def)
  ultimately show ?thesis using k by (simp add: event_kept_def flip: append_assoc)
qed (simp add: event_kept_def)

lemma calls_kept_notify: "calls_kept l \<Longrightarrow> calls_kept (notify c e l)"
  by (auto simp: calls_kept_def notify_def listening_def split: gen_phase.splits)

lemma completed_kept_notify:
  assumes "completed_kept evs l"
  shows "completed_kept (evs @ [(c, e)]) (notify c e l)"
proof (cases "phase l = Completed")
  case True
  then have "notify c e l = l" by (simp add: notify_def listening_def)
  moreover obtain rest where "yielded l @ rest = heard evs l" using True assms by (auto simp: completed_kept_def)
  moreover obtain r where "heard (evs @ [(c, e)]) l = heard evs l @ r" using heard_prefix by blast
  ultimately have "yielded (notify c e l) @ (rest @ r) = heard (evs @ [(c, e)]) (notify c e l)"
    by (simp flip: append_assoc)
  then show ?thesis unfolding completed_kept_def by blast
next
  case False
  then show ?thesis by (auto simp: completed_kept_def notify_def)
qed

lemma sound_notify: "sound evs l \<Longrightarrow> sound (evs @ [(c, e)]) (notify c e l)"
  by (simp add: sound_def event_kept_notify calls_kept_notify completed_kept_notify)

lemma yielded_append: "yielded (l\<lparr> answers := answers l @ xs \<rparr>) =
    yielded l @ concat (map (\<lambda>a. case a of Yields e \<Rightarrow> [e] | Finished \<Rightarrow> []) xs)"
  by (simp add: yielded_def)

lemma no_yield_finished: "concat (map (\<lambda>a. case a of Yields e \<Rightarrow> [e] | Finished \<Rightarrow> []) (map (\<lambda>_. Finished) xs)) = []"
  by (induction xs) simp_all

lemma yielded_end [simp]: "yielded (listen_end l) = yielded l"
  by (simp add: yielded_def listen_end_def no_yield_finished [unfolded map_map])

text \<open>The loop keeps the events; its caller supplies the facts about the calls.\<close>

lemma loop_kept:
  assumes "opened_at l \<le> length evs" "yielded l @ queued l = heard evs l"
    and "length (answers l) + length (calls l) = length (asked l)" "\<exists>done. asked l = done @ calls l"
      "Finished \<notin> set (answers l)" "calls l \<noteq> []" "hd (calls l) = Next_Call"
  shows "sound evs (listen_loop l)"
  using assms by (auto simp: sound_def event_kept_def calls_kept_def completed_kept_def listen_loop_def yielded_def
      heard_def in_hand_def listening_def split: list.splits)

lemma resume_kept:
  assumes "opened_at l \<le> length evs" "yielded l @ queued l = heard evs l"
    and "length (answers l) + length (calls l) = length (asked l)" "\<exists>done. asked l = done @ calls l"
      "Finished \<notin> set (answers l)" "answers l \<noteq> []"
  shows "sound evs (resume_yield l)"
proof (cases "calls l")
  case Nil
  then show ?thesis using assms
    by (auto simp: sound_def event_kept_def calls_kept_def completed_kept_def resume_yield_def yielded_def heard_def
        in_hand_def listening_def)
next
  case (Cons r rest)
  show ?thesis
  proof (cases r)
    case Next_Call
    then show ?thesis using loop_kept [OF assms(1-5)] Cons by (simp add: resume_yield_def)
  next
    case Return_Call
    then show ?thesis using assms Cons
      by (auto simp: sound_def event_kept_def calls_kept_def completed_kept_def resume_yield_def yielded_def heard_def
          in_hand_def listening_def)
  qed
qed

lemma end_kept:
  assumes "\<exists>rest. yielded l @ rest = heard evs l"
    and "length (answers l) + length (calls l) = length (asked l)" "Return_Call \<in> set (asked l)"
  shows "sound evs (listen_end l)"
proof -
  have "heard evs (listen_end l) = heard evs l" by (simp add: heard_def listen_end_def)
  then show ?thesis using assms
    by (simp add: sound_def event_kept_def calls_kept_def completed_kept_def listening_def)
      (simp add: listen_end_def)
qed

lemma sound_call:
  assumes "sound evs l0"
  shows "sound evs (call_listener (length evs) r l0)"
proof -
  let ?l = "l0\<lparr> asked := asked l0 @ [r], calls := calls l0 @ [r] \<rparr>"
  have k: "event_kept evs l0" "calls_kept l0" "completed_kept evs l0" using assms by (simp_all add: sound_def)
  have y: "yielded ?l = yielded l0" "heard evs ?l = heard evs l0" by (simp_all add: yielded_def heard_def)
  have len: "length (answers ?l) + length (calls ?l) = length (asked ?l)" "\<exists>done. asked ?l = done @ calls ?l"
    using k(2) by (auto simp: calls_kept_def)
  show ?thesis
  proof (cases "phase l0")
    case Not_Started
    then have e: "asked l0 = []" "answers l0 = []" "queued l0 = []" "calls l0 = []"
      using k(2) by (auto simp: calls_kept_def)
    show ?thesis
    proof (cases r)
      case Next_Call
      show ?thesis using loop_kept [of "?l\<lparr> opened_at := length evs \<rparr>" evs] Not_Started e Next_Call
        by (simp add: call_listener_def Let_def yielded_def heard_def)
    next
      case Return_Call
      show ?thesis using end_kept [of ?l evs] Not_Started e Return_Call
        by (simp add: call_listener_def Let_def yielded_def)
    qed
  next
    case At_Yield
    then have "opened_at ?l \<le> length evs" "yielded ?l @ queued ?l = heard evs ?l" "Finished \<notin> set (answers ?l)" "answers ?l \<noteq> []"
      using k y by (auto simp: event_kept_def listening_def in_hand_def calls_kept_def)
    from resume_kept [OF this(1,2) len this(3,4)] At_Yield show ?thesis by (simp add: call_listener_def Let_def)
  next
    case Completed
    have "\<exists>rest. yielded ?l @ rest = heard evs ?l" "Return_Call \<in> set (asked ?l)"
      using k y Completed by (auto simp: completed_kept_def calls_kept_def)
    from end_kept [OF this(1) len(1) this(2)] Completed show ?thesis by (simp add: call_listener_def Let_def)
  qed (use k len in \<open>auto simp: call_listener_def Let_def sound_def event_kept_def calls_kept_def completed_kept_def
      listening_def in_hand_def yielded_def heard_def\<close>)
qed

lemma sound_tick:
  assumes "sound evs l"
  shows "sound evs (tick l)"
proof -
  have k: "event_kept evs l" "calls_kept l" using assms by (simp_all add: sound_def)
  show ?thesis
  proof (cases "phase l")
    case Woken
    have "sound evs (listen_loop l)"
      by (rule loop_kept) (use k Woken in \<open>auto simp: event_kept_def calls_kept_def listening_def in_hand_def\<close>)
    then show ?thesis using Woken by (simp add: tick_def)
  next
    case (Yielding e)
    let ?l = "l\<lparr> answers := answers l @ [Yields e], calls := tl (calls l) \<rparr>"
    obtain r rest where c: "calls l = r # rest" using k(2) Yielding by (cases "calls l") (auto simp: calls_kept_def)
    have "sound evs (resume_yield ?l)"
      by (rule resume_kept) (use k Yielding c in \<open>auto simp: event_kept_def calls_kept_def listening_def in_hand_def
          yielded_def heard_def\<close>)
    then show ?thesis using Yielding by (simp add: tick_def)
  next
    case Returning
    have "Return_Call \<in> set (calls l)" using k(2) Returning by (cases "calls l") (auto simp: calls_kept_def)
    then have "sound evs (listen_end l)"
      by (intro end_kept) (use k Returning in \<open>auto simp: event_kept_def calls_kept_def listening_def in_hand_def
        intro: exI [of _ "queued l"]\<close>)
    then show ?thesis using Returning by (simp add: tick_def)
  qed (use assms in \<open>simp_all add: tick_def\<close>)
qed

lemma reachable_sound: "reachable_bus b \<Longrightarrow> l \<in> set (listeners b) \<Longrightarrow> sound (event_log b) l"
proof (induction arbitrary: l rule: reachable_bus.induct)
  case initial
  then show ?case by (simp add: new_bus_def)
next
  case (stepped b b')
  have upd: "sound (event_log b) x" if "x \<in> set ((listeners b)[i := y])" "sound (event_log b) y" for x y i
    using that stepped.IH set_update_subset_insert by fastforce
  from stepped.hyps(2) show ?case
  proof cases
    case (listen c)
    have "sound (event_log b) (Events.listen c)"
      by (simp add: sound_def event_kept_def calls_kept_def completed_kept_def listening_def Events.listen_def)
    then show ?thesis using listen stepped by auto
  next
    case (call i r)
    then show ?thesis using stepped upd [of l i] sound_call [of "event_log b" "listeners b ! i"]
      by (simp add: at_listener_def)
  next
    case (tick i)
    then show ?thesis using stepped upd [of l i] sound_tick [of "event_log b" "listeners b ! i"]
      by (simp add: at_listener_def)
  next
    case (dispatch c e)
    then show ?thesis using stepped by (auto simp: dispatch_event_def sound_notify)
  qed
qed


subsection \<open>The reactions of the host end, and every event is delivered\<close>

definition ticks_left :: "listener \<Rightarrow> nat" where
  "ticks_left l = 3 * length (calls l) +
     (case phase l of Woken \<Rightarrow> 2 | Yielding e \<Rightarrow> 1 | Returning \<Rightarrow> 1 | _ \<Rightarrow> 0)"

lemma ticks_left_loop: "ticks_left (listen_loop l) \<le> 3 * length (calls l) + 1"
  by (simp add: ticks_left_def listen_loop_def split: list.split)

lemma ticks_left_resume: "ticks_left (resume_yield l) \<le> 3 * length (calls l) + 1"
proof (cases "calls l")
  case (Cons r rest)
  then show ?thesis using ticks_left_loop [of l] by (cases r) (simp_all add: resume_yield_def ticks_left_def)
qed (simp add: resume_yield_def ticks_left_def)

lemma tick_decreases: "sound evs l \<Longrightarrow> can_tick l \<Longrightarrow> ticks_left (tick l) < ticks_left l"
proof (cases "phase l")
  case Woken
  then show ?thesis using ticks_left_loop [of l] by (simp add: tick_def ticks_left_def)
next
  case (Yielding e)
  assume s: "sound evs l"
  then obtain r rest where "calls l = r # rest"
    using Yielding by (cases "calls l") (auto simp: sound_def calls_kept_def)
  then show ?thesis
    using Yielding ticks_left_resume [of "l\<lparr> answers := answers l @ [Yields e], calls := rest \<rparr>"]
    by (simp add: tick_def ticks_left_def)
qed (simp_all add: can_tick_def tick_def ticks_left_def listen_end_def)

text \<open>All the reactions that are due, with fuel.\<close>

fun settle_ticks :: "nat \<Rightarrow> listener \<Rightarrow> listener" where
  "settle_ticks 0 l = l"
| "settle_ticks (Suc n) l = (if can_tick l then settle_ticks n (tick l) else l)"

definition settle :: "listener \<Rightarrow> listener" where
  "settle l = settle_ticks (ticks_left l) l"

lemma asked_tick [simp]: "asked (tick l) = asked l"
  by (simp add: tick_def resume_yield_def listen_loop_def listen_end_def split: gen_phase.split list.split gen_call.split)

lemma channel_tick [simp]: "channel (tick l) = channel l" "opened_at (tick l) = opened_at l"
  by (simp_all add: tick_def resume_yield_def listen_loop_def listen_end_def split: gen_phase.split list.split gen_call.split)

lemma settle_ticks_sound: "sound evs l \<Longrightarrow> sound evs (settle_ticks n l)"
  by (induction n arbitrary: l) (simp_all add: sound_tick)

lemma settle_ticks_asked: "asked (settle_ticks n l) = asked l" "heard evs (settle_ticks n l) = heard evs l"
  by (induction n arbitrary: l) (simp_all add: heard_def)

lemma settle_ticks_ends: "sound evs l \<Longrightarrow> ticks_left l \<le> n \<Longrightarrow> \<not> can_tick (settle_ticks n l)"
proof (induction n arbitrary: l)
  case 0
  then show ?case by (simp add: can_tick_def ticks_left_def split: gen_phase.splits)
next
  case (Suc n)
  show ?case
  proof (cases "can_tick l")
    case True
    then show ?thesis using Suc tick_decreases [OF Suc.prems(1) True] sound_tick [OF Suc.prems(1)] by simp
  qed simp
qed

lemma settle_sound: "sound evs l \<Longrightarrow> sound evs (settle l)"
  and settle_rests: "sound evs l \<Longrightarrow> \<not> can_tick (settle l)"
  and settle_keeps: "asked (settle l) = asked l" "heard evs (settle l) = heard evs l"
  by (simp_all add: settle_def settle_ticks_sound settle_ticks_ends settle_ticks_asked)

lemma all_yields: "Finished \<notin> set xs \<Longrightarrow>
    xs = map Yields (concat (map (\<lambda>a. case a of Yields e \<Rightarrow> [e] | Finished \<Rightarrow> []) xs))"
proof (induction xs)
  case (Cons a xs)
  then show ?case by (cases a) simp_all
qed simp

text \<open>At rest, with no return asked, the answers are the first events since the handler was added.\<close>

lemma at_rest_answers:
  assumes "sound evs l" "\<not> can_tick l" "asked l \<noteq> []" "Return_Call \<notin> set (asked l)"
  shows "answers l = map Yields (take (length (asked l)) (heard evs l))"
proof -
  have k: "event_kept evs l" "calls_kept l" using assms(1) by (simp_all add: sound_def)
  have ph: "phase l = Awaiting \<or> phase l = At_Yield"
    using k(2) assms(2,3,4) by (cases "phase l") (auto simp: calls_kept_def can_tick_def)
  then have fin: "Finished \<notin> set (answers l)" using k(2) by (auto simp: calls_kept_def)
  have y: "answers l = map Yields (yielded l)" unfolding yielded_def by (rule all_yields [OF fin])
  have h: "yielded l @ queued l = heard evs l"
    using k(1) ph by (auto simp: event_kept_def listening_def in_hand_def)
  have n: "length (asked l) = length (answers l) + length (calls l)" using k(2) by (simp add: calls_kept_def)
  have "yielded l = take (length (asked l)) (heard evs l)"
  proof (cases "phase l = Awaiting")
    case True
    then have "queued l = []" using k(2) by (simp add: calls_kept_def)
    then show ?thesis using h n y by (metis append_Nil2 length_map le_add1 take_all)
  next
    case False
    then have "calls l = []" using ph k(2) by (simp add: calls_kept_def)
    then show ?thesis using h n y by (metis add_0_right append_eq_conv_conj length_map list.size(3))
  qed
  then show ?thesis using y by simp
qed

text \<open>C15. Whatever the host interleaves, once its reactions have run the calls of next() a consumer of listen() made
  are answered, in their order, by the events dispatched on the channel since its first call: as many as there are,
  none lost, doubled or reordered, and no call waits while an event is queued.\<close>

theorem listen_delivers:
  assumes "reachable_bus b" "l \<in> set (listeners b)" "asked l \<noteq> []" "Return_Call \<notin> set (asked l)"
  shows "\<not> can_tick (settle l) \<and>
    answers (settle l) = map Yields (take (length (asked l)) (heard (event_log b) l))"
proof -
  have s: "sound (event_log b) l" by (rule reachable_sound [OF assms(1,2)])
  show ?thesis
    using at_rest_answers [OF settle_sound [OF s] settle_rests [OF s]] settle_rests [OF s] assms(3,4)
    by (simp add: settle_keeps)
qed


theorem listen_delivers_witness:
  "\<exists>b l. reachable_bus b \<and> l \<in> set (listeners b) \<and> answers (settle l) = [Yields (JStr ''a'')]"
proof -
  let ?b0 = "new_bus\<lparr> listeners := listeners new_bus @ [listen ''users''] \<rparr>"
  let ?b1 = "at_listener 0 (call_listener (length (event_log ?b0)) Next_Call) ?b0"
  let ?b2 = "dispatch_event ''users'' (JStr ''b'') (dispatch_event ''posts'' JNull (dispatch_event ''users'' (JStr ''a'') ?b1))"
  let ?l = "hd (listeners ?b2)"
  have "reachable_bus ?b0" by (intro reachable_bus.stepped [OF reachable_bus.initial] bus_step.listen)
  then have "reachable_bus ?b1" by (rule reachable_bus.stepped [OF _ bus_step.call]) (simp add: new_bus_def)
  then have r: "reachable_bus ?b2" by (intro reachable_bus.stepped [OF _ bus_step.dispatch])
  have m: "?l \<in> set (listeners ?b2)" by (simp add: dispatch_event_def at_listener_def new_bus_def)
  have a: "asked ?l = [Next_Call]" and h: "take 1 (heard (event_log ?b2) ?l) = [JStr ''a'']" by code_simp+
  have "answers (settle ?l) = map Yields (take (length (asked ?l)) (heard (event_log ?b2) ?l))"
    using listen_delivers [OF r m] a by simp
  then have "answers (settle ?l) = [Yields (JStr ''a'')]" using a h by simp
  with r m show ?thesis by blast
qed

end
