(* ===== verification/Live.thy ===== *)
theory Live imports Events begin

section \<open>Live documents (getDoc of src/src/browser/core/engine.js)\<close>

text \<open>
  The iterator of \<open>getDoc\<close> yields the document as \<open>once\<close> reads it, then follows the events of the collection.  Its
  consumer asks for one value at a time, as \<open>for await\<close> does.  The state is that of the world and of the iterator:
  the generator of \<open>listen\<close> it consumes, how many of its answers were consumed, what was yielded, whether a value is
  awaited, and for the statements what came from \<open>once\<close>.  The engine moves between the steps: it may change the
  world in any way and dispatch any events.
\<close>

subsection \<open>The filter of the loop\<close>

definition doc_update :: "string \<Rightarrow> bool \<Rightarrow> jsval \<Rightarrow> jsval option" where
  "doc_update docId onlyId event =
     (if get_prop event ''action'' \<noteq> JStr ''insert'' \<or> get_prop event ''id'' \<noteq> JStr docId \<or>
         \<not> js_truthy (get_prop event ''doc'') then None
      else Some (if onlyId then get_prop event ''id'' else JObj [(docId, get_prop event ''doc'')]))"

definition first_value :: "jsval \<Rightarrow> jsval list" where
  "first_value doc = (case doc of JStr t \<Rightarrow> if t = [] then [] else [doc]
     | JObj ob \<Rightarrow> if ob = [] then [] else [doc] | _ \<Rightarrow> [])"

subsection \<open>The iterator\<close>

record live =
  source :: listener
  seen :: nat
  shown :: "jsval list"
  awaited :: bool
  begun :: bool
  snapshot :: "jsval list"
  broken :: "js_error option"

definition new_live :: "string \<Rightarrow> live" where
  "new_live collection = \<lparr> source = listen collection, seen = 0, shown = [], awaited = False, begun = False,
     snapshot = [], broken = None \<rparr>"

definition ask_source :: "nat \<Rightarrow> live \<Rightarrow> live" where
  "ask_source now it = it\<lparr> source := call_listener now Next_Call (source it) \<rparr>"

text \<open>\<open>once\<close>, and \<open>getDoc\<close>, which validates the identifier first.\<close>

definition getDoc_once :: "'f core \<Rightarrow> string \<Rightarrow> string \<Rightarrow> bool \<Rightarrow> ('f world, jsval) op" where
  "getDoc_once env collection docId onlyId =
     seq_op (requireCollection env collection) (
     bind_op (readStoredDoc env collection docId) (\<lambda>stored.
       ret (case stored of
              None \<Rightarrow> if onlyId then JNull else JObj []
            | Some d \<Rightarrow> if onlyId then JStr (stored_id d) else JObj [(stored_id d, JObj (stored_data d))])))"

definition getDoc :: "string \<Rightarrow> string \<Rightarrow> live result" where
  "getDoc collection docId = bind_result (validateDocId docId) (\<lambda>_. Inr (new_live collection))"

text \<open>
  A call of \<open>next()\<close>: the first reads the document and suspends at the first \<open>yield\<close>, unless there is nothing to
  yield; then, and from the second call on, the body is in the loop over the events, whose first turn starts the
  generator of \<open>listen\<close>.
\<close>

definition live_next :: "'f core \<Rightarrow> string \<Rightarrow> string \<Rightarrow> bool \<Rightarrow> 'f world \<times> live \<Rightarrow> 'f world \<times> live" where
  "live_next env collection docId onlyId s = (case s of (w, it) \<Rightarrow>
     if awaited it \<or> broken it \<noteq> None then (w, it)
     else if begun it then (w, ask_source (length (dispatched w)) (it\<lparr> awaited := True \<rparr>))
     else (case getDoc_once env collection docId onlyId w of
         (Inl e, v) \<Rightarrow> (v, it\<lparr> begun := True, broken := Some e \<rparr>)
       | (Inr doc, v) \<Rightarrow> (v,
           (let it' = it\<lparr> begun := True, shown := first_value doc, snapshot := first_value doc \<rparr> in
            if first_value doc = [] then ask_source (length (dispatched v)) (it'\<lparr> awaited := True \<rparr>) else it'))))"

text \<open>
  A reaction: one of the generator of \<open>listen\<close>, or the next of its answers reaches the loop, which yields its value or
  continues with the next call.
\<close>

definition live_due :: "live \<Rightarrow> bool" where
  "live_due it = (can_tick (source it) \<or> seen it < length (answers (source it)))"

definition live_tick :: "(jsval \<Rightarrow> jsval option) \<Rightarrow> nat \<Rightarrow> live \<Rightarrow> live" where
  "live_tick pick now it =
     (if can_tick (source it) then it\<lparr> source := tick (source it) \<rparr>
      else if seen it < length (answers (source it))
      then (let it' = it\<lparr> seen := Suc (seen it) \<rparr> in
            case answers (source it) ! seen it of
              Finished \<Rightarrow> it'
            | Yields e \<Rightarrow> (case pick e of
                  Some val \<Rightarrow> it'\<lparr> shown := shown it @ [val], awaited := False \<rparr>
                | None \<Rightarrow> ask_source now it'))
      else it)"

definition hears :: "(string \<times> jsval) list \<Rightarrow> live \<Rightarrow> live" where
  "hears evs it = it\<lparr> source := fold (\<lambda>(c, e). notify c e) evs (source it) \<rparr>"

text \<open>The runs of an iterator: calls of its consumer, reactions, and the engine.\<close>

inductive live_run :: "'f core \<Rightarrow> string \<Rightarrow> string \<Rightarrow> bool \<Rightarrow> 'f world \<times> live \<Rightarrow> bool"
  for env collection docId onlyId where
  created: "getDoc collection docId = Inr it \<Longrightarrow> live_run env collection docId onlyId (w, it)"
| next_value: "live_run env collection docId onlyId s \<Longrightarrow>
    live_run env collection docId onlyId (live_next env collection docId onlyId s)"
| reaction: "live_run env collection docId onlyId (w, it) \<Longrightarrow> live_due it \<Longrightarrow>
    live_run env collection docId onlyId (w, live_tick (doc_update docId onlyId) (length (dispatched w)) it)"
| engine: "live_run env collection docId onlyId (w, it) \<Longrightarrow> dispatched v = dispatched w @ evs \<Longrightarrow>
    live_run env collection docId onlyId (v, hears evs it)"

subsection \<open>Reading dispatches nothing\<close>

definition silent :: "('f world, 'a) op \<Rightarrow> bool" where
  "silent m \<longleftrightarrow> (\<forall>w. dispatched (snd (m w)) = dispatched w)"

lemma silent_bind [intro]: "silent m \<Longrightarrow> (\<And>x. silent (k x)) \<Longrightarrow> silent (bind_op m k)"
  unfolding silent_def bind_op_def by (auto split: prod.split sum.split) (metis snd_conv)+

lemma silent_basic [intro, simp]:
  "silent (ret x)" "silent (of_result r)" "silent (throw e)" "silent (on_disk m)"
  by (auto simp: silent_def ret_def of_result_def throw_def on_disk_def split: prod.split sum.split)

lemma silent_seq [intro]: "silent m \<Longrightarrow> silent k \<Longrightarrow> silent (seq_op m k)"
  unfolding seq_op_def by (rule silent_bind)

lemma silent_exists [simp]: "silent (w_exists env p)" "silent (w_readText env p)" "silent (w_mtimeMs env p)"
  by (simp_all add: w_exists_def w_readText_def w_mtimeMs_def)

lemma silent_once: "silent (getDoc_once env c d onlyId)"
proof -
  have "silent (requireCollection env c)"
    unfolding requireCollection_def hasCollection_def by (intro silent_bind) auto
  moreover have "silent (existingPath env base canonical d)" for base canonical
    unfolding existingPath_def by (intro silent_bind) (auto intro!: silent_bind)
  then have "silent (readStoredDoc env c d)"
    unfolding readStoredDoc_def locate_def by (intro silent_bind) (auto intro!: silent_bind)
  ultimately show ?thesis unfolding getDoc_once_def by (intro silent_seq silent_bind) auto
qed

lemma once_dispatched: "getDoc_once env c d onlyId w = (r, v) \<Longrightarrow> dispatched v = dispatched w"
  using silent_once unfolding silent_def by (metis snd_conv)

subsection \<open>The invariant\<close>

text \<open>
  The source was asked as often as it was consumed, once more while a value is awaited; what was shown is the snapshot
  followed by the values of the events consumed.
\<close>

definition live_kept :: "(jsval \<Rightarrow> jsval option) \<Rightarrow> (string \<times> jsval) list \<Rightarrow> live \<Rightarrow> bool" where
  "live_kept pick evs it \<longleftrightarrow> sound evs (source it) \<and>
     asked (source it) = replicate (seen it + (if awaited it then 1 else 0)) Next_Call \<and>
     seen it \<le> length (answers (source it)) \<and> (begun it \<or> asked (source it) = []) \<and>
     shown it = snapshot it @ List.map_filter pick (take (seen it) (heard evs (source it)))"

lemma only_next: "asked l = replicate n Next_Call \<Longrightarrow> Return_Call \<notin> set (asked l)"
  by simp

text \<open>A source that was only asked for values answered with the first events it heard.\<close>

lemma source_answers:
  assumes "sound evs l" "Return_Call \<notin> set (asked l)"
  shows "\<exists>rest. answers l = map Yields (yielded l) \<and> (answers l \<noteq> [] \<longrightarrow> heard evs l = yielded l @ rest)"
proof -
  have k: "event_kept evs l" "calls_kept l" "completed_kept evs l" using assms(1) by (simp_all add: sound_def)
  have ph: "phase l \<noteq> Completed" using k(2) assms(2) by (auto simp: calls_kept_def)
  then have "answers l = map Yields (yielded l)"
    unfolding yielded_def by (intro all_yields) (use k(2) in \<open>simp add: calls_kept_def\<close>)
  moreover have "heard evs l = yielded l @ (in_hand l @ queued l)" if "answers l \<noteq> []"
    using k ph that by (auto simp: event_kept_def listening_def calls_kept_def)
  ultimately show ?thesis by blast
qed

lemma answers_heard:
  assumes "sound evs l" "Return_Call \<notin> set (asked l)" "n < length (answers l)"
  shows "n < length (heard evs l)" "answers l ! n = Yields (heard evs l ! n)"
proof -
  obtain rest where a: "answers l = map Yields (yielded l)" "heard evs l = yielded l @ rest"
    using source_answers [OF assms(1,2)] assms(3) by (cases "answers l") auto
  then have n: "n < length (yielded l)" using assms(3) by (metis length_map)
  then show "n < length (heard evs l)" by (simp add: a(2))
  have "answers l ! n = Yields (yielded l ! n)" by (subst a(1)) (simp add: n)
  then show "answers l ! n = Yields (heard evs l ! n)" using n by (simp add: a(2) nth_append)
qed

lemma asked_call [simp]: "asked (call_listener now r l) = asked l @ [r]"
  by (simp add: call_listener_def Let_def listen_loop_def listen_end_def resume_yield_def
      split: gen_phase.split list.split gen_call.split)

lemma answers_call_next: "phase l \<noteq> Completed \<Longrightarrow> answers (call_listener now Next_Call l) = answers l"
  by (simp add: call_listener_def Let_def listen_loop_def listen_end_def resume_yield_def
      split: gen_phase.split list.split gen_call.split)

lemma answers_call_more: "length (answers l) \<le> length (answers (call_listener now r l))"
  by (simp add: call_listener_def Let_def listen_loop_def listen_end_def resume_yield_def
      split: gen_phase.split list.split gen_call.split)

lemma answers_tick_more: "length (answers l) \<le> length (answers (tick l))"
  by (simp add: tick_def listen_loop_def listen_end_def resume_yield_def
      split: gen_phase.split list.split gen_call.split)

text \<open>The first call fixes where the listener starts; a later one changes nothing it has heard.\<close>

lemma call_keeps_start:
  "channel (call_listener now r l) = channel l"
  "phase l \<noteq> Not_Started \<Longrightarrow> opened_at (call_listener now r l) = opened_at l"
  by (simp_all add: call_listener_def Let_def listen_loop_def listen_end_def resume_yield_def
      split: gen_phase.split list.split gen_call.split)

lemma heard_call:
  assumes "asked l \<noteq> []" "sound evs l"
  shows "heard evs' (call_listener now r l) = heard evs' l"
proof -
  have "phase l \<noteq> Not_Started" using assms by (auto simp: sound_def calls_kept_def)
  then show ?thesis by (simp add: heard_def call_keeps_start)
qed

lemma ask_kept:
  assumes "live_kept pick evs it" "\<not> awaited it" "begun it"
  shows "live_kept pick evs (ask_source (length evs) (it\<lparr> awaited := True \<rparr>))"
proof -
  note k = assms(1) [unfolded live_kept_def]
  have s: "sound evs (call_listener (length evs) Next_Call (source it))" using k by (intro sound_call) simp
  have a: "asked (source it) = replicate (seen it) Next_Call" using k assms(2) by simp
  have "take (seen it) (heard evs (call_listener (length evs) Next_Call (source it))) =
      take (seen it) (heard evs (source it))"
    using heard_call [of "source it" evs evs] k a by (cases "seen it") auto
  then show ?thesis
    using k s a assms(2,3) answers_call_more [of "source it" "length evs" Next_Call]
    by (simp add: live_kept_def ask_source_def replicate_append_same)
qed


lemma shown_next:
  "n < length xs \<Longrightarrow> List.map_filter pick (take (Suc n) xs) =
     List.map_filter pick (take n xs) @ (case pick (xs ! n) of None \<Rightarrow> [] | Some val \<Rightarrow> [val])"
  by (simp add: take_Suc_conv_app_nth map_filter_def split: option.split)

lemma tick_kept:
  assumes "live_kept pick evs it"
  shows "live_kept pick evs (live_tick pick (length evs) it)"
proof -
  note k = assms [unfolded live_kept_def]
  consider (source) "can_tick (source it)" | (answer) "\<not> can_tick (source it)" "seen it < length (answers (source it))"
    | (none) "\<not> can_tick (source it)" "\<not> seen it < length (answers (source it))" by blast
  then show ?thesis
  proof cases
    case source
    have "heard evs (tick (Live.source it)) = heard evs (Live.source it)" by (simp add: heard_def)
    then show ?thesis using k source answers_tick_more [of "Live.source it"] sound_tick
      by (auto simp: live_kept_def live_tick_def)
  next
    case answer
    have so: "sound evs (Live.source it)" "Return_Call \<notin> set (asked (Live.source it))" using k by simp_all
    note h = answers_heard [OF so answer(2)]
    have "length (answers (Live.source it)) \<le> length (asked (Live.source it))"
      using so(1) by (auto simp: sound_def calls_kept_def)
    then have w: "awaited it" using k answer(2) by (auto split: if_splits)
    have b: "begun it" using k w by auto
    show ?thesis
    proof (cases "pick (heard evs (Live.source it) ! seen it)")
      case (Some val)
      then show ?thesis using k answer h w b
        by (simp add: live_kept_def live_tick_def Let_def shown_next replicate_append_same)
    next
      case None
      let ?it = "it\<lparr> seen := Suc (seen it), awaited := False \<rparr>"
      have "live_kept pick evs ?it" using k answer h w b None
        by (simp add: live_kept_def shown_next replicate_append_same)
      moreover have "begun ?it" using b by simp
      ultimately have "live_kept pick evs (ask_source (length evs) (?it\<lparr> awaited := True \<rparr>))"
        by (intro ask_kept) simp_all
      moreover have "?it\<lparr> awaited := True \<rparr> = it\<lparr> seen := Suc (seen it) \<rparr>" using w by simp
      ultimately show ?thesis using answer h None by (simp add: live_tick_def Let_def)
    qed
  next
    case none
    then show ?thesis using assms by (simp add: live_tick_def)
  qed
qed

lemma hears_simps [simp]:
  "seen (hears evs it) = seen it" "shown (hears evs it) = shown it" "awaited (hears evs it) = awaited it"
  "begun (hears evs it) = begun it" "snapshot (hears evs it) = snapshot it" "broken (hears evs it) = broken it"
  by (simp_all add: hears_def)

lemma fold_notify [simp]:
  "asked (fold (\<lambda>(c, e). notify c e) evs l) = asked l" "answers (fold (\<lambda>(c, e). notify c e) evs l) = answers l"
  "opened_at (fold (\<lambda>(c, e). notify c e) evs l) = opened_at l" "channel (fold (\<lambda>(c, e). notify c e) evs l) = channel l"
  by (induction evs arbitrary: l) (auto split: prod.split)

lemma fold_notify_sound: "sound evs l \<Longrightarrow> sound (evs @ new) (fold (\<lambda>(c, e). notify c e) new l)"
proof (induction new arbitrary: evs l)
  case (Cons p new)
  obtain c e where p: "p = (c, e)" by (cases p)
  show ?case using Cons.IH [OF sound_notify [OF Cons.prems, of c e]] by (simp add: p)
qed simp

lemma hears_kept:
  assumes "live_kept pick evs it"
  shows "live_kept pick (evs @ new) (hears new it)"
proof -
  note k = assms [unfolded live_kept_def]
  have so: "sound evs (source it)" "Return_Call \<notin> set (asked (source it))" using k by simp_all
  have "take (seen it) (heard (evs @ new) (source it)) = take (seen it) (heard evs (source it))"
  proof (cases "seen it")
    case (Suc n)
    then have "seen it \<le> length (heard evs (source it))" using answers_heard(1) [OF so, of n] k by simp
    then show ?thesis using heard_prefix [of evs new "source it"] by auto
  qed simp
  moreover have "heard (evs @ new) (source (hears new it)) = heard (evs @ new) (source it)"
    by (simp add: heard_def hears_def)
  ultimately show ?thesis using k fold_notify_sound [of evs "source it" new]
    unfolding live_kept_def by (auto simp: hears_def)
qed

lemma live_run_kept:
  assumes "live_run env c d onlyId s"
  shows "live_kept (doc_update d onlyId) (dispatched (fst s)) (snd s)"
  using assms
proof induction
  case (created it w)
  then show ?case by (auto simp: getDoc_def bind_result_def new_live_def live_kept_def Events.listen_def sound_def
      event_kept_def calls_kept_def completed_kept_def listening_def map_filter_def split: sum.splits)
next
  case (next_value s)
  obtain w it where s: "s = (w, it)" by (cases s)
  note k = next_value.IH [unfolded s fst_conv snd_conv]
  show ?case
  proof (cases "awaited it \<or> broken it \<noteq> None \<or> begun it")
    case True
    then show ?thesis using k ask_kept [OF k] by (auto simp: s live_next_def)
  next
    case False
    then have e: "asked (source it) = []" "seen it = 0" using k by (auto simp: live_kept_def)
    have l: "live_kept (doc_update d onlyId) (dispatched w) (it\<lparr> begun := True, shown := xs, snapshot := xs \<rparr>)"
      "live_kept (doc_update d onlyId) (dispatched w) (it\<lparr> begun := True, broken := b \<rparr>)" for xs b
      using k e False by (auto simp: live_kept_def map_filter_def)
    obtain r v where r: "getDoc_once env c d onlyId w = (r, v)" by (cases "getDoc_once env c d onlyId w")
    show ?thesis
    proof (cases r)
      case (Inl err)
      then show ?thesis using False r l once_dispatched [OF r] by (simp add: s live_next_def)
    next
      case (Inr doc)
      show ?thesis using False r Inr l ask_kept [OF l(1)] once_dispatched [OF r]
        by (simp add: s live_next_def Let_def)
    qed
  qed
next
  case (reaction w it)
  then show ?case using tick_kept by simp
next
  case (engine w it v evs)
  then show ?case using hears_kept by simp
qed


lemma once_getLatest: "isTTID d \<Longrightarrow> getLatest env c d onlyId = getDoc_once env c d onlyId"
  by (rule ext) (simp add: getLatest_def getDoc_once_def bind_op_def seq_op_def validateDocId_def)

text \<open>A live iterator of the demonstration core on an empty collection waits; on a document it shows the snapshot.\<close>

lemma demo_getDoc: "getDoc ''users'' ''4VLN5QUCDP0'' = Inr (new_live ''users'')"
  using demo_storable(1) by (simp add: getDoc_def validateDocId_def)

lemma demo_live_waits:
  assumes "store_on_memory demo_core [''db''] ''users'' Map.empty Map.empty w"
  shows "\<exists>it. live_run demo_core ''users'' ''4VLN5QUCDP0'' False (w, it) \<and> awaited it \<and> \<not> live_due it"
proof -
  let ?d = "''4VLN5QUCDP0''" and ?it = "new_live ''users''"
  have once: "getDoc_once demo_core ''users'' ?d False w = (Inr (JObj []), w)"
    using mem_getLatest [OF demo_env assms demo_storable(1)] unfolding once_getLatest [OF demo_storable(1)] by simp
  let ?s = "live_next demo_core ''users'' ?d False (w, ?it)"
  have "live_run demo_core ''users'' ?d False ?s"
    by (rule live_run.next_value [OF live_run.created [OF demo_getDoc]])
  moreover have "fst ?s = w" "awaited (snd ?s)" "\<not> live_due (snd ?s)"
    using once by (simp_all add: live_next_def new_live_def first_value_def ask_source_def Events.listen_def Let_def
        call_listener_def listen_loop_def live_due_def can_tick_def)
  ultimately show ?thesis by (metis prod.collapse)
qed

lemma demo_live_shows:
  assumes "store_on_memory demo_core [''db''] ''users'' [''4VLN5QUCDP0'' \<mapsto> demo_doc] Map.empty w"
  shows "\<exists>it. live_run demo_core ''users'' ''4VLN5QUCDP0'' False (w, it) \<and> begun it \<and> \<not> awaited it \<and> broken it = None \<and>
    asked (source it) = [] \<and> snapshot it = [JObj [(''4VLN5QUCDP0'', JObj demo_doc)]]"
proof -
  let ?d = "''4VLN5QUCDP0''" and ?it = "new_live ''users''"
  have once: "getDoc_once demo_core ''users'' ?d False w = (Inr (JObj [(?d, JObj demo_doc)]), w)"
    using mem_getLatest [OF demo_env assms demo_storable(1)] unfolding once_getLatest [OF demo_storable(1)] by simp
  let ?s = "live_next demo_core ''users'' ?d False (w, ?it)"
  have "live_run demo_core ''users'' ?d False ?s"
    by (rule live_run.next_value [OF live_run.created [OF demo_getDoc]])
  moreover have "fst ?s = w" "begun (snd ?s)" "\<not> awaited (snd ?s)" "broken (snd ?s) = None" "asked (source (snd ?s)) = []"
    "snapshot (snd ?s) = [JObj [(?d, JObj demo_doc)]]"
    using once by (simp_all add: live_next_def new_live_def first_value_def Events.listen_def Let_def)
  ultimately show ?thesis by (metis prod.collapse)
qed

subsection \<open>What a consumer sees\<close>

text \<open>C16. The live iterator of a document shows what once() read, then exactly the updates of that document among the
  events of the collection since its loop began, in their order: those of the events it consumed, and all of them when
  it waits with no reaction due.\<close>

theorem live_values:
  assumes "live_run env c d onlyId (w, it)"
  shows "shown it = snapshot it @ List.map_filter (doc_update d onlyId) (take (seen it) (heard (dispatched w) (source it))) \<and>
    (awaited it \<and> \<not> live_due it \<longrightarrow>
       shown it = snapshot it @ List.map_filter (doc_update d onlyId) (heard (dispatched w) (source it)))"
proof -
  have k: "live_kept (doc_update d onlyId) (dispatched w) it" using live_run_kept [OF assms] by simp
  then have s: "sound (dispatched w) (source it)"
    and a: "asked (source it) = replicate (seen it + (if awaited it then 1 else 0)) Next_Call"
    and sh: "shown it = snapshot it @ List.map_filter (doc_update d onlyId) (take (seen it) (heard (dispatched w) (source it)))"
    and n: "seen it \<le> length (answers (source it))" by (simp_all add: live_kept_def)
  have "take (seen it) (heard (dispatched w) (source it)) = heard (dispatched w) (source it)"
    if "awaited it" "\<not> live_due it"
  proof -
    have r: "\<not> can_tick (source it)" "seen it = length (answers (source it))"
      using that(2) n by (auto simp: live_due_def)
    then have "length (answers (source it)) < length (asked (source it))" using a that(1) by simp
    then have "length (take (length (asked (source it))) (heard (dispatched w) (source it))) < length (asked (source it))"
      using at_rest_answers [OF s r(1)] a that(1) by (metis length_map length_replicate add_gr_0 less_numeral_extra(1)
        list.size(3) not_less_zero only_next)
    then have l: "length (heard (dispatched w) (source it)) < length (asked (source it))" by simp
    then show ?thesis using a that(1) by simp
  qed
  then show ?thesis using sh by auto
qed


theorem live_values_witness:
  "\<exists>w it. live_run demo_core ''users'' ''4VLN5QUCDP0'' False (w, it) \<and> awaited it \<and>
    shown it = snapshot it @ List.map_filter (doc_update ''4VLN5QUCDP0'' False) (heard (dispatched w) (source it))"
proof -
  obtain w where w: "store_on_memory demo_core [''db''] ''users'' Map.empty Map.empty w" using demo_store .
  obtain it where it: "live_run demo_core ''users'' ''4VLN5QUCDP0'' False (w, it)" "awaited it" "\<not> live_due it"
    using demo_live_waits [OF w] by blast
  from live_values [OF it(1)] it show ?thesis by blast
qed

lemma doc_update_insert:
  "doc_update d onlyId (insert_event ts d (JObj ob)) = Some (if onlyId then JStr d else JObj [(d, JObj ob)])"
  by (simp add: doc_update_def insert_event_def get_prop_def obj_get_def js_truthy_def)

text \<open>An iterator that waits with no reaction due has its source waiting for the wake-up.\<close>

lemma waiting_source:
  assumes "live_kept pick evs it" "awaited it" "\<not> live_due it"
  shows "phase (source it) = Awaiting" "calls (source it) = [Next_Call]" "queued (source it) = []"
    "seen it = length (answers (source it))"
proof -
  note k = assms(1) [unfolded live_kept_def]
  have r: "\<not> can_tick (source it)" "seen it = length (answers (source it))"
    using assms(3) k by (auto simp: live_due_def)
  have c: "calls_kept (source it)" and a: "asked (source it) = replicate (Suc (seen it)) Next_Call"
    using k assms(2) by (simp_all add: sound_def)
  have l: "length (calls (source it)) = 1" using c a r(2) by (simp add: calls_kept_def)
  then show p: "phase (source it) = Awaiting"
    using c a r(1) by (cases "phase (source it)") (auto simp: calls_kept_def can_tick_def)
  then show "calls (source it) = [Next_Call]" "queued (source it) = []"
    using c l by (cases "calls (source it)"; auto simp: calls_kept_def)+
  show "seen it = length (answers (source it))" by (rule r(2))
qed

text \<open>A matching event ends the wait in three reactions: the wake-up, the yield of the source, and that of the loop.\<close>

lemma update_reaches:
  assumes "live_kept pick evs it" "awaited it" "\<not> live_due it" "channel (source it) = c" "pick e = Some val"
  shows "shown ((live_tick pick now ^^ 3) (hears [(c, e)] it)) = shown it @ [val] \<and>
    \<not> awaited ((live_tick pick now ^^ 3) (hears [(c, e)] it))"
  using waiting_source [OF assms(1,2,3)] assms(2,4,5)
  by (simp add: hears_def notify_def listening_def live_tick_def can_tick_def tick_def listen_loop_def resume_yield_def
      eval_nat_numeral)

lemma live_channel: "live_run env c d onlyId s \<Longrightarrow> channel (source (snd s)) = c"
proof (induction rule: live_run.induct)
  case (created it w)
  then show ?case by (auto simp: getDoc_def bind_result_def new_live_def Events.listen_def split: sum.splits)
next
  case (next_value s)
  then show ?case by (auto simp: live_next_def ask_source_def call_keeps_start Let_def split: prod.splits sum.splits)
next
  case (reaction w it)
  then show ?case by (simp add: live_tick_def ask_source_def call_keeps_start Let_def split: gen_answer.split option.split)
next
  case (engine w it v evs)
  then show ?case by (simp add: hears_def)
qed

text \<open>C14. A write reaches the consumer that waits for it: when the live iterator of a document awaits a value with no
  reaction due and the engine puts the document, whatever the collection held before, the put succeeds and three
  reactions later the iterator yields the document as it was put.\<close>

theorem put_reaches_live:
  assumes "index_env env rs c" and "fs env = memory_ops" and "store_on_memory env rs c D T w"
    and "storable (digest env) d ob" and "T d = None" and "D d = None \<or> \<not> wormEnabled env"
    and "live_run env c d onlyId (w, it)" and "awaited it" and "\<not> live_due it"
  shows "\<exists>v event. putData env c (JObj [(d, JObj ob)]) JUndef w = (Inr d, v) \<and> dispatched v = dispatched w @ [(c, event)] \<and>
    (let it' = (live_tick (doc_update d onlyId) (length (dispatched v)) ^^ 3) (hears [(c, event)] it) in
     shown it' = shown it @ [if onlyId then JStr d else JObj [(d, JObj ob)]] \<and> \<not> awaited it')"
proof -
  have d: "isTTID d" using assms(4) by (simp add: storable_def)
  obtain v ts where v: "put_in_lane env c d (JObj ob) JUndef w = (Inr d, v)"
    "dispatched v = dispatched w @ [(c, insert_event ts d (JObj ob))]"
    using mem.put_accepted [OF assms(1-6)] by blast
  have "live_kept (doc_update d onlyId) (dispatched w) it" "channel (source it) = c"
    using live_run_kept [OF assms(7)] live_channel [OF assms(7)] by simp_all
  note r = update_reaches [OF this(1) assms(8,9) this(2) doc_update_insert [of d onlyId ts ob]]
  show ?thesis unfolding mem.putData_explicit [OF assms(1-3) d] Let_def
    by (intro exI conjI) (rule v(1), rule v(2), rule conjunct1 [OF r], rule conjunct2 [OF r])
qed

theorem put_reaches_live_witness:
  "\<exists>w it v event. live_run demo_core ''users'' ''4VLN5QUCDP0'' False (w, it) \<and>
    putData demo_core ''users'' (JObj [(''4VLN5QUCDP0'', JObj demo_doc)]) JUndef w = (Inr ''4VLN5QUCDP0'', v) \<and>
    shown ((live_tick (doc_update ''4VLN5QUCDP0'' False) (length (dispatched v)) ^^ 3) (hears [(''users'', event)] it)) =
      shown it @ [JObj [(''4VLN5QUCDP0'', JObj demo_doc)]]"
proof -
  obtain w where w: "store_on_memory demo_core [''db''] ''users'' Map.empty Map.empty w" using demo_store .
  obtain it where it: "live_run demo_core ''users'' ''4VLN5QUCDP0'' False (w, it)" "awaited it" "\<not> live_due it"
    using demo_live_waits [OF w] by blast
  note r = put_reaches_live [OF demo_env w demo_storable(2) _ _ it, unfolded Let_def if_False]
  show ?thesis using r it(1) by (metis (no_types, lifting))
qed

lemma unasked_source:
  assumes "calls_kept l" "asked l = []"
  shows "phase l = Not_Started" "queued l = []" "calls l = []" "answers l = []"
proof -
  have e: "calls l = []" "answers l = []" using assms by (auto simp: calls_kept_def)
  show p: "phase l = Not_Started"
  proof (rule ccontr)
    assume "phase l \<noteq> Not_Started"
    then have "phase l = At_Yield" using assms e by (simp add: calls_kept_def split: gen_phase.splits)
    then show False using assms e by (simp add: calls_kept_def)
  qed
  show "queued l = []" "calls l = []" "answers l = []" using assms(1) e p by (simp_all add: calls_kept_def)
qed

text \<open>C37. The live iterator misses what happens before its consumer comes back: while it is suspended at the snapshot it
  has not yet asked for events, so an update dispatched then is never shown; the next call waits, and shows the old
  value still to be the last.\<close>

theorem live_misses_update:
  assumes "live_run env c d onlyId (w, it)" and "begun it" and "\<not> awaited it" and "broken it = None"
    and "asked (source it) = []" and "dispatched v = dispatched w @ evs"
  shows "\<exists>it'. live_next env c d onlyId (v, hears evs it) = (v, it') \<and> awaited it' \<and> \<not> live_due it' \<and>
    shown it' = snapshot it \<and> heard (dispatched v) (source it') = []"
proof -
  have k: "live_kept (doc_update d onlyId) (dispatched w) it" using live_run_kept [OF assms(1)] by simp
  have p: "phase (source it) = Not_Started" "queued (source it) = []" "calls (source it) = []" "answers (source it) = []"
    using unasked_source [of "source it"] k assms(5) by (simp_all add: live_kept_def sound_def)
  have "replicate (seen it + (if awaited it then 1 else 0)) Next_Call = []"
    using k assms(5) unfolding live_kept_def by metis
  then have z: "seen it = 0" by simp
  moreover have "shown it = snapshot it" using k unfolding live_kept_def z by (simp add: map_filter_def)
  moreover have "fold (\<lambda>(c, e). notify c e) xs (source it) = source it" for xs
    using p by (induction xs) (auto simp: notify_def listening_def)
  then have h: "hears evs it = it" by (simp add: hears_def)
  moreover have "phase (call_listener n Next_Call (source it)) = Awaiting"
    "answers (call_listener n Next_Call (source it)) = []" "opened_at (call_listener n Next_Call (source it)) = n" for n
    using p by (simp_all add: call_listener_def Let_def listen_loop_def)
  ultimately show ?thesis using assms(2,3,4) unfolding h
    by (simp add: live_next_def ask_source_def live_due_def can_tick_def heard_def)
qed

theorem live_misses_update_witness:
  "\<exists>w it v it'. live_run demo_core ''users'' ''4VLN5QUCDP0'' False (w, it) \<and>
    putData demo_core ''users'' (JObj [(''4VLN5QUCDP0'', JObj [(''a'', JStr ''y'')])]) JUndef w = (Inr ''4VLN5QUCDP0'', v) \<and>
    live_next demo_core ''users'' ''4VLN5QUCDP0'' False (v, hears (drop (length (dispatched w)) (dispatched v)) it) = (v, it') \<and>
    awaited it' \<and> \<not> live_due it' \<and> shown it' = [JObj [(''4VLN5QUCDP0'', JObj demo_doc)]]"
proof -
  let ?d = "''4VLN5QUCDP0''" and ?new = "[(''a'', JStr ''y'')]"
  obtain w0 where w0: "store_on_memory demo_core [''db''] ''users'' Map.empty Map.empty w0" using demo_store .
  obtain w where w: "store_on_memory demo_core [''db''] ''users'' [?d \<mapsto> demo_doc] Map.empty w"
    using mem.put_accepted [OF demo_env w0 demo_storable(2)] by auto
  obtain it where it: "live_run demo_core ''users'' ?d False (w, it)" "begun it" "\<not> awaited it" "broken it = None"
    "asked (source it) = []" and s: "snapshot it = [JObj [(?d, JObj demo_doc)]]"
    using demo_live_shows [OF w] by blast
  have "is_ok (entriesForDocument (\<lambda>b. b) ?d ?new)" "doc_ok ?new" unfolding doc_ok_def by code_simp+
  then have new: "storable (digest demo_core) ?d ?new" using demo_storable(1) by (simp add: storable_def demo_core_def)
  obtain v ts where v: "put_in_lane demo_core ''users'' ?d (JObj ?new) JUndef w = (Inr ?d, v)"
    "dispatched v = dispatched w @ [(''users'', insert_event ts ?d (JObj ?new))]"
    using mem.put_accepted [OF demo_env w new _ disjI2 [OF demo_off]] by auto
  have "drop (length (dispatched w)) (dispatched v) = [(''users'', insert_event ts ?d (JObj ?new))]" by (simp add: v(2))
  with live_misses_update [OF it v(2)] s v(1) it(1) mem.putData_explicit [OF demo_env w demo_storable(1)]
  show ?thesis by metis
qed

end
