(* ===== verification/Worker.thy ===== *)
theory Worker imports Facade OverlayStore "HOL-Library.AList" "HOL-Library.Multiset" begin

section \<open>The runtime in the worker (src/src/browser/worker/runtime.js)\<close>

text \<open>
  One runtime serves many ports.  A message starts a call of \<open>handleWorkerMessage\<close>, which runs up to its first
  \<open>await\<close>; the rest is a task that runs later, in any order among the tasks.  A throw before the first await of a
  task is answered before the next message arrives, so it is answered at once.  What runs between two awaits of the
  runtime itself is one step: the operations of a core are whole.  Cores are objects, found by their key; all of them
  work on one host.  What the platform gives a new core is a parameter: the filesystem for a storage option (by the
  number of the core, as every core in memory has its own), the digest, the scanner factory and the code of the clock.
\<close>

subsection \<open>Messages\<close>

record envelope =
  env_id :: "string option"
  env_namespace :: "string option"
  env_instance :: "string option"
  env_type :: "string option"
  env_collection :: "string option"
  env_request :: jsval
  env_storage :: jsval
  env_root :: "string option"
  env_worm :: jsval
  env_wasm :: jsval

text \<open>A reply carries the identifier and the other fields; an event its namespace, collection and value.\<close>

datatype worker_message = Reply "string option" record_obj | Event_Message string string jsval

definition default_text :: "string \<Rightarrow> string option \<Rightarrow> string" where
  "default_text d v = (case v of None \<Rightarrow> d | Some s \<Rightarrow> s)"

definition given :: "string option \<Rightarrow> bool" where
  "given v = (v \<noteq> None \<and> v \<noteq> Some [])"

definition namespace_of :: "envelope \<Rightarrow> string" where
  "namespace_of e = default_text ''fylo'' (env_namespace e)"

definition coreKey :: "envelope \<Rightarrow> string" where
  "coreKey e = (if given (env_instance e) then namespace_of e @ '':'' @ the (env_instance e) else namespace_of e)"

definition subscription_key :: "string \<Rightarrow> string \<Rightarrow> string" where
  "subscription_key key collection = key @ '':'' @ collection"

subsection \<open>State\<close>

text \<open>A handler on the event bus of a core: its number, its collection, and the key and namespace it broadcasts under.\<close>

record handler =
  handler_id :: nat
  handler_collection :: string
  handler_key :: string
  handler_namespace :: string

record 'f core_object =
  object_core :: "'f core"
  object_world :: "'f world"
  handlers :: "handler list"
  next_handler :: nat

datatype task =
    Request_Task nat envelope nat
  | Ready_Task nat envelope nat
  | Close_Task nat envelope string "nat option"
  | Subscribe_Task nat envelope string nat
  | Answer_Task nat envelope

record 'f runtime =
  host :: 'f
  objects :: "'f core_object list"
  cores :: "string \<rightharpoonup> nat"
  subscriptions :: "(string \<times> nat list) list"
  coreSubscriptions :: "string \<rightharpoonup> nat \<times> nat"
  running :: "task list"
  posted :: "(nat \<times> worker_message) list"

record 'f platform =
  open_fs :: "nat \<Rightarrow> browser_storage \<Rightarrow> string \<Rightarrow> 'f fs_ops"
  platform_digest :: "bytes \<Rightarrow> bytes"
  wasm_factory :: "jsval \<Rightarrow> scanner_factory"
  platform_code :: "nat \<Rightarrow> string"
  platform_clock :: "nat \<Rightarrow> int"
  platform_elapsed :: f64

definition new_runtime :: "'f \<Rightarrow> 'f runtime" where
  "new_runtime d = \<lparr> host = d, objects = [], cores = Map.empty, subscriptions = [], coreSubscriptions = Map.empty,
     running = [], posted = [] \<rparr>"

subsection \<open>Cores\<close>

definition make_core :: "'f platform \<Rightarrow> nat \<Rightarrow> envelope \<Rightarrow> 'f core result" where
  "make_core plat n e =
     bind_result (normalizeBrowserStorage (if is_nullish (env_storage e) then JStr ''opfs'' else env_storage e)) (\<lambda>storage.
     Inr \<lparr> fs = open_fs plat n storage (namespace_of e), root = default_text ''/'' (env_root e),
       wormMode = (if is_nullish (env_worm e) then ''off''
         else case get_prop (env_worm e) ''mode'' of JStr m \<Rightarrow> m | _ \<Rightarrow> ''off''), digest = platform_digest plat,
       indexScannerFactory = (if js_truthy (env_wasm e) then Some (wasm_factory plat (env_wasm e)) else None),
       ttid_code = platform_code plat \<rparr>)"

definition runtime_core :: "'f platform \<Rightarrow> envelope \<Rightarrow> ('f runtime, nat) op" where
  "runtime_core plat e rt =
     (case cores rt (coreKey e) of
        Some n \<Rightarrow> (Inr n, rt)
      | None \<Rightarrow> (let n = length (objects rt) in
          case make_core plat n e of
            Inl err \<Rightarrow> (Inl err, rt)
          | Inr c \<Rightarrow> (Inr n, rt\<lparr>
              objects := objects rt @ [\<lparr> object_core = c, object_world = new_world (host rt) (platform_clock plat),
                handlers = [], next_handler = 0 \<rparr>],
              cores := (cores rt)(coreKey e \<mapsto> n) \<rparr>)))"

subsection \<open>Posting\<close>

definition post :: "nat \<Rightarrow> worker_message \<Rightarrow> 'f runtime \<Rightarrow> 'f runtime" where
  "post port message rt = rt\<lparr> posted := posted rt @ [(port, message)] \<rparr>"

definition post_done :: "nat \<Rightarrow> envelope \<Rightarrow> 'f runtime \<Rightarrow> 'f runtime" where
  "post_done port e = post port (Reply (env_id e) [(''ok'', JBool True), (''result'', JBool True)])"

definition failure_body :: "js_error \<Rightarrow> record_obj" where
  "failure_body err = [(''ok'', JBool False), (''error'', JObj [
     (''name'', JStr (if err_name err = [] then ''Error'' else err_name err)),
     (''message'', JStr (if err_message err = [] then ''Unknown error'' else err_message err))])]"

definition post_failure :: "nat \<Rightarrow> envelope \<Rightarrow> js_error \<Rightarrow> 'f runtime \<Rightarrow> 'f runtime" where
  "post_failure port e err = post port (Reply (env_id e) (failure_body err))"

definition ports_of :: "string \<Rightarrow> 'f runtime \<Rightarrow> nat list" where
  "ports_of key rt = (case map_of (subscriptions rt) key of None \<Rightarrow> [] | Some ps \<Rightarrow> ps)"

definition broadcast :: "string \<Rightarrow> string \<Rightarrow> string \<Rightarrow> jsval \<Rightarrow> 'f runtime \<Rightarrow> 'f runtime" where
  "broadcast key namespace collection event rt =
     fold (\<lambda>port. post port (Event_Message namespace collection event)) (ports_of key rt) rt"

text \<open>The events an operation dispatched reach the handlers of its core, in the order they were added.\<close>

definition deliver_event :: "handler list \<Rightarrow> string \<times> jsval \<Rightarrow> 'f runtime \<Rightarrow> 'f runtime" where
  "deliver_event hs p = fold (\<lambda>h. if handler_collection h = fst p
     then broadcast (handler_key h) (handler_namespace h) (handler_collection h) (snd p) else id) hs"

text \<open>An operation of the core with number \<open>n\<close>: it works on the shared host, and its events are broadcast.\<close>

definition on_core :: "nat \<Rightarrow> ('f core \<Rightarrow> ('f world, 'a) op) \<Rightarrow> ('f runtime, 'a) op" where
  "on_core n m rt =
     (let ob = objects rt ! n; w = (object_world ob)\<lparr> disk := host rt \<rparr> in
      case m (object_core ob) w of (r, v) \<Rightarrow>
        (r, fold (deliver_event (handlers ob)) (drop (length (dispatched w)) (dispatched v))
              (rt\<lparr> host := disk v, objects := (objects rt)[n := ob\<lparr> object_world := v \<rparr>] \<rparr>)))"

subsection \<open>Subscriptions\<close>

text \<open>A \<open>Set\<close> keeps its members in the order they were added.\<close>

definition set_add :: "'a \<Rightarrow> 'a list \<Rightarrow> 'a list" where
  "set_add x xs = (if x \<in> set xs then xs else xs @ [x])"

definition add_port :: "string \<Rightarrow> nat \<Rightarrow> 'f runtime \<Rightarrow> 'f runtime" where
  "add_port key port rt = rt\<lparr> subscriptions := AList.update key (set_add port (ports_of key rt)) (subscriptions rt) \<rparr>"

definition add_handler :: "nat \<Rightarrow> string \<Rightarrow> string \<Rightarrow> string \<Rightarrow> 'f runtime \<Rightarrow> 'f runtime" where
  "add_handler n collection key namespace rt =
     (let ob = objects rt ! n in
      rt\<lparr> objects := (objects rt)[n := ob\<lparr> handlers := handlers ob @ [\<lparr> handler_id = next_handler ob,
            handler_collection = collection, handler_key = key, handler_namespace = namespace \<rparr>],
            next_handler := Suc (next_handler ob) \<rparr>],
          coreSubscriptions := (coreSubscriptions rt)(key \<mapsto> (n, next_handler ob)) \<rparr>)"

definition drop_key :: "string \<Rightarrow> 'f runtime \<Rightarrow> 'f runtime" where
  "drop_key key rt =
     (let rt' = rt\<lparr> subscriptions := AList.delete key (subscriptions rt),
            coreSubscriptions := (coreSubscriptions rt)(key := None) \<rparr> in
      case coreSubscriptions rt key of
        None \<Rightarrow> rt'
      | Some (n, i) \<Rightarrow> (let ob = objects rt ! n in
          rt'\<lparr> objects := (objects rt)[n := ob\<lparr> handlers := filter (\<lambda>h. handler_id h \<noteq> i) (handlers ob) \<rparr>] \<rparr>))"

definition runtime_unsubscribe :: "nat \<Rightarrow> envelope \<Rightarrow> 'f runtime \<Rightarrow> 'f runtime" where
  "runtime_unsubscribe port e rt =
     (case env_collection e of
        None \<Rightarrow> rt
      | Some collection \<Rightarrow> if collection = [] then rt else
          (let key = subscription_key (coreKey e) collection in
           case map_of (subscriptions rt) key of
             None \<Rightarrow> rt
           | Some ps \<Rightarrow> (let ps' = remove1 port ps; rt' = rt\<lparr> subscriptions := AList.update key ps' (subscriptions rt) \<rparr> in
               if ps' = [] then drop_key key rt' else rt')))"

text \<open>What \<open>closeCore\<close> does after the core has closed: every subscription below the key of the core goes.\<close>

definition closed_keys :: "string \<Rightarrow> 'f runtime \<Rightarrow> string list" where
  "closed_keys key rt = filter (starts_with (key @ '':'')) (map fst (subscriptions rt))"

definition drop_subscriptions :: "string \<Rightarrow> 'f runtime \<Rightarrow> 'f runtime" where
  "drop_subscriptions key rt = fold drop_key (closed_keys key rt) rt"

subsection \<open>Messages arrive\<close>

text \<open>A call of \<open>handleWorkerMessage\<close> up to its first await: a throw before it is answered at once.\<close>

definition start_task :: "task \<Rightarrow> 'f runtime \<Rightarrow> 'f runtime" where
  "start_task t rt = rt\<lparr> running := running rt @ [t] \<rparr>"

definition with_core :: "'f platform \<Rightarrow> nat \<Rightarrow> envelope \<Rightarrow> (nat \<Rightarrow> task) \<Rightarrow> 'f runtime \<Rightarrow> 'f runtime" where
  "with_core plat port e k rt =
     (case runtime_core plat e rt of
        (Inl err, rt') \<Rightarrow> post_failure port e err rt'
      | (Inr n, rt') \<Rightarrow> start_task (k n) rt')"

definition receive_subscribe :: "'f platform \<Rightarrow> nat \<Rightarrow> envelope \<Rightarrow> 'f runtime \<Rightarrow> 'f runtime" where
  "receive_subscribe plat port e rt =
     (if \<not> given (env_collection e)
      then post_failure port e (plain_error ''FYLO worker subscribe requires collection'') rt
      else (let key = subscription_key (coreKey e) (the (env_collection e)); rt' = add_port key port rt in
        if coreSubscriptions rt key = None then with_core plat port e (Subscribe_Task port e key) rt'
        else start_task (Answer_Task port e) rt'))"

definition receive_message :: "'f platform \<Rightarrow> nat \<Rightarrow> envelope \<Rightarrow> 'f runtime \<Rightarrow> 'f runtime" where
  "receive_message plat port e rt =
     (if env_type e = Some ''close'' then
        (if \<not> given (env_instance e) then start_task (Answer_Task port e) rt
         else start_task (Close_Task port e (coreKey e) (cores rt (coreKey e)))
                (rt\<lparr> cores := (cores rt)(coreKey e := None) \<rparr>))
      else if env_type e = Some ''ready'' then with_core plat port e (Ready_Task port e) rt
      else if env_type e = Some ''subscribe'' then receive_subscribe plat port e rt
      else if env_type e = Some ''unsubscribe'' then post_done port e (runtime_unsubscribe port e rt)
      else if \<not> js_truthy (env_request e)
      then post_failure port e (plain_error ''FYLO worker request envelope is missing request'') rt
      else with_core plat port e (Request_Task port e) rt)"

subsection \<open>Tasks continue\<close>

definition answer :: "nat \<Rightarrow> envelope \<Rightarrow> 'a result \<times> 'f runtime \<Rightarrow> ('a \<Rightarrow> 'f runtime \<Rightarrow> 'f runtime) \<Rightarrow> 'f runtime" where
  "answer port e outcome k = (case outcome of (Inl err, rt) \<Rightarrow> post_failure port e err rt | (Inr x, rt) \<Rightarrow> k x rt)"

definition run_task :: "'f platform \<Rightarrow> task \<Rightarrow> 'f runtime \<Rightarrow> 'f runtime" where
  "run_task plat t rt = (case t of
      Answer_Task port e \<Rightarrow> post_done port e rt
    | Ready_Task port e n \<Rightarrow> answer port e (on_core n index_ready rt) (\<lambda>_. post_done port e)
    | Close_Task port e key target \<Rightarrow>
        answer port e (case target of None \<Rightarrow> (Inr (), rt) | Some n \<Rightarrow> on_core n (\<lambda>_. index_close) rt)
          (\<lambda>_ rt'. post_done port e (drop_subscriptions key rt'))
    | Subscribe_Task port e key n \<Rightarrow>
        answer port e (on_core n (\<lambda>c. seq_op (index_ready c) (of_result (validateCollectionName (the (env_collection e))))) rt)
          (\<lambda>_ rt'. post_done port e (add_handler n (the (env_collection e)) key (namespace_of e) rt'))
    | Request_Task port e n \<Rightarrow>
        answer port e (on_core n (\<lambda>c. seq_op (index_ready c)
            (runBrowserRequest (core_api c (platform_elapsed plat)) (env_request e))) rt)
          (\<lambda>response. post port (Reply (env_id e) (fields_of response))))"

definition continue_task :: "'f platform \<Rightarrow> nat \<Rightarrow> 'f runtime \<Rightarrow> 'f runtime" where
  "continue_task plat i rt =
     run_task plat (running rt ! i) (rt\<lparr> running := take i (running rt) @ drop (Suc i) (running rt) \<rparr>)"


subsection \<open>Runs\<close>

lemma map_same_update: "f y = f (xs ! n) \<Longrightarrow> map f (xs[n := y]) = map f xs"
  by (metis list_update_id map_update)

datatype runtime_action = Receive nat envelope | Continue nat

definition runtime_act :: "'f platform \<Rightarrow> runtime_action \<Rightarrow> 'f runtime \<Rightarrow> 'f runtime" where
  "runtime_act plat act rt = (case act of
      Receive port e \<Rightarrow> receive_message plat port e rt
    | Continue i \<Rightarrow> if i < length (running rt) then continue_task plat i rt else rt)"

definition run_runtime :: "'f platform \<Rightarrow> runtime_action list \<Rightarrow> 'f runtime \<Rightarrow> 'f runtime" where
  "run_runtime plat = fold (runtime_act plat)"

definition received :: "runtime_action list \<Rightarrow> (nat \<times> string option) list" where
  "received acts = concat (map (\<lambda>a. case a of Receive port e \<Rightarrow> [(port, env_id e)] | Continue _ \<Rightarrow> []) acts)"

definition replies :: "(nat \<times> worker_message) list \<Rightarrow> (nat \<times> string option) list" where
  "replies ms = concat (map (\<lambda>(port, m). case m of Reply i _ \<Rightarrow> [(port, i)] | _ \<Rightarrow> []) ms)"

fun task_call :: "task \<Rightarrow> nat \<times> string option" where
  "task_call (Request_Task port e n) = (port, env_id e)"
| "task_call (Ready_Task port e n) = (port, env_id e)"
| "task_call (Close_Task port e key target) = (port, env_id e)"
| "task_call (Subscribe_Task port e key n) = (port, env_id e)"
| "task_call (Answer_Task port e) = (port, env_id e)"

text \<open>Every call of the runtime, in flight or answered.\<close>

definition owed :: "'f runtime \<Rightarrow> (nat \<times> string option) multiset" where
  "owed rt = mset (map task_call (running rt)) + mset (replies (posted rt))"

lemma replies_simps [simp]:
  "replies [] = []" "replies (xs @ ys) = replies xs @ replies ys"
  "replies ((port, Reply i b) # ms) = (port, i) # replies ms" "replies ((port, Event_Message n c v) # ms) = replies ms"
  by (simp_all add: replies_def)

text \<open>What leaves the calls as they are.\<close>

definition same_calls :: "'f runtime \<Rightarrow> 'f runtime \<Rightarrow> bool" where
  "same_calls rt rt' \<longleftrightarrow> running rt' = running rt \<and> replies (posted rt') = replies (posted rt)"

lemma same_calls_refl [simp]: "same_calls rt rt"
  and same_calls_trans: "same_calls a b \<Longrightarrow> same_calls b c \<Longrightarrow> same_calls a c"
  by (simp_all add: same_calls_def)

lemma same_calls_owed: "same_calls rt rt' \<Longrightarrow> owed rt' = owed rt"
  by (simp add: same_calls_def owed_def)

lemma same_calls_fold: "(\<And>x r. same_calls r (f x r)) \<Longrightarrow> same_calls rt (fold f xs rt)"
  by (induction xs arbitrary: rt) (auto intro: same_calls_trans)

lemma same_calls_post: "same_calls rt (post port (Event_Message n c v) rt)"
  by (simp add: same_calls_def post_def)

lemma same_calls_broadcast: "same_calls rt (broadcast key n c v rt)"
  unfolding broadcast_def by (rule same_calls_fold) (rule same_calls_post)

lemma same_calls_deliver: "same_calls rt (deliver_event hs p rt)"
  unfolding deliver_event_def by (rule same_calls_fold) (simp add: same_calls_broadcast)

lemma same_calls_on_core: "on_core n m rt = (r, rt') \<Longrightarrow> same_calls rt rt'"
  by (auto simp: on_core_def Let_def split: prod.splits intro!: same_calls_trans [OF _ same_calls_fold [OF same_calls_deliver]])
    (simp add: same_calls_def)

lemma same_calls_subscriptions:
  "same_calls rt (add_port key port rt)" "same_calls rt (add_handler n c key ns rt)" "same_calls rt (drop_key key rt)"
  by (simp_all add: same_calls_def add_port_def add_handler_def drop_key_def Let_def split: option.split prod.split)

lemma same_calls_drop: "same_calls rt (drop_subscriptions key rt)"
  unfolding drop_subscriptions_def by (rule same_calls_fold) (rule same_calls_subscriptions)

lemma same_calls_unsubscribe: "same_calls rt (runtime_unsubscribe port e rt)"
proof -
  have u: "same_calls rt (rt\<lparr> subscriptions := x \<rparr>)" for x by (simp add: same_calls_def)
  then have "same_calls rt (drop_key key (rt\<lparr> subscriptions := x \<rparr>))" for key x
    by (rule same_calls_trans) (rule same_calls_subscriptions)
  with u show ?thesis by (simp add: runtime_unsubscribe_def Let_def split: option.split)
qed

lemma same_calls_core: "runtime_core plat e rt = (r, rt') \<Longrightarrow> same_calls rt rt'"
  by (auto simp: runtime_core_def Let_def same_calls_def split: option.splits sum.splits)

lemmas owed_kept [simp] = same_calls_owed [OF same_calls_subscriptions(1)] same_calls_owed [OF same_calls_subscriptions(2)]
  same_calls_owed [OF same_calls_drop] same_calls_owed [OF same_calls_unsubscribe]

lemma owed_post [simp]: "owed (post port (Reply i b) rt) = add_mset (port, i) (owed rt)"
  by (simp add: owed_def post_def)

lemma owed_answers [simp]:
  "owed (post_done port e rt) = add_mset (port, env_id e) (owed rt)"
  "owed (post_failure port e err rt) = add_mset (port, env_id e) (owed rt)"
  by (simp_all add: post_done_def post_failure_def)

lemma owed_start [simp]: "owed (start_task t rt) = add_mset (task_call t) (owed rt)"
  by (simp add: owed_def start_task_def)

lemma owed_with_core:
  assumes "\<And>n. task_call (k n) = (port, env_id e)"
  shows "owed (with_core plat port e k rt) = add_mset (port, env_id e) (owed rt)"
  using same_calls_core [of plat e rt]
  by (auto simp: with_core_def assms same_calls_owed split: prod.split sum.split)

lemma owed_receive: "owed (receive_message plat port e rt) = add_mset (port, env_id e) (owed rt)"
proof -
  have c: "owed (rt\<lparr> cores := x \<rparr>) = owed rt" for x by (simp add: owed_def)
  have "owed (receive_subscribe plat port e rt) = add_mset (port, env_id e) (owed rt)"
    by (simp add: receive_subscribe_def Let_def owed_with_core)
  then show ?thesis by (simp add: receive_message_def owed_with_core c)
qed

lemma owed_answer:
  assumes "same_calls rt (snd outcome)" "\<And>x r. owed (k x r) = add_mset (port, env_id e) (owed r)"
  shows "owed (answer port e outcome k) = add_mset (port, env_id e) (owed rt)"
  using assms same_calls_owed [OF assms(1)] by (auto simp: answer_def split: prod.split sum.split)

lemma owed_run_task: "owed (run_task plat t rt) = add_mset (task_call t) (owed rt)"
proof -
  have core: "same_calls rt (snd (on_core n m rt))" for n and m :: "'a core \<Rightarrow> ('a world, 'b) op"
    by (rule same_calls_on_core [of n m rt "fst (on_core n m rt)"]) simp
  show ?thesis
  proof (cases t)
    case (Close_Task port e key target)
    then show ?thesis
      using core by (auto simp: run_task_def intro!: owed_answer split: option.split)
  qed (auto simp: run_task_def intro!: owed_answer core)
qed

lemma owed_continue:
  assumes "i < length (running rt)"
  shows "owed (continue_task plat i rt) = owed rt"
proof -
  let ?rest = "take i (running rt) @ drop (Suc i) (running rt)"
  have "mset (running rt) = add_mset (running rt ! i) (mset ?rest)"
    using assms by (metis id_take_nth_drop union_mset_add_mset_right mset.simps(2) mset_append)
  then have "mset (map task_call (running rt)) = add_mset (task_call (running rt ! i)) (mset (map task_call ?rest))"
    by (metis image_mset_add_mset mset_map)
  then have "owed rt = add_mset (task_call (running rt ! i)) (owed (rt\<lparr> running := ?rest \<rparr>))" by (simp add: owed_def)
  then show ?thesis by (simp add: continue_task_def owed_run_task)
qed

text \<open>A task starts no other.\<close>

lemma running_answer:
  assumes "same_calls rt (snd outcome)" "\<And>x r. running (k x r) = running r"
  shows "running (answer port e outcome k) = running rt"
  using assms by (auto simp: answer_def same_calls_def post_failure_def post_def split: prod.split sum.split)

lemma running_continue: "running (continue_task plat i rt) = take i (running rt) @ drop (Suc i) (running rt)"
proof -
  have core: "same_calls r (snd (on_core n m r))" for n r and m :: "'a core \<Rightarrow> ('a world, 'b) op"
    by (rule same_calls_on_core [of n m r "fst (on_core n m r)"]) simp
  have p: "running (post_done port e r) = running r" "running (post port m r) = running r" for port e m and r :: "'a runtime"
    by (simp_all add: post_done_def post_def)
  have "running (run_task plat t r) = running r" for t and r :: "'a runtime"
    by (cases t) (auto simp: run_task_def p intro!: running_answer core split: option.split
        simp: same_calls_drop [unfolded same_calls_def] same_calls_subscriptions [unfolded same_calls_def])
  then show ?thesis by (simp add: continue_task_def)
qed

lemma owed_run: "owed (run_runtime plat acts rt) = owed rt + mset (received acts)"
proof (induction acts arbitrary: rt)
  case (Cons act acts)
  have "owed (runtime_act plat act rt) = owed rt + mset (received [act])"
    by (cases act) (simp_all add: runtime_act_def received_def owed_receive owed_continue)
  then show ?case using Cons.IH [of "runtime_act plat act rt"] by (simp add: run_runtime_def received_def)
qed (simp add: run_runtime_def received_def)

lemma drained: "n = length (running rt) \<Longrightarrow>
    running ((continue_task plat 0 ^^ n) rt) = [] \<and> owed ((continue_task plat 0 ^^ n) rt) = owed rt"
proof (induction n arbitrary: rt)
  case (Suc n)
  then have "0 < length (running rt)" by (metis zero_less_Suc)
  moreover from this Suc.prems have "length (running (continue_task plat 0 rt)) = n" by (simp add: running_continue)
  ultimately show ?case
    using Suc.IH [of "continue_task plat 0 rt"] owed_continue [of 0 rt plat] by (simp add: funpow_swap1 del: length_greater_0_conv)
qed simp

text \<open>The runtime answers every message exactly once, to the port it came from and with its identifier: after any
  messages in any order and any interleaving of the tasks they started, failures included, running the tasks that
  are left ends, and the replies posted are, counted with multiplicity, those that were asked for.\<close>

theorem worker_answers_once:
  "let rt = run_runtime plat acts (new_runtime d); done = (continue_task plat 0 ^^ length (running rt)) rt in
   running done = [] \<and> mset (replies (posted done)) = mset (received acts)"
proof -
  let ?rt = "run_runtime plat acts (new_runtime d)"
  let ?done = "(continue_task plat 0 ^^ length (running ?rt)) ?rt"
  have "owed ?rt = mset (received acts)" by (simp add: owed_run) (simp add: owed_def new_runtime_def)
  then have "running ?done = []" "owed ?done = mset (received acts)" using drained [of "length (running ?rt)" ?rt plat] by simp_all
  then show ?thesis by (simp add: Let_def owed_def)
qed


subsection \<open>Subscriptions race\<close>

lemma index_ready_ok: "\<exists>v. index_ready c w = (Inr (), v) \<and> dispatched v = dispatched w"
  using index_ready_run [of c w] by (auto simp: same_state_def)

text \<open>A task that waits to subscribe finds its core ready and adds its handler.\<close>

lemma subscribe_task_runs:
  assumes "env_collection e = Some c" "validateCollectionName c = Inr u" "n < length (objects rt)"
  shows "\<exists>rt'. run_task plat (Subscribe_Task port e key n) rt = post_done port e (add_handler n c key (namespace_of e) rt') \<and>
    length (objects rt') = length (objects rt) \<and> handlers (objects rt' ! n) = handlers (objects rt ! n) \<and>
    subscriptions rt' = subscriptions rt \<and> running rt' = running rt \<and> posted rt' = posted rt"
proof -
  obtain v where v: "index_ready (object_core (objects rt ! n)) ((object_world (objects rt ! n))\<lparr> disk := host rt \<rparr>) = (Inr (), v)"
    "dispatched v = dispatched (object_world (objects rt ! n))"
    using index_ready_ok [of "object_core (objects rt ! n)" "(object_world (objects rt ! n))\<lparr> disk := host rt \<rparr>"] by auto
  let ?rt = "rt\<lparr> host := disk v, objects := (objects rt)[n := (objects rt ! n)\<lparr> object_world := v \<rparr>] \<rparr>"
  have "run_task plat (Subscribe_Task port e key n) rt = post_done port e (add_handler n c key (namespace_of e) ?rt)"
    using assms v by (simp add: run_task_def answer_def on_core_def Let_def seq_op_def bind_op_def of_result_def)
  moreover have "handlers (objects ?rt ! n) = handlers (objects rt ! n)" using assms(3) by simp
  ultimately show ?thesis by (intro exI [of _ ?rt]) simp
qed

definition both_subscribed :: "'f platform \<Rightarrow> nat \<Rightarrow> nat \<Rightarrow> envelope \<Rightarrow> envelope \<Rightarrow> 'f \<Rightarrow> 'f runtime" where
  "both_subscribed plat p q e e' d = run_runtime plat [Receive p e, Receive q e', Continue 0, Continue 0] (new_runtime d)"

text \<open>C36. Two pages that subscribe to a collection at the same time both get every event twice: the second message arrives
  while the first task awaits its core and finds no handler of the core yet, so each of them adds one, and each
  handler broadcasts to both ports.\<close>

theorem concurrent_subscribers_doubled:
  assumes "env_type e = Some ''subscribe''" and "env_type e' = Some ''subscribe''" and "coreKey e' = coreKey e"
    and "env_collection e = Some c" and "env_collection e' = Some c" and "validateCollectionName c = Inr u" and "c \<noteq> []"
    and "make_core plat 0 e = Inr k" and "p \<noteq> q"
  shows "let rt = both_subscribed plat p q e e' d;
             m = Event_Message (namespace_of e) c event; m' = Event_Message (namespace_of e') c event in
    posted (deliver_event (handlers (objects rt ! 0)) (c, event) rt) = posted rt @ [(p, m), (q, m), (p, m'), (q, m')]"
proof -
  let ?key = "subscription_key (coreKey e) c"
  let ?r2 = "run_runtime plat [Receive p e, Receive q e'] (new_runtime d)"
  let ?ob = "\<lparr> object_core = k, object_world = new_world d (platform_clock plat), handlers = [], next_handler = 0 \<rparr>"
  have r2: "running ?r2 = [Subscribe_Task p e ?key 0, Subscribe_Task q e' ?key 0]" "objects ?r2 = [?ob]"
    "subscriptions ?r2 = [(?key, [p, q])]" "posted ?r2 = []"
    using assms by (simp_all add: run_runtime_def runtime_act_def receive_message_def receive_subscribe_def given_def
        Let_def with_core_def runtime_core_def new_runtime_def add_port_def set_add_def ports_of_def start_task_def)
  let ?a = "?r2\<lparr> running := [Subscribe_Task q e' ?key 0] \<rparr>"
  obtain a where a: "run_task plat (Subscribe_Task p e ?key 0) ?a = post_done p e (add_handler 0 c ?key (namespace_of e) a)"
    "length (objects a) = 1" "handlers (objects a ! 0) = []" "subscriptions a = [(?key, [p, q])]"
    "running a = [Subscribe_Task q e' ?key 0]" "posted a = []"
    using subscribe_task_runs [OF assms(4,6), of 0 ?a plat p ?key] r2 by auto
  let ?b = "post_done p e (add_handler 0 c ?key (namespace_of e) a)"
  obtain h where b: "handlers (objects ?b ! 0) = [h]" "handler_collection h = c" "handler_key h = ?key"
    "handler_namespace h = namespace_of e" "length (objects ?b) = 1" "subscriptions ?b = [(?key, [p, q])]"
    "running ?b = [Subscribe_Task q e' ?key 0]"
    using a(2-) by (simp add: post_done_def post_def add_handler_def Let_def)
  obtain b where b': "run_task plat (Subscribe_Task q e' ?key 0) (?b\<lparr> running := [] \<rparr>) =
      post_done q e' (add_handler 0 c ?key (namespace_of e') b)"
    "length (objects b) = 1" "handlers (objects b ! 0) = [h]" "subscriptions b = [(?key, [p, q])]"
    using subscribe_task_runs [OF assms(5,6), of 0 "?b\<lparr> running := [] \<rparr>" plat q ?key] b by auto
  have rt: "both_subscribed plat p q e e' d = post_done q e' (add_handler 0 c ?key (namespace_of e') b)"
    using r2 a(1) b(7) b'(1) by (simp add: both_subscribed_def run_runtime_def runtime_act_def continue_task_def)
  show ?thesis unfolding rt using b b'
    by (simp add: Let_def post_done_def post_def add_handler_def deliver_event_def broadcast_def ports_of_def)
qed


definition demo_platform :: "memory_fs platform" where
  "demo_platform = \<lparr> open_fs = (\<lambda>_ _ _. memory_ops), platform_digest = (\<lambda>b. b),
     wasm_factory = (\<lambda>_. \<lparr> factory_ready = Inr (), factory_create = Inr (), scanner_load = (\<lambda>_. Inr ()),
       scanner_scan = (\<lambda>_ _ _. Inr []) \<rparr>),
     platform_code = (\<lambda>_. ''4VLN5QUCDP0''), platform_clock = (\<lambda>_. 0), platform_elapsed = 0 \<rparr>"

definition demo_envelope :: envelope where
  "demo_envelope = \<lparr> env_id = Some ''0-1'', env_namespace = None, env_instance = None, env_type = Some ''subscribe'',
     env_collection = Some ''users'', env_request = JUndef, env_storage = JStr ''memory'', env_root = None,
     env_worm = JUndef, env_wasm = JUndef \<rparr>"

lemma demo_make_core: "\<exists>k. make_core demo_platform 0 demo_envelope = Inr k"
proof -
  have "normalizeBrowserStorage (JStr ''memory'') = Inr MemoryStorage" by code_simp
  then show ?thesis by (simp add: make_core_def demo_envelope_def is_nullish_def)
qed

theorem concurrent_subscribers_doubled_witness:
  "length (filter (\<lambda>p. p = (1, Event_Message ''fylo'' ''users'' JNull))
    (posted (deliver_event (handlers (objects (both_subscribed demo_platform 1 2 demo_envelope demo_envelope (new_memory_fs 0)) ! 0))
      (''users'', JNull) (both_subscribed demo_platform 1 2 demo_envelope demo_envelope (new_memory_fs 0))))) \<ge> 2"
proof -
  obtain k where k: "make_core demo_platform 0 demo_envelope = Inr k" using demo_make_core by blast
  have v: "validateCollectionName ''users'' = Inr ()" by code_simp
  have e: "env_type demo_envelope = Some ''subscribe''" "env_collection demo_envelope = Some ''users''"
    "namespace_of demo_envelope = ''fylo''" by (simp_all add: demo_envelope_def namespace_of_def default_text_def)
  show ?thesis
    using concurrent_subscribers_doubled [OF e(1,1) refl e(2,2) v _ k, of 1 2 "new_memory_fs 0" JNull] by (simp add: Let_def e(3))
qed

end
