(* ===== verification/WorkerOrder.thy ===== *)
theory WorkerOrder imports Worker begin

section \<open>Subscriptions one after the other (src/src/browser/worker/runtime.js)\<close>

text \<open>
  The runtime keeps, for a core and a collection, the ports that subscribed and the one handler it added to the event
  bus.  This theory states what ties these books together and shows that they stay so as long as no two messages
  subscribe to the same key at the same time.
\<close>

text \<open>
  The runs in which no message to subscribe arrives while a task waits to subscribe to the same key, and no core is
  closed.
\<close>

definition subscribing :: "string \<Rightarrow> 'f runtime \<Rightarrow> bool" where
  "subscribing key rt = (\<exists>p e n. Subscribe_Task p e key n \<in> set (running rt))"

inductive orderly :: "'f platform \<Rightarrow> 'f runtime \<Rightarrow> bool" for plat where
  initial: "orderly plat (new_runtime d)"
| receive: "orderly plat rt \<Longrightarrow> env_type e \<noteq> Some ''close'' \<Longrightarrow>
    (env_type e = Some ''subscribe'' \<Longrightarrow> \<not> subscribing (subscription_key (coreKey e) (the (env_collection e))) rt) \<Longrightarrow>
    orderly plat (receive_message plat p e rt)"
| continue: "orderly plat rt \<Longrightarrow> i < length (running rt) \<Longrightarrow> orderly plat (continue_task plat i rt)"

text \<open>
  A handler is the one its key remembers and belongs to the core of its key; a task that waits to subscribe is the only
  one of its key, and its key has no handler yet; the ports of a key are distinct.
\<close>

definition handlers_kept :: "'f runtime \<Rightarrow> bool" where
  "handlers_kept rt \<longleftrightarrow> (\<forall>n < length (objects rt).
     distinct (map handler_id (handlers (objects rt ! n))) \<and>
     (\<forall>h \<in> set (handlers (objects rt ! n)). handler_id h < next_handler (objects rt ! n) \<and>
        coreSubscriptions rt (handler_key h) = Some (n, handler_id h)))"

definition remembered_kept :: "'f runtime \<Rightarrow> bool" where
  "remembered_kept rt \<longleftrightarrow> (\<forall>key n i. coreSubscriptions rt key = Some (n, i) \<longrightarrow> n < length (objects rt) \<and>
        (\<exists>h \<in> set (handlers (objects rt ! n)). handler_id h = i \<and> handler_key h = key))"

definition keys_kept :: "'f runtime \<Rightarrow> bool" where
  "keys_kept rt \<longleftrightarrow> (\<forall>key n. cores rt key = Some n \<longrightarrow> n < length (objects rt)) \<and> inj_on (cores rt) (dom (cores rt)) \<and>
     (\<forall>n < length (objects rt). \<exists>key. cores rt key = Some n \<and>
        (\<forall>h \<in> set (handlers (objects rt ! n)). handler_key h = subscription_key key (handler_collection h)))"

definition waiting_task :: "'f runtime \<Rightarrow> task \<Rightarrow> bool" where
  "waiting_task rt t = (case t of
      Subscribe_Task p e key n \<Rightarrow> coreSubscriptions rt key = None \<and> cores rt (coreKey e) = Some n \<and>
        key = subscription_key (coreKey e) (the (env_collection e))
    | Close_Task p e key target \<Rightarrow> False
    | Request_Task p e n \<Rightarrow> n < length (objects rt)
    | Ready_Task p e n \<Rightarrow> n < length (objects rt)
    | Answer_Task p e \<Rightarrow> True)"

fun task_keys :: "task \<Rightarrow> string list" where
  "task_keys (Subscribe_Task p e key n) = [key]"
| "task_keys t = []"

definition subscriptions_kept :: "'f runtime \<Rightarrow> bool" where
  "subscriptions_kept rt \<longleftrightarrow> handlers_kept rt \<and> remembered_kept rt \<and> keys_kept rt \<and> (\<forall>t \<in> set (running rt). waiting_task rt t) \<and>
     distinct (concat (map task_keys (running rt))) \<and> (\<forall>key. distinct (ports_of key rt))"

text \<open>What an operation of a core leaves: the books on subscriptions.\<close>

definition same_books :: "'f runtime \<Rightarrow> 'f runtime \<Rightarrow> bool" where
  "same_books rt rt' \<longleftrightarrow> cores rt' = cores rt \<and> subscriptions rt' = subscriptions rt \<and>
     coreSubscriptions rt' = coreSubscriptions rt \<and> running rt' = running rt \<and>
     map handlers (objects rt') = map handlers (objects rt) \<and> map next_handler (objects rt') = map next_handler (objects rt)"

lemma same_books_refl [simp]: "same_books rt rt"
  and same_books_trans: "same_books a b \<Longrightarrow> same_books b c \<Longrightarrow> same_books a c"
  by (simp_all add: same_books_def)

lemma same_books_fold: "(\<And>x r. same_books r (f x r)) \<Longrightarrow> same_books rt (fold f xs rt)"
  by (induction xs arbitrary: rt) (auto intro: same_books_trans)

lemma same_books_post: "same_books rt (post port m rt)"
  by (simp add: same_books_def post_def)

lemma same_books_deliver: "same_books rt (deliver_event hs p rt)"
  unfolding deliver_event_def broadcast_def by (rule same_books_fold) (simp add: same_books_fold same_books_post)

lemma same_books_on_core: "on_core n m rt = (r, rt') \<Longrightarrow> same_books rt rt'"
  by (auto simp: on_core_def Let_def split: prod.splits intro!: same_books_trans [OF _ same_books_fold [OF same_books_deliver]])
    (simp add: same_books_def map_same_update)

lemma same_books_kept:
  assumes "same_books rt rt'" "subscriptions_kept rt"
  shows "subscriptions_kept rt'"
proof -
  note b = assms(1) [unfolded same_books_def]
  have l: "length (objects rt') = length (objects rt)" using b by (metis length_map)
  have h: "handlers (objects rt' ! n) = handlers (objects rt ! n)" "next_handler (objects rt' ! n) = next_handler (objects rt ! n)"
    if "n < length (objects rt)" for n using b l that by (metis nth_map)+
  have w: "waiting_task rt' t = waiting_task rt t" for t using b l by (simp add: waiting_task_def split: task.split)
  have "handlers_kept rt' = handlers_kept rt" using b l h by (simp add: handlers_kept_def)
  moreover have "remembered_kept rt' = remembered_kept rt" using b l h(1)
    by (simp add: remembered_kept_def cong: conj_cong)
  moreover have "keys_kept rt' = keys_kept rt" using b l h by (simp add: keys_kept_def)
  moreover have "ports_of key rt' = ports_of key rt" for key using b by (simp add: ports_of_def)
  ultimately show ?thesis using assms(2) b w by (simp add: subscriptions_kept_def)
qed


lemma kept_parts: "subscriptions_kept rt \<Longrightarrow> handlers_kept rt" "subscriptions_kept rt \<Longrightarrow> keys_kept rt"
  "subscriptions_kept rt \<Longrightarrow> remembered_kept rt"
  "subscriptions_kept rt \<Longrightarrow> t \<in> set (running rt) \<Longrightarrow> waiting_task rt t"
  "subscriptions_kept rt \<Longrightarrow> distinct (concat (map task_keys (running rt)))" "subscriptions_kept rt \<Longrightarrow> distinct (ports_of key rt)"
  by (simp_all add: subscriptions_kept_def)

lemma subscribing_keys: "subscribing key rt \<longleftrightarrow> key \<in> set (concat (map task_keys (running rt)))"
proof -
  have "key \<in> set (task_keys t) \<longleftrightarrow> (\<exists>p e n. t = Subscribe_Task p e key n)" for t by (cases t) auto
  then show ?thesis by (auto simp: subscribing_def)
qed

text \<open>The parts that only look at ports or at tasks.\<close>

lemma kept_ports:
  assumes "subscriptions_kept rt" "\<And>key. distinct (ports_of key (rt\<lparr> subscriptions := x \<rparr>))"
  shows "subscriptions_kept (rt\<lparr> subscriptions := x \<rparr>)"
proof -
  have "waiting_task (rt\<lparr> subscriptions := x \<rparr>) t = waiting_task rt t" for t by (simp add: waiting_task_def split: task.split)
  then show ?thesis using assms by (simp add: subscriptions_kept_def handlers_kept_def remembered_kept_def keys_kept_def)
qed

lemma kept_running:
  assumes "subscriptions_kept rt" "\<And>t. t \<in> set ts \<Longrightarrow> waiting_task rt t" "distinct (concat (map task_keys ts))"
  shows "subscriptions_kept (rt\<lparr> running := ts \<rparr>)"
proof -
  have "waiting_task (rt\<lparr> running := ts \<rparr>) t = waiting_task rt t" for t by (simp add: waiting_task_def split: task.split)
  then show ?thesis using assms by (simp add: subscriptions_kept_def handlers_kept_def remembered_kept_def keys_kept_def ports_of_def)
qed

lemma kept_start:
  assumes "subscriptions_kept rt" "waiting_task rt t" "\<And>k. k \<in> set (task_keys t) \<Longrightarrow> \<not> subscribing k rt"
  shows "subscriptions_kept (start_task t rt)"
proof -
  have "distinct (task_keys t)" by (cases t) auto
  then show ?thesis using assms kept_parts(4,5) [OF assms(1)]
    unfolding start_task_def by (intro kept_running) (auto simp: subscribing_keys)
qed

lemma kept_remove_task:
  assumes "subscriptions_kept rt" "i < length (running rt)"
  shows "subscriptions_kept (rt\<lparr> running := take i (running rt) @ drop (Suc i) (running rt) \<rparr>)"
    "key \<in> set (task_keys (running rt ! i)) \<Longrightarrow>
       \<not> subscribing key (rt\<lparr> running := take i (running rt) @ drop (Suc i) (running rt) \<rparr>)"
proof -
  have r: "running rt = take i (running rt) @ running rt ! i # drop (Suc i) (running rt)" using assms(2) by (rule id_take_nth_drop)
  have d: "distinct (concat (map task_keys (take i (running rt) @ running rt ! i # drop (Suc i) (running rt))))"
    using kept_parts(5) [OF assms(1)] r by simp
  show "subscriptions_kept (rt\<lparr> running := take i (running rt) @ drop (Suc i) (running rt) \<rparr>)"
    by (rule kept_running [OF assms(1)])
      (use kept_parts(4) [OF assms(1)] d in \<open>auto dest: in_set_takeD in_set_dropD\<close>)
  show "key \<in> set (task_keys (running rt ! i)) \<Longrightarrow>
       \<not> subscribing key (rt\<lparr> running := take i (running rt) @ drop (Suc i) (running rt) \<rparr>)"
    using d by (auto simp: subscribing_keys)
qed

lemma ports_add_port [simp]: "ports_of k (add_port key p rt) = (if k = key then set_add p (ports_of key rt) else ports_of k rt)"
  by (simp add: ports_of_def add_port_def update_conv')

lemma kept_add_port: "subscriptions_kept rt \<Longrightarrow> subscriptions_kept (add_port key p rt)"
  using kept_parts(6) [of rt] ports_add_port [of _ key p rt] unfolding add_port_def
  by (intro kept_ports) (auto simp: set_add_def)

lemma kept_core:
  assumes "runtime_core plat e rt = (r, rt')" "subscriptions_kept rt"
  shows "subscriptions_kept rt'" "r = Inr n \<Longrightarrow> cores rt' (coreKey e) = Some n \<and> n < length (objects rt')"
    "running rt' = running rt" "coreSubscriptions rt' = coreSubscriptions rt"
proof -
  have k: "handlers_kept rt" "keys_kept rt" "remembered_kept rt" using assms(2) by (simp_all add: subscriptions_kept_def)
  have "subscriptions_kept rt' \<and> (r = Inr n \<longrightarrow> cores rt' (coreKey e) = Some n \<and> n < length (objects rt')) \<and>
    running rt' = running rt \<and> coreSubscriptions rt' = coreSubscriptions rt"
  proof (cases "\<exists>m. cores rt (coreKey e) = Some m \<or> (\<exists>err. make_core plat (length (objects rt)) e = Inl err)")
    case True
    then show ?thesis using assms k(2)
      by (auto simp: runtime_core_def Let_def keys_kept_def split: option.splits sum.splits)
  next
    case False
    then obtain c where none: "cores rt (coreKey e) = None" and c: "make_core plat (length (objects rt)) e = Inr c"
      by (metis not_None_eq sum.exhaust)
    let ?n = "length (objects rt)"
    let ?ob = "\<lparr> object_core = c, object_world = new_world (host rt) (platform_clock plat), handlers = [], next_handler = 0 \<rparr>"
    have rt': "rt' = rt\<lparr> objects := objects rt @ [?ob], cores := (cores rt)(coreKey e \<mapsto> ?n) \<rparr>" "r = Inr ?n"
      using assms(1) none c by (auto simp: runtime_core_def Let_def)
    have "handlers_kept rt'" using k(1) by (auto simp: rt' handlers_kept_def nth_append less_Suc_eq)
    moreover have "remembered_kept rt'" using k(3) by (fastforce simp: rt' remembered_kept_def nth_append)
    moreover have "keys_kept rt'"
    proof -
      have "inj_on (cores rt') (dom (cores rt'))"
        using k(2) unfolding keys_kept_def rt' by (auto simp: inj_on_def dom_def) (metis less_irrefl)+
      moreover have "\<forall>m < length (objects rt'). \<exists>key. cores rt' key = Some m \<and>
          (\<forall>h \<in> set (handlers (objects rt' ! m)). handler_key h = subscription_key key (handler_collection h))"
      proof (intro allI impI)
        fix m assume "m < length (objects rt')"
        then consider "m < ?n" | "m = ?n" by (auto simp: rt' less_Suc_eq)
        then show "\<exists>key. cores rt' key = Some m \<and>
          (\<forall>h \<in> set (handlers (objects rt' ! m)). handler_key h = subscription_key key (handler_collection h))"
        proof cases
          case 1
          then obtain key where "cores rt key = Some m"
            "\<forall>h \<in> set (handlers (objects rt ! m)). handler_key h = subscription_key key (handler_collection h)"
            using k(2) by (auto simp: keys_kept_def)
          moreover from this none have "key \<noteq> coreKey e" by auto
          ultimately show ?thesis using 1 by (intro exI [of _ key]) (simp add: rt' nth_append)
        qed (auto simp: rt')
      qed
      moreover have "\<forall>key m. cores rt' key = Some m \<longrightarrow> m < length (objects rt')"
        using k(2) by (auto simp: rt' keys_kept_def less_SucI)
      ultimately show ?thesis unfolding keys_kept_def by blast
    qed
    moreover have "waiting_task rt t \<Longrightarrow> waiting_task rt' t" for t
      using none by (auto simp: waiting_task_def rt' split: task.split)
    ultimately show ?thesis using assms(2) by (simp add: subscriptions_kept_def ports_of_def) (simp add: rt')
  qed
  then show "subscriptions_kept rt'" "r = Inr n \<Longrightarrow> cores rt' (coreKey e) = Some n \<and> n < length (objects rt')"
    "running rt' = running rt" "coreSubscriptions rt' = coreSubscriptions rt" by auto
qed


text \<open>A handler is added for a key that has none, and removed with its key.\<close>

lemma kept_add_handler:
  assumes k: "subscriptions_kept rt" and none: "coreSubscriptions rt key = None" "\<not> subscribing key rt"
    and n: "cores rt K = Some n" "key = subscription_key K c"
  shows "subscriptions_kept (add_handler n c key ns rt)"
proof -
  let ?rt = "add_handler n c key ns rt" and ?ob = "objects rt ! n"
  note hk = kept_parts(1) [OF k, unfolded handlers_kept_def] and kk = kept_parts(2) [OF k, unfolded keys_kept_def]
    and rk = kept_parts(3) [OF k, unfolded remembered_kept_def]
  have nl: "n < length (objects rt)" using kk n(1) by blast
  have obs: "length (objects ?rt) = length (objects rt)" "\<And>m. m \<noteq> n \<Longrightarrow> objects ?rt ! m = objects rt ! m"
    "handlers (objects ?rt ! n) = handlers ?ob @ [\<lparr> handler_id = next_handler ?ob, handler_collection = c,
        handler_key = key, handler_namespace = ns \<rparr>]" "next_handler (objects ?rt ! n) = Suc (next_handler ?ob)"
    using nl by (simp_all add: add_handler_def Let_def)
  have cs: "coreSubscriptions ?rt = (coreSubscriptions rt)(key \<mapsto> (n, next_handler ?ob))" "cores ?rt = cores rt"
    "running ?rt = running rt" "subscriptions ?rt = subscriptions rt" by (simp_all add: add_handler_def Let_def)
  have other: "handler_key h \<noteq> key" if "m < length (objects rt)" "h \<in> set (handlers (objects rt ! m))" for m h
    using hk that none(1) by fastforce
  have "remembered_kept ?rt"
    unfolding remembered_kept_def obs(1)
  proof (intro allI impI)
    fix k' m i assume e: "coreSubscriptions ?rt k' = Some (m, i)"
    show "m < length (objects rt) \<and> (\<exists>h \<in> set (handlers (objects ?rt ! m)). handler_id h = i \<and> handler_key h = k')"
    proof (cases "k' = key")
      case True
      then have "m = n" "next_handler ?ob = i" using e by (auto simp: cs)
      then show ?thesis using True nl by (simp add: obs(3))
    next
      case False
      then show ?thesis using e rk by (cases "m = n") (fastforce simp: cs obs)+
    qed
  qed
  moreover have "handlers_kept ?rt"
    unfolding handlers_kept_def obs(1)
  proof (intro allI impI)
    fix m assume m: "m < length (objects rt)"
    show "distinct (map handler_id (handlers (objects ?rt ! m))) \<and>
     (\<forall>h \<in> set (handlers (objects ?rt ! m)). handler_id h < next_handler (objects ?rt ! m) \<and>
        coreSubscriptions ?rt (handler_key h) = Some (m, handler_id h))"
    proof (cases "m = n")
      case True
      have "\<forall>h \<in> set (handlers ?ob). handler_id h < next_handler ?ob" using hk m True by blast
      then have "next_handler ?ob \<notin> handler_id ` set (handlers ?ob)" by force
      then show ?thesis using hk m other [OF m] True by (auto simp: obs cs less_SucI)
    next
      case False
      then show ?thesis using hk m other [OF m] by (auto simp: obs cs)
    qed
  qed
  moreover have "keys_kept ?rt"
    unfolding keys_kept_def obs(1) cs(2)
  proof (intro conjI)
    show "\<forall>m < length (objects rt). \<exists>k. cores rt k = Some m \<and>
        (\<forall>h \<in> set (handlers (objects ?rt ! m)). handler_key h = subscription_key k (handler_collection h))"
    proof (intro allI impI)
      fix m assume m: "m < length (objects rt)"
      obtain k where k: "cores rt k = Some m"
        "\<forall>h \<in> set (handlers (objects rt ! m)). handler_key h = subscription_key k (handler_collection h)"
        using kk m by blast
      have "k = K" if "m = n" using kk k(1) n(1) that by (auto simp: inj_on_def dom_def)
      then have "\<forall>h \<in> set (handlers (objects ?rt ! m)). handler_key h = subscription_key k (handler_collection h)"
      proof (cases "m = n")
        case True
        then show ?thesis using k(2) n(2) \<open>m = n \<Longrightarrow> k = K\<close> unfolding True obs(3) by auto
      next
        case False
        show ?thesis unfolding obs(2) [OF False] by (rule k(2))
      qed
      then show "\<exists>k. cores rt k = Some m \<and>
        (\<forall>h \<in> set (handlers (objects ?rt ! m)). handler_key h = subscription_key k (handler_collection h))"
        using k(1) by blast
    qed
  qed (use kk in auto)
  moreover have "\<forall>t \<in> set (running ?rt). waiting_task ?rt t"
  proof
    fix t assume t: "t \<in> set (running ?rt)"
    then have w: "waiting_task rt t" using kept_parts(4) [OF k] cs(3) by simp
    have "task_keys t \<noteq> [key]" using t none(2) cs(3) by (auto simp: subscribing_keys)
    then show "waiting_task ?rt t" using w by (cases t) (auto simp: waiting_task_def cs obs(1))
  qed
  ultimately show ?thesis using k by (simp add: subscriptions_kept_def cs ports_of_def)
qed

lemma kept_drop_key:
  assumes k: "subscriptions_kept rt"
  shows "subscriptions_kept (drop_key key rt)"
proof -
  let ?rt = "drop_key key rt"
  note hk = kept_parts(1) [OF k, unfolded handlers_kept_def] and kk = kept_parts(2) [OF k, unfolded keys_kept_def]
    and rk = kept_parts(3) [OF k, unfolded remembered_kept_def]
  have cs: "coreSubscriptions ?rt = (coreSubscriptions rt)(key := None)" "cores ?rt = cores rt" "running ?rt = running rt"
    "subscriptions ?rt = AList.delete key (subscriptions rt)" "length (objects ?rt) = length (objects rt)"
    by (simp_all add: drop_key_def Let_def split: option.split prod.split)
  have obs: "handlers (objects ?rt ! m) = filter (\<lambda>h. handler_key h \<noteq> key) (handlers (objects rt ! m)) \<and>
      next_handler (objects ?rt ! m) = next_handler (objects rt ! m)" if m: "m < length (objects rt)" for m
  proof (cases "coreSubscriptions rt key")
    case None
    then have "filter (\<lambda>h. handler_key h \<noteq> key) (handlers (objects rt ! m)) = handlers (objects rt ! m)"
      using hk m by (intro filter_True) fastforce
    then show ?thesis using None by (simp add: drop_key_def Let_def)
  next
    case (Some q)
    obtain n i where q: "q = (n, i)" by (cases q)
    have d: "distinct (map handler_id (handlers (objects rt ! m)))"
      "\<And>h. h \<in> set (handlers (objects rt ! m)) \<Longrightarrow> coreSubscriptions rt (handler_key h) = Some (m, handler_id h)"
      using hk m by auto
    have e: "filter (\<lambda>h. handler_key h \<noteq> key) (handlers (objects rt ! m)) =
        (if m = n then filter (\<lambda>h. handler_id h \<noteq> i) (handlers (objects rt ! m)) else handlers (objects rt ! m))"
    proof (cases "m = n")
      case True
      have "handler_key h \<noteq> key \<longleftrightarrow> handler_id h \<noteq> i" if "h \<in> set (handlers (objects rt ! m))" for h
      proof -
        obtain h' where "h' \<in> set (handlers (objects rt ! n))" "handler_id h' = i" "handler_key h' = key"
          using rk Some q by blast
        moreover have "inj_on handler_id (set (handlers (objects rt ! m)))" using d(1) by (simp add: distinct_map)
        ultimately have "handler_id h = i \<Longrightarrow> handler_key h = key" using that True by (metis inj_onD)
        moreover have "handler_key h = key \<Longrightarrow> handler_id h = i" using d(2) [OF that] Some q by simp
        ultimately show ?thesis by blast
      qed
      then show ?thesis using True by (simp cong: filter_cong)
    next
      case False
      then have "handler_key h \<noteq> key" if "h \<in> set (handlers (objects rt ! m))" for h
        using d(2) [OF that] Some q by auto
      then show ?thesis using False by (simp cong: filter_cong)
    qed
    show ?thesis using Some q m e by (cases "m = n") (simp_all add: drop_key_def Let_def)
  qed
  have "handlers_kept ?rt" using hk obs by (auto simp: handlers_kept_def cs distinct_map_filter)
  moreover have "remembered_kept ?rt"
    unfolding remembered_kept_def cs(1,5)
  proof (intro allI impI)
    fix k' m i assume "((coreSubscriptions rt)(key := None)) k' = Some (m, i)"
    then have "k' \<noteq> key" "coreSubscriptions rt k' = Some (m, i)" by (auto split: if_splits)
    then show "m < length (objects rt) \<and> (\<exists>h \<in> set (handlers (objects ?rt ! m)). handler_id h = i \<and> handler_key h = k')"
      using rk obs by fastforce
  qed
  moreover have "keys_kept ?rt" using kk obs by (fastforce simp: keys_kept_def cs)
  moreover have "waiting_task rt t \<Longrightarrow> waiting_task ?rt t" for t by (cases t) (auto simp: waiting_task_def cs)
  then have "\<forall>t \<in> set (running ?rt). waiting_task ?rt t" using kept_parts(4) [OF k] by (simp add: cs)
  moreover have "ports_of x ?rt = (if x = key then [] else ports_of x rt)" for x
    by (simp add: ports_of_def cs delete_conv')
  ultimately show ?thesis using k by (simp add: subscriptions_kept_def cs)
qed


lemma kept_same: "subscriptions_kept rt \<Longrightarrow> subscriptions_kept (post port m rt)"
  by (rule same_books_kept [OF same_books_post])

lemma kept_posts: "subscriptions_kept rt \<Longrightarrow> subscriptions_kept (post_done port e rt)"
  "subscriptions_kept rt \<Longrightarrow> subscriptions_kept (post_failure port e err rt)"
  by (simp_all add: post_done_def post_failure_def kept_same)

lemma kept_with_core:
  fixes rt :: "'f runtime"
  assumes "subscriptions_kept rt"
    and "\<And>n (rt' :: 'f runtime). subscriptions_kept rt' \<Longrightarrow> cores rt' (coreKey e) = Some n \<Longrightarrow> n < length (objects rt') \<Longrightarrow>
      coreSubscriptions rt' = coreSubscriptions rt \<Longrightarrow> waiting_task rt' (k n)"
    and "\<And>n key. key \<in> set (task_keys (k n)) \<Longrightarrow> \<not> subscribing key rt"
  shows "subscriptions_kept (with_core plat port e k rt)"
proof -
  obtain r rt' where r: "runtime_core plat e rt = (r, rt')" by (cases "runtime_core plat e rt")
  note c = kept_core [OF r assms(1)]
  show ?thesis
  proof (cases r)
    case (Inl err)
    then show ?thesis using r c(1) by (simp add: with_core_def kept_posts)
  next
    case (Inr n)
    have "subscribing key rt' = subscribing key rt" for key using c(3) by (simp add: subscribing_def)
    then show ?thesis using r c(2) [OF Inr] c(1,4) assms(2,3) Inr
      by (simp add: with_core_def kept_start)
  qed
qed

lemma kept_unsubscribe: "subscriptions_kept rt \<Longrightarrow> subscriptions_kept (runtime_unsubscribe port e rt)"
proof -
  assume k: "subscriptions_kept rt"
  have u: "subscriptions_kept (rt\<lparr> subscriptions := AList.update key (remove1 port ps) (subscriptions rt) \<rparr>)"
    if "map_of (subscriptions rt) key = Some ps" for key ps
  proof (rule kept_ports [OF k])
    have "distinct ps" using kept_parts(6) [OF k, of key] that by (simp add: ports_of_def)
    then show "distinct (ports_of x (rt\<lparr> subscriptions := AList.update key (remove1 port ps) (subscriptions rt) \<rparr>))" for x
      using kept_parts(6) [OF k, of x] by (simp add: ports_of_def update_conv')
  qed
  have "subscriptions_kept (drop_key key (rt\<lparr> subscriptions := AList.update key [] (subscriptions rt) \<rparr>))"
    if "map_of (subscriptions rt) key = Some ps" "remove1 port ps = []" for key ps
    using kept_drop_key [OF u [OF that(1)]] that(2) by simp
  then show ?thesis using k u by (auto simp: runtime_unsubscribe_def Let_def split: option.split)
qed

lemma kept_receive:
  assumes k: "subscriptions_kept rt" and no: "env_type e \<noteq> Some ''close''"
    and free: "env_type e = Some ''subscribe'' \<Longrightarrow> \<not> subscribing (subscription_key (coreKey e) (the (env_collection e))) rt"
  shows "subscriptions_kept (receive_message plat p e rt)"
proof -
  let ?key = "subscription_key (coreKey e) (the (env_collection e))"
  have ready: "subscriptions_kept (with_core plat p e (Ready_Task p e) rt)"
    "subscriptions_kept (with_core plat p e (Request_Task p e) rt)"
    by (rule kept_with_core [OF k]; simp add: waiting_task_def)+
  have "subscriptions_kept (receive_subscribe plat p e rt)" if "env_type e = Some ''subscribe''"
  proof -
    have a: "subscriptions_kept (add_port ?key p rt)" "coreSubscriptions (add_port ?key p rt) = coreSubscriptions rt"
      "subscribing x (add_port ?key p rt) = subscribing x rt" for x
      using kept_add_port [OF k] by (simp_all add: add_port_def subscribing_def)
    have "subscriptions_kept (with_core plat p e (Subscribe_Task p e ?key) (add_port ?key p rt))"
      if "coreSubscriptions rt ?key = None"
      using that free \<open>env_type e = Some ''subscribe''\<close> by (intro kept_with_core [OF a(1)]) (simp_all add: waiting_task_def a)
    moreover have "subscriptions_kept (start_task (Answer_Task p e) (add_port ?key p rt))"
      by (rule kept_start [OF a(1)]) (simp_all add: waiting_task_def)
    ultimately show ?thesis using k by (simp add: receive_subscribe_def Let_def kept_posts)
  qed
  then show ?thesis using k no ready
    by (simp add: receive_message_def kept_posts kept_unsubscribe)
qed

lemma kept_continue:
  fixes rt :: "'a runtime"
  assumes k: "subscriptions_kept rt" and i: "i < length (running rt)"
  shows "subscriptions_kept (continue_task plat i rt)"
proof -
  let ?rt = "rt\<lparr> running := take i (running rt) @ drop (Suc i) (running rt) \<rparr>"
  note r = kept_remove_task [OF k i]
  have w: "waiting_task rt (running rt ! i)" using kept_parts(4) [OF k] i by simp
  have core: "subscriptions_kept (snd (on_core n m ?rt))" for n and m :: "'a core \<Rightarrow> ('a world, 'b) op"
    by (rule same_books_kept [OF same_books_on_core [of n m ?rt "fst (on_core n m ?rt)"] r(1)]) simp
  have ans: "subscriptions_kept (answer p e (on_core n m ?rt) c)"
    if "\<And>x (rt' :: 'a runtime). same_books ?rt rt' \<Longrightarrow> subscriptions_kept rt' \<Longrightarrow> subscriptions_kept (c x rt')"
    for p e n c and m :: "'a core \<Rightarrow> ('a world, 'b) op"
    using that core [of n m] same_books_on_core [of n m ?rt]
    by (auto simp: answer_def kept_posts split: prod.split sum.split)
  show ?thesis
  proof (cases "running rt ! i")
    case (Subscribe_Task p e key n)
    then have s: "coreSubscriptions ?rt key = None" "cores ?rt (coreKey e) = Some n"
      "key = subscription_key (coreKey e) (the (env_collection e))" "\<not> subscribing key ?rt"
      using w r(2) by (auto simp: waiting_task_def)
    show ?thesis using Subscribe_Task s
      by (auto simp: continue_task_def run_task_def intro!: ans kept_posts kept_add_handler
          simp: same_books_def subscribing_def)
  next
    case (Close_Task p e key target)
    then show ?thesis using w by (simp add: waiting_task_def)
  qed (auto simp: continue_task_def run_task_def intro!: ans kept_posts kept_same r(1))
qed

lemma orderly_kept: "orderly plat rt \<Longrightarrow> subscriptions_kept rt"
proof (induction rule: orderly.induct)
  case (initial d)
  then show ?case
    by (simp add: subscriptions_kept_def handlers_kept_def remembered_kept_def keys_kept_def new_runtime_def ports_of_def)
qed (simp_all add: kept_receive kept_continue)

lemma fold_some: "fold (\<lambda>x. if P x then f x else id) xs = fold f (filter P xs)"
  by (induction xs) auto

lemma posted_broadcast: "posted (broadcast key ns c v rt) = posted rt @ map (\<lambda>p. (p, Event_Message ns c v)) (ports_of key rt)"
proof -
  have "posted (fold (\<lambda>p. post p m) ps r) = posted r @ map (\<lambda>p. (p, m)) ps" for ps m and r :: "'a runtime"
    by (induction ps arbitrary: r) (simp_all add: post_def)
  then show ?thesis by (simp add: broadcast_def)
qed

text \<open>C19. When no message to subscribe arrives while another one for the same key is still waiting, and no core is closed,
  an event of a core is posted at most once to a port, only to ports subscribed to its collection, and to every one
  of them once the collection has its handler.\<close>

theorem each_event_once:
  assumes "orderly plat rt" and "cores rt key = Some n"
  shows "\<exists>ms. posted (deliver_event (handlers (objects rt ! n)) (c, event) rt) = posted rt @ ms \<and> distinct (map fst ms) \<and>
    (\<forall>p m. (p, m) \<in> set ms \<longrightarrow> p \<in> set (ports_of (subscription_key key c) rt) \<and> (\<exists>ns. m = Event_Message ns c event)) \<and>
    ((\<exists>h \<in> set (handlers (objects rt ! n)). handler_collection h = c) \<longrightarrow>
       map fst ms = ports_of (subscription_key key c) rt)"
proof -
  let ?hs = "filter (\<lambda>h. handler_collection h = c) (handlers (objects rt ! n))"
  have k: "subscriptions_kept rt" by (rule orderly_kept [OF assms(1)])
  note hk = kept_parts(1) [OF k, unfolded handlers_kept_def] and kk = kept_parts(2) [OF k, unfolded keys_kept_def]
  have n: "n < length (objects rt)" using kk assms(2) by blast
  obtain key' where "cores rt key' = Some n"
    "\<forall>h \<in> set (handlers (objects rt ! n)). handler_key h = subscription_key key' (handler_collection h)" using kk n by blast
  moreover from this(1) assms(2) kk have "key' = key" by (auto simp: inj_on_def dom_def)
  ultimately have keys: "handler_key h = subscription_key key c" if "h \<in> set ?hs" for h using that by auto
  have rem: "coreSubscriptions rt (subscription_key key c) = Some (n, handler_id h)" if "h \<in> set ?hs" for h
  proof -
    have "coreSubscriptions rt (handler_key h) = Some (n, handler_id h)" using hk n that by simp
    then show ?thesis using keys [OF that] by simp
  qed
  have "handler_id h = handler_id h'" if "h \<in> set ?hs" "h' \<in> set ?hs" for h h'
    using rem [OF that(1)] rem [OF that(2)] by simp
  then have "\<exists>i. handler_id ` set ?hs \<subseteq> {i}" by blast
  then have "card (set (map handler_id ?hs)) \<le> 1" by (metis card.empty card_insert_disjoint card_mono empty_iff finite.emptyI
      finite.insertI One_nat_def set_map)
  moreover have "distinct (map handler_id ?hs)" using hk n by (simp add: distinct_map_filter)
  ultimately have "length ?hs \<le> 1" by (metis distinct_card length_map)
  then consider "?hs = []" | h where "?hs = [h]" by (cases ?hs) auto
  then show ?thesis
  proof cases
    case 1
    then show ?thesis by (intro exI [of _ "[]"]) (auto simp: deliver_event_def fold_some filter_empty_conv)
  next
    case 2
    let ?ms = "map (\<lambda>p. (p, Event_Message (handler_namespace h) c event)) (ports_of (subscription_key key c) rt)"
    have h: "handler_key h = subscription_key key c" "handler_collection h = c" using keys [of h] 2 by (auto simp: filter_eq_Cons_iff)
    have "posted (deliver_event (handlers (objects rt ! n)) (c, event) rt) = posted rt @ ?ms"
      using 2 h by (simp add: deliver_event_def fold_some posted_broadcast)
    then show ?thesis using kept_parts(6) [OF k] by (intro exI [of _ ?ms]) (auto simp: comp_def)
  qed
qed


definition demo_subscribed :: "memory_fs runtime" where
  "demo_subscribed = continue_task demo_platform 0 (receive_message demo_platform 2 demo_envelope
     (continue_task demo_platform 0 (receive_message demo_platform 1 demo_envelope (new_runtime (new_memory_fs 0)))))"

theorem each_event_once_witness:
  "\<exists>ms. posted (deliver_event (handlers (objects demo_subscribed ! 0)) (''users'', JNull) demo_subscribed) =
      posted demo_subscribed @ ms \<and> map fst ms = [1, 2]"
proof -
  let ?r0 = "new_runtime (new_memory_fs 0)"
  let ?r1 = "continue_task demo_platform 0 (receive_message demo_platform 1 demo_envelope ?r0)"
  have t: "env_type demo_envelope \<noteq> Some ''close''" by code_simp
  have o1: "orderly demo_platform (receive_message demo_platform 1 demo_envelope ?r0)"
    by (rule orderly.receive [OF orderly.initial t]) (simp add: subscribing_def new_runtime_def)
  have "0 < length (running (receive_message demo_platform 1 demo_envelope ?r0))" "running ?r1 = []" by code_simp+
  note r1 = this
  have o2: "orderly demo_platform ?r1" by (rule orderly.continue [OF o1 r1(1)])
  have o3: "orderly demo_platform (receive_message demo_platform 2 demo_envelope ?r1)"
    by (rule orderly.receive [OF o2 t]) (auto simp: subscribing_def r1(2) simp del: One_nat_def)
  have "0 < length (running (receive_message demo_platform 2 demo_envelope ?r1))" by code_simp
  then have rt: "orderly demo_platform demo_subscribed" unfolding demo_subscribed_def by (rule orderly.continue [OF o3])
  have c: "cores demo_subscribed ''fylo'' = Some 0" by code_simp
  have h: "\<exists>h \<in> set (handlers (objects demo_subscribed ! 0)). handler_collection h = ''users''"
    "ports_of (subscription_key ''fylo'' ''users'') demo_subscribed = [1, 2]" by code_simp+
  from each_event_once [OF rt c, of "''users''" JNull] h show ?thesis by metis
qed

end
