(* ===== verification/WorkerClient.thy ===== *)
theory WorkerClient imports Worker begin

section \<open>The client of the worker (src/src/browser/worker/client.js)\<close>

text \<open>
  \<open>FyloWorkerClient\<close> numbers its messages, keeps the promises that wait for a reply by identifier, and its listeners
  by collection.  A promise is named by the identifier of its message; a settled one is recorded with its outcome.  A
  page is a client with the queue of its port to the worker; pages and the runtime together make a net, in which each
  port delivers in order and everything else may interleave.
\<close>

subsection \<open>The client\<close>

record page_options =
  opt_namespace :: string
  opt_storage :: jsval
  opt_instance :: "string option"
  opt_root :: "string option"
  opt_worm :: jsval
  opt_wasm :: jsval

datatype outcome = Rejected string | Resolved record_obj

record page =
  options :: page_options
  sequence :: nat
  pending :: "string list"
  settled :: "(string \<times> outcome) list"
  page_listeners :: "(string \<times> nat list) list"
  called :: "(nat \<times> jsval) list"
  outbox :: "envelope list"
  issued :: "string list"

definition new_page :: "page_options \<Rightarrow> page" where
  "new_page opts = \<lparr> options = opts, sequence = 0, pending = [], settled = [], page_listeners = [], called = [],
     outbox = [], issued = [] \<rparr>"

definition nextId :: "int \<Rightarrow> nat \<Rightarrow> string" where
  "nextId now n = int_to_string now @ ''-'' @ digits_of 10 (int n)"

text \<open>A message: the kind, the collection and the request are what the caller of \<open>send\<close> gives.\<close>

definition payload :: "page_options \<Rightarrow> string \<Rightarrow> string option \<Rightarrow> string option \<Rightarrow> jsval \<Rightarrow> envelope" where
  "payload opts i t collection request = \<lparr> env_id = Some i, env_namespace = Some (opt_namespace opts),
     env_instance = opt_instance opts, env_type = t, env_collection = collection, env_request = request,
     env_storage = opt_storage opts, env_root = opt_root opts, env_worm = opt_worm opts, env_wasm = opt_wasm opts \<rparr>"

definition page_send :: "int \<Rightarrow> string option \<Rightarrow> string option \<Rightarrow> jsval \<Rightarrow> page \<Rightarrow> page" where
  "page_send now t collection request pg =
     (let i = nextId now (Suc (sequence pg)) in
      pg\<lparr> sequence := Suc (sequence pg), pending := pending pg @ [i],
          outbox := outbox pg @ [payload (options pg) i t collection request], issued := issued pg @ [i] \<rparr>)"

definition page_request :: "int \<Rightarrow> jsval \<Rightarrow> page \<Rightarrow> page" where
  "page_request now request = page_send now None None request"

definition page_ready :: "int \<Rightarrow> page \<Rightarrow> page" where
  "page_ready now = page_send now (Some ''ready'') None JUndef"

definition page_close :: "int \<Rightarrow> page \<Rightarrow> page" where
  "page_close now pg = (if given (opt_instance (options pg)) then page_send now (Some ''close'') None JUndef pg else pg)"

definition page_subscribe :: "int \<Rightarrow> string \<Rightarrow> nat \<Rightarrow> page \<Rightarrow> page" where
  "page_subscribe now collection f pg =
     (case map_of (page_listeners pg) collection of
        None \<Rightarrow> page_send now (Some ''subscribe'') (Some collection) JUndef
                  (pg\<lparr> page_listeners := AList.update collection [f] (page_listeners pg) \<rparr>)
      | Some members \<Rightarrow> pg\<lparr> page_listeners := AList.update collection (set_add f members) (page_listeners pg) \<rparr>)"

definition page_unsubscribe :: "int \<Rightarrow> string \<Rightarrow> nat \<Rightarrow> page \<Rightarrow> page" where
  "page_unsubscribe now collection f pg =
     (case map_of (page_listeners pg) collection of
        None \<Rightarrow> pg
      | Some members \<Rightarrow> (let rest = remove1 f members in
          if rest = [] then page_send now (Some ''unsubscribe'') (Some collection) JUndef
                  (pg\<lparr> page_listeners := AList.delete collection (page_listeners pg) \<rparr>)
          else pg\<lparr> page_listeners := AList.update collection rest (page_listeners pg) \<rparr>))"

text \<open>A message from the worker: an event goes to the listeners, a reply settles the promise of its identifier.\<close>

definition failure_text :: "record_obj \<Rightarrow> string" where
  "failure_text body =
     (let err = obj_get body ''error'';
          message = (if is_nullish err then JUndef else get_prop err ''message'') in
      if is_nullish message then ''FYLO worker request failed'' else js_to_string message)"

definition outcome_of :: "record_obj \<Rightarrow> outcome" where
  "outcome_of body = (if obj_get body ''ok'' = JBool False then Rejected (failure_text body) else Resolved body)"

definition page_receive :: "worker_message \<Rightarrow> page \<Rightarrow> page" where
  "page_receive message pg = (case message of
      Event_Message namespace collection event \<Rightarrow>
        pg\<lparr> called := called pg @ map (\<lambda>f. (f, event))
          (case map_of (page_listeners pg) collection of None \<Rightarrow> [] | Some members \<Rightarrow> members) \<rparr>
    | Reply i body \<Rightarrow>
        (let key = default_text [] i in
         if key \<in> set (pending pg)
         then pg\<lparr> pending := remove1 key (pending pg), settled := settled pg @ [(key, outcome_of body)] \<rparr>
         else pg))"

text \<open>What \<open>request\<close> makes of the outcome of its message.\<close>

definition page_result :: "outcome \<Rightarrow> jsval result" where
  "page_result out = (case out of
      Rejected m \<Rightarrow> Inl (plain_error m)
    | Resolved body \<Rightarrow> if \<not> js_truthy (obj_get body ''ok'')
        then Inl (plain_error (js_to_string (get_prop (obj_get body ''error'') ''message''))) else Inr (obj_get body ''result''))"

subsection \<open>Identifiers\<close>

lemma digits_rev_digit: "0 \<le> n \<Longrightarrow> c \<in> set (digits_rev 10 n) \<Longrightarrow> \<exists>d. 0 \<le> d \<and> d < 10 \<and> c = digit_char d"
proof (induction "10 :: int" n rule: digits_rev.induct)
  case (1 n)
  show ?case
  proof (cases "n < 10")
    case True
    then show ?thesis using 1 by (auto simp: digits_rev.simps [of 10 n])
  next
    case False
    then consider "c = digit_char (n mod 10)" | "c \<in> set (digits_rev 10 (n div 10))"
      using 1 by (auto simp: digits_rev.simps [of 10 n])
    then show ?thesis
    proof cases
      case 1
      have "0 \<le> n mod 10 \<and> n mod 10 < 10" by simp
      with 1 show ?thesis by blast
    next
      case 2
      have "0 \<le> n div 10" using 1(2) by simp
      with 1(1) 2 False show ?thesis by simp
    qed
  qed
qed

lemma digits_no_dash: "0 \<le> n \<Longrightarrow> CHR ''-'' \<notin> set (digits_of 10 n)"
proof
  assume "0 \<le> n" "CHR ''-'' \<in> set (digits_of 10 n)"
  then obtain d where d: "0 \<le> d" "d < 10" "CHR ''-'' = digit_char d" using digits_rev_digit [of n "CHR ''-''"] by (auto simp: digits_of_def)
  have "(of_char (digit_char d) :: int) = 48 + d" using d(1,2) by (simp add: digit_char_def of_char_of)
  moreover have "(of_char (CHR ''-'') :: int) = 45" by simp
  ultimately have "(45 :: int) = 48 + d" using d(3) by metis
  then show False using d(1) by simp
qed

text \<open>Whatever the clock says, the sequence number alone tells identifiers apart.\<close>

lemma nextId_inject: "nextId s m = nextId t n \<Longrightarrow> m = n"
proof -
  have r: "rev (takeWhile (\<lambda>c. c \<noteq> CHR ''-'') (rev (nextId t n))) = digits_of 10 (int n)" for t n
  proof -
    have "takeWhile (\<lambda>c. c \<noteq> CHR ''-'') (rev (digits_of 10 (int n)) @ CHR ''-'' # rev (int_to_string t)) =
        rev (digits_of 10 (int n))"
      using digits_no_dash [of "int n"] by (subst takeWhile_append2) auto
    then show ?thesis by (simp add: nextId_def)
  qed
  assume "nextId s m = nextId t n"
  then have "digits_of 10 (int m) = digits_of 10 (int n)" using r by metis
  then have "value_of_digits 10 (digits_of 10 (int m)) = value_of_digits 10 (digits_of 10 (int n))" by simp
  then show "m = n" by (simp add: value_digits_of)
qed

subsection \<open>Promises\<close>

text \<open>Every message has its own identifier, and its promise waits or was settled once.\<close>

definition page_kept :: "page \<Rightarrow> bool" where
  "page_kept pg \<longleftrightarrow> distinct (issued pg) \<and> mset (issued pg) = mset (pending pg) + mset (map fst (settled pg)) \<and>
     (\<forall>i \<in> set (issued pg). \<exists>t k. i = nextId t k \<and> k \<le> sequence pg)"

text \<open>The promises that wait are those of the messages in the queue and of those the worker owes.\<close>

lemma page_kept_outbox [simp]: "page_kept (pg\<lparr> outbox := es \<rparr>) = page_kept pg"
  by (simp add: page_kept_def)

definition books_balanced :: "page \<Rightarrow> string option multiset \<Rightarrow> bool" where
  "books_balanced pg due \<longleftrightarrow> image_mset Some (mset (pending pg)) = mset (map env_id (outbox pg)) + due"

definition page_step :: "page \<Rightarrow> page \<Rightarrow> bool" where
  "page_step pg pg' \<longleftrightarrow> (page_kept pg \<longrightarrow> page_kept pg') \<and> (\<forall>due. books_balanced pg due \<longrightarrow> books_balanced pg' due)"

lemma page_step_refl [simp]: "page_step pg pg"
  by (simp add: page_step_def)

lemma page_step_listeners: "page_step (pg\<lparr> page_listeners := x \<rparr>) pg' \<Longrightarrow> page_step pg pg'"
  "page_step pg pg' \<Longrightarrow> page_step pg (pg'\<lparr> page_listeners := x \<rparr>)"
  by (simp_all add: page_step_def page_kept_def books_balanced_def)

lemma page_step_send: "page_step pg (page_send now t c r pg)"
proof -
  let ?i = "nextId now (Suc (sequence pg))"
  have "page_kept (page_send now t c r pg)" if k: "page_kept pg"
  proof -
    have "?i \<notin> set (issued pg)"
    proof
      assume "?i \<in> set (issued pg)"
      then obtain t k where "?i = nextId t k" "k \<le> sequence pg" using k by (auto simp: page_kept_def)
      then show False using nextId_inject by fastforce
    qed
    moreover have "\<exists>t j. i = nextId t j \<and> j \<le> Suc (sequence pg)" if "i \<in> set (issued pg)" for i
      using k that unfolding page_kept_def by (meson le_SucI)
    ultimately show ?thesis using k by (auto simp: page_kept_def page_send_def Let_def)
  qed
  then show ?thesis by (auto simp: page_step_def books_balanced_def page_send_def Let_def payload_def)
qed

lemma page_steps:
  "page_step pg (page_request now request pg)" "page_step pg (page_ready now pg)" "page_step pg (page_close now pg)"
  "page_step pg (page_subscribe now collection f pg)" "page_step pg (page_unsubscribe now collection f pg)"
  by (auto simp: page_request_def page_ready_def page_close_def page_subscribe_def page_unsubscribe_def Let_def page_step_send
      split: option.split intro: page_step_listeners(1) [OF page_step_send] page_step_listeners(2))

subsection \<open>The net\<close>

record 'f net =
  pages :: "page list"
  worker :: "'f runtime"

definition on_page :: "nat \<Rightarrow> (page \<Rightarrow> page) \<Rightarrow> 'f net \<Rightarrow> 'f net" where
  "on_page p f net = net\<lparr> pages := (pages net)[p := f (pages net ! p)] \<rparr>"

text \<open>What a page does on its own: any of the methods of its client.\<close>

inductive page_act :: "page \<Rightarrow> page \<Rightarrow> bool" where
  request: "page_act pg (page_request now request pg)"
| ready: "page_act pg (page_ready now pg)"
| close: "page_act pg (page_close now pg)"
| subscribe: "page_act pg (page_subscribe now collection f pg)"
| unsubscribe: "page_act pg (page_unsubscribe now collection f pg)"

text \<open>The first message of a port arrives at the worker, a task continues, the first message for a page arrives there.\<close>

inductive net_move :: "'f platform \<Rightarrow> 'f net \<Rightarrow> 'f net \<Rightarrow> bool" for plat where
  arrive: "p < length (pages net) \<Longrightarrow> outbox (pages net ! p) = e # es \<Longrightarrow>
    net_move plat net (on_page p (\<lambda>pg. pg\<lparr> outbox := es \<rparr>) (net\<lparr> worker := receive_message plat p e (worker net) \<rparr>))"
| continue: "i < length (running (worker net)) \<Longrightarrow> net_move plat net (net\<lparr> worker := continue_task plat i (worker net) \<rparr>)"
| deliver: "posted (worker net) = xs @ (p, m) # ys \<Longrightarrow> p \<notin> fst ` set xs \<Longrightarrow>
    net_move plat net (on_page p (page_receive m) (net\<lparr> worker := (worker net)\<lparr> posted := xs @ ys \<rparr> \<rparr>))"

inductive reachable_net :: "'f platform \<Rightarrow> 'f net \<Rightarrow> bool" for plat where
  initial: "(\<forall>pg \<in> set pgs. \<exists>opts. pg = new_page opts) \<Longrightarrow> reachable_net plat \<lparr> pages = pgs, worker = new_runtime d \<rparr>"
| act: "reachable_net plat net \<Longrightarrow> p < length (pages net) \<Longrightarrow> page_act (pages net ! p) pg \<Longrightarrow>
    reachable_net plat (on_page p (\<lambda>_. pg) net)"
| move: "reachable_net plat net \<Longrightarrow> net_move plat net net' \<Longrightarrow> reachable_net plat net'"

definition due_to :: "nat \<Rightarrow> 'f runtime \<Rightarrow> string option multiset" where
  "due_to p rt = image_mset snd (filter_mset (\<lambda>q. fst q = p) (owed rt))"

definition net_kept :: "'f net \<Rightarrow> bool" where
  "net_kept net \<longleftrightarrow> (\<forall>p < length (pages net). page_kept (pages net ! p) \<and> books_balanced (pages net ! p) (due_to p (worker net))) \<and>
     (\<forall>p \<ge> length (pages net). due_to p (worker net) = {#})"


lemma due_to_add: "owed rt' = add_mset (q, i) (owed rt) \<Longrightarrow>
    due_to p rt' = (if p = q then add_mset i (due_to p rt) else due_to p rt)"
  by (simp add: due_to_def)

lemma nth_on_page [simp]: "p < length (pages net) \<Longrightarrow>
    pages (on_page q f net) ! p = (if p = q then f (pages net ! p) else pages net ! p)"
  "length (pages (on_page q f net)) = length (pages net)" "worker (on_page q f net) = worker net"
  by (auto simp: on_page_def)

lemma page_act_step: "page_act pg pg' \<Longrightarrow> page_step pg pg'"
  by (induction rule: page_act.induct) (simp_all add: page_steps)

lemma page_receive_reply:
  assumes "page_kept pg" "books_balanced pg (add_mset i due)"
  shows "page_kept (page_receive (Reply i body) pg) \<and> books_balanced (page_receive (Reply i body) pg) due"
proof -
  have "i \<in># image_mset Some (mset (pending pg))" using assms(2) by (simp add: books_balanced_def)
  then obtain key where key: "i = Some key" "key \<in> set (pending pg)" by auto
  have e: "page_receive (Reply i body) pg =
      pg\<lparr> pending := remove1 key (pending pg), settled := settled pg @ [(key, outcome_of body)] \<rparr>"
    using key by (simp add: page_receive_def Let_def default_text_def)
  have m: "mset (pending pg) = add_mset key (mset (remove1 key (pending pg)))" using key(2) by simp
  have "page_kept (page_receive (Reply i body) pg)" using assms(1) key(2) unfolding e by (simp add: page_kept_def)
  moreover have "books_balanced (page_receive (Reply i body) pg) due"
  proof -
    have "image_mset Some (mset (pending pg)) = add_mset (Some key) (image_mset Some (mset (remove1 key (pending pg))))"
      by (subst m) simp
    then have "add_mset (Some key) (image_mset Some (mset (remove1 key (pending pg)))) =
        add_mset (Some key) (mset (map env_id (outbox pg)) + due)"
      using assms(2) key(1) unfolding books_balanced_def by simp
    then show ?thesis unfolding e by (simp add: books_balanced_def)
  qed
  ultimately show ?thesis by blast
qed

lemma page_receive_event: "page_kept (page_receive (Event_Message ns c v) pg) = page_kept pg"
  "books_balanced (page_receive (Event_Message ns c v) pg) due = books_balanced pg due"
  by (simp_all add: page_receive_def page_kept_def books_balanced_def)

lemma net_kept_move:
  assumes k: "net_kept net" and m: "net_move plat net net'"
  shows "net_kept net'"
  using m
proof cases
  case (arrive p e es)
  have d: "due_to q (receive_message plat p e (worker net)) =
      (if q = p then add_mset (env_id e) (due_to q (worker net)) else due_to q (worker net))" for q
    by (rule due_to_add) (rule owed_receive)
  have len: "length (pages net') = length (pages net)" and w: "worker net' = receive_message plat p e (worker net)"
    using arrive(1) by (simp_all add: on_page_def)
  show ?thesis
    unfolding net_kept_def len w
  proof (intro conjI allI impI)
    fix q assume q: "q < length (pages net)"
    then have kq: "page_kept (pages net ! q)" "books_balanced (pages net ! q) (due_to q (worker net))" using k by (simp_all add: net_kept_def)
    have pg: "pages net' ! q = (if q = p then (pages net ! q)\<lparr> outbox := es \<rparr> else pages net ! q)"
      using q by (auto simp: arrive(1) on_page_def nth_list_update)
    show "page_kept (pages net' ! q)" unfolding pg using kq(1) by (cases "q = p") simp_all
    show "books_balanced (pages net' ! q) (due_to q (receive_message plat p e (worker net)))"
      unfolding pg d using kq(2) arrive(3) by (cases "q = p") (simp_all add: books_balanced_def)
  next
    fix q assume "length (pages net) \<le> q"
    then show "due_to q (receive_message plat p e (worker net)) = {#}" using k arrive(2) by (simp add: d net_kept_def)
  qed
next
  case (continue i)
  then have "due_to q (continue_task plat i (worker net)) = due_to q (worker net)" for q
    by (simp add: due_to_def owed_continue)
  then show ?thesis using k continue by (simp add: net_kept_def)
next
  case (deliver xs p m ys)
  let ?rt = "(worker net)\<lparr> posted := xs @ ys \<rparr>"
  have len: "length (pages net') = length (pages net)" and w: "worker net' = ?rt" using deliver(1) by (simp_all add: on_page_def)
  have pg: "pages net' ! q = (if q = p then page_receive m (pages net ! q) else pages net ! q)" if "q < length (pages net)" for q
    using that by (auto simp: deliver(1) on_page_def nth_list_update)
  show ?thesis
  proof (cases m)
    case (Reply i body)
    have "owed (worker net) = add_mset (p, i) (owed ?rt)" using deliver(2) Reply by (simp add: owed_def)
    then have d: "due_to q (worker net) = (if q = p then add_mset i (due_to q ?rt) else due_to q ?rt)" for q
      by (rule due_to_add)
    show ?thesis
      unfolding net_kept_def len w
    proof (intro conjI allI impI)
      fix q assume q: "q < length (pages net)"
      then have "page_kept (pages net ! q)" "books_balanced (pages net ! q) (due_to q (worker net))" using k by (simp_all add: net_kept_def)
      then have "page_kept (pages net' ! q) \<and> books_balanced (pages net' ! q) (due_to q ?rt)"
        using pg [OF q] d [of q] page_receive_reply [of "pages net ! q" i "due_to q ?rt" body] Reply by (cases "q = p") simp_all
      then show "page_kept (pages net' ! q)" "books_balanced (pages net' ! q) (due_to q ?rt)" by simp_all
    next
      fix q assume "length (pages net) \<le> q"
      then have "due_to q (worker net) = {#}" using k by (simp add: net_kept_def)
      then show "due_to q ?rt = {#}" using d [of q] by (simp split: if_splits)
    qed
  next
    case (Event_Message ns c v)
    have "owed (worker net) = owed ?rt" using deliver(2) Event_Message by (simp add: owed_def)
    then have "due_to q ?rt = due_to q (worker net)" for q by (simp add: due_to_def)
    then show ?thesis using k pg Event_Message by (simp add: net_kept_def len w page_receive_event)
  qed
qed

lemma reachable_net_kept: "reachable_net plat net \<Longrightarrow> net_kept net"
proof (induction rule: reachable_net.induct)
  case (initial pgs d)
  have "due_to p (new_runtime d) = {#}" for p by (simp add: due_to_def owed_def new_runtime_def)
  moreover have "page_kept (pgs ! p) \<and> books_balanced (pgs ! p) {#}" if lt: "p < length pgs" for p
  proof -
    obtain opts where "pgs ! p = new_page opts" using initial nth_mem [OF lt] by blast
    then show ?thesis by (simp add: page_kept_def books_balanced_def new_page_def)
  qed
  ultimately show ?case by (simp add: net_kept_def)
next
  case (act net p pg)
  then show ?case using page_act_step [OF act(3)] by (auto simp: net_kept_def page_step_def)
next
  case (move net net')
  then show ?case using net_kept_move by blast
qed


subsection \<open>Every call is answered\<close>

definition at_rest :: "'f net \<Rightarrow> bool" where
  "at_rest net \<longleftrightarrow> (\<forall>pg \<in> set (pages net). outbox pg = []) \<and> running (worker net) = [] \<and> posted (worker net) = []"

definition queued_messages :: "'f net \<Rightarrow> nat" where
  "queued_messages net = sum_list (map (length \<circ> outbox) (pages net))"

definition net_order :: "('f net \<times> 'f net) set" where
  "net_order = measures [queued_messages, \<lambda>net. length (running (worker net)), \<lambda>net. length (posted (worker net))]"

lemma queued_on_page: "p < length (pages net) \<Longrightarrow> outbox (f (pages net ! p)) = outbox (pages net ! p) \<Longrightarrow>
    queued_messages (on_page p f net) = queued_messages net"
  unfolding queued_messages_def on_page_def by (simp add: map_same_update)

lemma page_receive_outbox [simp]: "outbox (page_receive m pg) = outbox pg" "issued (page_receive m pg) = issued pg"
  by (simp_all add: page_receive_def Let_def split: worker_message.split)

text \<open>A message in the net can always move on, and moves cannot go on for ever.\<close>

lemma can_move:
  assumes "\<not> at_rest net"
  shows "\<exists>net'. net_move plat net net' \<and> (net', net) \<in> net_order"
proof -
  consider (outbox) p e es where "p < length (pages net)" "outbox (pages net ! p) = e # es"
    | (task) "running (worker net) \<noteq> []"
    | (post) p m ys where "posted (worker net) = (p, m) # ys"
  proof (cases "\<exists>pg \<in> set (pages net). outbox pg \<noteq> []")
    case True
    then obtain p where "p < length (pages net)" "outbox (pages net ! p) \<noteq> []" by (metis in_set_conv_nth)
    then show ?thesis using that(1) by (cases "outbox (pages net ! p)") auto
  next
    case False
    then have "running (worker net) \<noteq> [] \<or> posted (worker net) \<noteq> []" using assms by (simp add: at_rest_def)
    then show ?thesis using that(2,3) by (cases "posted (worker net)") auto
  qed
  then show ?thesis
  proof cases
    case (outbox p e es)
    let ?net = "on_page p (\<lambda>pg. pg\<lparr> outbox := es \<rparr>) (net\<lparr> worker := receive_message plat p e (worker net) \<rparr>)"
    have "sum_list ((map (length \<circ> page.outbox) (pages net))[p := length es]) < sum_list (map (length \<circ> page.outbox) (pages net))"
      using outbox elem_le_sum_list [of p "map (length \<circ> page.outbox) (pages net)"] by (simp add: sum_list_update)
    then have "queued_messages ?net < queued_messages net" by (simp add: queued_messages_def on_page_def map_update)
    then show ?thesis using net_move.arrive [OF outbox] by (auto simp: net_order_def)
  next
    case task
    then have "0 < length (running (worker net))" by simp
    from net_move.continue [OF this, of plat] this show ?thesis
      by (auto simp: net_order_def queued_messages_def running_continue)
  next
    case (post p m ys)
    have "queued_messages (on_page p (page_receive m) (net\<lparr> worker := (worker net)\<lparr> posted := ys \<rparr> \<rparr>)) = queued_messages net"
    proof (cases "p < length (pages net)")
      case True
      then show ?thesis
        using queued_on_page [of p "net\<lparr> worker := (worker net)\<lparr> posted := ys \<rparr> \<rparr>" "page_receive m"]
        by (simp add: queued_messages_def)
    next
      case False
      then show ?thesis by (simp add: queued_messages_def on_page_def list_update_beyond)
    qed
    then have "(on_page p (page_receive m) (net\<lparr> worker := (worker net)\<lparr> posted := ys \<rparr> \<rparr>), net) \<in> net_order"
      using post by (simp add: net_order_def)
    then show ?thesis using net_move.deliver [of net "[]" p m ys plat] post by auto
  qed
qed

lemma move_issued: "net_move plat net net' \<Longrightarrow> map issued (pages net') = map issued (pages net)"
  by (induction rule: net_move.induct) (simp_all add: on_page_def map_same_update)

lemma comes_to_rest: "\<exists>net'. (net_move plat)\<^sup>*\<^sup>* net net' \<and> at_rest net' \<and> map issued (pages net') = map issued (pages net)"
proof (induction net rule: wf_induct [of net_order])
  case 1
  show ?case by (simp add: net_order_def)
next
  case (2 net)
  show ?case
  proof (cases "at_rest net")
    case False
    then obtain n where n: "net_move plat net n" "(n, net) \<in> net_order" using can_move by blast
    then obtain net' where "(net_move plat)\<^sup>*\<^sup>* n net'" "at_rest net'" "map issued (pages net') = map issued (pages n)"
      using 2 by blast
    then show ?thesis using n(1) move_issued [OF n(1)] by (metis converse_rtranclp_into_rtranclp)
  qed blast
qed

lemma reachable_moves: "(net_move plat)\<^sup>*\<^sup>* net net' \<Longrightarrow> reachable_net plat net \<Longrightarrow> reachable_net plat net'"
  by (induction rule: rtranclp_induct) (auto intro: reachable_net.move)

lemma rest_settled:
  assumes "net_kept net" "at_rest net" "p < length (pages net)"
  shows "pending (pages net ! p) = []"
proof -
  have "outbox (pages net ! p) = []" "due_to p (worker net) = {#}"
    using assms(2,3) by (simp_all add: at_rest_def due_to_def owed_def)
  moreover have "books_balanced (pages net ! p) (due_to p (worker net))" using assms(1,3) by (simp add: net_kept_def)
  ultimately show ?thesis by (simp add: books_balanced_def)
qed



definition demo_options :: page_options where
  "demo_options = \<lparr> opt_namespace = ''app'', opt_storage = JStr ''memory'', opt_instance = None, opt_root = None,
     opt_worm = JUndef, opt_wasm = JUndef \<rparr>"


subsection \<open>A request through the worker\<close>

text \<open>The messages for one page, in their order.\<close>

definition page_deliver :: "nat \<Rightarrow> (nat \<times> worker_message) list \<Rightarrow> page \<Rightarrow> page" where
  "page_deliver p = fold (\<lambda>(q, m). if q = p then page_receive m else id)"

definition only_events :: "(nat \<times> worker_message) list \<Rightarrow> bool" where
  "only_events ms \<longleftrightarrow> (\<forall>(q, m) \<in> set ms. \<exists>ns c v. m = Event_Message ns c v)"

definition posts_events :: "'f runtime \<Rightarrow> 'f runtime \<Rightarrow> bool" where
  "posts_events rt rt' \<longleftrightarrow> host rt' = host rt \<and> (\<exists>ms. posted rt' = posted rt @ ms \<and> only_events ms)"

lemma posts_events_refl [simp]: "posts_events rt rt"
  by (simp add: posts_events_def only_events_def)

lemma posts_events_trans: "posts_events a b \<Longrightarrow> posts_events b c \<Longrightarrow> posts_events a c"
  unfolding posts_events_def only_events_def by (metis (no_types, lifting) Un_iff append.assoc set_append)

lemma posts_events_fold: "(\<And>x r. posts_events r (f x r)) \<Longrightarrow> posts_events rt (fold f xs rt)"
  by (induction xs arbitrary: rt) (auto intro: posts_events_trans)

lemma posts_events_deliver: "posts_events rt (deliver_event hs p rt)"
proof -
  have "posts_events r (post q (Event_Message ns c v) r)" for q ns c v and r :: "'a runtime"
    by (auto simp: posts_events_def post_def only_events_def)
  then have "posts_events r (broadcast key ns c v r)" for key ns c v and r :: "'a runtime"
    unfolding broadcast_def by (rule posts_events_fold)
  then show ?thesis unfolding deliver_event_def by (intro posts_events_fold) simp
qed

lemma on_core_posts:
  assumes "m (object_core (objects rt ! n)) ((object_world (objects rt ! n))\<lparr> disk := host rt \<rparr>) = (r, v)"
  shows "\<exists>rt' ms. on_core n m rt = (r, rt') \<and> host rt' = disk v \<and> posted rt' = posted rt @ ms \<and> only_events ms"
proof -
  let ?rt = "rt\<lparr> host := disk v, objects := (objects rt)[n := (objects rt ! n)\<lparr> object_world := v \<rparr>] \<rparr>"
  let ?rt' = "fold (deliver_event (handlers (objects rt ! n))) (drop (length (dispatched (object_world (objects rt ! n)))) (dispatched v)) ?rt"
  have "on_core n m rt = (r, ?rt')" using assms by (simp add: on_core_def Let_def)
  moreover have "posts_events ?rt ?rt'" by (rule posts_events_fold) (rule posts_events_deliver)
  ultimately show ?thesis by (auto simp: posts_events_def)
qed

lemma deliver_events:
  "only_events ms \<Longrightarrow> settled (page_deliver p ms pg) = settled pg \<and> pending (page_deliver p ms pg) = pending pg"
  by (induction ms arbitrary: pg) (fastforce simp: only_events_def page_deliver_def page_receive_def)+

lemma page_deliver_append: "page_deliver p (xs @ ys) pg = page_deliver p ys (page_deliver p xs pg)"
  by (simp add: page_deliver_def)

text \<open>What the body of a request becomes on the page.\<close>

definition page_view :: "jsval result \<Rightarrow> jsval result" where
  "page_view r = (case r of Inr result \<Rightarrow> Inr result
     | Inl e \<Rightarrow> Inl (plain_error (if err_message e = [] then ''Unknown error'' else err_message e)))"

lemma response_view:
  assumes "executeBrowserOperation fylo (JObj ob) (w\<lparr> ticks := Suc (ticks w) \<rparr>) = (r, v)"
  shows "\<exists>body. runBrowserRequest fylo (JObj ob) w = (Inr (JObj body), v\<lparr> ticks := Suc (ticks v) \<rparr>) \<and>
    page_result (outcome_of body) = page_view r"
proof (cases r)
  case (Inl e)
  then show ?thesis using assms
    by (simp add: runBrowserRequest_def bind_op_def catch_op_def date_now_def Let_def response_head_def error_body_def
        outcome_of_def failure_text_def page_result_def page_view_def get_prop_def is_nullish_def)
next
  case (Inr result)
  then show ?thesis using assms
    by (simp add: runBrowserRequest_def bind_op_def catch_op_def date_now_def Let_def response_head_def
        outcome_of_def page_result_def page_view_def js_truthy_def)
qed

text \<open>C17. A request through the worker is the request on the core: when a page calls request on an idle runtime, the
  message finds its core, the promise is settled with what the operation of the core returns, or with a plain error
  with its message when it throws, no other promise is touched, and the host is left as the core leaves it.\<close>

theorem worker_request_agrees:
  assumes "running rt = []" and "page_kept pg"
    and "runtime_core plat (payload (options pg) (nextId now (Suc (sequence pg))) None None (JObj request)) rt = (Inr n, rt1)"
    and "index_ready (object_core (objects rt1 ! n)) ((object_world (objects rt1 ! n))\<lparr> disk := host rt1 \<rparr>) = (Inr (), w)"
    and "executeBrowserOperation (core_api (object_core (objects rt1 ! n)) (platform_elapsed plat)) (JObj request)
      (w\<lparr> ticks := Suc (ticks w) \<rparr>) = (r, v)"
  shows "let sent = page_request now (JObj request) pg;
             rt2 = continue_task plat 0 (receive_message plat p (last (outbox sent)) rt);
             back = page_deliver p (drop (length (posted rt)) (posted rt2)) sent in
    running rt2 = [] \<and> host rt2 = disk v \<and> pending back = pending pg \<and>
    (\<exists>out. settled back = settled pg @ [(nextId now (Suc (sequence pg)), out)] \<and> page_result out = page_view r)"
proof -
  let ?i = "nextId now (Suc (sequence pg))" and ?c = "object_core (objects rt1 ! n)"
  let ?e = "payload (options pg) ?i None None (JObj request)"
  let ?sent = "page_request now (JObj request) pg"
  have fresh: "?i \<notin> set (pending pg)"
  proof
    assume "?i \<in> set (pending pg)"
    then have "?i \<in># mset (issued pg)" using assms(2) by (simp add: page_kept_def)
    then obtain t k where "?i = nextId t k" "k \<le> sequence pg" using assms(2) by (auto simp: page_kept_def)
    then show False using nextId_inject by fastforce
  qed
  have sent: "last (outbox ?sent) = ?e" "pending ?sent = pending pg @ [?i]" "settled ?sent = settled pg"
    by (simp_all add: page_request_def page_send_def Let_def)
  obtain body where body: "runBrowserRequest (core_api ?c (platform_elapsed plat)) (JObj request) w =
      (Inr (JObj body), v\<lparr> ticks := Suc (ticks v) \<rparr>)" "page_result (outcome_of body) = page_view r"
    using response_view [OF assms(5)] by blast
  have rt1: "running rt1 = []" "posted rt1 = posted rt" using assms(1,3)
    by (auto simp: runtime_core_def Let_def split: option.splits sum.splits)
  have "seq_op (index_ready ?c) (runBrowserRequest (core_api ?c (platform_elapsed plat)) (JObj request))
      ((object_world (objects rt1 ! n))\<lparr> disk := host rt1 \<rparr>) = (Inr (JObj body), v\<lparr> ticks := Suc (ticks v) \<rparr>)"
    using assms(4) body(1) by (simp add: seq_op_def bind_op_def)
  from on_core_posts [of "\<lambda>c. seq_op (index_ready c) (runBrowserRequest (core_api c (platform_elapsed plat)) (JObj request))", OF this]
  obtain rt' ms where on: "on_core n (\<lambda>c. seq_op (index_ready c) (runBrowserRequest (core_api c (platform_elapsed plat)) (JObj request))) rt1 =
      (Inr (JObj body), rt')" "host rt' = disk v" "posted rt' = posted rt @ ms" "only_events ms"
    using rt1(2) by auto
  have none: "running rt' = []" using same_calls_on_core [OF on(1)] rt1(1) by (simp add: same_calls_def)
  have "receive_message plat p ?e rt = start_task (Request_Task p ?e n) rt1"
    using assms(3) by (simp add: receive_message_def payload_def js_truthy_def with_core_def)
  then have "continue_task plat 0 (receive_message plat p ?e rt) = run_task plat (Request_Task p ?e n) (rt1\<lparr> running := [] \<rparr>)"
    using rt1(1) by (simp add: continue_task_def start_task_def)
  moreover have "rt1\<lparr> running := [] \<rparr> = rt1" using rt1(1) by (cases rt1) simp
  ultimately have "continue_task plat 0 (receive_message plat p ?e rt) = run_task plat (Request_Task p ?e n) rt1"
    by (simp only:)
  then have "continue_task plat 0 (receive_message plat p ?e rt) = post p (Reply (Some ?i) body) rt'"
    using on(1) by (simp add: run_task_def answer_def fields_of_def payload_def)
  moreover have "page_deliver p (ms @ [(p, Reply (Some ?i) body)]) ?sent =
      page_receive (Reply (Some ?i) body) (page_deliver p ms ?sent)"
    by (simp add: page_deliver_append) (simp add: page_deliver_def)
  ultimately show ?thesis
    using on body(2) deliver_events [OF on(4), of p ?sent] sent fresh none
    by (simp add: Let_def post_def page_receive_def default_text_def remove1_append)
qed


theorem worker_request_agrees_witness:
  "\<exists>out. settled (page_deliver 0 (posted (continue_task demo_platform 0 (receive_message demo_platform 0
      (payload demo_options ''0-1'' None None (JObj [(''op'', JStr ''nope'')])) (new_runtime (new_memory_fs 0)))))
      (page_request 0 (JObj [(''op'', JStr ''nope'')]) (new_page demo_options))) = [(''0-1'', out)] \<and>
    page_result out = Inl (plain_error ''Unsupported FYLO browser operation: nope'')"
proof -
  let ?rt = "new_runtime (new_memory_fs 0)" and ?pg = "new_page demo_options"
  let ?request = "[(''op'', JStr ''nope'')]"
  have i: "nextId 0 (Suc (sequence ?pg)) = ''0-1''" by code_simp
  let ?e = "payload (options ?pg) (nextId 0 (Suc (sequence ?pg))) None None (JObj ?request)"
  have "normalizeBrowserStorage (JStr ''memory'') = Inr MemoryStorage" by code_simp
  then obtain k where "make_core demo_platform 0 ?e = Inr k"
    by (simp add: make_core_def payload_def new_page_def demo_options_def is_nullish_def)
  then obtain rt1 where rt1: "runtime_core demo_platform ?e ?rt = (Inr 0, rt1)"
    by (simp add: runtime_core_def new_runtime_def Let_def)
  obtain w where w: "index_ready (object_core (objects rt1 ! 0)) ((object_world (objects rt1 ! 0))\<lparr> disk := host rt1 \<rparr>) = (Inr (), w)"
    using index_ready_ok by blast
  let ?w = "w\<lparr> ticks := Suc (ticks w) \<rparr>"
  have op: "executeBrowserOperation (core_api (object_core (objects rt1 ! 0)) (platform_elapsed demo_platform)) (JObj ?request) ?w =
      (Inl (plain_error ''Unsupported FYLO browser operation: nope''), ?w)"
    by (simp add: executeBrowserOperation_def isBrowserRequest_def isRecord_def is_object_def is_array_def get_prop_def
        obj_get_def BROWSER_OPERATIONS_def throw_def Let_def is_string_def)
  have run: "running ?rt = []" and kept: "page_kept ?pg" and posted: "posted ?rt = []" and
    sent: "last (outbox (page_request 0 (JObj ?request) ?pg)) = ?e" and s: "settled ?pg = []"
    by (simp_all add: new_runtime_def new_page_def page_kept_def page_request_def page_send_def Let_def)
  note r = worker_request_agrees [OF run kept rt1 w op, of 0, unfolded Let_def sent posted s]
  then show ?thesis unfolding i by (simp add: page_view_def new_page_def)
qed

end
